(* ===== verification/Prelude_Db.thy ===== *)
theory Prelude_Db
  imports Main "HOL-Library.Word"
begin

text \<open>
  Shared vocabulary of the development: the error codes of \<open>src/common/error.h\<close>, the fixed-width
  C integers, byte buffers with \<open>memcpy\<close>, little-endian encodings, and the generic lemmas on
  them that the component theories use through the collections \<open>mem_simps\<close> and \<open>int_simps\<close>.

  A buffer is a function from offsets to bytes. A C read or write out of the bounds of the buffer
  is therefore visible in the model as an access at an offset of at least \<open>PAGE_SIZE\<close>; the
  component theories prove that no operation on a well-formed page writes there. Unsigned C
  integers are \<open>nat\<close> with the wrap-around written out (\<open>u16\<close>, \<open>u32\<close>, \<open>u64\<close>), signed ones are
  \<open>int\<close>, read back from their bytes in two's complement.
\<close>

named_theorems mem_simps \<open>reads over writes of a byte buffer\<close>
named_theorems int_simps \<open>fixed-width integers inside their range\<close>

section \<open>Error codes\<close>

datatype error_code =
    DB_OK
  | DB_IO_ERROR | DB_PAGE_NOT_FOUND | DB_BUFFER_POOL_FULL | DB_FILE_NOT_OPEN
  | DB_TXN_ABORTED | DB_DEADLOCK | DB_LOCK_CONFLICT
  | DB_SYNTAX_ERROR | DB_UNKNOWN_TABLE | DB_UNKNOWN_COLUMN | DB_DUPLICATE_KEY
  | DB_NULL_VIOLATION | DB_TYPE_MISMATCH | DB_INVALID_ARGUMENT
  | DB_OUT_OF_MEMORY
  | DB_INTERNAL_ERROR

text \<open>The numeric value of each enumerator, for the functions that return an id or a code in one int.\<close>

fun code_of :: "error_code \<Rightarrow> int" where
  "code_of DB_OK = 0"
| "code_of DB_IO_ERROR = 1001"
| "code_of DB_PAGE_NOT_FOUND = 1002"
| "code_of DB_BUFFER_POOL_FULL = 1003"
| "code_of DB_FILE_NOT_OPEN = 1004"
| "code_of DB_TXN_ABORTED = 2001"
| "code_of DB_DEADLOCK = 2002"
| "code_of DB_LOCK_CONFLICT = 2003"
| "code_of DB_SYNTAX_ERROR = 3001"
| "code_of DB_UNKNOWN_TABLE = 3002"
| "code_of DB_UNKNOWN_COLUMN = 3003"
| "code_of DB_DUPLICATE_KEY = 3004"
| "code_of DB_NULL_VIOLATION = 3005"
| "code_of DB_TYPE_MISMATCH = 3006"
| "code_of DB_INVALID_ARGUMENT = 3007"
| "code_of DB_OUT_OF_MEMORY = 4001"
| "code_of DB_INTERNAL_ERROR = 9001"

definition error_table :: "(error_code \<times> string) list" where
  "error_table =
    [(DB_OK, ''OK''),
     (DB_IO_ERROR, ''I/O error''),
     (DB_PAGE_NOT_FOUND, ''Page not found''),
     (DB_BUFFER_POOL_FULL, ''Buffer pool full''),
     (DB_FILE_NOT_OPEN, ''File not open''),
     (DB_TXN_ABORTED, ''Transaction aborted''),
     (DB_DEADLOCK, ''Deadlock detected''),
     (DB_LOCK_CONFLICT, ''Lock conflict''),
     (DB_SYNTAX_ERROR, ''Syntax error''),
     (DB_UNKNOWN_TABLE, ''Unknown table''),
     (DB_UNKNOWN_COLUMN, ''Unknown column''),
     (DB_DUPLICATE_KEY, ''Duplicate key''),
     (DB_NULL_VIOLATION, ''NULL violation''),
     (DB_TYPE_MISMATCH, ''Type mismatch''),
     (DB_INVALID_ARGUMENT, ''Invalid argument''),
     (DB_OUT_OF_MEMORY, ''Out of memory''),
     (DB_INTERNAL_ERROR, ''Internal error'')]"

fun error_msg :: "(error_code \<times> string) list \<Rightarrow> int \<Rightarrow> string" where
  "error_msg [] code = ''Unknown error''"
| "error_msg ((c, msg) # rest) code = (if code_of c = code then msg else error_msg rest code)"

definition error_code_to_string :: "int \<Rightarrow> string" where
  "error_code_to_string code = error_msg error_table code"

lemma code_of_nonneg: "0 \<le> code_of e"
  by (cases e) simp_all

lemma code_of_eq_0 [simp]: "code_of e = 0 \<longleftrightarrow> e = DB_OK"
  by (cases e) simp_all

lemma code_of_inj: "code_of a = code_of b \<Longrightarrow> a = b"
  by (cases a; cases b; simp)

section \<open>Constants of config.h and types.h\<close>

abbreviation (input) PAGE_SIZE :: nat where "PAGE_SIZE \<equiv> 4096"
abbreviation (input) PAGE_HEADER_SIZE :: nat where "PAGE_HEADER_SIZE \<equiv> 24"
abbreviation (input) SLOT_SIZE :: nat where "SLOT_SIZE \<equiv> 4"
abbreviation (input) INVALID_PAGE_ID :: int where "INVALID_PAGE_ID \<equiv> -1"
abbreviation (input) INVALID_SLOT_ID :: int where "INVALID_SLOT_ID \<equiv> -1"
abbreviation (input) INVALID_LSN :: int where "INVALID_LSN \<equiv> 0"
abbreviation (input) INVALID_TXN_ID :: int where "INVALID_TXN_ID \<equiv> -1"

record rid =
  rid_page :: int
  rid_slot :: int

section \<open>Fixed-width integers\<close>

type_synonym byte = "8 word"
type_synonym uintptr = "64 word"

definition u16 :: "nat \<Rightarrow> nat" where "u16 x = x mod 65536"
definition u32 :: "nat \<Rightarrow> nat" where "u32 x = x mod 4294967296"

lemma u16_id [int_simps]: "x < 65536 \<Longrightarrow> u16 x = x"
  by (simp add: u16_def)

lemma u32_id [int_simps]: "x < 4294967296 \<Longrightarrow> u32 x = x"
  by (simp add: u32_def)

lemma u16_less [simp]: "u16 x < 65536"
  by (simp add: u16_def)

lemma u32_less [simp]: "u32 x < 4294967296"
  by (simp add: u32_def)

text \<open>The bit pattern of a signed integer, and the two's complement reading of a pattern.\<close>

definition pattern :: "nat \<Rightarrow> int \<Rightarrow> nat" where
  "pattern w i = nat (i mod 2 ^ w)"

definition to_signed :: "nat \<Rightarrow> nat \<Rightarrow> int" where
  "to_signed w n = (if n < 2 ^ (w - 1) then int n else int n - 2 ^ w)"

definition in_range :: "nat \<Rightarrow> int \<Rightarrow> bool" where
  "in_range w i \<longleftrightarrow> - (2 ^ (w - 1)) \<le> i \<and> i < 2 ^ (w - 1)"

lemma pattern_less: "pattern w i < 2 ^ w"
  by (simp add: pattern_def nat_less_iff)

lemma signed_pattern [int_simps]:
  assumes w: "0 < w" and r: "in_range w i"
  shows "to_signed w (pattern w i) = i"
proof -
  obtain v where v: "w = Suc v" using w by (cases w) auto
  have lo: "- (2 ^ v) \<le> i" and hi: "i < 2 ^ v" using r by (simp_all add: in_range_def v)
  show ?thesis
  proof (cases "0 \<le> i")
    case True
    have "i mod 2 ^ w = i" using True hi by (simp add: v)
    then show ?thesis using True hi by (simp add: to_signed_def pattern_def v nat_less_iff)
  next
    case False
    have pos: "0 \<le> i + 2 ^ w"
      using lo zero_le_power [of "2::int" v] unfolding v power_Suc by linarith
    have "(i + 2 ^ w) mod 2 ^ w = i + 2 ^ w"
      using lo False by (intro mod_pos_pos_trivial) (auto simp: v)
    then have m: "i mod 2 ^ w = i + 2 ^ w" by simp
    have "\<not> nat (i + 2 ^ w) < 2 ^ v"
    proof
      assume "nat (i + 2 ^ w) < 2 ^ v"
      then have "i + 2 ^ w < int (2 ^ v)" using lo by (simp add: nat_less_iff v)
      then show False using lo by (simp add: v)
    qed
    with pos show ?thesis by (simp add: to_signed_def pattern_def m [unfolded v power_Suc] v)
  qed
qed

section \<open>Byte encodings\<close>

text \<open>\<open>le_bytes n v\<close> is what \<open>memcpy\<close> of an n-byte integer with bit pattern v writes on a little-endian
  machine, and \<open>le_nat\<close> what reading those bytes back gives.\<close>

fun le_bytes :: "nat \<Rightarrow> nat \<Rightarrow> byte list" where
  "le_bytes 0 v = []"
| "le_bytes (Suc n) v = of_nat v # le_bytes n (v div 256)"

fun le_nat :: "byte list \<Rightarrow> nat" where
  "le_nat [] = 0"
| "le_nat (b # bs) = unat b + 256 * le_nat bs"

lemma length_le_bytes [simp]: "length (le_bytes n v) = n"
  by (induction n arbitrary: v) simp_all

lemma le_nat_le_bytes: "le_nat (le_bytes n v) = v mod 256 ^ n"
proof (induction n arbitrary: v)
  case (Suc n)
  have "v mod (256 * 256 ^ n) = 256 * (v div 256 mod 256 ^ n) + v mod 256"
    by (rule mod_mult2_eq)
  then show ?case by (simp add: Suc unat_of_nat)
qed simp

lemma le_nat_less: "le_nat bs < 256 ^ length bs"
proof (induction bs)
  case (Cons b bs)
  have "unat b < 256" using unsigned_less [of b, where ?'a = nat] by simp
  with Cons have "unat b + 256 * le_nat bs < 256 * 256 ^ length bs" by linarith
  then show ?case by simp
qed simp

section \<open>Buffers\<close>

type_synonym buffer = "nat \<Rightarrow> byte"

definition zero_page :: buffer where "zero_page = (\<lambda>_. 0)"

definition mem_read :: "buffer \<Rightarrow> nat \<Rightarrow> nat \<Rightarrow> byte list" where
  "mem_read m off n = map (\<lambda>i. m (off + i)) [0..<n]"

definition mem_write :: "buffer \<Rightarrow> nat \<Rightarrow> byte list \<Rightarrow> buffer" where
  "mem_write m off bs = (\<lambda>i. if off \<le> i \<and> i < off + length bs then bs ! (i - off) else m i)"

text \<open>\<open>memmove(m + dst, m + src, n)\<close> reads all its source before it writes.\<close>

definition mem_move :: "buffer \<Rightarrow> nat \<Rightarrow> nat \<Rightarrow> nat \<Rightarrow> buffer" where
  "mem_move m dst src n = mem_write m dst (mem_read m src n)"

lemma length_mem_read [simp]: "length (mem_read m off n) = n"
  by (simp add: mem_read_def)

lemma mem_read_0 [simp]: "mem_read m off 0 = []"
  by (simp add: mem_read_def)

lemma mem_read_nth [simp]: "i < n \<Longrightarrow> mem_read m off n ! i = m (off + i)"
  by (simp add: mem_read_def)

lemma mem_write_outside [mem_simps]: "i < off \<or> off + length bs \<le> i \<Longrightarrow> mem_write m off bs i = m i"
  by (auto simp: mem_write_def)

lemma mem_write_inside: "off \<le> i \<Longrightarrow> i < off + length bs \<Longrightarrow> mem_write m off bs i = bs ! (i - off)"
  by (simp add: mem_write_def)

lemma mem_write_Nil [simp]: "mem_write m off [] = m"
  by (rule ext) (auto simp: mem_write_def)

lemma mem_read_cong: "(\<And>i. off \<le> i \<Longrightarrow> i < off + n \<Longrightarrow> m i = m' i) \<Longrightarrow> mem_read m off n = mem_read m' off n"
  unfolding mem_read_def by (intro map_cong) auto

lemma mem_read_write_same [mem_simps]: "n = length bs \<Longrightarrow> mem_read (mem_write m off bs) off n = bs"
  by (rule nth_equalityI) (simp_all add: mem_write_def)

lemma mem_read_write_other [mem_simps]:
  "off + n \<le> off' \<or> off' + length bs \<le> off \<Longrightarrow>
   mem_read (mem_write m off' bs) off n = mem_read m off n"
  by (rule mem_read_cong) (auto simp: mem_write_def)

lemma mem_read_write_part [mem_simps]:
  "off' \<le> off \<Longrightarrow> off + n \<le> off' + length bs \<Longrightarrow>
   mem_read (mem_write m off' bs) off n = take n (drop (off - off') bs)"
  by (rule nth_equalityI) (auto simp: mem_write_def)

subsection \<open>Integers in a buffer\<close>

definition get_u :: "nat \<Rightarrow> buffer \<Rightarrow> nat \<Rightarrow> nat" where
  "get_u n m off = le_nat (mem_read m off n)"

definition put_u :: "nat \<Rightarrow> buffer \<Rightarrow> nat \<Rightarrow> nat \<Rightarrow> buffer" where
  "put_u n m off v = mem_write m off (le_bytes n v)"

definition get_s :: "nat \<Rightarrow> buffer \<Rightarrow> nat \<Rightarrow> int" where
  "get_s n m off = to_signed (8 * n) (get_u n m off)"

definition put_s :: "nat \<Rightarrow> buffer \<Rightarrow> nat \<Rightarrow> int \<Rightarrow> buffer" where
  "put_s n m off v = put_u n m off (pattern (8 * n) v)"

lemma get_u_less: "get_u n m off < 256 ^ n"
  using le_nat_less [of "mem_read m off n"] by (simp add: get_u_def)

lemma get_put_u [mem_simps]: "v < 256 ^ n \<Longrightarrow> get_u n (put_u n m off v) off = v"
  by (simp add: get_u_def put_u_def mem_simps le_nat_le_bytes)

lemma get_put_u_mod: "get_u n (put_u n m off v) off = v mod 256 ^ n"
  by (simp add: get_u_def put_u_def mem_simps le_nat_le_bytes)

lemma get_put_s [mem_simps]:
  assumes n: "0 < n" and r: "in_range (8 * n) v"
  shows "get_s n (put_s n m off v) off = v"
proof -
  have "(256::nat) ^ n = 2 ^ (8 * n)" by (simp add: power_mult)
  then have "pattern (8 * n) v < 256 ^ n" using pattern_less [of "8 * n" v] by simp
  then show ?thesis using n r by (simp add: get_s_def put_s_def mem_simps int_simps)
qed

text \<open>A field that does not overlap the written bytes keeps its value.\<close>

lemma get_u_write_other [mem_simps]:
  "off + n \<le> off' \<or> off' + length bs \<le> off \<Longrightarrow> get_u n (mem_write m off' bs) off = get_u n m off"
  by (simp add: get_u_def mem_simps)

lemma get_u_put_u_other [mem_simps]:
  "off + n \<le> off' \<or> off' + k \<le> off \<Longrightarrow> get_u n (put_u k m off' v) off = get_u n m off"
  by (simp add: put_u_def mem_simps)

lemma get_u_put_s_other [mem_simps]:
  "off + n \<le> off' \<or> off' + k \<le> off \<Longrightarrow> get_u n (put_s k m off' v) off = get_u n m off"
  by (simp add: put_s_def mem_simps)

lemma get_s_write_other [mem_simps]:
  "off + n \<le> off' \<or> off' + length bs \<le> off \<Longrightarrow> get_s n (mem_write m off' bs) off = get_s n m off"
  by (simp add: get_s_def mem_simps)

lemma get_s_put_u_other [mem_simps]:
  "off + n \<le> off' \<or> off' + k \<le> off \<Longrightarrow> get_s n (put_u k m off' v) off = get_s n m off"
  by (simp add: get_s_def mem_simps)

lemma get_s_put_s_other [mem_simps]:
  "off + n \<le> off' \<or> off' + k \<le> off \<Longrightarrow> get_s n (put_s k m off' v) off = get_s n m off"
  by (simp add: get_s_def mem_simps)

lemma mem_read_put_u_other [mem_simps]:
  "off + n \<le> off' \<or> off' + k \<le> off \<Longrightarrow> mem_read (put_u k m off' v) off n = mem_read m off n"
  by (simp add: put_u_def mem_simps)

lemma mem_read_put_s_other [mem_simps]:
  "off + n \<le> off' \<or> off' + k \<le> off \<Longrightarrow> mem_read (put_s k m off' v) off n = mem_read m off n"
  by (simp add: put_s_def mem_simps)

lemma put_u_outside [mem_simps]: "i < off \<or> off + n \<le> i \<Longrightarrow> put_u n m off v i = m i"
  by (simp add: put_u_def mem_simps)

lemma put_s_outside [mem_simps]: "i < off \<or> off + n \<le> i \<Longrightarrow> put_s n m off v i = m i"
  by (simp add: put_s_def mem_simps)

section \<open>Operations on a state that may fail\<close>

text \<open>An operation takes a state and returns an error code or a value together with the new state,
  which it also has when it fails. \<open>sbind\<close> is the C idiom of returning early on an error.\<close>

type_synonym ('s, 'e, 'a) rop = "'s \<Rightarrow> ('e + 'a) \<times> 's"
type_synonym ('s, 'a) op = "('s, error_code, 'a) rop"

definition sbind :: "('s, 'e, 'a) rop \<Rightarrow> ('a \<Rightarrow> ('s, 'e, 'b) rop) \<Rightarrow> ('s, 'e, 'b) rop" where
  "sbind m f = (\<lambda>s. case m s of (Inl e, s') \<Rightarrow> (Inl e, s') | (Inr x, s') \<Rightarrow> f x s')"

definition sreturn :: "'a \<Rightarrow> ('s, 'e, 'a) rop" where
  "sreturn x = (\<lambda>s. (Inr x, s))"

definition sfail :: "'e \<Rightarrow> ('s, 'e, 'a) rop" where
  "sfail e = (\<lambda>s. (Inl e, s))"

definition supdate :: "('s \<Rightarrow> 's) \<Rightarrow> ('s, 'e, unit) rop" where
  "supdate f = (\<lambda>s. (Inr (), f s))"

definition rc_of :: "error_code + 'a \<Rightarrow> error_code" where
  "rc_of r = (case r of Inl e \<Rightarrow> e | Inr _ \<Rightarrow> DB_OK)"

lemma sbind_Inr: "m s = (Inr x, s') \<Longrightarrow> sbind m f s = f x s'"
  by (simp add: sbind_def)

lemma sbind_Inl: "m s = (Inl e, s') \<Longrightarrow> sbind m f s = (Inl e, s')"
  by (simp add: sbind_def)

lemma sbind_simps [simp]:
  "sbind (sreturn x) f = f x"
  "sbind (sfail e) f = sfail e"
  "sbind (supdate g) f s = f () (g s)"
  by (simp_all add: sbind_def sreturn_def sfail_def supdate_def fun_eq_iff)

end
