(* ===== verification/Slotted_Page.thy ===== *)
theory Slotted_Page
  imports Prelude_Db
begin

text \<open>
  The page header accessors of \<open>src/storage/page.h\<close> and the slotted page of
  \<open>src/storage/slotted_page.c\<close>, on the bytes of the page: the header at 0, the slot array from 24
  upwards, the tuple data from the end downwards. The abstract view of a page (\<open>page_slots\<close>) is the
  list of its slots, each holding a byte string or deleted; every operation is shown to refine the
  corresponding list operation, to keep the page well-formed, and to write only inside the page.

  A tuple is its byte string, so \<open>tuple_size\<close> is the length of the data; it is a \<open>uint16_t\<close>, hence
  below 65536. NULL arguments are not modelled.
\<close>

section \<open>The page header\<close>

definition page_header_get_page_id :: "buffer \<Rightarrow> int" where
  "page_header_get_page_id p = get_s 4 p 0"

definition page_header_get_lsn :: "buffer \<Rightarrow> int" where
  "page_header_get_lsn p = get_s 8 p 4"

definition page_header_get_num_tuples :: "buffer \<Rightarrow> nat" where
  "page_header_get_num_tuples p = get_u 4 p 12"

definition page_header_get_free_space :: "buffer \<Rightarrow> nat" where
  "page_header_get_free_space p = get_u 4 p 16"

definition page_header_get_next_page :: "buffer \<Rightarrow> int" where
  "page_header_get_next_page p = get_s 4 p 20"

definition page_header_set_page_id :: "buffer \<Rightarrow> int \<Rightarrow> buffer" where
  "page_header_set_page_id p v = put_s 4 p 0 v"

definition page_header_set_lsn :: "buffer \<Rightarrow> int \<Rightarrow> buffer" where
  "page_header_set_lsn p v = put_s 8 p 4 v"

definition page_header_set_num_tuples :: "buffer \<Rightarrow> nat \<Rightarrow> buffer" where
  "page_header_set_num_tuples p v = put_u 4 p 12 v"

definition page_header_set_free_space :: "buffer \<Rightarrow> nat \<Rightarrow> buffer" where
  "page_header_set_free_space p v = put_u 4 p 16 v"

definition page_header_set_next_page :: "buffer \<Rightarrow> int \<Rightarrow> buffer" where
  "page_header_set_next_page p v = put_s 4 p 20 v"

definition page_header_init :: "buffer \<Rightarrow> int \<Rightarrow> buffer" where
  "page_header_init p pid =
     (let p = mem_write p 0 (replicate 24 0);
          p = page_header_set_page_id p pid;
          p = page_header_set_lsn p INVALID_LSN;
          p = page_header_set_num_tuples p 0;
          p = page_header_set_free_space p (PAGE_SIZE - PAGE_HEADER_SIZE)
      in page_header_set_next_page p INVALID_PAGE_ID)"

section \<open>The slot array\<close>

definition slot_pos :: "nat \<Rightarrow> nat" where
  "slot_pos i = PAGE_HEADER_SIZE + u32 (i * SLOT_SIZE)"

definition slot_get_offset :: "buffer \<Rightarrow> nat \<Rightarrow> nat" where
  "slot_get_offset p i = get_u 2 p (slot_pos i)"

definition slot_get_size :: "buffer \<Rightarrow> nat \<Rightarrow> nat" where
  "slot_get_size p i = get_u 2 p (slot_pos i + 2)"

definition slot_set_offset :: "buffer \<Rightarrow> nat \<Rightarrow> nat \<Rightarrow> buffer" where
  "slot_set_offset p i v = put_u 2 p (slot_pos i) v"

definition slot_set_size :: "buffer \<Rightarrow> nat \<Rightarrow> nat \<Rightarrow> buffer" where
  "slot_set_size p i v = put_u 2 p (slot_pos i + 2) v"

lemmas page_fields =
  page_header_get_page_id_def page_header_get_lsn_def page_header_get_num_tuples_def
  page_header_get_free_space_def page_header_get_next_page_def
  page_header_set_page_id_def page_header_set_lsn_def page_header_set_num_tuples_def
  page_header_set_free_space_def page_header_set_next_page_def
  slot_get_offset_def slot_get_size_def slot_set_offset_def slot_set_size_def

section \<open>Slotted page operations\<close>

definition slotted_page_init :: "buffer \<Rightarrow> int \<Rightarrow> buffer" where
  "slotted_page_init p pid = page_header_init p pid"

definition slot_array_end :: "buffer \<Rightarrow> nat" where
  "slot_array_end p = u32 (PAGE_HEADER_SIZE + u32 (page_header_get_num_tuples p * SLOT_SIZE))"

definition free_space_lower :: "buffer \<Rightarrow> nat" where
  "free_space_lower p = slot_array_end p"

definition free_space_upper :: "buffer \<Rightarrow> nat" where
  "free_space_upper p =
     foldl (\<lambda>upper i.
              if slot_get_size p i = 0 then upper
              else if slot_get_offset p i < upper then slot_get_offset p i else upper)
       PAGE_SIZE [0..<page_header_get_num_tuples p]"

definition slotted_page_free_space :: "buffer \<Rightarrow> nat" where
  "slotted_page_free_space p =
     (let lower = free_space_lower p; upper = free_space_upper p
      in if upper > lower then upper - lower else 0)"

definition slotted_page_num_tuples :: "buffer \<Rightarrow> nat" where
  "slotted_page_num_tuples p =
     foldl (\<lambda>count i. if slot_get_size p i > 0 then count + 1 else count)
       0 [0..<page_header_get_num_tuples p]"

definition slotted_page_insert :: "buffer \<Rightarrow> byte list \<Rightarrow> int \<times> buffer" where
  "slotted_page_insert p data =
     (let tuple_size = length data in
      if tuple_size = 0 then (code_of DB_INVALID_ARGUMENT, p)
      else
        let num_slots = page_header_get_num_tuples p;
            new_slot_array_end = u32 (PAGE_HEADER_SIZE + u32 (u32 (num_slots + 1) * SLOT_SIZE));
            upper = free_space_upper p;
            available = (if upper > new_slot_array_end then upper - new_slot_array_end else 0)
        in if available < tuple_size then (code_of DB_OUT_OF_MEMORY, p)
           else
             let tuple_offset = u16 (upper - tuple_size);
                 p = mem_write p tuple_offset data;
                 p = slot_set_offset p num_slots tuple_offset;
                 p = slot_set_size p num_slots tuple_size;
                 p = page_header_set_num_tuples p (u32 (num_slots + 1));
                 p = page_header_set_free_space p (slotted_page_free_space p)
             in (to_signed 32 num_slots, p))"

definition slotted_page_get :: "buffer \<Rightarrow> int \<Rightarrow> error_code + nat \<times> nat" where
  "slotted_page_get p slot_id =
     (let num_slots = page_header_get_num_tuples p in
      if slot_id < 0 \<or> nat slot_id \<ge> num_slots then Inl DB_PAGE_NOT_FOUND
      else
        let size = slot_get_size p (nat slot_id) in
        if size = 0 then Inl DB_PAGE_NOT_FOUND
        else Inr (slot_get_offset p (nat slot_id), size))"

definition slotted_page_delete :: "buffer \<Rightarrow> int \<Rightarrow> error_code \<times> buffer" where
  "slotted_page_delete p slot_id =
     (let num_slots = page_header_get_num_tuples p in
      if slot_id < 0 \<or> nat slot_id \<ge> num_slots then (DB_PAGE_NOT_FOUND, p)
      else
        let size = slot_get_size p (nat slot_id) in
        if size = 0 then (DB_PAGE_NOT_FOUND, p)
        else
          let p = slot_set_size p (nat slot_id) 0;
              p = page_header_set_free_space p (slotted_page_free_space p)
          in (DB_OK, p))"

definition slotted_page_update :: "buffer \<Rightarrow> int \<Rightarrow> byte list \<Rightarrow> error_code \<times> buffer" where
  "slotted_page_update p slot_id new_data =
     (let new_size = length new_data in
      if new_size = 0 then (DB_INVALID_ARGUMENT, p)
      else
        let num_slots = page_header_get_num_tuples p in
        if slot_id < 0 \<or> nat slot_id \<ge> num_slots then (DB_PAGE_NOT_FOUND, p)
        else
          let i = nat slot_id; old_size = slot_get_size p i in
          if old_size = 0 then (DB_PAGE_NOT_FOUND, p)
          else
            let old_offset = slot_get_offset p i in
            if new_size \<le> old_size then
              let p = mem_write p old_offset new_data;
                  p = slot_set_size p i new_size;
                  p = page_header_set_free_space p (slotted_page_free_space p)
              in (DB_OK, p)
            else
              let upper = free_space_upper p;
                  new_slot_array_end = slot_array_end p;
                  available = (if upper > new_slot_array_end then upper - new_slot_array_end else 0)
              in if available < new_size then (DB_OUT_OF_MEMORY, p)
                 else
                   let new_offset = u16 (upper - new_size);
                       p = mem_write p new_offset new_data;
                       p = slot_set_offset p i new_offset;
                       p = slot_set_size p i new_size;
                       p = page_header_set_free_space p (slotted_page_free_space p)
                   in (DB_OK, p))"

section \<open>The abstract view and the invariant\<close>

abbreviation nslots :: "buffer \<Rightarrow> nat" where
  "nslots p \<equiv> page_header_get_num_tuples p"

definition live :: "buffer \<Rightarrow> nat \<Rightarrow> bool" where
  "live p i \<longleftrightarrow> i < nslots p \<and> slot_get_size p i \<noteq> 0"

definition slot_data :: "buffer \<Rightarrow> nat \<Rightarrow> byte list option" where
  "slot_data p i =
     (if slot_get_size p i = 0 then None
      else Some (mem_read p (slot_get_offset p i) (slot_get_size p i)))"

definition page_slots :: "buffer \<Rightarrow> byte list option list" where
  "page_slots p = map (slot_data p) [0..<nslots p]"

definition wf_page :: "buffer \<Rightarrow> bool" where
  "wf_page p \<longleftrightarrow>
     PAGE_HEADER_SIZE + SLOT_SIZE * nslots p \<le> PAGE_SIZE \<and>
     (\<forall>i < nslots p. live p i \<longrightarrow>
        PAGE_HEADER_SIZE + SLOT_SIZE * nslots p \<le> slot_get_offset p i \<and>
        slot_get_offset p i + slot_get_size p i \<le> PAGE_SIZE) \<and>
     (\<forall>i < nslots p. \<forall>j < nslots p. i \<noteq> j \<longrightarrow> live p i \<longrightarrow> live p j \<longrightarrow>
        slot_get_offset p i + slot_get_size p i \<le> slot_get_offset p j \<or>
        slot_get_offset p j + slot_get_size p j \<le> slot_get_offset p i) \<and>
     page_header_get_free_space p = slotted_page_free_space p"

lemma length_page_slots [simp]: "length (page_slots p) = nslots p"
  by (simp add: page_slots_def)

lemma page_slots_nth [simp]: "i < nslots p \<Longrightarrow> page_slots p ! i = slot_data p i"
  by (simp add: page_slots_def)

lemma wf_pageD:
  assumes "wf_page p"
  shows wf_page_slots: "nslots p \<le> 1018"
    and wf_page_live: "live p i \<Longrightarrow> 24 + 4 * nslots p \<le> slot_get_offset p i \<and>
      slot_get_offset p i + slot_get_size p i \<le> 4096"
    and wf_page_disjoint: "live p i \<Longrightarrow> live p j \<Longrightarrow> i \<noteq> j \<Longrightarrow>
      slot_get_offset p i + slot_get_size p i \<le> slot_get_offset p j \<or>
      slot_get_offset p j + slot_get_size p j \<le> slot_get_offset p i"
    and wf_page_free: "page_header_get_free_space p = slotted_page_free_space p"
  using assms by (auto simp: wf_page_def live_def)

subsection \<open>The bounds of the free space\<close>

lemma foldl_min:
  "foldl (\<lambda>u i. if P i then u else if f i < u then f i else u) (a::nat) is \<le> a"
  by (induction "is" arbitrary: a) (auto intro: le_trans less_imp_le)

lemma foldl_min_elem:
  "i \<in> set is \<Longrightarrow> \<not> P i \<Longrightarrow> foldl (\<lambda>u i. if P i then u else if f i < u then f i else u) (a::nat) is \<le> f i"
proof (induction "is" arbitrary: a)
  case (Cons j js)
  show ?case
  proof (cases "i = j")
    case True
    then show ?thesis
      using Cons.prems foldl_min [of P f "if f j < a then f j else a" js]
      by (auto intro: le_trans split: if_splits)
  qed (use Cons in auto)
qed simp

lemma foldl_min_ge:
  "l \<le> a \<Longrightarrow> \<forall>i \<in> set is. \<not> P i \<longrightarrow> l \<le> f i \<Longrightarrow>
   (l::nat) \<le> foldl (\<lambda>u i. if P i then u else if f i < u then f i else u) a is"
  by (induction "is" arbitrary: a) auto

lemma upper_le: "free_space_upper p \<le> 4096"
  unfolding free_space_upper_def by (rule foldl_min)

lemma upper_le_live: "live p i \<Longrightarrow> free_space_upper p \<le> slot_get_offset p i"
  unfolding free_space_upper_def live_def by (rule foldl_min_elem) auto

lemma upper_ge:
  "l \<le> 4096 \<Longrightarrow> (\<And>i. live p i \<Longrightarrow> l \<le> slot_get_offset p i) \<Longrightarrow> l \<le> free_space_upper p"
  unfolding free_space_upper_def by (rule foldl_min_ge) (auto simp: live_def)

lemma upper_ge_slots: "wf_page p \<Longrightarrow> 24 + 4 * nslots p \<le> free_space_upper p"
  by (rule upper_ge) (use wf_page_slots [of p] wf_page_live [of p] in auto)

lemma slot_pos_eq [simp]: "i \<le> 1018 \<Longrightarrow> slot_pos i = 24 + 4 * i"
  by (simp add: slot_pos_def int_simps)

lemma slot_array_end_eq: "nslots p \<le> 1018 \<Longrightarrow> slot_array_end p = 24 + 4 * nslots p"
  by (simp add: slot_array_end_def int_simps)

lemma free_space_eq: "wf_page p \<Longrightarrow> slotted_page_free_space p = free_space_upper p - (24 + 4 * nslots p)"
  using wf_page_slots [of p]
  by (simp add: slotted_page_free_space_def free_space_lower_def slot_array_end_eq Let_def)

lemma slot_get_size_less: "slot_get_size p i < 65536"
  using get_u_less [of 2 p "slot_pos i + 2"] by (simp add: slot_get_size_def)

lemma slot_get_offset_less: "slot_get_offset p i < 65536"
  using get_u_less [of 2 p "slot_pos i"] by (simp add: slot_get_offset_def)

text \<open>The free space depends on the slots only, so writing the header's free-space field is harmless.\<close>

lemma free_space_cong:
  assumes "nslots p = nslots p'"
    and "\<And>i. i < nslots p \<Longrightarrow> slot_get_size p i = slot_get_size p' i"
    and "\<And>i. i < nslots p \<Longrightarrow> slot_get_offset p i = slot_get_offset p' i"
  shows "free_space_upper p = free_space_upper p'"
    and "slotted_page_free_space p = slotted_page_free_space p'"
proof -
  show u: "free_space_upper p = free_space_upper p'"
    unfolding free_space_upper_def assms(1) [symmetric] by (rule foldl_cong) (use assms in auto)
  show "slotted_page_free_space p = slotted_page_free_space p'"
    using assms(1)
    by (simp add: slotted_page_free_space_def free_space_lower_def slot_array_end_def u Let_def)
qed

lemma slot_pos_ge: "24 \<le> slot_pos i"
  by (simp add: slot_pos_def)

lemma slotted_free_le: "slotted_page_free_space p \<le> 4096"
  unfolding slotted_page_free_space_def Let_def using upper_le [of p] by (auto intro: le_trans [OF diff_le_self])

text \<open>Every operation ends by refreshing the free-space field of the header.\<close>

abbreviation refresh :: "buffer \<Rightarrow> buffer" where
  "refresh p \<equiv> page_header_set_free_space p (slotted_page_free_space p)"

lemma refresh_fields [simp]:
  "page_header_get_num_tuples (refresh p) = page_header_get_num_tuples p"
  "page_header_get_next_page (refresh p) = page_header_get_next_page p"
  "page_header_get_page_id (refresh p) = page_header_get_page_id p"
  "page_header_get_lsn (refresh p) = page_header_get_lsn p"
  "slot_get_size (refresh p) i = slot_get_size p i"
  "slot_get_offset (refresh p) i = slot_get_offset p i"
  using slot_pos_ge [of i] by (simp_all add: page_fields mem_simps)

lemma refresh_byte: "20 \<le> x \<Longrightarrow> refresh p x = p x"
  by (simp add: page_fields mem_simps)

lemma refresh_free: "page_header_get_free_space (refresh p) = slotted_page_free_space (refresh p)"
proof -
  have "slotted_page_free_space (refresh p) = slotted_page_free_space p"
    by (rule free_space_cong) simp_all
  moreover have "slotted_page_free_space p < 256 ^ 4" using slotted_free_le [of p] by simp
  then have "page_header_get_free_space (refresh p) = slotted_page_free_space p"
    by (simp add: page_fields mem_simps del: power_Suc power.simps)
  ultimately show ?thesis by simp
qed

subsection \<open>Rewriting one slot\<close>

text \<open>The situation of every operation: page q is page p with slot k rewritten (or appended, when k is
  the number of slots), the data of the other live slots untouched.\<close>

definition same_others :: "buffer \<Rightarrow> buffer \<Rightarrow> nat \<Rightarrow> bool" where
  "same_others p q k \<longleftrightarrow> (\<forall>i < nslots p. i \<noteq> k \<longrightarrow>
     slot_get_size q i = slot_get_size p i \<and> slot_get_offset q i = slot_get_offset p i \<and>
     (live p i \<longrightarrow> (\<forall>x. slot_get_offset p i \<le> x \<and> x < slot_get_offset p i + slot_get_size p i \<longrightarrow> q x = p x)))"

definition fits_at :: "buffer \<Rightarrow> buffer \<Rightarrow> nat \<Rightarrow> bool" where
  "fits_at p q k \<longleftrightarrow> slot_get_size q k \<noteq> 0 \<longrightarrow>
     24 + 4 * nslots q \<le> slot_get_offset q k \<and> slot_get_offset q k + slot_get_size q k \<le> 4096 \<and>
     (\<forall>i < nslots p. i \<noteq> k \<longrightarrow> live p i \<longrightarrow>
        slot_get_offset q k + slot_get_size q k \<le> slot_get_offset p i \<or>
        slot_get_offset p i + slot_get_size p i \<le> slot_get_offset q k)"

lemma slot_data_same:
  assumes "same_others p q k" "i < nslots p" "i \<noteq> k"
  shows "slot_data q i = slot_data p i"
proof (cases "slot_get_size p i = 0")
  case False
  then have l: "live p i" using assms(2) by (simp add: live_def)
  have "mem_read q (slot_get_offset p i) (slot_get_size p i) = mem_read p (slot_get_offset p i) (slot_get_size p i)"
    by (rule mem_read_cong) (use assms l in \<open>simp add: same_others_def\<close>)
  then show ?thesis using assms by (simp add: slot_data_def same_others_def)
qed (use assms in \<open>simp add: slot_data_def same_others_def\<close>)

lemma rewrite_slot:
  assumes wf: "wf_page p" and k: "k \<le> nslots p" and n: "nslots q = max (nslots p) (Suc k)"
    and room: "24 + 4 * nslots q \<le> free_space_upper p"
    and same: "same_others p q k" and fits: "fits_at p q k"
  shows "wf_page (refresh q)"
    and "page_slots (refresh q) = (if k = nslots p then page_slots p @ [slot_data q k]
           else (page_slots p)[k := slot_data q k])"
proof -
  let ?r = "refresh q"
  have live_r: "live ?r i \<longleftrightarrow> (if i = k then slot_get_size q k \<noteq> 0 else live p i)" for i
    using same k n by (auto simp: live_def same_others_def max_def split: if_splits)
  have at_r: "slot_get_size ?r i = slot_get_size p i \<and> slot_get_offset ?r i = slot_get_offset p i"
    if "live p i" "i \<noteq> k" for i
    using same that by (simp add: same_others_def live_def)
  have lo: "24 + 4 * nslots q \<le> slot_get_offset p i" if "live p i" for i
    using room upper_le_live [OF that] by simp
  have hi: "slot_get_offset p i + slot_get_size p i \<le> 4096" if "live p i" for i
    using wf_page_live [OF wf that] by simp
  have "24 + 4 * nslots q \<le> 4096" using room upper_le [of p] by simp
  moreover have "24 + 4 * nslots q \<le> slot_get_offset ?r i \<and> slot_get_offset ?r i + slot_get_size ?r i \<le> 4096"
    if l: "live ?r i" for i
  proof (cases "i = k")
    case True
    then show ?thesis using fits l live_r [of i] by (simp add: fits_at_def)
  next
    case False
    then show ?thesis using at_r [of i] lo [of i] hi [of i] l live_r [of i] by simp
  qed
  moreover have "slot_get_offset ?r i + slot_get_size ?r i \<le> slot_get_offset ?r j \<or>
      slot_get_offset ?r j + slot_get_size ?r j \<le> slot_get_offset ?r i"
    if l: "live ?r i" "live ?r j" "i \<noteq> j" for i j
  proof -
    have *: "slot_get_offset q k + slot_get_size q k \<le> slot_get_offset p i \<or>
        slot_get_offset p i + slot_get_size p i \<le> slot_get_offset q k"
      if "live p i" "i \<noteq> k" "slot_get_size q k \<noteq> 0" for i
      using fits that by (simp add: fits_at_def live_def)
    show ?thesis
    proof (cases "i = k")
      case True
      then show ?thesis using l live_r * [of j] at_r [of j] by auto
    next
      case i: False
      show ?thesis
      proof (cases "j = k")
        case True
        then show ?thesis using l i live_r * [of i] at_r [of i] by auto
      next
        case False
        then show ?thesis using l i live_r [of i] live_r [of j] at_r [of i] at_r [of j]
            wf_page_disjoint [OF wf, of i j] by simp
      qed
    qed
  qed
  ultimately show "wf_page ?r" using refresh_free [of q] by (simp add: wf_page_def)
  have data_r: "slot_data ?r i = slot_data q i" if "i < nslots q" for i
  proof (cases "slot_get_size q i = 0")
    case False
    have "24 \<le> slot_get_offset q i"
    proof (cases "i = k")
      case True
      then show ?thesis using fits False by (simp add: fits_at_def)
    next
      case o: False
      then have "i < nslots p" using that n k by (simp add: max_def split: if_splits)
      then have "live p i" using same False o by (simp add: same_others_def live_def)
      then show ?thesis using lo [of i] at_r [of i] o by simp
    qed
    then have "mem_read ?r (slot_get_offset q i) (slot_get_size q i) = mem_read q (slot_get_offset q i) (slot_get_size q i)"
      by (intro mem_read_cong refresh_byte) simp
    then show ?thesis by (simp add: slot_data_def)
  qed (simp add: slot_data_def)
  show "page_slots ?r = (if k = nslots p then page_slots p @ [slot_data q k] else (page_slots p)[k := slot_data q k])"
  proof (rule nth_equalityI)
    show "length (page_slots ?r) = length (if k = nslots p then page_slots p @ [slot_data q k]
        else (page_slots p)[k := slot_data q k])"
      using k n by simp
    fix i assume "i < length (page_slots ?r)"
    then have i: "i < nslots q" by simp
    show "page_slots ?r ! i = (if k = nslots p then page_slots p @ [slot_data q k]
        else (page_slots p)[k := slot_data q k]) ! i"
      using i k n data_r [OF i] slot_data_same [OF same, of i]
      by (auto simp: nth_append nth_list_update max_def split: if_splits)
  qed
qed

subsection \<open>Refinement of the operations\<close>

text \<open>Writing a slot entry leaves the header, the other entries and the tuple data alone.\<close>

lemma slot_entry_other:
  assumes "i \<noteq> k" "i \<le> 1018" "k \<le> 1018"
  shows "slot_get_size (slot_set_size q k v) i = slot_get_size q i"
    and "slot_get_offset (slot_set_size q k v) i = slot_get_offset q i"
    and "slot_get_size (slot_set_offset q k v) i = slot_get_size q i"
    and "slot_get_offset (slot_set_offset q k v) i = slot_get_offset q i"
proof -
  have "i < k \<or> k < i" using assms(1) by auto
  then show "slot_get_size (slot_set_size q k v) i = slot_get_size q i"
    and "slot_get_offset (slot_set_size q k v) i = slot_get_offset q i"
    and "slot_get_size (slot_set_offset q k v) i = slot_get_size q i"
    and "slot_get_offset (slot_set_offset q k v) i = slot_get_offset q i"
    using assms(2,3) unfolding slot_get_size_def slot_set_size_def slot_get_offset_def slot_set_offset_def
    by (auto simp: mem_simps)
qed

lemma slot_entry_same:
  assumes "k \<le> 1018"
  shows "v < 65536 \<Longrightarrow> slot_get_size (slot_set_size q k v) k = v"
    and "slot_get_offset (slot_set_size q k v) k = slot_get_offset q k"
    and "slot_get_size (slot_set_offset q k v) k = slot_get_size q k"
    and "v < 65536 \<Longrightarrow> slot_get_offset (slot_set_offset q k v) k = v"
  using assms by (simp_all add: page_fields mem_simps)

lemma slot_entry_header:
  "nslots (slot_set_size q k v) = nslots q"
  "nslots (slot_set_offset q k v) = nslots q"
  "page_header_get_next_page (slot_set_size q k v) = page_header_get_next_page q"
  "page_header_get_next_page (slot_set_offset q k v) = page_header_get_next_page q"
  using slot_pos_ge [of k] by (simp_all add: page_fields mem_simps)

lemma slot_entry_byte:
  "k \<le> 1018 \<Longrightarrow> x < 24 + 4 * k \<or> 28 + 4 * k \<le> x \<Longrightarrow> slot_set_size q k v x = q x"
  "k \<le> 1018 \<Longrightarrow> x < 24 + 4 * k \<or> 28 + 4 * k \<le> x \<Longrightarrow> slot_set_offset q k v x = q x"
  by (auto simp add: page_fields mem_simps)

lemma num_tuples_fields:
  "m < 4294967296 \<Longrightarrow> nslots (page_header_set_num_tuples q m) = m"
  "slot_get_size (page_header_set_num_tuples q m) i = slot_get_size q i"
  "slot_get_offset (page_header_set_num_tuples q m) i = slot_get_offset q i"
  "page_header_get_next_page (page_header_set_num_tuples q m) = page_header_get_next_page q"
  "16 \<le> x \<Longrightarrow> page_header_set_num_tuples q m x = q x"
  using slot_pos_ge [of i] by (simp_all add: page_fields mem_simps)

text \<open>Data written behind the slot array leaves header and slots alone.\<close>

lemma data_write_fields:
  assumes "24 + 4 * n \<le> off" "n \<le> 1018"
  shows "nslots (mem_write q off data) = nslots q"
    and "page_header_get_next_page (mem_write q off data) = page_header_get_next_page q"
    and "i < n \<Longrightarrow> slot_get_size (mem_write q off data) i = slot_get_size q i"
    and "i < n \<Longrightarrow> slot_get_offset (mem_write q off data) i = slot_get_offset q i"
  using assms by (simp_all add: page_fields mem_simps)

lemmas slot_write_simps = slot_entry_other slot_entry_same slot_entry_header num_tuples_fields

lemma insert_room:
  assumes wf: "wf_page p" and sz: "0 < length data"
    and room: "28 + 4 * nslots p + length data \<le> free_space_upper p"
  defines "off \<equiv> free_space_upper p - length data"
  defines "q \<equiv> page_header_set_num_tuples
      (slot_set_size (slot_set_offset (mem_write p off data) (nslots p) off) (nslots p) (length data))
      (nslots p + 1)"
  shows "slotted_page_insert p data = (int (nslots p), refresh q)"
    and "nslots q = nslots p + 1"
    and "slot_get_size q (nslots p) = length data"
    and "slot_get_offset q (nslots p) = off"
    and "same_others p q (nslots p)"
    and "slot_data q (nslots p) = Some data"
    and "page_header_get_next_page q = page_header_get_next_page p"
    and "\<And>x. 4096 \<le> x \<Longrightarrow> q x = p x"
proof -
  have n: "nslots p \<le> 1018" by (rule wf_page_slots [OF wf])
  have up: "free_space_upper p \<le> 4096" by (rule upper_le)
  have len: "length data < 65536" and off: "off < 65536" and off_ge: "28 + 4 * nslots p \<le> off"
    using room up by (simp_all add: off_def)
  have off_eq: "off + length data = free_space_upper p" using room by (simp add: off_def)
  note dw = data_write_fields [of "nslots p" off, OF _ n]
  show "slotted_page_insert p data = (int (nslots p), refresh q)"
  proof -
    have "28 + nslots p * 4 < free_space_upper p" "\<not> free_space_upper p - (28 + nslots p * 4) < length data"
      using sz room by linarith+
    moreover have "data \<noteq> []" using sz by auto
    ultimately show ?thesis
      using n off unfolding slotted_page_insert_def q_def
      by (simp add: Let_def int_simps to_signed_def off_def [symmetric])
  qed
  show "nslots q = nslots p + 1"
    using n by (simp add: q_def num_tuples_fields)
  show sq: "slot_get_size q (nslots p) = length data" and oq: "slot_get_offset q (nslots p) = off"
    using n len off by (simp_all add: q_def slot_write_simps)
  have byte: "q x = mem_write p off data x" if "28 + 4 * nslots p \<le> x" for x
    using that n by (simp add: q_def num_tuples_fields slot_entry_byte)
  show "same_others p q (nslots p)"
    unfolding same_others_def
  proof (intro allI impI conjI)
    fix i assume i: "i < nslots p" "i \<noteq> nslots p"
    show "slot_get_size q i = slot_get_size p i" and "slot_get_offset q i = slot_get_offset p i"
      using i n off_ge by (simp_all add: q_def slot_write_simps dw)
    fix x assume "live p i" and x: "slot_get_offset p i \<le> x \<and> x < slot_get_offset p i + slot_get_size p i"
    then have "off + length data \<le> x" using upper_le_live [of p i] off_eq by simp
    then show "q x = p x" using byte [of x] off_ge by (simp add: mem_simps)
  qed
  have "mem_read q off (length data) = mem_read (mem_write p off data) off (length data)"
    by (rule mem_read_cong) (use byte off_ge in simp)
  then show "slot_data q (nslots p) = Some data"
    using sz by (simp add: slot_data_def sq oq mem_simps)
  show "page_header_get_next_page q = page_header_get_next_page p"
    using off_ge n by (simp add: q_def slot_write_simps dw)
  show "q x = p x" if "4096 \<le> x" for x
    using byte [of x] that off_eq up room by (simp add: mem_simps)
qed

lemma insert_refines:
  assumes wf: "wf_page p" and sz: "0 < length data"
    and room: "28 + 4 * nslots p + length data \<le> free_space_upper p"
  obtains p' where "slotted_page_insert p data = (int (nslots p), p')" "wf_page p'"
    "page_slots p' = page_slots p @ [Some data]"
    "page_header_get_next_page p' = page_header_get_next_page p" "\<forall>x \<ge> 4096. p' x = p x"
proof -
  note ir = insert_room [OF wf sz room]
  let ?off = "free_space_upper p - length data"
  let ?q = "page_header_set_num_tuples
      (slot_set_size (slot_set_offset (mem_write p ?off data) (nslots p) ?off) (nslots p) (length data))
      (nslots p + 1)"
  have fits: "fits_at p ?q (nslots p)"
    unfolding fits_at_def ir(2,3,4)
  proof (intro impI conjI allI)
    show "24 + 4 * (nslots p + 1) \<le> ?off" "?off + length data \<le> 4096"
      using room upper_le [of p] by simp_all
    fix i assume "live p i"
    then show "?off + length data \<le> slot_get_offset p i \<or> slot_get_offset p i + slot_get_size p i \<le> ?off"
      using upper_le_live [of p i] room by simp
  qed
  have q: "nslots ?q = max (nslots p) (Suc (nslots p))" "24 + 4 * nslots ?q \<le> free_space_upper p"
    unfolding ir(2) using room by simp_all
  note r = rewrite_slot [OF wf le_refl q ir(5) fits]
  show ?thesis
  proof (rule that [OF ir(1) r(1)])
    show "page_slots (refresh ?q) = page_slots p @ [Some data]" using r(2) ir(6) by simp
    show "page_header_get_next_page (refresh ?q) = page_header_get_next_page p" using ir(7) by simp
    show "\<forall>x \<ge> 4096. refresh ?q x = p x"
      using ir(8) refresh_byte [of _ ?q] by simp
  qed
qed

lemma insert_no_room:
  assumes wf: "wf_page p" and sz: "0 < length data"
    and full: "free_space_upper p < 28 + 4 * nslots p + length data"
  shows "slotted_page_insert p data = (4001, p)"
proof -
  have n: "nslots p \<le> 1018" by (rule wf_page_slots [OF wf])
  have "\<not> (28 + nslots p * 4 < free_space_upper p \<and> \<not> free_space_upper p - (28 + nslots p * 4) < length data)"
    using full by linarith
  moreover have "data \<noteq> []" using sz by auto
  ultimately show ?thesis
    using n by (auto simp add: slotted_page_insert_def Let_def int_simps)
qed

text \<open>Deleting: the slot's size becomes 0, nothing else of the page changes.\<close>

lemma delete_refines:
  assumes wf: "wf_page p" and l: "live p k"
  obtains p' where "slotted_page_delete p (int k) = (DB_OK, p')" "wf_page p'"
    "page_slots p' = (page_slots p)[k := None]"
    "page_header_get_next_page p' = page_header_get_next_page p" "\<forall>x \<ge> 4096. p' x = p x"
proof -
  have n: "nslots p \<le> 1018" by (rule wf_page_slots [OF wf])
  have k: "k < nslots p" and s: "slot_get_size p k \<noteq> 0" using l by (simp_all add: live_def)
  let ?q = "slot_set_size p k 0"
  have kn: "k \<le> 1018" using k n by simp
  have byte: "?q x = p x" if "24 + 4 * nslots p \<le> x" for x
    using that k by (intro slot_entry_byte(1) [OF kn]) simp
  have "same_others p ?q k"
    unfolding same_others_def
    using k n byte wf_page_live [OF wf] by (auto simp: slot_write_simps dest: le_trans)
  moreover have z: "slot_get_size ?q k = 0" using kn by (simp add: slot_write_simps)
  then have "fits_at p ?q k" by (simp add: fits_at_def)
  moreover have "nslots ?q = max (nslots p) (Suc k)" "24 + 4 * nslots ?q \<le> free_space_upper p"
    using k upper_ge_slots [OF wf] by (simp_all add: slot_write_simps)
  ultimately have r: "wf_page (refresh ?q)" "page_slots (refresh ?q) = (page_slots p)[k := slot_data ?q k]"
    using rewrite_slot [OF wf, of k ?q] k by simp_all
  show ?thesis
  proof (rule that [OF _ r(1)])
    show "slotted_page_delete p (int k) = (DB_OK, refresh ?q)"
      using k s by (simp add: slotted_page_delete_def Let_def)
    show "page_slots (refresh ?q) = (page_slots p)[k := None]" using r(2) z by (simp add: slot_data_def)
    show "page_header_get_next_page (refresh ?q) = page_header_get_next_page p" by (simp add: slot_write_simps)
    show "\<forall>x \<ge> 4096. refresh ?q x = p x" using byte refresh_byte [of _ ?q] n by simp
  qed
qed

lemma delete_dead: "\<not> (0 \<le> s \<and> live p (nat s)) \<Longrightarrow> slotted_page_delete p s = (DB_PAGE_NOT_FOUND, p)"
  by (auto simp: slotted_page_delete_def live_def Let_def)

text \<open>Updating: in place when the new data is no longer than the old, otherwise into the free space.
  Both are a rewrite of slot k with some offset at which the new data fits.\<close>

lemma update_at:
  assumes wf: "wf_page p" and l: "live p k" and off: "off < 65536" and len: "0 < length data" "length data < 65536"
    and q: "q = slot_set_size (slot_set_offset (mem_write p off data) k off) k (length data) \<or>
      q = slot_set_size (mem_write p off data) k (length data) \<and> off = slot_get_offset p k"
    and lo: "24 + 4 * nslots p \<le> off" and hi: "off + length data \<le> 4096"
    and disj: "\<And>i. live p i \<Longrightarrow> i \<noteq> k \<Longrightarrow>
      off + length data \<le> slot_get_offset p i \<or> slot_get_offset p i + slot_get_size p i \<le> off"
  shows "wf_page (refresh q)" and "page_slots (refresh q) = (page_slots p)[k := Some data]"
    and "page_header_get_next_page (refresh q) = page_header_get_next_page p"
    and "\<forall>x \<ge> 4096. refresh q x = p x"
proof -
  have n: "nslots p \<le> 1018" by (rule wf_page_slots [OF wf])
  have k: "k < nslots p" using l by (simp add: live_def)
  then have kn: "k \<le> 1018" using n by simp
  note dw = data_write_fields [OF lo n]
  have q': "q = slot_set_size (slot_set_offset (mem_write p off data) k off) k (length data) \<or>
      q = slot_set_size (mem_write p off data) k (length data)"
    using q by blast
  have nq: "nslots q = nslots p" using q' by (auto simp: slot_write_simps dw)
  have sq: "slot_get_size q k = length data" using q' kn len by (auto simp: slot_write_simps)
  have "slot_get_offset (slot_set_size (mem_write p off data) k (length data)) k = slot_get_offset p k"
    using k kn by (simp add: slot_write_simps dw)
  then have oq: "slot_get_offset q k = off" using q kn off by (auto simp: slot_write_simps)
  have byte: "q x = mem_write p off data x" if "24 + 4 * nslots p \<le> x" for x
    using q' that k kn by (auto simp: slot_entry_byte)
  have "same_others p q k"
    unfolding same_others_def
  proof (intro allI impI conjI)
    fix i assume i: "i < nslots p" "i \<noteq> k"
    show "slot_get_size q i = slot_get_size p i" and "slot_get_offset q i = slot_get_offset p i"
      using q' i n kn by (auto simp: slot_write_simps dw)
    fix x assume li: "live p i" and x: "slot_get_offset p i \<le> x \<and> x < slot_get_offset p i + slot_get_size p i"
    have "x < off \<or> off + length data \<le> x" using disj [OF li i(2)] x by auto
    moreover have "24 + 4 * nslots p \<le> x" using wf_page_live [OF wf li] x by simp
    ultimately show "q x = p x" using byte [of x] by (simp add: mem_simps)
  qed
  moreover have "fits_at p q k" using lo hi disj by (auto simp: fits_at_def sq oq nq)
  moreover have "nslots q = max (nslots p) (Suc k)" "24 + 4 * nslots q \<le> free_space_upper p"
    using k nq upper_ge_slots [OF wf] by simp_all
  ultimately have r: "wf_page (refresh q)" "page_slots (refresh q) = (page_slots p)[k := slot_data q k]"
    using rewrite_slot [OF wf, of k q] k by simp_all
  show "wf_page (refresh q)" by (rule r(1))
  have "mem_read q off (length data) = mem_read (mem_write p off data) off (length data)"
    by (rule mem_read_cong) (use byte lo in simp)
  then have "slot_data q k = Some data" using len by (simp add: slot_data_def sq oq mem_simps)
  with r(2) show "page_slots (refresh q) = (page_slots p)[k := Some data]" by simp
  show "page_header_get_next_page (refresh q) = page_header_get_next_page p"
    using q' by (auto simp: slot_write_simps dw)
  show "\<forall>x \<ge> 4096. refresh q x = p x"
    using byte hi n refresh_byte [of _ q] by (auto simp: mem_simps)
qed

definition update_room :: "buffer \<Rightarrow> nat \<Rightarrow> nat \<Rightarrow> bool" where
  "update_room p k len \<longleftrightarrow>
     len \<le> slot_get_size p k \<or> 24 + 4 * nslots p + len \<le> free_space_upper p"

lemma update_refines:
  assumes wf: "wf_page p" and l: "live p k" and len: "0 < length data" "length data < 65536"
    and room: "update_room p k (length data)"
  obtains p' where "slotted_page_update p (int k) data = (DB_OK, p')" "wf_page p'"
    "page_slots p' = (page_slots p)[k := Some data]"
    "page_header_get_next_page p' = page_header_get_next_page p" "\<forall>x \<ge> 4096. p' x = p x"
proof (cases "length data \<le> slot_get_size p k")
  case True
  let ?q = "slot_set_size (mem_write p (slot_get_offset p k) data) k (length data)"
  have "k < nslots p" "slot_get_size p k \<noteq> 0" "data \<noteq> []" using l len by (auto simp: live_def)
  then have res: "slotted_page_update p (int k) data = (DB_OK, refresh ?q)"
    using True by (simp add: slotted_page_update_def Let_def)
  have q: "?q = slot_set_size (slot_set_offset (mem_write p (slot_get_offset p k) data) k (slot_get_offset p k)) k (length data)
      \<or> ?q = ?q \<and> slot_get_offset p k = slot_get_offset p k" by simp
  have lo: "24 + 4 * nslots p \<le> slot_get_offset p k" and hi: "slot_get_offset p k + length data \<le> 4096"
    using wf_page_live [OF wf l] True by simp_all
  have "slot_get_offset p k + length data \<le> slot_get_offset p i \<or>
      slot_get_offset p i + slot_get_size p i \<le> slot_get_offset p k" if "live p i" "i \<noteq> k" for i
    using wf_page_disjoint [OF wf l that(1)] that True by auto
  note u = update_at [OF wf l slot_get_offset_less len q lo hi this]
  show ?thesis by (rule that [OF res u]) assumption+
next
  case False
  have n: "nslots p \<le> 1018" by (rule wf_page_slots [OF wf])
  let ?off = "free_space_upper p - length data"
  let ?q = "slot_set_size (slot_set_offset (mem_write p ?off data) k ?off) k (length data)"
  have room': "24 + 4 * nslots p + length data \<le> free_space_upper p" using room False by (simp add: update_room_def)
  have up: "free_space_upper p \<le> 4096" by (rule upper_le)
  have "24 + nslots p * 4 < free_space_upper p" "\<not> free_space_upper p - (24 + nslots p * 4) < length data"
    using len room' by linarith+
  moreover have "?off < 65536" using up by simp
  ultimately have "slotted_page_update p (int k) data = (DB_OK, refresh ?q)"
    using l len False n by (auto simp: slotted_page_update_def live_def Let_def int_simps slot_array_end_eq mult.commute)
  moreover have "?off + length data \<le> slot_get_offset p i" if "live p i" for i
    using upper_le_live [OF that] room' by simp
  ultimately show ?thesis
    using that update_at [OF wf l, of ?off data ?q] len room' up by simp
qed

lemma update_no_room:
  assumes wf: "wf_page p" and l: "live p k" and len: "0 < length data" and room: "\<not> update_room p k (length data)"
  shows "slotted_page_update p (int k) data = (DB_OUT_OF_MEMORY, p)"
proof -
  have n: "nslots p \<le> 1018" by (rule wf_page_slots [OF wf])
  have "\<not> length data \<le> slot_get_size p k" "free_space_upper p < 24 + 4 * nslots p + length data"
    using room by (auto simp: update_room_def)
  then show ?thesis
    using l len n by (auto simp: slotted_page_update_def live_def Let_def slot_array_end_eq)
qed

lemma get_refines:
  "slotted_page_get p s =
     (if 0 \<le> s \<and> live p (nat s) then Inr (slot_get_offset p (nat s), slot_get_size p (nat s))
      else Inl DB_PAGE_NOT_FOUND)"
  by (auto simp: slotted_page_get_def live_def Let_def)

lemma live_slot_data: "live p i \<longleftrightarrow> i < nslots p \<and> page_slots p ! i \<noteq> None"
  by (auto simp: live_def slot_data_def split: if_splits)

lemma num_tuples_live: "slotted_page_num_tuples p = length (filter (\<lambda>s. s \<noteq> None) (page_slots p))"
proof -
  have "foldl (\<lambda>c i. if slot_get_size p i > 0 then c + 1 else c) (a::nat) is
      = a + length (filter (\<lambda>s. s \<noteq> None) (map (slot_data p) is))" for a "is"
    by (induction "is" arbitrary: a) (auto simp: slot_data_def)
  then show ?thesis by (simp add: slotted_page_num_tuples_def page_slots_def)
qed

text \<open>A freshly initialised page has no slots.\<close>

lemma in_range_consts: "in_range 32 (-1)" "in_range 32 0" "in_range 64 0"
  by (simp_all add: in_range_def)

lemma init_refines:
  assumes pid: "in_range 32 pid"
  shows "wf_page (slotted_page_init p pid)" and "page_slots (slotted_page_init p pid) = []"
    and "page_header_get_next_page (slotted_page_init p pid) = INVALID_PAGE_ID"
    and "page_header_get_page_id (slotted_page_init p pid) = pid"
    and "page_header_get_lsn (slotted_page_init p pid) = INVALID_LSN"
    and "\<forall>x \<ge> 24. slotted_page_init p pid x = p x"
proof -
  let ?q = "slotted_page_init p pid"
  have n: "nslots ?q = 0" by (simp add: slotted_page_init_def page_header_init_def Let_def page_fields mem_simps)
  have f: "page_header_get_free_space ?q = 4072"
    by (simp add: slotted_page_init_def page_header_init_def Let_def page_fields mem_simps)
  have "free_space_upper ?q = 4096" by (simp add: free_space_upper_def n)
  then have "slotted_page_free_space ?q = 4072"
    by (simp add: slotted_page_free_space_def free_space_lower_def slot_array_end_eq n)
  then show "wf_page ?q" by (simp add: wf_page_def n f)
  show "page_slots ?q = []" by (simp add: page_slots_def n)
  show "page_header_get_next_page ?q = INVALID_PAGE_ID" "page_header_get_page_id ?q = pid"
    "page_header_get_lsn ?q = INVALID_LSN" "\<forall>x \<ge> 24. ?q x = p x"
    using pid by (simp_all add: slotted_page_init_def page_header_init_def Let_def page_fields mem_simps in_range_consts)
qed

section \<open>Properties\<close>

text \<open>C19. \<open>slotted_page_insert\<close> on a well-formed page: when the reported free space covers the data
  and a new slot, it returns the new slot's index, the page's list of slots grows by the data, no
  other slot, the next-page link or any byte behind the page changes, and the page stays
  well-formed; otherwise it returns DB_OUT_OF_MEMORY and leaves the page as it is.\<close>

theorem slotted_page_insert_spec:
  assumes wf: "wf_page p" and len: "0 < length data" "length data < 65536"
  shows "case slotted_page_insert p data of (r, p') \<Rightarrow>
    if length data + SLOT_SIZE \<le> slotted_page_free_space p
    then r = int (nslots p) \<and> wf_page p' \<and> page_slots p' = page_slots p @ [Some data] \<and>
      page_header_get_next_page p' = page_header_get_next_page p \<and> (\<forall>x \<ge> PAGE_SIZE. p' x = p x)
    else r = code_of DB_OUT_OF_MEMORY \<and> p' = p"
proof (cases "length data + SLOT_SIZE \<le> slotted_page_free_space p")
  case True
  then have "28 + 4 * nslots p + length data \<le> free_space_upper p"
    using free_space_eq [OF wf] by simp
  from insert_refines [OF wf len(1) this] obtain p' where
    "slotted_page_insert p data = (int (nslots p), p')" "wf_page p'" "page_slots p' = page_slots p @ [Some data]"
    "page_header_get_next_page p' = page_header_get_next_page p" "\<forall>x \<ge> 4096. p' x = p x" by blast
  then show ?thesis using True by simp
next
  case False
  then have "free_space_upper p < 28 + 4 * nslots p + length data"
    using free_space_eq [OF wf] by simp
  from insert_no_room [OF wf len(1) this] False show ?thesis by simp
qed

definition demo_page :: buffer where
  "demo_page = slotted_page_init zero_page 3"

lemma demo_page_wf: "wf_page demo_page" and demo_page_slots: "page_slots demo_page = []"
  by (simp_all add: demo_page_def init_refines in_range_def)

lemma demo_page_free: "slotted_page_free_space demo_page = 4072"
proof -
  have n: "nslots demo_page = 0" using length_page_slots [of demo_page] demo_page_slots by simp
  then show ?thesis by (simp add: free_space_eq [OF demo_page_wf] free_space_upper_def)
qed

theorem slotted_page_insert_spec_witness:
  "wf_page demo_page \<and> (0::nat) < length [1, 2, 3 :: byte] \<and>
   page_slots (snd (slotted_page_insert demo_page [1, 2, 3])) = [Some [1, 2, 3]]"
  using slotted_page_insert_spec [OF demo_page_wf, of "[1, 2, 3]"] demo_page_wf
  by (simp add: demo_page_free demo_page_slots split: prod.splits)

text \<open>A page with one live tuple, for the witnesses below.\<close>

definition demo_page1 :: buffer where
  "demo_page1 = snd (slotted_page_insert demo_page [1, 2, 3])"

lemma demo_page1: "wf_page demo_page1 \<and> page_slots demo_page1 = [Some [1, 2, 3]] \<and> nslots demo_page1 = 1"
proof -
  have n: "nslots demo_page = 0" using length_page_slots [of demo_page] demo_page_slots by simp
  have "28 + 4 * nslots demo_page + length [1, 2, 3 :: byte] \<le> free_space_upper demo_page"
    using demo_page_free free_space_eq [OF demo_page_wf] n by simp
  from insert_refines [OF demo_page_wf _ this] obtain p' where
    "slotted_page_insert demo_page [1, 2, 3] = (int (nslots demo_page), p')" "wf_page p'"
    "page_slots p' = page_slots demo_page @ [Some [1, 2, 3]]" by auto
  then show ?thesis using length_page_slots [of p'] by (simp add: demo_page1_def demo_page_slots)
qed

text \<open>C20. \<open>slotted_page_delete\<close> on a well-formed page turns exactly the addressed live slot into a
  deleted one and keeps the page well-formed; on a slot that is out of range or already deleted it
  returns DB_PAGE_NOT_FOUND and changes nothing.\<close>

theorem slotted_page_delete_spec:
  assumes wf: "wf_page p"
  shows "case slotted_page_delete p s of (rc, p') \<Rightarrow>
    if 0 \<le> s \<and> nat s < nslots p \<and> page_slots p ! nat s \<noteq> None
    then rc = DB_OK \<and> wf_page p' \<and> page_slots p' = (page_slots p)[nat s := None] \<and>
      page_header_get_next_page p' = page_header_get_next_page p \<and> (\<forall>x \<ge> PAGE_SIZE. p' x = p x)
    else rc = DB_PAGE_NOT_FOUND \<and> p' = p"
proof (cases "0 \<le> s \<and> live p (nat s)")
  case True
  from True delete_refines [OF wf, of "nat s"] obtain p' where
    "slotted_page_delete p s = (DB_OK, p')" "wf_page p'" "page_slots p' = (page_slots p)[nat s := None]"
    "page_header_get_next_page p' = page_header_get_next_page p" "\<forall>x \<ge> 4096. p' x = p x" by auto
  then show ?thesis using True by (simp add: live_slot_data del: page_slots_nth)
next
  case False
  from delete_dead [OF this] False show ?thesis by (auto simp: live_slot_data)
qed

theorem slotted_page_delete_spec_witness:
  "wf_page demo_page1 \<and> page_slots (snd (slotted_page_delete demo_page1 0)) = [None]"
  using slotted_page_delete_spec [of demo_page1 0] demo_page1 by (simp split: prod.splits)

text \<open>\<open>slotted_page_update\<close> on a well-formed page replaces exactly the addressed live slot's data,
  in place when the new data is no longer than the old and in the free space otherwise, and keeps
  the page well-formed; without room it returns DB_OUT_OF_MEMORY, on a slot that is not live
  DB_PAGE_NOT_FOUND, and then changes nothing.\<close>

theorem slotted_page_update_spec:
  assumes wf: "wf_page p" and len: "0 < length data" "length data < 65536"
  shows "case slotted_page_update p s data of (rc, p') \<Rightarrow>
    if 0 \<le> s \<and> nat s < nslots p \<and> page_slots p ! nat s \<noteq> None
    then
      if length data \<le> length (the (page_slots p ! nat s)) \<or> length data \<le> slotted_page_free_space p
      then rc = DB_OK \<and> wf_page p' \<and> page_slots p' = (page_slots p)[nat s := Some data] \<and>
        page_header_get_next_page p' = page_header_get_next_page p \<and> (\<forall>x \<ge> PAGE_SIZE. p' x = p x)
      else rc = DB_OUT_OF_MEMORY \<and> p' = p
    else rc = DB_PAGE_NOT_FOUND \<and> p' = p"
proof (cases "0 \<le> s \<and> live p (nat s)")
  case True
  then have l: "live p (nat s)" and s: "s = int (nat s)" by simp_all
  then have d: "length (the (page_slots p ! nat s)) = slot_get_size p (nat s)"
    by (auto simp: live_def slot_data_def)
  have r: "length data \<le> length (the (page_slots p ! nat s)) \<or> length data \<le> slotted_page_free_space p
      \<longleftrightarrow> update_room p (nat s) (length data)"
    using len(1) unfolding d update_room_def free_space_eq [OF wf] by linarith
  show ?thesis
  proof (cases "update_room p (nat s) (length data)")
    case u: True
    from update_refines [OF wf l len u] obtain p' where
      "slotted_page_update p s data = (DB_OK, p')" "wf_page p'" "page_slots p' = (page_slots p)[nat s := Some data]"
      "page_header_get_next_page p' = page_header_get_next_page p" "\<forall>x \<ge> 4096. p' x = p x" using s by metis
    then show ?thesis using True u unfolding r by (simp add: live_slot_data del: page_slots_nth)
  next
    case False
    from update_no_room [OF wf l len(1) False] have "slotted_page_update p s data = (DB_OUT_OF_MEMORY, p)"
      using True by simp
    then show ?thesis
      using True False unfolding r by (simp add: live_slot_data del: page_slots_nth)
  qed
next
  case False
  then have "slotted_page_update p s data = (DB_PAGE_NOT_FOUND, p)"
    using len by (auto simp: slotted_page_update_def live_def Let_def)
  then show ?thesis using False by (auto simp: live_slot_data)
qed

theorem slotted_page_update_spec_witness:
  "wf_page demo_page1 \<and> page_slots (snd (slotted_page_update demo_page1 0 [9, 8])) = [Some [9, 8]]"
  using slotted_page_update_spec [of demo_page1 "[9, 8]" 0] demo_page1 by (simp split: prod.splits)

text \<open>\<open>slotted_page_get\<close> on a well-formed page succeeds exactly on the live slots, and then the
  region it returns lies inside the page, behind the slot array, and holds the slot's data.\<close>

theorem slotted_page_get_spec:
  assumes wf: "wf_page p"
  shows "case slotted_page_get p s of
      Inl e \<Rightarrow> e = DB_PAGE_NOT_FOUND \<and> \<not> (0 \<le> s \<and> nat s < nslots p \<and> page_slots p ! nat s \<noteq> None)
    | Inr (off, sz) \<Rightarrow> 0 \<le> s \<and> nat s < nslots p \<and> page_slots p ! nat s = Some (mem_read p off sz) \<and>
        0 < sz \<and> PAGE_HEADER_SIZE + SLOT_SIZE * nslots p \<le> off \<and> off + sz \<le> PAGE_SIZE"
proof (cases "0 \<le> s \<and> live p (nat s)")
  case True
  then show ?thesis
    using wf_page_live [OF wf, of "nat s"] by (simp add: get_refines live_def slot_data_def)
next
  case False
  then show ?thesis by (auto simp: get_refines live_slot_data)
qed

theorem slotted_page_get_spec_witness:
  "wf_page demo_page1 \<and> (case slotted_page_get demo_page1 0 of Inl e \<Rightarrow> False
    | Inr (off, sz) \<Rightarrow> mem_read demo_page1 off sz = [1, 2, 3] \<and> off + sz \<le> 4096)"
  using slotted_page_get_spec [of demo_page1 0] demo_page1 by (auto split: sum.splits)

end
