(* ===== verification/Disk_Manager.thy ===== *)
theory Disk_Manager
  imports Prelude_Db
begin

text \<open>
  The page file of \<open>src/storage/disk_manager.c\<close>, on top of \<open>src/common/file_io.c\<close> and the page
  allocator of \<open>src/common/mem.c\<close>.

  The state is the \<open>disk_manager_t\<close> together with the files it works on: a file is the list of its
  pages, since every access is of one whole page at a page boundary. Each library call that can fail
  (\<open>fopen\<close>, \<open>fread\<close>, \<open>fwrite\<close>, \<open>calloc\<close>) first consumes one entry of the schedule
  \<open>os_faults\<close>: True makes it fail, and an exhausted schedule means no more faults. So every error
  path of the code is a path of the model. Logging, closing and flushing streams have no effect on
  this state and are left out.
\<close>

section \<open>Files\<close>

record disk =
  db_file :: string
  page_count :: int
  free_list_head :: int
  is_open :: bool
  os_files :: "string \<Rightarrow> buffer list option"
  os_faults :: "bool list"

definition os_try :: "disk \<Rightarrow> bool \<times> disk" where
  "os_try d = (case os_faults d of [] \<Rightarrow> (False, d) | b # bs \<Rightarrow> (b, d\<lparr>os_faults := bs\<rparr>))"

definition file_io_open :: "string \<Rightarrow> string \<Rightarrow> (disk, unit) op" where
  "file_io_open path mode d =
     (let (fails, d) = os_try d in
      if fails then (Inl DB_IO_ERROR, d)
      else if mode = ''wb+'' then (Inr (), d\<lparr>os_files := (os_files d)(path \<mapsto> [])\<rparr>)
      else case os_files d path of None \<Rightarrow> (Inl DB_IO_ERROR, d) | Some _ \<Rightarrow> (Inr (), d))"

definition file_io_read_page :: "string \<Rightarrow> int \<Rightarrow> (disk, buffer) op" where
  "file_io_read_page path pid d =
     (if pid < 0 then (Inl DB_PAGE_NOT_FOUND, d)
      else
        let (fails, d) = os_try d in
        case os_files d path of
          None \<Rightarrow> (Inl DB_FILE_NOT_OPEN, d)
        | Some pages \<Rightarrow>
            if fails \<or> nat pid \<ge> length pages then (Inl DB_IO_ERROR, d)
            else (Inr (pages ! nat pid), d))"

text \<open>A write behind the end of the file fills the gap with zero pages.\<close>

definition put_page :: "buffer list \<Rightarrow> nat \<Rightarrow> buffer \<Rightarrow> buffer list" where
  "put_page pages n buf =
     (if n < length pages then pages[n := buf]
      else pages @ replicate (n - length pages) zero_page @ [buf])"

definition file_io_write_page :: "string \<Rightarrow> int \<Rightarrow> buffer \<Rightarrow> (disk, unit) op" where
  "file_io_write_page path pid buf d =
     (if pid < 0 then (Inl DB_PAGE_NOT_FOUND, d)
      else
        let (fails, d) = os_try d in
        case os_files d path of
          None \<Rightarrow> (Inl DB_FILE_NOT_OPEN, d)
        | Some pages \<Rightarrow>
            if fails then (Inl DB_IO_ERROR, d)
            else (Inr (), d\<lparr>os_files := (os_files d)(path \<mapsto> put_page pages (nat pid) buf)\<rparr>))"

text \<open>\<open>page_alloc\<close> returns a zeroed page, or NULL.\<close>

definition page_alloc :: "(disk, buffer) op" where
  "page_alloc d = (let (fails, d) = os_try d in (if fails then Inl DB_OUT_OF_MEMORY else Inr zero_page, d))"

section \<open>The file header (page 0)\<close>

definition DB_MAGIC :: "byte list" where
  "DB_MAGIC = [77, 73, 78, 73, 83, 81, 76, 73, 84, 69]"

definition write_header_to_buf :: "disk \<Rightarrow> buffer" where
  "write_header_to_buf d =
     (let buf = zero_page;
          buf = mem_write buf 0 DB_MAGIC;
          buf = put_u 4 buf 10 1;
          buf = put_u 4 buf 14 (pattern 32 (page_count d))
      in put_s 4 buf 18 (free_list_head d))"

definition read_header_from_buf :: "buffer \<Rightarrow> (disk, unit) op" where
  "read_header_from_buf buf d =
     (if mem_read buf 0 10 \<noteq> DB_MAGIC then (Inl DB_IO_ERROR, d)
      else if get_u 4 buf 10 \<noteq> 1 then (Inl DB_IO_ERROR, d)
      else (Inr (), d\<lparr>page_count := to_signed 32 (get_u 4 buf 14), free_list_head := get_s 4 buf 18\<rparr>))"

text \<open>\<open>strncpy(dm->db_file, db_file, MAX_FILE_NAME - 1)\<close> into a zeroed array.\<close>

definition copy_name :: "string \<Rightarrow> string" where
  "copy_name name = take 255 name"

section \<open>Operations\<close>

definition disk_manager_open :: "string \<Rightarrow> (disk, unit) op" where
  "disk_manager_open name d0 =
     (let d = d0\<lparr>db_file := '''', page_count := 0, free_list_head := INVALID_PAGE_ID, is_open := False\<rparr> in
      case file_io_open name ''rb+'' d of
        (Inr _, d) \<Rightarrow>
          sbind page_alloc (\<lambda>_.
          sbind (file_io_read_page name 0) (\<lambda>hdr.
          sbind (read_header_from_buf hdr) (\<lambda>_.
          supdate (\<lambda>d. d\<lparr>db_file := copy_name name, is_open := True\<rparr>)))) d
      | (Inl _, d) \<Rightarrow>
          (case file_io_open name ''wb+'' d of
             (Inl _, d) \<Rightarrow> (Inl DB_IO_ERROR, d)
           | (Inr _, d) \<Rightarrow>
               sbind (supdate (\<lambda>d. d\<lparr>page_count := 1, free_list_head := INVALID_PAGE_ID\<rparr>)) (\<lambda>_.
               sbind page_alloc (\<lambda>_.
               sbind (\<lambda>d. file_io_write_page name 0 (write_header_to_buf d) d) (\<lambda>_.
               supdate (\<lambda>d. d\<lparr>db_file := copy_name name, is_open := True\<rparr>)))) d))"

text \<open>The tail that allocation, deallocation and \<open>disk_manager_flush_header\<close> share.\<close>

definition write_header :: "(disk, unit) op" where
  "write_header =
     sbind page_alloc (\<lambda>_.
     (\<lambda>d. file_io_write_page (db_file d) 0 (write_header_to_buf d) d))"

definition disk_manager_flush_header :: "(disk, unit) op" where
  "disk_manager_flush_header d =
     (if \<not> is_open d then (Inl DB_FILE_NOT_OPEN, d)
      else sbind (file_io_open (db_file d) ''rb+'') (\<lambda>_. write_header) d)"

definition disk_manager_close :: "disk \<Rightarrow> disk" where
  "disk_manager_close d =
     (if is_open d then (snd (disk_manager_flush_header d))\<lparr>is_open := False\<rparr> else d)"

definition allocate_page :: "(disk, int) op" where
  "allocate_page d =
     (if \<not> is_open d then (Inl DB_FILE_NOT_OPEN, d)
      else
        sbind (file_io_open (db_file d) ''rb+'') (\<lambda>_.
        sbind (\<lambda>d.
          if free_list_head d \<noteq> INVALID_PAGE_ID then
            let allocated_id = free_list_head d in
            sbind page_alloc (\<lambda>_.
            sbind (file_io_read_page (db_file d) allocated_id) (\<lambda>page_buf.
            sbind (supdate (\<lambda>d. d\<lparr>free_list_head := get_s 4 page_buf 0\<rparr>)) (\<lambda>_.
            sbind (file_io_write_page (db_file d) allocated_id zero_page) (\<lambda>_.
            sreturn allocated_id)))) d
          else
            let allocated_id = page_count d in
            sbind page_alloc (\<lambda>_.
            sbind (file_io_write_page (db_file d) allocated_id zero_page) (\<lambda>_.
            sbind (supdate (\<lambda>d. d\<lparr>page_count := page_count d + 1\<rparr>)) (\<lambda>_.
            sreturn allocated_id))) d) (\<lambda>allocated_id.
        sbind write_header (\<lambda>_.
        sreturn allocated_id))) d)"

text \<open>The C function returns the page id or the error code in one \<open>int\<close>.\<close>

definition disk_manager_allocate_page :: "disk \<Rightarrow> int \<times> disk" where
  "disk_manager_allocate_page d =
     (case allocate_page d of (Inl e, d') \<Rightarrow> (code_of e, d') | (Inr pid, d') \<Rightarrow> (pid, d'))"

definition disk_manager_deallocate_page :: "int \<Rightarrow> (disk, unit) op" where
  "disk_manager_deallocate_page pid d =
     (if \<not> is_open d then (Inl DB_FILE_NOT_OPEN, d)
      else if pid \<le> 0 \<or> pid \<ge> page_count d then (Inl DB_PAGE_NOT_FOUND, d)
      else
        sbind (file_io_open (db_file d) ''rb+'') (\<lambda>_.
        sbind page_alloc (\<lambda>_.
        sbind (file_io_read_page (db_file d) pid) (\<lambda>page_buf.
        sbind (file_io_write_page (db_file d) pid (put_s 4 page_buf 0 (free_list_head d))) (\<lambda>_.
        sbind (supdate (\<lambda>d. d\<lparr>free_list_head := pid\<rparr>)) (\<lambda>_.
        write_header))))) d)"

definition disk_manager_read_page :: "int \<Rightarrow> (disk, buffer) op" where
  "disk_manager_read_page pid d =
     (if \<not> is_open d then (Inl DB_FILE_NOT_OPEN, d)
      else if pid < 0 \<or> pid \<ge> page_count d then (Inl DB_PAGE_NOT_FOUND, d)
      else sbind (file_io_open (db_file d) ''rb'') (\<lambda>_. file_io_read_page (db_file d) pid) d)"

definition disk_manager_write_page :: "int \<Rightarrow> buffer \<Rightarrow> (disk, unit) op" where
  "disk_manager_write_page pid buf d =
     (if \<not> is_open d then (Inl DB_FILE_NOT_OPEN, d)
      else if pid < 0 \<or> pid \<ge> page_count d then (Inl DB_PAGE_NOT_FOUND, d)
      else sbind (file_io_open (db_file d) ''rb+'') (\<lambda>_. file_io_write_page (db_file d) pid buf) d)"

section \<open>Fault-free runs\<close>

text \<open>\<open>disk_ok d pages fl\<close>: the file is open, no fault is scheduled, the file holds these pages, the
  counter agrees with it, page 0 is the current header, and the pages fl are the free list, linked
  through their first four bytes.\<close>

fun free_chain :: "buffer list \<Rightarrow> int \<Rightarrow> int list \<Rightarrow> bool" where
  "free_chain pages h [] \<longleftrightarrow> h = INVALID_PAGE_ID"
| "free_chain pages h (p # ps) \<longleftrightarrow>
     h = p \<and> 0 < p \<and> nat p < length pages \<and> free_chain pages (get_s 4 (pages ! nat p) 0) ps"

definition disk_ok :: "disk \<Rightarrow> buffer list \<Rightarrow> int list \<Rightarrow> bool" where
  "disk_ok d pages fl \<longleftrightarrow>
     is_open d \<and> os_faults d = [] \<and> os_files d (db_file d) = Some pages \<and>
     page_count d = int (length pages) \<and> length pages < 2 ^ 31 \<and> pages \<noteq> [] \<and>
     free_chain pages (free_list_head d) fl \<and> distinct fl \<and>
     pages ! 0 = write_header_to_buf d"

lemma os_try_ok [simp]: "os_faults d = [] \<Longrightarrow> os_try d = (False, d)"
  by (simp add: os_try_def)

lemma page_alloc_ok [simp]: "os_faults d = [] \<Longrightarrow> page_alloc d = (Inr zero_page, d)"
  by (simp add: page_alloc_def)

lemma file_io_open_ok [simp]:
  "os_faults d = [] \<Longrightarrow> os_files d f = Some pages \<Longrightarrow> mode \<noteq> ''wb+'' \<Longrightarrow> file_io_open f mode d = (Inr (), d)"
  by (simp add: file_io_open_def)

lemma file_io_read_page_ok [simp]:
  "os_faults d = [] \<Longrightarrow> os_files d f = Some pages \<Longrightarrow> 0 \<le> pid \<Longrightarrow> nat pid < length pages \<Longrightarrow>
   file_io_read_page f pid d = (Inr (pages ! nat pid), d)"
  by (simp add: file_io_read_page_def)

lemma file_io_write_page_ok [simp]:
  "os_faults d = [] \<Longrightarrow> os_files d f = Some pages \<Longrightarrow> 0 \<le> pid \<Longrightarrow>
   file_io_write_page f pid buf d = (Inr (), d\<lparr>os_files := (os_files d)(f \<mapsto> put_page pages (nat pid) buf)\<rparr>)"
  by (simp add: file_io_write_page_def)

lemma put_page_in [simp]: "n < length pages \<Longrightarrow> put_page pages n b = pages[n := b]"
  by (simp add: put_page_def)

lemma put_page_end [simp]: "put_page pages (length pages) b = pages @ [b]"
  by (simp add: put_page_def)

lemma header_cong: "page_count d = page_count d' \<Longrightarrow> free_list_head d = free_list_head d' \<Longrightarrow>
  write_header_to_buf d = write_header_to_buf d'"
  by (simp add: write_header_to_buf_def)

lemma header_update [simp]:
  "write_header_to_buf (d\<lparr>os_files := fs\<rparr>) = write_header_to_buf d"
  "write_header_to_buf (d\<lparr>os_files := fs, page_count := c\<rparr>) = write_header_to_buf (d\<lparr>page_count := c\<rparr>)"
  "write_header_to_buf (d\<lparr>os_files := fs, free_list_head := c\<rparr>) = write_header_to_buf (d\<lparr>free_list_head := c\<rparr>)"
  "write_header_to_buf (d\<lparr>db_file := n\<rparr>) = write_header_to_buf d"
  "write_header_to_buf (d\<lparr>is_open := b\<rparr>) = write_header_to_buf d"
  by (simp_all add: write_header_to_buf_def)

lemma free_chain_cong:
  "free_chain pages h fl \<Longrightarrow> length pages \<le> length pages' \<Longrightarrow>
   (\<And>p. p \<in> set fl \<Longrightarrow> pages' ! nat p = pages ! nat p) \<Longrightarrow> free_chain pages' h fl"
  by (induction fl arbitrary: h) auto

lemma free_chain_mem: "free_chain pages h fl \<Longrightarrow> p \<in> set fl \<Longrightarrow> 0 < p \<and> nat p < length pages"
  by (induction fl arbitrary: h) auto

lemma free_chain_head: "free_chain pages h fl \<Longrightarrow> h = INVALID_PAGE_ID \<longleftrightarrow> fl = []"
  by (cases fl) auto

lemma free_chain_in_range: "free_chain pages h fl \<Longrightarrow> length pages < 2 ^ 31 \<Longrightarrow> in_range 32 h"
  by (cases fl) (auto simp: in_range_def)

subsection \<open>Reads and writes\<close>

text \<open>The data pages of the disk as a map; the header page 0 belongs to the disk manager.\<close>

definition page_at :: "disk \<Rightarrow> int \<Rightarrow> buffer option" where
  "page_at d pid =
     (if pid < 0 \<or> pid \<ge> page_count d then None
      else case os_files d (db_file d) of None \<Rightarrow> None
        | Some pages \<Rightarrow> if nat pid < length pages then Some (pages ! nat pid) else None)"

definition data_page :: "disk \<Rightarrow> int list \<Rightarrow> int \<Rightarrow> bool" where
  "data_page d fl pid \<longleftrightarrow> 0 < pid \<and> pid < page_count d \<and> pid \<notin> set fl"

lemma read_page_ok:
  "disk_ok d pages fl \<Longrightarrow> 0 \<le> pid \<Longrightarrow> pid < page_count d \<Longrightarrow>
   disk_manager_read_page pid d = (Inr (pages ! nat pid), d)"
  by (simp add: disk_ok_def disk_manager_read_page_def sbind_Inr)

lemma page_at_ok:
  "disk_ok d pages fl \<Longrightarrow> page_at d pid = (if 0 \<le> pid \<and> pid < page_count d then Some (pages ! nat pid) else None)"
  by (auto simp add: disk_ok_def page_at_def)

lemma read_page_at:
  "disk_ok d pages fl \<Longrightarrow> page_at d pid = Some b \<Longrightarrow> disk_manager_read_page pid d = (Inr b, d)"
  by (simp add: page_at_ok read_page_ok split: if_splits)

lemma write_page_ok:
  fixes buf :: buffer
  assumes ok: "disk_ok d pages fl" and pid: "data_page d fl pid"
  defines "d' \<equiv> d\<lparr>os_files := (os_files d)(db_file d \<mapsto> pages[nat pid := buf])\<rparr>"
  shows "disk_manager_write_page pid buf d = (Inr (), d')"
    and "disk_ok d' (pages[nat pid := buf]) fl"
    and "page_at d' = (page_at d)(pid \<mapsto> buf)"
proof -
  have r: "0 < pid" "nat pid < length pages" and nf: "pid \<notin> set fl"
    using ok pid by (auto simp: disk_ok_def data_page_def)
  show "disk_manager_write_page pid buf d = (Inr (), d')"
    using ok pid r by (simp add: disk_ok_def data_page_def disk_manager_write_page_def sbind_Inr d'_def)
  have "free_chain (pages[nat pid := buf]) (free_list_head d) fl"
  proof (rule free_chain_cong)
    show fc: "free_chain pages (free_list_head d) fl" using ok by (simp add: disk_ok_def)
    show "pages[nat pid := buf] ! nat p = pages ! nat p" if "p \<in> set fl" for p
    proof -
      have "p \<noteq> pid" using nf that by blast
      then have "nat pid \<noteq> nat p" using free_chain_mem [OF fc that] r by (simp add: eq_nat_nat_iff)
      then show ?thesis by simp
    qed
  qed simp
  then show ok': "disk_ok d' (pages[nat pid := buf]) fl"
    using ok r by (simp add: disk_ok_def d'_def)
  show "page_at d' = (page_at d)(pid \<mapsto> buf)"
  proof
    fix q
    show "page_at d' q = ((page_at d)(pid \<mapsto> buf)) q"
      using page_at_ok [OF ok', of q] page_at_ok [OF ok, of q] r pid
      by (auto simp: d'_def nth_list_update data_page_def nat_eq_iff)
  qed
qed

text \<open>The contract of a page device: a write changes the addressed page and no other.\<close>

locale page_device =
  fixes fetch :: "'s \<Rightarrow> int \<Rightarrow> buffer option"
    and store :: "'s \<Rightarrow> int \<Rightarrow> buffer \<Rightarrow> 's"
    and ok :: "'s \<Rightarrow> bool"
    and valid :: "'s \<Rightarrow> int \<Rightarrow> bool"
  assumes fetch_store: "ok s \<Longrightarrow> valid s p \<Longrightarrow> fetch (store s p b) = (fetch s)(p \<mapsto> b)"
    and ok_store: "ok s \<Longrightarrow> valid s p \<Longrightarrow> ok (store s p b)"
    and valid_store: "ok s \<Longrightarrow> valid s p \<Longrightarrow> valid (store s p b) = valid s"
    and fetch_valid: "ok s \<Longrightarrow> valid s p \<Longrightarrow> fetch s p \<noteq> None"
begin

lemma fetch_store_same: "ok s \<Longrightarrow> valid s p \<Longrightarrow> fetch (store s p b) p = Some b"
  by (simp add: fetch_store)

lemma fetch_store_other: "ok s \<Longrightarrow> valid s p \<Longrightarrow> q \<noteq> p \<Longrightarrow> fetch (store s p b) q = fetch s q"
  by (simp add: fetch_store)

lemma store_store: "ok s \<Longrightarrow> valid s p \<Longrightarrow> fetch (store (store s p b) p c) = fetch (store s p c)"
  by (simp add: fetch_store ok_store valid_store)

lemma store_commute:
  "ok s \<Longrightarrow> valid s p \<Longrightarrow> valid s q \<Longrightarrow> p \<noteq> q \<Longrightarrow>
   fetch (store (store s p b) q c) = fetch (store (store s q c) p b)"
  by (simp add: fetch_store ok_store valid_store fun_upd_twist)

lemma stores:
  "ok s \<Longrightarrow> \<forall>(p, b) \<in> set pbs. valid s p \<Longrightarrow>
   fetch (foldl (\<lambda>s (p, b). store s p b) s pbs) = fetch s ++ map_of (rev pbs)"
  by (induction pbs arbitrary: s)
    (auto simp: fetch_store ok_store valid_store map_add_def fun_eq_iff split: option.splits)

end

definition disk_good :: "disk \<Rightarrow> bool" where
  "disk_good d \<longleftrightarrow> (\<exists>pages fl. disk_ok d pages fl)"

definition free_list_of :: "disk \<Rightarrow> int list \<Rightarrow> bool" where
  "free_list_of d fl \<longleftrightarrow> (\<exists>pages. disk_ok d pages fl)"

definition disk_valid :: "disk \<Rightarrow> int \<Rightarrow> bool" where
  "disk_valid d pid \<longleftrightarrow> (\<forall>pages fl. disk_ok d pages fl \<longrightarrow> data_page d fl pid)"

definition disk_store :: "disk \<Rightarrow> int \<Rightarrow> buffer \<Rightarrow> disk" where
  "disk_store d pid buf = snd (disk_manager_write_page pid buf d)"

text \<open>The free list is determined by the state, so \<open>disk_valid\<close> may quantify over it.\<close>

lemma free_chain_unique: "free_chain pages h fl \<Longrightarrow> free_chain pages h fl' \<Longrightarrow> fl = fl'"
proof (induction fl arbitrary: h fl')
  case Nil
  then show ?case by (cases fl') auto
next
  case (Cons p ps)
  then show ?case by (cases fl') auto
qed

lemma disk_ok_unique:
  assumes "disk_ok d pages fl" "disk_ok d pages' fl'"
  shows "pages = pages' \<and> fl = fl'"
proof -
  have "pages = pages'" using assms by (simp add: disk_ok_def)
  then show ?thesis using assms free_chain_unique [of pages "free_list_head d" fl fl'] by (simp add: disk_ok_def)
qed

lemma disk_valid_iff:
  assumes ok: "disk_ok d pages fl"
  shows "disk_valid d pid \<longleftrightarrow> data_page d fl pid"
  unfolding disk_valid_def using ok disk_ok_unique [OF ok] by blast

lemma disk_store_ok:
  assumes ok: "disk_ok d pages fl" and pid: "data_page d fl pid"
  shows "disk_ok (disk_store d pid buf) (pages[nat pid := buf]) fl"
    and "page_at (disk_store d pid buf) = (page_at d)(pid \<mapsto> buf)"
    and "page_count (disk_store d pid buf) = page_count d"
  using write_page_ok [OF ok pid, of buf] by (simp_all add: disk_store_def)

lemma data_page_store [simp]:
  "disk_ok d pages fl \<Longrightarrow> data_page d fl p \<Longrightarrow> data_page (disk_store d p b) fl q = data_page d fl q"
  using disk_store_ok(3) [of d pages fl p b] by (simp add: data_page_def)

interpretation dev: page_device page_at disk_store disk_good disk_valid
proof unfold_locales
  fix d :: disk and p :: int and b :: buffer
  assume "disk_good d" and v: "disk_valid d p"
  then obtain pages fl where ok: "disk_ok d pages fl" by (auto simp: disk_good_def)
  have p: "data_page d fl p" using v disk_valid_iff [OF ok] by simp
  note st = disk_store_ok [OF ok p, of b]
  show "page_at (disk_store d p b) = (page_at d)(p \<mapsto> b)" by (rule st(2))
  show "disk_good (disk_store d p b)" using st(1) by (auto simp: disk_good_def)
  show "disk_valid (disk_store d p b) = disk_valid d"
    by (rule ext) (simp add: disk_valid_iff [OF st(1)] disk_valid_iff [OF ok] data_page_def st(3))
  show "page_at d p \<noteq> None" using p page_at_ok [OF ok, of p] by (simp add: data_page_def)
qed

subsection \<open>The header page\<close>

lemma write_header_ok:
  assumes "os_faults d = []" "os_files d (db_file d) = Some pages"
  shows "write_header d = (Inr (), d\<lparr>os_files := (os_files d)(db_file d \<mapsto> put_page pages 0 (write_header_to_buf d))\<rparr>)"
  using assms by (simp add: write_header_def sbind_Inr)

text \<open>Refreshing the header keeps the disk well-formed, whatever page 0 held.\<close>

lemma disk_ok_header:
  assumes "is_open d" "os_faults d = []" "page_count d = int (length pages)" "length pages < 2 ^ 31"
    "pages \<noteq> []" "free_chain pages (free_list_head d) fl" "distinct fl"
  shows "disk_ok (d\<lparr>os_files := (os_files d)(db_file d \<mapsto> pages[0 := write_header_to_buf d])\<rparr>)
    (pages[0 := write_header_to_buf d]) fl"
proof -
  have "free_chain (pages[0 := write_header_to_buf d]) (free_list_head d) fl"
  proof (rule free_chain_cong [OF assms(6)])
    show "pages[0 := write_header_to_buf d] ! nat p = pages ! nat p" if "p \<in> set fl" for p
      using free_chain_mem [OF assms(6) that] by (intro nth_list_update_neq) simp
  qed simp
  then show ?thesis using assms by (simp add: disk_ok_def)
qed

lemma header_fields:
  assumes "length pages < 2 ^ 31" "page_count d = int (length pages)" "in_range 32 (free_list_head d)"
  shows "mem_read (write_header_to_buf d) 0 10 = DB_MAGIC"
    and "get_u 4 (write_header_to_buf d) 10 = 1"
    and "to_signed 32 (get_u 4 (write_header_to_buf d) 14) = page_count d"
    and "get_s 4 (write_header_to_buf d) 18 = free_list_head d"
proof -
  show "mem_read (write_header_to_buf d) 0 10 = DB_MAGIC"
    by (simp add: write_header_to_buf_def Let_def mem_simps DB_MAGIC_def)
  show "get_u 4 (write_header_to_buf d) 10 = 1"
    by (simp add: write_header_to_buf_def Let_def mem_simps)
  have "in_range 32 (page_count d)" using assms by (simp add: in_range_def)
  moreover have "pattern 32 (page_count d) < 256 ^ 4" using pattern_less [of 32 "page_count d"] by simp
  ultimately show "to_signed 32 (get_u 4 (write_header_to_buf d) 14) = page_count d"
    by (simp add: write_header_to_buf_def Let_def mem_simps int_simps del: power_Suc)
  show "get_s 4 (write_header_to_buf d) 18 = free_list_head d"
    using assms(3) by (simp add: write_header_to_buf_def Let_def mem_simps)
qed

subsection \<open>Allocation\<close>

lemma allocate_reuse:
  assumes ok: "disk_ok d pages (p # ps)"
  defines "d1 \<equiv> d\<lparr>free_list_head := get_s 4 (pages ! nat p) 0\<rparr>"
  defines "pages' \<equiv> (pages[nat p := zero_page])[0 := write_header_to_buf d1]"
  defines "d' \<equiv> d1\<lparr>os_files := (os_files d)(db_file d \<mapsto> pages')\<rparr>"
  shows "allocate_page d = (Inr p, d')" and "disk_ok d' pages' ps" and "page_count d' = page_count d"
    and "pages' ! nat p = zero_page"
    and "\<And>q. 0 < q \<Longrightarrow> q \<noteq> p \<Longrightarrow> pages' ! nat q = pages ! nat q"
proof -
  have h: "free_list_head d = p" "0 < p" "nat p < length pages"
    "free_chain pages (get_s 4 (pages ! nat p) 0) ps" "distinct (p # ps)"
    and f: "is_open d" "os_faults d = []" "os_files d (db_file d) = Some pages" "pages \<noteq> []"
    "page_count d = int (length pages)" "length pages < 2 ^ 31"
    using ok by (auto simp: disk_ok_def)
  show "allocate_page d = (Inr p, d')"
    using h f by (simp add: allocate_page_def Let_def sbind_Inr write_header_ok sreturn_def
        d'_def d1_def pages'_def header_cong)
  have "free_chain (pages[nat p := zero_page]) (get_s 4 (pages ! nat p) 0) ps"
  proof (rule free_chain_cong [OF h(4)])
    fix q assume q: "q \<in> set ps"
    then have "q \<noteq> p" using h(5) by auto
    then have "nat p \<noteq> nat q" using free_chain_mem [OF h(4) q] h(2) by (simp add: eq_nat_nat_iff)
    then show "pages[nat p := zero_page] ! nat q = pages ! nat q" by simp
  qed simp
  then have "disk_ok (d1\<lparr>os_files := (os_files d1)(db_file d1 \<mapsto> pages')\<rparr>) pages' ps"
    unfolding pages'_def using f h by (intro disk_ok_header) (simp_all add: d1_def)
  then show "disk_ok d' pages' ps" by (simp add: d'_def d1_def)
  show "page_count d' = page_count d" by (simp add: d'_def d1_def)
  show "pages' ! nat p = zero_page" using h by (simp add: pages'_def)
  show "pages' ! nat q = pages ! nat q" if "0 < q" "q \<noteq> p" for q
  proof -
    have "nat p \<noteq> nat q" using that h(2) by (simp add: eq_nat_nat_iff)
    then show ?thesis using that by (simp add: pages'_def)
  qed
qed

lemma allocate_extend:
  assumes ok: "disk_ok d pages []" and room: "length pages < 2 ^ 31 - 1"
  defines "d1 \<equiv> d\<lparr>page_count := page_count d + 1\<rparr>"
  defines "pages' \<equiv> (pages @ [zero_page])[0 := write_header_to_buf d1]"
  defines "d' \<equiv> d1\<lparr>os_files := (os_files d)(db_file d \<mapsto> pages')\<rparr>"
  shows "allocate_page d = (Inr (page_count d), d')" and "disk_ok d' pages' []"
    and "page_count d' = page_count d + 1" and "pages' ! nat (page_count d) = zero_page"
    and "\<And>q. 0 < q \<Longrightarrow> q < page_count d \<Longrightarrow> pages' ! nat q = pages ! nat q"
proof -
  have f: "is_open d" "os_faults d = []" "os_files d (db_file d) = Some pages" "pages \<noteq> []"
    "page_count d = int (length pages)" "free_list_head d = INVALID_PAGE_ID"
    using ok by (auto simp: disk_ok_def)
  show "allocate_page d = (Inr (page_count d), d')"
    using f by (simp add: allocate_page_def Let_def sbind_Inr write_header_ok sreturn_def
        d'_def d1_def pages'_def header_cong)
  have "disk_ok (d1\<lparr>os_files := (os_files d1)(db_file d1 \<mapsto> pages')\<rparr>) pages' []"
    unfolding pages'_def using f room by (intro disk_ok_header) (simp_all add: d1_def)
  then show "disk_ok d' pages' []" by (simp add: d'_def d1_def)
  show "page_count d' = page_count d + 1" by (simp add: d'_def d1_def)
  show "pages' ! nat (page_count d) = zero_page" using f by (simp add: pages'_def)
  show "pages' ! nat q = pages ! nat q" if "0 < q" "q < page_count d" for q
  proof -
    have "nat q < length pages" using that f by linarith
    then show ?thesis using that by (simp add: pages'_def nth_append)
  qed
qed

text \<open>Both cases together: the page handed out, the new free list and what other pages hold.\<close>

lemma allocate_ok:
  assumes ok: "disk_ok d pages fl" and room: "length pages < 2 ^ 31 - 1"
  obtains d' pages' where "allocate_page d = (Inr (if fl = [] then page_count d else hd fl), d')"
    "disk_ok d' pages' (tl fl)"
    "page_count d' = (if fl = [] then page_count d + 1 else page_count d)"
    "page_at d' (if fl = [] then page_count d else hd fl) = Some zero_page"
    "\<And>q. data_page d fl q \<Longrightarrow> page_at d' q = page_at d q"
proof (cases fl)
  case Nil
  then have ok': "disk_ok d pages []" using ok by simp
  have l: "0 < page_count d" using ok by (simp add: disk_ok_def)
  obtain d' pages' where a: "allocate_page d = (Inr (page_count d), d')" "disk_ok d' pages' []"
    "page_count d' = page_count d + 1" "pages' ! nat (page_count d) = zero_page"
    "\<And>q. 0 < q \<Longrightarrow> q < page_count d \<Longrightarrow> pages' ! nat q = pages ! nat q"
    using allocate_extend [OF ok' room] by blast
  show ?thesis
    by (rule that [of d' pages'])
      (use a l Nil in \<open>simp_all add: page_at_ok [OF a(2)] page_at_ok [OF ok] data_page_def\<close>)
next
  case (Cons p ps)
  then have ok': "disk_ok d pages (p # ps)" using ok by simp
  have l: "0 < p" "p < page_count d" using ok' by (auto simp add: disk_ok_def)
  obtain d' pages' where a: "allocate_page d = (Inr p, d')" "disk_ok d' pages' ps"
    "page_count d' = page_count d" "pages' ! nat p = zero_page"
    "\<And>q. 0 < q \<Longrightarrow> q \<noteq> p \<Longrightarrow> pages' ! nat q = pages ! nat q"
    using allocate_reuse [OF ok'] by blast
  show ?thesis
    by (rule that [of d' pages'])
      (use a l Cons in \<open>simp_all add: page_at_ok [OF a(2)] page_at_ok [OF ok] data_page_def\<close>)
qed

lemma allocate_data:
  assumes ok: "disk_ok d pages fl" and room: "length pages < 2 ^ 31 - 1"
  obtains pid d' pages' where "disk_manager_allocate_page d = (pid, d')"
    "pid = (if fl = [] then page_count d else hd fl)" "disk_ok d' pages' (tl fl)"
    "\<not> data_page d fl pid" "data_page d' (tl fl) pid" "page_at d' pid = Some zero_page"
    "\<forall>q. data_page d fl q \<longrightarrow> data_page d' (tl fl) q \<and> page_at d' q = page_at d q"
proof -
  let ?pid = "if fl = [] then page_count d else hd fl"
  have l: "0 < page_count d" "page_count d = int (length pages)" "distinct fl"
    and fc: "free_chain pages (free_list_head d) fl" using ok by (simp_all add: disk_ok_def)
  obtain d' pages' where a: "allocate_page d = (Inr ?pid, d')" "disk_ok d' pages' (tl fl)"
    "page_count d' = (if fl = [] then page_count d + 1 else page_count d)"
    "page_at d' ?pid = Some zero_page" "\<And>q. data_page d fl q \<Longrightarrow> page_at d' q = page_at d q"
    using allocate_ok [OF ok room] by blast
  have new: "data_page d' (tl fl) ?pid"
  proof (cases fl)
    case (Cons p ps)
    then show ?thesis using a(3) l free_chain_mem [OF fc, of p] by (auto simp: data_page_def)
  qed (use a(3) l in \<open>simp add: data_page_def\<close>)
  have keep: "data_page d' (tl fl) q" if "data_page d fl q" for q
    using that a(3) by (cases fl) (auto simp: data_page_def split: if_splits)
  have fresh: "\<not> data_page d fl ?pid" by (cases fl) (auto simp: data_page_def)
  have res: "disk_manager_allocate_page d = (?pid, d')" using a(1) by (simp add: disk_manager_allocate_page_def)
  show ?thesis by (rule that [OF res refl a(2) fresh new a(4)]) (use a(5) keep in blast)
qed

subsection \<open>Deallocation\<close>

lemma deallocate_ok:
  assumes ok: "disk_ok d pages fl" and p: "data_page d fl p"
  obtains d' pages' where "disk_manager_deallocate_page p d = (Inr (), d')" "disk_ok d' pages' (p # fl)"
    "page_count d' = page_count d" "\<And>q. data_page d fl q \<Longrightarrow> q \<noteq> p \<Longrightarrow> page_at d' q = page_at d q"
proof -
  have f: "is_open d" "os_faults d = []" "os_files d (db_file d) = Some pages" "pages \<noteq> []"
    "page_count d = int (length pages)" "length pages < 2 ^ 31" "distinct fl"
    and fc: "free_chain pages (free_list_head d) fl" using ok by (auto simp: disk_ok_def)
  have r: "0 < p" "nat p < length pages" "p < int (length pages)" and nf: "p \<notin> set fl" using p f by (auto simp: data_page_def)
  have ne: "nat p \<noteq> nat q" if "q \<noteq> p" "0 \<le> q" for q using that r by (simp add: eq_nat_nat_iff)
  let ?b = "put_s 4 (pages ! nat p) 0 (free_list_head d)"
  let ?pages1 = "pages[nat p := ?b]"
  let ?d1 = "d\<lparr>free_list_head := p\<rparr>"
  let ?pages' = "?pages1[0 := write_header_to_buf ?d1]"
  let ?d' = "?d1\<lparr>os_files := (os_files d)(db_file d \<mapsto> ?pages')\<rparr>"
  have next_free: "get_s 4 ?b 0 = free_list_head d"
    using free_chain_in_range [OF fc f(6)] by (simp add: mem_simps)
  have "free_chain ?pages1 (free_list_head d) fl"
  proof (rule free_chain_cong [OF fc])
    show "?pages1 ! nat q = pages ! nat q" if "q \<in> set fl" for q
      using ne [of q] that nf free_chain_mem [OF fc that] by (intro nth_list_update_neq) auto
  qed simp
  then have "disk_ok (?d1\<lparr>os_files := (os_files ?d1)(db_file ?d1 \<mapsto> ?pages')\<rparr>) ?pages' (p # fl)"
    using f nf r by (intro disk_ok_header) (simp_all add: next_free)
  then have ok': "disk_ok ?d' ?pages' (p # fl)" by simp
  show ?thesis
  proof (rule that [OF _ ok'])
    show "disk_manager_deallocate_page p d = (Inr (), ?d')"
      using f r by (simp add: disk_manager_deallocate_page_def sbind_Inr write_header_ok header_cong)
    show "page_at ?d' q = page_at d q" if "data_page d fl q" "q \<noteq> p" for q
      using that ne [of q] by (simp add: page_at_ok [OF ok'] page_at_ok [OF ok] data_page_def)
  qed simp
qed

subsection \<open>Opening an existing file\<close>

lemma reopen_ok:
  assumes ok: "disk_ok d pages fl" and f: "os_files e = os_files d" "os_faults e = []"
    and name: "db_file d = name" "length name < 256"
  obtains e' where "disk_manager_open name e = (Inr (), e')" "disk_ok e' pages fl"
    "page_count e' = page_count d" "free_list_head e' = free_list_head d"
proof -
  have g: "os_files d name = Some pages" "pages \<noteq> []" "pages ! 0 = write_header_to_buf d"
    "page_count d = int (length pages)" "length pages < 2 ^ 31"
    and fc: "free_chain pages (free_list_head d) fl" "distinct fl" using ok name by (auto simp: disk_ok_def)
  note hf = header_fields [OF g(5) g(4) free_chain_in_range [OF fc(1) g(5)]]
  let ?e' = "e\<lparr>db_file := name, page_count := page_count d, free_list_head := free_list_head d, is_open := True\<rparr>"
  show ?thesis
  proof (rule that [of ?e'])
    show "disk_manager_open name e = (Inr (), ?e')"
      using f g name(2) hf
      by (simp add: disk_manager_open_def Let_def sbind_Inr read_header_from_buf_def supdate_def copy_name_def)
    have "write_header_to_buf ?e' = write_header_to_buf d" by (rule header_cong) simp_all
    then show "disk_ok ?e' pages fl" using f g fc name by (simp add: disk_ok_def)
  qed simp_all
qed

section \<open>Properties\<close>

text \<open>A new database file, for the witnesses.\<close>

definition no_disk :: disk where
  "no_disk = \<lparr>db_file = '''', page_count = 0, free_list_head = 0, is_open = False,
     os_files = Map.empty, os_faults = []\<rparr>"

definition demo_disk :: disk where
  "demo_disk = snd (disk_manager_open ''t.db'' no_disk)"

definition demo_disk1 :: disk where
  "demo_disk1 = snd (allocate_page demo_disk)"

lemma demo_disk_ok: "\<exists>pages. disk_ok demo_disk pages [] \<and> length pages = 1"
proof -
  let ?d = "no_disk\<lparr>page_count := 1, free_list_head := -1\<rparr>"
  have "file_io_open ''t.db'' ''rb+'' (no_disk\<lparr>page_count := 0, free_list_head := -1\<rparr>)
      = (Inl DB_IO_ERROR, no_disk\<lparr>page_count := 0, free_list_head := -1\<rparr>)"
    by (simp add: file_io_open_def no_disk_def)
  then have "disk_ok demo_disk [write_header_to_buf ?d] []"
    by (simp add: demo_disk_def disk_manager_open_def file_io_open_def no_disk_def Let_def sbind_Inr
        supdate_def disk_ok_def copy_name_def put_page_def write_header_to_buf_def)
  then show ?thesis by (intro exI [of _ "[write_header_to_buf ?d]"]) simp
qed

lemma demo_disk1_ok: "\<exists>pages. disk_ok demo_disk1 pages [] \<and> data_page demo_disk1 [] 1 \<and> db_file demo_disk1 = ''t.db''"
proof -
  obtain pages where ok: "disk_ok demo_disk pages []" and l: "length pages = 1" using demo_disk_ok by blast
  have "db_file demo_disk = ''t.db''"
    by (simp add: demo_disk_def disk_manager_open_def file_io_open_def no_disk_def Let_def sbind_Inr
        supdate_def copy_name_def put_page_def)
  then show ?thesis
    using allocate_extend(1-3) [OF ok] l ok by (auto simp: demo_disk1_def data_page_def disk_ok_def)
qed

text \<open>An open database with k zeroed data pages.\<close>

definition disk_with :: "nat \<Rightarrow> disk" where
  "disk_with k =
     (let d = no_disk\<lparr>db_file := ''t.db'', page_count := int k + 1, free_list_head := INVALID_PAGE_ID, is_open := True\<rparr>
      in d\<lparr>os_files := [''t.db'' \<mapsto> write_header_to_buf d # replicate k zero_page]\<rparr>)"

lemma disk_with_ok:
  assumes "k < 1000"
  shows "\<exists>ps. disk_ok (disk_with k) ps []" and "data_page (disk_with k) [] q \<longleftrightarrow> 0 < q \<and> q \<le> int k"
    and "page_count (disk_with k) = int k + 1"
proof -
  let ?d = "no_disk\<lparr>db_file := ''t.db'', page_count := int k + 1, free_list_head := INVALID_PAGE_ID, is_open := True\<rparr>"
  show "\<exists>ps. disk_ok (disk_with k) ps []"
    using assms by (intro exI [of _ "write_header_to_buf ?d # replicate k zero_page"])
      (simp add: disk_ok_def disk_with_def Let_def no_disk_def write_header_to_buf_def)
  show "data_page (disk_with k) [] q \<longleftrightarrow> 0 < q \<and> q \<le> int k" "page_count (disk_with k) = int k + 1"
    by (auto simp: data_page_def disk_with_def Let_def no_disk_def)
qed

text \<open>C21. Page allocation on a well-formed disk with room for one more page: it returns the first page
  of the free list, or extends the file when that is empty; the page was not in use, is zeroed and
  in use afterwards, every page in use keeps its contents, and the disk stays well-formed with the
  rest of the free list.\<close>

theorem allocate_page_spec:
  assumes ok: "disk_ok d pages fl" and room: "length pages < 2 ^ 31 - 1"
  shows "\<exists>pid d' pages'. disk_manager_allocate_page d = (pid, d') \<and>
    pid = (if fl = [] then page_count d else hd fl) \<and>
    disk_ok d' pages' (tl fl) \<and> \<not> data_page d fl pid \<and> data_page d' (tl fl) pid \<and>
    page_at d' pid = Some zero_page \<and>
    (\<forall>q. data_page d fl q \<longrightarrow> data_page d' (tl fl) q \<and> page_at d' q = page_at d q)"
  by (rule allocate_data [OF ok room]) blast

theorem allocate_page_spec_witness:
  "\<exists>pages. disk_ok demo_disk pages [] \<and> length pages < 2 ^ 31 - 1 \<and>
     fst (disk_manager_allocate_page demo_disk) = page_count demo_disk"
proof -
  obtain pages where ok: "disk_ok demo_disk pages []" and l: "length pages = 1" using demo_disk_ok by blast
  have room: "length pages < 2 ^ 31 - 1" by (simp add: l)
  show ?thesis using allocate_page_spec [OF ok room] ok room by auto
qed

text \<open>Deallocating a page in use puts it at the head of the free list and leaves every other page
  in use unchanged; together with the allocation property, the next allocation hands it out again.\<close>

theorem deallocate_page_spec:
  assumes ok: "disk_ok d pages fl" and p: "data_page d fl p"
  shows "\<exists>d' pages'. disk_manager_deallocate_page p d = (Inr (), d') \<and> disk_ok d' pages' (p # fl) \<and>
    \<not> data_page d' (p # fl) p \<and>
    (\<forall>q. data_page d fl q \<longrightarrow> q \<noteq> p \<longrightarrow> data_page d' (p # fl) q \<and> page_at d' q = page_at d q)"
proof -
  obtain d' pages' where "disk_manager_deallocate_page p d = (Inr (), d')" "disk_ok d' pages' (p # fl)"
    "page_count d' = page_count d" "\<And>q. data_page d fl q \<Longrightarrow> q \<noteq> p \<Longrightarrow> page_at d' q = page_at d q"
    using deallocate_ok [OF ok p] by blast
  then show ?thesis by (intro exI [of _ d'] exI [of _ pages']) (auto simp: data_page_def)
qed

theorem deallocate_page_spec_witness:
  "data_page demo_disk1 [] 1 \<and> fst (disk_manager_deallocate_page 1 demo_disk1) = Inr ()"
proof -
  obtain pages where ok: "disk_ok demo_disk1 pages []" and p: "data_page demo_disk1 [] 1" using demo_disk1_ok by blast
  show ?thesis using deallocate_page_spec [OF ok p] p by auto
qed

text \<open>What a page write does to later reads: writing a page in use succeeds, reading it back gives
  the bytes written, and reading any other page gives what it gave before.\<close>

theorem disk_write_read:
  assumes ok: "disk_ok d pages fl" and p: "data_page d fl p" and q: "0 \<le> q" "q < page_count d"
  shows "\<exists>d'. disk_manager_write_page p buf d = (Inr (), d') \<and>
    fst (disk_manager_read_page q d') = (if q = p then Inr buf else fst (disk_manager_read_page q d))"
proof -
  have g: "disk_good d" and v: "disk_valid d p" using ok p by (auto simp: disk_good_def disk_valid_iff [OF ok])
  have w: "disk_manager_write_page p buf d = (Inr (), disk_store d p buf)"
    using write_page_ok(1) [OF ok p, of buf] by (simp add: disk_store_def)
  note ok' = disk_store_ok(1) [OF ok p, of buf]
  obtain b where b: "page_at d q = Some b" using q page_at_ok [OF ok, of q] by simp
  have "page_at (disk_store d p buf) q = Some (if q = p then buf else b)"
    using dev.fetch_store [OF g v, of buf] b by simp
  then show ?thesis using read_page_at [OF ok'] read_page_at [OF ok b] w by auto
qed

theorem disk_write_read_witness:
  "data_page demo_disk1 [] 1 \<and>
   fst (disk_manager_read_page 1 (snd (disk_manager_write_page 1 (zero_page(7 := 9)) demo_disk1))) = Inr (zero_page(7 := 9))"
proof -
  obtain pages where ok: "disk_ok demo_disk1 pages []" and p: "data_page demo_disk1 [] 1" using demo_disk1_ok by blast
  have "0 \<le> (1::int)" "1 < page_count demo_disk1" using p by (simp_all add: data_page_def)
  from disk_write_read [OF ok p this, of "zero_page(7 := 9)"] p show ?thesis by auto
qed

text \<open>C22. Opening the file again, from any manager state, recovers the page count and the free list of
  a well-formed disk from the header page.\<close>

theorem disk_manager_reopen:
  assumes "disk_ok d pages fl" "os_files e = os_files d" "os_faults e = []" "length (db_file d) < 256"
  shows "\<exists>e'. disk_manager_open (db_file d) e = (Inr (), e') \<and> disk_ok e' pages fl \<and>
    page_count e' = page_count d \<and> free_list_head e' = free_list_head d"
proof -
  obtain e' where "disk_manager_open (db_file d) e = (Inr (), e')" "disk_ok e' pages fl"
    "page_count e' = page_count d" "free_list_head e' = free_list_head d"
    using reopen_ok [OF assms(1-3) refl assms(4)] by blast
  then show ?thesis by blast
qed

theorem disk_manager_reopen_witness:
  "fst (disk_manager_open ''t.db'' (no_disk\<lparr>os_files := os_files demo_disk1\<rparr>)) = Inr ()"
proof -
  obtain pages where ok: "disk_ok demo_disk1 pages []" and n: "db_file demo_disk1 = ''t.db''" using demo_disk1_ok by blast
  show ?thesis
    using disk_manager_reopen [OF ok, of "no_disk\<lparr>os_files := os_files demo_disk1\<rparr>"] n by (auto simp: no_disk_def)
qed

text \<open>On every state and for every pattern of I/O faults, \<open>disk_manager_allocate_page\<close> never
  returns a negative number: the error codes are positive. The header promises a negative code, and
  the callers test \<open>pid < 0\<close>, so they take a failed allocation for a page id.\<close>

theorem allocate_page_never_negative: "0 \<le> fst (disk_manager_allocate_page d)"
proof -
  have "0 \<le> pid" if "allocate_page d = (Inr pid, d')" for pid d'
    using that
    by (auto simp: allocate_page_def sbind_def Let_def sreturn_def file_io_read_page_def
        file_io_write_page_def supdate_def split: if_splits prod.splits sum.splits)
  then show ?thesis by (auto simp: disk_manager_allocate_page_def code_of_nonneg split: prod.split sum.split)
qed

text \<open>Any failure to open an existing database for update is taken for a missing file: if only
  that first open fails, \<open>disk_manager_open\<close> reports success on a database that has been emptied to a
  fresh header page, whatever the file held.\<close>

theorem open_fault_erases_file:
  assumes "os_files e name = Some pages" "os_faults e = [True]"
  shows "\<exists>e'. disk_manager_open name e = (Inr (), e') \<and> page_count e' = 1 \<and>
    free_list_head e' = INVALID_PAGE_ID \<and> os_files e' name = Some [write_header_to_buf e']"
  using assms
  by (simp add: disk_manager_open_def file_io_open_def os_try_def sbind_def supdate_def Let_def
      page_alloc_def file_io_write_page_def put_page_def write_header_to_buf_def)

theorem open_fault_erases_file_witness:
  "page_count (snd (disk_manager_open ''t.db''
     (no_disk\<lparr>os_files := [''t.db'' \<mapsto> [zero_page, zero_page, zero_page]], os_faults := [True]\<rparr>))) = 1"
  using open_fault_erases_file [of "no_disk\<lparr>os_files := [''t.db'' \<mapsto> [zero_page, zero_page, zero_page]], os_faults := [True]\<rparr>"
      "''t.db''" "[zero_page, zero_page, zero_page]"] by auto

end
