(* ===== verification/Heap_File.thy ===== *)
theory Heap_File
  imports Slotted_Page Disk_Manager
begin

text \<open>
  The heap file of \<open>src/storage/heap_file.c\<close>: a linked list of slotted pages on the disk manager, and
  its iterator. The abstract view (\<open>heap_map\<close>) is the finite map from record ids to tuples.

  The functions return a code or an id in one \<open>int\<close>; here \<open>Inl rc\<close> is a return value other than
  DB_OK, with rc the integer the C code returns, and \<open>Inr\<close> a success. The loops follow the
  next-page links of the file and need not end on a cyclic list: they are defined in the option
  monad, where None is a run that does not return, and the properties show that they return on every
  well-formed heap file. NULL arguments are not modelled; the static page buffer of
  \<open>heap_file_get\<close> is the returned data.
\<close>

section \<open>The heap file\<close>

record heap_file =
  dm :: disk
  first_page_id :: int

definition heap_file_init :: "disk \<Rightarrow> int \<Rightarrow> heap_file" where
  "heap_file_init d first = \<lparr>dm = d, first_page_id = first\<rparr>"

definition on_dm :: "(disk, 'a) op \<Rightarrow> (heap_file, int, 'a) rop" where
  "on_dm m hf =
     (case m (dm hf) of (Inl e, d) \<Rightarrow> (Inl (code_of e), hf\<lparr>dm := d\<rparr>) | (Inr x, d) \<Rightarrow> (Inr x, hf\<lparr>dm := d\<rparr>))"

text \<open>\<open>int pid = disk_manager_allocate_page(hf->dm); if (pid < 0) return pid;\<close>\<close>

definition alloc_checked :: "(heap_file, int, int) rop" where
  "alloc_checked hf =
     (case disk_manager_allocate_page (dm hf) of
        (pid, d) \<Rightarrow> (if pid < 0 then Inl pid else Inr pid, hf\<lparr>dm := d\<rparr>))"

definition ensure_first_page :: "(heap_file, int, unit) rop" where
  "ensure_first_page hf =
     (if first_page_id hf \<noteq> INVALID_PAGE_ID then (Inr (), hf)
      else
        sbind alloc_checked (\<lambda>pid.
        sbind (supdate (\<lambda>hf. hf\<lparr>first_page_id := pid\<rparr>)) (\<lambda>_.
        sbind (on_dm page_alloc) (\<lambda>_.
        sbind (on_dm (disk_manager_read_page pid)) (\<lambda>buf.
        on_dm (disk_manager_write_page pid (slotted_page_init buf pid)))))) hf)"

text \<open>The first loop of \<open>find_page_with_space\<close>: the first page of the list whose free space suffices.\<close>

partial_function (option) scan_pages ::
    "nat \<Rightarrow> int \<Rightarrow> heap_file \<Rightarrow> ((int + (int \<times> buffer) option) \<times> heap_file) option" where
  "scan_pages tuple_size current hf =
     (if current = INVALID_PAGE_ID then Some (Inr None, hf)
      else
        case sbind (on_dm page_alloc) (\<lambda>_. on_dm (disk_manager_read_page current)) hf of
          (Inl e, hf) \<Rightarrow> Some (Inl e, hf)
        | (Inr buf, hf) \<Rightarrow>
            if slotted_page_free_space buf \<ge> tuple_size + SLOT_SIZE then Some (Inr (Some (current, buf)), hf)
            else scan_pages tuple_size (page_header_get_next_page buf) hf)"

text \<open>The second loop: walk to the last page and link the new page there.\<close>

partial_function (option) link_last ::
    "int \<Rightarrow> int \<Rightarrow> heap_file \<Rightarrow> ((int + unit) \<times> heap_file) option" where
  "link_last pid cur hf =
     (case on_dm (disk_manager_read_page cur) hf of
        (Inl e, hf) \<Rightarrow> Some (Inl e, hf)
      | (Inr last_buf, hf) \<Rightarrow>
          let next = page_header_get_next_page last_buf in
          if next = INVALID_PAGE_ID then
            Some (on_dm (disk_manager_write_page cur (page_header_set_next_page last_buf pid)) hf)
          else link_last pid next hf)"

definition find_page_with_space ::
    "nat \<Rightarrow> heap_file \<Rightarrow> ((int + int \<times> buffer) \<times> heap_file) option" where
  "find_page_with_space tuple_size hf =
     (case ensure_first_page hf of
        (Inl e, hf) \<Rightarrow> Some (Inl e, hf)
      | (Inr _, hf) \<Rightarrow>
          (case scan_pages tuple_size (first_page_id hf) hf of
             None \<Rightarrow> None
           | Some (Inl e, hf) \<Rightarrow> Some (Inl e, hf)
           | Some (Inr (Some r), hf) \<Rightarrow> Some (Inr r, hf)
           | Some (Inr None, hf) \<Rightarrow>
               (case
                  sbind alloc_checked (\<lambda>pid.
                  sbind (on_dm page_alloc) (\<lambda>buf.
                  sbind (on_dm (disk_manager_write_page pid (slotted_page_init buf pid))) (\<lambda>_.
                  sbind (on_dm (disk_manager_read_page pid)) (\<lambda>page_buf.
                  sbind (on_dm page_alloc) (\<lambda>_.
                  sreturn (pid, page_buf)))))) hf
                of
                  (Inl e, hf) \<Rightarrow> Some (Inl e, hf)
                | (Inr (pid, page_buf), hf) \<Rightarrow>
                    (case link_last pid (first_page_id hf) hf of
                       None \<Rightarrow> None
                     | Some (Inl e, hf) \<Rightarrow> Some (Inl e, hf)
                     | Some (Inr _, hf) \<Rightarrow> Some (Inr (pid, page_buf), hf)))))"

text \<open>Whenever \<open>find_page_with_space\<close> fails it leaves \<open>page_buf\<close> NULL; \<open>heap_file_insert\<close> then returns a negative result
  as it is and DB_INTERNAL_ERROR for any other, the error codes being positive.\<close>

definition heap_file_insert :: "byte list \<Rightarrow> heap_file \<Rightarrow> ((int + rid) \<times> heap_file) option" where
  "heap_file_insert data hf =
     (if length data = 0 then Some (Inl (code_of DB_INVALID_ARGUMENT), hf)
      else
        case find_page_with_space (length data) hf of
          None \<Rightarrow> None
        | Some (Inl pid, hf) \<Rightarrow> Some (Inl (if pid < 0 then pid else code_of DB_INTERNAL_ERROR), hf)
        | Some (Inr (pid, page_buf), hf) \<Rightarrow>
            if pid < 0 then Some (Inl pid, hf)
            else
              let (slot_id, page_buf) = slotted_page_insert page_buf data in
              if slot_id < 0 then Some (Inl slot_id, hf)
              else Some (
                sbind (on_dm (disk_manager_write_page pid page_buf)) (\<lambda>_.
                sreturn \<lparr>rid_page = pid, rid_slot = slot_id\<rparr>) hf))"

definition rid_invalid :: "rid \<Rightarrow> bool" where
  "rid_invalid r \<longleftrightarrow> rid_page r = INVALID_PAGE_ID \<or> rid_slot r = INVALID_SLOT_ID"

definition heap_file_delete :: "rid \<Rightarrow> (heap_file, int, unit) rop" where
  "heap_file_delete r hf =
     (if rid_invalid r then (Inl (code_of DB_INVALID_ARGUMENT), hf)
      else
        sbind (on_dm page_alloc) (\<lambda>_.
        sbind (on_dm (disk_manager_read_page (rid_page r))) (\<lambda>page_buf.
        case slotted_page_delete page_buf (rid_slot r) of
          (rc, page_buf) \<Rightarrow>
            if rc \<noteq> DB_OK then sfail (code_of rc)
            else on_dm (disk_manager_write_page (rid_page r) page_buf))) hf)"

definition heap_file_update :: "rid \<Rightarrow> byte list \<Rightarrow> (heap_file, int, unit) rop" where
  "heap_file_update r new_data hf =
     (if length new_data = 0 then (Inl (code_of DB_INVALID_ARGUMENT), hf)
      else if rid_invalid r then (Inl (code_of DB_INVALID_ARGUMENT), hf)
      else
        sbind (on_dm page_alloc) (\<lambda>_.
        sbind (on_dm (disk_manager_read_page (rid_page r))) (\<lambda>page_buf.
        case slotted_page_update page_buf (rid_slot r) new_data of
          (rc, page_buf) \<Rightarrow>
            if rc \<noteq> DB_OK then sfail (code_of rc)
            else on_dm (disk_manager_write_page (rid_page r) page_buf))) hf)"

definition heap_file_get :: "rid \<Rightarrow> (heap_file, int, byte list) rop" where
  "heap_file_get r hf =
     (if rid_invalid r then (Inl (code_of DB_INVALID_ARGUMENT), hf)
      else
        sbind (on_dm page_alloc) (\<lambda>_.
        sbind (on_dm (disk_manager_read_page (rid_page r))) (\<lambda>buf.
        case slotted_page_get buf (rid_slot r) of
          Inl e \<Rightarrow> sfail (code_of e)
        | Inr (off, sz) \<Rightarrow> sreturn (mem_read buf off sz))) hf)"

section \<open>The iterator\<close>

record heap_iter =
  it_page :: int
  it_slot :: nat
  it_buf :: buffer
  it_loaded :: bool

definition heap_iter_init :: "heap_file \<Rightarrow> heap_iter" where
  "heap_iter_init hf = \<lparr>it_page = first_page_id hf, it_slot = 0, it_buf = zero_page, it_loaded = False\<rparr>"

text \<open>The slot loop: the first live slot from the current one on, or the number of slots.\<close>

function next_live :: "buffer \<Rightarrow> nat \<Rightarrow> nat \<Rightarrow> nat" where
  "next_live buf num_slots slot =
     (if slot < num_slots then
        if slot_get_size buf slot > 0 then slot else next_live buf num_slots (slot + 1)
      else slot)"
  by pat_completeness auto
termination
  by (relation "measure (\<lambda>(buf, n, i). n - i)") auto

declare next_live.simps [simp del]

partial_function (option) heap_iter_next ::
    "heap_iter \<Rightarrow> heap_file \<Rightarrow> ((int + rid \<times> byte list) \<times> heap_iter \<times> heap_file) option" where
  "heap_iter_next it hf =
     (if it_page it = INVALID_PAGE_ID then Some (Inl (code_of DB_PAGE_NOT_FOUND), it, hf)
      else
        case
          (if it_loaded it then (Inr (it_buf it, it_slot it), hf)
           else
             sbind (on_dm page_alloc) (\<lambda>_.
             sbind (on_dm (disk_manager_read_page (it_page it))) (\<lambda>buf.
             sreturn (buf, 0))) hf)
        of
          (Inl e, hf) \<Rightarrow> Some (Inl e, it, hf)
        | (Inr (buf, slot), hf) \<Rightarrow>
            let num_slots = page_header_get_num_tuples buf;
                slot = next_live buf num_slots slot
            in
            if slot < num_slots then
              Some (Inr (\<lparr>rid_page = it_page it, rid_slot = int slot\<rparr>,
                         mem_read buf (slot_get_offset buf slot) (slot_get_size buf slot)),
                    it\<lparr>it_slot := slot + 1, it_buf := buf, it_loaded := True\<rparr>, hf)
            else
              heap_iter_next
                (it\<lparr>it_page := page_header_get_next_page buf, it_slot := slot, it_buf := buf, it_loaded := False\<rparr>) hf)"

section \<open>The abstract view and the invariant\<close>

fun chain :: "(int \<Rightarrow> buffer option) \<Rightarrow> int \<Rightarrow> int list \<Rightarrow> bool" where
  "chain pa cur [] \<longleftrightarrow> cur = INVALID_PAGE_ID"
| "chain pa cur (p # ps) \<longleftrightarrow> cur = p \<and> p \<noteq> INVALID_PAGE_ID \<and>
     (\<exists>b. pa p = Some b \<and> wf_page b \<and> chain pa (page_header_get_next_page b) ps)"

text \<open>The pages ps of the heap file in list order, all of them in use on a well-formed disk.\<close>

definition heap_ok :: "heap_file \<Rightarrow> buffer list \<Rightarrow> int list \<Rightarrow> int list \<Rightarrow> bool" where
  "heap_ok hf pages fl ps \<longleftrightarrow>
     disk_ok (dm hf) pages fl \<and> chain (page_at (dm hf)) (first_page_id hf) ps \<and> distinct ps \<and>
     (\<forall>p \<in> set ps. data_page (dm hf) fl p)"

definition slot_at :: "buffer \<Rightarrow> int \<Rightarrow> byte list option" where
  "slot_at b s = (if 0 \<le> s \<and> nat s < nslots b then page_slots b ! nat s else None)"

definition heap_map :: "(int \<Rightarrow> buffer option) \<Rightarrow> int list \<Rightarrow> rid \<Rightarrow> byte list option" where
  "heap_map pa ps r =
     (if rid_page r \<in> set ps then case pa (rid_page r) of None \<Rightarrow> None | Some b \<Rightarrow> slot_at b (rid_slot r)
      else None)"

lemma chain_page: "chain pa cur ps \<Longrightarrow> p \<in> set ps \<Longrightarrow> \<exists>b. pa p = Some b \<and> wf_page b"
  by (induction pa cur ps rule: chain.induct) auto

lemma chain_cong: "chain pa cur ps \<Longrightarrow> (\<And>p. p \<in> set ps \<Longrightarrow> pa' p = pa p) \<Longrightarrow> chain pa' cur ps"
  by (induction pa cur ps rule: chain.induct) auto

lemma chain_update:
  "chain pa cur ps \<Longrightarrow> pa p = Some b \<Longrightarrow> wf_page b' \<Longrightarrow>
   page_header_get_next_page b' = page_header_get_next_page b \<Longrightarrow> chain (pa(p \<mapsto> b')) cur ps"
  by (induction pa cur ps rule: chain.induct) auto

lemma chain_head: "chain pa cur ps \<Longrightarrow> cur = INVALID_PAGE_ID \<longleftrightarrow> ps = []"
  by (cases ps) auto

text \<open>Setting the next-page link keeps everything else of a page.\<close>

lemma set_next_fields [simp]:
  "page_header_get_num_tuples (page_header_set_next_page b n) = page_header_get_num_tuples b"
  "slot_get_size (page_header_set_next_page b n) i = slot_get_size b i"
  "slot_get_offset (page_header_set_next_page b n) i = slot_get_offset b i"
  "page_header_get_free_space (page_header_set_next_page b n) = page_header_get_free_space b"
  "in_range 32 n \<Longrightarrow> page_header_get_next_page (page_header_set_next_page b n) = n"
  using slot_pos_ge [of i] by (simp_all add: page_fields mem_simps)

lemma set_next_byte: "24 \<le> x \<Longrightarrow> page_header_set_next_page b n x = b x"
  by (simp add: page_fields mem_simps)

lemma set_next_wf:
  assumes wf: "wf_page b"
  shows "wf_page (page_header_set_next_page b n)" and "page_slots (page_header_set_next_page b n) = page_slots b"
proof -
  let ?b = "page_header_set_next_page b n"
  have "slotted_page_free_space ?b = slotted_page_free_space b" by (rule free_space_cong) simp_all
  then show "wf_page ?b" using wf by (simp add: wf_page_def live_def)
  have "slot_data ?b i = slot_data b i" if i: "i < nslots b" for i
  proof (cases "slot_get_size b i = 0")
    case False
    then have "24 \<le> slot_get_offset b i" using wf_page_live [OF wf, of i] i by (simp add: live_def)
    then have "mem_read ?b (slot_get_offset b i) (slot_get_size b i) = mem_read b (slot_get_offset b i) (slot_get_size b i)"
      by (intro mem_read_cong set_next_byte) simp
    then show ?thesis by (simp add: slot_data_def)
  qed (simp add: slot_data_def)
  then show "page_slots ?b = page_slots b" by (simp add: page_slots_def)
qed

text \<open>Linking a new last page behind the end of a non-empty list.\<close>

lemma chain_append:
  "chain pa cur ps \<Longrightarrow> ps \<noteq> [] \<Longrightarrow> distinct ps \<Longrightarrow> pid \<notin> set ps \<Longrightarrow> in_range 32 pid \<Longrightarrow> pid \<noteq> INVALID_PAGE_ID \<Longrightarrow>
   pa (last ps) = Some lb \<Longrightarrow> pa pid = Some nb \<Longrightarrow> wf_page nb \<Longrightarrow> page_header_get_next_page nb = INVALID_PAGE_ID \<Longrightarrow>
   chain (pa(last ps \<mapsto> page_header_set_next_page lb pid)) cur (ps @ [pid])"
proof (induction pa cur ps rule: chain.induct)
  case (2 pa cur p ps)
  obtain b where b: "pa p = Some b" "wf_page b" "chain pa (page_header_get_next_page b) ps" "cur = p" "p \<noteq> -1"
    using "2.prems"(1) by auto
  show ?case
  proof (cases "ps = []")
    case True
    then have "lb = b" using "2.prems"(7) b by simp
    then show ?thesis using True b "2.prems" set_next_wf [OF b(2), of pid] by auto
  next
    case False
    have "p \<noteq> last ps" using False "2.prems"(3) last_in_set [of ps] by auto
    moreover have "chain (pa(last ps \<mapsto> page_header_set_next_page lb pid)) (page_header_get_next_page b) (ps @ [pid])"
      using "2.IH" [OF b(3) False] "2.prems" False by (simp del: fun_upd_apply)
    ultimately show ?thesis using False b(1,2,4,5) by (simp del: fun_upd_apply) (simp only: fun_upd_apply, simp)
  qed
qed simp

subsection \<open>Fault-free steps\<close>

lemma on_dm_Inr: "m (dm hf) = (Inr x, d) \<Longrightarrow> on_dm m hf = (Inr x, hf\<lparr>dm := d\<rparr>)"
  by (simp add: on_dm_def)

lemma on_dm_alloc: "disk_ok (dm hf) pages fl \<Longrightarrow> on_dm page_alloc hf = (Inr zero_page, hf)"
  by (simp add: on_dm_def disk_ok_def)

lemma on_dm_read:
  "disk_ok (dm hf) pages fl \<Longrightarrow> page_at (dm hf) p = Some b \<Longrightarrow> on_dm (disk_manager_read_page p) hf = (Inr b, hf)"
  using read_page_at [of "dm hf" pages fl p b] by (simp add: on_dm_def)

lemma on_dm_write:
  "disk_ok (dm hf) pages fl \<Longrightarrow> data_page (dm hf) fl p \<Longrightarrow>
   on_dm (disk_manager_write_page p b) hf = (Inr (), hf\<lparr>dm := disk_store (dm hf) p b\<rparr>)"
  using write_page_ok(1) [of "dm hf" pages fl p b] by (simp add: on_dm_def disk_store_def)

lemma data_page_range: "disk_ok d pages fl \<Longrightarrow> data_page d fl p \<Longrightarrow> in_range 32 p \<and> 0 < p"
  by (auto simp: disk_ok_def data_page_def in_range_def)

text \<open>The scan ends at the first page with room, or at the end of the list.\<close>

lemma scan_pages_ok:
  assumes ok: "disk_ok (dm hf) pages fl"
  shows "chain (page_at (dm hf)) cur ps \<Longrightarrow>
    (\<exists>p \<in> set ps. \<exists>b. scan_pages n cur hf = Some (Inr (Some (p, b)), hf) \<and> page_at (dm hf) p = Some b \<and>
       n + SLOT_SIZE \<le> slotted_page_free_space b) \<or>
    scan_pages n cur hf = Some (Inr None, hf)"
proof (induction ps arbitrary: cur)
  case Nil
  then show ?case by (simp add: scan_pages.simps)
next
  case (Cons p ps)
  then obtain b where b: "cur = p" "p \<noteq> -1" "page_at (dm hf) p = Some b" "chain (page_at (dm hf)) (page_header_get_next_page b) ps"
    by auto
  have step: "scan_pages n cur hf =
      (if n + 4 \<le> slotted_page_free_space b then Some (Inr (Some (p, b)), hf)
       else scan_pages n (page_header_get_next_page b) hf)"
    using b on_dm_alloc [OF ok] on_dm_read [OF ok b(3)] by (subst scan_pages.simps) (simp add: sbind_Inr)
  show ?case
  proof (cases "n + 4 \<le> slotted_page_free_space b")
    case True
    then show ?thesis using step b by auto
  next
    case False
    then show ?thesis using step Cons.IH [OF b(4)] by auto
  qed
qed

lemma link_last_ok:
  assumes ok: "disk_ok (dm hf) pages fl"
  shows "chain (page_at (dm hf)) cur ps \<Longrightarrow> ps \<noteq> [] \<Longrightarrow> \<forall>p \<in> set ps. data_page (dm hf) fl p \<Longrightarrow>
    \<exists>lb. page_at (dm hf) (last ps) = Some lb \<and>
      link_last pid cur hf = Some (Inr (), hf\<lparr>dm := disk_store (dm hf) (last ps) (page_header_set_next_page lb pid)\<rparr>)"
proof (induction ps arbitrary: cur)
  case (Cons p ps)
  then obtain b where b: "cur = p" "page_at (dm hf) p = Some b" "chain (page_at (dm hf)) (page_header_get_next_page b) ps"
    by auto
  have n: "page_header_get_next_page b = INVALID_PAGE_ID \<longleftrightarrow> ps = []" by (rule chain_head [OF b(3)])
  have step: "link_last pid cur hf =
      (if ps = [] then Some (on_dm (disk_manager_write_page p (page_header_set_next_page b pid)) hf)
       else link_last pid (page_header_get_next_page b) hf)"
    using b on_dm_read [OF ok b(2)] n by (subst link_last.simps) (simp add: Let_def)
  show ?case
  proof (cases "ps = []")
    case True
    then show ?thesis using step b on_dm_write [OF ok, of p] Cons.prems by simp
  next
    case False
    then show ?thesis using step Cons.IH [OF b(3) False] Cons.prems by simp
  qed
qed simp

text \<open>Rewriting one page of the heap file, its link unchanged.\<close>

lemma heap_okD:
  assumes "heap_ok hf pages fl ps"
  shows heap_ok_disk: "disk_ok (dm hf) pages fl" and heap_ok_chain: "chain (page_at (dm hf)) (first_page_id hf) ps"
    and heap_ok_distinct: "distinct ps" and heap_ok_data: "p \<in> set ps \<Longrightarrow> data_page (dm hf) fl p"
  using assms by (simp_all add: heap_ok_def)

lemma heap_page:
  assumes "heap_ok hf pages fl ps" "p \<in> set ps"
  obtains b where "page_at (dm hf) p = Some b" "wf_page b"
  using chain_page [OF heap_ok_chain [OF assms(1)] assms(2)] by blast

lemma heap_write:
  assumes h: "heap_ok hf pages fl ps" and p: "p \<in> set ps" and b: "page_at (dm hf) p = Some b"
    and b': "wf_page b'" "page_header_get_next_page b' = page_header_get_next_page b"
  defines "hf' \<equiv> hf\<lparr>dm := disk_store (dm hf) p b'\<rparr>"
  shows "on_dm (disk_manager_write_page p b') hf = (Inr (), hf')"
    and "heap_ok hf' (pages[nat p := b']) fl ps"
    and "page_at (dm hf') = (page_at (dm hf))(p \<mapsto> b')"
proof -
  note d = heap_ok_disk [OF h] and dp = heap_ok_data [OF h p]
  show "on_dm (disk_manager_write_page p b') hf = (Inr (), hf')"
    unfolding hf'_def by (rule on_dm_write [OF d dp])
  show pa: "page_at (dm hf') = (page_at (dm hf))(p \<mapsto> b')" using disk_store_ok(2) [OF d dp] by (simp add: hf'_def)
  have "chain (page_at (dm hf')) (first_page_id hf') ps"
    unfolding pa using chain_update [OF heap_ok_chain [OF h] b b'] by (simp add: hf'_def)
  then show "heap_ok hf' (pages[nat p := b']) fl ps"
    using disk_store_ok(1) [OF d dp, of b'] h d dp by (simp add: heap_ok_def hf'_def)
qed

lemma heap_map_write:
  assumes p: "p \<in> set ps" and b: "pa p = Some b" and s: "slot_at b' = (slot_at b)(s := v)"
  shows "heap_map (pa(p \<mapsto> b')) ps = (heap_map pa ps)(\<lparr>rid_page = p, rid_slot = s\<rparr> := v)"
proof
  fix r :: rid
  show "heap_map (pa(p \<mapsto> b')) ps r = ((heap_map pa ps)(\<lparr>rid_page = p, rid_slot = s\<rparr> := v)) r"
    using p b s by (cases r) (auto simp: heap_map_def)
qed

lemma heap_map_at: "rid_page r \<in> set ps \<Longrightarrow> pa (rid_page r) = Some b \<Longrightarrow> heap_map pa ps r = slot_at b (rid_slot r)"
  by (simp add: heap_map_def)

lemma slot_at_append:
  "page_slots b' = page_slots b @ [v] \<Longrightarrow> slot_at b' = (slot_at b)(int (nslots b) := v)"
proof
  fix s assume a: "page_slots b' = page_slots b @ [v]"
  then have "nslots b' = Suc (nslots b)" using length_page_slots [of b'] by simp
  then show "slot_at b' s = ((slot_at b)(int (nslots b) := v)) s"
    using a by (auto simp: slot_at_def nth_append less_Suc_eq simp del: page_slots_nth)
qed

lemma slot_at_update:
  "page_slots b' = (page_slots b)[k := v] \<Longrightarrow> k < nslots b \<Longrightarrow> slot_at b' = (slot_at b)(int k := v)"
proof
  fix s assume a: "page_slots b' = (page_slots b)[k := v]" and k: "k < nslots b"
  then have "nslots b' = nslots b" using length_page_slots [of b'] by simp
  then show "slot_at b' s = ((slot_at b)(int k := v)) s"
    using a k by (auto simp: slot_at_def nth_list_update nat_eq_iff simp del: page_slots_nth)
qed

lemma slot_at_live: "slot_at b s \<noteq> None \<longleftrightarrow> 0 \<le> s \<and> live b (nat s)"
  by (auto simp: slot_at_def live_slot_data simp del: page_slots_nth)

text \<open>Inserting into a page of the heap file that has room.\<close>

lemma heap_insert_at:
  assumes h: "heap_ok hf pages fl ps" and p: "p \<in> set ps" and b: "page_at (dm hf) p = Some b"
    and len: "0 < length data" and room: "length data + SLOT_SIZE \<le> slotted_page_free_space b"
  obtains b' hf' where "slotted_page_insert b data = (int (nslots b), b')"
    "on_dm (disk_manager_write_page p b') hf = (Inr (), hf')" "first_page_id hf' = first_page_id hf"
    "heap_ok hf' (pages[nat p := b']) fl ps" "page_at (dm hf') = (page_at (dm hf))(p \<mapsto> b')"
    "heap_map (page_at (dm hf')) ps = (heap_map (page_at (dm hf)) ps)(\<lparr>rid_page = p, rid_slot = int (nslots b)\<rparr> \<mapsto> data)"
    "heap_map (page_at (dm hf)) ps \<lparr>rid_page = p, rid_slot = int (nslots b)\<rparr> = None"
proof -
  have wf: "wf_page b" using chain_page [OF heap_ok_chain [OF h] p] b by auto
  have "28 + 4 * nslots b + length data \<le> free_space_upper b" using room free_space_eq [OF wf] len by linarith
  from insert_refines [OF wf len this] obtain b' where b':
    "slotted_page_insert b data = (int (nslots b), b')" "wf_page b'" "page_slots b' = page_slots b @ [Some data]"
    "page_header_get_next_page b' = page_header_get_next_page b" by blast
  note w = heap_write [OF h p b b'(2,4)]
  show ?thesis
  proof (rule that [OF b'(1) w(1) _ w(2,3)])
    show "heap_map (page_at (dm (hf\<lparr>dm := disk_store (dm hf) p b'\<rparr>))) ps =
        (heap_map (page_at (dm hf)) ps)(\<lparr>rid_page = p, rid_slot = int (nslots b)\<rparr> \<mapsto> data)"
      unfolding w(3) using heap_map_write [where pa = "page_at (dm hf)" and v = "Some data", OF p b]
        slot_at_append [OF b'(3)] by blast
    show "heap_map (page_at (dm hf)) ps \<lparr>rid_page = p, rid_slot = int (nslots b)\<rparr> = None"
      using b p by (simp add: heap_map_def slot_at_def)
  qed simp
qed

text \<open>A new page: allocated, initialised, and linked behind the last page.\<close>

lemma alloc_checked_ok:
  assumes d: "disk_ok (dm hf) pages fl" and room: "length pages < 2 ^ 31 - 1"
  obtains pid hf' pages' where "alloc_checked hf = (Inr pid, hf')" "first_page_id hf' = first_page_id hf"
    "disk_ok (dm hf') pages' (tl fl)" "\<not> data_page (dm hf) fl pid" "data_page (dm hf') (tl fl) pid"
    "\<forall>q. data_page (dm hf) fl q \<longrightarrow> data_page (dm hf') (tl fl) q \<and> page_at (dm hf') q = page_at (dm hf) q"
    "page_at (dm hf') pid = Some zero_page"
proof -
  obtain pid d' pages' where a: "disk_manager_allocate_page (dm hf) = (pid, d')"
    "pid = (if fl = [] then page_count (dm hf) else hd fl)" "disk_ok d' pages' (tl fl)"
    "\<not> data_page (dm hf) fl pid" "data_page d' (tl fl) pid" "page_at d' pid = Some zero_page"
    "\<forall>q. data_page (dm hf) fl q \<longrightarrow> data_page d' (tl fl) q \<and> page_at d' q = page_at (dm hf) q"
    by (rule allocate_data [OF d room])
  have "alloc_checked hf = (Inr pid, hf\<lparr>dm := d'\<rparr>)"
    using a(1,5) by (simp add: alloc_checked_def data_page_def)
  then show ?thesis by (rule that) (use a(3-7) in simp_all)
qed

lemma init_page:
  assumes "disk_ok d pages fl" "data_page d fl pid"
  shows "wf_page (slotted_page_init b pid)" "page_slots (slotted_page_init b pid) = []"
    "nslots (slotted_page_init b pid) = 0" "page_header_get_next_page (slotted_page_init b pid) = INVALID_PAGE_ID"
    "slotted_page_free_space (slotted_page_init b pid) = 4072"
proof -
  have r: "in_range 32 pid" using data_page_range [OF assms] by simp
  note i = init_refines [OF r, of b]
  show "wf_page (slotted_page_init b pid)" "page_slots (slotted_page_init b pid) = []"
    "page_header_get_next_page (slotted_page_init b pid) = INVALID_PAGE_ID" by (rule i)+
  show n: "nslots (slotted_page_init b pid) = 0" using length_page_slots [of "slotted_page_init b pid"] i(2) by simp
  show "slotted_page_free_space (slotted_page_init b pid) = 4072"
    using free_space_eq [OF i(1)] n by (simp add: free_space_upper_def)
qed

lemma heap_map_Nil [simp]: "heap_map pa [] r = None"
  by (simp add: heap_map_def)

text \<open>The pages in use that do not belong to the heap file.\<close>

definition other_pages_kept :: "heap_file \<Rightarrow> int list \<Rightarrow> int list \<Rightarrow> heap_file \<Rightarrow> int list \<Rightarrow> bool" where
  "other_pages_kept hf fl ps hf' fl' \<longleftrightarrow>
     (\<forall>q. data_page (dm hf) fl q \<longrightarrow> q \<notin> set ps \<longrightarrow>
        data_page (dm hf') fl' q \<and> page_at (dm hf') q = page_at (dm hf) q)"

lemma ensure_first_page_some: "heap_ok hf pages fl ps \<Longrightarrow> ps \<noteq> [] \<Longrightarrow> ensure_first_page hf = (Inr (), hf)"
  using chain_head [OF heap_ok_chain] by (simp add: ensure_first_page_def)

lemma ensure_first_page_new:
  assumes h: "heap_ok hf pages fl []" and room: "length pages < 2 ^ 31 - 1"
  obtains pid hf' pages' b where "ensure_first_page hf = (Inr (), hf')" "heap_ok hf' pages' (tl fl) [pid]"
    "page_at (dm hf') pid = Some b" "nslots b = 0" "slotted_page_free_space b = 4072" "\<not> data_page (dm hf) fl pid"
    "other_pages_kept hf fl [] hf' (tl fl)"
proof -
  have f: "first_page_id hf = INVALID_PAGE_ID" using heap_ok_chain [OF h] by simp
  obtain pid hf1 pages1 where a: "alloc_checked hf = (Inr pid, hf1)" "disk_ok (dm hf1) pages1 (tl fl)"
    "data_page (dm hf1) (tl fl) pid" "first_page_id hf1 = first_page_id hf"
    "\<not> data_page (dm hf) fl pid" "page_at (dm hf1) pid = Some zero_page"
    "\<forall>q. data_page (dm hf) fl q \<longrightarrow> data_page (dm hf1) (tl fl) q \<and> page_at (dm hf1) q = page_at (dm hf) q"
    by (rule alloc_checked_ok [OF heap_ok_disk [OF h] room])
  let ?b = "slotted_page_init zero_page pid"
  let ?hf2 = "hf1\<lparr>first_page_id := pid\<rparr>"
  let ?hf3 = "hf1\<lparr>first_page_id := pid, dm := disk_store (dm hf1) pid ?b\<rparr>"
  note i = init_page [OF a(2,3), of zero_page]
  have d2: "disk_ok (dm ?hf2) pages1 (tl fl)" "data_page (dm ?hf2) (tl fl) pid" "page_at (dm ?hf2) pid = Some zero_page"
    using a by simp_all
  note st = disk_store_ok [OF a(2,3), of ?b]
  show ?thesis
  proof (rule that [of ?hf3 "pages1[nat pid := ?b]" pid ?b])
    show "ensure_first_page hf = (Inr (), ?hf3)"
      using f a(1) on_dm_alloc [OF d2(1)] on_dm_read [OF d2(1) d2(3)] on_dm_write [OF d2(1,2), of ?b]
      by (simp add: ensure_first_page_def sbind_Inr)
    show "heap_ok ?hf3 (pages1[nat pid := ?b]) (tl fl) [pid]"
      using st a(2,3) i data_page_range [OF a(2,3)] by (simp add: heap_ok_def)
    show "other_pages_kept hf fl [] ?hf3 (tl fl)"
      using st a data_page_store [OF a(2,3)] by (auto simp: other_pages_kept_def)
  qed (use st i a in simp_all)
qed

lemma slot_at_cong: "nslots b' = nslots b \<Longrightarrow> page_slots b' = page_slots b \<Longrightarrow> slot_at b' = slot_at b"
  by (rule ext) (simp add: slot_at_def del: page_slots_nth)

lemma slot_at_empty: "nslots b = 0 \<Longrightarrow> slot_at b s = None"
  by (simp add: slot_at_def)

lemma append_page:
  assumes h: "heap_ok hf pages fl ps" and ne: "ps \<noteq> []" and room: "length pages < 2 ^ 31 - 1"
  obtains pid hf1 hf' pages' b where
    "sbind alloc_checked (\<lambda>pid.
     sbind (on_dm page_alloc) (\<lambda>buf.
     sbind (on_dm (disk_manager_write_page pid (slotted_page_init buf pid))) (\<lambda>_.
     sbind (on_dm (disk_manager_read_page pid)) (\<lambda>page_buf.
     sbind (on_dm page_alloc) (\<lambda>_.
     sreturn (pid, page_buf)))))) hf = (Inr (pid, b), hf1)"
    "link_last pid (first_page_id hf1) hf1 = Some (Inr (), hf')"
    "heap_ok hf' pages' (tl fl) (ps @ [pid])" "page_at (dm hf') pid = Some b"
    "nslots b = 0" "slotted_page_free_space b = 4072" "\<not> data_page (dm hf) fl pid"
    "heap_map (page_at (dm hf')) (ps @ [pid]) = heap_map (page_at (dm hf)) ps"
    "other_pages_kept hf fl ps hf' (tl fl)"
proof -
  obtain pid hf1 pages1 where a: "alloc_checked hf = (Inr pid, hf1)" "disk_ok (dm hf1) pages1 (tl fl)"
    "data_page (dm hf1) (tl fl) pid" "first_page_id hf1 = first_page_id hf"
    "\<not> data_page (dm hf) fl pid" "page_at (dm hf1) pid = Some zero_page"
    "\<forall>q. data_page (dm hf) fl q \<longrightarrow> data_page (dm hf1) (tl fl) q \<and> page_at (dm hf1) q = page_at (dm hf) q"
    by (rule alloc_checked_ok [OF heap_ok_disk [OF h] room])
  let ?b = "slotted_page_init zero_page pid"
  note i = init_page [OF a(2,3), of zero_page]
  let ?hf2 = "hf1\<lparr>dm := disk_store (dm hf1) pid ?b\<rparr>"
  note st = disk_store_ok [OF a(2,3), of ?b]
  have d2: "disk_ok (dm ?hf2) (pages1[nat pid := ?b]) (tl fl)" using st by simp
  have pid: "pid \<notin> set ps" using a(5) heap_ok_data [OF h] by blast
  have pa2: "page_at (dm ?hf2) = (page_at (dm hf1))(pid \<mapsto> ?b)" using st by simp
  have same: "page_at (dm ?hf2) q = page_at (dm hf) q" if "data_page (dm hf) fl q" for q
    using that a(5,7) unfolding pa2 by auto
  have c2: "chain (page_at (dm ?hf2)) (first_page_id ?hf2) ps"
    using chain_cong [OF heap_ok_chain [OF h]] same heap_ok_data [OF h] a(4) by simp
  have dp2: "data_page (dm ?hf2) (tl fl) q" if "data_page (dm hf) fl q \<or> q = pid" for q
    using that a(3,7) data_page_store [OF a(2,3)] by auto
  then have "\<forall>p \<in> set ps. data_page (dm ?hf2) (tl fl) p" using heap_ok_data [OF h] by blast
  from link_last_ok [OF d2 c2 ne this, of pid] obtain lb where
    lb: "page_at (dm ?hf2) (last ps) = Some lb" and
    ll: "link_last pid (first_page_id ?hf2) ?hf2 =
      Some (Inr (), ?hf2\<lparr>dm := disk_store (dm ?hf2) (last ps) (page_header_set_next_page lb pid)\<rparr>)" by blast
  let ?lb = "page_header_set_next_page lb pid"
  let ?hf3 = "?hf2\<lparr>dm := disk_store (dm ?hf2) (last ps) ?lb\<rparr>"
  have l: "last ps \<in> set ps" using ne by simp
  have dl: "data_page (dm ?hf2) (tl fl) (last ps)" using dp2 heap_ok_data [OF h l] by blast
  note st3 = disk_store_ok [OF d2 dl, of ?lb]
  have pa3: "page_at (dm ?hf3) = (page_at (dm ?hf2))(last ps \<mapsto> ?lb)" using st3(2) by simp
  have wlb: "wf_page lb" using chain_page [OF c2 l] lb by auto
  have r: "in_range 32 pid" "0 < pid" using data_page_range [OF a(2,3)] by simp_all
  show ?thesis
  proof (rule that [of pid ?b ?hf2 ?hf3])
    show "sbind alloc_checked (\<lambda>pid.
     sbind (on_dm page_alloc) (\<lambda>buf.
     sbind (on_dm (disk_manager_write_page pid (slotted_page_init buf pid))) (\<lambda>_.
     sbind (on_dm (disk_manager_read_page pid)) (\<lambda>page_buf.
     sbind (on_dm page_alloc) (\<lambda>_.
     sreturn (pid, page_buf)))))) hf = (Inr (pid, ?b), ?hf2)"
      using a(1) on_dm_alloc [OF a(2)] on_dm_write [OF a(2,3), of ?b] on_dm_alloc [OF d2] on_dm_read [OF d2, of pid ?b] pa2
      by (simp add: sbind_Inr sreturn_def)
    show "link_last pid (first_page_id ?hf2) ?hf2 = Some (Inr (), ?hf3)" by (rule ll)
    have "chain ((page_at (dm ?hf2))(last ps \<mapsto> ?lb)) (first_page_id ?hf2) (ps @ [pid])"
      by (rule chain_append [OF c2 ne heap_ok_distinct [OF h] pid r(1) _ lb])
        (use r i pa2 in simp_all)
    then show "heap_ok ?hf3 ((pages1[nat pid := ?b])[nat (last ps) := ?lb]) (tl fl) (ps @ [pid])"
      using st3 pa3 pid heap_ok_distinct [OF h] dp2 heap_ok_data [OF h] data_page_store [OF d2 dl]
      by (simp add: heap_ok_def del: fun_upd_apply)
    show "page_at (dm ?hf3) pid = Some ?b" using pa3 pa2 pid l by auto
    show "heap_map (page_at (dm ?hf3)) (ps @ [pid]) = heap_map (page_at (dm hf)) ps"
    proof
      fix x :: rid
      consider "rid_page x = pid" | "rid_page x = last ps" "rid_page x \<noteq> pid"
        | "rid_page x \<noteq> pid" "rid_page x \<noteq> last ps" by blast
      then show "heap_map (page_at (dm ?hf3)) (ps @ [pid]) x = heap_map (page_at (dm hf)) ps x"
      proof cases
        case 1
        then show ?thesis using pid l pa2 pa3 slot_at_empty [OF i(3)] by (auto simp: heap_map_def)
      next
        case 2
        have "slot_at ?lb = slot_at lb" by (rule slot_at_cong) (simp_all add: set_next_wf(2) [OF wlb])
        moreover have "page_at (dm hf) (last ps) = Some lb" using lb same heap_ok_data [OF h l] by simp
        ultimately show ?thesis using 2 l pa3 by (simp add: heap_map_def)
      next
        case 3
        then show ?thesis using pa3 same heap_ok_data [OF h] by (auto simp: heap_map_def)
      qed
    qed
    show "other_pages_kept hf fl ps ?hf3 (tl fl)"
      using pa3 same dp2 data_page_store [OF d2 dl] l by (auto simp: other_pages_kept_def)
  qed (use i a in simp_all)
qed

definition page_with_room :: "heap_file \<Rightarrow> int list \<Rightarrow> nat \<Rightarrow> bool" where
  "page_with_room hf ps n \<longleftrightarrow>
     (\<exists>p \<in> set ps. \<exists>b. page_at (dm hf) p = Some b \<and> n + SLOT_SIZE \<le> slotted_page_free_space b)"

lemma scan_pages_none:
  assumes ok: "disk_ok (dm hf) pages fl"
  shows "chain (page_at (dm hf)) cur ps \<Longrightarrow> scan_pages n cur hf = Some (Inr None, hf) \<Longrightarrow> \<not> page_with_room hf ps n"
proof (induction ps arbitrary: cur)
  case Nil
  then show ?case by (simp add: page_with_room_def)
next
  case (Cons p ps)
  then obtain b where b: "cur = p" "p \<noteq> -1" "page_at (dm hf) p = Some b" "chain (page_at (dm hf)) (page_header_get_next_page b) ps"
    by auto
  have "scan_pages n cur hf =
      (if n + 4 \<le> slotted_page_free_space b then Some (Inr (Some (p, b)), hf)
       else scan_pages n (page_header_get_next_page b) hf)"
    using b on_dm_alloc [OF ok] on_dm_read [OF ok b(3)] by (subst scan_pages.simps) (simp add: sbind_Inr)
  then show ?case using Cons b by (auto simp: page_with_room_def split: if_splits)
qed

lemma other_pages_kept_refl [simp]: "other_pages_kept hf fl ps hf fl"
  by (simp add: other_pages_kept_def)

text \<open>\<open>find_page_with_space\<close> returns a page of the file with room; it adds a page only when none has.\<close>

lemma find_page_ok:
  assumes h: "heap_ok hf pages fl ps" and n: "n \<le> 4068" and room: "length pages < 2 ^ 31 - 1"
  obtains p b hf' pages' fl' ps' where "find_page_with_space n hf = Some (Inr (p, b), hf')"
    "heap_ok hf' pages' fl' ps'" "p \<in> set ps'" "page_at (dm hf') p = Some b" "n + SLOT_SIZE \<le> slotted_page_free_space b"
    "heap_map (page_at (dm hf')) ps' = heap_map (page_at (dm hf)) ps" "other_pages_kept hf fl ps hf' fl'"
    "page_with_room hf ps n \<longrightarrow> ps' = ps" "\<not> page_with_room hf ps n \<longrightarrow> ps' = ps @ [p] \<and> \<not> data_page (dm hf) fl p"
proof (cases "ps = []")
  case True
  obtain pid hf' pages' b where e: "ensure_first_page hf = (Inr (), hf')" "heap_ok hf' pages' (tl fl) [pid]"
    "page_at (dm hf') pid = Some b" "nslots b = 0" "slotted_page_free_space b = 4072" "\<not> data_page (dm hf) fl pid"
    "other_pages_kept hf fl [] hf' (tl fl)"
    by (rule ensure_first_page_new [OF h [unfolded True] room])
  have f: "first_page_id hf' = pid" "pid \<noteq> -1" using heap_ok_chain [OF e(2)] by auto
  have sc: "scan_pages n pid hf' = Some (Inr (Some (pid, b)), hf')"
    using f e(5) n on_dm_alloc [OF heap_ok_disk [OF e(2)]] on_dm_read [OF heap_ok_disk [OF e(2)] e(3)]
    by (subst scan_pages.simps) (simp add: sbind_Inr)
  have fp: "find_page_with_space n hf = Some (Inr (pid, b), hf')"
    using e(1) f sc by (simp add: find_page_with_space_def)
  have hm: "heap_map (page_at (dm hf')) [pid] = heap_map (page_at (dm hf)) ps"
    using True e(3) slot_at_empty [OF e(4)] by (auto simp: heap_map_def fun_eq_iff)
  show ?thesis
    by (rule that [OF fp e(2) _ e(3) _ hm]) (use e n True in \<open>auto simp: page_with_room_def\<close>)
next
  case False
  have ef: "ensure_first_page hf = (Inr (), hf)" by (rule ensure_first_page_some [OF h False])
  note c = heap_ok_chain [OF h] and d = heap_ok_disk [OF h]
  show ?thesis
  proof (cases "page_with_room hf ps n")
    case True
    then obtain p b where pb: "p \<in> set ps" "scan_pages n (first_page_id hf) hf = Some (Inr (Some (p, b)), hf)"
      "page_at (dm hf) p = Some b" "n + SLOT_SIZE \<le> slotted_page_free_space b"
      using scan_pages_ok [OF d c, of n] scan_pages_none [OF d c, of n] by blast
    have fp: "find_page_with_space n hf = Some (Inr (p, b), hf)"
      using ef pb(2) by (simp add: find_page_with_space_def)
    show ?thesis by (rule that [OF fp h pb(1,3,4) refl]) (use True in simp_all)
  next
    case full: False
    then have sc: "scan_pages n (first_page_id hf) hf = Some (Inr None, hf)"
      using scan_pages_ok [OF d c, of n] unfolding page_with_room_def by blast
    obtain pid hf1 hf' pages' b where a: "sbind alloc_checked (\<lambda>pid.
     sbind (on_dm page_alloc) (\<lambda>buf.
     sbind (on_dm (disk_manager_write_page pid (slotted_page_init buf pid))) (\<lambda>_.
     sbind (on_dm (disk_manager_read_page pid)) (\<lambda>page_buf.
     sbind (on_dm page_alloc) (\<lambda>_.
     sreturn (pid, page_buf)))))) hf = (Inr (pid, b), hf1)"
      "link_last pid (first_page_id hf1) hf1 = Some (Inr (), hf')"
      "heap_ok hf' pages' (tl fl) (ps @ [pid])" "page_at (dm hf') pid = Some b"
      "nslots b = 0" "slotted_page_free_space b = 4072" "\<not> data_page (dm hf) fl pid"
      "heap_map (page_at (dm hf')) (ps @ [pid]) = heap_map (page_at (dm hf)) ps"
      "other_pages_kept hf fl ps hf' (tl fl)"
      by (rule append_page [OF h False room])
    have fp: "find_page_with_space n hf = Some (Inr (pid, b), hf')"
      by (simp add: find_page_with_space_def ef sc a(1,2))
    show ?thesis by (rule that [OF fp a(3) _ a(4) _ a(8,9)]) (use a(6,7) n full in simp_all)
  qed
qed

lemma heap_insert_ok:
  assumes h: "heap_ok hf pages fl ps" and len: "0 < length data" "length data \<le> 4068"
    and room: "length pages < 2 ^ 31 - 1"
  obtains r hf' pages' fl' ps' where "heap_file_insert data hf = Some (Inr r, hf')" "heap_ok hf' pages' fl' ps'"
    "heap_map (page_at (dm hf)) ps r = None"
    "heap_map (page_at (dm hf')) ps' = (heap_map (page_at (dm hf)) ps)(r \<mapsto> data)" "other_pages_kept hf fl ps hf' fl'"
    "ps' = (if page_with_room hf ps (length data) then ps else ps @ [rid_page r])"
proof -
  obtain p b hf1 pages1 fl' ps' where f: "find_page_with_space (length data) hf = Some (Inr (p, b), hf1)"
    "heap_ok hf1 pages1 fl' ps'" "p \<in> set ps'" "page_at (dm hf1) p = Some b" "length data + SLOT_SIZE \<le> slotted_page_free_space b"
    "heap_map (page_at (dm hf1)) ps' = heap_map (page_at (dm hf)) ps" "other_pages_kept hf fl ps hf1 fl'"
    "page_with_room hf ps (length data) \<longrightarrow> ps' = ps"
    "\<not> page_with_room hf ps (length data) \<longrightarrow> ps' = ps @ [p] \<and> \<not> data_page (dm hf) fl p"
    by (rule find_page_ok [OF h len(2) room])
  obtain b' hf' where i: "slotted_page_insert b data = (int (nslots b), b')"
    "on_dm (disk_manager_write_page p b') hf1 = (Inr (), hf')" "first_page_id hf' = first_page_id hf1"
    "heap_ok hf' (pages1[nat p := b']) fl' ps'" "page_at (dm hf') = (page_at (dm hf1))(p \<mapsto> b')"
    "heap_map (page_at (dm hf')) ps' = (heap_map (page_at (dm hf1)) ps')(\<lparr>rid_page = p, rid_slot = int (nslots b)\<rparr> \<mapsto> data)"
    "heap_map (page_at (dm hf1)) ps' \<lparr>rid_page = p, rid_slot = int (nslots b)\<rparr> = None"
    by (rule heap_insert_at [OF f(2-4) len(1) f(5)])
  have p: "0 < p" using heap_ok_data [OF f(2,3)] by (simp add: data_page_def)
  have keep: "other_pages_kept hf fl ps hf' fl'"
    unfolding other_pages_kept_def
  proof (intro allI impI)
    fix q assume q: "data_page (dm hf) fl q" "q \<notin> set ps"
    then have q1: "data_page (dm hf1) fl' q" "page_at (dm hf1) q = page_at (dm hf) q"
      using f(7) by (simp_all add: other_pages_kept_def)
    have "q \<noteq> p" using q f(3,8,9) by auto
    moreover have "dm hf' = disk_store (dm hf1) p b'"
      using heap_write(1) [OF f(2-4)] i(2) on_dm_write [OF heap_ok_disk [OF f(2)] heap_ok_data [OF f(2,3)], of b']
      by auto
    ultimately show "data_page (dm hf') fl' q \<and> page_at (dm hf') q = page_at (dm hf) q"
      using q1 i(5) data_page_store [OF heap_ok_disk [OF f(2)] heap_ok_data [OF f(2,3)]] by simp
  qed
  show ?thesis
  proof (rule that [OF _ i(4) _ _ keep])
    show "heap_file_insert data hf = Some (Inr \<lparr>rid_page = p, rid_slot = int (nslots b)\<rparr>, hf')"
      using len f(1) i(1,2) p by (simp add: heap_file_insert_def Let_def sbind_Inr sreturn_def)
  qed (use i f in auto)
qed

text \<open>Deleting and updating rewrite one slot of one page.\<close>

lemma heap_slot_step:
  assumes h: "heap_ok hf pages fl ps" and r: "rid_page r \<in> set ps" and b: "page_at (dm hf) (rid_page r) = Some b"
    and b': "wf_page b'" "page_header_get_next_page b' = page_header_get_next_page b"
      "page_slots b' = (page_slots b)[nat (rid_slot r) := v]" and s: "slot_at b (rid_slot r) \<noteq> None"
  defines "hf' \<equiv> hf\<lparr>dm := disk_store (dm hf) (rid_page r) b'\<rparr>"
  shows "on_dm (disk_manager_write_page (rid_page r) b') hf = (Inr (), hf')"
    and "heap_ok hf' (pages[nat (rid_page r) := b']) fl ps"
    and "heap_map (page_at (dm hf')) ps = (heap_map (page_at (dm hf)) ps)(r := v)"
    and "other_pages_kept hf fl ps hf' fl"
proof -
  note w = heap_write [OF h r b b'(1,2)]
  show "on_dm (disk_manager_write_page (rid_page r) b') hf = (Inr (), hf')"
    "heap_ok hf' (pages[nat (rid_page r) := b']) fl ps"
    unfolding hf'_def by (rule w(1)) (rule w(2))
  have "slot_at b' = (slot_at b)(rid_slot r := v)"
    using slot_at_update [OF b'(3)] s slot_at_live [of b "rid_slot r"] by (auto simp: live_def)
  from heap_map_write [where pa = "page_at (dm hf)", OF r b this]
  show "heap_map (page_at (dm hf')) ps = (heap_map (page_at (dm hf)) ps)(r := v)"
    unfolding hf'_def w(3) by (cases r) simp
  show "other_pages_kept hf fl ps hf' fl"
    using w(3) r data_page_store [OF heap_ok_disk [OF h] heap_ok_data [OF h r]]
    by (auto simp: other_pages_kept_def hf'_def)
qed

lemma rid_page_valid:
  assumes "heap_ok hf pages fl ps" "rid_page r \<in> set ps"
  shows "rid_invalid r \<longleftrightarrow> rid_slot r = INVALID_SLOT_ID"
  using heap_ok_data [OF assms] by (simp add: rid_invalid_def data_page_def)

lemma heap_delete_ok:
  assumes h: "heap_ok hf pages fl ps" and r: "heap_map (page_at (dm hf)) ps r \<noteq> None"
  obtains hf' pages' where "heap_file_delete r hf = (Inr (), hf')" "heap_ok hf' pages' fl ps"
    "heap_map (page_at (dm hf')) ps = (heap_map (page_at (dm hf)) ps)(r := None)" "other_pages_kept hf fl ps hf' fl"
proof -
  have p: "rid_page r \<in> set ps" using r by (auto simp: heap_map_def split: if_splits)
  obtain b where b: "page_at (dm hf) (rid_page r) = Some b" "wf_page b" by (rule heap_page [OF h p])
  have s: "slot_at b (rid_slot r) \<noteq> None" using r p b by (simp add: heap_map_def)
  then have l: "live b (nat (rid_slot r))" "0 \<le> rid_slot r" using slot_at_live by blast+
  obtain b' where b': "slotted_page_delete b (rid_slot r) = (DB_OK, b')" "wf_page b'"
    "page_slots b' = (page_slots b)[nat (rid_slot r) := None]" "page_header_get_next_page b' = page_header_get_next_page b"
    using delete_refines [OF b(2) l(1)] l(2) by auto
  note st = heap_slot_step [OF h p b(1) b'(2,4,3) s]
  have v: "\<not> rid_invalid r" using rid_page_valid [OF h p] l(2) by simp
  show ?thesis
  proof (rule that [OF _ st(2-4)])
    show "heap_file_delete r hf = (Inr (), hf\<lparr>dm := disk_store (dm hf) (rid_page r) b'\<rparr>)"
      using v on_dm_alloc [OF heap_ok_disk [OF h]] on_dm_read [OF heap_ok_disk [OF h] b(1)] b'(1) st(1)
      by (simp add: heap_file_delete_def sbind_Inr)
  qed
qed

lemma heap_delete_dead:
  assumes h: "heap_ok hf pages fl ps" and p: "rid_page r \<in> set ps" and r: "heap_map (page_at (dm hf)) ps r = None"
  shows "heap_file_delete r hf =
    (Inl (code_of (if rid_slot r = INVALID_SLOT_ID then DB_INVALID_ARGUMENT else DB_PAGE_NOT_FOUND)), hf)"
proof -
  obtain b where b: "page_at (dm hf) (rid_page r) = Some b" "wf_page b" by (rule heap_page [OF h p])
  have "slot_at b (rid_slot r) = None" using r p b by (simp add: heap_map_def)
  then have "slotted_page_delete b (rid_slot r) = (DB_PAGE_NOT_FOUND, b)"
    using slot_at_live [of b "rid_slot r"] by (intro delete_dead) simp
  then show ?thesis
    using rid_page_valid [OF h p] on_dm_alloc [OF heap_ok_disk [OF h]] on_dm_read [OF heap_ok_disk [OF h] b(1)]
    by (simp add: heap_file_delete_def sbind_Inr sfail_def)
qed

lemma heap_update_ok:
  assumes h: "heap_ok hf pages fl ps" and r: "heap_map (page_at (dm hf)) ps r = Some old"
    and b: "page_at (dm hf) (rid_page r) = Some b" and len: "0 < length new_data" "length new_data < 65536"
    and room: "length new_data \<le> length old \<or> length new_data \<le> slotted_page_free_space b"
  obtains hf' pages' where "heap_file_update r new_data hf = (Inr (), hf')" "heap_ok hf' pages' fl ps"
    "heap_map (page_at (dm hf')) ps = (heap_map (page_at (dm hf)) ps)(r \<mapsto> new_data)" "other_pages_kept hf fl ps hf' fl"
proof -
  have p: "rid_page r \<in> set ps" using r by (auto simp: heap_map_def split: if_splits)
  have wf: "wf_page b" using chain_page [OF heap_ok_chain [OF h] p] b by auto
  have s: "slot_at b (rid_slot r) = Some old" using r p b by (simp add: heap_map_def)
  then have l: "live b (nat (rid_slot r))" "0 \<le> rid_slot r" using slot_at_live [of b "rid_slot r"] by simp_all
  have "length old = slot_get_size b (nat (rid_slot r))"
    using s l by (auto simp: slot_at_def slot_data_def live_def split: if_splits)
  then have u: "update_room b (nat (rid_slot r)) (length new_data)"
    using room len unfolding update_room_def free_space_eq [OF wf] by linarith
  obtain b' where b': "slotted_page_update b (rid_slot r) new_data = (DB_OK, b')" "wf_page b'"
    "page_slots b' = (page_slots b)[nat (rid_slot r) := Some new_data]"
    "page_header_get_next_page b' = page_header_get_next_page b"
    using update_refines [OF wf l(1) len u] l(2) by auto
  have s': "slot_at b (rid_slot r) \<noteq> None" using s by simp
  note st = heap_slot_step [OF h p b(1) b'(2,4,3) s']
  have v: "\<not> rid_invalid r" using rid_page_valid [OF h p] l(2) by simp
  show ?thesis
  proof (rule that [OF _ st(2-4)])
    show "heap_file_update r new_data hf = (Inr (), hf\<lparr>dm := disk_store (dm hf) (rid_page r) b'\<rparr>)"
      using v len on_dm_alloc [OF heap_ok_disk [OF h]] on_dm_read [OF heap_ok_disk [OF h] b(1)] b'(1) st(1)
      by (simp add: heap_file_update_def sbind_Inr)
  qed
qed

lemma heap_get_ok:
  assumes h: "heap_ok hf pages fl ps" and p: "rid_page r \<in> set ps"
  shows "heap_file_get r hf =
    (case heap_map (page_at (dm hf)) ps r of
       Some t \<Rightarrow> Inr t
     | None \<Rightarrow> Inl (code_of (if rid_slot r = INVALID_SLOT_ID then DB_INVALID_ARGUMENT else DB_PAGE_NOT_FOUND)), hf)"
proof -
  obtain b where b: "page_at (dm hf) (rid_page r) = Some b" "wf_page b" by (rule heap_page [OF h p])
  have m: "heap_map (page_at (dm hf)) ps r = slot_at b (rid_slot r)" using p b by (simp add: heap_map_def)
  have "slot_at b (-1) = None" by (simp add: slot_at_def)
  moreover have "slot_at b (rid_slot r) = (if 0 \<le> rid_slot r \<and> live b (nat (rid_slot r))
      then Some (mem_read b (slot_get_offset b (nat (rid_slot r))) (slot_get_size b (nat (rid_slot r)))) else None)"
    by (auto simp: slot_at_def slot_data_def live_def)
  ultimately show ?thesis
    unfolding m
    using rid_page_valid [OF h p] on_dm_alloc [OF heap_ok_disk [OF h]] on_dm_read [OF heap_ok_disk [OF h] b(1)]
    by (auto simp add: heap_file_get_def sbind_Inr sfail_def sreturn_def get_refines)
qed

subsection \<open>The scan\<close>

text \<open>The loop the header documents: \<open>while (heap_iter_next(&it, ...) == DB_OK)\<close>, with the tuples it
  visits and the code it ends on.\<close>

partial_function (option) heap_scan :: "heap_iter \<Rightarrow> heap_file \<Rightarrow> ((rid \<times> byte list) list \<times> int \<times> heap_file) option" where
  "heap_scan it hf =
     (case heap_iter_next it hf of
        None \<Rightarrow> None
      | Some (Inl e, it, hf) \<Rightarrow> Some ([], e, hf)
      | Some (Inr t, it, hf) \<Rightarrow> Option.bind (heap_scan it hf) (\<lambda>(ts, e, hf). Some (t # ts, e, hf)))"

definition tuples_from :: "int \<Rightarrow> buffer \<Rightarrow> nat \<Rightarrow> (rid \<times> byte list) list" where
  "tuples_from p b k =
     List.map_filter (\<lambda>i. map_option (\<lambda>d. (\<lparr>rid_page = p, rid_slot = int i\<rparr>, d)) (slot_data b i)) [k..<nslots b]"

definition page_tuples :: "(int \<Rightarrow> buffer option) \<Rightarrow> int \<Rightarrow> (rid \<times> byte list) list" where
  "page_tuples pa p = (case pa p of None \<Rightarrow> [] | Some b \<Rightarrow> tuples_from p b 0)"

definition heap_tuples :: "(int \<Rightarrow> buffer option) \<Rightarrow> int list \<Rightarrow> (rid \<times> byte list) list" where
  "heap_tuples pa ps = concat (map (page_tuples pa) ps)"

lemma tuples_from_next:
  "tuples_from p b k =
     (let j = next_live b (nslots b) k in
      if j < nslots b
      then (\<lparr>rid_page = p, rid_slot = int j\<rparr>, mem_read b (slot_get_offset b j) (slot_get_size b j)) # tuples_from p b (j + 1)
      else [])"
proof (induction b "nslots b" k rule: next_live.induct)
  case (1 b k)
  show ?case
  proof (cases "k < nslots b \<and> slot_get_size b k = 0")
    case True
    then have "tuples_from p b k = tuples_from p b (k + 1)"
      by (simp add: tuples_from_def upt_conv_Cons map_filter_simps slot_data_def)
    moreover have "next_live b (nslots b) k = next_live b (nslots b) (k + 1)"
      using True by (subst next_live.simps) simp
    ultimately show ?thesis using 1 True by simp
  next
    case False
    then have "next_live b (nslots b) k = k" by (subst next_live.simps) auto
    then show ?thesis using False
      by (auto simp: tuples_from_def upt_conv_Cons map_filter_simps slot_data_def)
  qed
qed

text \<open>The tuples that an iterator has still to visit.\<close>

definition iter_at :: "(int \<Rightarrow> buffer option) \<Rightarrow> heap_iter \<Rightarrow> (rid \<times> byte list) list \<Rightarrow> bool" where
  "iter_at pa it ts \<longleftrightarrow>
     (\<exists>ps. if it_loaded it
       then it_page it \<noteq> INVALID_PAGE_ID \<and> chain pa (page_header_get_next_page (it_buf it)) ps \<and>
         ts = tuples_from (it_page it) (it_buf it) (it_slot it) @ heap_tuples pa ps
       else chain pa (it_page it) ps \<and> ts = heap_tuples pa ps)"

definition iter_result :: "(int \<Rightarrow> buffer option) \<Rightarrow> heap_file \<Rightarrow> (rid \<times> byte list) list \<Rightarrow>
    ((int + rid \<times> byte list) \<times> heap_iter \<times> heap_file) option \<Rightarrow> bool" where
  "iter_result pa hf ts r \<longleftrightarrow>
     (case ts of
        [] \<Rightarrow> (\<exists>it'. r = Some (Inl (code_of DB_PAGE_NOT_FOUND), it', hf))
      | t # ts' \<Rightarrow> (\<exists>it'. r = Some (Inr t, it', hf) \<and> iter_at pa it' ts'))"

lemma iter_loaded:
  assumes next_pages: "\<And>it. \<not> it_loaded it \<Longrightarrow> chain pa (it_page it) ps \<Longrightarrow>
      iter_result pa hf (heap_tuples pa ps) (heap_iter_next it hf)"
    and it: "it_page it \<noteq> INVALID_PAGE_ID" "chain pa (page_header_get_next_page b) ps"
    and buf: "(if it_loaded it then (Inr (it_buf it, it_slot it), hf)
           else
             sbind (on_dm page_alloc) (\<lambda>_.
             sbind (on_dm (disk_manager_read_page (it_page it))) (\<lambda>buf.
             sreturn (buf, 0))) hf) = (Inr (b, k), hf)"
  shows "iter_result pa hf (tuples_from (it_page it) b k @ heap_tuples pa ps) (heap_iter_next it hf)"
proof (cases "next_live b (nslots b) k < nslots b")
  case True
  then have "heap_iter_next it hf = Some (Inr (hd (tuples_from (it_page it) b k)),
      it\<lparr>it_slot := next_live b (nslots b) k + 1, it_buf := b, it_loaded := True\<rparr>, hf)"
    using it buf by (subst heap_iter_next.simps) (simp add: Let_def tuples_from_next [of _ b k])
  then show ?thesis
    using True it by (auto simp: iter_result_def iter_at_def Let_def tuples_from_next [of _ b k])
next
  case False
  let ?it = "it\<lparr>it_page := page_header_get_next_page b, it_slot := next_live b (nslots b) k, it_buf := b, it_loaded := False\<rparr>"
  have "heap_iter_next it hf = heap_iter_next ?it hf"
    using it buf False by (subst heap_iter_next.simps) (simp add: Let_def)
  moreover have "tuples_from (it_page it) b k = []" using False by (simp add: Let_def tuples_from_next [of _ b k])
  ultimately show ?thesis using next_pages [of ?it] it by simp
qed

lemma iter_unloaded:
  assumes ok: "disk_ok (dm hf) pages fl"
  shows "\<not> it_loaded it \<Longrightarrow> chain (page_at (dm hf)) (it_page it) ps \<Longrightarrow>
    iter_result (page_at (dm hf)) hf (heap_tuples (page_at (dm hf)) ps) (heap_iter_next it hf)"
proof (induction ps arbitrary: it)
  case Nil
  then show ?case by (subst heap_iter_next.simps) (simp add: iter_result_def heap_tuples_def)
next
  case (Cons p ps)
  then obtain b where b: "it_page it = p" "p \<noteq> -1" "page_at (dm hf) p = Some b"
    "chain (page_at (dm hf)) (page_header_get_next_page b) ps" by auto
  have "iter_result (page_at (dm hf)) hf (tuples_from (it_page it) b 0 @ heap_tuples (page_at (dm hf)) ps) (heap_iter_next it hf)"
    by (rule iter_loaded [OF Cons.IH])
      (use b Cons.prems(1) on_dm_alloc [OF ok] on_dm_read [OF ok b(3)] in \<open>simp_all add: sbind_Inr sreturn_def\<close>)
  then show ?case using b by (simp add: heap_tuples_def page_tuples_def)
qed

lemma iter_next_ok:
  assumes ok: "disk_ok (dm hf) pages fl" and it: "iter_at (page_at (dm hf)) it ts"
  shows "iter_result (page_at (dm hf)) hf ts (heap_iter_next it hf)"
proof (cases "it_loaded it")
  case True
  then show ?thesis using it iter_loaded [OF iter_unloaded [OF ok], of _ it "it_buf it" "it_slot it"]
    by (auto simp: iter_at_def)
next
  case False
  then show ?thesis using it iter_unloaded [OF ok, of it] by (auto simp: iter_at_def)
qed

lemma heap_scan_ok:
  assumes ok: "disk_ok (dm hf) pages fl"
  shows "iter_at (page_at (dm hf)) it ts \<Longrightarrow> heap_scan it hf = Some (ts, code_of DB_PAGE_NOT_FOUND, hf)"
proof (induction ts arbitrary: it)
  case Nil
  then show ?case using iter_next_ok [OF ok Nil] by (subst heap_scan.simps) (auto simp: iter_result_def)
next
  case (Cons t ts)
  then show ?case using iter_next_ok [OF ok Cons.prems] by (subst heap_scan.simps) (auto simp: iter_result_def)
qed

lemma set_tuples_from: "(r, t) \<in> set (tuples_from p b 0) \<longleftrightarrow> rid_page r = p \<and> slot_at b (rid_slot r) = Some t"
proof -
  have "(r, t) \<in> set (tuples_from p b 0) \<longleftrightarrow>
      (\<exists>i < nslots b. slot_data b i = Some t \<and> r = \<lparr>rid_page = p, rid_slot = int i\<rparr>)"
    by (force simp: tuples_from_def List.map_filter_def image_iff)
  also have "\<dots> \<longleftrightarrow> rid_page r = p \<and> slot_at b (rid_slot r) = Some t"
    by (cases r) (auto simp: slot_at_def nat_eq_iff intro!: exI [of _ "nat (rid_slot r)"] split: if_splits)
  finally show ?thesis .
qed

lemma heap_tuples_map: "(r, t) \<in> set (heap_tuples pa ps) \<longleftrightarrow> heap_map pa ps r = Some t"
  by (cases "pa (rid_page r)") (force simp: heap_tuples_def page_tuples_def heap_map_def set_tuples_from split: option.splits)+

lemma distinct_map_filter_index:
  "distinct is \<Longrightarrow> distinct (map fst (List.map_filter (\<lambda>i. map_option (\<lambda>d. (\<lparr>rid_page = p, rid_slot = int i\<rparr>, d)) (f i)) is))"
  by (induction "is") (auto simp: map_filter_simps List.map_filter_def split: option.splits)

lemma heap_tuples_distinct: "distinct ps \<Longrightarrow> distinct (map fst (heap_tuples pa ps))"
proof (induction ps)
  case (Cons p ps)
  have "distinct (map fst (page_tuples pa p))"
    by (auto simp: page_tuples_def tuples_from_def distinct_map_filter_index split: option.split)
  moreover have "rid_page (fst x) = p" if "x \<in> set (page_tuples pa p)" for x
    using that set_tuples_from [of "fst x" "snd x" p] by (auto simp: page_tuples_def split: option.splits)
  moreover have "rid_page (fst x) \<in> set ps" if "x \<in> set (heap_tuples pa ps)" for x
    using that heap_tuples_map [of "fst x" "snd x" pa ps] by (auto simp: heap_map_def split: if_splits)
  ultimately show ?case using Cons by (fastforce simp: heap_tuples_def)
qed (simp add: heap_tuples_def)

text \<open>A tuple no page can hold: the file grows by an empty page and the insertion reports success.\<close>

lemma free_space_max: "wf_page b \<Longrightarrow> slotted_page_free_space b \<le> 4072"
  using free_space_eq [of b] upper_le [of b] by simp

lemma insert_oversized:
  assumes h: "heap_ok hf pages fl ps" and ne: "ps \<noteq> []" and room: "length pages < 2 ^ 31 - 1"
    and len: "4068 < length data"
  obtains p hf' pages' fl' where "heap_file_insert data hf = Some (Inr \<lparr>rid_page = p, rid_slot = 4001\<rparr>, hf')"
    "heap_ok hf' pages' fl' (ps @ [p])" "heap_map (page_at (dm hf')) (ps @ [p]) = heap_map (page_at (dm hf)) ps"
    "heap_map (page_at (dm hf')) (ps @ [p]) \<lparr>rid_page = p, rid_slot = 4001\<rparr> = None"
proof -
  have "\<not> page_with_room hf ps (length data)"
  proof
    assume "page_with_room hf ps (length data)"
    then obtain p b where "p \<in> set ps" "page_at (dm hf) p = Some b" "length data + 4 \<le> slotted_page_free_space b"
      by (auto simp: page_with_room_def)
    then show False using free_space_max [of b] chain_page [OF heap_ok_chain [OF h]] len by fastforce
  qed
  then have sc: "scan_pages (length data) (first_page_id hf) hf = Some (Inr None, hf)"
    using scan_pages_ok [OF heap_ok_disk [OF h] heap_ok_chain [OF h], of "length data"] unfolding page_with_room_def by blast
  obtain pid hf1 hf2 pages' b where a: "sbind alloc_checked (\<lambda>pid.
     sbind (on_dm page_alloc) (\<lambda>buf.
     sbind (on_dm (disk_manager_write_page pid (slotted_page_init buf pid))) (\<lambda>_.
     sbind (on_dm (disk_manager_read_page pid)) (\<lambda>page_buf.
     sbind (on_dm page_alloc) (\<lambda>_.
     sreturn (pid, page_buf)))))) hf = (Inr (pid, b), hf1)"
    "link_last pid (first_page_id hf1) hf1 = Some (Inr (), hf2)"
    "heap_ok hf2 pages' (tl fl) (ps @ [pid])" "page_at (dm hf2) pid = Some b"
    "nslots b = 0" "slotted_page_free_space b = 4072" "\<not> data_page (dm hf) fl pid"
    "heap_map (page_at (dm hf2)) (ps @ [pid]) = heap_map (page_at (dm hf)) ps"
    "other_pages_kept hf fl ps hf2 (tl fl)"
    by (rule append_page [OF h ne room])
  have fp: "find_page_with_space (length data) hf = Some (Inr (pid, b), hf2)"
    by (simp add: find_page_with_space_def ensure_first_page_some [OF h ne] sc a(1,2))
  have wf: "wf_page b" using chain_page [OF heap_ok_chain [OF a(3)], of pid] a(4) by auto
  have full: "free_space_upper b < 28 + 4 * nslots b + length data" using a(5) upper_le [of b] len by linarith
  have len0: "0 < length data" using len by linarith
  note i = insert_no_room [OF wf len0 full]
  have pid: "pid \<in> set (ps @ [pid])" by simp
  note w = heap_write [OF a(3) pid a(4) wf refl]
  have p0: "0 < pid" using heap_ok_data [OF a(3) pid] by (simp add: data_page_def)
  have data_ne: "data \<noteq> []" using len0 by (rule length_greater_0_conv [THEN iffD1])
  have pa: "page_at (dm (hf2\<lparr>dm := disk_store (dm hf2) pid b\<rparr>)) = page_at (dm hf2)" using w(3) a(4) by (simp add: fun_upd_idem)
  show ?thesis
  proof (rule that [OF _ w(2)])
    show "heap_file_insert data hf = Some (Inr \<lparr>rid_page = pid, rid_slot = 4001\<rparr>, hf2\<lparr>dm := disk_store (dm hf2) pid b\<rparr>)"
      using data_ne p0 fp i w(1) by (simp add: heap_file_insert_def Let_def sbind_Inr sreturn_def)
    show "heap_map (page_at (dm (hf2\<lparr>dm := disk_store (dm hf2) pid b\<rparr>))) (ps @ [pid]) = heap_map (page_at (dm hf)) ps"
      unfolding pa by (rule a(8))
    show "heap_map (page_at (dm (hf2\<lparr>dm := disk_store (dm hf2) pid b\<rparr>))) (ps @ [pid]) \<lparr>rid_page = pid, rid_slot = 4001\<rparr> = None"
      unfolding pa using a(4) slot_at_empty [OF a(5)] by (simp add: heap_map_def)
  qed
qed

section \<open>Properties\<close>

definition demo_heap :: heap_file where
  "demo_heap = heap_file_init demo_disk INVALID_PAGE_ID"

definition demo_heap1 :: heap_file where
  "demo_heap1 = snd (the (heap_file_insert [1, 2, 3] demo_heap))"

lemma demo_heap_ok: "\<exists>pages. heap_ok demo_heap pages [] [] \<and> length pages = 1"
  using demo_disk_ok by (auto simp: heap_ok_def demo_heap_def heap_file_init_def)

lemma demo_heap1_ok:
  obtains pages fl ps r where "heap_ok demo_heap1 pages fl ps" "heap_map (page_at (dm demo_heap1)) ps r = Some [1, 2, 3]"
    "rid_page r \<in> set ps" "ps \<noteq> []"
proof -
  obtain pages where h: "heap_ok demo_heap pages [] []" and l: "length pages = 1" using demo_heap_ok by blast
  obtain r hf' pages' fl' ps' where i: "heap_file_insert [1, 2, 3] demo_heap = Some (Inr r, hf')" "heap_ok hf' pages' fl' ps'"
    "heap_map (page_at (dm demo_heap)) [] r = None"
    "heap_map (page_at (dm hf')) ps' = (heap_map (page_at (dm demo_heap)) [])(r \<mapsto> [1, 2, 3])"
    "other_pages_kept demo_heap [] [] hf' fl'"
    "ps' = (if page_with_room demo_heap [] (length [1, 2, 3 :: byte]) then [] else [] @ [rid_page r])"
    by (rule heap_insert_ok [OF h, of "[1, 2, 3]"]) (simp_all add: l)
  have "hf' = demo_heap1" using i(1) by (simp add: demo_heap1_def)
  moreover have m: "heap_map (page_at (dm hf')) ps' r = Some [1, 2, 3]" unfolding i(4) by simp
  moreover have "rid_page r \<in> set ps'" using m by (auto simp: heap_map_def split: if_splits)
  ultimately show ?thesis using that i(2) by force
qed

text \<open>What the caller sees of a failure, here of a first page that is not on the disk: DB_INTERNAL_ERROR, not the code.\<close>

lemma heap_insert_hides_code:
  assumes "disk_ok (dm hf) pages fl" "page_count (dm hf) \<le> first_page_id hf" "data \<noteq> []"
  shows "fst (the (find_page_with_space (length data) hf)) = Inl (code_of DB_PAGE_NOT_FOUND)"
    and "heap_file_insert data hf = Some (Inl (code_of DB_INTERNAL_ERROR), hf)"
proof -
  have p: "first_page_id hf \<noteq> INVALID_PAGE_ID" using assms(1,2) by (auto simp: disk_ok_def)
  have r: "on_dm (disk_manager_read_page (first_page_id hf)) hf = (Inl (code_of DB_PAGE_NOT_FOUND), hf)"
    using assms(1,2) by (simp add: on_dm_def disk_manager_read_page_def disk_ok_def)
  have f: "find_page_with_space (length data) hf = Some (Inl (code_of DB_PAGE_NOT_FOUND), hf)"
    using p r on_dm_alloc [OF assms(1)]
    by (simp add: find_page_with_space_def ensure_first_page_def scan_pages.simps sbind_def)
  show "fst (the (find_page_with_space (length data) hf)) = Inl (code_of DB_PAGE_NOT_FOUND)" by (simp add: f)
  show "heap_file_insert data hf = Some (Inl (code_of DB_INTERNAL_ERROR), hf)" using assms(3) by (simp add: heap_file_insert_def f)
qed

text \<open>C23. \<open>heap_file_insert\<close> on a well-formed heap file, for a tuple of 1 to 4068 bytes and with room
  for one more page on the disk, returns (the list walks end), reports success with a record id
  that was not in use, and adds exactly that tuple to the file; a page is added, behind the last one,
  only when no page of the file has room; pages of other files keep their contents.\<close>

theorem heap_file_insert_spec:
  assumes "heap_ok hf pages fl ps" "0 < length data" "length data \<le> 4068" "length pages < 2 ^ 31 - 1"
  shows "\<exists>r hf' pages' fl' ps'. heap_file_insert data hf = Some (Inr r, hf') \<and> heap_ok hf' pages' fl' ps' \<and>
    heap_map (page_at (dm hf)) ps r = None \<and>
    heap_map (page_at (dm hf')) ps' = (heap_map (page_at (dm hf)) ps)(r \<mapsto> data) \<and>
    other_pages_kept hf fl ps hf' fl' \<and>
    ps' = (if page_with_room hf ps (length data) then ps else ps @ [rid_page r])"
  by (rule heap_insert_ok [OF assms]) blast

theorem heap_file_insert_spec_witness:
  "\<exists>r hf'. heap_file_insert [1, 2, 3] demo_heap = Some (Inr r, hf')"
proof -
  obtain pages where h: "heap_ok demo_heap pages [] []" and l: "length pages = 1" using demo_heap_ok by blast
  then show ?thesis using heap_file_insert_spec [OF h, of "[1, 2, 3]"] by auto
qed

text \<open>C24. \<open>heap_file_get\<close>, \<open>heap_file_delete\<close> and \<open>heap_file_update\<close> on a record id whose page belongs
  to a well-formed heap file: get returns the stored tuple, delete removes exactly that tuple, and
  update replaces exactly that tuple whenever the new data is no longer than the old or fits the free
  space of its page; on an id without a tuple get and delete fail and change nothing.\<close>

theorem heap_file_tuple_ops:
  assumes h: "heap_ok hf pages fl ps" and p: "rid_page r \<in> set ps" and b: "page_at (dm hf) (rid_page r) = Some b"
  shows "case heap_map (page_at (dm hf)) ps r of
      None \<Rightarrow> (\<exists>e. heap_file_get r hf = (Inl e, hf) \<and> heap_file_delete r hf = (Inl e, hf) \<and> e \<noteq> code_of DB_OK)
    | Some t \<Rightarrow>
        heap_file_get r hf = (Inr t, hf) \<and>
        (\<exists>hf' pages'. heap_file_delete r hf = (Inr (), hf') \<and> heap_ok hf' pages' fl ps \<and>
          heap_map (page_at (dm hf')) ps = (heap_map (page_at (dm hf)) ps)(r := None) \<and> other_pages_kept hf fl ps hf' fl) \<and>
        (\<forall>new_data. 0 < length new_data \<and> length new_data < 65536 \<and>
            (length new_data \<le> length t \<or> length new_data \<le> slotted_page_free_space b) \<longrightarrow>
          (\<exists>hf' pages'. heap_file_update r new_data hf = (Inr (), hf') \<and> heap_ok hf' pages' fl ps \<and>
            heap_map (page_at (dm hf')) ps = (heap_map (page_at (dm hf)) ps)(r \<mapsto> new_data) \<and>
            other_pages_kept hf fl ps hf' fl))"
proof (cases "heap_map (page_at (dm hf)) ps r")
  case None
  then show ?thesis using heap_get_ok [OF h p] heap_delete_dead [OF h p None] by simp
next
  case (Some t)
  obtain hf' pages' where "heap_file_delete r hf = (Inr (), hf')" "heap_ok hf' pages' fl ps"
    "heap_map (page_at (dm hf')) ps = (heap_map (page_at (dm hf)) ps)(r := None)" "other_pages_kept hf fl ps hf' fl"
    by (rule heap_delete_ok [OF h]) (use Some in auto)
  moreover have "\<exists>hf' pages'. heap_file_update r n hf = (Inr (), hf') \<and> heap_ok hf' pages' fl ps \<and>
      heap_map (page_at (dm hf')) ps = (heap_map (page_at (dm hf)) ps)(r \<mapsto> n) \<and> other_pages_kept hf fl ps hf' fl"
    if "0 < length n \<and> length n < 65536 \<and> (length n \<le> length t \<or> length n \<le> slotted_page_free_space b)" for n
    by (rule heap_update_ok [OF h Some b, of n]) (use that in auto)
  ultimately show ?thesis using Some heap_get_ok [OF h p] by auto
qed

theorem heap_file_tuple_ops_witness:
  "\<exists>r. fst (heap_file_get r demo_heap1) = Inr [1, 2, 3] \<and> fst (heap_file_delete r demo_heap1) = Inr () \<and>
     fst (heap_file_update r [9] demo_heap1) = Inr ()"
proof -
  obtain pages fl ps r where h: "heap_ok demo_heap1 pages fl ps"
    and m: "heap_map (page_at (dm demo_heap1)) ps r = Some [1, 2, 3]" and p: "rid_page r \<in> set ps"
    by (rule demo_heap1_ok)
  obtain b where b: "page_at (dm demo_heap1) (rid_page r) = Some b" by (rule heap_page [OF h p])
  note s = heap_file_tuple_ops [OF h p b, unfolded m option.case]
  have "fst (heap_file_update r [9] demo_heap1) = Inr ()"
    using spec [OF conjunct2 [OF conjunct2 [OF s]], of "[9]"] by auto
  then show ?thesis using s by (intro exI [of _ r]) auto
qed

text \<open>C25. The scan loop over a well-formed heap file ends, on DB_PAGE_NOT_FOUND, and visits every
  stored tuple exactly once, page by page in list order and slot by slot.\<close>

theorem heap_scan_complete:
  assumes "heap_ok hf pages fl ps"
  shows "\<exists>ts. heap_scan (heap_iter_init hf) hf = Some (ts, code_of DB_PAGE_NOT_FOUND, hf) \<and>
    ts = heap_tuples (page_at (dm hf)) ps \<and> map_of ts = heap_map (page_at (dm hf)) ps \<and> distinct (map fst ts)"
proof -
  let ?ts = "heap_tuples (page_at (dm hf)) ps"
  have d: "distinct (map fst ?ts)" by (rule heap_tuples_distinct [OF heap_ok_distinct [OF assms]])
  have "iter_at (page_at (dm hf)) (heap_iter_init hf) ?ts"
    using heap_ok_chain [OF assms] by (auto simp: iter_at_def heap_iter_init_def)
  from heap_scan_ok [OF heap_ok_disk [OF assms] this]
  have "heap_scan (heap_iter_init hf) hf = Some (?ts, code_of DB_PAGE_NOT_FOUND, hf)" .
  moreover have "map_of ?ts = heap_map (page_at (dm hf)) ps"
  proof
    show "map_of ?ts r = heap_map (page_at (dm hf)) ps r" for r
      using map_of_eq_Some_iff [OF d] heap_tuples_map by (metis option.exhaust)
  qed
  ultimately show ?thesis using d by blast
qed

theorem heap_scan_complete_witness:
  "\<exists>r ts. heap_scan (heap_iter_init demo_heap1) demo_heap1 = Some (ts, 1002, demo_heap1) \<and> map_of ts r = Some [1, 2, 3]"
proof -
  obtain pages fl ps r where h: "heap_ok demo_heap1 pages fl ps"
    and m: "heap_map (page_at (dm demo_heap1)) ps r = Some [1, 2, 3]"
    by (rule demo_heap1_ok)
  show ?thesis using heap_scan_complete [OF h] m by auto
qed

text \<open>A heap file with one empty page.\<close>

definition demo_heap2 :: heap_file where
  "demo_heap2 = heap_file_init (disk_store demo_disk1 1 (slotted_page_init zero_page 1)) 1"

lemma demo_heap2_ok: "\<exists>pages. heap_ok demo_heap2 pages [] [1] \<and> length pages < 2 ^ 31 - 1"
proof -
  obtain pages where ok: "disk_ok demo_disk1 pages []" and p: "data_page demo_disk1 [] 1" using demo_disk1_ok by blast
  obtain pages0 where ok0: "disk_ok demo_disk pages0 []" and l0: "length pages0 = 1" using demo_disk_ok by blast
  have "page_count demo_disk = 1" using ok0 l0 by (simp add: disk_ok_def)
  then have "page_count demo_disk1 = 2" using allocate_extend(1,3) [OF ok0] l0 by (simp add: demo_disk1_def)
  then have l: "length pages = 2" using ok by (simp add: disk_ok_def)
  let ?b = "slotted_page_init zero_page 1"
  note st = disk_store_ok [OF ok p, of ?b] and i = init_page [OF ok p, of zero_page]
  have "heap_ok demo_heap2 (pages[nat 1 := ?b]) [] [1]"
    using st p i data_page_store [OF ok p] by (simp add: heap_ok_def demo_heap2_def heap_file_init_def)
  then show ?thesis using l by (intro exI [of _ "pages[nat 1 := ?b]"]) simp
qed

text \<open>A tuple longer than any page can hold (4069 bytes or more) is reported as inserted:
  \<open>slotted_page_insert\<close> returns the positive code 4001, which the caller takes for a slot number. The
  file has grown by an empty page, no tuple was stored, and the returned record id names none.\<close>

theorem heap_insert_oversized_reports_ok:
  assumes "heap_ok hf pages fl ps" "ps \<noteq> []" "length pages < 2 ^ 31 - 1" "4068 < length data" "length data < 65536"
  shows "\<exists>p hf' pages' fl'. heap_file_insert data hf = Some (Inr \<lparr>rid_page = p, rid_slot = code_of DB_OUT_OF_MEMORY\<rparr>, hf') \<and>
    heap_ok hf' pages' fl' (ps @ [p]) \<and>
    heap_map (page_at (dm hf')) (ps @ [p]) = heap_map (page_at (dm hf)) ps \<and>
    heap_map (page_at (dm hf')) (ps @ [p]) \<lparr>rid_page = p, rid_slot = code_of DB_OUT_OF_MEMORY\<rparr> = None"
  by (rule insert_oversized [OF assms(1-4)]) auto

theorem heap_insert_oversized_reports_ok_witness:
  "\<exists>p hf'. heap_file_insert (replicate 5000 7) demo_heap2 = Some (Inr \<lparr>rid_page = p, rid_slot = 4001\<rparr>, hf')"
proof -
  obtain pages where h: "heap_ok demo_heap2 pages [] [1]" and l: "length pages < 2 ^ 31 - 1" using demo_heap2_ok by blast
  have "(4068::nat) < length (replicate 5000 (7 :: byte))" "length (replicate 5000 (7 :: byte)) < 65536"
    unfolding length_replicate by simp_all
  from heap_insert_oversized_reports_ok [OF h _ l this] show ?thesis by auto
qed

end
