(* ===== verification/Hash_Map.thy ===== *)
theory Hash_Map
  imports Prelude_Db
begin

text \<open>
  The chained hash table of \<open>src/common/hashmap.c\<close>, which the buffer pool, the replacer, the lock
  table, the wait-for graph and the recovery tables are built on.

  A bucket is the list of its (key, value) entries in chain order. Keys and values are what the
  callers store behind \<open>void*\<close>; a NULL result is \<open>None\<close>. Allocation is taken to succeed, so the
  failure results of \<open>hashmap_put\<close> do not occur. The theory shows that the table is a finite map
  (locale \<open>keyed_table\<close>, interpreted on these operations), that its size counter is the number of
  keys, and that the iterator visits every entry exactly once.
\<close>

section \<open>The table\<close>

record ('k, 'v) hashmap =
  buckets :: "('k \<times> 'v) list list"
  bucket_count :: nat
  hsize :: nat
  hash_fn :: "'k \<Rightarrow> nat"
  equal_fn :: "'k \<Rightarrow> 'k \<Rightarrow> bool"

definition hashmap_init :: "nat \<Rightarrow> ('k \<Rightarrow> nat) \<Rightarrow> ('k \<Rightarrow> 'k \<Rightarrow> bool) \<Rightarrow> ('k, 'v) hashmap" where
  "hashmap_init n hash eq =
     (let n' = (if n = 0 then 64 else n)
      in \<lparr>buckets = replicate n' [], bucket_count = n', hsize = 0, hash_fn = hash, equal_fn = eq\<rparr>)"

definition hm_idx :: "('k, 'v) hashmap \<Rightarrow> 'k \<Rightarrow> nat" where
  "hm_idx m k = hash_fn m k mod bucket_count m"

text \<open>The chain loops: \<open>chain_get\<close> stops at the first equal key; \<open>chain_set\<close> overwrites its value;
  \<open>chain_del\<close> unlinks it.\<close>

fun chain_get :: "('k \<Rightarrow> 'k \<Rightarrow> bool) \<Rightarrow> 'k \<Rightarrow> ('k \<times> 'v) list \<Rightarrow> 'v option" where
  "chain_get eq k [] = None"
| "chain_get eq k ((k', v) # cs) = (if eq k' k then Some v else chain_get eq k cs)"

fun chain_set :: "('k \<Rightarrow> 'k \<Rightarrow> bool) \<Rightarrow> 'k \<Rightarrow> 'v \<Rightarrow> ('k \<times> 'v) list \<Rightarrow> ('k \<times> 'v) list" where
  "chain_set eq k v [] = []"
| "chain_set eq k v ((k', v') # cs) =
     (if eq k' k then (k', v) # cs else (k', v') # chain_set eq k v cs)"

fun chain_del :: "('k \<Rightarrow> 'k \<Rightarrow> bool) \<Rightarrow> 'k \<Rightarrow> ('k \<times> 'v) list \<Rightarrow> ('k \<times> 'v) list" where
  "chain_del eq k [] = []"
| "chain_del eq k ((k', v') # cs) = (if eq k' k then cs else (k', v') # chain_del eq k cs)"

definition hashmap_get :: "('k, 'v) hashmap \<Rightarrow> 'k \<Rightarrow> 'v option" where
  "hashmap_get m k = chain_get (equal_fn m) k (buckets m ! hm_idx m k)"

definition hashmap_put :: "('k, 'v) hashmap \<Rightarrow> 'k \<Rightarrow> 'v \<Rightarrow> ('k, 'v) hashmap" where
  "hashmap_put m k v =
     (let idx = hm_idx m k; chain = buckets m ! idx
      in if chain_get (equal_fn m) k chain \<noteq> None
         then m\<lparr>buckets := (buckets m)[idx := chain_set (equal_fn m) k v chain]\<rparr>
         else m\<lparr>buckets := (buckets m)[idx := (k, v) # chain], hsize := hsize m + 1\<rparr>)"

definition hashmap_put_old :: "('k, 'v) hashmap \<Rightarrow> 'k \<Rightarrow> 'v \<Rightarrow> 'v option \<times> ('k, 'v) hashmap" where
  "hashmap_put_old m k v =
     (let idx = hm_idx m k; chain = buckets m ! idx
      in case chain_get (equal_fn m) k chain of
           Some old \<Rightarrow> (Some old, m\<lparr>buckets := (buckets m)[idx := chain_set (equal_fn m) k v chain]\<rparr>)
         | None \<Rightarrow> (None, m\<lparr>buckets := (buckets m)[idx := (k, v) # chain], hsize := hsize m + 1\<rparr>))"

definition hashmap_remove :: "('k, 'v) hashmap \<Rightarrow> 'k \<Rightarrow> int \<times> ('k, 'v) hashmap" where
  "hashmap_remove m k =
     (let idx = hm_idx m k; chain = buckets m ! idx
      in if chain_get (equal_fn m) k chain \<noteq> None
         then (0, m\<lparr>buckets := (buckets m)[idx := chain_del (equal_fn m) k chain], hsize := hsize m - 1\<rparr>)
         else (-1, m))"

definition hashmap_destroy :: "('k, 'v) hashmap \<Rightarrow> ('k, 'v) hashmap" where
  "hashmap_destroy m = m\<lparr>buckets := [], hsize := 0\<rparr>"

definition hashmap_size :: "('k, 'v) hashmap \<Rightarrow> nat" where
  "hashmap_size m = hsize m"

section \<open>The iterator\<close>

text \<open>The entry pointer of the iterator is the rest of its chain from that entry on; NULL is the
  empty chain. The loop of \<open>hashmap_iter_next\<close> looks for the next non-empty bucket.\<close>

record ('k, 'v) hashmap_iter =
  bucket_idx :: nat
  entry :: "('k \<times> 'v) list"

definition hashmap_iter_init :: "('k, 'v) hashmap_iter" where
  "hashmap_iter_init = \<lparr>bucket_idx = 0, entry = []\<rparr>"

function iter_seek :: "('k, 'v) hashmap \<Rightarrow> nat \<Rightarrow> ('k \<times> 'v) list \<Rightarrow> ('k, 'v) hashmap_iter" where
  "iter_seek m b e =
     (if e = [] \<and> b < bucket_count m then iter_seek m (b + 1) (buckets m ! b)
      else \<lparr>bucket_idx = b, entry = e\<rparr>)"
  by pat_completeness auto
termination
  by (relation "measure (\<lambda>(m, b, e). bucket_count m - b)") auto

declare iter_seek.simps [simp del]

definition hashmap_iter_next ::
    "('k, 'v) hashmap \<Rightarrow> ('k, 'v) hashmap_iter \<Rightarrow> ('k \<times> 'v) option \<times> ('k, 'v) hashmap_iter" where
  "hashmap_iter_next m it =
     (let it' = iter_seek m (bucket_idx it) (tl (entry it))
      in case entry it' of [] \<Rightarrow> (None, it') | e # _ \<Rightarrow> (Some e, it'))"

text \<open>What a caller's loop \<open>while (hashmap_iter_next(...))\<close> sees: the entries from the iterator's
  position on. \<open>pending\<close> counts the entries ahead of the iterator.\<close>

definition pending :: "('k, 'v) hashmap \<Rightarrow> ('k, 'v) hashmap_iter \<Rightarrow> ('k \<times> 'v) list" where
  "pending m it = tl (entry it) @ concat (drop (bucket_idx it) (take (bucket_count m) (buckets m)))"

lemma iter_seek_pending:
  "bucket_count m \<le> length (buckets m) \<Longrightarrow>
   entry (iter_seek m b e) @ concat (drop (bucket_idx (iter_seek m b e)) (take (bucket_count m) (buckets m)))
   = e @ concat (drop b (take (bucket_count m) (buckets m)))"
proof (induction m b e rule: iter_seek.induct)
  case (1 m b e)
  show ?case
  proof (cases "e = [] \<and> b < bucket_count m")
    case True
    have step: "iter_seek m b e = iter_seek m (Suc b) (buckets m ! b)"
      by (subst iter_seek.simps) (use True in simp)
    from True have "drop b (take (bucket_count m) (buckets m))
        = buckets m ! b # drop (Suc b) (take (bucket_count m) (buckets m))"
      using "1.prems" by (simp add: Cons_nth_drop_Suc [symmetric])
    with True "1.IH" "1.prems" show ?thesis unfolding step by simp
  next
    case False
    then show ?thesis by (auto simp add: iter_seek.simps [of m b e])
  qed
qed

lemma iter_seek_end: "entry (iter_seek m b e) = [] \<Longrightarrow> bucket_count m \<le> bucket_idx (iter_seek m b e)"
proof (induction m b e rule: iter_seek.induct)
  case (1 m b e)
  then show ?case
    by (cases "e = [] \<and> b < bucket_count m")
      (simp_all add: iter_seek.simps [of m b e] iter_seek.simps [of m b "[]"] split: if_splits)
qed

lemma hashmap_iter_next_pending:
  assumes "bucket_count m \<le> length (buckets m)"
  shows "case hashmap_iter_next m it of
      (None, it') \<Rightarrow> pending m it = []
    | (Some e, it') \<Rightarrow> pending m it = e # pending m it'"
proof (cases "entry (iter_seek m (bucket_idx it) (tl (entry it)))")
  case Nil
  then show ?thesis
    using iter_seek_pending [OF assms, of "bucket_idx it" "tl (entry it)"]
      iter_seek_end [of m "bucket_idx it" "tl (entry it)"]
    by (auto simp: hashmap_iter_next_def pending_def Let_def)
next
  case (Cons e es)
  then show ?thesis
    using iter_seek_pending [OF assms, of "bucket_idx it" "tl (entry it)"]
    by (simp add: hashmap_iter_next_def pending_def Let_def)
qed

text \<open>The whole loop, as the list of entries it visits in order. \<open>iter_all\<close> runs the C loop itself:
  it starts from \<open>hashmap_iter_init\<close> and calls \<open>hashmap_iter_next\<close> until that returns 0; fuel is the
  number of calls, and \<open>hsize + 1\<close> of them are enough.\<close>

fun iter_all :: "nat \<Rightarrow> ('k, 'v) hashmap \<Rightarrow> ('k, 'v) hashmap_iter \<Rightarrow> ('k \<times> 'v) list option" where
  "iter_all 0 m it = None"
| "iter_all (Suc n) m it =
     (case hashmap_iter_next m it of
        (None, it') \<Rightarrow> Some []
      | (Some e, it') \<Rightarrow> map_option ((#) e) (iter_all n m it'))"

lemma iter_all_pending:
  "bucket_count m \<le> length (buckets m) \<Longrightarrow> length (pending m it) < n \<Longrightarrow>
   iter_all n m it = Some (pending m it)"
proof (induction n arbitrary: it)
  case (Suc n)
  obtain r it' where s: "hashmap_iter_next m it = (r, it')" by (cases "hashmap_iter_next m it")
  show ?case
    using hashmap_iter_next_pending [OF Suc.prems(1), of it] Suc s
    by (cases r) auto
qed simp

section \<open>The contract of a keyed table\<close>

text \<open>What the clients of the table rely on. \<open>keyed_table\<close> is the map contract, for the keys that the
  table accepts (\<open>key_ok\<close>), and \<open>sized_table\<close> adds
  the size counter and the enumeration of the entries.\<close>

locale keyed_table =
  fixes get :: "'m \<Rightarrow> 'k \<Rightarrow> 'v option"
    and put :: "'m \<Rightarrow> 'k \<Rightarrow> 'v \<Rightarrow> 'm"
    and rem :: "'m \<Rightarrow> 'k \<Rightarrow> 'm"
    and ok :: "'m \<Rightarrow> bool"
    and key_ok :: "'k \<Rightarrow> bool"
  assumes get_put: "ok m \<Longrightarrow> key_ok k \<Longrightarrow> get (put m k v) = (get m)(k \<mapsto> v)"
    and get_rem: "ok m \<Longrightarrow> get (rem m k) = (get m)(k := None)"
    and ok_put: "ok m \<Longrightarrow> ok (put m k v)"
    and ok_rem: "ok m \<Longrightarrow> ok (rem m k)"
begin

lemma get_put_same: "ok m \<Longrightarrow> key_ok k \<Longrightarrow> get (put m k v) k = Some v"
  by (simp add: get_put)

lemma get_put_other: "ok m \<Longrightarrow> key_ok k \<Longrightarrow> k' \<noteq> k \<Longrightarrow> get (put m k v) k' = get m k'"
  by (simp add: get_put)

lemma get_rem_other: "ok m \<Longrightarrow> k' \<noteq> k \<Longrightarrow> get (rem m k) k' = get m k'"
  by (simp add: get_rem)

lemma put_put: "ok m \<Longrightarrow> key_ok k \<Longrightarrow> get (put (put m k v) k w) = get (put m k w)"
  by (simp add: get_put ok_put)

lemma rem_put: "ok m \<Longrightarrow> key_ok k \<Longrightarrow> get m k = None \<Longrightarrow> get (rem (put m k v) k) = get m"
  by (simp add: get_put get_rem ok_put fun_upd_idem)

lemma ok_puts: "ok m \<Longrightarrow> ok (foldl (\<lambda>m (k, v). put m k v) m kvs)"
  by (induction kvs arbitrary: m) (auto simp: ok_put)

lemma get_puts:
  "ok m \<Longrightarrow> \<forall>k \<in> fst ` set kvs. key_ok k \<Longrightarrow>
   get (foldl (\<lambda>m (k, v). put m k v) m kvs) = get m ++ map_of (rev kvs)"
  by (induction kvs arbitrary: m) (auto simp: ok_put get_put map_add_def fun_eq_iff split: option.splits)

end

locale sized_table = keyed_table +
  fixes size_of :: "'a \<Rightarrow> nat" and entries :: "'a \<Rightarrow> ('b \<times> 'c) list"
  assumes entries_get: "ok m \<Longrightarrow> map_of (entries m) = get m"
    and entries_distinct: "ok m \<Longrightarrow> distinct (map fst (entries m))"
    and size_entries: "ok m \<Longrightarrow> size_of m = length (entries m)"
begin

lemma set_entries: "ok m \<Longrightarrow> (k, v) \<in> set (entries m) \<longleftrightarrow> get m k = Some v"
  by (metis entries_get entries_distinct map_of_eq_Some_iff)

lemma keys_entries: "ok m \<Longrightarrow> fst ` set (entries m) = dom (get m)"
  by (metis entries_get dom_map_of_conv_image_fst)

lemma size_card_dom: "ok m \<Longrightarrow> size_of m = card (dom (get m))"
  by (metis distinct_card entries_distinct keys_entries length_map list.set_map size_entries)

lemma finite_keys: "ok m \<Longrightarrow> finite (dom (get m))"
  by (metis entries_get finite_dom_map_of)

lemma size_put: "ok m \<Longrightarrow> key_ok k \<Longrightarrow> size_of (put m k v) = (if get m k = None then Suc (size_of m) else size_of m)"
  by (simp add: size_card_dom ok_put get_put finite_keys insert_absorb domIff)

lemma size_rem: "ok m \<Longrightarrow> size_of (rem m k) = (if get m k = None then size_of m else size_of m - 1)"
  by (simp add: size_card_dom ok_rem get_rem finite_keys domIff)

end

section \<open>The hash table meets it\<close>

definition hm_entries :: "('k, 'v) hashmap \<Rightarrow> ('k \<times> 'v) list" where
  "hm_entries m = concat (buckets m)"

definition hm_ok :: "('k, 'v) hashmap \<Rightarrow> bool" where
  "hm_ok m \<longleftrightarrow> 0 < bucket_count m \<and> length (buckets m) = bucket_count m \<and> equal_fn m = (=) \<and>
     (\<forall>i < bucket_count m. distinct (map fst (buckets m ! i)) \<and>
        (\<forall>k \<in> fst ` set (buckets m ! i). hm_idx m k = i)) \<and>
     hsize m = length (hm_entries m)"

lemma chain_get_map_of [simp]: "chain_get (=) k cs = map_of cs k"
  by (induction cs) auto

lemma keys_chain_set [simp]: "map fst (chain_set (=) k v cs) = map fst cs"
  by (induction cs) auto

lemma key_set_chain_set [simp]: "fst ` set (chain_set (=) k v cs) = fst ` set cs"
  by (metis keys_chain_set list.set_map)

lemma length_chain_set [simp]: "length (chain_set eq k v cs) = length cs"
  by (induction eq k v cs rule: chain_set.induct) auto

lemma map_of_chain_set: "map_of cs k \<noteq> None \<Longrightarrow> map_of (chain_set (=) k v cs) = (map_of cs)(k \<mapsto> v)"
  by (induction cs) (auto simp: fun_upd_twist)

lemma chain_del_filter: "distinct (map fst cs) \<Longrightarrow> chain_del (=) k cs = filter (\<lambda>(k', v). k' \<noteq> k) cs"
proof (induction cs)
  case (Cons c cs)
  have "filter (\<lambda>(j, v). j \<noteq> k) cs = cs" if "k \<notin> fst ` set cs"
    using that by (intro filter_True) force
  with Cons show ?case by auto
qed simp

lemma map_of_filter_key: "map_of (filter (\<lambda>(k', v). k' \<noteq> k) cs) = (map_of cs)(k := None)"
  by (induction cs) (auto simp: fun_eq_iff)

lemma length_chain_del:
  "map_of cs k \<noteq> None \<Longrightarrow> Suc (length (chain_del (=) k cs)) = length cs"
  by (induction cs) (auto split: if_splits)

lemma length_concat_update:
  "i < length xss \<Longrightarrow> length (concat (xss[i := ys])) + length (xss ! i) = length (concat xss) + length ys"
proof (induction xss arbitrary: i)
  case (Cons xs xss)
  then show ?case by (cases i) auto
qed simp

lemma hm_idx_less: "hm_ok m \<Longrightarrow> hm_idx m k < length (buckets m)"
  by (simp add: hm_ok_def hm_idx_def)

lemma hashmap_get_bucket: "hm_ok m \<Longrightarrow> hashmap_get m k = map_of (buckets m ! hm_idx m k) k"
  by (simp add: hashmap_get_def hm_ok_def)

lemma hm_ok_bucket:
  "hm_ok m \<Longrightarrow> i < length (buckets m) \<Longrightarrow>
   distinct (map fst (buckets m ! i)) \<and> (\<forall>k \<in> fst ` set (buckets m ! i). hm_idx m k = i)"
  by (simp add: hm_ok_def)

text \<open>Replacing one bucket by another that is again a bucket of its index keeps the table
  well-formed, and changes the map only at keys of that index.\<close>

lemma hm_ok_replace:
  assumes ok: "hm_ok m" and i: "i < length (buckets m)"
    and d: "distinct (map fst ch)" and h: "\<forall>k \<in> fst ` set ch. hm_idx m k = i"
    and n: "n + length (buckets m ! i) = hsize m + length ch"
  shows "hm_ok (m\<lparr>buckets := (buckets m)[i := ch], hsize := n\<rparr>)"
proof -
  have "length (concat ((buckets m)[i := ch])) = n"
    using length_concat_update [OF i, of ch] n ok by (simp add: hm_ok_def hm_entries_def)
  then show ?thesis
    using ok d h i by (auto simp add: hm_ok_def hm_entries_def hm_idx_def nth_list_update)
qed

lemma get_replace:
  assumes ok: "hm_ok m" and i: "i = hm_idx m k" and f: "map_of ch = (map_of (buckets m ! i))(k := v)"
  shows "hashmap_get (m\<lparr>buckets := (buckets m)[i := ch], hsize := n\<rparr>) = (hashmap_get m)(k := v)"
proof
  fix k'
  have e: "equal_fn m = (=)" using ok by (simp add: hm_ok_def)
  show "hashmap_get (m\<lparr>buckets := (buckets m)[i := ch], hsize := n\<rparr>) k' = ((hashmap_get m)(k := v)) k'"
  proof (cases "hm_idx m k' = i")
    case True
    then show ?thesis
      using f hm_idx_less [OF ok, of k'] by (simp add: hashmap_get_def hm_idx_def e)
  next
    case False
    then show ?thesis using i by (auto simp add: hashmap_get_def hm_idx_def e)
  qed
qed

lemma put_eq_replace:
  "hashmap_put m k v =
     (let i = hm_idx m k; ch = buckets m ! i; found = chain_get (equal_fn m) k ch \<noteq> None
      in m\<lparr>buckets := (buckets m)[i := (if found then chain_set (equal_fn m) k v ch else (k, v) # ch)],
           hsize := (if found then hsize m else Suc (hsize m))\<rparr>)"
  by (simp add: hashmap_put_def Let_def)

lemma hashmap_put_old_put: "hashmap_put_old m k v = (hashmap_get m k, hashmap_put m k v)"
  by (simp add: hashmap_put_old_def hashmap_put_def hashmap_get_def Let_def split: option.split)

lemma get_put_hashmap: "hm_ok m \<Longrightarrow> hashmap_get (hashmap_put m k v) = (hashmap_get m)(k \<mapsto> v)"
  unfolding put_eq_replace Let_def
  by (rule get_replace [OF _ refl]) (simp_all add: hm_ok_def map_of_chain_set)

lemma hm_ok_put:
  assumes ok: "hm_ok m"
  shows "hm_ok (hashmap_put m k v)"
proof -
  have e: "equal_fn m = (=)" using ok by (simp add: hm_ok_def)
  let ?i = "hm_idx m k"
  let ?ch = "buckets m ! ?i"
  have i: "?i < length (buckets m)" by (rule hm_idx_less [OF ok])
  have d: "distinct (map fst ?ch)" and h: "\<forall>k' \<in> fst ` set ?ch. hm_idx m k' = ?i"
    using hm_ok_bucket [OF ok i] by blast+
  show ?thesis
  proof (cases "map_of ?ch k")
    case None
    then have new: "k \<notin> fst ` set ?ch" by (simp add: map_of_eq_None_iff)
    have "hm_ok (m\<lparr>buckets := (buckets m)[?i := (k, v) # ?ch], hsize := Suc (hsize m)\<rparr>)"
    proof (rule hm_ok_replace [OF ok i])
      show "distinct (map fst ((k, v) # ?ch))" using d new by simp
      show "\<forall>k' \<in> fst ` set ((k, v) # ?ch). hm_idx m k' = ?i" using h by auto
    qed simp
    then show ?thesis using None by (simp add: put_eq_replace Let_def e)
  next
    case (Some w)
    have "hm_ok (m\<lparr>buckets := (buckets m)[?i := chain_set (=) k v ?ch], hsize := hsize m\<rparr>)"
    proof (rule hm_ok_replace [OF ok i])
      show "distinct (map fst (chain_set (=) k v ?ch))" using d by simp
      show "\<forall>k' \<in> fst ` set (chain_set (=) k v ?ch). hm_idx m k' = ?i"
        unfolding key_set_chain_set by (rule h)
    qed simp
    then show ?thesis using Some by (simp add: put_eq_replace Let_def e)
  qed
qed

lemma hm_bucket_size: "hm_ok m \<Longrightarrow> length (buckets m ! hm_idx m k) \<le> hsize m"
  using length_concat_update [OF hm_idx_less, of m k "[]"] by (simp add: hm_ok_def hm_entries_def)

lemma hashmap_remove_result: "hm_ok m \<Longrightarrow> fst (hashmap_remove m k) = (if hashmap_get m k = None then -1 else 0)"
  by (simp add: hashmap_remove_def hashmap_get_def Let_def)

lemma get_remove_hashmap:
  assumes ok: "hm_ok m"
  shows "hashmap_get (snd (hashmap_remove m k)) = (hashmap_get m)(k := None)"
proof (cases "hashmap_get m k")
  case None
  then show ?thesis by (simp add: hashmap_remove_def hashmap_get_def Let_def fun_upd_idem)
next
  case (Some v)
  have e: "equal_fn m = (=)" using ok by (simp add: hm_ok_def)
  have "map_of (chain_del (=) k (buckets m ! hm_idx m k)) = (map_of (buckets m ! hm_idx m k))(k := None)"
    using hm_ok_bucket [OF ok hm_idx_less [OF ok], of k] by (simp add: chain_del_filter map_of_filter_key)
  with Some show ?thesis
    using get_replace [OF ok refl, of "chain_del (=) k (buckets m ! hm_idx m k)" k None "hsize m - 1"]
    by (simp add: hashmap_remove_def hashmap_get_def Let_def e)
qed

lemma hm_ok_remove:
  assumes ok: "hm_ok m"
  shows "hm_ok (snd (hashmap_remove m k))"
proof (cases "hashmap_get m k")
  case None
  then show ?thesis using ok by (simp add: hashmap_remove_def hashmap_get_def Let_def)
next
  case (Some v)
  have e: "equal_fn m = (=)" using ok by (simp add: hm_ok_def)
  let ?ch = "buckets m ! hm_idx m k"
  have i: "hm_idx m k < length (buckets m)" by (rule hm_idx_less [OF ok])
  have d: "distinct (map fst ?ch)" and h: "\<forall>k' \<in> fst ` set ?ch. hm_idx m k' = hm_idx m k"
    using hm_ok_bucket [OF ok i] by blast+
  have f: "map_of ?ch k \<noteq> None" using Some ok by (simp add: hashmap_get_bucket)
  have len: "Suc (length (chain_del (=) k ?ch)) = length ?ch" by (rule length_chain_del [OF f])
  have "hm_ok (m\<lparr>buckets := (buckets m)[hm_idx m k := chain_del (=) k ?ch], hsize := hsize m - 1\<rparr>)"
  proof (rule hm_ok_replace [OF ok i])
    show "distinct (map fst (chain_del (=) k ?ch))"
      using d by (simp add: chain_del_filter distinct_map_filter)
    show "\<forall>k' \<in> fst ` set (chain_del (=) k ?ch). hm_idx m k' = hm_idx m k"
      unfolding chain_del_filter [OF d] using h by force
    show "hsize m - 1 + length ?ch = hsize m + length (chain_del (=) k ?ch)"
      using len hm_bucket_size [OF ok, of k] by simp
  qed
  with f show ?thesis by (simp add: hashmap_remove_def Let_def e)
qed

text \<open>Keys of different buckets have different indices, so the keys of the whole table are distinct.\<close>

lemma hm_keys_distinct:
  assumes ok: "hm_ok m"
  shows "n \<le> length (buckets m) \<Longrightarrow> distinct (map fst (concat (take n (buckets m))))
    \<and> (\<forall>k \<in> fst ` set (concat (take n (buckets m))). hm_idx m k < n)"
proof (induction n)
  case (Suc n)
  then have n: "n < length (buckets m)" by simp
  note b = hm_ok_bucket [OF ok n]
  have t: "take (Suc n) (buckets m) = take n (buckets m) @ [buckets m ! n]"
    by (rule take_Suc_conv_app_nth [OF n])
  have IH: "distinct (map fst (concat (take n (buckets m))))"
    "\<forall>k \<in> fst ` set (concat (take n (buckets m))). hm_idx m k < n"
    using Suc by simp_all
  have disj: "fst ` set (concat (take n (buckets m))) \<inter> fst ` set (buckets m ! n) = {}"
    using IH(2) b by force
  then have "distinct (map fst (concat (take (Suc n) (buckets m))))"
    using IH(1) b unfolding t by (simp del: set_concat)
  moreover have "\<forall>k \<in> fst ` set (concat (take (Suc n) (buckets m))). hm_idx m k < Suc n"
    using IH(2) b unfolding t by (auto simp del: set_concat simp: less_Suc_eq image_Un)
  ultimately show ?case by blast
qed simp

lemma hm_entries_distinct: "hm_ok m \<Longrightarrow> distinct (map fst (hm_entries m))"
  using hm_keys_distinct [of m "length (buckets m)"] by (simp add: hm_entries_def)

lemma hm_entries_get:
  assumes ok: "hm_ok m"
  shows "map_of (hm_entries m) = hashmap_get m"
proof
  fix k
  let ?ch = "buckets m ! hm_idx m k"
  have sub: "set ?ch \<subseteq> set (hm_entries m)"
    using nth_mem [OF hm_idx_less [OF ok, of k]] by (auto simp: hm_entries_def)
  have here: "(k, v) \<in> set ?ch" if kv: "(k, v) \<in> set (hm_entries m)" for v
  proof -
    from kv obtain ch where "ch \<in> set (buckets m)" and v: "(k, v) \<in> set ch"
      by (auto simp: hm_entries_def)
    then obtain i where i: "i < length (buckets m)" "ch = buckets m ! i"
      by (auto simp: in_set_conv_nth)
    then have "hm_idx m k = i" using hm_ok_bucket [OF ok i(1)] v by force
    then show ?thesis using i v by simp
  qed
  have d: "distinct (map fst ?ch)" using hm_ok_bucket [OF ok hm_idx_less [OF ok]] by blast
  have "map_of (hm_entries m) k = Some v \<longleftrightarrow> map_of ?ch k = Some v" for v
    using sub here hm_entries_distinct [OF ok] d by (auto simp: map_of_eq_Some_iff)
  then show "map_of (hm_entries m) k = hashmap_get m k"
    by (metis hashmap_get_bucket [OF ok] not_None_eq)
qed

interpretation hm: sized_table hashmap_get hashmap_put "\<lambda>m k. snd (hashmap_remove m k)" hm_ok
    "\<lambda>_. True" hashmap_size hm_entries
  by unfold_locales
    (simp_all add: get_put_hashmap get_remove_hashmap hm_ok_put hm_ok_remove hm_entries_get
      hm_entries_distinct, simp add: hashmap_size_def hm_ok_def)

section \<open>Initialisation and iteration\<close>

lemma hm_ok_init: "hm_ok (hashmap_init n hash (=))"
  by (simp add: hashmap_init_def hm_ok_def hm_entries_def Let_def concat_eq_Nil_conv)

lemma hashmap_get_init: "hashmap_get (hashmap_init n hash (=)) k = None"
  by (simp add: hashmap_init_def hashmap_get_def hm_idx_def Let_def)

lemma hash_fn_put [simp]: "hash_fn (hashmap_put m k v) = hash_fn m"
  by (simp add: hashmap_put_def Let_def)

lemma pending_init: "hm_ok m \<Longrightarrow> pending m hashmap_iter_init = hm_entries m"
  by (simp add: pending_def hashmap_iter_init_def hm_entries_def hm_ok_def)

lemma iter_all_entries: "hm_ok m \<Longrightarrow> hsize m < n \<Longrightarrow> iter_all n m hashmap_iter_init = Some (hm_entries m)"
  using iter_all_pending [of m hashmap_iter_init n] by (simp add: pending_init) (simp add: hm_ok_def)

section \<open>Properties\<close>

text \<open>A run of insertions and removals, on the table and on the map it stands for.\<close>

datatype ('k, 'v) table_op = Table_Put 'k 'v | Table_Remove 'k

fun table_step :: "('k, 'v) hashmap \<Rightarrow> ('k, 'v) table_op \<Rightarrow> ('k, 'v) hashmap" where
  "table_step m (Table_Put k v) = hashmap_put m k v"
| "table_step m (Table_Remove k) = snd (hashmap_remove m k)"

fun map_step :: "('k \<Rightarrow> 'v option) \<Rightarrow> ('k, 'v) table_op \<Rightarrow> 'k \<Rightarrow> 'v option" where
  "map_step f (Table_Put k v) = f(k \<mapsto> v)"
| "map_step f (Table_Remove k) = f(k := None)"

lemma table_step_refines:
  "hm_ok m \<Longrightarrow> hm_ok (table_step m op) \<and> hashmap_get (table_step m op) = map_step (hashmap_get m) op"
  using hm.get_put hm.get_rem hm.ok_put hm.ok_rem by (cases op) auto

lemma table_run_refines:
  "hm_ok m \<Longrightarrow> hm_ok (foldl table_step m ops) \<and> hashmap_get (foldl table_step m ops) = foldl map_step (hashmap_get m) ops"
  by (induction ops arbitrary: m) (use table_step_refines in auto)

text \<open>C26. After any run of insertions and removals on a new table, whatever its bucket count and hash
  function: lookup is the finite map of the run, the size counter is the number of its keys, and the
  iterator loop ends and visits every entry exactly once.\<close>

theorem hashmap_run_spec:
  fixes n :: nat and hash :: "'k \<Rightarrow> nat" and ops :: "('k, 'v) table_op list"
  defines "m \<equiv> foldl table_step (hashmap_init n hash (=)) ops"
  shows "hashmap_get m = foldl map_step (\<lambda>_. None) ops \<and> hashmap_size m = card (dom (hashmap_get m)) \<and>
    (\<exists>es. iter_all (hashmap_size m + 1) m hashmap_iter_init = Some es \<and> distinct (map fst es) \<and>
       map_of es = hashmap_get m)"
proof -
  have ok: "hm_ok m" and get: "hashmap_get m = foldl map_step (\<lambda>_. None) ops"
    using table_run_refines [OF hm_ok_init, of n hash ops] by (simp_all add: m_def hashmap_get_init [abs_def])
  show ?thesis
    using get hm.size_card_dom [OF ok] hm.entries_get [OF ok] hm.entries_distinct [OF ok]
      iter_all_entries [OF ok, of "hashmap_size m + 1"] by (simp add: hashmap_size_def del: iter_all.simps)
qed

end
