(* ===== verification/Free_Space_Manager.thy ===== *)
theory Free_Space_Manager
  imports Hash_Map "HOL-Library.Multiset"
begin

text \<open>
  The growable array of \<open>src/common/vector.c\<close> and the free space manager of
  \<open>src/storage/free_space_manager.c\<close>, which keeps one (page, free space) entry per page in such an
  array. The array is shown to be a list under push, pop and clear with doubling capacity; the
  manager meets the table contract of \<open>Hash_Map\<close> and its search is shown to be best-fit.
  Allocation is taken to succeed, and the NULL checks on the object pointers are not modelled.
\<close>

section \<open>vector.c\<close>

text \<open>\<open>slots\<close> holds the elements written so far: the first \<open>vsize\<close> of them are the contents, the
  others are stale.\<close>

record 'a vector =
  slots :: "'a list"
  vsize :: nat
  capacity :: nat

definition vector_init :: "'a vector" where
  "vector_init = \<lparr>slots = [], vsize = 0, capacity = 0\<rparr>"

definition vector_destroy :: "'a vector \<Rightarrow> 'a vector" where
  "vector_destroy v = \<lparr>slots = [], vsize = 0, capacity = 0\<rparr>"

definition vector_grow :: "'a vector \<Rightarrow> 'a vector" where
  "vector_grow v = v\<lparr>capacity := (if capacity v = 0 then 8 else capacity v * 2)\<rparr>"

definition vector_push :: "'a vector \<Rightarrow> 'a \<Rightarrow> 'a vector" where
  "vector_push v x =
     (let v = (if vsize v \<ge> capacity v then vector_grow v else v)
      in v\<lparr>slots := take (vsize v) (slots v) @ x # drop (vsize v + 1) (slots v), vsize := vsize v + 1\<rparr>)"

definition vector_at :: "'a vector \<Rightarrow> nat \<Rightarrow> 'a option" where
  "vector_at v i = (if i \<ge> vsize v then None else Some (slots v ! i))"

text \<open>A write through the pointer that \<open>vector_at\<close> returned.\<close>

definition vector_store :: "'a vector \<Rightarrow> nat \<Rightarrow> 'a \<Rightarrow> 'a vector" where
  "vector_store v i x = v\<lparr>slots := (slots v)[i := x]\<rparr>"

definition vector_pop :: "'a vector \<Rightarrow> 'a vector" where
  "vector_pop v = (if vsize v > 0 then v\<lparr>vsize := vsize v - 1\<rparr> else v)"

definition vector_clear :: "'a vector \<Rightarrow> 'a vector" where
  "vector_clear v = v\<lparr>vsize := 0\<rparr>"

definition vector_size :: "'a vector \<Rightarrow> nat" where
  "vector_size v = vsize v"

definition vector_empty :: "'a vector \<Rightarrow> bool" where
  "vector_empty v \<longleftrightarrow> vsize v = 0"

definition vec_ok :: "'a vector \<Rightarrow> bool" where
  "vec_ok v \<longleftrightarrow> vsize v \<le> length (slots v) \<and> length (slots v) \<le> capacity v"

definition vec_list :: "'a vector \<Rightarrow> 'a list" where
  "vec_list v = take (vsize v) (slots v)"

named_theorems vec_simps \<open>the operations of a vector on its contents\<close>

lemma vec_list_init [vec_simps]: "vec_list vector_init = []"
  by (simp add: vec_list_def vector_init_def)

lemma vec_list_push [vec_simps]: "vec_ok v \<Longrightarrow> vec_list (vector_push v x) = vec_list v @ [x]"
  by (simp add: vec_ok_def vec_list_def vector_push_def vector_grow_def Let_def)

lemma vec_list_pop [vec_simps]: "vec_ok v \<Longrightarrow> vec_list (vector_pop v) = butlast (vec_list v)"
  by (auto simp: vec_ok_def vec_list_def vector_pop_def butlast_take)

lemma vec_list_clear [vec_simps]: "vec_list (vector_clear v) = []"
  by (simp add: vec_list_def vector_clear_def)

lemma vec_list_store [vec_simps]: "vec_list (vector_store v i x) = (vec_list v)[i := x]"
  by (simp add: vec_list_def vector_store_def take_update_swap)

lemma vector_at_list [vec_simps]:
  "vec_ok v \<Longrightarrow> vector_at v i = (if i < length (vec_list v) then Some (vec_list v ! i) else None)"
  by (simp add: vec_ok_def vec_list_def vector_at_def)

lemma vector_size_list [vec_simps]: "vec_ok v \<Longrightarrow> vector_size v = length (vec_list v)"
  by (simp add: vec_ok_def vec_list_def vector_size_def)

lemma vec_ok_ops [vec_simps]:
  "vec_ok vector_init"
  "vec_ok v \<Longrightarrow> vec_ok (vector_push v x)"
  "vec_ok v \<Longrightarrow> vec_ok (vector_pop v)"
  "vec_ok v \<Longrightarrow> vec_ok (vector_clear v)"
  "vec_ok v \<Longrightarrow> vec_ok (vector_store v i x)"
  by (auto simp: vec_ok_def vector_init_def vector_push_def vector_pop_def vector_clear_def
      vector_store_def vector_grow_def Let_def)

section \<open>free_space_manager.c\<close>

type_synonym fsm = "(int \<times> nat) vector"

definition fsm_init :: "fsm" where
  "fsm_init = vector_init"

text \<open>The search loops of \<open>fsm_update\<close> and \<open>fsm_remove\<close>: the index of the first entry of the page.\<close>

fun entry_index :: "(int \<times> nat) list \<Rightarrow> int \<Rightarrow> nat option" where
  "entry_index [] p = None"
| "entry_index (e # es) p = (if fst e = p then Some 0 else map_option Suc (entry_index es p))"

definition fsm_update :: "fsm \<Rightarrow> int \<Rightarrow> nat \<Rightarrow> error_code \<times> fsm" where
  "fsm_update f p free =
     (if p = INVALID_PAGE_ID then (DB_INVALID_ARGUMENT, f)
      else case entry_index (vec_list f) p of
          Some i \<Rightarrow> (DB_OK, vector_store f i (p, free))
        | None \<Rightarrow> (DB_OK, vector_push f (p, free)))"

definition fsm_remove :: "fsm \<Rightarrow> int \<Rightarrow> error_code \<times> fsm" where
  "fsm_remove f p =
     (case entry_index (vec_list f) p of
        Some i \<Rightarrow>
          (let n = vector_size f; last = vec_list f ! (n - 1);
               f = (if i \<noteq> n - 1 then vector_store f i last else f)
           in (DB_OK, vector_pop f))
      | None \<Rightarrow> (DB_PAGE_NOT_FOUND, f))"

text \<open>The best-fit scan, with its two running variables; \<open>UINT32_MAX\<close> is 4294967295.\<close>

fun best_fit :: "nat \<Rightarrow> int \<Rightarrow> nat \<Rightarrow> (int \<times> nat) list \<Rightarrow> int" where
  "best_fit req best best_space [] = best"
| "best_fit req best best_space ((p, free) # es) =
     (if free \<ge> req \<and> free < best_space then best_fit req p free es
      else best_fit req best best_space es)"

definition fsm_find_page :: "fsm \<Rightarrow> nat \<Rightarrow> int" where
  "fsm_find_page f req = best_fit req INVALID_PAGE_ID 4294967295 (vec_list f)"

definition fsm_count :: "fsm \<Rightarrow> nat" where
  "fsm_count f = vector_size f"

section \<open>The manager is a table from pages to free space\<close>

definition fsm_ok :: "fsm \<Rightarrow> bool" where
  "fsm_ok f \<longleftrightarrow> vec_ok f \<and> distinct (map fst (vec_list f)) \<and> INVALID_PAGE_ID \<notin> fst ` set (vec_list f)"

definition fsm_get :: "fsm \<Rightarrow> int \<Rightarrow> nat option" where
  "fsm_get f p = map_of (vec_list f) p"

lemma entry_index_None: "entry_index es p = None \<longleftrightarrow> p \<notin> fst ` set es"
  by (induction es) (auto split: if_splits)

lemma entry_index_Some:
  "entry_index es p = Some i \<Longrightarrow> i < length es \<and> fst (es ! i) = p"
  by (induction es arbitrary: i) (auto split: if_splits)

lemma map_of_update_nth:
  "distinct (map fst es) \<Longrightarrow> i < length es \<Longrightarrow> fst (es ! i) = p \<Longrightarrow>
   map_of (es[i := (p, v)]) = (map_of es)(p \<mapsto> v)"
proof (induction es arbitrary: i)
  case (Cons e es)
  show ?case
  proof (cases i)
    case (Suc j)
    then have "es ! j \<in> set es" using Cons.prems by simp
    then have "fst e \<noteq> p" using Suc Cons.prems by auto
    then show ?thesis using Suc Cons by (cases e) (auto simp: fun_upd_twist)
  next
    case 0
    then show ?thesis using Cons.prems by (cases e) (auto simp: fun_eq_iff)
  qed
qed simp

lemma map_of_append_new:
  "p \<notin> fst ` set es \<Longrightarrow> map_of (es @ [(p, v)]) = (map_of es)(p \<mapsto> v)"
proof -
  assume "p \<notin> fst ` set es"
  then have "map_of es p = None" by (simp add: map_of_eq_None_iff)
  then show ?thesis by (auto simp: map_add_def fun_eq_iff split: option.split)
qed

text \<open>Removing by swapping with the last entry and popping: the contents without entry i, with the
  last entry in its place.\<close>

lemma fsm_remove_list:
  assumes ok: "vec_ok f" and i: "entry_index (vec_list f) p = Some i"
  shows "vec_list (snd (fsm_remove f p)) = butlast ((vec_list f)[i := last (vec_list f)])"
proof -
  have l: "i < length (vec_list f)" using entry_index_Some [OF i] by simp
  then have ne: "vec_list f \<noteq> []" by auto
  have *: "(vec_list f)[i := last (vec_list f)] = vec_list f" if "i = length (vec_list f) - 1"
    using that ne by (simp add: last_conv_nth)
  show ?thesis
    using ok i ne by (auto simp: fsm_remove_def Let_def vec_simps last_conv_nth * [simplified last_conv_nth [OF ne]])
qed

lemma mset_swap_remove:
  assumes i: "i < length es"
  shows "mset (butlast (es[i := last es])) = mset es - {#es ! i#}"
proof -
  have ne: "es \<noteq> []" using i by auto
  have e: "mset es = add_mset (last es) (mset (butlast es))"
    by (metis append_butlast_last_id mset_append ne mset.simps(1) mset.simps(2) add_mset_add_single)
  show ?thesis
  proof (cases "i = length es - 1")
    case True
    then have "es[i := last es] = es" and "es ! i = last es" using ne by (simp_all add: last_conv_nth)
    with e show ?thesis by simp
  next
    case False
    then have lb: "i < length (butlast es)" using i by simp
    have u: "butlast (es[i := last es]) = (butlast es)[i := last es]"
      using False by (simp add: butlast_list_update)
    have "es ! i = butlast es ! i" using lb by (simp add: nth_butlast)
    with e show ?thesis unfolding u using lb by (simp add: mset_update)
  qed
qed

lemma swap_remove_keys:
  assumes d: "distinct (map fst es)" and i: "i < length es"
  shows "distinct (map fst (butlast (es[i := last es])))"
    and "map_of (butlast (es[i := last es])) = (map_of es)(fst (es ! i) := None)"
proof -
  let ?es' = "butlast (es[i := last es])"
  have m: "mset (es ! i # ?es') = mset es"
    using mset_swap_remove [OF i] i by simp
  then have "mset (map fst (es ! i # ?es')) = mset (map fst es)"
    by (metis mset_map)
  then have d': "distinct (map fst (es ! i # ?es'))"
    using d by (metis mset_eq_imp_distinct_iff)
  then show "distinct (map fst ?es')" by simp
  have "set (es ! i # ?es') = set es" using m by (metis set_mset_mset)
  then have "map_of (es ! i # ?es') = map_of es"
    using map_of_inject_set [OF d' d] by simp
  moreover have "map_of ?es' (fst (es ! i)) = None"
    using d' by (simp add: map_of_eq_None_iff)
  ultimately show "map_of ?es' = (map_of es)(fst (es ! i) := None)"
    by (cases "es ! i") (metis fst_conv fun_upd_triv fun_upd_upd map_of_Cons_code(2) map_of.simps(2) snd_conv)
qed

definition fsm_put :: "fsm \<Rightarrow> int \<Rightarrow> nat \<Rightarrow> fsm" where
  "fsm_put f p free = snd (fsm_update f p free)"

definition fsm_drop :: "fsm \<Rightarrow> int \<Rightarrow> fsm" where
  "fsm_drop f p = snd (fsm_remove f p)"

lemma fsm_put_list:
  assumes ok: "fsm_ok f" and p: "p \<noteq> INVALID_PAGE_ID"
  shows "vec_list (fsm_put f p free) =
    (case entry_index (vec_list f) p of Some i \<Rightarrow> (vec_list f)[i := (p, free)] | None \<Rightarrow> vec_list f @ [(p, free)])"
  using ok p by (simp add: fsm_put_def fsm_update_def fsm_ok_def vec_simps split: option.split)

lemma fsm_get_put:
  assumes ok: "fsm_ok f" and p: "p \<noteq> INVALID_PAGE_ID"
  shows "fsm_get (fsm_put f p free) = (fsm_get f)(p \<mapsto> free)"
proof (cases "entry_index (vec_list f) p")
  case None
  then have "p \<notin> fst ` set (vec_list f)" by (simp add: entry_index_None)
  from map_of_append_new [OF this] show ?thesis
    using fsm_put_list [OF assms, of free] None by (simp add: fsm_get_def [abs_def] del: map_of_append)
next
  case (Some i)
  then show ?thesis
    using fsm_put_list [OF assms, of free] entry_index_Some [OF Some] ok
    by (simp add: fsm_get_def [abs_def] fsm_ok_def map_of_update_nth)
qed

lemma fsm_ok_put: "fsm_ok f \<Longrightarrow> fsm_ok (fsm_put f p free)"
proof (cases "p = INVALID_PAGE_ID")
  case True
  assume "fsm_ok f"
  then show ?thesis using True by (simp add: fsm_put_def fsm_update_def)
next
  case False
  assume ok: "fsm_ok f"
  have v: "vec_ok (fsm_put f p free)"
    using ok by (auto simp: fsm_put_def fsm_update_def fsm_ok_def vec_simps split: option.split)
  show ?thesis
  proof (cases "entry_index (vec_list f) p")
    case None
    then have "p \<notin> fst ` set (vec_list f)" by (simp add: entry_index_None)
    then show ?thesis
      using v fsm_put_list [OF ok False, of free] ok False None by (simp add: fsm_ok_def)
  next
    case (Some i)
    have "map fst ((vec_list f)[i := (p, free)]) = map fst (vec_list f)"
      using entry_index_Some [OF Some] by (simp add: map_update list_update_same_conv)
    moreover from this have "fst ` set ((vec_list f)[i := (p, free)]) = fst ` set (vec_list f)"
      by (metis list.set_map)
    ultimately show ?thesis
      using v fsm_put_list [OF ok False, of free] ok Some by (simp add: fsm_ok_def)
  qed
qed

lemma fsm_drop_cases:
  assumes ok: "fsm_ok f"
  shows "fsm_get (fsm_drop f p) = (fsm_get f)(p := None) \<and> fsm_ok (fsm_drop f p)"
proof (cases "entry_index (vec_list f) p")
  case None
  then have "fsm_drop f p = f" by (simp add: fsm_drop_def fsm_remove_def)
  moreover have "fsm_get f p = None" using None by (simp add: fsm_get_def entry_index_None map_of_eq_None_iff)
  ultimately show ?thesis using ok by (simp add: fun_upd_idem)
next
  case (Some i)
  have d: "distinct (map fst (vec_list f))" and v: "vec_ok f" using ok by (simp_all add: fsm_ok_def)
  have i: "i < length (vec_list f)" and p: "fst (vec_list f ! i) = p" using entry_index_Some [OF Some] by simp_all
  let ?es' = "butlast ((vec_list f)[i := last (vec_list f)])"
  have l: "vec_list (fsm_drop f p) = ?es'" unfolding fsm_drop_def by (rule fsm_remove_list [OF v Some])
  have "last (vec_list f) \<in> set (vec_list f)" using i by (intro last_in_set) auto
  then have "set ((vec_list f)[i := last (vec_list f)]) \<subseteq> set (vec_list f)"
    using set_update_subset_insert [of "vec_list f" i "last (vec_list f)"] by blast
  then have "set ?es' \<subseteq> set (vec_list f)" by (meson in_set_butlastD subset_iff)
  moreover have "- 1 \<notin> fst ` set (vec_list f)" using ok by (simp add: fsm_ok_def)
  ultimately have "- 1 \<notin> fst ` set ?es'" by blast
  moreover have "vec_ok (fsm_drop f p)"
    using v Some by (simp add: fsm_drop_def fsm_remove_def Let_def vec_simps)
  ultimately have "fsm_ok (fsm_drop f p)"
    using swap_remove_keys(1) [OF d i] unfolding fsm_ok_def l by blast
  moreover have "fsm_get (fsm_drop f p) = (fsm_get f)(p := None)"
    using swap_remove_keys(2) [OF d i] unfolding p fsm_get_def [abs_def] l by blast
  ultimately show ?thesis by blast
qed

interpretation fsm: sized_table fsm_get fsm_put fsm_drop fsm_ok "\<lambda>p. p \<noteq> INVALID_PAGE_ID" fsm_count vec_list
proof unfold_locales
  fix f :: fsm and p :: int and v :: nat
  assume ok: "fsm_ok f"
  show "p \<noteq> INVALID_PAGE_ID \<Longrightarrow> fsm_get (fsm_put f p v) = (fsm_get f)(p \<mapsto> v)"
    by (rule fsm_get_put [OF ok])
  show "fsm_get (fsm_drop f p) = (fsm_get f)(p := None)" and "fsm_ok (fsm_drop f p)"
    using fsm_drop_cases [OF ok, of p] by blast+
  show "fsm_ok (fsm_put f p v)" by (rule fsm_ok_put [OF ok])
  show "map_of (vec_list f) = fsm_get f" by (simp add: fsm_get_def [abs_def])
  show "distinct (map fst (vec_list f))" using ok by (simp add: fsm_ok_def)
  show "fsm_count f = length (vec_list f)" using ok by (simp add: fsm_ok_def fsm_count_def vec_simps)
qed

section \<open>The search is best-fit\<close>

text \<open>\<open>tightest req bs es free\<close>: an entry of es with this much space meets the requirement, beats the
  running best bs, and no other entry that meets it has less.\<close>

definition tightest :: "nat \<Rightarrow> nat \<Rightarrow> (int \<times> nat) list \<Rightarrow> nat \<Rightarrow> bool" where
  "tightest req bs es free \<longleftrightarrow> req \<le> free \<and> free < bs \<and> (\<forall>e \<in> set es. req \<le> snd e \<longrightarrow> free \<le> snd e)"

lemma best_fit_none: "\<forall>e \<in> set es. req \<le> snd e \<longrightarrow> bs \<le> snd e \<Longrightarrow> best_fit req b bs es = b"
  by (induction req b bs es rule: best_fit.induct) auto

lemma best_fit_some:
  "e \<in> set es \<Longrightarrow> req \<le> snd e \<Longrightarrow> snd e < bs \<Longrightarrow>
   \<exists>x \<in> set es. best_fit req b bs es = fst x \<and> tightest req bs es (snd x)"
proof (induction es arbitrary: b bs e)
  case (Cons y ys)
  obtain p free where y: "y = (p, free)" by (cases y)
  show ?case
  proof (cases "free \<ge> req \<and> free < bs")
    case upd: True
    show ?thesis
    proof (cases "\<exists>z \<in> set ys. req \<le> snd z \<and> snd z < free")
      case True
      then obtain z where "z \<in> set ys" "req \<le> snd z" "snd z < free" by blast
      from Cons.IH [OF this, of p] obtain x where
        "x \<in> set ys" "best_fit req p free ys = fst x" "tightest req free ys (snd x)" by blast
      then show ?thesis using upd y by (intro bexI [of _ x]) (auto simp: tightest_def)
    next
      case False
      then have "best_fit req p free ys = p" by (intro best_fit_none) force
      then show ?thesis using False upd y by (intro bexI [of _ y]) (force simp: tightest_def)+
    qed
  next
    case False
    then have "e \<in> set ys" using Cons.prems y by auto
    from Cons.IH [OF this Cons.prems(2,3), of b] obtain x where
      "x \<in> set ys" "best_fit req b bs ys = fst x" "tightest req bs ys (snd x)" by blast
    then show ?thesis using False y by (intro bexI [of _ x]) (auto simp: tightest_def)
  qed
qed simp

section \<open>Properties\<close>

text \<open>\<open>fsm_find_page\<close> is best-fit over the tracked pages: if some page has at least the required
  space it returns a tracked page whose space suffices and is the least that does, and otherwise
  INVALID_PAGE_ID.\<close>

theorem fsm_find_page_spec:
  assumes ok: "fsm_ok f" and small: "\<forall>p s. fsm_get f p = Some s \<longrightarrow> s < 4294967295"
  shows "if \<exists>p s. fsm_get f p = Some s \<and> req \<le> s
    then \<exists>s. fsm_get f (fsm_find_page f req) = Some s \<and> req \<le> s \<and>
      (\<forall>p s'. fsm_get f p = Some s' \<longrightarrow> req \<le> s' \<longrightarrow> s \<le> s')
    else fsm_find_page f req = INVALID_PAGE_ID"
proof (cases "\<exists>p s. fsm_get f p = Some s \<and> req \<le> s")
  case True
  then obtain p s where g: "fsm_get f p = Some s" "req \<le> s" by blast
  then have e: "(p, s) \<in> set (vec_list f)" "s < 4294967295"
    using fsm.set_entries [OF ok] small by blast+
  have "\<exists>x \<in> set (vec_list f). fsm_find_page f req = fst x \<and> tightest req 4294967295 (vec_list f) (snd x)"
    using best_fit_some [OF e(1), of req 4294967295 "INVALID_PAGE_ID"] g(2) e(2) by (simp add: fsm_find_page_def)
  then obtain x where x: "x \<in> set (vec_list f)" "fsm_find_page f req = fst x"
    "tightest req 4294967295 (vec_list f) (snd x)" by blast
  have "fsm_get f (fst x) = Some (snd x)" using fsm.set_entries [OF ok, of "fst x" "snd x"] x(1) by simp
  moreover have "snd x \<le> s'" if "fsm_get f q = Some s'" "req \<le> s'" for q s'
    using that x(3) fsm.set_entries [OF ok, of q s'] by (force simp: tightest_def)
  ultimately show ?thesis using True x by (auto simp: tightest_def)
next
  case False
  have "req \<le> snd e \<longrightarrow> 4294967295 \<le> snd e" if "e \<in> set (vec_list f)" for e
    using that False fsm.set_entries [OF ok, of "fst e" "snd e"] by auto
  then show ?thesis using False best_fit_none [of "vec_list f" req 4294967295] by (auto simp: fsm_find_page_def)
qed

theorem fsm_find_page_spec_witness:
  "fsm_find_page (fsm_put (fsm_put (fsm_put fsm_init 3 900) 5 300) 8 200) 250 = 5"
proof -
  let ?f = "fsm_put (fsm_put (fsm_put fsm_init 3 900) 5 300) 8 200"
  have ok0: "fsm_ok fsm_init" by (simp add: fsm_ok_def fsm_init_def vec_simps)
  have g0: "fsm_get fsm_init = (\<lambda>_. None)" by (simp add: fsm_get_def [abs_def] fsm_init_def vec_simps)
  have ok: "fsm_ok ?f" by (intro fsm_ok_put ok0)
  have g: "fsm_get ?f = [3 \<mapsto> 900, 5 \<mapsto> 300, 8 \<mapsto> 200]"
    by (simp add: fsm_get_put ok0 fsm_ok_put g0)
  have small: "\<forall>p s. fsm_get ?f p = Some s \<longrightarrow> s < 4294967295" unfolding g by (auto split: if_splits)
  have ex: "\<exists>p s. fsm_get ?f p = Some s \<and> 250 \<le> s" unfolding g by (rule exI [of _ 5], rule exI [of _ 300]) simp
  obtain s where "fsm_get ?f (fsm_find_page ?f 250) = Some s" "250 \<le> s"
    "\<forall>p s'. fsm_get ?f p = Some s' \<longrightarrow> 250 \<le> s' \<longrightarrow> s \<le> s'"
    using fsm_find_page_spec [OF ok small, of 250] unfolding if_P [OF ex] by blast
  then show ?thesis unfolding g by (auto split: if_splits)
qed

end
