(* ===== verification/Int_Keys.thy ===== *)
theory Int_Keys
  imports Hash_Map
begin

text \<open>
  The tables that the transaction subsystem keys by an \<open>int\<close>: the hash and equality functions that
  \<open>lock_manager.c\<close>, \<open>deadlock_detector.c\<close>, \<open>txn_manager.c\<close> and \<open>recovery_manager.c\<close> share, the
  casts between \<open>int\<close> and \<open>void*\<close>, and the keys that an iterator loop collects.
\<close>

definition int_hash_fn :: "uintptr \<Rightarrow> nat" where
  "int_hash_fn v = unat (v * 2654435761)"

definition int_equal_fn :: "uintptr \<Rightarrow> uintptr \<Rightarrow> bool" where
  "int_equal_fn a b \<longleftrightarrow> a = b"

text \<open>\<open>(void*)(uintptr_t)i\<close> sign-extends; \<open>(int)(uintptr_t)key\<close> reads the low 32 bits.\<close>

definition int_key :: "int \<Rightarrow> uintptr" where
  "int_key i = word_of_int i"

definition key_int :: "uintptr \<Rightarrow> int" where
  "key_int k = to_signed 32 (u32 (unat k))"

definition hashmap_keys :: "(uintptr, 'v) hashmap \<Rightarrow> int list" where
  "hashmap_keys m =
     (case iter_all (hashmap_size m + 1) m hashmap_iter_init of None \<Rightarrow> [] | Some es \<Rightarrow> map (key_int \<circ> fst) es)"

lemma int_equal_fn_eq [simp]: "int_equal_fn = (=)"
  by (simp add: int_equal_fn_def fun_eq_iff)

lemma key_int_key:
  assumes i: "in_range 32 i"
  shows "key_int (int_key i) = i"
proof -
  have "unat (int_key i) = nat (i mod 2 ^ 64)"
    by (simp add: int_key_def unsigned_of_int take_bit_eq_mod)
  then have "u32 (unat (int_key i)) = nat (i mod 2 ^ 64) mod 4294967296" by (simp add: u32_def)
  also have "\<dots> = nat (i mod 2 ^ 64 mod 4294967296)" by (simp add: nat_mod_distrib)
  also have "i mod 2 ^ 64 mod 4294967296 = i mod 2 ^ 32" by (simp add: mod_mod_cancel)
  finally have "u32 (unat (int_key i)) = pattern 32 i" by (simp add: pattern_def)
  then show ?thesis using signed_pattern [of 32 i] i by (simp add: key_int_def)
qed

lemma int_key_inj: "in_range 32 i \<Longrightarrow> in_range 32 j \<Longrightarrow> int_key i = int_key j \<longleftrightarrow> i = j"
  using key_int_key by metis

text \<open>A table whose keys are ints.\<close>

definition int_table :: "(uintptr, 'v) hashmap \<Rightarrow> bool" where
  "int_table m \<longleftrightarrow> hm_ok m \<and> (\<forall>k. hashmap_get m k \<noteq> None \<longrightarrow> (\<exists>i. in_range 32 i \<and> k = int_key i))"

definition int_get :: "(uintptr, 'v) hashmap \<Rightarrow> int \<Rightarrow> 'v option" where
  "int_get m i = hashmap_get m (int_key i)"

lemma int_table_init: "int_table (hashmap_init n int_hash_fn int_equal_fn)"
  by (simp add: int_table_def hm_ok_init hashmap_get_init)

lemma int_get_init [simp]: "int_get (hashmap_init n int_hash_fn int_equal_fn) i = None"
  by (simp add: int_get_def hashmap_get_init)

lemma int_table_put:
  "int_table m \<Longrightarrow> in_range 32 i \<Longrightarrow> int_table (hashmap_put m (int_key i) v)"
  using hm.ok_put [of m] hm.get_put [of m] unfolding int_table_def by auto

lemma int_get_put:
  "int_table m \<Longrightarrow> in_range 32 i \<Longrightarrow> in_range 32 j \<Longrightarrow>
   int_get (hashmap_put m (int_key i) v) j = (if j = i then Some v else int_get m j)"
  using hm.get_put [of m "int_key i" v] int_key_inj [of j i] by (simp add: int_table_def int_get_def)

lemma int_table_remove: "int_table m \<Longrightarrow> int_table (snd (hashmap_remove m k))"
  using hm.ok_rem [of m k] hm.get_rem [of m k] unfolding int_table_def by auto

lemma int_get_remove:
  "int_table m \<Longrightarrow> in_range 32 i \<Longrightarrow> in_range 32 j \<Longrightarrow>
   int_get (snd (hashmap_remove m (int_key i))) j = (if j = i then None else int_get m j)"
  using hm.get_rem [of m "int_key i"] int_key_inj [of j i] by (simp add: int_table_def int_get_def)

lemma hashmap_keys_entries: "hm_ok m \<Longrightarrow> hashmap_keys m = map (key_int \<circ> fst) (hm_entries m)"
  using iter_all_entries [of m "hashmap_size m + 1"] unfolding hashmap_keys_def hashmap_size_def by simp

lemma hashmap_keys_set:
  assumes t: "int_table m"
  shows "set (hashmap_keys m) = {i. in_range 32 i \<and> int_get m i \<noteq> None}"
proof -
  have hm: "hm_ok m" using t by (simp add: int_table_def)
  have e: "fst ` set (hm_entries m) = dom (hashmap_get m)" by (rule hm.keys_entries [OF hm])
  have "set (hashmap_keys m) = key_int ` dom (hashmap_get m)"
    unfolding hashmap_keys_entries [OF hm] e [symmetric] by (auto simp: image_image)
  also have "\<dots> = {i. in_range 32 i \<and> int_get m i \<noteq> None}"
  proof (intro equalityI subsetI)
    fix i assume "i \<in> key_int ` dom (hashmap_get m)"
    then obtain k where "i = key_int k" "hashmap_get m k \<noteq> None" by auto
    moreover from this obtain j where "in_range 32 j" "k = int_key j" using t by (auto simp: int_table_def)
    ultimately show "i \<in> {i. in_range 32 i \<and> int_get m i \<noteq> None}" using key_int_key by (auto simp: int_get_def)
  next
    fix i assume "i \<in> {i. in_range 32 i \<and> int_get m i \<noteq> None}"
    then have "i = key_int (int_key i)" "int_key i \<in> dom (hashmap_get m)" using key_int_key by (auto simp: int_get_def)
    then show "i \<in> key_int ` dom (hashmap_get m)" by (rule image_eqI)
  qed
  finally show ?thesis .
qed

end
