(* ===== verification/Lock_Manager.thy ===== *)
theory Lock_Manager
  imports Int_Keys
begin

text \<open>
  The lock manager of \<open>src/transaction/lock_manager.c\<close>: a table from resource ids to queues of
  requests. A queue mutated through its pointer is put back under its key. Transaction and resource
  ids are 32-bit ints; allocation is taken to succeed and NULL arguments are not modelled.
\<close>

section \<open>The lock manager\<close>

datatype lock_mode = LOCK_SHARED | LOCK_EXCLUSIVE | LOCK_INTENT_SHARED | LOCK_INTENT_EXCLUSIVE

fun mode_num :: "lock_mode \<Rightarrow> nat" where
  "mode_num LOCK_SHARED = 0"
| "mode_num LOCK_EXCLUSIVE = 1"
| "mode_num LOCK_INTENT_SHARED = 2"
| "mode_num LOCK_INTENT_EXCLUSIVE = 3"

record lock_request =
  lr_txn :: int
  lr_mode :: lock_mode
  granted :: bool

record lock_queue =
  requests :: "lock_request list"
  request_capacity :: nat

record lock_manager =
  lock_table :: "(uintptr, lock_queue) hashmap"

definition compat_matrix :: "nat list list" where
  "compat_matrix =
    [[1, 0, 1, 0],
     [0, 0, 0, 0],
     [1, 0, 1, 1],
     [0, 0, 1, 1]]"

definition lock_compatible :: "lock_mode \<Rightarrow> lock_mode \<Rightarrow> bool" where
  "lock_compatible a b \<longleftrightarrow> compat_matrix ! mode_num a ! mode_num b \<noteq> 0"

definition lock_manager_init :: lock_manager where
  "lock_manager_init = \<lparr>lock_table = hashmap_init 64 int_hash_fn int_equal_fn\<rparr>"

definition lock_manager_destroy :: "lock_manager \<Rightarrow> lock_manager" where
  "lock_manager_destroy lm = lm\<lparr>lock_table := hashmap_destroy (lock_table lm)\<rparr>"

definition find_or_create_queue :: "lock_manager \<Rightarrow> int \<Rightarrow> lock_queue \<times> lock_manager" where
  "find_or_create_queue lm res =
     (case hashmap_get (lock_table lm) (int_key res) of
        Some queue \<Rightarrow> (queue, lm)
      | None \<Rightarrow>
          let queue = \<lparr>requests = [], request_capacity = 0\<rparr>
          in (queue, lm\<lparr>lock_table := hashmap_put (lock_table lm) (int_key res) queue\<rparr>))"

definition put_queue :: "lock_manager \<Rightarrow> int \<Rightarrow> lock_queue \<Rightarrow> lock_manager" where
  "put_queue lm res queue = lm\<lparr>lock_table := hashmap_put (lock_table lm) (int_key res) queue\<rparr>"

text \<open>The search for the transaction's own request.\<close>

fun own_request :: "int \<Rightarrow> lock_request list \<Rightarrow> nat option" where
  "own_request txn [] = None"
| "own_request txn (r # rs) = (if lr_txn r = txn then Some 0 else map_option Suc (own_request txn rs))"

text \<open>The compatibility loop of a request that is in the queue at index i, and of a new one.\<close>

definition compatible_others :: "lock_mode \<Rightarrow> nat \<Rightarrow> lock_request list \<Rightarrow> bool" where
  "compatible_others mode i rs \<longleftrightarrow>
     (\<forall>j < length rs. j \<noteq> i \<and> granted (rs ! j) \<longrightarrow> lock_compatible mode (lr_mode (rs ! j)))"

definition compatible_all :: "lock_mode \<Rightarrow> lock_request list \<Rightarrow> bool" where
  "compatible_all mode rs \<longleftrightarrow> (\<forall>r \<in> set rs. granted r \<longrightarrow> lock_compatible mode (lr_mode r))"

definition queue_acquire :: "lock_queue \<Rightarrow> int \<Rightarrow> lock_mode \<Rightarrow> error_code \<times> lock_queue" where
  "queue_acquire queue txn mode =
     (let rs = requests queue in
      case own_request txn rs of
        Some i \<Rightarrow>
          if granted (rs ! i) then
            (DB_OK,
             if mode_num mode > mode_num (lr_mode (rs ! i))
             then queue\<lparr>requests := rs[i := (rs ! i)\<lparr>lr_mode := mode\<rparr>]\<rparr> else queue)
          else
            let r = (rs ! i)\<lparr>lr_mode := mode\<rparr>; rs = rs[i := r] in
            if compatible_others mode i rs
            then (DB_OK, queue\<lparr>requests := rs[i := r\<lparr>granted := True\<rparr>]\<rparr>)
            else (DB_LOCK_CONFLICT, queue\<lparr>requests := rs\<rparr>)
      | None \<Rightarrow>
          let compatible = compatible_all mode rs;
              queue = (if length rs \<ge> request_capacity queue
                       then queue\<lparr>request_capacity := (if request_capacity queue \<noteq> 0 then request_capacity queue * 2 else 4)\<rparr>
                       else queue);
              queue = queue\<lparr>requests := rs @ [\<lparr>lr_txn = txn, lr_mode = mode, granted = compatible\<rparr>]\<rparr>
          in (if compatible then DB_OK else DB_LOCK_CONFLICT, queue))"

definition lock_acquire :: "lock_manager \<Rightarrow> int \<Rightarrow> int \<Rightarrow> lock_mode \<Rightarrow> error_code \<times> lock_manager" where
  "lock_acquire lm txn res mode =
     (let (queue, lm) = find_or_create_queue lm res;
          (rc, queue) = queue_acquire queue txn mode
      in (rc, put_queue lm res queue))"

text \<open>After a release: each waiting request in turn, against what is granted by then.\<close>

definition grant_step :: "lock_request list \<Rightarrow> nat \<Rightarrow> lock_request list" where
  "grant_step rs k =
     (if granted (rs ! k) then rs
      else if compatible_others (lr_mode (rs ! k)) k rs then rs[k := (rs ! k)\<lparr>granted := True\<rparr>]
      else rs)"

definition queue_release :: "int \<Rightarrow> lock_queue \<Rightarrow> lock_queue" where
  "queue_release txn queue =
     (let rs = filter (\<lambda>r. lr_txn r \<noteq> txn) (requests queue);
          changed = (\<exists>r \<in> set (requests queue). lr_txn r = txn)
      in queue\<lparr>requests := (if changed then foldl grant_step rs [0..<length rs] else rs)\<rparr>)"

definition release_one :: "int \<Rightarrow> lock_manager \<Rightarrow> int \<Rightarrow> lock_manager" where
  "release_one txn lm res =
     (case hashmap_get (lock_table lm) (int_key res) of
        None \<Rightarrow> lm
      | Some queue \<Rightarrow> put_queue lm res (queue_release txn queue))"

definition lock_release_all :: "lock_manager \<Rightarrow> int \<Rightarrow> lock_manager" where
  "lock_release_all lm txn = foldl (release_one txn) lm (hashmap_keys (lock_table lm))"

definition lock_has_lock :: "lock_manager \<Rightarrow> int \<Rightarrow> int \<Rightarrow> bool" where
  "lock_has_lock lm txn res =
     (case hashmap_get (lock_table lm) (int_key res) of
        None \<Rightarrow> False
      | Some queue \<Rightarrow> (\<exists>r \<in> set (requests queue). lr_txn r = txn \<and> granted r))"

section \<open>Queues\<close>

lemma lock_compatible_sym: "lock_compatible a b = lock_compatible b a"
  by (cases a; cases b; simp add: lock_compatible_def compat_matrix_def)

lemma compat_table [simp]:
  "lock_compatible LOCK_SHARED b \<longleftrightarrow> b = LOCK_SHARED \<or> b = LOCK_INTENT_SHARED"
  "\<not> lock_compatible LOCK_EXCLUSIVE b"
  "lock_compatible LOCK_INTENT_SHARED b \<longleftrightarrow> b \<noteq> LOCK_EXCLUSIVE"
  "lock_compatible LOCK_INTENT_EXCLUSIVE b \<longleftrightarrow> b = LOCK_INTENT_SHARED \<or> b = LOCK_INTENT_EXCLUSIVE"
  by (cases b; simp add: lock_compatible_def compat_matrix_def)+

text \<open>Granted requests are pairwise compatible, and a transaction has at most one request.\<close>

definition grants_ok :: "lock_request list \<Rightarrow> bool" where
  "grants_ok rs \<longleftrightarrow> (\<forall>i < length rs. \<forall>j < length rs.
     i \<noteq> j \<longrightarrow> granted (rs ! i) \<longrightarrow> granted (rs ! j) \<longrightarrow> lock_compatible (lr_mode (rs ! i)) (lr_mode (rs ! j)))"

definition queue_ok :: "lock_request list \<Rightarrow> bool" where
  "queue_ok rs \<longleftrightarrow> grants_ok rs \<and> distinct (map lr_txn rs)"

lemma own_request_Some: "own_request txn rs = Some i \<Longrightarrow> i < length rs \<and> lr_txn (rs ! i) = txn"
  by (induction rs arbitrary: i) (auto split: if_splits)

lemma own_request_None: "own_request txn rs = None \<longleftrightarrow> (\<forall>r \<in> set rs. lr_txn r \<noteq> txn)"
  by (induction rs) auto

lemma grants_ok_set:
  assumes g: "grants_ok rs" and i: "i < length rs" and c: "granted r \<Longrightarrow> compatible_others (lr_mode r) i rs"
  shows "grants_ok (rs[i := r])"
  unfolding grants_ok_def
proof (intro allI impI)
  fix a b assume a: "a < length (rs[i := r])" "b < length (rs[i := r])" "a \<noteq> b"
    "granted (rs[i := r] ! a)" "granted (rs[i := r] ! b)"
  show "lock_compatible (lr_mode (rs[i := r] ! a)) (lr_mode (rs[i := r] ! b))"
    using a g c by (cases "a = i"; cases "b = i")
      (auto simp: grants_ok_def compatible_others_def lock_compatible_sym [of "lr_mode (rs ! a)" "lr_mode r"])
qed

lemma map_txn_set: "lr_txn r = lr_txn (rs ! i) \<Longrightarrow> map lr_txn (rs[i := r]) = map lr_txn rs"
  by (cases "i < length rs") (simp_all add: map_update list_update_same_conv list_update_beyond)

lemma queue_ok_set:
  "queue_ok rs \<Longrightarrow> i < length rs \<Longrightarrow> lr_txn r = lr_txn (rs ! i) \<Longrightarrow>
   (granted r \<Longrightarrow> compatible_others (lr_mode r) i rs) \<Longrightarrow> queue_ok (rs[i := r])"
  unfolding queue_ok_def using grants_ok_set map_txn_set by metis

lemma compatible_others_set: "compatible_others mode i (rs[i := r]) = compatible_others mode i rs"
  by (auto simp: compatible_others_def nth_list_update)

lemma queue_ok_snoc:
  assumes q: "queue_ok rs" and t: "\<forall>r' \<in> set rs. lr_txn r' \<noteq> lr_txn r" and c: "granted r \<Longrightarrow> compatible_all (lr_mode r) rs"
  shows "queue_ok (rs @ [r])"
proof -
  have "grants_ok (rs @ [r])"
    unfolding grants_ok_def
  proof (intro allI impI)
    fix a b assume ab: "a < length (rs @ [r])" "b < length (rs @ [r])" "a \<noteq> b"
      "granted ((rs @ [r]) ! a)" "granted ((rs @ [r]) ! b)"
    have g: "grants_ok rs" using q by (simp add: queue_ok_def)
    consider "a < length rs" "b < length rs" | "a = length rs" "b < length rs" | "a < length rs" "b = length rs"
      using ab(1-3) by fastforce
    then show "lock_compatible (lr_mode ((rs @ [r]) ! a)) (lr_mode ((rs @ [r]) ! b))"
    proof cases
      case 1
      then show ?thesis using g ab(3-5) by (simp add: nth_append grants_ok_def)
    next
      case 2
      then show ?thesis using c ab(4,5) by (simp add: nth_append compatible_all_def)
    next
      case 3
      then have "lock_compatible (lr_mode r) (lr_mode (rs ! a))" using c ab(4,5) by (simp add: nth_append compatible_all_def)
      then show ?thesis using 3 by (simp add: nth_append lock_compatible_sym)
    qed
  qed
  then show ?thesis using q t by (auto simp: queue_ok_def)
qed

section \<open>Acquiring\<close>

text \<open>A request of a transaction that already holds a lower-numbered mode replaces that mode without
  a check; it is safe when the new mode happens to be compatible with the other granted requests.\<close>

definition safe_request :: "lock_request list \<Rightarrow> int \<Rightarrow> lock_mode \<Rightarrow> bool" where
  "safe_request rs txn mode \<longleftrightarrow>
     (case own_request txn rs of None \<Rightarrow> True
      | Some i \<Rightarrow> granted (rs ! i) \<longrightarrow> mode_num mode > mode_num (lr_mode (rs ! i)) \<longrightarrow> compatible_others mode i rs)"

definition holds :: "lock_request list \<Rightarrow> int \<Rightarrow> bool" where
  "holds rs txn \<longleftrightarrow> (\<exists>r \<in> set rs. lr_txn r = txn \<and> granted r)"

definition others :: "int \<Rightarrow> lock_request list \<Rightarrow> lock_request list" where
  "others txn rs = filter (\<lambda>r. lr_txn r \<noteq> txn) rs"

lemma others_set: "i < length rs \<Longrightarrow> lr_txn (rs ! i) = txn \<Longrightarrow> lr_txn r = txn \<Longrightarrow> others txn (rs[i := r]) = others txn rs"
proof (induction rs arbitrary: i)
  case (Cons x xs)
  then show ?case by (cases i) (auto simp: others_def)
qed (simp add: others_def)

lemma holds_nth:
  assumes d: "distinct (map lr_txn rs)" and i: "i < length rs" "lr_txn (rs ! i) = txn"
  shows "holds rs txn \<longleftrightarrow> granted (rs ! i)"
proof
  assume "holds rs txn"
  then obtain j where j: "j < length rs" "lr_txn (rs ! j) = txn" "granted (rs ! j)" by (auto simp: holds_def in_set_conv_nth)
  then have "map lr_txn rs ! j = map lr_txn rs ! i" using i by simp
  then have "j = i" using nth_eq_iff_index_eq [OF d, of j i] i(1) j(1) by simp
  then show "granted (rs ! i)" using j by simp
qed (use i in \<open>auto simp: holds_def\<close>)

lemma compatible_others_all:
  assumes d: "distinct (map lr_txn rs)" and i: "i < length rs" "lr_txn (rs ! i) = txn"
  shows "compatible_others mode i rs \<longleftrightarrow> compatible_all mode (others txn rs)"
proof -
  have "rs ! j \<in> set (others txn rs) \<longleftrightarrow> j \<noteq> i" if "j < length rs" for j
  proof -
    have "lr_txn (rs ! j) = lr_txn (rs ! i) \<longleftrightarrow> j = i"
      using d i that nth_eq_iff_index_eq [of "map lr_txn rs" j i] by simp
    then show ?thesis using i that by (auto simp: others_def)
  qed
  moreover have "r \<in> set (others txn rs) \<Longrightarrow> \<exists>j < length rs. r = rs ! j" for r
    by (auto simp: others_def in_set_conv_nth)
  ultimately show ?thesis unfolding compatible_others_def compatible_all_def by metis
qed

lemma queue_acquire_ok:
  assumes q: "queue_ok (requests queue)"
  obtains rc queue' where "queue_acquire queue txn mode = (rc, queue')" "rc = DB_OK \<or> rc = DB_LOCK_CONFLICT"
    "rc = DB_OK \<longleftrightarrow> holds (requests queue') txn"
    "rc = DB_OK \<longleftrightarrow> holds (requests queue) txn \<or> compatible_all mode (others txn (requests queue))"
    "others txn (requests queue') = others txn (requests queue)" "distinct (map lr_txn (requests queue'))"
    "safe_request (requests queue) txn mode \<Longrightarrow> queue_ok (requests queue')"
proof -
  let ?rs = "requests queue"
  have d: "distinct (map lr_txn ?rs)" using q by (simp add: queue_ok_def)
  show ?thesis
  proof (cases "own_request txn ?rs")
    case None
    then have n: "\<forall>r \<in> set ?rs. lr_txn r \<noteq> txn" by (simp add: own_request_None)
    let ?r = "\<lparr>lr_txn = txn, lr_mode = mode, granted = compatible_all mode ?rs\<rparr>"
    have o: "others txn ?rs = ?rs" using n by (simp add: others_def)
    have h: "\<not> holds ?rs txn" using n by (auto simp: holds_def)
    have "queue_ok (?rs @ [?r])" by (rule queue_ok_snoc [OF q]) (use n in simp_all)
    moreover have "holds (?rs @ [?r]) txn \<longleftrightarrow> compatible_all mode ?rs" using n by (auto simp: holds_def)
    moreover have "others txn (?rs @ [?r]) = ?rs" using o by (simp add: others_def)
    ultimately show ?thesis
      by (intro that [of "if compatible_all mode ?rs then DB_OK else DB_LOCK_CONFLICT"
          "snd (queue_acquire queue txn mode)"])
        (use None o h in \<open>auto simp: queue_acquire_def Let_def queue_ok_def\<close>)
  next
    case (Some i)
    then have i: "i < length ?rs" "lr_txn (?rs ! i) = txn" using own_request_Some by blast+
    have hold: "holds ?rs txn \<longleftrightarrow> granted (?rs ! i)" by (rule holds_nth [OF d i])
    have co: "compatible_others mode i ?rs \<longleftrightarrow> compatible_all mode (others txn ?rs)"
      by (rule compatible_others_all [OF d i])
    have upd: "others txn (?rs[i := r]) = others txn ?rs" "map lr_txn (?rs[i := r]) = map lr_txn ?rs"
      "holds (?rs[i := r]) txn \<longleftrightarrow> granted r" if "lr_txn r = txn" for r
    proof -
      show "others txn (?rs[i := r]) = others txn ?rs" by (rule others_set [OF i that])
      show m: "map lr_txn (?rs[i := r]) = map lr_txn ?rs" by (rule map_txn_set) (simp add: that i)
      show "holds (?rs[i := r]) txn \<longleftrightarrow> granted r"
        using holds_nth [of "?rs[i := r]" i txn] d m i that by simp
    qed
    let ?g = "granted (?rs ! i)"
    define r where "r = (if ?g then (if mode_num mode > mode_num (lr_mode (?rs ! i)) then (?rs ! i)\<lparr>lr_mode := mode\<rparr> else ?rs ! i)
      else (?rs ! i)\<lparr>lr_mode := mode, granted := compatible_others mode i ?rs\<rparr>)"
    have r: "lr_txn r = txn" "granted r \<longleftrightarrow> ?g \<or> compatible_others mode i ?rs" using i by (simp_all add: r_def)
    have res: "queue_acquire queue txn mode =
        (if ?g \<or> compatible_others mode i ?rs then DB_OK else DB_LOCK_CONFLICT, queue\<lparr>requests := ?rs[i := r]\<rparr>)"
    proof (cases ?g)
      case True
      then show ?thesis using Some by (simp add: queue_acquire_def r_def Let_def)
    next
      case False
      then have e: "(?rs ! i)\<lparr>lr_mode := mode, granted := False\<rparr> = (?rs ! i)\<lparr>lr_mode := mode\<rparr>" by (cases "?rs ! i") simp
      show ?thesis
        using Some False i by (cases "compatible_others mode i ?rs")
          (simp_all add: queue_acquire_def r_def Let_def compatible_others_set e)
    qed
    have ok: "queue_ok (?rs[i := r])" if s: "safe_request ?rs txn mode"
    proof (rule queue_ok_set [OF q i(1)])
      show "lr_txn r = lr_txn (?rs ! i)" using r(1) i by simp
      assume gr: "granted r"
      show "compatible_others (lr_mode r) i ?rs"
      proof (cases "?g \<and> \<not> mode_num mode > mode_num (lr_mode (?rs ! i))")
        case True
        then show ?thesis using q i by (auto simp: r_def queue_ok_def grants_ok_def compatible_others_def)
      next
        case False
        then show ?thesis using s gr Some r(2) by (auto simp: r_def safe_request_def)
      qed
    qed
    show ?thesis by (rule that [OF res]) (use r upd [OF r(1)] hold co d ok in auto)
  qed
qed

section \<open>Releasing\<close>

lemma grant_step_facts:
  shows "length (grant_step rs k) = length rs" and "map lr_txn (grant_step rs k) = map lr_txn rs"
    and "map lr_mode (grant_step rs k) = map lr_mode rs"
    and "j < length rs \<Longrightarrow> granted (rs ! j) \<Longrightarrow> granted (grant_step rs k ! j)"
    and "grants_ok rs \<Longrightarrow> k < length rs \<Longrightarrow> grants_ok (grant_step rs k)"
    and "k < length rs \<Longrightarrow> \<not> granted (grant_step rs k ! k) \<Longrightarrow> \<not> compatible_others (lr_mode (rs ! k)) k rs"
proof -
  show "length (grant_step rs k) = length rs" by (simp add: grant_step_def)
  show "map lr_txn (grant_step rs k) = map lr_txn rs" by (simp add: grant_step_def map_txn_set)
  show "map lr_mode (grant_step rs k) = map lr_mode rs"
    by (cases "k < length rs") (auto simp: grant_step_def map_update list_update_same_conv list_update_beyond)
  show "granted (grant_step rs k ! j)" if "j < length rs" "granted (rs ! j)"
    using that by (cases "j = k") (auto simp: grant_step_def)
  show "grants_ok (grant_step rs k)" if "grants_ok rs" "k < length rs"
    using that by (auto simp: grant_step_def intro: grants_ok_set)
  show "\<not> compatible_others (lr_mode (rs ! k)) k rs" if "k < length rs" "\<not> granted (grant_step rs k ! k)"
    using that by (auto simp: grant_step_def split: if_splits)
qed

text \<open>A conflict with a granted request stays one as more requests are granted.\<close>

lemma compatible_others_mono:
  assumes "map lr_mode rs' = map lr_mode rs" "\<And>j. j < length rs \<Longrightarrow> granted (rs ! j) \<Longrightarrow> granted (rs' ! j)"
    "\<not> compatible_others mode i rs"
  shows "\<not> compatible_others mode i rs'"
proof -
  have l: "length rs' = length rs" using assms(1) by (metis length_map)
  have "lr_mode (rs' ! j) = lr_mode (rs ! j)" if "j < length rs" for j
    using assms(1) that l by (metis nth_map)
  then show ?thesis using assms l by (auto simp: compatible_others_def)
qed

lemma grant_loop:
  assumes g: "grants_ok rs"
  shows "n \<le> length rs \<Longrightarrow> let rs' = foldl grant_step rs [0..<n] in
    map lr_txn rs' = map lr_txn rs \<and> map lr_mode rs' = map lr_mode rs \<and> grants_ok rs' \<and>
    (\<forall>j < length rs. granted (rs ! j) \<longrightarrow> granted (rs' ! j)) \<and>
    (\<forall>j < n. granted (rs' ! j) \<or> \<not> compatible_others (lr_mode (rs ! j)) j rs')"
proof (induction n)
  case 0
  then show ?case using g by simp
next
  case (Suc n)
  let ?rs = "foldl grant_step rs [0..<n]"
  have IH: "map lr_txn ?rs = map lr_txn rs" "map lr_mode ?rs = map lr_mode rs" "grants_ok ?rs"
    "\<forall>j < length rs. granted (rs ! j) \<longrightarrow> granted (?rs ! j)"
    "\<forall>j < n. granted (?rs ! j) \<or> \<not> compatible_others (lr_mode (rs ! j)) j ?rs"
    using Suc by (simp_all add: Let_def)
  have l: "length ?rs = length rs" using IH(1) by (metis length_map)
  have n: "n < length ?rs" using Suc.prems l by simp
  note s = grant_step_facts [where rs = ?rs and k = n]
  have m: "lr_mode (?rs ! n) = lr_mode (rs ! n)" using IH(2) n l by (metis nth_map)
  have mono: "\<not> compatible_others mode j ?rs \<Longrightarrow> \<not> compatible_others mode j (grant_step ?rs n)" for mode j
    by (rule compatible_others_mono [OF s(3) s(4)])
  have "granted (grant_step ?rs n ! j) \<or> \<not> compatible_others (lr_mode (rs ! j)) j (grant_step ?rs n)" if "j < Suc n" for j
  proof (cases "j = n")
    case True
    then show ?thesis using s(6) [OF n] mono m by auto
  next
    case False
    then show ?thesis using that IH(5) s(4) mono n l by (metis less_SucE less_trans)
  qed
  then show ?case using IH s(1-5) n l by (simp add: Let_def)
qed

text \<open>What a release leaves of a queue.\<close>

lemma queue_ok_others: "queue_ok rs \<Longrightarrow> queue_ok (others txn rs)"
proof -
  assume q: "queue_ok rs"
  have "grants_ok (filter P rs)" if "grants_ok rs" for P
    using that
  proof (induction rs)
    case (Cons x xs)
    have tail: "grants_ok xs" using Cons.prems unfolding grants_ok_def by (metis Suc_less_eq length_Cons nat.inject nth_Cons_Suc)
    have hd: "lock_compatible (lr_mode x) (lr_mode y)" if "y \<in> set xs" "granted x" "granted y" for y
    proof -
      obtain j where "j < length xs" "y = xs ! j" using \<open>y \<in> set xs\<close> by (auto simp: in_set_conv_nth)
      then show ?thesis using Cons.prems that(2,3) unfolding grants_ok_def
        by (metis Suc_less_eq length_Cons nat.distinct(1) nth_Cons_0 nth_Cons_Suc zero_less_Suc)
    qed
    show ?case
    proof (cases "P x")
      case True
      have "grants_ok (x # filter P xs)"
        unfolding grants_ok_def
      proof (intro allI impI)
        fix i j assume ij: "i < length (x # filter P xs)" "j < length (x # filter P xs)" "i \<noteq> j"
          "granted ((x # filter P xs) ! i)" "granted ((x # filter P xs) ! j)"
        have mem: "filter P xs ! k \<in> set xs" if "k < length (filter P xs)" for k
          using nth_mem [OF that] by simp
        show "lock_compatible (lr_mode ((x # filter P xs) ! i)) (lr_mode ((x # filter P xs) ! j))"
          using ij hd mem Cons.IH [OF tail]
          by (cases i; cases j) (auto simp: grants_ok_def lock_compatible_sym [of _ "lr_mode x"])
      qed
      then show ?thesis using True by simp
    next
      case False
      then show ?thesis using Cons.IH [OF tail] by simp
    qed
  qed simp
  then show ?thesis using q by (auto simp: queue_ok_def others_def distinct_map_filter)
qed

lemma queue_release_ok:
  fixes txn :: int
  assumes q: "queue_ok (requests queue)"
  defines "rs \<equiv> requests queue" and "rs' \<equiv> requests (queue_release txn queue)"
  shows "queue_ok rs'" and "map lr_txn rs' = map lr_txn (others txn rs)" and "map lr_mode rs' = map lr_mode (others txn rs)"
    and "\<forall>j < length rs'. granted (others txn rs ! j) \<longrightarrow> granted (rs' ! j)"
    and "\<exists>r \<in> set rs. lr_txn r = txn \<Longrightarrow> \<forall>j < length rs'. granted (rs' ! j) \<or> \<not> compatible_others (lr_mode (rs' ! j)) j rs'"
    and "\<not> (\<exists>r \<in> set rs. lr_txn r = txn) \<Longrightarrow> rs' = rs"
proof -
  let ?o = "others txn rs"
  have o: "queue_ok ?o" using queue_ok_others [OF q] by (simp add: rs_def)
  then have g: "grants_ok ?o" by (simp add: queue_ok_def)
  have rs': "rs' = (if \<exists>r \<in> set rs. lr_txn r = txn then foldl grant_step ?o [0..<length ?o] else ?o)"
    by (simp add: rs'_def queue_release_def rs_def others_def Let_def)
  note loop = grant_loop [OF g, of "length ?o", simplified Let_def]
  have same: "?o = rs" if "\<not> (\<exists>r \<in> set rs. lr_txn r = txn)" using that by (auto simp: others_def intro: filter_True)
  show txns: "map lr_txn rs' = map lr_txn ?o" and modes: "map lr_mode rs' = map lr_mode ?o" using loop rs' by simp_all
  have l: "length rs' = length ?o" using txns by (metis length_map)
  have "grants_ok rs'" using loop g rs' by simp
  then show "queue_ok rs'" using o txns by (simp add: queue_ok_def)
  show "\<forall>j < length rs'. granted (?o ! j) \<longrightarrow> granted (rs' ! j)" using loop rs' l by simp
  show "\<forall>j < length rs'. granted (rs' ! j) \<or> \<not> compatible_others (lr_mode (rs' ! j)) j rs'" if "\<exists>r \<in> set rs. lr_txn r = txn"
  proof (intro allI impI)
    fix j assume j: "j < length rs'"
    then have "lr_mode (rs' ! j) = lr_mode (?o ! j)" using modes l by (metis nth_map)
    then show "granted (rs' ! j) \<or> \<not> compatible_others (lr_mode (rs' ! j)) j rs'" using loop rs' l j that by simp
  qed
  show "rs' = rs" if "\<not> (\<exists>r \<in> set rs. lr_txn r = txn)" using rs' same that by simp
qed

section \<open>The table\<close>

definition lock_view :: "lock_manager \<Rightarrow> int \<Rightarrow> lock_request list" where
  "lock_view lm res = (case int_get (lock_table lm) res of None \<Rightarrow> [] | Some queue \<Rightarrow> requests queue)"

definition lm_ok :: "lock_manager \<Rightarrow> bool" where
  "lm_ok lm \<longleftrightarrow> int_table (lock_table lm) \<and> (\<forall>res. in_range 32 res \<longrightarrow> queue_ok (lock_view lm res))"

lemma lm_init_ok: "lm_ok lock_manager_init" and lock_view_init: "lock_view lock_manager_init res = []"
  by (simp_all add: lm_ok_def lock_manager_init_def int_table_init lock_view_def queue_ok_def grants_ok_def del: int_equal_fn_eq)

lemma has_lock_view: "lock_has_lock lm txn res \<longleftrightarrow> holds (lock_view lm res) txn"
  by (auto simp: lock_has_lock_def lock_view_def int_get_def holds_def split: option.splits)

lemma lock_view_put:
  "int_table (lock_table lm) \<Longrightarrow> in_range 32 res \<Longrightarrow> in_range 32 q \<Longrightarrow>
   lock_view (put_queue lm res queue) q = (if q = res then requests queue else lock_view lm q)"
  by (simp add: lock_view_def put_queue_def int_get_put)

lemma put_queue_table:
  "int_table (lock_table lm) \<Longrightarrow> in_range 32 res \<Longrightarrow> int_table (lock_table (put_queue lm res queue))"
  by (simp add: put_queue_def int_table_put)

lemma find_queue:
  assumes "int_table (lock_table lm)" "in_range 32 res"
  obtains queue lm' where "find_or_create_queue lm res = (queue, lm')" "int_table (lock_table lm')"
    "requests queue = lock_view lm res" "\<And>q. in_range 32 q \<Longrightarrow> lock_view lm' q = lock_view lm q"
proof (cases "hashmap_get (lock_table lm) (int_key res)")
  case None
  let ?q = "\<lparr>requests = [], request_capacity = 0\<rparr>"
  have v: "lock_view lm res = []" using None by (simp add: lock_view_def int_get_def)
  show ?thesis
  proof (rule that [of ?q "put_queue lm res ?q"])
    show "find_or_create_queue lm res = (?q, put_queue lm res ?q)"
      using None by (simp add: find_or_create_queue_def put_queue_def Let_def)
    show "lock_view (put_queue lm res ?q) q = lock_view lm q" if "in_range 32 q" for q
      using lock_view_put [OF assms that] v by simp
  qed (use put_queue_table [OF assms] v in simp_all)
next
  case (Some queue)
  then show ?thesis using that [of queue lm] assms by (simp add: find_or_create_queue_def lock_view_def int_get_def)
qed

lemma release_one_view:
  assumes t: "int_table (lock_table lm)" "in_range 32 res" "in_range 32 q"
  shows "int_table (lock_table (release_one txn lm res))"
    and "lock_view (release_one txn lm res) q =
      (if q = res then (case int_get (lock_table lm) res of None \<Rightarrow> [] | Some queue \<Rightarrow> requests (queue_release txn queue))
       else lock_view lm q)"
    and "int_get (lock_table (release_one txn lm res)) q =
      (if q = res then map_option (queue_release txn) (int_get (lock_table lm) res) else int_get (lock_table lm) q)"
proof (atomize (full), cases "int_get (lock_table lm) res")
  case None
  then show "int_table (lock_table (release_one txn lm res)) \<and>
    lock_view (release_one txn lm res) q =
      (if q = res then (case int_get (lock_table lm) res of None \<Rightarrow> [] | Some queue \<Rightarrow> requests (queue_release txn queue))
       else lock_view lm q) \<and>
    int_get (lock_table (release_one txn lm res)) q =
      (if q = res then map_option (queue_release txn) (int_get (lock_table lm) res) else int_get (lock_table lm) q)"
    using t by (auto simp: release_one_def int_get_def lock_view_def)
next
  case (Some queue)
  then have r: "release_one txn lm res = put_queue lm res (queue_release txn queue)"
    by (simp add: release_one_def int_get_def)
  show "int_table (lock_table (release_one txn lm res)) \<and>
    lock_view (release_one txn lm res) q =
      (if q = res then (case int_get (lock_table lm) res of None \<Rightarrow> [] | Some queue \<Rightarrow> requests (queue_release txn queue))
       else lock_view lm q) \<and>
    int_get (lock_table (release_one txn lm res)) q =
      (if q = res then map_option (queue_release txn) (int_get (lock_table lm) res) else int_get (lock_table lm) q)"
    using put_queue_table [OF t(1,2)] lock_view_put [OF t] int_get_put [OF t] Some unfolding r by (simp add: put_queue_def)
qed

lemma release_fold:
  "int_table (lock_table lm) \<Longrightarrow> \<forall>r \<in> set rids. in_range 32 r \<Longrightarrow> distinct rids \<Longrightarrow> in_range 32 q \<Longrightarrow>
   int_table (lock_table (foldl (release_one txn) lm rids)) \<and>
   int_get (lock_table (foldl (release_one txn) lm rids)) q =
     (if q \<in> set rids then map_option (queue_release txn) (int_get (lock_table lm) q) else int_get (lock_table lm) q)"
proof (induction rids arbitrary: lm)
  case (Cons r rids)
  have t: "int_table (lock_table (release_one txn lm r))" using release_one_view(1) Cons.prems by simp
  have g: "int_get (lock_table (release_one txn lm r)) q =
      (if q = r then map_option (queue_release txn) (int_get (lock_table lm) r) else int_get (lock_table lm) q)"
    using release_one_view(3) [of lm r q] Cons.prems by simp
  have IH: "int_table (lock_table (foldl (release_one txn) (release_one txn lm r) rids)) \<and>
      int_get (lock_table (foldl (release_one txn) (release_one txn lm r) rids)) q =
        (if q \<in> set rids then map_option (queue_release txn) (int_get (lock_table (release_one txn lm r)) q)
         else int_get (lock_table (release_one txn lm r)) q)"
    by (rule Cons.IH [OF t]) (use Cons.prems in simp_all)
  show ?case using IH Cons.prems(3) g by (cases "q = r") simp_all
qed simp

lemma hashmap_keys_distinct:
  assumes t: "int_table m"
  shows "distinct (hashmap_keys m)"
proof -
  have hm: "hm_ok m" using t by (simp add: int_table_def)
  have "inj_on key_int (dom (hashmap_get m))"
  proof (rule inj_onI)
    fix x y assume "x \<in> dom (hashmap_get m)" "y \<in> dom (hashmap_get m)" and eq: "key_int x = key_int y"
    then obtain i j where "in_range 32 i" "x = int_key i" "in_range 32 j" "y = int_key j"
      using t unfolding int_table_def by blast
    then show "x = y" using eq key_int_key [of i] key_int_key [of j] by simp
  qed
  then have "inj_on key_int (fst ` set (hm_entries m))" unfolding hm.keys_entries [OF hm] .
  then have inj: "inj_on key_int (set (map fst (hm_entries m)))" by simp
  have d: "distinct (map fst (hm_entries m))" by (rule hm.entries_distinct [OF hm])
  have "hashmap_keys m = map key_int (map fst (hm_entries m))" using hashmap_keys_entries [OF hm] by simp
  moreover have "distinct (map key_int (map fst (hm_entries m)))"
    using d inj by (subst distinct_map) blast
  ultimately show ?thesis by simp
qed

lemma release_all_view:
  assumes t: "int_table (lock_table lm)" and q: "in_range 32 q"
  shows "int_table (lock_table (lock_release_all lm txn))"
    and "int_get (lock_table (lock_release_all lm txn)) q = map_option (queue_release txn) (int_get (lock_table lm) q)"
proof -
  have k: "\<forall>r \<in> set (hashmap_keys (lock_table lm)). in_range 32 r" using hashmap_keys_set [OF t] by auto
  note f = release_fold [OF t k hashmap_keys_distinct [OF t] q, of txn]
  show "int_table (lock_table (lock_release_all lm txn))" using f by (simp add: lock_release_all_def)
  show "int_get (lock_table (lock_release_all lm txn)) q = map_option (queue_release txn) (int_get (lock_table lm) q)"
    using f hashmap_keys_set [OF t] q by (auto simp: lock_release_all_def split: if_splits)
qed

lemma lock_acquire_view:
  assumes t: "int_table (lock_table lm)" "in_range 32 res"
  obtains queue lm' where "lock_acquire lm txn res mode = (fst (queue_acquire queue txn mode), lm')"
    "requests queue = lock_view lm res" "int_table (lock_table lm')"
    "\<And>q. in_range 32 q \<Longrightarrow>
       lock_view lm' q = (if q = res then requests (snd (queue_acquire queue txn mode)) else lock_view lm q)"
proof -
  obtain queue lm1 where f: "find_or_create_queue lm res = (queue, lm1)" "int_table (lock_table lm1)"
    "requests queue = lock_view lm res" "\<And>q. in_range 32 q \<Longrightarrow> lock_view lm1 q = lock_view lm q"
    using find_queue [OF t] by blast
  show ?thesis
  proof (rule that [of queue "put_queue lm1 res (snd (queue_acquire queue txn mode))"])
    show "lock_acquire lm txn res mode = (fst (queue_acquire queue txn mode), put_queue lm1 res (snd (queue_acquire queue txn mode)))"
      using f(1) by (simp add: lock_acquire_def split: prod.split)
  qed (use f t lock_view_put [OF f(2) t(2)] put_queue_table [OF f(2) t(2)] in simp_all)
qed

section \<open>Properties\<close>

text \<open>C39. \<open>lock_acquire\<close> on a table whose granted locks are pairwise compatible: it answers DB_OK exactly
  when the transaction already holds a lock on the resource, whatever its mode, or the mode is compatible with every lock
  granted to others, and DB_LOCK_CONFLICT otherwise; afterwards the transaction holds a lock exactly
  when the answer was DB_OK; the requests of other transactions and the other resources are
  unchanged; and the granted locks stay pairwise compatible if the request is safe: it does not ask to upgrade a held
  lock to a mode that conflicts with another holder. Such an upgrade is answered DB_OK as well, and breaks the compatibility
  (\<open>lock_upgrade_unchecked\<close>).\<close>

theorem lock_acquire_spec:
  assumes ok: "lm_ok lm" and res: "in_range 32 res"
  shows "\<exists>rc lm'. lock_acquire lm txn res mode = (rc, lm') \<and> (rc = DB_OK \<or> rc = DB_LOCK_CONFLICT) \<and>
    (rc = DB_OK \<longleftrightarrow> lock_has_lock lm txn res \<or> compatible_all mode (others txn (lock_view lm res))) \<and>
    (rc = DB_OK \<longleftrightarrow> lock_has_lock lm' txn res) \<and>
    others txn (lock_view lm' res) = others txn (lock_view lm res) \<and>
    (\<forall>q. in_range 32 q \<longrightarrow> q \<noteq> res \<longrightarrow> lock_view lm' q = lock_view lm q) \<and>
    (safe_request (lock_view lm res) txn mode \<longrightarrow> lm_ok lm')"
proof -
  have t: "int_table (lock_table lm)" and q: "queue_ok (lock_view lm res)" using ok res by (simp_all add: lm_ok_def)
  obtain queue lm' where a: "lock_acquire lm txn res mode = (fst (queue_acquire queue txn mode), lm')"
    "requests queue = lock_view lm res" "int_table (lock_table lm')"
    "\<And>q. in_range 32 q \<Longrightarrow> lock_view lm' q = (if q = res then requests (snd (queue_acquire queue txn mode)) else lock_view lm q)"
    by (rule lock_acquire_view [OF t res, of txn mode]) blast
  have q': "queue_ok (requests queue)" using q a(2) by simp
  obtain rc queue' where s: "queue_acquire queue txn mode = (rc, queue')" "rc = DB_OK \<or> rc = DB_LOCK_CONFLICT"
    "rc = DB_OK \<longleftrightarrow> holds (requests queue') txn"
    "rc = DB_OK \<longleftrightarrow> holds (requests queue) txn \<or> compatible_all mode (others txn (requests queue))"
    "others txn (requests queue') = others txn (requests queue)"
    "safe_request (requests queue) txn mode \<Longrightarrow> queue_ok (requests queue')"
    using queue_acquire_ok [OF q'] by blast
  have v: "lock_view lm' p = (if p = res then requests queue' else lock_view lm p)" if "in_range 32 p" for p
    using a(4) [OF that] s(1) by simp
  have "lm_ok lm'" if "safe_request (lock_view lm res) txn mode"
    using that s(6) a(2,3) ok unfolding lm_ok_def by (auto simp: v)
  then show ?thesis
    using a(1,2) s(1-5) v res by (intro exI [of _ rc] exI [of _ lm']) (auto simp: has_lock_view)
qed

definition demo_locks :: lock_manager where
  "demo_locks = snd (lock_acquire (snd (lock_acquire lock_manager_init 1 7 LOCK_SHARED)) 2 7 LOCK_SHARED)"

lemma demo_locks_ok: "lm_ok demo_locks \<and>
  lock_view demo_locks 7 = [\<lparr>lr_txn = 1, lr_mode = LOCK_SHARED, granted = True\<rparr>, \<lparr>lr_txn = 2, lr_mode = LOCK_SHARED, granted = True\<rparr>]"
proof -
  have r: "in_range 32 7" by (simp add: in_range_def)
  let ?lm1 = "snd (lock_acquire lock_manager_init 1 7 LOCK_SHARED)"
  have t0: "int_table (lock_table lock_manager_init)" using lm_init_ok by (simp add: lm_ok_def)
  obtain q1 lm1 where a1: "lock_acquire lock_manager_init 1 7 LOCK_SHARED = (fst (queue_acquire q1 1 LOCK_SHARED), lm1)"
    "requests q1 = lock_view lock_manager_init 7" "int_table (lock_table lm1)"
    "\<And>q. in_range 32 q \<Longrightarrow> lock_view lm1 q = (if q = 7 then requests (snd (queue_acquire q1 1 LOCK_SHARED)) else lock_view lock_manager_init q)"
    by (rule lock_acquire_view [OF t0 r, of 1 LOCK_SHARED]) blast
  have v1: "lock_view lm1 7 = [\<lparr>lr_txn = 1, lr_mode = LOCK_SHARED, granted = True\<rparr>]"
    using a1(2,4) r by (simp add: lock_view_init queue_acquire_def Let_def compatible_all_def)
  obtain q2 lm2 where a2: "lock_acquire lm1 2 7 LOCK_SHARED = (fst (queue_acquire q2 2 LOCK_SHARED), lm2)"
    "requests q2 = lock_view lm1 7" "int_table (lock_table lm2)"
    "\<And>q. in_range 32 q \<Longrightarrow> lock_view lm2 q = (if q = 7 then requests (snd (queue_acquire q2 2 LOCK_SHARED)) else lock_view lm1 q)"
    by (rule lock_acquire_view [OF a1(3) r, of 2 LOCK_SHARED]) blast
  have v2: "lock_view lm2 7 = [\<lparr>lr_txn = 1, lr_mode = LOCK_SHARED, granted = True\<rparr>, \<lparr>lr_txn = 2, lr_mode = LOCK_SHARED, granted = True\<rparr>]"
    using a2(2,4) r v1 by (simp add: queue_acquire_def Let_def compatible_all_def)
  have eq: "demo_locks = lm2" using a1(1) a2(1) by (simp add: demo_locks_def)
  have "queue_ok (lock_view lm2 q)" if q: "in_range 32 q" for q
  proof (cases "q = 7")
    case True
    then show ?thesis unfolding True v2 queue_ok_def grants_ok_def by (auto simp: less_Suc_eq nth_Cons')
  next
    case False
    then have "lock_view lm2 q = []" using a1(4) [OF q] a2(4) [OF q] by (simp add: lock_view_init)
    then show ?thesis by (simp add: queue_ok_def grants_ok_def)
  qed
  then show ?thesis using a2(3) v2 eq by (simp add: lm_ok_def)
qed

theorem lock_acquire_spec_witness:
  "fst (lock_acquire demo_locks 3 7 LOCK_EXCLUSIVE) = DB_LOCK_CONFLICT"
proof -
  have ok: "lm_ok demo_locks" and r: "in_range 32 7" using demo_locks_ok by (simp_all add: in_range_def)
  show ?thesis
    using lock_acquire_spec [OF ok r, of 3 LOCK_EXCLUSIVE] demo_locks_ok
    by (auto simp: has_lock_view holds_def compatible_all_def others_def)
qed

text \<open>\<open>lock_release_all\<close>: afterwards the transaction has no request anywhere; the other requests keep
  their order and their modes, and those granted stay granted; the granted locks are still pairwise
  compatible; and on every resource where the transaction had a request, each request that still
  waits conflicts with a granted one, so no waiter that could run is left behind.\<close>

theorem lock_release_all_spec:
  assumes ok: "lm_ok lm"
  shows "lm_ok (lock_release_all lm txn) \<and>
    (\<forall>res. in_range 32 res \<longrightarrow>
      (let rs = lock_view lm res; rs' = lock_view (lock_release_all lm txn) res in
        \<not> lock_has_lock (lock_release_all lm txn) txn res \<and>
        map lr_txn rs' = filter (\<lambda>t. t \<noteq> txn) (map lr_txn rs) \<and>
        map lr_mode rs' = map lr_mode (others txn rs) \<and>
        (\<forall>j < length rs'. granted (others txn rs ! j) \<longrightarrow> granted (rs' ! j)) \<and>
        (txn \<in> set (map lr_txn rs) \<longrightarrow>
          (\<forall>j < length rs'. granted (rs' ! j) \<or> \<not> compatible_others (lr_mode (rs' ! j)) j rs'))))"
proof -
  have t: "int_table (lock_table lm)" using ok by (simp add: lm_ok_def)
  let ?lm = "lock_release_all lm txn"
  have main: "queue_ok (lock_view ?lm res) \<and>
      map lr_txn (lock_view ?lm res) = map lr_txn (others txn (lock_view lm res)) \<and>
      map lr_mode (lock_view ?lm res) = map lr_mode (others txn (lock_view lm res)) \<and>
      (\<forall>j < length (lock_view ?lm res). granted (others txn (lock_view lm res) ! j) \<longrightarrow> granted (lock_view ?lm res ! j)) \<and>
      ((\<exists>r \<in> set (lock_view lm res). lr_txn r = txn) \<longrightarrow>
        (\<forall>j < length (lock_view ?lm res). granted (lock_view ?lm res ! j) \<or>
           \<not> compatible_others (lr_mode (lock_view ?lm res ! j)) j (lock_view ?lm res)))"
    if r: "in_range 32 res" for res
  proof (cases "int_get (lock_table lm) res")
    case None
    then have "lock_view lm res = []" "lock_view ?lm res = []" using release_all_view(2) [OF t r, of txn] by (simp_all add: lock_view_def)
    then show ?thesis by (simp add: queue_ok_def grants_ok_def others_def)
  next
    case (Some queue)
    then have v: "lock_view lm res = requests queue" "lock_view ?lm res = requests (queue_release txn queue)"
      using release_all_view(2) [OF t r, of txn] by (simp_all add: lock_view_def)
    have q: "queue_ok (requests queue)" using ok r v(1) by (auto simp: lm_ok_def)
    show ?thesis unfolding v using queue_release_ok [OF q, of txn] by blast
  qed
  have f: "map lr_txn (others txn rs) = filter (\<lambda>t. t \<noteq> txn) (map lr_txn rs)" for rs
    by (induction rs) (simp_all add: others_def)
  have "lm_ok ?lm" using main release_all_view(1) [OF t, of 0 txn] in_range_def by (auto simp: lm_ok_def)
  moreover have "\<not> lock_has_lock ?lm txn res" if r: "in_range 32 res" for res
  proof
    assume "lock_has_lock ?lm txn res"
    then have "txn \<in> set (map lr_txn (lock_view ?lm res))" by (auto simp: has_lock_view holds_def)
    then show False using main [OF r] f by simp
  qed
  ultimately show ?thesis using main f by (auto simp: Let_def)
qed

theorem lock_release_all_spec_witness:
  "lock_has_lock demo_locks 1 7 \<and> \<not> lock_has_lock (lock_release_all demo_locks 1) 1 7 \<and>
   lock_has_lock (lock_release_all demo_locks 1) 2 7"
proof -
  have ok: "lm_ok demo_locks" and r: "in_range 32 7" using demo_locks_ok by (simp_all add: in_range_def)
  note s = lock_release_all_spec [OF ok, of 1, THEN conjunct2, rule_format, OF r, unfolded Let_def]
  let ?v = "lock_view (lock_release_all demo_locks 1) 7"
  have m: "map lr_txn ?v = [2]" using s demo_locks_ok by simp
  then obtain x where x: "?v = [x]" "lr_txn x = 2" by (cases ?v) auto
  have "granted (?v ! 0)" using s demo_locks_ok x by (simp add: others_def)
  then show ?thesis using s demo_locks_ok x by (auto simp: has_lock_view holds_def)
qed

text \<open>An upgrade is granted without looking at the other holders: if two transactions hold shared
  locks on a resource, either may ask for the exclusive lock and is told DB_OK, and then an exclusive
  and a shared lock are held at once. And since the modes are compared by number, a holder of the
  exclusive lock that asks for an intention lock is moved down to it, after which another
  transaction's intention lock is granted as well.\<close>

theorem lock_upgrade_unchecked:
  assumes ok: "lm_ok lm" and res: "in_range 32 res" and i: "i < length (lock_view lm res)" "granted (lock_view lm res ! i)"
    and new: "mode_num mode > mode_num (lr_mode (lock_view lm res ! i))"
  shows "\<exists>lm'. lock_acquire lm (lr_txn (lock_view lm res ! i)) res mode = (DB_OK, lm') \<and>
    lock_view lm' res = (lock_view lm res)[i := (lock_view lm res ! i)\<lparr>lr_mode := mode\<rparr>] \<and>
    ((\<exists>j < length (lock_view lm res). j \<noteq> i \<and> granted (lock_view lm res ! j) \<and> \<not> lock_compatible mode (lr_mode (lock_view lm res ! j)))
      \<longrightarrow> \<not> grants_ok (lock_view lm' res))"
proof -
  let ?rs = "lock_view lm res"
  have t: "int_table (lock_table lm)" and q: "queue_ok ?rs" using ok res by (simp_all add: lm_ok_def)
  have own: "own_request (lr_txn (?rs ! i)) ?rs = Some i"
  proof (cases "own_request (lr_txn (?rs ! i)) ?rs")
    case None
    then show ?thesis using i by (auto simp: own_request_None)
  next
    case (Some k)
    then have "k < length ?rs" "lr_txn (?rs ! k) = lr_txn (?rs ! i)" using own_request_Some by blast+
    then have "k = i" using q i nth_eq_iff_index_eq [of "map lr_txn ?rs" k i] by (simp add: queue_ok_def)
    then show ?thesis using Some by simp
  qed
  obtain queue lm' where a: "lock_acquire lm (lr_txn (?rs ! i)) res mode = (fst (queue_acquire queue (lr_txn (?rs ! i)) mode), lm')"
    "requests queue = ?rs"
    "\<And>q. in_range 32 q \<Longrightarrow> lock_view lm' q =
      (if q = res then requests (snd (queue_acquire queue (lr_txn (?rs ! i)) mode)) else lock_view lm q)"
    by (rule lock_acquire_view [OF t res, of "lr_txn (?rs ! i)" mode]) blast
  have qa: "queue_acquire queue (lr_txn (?rs ! i)) mode = (DB_OK, queue\<lparr>requests := ?rs[i := (?rs ! i)\<lparr>lr_mode := mode\<rparr>]\<rparr>)"
    using own i(2) new by (simp add: queue_acquire_def a(2) Let_def)
  have v: "lock_view lm' res = ?rs[i := (?rs ! i)\<lparr>lr_mode := mode\<rparr>]" using a(3) [OF res] qa by simp
  have "\<not> grants_ok (lock_view lm' res)"
    if j: "j < length ?rs" "j \<noteq> i" "granted (?rs ! j)" "\<not> lock_compatible mode (lr_mode (?rs ! j))" for j
  proof
    assume g: "grants_ok (lock_view lm' res)"
    have "granted (lock_view lm' res ! i)" "granted (lock_view lm' res ! j)" "lr_mode (lock_view lm' res ! i) = mode"
      "lock_view lm' res ! j = ?rs ! j" using v i j by simp_all
    moreover have "i < length (lock_view lm' res)" "j < length (lock_view lm' res)" using v i(1) j(1) by simp_all
    ultimately have "lock_compatible mode (lr_mode (?rs ! j))" using g j(2) unfolding grants_ok_def by metis
    then show False using j(4) by simp
  qed
  then show ?thesis using a(1) qa v by auto
qed

theorem lock_upgrade_unchecked_witness:
  "\<exists>lm'. lock_acquire demo_locks 1 7 LOCK_EXCLUSIVE = (DB_OK, lm') \<and> \<not> grants_ok (lock_view lm' 7)"
proof -
  have ok: "lm_ok demo_locks" and r: "in_range 32 7" using demo_locks_ok by (simp_all add: in_range_def)
  have i: "0 < length (lock_view demo_locks 7)" "granted (lock_view demo_locks 7 ! 0)"
    "mode_num LOCK_EXCLUSIVE > mode_num (lr_mode (lock_view demo_locks 7 ! 0))" using demo_locks_ok by simp_all
  have j: "\<exists>j < length (lock_view demo_locks 7). j \<noteq> 0 \<and> granted (lock_view demo_locks 7 ! j) \<and>
      \<not> lock_compatible LOCK_EXCLUSIVE (lr_mode (lock_view demo_locks 7 ! j))"
    using demo_locks_ok by (intro exI [of _ 1]) simp
  have tx: "lr_txn (lock_view demo_locks 7 ! 0) = 1" using demo_locks_ok by simp
  show ?thesis using lock_upgrade_unchecked [OF ok r i, unfolded tx] j by blast
qed

end
