(* ===== verification/Wal.thy ===== *)
theory Wal
  imports Prelude_Db
begin

text \<open>
  The write-ahead log of \<open>src/transaction/wal_manager.c\<close>. The log file is the list of its bytes with
  the one position that reads and writes share; \<open>log_synced\<close> is what has certainly left the stdio
  buffer, that is the contents at the last \<open>fflush\<close>. A write that C leaves undefined (a write after
  a read that did not end at the end of the file, without a seek) is taken to write at the position.
  LSNs, transaction and page ids are 32-bit ints, the slot is a 16-bit int and the sizes of the
  images are unsigned 16-bit; allocation and writes to the file are taken to succeed.
\<close>

section \<open>Records and the manager\<close>

datatype wal_record_type =
  WAL_BEGIN | WAL_COMMIT | WAL_ABORT | WAL_UPDATE | WAL_DELETE | WAL_INSERT | WAL_CHECKPOINT | WAL_CLR

fun type_num :: "wal_record_type \<Rightarrow> int" where
  "type_num WAL_BEGIN = 0"
| "type_num WAL_COMMIT = 1"
| "type_num WAL_ABORT = 2"
| "type_num WAL_UPDATE = 3"
| "type_num WAL_DELETE = 4"
| "type_num WAL_INSERT = 5"
| "type_num WAL_CHECKPOINT = 6"
| "type_num WAL_CLR = 7"

text \<open>The type is the number that was read, which need not be one of the enumerators; an image is
  None for NULL.\<close>

record wal_record =
  wr_lsn :: int
  wr_txn :: int
  wr_prev :: int
  wr_type :: int
  wr_length :: nat
  wr_page :: int
  wr_offset :: int
  before_image :: "byte list option"
  after_image :: "byte list option"
  before_size :: nat
  after_size :: nat

definition zero_record :: wal_record where
  "zero_record = \<lparr>wr_lsn = 0, wr_txn = 0, wr_prev = 0, wr_type = 0, wr_length = 0, wr_page = 0, wr_offset = 0,
     before_image = None, after_image = None, before_size = 0, after_size = 0\<rparr>"

record wal_manager =
  log :: "byte list"
  log_pos :: nat
  log_synced :: "byte list"
  current_lsn :: int
  flushed_lsn :: int

text \<open>\<open>fopen(log_path, "wb+")\<close>: when it succeeds the file is empty, whatever it held.\<close>

definition wal_manager_init :: "bool \<Rightarrow> byte list \<Rightarrow> error_code + wal_manager" where
  "wal_manager_init opens old_file =
     (if opens then Inr \<lparr>log = [], log_pos = 0, log_synced = [], current_lsn = 1, flushed_lsn = 0\<rparr>
      else Inl DB_IO_ERROR)"

text \<open>\<open>fclose\<close> writes out the buffer: the contents of the file after it.\<close>

definition wal_manager_destroy :: "wal_manager \<Rightarrow> byte list" where
  "wal_manager_destroy wm = log wm"

definition wal_record_destroy :: "wal_record \<Rightarrow> wal_record" where
  "wal_record_destroy rec = rec\<lparr>before_image := None, after_image := None\<rparr>"

section \<open>Writing\<close>

definition log_write :: "byte list \<Rightarrow> wal_manager \<Rightarrow> wal_manager" where
  "log_write bs wm =
     wm\<lparr>log := take (log_pos wm) (log wm) @ bs @ drop (log_pos wm + length bs) (log wm),
        log_pos := log_pos wm + length bs\<rparr>"

definition int32_bytes :: "int list \<Rightarrow> byte list" where
  "int32_bytes is = concat (map (\<lambda>i. le_bytes 4 (pattern 32 i)) is)"

definition int16_bytes :: "nat list \<Rightarrow> byte list" where
  "int16_bytes ns = concat (map (le_bytes 2) ns)"

definition image_bytes :: "nat \<Rightarrow> byte list option \<Rightarrow> byte list" where
  "image_bytes n img = (case img of Some bs \<Rightarrow> if n > 0 then take n bs else [] | None \<Rightarrow> [])"

definition wal_append :: "wal_manager \<Rightarrow> wal_record \<Rightarrow> int \<times> wal_manager" where
  "wal_append wm rec =
     (let lsn = current_lsn wm;
          wm = wm\<lparr>current_lsn := lsn + 1\<rparr>;
          wm = log_write (int32_bytes [lsn, wr_txn rec, wr_prev rec, wr_type rec, wr_page rec, wr_offset rec]) wm;
          wm = log_write (int16_bytes [before_size rec, after_size rec]) wm;
          wm = log_write (image_bytes (before_size rec) (before_image rec)) wm;
          wm = log_write (image_bytes (after_size rec) (after_image rec)) wm
      in (lsn, wm))"

definition wal_flush :: "wal_manager \<Rightarrow> int \<Rightarrow> error_code \<times> wal_manager" where
  "wal_flush wm up_to =
     (DB_OK, wm\<lparr>log_synced := log wm, flushed_lsn := (if up_to > flushed_lsn wm then up_to else flushed_lsn wm)\<rparr>)"

definition wal_current_lsn :: "wal_manager \<Rightarrow> int" where
  "wal_current_lsn wm = current_lsn wm"

section \<open>Reading\<close>

definition wal_reset_read :: "wal_manager \<Rightarrow> wal_manager" where
  "wal_reset_read wm = wm\<lparr>log_pos := 0\<rparr>"

text \<open>\<open>fread\<close> of n bytes: what there is of them.\<close>

definition log_read :: "nat \<Rightarrow> wal_manager \<Rightarrow> byte list \<times> wal_manager" where
  "log_read n wm =
     (let bs = take n (drop (log_pos wm) (log wm)) in (bs, wm\<lparr>log_pos := log_pos wm + length bs\<rparr>))"

definition int32_at :: "byte list \<Rightarrow> nat \<Rightarrow> int" where
  "int32_at bs k = to_signed 32 (le_nat (take 4 (drop (4 * k) bs)))"

definition int16_at :: "byte list \<Rightarrow> nat \<Rightarrow> nat" where
  "int16_at bs k = le_nat (take 2 (drop (2 * k) bs))"

text \<open>The result of reading an image is not checked: when the file ends inside it the rest of the
  block is uninitialised, and the list holds the bytes that were read.\<close>

definition read_image :: "nat \<Rightarrow> wal_manager \<Rightarrow> byte list option \<times> wal_manager" where
  "read_image n wm = (if n > 0 then let (bs, wm) = log_read n wm in (Some bs, wm) else (None, wm))"

definition wal_read_next :: "wal_manager \<Rightarrow> error_code \<times> wal_record \<times> wal_manager" where
  "wal_read_next wm =
     (let (buf, wm) = log_read 24 wm in
      if length buf < 24 then (DB_PAGE_NOT_FOUND, zero_record, wm)
      else
        let out = zero_record
              \<lparr>wr_lsn := int32_at buf 0, wr_txn := int32_at buf 1, wr_prev := int32_at buf 2,
               wr_type := int32_at buf 3, wr_page := int32_at buf 4,
               wr_offset := to_signed 16 (u16 (pattern 32 (int32_at buf 5)))\<rparr>;
            (sizes, wm) = log_read 4 wm in
        if length sizes < 4 then (DB_IO_ERROR, out, wm)
        else
          let out = out\<lparr>before_size := int16_at sizes 0, after_size := int16_at sizes 1\<rparr>;
              (before, wm) = read_image (before_size out) wm;
              (after, wm) = read_image (after_size out) wm
          in (DB_OK, out\<lparr>before_image := before, after_image := after\<rparr>, wm))"

lemma log_read_simps [simp]:
  "fst (log_read n wm) = take n (drop (log_pos wm) (log wm))"
  "snd (log_read n wm) = wm\<lparr>log_pos := log_pos wm + min n (length (log wm) - log_pos wm)\<rparr>"
  by (simp_all add: log_read_def Let_def min.commute)

lemma read_image_snd:
  "snd (read_image n wm) = wm\<lparr>log_pos := log_pos wm + min n (length (log wm) - log_pos wm)\<rparr>"
  by (simp add: read_image_def case_prod_beta)

text \<open>A successful read moves the position forward inside the file; nothing else changes.\<close>

lemma wal_read_next_frame: "snd (snd (wal_read_next wm)) = wm\<lparr>log_pos := log_pos (snd (snd (wal_read_next wm)))\<rparr>"
  by (simp add: wal_read_next_def Let_def case_prod_beta read_image_snd)

lemma wal_read_next_pos:
  "fst (wal_read_next wm) = DB_OK \<Longrightarrow>
   log_pos wm + 28 \<le> log_pos (snd (snd (wal_read_next wm))) \<and> log_pos (snd (snd (wal_read_next wm))) \<le> length (log wm)"
  by (auto simp: wal_read_next_def Let_def case_prod_beta read_image_snd split: if_splits)

lemma wal_read_next_moves:
  assumes "wal_read_next wm = (DB_OK, rec, wm')"
  shows "log_pos wm + 28 \<le> log_pos wm' \<and> log_pos wm' \<le> length (log wm) \<and> wm' = wm\<lparr>log_pos := log_pos wm'\<rparr>"
  using wal_read_next_frame [of wm] wal_read_next_pos [of wm] assms by simp

text \<open>\<open>while (wal_read_next(wal, &rec) == DB_OK) body\<close>: it ends, since each read record takes at
  least 28 bytes.\<close>

function wal_scan :: "(wal_record \<Rightarrow> 's \<Rightarrow> 's) \<Rightarrow> wal_manager \<Rightarrow> 's \<Rightarrow> 's \<times> wal_manager" where
  "wal_scan body wm s =
     (case wal_read_next wm of
        (rc, rec, wm') \<Rightarrow> if rc = DB_OK then wal_scan body wm' (body rec s) else (s, wm'))"
  by pat_completeness auto
termination
proof (relation "measure (\<lambda>(body, wm, s). length (log wm) - log_pos wm)", goal_cases)
  case (2 body wm s rc y rec wm')
  then have "wal_read_next wm = (DB_OK, rec, wm')" by simp
  from wal_read_next_moves [OF this] have "log_pos wm + 28 \<le> log_pos wm'" "log_pos wm' \<le> length (log wm)"
    "log wm' = log wm" by (simp_all, metis wal_manager.select_convs(1) wal_manager.surjective wal_manager.update_convs(2))
  then show ?case by simp
qed simp

declare wal_scan.simps [simp del]

section \<open>What is written is read back\<close>

lemma concat_uniform:
  "(\<And>x. length (f x) = n) \<Longrightarrow> k < length xs \<Longrightarrow> take n (drop (n * k) (concat (map f xs))) = f (xs ! k)"
proof (induction xs arbitrary: k)
  case (Cons x xs)
  then show ?case
  proof (cases k)
    case (Suc j)
    have "drop (n * k) (f x @ concat (map f xs)) = drop (n * j) (concat (map f xs))"
      by (simp add: Suc Cons.prems(1))
    then show ?thesis using Cons Suc by simp
  qed simp
qed simp

lemma length_concat_uniform: "(\<And>x. length (f x) = n) \<Longrightarrow> length (concat (map f xs)) = n * length xs"
  by (induction xs) simp_all

lemma int32_at_bytes [simp]: "k < length is \<Longrightarrow> in_range 32 (is ! k) \<Longrightarrow> int32_at (int32_bytes is) k = is ! k"
  using concat_uniform [of "\<lambda>i. le_bytes 4 (pattern 32 i)" 4 k "is"] pattern_less [of 32 "is ! k"]
  by (simp add: int32_at_def int32_bytes_def le_nat_le_bytes int_simps)

lemma int16_at_bytes [simp]: "k < length ns \<Longrightarrow> ns ! k < 65536 \<Longrightarrow> int16_at (int16_bytes ns) k = ns ! k"
  using concat_uniform [of "le_bytes 2" 2 k ns] by (simp add: int16_at_def int16_bytes_def le_nat_le_bytes)

lemma length_int_bytes [simp]:
  "length (int32_bytes is) = 4 * length is"
  "length (int16_bytes ns) = 2 * length ns"
  by (simp_all add: int32_bytes_def int16_bytes_def length_concat_uniform)

lemma offset_round_trip:
  assumes "in_range 16 i"
  shows "to_signed 16 (u16 (pattern 32 i)) = i"
proof -
  have "u16 (pattern 32 i) = nat (i mod 4294967296 mod 65536)" by (simp add: u16_def pattern_def nat_mod_distrib)
  also have "i mod 4294967296 mod 65536 = i mod 65536" by (simp add: mod_mod_cancel)
  finally show ?thesis using signed_pattern [of 16 i] assms by (simp add: pattern_def)
qed

definition image_ok :: "nat \<Rightarrow> byte list option \<Rightarrow> bool" where
  "image_ok n img \<longleftrightarrow> n < 65536 \<and> (case img of None \<Rightarrow> n = 0 | Some bs \<Rightarrow> n > 0 \<and> length bs = n)"

definition rec_ok :: "wal_record \<Rightarrow> bool" where
  "rec_ok rec \<longleftrightarrow> in_range 32 (wr_txn rec) \<and> in_range 32 (wr_prev rec) \<and> in_range 32 (wr_type rec) \<and>
     in_range 32 (wr_page rec) \<and> in_range 16 (wr_offset rec) \<and>
     image_ok (before_size rec) (before_image rec) \<and> image_ok (after_size rec) (after_image rec)"

definition wal_bytes :: "int \<Rightarrow> wal_record \<Rightarrow> byte list" where
  "wal_bytes lsn rec =
     int32_bytes [lsn, wr_txn rec, wr_prev rec, wr_type rec, wr_page rec, wr_offset rec] @
     int16_bytes [before_size rec, after_size rec] @
     image_bytes (before_size rec) (before_image rec) @ image_bytes (after_size rec) (after_image rec)"

definition logged :: "int \<Rightarrow> wal_record \<Rightarrow> wal_record" where
  "logged lsn rec = rec\<lparr>wr_lsn := lsn, wr_length := 0\<rparr>"

lemma image_bytes_length [simp]: "image_ok n img \<Longrightarrow> length (image_bytes n img) = n"
  by (auto simp: image_ok_def image_bytes_def split: option.splits)

lemma wal_bytes_length: "28 \<le> length (wal_bytes lsn rec)"
  by (simp add: wal_bytes_def)

definition at_end :: "wal_manager \<Rightarrow> bool" where
  "at_end wm \<longleftrightarrow> log_pos wm = length (log wm)"

lemma wal_append_end:
  "at_end wm \<Longrightarrow> wal_append wm rec =
     (current_lsn wm,
      wm\<lparr>log := log wm @ wal_bytes (current_lsn wm) rec,
         log_pos := length (log wm) + length (wal_bytes (current_lsn wm) rec), current_lsn := current_lsn wm + 1\<rparr>)"
  by (simp add: wal_append_def log_write_def wal_bytes_def at_end_def Let_def)

lemma at_end_append: "at_end wm \<Longrightarrow> at_end (snd (wal_append wm rec))"
  by (simp add: wal_append_end) (simp add: at_end_def)

lemma read_image_bytes:
  assumes "image_ok n img" "log wm = pre @ image_bytes n img @ post" "log_pos wm = length pre"
  shows "read_image n wm = (img, wm\<lparr>log_pos := length pre + n\<rparr>)"
  using assms by (auto simp: read_image_def log_read_def image_ok_def image_bytes_def Let_def split: option.splits)

lemma log_read_bytes:
  "log wm = pre @ bs @ post \<Longrightarrow> log_pos wm = length pre \<Longrightarrow> n = length bs \<Longrightarrow>
   log_read n wm = (bs, wm\<lparr>log_pos := length pre + n\<rparr>)"
  by (simp add: log_read_def)

text \<open>The integers of a stored record, and the pieces of its bytes.\<close>

definition rec_ints :: "int \<Rightarrow> wal_record \<Rightarrow> byte list" where
  "rec_ints lsn rec = int32_bytes [lsn, wr_txn rec, wr_prev rec, wr_type rec, wr_page rec, wr_offset rec]"

definition rec_sizes :: "wal_record \<Rightarrow> byte list" where
  "rec_sizes rec = int16_bytes [before_size rec, after_size rec]"

lemma rec_ints_length [simp]: "length (rec_ints lsn rec) = 24" "length (rec_sizes rec) = 4"
  by (simp_all add: rec_ints_def rec_sizes_def)

lemma rec_ints_at:
  assumes "rec_ok rec" "in_range 32 lsn"
  shows "int32_at (rec_ints lsn rec) 0 = lsn" "int32_at (rec_ints lsn rec) 1 = wr_txn rec"
    "int32_at (rec_ints lsn rec) 2 = wr_prev rec" "int32_at (rec_ints lsn rec) 3 = wr_type rec"
    "int32_at (rec_ints lsn rec) 4 = wr_page rec" "int32_at (rec_ints lsn rec) 5 = wr_offset rec"
proof -
  have r: "in_range 32 (wr_txn rec)" "in_range 32 (wr_prev rec)" "in_range 32 (wr_type rec)" "in_range 32 (wr_page rec)"
    "in_range 32 (wr_offset rec)" using assms by (auto simp: rec_ok_def in_range_def)
  let ?is = "[lsn, wr_txn rec, wr_prev rec, wr_type rec, wr_page rec, wr_offset rec]"
  have all: "\<forall>x \<in> set ?is. in_range 32 x" using r assms(2) by simp
  have at: "k < 6 \<Longrightarrow> int32_at (rec_ints lsn rec) k = ?is ! k" for k
    unfolding rec_ints_def using all nth_mem [of k ?is] by (intro int32_at_bytes) fastforce+
  show "int32_at (rec_ints lsn rec) 0 = lsn" "int32_at (rec_ints lsn rec) 1 = wr_txn rec"
    "int32_at (rec_ints lsn rec) 2 = wr_prev rec" "int32_at (rec_ints lsn rec) 3 = wr_type rec"
    "int32_at (rec_ints lsn rec) 4 = wr_page rec" "int32_at (rec_ints lsn rec) 5 = wr_offset rec"
    by (simp_all add: at)
qed

lemma rec_sizes_at:
  assumes "rec_ok rec"
  shows "int16_at (rec_sizes rec) 0 = before_size rec" "int16_at (rec_sizes rec) 1 = after_size rec"
  using int16_at_bytes [of 0 "[before_size rec, after_size rec]"] int16_at_bytes [of 1 "[before_size rec, after_size rec]"] assms
  by (simp_all add: rec_sizes_def rec_ok_def image_ok_def)

lemma wal_bytes_parts:
  "wal_bytes lsn rec = rec_ints lsn rec @ rec_sizes rec @
     image_bytes (before_size rec) (before_image rec) @ image_bytes (after_size rec) (after_image rec)"
  by (simp add: wal_bytes_def rec_ints_def rec_sizes_def)

lemma wal_read_logged:
  assumes ok: "rec_ok rec" and lsn: "in_range 32 lsn"
    and log: "log wm = pre @ wal_bytes lsn rec @ post" "log_pos wm = length pre"
  shows "wal_read_next wm = (DB_OK, logged lsn rec, wm\<lparr>log_pos := length pre + length (wal_bytes lsn rec)\<rparr>)"
proof -
  let ?before = "image_bytes (before_size rec) (before_image rec)"
  let ?after = "image_bytes (after_size rec) (after_image rec)"
  have b: "image_ok (before_size rec) (before_image rec)" and a: "image_ok (after_size rec) (after_image rec)"
    using ok by (simp_all add: rec_ok_def)
  note parts = log wal_bytes_parts
  have ints: "log_read 24 wm = (rec_ints lsn rec, wm\<lparr>log_pos := length pre + 24\<rparr>)"
    by (rule log_read_bytes [of _ _ _ "rec_sizes rec @ ?before @ ?after @ post"]) (simp_all add: parts)
  have sizes: "log_read 4 (wm\<lparr>log_pos := length pre + 24\<rparr>) = (rec_sizes rec, wm\<lparr>log_pos := length pre + 28\<rparr>)"
    using log_read_bytes [of "wm\<lparr>log_pos := length pre + 24\<rparr>" "pre @ rec_ints lsn rec" "rec_sizes rec" "?before @ ?after @ post" 4]
    by (simp add: parts)
  have before: "read_image (before_size rec) (wm\<lparr>log_pos := length pre + 28\<rparr>)
      = (before_image rec, wm\<lparr>log_pos := length pre + 28 + before_size rec\<rparr>)"
    using read_image_bytes [OF b, of "wm\<lparr>log_pos := length pre + 28\<rparr>" "pre @ rec_ints lsn rec @ rec_sizes rec" "?after @ post"]
    by (simp add: parts)
  have after: "read_image (after_size rec) (wm\<lparr>log_pos := length pre + 28 + before_size rec\<rparr>)
      = (after_image rec, wm\<lparr>log_pos := length pre + 28 + before_size rec + after_size rec\<rparr>)"
    using read_image_bytes [OF a, of "wm\<lparr>log_pos := length pre + 28 + before_size rec\<rparr>" "pre @ rec_ints lsn rec @ rec_sizes rec @ ?before" post] b
    by (simp add: parts)
  have len: "length (wal_bytes lsn rec) = 28 + before_size rec + after_size rec" using a b by (simp add: wal_bytes_parts)
  have off: "to_signed 16 (u16 (pattern 32 (wr_offset rec))) = wr_offset rec"
    using ok by (simp add: rec_ok_def offset_round_trip)
  have out: "zero_record\<lparr>wr_lsn := lsn, wr_txn := wr_txn rec, wr_prev := wr_prev rec, wr_type := wr_type rec,
      wr_page := wr_page rec, wr_offset := wr_offset rec, before_size := before_size rec, after_size := after_size rec,
      before_image := before_image rec, after_image := after_image rec\<rparr> = logged lsn rec"
    by (cases rec) (simp add: logged_def zero_record_def)
  show ?thesis
    unfolding wal_read_next_def ints Let_def prod.case rec_ints_at [OF ok lsn] rec_ints_length sizes rec_sizes_at [OF ok]
    by (simp add: off before after len out [symmetric])
qed

lemma wal_read_eof: "length (log wm) < log_pos wm + 24 \<Longrightarrow> fst (wal_read_next wm) = DB_PAGE_NOT_FOUND"
  by (auto simp: wal_read_next_def log_read_def Let_def)

section \<open>The whole log\<close>

fun logged_list :: "int \<Rightarrow> wal_record list \<Rightarrow> wal_record list" where
  "logged_list lsn [] = []"
| "logged_list lsn (r # rs) = logged lsn r # logged_list (lsn + 1) rs"

fun log_bytes :: "int \<Rightarrow> wal_record list \<Rightarrow> byte list" where
  "log_bytes lsn [] = []"
| "log_bytes lsn (r # rs) = wal_bytes lsn r @ log_bytes (lsn + 1) rs"

lemma logged_list_snoc: "logged_list lsn (rs @ [r]) = logged_list lsn rs @ [logged (lsn + int (length rs)) r]"
  by (induction rs arbitrary: lsn) (simp_all add: algebra_simps)

lemma log_bytes_snoc: "log_bytes lsn (rs @ [r]) = log_bytes lsn rs @ wal_bytes (lsn + int (length rs)) r"
  by (induction rs arbitrary: lsn) (simp_all add: algebra_simps)

lemma length_logged_list [simp]: "length (logged_list lsn rs) = length rs"
  by (induction rs arbitrary: lsn) simp_all

text \<open>\<open>wal_holds wm recs\<close>: the log consists of exactly these records, numbered from 1.\<close>

definition wal_holds :: "wal_manager \<Rightarrow> wal_record list \<Rightarrow> bool" where
  "wal_holds wm recs \<longleftrightarrow> log wm = log_bytes 1 recs \<and> current_lsn wm = 1 + int (length recs) \<and>
     list_all rec_ok recs \<and> length recs < 2147483647"

lemma wal_holds_append:
  assumes "wal_holds wm recs" "at_end wm" "rec_ok r" "length recs < 2147483646"
  shows "wal_holds (snd (wal_append wm r)) (recs @ [r]) \<and> at_end (snd (wal_append wm r)) \<and>
    fst (wal_append wm r) = 1 + int (length recs)"
  using assms at_end_append [OF assms(2), of r]
  by (simp add: wal_holds_def wal_append_end log_bytes_snoc add.commute)

lemma wal_holds_flush: "wal_holds wm recs \<Longrightarrow> wal_holds (snd (wal_flush wm l)) recs"
  by (simp add: wal_holds_def wal_flush_def)

lemma at_end_flush: "at_end wm \<Longrightarrow> at_end (snd (wal_flush wm l))"
  by (simp add: at_end_def wal_flush_def)

lemma wal_scan_records:
  assumes "list_all rec_ok recs" "0 < lsn" "lsn + int (length recs) < 2147483648"
    and "log wm = pre @ log_bytes lsn recs @ rest" "log_pos wm = length pre"
  shows "wal_scan body wm s = wal_scan body (wm\<lparr>log_pos := length (pre @ log_bytes lsn recs)\<rparr>) (fold body (logged_list lsn recs) s)"
  using assms
proof (induction recs arbitrary: lsn pre s wm)
  case Nil
  then show ?case by (cases wm) simp
next
  case (Cons r recs)
  let ?wm = "wm\<lparr>log_pos := length (pre @ wal_bytes lsn r)\<rparr>"
  have "wal_read_next wm = (DB_OK, logged lsn r, ?wm)"
    using Cons.prems wal_read_logged [of r lsn wm pre "log_bytes (lsn + 1) recs @ rest"] by (simp add: in_range_def)
  then have "wal_scan body wm s = wal_scan body ?wm (body (logged lsn r) s)" by (subst wal_scan.simps) simp
  also have "\<dots> = wal_scan body (?wm\<lparr>log_pos := length ((pre @ wal_bytes lsn r) @ log_bytes (lsn + 1) recs)\<rparr>)
      (fold body (logged_list (lsn + 1) recs) (body (logged lsn r) s))"
    using Cons.prems by (intro Cons.IH) simp_all
  finally show ?case by (simp add: add.assoc)
qed

lemma wal_scan_end: "log_pos wm = length (log wm) \<Longrightarrow> wal_scan body wm s = (s, wm)"
  by (subst wal_scan.simps) (simp add: wal_read_next_def log_read_def Let_def)

lemma wal_scan_log:
  assumes "wal_holds wm recs"
  shows "wal_scan body (wal_reset_read wm) s = (fold body (logged_list 1 recs) s, wm\<lparr>log_pos := length (log wm)\<rparr>)"
  using wal_scan_records [of recs 1 "wal_reset_read wm" "[]" "[]" body s] assms
  by (simp add: wal_holds_def wal_reset_read_def wal_scan_end)

text \<open>A scan that only collects the records.\<close>

definition wal_read_all :: "wal_manager \<Rightarrow> wal_record list" where
  "wal_read_all wm = rev (fst (wal_scan (\<lambda>r rs. r # rs) (wal_reset_read wm) []))"

lemma wal_read_all_log: "wal_holds wm recs \<Longrightarrow> wal_read_all wm = logged_list 1 recs"
  by (simp add: wal_read_all_def wal_scan_log [of wm recs] fold_Cons_rev)

lemma wal_init_ok: "wal_manager_init opens old = Inr wm \<Longrightarrow> wal_holds wm [] \<and> at_end wm \<and> log_synced wm = []"
  by (auto simp: wal_manager_init_def wal_holds_def at_end_def split: if_splits)

definition wal_append_all :: "wal_manager \<Rightarrow> wal_record list \<Rightarrow> wal_manager" where
  "wal_append_all wm recs = foldl (\<lambda>wm r. snd (wal_append wm r)) wm recs"

lemma wal_append_all_snoc: "wal_append_all wm (recs @ [r]) = snd (wal_append (wal_append_all wm recs) r)"
  by (simp add: wal_append_all_def)

lemma wal_append_all_holds:
  assumes "wal_manager_init opens old = Inr wm" "list_all rec_ok recs" "length recs < 2147483647"
  shows "wal_holds (wal_append_all wm recs) recs \<and> at_end (wal_append_all wm recs)"
  using assms(2-)
proof (induction recs rule: rev_induct)
  case Nil
  then show ?case using wal_init_ok [OF assms(1)] by (simp add: wal_append_all_def)
next
  case (snoc r recs)
  then show ?case using wal_holds_append [of "wal_append_all wm recs" recs r] by (simp add: wal_append_all_snoc)
qed

text \<open>C38. The log round trip: on a log that was opened, appending any records and reading from the start
  gives exactly these records, in order and numbered from 1, and leaves the position at the end, so
  that further appends do not overwrite the log. After a flush the bytes have left the buffer.\<close>

theorem wal_round_trip:
  assumes "wal_manager_init opens old = Inr wm" "list_all rec_ok recs" "length recs < 2147483647"
  shows "wal_read_all (wal_append_all wm recs) = logged_list 1 recs \<and>
    snd (wal_scan body (wal_reset_read (wal_append_all wm recs)) s) = wal_append_all wm recs \<and>
    wal_current_lsn (wal_append_all wm recs) = 1 + int (length recs) \<and>
    log_synced (snd (wal_flush (wal_append_all wm recs) l)) = log_bytes 1 recs"
proof -
  have h: "wal_holds (wal_append_all wm recs) recs" "at_end (wal_append_all wm recs)"
    using wal_append_all_holds [OF assms] by simp_all
  then show ?thesis using wal_read_all_log [OF h(1)] wal_scan_log [OF h(1), of body s]
    by (simp add: at_end_def wal_holds_def wal_flush_def wal_current_lsn_def)
qed

definition demo_record :: wal_record where
  "demo_record = zero_record\<lparr>wr_txn := 1, wr_type := type_num WAL_UPDATE, wr_page := 3, wr_offset := -1,
     before_image := Some [1, 2], before_size := 2, after_image := Some [3, 4, 5], after_size := 3\<rparr>"

lemma demo_record_ok: "rec_ok demo_record"
  by (simp add: rec_ok_def demo_record_def zero_record_def image_ok_def in_range_def)

definition demo_wal :: wal_manager where
  "demo_wal = \<lparr>log = [], log_pos = 0, log_synced = [], current_lsn = 1, flushed_lsn = 0\<rparr>"

lemma demo_wal_init: "wal_manager_init True old = Inr demo_wal"
  by (simp add: wal_manager_init_def demo_wal_def)

theorem wal_round_trip_witness:
  "wal_read_all (wal_append_all demo_wal [demo_record, zero_record]) = [logged 1 demo_record, logged 2 zero_record]"
proof -
  have "rec_ok zero_record" by (simp add: rec_ok_def zero_record_def image_ok_def in_range_def)
  then show ?thesis
    using wal_round_trip [OF demo_wal_init, of "[demo_record, zero_record]", THEN conjunct1] demo_record_ok by simp
qed

section \<open>A torn record\<close>

text \<open>What a reader gets of a record of which only the first m bytes reached the file (m at least 28):
  the sizes are the full ones, the images end where the file ends.\<close>

definition torn :: "nat \<Rightarrow> wal_record \<Rightarrow> wal_record" where
  "torn m rec = rec
     \<lparr>before_image := map_option (take (m - 28)) (before_image rec),
      after_image := map_option (take (m - 28 - before_size rec)) (after_image rec)\<rparr>"

lemma read_image_torn:
  assumes "image_ok n img" "log wm = pre @ take k (image_bytes n img)" "log_pos wm = length pre"
  shows "read_image n wm = (map_option (take k) img, wm\<lparr>log_pos := length pre + min n k\<rparr>)"
  using assms
  by (auto simp: read_image_def log_read_def image_ok_def image_bytes_def Let_def min_def split: option.splits)

lemma wal_read_torn:
  assumes ok: "rec_ok rec" and lsn: "in_range 32 lsn" and m: "28 \<le> m" "m \<le> length (wal_bytes lsn rec)"
    and log: "log wm = pre @ take m (wal_bytes lsn rec)" "log_pos wm = length pre"
  shows "wal_read_next wm = (DB_OK, torn m (logged lsn rec), wm\<lparr>log_pos := length (log wm)\<rparr>)"
proof -
  let ?before = "image_bytes (before_size rec) (before_image rec)"
  let ?after = "image_bytes (after_size rec) (after_image rec)"
  have b: "image_ok (before_size rec) (before_image rec)" and a: "image_ok (after_size rec) (after_image rec)"
    using ok by (simp_all add: rec_ok_def)
  let ?tail = "take (m - 28) ?before @ take (m - 28 - before_size rec) ?after"
  have parts: "log wm = pre @ rec_ints lsn rec @ rec_sizes rec @ ?tail"
    using m(1) b by (simp add: log wal_bytes_parts)
  have ints: "log_read 24 wm = (rec_ints lsn rec, wm\<lparr>log_pos := length pre + 24\<rparr>)"
    by (rule log_read_bytes [of _ _ _ "rec_sizes rec @ ?tail"]) (simp_all add: parts log(2))
  have sizes: "log_read 4 (wm\<lparr>log_pos := length pre + 24\<rparr>) = (rec_sizes rec, wm\<lparr>log_pos := length pre + 28\<rparr>)"
    using log_read_bytes [of "wm\<lparr>log_pos := length pre + 24\<rparr>" "pre @ rec_ints lsn rec" "rec_sizes rec" ?tail 4]
    by (simp add: parts)
  let ?n = "min (before_size rec) (m - 28)"
  have before: "read_image (before_size rec) (wm\<lparr>log_pos := length pre + 28\<rparr>)
      = (map_option (take (m - 28)) (before_image rec), wm\<lparr>log_pos := length pre + 28 + ?n\<rparr>)"
  proof (cases "m - 28 \<le> before_size rec")
    case True
    then show ?thesis
      using read_image_torn [OF b, of "wm\<lparr>log_pos := length pre + 28\<rparr>" "pre @ rec_ints lsn rec @ rec_sizes rec" "m - 28"]
      by (simp add: parts)
  next
    case False
    moreover have "map_option (take (m - 28)) (before_image rec) = before_image rec"
      using False b by (auto simp: image_ok_def split: option.splits)
    ultimately show ?thesis
      using read_image_bytes [OF b, of "wm\<lparr>log_pos := length pre + 28\<rparr>" "pre @ rec_ints lsn rec @ rec_sizes rec"
          "take (m - 28 - before_size rec) ?after"] b by (simp add: parts)
  qed
  have after: "read_image (after_size rec) (wm\<lparr>log_pos := length pre + 28 + ?n\<rparr>)
      = (map_option (take (m - 28 - before_size rec)) (after_image rec),
         wm\<lparr>log_pos := length pre + 28 + ?n + min (after_size rec) (m - 28 - before_size rec)\<rparr>)"
    using read_image_torn [OF a, of "wm\<lparr>log_pos := length pre + 28 + ?n\<rparr>" "pre @ rec_ints lsn rec @ rec_sizes rec @ take (m - 28) ?before"
        "m - 28 - before_size rec"] b
    by (simp add: parts)
  have len: "length pre + 28 + ?n + min (after_size rec) (m - (28 + before_size rec)) = length (log wm)"
    using a b by (simp add: parts)
  have off: "to_signed 16 (u16 (pattern 32 (wr_offset rec))) = wr_offset rec"
    using ok by (simp add: rec_ok_def offset_round_trip)
  have out: "zero_record\<lparr>wr_lsn := lsn, wr_txn := wr_txn rec, wr_prev := wr_prev rec, wr_type := wr_type rec,
      wr_page := wr_page rec, wr_offset := wr_offset rec, before_size := before_size rec, after_size := after_size rec,
      before_image := map_option (take (m - 28)) (before_image rec),
      after_image := map_option (take (m - 28 - before_size rec)) (after_image rec)\<rparr> = torn m (logged lsn rec)"
    by (cases rec) (simp add: torn_def logged_def zero_record_def)
  show ?thesis
    unfolding wal_read_next_def ints Let_def prod.case rec_ints_at [OF ok lsn] rec_ints_length sizes rec_sizes_at [OF ok]
    by (simp add: off before after len [symmetric] out [symmetric])
qed

lemma wal_read_short:
  assumes "log wm = pre @ bs" "log_pos wm = length pre" "length bs < 28"
  shows "fst (wal_read_next wm) \<noteq> DB_OK"
  using assms by (auto simp: wal_read_next_def log_read_def Let_def)

text \<open>A log cut off in the middle of its last record: the complete records are read back. A cut in
  the first 28 bytes of the record is noticed and drops it; a cut in its images is not, and the reader
  is handed a record whose images are shorter than the sizes it states, with the code DB_OK.\<close>

theorem wal_torn_tail:
  assumes ok: "list_all rec_ok (recs @ [r])" and len: "length recs < 2147483646"
    and cut: "m < length (wal_bytes (1 + int (length recs)) r)"
    and wm: "log wm = log_bytes 1 recs @ take m (wal_bytes (1 + int (length recs)) r)"
  shows "wal_read_all wm =
    logged_list 1 recs @ (if m < 28 then [] else [torn m (logged (1 + int (length recs)) r)])"
proof -
  let ?wm = "wal_reset_read wm\<lparr>log_pos := length (log_bytes 1 recs)\<rparr>" and ?lsn = "1 + int (length recs)"
  let ?collect = "\<lambda>r rs. r # (rs :: wal_record list)"
  have log: "log ?wm = log_bytes 1 recs @ take m (wal_bytes ?lsn r)" "log_pos ?wm = length (log_bytes 1 recs)"
    using wm by (simp_all add: wal_reset_read_def)
  have scan: "wal_scan ?collect (wal_reset_read wm) [] = wal_scan ?collect ?wm (rev (logged_list 1 recs))"
    using wal_scan_records [of recs 1 "wal_reset_read wm" "[]" "take m (wal_bytes ?lsn r)" ?collect "[]"] ok len wm
    by (simp add: wal_reset_read_def fold_Cons_rev)
  show ?thesis
  proof (cases "m < 28")
    case True
    have "fst (wal_read_next ?wm) \<noteq> DB_OK" using wal_read_short [OF log] True by simp
    then have "fst (wal_scan ?collect ?wm (rev (logged_list 1 recs))) = rev (logged_list 1 recs)"
      by (subst wal_scan.simps) (auto split: prod.split)
    then show ?thesis using True by (simp add: wal_read_all_def scan)
  next
    case False
    let ?eof = "?wm\<lparr>log_pos := length (log ?wm)\<rparr>"
    have r: "in_range 32 ?lsn" "rec_ok r" using len ok by (simp_all add: in_range_def)
    have "wal_read_next ?wm = (DB_OK, torn m (logged ?lsn r), ?eof)"
      using wal_read_torn [OF r(2,1) _ _ log] False cut by simp
    then have "wal_scan ?collect ?wm (rev (logged_list 1 recs)) = (torn m (logged ?lsn r) # rev (logged_list 1 recs), ?eof)"
      by (subst wal_scan.simps) (simp add: wal_scan_end)
    then show ?thesis using False by (simp add: wal_read_all_def scan)
  qed
qed

theorem wal_torn_tail_witness:
  "wal_read_all (demo_wal\<lparr>log := take 29 (wal_bytes 1 demo_record)\<rparr>) = [(logged 1 demo_record)\<lparr>before_image := Some [1], after_image := Some []\<rparr>]"
proof -
  have "length (wal_bytes 1 demo_record) = 33"
    using demo_record_ok by (simp add: wal_bytes_def rec_ok_def) (simp add: demo_record_def)
  then show ?thesis
    using wal_torn_tail [of "[]" demo_record 29 "demo_wal\<lparr>log := take 29 (wal_bytes 1 demo_record)\<rparr>"] demo_record_ok
    by (simp add: torn_def) (simp add: demo_record_def zero_record_def logged_def)
qed

end
