(* ===== verification/Txn_Manager.thy ===== *)
theory Txn_Manager
  imports Lock_Manager Wal
begin

text \<open>
  Transactions (\<open>src/transaction/transaction.c\<close>) and their manager
  (\<open>src/transaction/txn_manager.c\<close>), on the lock manager and the write-ahead log.

  The manager frees a transaction when it ends, while the callers keep its pointer. So transactions
  live on a heap, \<open>txn_mem\<close>, and an operation on a block that is not allocated is None; addresses are
  not reused in the model, so that every use of a stale pointer is seen as one. The lock manager and
  the log, which the C struct points to and which may be NULL, are part of the state; the buffer pool
  pointer, which no operation reads, is left out. Allocation is taken to succeed.
\<close>

section \<open>Transactions\<close>

datatype txn_state = TXN_INVALID | TXN_ACTIVE | TXN_COMMITTED | TXN_ABORTED

datatype isolation_level =
  ISOLATION_READ_UNCOMMITTED | ISOLATION_READ_COMMITTED | ISOLATION_REPEATABLE_READ | ISOLATION_SERIALIZABLE

record transaction =
  txn_id :: int
  tstate :: txn_state
  isolation :: isolation_level
  last_lsn :: int
  undo_next_lsn :: int

definition txn_init :: "int \<Rightarrow> isolation_level \<Rightarrow> transaction" where
  "txn_init i level =
     \<lparr>txn_id = i, tstate = TXN_ACTIVE, isolation = level, last_lsn = INVALID_LSN, undo_next_lsn = INVALID_LSN\<rparr>"

definition txn_state_of :: "transaction option \<Rightarrow> txn_state" where
  "txn_state_of t = (case t of Some t \<Rightarrow> tstate t | None \<Rightarrow> TXN_INVALID)"

definition txn_is_active :: "transaction option \<Rightarrow> bool" where
  "txn_is_active t \<longleftrightarrow> (case t of Some t \<Rightarrow> tstate t = TXN_ACTIVE | None \<Rightarrow> False)"

section \<open>The manager\<close>

record txn_manager =
  lock_mgr :: "lock_manager option"
  wal_mgr :: "wal_manager option"
  active_txns :: "(uintptr, nat) hashmap"
  next_txn_id :: int
  txn_mem :: "nat \<rightharpoonup> transaction"
  txn_brk :: nat

definition txn_manager_init :: "lock_manager option \<Rightarrow> wal_manager option \<Rightarrow> txn_manager" where
  "txn_manager_init lm wm =
     \<lparr>lock_mgr = lm, wal_mgr = wm, active_txns = hashmap_init 16 int_hash_fn int_equal_fn, next_txn_id = 1,
      txn_mem = Map.empty, txn_brk = 0\<rparr>"

text \<open>Writing a record for a transaction: what the three places that log do with the log manager.\<close>

definition txn_record :: "transaction \<Rightarrow> int \<Rightarrow> wal_record_type \<Rightarrow> wal_record" where
  "txn_record t prev kind = zero_record\<lparr>wr_txn := txn_id t, wr_prev := prev, wr_type := type_num kind\<rparr>"

definition txn_begin :: "isolation_level \<Rightarrow> txn_manager \<Rightarrow> nat \<times> txn_manager" where
  "txn_begin level tm =
     (let addr = txn_brk tm;
          t = txn_init (next_txn_id tm) level;
          tm = tm\<lparr>txn_brk := addr + 1, next_txn_id := next_txn_id tm + 1\<rparr>;
          tm = tm\<lparr>active_txns := hashmap_put (active_txns tm) (int_key (txn_id t)) addr\<rparr>
      in case wal_mgr tm of
           None \<Rightarrow> (addr, tm\<lparr>txn_mem := (txn_mem tm)(addr \<mapsto> t)\<rparr>)
         | Some wm \<Rightarrow>
             let (lsn, wm) = wal_append wm (txn_record t 0 WAL_BEGIN)
             in (addr, tm\<lparr>wal_mgr := Some wm, txn_mem := (txn_mem tm)(addr \<mapsto> t\<lparr>last_lsn := lsn\<rparr>)\<rparr>))"

text \<open>\<open>txn_commit\<close> and \<open>txn_abort\<close> differ in the record they write and the state they leave in the
  block that they then free.\<close>

definition txn_end :: "wal_record_type \<Rightarrow> txn_state \<Rightarrow> nat \<Rightarrow> txn_manager \<Rightarrow> (error_code \<times> txn_manager) option" where
  "txn_end kind final addr tm =
     (case txn_mem tm addr of
        None \<Rightarrow> None
      | Some t \<Rightarrow>
          if tstate t \<noteq> TXN_ACTIVE then Some (DB_TXN_ABORTED, tm)
          else
            let (t, tm) =
                  (case wal_mgr tm of
                     None \<Rightarrow> (t, tm)
                   | Some wm \<Rightarrow>
                       let (lsn, wm) = wal_append wm (txn_record t (last_lsn t) kind);
                           (rc, wm) = wal_flush wm lsn
                       in (t\<lparr>last_lsn := lsn\<rparr>, tm\<lparr>wal_mgr := Some wm\<rparr>));
                tm = tm\<lparr>lock_mgr := map_option (\<lambda>lm. lock_release_all lm (txn_id t)) (lock_mgr tm)\<rparr>;
                t = t\<lparr>tstate := final\<rparr>;
                (rc, active) = hashmap_remove (active_txns tm) (int_key (txn_id t))
            in Some (DB_OK,
                 tm\<lparr>active_txns := active,
                    txn_mem := (if rc = 0 then (txn_mem tm)(addr := None) else (txn_mem tm)(addr \<mapsto> t))\<rparr>))"

definition txn_commit :: "nat \<Rightarrow> txn_manager \<Rightarrow> (error_code \<times> txn_manager) option" where
  "txn_commit = txn_end WAL_COMMIT TXN_COMMITTED"

definition txn_abort :: "nat \<Rightarrow> txn_manager \<Rightarrow> (error_code \<times> txn_manager) option" where
  "txn_abort = txn_end WAL_ABORT TXN_ABORTED"

definition txn_get :: "txn_manager \<Rightarrow> int \<Rightarrow> nat option" where
  "txn_get tm i = hashmap_get (active_txns tm) (int_key i)"

definition destroy_txn :: "txn_manager \<Rightarrow> int \<Rightarrow> txn_manager" where
  "destroy_txn tm i =
     (case txn_get tm i of
        None \<Rightarrow> tm
      | Some addr \<Rightarrow>
          tm\<lparr>lock_mgr := map_option (\<lambda>lm. lock_release_all lm i) (lock_mgr tm),
             txn_mem := (txn_mem tm)(addr := None)\<rparr>)"

definition txn_manager_destroy :: "txn_manager \<Rightarrow> txn_manager" where
  "txn_manager_destroy tm =
     (let tm = foldl destroy_txn tm (hashmap_keys (active_txns tm))
      in tm\<lparr>active_txns := hashmap_destroy (active_txns tm)\<rparr>)"

section \<open>Runs of the manager\<close>

text \<open>The steps of a system with transactions: beginning one, ending one through a pointer, and asking
  for a lock on behalf of an active one. The 32-bit id counter bounds the number of transactions.\<close>

inductive txn_step :: "txn_manager \<Rightarrow> txn_manager \<Rightarrow> bool" where
  txn_begins: "next_txn_id tm < 1073741824 \<Longrightarrow> txn_begin level tm = (addr, tm') \<Longrightarrow> txn_step tm tm'"
| txn_commits: "txn_commit addr tm = Some (rc, tm') \<Longrightarrow> txn_step tm tm'"
| txn_aborts: "txn_abort addr tm = Some (rc, tm') \<Longrightarrow> txn_step tm tm'"
| txn_locks: "txn_mem tm addr = Some t \<Longrightarrow> txn_is_active (Some t) \<Longrightarrow> lock_mgr tm = Some lm \<Longrightarrow> in_range 32 res \<Longrightarrow>
    lock_acquire lm (txn_id t) res mode = (rc, lm') \<Longrightarrow> txn_step tm (tm\<lparr>lock_mgr := Some lm'\<rparr>)"

inductive txn_reachable :: "txn_manager \<Rightarrow> bool" where
  start: "wal_manager_init True old = Inr wm \<Longrightarrow> txn_reachable (txn_manager_init (Some lock_manager_init) (Some wm))"
| step: "txn_reachable tm \<Longrightarrow> txn_step tm tm' \<Longrightarrow> txn_reachable tm'"

inductive_cases txn_stepE: "txn_step tm tm'"

section \<open>Who is in the lock queues\<close>

definition lock_txns :: "lock_manager \<Rightarrow> int set" where
  "lock_txns lm = {i. \<exists>res. in_range 32 res \<and> i \<in> lr_txn ` set (lock_view lm res)}"

lemma grant_fold_txns: "map lr_txn (foldl grant_step rs ks) = map lr_txn rs"
  by (induction ks arbitrary: rs) (simp_all add: grant_step_facts)

lemma queue_release_txns: "lr_txn ` set (requests (queue_release txn queue)) = lr_txn ` set (requests queue) - {txn}"
proof -
  have s: "lr_txn ` set rs = set (map lr_txn rs)" for rs by simp
  show ?thesis unfolding s by (auto simp: queue_release_def Let_def grant_fold_txns simp del: set_map) auto
qed

lemma queue_acquire_txns:
  "lr_txn ` set (requests (snd (queue_acquire queue txn mode))) \<subseteq> insert txn (lr_txn ` set (requests queue))"
proof -
  have s: "lr_txn ` set rs = set (map lr_txn rs)" for rs by simp
  show ?thesis
  proof (cases "own_request txn (requests queue)")
    case (Some i)
    then have "lr_txn (requests queue ! i) = txn" "i < length (requests queue)" using own_request_Some by blast+
    then show ?thesis unfolding s using Some
      by (simp add: queue_acquire_def Let_def map_txn_set del: set_map) auto
  qed (auto simp: queue_acquire_def Let_def)
qed

lemma lock_txns_release:
  assumes "int_table (lock_table lm)"
  shows "lock_txns (lock_release_all lm txn) = lock_txns lm - {txn}"
proof -
  have "lr_txn ` set (lock_view (lock_release_all lm txn) res) = lr_txn ` set (lock_view lm res) - {txn}" if "in_range 32 res" for res
    using release_all_view(2) [OF assms that, of txn] queue_release_txns [of txn]
    by (cases "int_get (lock_table lm) res") (simp_all add: lock_view_def)
  then have "i \<in> lock_txns (lock_release_all lm txn) \<longleftrightarrow> i \<in> lock_txns lm - {txn}" for i
    unfolding lock_txns_def by (simp cong: conj_cong) blast
  then show ?thesis by blast
qed

lemma lock_txns_acquire:
  assumes t: "int_table (lock_table lm)" "in_range 32 res" and a: "lock_acquire lm txn res mode = (rc, lm')"
  shows "int_table (lock_table lm') \<and> lock_txns lm' \<subseteq> insert txn (lock_txns lm)"
proof -
  obtain queue lm1 where q: "lock_acquire lm txn res mode = (fst (queue_acquire queue txn mode), lm1)"
    "requests queue = lock_view lm res" "int_table (lock_table lm1)"
    "\<And>q. in_range 32 q \<Longrightarrow>
       lock_view lm1 q = (if q = res then requests (snd (queue_acquire queue txn mode)) else lock_view lm q)"
    by (rule lock_acquire_view [OF t, of txn mode]) blast
  have "lr_txn ` set (lock_view lm1 r) \<subseteq> insert txn (lr_txn ` set (lock_view lm r))" if "in_range 32 r" for r
    using q(4) [OF that] queue_acquire_txns [of queue txn mode] q(2) by auto
  then show ?thesis using q(1,3) a t(2) by (fastforce simp: lock_txns_def)
qed

lemma lock_txns_has: "in_range 32 res \<Longrightarrow> lock_has_lock lm txn res \<Longrightarrow> txn \<in> lock_txns lm"
  by (auto simp: lock_txns_def has_lock_view holds_def)

lemma lock_txns_init: "lock_txns lock_manager_init = {}" and lock_init_table: "int_table (lock_table lock_manager_init)"
  using lm_init_ok by (simp_all add: lock_txns_def lock_view_init lm_ok_def)

section \<open>The invariant\<close>

text \<open>What the log says of one transaction.\<close>

definition history :: "int \<Rightarrow> wal_record list \<Rightarrow> int list" where
  "history i recs = map wr_type (filter (\<lambda>r. wr_txn r = i) recs)"

lemma history_snoc: "history i (recs @ [r]) = history i recs @ (if wr_txn r = i then [wr_type r] else [])"
  by (simp add: history_def)

definition ended_history :: "int list \<Rightarrow> bool" where
  "ended_history h \<longleftrightarrow> h = [type_num WAL_BEGIN, type_num WAL_COMMIT] \<or> h = [type_num WAL_BEGIN, type_num WAL_ABORT]"

definition heap_ok :: "txn_manager \<Rightarrow> bool" where
  "heap_ok tm \<longleftrightarrow> int_table (active_txns tm) \<and> 1 \<le> next_txn_id tm \<and> next_txn_id tm \<le> 1073741824 \<and>
     (\<forall>i a. in_range 32 i \<longrightarrow> int_get (active_txns tm) i = Some a \<longrightarrow>
        (\<exists>t. txn_mem tm a = Some t \<and> txn_id t = i)) \<and>
     (\<forall>a t. txn_mem tm a = Some t \<longrightarrow> tstate t = TXN_ACTIVE \<and> 1 \<le> txn_id t \<and> txn_id t < next_txn_id tm \<and>
        a < txn_brk tm \<and> int_get (active_txns tm) (txn_id t) = Some a)"

definition log_ok :: "txn_manager \<Rightarrow> wal_manager \<Rightarrow> wal_record list \<Rightarrow> bool" where
  "log_ok tm wm recs \<longleftrightarrow> wal_holds wm recs \<and> at_end wm \<and>
     (\<forall>r \<in> set recs. 1 \<le> wr_txn r \<and> wr_txn r < next_txn_id tm) \<and>
     (\<forall>i. 1 \<le> i \<and> i < next_txn_id tm \<longrightarrow>
        (if int_get (active_txns tm) i = None then ended_history (history i recs) else history i recs = [type_num WAL_BEGIN])) \<and>
     (\<forall>t \<in> ran (txn_mem tm). 1 \<le> last_lsn t \<and> last_lsn t \<le> int (length recs) \<and> wr_txn (recs ! nat (last_lsn t - 1)) = txn_id t) \<and>
     int (length recs) + int (card (dom (txn_mem tm))) = 2 * (next_txn_id tm - 1)"

definition synced_ok :: "wal_manager \<Rightarrow> wal_record list \<Rightarrow> nat \<Rightarrow> bool" where
  "synced_ok wm recs k \<longleftrightarrow> k \<le> length recs \<and> log_synced wm = log_bytes 1 (take k recs) \<and>
     (\<forall>r \<in> set (drop k recs). wr_type r = type_num WAL_BEGIN)"

definition locks_ok :: "txn_manager \<Rightarrow> lock_manager \<Rightarrow> bool" where
  "locks_ok tm lm \<longleftrightarrow> int_table (lock_table lm) \<and> lock_txns lm \<subseteq> txn_id ` ran (txn_mem tm)"

definition txn_inv :: "txn_manager \<Rightarrow> bool" where
  "txn_inv tm \<longleftrightarrow> heap_ok tm \<and> finite (dom (txn_mem tm)) \<and>
     (\<exists>lm. lock_mgr tm = Some lm \<and> locks_ok tm lm) \<and>
     (\<exists>wm recs k. wal_mgr tm = Some wm \<and> log_ok tm wm recs \<and> synced_ok wm recs k)"

lemma heap_id: "heap_ok tm \<Longrightarrow> txn_mem tm a = Some t \<Longrightarrow> txn_mem tm b = Some u \<Longrightarrow> txn_id t = txn_id u \<longleftrightarrow> a = b"
  unfolding heap_ok_def by (metis option.inject)

lemma heap_facts:
  assumes "heap_ok tm" "txn_mem tm a = Some t"
  shows "tstate t = TXN_ACTIVE" "1 \<le> txn_id t" "txn_id t < next_txn_id tm" "a < txn_brk tm"
    "int_get (active_txns tm) (txn_id t) = Some a" "in_range 32 (txn_id t)"
proof -
  have f: "1 \<le> txn_id t" "txn_id t < next_txn_id tm" "next_txn_id tm \<le> 1073741824" using assms by (auto simp: heap_ok_def)
  then show "in_range 32 (txn_id t)" by (simp add: in_range_def)
  show "1 \<le> txn_id t" "txn_id t < next_txn_id tm" by (fact f)+
qed (use assms in \<open>auto simp: heap_ok_def\<close>)

lemma txn_record_ok: "in_range 32 (txn_id t) \<Longrightarrow> in_range 32 prev \<Longrightarrow> rec_ok (txn_record t prev kind)"
  by (cases kind) (simp_all add: rec_ok_def txn_record_def zero_record_def image_ok_def in_range_def)

lemma txn_record_fields [simp]:
  "wr_txn (txn_record t prev kind) = txn_id t" "wr_type (txn_record t prev kind) = type_num kind"
  by (simp_all add: txn_record_def)

lemma txn_inv_init:
  assumes "wal_manager_init True old = Inr wm"
  shows "txn_inv (txn_manager_init (Some lock_manager_init) (Some wm))"
proof -
  have w: "wal_holds wm []" "at_end wm" "log_synced wm = []" using wal_init_ok [OF assms] by simp_all
  then show ?thesis
    using lock_init_table lock_txns_init int_table_init [unfolded int_equal_fn_eq] int_get_init [unfolded int_equal_fn_eq]
    by (auto simp: txn_inv_def heap_ok_def log_ok_def synced_ok_def locks_ok_def txn_manager_init_def)
qed

lemma txn_inv_begin:
  assumes inv: "txn_inv tm" and room: "next_txn_id tm < 1073741824" and b: "txn_begin level tm = (addr, tm')"
  shows "txn_inv tm'" and "txn_mem tm addr = None" and "\<exists>t. txn_mem tm' = (txn_mem tm)(addr \<mapsto> t) \<and> txn_id t = next_txn_id tm"
    and "next_txn_id tm' = next_txn_id tm + 1"
proof -
  obtain lm wm recs k where p: "lock_mgr tm = Some lm" "wal_mgr tm = Some wm" "locks_ok tm lm" "log_ok tm wm recs" "synced_ok wm recs k"
    and h: "heap_ok tm" and fin: "finite (dom (txn_mem tm))" using inv by (auto simp: txn_inv_def)
  let ?n = "next_txn_id tm" and ?a = "txn_brk tm"
  let ?r = "txn_record (txn_init ?n level) 0 WAL_BEGIN"
  let ?wm = "snd (wal_append wm ?r)"
  let ?t = "(txn_init ?n level)\<lparr>last_lsn := fst (wal_append wm ?r)\<rparr>"
  have tm': "addr = ?a" "tm' = tm\<lparr>txn_brk := ?a + 1, next_txn_id := ?n + 1,
      active_txns := hashmap_put (active_txns tm) (int_key ?n) ?a, wal_mgr := Some ?wm, txn_mem := (txn_mem tm)(?a \<mapsto> ?t)\<rparr>"
    using b p(2) by (auto simp: txn_begin_def Let_def txn_init_def split: prod.splits)
  have n: "1 \<le> ?n" "in_range 32 ?n" using h room by (simp_all add: heap_ok_def in_range_def)
  have table: "int_table (active_txns tm)" using h by (simp add: heap_ok_def)
  have old: "txn_id t < ?n" "a < ?a" "in_range 32 (txn_id t)" if "txn_mem tm a = Some t" for a t
    using heap_facts [OF h that] by simp_all
  show fresh: "txn_mem tm addr = None" using old(2) tm'(1) by fastforce
  have get: "int_get (hashmap_put (active_txns tm) (int_key ?n) ?a) i = (if i = ?n then Some ?a else int_get (active_txns tm) i)"
    if "in_range 32 i" for i using int_get_put [OF table n(2) that] .
  have heap: "heap_ok tm'" unfolding heap_ok_def
  proof (intro conjI allI impI)
    show "int_table (active_txns tm')" using int_table_put [OF table n(2)] by (simp add: tm'(2))
    show "1 \<le> next_txn_id tm'" "next_txn_id tm' \<le> 1073741824" using n(1) room by (simp_all add: tm'(2))
    fix i a assume i: "in_range 32 i" "int_get (active_txns tm') i = Some a"
    show "\<exists>t. txn_mem tm' a = Some t \<and> txn_id t = i"
    proof (cases "i = ?n")
      case True
      then show ?thesis using i get [OF i(1)] by (simp add: tm'(2) txn_init_def)
    next
      case False
      then have "int_get (active_txns tm) i = Some a" using i get [OF i(1)] by (simp add: tm'(2))
      then obtain t where "txn_mem tm a = Some t" "txn_id t = i" using h i(1) by (auto simp: heap_ok_def)
      then show ?thesis using fresh tm'(1) by (auto simp: tm'(2))
    qed
  next
    fix a t assume t: "txn_mem tm' a = Some t"
    have c: "a = ?a \<and> t = ?t \<or> a \<noteq> ?a \<and> txn_mem tm a = Some t" using t by (auto simp: tm'(2) split: if_splits)
    show "tstate t = TXN_ACTIVE" "1 \<le> txn_id t" using c h n by (auto simp: txn_init_def heap_ok_def)
    show "txn_id t < next_txn_id tm'" "a < txn_brk tm'" using c old by (fastforce simp: txn_init_def tm'(2))+
    show "int_get (active_txns tm') (txn_id t) = Some a"
      using c
    proof
      assume "a = ?a \<and> t = ?t"
      then show ?thesis using get n(2) by (simp add: tm'(2) txn_init_def)
    next
      assume "a \<noteq> ?a \<and> txn_mem tm a = Some t"
      moreover from this have "int_get (active_txns tm) (txn_id t) = Some a" using h by (simp add: heap_ok_def)
      ultimately show ?thesis using get [of "txn_id t"] old(1,3) [of a t] by (simp add: tm'(2))
    qed
  qed
  have card: "card (dom (txn_mem tm')) = Suc (card (dom (txn_mem tm)))"
    using fresh fin tm'(1) by (simp add: tm'(2) card_insert_if domIff)
  have count: "int (length recs) + int (card (dom (txn_mem tm))) = 2 * (?n - 1)" using p(4) by (simp add: log_ok_def)
  have "rec_ok ?r" using n by (intro txn_record_ok) (simp_all add: txn_init_def in_range_def)
  then have w: "wal_holds ?wm (recs @ [?r])" "at_end ?wm"
    using wal_holds_append [of wm recs ?r] p(4) count room by (simp_all add: log_ok_def)
  have none: "int_get (active_txns tm) i = None \<or> i < ?n" if "in_range 32 i" for i
    using h that old(1) unfolding heap_ok_def by (metis not_None_eq)
  have old_hist: "history ?n recs = []" using p(4) by (auto simp: log_ok_def history_def filter_empty_conv)
  have "log_ok tm' ?wm (recs @ [?r])" unfolding log_ok_def
  proof (intro conjI allI impI ballI)
    show "wal_holds ?wm (recs @ [?r])" "at_end ?wm" by (fact w)+
    fix r assume "r \<in> set (recs @ [?r])"
    then show "1 \<le> wr_txn r" "wr_txn r < next_txn_id tm'" using p(4) n by (fastforce simp: log_ok_def tm'(2) txn_init_def)+
  next
    fix i assume i: "1 \<le> i \<and> i < next_txn_id tm'"
    then have r: "in_range 32 i" using room by (simp add: tm'(2) in_range_def)
    show "if int_get (active_txns tm') i = None then ended_history (history i (recs @ [?r]))
        else history i (recs @ [?r]) = [type_num WAL_BEGIN]"
      using p(4) i get [OF r] old_hist by (auto simp: log_ok_def tm'(2) history_snoc txn_init_def)
  next
    fix t assume "t \<in> ran (txn_mem tm')"
    then have "t = ?t \<or> t \<in> ran (txn_mem tm)" by (auto simp: tm'(2) ran_def split: if_splits)
    moreover have "current_lsn wm = 1 + int (length recs)" using p(4) by (simp add: log_ok_def wal_holds_def)
    ultimately show "1 \<le> last_lsn t" "last_lsn t \<le> int (length (recs @ [?r]))"
      "wr_txn ((recs @ [?r]) ! nat (last_lsn t - 1)) = txn_id t"
      using p(4) by (auto simp: log_ok_def wal_append_end nth_append txn_init_def nat_less_iff)
  next
    show "int (length (recs @ [?r])) + int (card (dom (txn_mem tm'))) = 2 * (next_txn_id tm' - 1)"
      using count card by (simp add: tm'(2))
  qed
  moreover have "synced_ok ?wm (recs @ [?r]) k"
    using p(5) by (auto simp: synced_ok_def wal_append_end [OF p(4)[unfolded log_ok_def, THEN conjunct2, THEN conjunct1]])
  moreover have "locks_ok tm' lm"
  proof -
    have "ran (txn_mem tm) \<subseteq> ran (txn_mem tm')" using fresh tm'(1) by (simp add: tm'(2) ran_map_upd subset_insertI)
    then show ?thesis using p(3) unfolding locks_ok_def by blast
  qed
  moreover have "finite (dom (txn_mem tm'))" using fin by (simp add: tm'(2))
  ultimately show "txn_inv tm'" using heap p(1) unfolding txn_inv_def by (auto simp: tm'(2))
  show "\<exists>t. txn_mem tm' = (txn_mem tm)(addr \<mapsto> t) \<and> txn_id t = next_txn_id tm"
    by (rule exI [of _ ?t]) (simp add: tm' txn_init_def)
  show "next_txn_id tm' = next_txn_id tm + 1" by (simp add: tm')
qed

lemma ended_snoc: "ended_history ([type_num WAL_BEGIN] @ [type_num kind]) \<longleftrightarrow> kind = WAL_COMMIT \<or> kind = WAL_ABORT"
  by (cases kind) (simp_all add: ended_history_def)

lemma txn_inv_end:
  assumes inv: "txn_inv tm" and t: "txn_mem tm addr = Some t" and kind: "kind = WAL_COMMIT \<or> kind = WAL_ABORT"
  shows "\<exists>tm'. txn_end kind final addr tm = Some (DB_OK, tm') \<and> txn_inv tm' \<and> txn_mem tm' = (txn_mem tm)(addr := None) \<and>
    (\<exists>wm' recs. wal_mgr tm' = Some wm' \<and> wal_holds wm' (recs @ [txn_record t (last_lsn t) kind]) \<and> log_synced wm' = log wm') \<and>
    next_txn_id tm' = next_txn_id tm"
proof -
  obtain lm wm recs k where p: "lock_mgr tm = Some lm" "wal_mgr tm = Some wm" "locks_ok tm lm" "log_ok tm wm recs" "synced_ok wm recs k"
    and h: "heap_ok tm" and fin: "finite (dom (txn_mem tm))" using inv by (auto simp: txn_inv_def)
  let ?i = "txn_id t" and ?n = "next_txn_id tm"
  let ?r = "txn_record t (last_lsn t) kind"
  let ?wm = "snd (wal_flush (snd (wal_append wm ?r)) (fst (wal_append wm ?r)))"
  let ?lm = "lock_release_all lm ?i"
  let ?tm = "tm\<lparr>wal_mgr := Some ?wm, lock_mgr := Some ?lm, active_txns := snd (hashmap_remove (active_txns tm) (int_key ?i)),
      txn_mem := (txn_mem tm)(addr := None)\<rparr>"
  have i: "1 \<le> ?i" "?i < ?n" "in_range 32 ?i" "tstate t = TXN_ACTIVE" "int_get (active_txns tm) ?i = Some addr"
    using heap_facts [OF h t] by simp_all
  have table: "int_table (active_txns tm)" and n: "?n \<le> 1073741824" using h by (simp_all add: heap_ok_def)
  have get: "int_get (active_txns ?tm) j = (if j = ?i then None else int_get (active_txns tm) j)" if "in_range 32 j" for j
    using int_get_remove [OF table i(3) that] by simp
  have rc: "fst (hashmap_remove (active_txns tm) (int_key ?i)) = 0"
    using table i(5) by (simp add: int_table_def hashmap_remove_result int_get_def)
  have ended: "txn_end kind final addr tm = Some (DB_OK, ?tm)"
  proof -
    obtain active where "hashmap_remove (active_txns tm) (int_key ?i) = (0, active)" using rc by (metis prod.collapse)
    then show ?thesis using t i(4) p(1,2) by (auto simp: txn_end_def Let_def wal_flush_def split: prod.splits)
  qed
  have "heap_ok ?tm" unfolding heap_ok_def
  proof (intro conjI allI impI)
    show "int_table (active_txns ?tm)" using int_table_remove [OF table] by simp
    show "1 \<le> next_txn_id ?tm" "next_txn_id ?tm \<le> 1073741824" using i n by simp_all
    fix j a assume j: "in_range 32 j" "int_get (active_txns ?tm) j = Some a"
    then have "j \<noteq> ?i" "int_get (active_txns tm) j = Some a" using get [OF j(1)] by (simp_all split: if_splits)
    then obtain u where "txn_mem tm a = Some u" "txn_id u = j" using h j(1) by (auto simp: heap_ok_def)
    then show "\<exists>t. txn_mem ?tm a = Some t \<and> txn_id t = j" using \<open>j \<noteq> ?i\<close> t by auto
  next
    fix a u assume "txn_mem ?tm a = Some u"
    then have u: "a \<noteq> addr" "txn_mem tm a = Some u" by (auto split: if_splits)
    then have f: "tstate u = TXN_ACTIVE" "1 \<le> txn_id u" "txn_id u < ?n" "a < txn_brk tm" "int_get (active_txns tm) (txn_id u) = Some a"
      using h by (auto simp: heap_ok_def)
    then show "tstate u = TXN_ACTIVE" "1 \<le> txn_id u" "txn_id u < next_txn_id ?tm" "a < txn_brk ?tm" by simp_all
    have "txn_id u \<noteq> ?i" using heap_id [OF h u(2) t] u(1) by simp
    moreover have "in_range 32 (txn_id u)" using f n by (simp add: in_range_def)
    ultimately show "int_get (active_txns ?tm) (txn_id u) = Some a" using get f(5) by simp
  qed
  moreover have "locks_ok ?tm ?lm"
  proof -
    have "lock_txns lm - {?i} \<subseteq> txn_id ` ran ((txn_mem tm)(addr := None))"
    proof
      fix j assume j: "j \<in> lock_txns lm - {?i}"
      then obtain a u where u: "txn_mem tm a = Some u" "txn_id u = j" using p(3) by (auto simp: locks_ok_def ran_def)
      moreover have "a \<noteq> addr" using u j t by auto
      ultimately show "j \<in> txn_id ` ran ((txn_mem tm)(addr := None))" by (auto simp: ran_def intro!: image_eqI [of _ _ u])
    qed
    then show ?thesis using p(3) lock_txns_release [of lm ?i] release_all_view(1) [of lm 0 ?i]
      by (simp add: locks_ok_def in_range_def)
  qed
  moreover have logs: "log_ok ?tm ?wm (recs @ [?r]) \<and> synced_ok ?wm (recs @ [?r]) (length recs + 1)"
  proof -
    have "addr \<in> dom (txn_mem tm)" using t by blast
    then have card: "card (dom (txn_mem tm)) = Suc (card (dom (txn_mem tm) - {addr}))" using fin by (metis card.remove)
    have count: "int (length recs) + int (card (dom (txn_mem tm))) = 2 * (?n - 1)" using p(4) by (simp add: log_ok_def)
    have "1 \<le> last_lsn t" "last_lsn t \<le> int (length recs)" using p(4) t by (auto simp: log_ok_def ran_def)
    then have "in_range 32 (last_lsn t)" using count n by (simp add: in_range_def)
    then have "rec_ok ?r" using i by (intro txn_record_ok)
    then have w: "wal_holds (snd (wal_append wm ?r)) (recs @ [?r])" "at_end (snd (wal_append wm ?r))"
      using wal_holds_append [of wm recs ?r] p(4) count card n by (simp_all add: log_ok_def)
    have "log_ok ?tm ?wm (recs @ [?r])" unfolding log_ok_def
    proof (intro conjI allI impI ballI)
      show "wal_holds ?wm (recs @ [?r])" "at_end ?wm" using wal_holds_flush [OF w(1)] at_end_flush [OF w(2)] by simp_all
      fix r assume "r \<in> set (recs @ [?r])"
      then show "1 \<le> wr_txn r" "wr_txn r < next_txn_id ?tm" using p(4) i by (auto simp: log_ok_def)
    next
      fix j assume j: "1 \<le> j \<and> j < next_txn_id ?tm"
      then have r: "in_range 32 j" using n by (simp add: in_range_def)
      have hist: "history ?i recs = [type_num WAL_BEGIN]" using p(4) i by (auto simp: log_ok_def)
      show "if int_get (active_txns ?tm) j = None then ended_history (history j (recs @ [?r]))
          else history j (recs @ [?r]) = [type_num WAL_BEGIN]"
        using p(4) j get [OF r] hist ended_snoc [of kind] kind by (auto simp: log_ok_def history_snoc)
    next
      fix u assume "u \<in> ran (txn_mem ?tm)"
      then have "u \<in> ran (txn_mem tm)" by (auto simp: ran_def split: if_splits)
      then show "1 \<le> last_lsn u" "last_lsn u \<le> int (length (recs @ [?r]))"
        "wr_txn ((recs @ [?r]) ! nat (last_lsn u - 1)) = txn_id u"
        using p(4) by (auto simp: log_ok_def nth_append nat_less_iff)
    next
      show "int (length (recs @ [?r])) + int (card (dom (txn_mem ?tm))) = 2 * (next_txn_id ?tm - 1)"
        using count card by simp
    qed
    moreover have "log_synced ?wm = log_bytes 1 (recs @ [?r])" using w(1) by (simp add: wal_flush_def wal_holds_def)
    ultimately show ?thesis by (simp add: synced_ok_def)
  qed
  moreover have "finite (dom (txn_mem ?tm))" using fin by simp
  ultimately have "txn_inv ?tm" unfolding txn_inv_def by (auto simp del: fun_upd_apply)
  moreover have "wal_holds ?wm (recs @ [?r])" "log_synced ?wm = log ?wm"
    using logs by (simp_all add: log_ok_def wal_flush_def)
  ultimately show ?thesis using ended by (intro exI [of _ ?tm]) auto
qed

lemma txn_inv_lock:
  assumes inv: "txn_inv tm" and t: "txn_mem tm addr = Some t" and lm: "lock_mgr tm = Some lm"
    and l: "in_range 32 res" "lock_acquire lm (txn_id t) res mode = (rc, lm')"
  shows "txn_inv (tm\<lparr>lock_mgr := Some lm'\<rparr>)"
proof -
  have "locks_ok tm lm" using inv lm by (auto simp: txn_inv_def)
  moreover have "txn_id t \<in> txn_id ` ran (txn_mem tm)" using t by (auto simp: ran_def)
  ultimately have "locks_ok (tm\<lparr>lock_mgr := Some lm'\<rparr>) lm'"
    using lock_txns_acquire [OF _ l] by (auto simp: locks_ok_def)
  then show ?thesis using inv by (auto simp: txn_inv_def heap_ok_def log_ok_def)
qed

lemma txn_inv_step:
  assumes inv: "txn_inv tm" and s: "txn_step tm tm'"
  shows "txn_inv tm'"
proof (rule txn_stepE [OF s])
  fix level addr assume "next_txn_id tm < 1073741824" "txn_begin level tm = (addr, tm')"
  then show ?thesis by (rule txn_inv_begin(1) [OF inv])
next
  fix addr rc assume "txn_commit addr tm = Some (rc, tm')"
  then have e: "txn_end WAL_COMMIT TXN_COMMITTED addr tm = Some (rc, tm')" by (simp add: txn_commit_def)
  then obtain t where "txn_mem tm addr = Some t" by (cases "txn_mem tm addr") (auto simp: txn_end_def)
  then show ?thesis using txn_inv_end [OF inv, where kind = WAL_COMMIT and final = TXN_COMMITTED] e by fastforce
next
  fix addr rc assume "txn_abort addr tm = Some (rc, tm')"
  then have e: "txn_end WAL_ABORT TXN_ABORTED addr tm = Some (rc, tm')" by (simp add: txn_abort_def)
  then obtain t where "txn_mem tm addr = Some t" by (cases "txn_mem tm addr") (auto simp: txn_end_def)
  then show ?thesis using txn_inv_end [OF inv, where kind = WAL_ABORT and final = TXN_ABORTED] e by fastforce
qed (use txn_inv_lock [OF inv] in auto)

lemma txn_inv_reachable: "txn_reachable tm \<Longrightarrow> txn_inv tm"
  by (induction rule: txn_reachable.induct) (auto intro: txn_inv_init txn_inv_step)

lemma log_records_of:
  "wal_holds wm recs \<Longrightarrow> map wr_type (filter (\<lambda>r. wr_txn r = i) (wal_read_all wm)) = history i recs"
proof -
  have "map wr_type (filter (\<lambda>r. wr_txn r = i) (logged_list lsn recs)) = history i recs" for lsn
    by (induction recs arbitrary: lsn) (simp_all add: history_def logged_def)
  then show "wal_holds wm recs \<Longrightarrow> map wr_type (filter (\<lambda>r. wr_txn r = i) (wal_read_all wm)) = history i recs"
    by (simp add: wal_read_all_log)
qed

text \<open>C33. In every state a system of transactions can reach (any interleaving of beginnings, commits,
  aborts and lock requests, on a fresh log): the table of active transactions holds exactly the live
  transactions, all in state active; only active transactions hold locks or wait in a queue (two-phase
  locking: an ended transaction has none left); and the log has for each id that was given out one
  BEGIN record, followed by one COMMIT or ABORT record exactly when the transaction has ended.\<close>

theorem txn_reachable_invariant:
  assumes "txn_reachable tm"
  shows "\<exists>lm wm. lock_mgr tm = Some lm \<and> wal_mgr tm = Some wm \<and>
    (\<forall>i a. in_range 32 i \<longrightarrow> (txn_get tm i = Some a \<longleftrightarrow> (\<exists>t. txn_mem tm a = Some t \<and> txn_id t = i))) \<and>
    (\<forall>a t. txn_mem tm a = Some t \<longrightarrow> txn_is_active (Some t)) \<and>
    (\<forall>i res. in_range 32 res \<and> lock_has_lock lm i res \<longrightarrow> txn_get tm i \<noteq> None) \<and>
    (\<forall>i. 1 \<le> i \<and> i < next_txn_id tm \<longrightarrow>
      map wr_type (filter (\<lambda>r. wr_txn r = i) (wal_read_all wm)) \<in>
        (if txn_get tm i \<noteq> None then {[type_num WAL_BEGIN]}
         else {[type_num WAL_BEGIN, type_num WAL_COMMIT], [type_num WAL_BEGIN, type_num WAL_ABORT]}))"
proof -
  have inv: "txn_inv tm" using assms by (rule txn_inv_reachable)
  then obtain lm wm recs k where p: "lock_mgr tm = Some lm" "wal_mgr tm = Some wm" "locks_ok tm lm" "log_ok tm wm recs"
    and h: "heap_ok tm" by (auto simp: txn_inv_def)
  have get: "txn_get tm i = int_get (active_txns tm) i" for i by (simp add: txn_get_def int_get_def)
  have table: "txn_get tm i = Some a \<longleftrightarrow> (\<exists>t. txn_mem tm a = Some t \<and> txn_id t = i)" if "in_range 32 i" for i a
    using h that heap_facts(5) [OF h] unfolding get by (auto simp: heap_ok_def)
  have locks: "txn_get tm i \<noteq> None" if "in_range 32 res" "lock_has_lock lm i res" for i res
  proof -
    have "i \<in> lock_txns lm" using lock_txns_has that by blast
    then obtain a t where t: "txn_mem tm a = Some t" "txn_id t = i" using p(3) by (auto simp: locks_ok_def ran_def)
    then show ?thesis using heap_facts(5) [OF h t(1)] get by simp
  qed
  have hist: "map wr_type (filter (\<lambda>r. wr_txn r = i) (wal_read_all wm)) = history i recs" for i
    using log_records_of p(4) by (simp add: log_ok_def)
  have log: "history i recs \<in> (if txn_get tm i \<noteq> None then {[type_num WAL_BEGIN]}
      else {[type_num WAL_BEGIN, type_num WAL_COMMIT], [type_num WAL_BEGIN, type_num WAL_ABORT]})"
    if "1 \<le> i" "i < next_txn_id tm" for i
    using p(4) that unfolding log_ok_def get ended_history_def by (auto split: if_splits)
  have act: "txn_is_active (Some t)" if "txn_mem tm a = Some t" for a t
    using heap_facts(1) [OF h that] by (simp add: txn_is_active_def)
  note log' = log [folded hist]
  show ?thesis by (intro exI [of _ lm] exI [of _ wm]) (use p(1,2) table act locks log' in blast)
qed

definition demo_txns :: txn_manager where
  "demo_txns = snd (txn_begin ISOLATION_READ_COMMITTED (txn_manager_init (Some lock_manager_init) (Some demo_wal)))"

lemma demo_txns_reachable:
  "txn_reachable demo_txns \<and> (\<exists>t. txn_mem demo_txns 0 = Some t \<and> txn_id t = 1) \<and> next_txn_id demo_txns = 2"
proof -
  let ?tm = "txn_manager_init (Some lock_manager_init) (Some demo_wal)"
  obtain addr where b: "txn_begin ISOLATION_READ_COMMITTED ?tm = (addr, demo_txns)" "addr = 0"
    unfolding demo_txns_def by (simp add: txn_begin_def txn_manager_init_def Let_def split: prod.split)
  have s: "txn_reachable ?tm" using demo_wal_init by (rule start)
  have "txn_reachable demo_txns" by (rule step [OF s txn_begins [OF _ b(1)]]) (simp add: txn_manager_init_def)
  then show ?thesis
    using txn_inv_begin(3,4) [OF txn_inv_reachable [OF s] _ b(1)] b(2) by (auto simp: txn_manager_init_def)
qed

theorem txn_reachable_invariant_witness:
  "\<exists>wm. wal_mgr demo_txns = Some wm \<and> map wr_type (filter (\<lambda>r. wr_txn r = 1) (wal_read_all wm)) = [type_num WAL_BEGIN]"
proof -
  obtain t where t: "txn_reachable demo_txns" "txn_mem demo_txns 0 = Some t" "txn_id t = 1" "next_txn_id demo_txns = 2"
    using demo_txns_reachable by blast
  obtain lm wm where w: "wal_mgr demo_txns = Some wm"
    "\<And>i a. in_range 32 i \<Longrightarrow> (txn_get demo_txns i = Some a \<longleftrightarrow> (\<exists>t. txn_mem demo_txns a = Some t \<and> txn_id t = i))"
    "\<And>i. 1 \<le> i \<and> i < next_txn_id demo_txns \<Longrightarrow>
      map wr_type (filter (\<lambda>r. wr_txn r = i) (wal_read_all wm)) \<in>
        (if txn_get demo_txns i \<noteq> None then {[type_num WAL_BEGIN]}
         else {[type_num WAL_BEGIN, type_num WAL_COMMIT], [type_num WAL_BEGIN, type_num WAL_ABORT]})"
    using txn_reachable_invariant [OF t(1)] by blast
  have "txn_get demo_txns 1 = Some 0" using w(2) [of 1 0] t by (simp add: in_range_def)
  then show ?thesis using w(1) w(3) [of 1] t(4) by auto
qed

text \<open>C34. Ending a live transaction in a reachable state succeeds. A commit forces the whole log out, with
  the COMMIT record in it; the transaction is gone from the table and from all lock queues, the others
  are untouched, and the state is reachable again. But its block is freed: a second commit or abort
  through the same pointer reads freed memory instead of returning DB_TXN_ABORTED, and the guard that
  would return this code fires in no reachable state.\<close>

theorem txn_commit_spec:
  assumes r: "txn_reachable tm"
  shows "(\<forall>t. txn_mem tm addr = Some t \<longrightarrow>
      (\<exists>tm' lm wm. txn_commit addr tm = Some (DB_OK, tm') \<and> txn_reachable tm' \<and> txn_mem tm' = (txn_mem tm)(addr := None) \<and>
         lock_mgr tm' = Some lm \<and> (\<forall>res. in_range 32 res \<longrightarrow> \<not> lock_has_lock lm (txn_id t) res) \<and>
         wal_mgr tm' = Some wm \<and> log_synced wm = log wm \<and> wr_type (last (wal_read_all wm)) = type_num WAL_COMMIT \<and>
         txn_commit addr tm' = None \<and> txn_abort addr tm' = None)) \<and>
    (\<forall>rc tm'. txn_commit addr tm = Some (rc, tm') \<or> txn_abort addr tm = Some (rc, tm') \<longrightarrow> rc = DB_OK)"
proof (intro conjI allI impI)
  have inv: "txn_inv tm" using r by (rule txn_inv_reachable)
  have h: "heap_ok tm" using inv by (simp add: txn_inv_def)
  fix t assume t: "txn_mem tm addr = Some t"
  obtain tm' wm recs where e: "txn_end WAL_COMMIT TXN_COMMITTED addr tm = Some (DB_OK, tm')" "txn_inv tm'"
    "txn_mem tm' = (txn_mem tm)(addr := None)" "wal_mgr tm' = Some wm" "log_synced wm = log wm"
    "wal_holds wm (recs @ [txn_record t (last_lsn t) WAL_COMMIT])"
    using txn_inv_end [OF inv t, of WAL_COMMIT TXN_COMMITTED] by blast
  obtain lm' where p': "lock_mgr tm' = Some lm'" "locks_ok tm' lm'" using e(2) by (auto simp: txn_inv_def)
  have no_lock: "\<not> lock_has_lock lm' (txn_id t) res" if "in_range 32 res" for res
  proof
    assume "lock_has_lock lm' (txn_id t) res"
    then have "txn_id t \<in> lock_txns lm'" using lock_txns_has that by blast
    then obtain a u where u: "txn_mem tm' a = Some u" "txn_id u = txn_id t" using p'(2) by (auto simp: locks_ok_def ran_def)
    then have "a \<noteq> addr" "txn_mem tm a = Some u" using e(3) by (auto split: if_splits)
    then show False using heap_id [OF h] u(2) t by blast
  qed
  have c: "txn_commit addr tm = Some (DB_OK, tm')" using e(1) by (simp add: txn_commit_def)
  have "wr_type (last (wal_read_all wm)) = type_num WAL_COMMIT"
    using wal_read_all_log [OF e(6)] by (simp add: logged_list_snoc logged_def)
  moreover have "txn_reachable tm'" using step [OF r txn_commits [OF c]] .
  moreover have "txn_commit addr tm' = None" "txn_abort addr tm' = None"
    by (simp_all add: e(3) txn_commit_def txn_abort_def txn_end_def)
  ultimately show "\<exists>tm' lm wm. txn_commit addr tm = Some (DB_OK, tm') \<and> txn_reachable tm' \<and> txn_mem tm' = (txn_mem tm)(addr := None) \<and>
         lock_mgr tm' = Some lm \<and> (\<forall>res. in_range 32 res \<longrightarrow> \<not> lock_has_lock lm (txn_id t) res) \<and>
         wal_mgr tm' = Some wm \<and> log_synced wm = log wm \<and> wr_type (last (wal_read_all wm)) = type_num WAL_COMMIT \<and>
         txn_commit addr tm' = None \<and> txn_abort addr tm' = None"
    using c e(3-5) p'(1) no_lock by blast
next
  fix rc tm' assume a: "txn_commit addr tm = Some (rc, tm') \<or> txn_abort addr tm = Some (rc, tm')"
  have inv: "txn_inv tm" using r by (rule txn_inv_reachable)
  show "rc = DB_OK"
  proof (cases "txn_mem tm addr")
    case None
    then show ?thesis using a by (simp add: txn_commit_def txn_abort_def txn_end_def)
  next
    case (Some t)
    show ?thesis
      using a txn_inv_end [OF inv Some, of WAL_COMMIT TXN_COMMITTED] txn_inv_end [OF inv Some, of WAL_ABORT TXN_ABORTED]
      by (auto simp: txn_commit_def txn_abort_def)
  qed
qed

theorem txn_commit_spec_witness:
  "\<exists>tm'. txn_commit 0 demo_txns = Some (DB_OK, tm') \<and> txn_commit 0 tm' = None"
proof -
  obtain t where "txn_reachable demo_txns" "txn_mem demo_txns 0 = Some t" using demo_txns_reachable by blast
  from txn_commit_spec [OF this(1)] this(2) show ?thesis by blast
qed

end
