(* ===== verification/Linked_List.thy ===== *)
theory Linked_List
  imports Prelude_Db
begin

text \<open>
  The intrusive doubly linked list of \<open>src/common/list.c\<close>, on an explicit store: a pointer addresses a
  node with its prev and next pointers, which may be NULL (None), and a list is the address of its
  sentinel with a size counter. Every C assignment is an assignment of the store, in order; an
  operation is None when it would dereference NULL. The theory shows that on a store in which the
  list is properly linked (\<open>list_ok\<close>) each operation runs through and is the operation on the list
  of nodes, touching no node outside the list.
\<close>

section \<open>Nodes and lists\<close>

record 'p lnode =
  prv :: "'p option"
  nxt :: "'p option"

type_synonym 'p store = "'p \<Rightarrow> 'p lnode"

record 'p llist =
  sentinel :: 'p
  lsize :: nat

definition set_prv :: "'p store \<Rightarrow> 'p \<Rightarrow> 'p option \<Rightarrow> 'p store" where
  "set_prv h a v = h(a := (h a)\<lparr>prv := v\<rparr>)"

definition set_nxt :: "'p store \<Rightarrow> 'p \<Rightarrow> 'p option \<Rightarrow> 'p store" where
  "set_nxt h a v = h(a := (h a)\<lparr>nxt := v\<rparr>)"

definition list_init :: "'p llist \<Rightarrow> 'p store \<Rightarrow> 'p llist \<times> 'p store" where
  "list_init l h =
     (let h = set_prv h (sentinel l) (Some (sentinel l));
          h = set_nxt h (sentinel l) (Some (sentinel l))
      in (l\<lparr>lsize := 0\<rparr>, h))"

definition list_push_front :: "'p llist \<Rightarrow> 'p \<Rightarrow> 'p store \<Rightarrow> ('p llist \<times> 'p store) option" where
  "list_push_front l node h =
     (let h = set_nxt h node (nxt (h (sentinel l)));
          h = set_prv h node (Some (sentinel l))
      in case nxt (h (sentinel l)) of
           None \<Rightarrow> None
         | Some first \<Rightarrow>
             let h = set_prv h first (Some node);
                 h = set_nxt h (sentinel l) (Some node)
             in Some (l\<lparr>lsize := lsize l + 1\<rparr>, h))"

definition list_push_back :: "'p llist \<Rightarrow> 'p \<Rightarrow> 'p store \<Rightarrow> ('p llist \<times> 'p store) option" where
  "list_push_back l node h =
     (let h = set_prv h node (prv (h (sentinel l)));
          h = set_nxt h node (Some (sentinel l))
      in case prv (h (sentinel l)) of
           None \<Rightarrow> None
         | Some final \<Rightarrow>
             let h = set_nxt h final (Some node);
                 h = set_prv h (sentinel l) (Some node)
             in Some (l\<lparr>lsize := lsize l + 1\<rparr>, h))"

definition list_remove :: "'p \<Rightarrow> 'p store \<Rightarrow> 'p store option" where
  "list_remove node h =
     (case prv (h node) of
        None \<Rightarrow> None
      | Some p \<Rightarrow>
          let h = set_nxt h p (nxt (h node)) in
          case nxt (h node) of
            None \<Rightarrow> None
          | Some n \<Rightarrow>
              let h = set_prv h n (prv (h node));
                  h = set_prv h node None
              in Some (set_nxt h node None))"

definition list_pop_front :: "'p llist \<Rightarrow> 'p store \<Rightarrow> ('p option \<times> 'p llist \<times> 'p store) option" where
  "list_pop_front l h =
     (if lsize l = 0 then Some (None, l, h)
      else case nxt (h (sentinel l)) of
        None \<Rightarrow> None
      | Some node \<Rightarrow>
          (case list_remove node h of
             None \<Rightarrow> None
           | Some h \<Rightarrow> Some (Some node, l\<lparr>lsize := lsize l - 1\<rparr>, h)))"

definition list_pop_back :: "'p llist \<Rightarrow> 'p store \<Rightarrow> ('p option \<times> 'p llist \<times> 'p store) option" where
  "list_pop_back l h =
     (if lsize l = 0 then Some (None, l, h)
      else case prv (h (sentinel l)) of
        None \<Rightarrow> None
      | Some node \<Rightarrow>
          (case list_remove node h of
             None \<Rightarrow> None
           | Some h \<Rightarrow> Some (Some node, l\<lparr>lsize := lsize l - 1\<rparr>, h)))"

text \<open>The counter is a \<open>size_t\<close>; it is only decremented with a node of the list in hand.\<close>

definition list_remove_from :: "'p llist \<Rightarrow> 'p \<Rightarrow> 'p store \<Rightarrow> ('p llist \<times> 'p store) option" where
  "list_remove_from l node h =
     (case list_remove node h of None \<Rightarrow> None | Some h \<Rightarrow> Some (l\<lparr>lsize := lsize l - 1\<rparr>, h))"

definition list_size :: "'p llist \<Rightarrow> nat" where
  "list_size l = lsize l"

definition list_empty :: "'p llist \<Rightarrow> bool" where
  "list_empty l \<longleftrightarrow> lsize l = 0"

section \<open>Properly linked lists\<close>

text \<open>\<open>links h a xs b\<close>: from node a the next pointers lead through xs to b, and the prev pointers back.\<close>

fun links :: "'p store \<Rightarrow> 'p \<Rightarrow> 'p list \<Rightarrow> 'p \<Rightarrow> bool" where
  "links h a [] b \<longleftrightarrow> nxt (h a) = Some b \<and> prv (h b) = Some a"
| "links h a (x # xs) b \<longleftrightarrow> nxt (h a) = Some x \<and> prv (h x) = Some a \<and> links h x xs b"

definition list_ok :: "'p store \<Rightarrow> 'p llist \<Rightarrow> 'p list \<Rightarrow> bool" where
  "list_ok h l xs \<longleftrightarrow> links h (sentinel l) xs (sentinel l) \<and> distinct (sentinel l # xs) \<and> lsize l = length xs"

lemma links_append: "links h a (xs @ y # ys) b \<longleftrightarrow> links h a xs y \<and> links h y ys b"
  by (induction xs arbitrary: a) auto

lemma links_cong:
  "links h a xs b \<Longrightarrow> (\<And>p. p \<in> insert a (set xs) \<Longrightarrow> nxt (h' p) = nxt (h p)) \<Longrightarrow>
   (\<And>p. p \<in> insert b (set xs) \<Longrightarrow> prv (h' p) = prv (h p)) \<Longrightarrow> links h' a xs b"
  by (induction xs arbitrary: a) auto

lemma links_first: "links h a xs b \<Longrightarrow> nxt (h a) = Some (hd (xs @ [b])) \<and> prv (h (hd (xs @ [b]))) = Some a"
  by (cases xs) auto

lemma links_last: "links h a xs b \<Longrightarrow> prv (h b) = Some (last (a # xs)) \<and> nxt (h (last (a # xs))) = Some b"
  by (induction xs arbitrary: a) auto

lemma set_fields [simp]:
  "prv (set_prv h a v x) = (if x = a then v else prv (h x))"
  "nxt (set_prv h a v x) = nxt (h x)"
  "nxt (set_nxt h a v x) = (if x = a then v else nxt (h x))"
  "prv (set_nxt h a v x) = prv (h x)"
  by (simp_all add: set_prv_def set_nxt_def)

lemma set_other [simp]:
  "x \<noteq> a \<Longrightarrow> set_prv h a v x = h x" "x \<noteq> a \<Longrightarrow> set_nxt h a v x = h x"
  by (simp_all add: set_prv_def set_nxt_def)

text \<open>A list is unaffected by changes to nodes that it does not reach.\<close>

lemma list_ok_frame:
  "list_ok h l xs \<Longrightarrow> (\<And>p. p \<in> insert (sentinel l) (set xs) \<Longrightarrow> h' p = h p) \<Longrightarrow> list_ok h' l xs"
  unfolding list_ok_def by (auto intro: links_cong)

lemma list_init_ok: "case list_init l h of (l', h') \<Rightarrow> list_ok h' l' [] \<and> sentinel l' = sentinel l \<and>
    (\<forall>p. p \<noteq> sentinel l \<longrightarrow> h' p = h p)"
  by (simp add: list_init_def list_ok_def)

text \<open>Linking a node between two neighbours, and unlinking it.\<close>

definition link_between :: "'p store \<Rightarrow> 'p \<Rightarrow> 'p \<Rightarrow> 'p \<Rightarrow> 'p store" where
  "link_between h a node b = set_nxt (set_prv (set_prv (set_nxt h node (Some b)) node (Some a)) b (Some node)) a (Some node)"

lemma link_between_links:
  assumes l: "links h s (xs @ ys) s" and d: "distinct (s # xs @ ys)" and n: "node \<notin> set (s # xs @ ys)"
  shows "links (link_between h (last (s # xs)) node (hd (ys @ [s]))) s (xs @ node # ys) s"
proof (cases ys)
  case Nil
  have "links (link_between h (last (s # xs)) node s) s xs node"
    using l d n unfolding Nil
    by (induction xs arbitrary: s rule: rev_induct) (auto simp: link_between_def links_append intro: links_cong)
  then show ?thesis using n by (auto simp: Nil links_append link_between_def)
next
  case (Cons y zs)
  have l1: "links h s xs y" and l2: "links h y zs s" using l by (simp_all add: Cons links_append)
  have "links (link_between h (last (s # xs)) node y) s xs node"
  proof (cases xs rule: rev_cases)
    case Nil
    then show ?thesis using d n Cons by (auto simp: link_between_def)
  next
    case (snoc us u)
    then show ?thesis using l1 d n Cons by (auto simp: link_between_def links_append intro: links_cong)
  qed
  moreover have "links (link_between h (last (s # xs)) node y) y zs s"
    using l2
  proof (rule links_cong)
    fix p assume p: "p \<in> insert y (set zs)"
    then have "p \<noteq> last (s # xs)" "p \<noteq> node" using d n Cons last_in_set [of "s # xs"] by auto
    then show "nxt (link_between h (last (s # xs)) node y p) = nxt (h p)" by (simp add: link_between_def)
  next
    fix p assume p: "p \<in> insert s (set zs)"
    then have "p \<noteq> y" "p \<noteq> node" using d n Cons by auto
    then show "prv (link_between h (last (s # xs)) node y p) = prv (h p)" by (simp add: link_between_def)
  qed
  ultimately show ?thesis using d n by (auto simp: Cons links_append link_between_def)
qed

definition unlinked :: "'p store \<Rightarrow> 'p \<Rightarrow> 'p \<Rightarrow> 'p \<Rightarrow> 'p store" where
  "unlinked h a node b = set_nxt (set_prv (set_prv (set_nxt h a (Some b)) b (Some a)) node None) node None"

lemma unlinked_links:
  assumes l: "links h s (xs @ node # ys) s" and d: "distinct (s # xs @ node # ys)"
  shows "links (unlinked h (last (s # xs)) node (hd (ys @ [s]))) s (xs @ ys) s"
proof -
  have l1: "links h s xs node" and l2: "links h node ys s" using l by (simp_all add: links_append)
  let ?a = "last (s # xs)" and ?b = "hd (ys @ [s])"
  let ?h = "unlinked h ?a node ?b"
  have a: "?a \<noteq> node" using d last_in_set [of "s # xs"] by auto
  have b: "?b \<noteq> node" using d by (cases ys) auto
  have first: "links ?h s xs ?b"
  proof (cases xs rule: rev_cases)
    case Nil
    then show ?thesis using a b by (auto simp: unlinked_def)
  next
    case (snoc us u)
    have "links ?h s us u"
    proof (rule links_cong)
      show "links h s us u" using l1 snoc by (simp add: links_append)
      show "nxt (?h p) = nxt (h p)" if "p \<in> insert s (set us)" for p
        using that d snoc by (auto simp: unlinked_def)
      show "prv (?h p) = prv (h p)" if "p \<in> insert u (set us)" for p
      proof -
        have "p \<noteq> ?b" "p \<noteq> node" using that d snoc by (cases ys; auto)+
        then show ?thesis by (simp add: unlinked_def)
      qed
    qed
    then show ?thesis using a b snoc by (auto simp: links_append unlinked_def)
  qed
  show ?thesis
  proof (cases ys)
    case Nil
    then show ?thesis using first by simp
  next
    case (Cons y zs)
    have "links ?h y zs s"
    proof (rule links_cong)
      show "links h y zs s" using l2 Cons by simp
      show "nxt (?h p) = nxt (h p)" if "p \<in> insert y (set zs)" for p
      proof -
        have "p \<noteq> ?a" "p \<noteq> node" using that d Cons last_in_set [of "s # xs"] by auto
        then show ?thesis by (simp add: unlinked_def)
      qed
      show "prv (?h p) = prv (h p)" if "p \<in> insert s (set zs)" for p
        using that d Cons by (auto simp: unlinked_def)
    qed
    then show ?thesis using first Cons by (simp add: links_append)
  qed
qed

section \<open>The operations refine those on the list of nodes\<close>

lemma list_push_front_ok:
  assumes ok: "list_ok h l xs" and n: "node \<notin> insert (sentinel l) (set xs)"
  obtains h' where "list_push_front l node h = Some (l\<lparr>lsize := lsize l + 1\<rparr>, h')"
    "list_ok h' (l\<lparr>lsize := lsize l + 1\<rparr>) (node # xs)"
    "\<And>p. p \<notin> insert node (insert (sentinel l) (set xs)) \<Longrightarrow> h' p = h p"
proof -
  let ?s = "sentinel l" and ?b = "hd (xs @ [sentinel l])"
  let ?h = "link_between h ?s node ?b"
  have lk: "links h ?s xs ?s" and d: "distinct (?s # xs)" and sz: "lsize l = length xs"
    using ok by (simp_all add: list_ok_def)
  have ns: "node \<noteq> ?s" using n by simp
  have b: "nxt (h ?s) = Some ?b" using links_first [OF lk] by simp
  have bs: "?b \<in> insert ?s (set xs)" by (cases xs) auto
  show ?thesis
  proof (rule that [of ?h])
    show "list_push_front l node h = Some (l\<lparr>lsize := lsize l + 1\<rparr>, ?h)"
      using b ns by (simp add: list_push_front_def Let_def link_between_def)
    have "links ?h ?s (node # xs) ?s"
      using link_between_links [of h ?s "[]" xs node] lk d n by simp
    then show "list_ok ?h (l\<lparr>lsize := lsize l + 1\<rparr>) (node # xs)"
      using d n sz by (auto simp: list_ok_def)
    show "?h p = h p" if "p \<notin> insert node (insert ?s (set xs))" for p
    proof -
      have "p \<noteq> node" "p \<noteq> ?s" "p \<noteq> ?b" using that bs by auto
      then show ?thesis by (simp add: link_between_def)
    qed
  qed
qed

lemma list_push_back_ok:
  assumes ok: "list_ok h l xs" and n: "node \<notin> insert (sentinel l) (set xs)"
  obtains h' where "list_push_back l node h = Some (l\<lparr>lsize := lsize l + 1\<rparr>, h')"
    "list_ok h' (l\<lparr>lsize := lsize l + 1\<rparr>) (xs @ [node])"
    "\<And>p. p \<notin> insert node (insert (sentinel l) (set xs)) \<Longrightarrow> h' p = h p"
proof -
  let ?s = "sentinel l" and ?a = "last (sentinel l # xs)"
  let ?h = "set_prv (set_nxt (set_nxt (set_prv h node (Some ?a)) node (Some ?s)) ?a (Some node)) ?s (Some node)"
  have lk: "links h ?s xs ?s" and d: "distinct (?s # xs)" and sz: "lsize l = length xs"
    using ok by (simp_all add: list_ok_def)
  have ns: "node \<noteq> ?s" using n by simp
  have a: "prv (h ?s) = Some ?a" using links_last [OF lk] by simp
  have as: "?a \<in> insert ?s (set xs)" by (cases xs rule: rev_cases) auto
  then have na: "node \<noteq> ?a" using n by auto
  have eq: "?h = link_between h ?a node ?s"
    using ns na by (rule_tac ext) (auto simp: link_between_def set_prv_def set_nxt_def)
  show ?thesis
  proof (rule that [of ?h])
    show "list_push_back l node h = Some (l\<lparr>lsize := lsize l + 1\<rparr>, ?h)"
      using a ns by (simp add: list_push_back_def Let_def)
    have "links ?h ?s (xs @ [node]) ?s"
      using link_between_links [of h ?s xs "[]" node] lk d n unfolding eq by simp
    then show "list_ok ?h (l\<lparr>lsize := lsize l + 1\<rparr>) (xs @ [node])"
      using d n sz by (auto simp: list_ok_def)
    show "?h p = h p" if "p \<notin> insert node (insert ?s (set xs))" for p
    proof -
      have "p \<noteq> node" "p \<noteq> ?s" "p \<noteq> ?a" using that as by auto
      then show ?thesis by simp
    qed
  qed
qed

lemma list_remove_ok:
  assumes lk: "links h s (xs @ node # ys) s" and d: "distinct (s # xs @ node # ys)"
  obtains h' where "list_remove node h = Some h'" "links h' s (xs @ ys) s"
    "\<And>p. p \<notin> insert s (set (xs @ node # ys)) \<Longrightarrow> h' p = h p"
proof -
  let ?a = "last (s # xs)" and ?b = "hd (ys @ [s])"
  have p: "prv (h node) = Some ?a" and n: "nxt (h node) = Some ?b"
    using lk links_last [of h s xs node] links_first [of h node ys s] by (simp_all add: links_append)
  have a: "?a \<noteq> node" "?a \<in> insert s (set xs)" using d last_in_set [of "s # xs"] by auto
  have b: "?b \<in> insert s (set ys)" by (cases ys) auto
  show ?thesis
  proof (rule that [of "unlinked h ?a node ?b"])
    show "list_remove node h = Some (unlinked h ?a node ?b)"
      using p n a by (simp add: list_remove_def Let_def unlinked_def)
    show "links (unlinked h ?a node ?b) s (xs @ ys) s" by (rule unlinked_links [OF lk d])
    show "unlinked h ?a node ?b p = h p" if "p \<notin> insert s (set (xs @ node # ys))" for p
    proof -
      have "p \<noteq> node" "p \<noteq> ?a" "p \<noteq> ?b" using that a b by auto
      then show ?thesis by (simp add: unlinked_def)
    qed
  qed
qed

lemma list_remove_from_ok:
  assumes ok: "list_ok h l xs" and n: "node \<in> set xs"
  obtains h' where "list_remove_from l node h = Some (l\<lparr>lsize := lsize l - 1\<rparr>, h')"
    "list_ok h' (l\<lparr>lsize := lsize l - 1\<rparr>) (remove1 node xs)"
    "\<And>p. p \<notin> insert (sentinel l) (set xs) \<Longrightarrow> h' p = h p"
proof -
  obtain ys zs where xs: "xs = ys @ node # zs" using n by (auto simp: in_set_conv_decomp)
  have lk: "links h (sentinel l) (ys @ node # zs) (sentinel l)" and d: "distinct (sentinel l # ys @ node # zs)"
    and sz: "lsize l = length xs" using ok unfolding xs list_ok_def by simp_all
  have r: "remove1 node xs = ys @ zs" using d by (simp add: xs remove1_append)
  obtain h' where h': "list_remove node h = Some h'" "links h' (sentinel l) (ys @ zs) (sentinel l)"
    "\<And>p. p \<notin> insert (sentinel l) (set (ys @ node # zs)) \<Longrightarrow> h' p = h p"
    using list_remove_ok [OF lk d] by blast
  show ?thesis
  proof (rule that [of h'])
    show "list_remove_from l node h = Some (l\<lparr>lsize := lsize l - 1\<rparr>, h')" using h'(1) by (simp add: list_remove_from_def)
    show "list_ok h' (l\<lparr>lsize := lsize l - 1\<rparr>) (remove1 node xs)"
      unfolding r using h'(2) d sz by (auto simp: list_ok_def xs)
    show "h' p = h p" if "p \<notin> insert (sentinel l) (set xs)" for p using h'(3) that by (simp add: xs)
  qed
qed

lemma list_pop_empty: "list_ok h l [] \<Longrightarrow> list_pop_front l h = Some (None, l, h) \<and> list_pop_back l h = Some (None, l, h)"
  by (simp add: list_ok_def list_pop_front_def list_pop_back_def)

lemma list_pop_front_ok:
  assumes ok: "list_ok h l (x # xs)"
  obtains h' where "list_pop_front l h = Some (Some x, l\<lparr>lsize := lsize l - 1\<rparr>, h')"
    "list_ok h' (l\<lparr>lsize := lsize l - 1\<rparr>) xs" "\<And>p. p \<notin> insert (sentinel l) (set (x # xs)) \<Longrightarrow> h' p = h p"
proof -
  have n: "nxt (h (sentinel l)) = Some x" "lsize l \<noteq> 0" using ok by (auto simp: list_ok_def)
  obtain h' where h': "list_remove_from l x h = Some (l\<lparr>lsize := lsize l - 1\<rparr>, h')"
    "list_ok h' (l\<lparr>lsize := lsize l - 1\<rparr>) (remove1 x (x # xs))"
    "\<And>p. p \<notin> insert (sentinel l) (set (x # xs)) \<Longrightarrow> h' p = h p"
    by (rule list_remove_from_ok [OF ok]) auto
  show ?thesis
    by (rule that [of h'])
      (use n h' in \<open>auto simp: list_pop_front_def list_remove_from_def split: option.splits\<close>)
qed

lemma list_pop_back_ok:
  assumes ok: "list_ok h l (xs @ [x])"
  obtains h' where "list_pop_back l h = Some (Some x, l\<lparr>lsize := lsize l - 1\<rparr>, h')"
    "list_ok h' (l\<lparr>lsize := lsize l - 1\<rparr>) xs" "\<And>p. p \<notin> insert (sentinel l) (set (xs @ [x])) \<Longrightarrow> h' p = h p"
proof -
  have n: "prv (h (sentinel l)) = Some x" "lsize l \<noteq> 0" and d: "x \<notin> set xs"
    using ok by (auto simp: list_ok_def links_append)
  obtain h' where h': "list_remove_from l x h = Some (l\<lparr>lsize := lsize l - 1\<rparr>, h')"
    "list_ok h' (l\<lparr>lsize := lsize l - 1\<rparr>) (remove1 x (xs @ [x]))"
    "\<And>p. p \<notin> insert (sentinel l) (set (xs @ [x])) \<Longrightarrow> h' p = h p"
    by (rule list_remove_from_ok [OF ok]) auto
  show ?thesis
    by (rule that [of h'])
      (use n d h' in \<open>auto simp: list_pop_back_def list_remove_from_def remove1_append split: option.splits\<close>)
qed

section \<open>Properties\<close>

datatype 'p list_op = Push_Front 'p | Push_Back 'p | Pop_Front | Pop_Back | Remove_From 'p

text \<open>A step of the C code, with the node that a pop returns, and the same step on a list of nodes.\<close>

fun list_step :: "'p list_op \<Rightarrow> 'p llist \<Rightarrow> 'p store \<Rightarrow> ('p option \<times> 'p llist \<times> 'p store) option" where
  "list_step (Push_Front n) l h = map_option (Pair None) (list_push_front l n h)"
| "list_step (Push_Back n) l h = map_option (Pair None) (list_push_back l n h)"
| "list_step Pop_Front l h = list_pop_front l h"
| "list_step Pop_Back l h = list_pop_back l h"
| "list_step (Remove_From n) l h = map_option (Pair None) (list_remove_from l n h)"

fun seq_step :: "'p list_op \<Rightarrow> 'p list \<Rightarrow> 'p option \<times> 'p list" where
  "seq_step (Push_Front n) xs = (None, n # xs)"
| "seq_step (Push_Back n) xs = (None, xs @ [n])"
| "seq_step Pop_Front xs = (if xs = [] then (None, []) else (Some (hd xs), tl xs))"
| "seq_step Pop_Back xs = (if xs = [] then (None, []) else (Some (last xs), butlast xs))"
| "seq_step (Remove_From n) xs = (None, remove1 n xs)"

fun step_allowed :: "'p \<Rightarrow> 'p list_op \<Rightarrow> 'p list \<Rightarrow> bool" where
  "step_allowed s (Push_Front n) xs \<longleftrightarrow> n \<notin> set (s # xs)"
| "step_allowed s (Push_Back n) xs \<longleftrightarrow> n \<notin> set (s # xs)"
| "step_allowed s (Remove_From n) xs \<longleftrightarrow> n \<in> set xs"
| "step_allowed s _ xs \<longleftrightarrow> True"

fun op_nodes :: "'p list_op \<Rightarrow> 'p set" where
  "op_nodes (Push_Front n) = {n}"
| "op_nodes (Push_Back n) = {n}"
| "op_nodes _ = {}"

text \<open>C27. Every list operation on a properly linked list, a node being pushed only when it is not in
  the list and removed only when it is, dereferences no NULL pointer, has the result and the effect
  of the same operation on the list of nodes, leaves the list properly linked with the right size
  counter, and writes no node outside the list and its argument.\<close>

theorem list_step_refines:
  assumes ok: "list_ok h l xs" and allowed: "step_allowed (sentinel l) op xs"
  shows "\<exists>l' h'. list_step op l h = Some (fst (seq_step op xs), l', h') \<and>
    list_ok h' l' (snd (seq_step op xs)) \<and> sentinel l' = sentinel l \<and>
    (\<forall>p. p \<notin> insert (sentinel l) (set xs \<union> op_nodes op) \<longrightarrow> h' p = h p)"
proof (cases op)
  case (Push_Front n)
  show ?thesis by (rule list_push_front_ok [OF ok, of n]) (use Push_Front allowed in auto)
next
  case (Push_Back n)
  show ?thesis by (rule list_push_back_ok [OF ok, of n]) (use Push_Back allowed in auto)
next
  case Pop_Front
  show ?thesis
  proof (cases xs)
    case Nil
    then show ?thesis using list_pop_empty ok Pop_Front by auto
  next
    case (Cons y ys)
    show ?thesis by (rule list_pop_front_ok [OF ok [unfolded Cons]]) (use Pop_Front Cons in auto)
  qed
next
  case Pop_Back
  show ?thesis
  proof (cases xs rule: rev_cases)
    case Nil
    then show ?thesis using list_pop_empty ok Pop_Back by auto
  next
    case (snoc ys y)
    show ?thesis by (rule list_pop_back_ok [OF ok [unfolded snoc]]) (use Pop_Back snoc in auto)
  qed
next
  case (Remove_From n)
  show ?thesis by (rule list_remove_from_ok [OF ok, of n]) (use Remove_From allowed in auto)
qed

theorem list_step_refines_witness:
  "case list_init \<lparr>sentinel = 0, lsize = 7\<rparr> (\<lambda>_ :: nat. \<lparr>prv = None, nxt = None\<rparr>) of (l, h) \<Rightarrow>
     map_option fst (list_step (Push_Back 5) l h) = Some None"
proof -
  obtain l h where i: "list_init \<lparr>sentinel = 0, lsize = 7\<rparr> (\<lambda>_ :: nat. \<lparr>prv = None, nxt = None\<rparr>) = (l, h)"
    by (cases "list_init \<lparr>sentinel = 0, lsize = 7\<rparr> (\<lambda>_ :: nat. \<lparr>prv = None, nxt = None\<rparr>)")
  then have "list_ok h l []" "sentinel l = 0"
    using list_init_ok [of "\<lparr>sentinel = 0, lsize = 7\<rparr>" "\<lambda>_ :: nat. \<lparr>prv = None, nxt = None\<rparr>"] by simp_all
  then show ?thesis using list_step_refines [of h l "[]" "Push_Back 5"] by (auto simp: i)
qed

end
