(* ===== verification/Lru_Replacer.thy ===== *)
theory Lru_Replacer
  imports Hash_Map Linked_List
begin

text \<open>
  The two-list replacer of \<open>src/buffer/lru_replacer.c\<close>, on the hash table and the linked lists. The
  entries are malloc'ed with their list node embedded; here the entry of frame f lives at address f,
  \<open>Entry_Node f\<close> is its node, and the value the frame map stores behind \<open>void*\<close> is that address.
  An operation is None when a list operation would dereference NULL; on a well-formed replacer none
  does. Allocation is taken to succeed.

  The abstract view of a replacer is its pair of lists, most recently unpinned frame first; the
  locale \<open>replacer\<close> is the weaker contract that the buffer pool relies on.
\<close>

section \<open>The replacer\<close>

datatype lru_ptr = Cold_Sentinel | Hot_Sentinel | Entry_Node nat

record lru_entry =
  e_frame_id :: nat
  access_count :: nat
  in_hot :: bool

record lru_replacer =
  cold_list :: "lru_ptr llist"
  hot_list :: "lru_ptr llist"
  lru_capacity :: nat
  lru_size :: nat
  frame_map :: "(uintptr, nat) hashmap"
  entries :: "nat \<Rightarrow> lru_entry"
  nodes :: "lru_ptr store"

unbundle bit_operations_syntax

definition int_hash :: "uintptr \<Rightarrow> nat" where
  "int_hash v =
     (let v = (drop_bit 16 v XOR v) * 0x45d9f3b;
          v = (drop_bit 16 v XOR v) * 0x45d9f3b;
          v = drop_bit 16 v XOR v
      in unat v)"

definition int_equal :: "uintptr \<Rightarrow> uintptr \<Rightarrow> bool" where
  "int_equal a b \<longleftrightarrow> a = b"

definition frame_id_to_key :: "nat \<Rightarrow> uintptr" where
  "frame_id_to_key fid = of_nat (u32 fid)"

definition container_of :: "lru_ptr \<Rightarrow> nat option" where
  "container_of node = (case node of Entry_Node a \<Rightarrow> Some a | _ \<Rightarrow> None)"

definition lru_replacer_init :: "nat \<Rightarrow> lru_ptr store \<Rightarrow> (nat \<Rightarrow> lru_entry) \<Rightarrow> lru_replacer" where
  "lru_replacer_init cap h es =
     (let (cl, h) = list_init \<lparr>sentinel = Cold_Sentinel, lsize = 0\<rparr> h;
          (hl, h) = list_init \<lparr>sentinel = Hot_Sentinel, lsize = 0\<rparr> h
      in \<lparr>cold_list = cl, hot_list = hl, lru_capacity = cap, lru_size = 0,
          frame_map = hashmap_init 64 int_hash int_equal, entries = es, nodes = h\<rparr>)"

definition lru_replacer_destroy :: "lru_replacer \<Rightarrow> lru_replacer" where
  "lru_replacer_destroy r =
     (let (cl, h) = list_init (cold_list r) (nodes r);
          (hl, h) = list_init (hot_list r) h
      in r\<lparr>frame_map := hashmap_destroy (frame_map r), cold_list := cl, hot_list := hl, nodes := h, lru_size := 0\<rparr>)"

definition pop_victim :: "lru_replacer \<Rightarrow> (lru_ptr option \<times> lru_replacer) option" where
  "pop_victim r =
     (case list_pop_back (cold_list r) (nodes r) of
        None \<Rightarrow> None
      | Some (Some node, l, h) \<Rightarrow> Some (Some node, r\<lparr>cold_list := l, nodes := h\<rparr>)
      | Some (None, l, h) \<Rightarrow>
          let r = r\<lparr>cold_list := l, nodes := h\<rparr> in
          (case list_pop_back (hot_list r) (nodes r) of
             None \<Rightarrow> None
           | Some (node, l, h) \<Rightarrow> Some (node, r\<lparr>hot_list := l, nodes := h\<rparr>)))"

text \<open>The result is the frame id, or None for the return value -1.\<close>

definition lru_replacer_victim :: "lru_replacer \<Rightarrow> (nat option \<times> lru_replacer) option" where
  "lru_replacer_victim r =
     (case pop_victim r of
        None \<Rightarrow> None
      | Some (None, r) \<Rightarrow> Some (None, r)
      | Some (Some node, r) \<Rightarrow>
          (case container_of node of
             None \<Rightarrow> None
           | Some ent \<Rightarrow>
               let frame_id = e_frame_id (entries r ent) in
               Some (Some frame_id,
                 r\<lparr>frame_map := snd (hashmap_remove (frame_map r) (frame_id_to_key frame_id)),
                   lru_size := lru_size r - 1\<rparr>)))"

text \<open>\<open>if (entry->in_hot) list_remove_from(&hot_list, ...) else list_remove_from(&cold_list, ...)\<close>, which
  pin and unpin share.\<close>

definition remove_entry :: "lru_replacer \<Rightarrow> nat \<Rightarrow> lru_replacer option" where
  "remove_entry r ent =
     (if in_hot (entries r ent)
      then map_option (\<lambda>(l, h). r\<lparr>hot_list := l, nodes := h\<rparr>) (list_remove_from (hot_list r) (Entry_Node ent) (nodes r))
      else map_option (\<lambda>(l, h). r\<lparr>cold_list := l, nodes := h\<rparr>) (list_remove_from (cold_list r) (Entry_Node ent) (nodes r)))"

definition lru_replacer_pin :: "lru_replacer \<Rightarrow> nat \<Rightarrow> lru_replacer option" where
  "lru_replacer_pin r frame_id =
     (case hashmap_get (frame_map r) (frame_id_to_key frame_id) of
        None \<Rightarrow> Some r
      | Some ent \<Rightarrow>
          (case remove_entry r ent of
             None \<Rightarrow> None
           | Some r \<Rightarrow>
               Some (r\<lparr>frame_map := snd (hashmap_remove (frame_map r) (frame_id_to_key frame_id)),
                       lru_size := lru_size r - 1\<rparr>)))"

definition lru_replacer_unpin :: "lru_replacer \<Rightarrow> nat \<Rightarrow> lru_replacer option" where
  "lru_replacer_unpin r frame_id =
     (case hashmap_get (frame_map r) (frame_id_to_key frame_id) of
        Some ent \<Rightarrow>
          (case remove_entry r ent of
             None \<Rightarrow> None
           | Some r \<Rightarrow>
               let e = entries r ent;
                   r = r\<lparr>entries := (entries r)(ent := e\<lparr>access_count := access_count e + 1, in_hot := True\<rparr>)\<rparr>
               in map_option (\<lambda>(l, h). r\<lparr>hot_list := l, nodes := h\<rparr>)
                    (list_push_front (hot_list r) (Entry_Node ent) (nodes r)))
      | None \<Rightarrow>
          let ent = frame_id;
              r = r\<lparr>entries := (entries r)(ent := \<lparr>e_frame_id = frame_id, access_count = 1, in_hot = False\<rparr>),
                    nodes := (nodes r)(Entry_Node ent := \<lparr>prv = None, nxt = None\<rparr>),
                    frame_map := hashmap_put (frame_map r) (frame_id_to_key frame_id) ent\<rparr>
          in map_option (\<lambda>(l, h). r\<lparr>cold_list := l, nodes := h, lru_size := lru_size r + 1\<rparr>)
               (list_push_front (cold_list r) (Entry_Node ent) (nodes r)))"

definition lru_replacer_size :: "lru_replacer \<Rightarrow> nat" where
  "lru_replacer_size r = lru_size r"

section \<open>The two lists, and the invariant\<close>

definition frame_ok :: "nat \<Rightarrow> bool" where
  "frame_ok f \<longleftrightarrow> f < 2 ^ 32"

definition lru_ok :: "lru_replacer \<Rightarrow> nat list \<Rightarrow> nat list \<Rightarrow> bool" where
  "lru_ok r cold hot \<longleftrightarrow>
     list_ok (nodes r) (cold_list r) (map Entry_Node cold) \<and> sentinel (cold_list r) = Cold_Sentinel \<and>
     list_ok (nodes r) (hot_list r) (map Entry_Node hot) \<and> sentinel (hot_list r) = Hot_Sentinel \<and>
     set cold \<inter> set hot = {} \<and> (\<forall>f \<in> set cold \<union> set hot. frame_ok f) \<and>
     hm_ok (frame_map r) \<and>
     (\<forall>f. frame_ok f \<longrightarrow> hashmap_get (frame_map r) (frame_id_to_key f) = (if f \<in> set cold \<union> set hot then Some f else None)) \<and>
     (\<forall>f \<in> set cold \<union> set hot. e_frame_id (entries r f) = f \<and> (in_hot (entries r f) \<longleftrightarrow> f \<in> set hot)) \<and>
     lru_size r = length cold + length hot"

lemma frame_key_inj: "frame_ok f \<Longrightarrow> frame_ok g \<Longrightarrow> frame_id_to_key f = frame_id_to_key g \<longleftrightarrow> f = g"
proof -
  assume "frame_ok f" "frame_ok g"
  then have "u32 f = f" "u32 g = g" "f < 2 ^ 64" "g < 2 ^ 64" by (simp_all add: frame_ok_def int_simps)
  moreover have "(of_nat f :: uintptr) = of_nat g \<longleftrightarrow> f = g" if "f < 2 ^ 64" "g < 2 ^ 64"
    using that by (simp add: word_of_nat_eq_iff take_bit_nat_eq_self)
  ultimately show ?thesis by (simp add: frame_id_to_key_def)
qed

lemma int_equal_eq [simp]: "int_equal = (=)"
  by (simp add: int_equal_def fun_eq_iff)

lemma lru_init_ok: "lru_ok (lru_replacer_init cap h es) [] []"
proof -
  obtain cl h1 where c: "list_init \<lparr>sentinel = Cold_Sentinel, lsize = 0\<rparr> h = (cl, h1)"
    by (cases "list_init \<lparr>sentinel = Cold_Sentinel, lsize = 0\<rparr> h")
  obtain hl h2 where h: "list_init \<lparr>sentinel = Hot_Sentinel, lsize = 0\<rparr> h1 = (hl, h2)"
    by (cases "list_init \<lparr>sentinel = Hot_Sentinel, lsize = 0\<rparr> h1")
  have cl: "list_ok h1 cl []" "sentinel cl = Cold_Sentinel"
    using list_init_ok [of "\<lparr>sentinel = Cold_Sentinel, lsize = 0\<rparr>" h] c by simp_all
  have hl: "list_ok h2 hl []" "sentinel hl = Hot_Sentinel" "\<forall>p. p \<noteq> Hot_Sentinel \<longrightarrow> h2 p = h1 p"
    using list_init_ok [of "\<lparr>sentinel = Hot_Sentinel, lsize = 0\<rparr>" h1] h by simp_all
  have "list_ok h2 cl []" by (rule list_ok_frame [OF cl(1)]) (use cl hl in simp)
  then show ?thesis
    using cl hl c h by (simp add: lru_replacer_init_def lru_ok_def hm_ok_init hashmap_get_init)
qed

lemma map_remove1_Entry: "map Entry_Node (remove1 f xs) = remove1 (Entry_Node f) (map Entry_Node xs)"
  by (induction xs) auto

lemma hashmap_remove_get: "hm_ok m \<Longrightarrow> hashmap_get (snd (hashmap_remove m k)) = (hashmap_get m)(k := None)"
  by (rule hm.get_rem)

lemma hashmap_put_get: "hm_ok m \<Longrightarrow> hashmap_get (hashmap_put m k v) = (hashmap_get m)(k \<mapsto> v)"
  by (rule hm.get_put) simp_all

text \<open>Taking an entry off its list keeps everything but the frame map in step.\<close>

lemma remove_entry_ok:
  assumes ok: "lru_ok r cold hot" and f: "f \<in> set cold \<union> set hot"
  obtains l1 l2 h where "remove_entry r f = Some (r\<lparr>cold_list := l1, hot_list := l2, nodes := h\<rparr>)"
    "list_ok h l1 (map Entry_Node (remove1 f cold))" "sentinel l1 = Cold_Sentinel"
    "list_ok h l2 (map Entry_Node (remove1 f hot))" "sentinel l2 = Hot_Sentinel"
proof -
  have lc: "list_ok (nodes r) (cold_list r) (map Entry_Node cold)" "sentinel (cold_list r) = Cold_Sentinel"
    and lh: "list_ok (nodes r) (hot_list r) (map Entry_Node hot)" "sentinel (hot_list r) = Hot_Sentinel"
    and d: "set cold \<inter> set hot = {}" and ih: "in_hot (entries r f) \<longleftrightarrow> f \<in> set hot"
    using ok f by (simp_all add: lru_ok_def)
  show ?thesis
  proof (cases "f \<in> set hot")
    case True
    then have nc: "remove1 f cold = cold" using d by (intro remove1_idem) auto
    obtain h where h: "list_remove_from (hot_list r) (Entry_Node f) (nodes r) = Some ((hot_list r)\<lparr>lsize := lsize (hot_list r) - 1\<rparr>, h)"
      "list_ok h ((hot_list r)\<lparr>lsize := lsize (hot_list r) - 1\<rparr>) (remove1 (Entry_Node f) (map Entry_Node hot))"
      "\<And>p. p \<notin> insert (sentinel (hot_list r)) (set (map Entry_Node hot)) \<Longrightarrow> h p = nodes r p"
      by (rule list_remove_from_ok [OF lh(1), of "Entry_Node f"]) (use True in auto)
    have "list_ok h (cold_list r) (map Entry_Node cold)"
      by (rule list_ok_frame [OF lc(1)], rule h(3)) (use d lc lh in auto)
    then show ?thesis
      using that [of h "(hot_list r)\<lparr>lsize := lsize (hot_list r) - 1\<rparr>" "cold_list r"] h True ih lc lh nc
      by (simp add: remove_entry_def map_remove1_Entry)
  next
    case False
    then have fc: "f \<in> set cold" and nh: "remove1 f hot = hot" using f by (auto intro: remove1_idem)
    obtain h where h: "list_remove_from (cold_list r) (Entry_Node f) (nodes r) = Some ((cold_list r)\<lparr>lsize := lsize (cold_list r) - 1\<rparr>, h)"
      "list_ok h ((cold_list r)\<lparr>lsize := lsize (cold_list r) - 1\<rparr>) (remove1 (Entry_Node f) (map Entry_Node cold))"
      "\<And>p. p \<notin> insert (sentinel (cold_list r)) (set (map Entry_Node cold)) \<Longrightarrow> h p = nodes r p"
      by (rule list_remove_from_ok [OF lc(1), of "Entry_Node f"]) (use fc in auto)
    have "list_ok h (hot_list r) (map Entry_Node hot)"
      by (rule list_ok_frame [OF lh(1)], rule h(3)) (use d lc lh in auto)
    then show ?thesis
      using that [of h "hot_list r" "(cold_list r)\<lparr>lsize := lsize (cold_list r) - 1\<rparr>"] h False ih lc lh nh
      by (simp add: remove_entry_def map_remove1_Entry)
  qed
qed

lemma lru_distinct: "lru_ok r cold hot \<Longrightarrow> distinct cold \<and> distinct hot"
  by (auto simp: lru_ok_def list_ok_def distinct_map)

lemma lru_get:
  "lru_ok r cold hot \<Longrightarrow> frame_ok f \<Longrightarrow>
   hashmap_get (frame_map r) (frame_id_to_key f) = (if f \<in> set cold \<union> set hot then Some f else None)"
  by (simp add: lru_ok_def)

text \<open>The frame map after the entry of frame f is dropped.\<close>

lemma lru_get_removed:
  assumes ok: "lru_ok r cold hot" and f: "frame_ok f" and g: "frame_ok g"
  shows "hashmap_get (snd (hashmap_remove (frame_map r) (frame_id_to_key f))) (frame_id_to_key g) =
    (if g \<in> (set cold - {f}) \<union> (set hot - {f}) then Some g else None)"
proof -
  have "hm_ok (frame_map r)" using ok by (simp add: lru_ok_def)
  then show ?thesis
    using lru_get [OF ok g] frame_key_inj [OF g f] by (simp add: hashmap_remove_get)
qed

lemma count_remove1: "distinct cold \<Longrightarrow> distinct hot \<Longrightarrow> set cold \<inter> set hot = {} \<Longrightarrow> f \<in> set cold \<union> set hot \<Longrightarrow>
  length (remove1 f cold) + length (remove1 f hot) = length cold + length hot - 1"
  by (auto simp: length_remove1 disjoint_iff intro: length_pos_if_in_set)
    (metis Nat.add_diff_assoc2 One_nat_def Suc_leI length_pos_if_in_set, metis Nat.add_diff_assoc One_nat_def Suc_leI length_pos_if_in_set)

lemma lru_pin_ok:
  assumes ok: "lru_ok r cold hot" and f: "frame_ok f"
  obtains r' where "lru_replacer_pin r f = Some r'" "lru_ok r' (remove1 f cold) (remove1 f hot)"
proof (cases "f \<in> set cold \<union> set hot")
  case False
  then have "remove1 f cold = cold" "remove1 f hot = hot" by (auto intro: remove1_idem)
  moreover have "lru_replacer_pin r f = Some r" using lru_get [OF ok f] False by (simp add: lru_replacer_pin_def)
  ultimately show ?thesis using that [of r] ok by simp
next
  case True
  obtain l1 l2 h where e: "remove_entry r f = Some (r\<lparr>cold_list := l1, hot_list := l2, nodes := h\<rparr>)"
    "list_ok h l1 (map Entry_Node (remove1 f cold))" "sentinel l1 = Cold_Sentinel"
    "list_ok h l2 (map Entry_Node (remove1 f hot))" "sentinel l2 = Hot_Sentinel"
    by (rule remove_entry_ok [OF ok True])
  let ?r = "r\<lparr>cold_list := l1, hot_list := l2, nodes := h,
      frame_map := snd (hashmap_remove (frame_map r) (frame_id_to_key f)), lru_size := lru_size r - 1\<rparr>"
  note d = lru_distinct [OF ok]
  show ?thesis
  proof (rule that [of ?r])
    show "lru_replacer_pin r f = Some ?r" using e(1) lru_get [OF ok f] True by (simp add: lru_replacer_pin_def)
    have sets: "set (remove1 f cold) = set cold - {f}" "set (remove1 f hot) = set hot - {f}"
      using d by (simp_all add: set_remove1_eq)
    have dj: "set cold \<inter> set hot = {}" and hm: "hm_ok (frame_map r)" using ok by (simp_all add: lru_ok_def)
    show "lru_ok ?r (remove1 f cold) (remove1 f hot)"
      using e(2-5) ok lru_get_removed [OF ok f] count_remove1 [of cold hot f] d dj True hm.ok_rem [OF hm] sets
      unfolding lru_ok_def by auto
  qed
qed

lemma lru_unpin_new_ok:
  assumes ok: "lru_ok r cold hot" and f: "frame_ok f" and new: "f \<notin> set cold \<union> set hot"
  obtains r' where "lru_replacer_unpin r f = Some r'" "lru_ok r' (f # cold) hot"
proof -
  have lc: "list_ok (nodes r) (cold_list r) (map Entry_Node cold)" "sentinel (cold_list r) = Cold_Sentinel"
    and lh: "list_ok (nodes r) (hot_list r) (map Entry_Node hot)" "sentinel (hot_list r) = Hot_Sentinel"
    using ok by (simp_all add: lru_ok_def)
  let ?h0 = "(nodes r)(Entry_Node f := \<lparr>prv = None, nxt = None\<rparr>)"
  have lc0: "list_ok ?h0 (cold_list r) (map Entry_Node cold)" by (rule list_ok_frame [OF lc(1)]) (use new lc in auto)
  have lh0: "list_ok ?h0 (hot_list r) (map Entry_Node hot)" by (rule list_ok_frame [OF lh(1)]) (use new lh in auto)
  obtain h where h: "list_push_front (cold_list r) (Entry_Node f) ?h0 = Some ((cold_list r)\<lparr>lsize := lsize (cold_list r) + 1\<rparr>, h)"
    "list_ok h ((cold_list r)\<lparr>lsize := lsize (cold_list r) + 1\<rparr>) (Entry_Node f # map Entry_Node cold)"
    "\<And>p. p \<notin> insert (Entry_Node f) (insert (sentinel (cold_list r)) (set (map Entry_Node cold))) \<Longrightarrow> h p = ?h0 p"
    by (rule list_push_front_ok [OF lc0, of "Entry_Node f"]) (use new lc in auto)
  have "set cold \<inter> set hot = {}" using ok by (simp add: lru_ok_def)
  then have lh1: "list_ok h (hot_list r) (map Entry_Node hot)"
    by (intro list_ok_frame [OF lh0] h(3)) (use new lc lh in auto)
  let ?r = "r\<lparr>entries := (entries r)(f := \<lparr>e_frame_id = f, access_count = 1, in_hot = False\<rparr>),
      frame_map := hashmap_put (frame_map r) (frame_id_to_key f) f,
      cold_list := (cold_list r)\<lparr>lsize := lsize (cold_list r) + 1\<rparr>, nodes := h, lru_size := lru_size r + 1\<rparr>"
  have hm: "hm_ok (frame_map r)" using ok by (simp add: lru_ok_def)
  show ?thesis
  proof (rule that [of ?r])
    show "lru_replacer_unpin r f = Some ?r"
      using lru_get [OF ok f] new h(1) by (simp add: lru_replacer_unpin_def Let_def)
    have "hashmap_get (hashmap_put (frame_map r) (frame_id_to_key f) f) (frame_id_to_key g) =
        (if g \<in> set (f # cold) \<union> set hot then Some g else None)" if "frame_ok g" for g
      using lru_get [OF ok that] frame_key_inj [OF that f] by (simp add: hashmap_put_get [OF hm])
    then show "lru_ok ?r (f # cold) hot"
      using ok new f h(2) lh1 hm.ok_put [OF hm] unfolding lru_ok_def by auto
  qed
qed

lemma lru_unpin_again_ok:
  assumes ok: "lru_ok r cold hot" and f: "frame_ok f" and old: "f \<in> set cold \<union> set hot"
  obtains r' where "lru_replacer_unpin r f = Some r'" "lru_ok r' (remove1 f cold) (f # remove1 f hot)"
proof -
  obtain l1 l2 h where e: "remove_entry r f = Some (r\<lparr>cold_list := l1, hot_list := l2, nodes := h\<rparr>)"
    "list_ok h l1 (map Entry_Node (remove1 f cold))" "sentinel l1 = Cold_Sentinel"
    "list_ok h l2 (map Entry_Node (remove1 f hot))" "sentinel l2 = Hot_Sentinel"
    by (rule remove_entry_ok [OF ok old])
  note d = lru_distinct [OF ok]
  have sets: "set (remove1 f cold) = set cold - {f}" "set (remove1 f hot) = set hot - {f}"
    using d by (simp_all add: set_remove1_eq)
  obtain h' where h': "list_push_front l2 (Entry_Node f) h = Some (l2\<lparr>lsize := lsize l2 + 1\<rparr>, h')"
    "list_ok h' (l2\<lparr>lsize := lsize l2 + 1\<rparr>) (Entry_Node f # map Entry_Node (remove1 f hot))"
    "\<And>p. p \<notin> insert (Entry_Node f) (insert (sentinel l2) (set (map Entry_Node (remove1 f hot)))) \<Longrightarrow> h' p = h p"
    by (rule list_push_front_ok [OF e(4), of "Entry_Node f"]) (use e sets in auto)
  have dj: "set cold \<inter> set hot = {}" using ok by (simp add: lru_ok_def)
  then have l1: "list_ok h' l1 (map Entry_Node (remove1 f cold))"
    by (intro list_ok_frame [OF e(2)] h'(3)) (use e sets in auto)
  let ?e = "(entries r f)\<lparr>access_count := access_count (entries r f) + 1, in_hot := True\<rparr>"
  let ?r = "r\<lparr>entries := (entries r)(f := ?e), cold_list := l1, hot_list := l2\<lparr>lsize := lsize l2 + 1\<rparr>, nodes := h'\<rparr>"
  show ?thesis
  proof (rule that [of ?r])
    show "lru_replacer_unpin r f = Some ?r"
      using lru_get [OF ok f] old h'(1) e(1) by (simp add: lru_replacer_unpin_def Let_def)
    have "length cold + length hot = length (remove1 f cold) + Suc (length (remove1 f hot))"
      using count_remove1 [of cold hot f] d dj old by (auto dest!: length_pos_if_in_set)
    moreover have "insert f ((set cold - {f}) \<union> (set hot - {f})) = set cold \<union> set hot" using old by blast
    ultimately show "lru_ok ?r (remove1 f cold) (f # remove1 f hot)"
      using ok old f h'(2) l1 dj e(3,5) sets unfolding lru_ok_def by auto
  qed
qed

text \<open>The victim is the last frame of the cold list, or of the hot list when that is empty.\<close>

lemma lru_victim_none:
  assumes ok: "lru_ok r [] []"
  obtains r' where "lru_replacer_victim r = Some (None, r')" "lru_ok r' [] []"
proof -
  have "list_pop_back (cold_list r) (nodes r) = Some (None, cold_list r, nodes r)"
    "list_pop_back (hot_list r) (nodes r) = Some (None, hot_list r, nodes r)"
    using ok list_pop_empty by (auto simp: lru_ok_def)
  then show ?thesis using that [of r] ok by (simp add: lru_replacer_victim_def pop_victim_def)
qed

lemma pop_victim_ok:
  assumes ok: "lru_ok r cold hot" and ne: "cold @ hot \<noteq> []"
  defines "f \<equiv> (if cold \<noteq> [] then last cold else last hot)"
  obtains l1 l2 h where "pop_victim r = Some (Some (Entry_Node f), r\<lparr>cold_list := l1, hot_list := l2, nodes := h\<rparr>)"
    "list_ok h l1 (map Entry_Node (if cold \<noteq> [] then butlast cold else []))" "sentinel l1 = Cold_Sentinel"
    "list_ok h l2 (map Entry_Node (if cold \<noteq> [] then hot else butlast hot))" "sentinel l2 = Hot_Sentinel"
proof -
  have lc: "list_ok (nodes r) (cold_list r) (map Entry_Node cold)" "sentinel (cold_list r) = Cold_Sentinel"
    and lh: "list_ok (nodes r) (hot_list r) (map Entry_Node hot)" "sentinel (hot_list r) = Hot_Sentinel"
    and dj: "set cold \<inter> set hot = {}" using ok by (simp_all add: lru_ok_def)
  show ?thesis
  proof (cases cold rule: rev_cases)
    case (snoc xs x)
    have xs: "list_ok (nodes r) (cold_list r) (map Entry_Node xs @ [Entry_Node x])" using lc(1) snoc by simp
    obtain h where h: "list_pop_back (cold_list r) (nodes r) = Some (Some (Entry_Node x), (cold_list r)\<lparr>lsize := lsize (cold_list r) - 1\<rparr>, h)"
      "list_ok h ((cold_list r)\<lparr>lsize := lsize (cold_list r) - 1\<rparr>) (map Entry_Node xs)"
      "\<And>p. p \<notin> insert (sentinel (cold_list r)) (set (map Entry_Node xs @ [Entry_Node x])) \<Longrightarrow> h p = nodes r p"
      using list_pop_back_ok [OF xs] by blast
    have "list_ok h (hot_list r) (map Entry_Node hot)"
      by (rule list_ok_frame [OF lh(1)], rule h(3)) (use dj lc lh snoc in auto)
    then show ?thesis
      using that [of h "hot_list r" "(cold_list r)\<lparr>lsize := lsize (cold_list r) - 1\<rparr>"] h snoc lc lh
      by (simp add: pop_victim_def f_def)
  next
    case Nil
    then obtain xs x where hot: "hot = xs @ [x]" using ne by (cases hot rule: rev_cases) auto
    have e: "list_pop_back (cold_list r) (nodes r) = Some (None, cold_list r, nodes r)"
      using lc Nil list_pop_empty by auto
    have xs: "list_ok (nodes r) (hot_list r) (map Entry_Node xs @ [Entry_Node x])" using lh(1) hot by simp
    obtain h where h: "list_pop_back (hot_list r) (nodes r) = Some (Some (Entry_Node x), (hot_list r)\<lparr>lsize := lsize (hot_list r) - 1\<rparr>, h)"
      "list_ok h ((hot_list r)\<lparr>lsize := lsize (hot_list r) - 1\<rparr>) (map Entry_Node xs)"
      "\<And>p. p \<notin> insert (sentinel (hot_list r)) (set (map Entry_Node xs @ [Entry_Node x])) \<Longrightarrow> h p = nodes r p"
      using list_pop_back_ok [OF xs] by blast
    have "list_ok h (cold_list r) (map Entry_Node [])"
      by (rule list_ok_frame [OF lc(1) [unfolded Nil]], rule h(3)) (use lc lh hot in auto)
    then show ?thesis
      using that [of h "(hot_list r)\<lparr>lsize := lsize (hot_list r) - 1\<rparr>" "cold_list r"] h hot Nil e lc lh
      by (simp add: pop_victim_def f_def)
  qed
qed

lemma lru_victim_ok:
  assumes ok: "lru_ok r cold hot" and ne: "cold @ hot \<noteq> []"
  obtains r' where "lru_replacer_victim r = Some (Some (if cold \<noteq> [] then last cold else last hot), r')"
    "lru_ok r' (if cold \<noteq> [] then butlast cold else []) (if cold \<noteq> [] then hot else butlast hot)"
proof -
  let ?f = "if cold \<noteq> [] then last cold else last hot"
  let ?cold = "if cold \<noteq> [] then butlast cold else []" and ?hot = "if cold \<noteq> [] then hot else butlast hot"
  obtain l1 l2 h where p: "pop_victim r = Some (Some (Entry_Node ?f), r\<lparr>cold_list := l1, hot_list := l2, nodes := h\<rparr>)"
    "list_ok h l1 (map Entry_Node ?cold)" "sentinel l1 = Cold_Sentinel"
    "list_ok h l2 (map Entry_Node ?hot)" "sentinel l2 = Hot_Sentinel"
    by (rule pop_victim_ok [OF ok ne])
  have f: "?f \<in> set cold \<union> set hot" using ne by auto
  then have fo: "frame_ok ?f" and ef: "e_frame_id (entries r ?f) = ?f" and hm: "hm_ok (frame_map r)"
    and dj: "set cold \<inter> set hot = {}" using ok by (auto simp: lru_ok_def)
  note d = lru_distinct [OF ok]
  have sets: "set ?cold = set cold - {?f}" "set ?hot = set hot - {?f}"
    using d dj ne by (cases cold rule: rev_cases; cases hot rule: rev_cases; auto)+
  have len: "length ?cold + length ?hot = length cold + length hot - 1"
    using ne by (cases cold; cases hot) auto
  let ?r = "r\<lparr>cold_list := l1, hot_list := l2, nodes := h,
      frame_map := snd (hashmap_remove (frame_map r) (frame_id_to_key ?f)), lru_size := lru_size r - 1\<rparr>"
  have g: "hashmap_get (snd (hashmap_remove (frame_map r) (frame_id_to_key ?f))) (frame_id_to_key g) =
      (if g \<in> set ?cold \<union> set ?hot then Some g else None)" if "frame_ok g" for g
    unfolding sets by (rule lru_get_removed [OF ok fo that])
  show ?thesis
  proof (rule that [of ?r])
    show "lru_replacer_victim r = Some (Some ?f, ?r)"
      using p(1) ef by (simp add: lru_replacer_victim_def container_of_def Let_def)
    have "lru_size r - 1 = length ?cold + length ?hot" using ok len by (simp add: lru_ok_def)
    moreover have "\<forall>x \<in> set ?cold \<union> set ?hot. frame_ok x \<and> e_frame_id (entries r x) = x \<and> (in_hot (entries r x) \<longleftrightarrow> x \<in> set ?hot)"
      using ok unfolding sets lru_ok_def by auto
    moreover have "set ?cold \<inter> set ?hot = {}" using dj unfolding sets by auto
    ultimately show "lru_ok ?r ?cold ?hot"
      using p(2-5) g hm.ok_rem [OF hm] unfolding lru_ok_def by (simp del: if_split_eq1)
  qed
qed

section \<open>The contract of a replacer\<close>

text \<open>What the buffer pool relies on: a set of evictable frames, which pin and unpin shrink and grow,
  and a victim that is one of them whenever there is one. Every operation returns.\<close>

locale replacer =
  fixes victim :: "'r \<Rightarrow> (nat option \<times> 'r) option"
    and pin :: "'r \<Rightarrow> nat \<Rightarrow> 'r option"
    and unpin :: "'r \<Rightarrow> nat \<Rightarrow> 'r option"
    and ok :: "'r \<Rightarrow> bool"
    and valid :: "nat \<Rightarrow> bool"
    and evictable :: "'r \<Rightarrow> nat set"
  assumes pin_ok: "ok r \<Longrightarrow> valid f \<Longrightarrow> \<exists>r'. pin r f = Some r' \<and> ok r' \<and> evictable r' = evictable r - {f}"
    and unpin_ok: "ok r \<Longrightarrow> valid f \<Longrightarrow> \<exists>r'. unpin r f = Some r' \<and> ok r' \<and> evictable r' = insert f (evictable r)"
    and victim_none: "ok r \<Longrightarrow> evictable r = {} \<Longrightarrow> \<exists>r'. victim r = Some (None, r') \<and> ok r' \<and> evictable r' = {}"
    and victim_some: "ok r \<Longrightarrow> evictable r \<noteq> {} \<Longrightarrow>
      \<exists>f r'. victim r = Some (Some f, r') \<and> f \<in> evictable r \<and> ok r' \<and> evictable r' = evictable r - {f}"
    and evictable_valid: "ok r \<Longrightarrow> f \<in> evictable r \<Longrightarrow> valid f"
begin

lemma victim_total:
  assumes "ok r"
  obtains v r' where "victim r = Some (v, r')" "ok r'" "evictable r' = evictable r - set_option v"
    "set_option v \<subseteq> evictable r" "v = None \<longleftrightarrow> evictable r = {}"
proof (cases "evictable r = {}")
  case True
  then show ?thesis using victim_none [OF assms] that by fastforce
next
  case False
  then obtain f r' where "victim r = Some (Some f, r')" "f \<in> evictable r" "ok r'" "evictable r' = evictable r - {f}"
    using victim_some [OF assms] by blast
  then show ?thesis using that [of "Some f" r'] False by simp
qed

lemma pin_unpin:
  assumes "ok r" "valid f" "f \<notin> evictable r"
  shows "\<exists>r1 r2. unpin r f = Some r1 \<and> pin r1 f = Some r2 \<and> ok r2 \<and> evictable r2 = evictable r"
proof -
  obtain r1 where r1: "unpin r f = Some r1" "ok r1" "evictable r1 = insert f (evictable r)"
    using unpin_ok [OF assms(1,2)] by blast
  obtain r2 where "pin r1 f = Some r2" "ok r2" "evictable r2 = evictable r1 - {f}"
    using pin_ok [OF r1(2) assms(2)] by blast
  then show ?thesis using r1 assms(3) by auto
qed

lemma pin_idle: "ok r \<Longrightarrow> valid f \<Longrightarrow> f \<notin> evictable r \<Longrightarrow> \<exists>r'. pin r f = Some r' \<and> ok r' \<and> evictable r' = evictable r"
  using pin_ok [of r f] by auto

end

definition lru_inv :: "lru_replacer \<Rightarrow> bool" where
  "lru_inv r \<longleftrightarrow> (\<exists>cold hot. lru_ok r cold hot)"

definition lru_frames :: "lru_replacer \<Rightarrow> nat set" where
  "lru_frames r = {f. frame_ok f \<and> hashmap_get (frame_map r) (frame_id_to_key f) \<noteq> None}"

lemma lru_frames_eq: "lru_ok r cold hot \<Longrightarrow> lru_frames r = set cold \<union> set hot"
  by (auto simp: lru_frames_def lru_get) (auto simp: lru_ok_def split: if_splits)

lemma lru_sets_remove1:
  "lru_ok r cold hot \<Longrightarrow> set (remove1 f cold) = set cold - {f} \<and> set (remove1 f hot) = set hot - {f}"
  using lru_distinct by (auto simp: set_remove1_eq)

lemma lru_inv_cases:
  assumes "lru_inv r"
  obtains cold hot where "lru_ok r cold hot" "lru_frames r = set cold \<union> set hot"
  using assms lru_frames_eq unfolding lru_inv_def by blast

lemma lru_inv_intro: "lru_ok r cold hot \<Longrightarrow> set cold \<union> set hot = F \<Longrightarrow> lru_inv r \<and> lru_frames r = F"
  using lru_frames_eq unfolding lru_inv_def by blast

lemma lru_pin_frames:
  assumes inv: "lru_inv r" and f: "frame_ok f"
  shows "\<exists>r'. lru_replacer_pin r f = Some r' \<and> lru_inv r' \<and> lru_frames r' = lru_frames r - {f}"
proof -
  obtain cold hot where ok: "lru_ok r cold hot" and fr: "lru_frames r = set cold \<union> set hot" by (rule lru_inv_cases [OF inv])
  obtain r' where r': "lru_replacer_pin r f = Some r'" "lru_ok r' (remove1 f cold) (remove1 f hot)"
    by (rule lru_pin_ok [OF ok f])
  have "set (remove1 f cold) \<union> set (remove1 f hot) = lru_frames r - {f}"
    using lru_sets_remove1 [OF ok, of f] unfolding fr by blast
  from lru_inv_intro [OF r'(2) this] r'(1) show ?thesis by blast
qed

lemma lru_unpin_frames:
  assumes inv: "lru_inv r" and f: "frame_ok f"
  shows "\<exists>r'. lru_replacer_unpin r f = Some r' \<and> lru_inv r' \<and> lru_frames r' = insert f (lru_frames r)"
proof -
  obtain cold hot where ok: "lru_ok r cold hot" and fr: "lru_frames r = set cold \<union> set hot" by (rule lru_inv_cases [OF inv])
  show ?thesis
  proof (cases "f \<in> set cold \<union> set hot")
    case True
    obtain r' where r': "lru_replacer_unpin r f = Some r'" "lru_ok r' (remove1 f cold) (f # remove1 f hot)"
      by (rule lru_unpin_again_ok [OF ok f True])
    have "set (remove1 f cold) \<union> set (f # remove1 f hot) = insert f (lru_frames r)"
      using lru_sets_remove1 [OF ok, of f] unfolding fr by auto
    from lru_inv_intro [OF r'(2) this] r'(1) show ?thesis by blast
  next
    case False
    obtain r' where r': "lru_replacer_unpin r f = Some r'" "lru_ok r' (f # cold) hot"
      by (rule lru_unpin_new_ok [OF ok f False])
    have "set (f # cold) \<union> set hot = insert f (lru_frames r)" unfolding fr by simp
    from lru_inv_intro [OF r'(2) this] r'(1) show ?thesis by blast
  qed
qed

lemma lru_victim_frames:
  assumes inv: "lru_inv r" and ne: "lru_frames r \<noteq> {}"
  shows "\<exists>f r'. lru_replacer_victim r = Some (Some f, r') \<and> f \<in> lru_frames r \<and> lru_inv r' \<and> lru_frames r' = lru_frames r - {f}"
proof -
  obtain cold hot where ok: "lru_ok r cold hot" and fr: "lru_frames r = set cold \<union> set hot" by (rule lru_inv_cases [OF inv])
  have ne': "cold @ hot \<noteq> []" using ne fr by auto
  let ?f = "if cold \<noteq> [] then last cold else last hot"
  obtain r' where r': "lru_replacer_victim r = Some (Some ?f, r')"
    "lru_ok r' (if cold \<noteq> [] then butlast cold else []) (if cold \<noteq> [] then hot else butlast hot)"
    by (rule lru_victim_ok [OF ok ne'])
  have d: "distinct cold" "distinct hot" "set cold \<inter> set hot = {}" using lru_distinct [OF ok] ok by (auto simp: lru_ok_def)
  have "set (if cold \<noteq> [] then butlast cold else []) \<union> set (if cold \<noteq> [] then hot else butlast hot) = lru_frames r - {?f}"
    unfolding fr using ne' d by (cases cold rule: rev_cases; cases hot rule: rev_cases; auto)
  note inv' = lru_inv_intro [OF r'(2) this]
  have "?f \<in> lru_frames r" unfolding fr using ne' by auto
  with inv' r'(1) show ?thesis by blast
qed

interpretation lru: replacer lru_replacer_victim lru_replacer_pin lru_replacer_unpin lru_inv frame_ok lru_frames
proof (unfold_locales, goal_cases)
  case (1 r f)
  then show ?case by (rule lru_pin_frames)
next
  case (2 r f)
  then show ?case by (rule lru_unpin_frames)
next
  case (3 r)
  obtain cold hot where ok: "lru_ok r cold hot" and fr: "lru_frames r = set cold \<union> set hot" by (rule lru_inv_cases [OF 3(1)])
  have "lru_ok r [] []" using ok 3(2) fr by simp
  then obtain r' where r': "lru_replacer_victim r = Some (None, r')" "lru_ok r' [] []" by (rule lru_victim_none)
  have "set [] \<union> set [] = ({} :: nat set)" by simp
  from lru_inv_intro [OF r'(2) this] r'(1) show ?case by blast
next
  case (4 r)
  then show ?case by (rule lru_victim_frames)
next
  case (5 r f)
  then show ?case by (simp add: lru_frames_def)
qed

section \<open>Properties\<close>

datatype lru_op = Victim | Pin nat | Unpin nat

fun lru_op_ok :: "lru_op \<Rightarrow> bool" where
  "lru_op_ok Victim = True"
| "lru_op_ok (Pin f) = frame_ok f"
| "lru_op_ok (Unpin f) = frame_ok f"

fun lru_step :: "lru_op \<Rightarrow> lru_replacer \<Rightarrow> (nat option \<times> lru_replacer) option" where
  "lru_step Victim r = lru_replacer_victim r"
| "lru_step (Pin f) r = map_option (Pair None) (lru_replacer_pin r f)"
| "lru_step (Unpin f) r = map_option (Pair None) (lru_replacer_unpin r f)"

text \<open>The policy of the header, on the two lists, most recent frame first.\<close>

fun policy_step :: "lru_op \<Rightarrow> nat list \<times> nat list \<Rightarrow> nat option \<times> nat list \<times> nat list" where
  "policy_step Victim (cold, hot) =
     (if cold \<noteq> [] then (Some (last cold), butlast cold, hot)
      else if hot \<noteq> [] then (Some (last hot), [], butlast hot)
      else (None, [], []))"
| "policy_step (Pin f) (cold, hot) = (None, remove1 f cold, remove1 f hot)"
| "policy_step (Unpin f) (cold, hot) =
     (None, if f \<in> set cold \<union> set hot then (remove1 f cold, f # remove1 f hot) else (f # cold, hot))"

fun run_steps :: "('o \<Rightarrow> 's \<Rightarrow> ('a \<times> 's) option) \<Rightarrow> 'o list \<Rightarrow> 's \<Rightarrow> ('a list \<times> 's) option" where
  "run_steps step [] s = Some ([], s)"
| "run_steps step (op # ops) s =
     (case step op s of None \<Rightarrow> None
      | Some (x, s) \<Rightarrow> map_option (\<lambda>(xs, s). (x # xs, s)) (run_steps step ops s))"

lemma lru_step_refines:
  assumes ok: "lru_ok r cold hot" and f: "lru_op_ok op"
  shows "\<exists>r'. lru_step op r = Some (fst (policy_step op (cold, hot)), r') \<and>
    lru_ok r' (fst (snd (policy_step op (cold, hot)))) (snd (snd (policy_step op (cold, hot))))"
proof (cases op)
  case Victim
  show ?thesis
  proof (cases "cold @ hot = []")
    case True
    then have "lru_ok r [] []" using ok by simp
    then obtain r' where "lru_replacer_victim r = Some (None, r')" "lru_ok r' [] []" by (rule lru_victim_none)
    then show ?thesis using True Victim by auto
  next
    case False
    show ?thesis by (rule lru_victim_ok [OF ok False]) (use False Victim in auto)
  qed
next
  case (Pin f)
  show ?thesis by (rule lru_pin_ok [OF ok, of f]) (use Pin assms in auto)
next
  case (Unpin f)
  show ?thesis
  proof (cases "f \<in> set cold \<union> set hot")
    case True
    show ?thesis by (rule lru_unpin_again_ok [OF ok _ True]) (use True Unpin assms in auto)
  next
    case False
    show ?thesis by (rule lru_unpin_new_ok [OF ok _ False]) (use False Unpin assms in auto)
  qed
qed

lemma lru_run_refines:
  "lru_ok r cold hot \<Longrightarrow> \<forall>op \<in> set ops. lru_op_ok op \<Longrightarrow>
   \<exists>outs r' cold' hot'. run_steps lru_step ops r = Some (outs, r') \<and>
     run_steps (\<lambda>op s. Some (policy_step op s)) ops (cold, hot) = Some (outs, cold', hot') \<and> lru_ok r' cold' hot'"
proof (induction ops arbitrary: r cold hot)
  case (Cons op ops)
  obtain x cold1 hot1 where p: "policy_step op (cold, hot) = (x, cold1, hot1)" by (metis surj_pair)
  obtain r1 where r1: "lru_step op r = Some (x, r1)" "lru_ok r1 cold1 hot1"
    using lru_step_refines [OF Cons.prems(1), of op] Cons.prems(2) p by auto
  show ?case using Cons.IH [OF r1(2)] Cons.prems(2) r1(1) p by fastforce
qed simp

text \<open>What the code counts as a second access: the header and the design document call a frame hot when it has been accessed
  at least twice, but \<open>lru_replacer_pin\<close> frees the entry with its count. A frame that is used, released and used again is cold
  whenever it is released, and since the buffer pool pins a frame before it unpins it, none of its frames is ever hot.\<close>

theorem lru_pin_forgets:
  "\<exists>r. run_steps lru_step [Unpin 1, Pin 1, Unpin 1, Unpin 2, Victim] (lru_replacer_init cap h es) = Some ([None, None, None, None, Some 1], r)"
proof -
  let ?ops = "[Unpin 1, Pin 1, Unpin 1, Unpin 2, Victim]"
  have "\<forall>op \<in> set ?ops. lru_op_ok op" by (simp add: frame_ok_def)
  then obtain outs r cold hot where "run_steps lru_step ?ops (lru_replacer_init cap h es) = Some (outs, r)"
    "run_steps (\<lambda>op s. Some (policy_step op s)) ?ops ([], []) = Some (outs, cold, hot)"
    using lru_run_refines [OF lru_init_ok] by blast
  then show ?thesis by (auto simp del: run_steps.simps(2) simp: run_steps.simps(2) [where step = "\<lambda>op s. Some (policy_step op s)"])
qed

text \<open>C28. On every run of victim, pin and unpin calls from a new replacer, no call dereferences NULL, the victims are exactly
  those of the policy of the code on a cold and a hot list, and the reported size is the number of frames in the two
  lists. The policy: unpin puts a frame that is in neither list in front of the cold one, and a frame that is in one of them
  in front of the hot one; pin takes it out and forgets it; the victim is the last of the cold list or, when that is empty, of the hot
  one. (It is not that of the header, where two accesses make a frame hot: \<open>lru_pin_forgets\<close>.)\<close>

theorem lru_replacer_policy:
  assumes "\<forall>op \<in> set ops. lru_op_ok op"
  shows "\<exists>outs r' cold hot. run_steps lru_step ops (lru_replacer_init cap h es) = Some (outs, r') \<and>
    run_steps (\<lambda>op s. Some (policy_step op s)) ops ([], []) = Some (outs, cold, hot) \<and>
    lru_replacer_size r' = length cold + length hot \<and> distinct (cold @ hot)"
proof -
  obtain outs r' cold hot where "run_steps lru_step ops (lru_replacer_init cap h es) = Some (outs, r')"
    "run_steps (\<lambda>op s. Some (policy_step op s)) ops ([], []) = Some (outs, cold, hot)" "lru_ok r' cold hot"
    using lru_run_refines [OF lru_init_ok assms] by blast
  moreover from this have "lru_replacer_size r' = length cold + length hot" "distinct (cold @ hot)"
    using lru_distinct [of r' cold hot] by (auto simp: lru_replacer_size_def lru_ok_def)
  ultimately show ?thesis by blast
qed

theorem lru_replacer_policy_witness:
  "map_option fst (run_steps lru_step [Unpin 1, Unpin 2, Unpin 1, Unpin 3, Victim, Victim, Victim, Victim]
     (lru_replacer_init 4 (\<lambda>_. \<lparr>prv = None, nxt = None\<rparr>) (\<lambda>_. \<lparr>e_frame_id = 0, access_count = 0, in_hot = False\<rparr>)))
   = Some [None, None, None, None, Some 2, Some 3, Some 1, None]"
proof -
  let ?ops = "[Unpin 1, Unpin 2, Unpin 1, Unpin 3, Victim, Victim, Victim, Victim]"
  have "\<forall>op \<in> set ?ops. lru_op_ok op" by (simp add: frame_ok_def)
  from lru_replacer_policy [OF this, of 4 "\<lambda>_. \<lparr>prv = None, nxt = None\<rparr>" "\<lambda>_. \<lparr>e_frame_id = 0, access_count = 0, in_hot = False\<rparr>"]
  show ?thesis by (auto simp del: run_steps.simps(2) simp: run_steps.simps(2) [where step = "\<lambda>op s. Some (policy_step op s)"])
qed

end
