(* ===== verification/Buffer_Pool.thy ===== *)
theory Buffer_Pool
  imports Lru_Replacer Disk_Manager
begin

text \<open>
  The buffer pool of \<open>src/buffer/buffer_pool_manager.c\<close> and the page guard of
  \<open>src/buffer/page_guard.c\<close>: frames, the page table, the free list (on the linked lists, with the
  frame's node at \<open>Free_Node f\<close>), the replacer and the disk manager. A page pointer is the index of
  its frame. An operation is None when a list operation would dereference NULL, and returns the
  frame or NULL as an option otherwise. Allocation in \<open>bpm_init\<close> is taken to succeed; the page latch
  is empty in this program.

  The abstract view of a pool is the map from page ids to page contents (\<open>pool_view\<close>): what the
  frame of a resident page holds, and what the disk holds otherwise.
\<close>

section \<open>The pool\<close>

record page =
  page_data :: buffer
  page_pid :: int
  pin_count :: int
  is_dirty :: bool

datatype free_ptr = Free_Sentinel | Free_Node nat

record bpm =
  pool_size :: nat
  pages :: "page list"
  page_table :: "(uintptr, uintptr) hashmap"
  free_list :: "free_ptr llist"
  free_nodes :: "free_ptr store"
  replacer_of :: lru_replacer
  disk_manager :: disk

definition page_id_to_key :: "int \<Rightarrow> uintptr" where
  "page_id_to_key pid = of_nat (pattern 32 pid)"

definition frame_id_to_val :: "nat \<Rightarrow> uintptr" where
  "frame_id_to_val fid = of_nat (u32 (u32 fid + 1))"

definition val_to_frame_id :: "uintptr \<Rightarrow> nat" where
  "val_to_frame_id v = u32 (u32 (unat v) + 4294967295)"

text \<open>\<open>hashmap_get\<close> on the page table: the stored pointer, NULL (0) for a page that is not there.\<close>

definition table_lookup :: "bpm \<Rightarrow> int \<Rightarrow> nat option" where
  "table_lookup b pid =
     (case hashmap_get (page_table b) (page_id_to_key pid) of
        None \<Rightarrow> None
      | Some v \<Rightarrow> if v = 0 then None else Some (val_to_frame_id v))"

definition frame_of_node :: "free_ptr \<Rightarrow> nat option" where
  "frame_of_node node = (case node of Free_Node f \<Rightarrow> Some f | Free_Sentinel \<Rightarrow> None)"

definition set_page :: "nat \<Rightarrow> page \<Rightarrow> bpm \<Rightarrow> bpm" where
  "set_page f p b = b\<lparr>pages := (pages b)[f := p]\<rparr>"

text \<open>Resetting the frame's list node and pushing it to the back of the free list.\<close>

definition push_free :: "nat \<Rightarrow> bpm \<Rightarrow> bpm option" where
  "push_free f b =
     (let h = (free_nodes b)(Free_Node f := \<lparr>prv = None, nxt = None\<rparr>)
      in map_option (\<lambda>(l, h). b\<lparr>free_list := l, free_nodes := h\<rparr>) (list_push_back (free_list b) (Free_Node f) h))"

definition find_free_frame :: "bpm \<Rightarrow> (nat option \<times> bpm) option" where
  "find_free_frame b =
     (if list_empty (free_list b) then Some (None, b)
      else
        case list_pop_front (free_list b) (free_nodes b) of
          None \<Rightarrow> None
        | Some (None, l, h) \<Rightarrow> None
        | Some (Some node, l, h) \<Rightarrow>
            (case frame_of_node node of
               None \<Rightarrow> None
             | Some f \<Rightarrow> Some (Some f, b\<lparr>free_list := l, free_nodes := h\<rparr>)))"

definition evict_page :: "bpm \<Rightarrow> (nat option \<times> bpm) option" where
  "evict_page b =
     (case lru_replacer_victim (replacer_of b) of
        None \<Rightarrow> None
      | Some (None, r) \<Rightarrow> Some (None, b\<lparr>replacer_of := r\<rparr>)
      | Some (Some f, r) \<Rightarrow>
          let b = b\<lparr>replacer_of := r\<rparr>;
              p = pages b ! f;
              b = (if is_dirty p
                   then b\<lparr>disk_manager := snd (disk_manager_write_page (page_pid p) (page_data p) (disk_manager b))\<rparr>
                   else b);
              b = b\<lparr>page_table := snd (hashmap_remove (page_table b) (page_id_to_key (page_pid p)))\<rparr>;
              b = set_page f (p\<lparr>page_pid := INVALID_PAGE_ID, pin_count := 0, is_dirty := False\<rparr>) b
          in map_option (\<lambda>b. (Some f, b)) (push_free f b))"

text \<open>\<open>find_free_frame\<close>, and \<open>evict_page\<close> when no frame is free.\<close>

definition take_frame :: "bpm \<Rightarrow> (nat option \<times> bpm) option" where
  "take_frame b =
     (case find_free_frame b of
        None \<Rightarrow> None
      | Some (Some f, b) \<Rightarrow> Some (Some f, b)
      | Some (None, b) \<Rightarrow> evict_page b)"

fun push_all_free :: "nat list \<Rightarrow> bpm \<Rightarrow> bpm option" where
  "push_all_free [] b = Some b"
| "push_all_free (f # fs) b = Option.bind (push_free f b) (push_all_free fs)"

text \<open>\<open>bpm_init\<close>; h and es are the uninitialised memory that the list nodes and the entries get.\<close>

definition bpm_init :: "nat \<Rightarrow> disk \<Rightarrow> free_ptr store \<Rightarrow> lru_ptr store \<Rightarrow> (nat \<Rightarrow> lru_entry) \<Rightarrow> bpm option" where
  "bpm_init n d h lh es =
     (let (fl, h) = list_init \<lparr>sentinel = Free_Sentinel, lsize = 0\<rparr> h
      in push_all_free [0..<n]
        \<lparr>pool_size = n,
         pages = replicate n \<lparr>page_data = zero_page, page_pid = INVALID_PAGE_ID, pin_count = 0, is_dirty = False\<rparr>,
         page_table = hashmap_init 64 int_hash int_equal,
         free_list = fl, free_nodes = h,
         replacer_of = lru_replacer_init n lh es, disk_manager = d\<rparr>)"

definition bpm_fetch_page :: "int \<Rightarrow> bpm \<Rightarrow> (nat option \<times> bpm) option" where
  "bpm_fetch_page pid b =
     (case table_lookup b pid of
        Some f \<Rightarrow>
          let p = pages b ! f;
              b = set_page f (p\<lparr>pin_count := pin_count p + 1\<rparr>) b
          in map_option (\<lambda>r. (Some f, b\<lparr>replacer_of := r\<rparr>)) (lru_replacer_pin (replacer_of b) f)
      | None \<Rightarrow>
          (case take_frame b of
             None \<Rightarrow> None
           | Some (None, b) \<Rightarrow> Some (None, b)
           | Some (Some f, b) \<Rightarrow>
               (case disk_manager_read_page pid (disk_manager b) of
                  (Inl e, d) \<Rightarrow> map_option (Pair None) (push_free f (b\<lparr>disk_manager := d\<rparr>))
                | (Inr data, d) \<Rightarrow>
                    let b = b\<lparr>disk_manager := d\<rparr>;
                        b = set_page f \<lparr>page_data = data, page_pid = pid, pin_count = 1, is_dirty = False\<rparr> b
                    in Some (Some f, b\<lparr>page_table := hashmap_put (page_table b) (page_id_to_key pid) (frame_id_to_val f)\<rparr>))))"

definition bpm_new_page :: "bpm \<Rightarrow> ((int \<times> nat) option \<times> bpm) option" where
  "bpm_new_page b =
     (let (new_pid, d) = disk_manager_allocate_page (disk_manager b);
          b = b\<lparr>disk_manager := d\<rparr>
      in if new_pid < 0 then Some (None, b)
         else
           case take_frame b of
             None \<Rightarrow> None
           | Some (None, b) \<Rightarrow>
               Some (None, b\<lparr>disk_manager := snd (disk_manager_deallocate_page new_pid (disk_manager b))\<rparr>)
           | Some (Some f, b) \<Rightarrow>
               let b = set_page f \<lparr>page_data = zero_page, page_pid = new_pid, pin_count = 1, is_dirty = False\<rparr> b;
                   b = b\<lparr>disk_manager := snd (disk_manager_write_page new_pid zero_page (disk_manager b))\<rparr>
               in Some (Some (new_pid, f),
                    b\<lparr>page_table := hashmap_put (page_table b) (page_id_to_key new_pid) (frame_id_to_val f)\<rparr>))"

definition bpm_unpin_page :: "int \<Rightarrow> bool \<Rightarrow> bpm \<Rightarrow> (int \<times> bpm) option" where
  "bpm_unpin_page pid dirty b =
     (case table_lookup b pid of
        None \<Rightarrow> Some (-1, b)
      | Some f \<Rightarrow>
          let p = pages b ! f in
          if pin_count p \<le> 0 then Some (-1, b)
          else
            let p = p\<lparr>pin_count := pin_count p - 1\<rparr>;
                p = (if dirty then p\<lparr>is_dirty := True\<rparr> else p);
                b = set_page f p b
            in if pin_count p = 0
               then map_option (\<lambda>r. (0, b\<lparr>replacer_of := r\<rparr>)) (lru_replacer_unpin (replacer_of b) f)
               else Some (0, b))"

definition bpm_flush_page :: "int \<Rightarrow> bpm \<Rightarrow> int \<times> bpm" where
  "bpm_flush_page pid b =
     (case table_lookup b pid of
        None \<Rightarrow> (-1, b)
      | Some f \<Rightarrow>
          let p = pages b ! f in
          case disk_manager_write_page pid (page_data p) (disk_manager b) of
            (Inl e, d) \<Rightarrow> (code_of e, b\<lparr>disk_manager := d\<rparr>)
          | (Inr _, d) \<Rightarrow> (code_of DB_OK, set_page f (p\<lparr>is_dirty := False\<rparr>) (b\<lparr>disk_manager := d\<rparr>)))"

definition flush_frame :: "bpm \<Rightarrow> nat \<Rightarrow> bpm" where
  "flush_frame b f =
     (let p = pages b ! f in
      if page_pid p \<noteq> INVALID_PAGE_ID \<and> is_dirty p
      then set_page f (p\<lparr>is_dirty := False\<rparr>)
        (b\<lparr>disk_manager := snd (disk_manager_write_page (page_pid p) (page_data p) (disk_manager b))\<rparr>)
      else b)"

definition bpm_flush_all :: "bpm \<Rightarrow> bpm" where
  "bpm_flush_all b = foldl flush_frame b [0..<pool_size b]"

definition bpm_destroy :: "bpm \<Rightarrow> bpm" where
  "bpm_destroy b =
     (let b = bpm_flush_all b
      in b\<lparr>pages := [], page_table := hashmap_destroy (page_table b),
           replacer_of := lru_replacer_destroy (replacer_of b)\<rparr>)"

section \<open>The page guard\<close>

record page_guard =
  guard_page :: "nat option"
  guard_bpm :: bool
  guard_dirty :: bool

definition page_guard_create :: "nat option \<Rightarrow> page_guard" where
  "page_guard_create p = \<lparr>guard_page = p, guard_bpm = True, guard_dirty = False\<rparr>"

definition page_guard_release :: "page_guard \<Rightarrow> bpm \<Rightarrow> (page_guard \<times> bpm) option" where
  "page_guard_release g b =
     (let g' = \<lparr>guard_page = None, guard_bpm = False, guard_dirty = False\<rparr> in
      case guard_page g of
        Some f \<Rightarrow>
          if guard_bpm g
          then map_option (\<lambda>(rc, b). (g', b)) (bpm_unpin_page (page_pid (pages b ! f)) (guard_dirty g) b)
          else Some (g', b)
      | None \<Rightarrow> Some (g', b))"

definition page_guard_mark_dirty :: "page_guard \<Rightarrow> bpm \<Rightarrow> page_guard \<times> bpm" where
  "page_guard_mark_dirty g b =
     (g\<lparr>guard_dirty := True\<rparr>,
      case guard_page g of Some f \<Rightarrow> set_page f ((pages b ! f)\<lparr>is_dirty := True\<rparr>) b | None \<Rightarrow> b)"

section \<open>The view and the invariant\<close>

definition pool_view :: "bpm \<Rightarrow> int \<Rightarrow> buffer option" where
  "pool_view b pid =
     (case table_lookup b pid of Some f \<Rightarrow> Some (page_data (pages b ! f)) | None \<Rightarrow> page_at (disk_manager b) pid)"

text \<open>fr are the free frames in list order, the frames of \<open>used\<close> hold pages; in a good pool every frame is
  one or the other, and only then.\<close>

definition frames_ok :: "bpm \<Rightarrow> nat list \<Rightarrow> bool" where
  "frames_ok b fr \<longleftrightarrow>
     length (pages b) = pool_size b \<and> pool_size b < 4294967295 \<and>
     list_ok (free_nodes b) (free_list b) (map Free_Node fr) \<and> sentinel (free_list b) = Free_Sentinel \<and>
     (\<forall>f \<in> set fr. f < pool_size b)"

definition table_ok :: "bpm \<Rightarrow> nat list \<Rightarrow> bool" where
  "table_ok b fr \<longleftrightarrow>
     hm_ok (page_table b) \<and>
     (\<forall>pid f. in_range 32 pid \<longrightarrow>
        (table_lookup b pid = Some f \<longleftrightarrow>
          f < pool_size b \<and> f \<notin> set fr \<and> page_pid (pages b ! f) = pid)) \<and>
     (\<forall>f < pool_size b. f \<notin> set fr \<longrightarrow> in_range 32 (page_pid (pages b ! f)) \<and> 0 \<le> pin_count (pages b ! f))"

definition pins_ok :: "bpm \<Rightarrow> nat list \<Rightarrow> bool" where
  "pins_ok b fr \<longleftrightarrow>
     lru_inv (replacer_of b) \<and>
     lru_frames (replacer_of b) = {f. f < pool_size b \<and> f \<notin> set fr \<and> pin_count (pages b ! f) = 0} \<and>
     (\<forall>f \<in> set fr. page_pid (pages b ! f) = INVALID_PAGE_ID \<and> \<not> is_dirty (pages b ! f))"

definition store_ok :: "bpm \<Rightarrow> nat list \<Rightarrow> int list \<Rightarrow> bool" where
  "store_ok b fr dfl \<longleftrightarrow>
     (\<exists>ps. disk_ok (disk_manager b) ps dfl) \<and>
     (\<forall>f < pool_size b. f \<notin> set fr \<longrightarrow>
        data_page (disk_manager b) dfl (page_pid (pages b ! f)) \<and>
        (pin_count (pages b ! f) = 0 \<and> \<not> is_dirty (pages b ! f) \<longrightarrow>
           page_at (disk_manager b) (page_pid (pages b ! f)) = Some (page_data (pages b ! f))))"

definition bpm_ok :: "bpm \<Rightarrow> nat list \<Rightarrow> int list \<Rightarrow> bool" where
  "bpm_ok b fr dfl \<longleftrightarrow> frames_ok b fr \<and> table_ok b fr \<and> pins_ok b fr \<and> store_ok b fr dfl"

subsection \<open>Keys and values of the page table\<close>

lemma page_key_inj: "in_range 32 p \<Longrightarrow> in_range 32 q \<Longrightarrow> page_id_to_key p = page_id_to_key q \<longleftrightarrow> p = q"
proof -
  assume p: "in_range 32 p" and q: "in_range 32 q"
  have "pattern 32 p < 2 ^ 64" "pattern 32 q < 2 ^ 64"
    using pattern_less [of 32 p] pattern_less [of 32 q] by simp_all
  moreover have "(of_nat a :: uintptr) = of_nat b \<longleftrightarrow> a = b" if "a < 2 ^ 64" "b < 2 ^ 64" for a b
    using that by (simp add: word_of_nat_eq_iff take_bit_nat_eq_self)
  ultimately have "page_id_to_key p = page_id_to_key q \<longleftrightarrow> pattern 32 p = pattern 32 q"
    by (simp add: page_id_to_key_def)
  also have "\<dots> \<longleftrightarrow> p = q"
  proof
    assume "pattern 32 p = pattern 32 q"
    then have "to_signed 32 (pattern 32 p) = to_signed 32 (pattern 32 q)" by (rule arg_cong)
    moreover have "to_signed 32 (pattern 32 p) = p" "to_signed 32 (pattern 32 q) = q"
      by (rule signed_pattern; simp add: p q)+
    ultimately show "p = q" by (rule_tac box_equals)
  qed simp
  finally show ?thesis .
qed

lemma frame_val:
  assumes f: "f < 4294967295"
  shows "frame_id_to_val f \<noteq> 0" and "val_to_frame_id (frame_id_to_val f) = f"
proof -
  have "u32 f = f" "u32 (f + 1) = f + 1" using f by (simp_all add: int_simps)
  then have v: "frame_id_to_val f = of_nat (f + 1)" by (simp add: frame_id_to_val_def)
  have "unat (of_nat n :: uintptr) = n" if "n < 2 ^ 64" for n
    using that by (simp add: unat_of_nat take_bit_nat_eq_self)
  note this [of "f + 1"]
  moreover have "f + 1 < 2 ^ 64" using f by simp
  ultimately have u: "unat (of_nat (f + 1) :: uintptr) = f + 1" by blast
  then show "frame_id_to_val f \<noteq> 0" unfolding v by (metis Suc_eq_plus1 nat.distinct(1) unsigned_0)
  have "u32 (f + 1 + 4294967295) = f" using f by (simp add: u32_def)
  then show "val_to_frame_id (frame_id_to_val f) = f"
    unfolding v val_to_frame_id_def u using f by (simp add: int_simps)
qed

lemma table_lookup_put:
  assumes "hm_ok (page_table b)" "f < 4294967295" "in_range 32 pid" "in_range 32 q"
  shows "table_lookup (b\<lparr>page_table := hashmap_put (page_table b) (page_id_to_key pid) (frame_id_to_val f)\<rparr>) q =
    (if q = pid then Some f else table_lookup b q)"
  using hm.get_put [OF assms(1)] frame_val [OF assms(2)] page_key_inj [OF assms(4,3)] by (simp add: table_lookup_def)

lemma table_lookup_remove:
  assumes "hm_ok (page_table b)" "in_range 32 pid" "in_range 32 q"
  shows "table_lookup (b\<lparr>page_table := snd (hashmap_remove (page_table b) (page_id_to_key pid))\<rparr>) q =
    (if q = pid then None else table_lookup b q)"
  using hm.get_rem [OF assms(1)] page_key_inj [OF assms(3,2)] by (simp add: table_lookup_def)

lemma table_lookup_cong: "page_table b' = page_table b \<Longrightarrow> table_lookup b' = table_lookup b"
  by (simp add: table_lookup_def fun_eq_iff)

lemma pool_view_cong:
  assumes "page_table b' = page_table b" "pages b' = pages b" "disk_manager b' = disk_manager b"
  shows "pool_view b' = pool_view b"
  using table_lookup_cong [OF assms(1)] assms by (simp add: pool_view_def fun_eq_iff split: option.split)

lemma set_page_fields [simp]:
  "pool_size (set_page f p b) = pool_size b" "page_table (set_page f p b) = page_table b"
  "free_list (set_page f p b) = free_list b" "free_nodes (set_page f p b) = free_nodes b"
  "replacer_of (set_page f p b) = replacer_of b" "disk_manager (set_page f p b) = disk_manager b"
  "pages (set_page f p b) = (pages b)[f := p]"
  by (simp_all add: set_page_def)

subsection \<open>The invariant\<close>

lemma bpm_okD:
  assumes "bpm_ok b fr dfl"
  shows bpm_frames: "frames_ok b fr" and bpm_table: "table_ok b fr"
    and bpm_pins: "pins_ok b fr" and bpm_store: "store_ok b fr dfl"
  using assms by (simp_all add: bpm_ok_def)

lemma bpm_lookup:
  "bpm_ok b fr dfl \<Longrightarrow> in_range 32 pid \<Longrightarrow>
   table_lookup b pid = Some f \<longleftrightarrow> f < pool_size b \<and> f \<notin> set fr \<and> page_pid (pages b ! f) = pid"
  by (simp add: bpm_ok_def table_ok_def)

lemma bpm_len: "bpm_ok b fr dfl \<Longrightarrow> length (pages b) = pool_size b \<and> pool_size b < 4294967295"
  by (simp add: bpm_ok_def frames_ok_def)

lemma bpm_frame_ok: "bpm_ok b fr dfl \<Longrightarrow> f < pool_size b \<Longrightarrow> frame_ok f"
  using bpm_len by (fastforce simp: frame_ok_def)

lemma resident_pid: "bpm_ok b fr dfl \<Longrightarrow> f < pool_size b \<Longrightarrow> f \<notin> set fr \<Longrightarrow>
  in_range 32 (page_pid (pages b ! f)) \<and> table_lookup b (page_pid (pages b ! f)) = Some f"
  by (simp add: bpm_ok_def table_ok_def)

lemma resident_inj:
  assumes ok: "bpm_ok b fr dfl" and f: "f < pool_size b" "f \<notin> set fr" and g: "g < pool_size b" "g \<notin> set fr"
    and eq: "page_pid (pages b ! f) = page_pid (pages b ! g)"
  shows "f = g"
proof -
  have "Some f = Some g"
    using resident_pid [OF ok f, THEN conjunct2] resident_pid [OF ok g, THEN conjunct2] unfolding eq by (rule trans [OF sym])
  then show ?thesis by blast
qed

text \<open>Changing a resident page without touching its id: what the page becomes, and the replacer.\<close>

lemma frame_update:
  assumes ok: "bpm_ok b fr dfl" and f: "f < pool_size b" "f \<notin> set fr"
    and p: "page_pid p = page_pid (pages b ! f)" "0 \<le> pin_count p"
    and r: "lru_inv r" "lru_frames r = (if pin_count p = 0 then insert f (lru_frames (replacer_of b)) else lru_frames (replacer_of b) - {f})"
    and clean: "pin_count p = 0 \<and> \<not> is_dirty p \<longrightarrow> page_at (disk_manager b) (page_pid p) = Some (page_data p)"
  defines "b' \<equiv> (set_page f p b)\<lparr>replacer_of := r\<rparr>"
  shows "bpm_ok b' fr dfl"
    and "in_range 32 q \<Longrightarrow> pool_view b' q = ((pool_view b)(page_pid p \<mapsto> page_data p)) q"
proof -
  note len = bpm_len [OF ok]
  have look: "table_lookup b' = table_lookup b" by (rule table_lookup_cong) (simp add: b'_def)
  have nth: "pages b' ! g = (if g = f then p else pages b ! g)" if "g < pool_size b" for g
    using that f len by (simp add: b'_def)
  have same: "pool_size b' = pool_size b" "page_table b' = page_table b" "replacer_of b' = r"
    "disk_manager b' = disk_manager b" by (simp_all add: b'_def)
  have pid: "page_pid (pages b' ! g) = page_pid (pages b ! g)" if "g < pool_size b" for g using nth [OF that] p(1) by simp
  have "frames_ok b' fr" using bpm_frames [OF ok] by (simp add: frames_ok_def b'_def)
  moreover have "table_ok b' fr"
    using bpm_table [OF ok] p f unfolding table_ok_def look same by (simp add: pid nth cong: conj_cong)
  moreover have "pins_ok b' fr"
    using bpm_pins [OF ok] r f bpm_frames [OF ok] unfolding pins_ok_def frames_ok_def same by (auto simp: nth split: if_splits)
  moreover have "store_ok b' fr dfl"
    using bpm_store [OF ok] p f clean unfolding store_ok_def same by (auto simp: nth)
  ultimately show "bpm_ok b' fr dfl" by (simp add: bpm_ok_def)
  show "pool_view b' q = ((pool_view b)(page_pid p \<mapsto> page_data p)) q" if q: "in_range 32 q"
  proof (cases "table_lookup b q")
    case None
    have "q \<noteq> page_pid p"
    proof
      assume "q = page_pid p"
      then have "page_pid (pages b ! f) = q" using p(1) by simp
      then have "table_lookup b q = Some f" using bpm_lookup [OF ok q, of f] f by blast
      then show False using None by simp
    qed
    then show ?thesis using None by (simp add: pool_view_def look same)
  next
    case (Some g)
    then have g: "g < pool_size b" "g \<notin> set fr" "page_pid (pages b ! g) = q" using bpm_lookup [OF ok q] by auto
    have "g = f \<longleftrightarrow> q = page_pid p"
    proof
      assume "q = page_pid p"
      then have "page_pid (pages b ! f) = page_pid (pages b ! g)" using p(1) g(3) by simp
      then show "g = f" using resident_inj [OF ok f g(1,2)] by blast
    next
      assume "g = f"
      then show "q = page_pid p" using g(3) p(1) by simp
    qed
    then show ?thesis using Some g nth [OF g(1)] by (simp add: pool_view_def look)
  qed
qed

subsection \<open>Free frames\<close>

lemma data_page_in_range: "disk_ok d ps dfl \<Longrightarrow> data_page d dfl q \<Longrightarrow> in_range 32 q \<and> 0 < q"
  by (auto simp: disk_ok_def data_page_def in_range_def)

lemma bpm_disk:
  assumes "bpm_ok b fr dfl"
  obtains ps where "disk_ok (disk_manager b) ps dfl"
  using assms by (auto simp: bpm_ok_def store_ok_def)

lemma find_free_none: "frames_ok b [] \<Longrightarrow> find_free_frame b = Some (None, b)"
  by (simp add: frames_ok_def list_ok_def find_free_frame_def list_empty_def)

lemma find_free_some:
  assumes ok: "frames_ok b (f # fr)"
  obtains l h where "find_free_frame b = Some (Some f, b\<lparr>free_list := l, free_nodes := h\<rparr>)"
    "list_ok h l (map Free_Node fr)" "sentinel l = Free_Sentinel"
proof -
  have l: "list_ok (free_nodes b) (free_list b) (Free_Node f # map Free_Node fr)" "sentinel (free_list b) = Free_Sentinel"
    using ok by (simp_all add: frames_ok_def)
  obtain h where h: "list_pop_front (free_list b) (free_nodes b) =
      Some (Some (Free_Node f), (free_list b)\<lparr>lsize := lsize (free_list b) - 1\<rparr>, h)"
    "list_ok h ((free_list b)\<lparr>lsize := lsize (free_list b) - 1\<rparr>) (map Free_Node fr)"
    using list_pop_front_ok [OF l(1)] by blast
  have "\<not> list_empty (free_list b)" using l(1) by (simp add: list_ok_def list_empty_def)
  then show ?thesis using that [of h "(free_list b)\<lparr>lsize := lsize (free_list b) - 1\<rparr>"] h l(2)
    by (simp add: find_free_frame_def frame_of_node_def)
qed

lemma push_free_ok:
  assumes l: "list_ok (free_nodes b) (free_list b) (map Free_Node fr)" "sentinel (free_list b) = Free_Sentinel"
    and f: "f \<notin> set fr"
  obtains l' h where "push_free f b = Some (b\<lparr>free_list := l', free_nodes := h\<rparr>)"
    "list_ok h l' (map Free_Node (fr @ [f]))" "sentinel l' = Free_Sentinel"
proof -
  let ?h = "(free_nodes b)(Free_Node f := \<lparr>prv = None, nxt = None\<rparr>)"
  have ok: "list_ok ?h (free_list b) (map Free_Node fr)" by (rule list_ok_frame [OF l(1)]) (use f l(2) in auto)
  obtain h where h: "list_push_back (free_list b) (Free_Node f) ?h = Some ((free_list b)\<lparr>lsize := lsize (free_list b) + 1\<rparr>, h)"
    "list_ok h ((free_list b)\<lparr>lsize := lsize (free_list b) + 1\<rparr>) (map Free_Node fr @ [Free_Node f])"
    "\<And>p. p \<notin> insert (Free_Node f) (insert (sentinel (free_list b)) (set (map Free_Node fr))) \<Longrightarrow> h p = ?h p"
    by (rule list_push_back_ok [OF ok, of "Free_Node f"]) (use f l(2) in auto)
  then show ?thesis using that [of h "(free_list b)\<lparr>lsize := lsize (free_list b) + 1\<rparr>"] l(2) by (simp add: push_free_def Let_def)
qed

text \<open>Placing a page in the first free frame, while the disk may have gained it.\<close>

lemma place_page:
  assumes ok: "bpm_ok b (f # fr) dfl"
    and l: "list_ok h l (map Free_Node fr)" "sentinel l = Free_Sentinel"
    and pid: "table_lookup b pid = None"
    and d: "disk_ok d ps dfl'" "data_page d dfl' pid" "page_at d pid = Some data"
    and keep: "\<And>q. data_page (disk_manager b) dfl q \<Longrightarrow> q \<noteq> pid \<Longrightarrow> data_page d dfl' q \<and> page_at d q = page_at (disk_manager b) q"
  defines "b' \<equiv> (set_page f \<lparr>page_data = data, page_pid = pid, pin_count = 1, is_dirty = False\<rparr>
        (b\<lparr>free_list := l, free_nodes := h, disk_manager := d\<rparr>))
        \<lparr>page_table := hashmap_put (page_table b) (page_id_to_key pid) (frame_id_to_val f)\<rparr>"
  shows "bpm_ok b' fr dfl'"
    and "data_page (disk_manager b) dfl q \<or> q = pid \<Longrightarrow> pool_view b' q = ((pool_view b)(pid \<mapsto> data)) q"
    and "pages b' ! f = \<lparr>page_data = data, page_pid = pid, pin_count = 1, is_dirty = False\<rparr>"
    and "table_lookup b' pid = Some f"
proof -
  note len = bpm_len [OF ok]
  have f: "f < pool_size b" "f < 4294967295" and dist: "f \<notin> set fr" and fr: "\<forall>g \<in> set fr. g < pool_size b"
    using bpm_frames [OF ok] by (auto simp: frames_ok_def list_ok_def)
  have hm: "hm_ok (page_table b)" using bpm_table [OF ok] by (simp add: table_ok_def)
  have r: "in_range 32 pid" using data_page_in_range [OF d(1,2)] by simp
  have nth: "pages b' ! g = (if g = f then \<lparr>page_data = data, page_pid = pid, pin_count = 1, is_dirty = False\<rparr> else pages b ! g)"
    if "g < pool_size b" for g using that f len by (simp add: b'_def)
  have look: "table_lookup b' q = (if q = pid then Some f else table_lookup b q)" if "in_range 32 q" for q
  proof -
    have "table_lookup b' q = table_lookup (b\<lparr>page_table := hashmap_put (page_table b) (page_id_to_key pid) (frame_id_to_val f)\<rparr>) q"
      by (simp add: table_lookup_def b'_def)
    then show ?thesis using table_lookup_put [OF hm f(2) r that] by simp
  qed
  have same: "pool_size b' = pool_size b" "replacer_of b' = replacer_of b" "disk_manager b' = d"
    "free_list b' = l" "free_nodes b' = h" "length (pages b') = length (pages b)"
    "page_table b' = hashmap_put (page_table b) (page_id_to_key pid) (frame_id_to_val f)" by (simp_all add: b'_def)
  have old: "page_pid (pages b ! g) \<noteq> pid" if "g < pool_size b" "g \<notin> set (f # fr)" for g
    using resident_pid [OF ok that] pid by auto
  have tb: "\<forall>pid f'. in_range 32 pid \<longrightarrow> (table_lookup b pid = Some f' \<longleftrightarrow>
      f' < pool_size b \<and> f' \<notin> set (f # fr) \<and> page_pid (pages b ! f') = pid)"
    "\<forall>g < pool_size b. g \<notin> set (f # fr) \<longrightarrow> in_range 32 (page_pid (pages b ! g)) \<and> 0 \<le> pin_count (pages b ! g)"
    using bpm_table [OF ok] by (simp_all add: table_ok_def)
  have "frames_ok b' fr" using bpm_frames [OF ok] l unfolding frames_ok_def same by simp
  moreover have "table_ok b' fr"
    unfolding table_ok_def same
  proof (intro conjI allI impI)
    show "hm_ok (hashmap_put (page_table b) (page_id_to_key pid) (frame_id_to_val f))" by (rule hm.ok_put [OF hm])
    fix q g assume q: "in_range 32 q"
    show "table_lookup b' q = Some g \<longleftrightarrow> g < pool_size b \<and> g \<notin> set fr \<and> page_pid (pages b' ! g) = q"
      using look [OF q] tb(1) q dist f old nth [of g] by (cases "g = f"; cases "q = pid") auto
  next
    fix g assume "g < pool_size b" "g \<notin> set fr"
    then show "in_range 32 (page_pid (pages b' ! g))" "0 \<le> pin_count (pages b' ! g)"
      using tb(2) nth r by auto
  qed
  moreover have "pins_ok b' fr"
    using bpm_pins [OF ok] dist f fr unfolding pins_ok_def same by (auto simp: nth split: if_splits)
  moreover have "store_ok b' fr dfl'"
    unfolding store_ok_def same
  proof (intro conjI allI impI)
    show "\<exists>ps. disk_ok d ps dfl'" using d(1) by blast
    fix g assume g: "g < pool_size b" "g \<notin> set fr"
    have st: "data_page (disk_manager b) dfl (page_pid (pages b ! g))"
      "pin_count (pages b ! g) = 0 \<and> \<not> is_dirty (pages b ! g) \<longrightarrow>
        page_at (disk_manager b) (page_pid (pages b ! g)) = Some (page_data (pages b ! g))" if "g \<noteq> f"
      using bpm_store [OF ok] g that by (auto simp: store_ok_def)
    show "data_page d dfl' (page_pid (pages b' ! g))"
      using nth [OF g(1)] d(2) keep st(1) old [of g] g by (cases "g = f") auto
    assume "pin_count (pages b' ! g) = 0 \<and> \<not> is_dirty (pages b' ! g)"
    then show "page_at d (page_pid (pages b' ! g)) = Some (page_data (pages b' ! g))"
      using nth [OF g(1)] keep st old [of g] g by (cases "g = f") auto
  qed
  ultimately show "bpm_ok b' fr dfl'" by (simp add: bpm_ok_def)
  show nf: "pages b' ! f = \<lparr>page_data = data, page_pid = pid, pin_count = 1, is_dirty = False\<rparr>" using nth [OF f(1)] by simp
  show "table_lookup b' pid = Some f" using look [OF r] by simp
  show "pool_view b' q = ((pool_view b)(pid \<mapsto> data)) q" if q: "data_page (disk_manager b) dfl q \<or> q = pid"
  proof (cases "q = pid")
    case True
    then show ?thesis using look [OF r] nf by (simp add: pool_view_def)
  next
    case False
    then have dq: "data_page (disk_manager b) dfl q" using q by simp
    obtain ps0 where "disk_ok (disk_manager b) ps0 dfl" by (rule bpm_disk [OF ok])
    then have qr: "in_range 32 q" using data_page_in_range dq by blast
    show ?thesis
    proof (cases "table_lookup b q")
      case None
      then show ?thesis using look [OF qr] False keep [OF dq False] by (simp add: pool_view_def same)
    next
      case (Some g)
      then have "g < pool_size b" "g \<noteq> f" using tb(1) qr by auto
      then show ?thesis using look [OF qr] False Some nth by (simp add: pool_view_def)
    qed
  qed
qed

subsection \<open>The operations\<close>

lemma bpm_lru:
  assumes "bpm_ok b fr dfl"
  shows "lru_inv (replacer_of b)"
    and "f \<in> lru_frames (replacer_of b) \<longleftrightarrow> f < pool_size b \<and> f \<notin> set fr \<and> pin_count (pages b ! f) = 0"
  using bpm_pins [OF assms] by (simp_all add: pins_ok_def)

lemma resident_facts:
  assumes ok: "bpm_ok b fr dfl" and f: "f < pool_size b" "f \<notin> set fr"
  shows "0 \<le> pin_count (pages b ! f)" and "data_page (disk_manager b) dfl (page_pid (pages b ! f))"
    and "pin_count (pages b ! f) = 0 \<Longrightarrow> \<not> is_dirty (pages b ! f) \<Longrightarrow>
      page_at (disk_manager b) (page_pid (pages b ! f)) = Some (page_data (pages b ! f))"
  using bpm_table [OF ok] bpm_store [OF ok] f by (simp_all add: table_ok_def store_ok_def)

lemma pool_view_resident:
  "table_lookup b pid = Some f \<Longrightarrow> pool_view b pid = Some (page_data (pages b ! f))"
  by (simp add: pool_view_def)

lemma fetch_hit:
  assumes ok: "bpm_ok b fr dfl" and pid: "in_range 32 pid" "table_lookup b pid = Some f"
  obtains b' where "bpm_fetch_page pid b = Some (Some f, b')" "bpm_ok b' fr dfl" "disk_manager b' = disk_manager b"
    "\<And>q. in_range 32 q \<Longrightarrow> pool_view b' q = pool_view b q" "table_lookup b' = table_lookup b"
    "pages b' = (pages b)[f := (pages b ! f)\<lparr>pin_count := pin_count (pages b ! f) + 1\<rparr>]"
proof -
  have f: "f < pool_size b" "f \<notin> set fr" "page_pid (pages b ! f) = pid" using bpm_lookup [OF ok pid(1)] pid(2) by auto
  let ?p = "(pages b ! f)\<lparr>pin_count := pin_count (pages b ! f) + 1\<rparr>"
  obtain r where r: "lru_replacer_pin (replacer_of b) f = Some r" "lru_inv r" "lru_frames r = lru_frames (replacer_of b) - {f}"
    using lru.pin_ok [OF bpm_lru(1) [OF ok] bpm_frame_ok [OF ok f(1)]] by blast
  have pc: "0 \<le> pin_count (pages b ! f)" by (rule resident_facts(1) [OF ok f(1,2)])
  then have pp: "page_pid ?p = page_pid (pages b ! f)" "0 \<le> pin_count ?p" "pin_count ?p \<noteq> 0" by simp_all
  then have r': "lru_frames r = (if pin_count ?p = 0 then insert f (lru_frames (replacer_of b)) else lru_frames (replacer_of b) - {f})"
    using r(3) by simp
  have c: "pin_count ?p = 0 \<and> \<not> is_dirty ?p \<longrightarrow> page_at (disk_manager b) (page_pid ?p) = Some (page_data ?p)" using pp(3) by blast
  note u = frame_update [OF ok f(1,2) pp(1,2) r(2) r' c]
  show ?thesis
  proof (rule that [OF _ u(1)])
    show "bpm_fetch_page pid b = Some (Some f, (set_page f ?p b)\<lparr>replacer_of := r\<rparr>)"
      using pid(2) r(1) by (simp add: bpm_fetch_page_def Let_def)
    show "pool_view ((set_page f ?p b)\<lparr>replacer_of := r\<rparr>) q = pool_view b q" if q: "in_range 32 q" for q
      using u(2) [OF q] pool_view_resident [OF pid(2)] f(3) by auto
    show "table_lookup ((set_page f ?p b)\<lparr>replacer_of := r\<rparr>) = table_lookup b" by (rule table_lookup_cong) simp
  qed simp_all
qed

lemma fetch_free:
  assumes ok: "bpm_ok b (f # fr) dfl" and pid: "table_lookup b pid = None" "data_page (disk_manager b) dfl pid"
  obtains b' data where "bpm_fetch_page pid b = Some (Some f, b')" "bpm_ok b' fr dfl" "disk_manager b' = disk_manager b"
    "page_at (disk_manager b) pid = Some data"
    "\<And>q. data_page (disk_manager b) dfl q \<Longrightarrow> pool_view b' q = pool_view b q" "table_lookup b' pid = Some f"
    "pages b' ! f = \<lparr>page_data = data, page_pid = pid, pin_count = 1, is_dirty = False\<rparr>"
    "pool_size b' = pool_size b"
    "pages b' = (pages b)[f := \<lparr>page_data = data, page_pid = pid, pin_count = 1, is_dirty = False\<rparr>]"
proof -
  obtain ps where d: "disk_ok (disk_manager b) ps dfl" by (rule bpm_disk [OF ok])
  obtain data where data: "page_at (disk_manager b) pid = Some data"
    using page_at_ok [OF d, of pid] pid(2) by (simp add: data_page_def)
  obtain l h where ff: "find_free_frame b = Some (Some f, b\<lparr>free_list := l, free_nodes := h\<rparr>)"
    "list_ok h l (map Free_Node fr)" "sentinel l = Free_Sentinel"
    by (rule find_free_some [OF bpm_frames [OF ok]])
  let ?b = "(set_page f \<lparr>page_data = data, page_pid = pid, pin_count = 1, is_dirty = False\<rparr>
        (b\<lparr>free_list := l, free_nodes := h, disk_manager := disk_manager b\<rparr>))
        \<lparr>page_table := hashmap_put (page_table b) (page_id_to_key pid) (frame_id_to_val f)\<rparr>"
  have keep: "data_page (disk_manager b) dfl q \<and> page_at (disk_manager b) q = page_at (disk_manager b) q"
    if "data_page (disk_manager b) dfl q" for q using that by simp
  note pl = place_page [OF ok ff(2,3) pid(1) d pid(2) data keep]
  show ?thesis
  proof (rule that [of ?b data, OF _ pl(1) _ data _ pl(4) pl(3)])
    show "bpm_fetch_page pid b = Some (Some f, ?b)"
      using pid(1) ff(1) read_page_at [OF d data] by (simp add: bpm_fetch_page_def take_frame_def Let_def)
    show "pool_view ?b q = pool_view b q" if "data_page (disk_manager b) dfl q" for q
      using pl(2) [of q] that data pid(1) by (auto simp: pool_view_def)
  qed simp_all
qed

lemma bpm_ok_free_list:
  assumes ok: "bpm_ok b fr dfl" and fr: "set fr' = set fr"
    and l: "list_ok h l (map Free_Node fr')" "sentinel l = Free_Sentinel"
  shows "bpm_ok (b\<lparr>free_list := l, free_nodes := h\<rparr>) fr' dfl"
proof -
  have "table_lookup (b\<lparr>free_list := l, free_nodes := h\<rparr>) = table_lookup b" by (rule table_lookup_cong) simp
  then show ?thesis
    using ok l unfolding bpm_ok_def frames_ok_def table_ok_def pins_ok_def store_ok_def by (simp add: fr)
qed

text \<open>A failed read gives the frame back.\<close>

lemma fetch_unreadable:
  assumes ok: "bpm_ok b (f # fr) dfl" and pid: "table_lookup b pid = None"
    and bad: "disk_manager_read_page pid (disk_manager b) = (Inl e, disk_manager b)"
  obtains b' where "bpm_fetch_page pid b = Some (None, b')" "bpm_ok b' (fr @ [f]) dfl" "pool_view b' = pool_view b"
proof -
  obtain l h where ff: "find_free_frame b = Some (Some f, b\<lparr>free_list := l, free_nodes := h\<rparr>)"
    "list_ok h l (map Free_Node fr)" "sentinel l = Free_Sentinel"
    by (rule find_free_some [OF bpm_frames [OF ok]])
  let ?b = "b\<lparr>free_list := l, free_nodes := h\<rparr>"
  have l: "list_ok (free_nodes ?b) (free_list ?b) (map Free_Node fr)" "sentinel (free_list ?b) = Free_Sentinel" using ff by simp_all
  have f: "f \<notin> set fr" using bpm_frames [OF ok] by (auto simp: frames_ok_def list_ok_def)
  obtain l' h' where p: "push_free f ?b = Some (?b\<lparr>free_list := l', free_nodes := h'\<rparr>)"
    "list_ok h' l' (map Free_Node (fr @ [f]))" "sentinel l' = Free_Sentinel"
    by (rule push_free_ok [OF l f])
  show ?thesis
  proof (rule that [of "b\<lparr>free_list := l', free_nodes := h'\<rparr>"])
    show "bpm_fetch_page pid b = Some (None, b\<lparr>free_list := l', free_nodes := h'\<rparr>)"
      using pid ff(1) bad p(1) by (simp add: bpm_fetch_page_def take_frame_def)
    show "bpm_ok (b\<lparr>free_list := l', free_nodes := h'\<rparr>) (fr @ [f]) dfl"
      by (rule bpm_ok_free_list [OF ok _ p(2,3)]) auto
    show "pool_view (b\<lparr>free_list := l', free_nodes := h'\<rparr>) = pool_view b"
      by (rule pool_view_cong) simp_all
  qed
qed

text \<open>With every frame pinned there is no page pointer to return.\<close>

lemma bpm_ok_replacer:
  assumes ok: "bpm_ok b fr dfl" and r: "lru_inv r" "lru_frames r = lru_frames (replacer_of b)"
  shows "bpm_ok (b\<lparr>replacer_of := r\<rparr>) fr dfl"
proof -
  have "table_lookup (b\<lparr>replacer_of := r\<rparr>) = table_lookup b" by (rule table_lookup_cong) simp
  then show ?thesis
    using ok r unfolding bpm_ok_def frames_ok_def table_ok_def pins_ok_def store_ok_def by simp
qed

lemma fetch_full:
  assumes ok: "bpm_ok b [] dfl" and pid: "table_lookup b pid = None" and pinned: "\<forall>f < pool_size b. 0 < pin_count (pages b ! f)"
  obtains b' where "bpm_fetch_page pid b = Some (None, b')" "bpm_ok b' [] dfl" "pool_view b' = pool_view b"
proof -
  have e: "lru_frames (replacer_of b) = {}" using bpm_lru(2) [OF ok] pinned by auto
  obtain r where r: "lru_replacer_victim (replacer_of b) = Some (None, r)" "lru_inv r" "lru_frames r = {}"
    using lru.victim_none [OF bpm_lru(1) [OF ok] e] by blast
  show ?thesis
  proof (rule that [of "b\<lparr>replacer_of := r\<rparr>"])
    show "bpm_fetch_page pid b = Some (None, b\<lparr>replacer_of := r\<rparr>)"
      using pid find_free_none [OF bpm_frames [OF ok]] r(1) by (simp add: bpm_fetch_page_def take_frame_def evict_page_def)
    show "bpm_ok (b\<lparr>replacer_of := r\<rparr>) [] dfl" by (rule bpm_ok_replacer [OF ok r(2)]) (simp add: r(3) e)
    show "pool_view (b\<lparr>replacer_of := r\<rparr>) = pool_view b"
      by (rule pool_view_cong) simp_all
  qed
qed

lemma unpin_resident:
  assumes ok: "bpm_ok b fr dfl" and pid: "in_range 32 pid" "table_lookup b pid = Some f" and pin: "0 < pin_count (pages b ! f)"
    and mark: "dirty \<or> is_dirty (pages b ! f) \<or> page_at (disk_manager b) pid = Some (page_data (pages b ! f))"
  obtains b' where "bpm_unpin_page pid dirty b = Some (0, b')" "bpm_ok b' fr dfl" "disk_manager b' = disk_manager b"
    "\<And>q. in_range 32 q \<Longrightarrow> pool_view b' q = pool_view b q"
    "pages b' = (pages b)[f := (pages b ! f)\<lparr>pin_count := pin_count (pages b ! f) - 1, is_dirty := is_dirty (pages b ! f) \<or> dirty\<rparr>]"
proof -
  have f: "f < pool_size b" "f \<notin> set fr" "page_pid (pages b ! f) = pid" using bpm_lookup [OF ok pid(1)] pid(2) by auto
  let ?p = "(pages b ! f)\<lparr>pin_count := pin_count (pages b ! f) - 1, is_dirty := is_dirty (pages b ! f) \<or> dirty\<rparr>"
  have p: "(if dirty then (pages b ! f)\<lparr>pin_count := pin_count (pages b ! f) - 1, is_dirty := True\<rparr>
      else (pages b ! f)\<lparr>pin_count := pin_count (pages b ! f) - 1\<rparr>) = ?p" by (cases "pages b ! f") simp
  obtain r1 where r1: "lru_replacer_unpin (replacer_of b) f = Some r1" "lru_inv r1" "lru_frames r1 = insert f (lru_frames (replacer_of b))"
    using lru.unpin_ok [OF bpm_lru(1) [OF ok] bpm_frame_ok [OF ok f(1)]] by blast
  define r where "r = (if pin_count ?p = 0 then r1 else replacer_of b)"
  have "f \<notin> lru_frames (replacer_of b)" using bpm_lru(2) [OF ok, of f] pin by simp
  then have rf: "lru_inv r" "lru_frames r = (if pin_count ?p = 0 then insert f (lru_frames (replacer_of b)) else lru_frames (replacer_of b) - {f})"
    using r1 bpm_lru(1) [OF ok] by (simp_all add: r_def)
  have pp: "page_pid ?p = page_pid (pages b ! f)" "0 \<le> pin_count ?p" using pin by simp_all
  have c: "pin_count ?p = 0 \<and> \<not> is_dirty ?p \<longrightarrow> page_at (disk_manager b) (page_pid ?p) = Some (page_data ?p)"
    using mark f(3) by auto
  note u = frame_update [OF ok f(1,2) pp rf c]
  show ?thesis
  proof (rule that [OF _ u(1)])
    show "bpm_unpin_page pid dirty b = Some (0, (set_page f ?p b)\<lparr>replacer_of := r\<rparr>)"
      using pid(2) r1(1) pin by (auto simp add: bpm_unpin_page_def Let_def r_def p set_page_def)
    show "pool_view ((set_page f ?p b)\<lparr>replacer_of := r\<rparr>) q = pool_view b q" if q: "in_range 32 q" for q
      using u(2) [OF q] pool_view_resident [OF pid(2)] f(3) by auto
  qed simp_all
qed

text \<open>Writing a resident page back to the disk.\<close>

lemma write_back:
  assumes ok: "bpm_ok b fr dfl" and f: "f < pool_size b" "f \<notin> set fr"
  defines "pid \<equiv> page_pid (pages b ! f)" and "data \<equiv> page_data (pages b ! f)"
  defines "b' \<equiv> set_page f ((pages b ! f)\<lparr>is_dirty := False\<rparr>) (b\<lparr>disk_manager := disk_store (disk_manager b) pid data\<rparr>)"
  shows "disk_manager_write_page pid data (disk_manager b) = (Inr (), disk_store (disk_manager b) pid data)"
    and "bpm_ok b' fr dfl"
    and "in_range 32 q \<Longrightarrow> pool_view b' q = pool_view b q"
    and "page_at (disk_manager b') = (page_at (disk_manager b))(pid \<mapsto> data)"
proof -
  obtain ps where d: "disk_ok (disk_manager b) ps dfl" by (rule bpm_disk [OF ok])
  have dp: "data_page (disk_manager b) dfl pid" unfolding pid_def by (rule resident_facts(2) [OF ok f])
  note st = disk_store_ok [OF d dp, of data] and dps = data_page_store [OF d dp, of data]
  note len = bpm_len [OF ok]
  show "disk_manager_write_page pid data (disk_manager b) = (Inr (), disk_store (disk_manager b) pid data)"
    using write_page_ok(1) [OF d dp, of data] by (simp add: disk_store_def)
  have same: "pool_size b' = pool_size b" "page_table b' = page_table b" "replacer_of b' = replacer_of b"
    "disk_manager b' = disk_store (disk_manager b) pid data" by (simp_all add: b'_def)
  have look: "table_lookup b' = table_lookup b" by (rule table_lookup_cong) (simp add: same)
  have nth: "pages b' ! g = (if g = f then (pages b ! f)\<lparr>is_dirty := False\<rparr> else pages b ! g)" if "g < pool_size b" for g
    using that f len by (simp add: b'_def)
  have pg: "page_pid (pages b' ! g) = page_pid (pages b ! g)" "page_data (pages b' ! g) = page_data (pages b ! g)"
    "pin_count (pages b' ! g) = pin_count (pages b ! g)" "is_dirty (pages b' ! g) \<longleftrightarrow> g \<noteq> f \<and> is_dirty (pages b ! g)"
    if "g < pool_size b" for g using nth [OF that] by simp_all
  show pa: "page_at (disk_manager b') = (page_at (disk_manager b))(pid \<mapsto> data)" unfolding same by (rule st(2))
  have "frames_ok b' fr" using bpm_frames [OF ok] by (simp add: frames_ok_def b'_def)
  moreover have "table_ok b' fr"
    using bpm_table [OF ok] unfolding table_ok_def look same by (simp add: pg cong: conj_cong)
  moreover have "pins_ok b' fr"
    using bpm_pins [OF ok] bpm_frames [OF ok] unfolding pins_ok_def frames_ok_def same by (auto simp: pg)
  moreover have "store_ok b' fr dfl"
    unfolding store_ok_def same
  proof (intro conjI allI impI)
    show "\<exists>ps. disk_ok (disk_store (disk_manager b) pid data) ps dfl" using st(1) by blast
    fix g assume g: "g < pool_size b" "g \<notin> set fr"
    show "data_page (disk_store (disk_manager b) pid data) dfl (page_pid (pages b' ! g))"
      using resident_facts(2) [OF ok g] by (simp add: pg [OF g(1)] dps)
    assume cl: "pin_count (pages b' ! g) = 0 \<and> \<not> is_dirty (pages b' ! g)"
    show "page_at (disk_store (disk_manager b) pid data) (page_pid (pages b' ! g)) = Some (page_data (pages b' ! g))"
    proof (cases "g = f")
      case True
      then have "page_pid (pages b' ! g) = pid" "page_data (pages b' ! g) = data"
        using pg(1,2) [OF g(1)] by (simp_all add: pid_def data_def)
      then show ?thesis by (simp add: st(2))
    next
      case False
      then have "page_pid (pages b ! g) \<noteq> pid" using resident_inj [OF ok f g] unfolding pid_def by auto
      then show ?thesis using False cl resident_facts(3) [OF ok g] by (simp add: pg [OF g(1)] st(2))
    qed
  qed
  ultimately show "bpm_ok b' fr dfl" by (simp add: bpm_ok_def)
  show "pool_view b' q = pool_view b q" if q: "in_range 32 q"
  proof (cases "table_lookup b q")
    case None
    have "q \<noteq> pid" using None resident_pid [OF ok f] unfolding pid_def by auto
    then show ?thesis using None by (simp add: pool_view_def look pa)
  next
    case (Some g)
    then have "g < pool_size b" using bpm_lookup [OF ok q] by auto
    then show ?thesis using Some by (simp add: pool_view_def look pg)
  qed
qed

lemma flush_page_ok:
  assumes ok: "bpm_ok b fr dfl" and pid: "in_range 32 pid" "table_lookup b pid = Some f"
  obtains b' where "bpm_flush_page pid b = (code_of DB_OK, b')" "bpm_ok b' fr dfl"
    "\<And>q. in_range 32 q \<Longrightarrow> pool_view b' q = pool_view b q"
    "page_at (disk_manager b') = (page_at (disk_manager b))(pid := pool_view b pid)"
proof -
  have f: "f < pool_size b" "f \<notin> set fr" "page_pid (pages b ! f) = pid" using bpm_lookup [OF ok pid(1)] pid(2) by auto
  note w = write_back [OF ok f(1,2), unfolded f(3)]
  show ?thesis
    by (rule that [OF _ w(2) w(3)])
      (use pid(2) w(1,4) in \<open>simp_all add: bpm_flush_page_def Let_def pool_view_def set_page_def\<close>)
qed

text \<open>Every modification has been flagged: a clean page agrees with the disk, pinned or not.\<close>

definition all_flagged :: "bpm \<Rightarrow> nat list \<Rightarrow> bool" where
  "all_flagged b fr \<longleftrightarrow>
     (\<forall>f < pool_size b. f \<notin> set fr \<longrightarrow> \<not> is_dirty (pages b ! f) \<longrightarrow>
        page_at (disk_manager b) (page_pid (pages b ! f)) = Some (page_data (pages b ! f)))"

lemma flush_frame_ok:
  assumes ok: "bpm_ok b fr dfl" and fl: "all_flagged b fr" and f: "f < pool_size b"
  defines "b' \<equiv> flush_frame b f"
  shows "bpm_ok b' fr dfl" and "all_flagged b' fr" and "pool_size b' = pool_size b"
    and "\<And>q. in_range 32 q \<Longrightarrow> pool_view b' q = pool_view b q"
    and "\<And>g. g < pool_size b \<Longrightarrow> g \<notin> set fr \<Longrightarrow> is_dirty (pages b' ! g) \<longleftrightarrow> g \<noteq> f \<and> is_dirty (pages b ! g)"
    and "table_lookup b' = table_lookup b" and "page_count (disk_manager b') = page_count (disk_manager b)"
proof (atomize (full), goal_cases)
  case 1
  show ?case
  proof (cases "f \<notin> set fr \<and> is_dirty (pages b ! f)")
    case True
    then have f': "f \<notin> set fr" by simp
    note w = write_back [OF ok f f']
    have "in_range 32 (page_pid (pages b ! f))" "page_pid (pages b ! f) \<noteq> -1"
      using resident_facts(2) [OF ok f f'] resident_pid [OF ok f f'] by (auto simp: data_page_def)
    then have b': "b' = set_page f ((pages b ! f)\<lparr>is_dirty := False\<rparr>)
        (b\<lparr>disk_manager := disk_store (disk_manager b) (page_pid (pages b ! f)) (page_data (pages b ! f))\<rparr>)"
      using True w(1) by (simp add: b'_def flush_frame_def Let_def)
    note w' = w(2-4) [folded b']
    have ds: "disk_manager b' = disk_store (disk_manager b) (page_pid (pages b ! f)) (page_data (pages b ! f))"
      and ps: "pool_size b' = pool_size b" and pg: "pages b' = (pages b)[f := (pages b ! f)\<lparr>is_dirty := False\<rparr>]"
      by (simp_all add: b')
    have nth: "pages b' ! g = (if g = f then (pages b ! f)\<lparr>is_dirty := False\<rparr> else pages b ! g)" if "g < pool_size b" for g
      using that f bpm_len [OF ok] by (simp add: pg)
    have fl': "all_flagged b' fr"
      unfolding all_flagged_def
    proof (intro allI impI)
      fix g assume g: "g < pool_size b'" "g \<notin> set fr" "\<not> is_dirty (pages b' ! g)"
      have gp: "g < pool_size b" using g(1) ps by simp
      show "page_at (disk_manager b') (page_pid (pages b' ! g)) = Some (page_data (pages b' ! g))"
      proof (cases "g = f")
        case True
        then show ?thesis using w'(3) nth [OF gp] by simp
      next
        case False
        then have "page_pid (pages b ! g) \<noteq> page_pid (pages b ! f)" using resident_inj [OF ok f f' gp g(2)] by auto
        then show ?thesis using False g nth [OF gp] fl w'(3) gp by (simp add: all_flagged_def)
      qed
    qed
    obtain dps where "disk_ok (disk_manager b) dps dfl" by (rule bpm_disk [OF ok])
    from disk_store_ok(3) [OF this resident_facts(2) [OF ok f f']]
    have "page_count (disk_manager b') = page_count (disk_manager b)" by (simp add: ds)
    moreover have "table_lookup b' = table_lookup b" by (rule table_lookup_cong) (simp add: b')
    ultimately show ?thesis using w' fl' ps nth by (intro conjI allI impI) simp_all
  next
    case False
    have "page_pid (pages b ! f) = -1 \<or> \<not> is_dirty (pages b ! f)"
      using False bpm_pins [OF ok] by (auto simp: pins_ok_def)
    then have "b' = b" by (auto simp: b'_def flush_frame_def Let_def)
    then show ?thesis using ok fl False by auto
  qed
qed

lemma flush_all_ok:
  assumes ok: "bpm_ok b fr dfl" and fl: "all_flagged b fr"
  shows "k \<le> pool_size b \<Longrightarrow> (let b' = foldl flush_frame b [0..<k] in
    bpm_ok b' fr dfl \<and> all_flagged b' fr \<and> pool_size b' = pool_size b \<and>
    (\<forall>q. in_range 32 q \<longrightarrow> pool_view b' q = pool_view b q) \<and>
    (\<forall>g < pool_size b. g \<notin> set fr \<longrightarrow> is_dirty (pages b' ! g) \<longrightarrow> k \<le> g) \<and> table_lookup b' = table_lookup b \<and>
    page_count (disk_manager b') = page_count (disk_manager b))"
proof (induction k)
  case 0
  then show ?case using ok fl by simp
next
  case (Suc k)
  let ?b = "foldl flush_frame b [0..<k]"
  have k: "k < pool_size b" using Suc.prems by simp
  have IH: "bpm_ok ?b fr dfl" "all_flagged ?b fr" "pool_size ?b = pool_size b"
    "\<forall>q. in_range 32 q \<longrightarrow> pool_view ?b q = pool_view b q"
    "\<forall>g < pool_size b. g \<notin> set fr \<longrightarrow> is_dirty (pages ?b ! g) \<longrightarrow> k \<le> g" "table_lookup ?b = table_lookup b"
    "page_count (disk_manager ?b) = page_count (disk_manager b)"
    using Suc.IH k by (simp_all add: Let_def)
  have k': "k < pool_size ?b" using k IH(3) by simp
  note s = flush_frame_ok [OF IH(1,2) k']
  have "foldl flush_frame b [0..<Suc k] = flush_frame ?b k" by simp
  moreover have "Suc k \<le> g" if "g < pool_size b" "g \<notin> set fr" "is_dirty (pages (flush_frame ?b k) ! g)" for g
    using s(5) [of g] that IH(3,5) by (auto simp: Suc_le_eq le_less)
  ultimately show ?case using s IH by (simp add: Let_def)
qed

lemma flush_all_durable:
  assumes ok: "bpm_ok b fr dfl" and fl: "all_flagged b fr"
  shows "bpm_ok (bpm_flush_all b) fr dfl"
    and "data_page (disk_manager b) dfl q \<Longrightarrow> page_at (disk_manager (bpm_flush_all b)) q = pool_view b q"
    and "data_page (disk_manager b) dfl q \<Longrightarrow> pool_view (bpm_flush_all b) q = pool_view b q"
proof -
  let ?b = "bpm_flush_all b"
  have f: "bpm_ok ?b fr dfl" "all_flagged ?b fr" "pool_size ?b = pool_size b"
    "\<forall>q. in_range 32 q \<longrightarrow> pool_view ?b q = pool_view b q"
    "\<forall>g < pool_size b. g \<notin> set fr \<longrightarrow> \<not> is_dirty (pages ?b ! g)" "table_lookup ?b = table_lookup b"
    using flush_all_ok [OF ok fl, of "pool_size b"] by (auto simp add: Let_def bpm_flush_all_def)
  show "bpm_ok ?b fr dfl" by (rule f(1))
  assume q: "data_page (disk_manager b) dfl q"
  obtain ps where "disk_ok (disk_manager b) ps dfl" by (rule bpm_disk [OF ok])
  then have qr: "in_range 32 q" using data_page_in_range q by blast
  show "pool_view ?b q = pool_view b q" using f(4) qr by blast
  have "page_at (disk_manager ?b) q = pool_view ?b q"
  proof (cases "table_lookup ?b q")
    case None
    then show ?thesis by (simp add: pool_view_def)
  next
    case (Some g)
    then have "g < pool_size ?b" "g \<notin> set fr" "page_pid (pages ?b ! g) = q" using bpm_lookup [OF f(1) qr] by auto
    then show ?thesis using Some f(2,3,5) by (auto simp: pool_view_def all_flagged_def)
  qed
  then show "page_at (disk_manager ?b) q = pool_view b q" using f(4) qr by simp
qed

text \<open>A new page in a free frame.\<close>

lemma new_page_free:
  assumes ok: "bpm_ok b (f # fr) dfl" and room: "page_count (disk_manager b) < 2 ^ 31 - 1"
  obtains pid b' where "bpm_new_page b = Some (Some (pid, f), b')" "bpm_ok b' fr (tl dfl)"
    "pid = (if dfl = [] then page_count (disk_manager b) else hd dfl)"
    "\<not> data_page (disk_manager b) dfl pid" "data_page (disk_manager b') (tl dfl) pid"
    "\<And>q. data_page (disk_manager b) dfl q \<Longrightarrow> pool_view b' q = pool_view b q" "pool_view b' pid = Some zero_page"
    "pages b' ! f = \<lparr>page_data = zero_page, page_pid = pid, pin_count = 1, is_dirty = False\<rparr>"
proof -
  obtain ps where d: "disk_ok (disk_manager b) ps dfl" by (rule bpm_disk [OF ok])
  have ps: "length ps < 2 ^ 31 - 1" using d room by (simp add: disk_ok_def)
  obtain pid d1 ps1 where a: "disk_manager_allocate_page (disk_manager b) = (pid, d1)"
    "pid = (if dfl = [] then page_count (disk_manager b) else hd dfl)" "disk_ok d1 ps1 (tl dfl)"
    "\<not> data_page (disk_manager b) dfl pid" "data_page d1 (tl dfl) pid" "page_at d1 pid = Some zero_page"
    "\<forall>q. data_page (disk_manager b) dfl q \<longrightarrow> data_page d1 (tl dfl) q \<and> page_at d1 q = page_at (disk_manager b) q"
    by (rule allocate_data [OF d ps])
  let ?d = "disk_store d1 pid zero_page"
  note st = disk_store_ok [OF a(3,5), of zero_page] and dst = data_page_store [OF a(3,5), of zero_page]
  have r: "in_range 32 pid" "0 < pid" using data_page_in_range [OF a(3,5)] by simp_all
  have new: "table_lookup b pid = None"
  proof (cases "table_lookup b pid")
    case (Some g)
    then have "g < pool_size b" "g \<notin> set (f # fr)" "page_pid (pages b ! g) = pid" using bpm_lookup [OF ok r(1)] by auto
    then show ?thesis using resident_facts(2) [OF ok, of g] a(4) by simp
  qed
  have fo: "frames_ok (b\<lparr>disk_manager := d1\<rparr>) (f # fr)" using bpm_frames [OF ok] by (simp add: frames_ok_def)
  obtain l h where ff: "find_free_frame (b\<lparr>disk_manager := d1\<rparr>) = Some (Some f, b\<lparr>disk_manager := d1, free_list := l, free_nodes := h\<rparr>)"
    "list_ok h l (map Free_Node fr)" "sentinel l = Free_Sentinel"
    by (rule find_free_some [OF fo])
  have keep: "data_page ?d (tl dfl) q \<and> page_at ?d q = page_at (disk_manager b) q"
    if "data_page (disk_manager b) dfl q" "q \<noteq> pid" for q
    using that a(7) st(2) dst by auto
  have pa: "page_at ?d pid = Some zero_page" "data_page ?d (tl dfl) pid" using st(2) dst a(5) by simp_all
  let ?b = "(set_page f \<lparr>page_data = zero_page, page_pid = pid, pin_count = 1, is_dirty = False\<rparr>
        (b\<lparr>free_list := l, free_nodes := h, disk_manager := ?d\<rparr>))
        \<lparr>page_table := hashmap_put (page_table b) (page_id_to_key pid) (frame_id_to_val f)\<rparr>"
  note pl = place_page [OF ok ff(2,3) new st(1) pa(2,1) keep]
  have w: "snd (disk_manager_write_page pid zero_page d1) = ?d" by (simp add: disk_store_def)
  show ?thesis
  proof (rule that [of pid ?b, OF _ pl(1) a(2) a(4)])
    show "bpm_new_page b = Some (Some (pid, f), ?b)"
      using a(1) r ff(1) w by (simp add: bpm_new_page_def take_frame_def Let_def set_page_def)
    show "data_page (disk_manager ?b) (tl dfl) pid" using pa(2) by simp
    show "pool_view ?b q = pool_view b q" if "data_page (disk_manager b) dfl q" for q
      using pl(2) [of q] that a(4) by auto
    show "pool_view ?b pid = Some zero_page" using pl(2) [of pid] by simp
    show "pages ?b ! f = \<lparr>page_data = zero_page, page_pid = pid, pin_count = 1, is_dirty = False\<rparr>" by (rule pl(3))
  qed
qed

text \<open>A new pool.\<close>

lemma push_all_free_ok:
  "list_ok (free_nodes b) (free_list b) (map Free_Node fr) \<Longrightarrow> sentinel (free_list b) = Free_Sentinel \<Longrightarrow>
   distinct (fr @ fs) \<Longrightarrow>
   \<exists>l h. push_all_free fs b = Some (b\<lparr>free_list := l, free_nodes := h\<rparr>) \<and>
     list_ok h l (map Free_Node (fr @ fs)) \<and> sentinel l = Free_Sentinel"
proof (induction fs arbitrary: b fr)
  case Nil
  then show ?case by (intro exI [of _ "free_list b"] exI [of _ "free_nodes b"]) simp
next
  case (Cons f fs)
  obtain l h where p: "push_free f b = Some (b\<lparr>free_list := l, free_nodes := h\<rparr>)"
    "list_ok h l (map Free_Node (fr @ [f]))" "sentinel l = Free_Sentinel"
    by (rule push_free_ok [OF Cons.prems(1,2)]) (use Cons.prems(3) in auto)
  show ?case
    using Cons.IH [of "b\<lparr>free_list := l, free_nodes := h\<rparr>" "fr @ [f]"] p Cons.prems(3) by auto
qed

lemma bpm_init_ok:
  assumes d: "disk_ok d ps dfl" and n: "n < 4294967295"
  obtains b where "bpm_init n d h lh es = Some b" "bpm_ok b [0..<n] dfl" "pool_size b = n" "disk_manager b = d"
    "\<And>pid. table_lookup b pid = None"
proof -
  obtain l0 h0 where i: "list_init \<lparr>sentinel = Free_Sentinel, lsize = 0\<rparr> h = (l0, h0)"
    by (cases "list_init \<lparr>sentinel = Free_Sentinel, lsize = 0\<rparr> h")
  then have l0: "list_ok h0 l0 (map Free_Node [])" "sentinel l0 = Free_Sentinel"
    using list_init_ok [of "\<lparr>sentinel = Free_Sentinel, lsize = 0\<rparr>" h] by simp_all
  let ?b0 = "\<lparr>pool_size = n,
         pages = replicate n \<lparr>page_data = zero_page, page_pid = INVALID_PAGE_ID, pin_count = 0, is_dirty = False\<rparr>,
         page_table = hashmap_init 64 int_hash int_equal,
         free_list = l0, free_nodes = h0,
         replacer_of = lru_replacer_init n lh es, disk_manager = d\<rparr>"
  obtain l h1 where p: "push_all_free [0..<n] ?b0 = Some (?b0\<lparr>free_list := l, free_nodes := h1\<rparr>)"
    "list_ok h1 l (map Free_Node [0..<n])" "sentinel l = Free_Sentinel"
    using push_all_free_ok [of ?b0 "[]" "[0..<n]"] l0 by auto
  let ?b = "?b0\<lparr>free_list := l, free_nodes := h1\<rparr>"
  have look: "table_lookup ?b pid = None" for pid
    by (simp add: table_lookup_def hashmap_get_init)
  have "lru_inv (lru_replacer_init n lh es) \<and> lru_frames (lru_replacer_init n lh es) = {}"
    by (rule lru_inv_intro [OF lru_init_ok]) simp
  then have "bpm_ok ?b [0..<n] dfl"
    using d n p(2,3) look unfolding bpm_ok_def frames_ok_def table_ok_def pins_ok_def store_ok_def
    by (auto simp: hm_ok_init)
  then show ?thesis using that [of ?b] i p(1) look by (simp add: bpm_init_def)
qed

subsection \<open>Eviction\<close>

lemma evict_ok:
  assumes ok: "bpm_ok b [] dfl" and ev: "g < pool_size b" "pin_count (pages b ! g) = 0"
  obtains f b1 ps where "evict_page b = Some (Some f, b1)" "f < pool_size b" "pool_size b1 = pool_size b"
    "length (pages b1) = length (pages b)" "hm_ok (page_table b1)"
    "\<And>q. in_range 32 q \<Longrightarrow> table_lookup b1 q = (if q = page_pid (pages b ! f) then None else table_lookup b q)"
    "list_ok (free_nodes b1) (free_list b1) [Free_Node f]" "sentinel (free_list b1) = Free_Sentinel"
    "disk_ok (disk_manager b1) ps dfl"
    "\<And>q. page_at (disk_manager b1) q = (if q = page_pid (pages b ! f) then pool_view b q else page_at (disk_manager b) q)"
proof -
  have "lru_frames (replacer_of b) \<noteq> {}" using bpm_lru(2) [OF ok, of g] ev by auto
  then obtain f r where v: "lru_replacer_victim (replacer_of b) = Some (Some f, r)" "f \<in> lru_frames (replacer_of b)"
    using lru.victim_some [OF bpm_lru(1) [OF ok]] by blast
  have f: "f < pool_size b" "f \<notin> set []" "pin_count (pages b ! f) = 0" using v(2) bpm_lru(2) [OF ok, of f] by auto
  let ?p = "pages b ! f" and ?pid = "page_pid (pages b ! f)"
  define d where "d = (if is_dirty ?p then disk_store (disk_manager b) ?pid (page_data ?p) else disk_manager b)"
  obtain dps where dk: "disk_ok (disk_manager b) dps dfl" by (rule bpm_disk [OF ok])
  note dp = resident_facts(2) [OF ok f(1,2)] and rp = resident_pid [OF ok f(1,2)]
  note st = disk_store_ok [OF dk dp, of "page_data ?p"]
  have d_ok: "\<exists>ps. disk_ok d ps dfl" using st(1) dk by (auto simp: d_def)
  have view: "pool_view b ?pid = Some (page_data ?p)" using rp by (simp add: pool_view_def)
  have d_at: "page_at d q = (if q = ?pid then pool_view b q else page_at (disk_manager b) q)" for q
    using st(2) view resident_facts(3) [OF ok f] by (simp add: d_def)
  let ?pt = "snd (hashmap_remove (page_table b) (page_id_to_key ?pid))"
  let ?b1 = "set_page f (?p\<lparr>page_pid := INVALID_PAGE_ID, pin_count := 0, is_dirty := False\<rparr>)
     (b\<lparr>replacer_of := r, disk_manager := d, page_table := ?pt\<rparr>)"
  have hm: "hm_ok (page_table b)" using bpm_table [OF ok] by (simp add: table_ok_def)
  have l1: "list_ok (free_nodes ?b1) (free_list ?b1) (map Free_Node [])" "sentinel (free_list ?b1) = Free_Sentinel"
    using bpm_frames [OF ok] by (simp_all add: frames_ok_def)
  obtain l h where p: "push_free f ?b1 = Some (?b1\<lparr>free_list := l, free_nodes := h\<rparr>)"
    "list_ok h l (map Free_Node ([] @ [f]))" "sentinel l = Free_Sentinel"
    by (rule push_free_ok [OF l1]) auto
  let ?b2 = "?b1\<lparr>free_list := l, free_nodes := h\<rparr>"
  have w: "snd (disk_manager_write_page ?pid (page_data ?p) (disk_manager b)) = disk_store (disk_manager b) ?pid (page_data ?p)"
    by (simp add: disk_store_def)
  obtain ps where psd: "disk_ok d ps dfl" using d_ok by blast
  show ?thesis
  proof (rule that [of f ?b2 ps])
    show "evict_page b = Some (Some f, ?b2)"
      using v(1) p(1) by (cases "is_dirty ?p") (simp_all add: evict_page_def Let_def w d_def)
    show "hm_ok (page_table ?b2)" using hm.ok_rem [OF hm] by simp
    show "table_lookup ?b2 q = (if q = ?pid then None else table_lookup b q)" if "in_range 32 q" for q
    proof -
      have "table_lookup ?b2 q = table_lookup (b\<lparr>page_table := ?pt\<rparr>) q" by (simp add: table_lookup_def)
      then show ?thesis using table_lookup_remove [OF hm _ that, of ?pid] rp by simp
    qed
    show "list_ok (free_nodes ?b2) (free_list ?b2) [Free_Node f]" using p(2) by simp
    show "sentinel (free_list ?b2) = Free_Sentinel" using p(3) by simp
    show "disk_ok (disk_manager ?b2) ps dfl" using psd by simp
    show "page_at (disk_manager ?b2) q = (if q = ?pid then pool_view b q else page_at (disk_manager b) q)" for q
      using d_at [of q] by simp
  qed (use f in simp_all)
qed

section \<open>Properties\<close>

text \<open>A pool of n frames on a database of k data pages, and a pool of one frame that holds page 1,
  unpinned.\<close>

definition demo_pool :: "nat \<Rightarrow> nat \<Rightarrow> bpm" where
  "demo_pool n k = the (bpm_init n (disk_with k) (\<lambda>_. \<lparr>prv = None, nxt = None\<rparr>) (\<lambda>_. \<lparr>prv = None, nxt = None\<rparr>)
     (\<lambda>_. \<lparr>e_frame_id = 0, access_count = 0, in_hot = False\<rparr>))"

definition demo_pool1 :: "nat \<Rightarrow> bpm" where
  "demo_pool1 k = snd (the (bpm_unpin_page 1 False (snd (the (bpm_fetch_page 1 (demo_pool 1 k))))))"

lemma demo_pool_ok:
  assumes "k < 1000" "n < 1000"
  shows "bpm_ok (demo_pool n k) [0..<n] [] \<and> disk_manager (demo_pool n k) = disk_with k \<and> pool_size (demo_pool n k) = n \<and>
    (\<forall>pid. table_lookup (demo_pool n k) pid = None)"
proof -
  obtain ps where d: "disk_ok (disk_with k) ps []" using disk_with_ok(1) [OF assms(1)] by blast
  have n: "n < 4294967295" using assms by simp
  obtain b where "bpm_init n (disk_with k) (\<lambda>_. \<lparr>prv = None, nxt = None\<rparr>) (\<lambda>_. \<lparr>prv = None, nxt = None\<rparr>)
     (\<lambda>_. \<lparr>e_frame_id = 0, access_count = 0, in_hot = False\<rparr>) = Some b" "bpm_ok b [0..<n] []" "pool_size b = n"
    "disk_manager b = disk_with k" "\<And>pid. table_lookup b pid = None"
    using bpm_init_ok [OF d n] by blast
  then show ?thesis by (simp add: demo_pool_def)
qed

lemma demo_pool1_ok:
  assumes k: "0 < k" "k < 1000"
  shows "bpm_ok (demo_pool1 k) [] [] \<and> disk_manager (demo_pool1 k) = disk_with k \<and> pool_size (demo_pool1 k) = 1 \<and>
    pin_count (pages (demo_pool1 k) ! 0) = 0 \<and> table_lookup (demo_pool1 k) 1 = Some 0 \<and> (\<forall>q. in_range 32 q \<longrightarrow> q \<noteq> 1 \<longrightarrow> table_lookup (demo_pool1 k) q = None)"
proof -
  have one: "(1::nat) < 1000" by simp
  note p = demo_pool_ok [OF k(2) one]
  have none: "table_lookup (demo_pool 1 k) 1 = None" using p by blast
  have ok: "bpm_ok (demo_pool 1 k) (0 # []) []" using p by simp
  have d1: "data_page (disk_manager (demo_pool 1 k)) [] 1" using p disk_with_ok(2) [OF k(2)] k by simp
  obtain b1 data where b1: "bpm_fetch_page 1 (demo_pool 1 k) = Some (Some 0, b1)" "bpm_ok b1 [] []"
    "disk_manager b1 = disk_manager (demo_pool 1 k)" "page_at (disk_manager (demo_pool 1 k)) 1 = Some data"
    "table_lookup b1 1 = Some 0" "pages b1 ! 0 = \<lparr>page_data = data, page_pid = 1, pin_count = 1, is_dirty = False\<rparr>"
    "pool_size b1 = pool_size (demo_pool 1 k)"
    using fetch_free [OF ok none d1] by blast
  have r1: "in_range 32 1" by (simp add: in_range_def)
  obtain b2 where b2: "bpm_unpin_page 1 False b1 = Some (0, b2)" "bpm_ok b2 [] []" "disk_manager b2 = disk_manager b1"
    "pages b2 = (pages b1)[0 := (pages b1 ! 0)\<lparr>pin_count := pin_count (pages b1 ! 0) - 1, is_dirty := is_dirty (pages b1 ! 0) \<or> False\<rparr>]"
    using unpin_resident [OF b1(2) r1 b1(5), of False] b1(3,4,6) by auto
  have eq: "demo_pool1 k = b2" using b1(1) b2(1) by (simp add: demo_pool1_def)
  have "0 < length (pages b1)" using b1(2,5) bpm_lookup [OF b1(2) r1, of 0] bpm_len [OF b1(2)] by simp
  then have p0: "pages b2 ! 0 = \<lparr>page_data = data, page_pid = 1, pin_count = 0, is_dirty = False\<rparr>" using b2(4) b1(6) by simp
  have size: "pool_size b2 = 1" using b1(7) p bpm_len [OF b1(2)] bpm_len [OF b2(2)] b2(4) by simp
  have "table_lookup b2 q = None" if "in_range 32 q" "q \<noteq> 1" for q
  proof (cases "table_lookup b2 q")
    case (Some f)
    then show ?thesis using bpm_lookup [OF b2(2) that(1), of f] size p0 that(2) by auto
  qed
  moreover have "table_lookup b2 1 = Some 0" using bpm_lookup [OF b2(2) r1, of 0] p0 size by simp
  ultimately show ?thesis using eq b2 b1 p p0 size by simp
qed

text \<open>C29. \<open>bpm_fetch_page\<close> on a well-formed pool, for a data page of the disk: if the page is resident or
  a frame is free it returns a frame that holds the page, pinned, with the contents the pool shows
  for it; if no frame is free and every frame is pinned it returns NULL. In each case no list
  operation dereferences NULL, the pool stays well-formed and shows the same contents for every page.\<close>

theorem bpm_fetch_page_spec:
  assumes ok: "bpm_ok b fr dfl" and pid: "data_page (disk_manager b) dfl pid"
  shows "(table_lookup b pid \<noteq> None \<or> fr \<noteq> [] \<longrightarrow>
      (\<exists>f b' fr'. bpm_fetch_page pid b = Some (Some f, b') \<and> bpm_ok b' fr' dfl \<and>
         page_pid (pages b' ! f) = pid \<and> Some (page_data (pages b' ! f)) = pool_view b pid \<and> 0 < pin_count (pages b' ! f) \<and>
         (\<forall>q. data_page (disk_manager b) dfl q \<longrightarrow> pool_view b' q = pool_view b q))) \<and>
    (table_lookup b pid = None \<and> fr = [] \<and> (\<forall>f < pool_size b. 0 < pin_count (pages b ! f)) \<longrightarrow>
      (\<exists>b'. bpm_fetch_page pid b = Some (None, b') \<and> bpm_ok b' [] dfl \<and> pool_view b' = pool_view b))"
proof (intro conjI impI, goal_cases)
  case 1
  obtain ps where d: "disk_ok (disk_manager b) ps dfl" by (rule bpm_disk [OF ok])
  have r: "in_range 32 pid" using data_page_in_range [OF d pid] by simp
  show ?case
  proof (cases "table_lookup b pid")
    case (Some f)
    have f: "f < pool_size b" "f \<notin> set fr" "page_pid (pages b ! f) = pid" using bpm_lookup [OF ok r] Some by auto
    obtain b' where b': "bpm_fetch_page pid b = Some (Some f, b')" "bpm_ok b' fr dfl"
      "\<And>q. in_range 32 q \<Longrightarrow> pool_view b' q = pool_view b q"
      "pages b' = (pages b)[f := (pages b ! f)\<lparr>pin_count := pin_count (pages b ! f) + 1\<rparr>]"
      using fetch_hit [OF ok r Some] by blast
    have "pages b' ! f = (pages b ! f)\<lparr>pin_count := pin_count (pages b ! f) + 1\<rparr>" using b'(4) f(1) bpm_len [OF ok] by simp
    then show ?thesis
      using b'(1-3) f(3) pool_view_resident [OF Some] resident_facts(1) [OF ok f(1,2)] data_page_in_range [OF d]
      by (intro exI [of _ f] exI [of _ b'] exI [of _ fr]) auto
  next
    case None
    then obtain f fr' where fr: "fr = f # fr'" using 1 by (cases fr) auto
    obtain b' data where b': "bpm_fetch_page pid b = Some (Some f, b')" "bpm_ok b' fr' dfl"
      "page_at (disk_manager b) pid = Some data"
      "\<And>q. data_page (disk_manager b) dfl q \<Longrightarrow> pool_view b' q = pool_view b q"
      "pages b' ! f = \<lparr>page_data = data, page_pid = pid, pin_count = 1, is_dirty = False\<rparr>"
      using fetch_free [OF ok [unfolded fr] None pid] by blast
    then show ?thesis using None
      by (intro exI [of _ f] exI [of _ b'] exI [of _ fr']) (simp add: pool_view_def)
  qed
next
  case 2
  then have ok': "bpm_ok b [] dfl" and n: "table_lookup b pid = None" "\<forall>f < pool_size b. 0 < pin_count (pages b ! f)"
    using ok by auto
  show ?case using fetch_full [OF ok' n] by blast
qed

theorem bpm_fetch_page_spec_witness:
  "\<exists>f b'. bpm_fetch_page 2 (demo_pool 3 5) = Some (Some f, b') \<and> page_pid (pages b' ! f) = 2"
proof -
  have k: "(5::nat) < 1000" "(3::nat) < 1000" by simp_all
  note p = demo_pool_ok [OF k]
  have ok: "bpm_ok (demo_pool 3 5) [0..<3] []" and d: "data_page (disk_manager (demo_pool 3 5)) [] 2"
    using p disk_with_ok(2) [OF k(1)] by simp_all
  show ?thesis using bpm_fetch_page_spec [OF ok d] by auto
qed

text \<open>\<open>bpm_new_page\<close> on a well-formed pool with a free frame and room on the disk: it returns a page
  that was not in use, zeroed and pinned in that frame, and every page in use keeps its contents.\<close>

theorem bpm_new_page_spec:
  assumes "bpm_ok b (f # fr) dfl" "page_count (disk_manager b) < 2 ^ 31 - 1"
  shows "\<exists>pid b'. bpm_new_page b = Some (Some (pid, f), b') \<and> bpm_ok b' fr (tl dfl) \<and>
    \<not> data_page (disk_manager b) dfl pid \<and> data_page (disk_manager b') (tl dfl) pid \<and>
    pages b' ! f = \<lparr>page_data = zero_page, page_pid = pid, pin_count = 1, is_dirty = False\<rparr> \<and>
    pool_view b' pid = Some zero_page \<and>
    (\<forall>q. data_page (disk_manager b) dfl q \<longrightarrow> pool_view b' q = pool_view b q)"
  by (rule new_page_free [OF assms]) blast

theorem bpm_new_page_spec_witness:
  "\<exists>pid b'. bpm_new_page (demo_pool 3 5) = Some (Some (pid, 0), b') \<and> pool_view b' pid = Some zero_page"
proof -
  have k: "(5::nat) < 1000" "(3::nat) < 1000" by simp_all
  note p = demo_pool_ok [OF k]
  have "[0..<3] = 0 # [1..<3::nat]" by (simp add: upt_conv_Cons)
  then have ok: "bpm_ok (demo_pool 3 5) (0 # [1..<3]) []" using p by metis
  have r: "page_count (disk_manager (demo_pool 3 5)) < 2 ^ 31 - 1" using p disk_with_ok(3) [OF k(1)] by simp
  show ?thesis using bpm_new_page_spec [OF ok r] by blast
qed

text \<open>C30. After \<open>bpm_flush_all\<close> on a well-formed pool in which every modified page is marked dirty, the
  disk holds for every data page what the pool shows for it, and the pool shows the same as before.\<close>

theorem bpm_flush_all_durable:
  assumes "bpm_ok b fr dfl" "all_flagged b fr"
  shows "bpm_ok (bpm_flush_all b) fr dfl \<and>
    (\<forall>q. data_page (disk_manager b) dfl q \<longrightarrow>
       page_at (disk_manager (bpm_flush_all b)) q = pool_view b q \<and> pool_view (bpm_flush_all b) q = pool_view b q)"
  using flush_all_durable [OF assms] by blast

theorem bpm_flush_all_durable_witness:
  "page_at (disk_manager (bpm_flush_all (demo_pool1 5))) 3 = pool_view (demo_pool1 5) 3"
proof -
  have k: "0 < (5::nat)" "(5::nat) < 1000" by simp_all
  note p = demo_pool1_ok [OF k]
  have ok: "bpm_ok (demo_pool1 5) [] []" and d: "data_page (disk_manager (demo_pool1 5)) [] 3"
    using p disk_with_ok(2) [OF k(2)] by simp_all
  have "all_flagged (demo_pool1 5) []"
    unfolding all_flagged_def
  proof (intro allI impI)
    fix f assume f: "f < pool_size (demo_pool1 5)" "f \<notin> set []" "\<not> is_dirty (pages (demo_pool1 5) ! f)"
    then have "pin_count (pages (demo_pool1 5) ! f) = 0" using p by simp
    from resident_facts(3) [OF ok f(1,2) this f(3)]
    show "page_at (disk_manager (demo_pool1 5)) (page_pid (pages (demo_pool1 5) ! f)) = Some (page_data (pages (demo_pool1 5) ! f))" .
  qed
  from bpm_flush_all_durable [OF ok this] d show ?thesis by blast
qed

text \<open>C31. Unpinning a resident pinned page that is marked dirty, or unchanged, succeeds, takes one pin
  off, keeps the pool well-formed (so a frame is offered for eviction exactly while its pin count is
  zero) and shows the same contents; unpinning a page that is not resident or not pinned returns -1
  and changes nothing.\<close>

theorem bpm_unpin_page_spec:
  assumes ok: "bpm_ok b fr dfl" and pid: "in_range 32 pid"
  shows "case table_lookup b pid of
      None \<Rightarrow> bpm_unpin_page pid dirty b = Some (-1, b)
    | Some f \<Rightarrow>
        if pin_count (pages b ! f) = 0 then bpm_unpin_page pid dirty b = Some (-1, b)
        else dirty \<or> is_dirty (pages b ! f) \<or> page_at (disk_manager b) pid = Some (page_data (pages b ! f)) \<longrightarrow>
          (\<exists>b'. bpm_unpin_page pid dirty b = Some (0, b') \<and> bpm_ok b' fr dfl \<and>
             pin_count (pages b' ! f) = pin_count (pages b ! f) - 1 \<and>
             (is_dirty (pages b' ! f) \<longleftrightarrow> is_dirty (pages b ! f) \<or> dirty) \<and>
             (\<forall>q. in_range 32 q \<longrightarrow> pool_view b' q = pool_view b q))"
proof (cases "table_lookup b pid")
  case None
  then show ?thesis by (simp add: bpm_unpin_page_def)
next
  case (Some f)
  have f: "f < pool_size b" "f \<notin> set fr" using bpm_lookup [OF ok pid] Some by auto
  have len: "f < length (pages b)" using f bpm_len [OF ok] by simp
  show ?thesis
  proof (cases "pin_count (pages b ! f) = 0")
    case True
    then show ?thesis using Some by (simp add: bpm_unpin_page_def)
  next
    case False
    then have pin: "0 < pin_count (pages b ! f)" using resident_facts(1) [OF ok f] by simp
    have "\<exists>b'. bpm_unpin_page pid dirty b = Some (0, b') \<and> bpm_ok b' fr dfl \<and>
        pin_count (pages b' ! f) = pin_count (pages b ! f) - 1 \<and>
        (is_dirty (pages b' ! f) \<longleftrightarrow> is_dirty (pages b ! f) \<or> dirty) \<and>
        (\<forall>q. in_range 32 q \<longrightarrow> pool_view b' q = pool_view b q)"
      if mark: "dirty \<or> is_dirty (pages b ! f) \<or> page_at (disk_manager b) pid = Some (page_data (pages b ! f))"
    proof -
      obtain b' where b': "bpm_unpin_page pid dirty b = Some (0, b')" "bpm_ok b' fr dfl"
        "\<And>q. in_range 32 q \<Longrightarrow> pool_view b' q = pool_view b q"
        "pages b' = (pages b)[f := (pages b ! f)\<lparr>pin_count := pin_count (pages b ! f) - 1, is_dirty := is_dirty (pages b ! f) \<or> dirty\<rparr>]"
        using unpin_resident [OF ok pid Some pin mark] by blast
      then show ?thesis using len by (intro exI [of _ b']) simp
    qed
    then show ?thesis using Some False by simp
  qed
qed

theorem bpm_unpin_page_spec_witness:
  "\<exists>b1 b2. bpm_fetch_page 1 (demo_pool1 5) = Some (Some 0, b1) \<and> bpm_unpin_page 1 True b1 = Some (0, b2)"
proof -
  have k: "0 < (5::nat)" "(5::nat) < 1000" and r: "in_range 32 1" by (simp_all add: in_range_def)
  note p = demo_pool1_ok [OF k]
  have ok: "bpm_ok (demo_pool1 5) [] []" and l: "table_lookup (demo_pool1 5) 1 = Some 0" using p by simp_all
  obtain b1 where b1: "bpm_fetch_page 1 (demo_pool1 5) = Some (Some 0, b1)" "bpm_ok b1 [] []"
    "table_lookup b1 = table_lookup (demo_pool1 5)"
    "pages b1 = (pages (demo_pool1 5))[0 := (pages (demo_pool1 5) ! 0)\<lparr>pin_count := pin_count (pages (demo_pool1 5) ! 0) + 1\<rparr>]"
    using fetch_hit [OF ok r l] by blast
  have "pin_count (pages b1 ! 0) = 1" using b1(4) p bpm_len [OF ok] by simp
  then show ?thesis using bpm_unpin_page_spec [OF b1(2) r, of True] b1(1,3) l by auto
qed

text \<open>The state after a fetch that evicts, and what the free list then does.\<close>

lemma singleton_links:
  assumes "list_ok h l [x]" "sentinel l = s"
  shows "nxt (h s) = Some x" "prv (h s) = Some x" "nxt (h x) = Some s" "prv (h x) = Some s" "x \<noteq> s" "lsize l = 1"
  using assms by (auto simp: list_ok_def)

lemma find_free_singleton:
  assumes "list_ok (free_nodes b) (free_list b) [Free_Node f]" "sentinel (free_list b) = Free_Sentinel"
  obtains l h where "find_free_frame b = Some (Some f, b\<lparr>free_list := l, free_nodes := h\<rparr>)"
proof -
  obtain h where "list_pop_front (free_list b) (free_nodes b) =
      Some (Some (Free_Node f), (free_list b)\<lparr>lsize := lsize (free_list b) - 1\<rparr>, h)"
    using list_pop_front_ok [OF assms(1)] by blast
  then show ?thesis using that assms(1) by (simp add: find_free_frame_def list_empty_def list_ok_def frame_of_node_def)
qed

text \<open>C32. A fetch that has to evict hands out a frame that it also leaves on the free list:
  \<open>evict_page\<close> pushes the frame it returns. So while that page is pinned, the next fetch of another
  page takes the same frame: both page ids map to it, and the first page's contents are gone from
  under its user.\<close>

theorem bpm_evicted_frame_shared:
  assumes ok: "bpm_ok b [] dfl" and victim: "g < pool_size b" "pin_count (pages b ! g) = 0"
    and p1: "data_page (disk_manager b) dfl p1" "table_lookup b p1 = None"
    and p2: "data_page (disk_manager b) dfl p2" "table_lookup b p2 = None" "p2 \<noteq> p1"
  shows "\<exists>f b1 b2. bpm_fetch_page p1 b = Some (Some f, b1) \<and> pin_count (pages b1 ! f) = 1 \<and>
    bpm_fetch_page p2 b1 = Some (Some f, b2) \<and> page_pid (pages b2 ! f) = p2 \<and>
    table_lookup b2 p1 = Some f \<and> table_lookup b2 p2 = Some f \<and>
    pool_view b2 p1 = pool_view b p2"
proof -
  obtain dps where dk: "disk_ok (disk_manager b) dps dfl" by (rule bpm_disk [OF ok])
  have r: "in_range 32 p1" "in_range 32 p2" using data_page_in_range [OF dk] p1 p2 by blast+
  obtain f b1 ps where e: "evict_page b = Some (Some f, b1)" "f < pool_size b" "pool_size b1 = pool_size b"
    "length (pages b1) = length (pages b)" "hm_ok (page_table b1)"
    "\<And>q. in_range 32 q \<Longrightarrow> table_lookup b1 q = (if q = page_pid (pages b ! f) then None else table_lookup b q)"
    "list_ok (free_nodes b1) (free_list b1) [Free_Node f]" "sentinel (free_list b1) = Free_Sentinel"
    "disk_ok (disk_manager b1) ps dfl"
    "\<And>q. page_at (disk_manager b1) q = (if q = page_pid (pages b ! f) then pool_view b q else page_at (disk_manager b) q)"
    using evict_ok [OF ok victim] by blast
  have f: "f < length (pages b1)" "f < 4294967295" using e(2,4) bpm_len [OF ok] by simp_all
  have at: "page_at (disk_manager b1) q = pool_view b q" if "table_lookup b q = None" for q
    using that e(10) [of q] by (cases "q = page_pid (pages b ! f)") (simp_all add: pool_view_def)
  obtain d1 d2 where d1: "page_at (disk_manager b) p1 = Some d1" and d2: "page_at (disk_manager b) p2 = Some d2"
    using page_at_ok [OF dk] p1(1) p2(1) by (simp add: data_page_def)
  have a1: "page_at (disk_manager b1) p1 = Some d1" and a2: "page_at (disk_manager b1) p2 = Some d2"
    using at [OF p1(2)] at [OF p2(2)] p1(2) p2(2) d1 d2 by (simp_all add: pool_view_def)
  let ?place = "\<lambda>d pid b. (set_page f \<lparr>page_data = d, page_pid = pid, pin_count = 1, is_dirty = False\<rparr> b)
        \<lparr>page_table := hashmap_put (page_table b) (page_id_to_key pid) (frame_id_to_val f)\<rparr>"
  let ?b2 = "?place d1 p1 b1"
  have ff: "find_free_frame b = Some (None, b)" by (rule find_free_none [OF bpm_frames [OF ok]])
  have f1: "bpm_fetch_page p1 b = Some (Some f, ?b2)"
    using p1(2) ff e(1) read_page_at [OF e(9) a1]
    by (simp add: bpm_fetch_page_def take_frame_def Let_def set_page_def)
  have look2: "table_lookup ?b2 q = (if q = p1 then Some f else if q = page_pid (pages b ! f) then None else table_lookup b q)"
    if "in_range 32 q" for q
  proof -
    have "table_lookup ?b2 q = table_lookup (b1\<lparr>page_table := hashmap_put (page_table b1) (page_id_to_key p1) (frame_id_to_val f)\<rparr>) q"
      by (simp add: table_lookup_def)
    then show ?thesis using table_lookup_put [OF e(5) f(2) r(1) that] e(6) [OF that] by simp
  qed
  obtain l h where ff2: "find_free_frame ?b2 = Some (Some f, ?b2\<lparr>free_list := l, free_nodes := h\<rparr>)"
    by (rule find_free_singleton [of ?b2 f]) (use e(7,8) in simp_all)
  let ?b3 = "?place d2 p2 (?b2\<lparr>free_list := l, free_nodes := h\<rparr>)"
  have n2: "table_lookup ?b2 p2 = None" using look2 [OF r(2)] p2(2,3) by simp
  have f2: "bpm_fetch_page p2 ?b2 = Some (Some f, ?b3)"
    using n2 ff2 read_page_at [OF e(9) a2] by (simp add: bpm_fetch_page_def take_frame_def Let_def set_page_def)
  have hm2: "hm_ok (page_table ?b2)" using hm.ok_put [OF e(5)] by simp
  have look3: "table_lookup ?b3 q = (if q = p2 then Some f else table_lookup ?b2 q)" if "in_range 32 q" for q
  proof -
    have "table_lookup ?b3 q = table_lookup (?b2\<lparr>page_table := hashmap_put (page_table ?b2) (page_id_to_key p2) (frame_id_to_val f)\<rparr>) q"
      by (simp add: table_lookup_def)
    then show ?thesis using table_lookup_put [OF hm2 f(2) r(2) that] by simp
  qed
  have l3: "table_lookup ?b3 p1 = Some f" "table_lookup ?b3 p2 = Some f" using look3 look2 r p2(3) by simp_all
  have pg3: "pages ?b3 ! f = \<lparr>page_data = d2, page_pid = p2, pin_count = 1, is_dirty = False\<rparr>"
    and pg2: "pages ?b2 ! f = \<lparr>page_data = d1, page_pid = p1, pin_count = 1, is_dirty = False\<rparr>" using f(1) by simp_all
  have "pool_view ?b3 p1 = pool_view b p2" using l3(1) pg3 p2(2) d2 by (simp add: pool_view_def)
  then show ?thesis
    using f1 f2 l3 pg2 pg3 by (intro exI [of _ f] exI [of _ ?b2] exI [of _ ?b3]) simp
qed

theorem bpm_evicted_frame_shared_witness:
  "\<exists>f b1 b2. bpm_fetch_page 2 (demo_pool1 5) = Some (Some f, b1) \<and> bpm_fetch_page 3 b1 = Some (Some f, b2)"
proof -
  have k: "0 < (5::nat)" "(5::nat) < 1000" by simp_all
  note p = demo_pool1_ok [OF k]
  have r: "in_range 32 2" "in_range 32 3" by (simp_all add: in_range_def)
  have ok: "bpm_ok (demo_pool1 5) [] []" and v: "0 < pool_size (demo_pool1 5)" "pin_count (pages (demo_pool1 5) ! 0) = 0"
    using p by simp_all
  have d: "data_page (disk_manager (demo_pool1 5)) [] 2" "data_page (disk_manager (demo_pool1 5)) [] 3"
    using p disk_with_ok(2) [OF k(2)] by simp_all
  have n: "table_lookup (demo_pool1 5) 2 = None" "table_lookup (demo_pool1 5) 3 = None" using p r by simp_all
  show ?thesis using bpm_evicted_frame_shared [OF ok v d(1) n(1) d(2) n(2)] by auto
qed

text \<open>A fetch that evicts and then fails to read the page pushes the evicted frame onto the free
  list twice, which ties its node to itself: the next fetch of another page gets that frame, and the
  one after it dereferences a NULL pointer in \<open>list_remove\<close>.\<close>

theorem bpm_failed_fetch_breaks_free_list:
  assumes ok: "bpm_ok b [] dfl" and victim: "g < pool_size b" "pin_count (pages b ! g) = 0"
    and bad: "table_lookup b pid = None" "pid < 0 \<or> page_count (disk_manager b) \<le> pid" "in_range 32 pid"
    and p1: "data_page (disk_manager b) dfl p1" "table_lookup b p1 = None"
    and p2: "data_page (disk_manager b) dfl p2" "table_lookup b p2 = None" "p2 \<noteq> p1"
  shows "\<exists>f b1 b2. bpm_fetch_page pid b = Some (None, b1) \<and> bpm_fetch_page p1 b1 = Some (Some f, b2) \<and>
    bpm_fetch_page p2 b2 = None"
proof -
  obtain dps where dk: "disk_ok (disk_manager b) dps dfl" by (rule bpm_disk [OF ok])
  have r: "in_range 32 p1" "in_range 32 p2" using data_page_in_range [OF dk] p1 p2 by blast+
  obtain f b1 ps where e: "evict_page b = Some (Some f, b1)" "f < pool_size b" "pool_size b1 = pool_size b"
    "length (pages b1) = length (pages b)" "hm_ok (page_table b1)"
    "\<And>q. in_range 32 q \<Longrightarrow> table_lookup b1 q = (if q = page_pid (pages b ! f) then None else table_lookup b q)"
    "list_ok (free_nodes b1) (free_list b1) [Free_Node f]" "sentinel (free_list b1) = Free_Sentinel"
    "disk_ok (disk_manager b1) ps dfl"
    "\<And>q. page_at (disk_manager b1) q = (if q = page_pid (pages b ! f) then pool_view b q else page_at (disk_manager b) q)"
    using evict_ok [OF ok victim] by blast
  have f: "f < 4294967295" using e(2) bpm_len [OF ok] by simp
  note ln = singleton_links [OF e(7,8)]
  have pv: "pid \<noteq> page_pid (pages b ! f)"
    using resident_pid [OF ok e(2)] bad(1) by auto
  have "page_at (disk_manager b) pid = None" using page_at_ok [OF dk, of pid] bad(2) by auto
  then have nd: "page_at (disk_manager b1) pid = None" using e(10) [of pid] pv by simp
  then have rd: "disk_manager_read_page pid (disk_manager b1) = (Inl DB_PAGE_NOT_FOUND, disk_manager b1)"
    using e(9) page_at_ok [OF e(9), of pid] by (auto simp: disk_manager_read_page_def disk_ok_def split: if_splits)
  have ff: "find_free_frame b = Some (None, b)" by (rule find_free_none [OF bpm_frames [OF ok]])
  let ?n = "Free_Node f" and ?s = "Free_Sentinel"
  define l2 where "l2 = (free_list b1)\<lparr>lsize := 2\<rparr>"
  define h2 where "h2 = (free_nodes b1)(?n := \<lparr>prv = Some ?n, nxt = Some ?n\<rparr>)"
  have h2: "h2 ?s = \<lparr>prv = Some ?n, nxt = Some ?n\<rparr>" "h2 ?n = \<lparr>prv = Some ?n, nxt = Some ?n\<rparr>"
    using ln by (simp_all add: h2_def)
  have "push_free f b1 = Some (b1\<lparr>free_list := l2, free_nodes := h2\<rparr>)"
    using ln e(8) by (auto simp: push_free_def list_push_back_def Let_def l2_def h2_def set_prv_def set_nxt_def fun_eq_iff)
  then have f1: "bpm_fetch_page pid b = Some (None, b1\<lparr>free_list := l2, free_nodes := h2\<rparr>)"
    using bad(1) ff e(1) rd by (simp add: bpm_fetch_page_def take_frame_def)
  let ?b1 = "b1\<lparr>free_list := l2, free_nodes := h2\<rparr>"
  define h3 where "h3 = h2(?n := \<lparr>prv = None, nxt = None\<rparr>)"
  have "list_pop_front l2 h2 = Some (Some ?n, l2\<lparr>lsize := 1\<rparr>, h3)"
    using e(8) h2 by (simp add: list_pop_front_def list_remove_def Let_def l2_def h3_def set_prv_def set_nxt_def)
  then have ff1: "find_free_frame ?b1 = Some (Some f, ?b1\<lparr>free_list := l2\<lparr>lsize := 1\<rparr>, free_nodes := h3\<rparr>)"
    by (simp add: find_free_frame_def list_empty_def l2_def frame_of_node_def)
  have at: "page_at (disk_manager b1) p1 \<noteq> None"
    using page_at_ok [OF e(9), of p1] page_at_ok [OF dk, of p1] p1 e(10) [of p1] by (auto simp: data_page_def pool_view_def split: if_splits)
  then obtain d1 where d1: "page_at (disk_manager b1) p1 = Some d1" by blast
  have n1: "table_lookup ?b1 q = table_lookup b1 q" for q by (simp add: table_lookup_def)
  let ?b2 = "(set_page f \<lparr>page_data = d1, page_pid = p1, pin_count = 1, is_dirty = False\<rparr>
      (?b1\<lparr>free_list := l2\<lparr>lsize := 1\<rparr>, free_nodes := h3\<rparr>))
      \<lparr>page_table := hashmap_put (page_table b1) (page_id_to_key p1) (frame_id_to_val f)\<rparr>"
  have np1: "table_lookup ?b1 p1 = None" using n1 [of p1] e(6) [OF r(1)] p1(2) by (simp split: if_splits)
  have f2: "bpm_fetch_page p1 ?b1 = Some (Some f, ?b2)"
    using np1 ff1 read_page_at [OF e(9) d1]
    by (simp add: bpm_fetch_page_def take_frame_def Let_def set_page_def)
  have "h3 ?s = \<lparr>prv = Some ?n, nxt = Some ?n\<rparr>" "h3 ?n = \<lparr>prv = None, nxt = None\<rparr>" using h2 by (simp_all add: h3_def)
  then have "list_pop_front (l2\<lparr>lsize := 1\<rparr>) h3 = None"
    using e(8) by (simp add: list_pop_front_def list_remove_def l2_def)
  then have "find_free_frame ?b2 = None" by (simp add: find_free_frame_def list_empty_def)
  moreover have "table_lookup ?b2 p2 = None"
  proof -
    have "table_lookup ?b2 p2 = table_lookup (b1\<lparr>page_table := hashmap_put (page_table b1) (page_id_to_key p1) (frame_id_to_val f)\<rparr>) p2"
      by (simp add: table_lookup_def)
    then show ?thesis using table_lookup_put [OF e(5) f r] e(6) [OF r(2)] p2(2,3) by simp
  qed
  ultimately have "bpm_fetch_page p2 ?b2 = None" by (simp add: bpm_fetch_page_def take_frame_def)
  then show ?thesis using f1 f2 by blast
qed

theorem bpm_failed_fetch_breaks_free_list_witness:
  "\<exists>f b1 b2. bpm_fetch_page 77 (demo_pool1 5) = Some (None, b1) \<and> bpm_fetch_page 2 b1 = Some (Some f, b2) \<and>
    bpm_fetch_page 3 b2 = None"
proof -
  have k: "0 < (5::nat)" "(5::nat) < 1000" by simp_all
  note p = demo_pool1_ok [OF k]
  have r: "in_range 32 2" "in_range 32 3" "in_range 32 77" by (simp_all add: in_range_def)
  have ok: "bpm_ok (demo_pool1 5) [] []" and v: "0 < pool_size (demo_pool1 5)" "pin_count (pages (demo_pool1 5) ! 0) = 0"
    using p by simp_all
  have d: "data_page (disk_manager (demo_pool1 5)) [] 2" "data_page (disk_manager (demo_pool1 5)) [] 3"
    "page_count (disk_manager (demo_pool1 5)) \<le> 77"
    using p disk_with_ok(2,3) [OF k(2)] by simp_all
  have n: "table_lookup (demo_pool1 5) 2 = None" "table_lookup (demo_pool1 5) 3 = None" "table_lookup (demo_pool1 5) 77 = None"
    using p r by simp_all
  have "(3::int) \<noteq> 2" by simp
  from bpm_failed_fetch_breaks_free_list [OF ok v n(3) disjI2 [OF d(3)] r(3) d(1) n(1) d(2) n(2) this] show ?thesis .
qed

end
