(* ===== verification/Recovery.thy ===== *)
theory Recovery
  imports Txn_Manager Buffer_Pool Slotted_Page
begin

text \<open>
  Crash recovery (\<open>src/transaction/recovery_manager.c\<close>): the analysis, redo and undo phases over the
  write-ahead log, the two tables they build and the buffer pool they redo into. An entry that the C
  code changes through its pointer is put back under its key. The pool and the log may be NULL. The
  redo phase is None when the pool dereferences NULL.
\<close>

section \<open>The manager\<close>

record att_entry =
  att_txn :: int
  att_lsn :: int
  att_status :: nat

record dpt_entry =
  dpt_page :: int
  dpt_lsn :: int

record recovery_manager =
  rm_wal :: "wal_manager option"
  rm_bpm :: "bpm option"
  att :: "(uintptr, att_entry) hashmap"
  dpt :: "(uintptr, dpt_entry) hashmap"

definition recovery_manager_init :: "wal_manager option \<Rightarrow> bpm option \<Rightarrow> recovery_manager" where
  "recovery_manager_init wal b =
     \<lparr>rm_wal = wal, rm_bpm = b, att = hashmap_init 16 int_hash_fn int_equal_fn, dpt = hashmap_init 16 int_hash_fn int_equal_fn\<rparr>"

definition recovery_manager_destroy :: "recovery_manager \<Rightarrow> recovery_manager" where
  "recovery_manager_destroy rm = rm\<lparr>att := hashmap_destroy (att rm), dpt := hashmap_destroy (dpt rm)\<rparr>"

section \<open>Analysis\<close>

definition analysis_att :: "wal_record \<Rightarrow> (uintptr, att_entry) hashmap \<Rightarrow> (uintptr, att_entry) hashmap" where
  "analysis_att rec m =
     (let k = int_key (wr_txn rec) in
      if wr_type rec = type_num WAL_BEGIN
      then hashmap_put m k \<lparr>att_txn = wr_txn rec, att_lsn = wr_lsn rec, att_status = 0\<rparr>
      else
        case hashmap_get m k of
          None \<Rightarrow> m
        | Some e \<Rightarrow>
            if wr_type rec = type_num WAL_COMMIT then hashmap_put m k (e\<lparr>att_status := 1, att_lsn := wr_lsn rec\<rparr>)
            else if wr_type rec = type_num WAL_ABORT then hashmap_put m k (e\<lparr>att_status := 2, att_lsn := wr_lsn rec\<rparr>)
            else if wr_type rec \<in> {type_num WAL_UPDATE, type_num WAL_INSERT, type_num WAL_DELETE}
            then hashmap_put m k (e\<lparr>att_lsn := wr_lsn rec\<rparr>)
            else m)"

definition analysis_dpt :: "wal_record \<Rightarrow> (uintptr, dpt_entry) hashmap \<Rightarrow> (uintptr, dpt_entry) hashmap" where
  "analysis_dpt rec m =
     (if wr_type rec \<in> {type_num WAL_UPDATE, type_num WAL_INSERT, type_num WAL_DELETE} \<and>
         hashmap_get m (int_key (wr_page rec)) = None
      then hashmap_put m (int_key (wr_page rec)) \<lparr>dpt_page = wr_page rec, dpt_lsn = wr_lsn rec\<rparr>
      else m)"

definition recovery_analysis :: "recovery_manager \<Rightarrow> error_code \<times> recovery_manager" where
  "recovery_analysis rm =
     (case rm_wal rm of
        None \<Rightarrow> (DB_INVALID_ARGUMENT, rm)
      | Some wm \<Rightarrow>
          let ((a, d), wm) = wal_scan (\<lambda>rec (a, d). (analysis_att rec a, analysis_dpt rec d)) (wal_reset_read wm) (att rm, dpt rm)
          in (DB_OK, rm\<lparr>rm_wal := Some wm, att := a, dpt := d\<rparr>))"

section \<open>Redo\<close>

text \<open>The smallest recLSN of the dirty page table, in the order of the iterator.\<close>

definition min_rec_lsn :: "(uintptr, dpt_entry) hashmap \<Rightarrow> int" where
  "min_rec_lsn m =
     foldl (\<lambda>min_lsn k.
       case hashmap_get m (int_key k) of
         None \<Rightarrow> min_lsn
       | Some e \<Rightarrow> if min_lsn = INVALID_LSN \<or> dpt_lsn e < min_lsn then dpt_lsn e else min_lsn)
     INVALID_LSN (hashmap_keys m)"

definition redo_page :: "wal_record \<Rightarrow> bpm \<Rightarrow> bpm option" where
  "redo_page rec b =
     (case bpm_fetch_page (wr_page rec) b of
        None \<Rightarrow> None
      | Some (None, b) \<Rightarrow> Some b
      | Some (Some f, b) \<Rightarrow>
          let p = pages b ! f in
          if wr_lsn rec > page_header_get_lsn (page_data p) \<and> after_size rec > 0 \<and> after_image rec \<noteq> None
          then map_option snd (bpm_unpin_page (wr_page rec) True
                 (set_page f (p\<lparr>page_data := page_header_set_lsn (page_data p) (wr_lsn rec)\<rparr>) b))
          else map_option snd (bpm_unpin_page (wr_page rec) False b))"

text \<open>One round of the redo loop; the pool is \<open>Some None\<close> when its pointer is NULL.\<close>

definition redo_record :: "(uintptr, dpt_entry) hashmap \<Rightarrow> int \<Rightarrow> wal_record \<Rightarrow> bpm option option \<Rightarrow> bpm option option" where
  "redo_record m min_lsn rec s =
     (case s of
        Some (Some b) \<Rightarrow>
          if wr_lsn rec < min_lsn then s
          else if wr_type rec = type_num WAL_UPDATE \<or> wr_type rec = type_num WAL_INSERT then
            (case hashmap_get m (int_key (wr_page rec)) of
               None \<Rightarrow> s
             | Some e \<Rightarrow> if wr_lsn rec \<ge> dpt_lsn e then map_option Some (redo_page rec b) else s)
          else s
      | _ \<Rightarrow> s)"

definition recovery_redo :: "recovery_manager \<Rightarrow> (error_code \<times> recovery_manager) option" where
  "recovery_redo rm =
     (case rm_wal rm of
        None \<Rightarrow> Some (DB_INVALID_ARGUMENT, rm)
      | Some wm \<Rightarrow>
          let min_lsn = min_rec_lsn (dpt rm) in
          if min_lsn = INVALID_LSN then Some (DB_OK, rm)
          else
            let (s, wm) = wal_scan (redo_record (dpt rm) min_lsn) (wal_reset_read wm) (Some (rm_bpm rm))
            in map_option (\<lambda>b. (DB_OK, rm\<lparr>rm_wal := Some wm, rm_bpm := b\<rparr>)) s)"

section \<open>Undo\<close>

definition undo_key :: "(uintptr, att_entry) hashmap \<Rightarrow> int \<Rightarrow> (uintptr, att_entry) hashmap" where
  "undo_key m i =
     (case hashmap_get m (int_key i) of
        None \<Rightarrow> m
      | Some e \<Rightarrow> if att_status e = 0 then hashmap_put m (int_key i) (e\<lparr>att_status := 2\<rparr>) else m)"

definition recovery_undo :: "recovery_manager \<Rightarrow> error_code \<times> recovery_manager" where
  "recovery_undo rm =
     (if rm_wal rm = None then (DB_INVALID_ARGUMENT, rm)
      else (DB_OK, rm\<lparr>att := foldl undo_key (att rm) (hashmap_keys (att rm))\<rparr>))"

definition recovery_run :: "recovery_manager \<Rightarrow> (error_code \<times> recovery_manager) option" where
  "recovery_run rm =
     (let (rc, rm) = recovery_analysis rm in
      if rc \<noteq> DB_OK then Some (rc, rm)
      else
        case recovery_redo rm of
          None \<Rightarrow> None
        | Some (rc, rm) \<Rightarrow> if rc \<noteq> DB_OK then Some (rc, rm) else Some (recovery_undo rm))"

section \<open>What analysis finds\<close>

text \<open>The status of a transaction after analysis, from the log alone: the last of the BEGIN, COMMIT and
  ABORT records from its first BEGIN on.\<close>

definition outcome_types :: "int list \<Rightarrow> int list" where
  "outcome_types h = dropWhile (\<lambda>t. t \<noteq> type_num WAL_BEGIN)
     (filter (\<lambda>t. t \<in> {type_num WAL_BEGIN, type_num WAL_COMMIT, type_num WAL_ABORT}) h)"

definition outcome :: "int list \<Rightarrow> nat option" where
  "outcome h = (if outcome_types h = [] then None else Some (nat (last (outcome_types h))))"

definition dirties :: "int \<Rightarrow> wal_record \<Rightarrow> bool" where
  "dirties p r \<longleftrightarrow> wr_page r = p \<and> wr_type r \<in> {type_num WAL_UPDATE, type_num WAL_INSERT, type_num WAL_DELETE}"

definition first_dirty :: "int \<Rightarrow> wal_record list \<Rightarrow> dpt_entry option" where
  "first_dirty p rs = map_option (\<lambda>r. \<lparr>dpt_page = p, dpt_lsn = wr_lsn r\<rparr>) (List.find (dirties p) rs)"

lemma dropWhile_snoc:
  "dropWhile P (xs @ [y]) = (if dropWhile P xs = [] then (if P y then [] else [y]) else dropWhile P xs @ [y])"
  by (induction xs) simp_all

lemma outcome_types_snoc:
  "outcome_types (h @ [t]) =
     (if t = type_num WAL_BEGIN \<or> t \<in> {type_num WAL_COMMIT, type_num WAL_ABORT} \<and> outcome_types h \<noteq> []
      then outcome_types h @ [t] else outcome_types h)"
  by (simp add: outcome_types_def dropWhile_snoc del: dropWhile_eq_Nil_conv)

lemma outcome_snoc:
  "outcome (h @ [t]) =
     (if t = 0 then Some 0 else if outcome h = None then None
      else if t = 1 then Some 1 else if t = 2 then Some 2 else outcome h)"
  by (simp add: outcome_def outcome_types_snoc)

lemma find_snoc: "List.find P (xs @ [x]) = (case List.find P xs of Some y \<Rightarrow> Some y | None \<Rightarrow> if P x then Some x else None)"
  by (induction xs) simp_all

definition att_ok :: "(uintptr, att_entry) hashmap \<Rightarrow> wal_record list \<Rightarrow> bool" where
  "att_ok m rs \<longleftrightarrow> int_table m \<and> (\<forall>i. in_range 32 i \<longrightarrow> map_option att_status (int_get m i) = outcome (history i rs))"

definition dpt_ok :: "(uintptr, dpt_entry) hashmap \<Rightarrow> wal_record list \<Rightarrow> bool" where
  "dpt_ok m rs \<longleftrightarrow> int_table m \<and> (\<forall>p. in_range 32 p \<longrightarrow> int_get m p = first_dirty p rs)"

lemma att_ok_step:
  assumes ok: "att_ok m rs" and r: "in_range 32 (wr_txn r)"
  shows "att_ok (analysis_att r m) (rs @ [r])"
proof -
  have t: "int_table m" and g: "\<And>i. in_range 32 i \<Longrightarrow> map_option att_status (int_get m i) = outcome (history i rs)"
    using ok by (simp_all add: att_ok_def)
  have "int_table (analysis_att r m)"
    using t r by (auto simp: analysis_att_def Let_def int_table_put split: option.split)
  moreover have "map_option att_status (int_get (analysis_att r m) i) = outcome (history i (rs @ [r]))" if i: "in_range 32 i" for i
  proof (cases "int_get m (wr_txn r)")
    case None
    then show ?thesis using g [OF i] g [OF r] t r i
      by (auto simp: analysis_att_def Let_def history_snoc outcome_snoc int_get_put int_get_def [symmetric])
  next
    case (Some e)
    then show ?thesis using g [OF i] g [OF r] t r i
      by (auto simp: analysis_att_def Let_def history_snoc outcome_snoc int_get_put int_get_def [symmetric])
  qed
  ultimately show ?thesis by (simp add: att_ok_def)
qed

lemma dpt_ok_step:
  assumes ok: "dpt_ok m rs" and r: "in_range 32 (wr_page r)"
  shows "dpt_ok (analysis_dpt r m) (rs @ [r])"
proof -
  have t: "int_table m" and g: "\<And>p. in_range 32 p \<Longrightarrow> int_get m p = first_dirty p rs" using ok by (simp_all add: dpt_ok_def)
  have "int_table (analysis_dpt r m)" using t r by (simp add: analysis_dpt_def int_table_put)
  moreover have "int_get (analysis_dpt r m) p = first_dirty p (rs @ [r])" if p: "in_range 32 p" for p
    using g [OF p] g [OF r] t r p
    by (auto simp: analysis_dpt_def first_dirty_def find_snoc dirties_def int_get_put int_get_def [symmetric] split: option.splits)
  ultimately show ?thesis by (simp add: dpt_ok_def)
qed

lemma analysis_fold:
  assumes "att_ok a rs0" "dpt_ok d rs0" "\<forall>r \<in> set rs. in_range 32 (wr_txn r) \<and> in_range 32 (wr_page r)"
  shows "\<exists>a' d'. fold (\<lambda>rec (a, d). (analysis_att rec a, analysis_dpt rec d)) rs (a, d) = (a', d') \<and>
    att_ok a' (rs0 @ rs) \<and> dpt_ok d' (rs0 @ rs)"
  using assms
proof (induction rs arbitrary: a d rs0)
  case (Cons r rs)
  then show ?case
    using Cons.IH [of "analysis_att r a" "rs0 @ [r]" "analysis_dpt r d"] att_ok_step [of a rs0 r] dpt_ok_step [of d rs0 r] by simp
qed simp

lemma history_logged: "history i (logged_list lsn recs) = history i recs"
  by (induction recs arbitrary: lsn) (simp_all add: history_def logged_def)

lemma wal_scan_bytes:
  assumes "log wm = log_bytes 1 recs" "list_all rec_ok recs" "length recs < 2147483647"
  shows "wal_scan body (wal_reset_read wm) s = (fold body (logged_list 1 recs) s, wm\<lparr>log_pos := length (log wm)\<rparr>)"
  using wal_scan_records [of recs 1 "wal_reset_read wm" "[]" "[]" body s] assms by (simp add: wal_reset_read_def wal_scan_end)

lemma logged_range:
  "list_all rec_ok recs \<Longrightarrow> r \<in> set (logged_list lsn recs) \<Longrightarrow> in_range 32 (wr_txn r) \<and> in_range 32 (wr_page r)"
  by (induction recs arbitrary: lsn) (auto simp: rec_ok_def logged_def)

lemma recovery_analysis_log:
  assumes log: "log wm = log_bytes 1 recs" "list_all rec_ok recs" "length recs < 2147483647"
  shows "\<exists>a d. recovery_analysis (recovery_manager_init (Some wm) b) =
      (DB_OK, (recovery_manager_init (Some (wm\<lparr>log_pos := length (log wm)\<rparr>)) b)\<lparr>att := a, dpt := d\<rparr>) \<and>
    att_ok a (logged_list 1 recs) \<and> dpt_ok d (logged_list 1 recs)"
proof -
  let ?a = "hashmap_init 16 int_hash_fn int_equal_fn :: (uintptr, att_entry) hashmap"
  let ?d = "hashmap_init 16 int_hash_fn int_equal_fn :: (uintptr, dpt_entry) hashmap"
  have "att_ok ?a []" "dpt_ok ?d []"
    by (simp_all add: att_ok_def dpt_ok_def history_def outcome_def outcome_types_def first_dirty_def
        int_table_init [unfolded int_equal_fn_eq] int_get_init [unfolded int_equal_fn_eq])
  from analysis_fold [OF this, of "logged_list 1 recs"] logged_range [OF log(2)]
  obtain a d where "fold (\<lambda>rec (a, d). (analysis_att rec a, analysis_dpt rec d)) (logged_list 1 recs) (?a, ?d) = (a, d)"
    "att_ok a (logged_list 1 recs)" "dpt_ok d (logged_list 1 recs)" by auto
  then show ?thesis
    using wal_scan_bytes [OF log, of "\<lambda>rec (a, d). (analysis_att rec a, analysis_dpt rec d)" "(?a, ?d)"]
    by (simp add: recovery_analysis_def recovery_manager_init_def)
qed

text \<open>C37. Analysis of a complete log: a transaction is in the table exactly when its BEGIN record is in
  the log, with the status of its last BEGIN, COMMIT or ABORT record; a page is in the dirty page table
  exactly when an update, insert or delete record names it, with the LSN of the first such record.\<close>

theorem recovery_analysis_spec:
  assumes "wal_holds wm recs"
  shows "\<exists>rm. recovery_analysis (recovery_manager_init (Some wm) b) = (DB_OK, rm) \<and>
    (\<forall>i. in_range 32 i \<longrightarrow> map_option att_status (int_get (att rm) i) = outcome (history i recs)) \<and>
    (\<forall>p. in_range 32 p \<longrightarrow> int_get (dpt rm) p = first_dirty p (logged_list 1 recs))"
proof -
  have "log wm = log_bytes 1 recs" "list_all rec_ok recs" "length recs < 2147483647" using assms by (simp_all add: wal_holds_def)
  from recovery_analysis_log [OF this, of b] show ?thesis by (auto simp: att_ok_def dpt_ok_def history_logged)
qed

theorem recovery_analysis_spec_witness:
  "\<exists>rm. recovery_analysis (recovery_manager_init (Some (wal_append_all demo_wal [demo_record])) None) = (DB_OK, rm) \<and>
     int_get (dpt rm) 3 = Some \<lparr>dpt_page = 3, dpt_lsn = 1\<rparr> \<and> int_get (att rm) 1 = None"
proof -
  have "wal_holds (wal_append_all demo_wal [demo_record]) [demo_record]"
    using wal_append_all_holds [OF demo_wal_init, of "[demo_record]"] demo_record_ok by simp
  then obtain rm where rm: "recovery_analysis (recovery_manager_init (Some (wal_append_all demo_wal [demo_record])) None) = (DB_OK, rm)"
    "\<forall>i. in_range 32 i \<longrightarrow> map_option att_status (int_get (att rm) i) = outcome (history i [demo_record])"
    "\<forall>p. in_range 32 p \<longrightarrow> int_get (dpt rm) p = first_dirty p (logged_list 1 [demo_record])"
    using recovery_analysis_spec by blast
  have r: "in_range 32 1" "in_range 32 3" by (simp_all add: in_range_def)
  have "outcome (history 1 [demo_record]) = None" "first_dirty 3 (logged_list 1 [demo_record]) = Some \<lparr>dpt_page = 3, dpt_lsn = 1\<rparr>"
    by (simp_all add: outcome_def outcome_types_def history_def demo_record_def zero_record_def first_dirty_def dirties_def logged_def)
  then show ?thesis using rm r by (intro exI [of _ rm]) auto
qed

section \<open>Undo, and the whole run on a log of transactions\<close>

definition undone :: "att_entry \<Rightarrow> att_entry" where
  "undone e = (if att_status e = 0 then e\<lparr>att_status := 2\<rparr> else e)"

lemma undo_key_get:
  assumes "int_table m" "in_range 32 i" "in_range 32 j"
  shows "int_table (undo_key m i)" and "int_get (undo_key m i) j = (if j = i then map_option undone (int_get m i) else int_get m j)"
  using assms int_get_put [OF assms(1,2,3)] int_table_put [OF assms(1,2)]
  by (auto simp: undo_key_def undone_def int_get_def [symmetric] split: option.split)

lemma undo_fold:
  "int_table m \<Longrightarrow> \<forall>i \<in> set is. in_range 32 i \<Longrightarrow> distinct is \<Longrightarrow> in_range 32 j \<Longrightarrow>
   int_table (foldl undo_key m is) \<and>
   int_get (foldl undo_key m is) j = (if j \<in> set is then map_option undone (int_get m j) else int_get m j)"
proof (induction "is" arbitrary: m)
  case (Cons i "is")
  then show ?case using Cons.IH [of "undo_key m i"] undo_key_get [of m i j] by auto
qed simp

lemma undo_all:
  assumes t: "int_table m" and j: "in_range 32 j"
  shows "int_get (foldl undo_key m (hashmap_keys m)) j = map_option undone (int_get m j)"
  using undo_fold [OF t _ hashmap_keys_distinct [OF t] j] hashmap_keys_set [OF t] j by auto

lemma min_rec_lsn_empty:
  assumes "int_table m" "\<And>p. in_range 32 p \<Longrightarrow> int_get m p = None"
  shows "min_rec_lsn m = INVALID_LSN"
proof -
  have "set (hashmap_keys m) = {}" using hashmap_keys_set [OF assms(1)] assms(2) by auto
  then show ?thesis by (simp add: min_rec_lsn_def)
qed

text \<open>A log without update, insert and delete records: nothing is redone, whatever the pool.\<close>

lemma recovery_run_no_updates:
  assumes log: "log wm = log_bytes 1 recs" "list_all rec_ok recs" "length recs < 2147483647"
    and none: "\<forall>r \<in> set recs. wr_type r \<notin> {type_num WAL_UPDATE, type_num WAL_INSERT, type_num WAL_DELETE}"
  shows "\<exists>rm. recovery_run (recovery_manager_init (Some wm) b) = Some (DB_OK, rm) \<and> rm_bpm rm = b \<and>
    (\<forall>i. in_range 32 i \<longrightarrow>
       map_option att_status (int_get (att rm) i) = map_option (\<lambda>s. if s = 0 then 2 else s) (outcome (history i recs)))"
proof -
  obtain a d where an: "recovery_analysis (recovery_manager_init (Some wm) b) =
      (DB_OK, (recovery_manager_init (Some (wm\<lparr>log_pos := length (log wm)\<rparr>)) b)\<lparr>att := a, dpt := d\<rparr>)"
    "att_ok a (logged_list 1 recs)" "dpt_ok d (logged_list 1 recs)"
    using recovery_analysis_log [OF log] by blast
  have "wr_type r \<notin> {type_num WAL_UPDATE, type_num WAL_INSERT, type_num WAL_DELETE}" if "r \<in> set (logged_list lsn recs)" for r lsn
    using that none by (induction recs arbitrary: lsn) (auto simp: logged_def)
  then have "first_dirty p (logged_list 1 recs) = None" for p by (auto simp: first_dirty_def find_None_iff dirties_def)
  then have m: "min_rec_lsn d = INVALID_LSN" using an(3) by (intro min_rec_lsn_empty) (simp_all add: dpt_ok_def)
  have t: "int_table a" using an(2) by (simp add: att_ok_def)
  have "map_option att_status (map_option undone e) = map_option (\<lambda>s. if s = 0 then 2 else s) (map_option att_status e)" for e
    by (cases e) (simp_all add: undone_def)
  then have "map_option att_status (int_get (foldl undo_key a (hashmap_keys a)) i) =
      map_option (\<lambda>s. if s = 0 then 2 else s) (outcome (history i recs))" if "in_range 32 i" for i
    using undo_all [OF t that] an(2) that by (simp add: att_ok_def history_logged)
  then show ?thesis
    using an(1) m by (simp add: recovery_run_def recovery_redo_def recovery_undo_def recovery_manager_init_def)
qed

text \<open>No log survives being opened: \<open>wal_manager_init\<close> opens the file with mode wb+, so recovery on
  the log of any earlier run finds no transaction and no dirty page.\<close>

lemma reopened_log_empty:
  assumes "wal_manager_init True old_file = Inr wm"
  shows "\<exists>rm. recovery_run (recovery_manager_init (Some wm) b) = Some (DB_OK, rm) \<and> rm_bpm rm = b \<and>
    (\<forall>i. in_range 32 i \<longrightarrow> int_get (att rm) i = None)"
proof -
  have "wal_holds wm []" using wal_init_ok [OF assms] by simp
  then have log: "log wm = log_bytes 1 []" by (simp add: wal_holds_def)
  have "outcome (history i []) = None" for i by (simp add: outcome_def outcome_types_def history_def)
  then show ?thesis using recovery_run_no_updates [OF log, of b] by auto
qed

text \<open>C35. Recovery on the log of a running system of transactions, at any reachable point and on the log manager
  that the system has open, which is how the code can use it: it ends with DB_OK; every transaction that has committed is found
  committed, every one that has aborted is found aborted, and every unfinished one is marked aborted; the pool is
  not touched. After a restart, in contrast, nothing is found: \<open>wal_manager_init\<close>, without which there is no log manager, opens the
  log that had reached the disk with mode wb+ and so erases it.\<close>

theorem recovery_of_running_log:
  assumes "txn_reachable tm" "wal_mgr tm = Some wm"
  shows "(\<exists>rm. recovery_run (recovery_manager_init (Some wm) b) = Some (DB_OK, rm) \<and> rm_bpm rm = b \<and>
      (\<forall>i. 1 \<le> i \<and> i < next_txn_id tm \<longrightarrow>
         (let types = map wr_type (filter (\<lambda>r. wr_txn r = i) (wal_read_all wm));
              status = map_option att_status (int_get (att rm) i)
          in (types = [type_num WAL_BEGIN, type_num WAL_COMMIT] \<longrightarrow> status = Some 1) \<and>
             (types = [type_num WAL_BEGIN, type_num WAL_ABORT] \<longrightarrow> status = Some 2) \<and>
             (types = [type_num WAL_BEGIN] \<longrightarrow> status = Some 2)))) \<and>
    (\<forall>wm'. wal_manager_init True (log_synced wm) = Inr wm' \<longrightarrow>
      (\<exists>rm. recovery_run (recovery_manager_init (Some wm') b) = Some (DB_OK, rm) \<and> (\<forall>i. in_range 32 i \<longrightarrow> int_get (att rm) i = None)))"
proof (intro conjI allI impI)
  have inv: "txn_inv tm" using assms(1) by (rule txn_inv_reachable)
  then obtain recs where p: "log_ok tm wm recs" and n: "next_txn_id tm \<le> 1073741824"
    using assms(2) by (auto simp: txn_inv_def heap_ok_def)
  have h: "wal_holds wm recs" using p by (simp add: log_ok_def)
  then have log: "log wm = log_bytes 1 recs" "list_all rec_ok recs" "length recs < 2147483647" by (simp_all add: wal_holds_def)
  have "wr_type r \<in> {0, 1, 2}" if r: "r \<in> set recs" for r
  proof -
    have "wr_type r \<in> set (history (wr_txn r) recs)" using r by (simp add: history_def)
    moreover have "1 \<le> wr_txn r" "wr_txn r < next_txn_id tm" using p r by (auto simp: log_ok_def)
    ultimately show ?thesis using p unfolding log_ok_def ended_history_def by (fastforce split: if_splits)
  qed
  then have "\<forall>r \<in> set recs. wr_type r \<notin> {type_num WAL_UPDATE, type_num WAL_INSERT, type_num WAL_DELETE}" by fastforce
  from recovery_run_no_updates [OF log this, of b] obtain rm
    where rm: "recovery_run (recovery_manager_init (Some wm) b) = Some (DB_OK, rm)" "rm_bpm rm = b"
      "\<And>i. in_range 32 i \<Longrightarrow>
         map_option att_status (int_get (att rm) i) = map_option (\<lambda>s. if s = 0 then 2 else s) (outcome (history i recs))"
    by blast
  have out: "outcome [0, 1] = Some 1" "outcome [0, 2] = Some 2" "outcome [0] = Some 0" by (simp_all add: outcome_def outcome_types_def)
  have status: "(history i recs = [0, 1] \<longrightarrow> map_option att_status (int_get (att rm) i) = Some 1) \<and>
      (history i recs = [0, 2] \<longrightarrow> map_option att_status (int_get (att rm) i) = Some 2) \<and>
      (history i recs = [0] \<longrightarrow> map_option att_status (int_get (att rm) i) = Some 2)"
    if "1 \<le> i" "i < next_txn_id tm" for i
  proof -
    have "in_range 32 i" using that n by (simp add: in_range_def)
    from rm(3) [OF this] show ?thesis using out by simp
  qed
  show "\<exists>rm. recovery_run (recovery_manager_init (Some wm) b) = Some (DB_OK, rm) \<and> rm_bpm rm = b \<and>
      (\<forall>i. 1 \<le> i \<and> i < next_txn_id tm \<longrightarrow>
         (let types = map wr_type (filter (\<lambda>r. wr_txn r = i) (wal_read_all wm));
              status = map_option att_status (int_get (att rm) i)
          in (types = [type_num WAL_BEGIN, type_num WAL_COMMIT] \<longrightarrow> status = Some 1) \<and>
             (types = [type_num WAL_BEGIN, type_num WAL_ABORT] \<longrightarrow> status = Some 2) \<and>
             (types = [type_num WAL_BEGIN] \<longrightarrow> status = Some 2)))"
    using rm(1,2) status log_records_of [OF h] by (intro exI [of _ rm]) (simp add: Let_def)
  show "\<exists>rm. recovery_run (recovery_manager_init (Some wm') b) = Some (DB_OK, rm) \<and> (\<forall>i. in_range 32 i \<longrightarrow> int_get (att rm) i = None)"
    if "wal_manager_init True (log_synced wm) = Inr wm'" for wm'
    using reopened_log_empty [OF that, of b] by blast
qed

theorem recovery_of_running_log_witness:
  "\<exists>tm wm rm. txn_commit 0 demo_txns = Some (DB_OK, tm) \<and> wal_mgr tm = Some wm \<and>
     recovery_run (recovery_manager_init (Some wm) None) = Some (DB_OK, rm) \<and>
     map_option att_status (int_get (att rm) 1) = Some 1"
proof -
  obtain t where d: "txn_reachable demo_txns" "txn_mem demo_txns 0 = Some t" "txn_id t = 1" "next_txn_id demo_txns = 2"
    using demo_txns_reachable by blast
  have inv: "txn_inv demo_txns" using d(1) by (rule txn_inv_reachable)
  obtain tm wm recs where e: "txn_commit 0 demo_txns = Some (DB_OK, tm)" "txn_inv tm" "wal_mgr tm = Some wm"
    "wal_holds wm (recs @ [txn_record t (last_lsn t) WAL_COMMIT])" "next_txn_id tm = 2"
    and mem: "txn_mem tm = (txn_mem demo_txns)(0 := None)"
    using txn_inv_end [OF inv d(2), of WAL_COMMIT TXN_COMMITTED] d(4) unfolding txn_commit_def by metis
  obtain recs' where l: "log_ok tm wm recs'" and h: "heap_ok tm" using e(2,3) by (auto simp: txn_inv_def)
  have types: "map wr_type (filter (\<lambda>r. wr_txn r = 1) (wal_read_all wm)) = history 1 recs @ [1]"
    using log_records_of [OF e(4), of 1] d(3) by (simp add: history_snoc)
  have none: "int_get (active_txns tm) 1 = None"
  proof (cases "int_get (active_txns tm) 1")
    case (Some a)
    moreover have "in_range 32 1" by (simp add: in_range_def)
    ultimately obtain u where "txn_mem tm a = Some u" "txn_id u = 1" using h unfolding heap_ok_def by blast
    moreover from this have "a \<noteq> 0" "txn_mem demo_txns a = Some u" using mem by (auto split: if_splits)
    moreover have "heap_ok demo_txns" using inv by (simp add: txn_inv_def)
    ultimately show ?thesis using heap_id [of demo_txns a u 0 t] d(2,3) by simp
  qed
  have "ended_history (history 1 recs')" using l none e(5) by (simp add: log_ok_def)
  then have "history 1 recs @ [1] = [type_num WAL_BEGIN, type_num WAL_COMMIT]"
    using types log_records_of [of wm recs' 1] l by (auto simp: log_ok_def ended_history_def)
  moreover have "txn_reachable tm" using step [OF d(1) txn_commits [OF e(1)]] .
  ultimately show ?thesis
    using recovery_of_running_log [of tm wm None] e types by (auto simp: Let_def)
qed

section \<open>What redo does to the pages\<close>

definition stamp :: "wal_record \<Rightarrow> buffer \<Rightarrow> buffer" where
  "stamp rec d =
     (if wr_lsn rec > page_header_get_lsn d \<and> after_size rec > 0 \<and> after_image rec \<noteq> None
      then page_header_set_lsn d (wr_lsn rec) else d)"

lemma fetch_for_redo:
  assumes ok: "bpm_ok b fr dfl" and fl: "all_flagged b fr" and d: "data_page (disk_manager b) dfl pid" and room: "fr \<noteq> []"
  obtains f b' fr' where "bpm_fetch_page pid b = Some (Some f, b')" "bpm_ok b' fr' dfl" "all_flagged b' fr'"
    "disk_manager b' = disk_manager b" "table_lookup b' pid = Some f" "0 < pin_count (pages b' ! f)"
    "\<And>q. data_page (disk_manager b) dfl q \<Longrightarrow> pool_view b' q = pool_view b q" "length fr \<le> Suc (length fr')"
proof -
  obtain ps where disk: "disk_ok (disk_manager b) ps dfl" by (rule bpm_disk [OF ok])
  have r: "in_range 32 pid" using data_page_in_range [OF disk d] by simp
  show ?thesis
  proof (cases "table_lookup b pid")
    case (Some f)
    have f: "f < pool_size b" "f \<notin> set fr" "page_pid (pages b ! f) = pid" using bpm_lookup [OF ok r] Some by auto
    obtain b' where b': "bpm_fetch_page pid b = Some (Some f, b')" "bpm_ok b' fr dfl" "disk_manager b' = disk_manager b"
      "\<And>q. in_range 32 q \<Longrightarrow> pool_view b' q = pool_view b q" "table_lookup b' = table_lookup b"
      "pages b' = (pages b)[f := (pages b ! f)\<lparr>pin_count := pin_count (pages b ! f) + 1\<rparr>]"
      using fetch_hit [OF ok r Some] by blast
    have size: "pool_size b' = pool_size b" using bpm_len [OF ok] bpm_len [OF b'(2)] b'(6) by simp
    have nth: "pages b' ! g = (if g = f then (pages b ! f)\<lparr>pin_count := pin_count (pages b ! f) + 1\<rparr> else pages b ! g)" for g
      using b'(6) bpm_len [OF ok] f(1) by (cases "g < length (pages b)") (auto simp: nth_list_update)
    have "all_flagged b' fr" using fl unfolding all_flagged_def size b'(3) by (auto simp: nth)
    moreover have "0 < pin_count (pages b' ! f)" using nth [of f] resident_facts(1) [OF ok f(1,2)] by simp
    ultimately show ?thesis using that [OF b'(1,2) _ b'(3)] Some b'(4,5) data_page_in_range [OF disk] by auto
  next
    case None
    obtain f fr' where fr: "fr = f # fr'" using room by (cases fr) auto
    obtain b' data where b': "bpm_fetch_page pid b = Some (Some f, b')" "bpm_ok b' fr' dfl" "disk_manager b' = disk_manager b"
      "page_at (disk_manager b) pid = Some data"
      "\<And>q. data_page (disk_manager b) dfl q \<Longrightarrow> pool_view b' q = pool_view b q" "table_lookup b' pid = Some f"
      "pages b' ! f = \<lparr>page_data = data, page_pid = pid, pin_count = 1, is_dirty = False\<rparr>"
      "pool_size b' = pool_size b"
      "pages b' = (pages b)[f := \<lparr>page_data = data, page_pid = pid, pin_count = 1, is_dirty = False\<rparr>]"
      using fetch_free [OF ok [unfolded fr] None d] by blast
    have "all_flagged b' fr'"
      unfolding all_flagged_def
    proof (intro allI impI)
      fix g assume g: "g < pool_size b'" "g \<notin> set fr'" "\<not> is_dirty (pages b' ! g)"
      then show "page_at (disk_manager b') (page_pid (pages b' ! g)) = Some (page_data (pages b' ! g))"
        using fl b'(3,4,7-9) by (cases "g = f") (simp_all add: all_flagged_def fr)
    qed
    then show ?thesis using that [OF b'(1,2) _ b'(3,6)] b'(5,7) by (simp add: fr)
  qed
qed

lemma redo_page_ok:
  assumes ok: "bpm_ok b fr dfl" and fl: "all_flagged b fr" and d: "data_page (disk_manager b) dfl (wr_page rec)" and room: "fr \<noteq> []"
  obtains b' fr' where "redo_page rec b = Some b'" "bpm_ok b' fr' dfl" "all_flagged b' fr'" "disk_manager b' = disk_manager b"
    "length fr \<le> Suc (length fr')"
    "\<And>q. data_page (disk_manager b) dfl q \<Longrightarrow>
       pool_view b' q = (if q = wr_page rec then map_option (stamp rec) (pool_view b q) else pool_view b q)"
proof -
  let ?pid = "wr_page rec"
  obtain ps where disk: "disk_ok (disk_manager b) ps dfl" by (rule bpm_disk [OF ok])
  have r: "in_range 32 ?pid" using data_page_in_range [OF disk d] by simp
  obtain f b1 fr1 where b1: "bpm_fetch_page ?pid b = Some (Some f, b1)" "bpm_ok b1 fr1 dfl" "all_flagged b1 fr1"
    "disk_manager b1 = disk_manager b" "table_lookup b1 ?pid = Some f" "0 < pin_count (pages b1 ! f)"
    "\<And>q. data_page (disk_manager b) dfl q \<Longrightarrow> pool_view b1 q = pool_view b q" "length fr \<le> Suc (length fr1)"
    using fetch_for_redo [OF ok fl d room] by blast
  have f: "f < pool_size b1" "f \<notin> set fr1" "page_pid (pages b1 ! f) = ?pid" using bpm_lookup [OF b1(2) r] b1(5) by auto
  let ?p = "pages b1 ! f"
  have view: "pool_view b ?pid = Some (page_data ?p)" using b1(7) [OF d] pool_view_resident [OF b1(5)] by simp
  show ?thesis
  proof (cases "wr_lsn rec > page_header_get_lsn (page_data ?p) \<and> after_size rec > 0 \<and> after_image rec \<noteq> None")
    case True
    let ?q = "?p\<lparr>page_data := page_header_set_lsn (page_data ?p) (wr_lsn rec)\<rparr>"
    let ?b2 = "set_page f ?q b1"
    have "f \<notin> lru_frames (replacer_of b1)" using bpm_lru(2) [OF b1(2), of f] b1(6) by simp
    then have lf: "lru_frames (replacer_of b1) = (if pin_count ?q = 0 then insert f (lru_frames (replacer_of b1))
        else lru_frames (replacer_of b1) - {f})" using b1(6) by simp
    have same: "page_pid ?q = page_pid ?p" "0 \<le> pin_count ?q" "pin_count ?q = 0 \<and> \<not> is_dirty ?q \<longrightarrow>
        page_at (disk_manager b1) (page_pid ?q) = Some (page_data ?q)" using b1(6) by simp_all
    note u = frame_update [OF b1(2) f(1,2) same(1,2) bpm_lru(1) [OF b1(2)] lf same(3)]
    have eq: "(set_page f ?q b1)\<lparr>replacer_of := replacer_of b1\<rparr> = ?b2" by (simp add: set_page_def)
    have u1: "bpm_ok ?b2 fr1 dfl" and u2: "\<And>q. in_range 32 q \<Longrightarrow> pool_view ?b2 q = ((pool_view b1)(?pid \<mapsto> page_data ?q)) q"
      using u f(3) unfolding eq by simp_all
    have look: "table_lookup ?b2 ?pid = Some f" using b1(5) table_lookup_cong [of ?b2 b1] by simp
    have nth: "pages ?b2 ! g = (if g = f then ?q else pages b1 ! g)" if "g < pool_size b1" for g
      using that bpm_len [OF b1(2)] by simp
    obtain b3 where b3: "bpm_unpin_page ?pid True ?b2 = Some (0, b3)" "bpm_ok b3 fr1 dfl" "disk_manager b3 = disk_manager ?b2"
      "\<And>q. in_range 32 q \<Longrightarrow> pool_view b3 q = pool_view ?b2 q"
      "pages b3 = (pages ?b2)[f := (pages ?b2 ! f)\<lparr>pin_count := pin_count (pages ?b2 ! f) - 1, is_dirty := is_dirty (pages ?b2 ! f) \<or> True\<rparr>]"
      by (rule unpin_resident [OF u1 r look, of True]) (use b1(6) nth [OF f(1)] in simp_all)
    have size: "pool_size b3 = pool_size b1" using bpm_len [OF b3(2)] bpm_len [OF b1(2)] b3(5) by simp
    have "is_dirty (pages b3 ! f)" and other: "\<And>g. g \<noteq> f \<Longrightarrow> pages b3 ! g = pages b1 ! g"
      using b3(5) bpm_len [OF b1(2)] f(1) by simp_all
    then have fl3: "all_flagged b3 fr1"
      using b1(3) unfolding all_flagged_def size b3(3) set_page_fields by metis
    show ?thesis
    proof (rule that [OF _ b3(2) fl3 _ b1(8)])
      show "redo_page rec b = Some b3" using True b1(1) b3(1) by (simp add: redo_page_def Let_def)
      show "disk_manager b3 = disk_manager b" using b3(3) b1(4) by simp
      show "pool_view b3 q = (if q = ?pid then map_option (stamp rec) (pool_view b q) else pool_view b q)"
        if "data_page (disk_manager b) dfl q" for q
        using b3(4) u2 b1(7) [OF that] data_page_in_range [OF disk that] view True by (auto simp: stamp_def)
    qed
  next
    case False
    have clean: "is_dirty ?p \<or> page_at (disk_manager b1) ?pid = Some (page_data ?p)"
      using b1(3) f by (auto simp: all_flagged_def)
    obtain b3 where b3: "bpm_unpin_page ?pid False b1 = Some (0, b3)" "bpm_ok b3 fr1 dfl" "disk_manager b3 = disk_manager b1"
      "\<And>q. in_range 32 q \<Longrightarrow> pool_view b3 q = pool_view b1 q"
      "pages b3 = (pages b1)[f := (pages b1 ! f)\<lparr>pin_count := pin_count (pages b1 ! f) - 1, is_dirty := is_dirty (pages b1 ! f) \<or> False\<rparr>]"
      by (rule unpin_resident [OF b1(2) r b1(5), of False]) (use b1(6) clean in simp_all)
    have size: "pool_size b3 = pool_size b1" using bpm_len [OF b3(2)] bpm_len [OF b1(2)] b3(5) by simp
    have "page_pid (pages b3 ! f) = page_pid ?p" "page_data (pages b3 ! f) = page_data ?p" "is_dirty (pages b3 ! f) = is_dirty ?p"
      and other: "\<And>g. g \<noteq> f \<Longrightarrow> pages b3 ! g = pages b1 ! g"
      using b3(5) bpm_len [OF b1(2)] f(1) by simp_all
    then have fl3: "all_flagged b3 fr1"
      using b1(3) unfolding all_flagged_def size b3(3) by metis
    show ?thesis
    proof (rule that [OF _ b3(2) fl3 _ b1(8)])
      show "redo_page rec b = Some b3" using False b1(1) b3(1) by (auto simp: redo_page_def Let_def)
      show "disk_manager b3 = disk_manager b" using b3(3) b1(4) by simp
      show "pool_view b3 q = (if q = ?pid then map_option (stamp rec) (pool_view b q) else pool_view b q)"
        if "data_page (disk_manager b) dfl q" for q
        using b3(4) b1(7) [OF that] data_page_in_range [OF disk that] view False by (auto simp: stamp_def)
    qed
  qed
qed

definition redoes :: "(uintptr, dpt_entry) hashmap \<Rightarrow> int \<Rightarrow> wal_record \<Rightarrow> bool" where
  "redoes m min_lsn rec \<longleftrightarrow> min_lsn \<le> wr_lsn rec \<and> wr_type rec \<in> {type_num WAL_UPDATE, type_num WAL_INSERT} \<and>
     (\<exists>e. int_get m (wr_page rec) = Some e \<and> dpt_lsn e \<le> wr_lsn rec)"

definition stamp_all :: "(uintptr, dpt_entry) hashmap \<Rightarrow> int \<Rightarrow> int \<Rightarrow> wal_record list \<Rightarrow> buffer \<Rightarrow> buffer" where
  "stamp_all m min_lsn q rs d = fold (\<lambda>r d. if redoes m min_lsn r \<and> wr_page r = q then stamp r d else d) rs d"

lemma redo_record_skip: "\<not> redoes m min_lsn r \<Longrightarrow> redo_record m min_lsn r (Some (Some b)) = Some (Some b)"
  by (auto simp: redo_record_def redoes_def int_get_def split: option.splits)

lemma redo_fold:
  assumes "bpm_ok b fr dfl" "all_flagged b fr" "length rs \<le> length fr"
    and "\<forall>r \<in> set rs. redoes m min_lsn r \<longrightarrow> data_page (disk_manager b) dfl (wr_page r)"
  shows "\<exists>b' fr'. fold (redo_record m min_lsn) rs (Some (Some b)) = Some (Some b') \<and> bpm_ok b' fr' dfl \<and> all_flagged b' fr' \<and>
    disk_manager b' = disk_manager b \<and>
    (\<forall>q. data_page (disk_manager b) dfl q \<longrightarrow> pool_view b' q = map_option (stamp_all m min_lsn q rs) (pool_view b q))"
  using assms
proof (induction rs arbitrary: b fr)
  case Nil
  have "stamp_all m min_lsn q [] = id" for q by (simp add: stamp_all_def fun_eq_iff)
  then show ?case using Nil by (intro exI [of _ b] exI [of _ fr]) (simp add: option.map_ident)
next
  case (Cons r rs)
  show ?case
  proof (cases "redoes m min_lsn r")
    case False
    then have "redo_record m min_lsn r (Some (Some b)) = Some (Some b)" by (rule redo_record_skip)
    moreover have "stamp_all m min_lsn q (r # rs) = stamp_all m min_lsn q rs" for q using False by (simp add: stamp_all_def fun_eq_iff)
    ultimately show ?thesis using Cons.IH [of b fr] Cons.prems by simp
  next
    case True
    have room: "fr \<noteq> []" using Cons.prems(3) by auto
    have d: "data_page (disk_manager b) dfl (wr_page r)" using Cons.prems(4) True by simp
    obtain b1 fr1 where b1: "redo_page r b = Some b1" "bpm_ok b1 fr1 dfl" "all_flagged b1 fr1" "disk_manager b1 = disk_manager b"
      "length fr \<le> Suc (length fr1)"
      "\<And>q. data_page (disk_manager b) dfl q \<Longrightarrow>
         pool_view b1 q = (if q = wr_page r then map_option (stamp r) (pool_view b q) else pool_view b q)"
      by (rule redo_page_ok [OF Cons.prems(1,2) d room]) blast
    have step: "redo_record m min_lsn r (Some (Some b)) = Some (Some b1)"
      using True b1(1) by (auto simp: redo_record_def redoes_def int_get_def)
    have len: "length rs \<le> length fr1" using Cons.prems(3) b1(5) by simp
    obtain b' fr' where b': "fold (redo_record m min_lsn) rs (Some (Some b1)) = Some (Some b')" "bpm_ok b' fr' dfl" "all_flagged b' fr'"
      "disk_manager b' = disk_manager b1"
      "\<And>q. data_page (disk_manager b1) dfl q \<Longrightarrow> pool_view b' q = map_option (stamp_all m min_lsn q rs) (pool_view b1 q)"
      using Cons.IH [OF b1(2,3) len] Cons.prems(4) b1(4) by auto
    have "pool_view b' q = map_option (stamp_all m min_lsn q (r # rs)) (pool_view b q)" if q: "data_page (disk_manager b) dfl q" for q
    proof -
      have "stamp_all m min_lsn q (r # rs) = (if q = wr_page r then stamp_all m min_lsn q rs \<circ> stamp r else stamp_all m min_lsn q rs)"
        using True by (auto simp: stamp_all_def fun_eq_iff)
      then show ?thesis using b'(5) [of q] b1(4,6) q by (simp add: option.map_comp)
    qed
    then show ?thesis using step b' b1(4) by auto
  qed
qed

lemma stamp_frame: "x < 4 \<or> 12 \<le> x \<Longrightarrow> stamp r d x = d x"
  by (simp add: stamp_def page_header_set_lsn_def put_s_outside)

lemma stamp_all_frame: "x < 4 \<or> 12 \<le> x \<Longrightarrow> stamp_all m min_lsn q rs d x = d x"
  unfolding stamp_all_def by (induction rs arbitrary: d) (simp_all add: stamp_frame)

lemma stamp_lsn:
  assumes "in_range 64 (wr_lsn r)"
  shows "page_header_get_lsn d \<le> page_header_get_lsn (stamp r d)"
    and "after_size r > 0 \<Longrightarrow> after_image r \<noteq> None \<Longrightarrow> wr_lsn r \<le> page_header_get_lsn (stamp r d)"
  using assms get_put_s [of 8 "wr_lsn r" d 4] by (auto simp: stamp_def page_header_get_lsn_def page_header_set_lsn_def)

lemma stamp_all_lsn:
  assumes "\<forall>r \<in> set rs. in_range 64 (wr_lsn r)"
  shows "page_header_get_lsn d \<le> page_header_get_lsn (stamp_all m min_lsn q rs d) \<and>
    (\<forall>r \<in> set rs. redoes m min_lsn r \<and> wr_page r = q \<and> after_size r > 0 \<and> after_image r \<noteq> None \<longrightarrow>
       wr_lsn r \<le> page_header_get_lsn (stamp_all m min_lsn q rs d))"
  using assms
proof (induction rs arbitrary: d)
  case (Cons r rs)
  let ?d = "if redoes m min_lsn r \<and> wr_page r = q then stamp r d else d"
  have s: "stamp_all m min_lsn q (r # rs) d = stamp_all m min_lsn q rs ?d" by (simp add: stamp_all_def)
  have "page_header_get_lsn d \<le> page_header_get_lsn ?d" using stamp_lsn(1) [of r d] Cons.prems by simp
  then show ?case using Cons.IH [of ?d] Cons.prems stamp_lsn(2) [of r d] unfolding s by fastforce
qed (simp add: stamp_all_def)

lemma min_rec_lsn_le:
  assumes t: "int_table m" and pos: "\<And>p e. in_range 32 p \<Longrightarrow> int_get m p = Some e \<Longrightarrow> 0 < dpt_lsn e"
    and p: "in_range 32 p" "int_get m p = Some e"
  shows "0 < min_rec_lsn m \<and> min_rec_lsn m \<le> dpt_lsn e"
proof -
  let ?f = "\<lambda>min_lsn k. case hashmap_get m (int_key k) of None \<Rightarrow> min_lsn
    | Some e \<Rightarrow> if min_lsn = INVALID_LSN \<or> dpt_lsn e < min_lsn then dpt_lsn e else min_lsn"
  have "(0 < a \<longrightarrow> 0 < foldl ?f a ks \<and> foldl ?f a ks \<le> a) \<and>
      (\<forall>k \<in> set ks. \<forall>e. int_get m k = Some e \<longrightarrow> 0 < foldl ?f a ks \<and> foldl ?f a ks \<le> dpt_lsn e)"
    if "\<forall>k \<in> set ks. in_range 32 k" "0 \<le> a" for ks and a :: int
    using that
  proof (induction ks arbitrary: a)
    case (Cons k ks)
    have "0 \<le> ?f a k" "a \<noteq> 0 \<Longrightarrow> 0 < ?f a k \<and> ?f a k \<le> a"
      and "\<And>e. int_get m k = Some e \<Longrightarrow> 0 < ?f a k \<and> ?f a k \<le> dpt_lsn e"
      using Cons.prems pos [of k] by (auto simp: int_get_def split: option.splits)
    then show ?case using Cons.IH [of "?f a k"] Cons.prems by fastforce
  qed simp
  moreover have "p \<in> set (hashmap_keys m)" "\<forall>k \<in> set (hashmap_keys m). in_range 32 k" using hashmap_keys_set [OF t] p by auto
  ultimately show ?thesis using p(2) unfolding min_rec_lsn_def by blast
qed

lemma logged_lsn: "r \<in> set (logged_list lsn recs) \<Longrightarrow> lsn \<le> wr_lsn r \<and> wr_lsn r < lsn + int (length recs)"
  by (induction recs arbitrary: lsn) (fastforce simp: logged_def)+

lemma first_dirty_least:
  "r \<in> set (logged_list lsn recs) \<Longrightarrow> dirties p r \<Longrightarrow> \<exists>e. first_dirty p (logged_list lsn recs) = Some e \<and> dpt_lsn e \<le> wr_lsn r"
proof (induction recs arbitrary: lsn)
  case (Cons s recs)
  show ?case
  proof (cases "dirties p (logged lsn s)")
    case True
    then show ?thesis using logged_lsn [of r lsn "s # recs"] Cons.prems(1) by (simp add: first_dirty_def) (simp add: logged_def)
  next
    case False
    then show ?thesis using Cons by (auto simp: first_dirty_def)
  qed
qed simp

text \<open>C36. Redo repairs no page. On a pool with a free frame for each log record, recovery succeeds and
  keeps the pool well-formed, but the contents of every page stay what they were outside the 8 bytes of
  the page LSN, whatever after images the log has; while the LSN of a page that an update or insert
  record with an after image names is raised to that record's, so that the page passes for redone.\<close>

theorem recovery_redo_only_stamps_lsn:
  assumes log: "wal_holds wm recs" and pool: "bpm_ok b fr dfl" "all_flagged b fr" "length recs \<le> length fr"
    and pages: "\<forall>r \<in> set recs. wr_type r \<in> {type_num WAL_UPDATE, type_num WAL_INSERT} \<longrightarrow> data_page (disk_manager b) dfl (wr_page r)"
  shows "\<exists>rm b' fr'. recovery_run (recovery_manager_init (Some wm) (Some b)) = Some (DB_OK, rm) \<and> rm_bpm rm = Some b' \<and>
    bpm_ok b' fr' dfl \<and>
    (\<forall>q d. data_page (disk_manager b) dfl q \<and> pool_view b q = Some d \<longrightarrow>
       (\<exists>d'. pool_view b' q = Some d' \<and> (\<forall>x. x < 4 \<or> 12 \<le> x \<longrightarrow> d' x = d x) \<and>
          (\<forall>r \<in> set (wal_read_all wm). wr_type r \<in> {type_num WAL_UPDATE, type_num WAL_INSERT} \<and> wr_page r = q \<and>
             after_size r > 0 \<and> after_image r \<noteq> None \<longrightarrow> wr_lsn r \<le> page_header_get_lsn d')))"
proof -
  let ?rs = "logged_list 1 recs" and ?wm = "wm\<lparr>log_pos := length (log wm)\<rparr>"
  have l: "log wm = log_bytes 1 recs" "list_all rec_ok recs" "length recs < 2147483647" using log by (simp_all add: wal_holds_def)
  obtain a d where an: "recovery_analysis (recovery_manager_init (Some wm) (Some b)) =
      (DB_OK, (recovery_manager_init (Some ?wm) (Some b))\<lparr>att := a, dpt := d\<rparr>)" "dpt_ok d ?rs"
    using recovery_analysis_log [OF l, of "Some b"] by blast
  let ?min = "min_rec_lsn d"
  have same: "r \<in> set (logged_list lsn recs) \<Longrightarrow> \<exists>s \<in> set recs. wr_type r = wr_type s \<and> wr_page r = wr_page s" for r lsn
    by (induction recs arbitrary: lsn) (auto simp: logged_def)
  have fit: "length ?rs \<le> length fr" using pool(3) by simp
  have dp: "\<forall>r \<in> set ?rs. redoes d ?min r \<longrightarrow> data_page (disk_manager b) dfl (wr_page r)"
    using same pages by (fastforce simp: redoes_def)
  obtain b' fr' where b': "fold (redo_record d ?min) ?rs (Some (Some b)) = Some (Some b')" "bpm_ok b' fr' dfl"
    "\<And>q. data_page (disk_manager b) dfl q \<Longrightarrow> pool_view b' q = map_option (stamp_all d ?min q ?rs) (pool_view b q)"
    using redo_fold [OF pool(1,2) fit dp] by blast
  have lsn: "\<forall>r \<in> set ?rs. in_range 64 (wr_lsn r)" using logged_lsn [of _ 1 recs] l(3) by (fastforce simp: in_range_def)
  have entry: "0 < dpt_lsn e" if e: "first_dirty p ?rs = Some e" for p e
  proof -
    obtain r where r: "List.find (dirties p) ?rs = Some r" "dpt_lsn e = wr_lsn r" using e by (auto simp: first_dirty_def)
    then have "r \<in> set ?rs" by (auto simp: find_Some_iff)
    then show ?thesis using logged_lsn [of r 1 recs] r(2) by simp
  qed
  have table: "int_table d" and get: "\<And>p. in_range 32 p \<Longrightarrow> int_get d p = first_dirty p ?rs" using an(2) by (simp_all add: dpt_ok_def)
  have redoes: "redoes d ?min r" "0 < ?min" if r: "r \<in> set ?rs" "wr_type r \<in> {type_num WAL_UPDATE, type_num WAL_INSERT}" for r
  proof -
    have pr: "in_range 32 (wr_page r)" using logged_range [OF l(2) r(1)] by simp
    obtain e where e: "first_dirty (wr_page r) ?rs = Some e" "dpt_lsn e \<le> wr_lsn r"
      using first_dirty_least [OF r(1), of "wr_page r"] r(2) by (auto simp: dirties_def)
    have "0 < ?min \<and> ?min \<le> dpt_lsn e" using min_rec_lsn_le [OF table _ pr, of e] entry get e(1) pr by auto
    then show "redoes d ?min r" "0 < ?min" using r(2) get [OF pr] e by (simp_all add: redoes_def)
  qed
  have run: "\<exists>rm. recovery_run (recovery_manager_init (Some wm) (Some b)) = Some (DB_OK, rm) \<and> rm_bpm rm = Some b'"
  proof (cases "?min = INVALID_LSN")
    case True
    have "r \<in> set ?rs \<Longrightarrow> \<not> redoes d ?min r" for r using redoes(2) True by (fastforce simp: redoes_def)
    then have "redo_record d ?min r (Some (Some b)) = Some (Some b)" if "r \<in> set ?rs" for r
      using that redo_record_skip by blast
    then have "fold (redo_record d ?min) rs (Some (Some b)) = Some (Some b)" if "set rs \<subseteq> set ?rs" for rs
      using that by (induction rs) auto
    then have "b' = b" using b'(1) by simp
    then show ?thesis using an(1) True
      by (simp add: recovery_run_def recovery_redo_def recovery_undo_def recovery_manager_init_def)
  next
    case False
    have "wal_scan (redo_record d ?min) (wal_reset_read ?wm) (Some (Some b)) = (Some (Some b'), ?wm)"
      using wal_scan_bytes [of ?wm recs "redo_record d ?min" "Some (Some b)"] l b'(1) by simp
    then show ?thesis using an(1) False
      by (simp add: recovery_run_def recovery_redo_def recovery_undo_def recovery_manager_init_def)
  qed
  have "\<exists>d'. pool_view b' q = Some d' \<and> (\<forall>x. x < 4 \<or> 12 \<le> x \<longrightarrow> d' x = p x) \<and>
      (\<forall>r \<in> set (wal_read_all wm). wr_type r \<in> {type_num WAL_UPDATE, type_num WAL_INSERT} \<and> wr_page r = q \<and>
         after_size r > 0 \<and> after_image r \<noteq> None \<longrightarrow> wr_lsn r \<le> page_header_get_lsn d')"
    if q: "data_page (disk_manager b) dfl q" "pool_view b q = Some p" for q p
    using b'(3) [OF q(1)] q(2) stamp_all_frame [of _ d ?min q ?rs p] stamp_all_lsn [OF lsn, of p d ?min q] redoes(1)
      wal_read_all_log [OF log] by (intro exI [of _ "stamp_all d ?min q ?rs p"]) auto
  then show ?thesis using run b'(2) by blast
qed

theorem recovery_redo_only_stamps_lsn_witness:
  "\<exists>rm b' d d'. recovery_run (recovery_manager_init (Some (wal_append_all demo_wal [demo_record])) (Some (demo_pool 3 5))) = Some (DB_OK, rm) \<and>
     rm_bpm rm = Some b' \<and> pool_view (demo_pool 3 5) 3 = Some d \<and> pool_view b' 3 = Some d' \<and> 1 \<le> page_header_get_lsn d' \<and>
     (\<forall>x \<ge> 12. d' x = d x)"
proof -
  have k: "(5::nat) < 1000" "(3::nat) < 1000" by simp_all
  note p = demo_pool_ok [OF k]
  have h: "wal_holds (wal_append_all demo_wal [demo_record]) [demo_record]"
    using wal_append_all_holds [OF demo_wal_init, of "[demo_record]"] demo_record_ok by simp
  have ok: "bpm_ok (demo_pool 3 5) [0..<3] []" and size: "pool_size (demo_pool 3 5) = 3" using p by simp_all
  have fl: "all_flagged (demo_pool 3 5) [0..<3]" by (simp add: all_flagged_def size)
  have d3: "data_page (disk_manager (demo_pool 3 5)) [] 3" using p disk_with_ok(2) [OF k(1)] by simp
  obtain ps where disk: "disk_ok (disk_manager (demo_pool 3 5)) ps []" by (rule bpm_disk [OF ok])
  have "page_at (disk_manager (demo_pool 3 5)) 3 \<noteq> None" using page_at_ok [OF disk, of 3] d3 by (auto simp: data_page_def)
  then obtain d where d: "pool_view (demo_pool 3 5) 3 = Some d" using p by (auto simp: pool_view_def)
  have pg: "\<forall>r \<in> set [demo_record]. wr_type r \<in> {type_num WAL_UPDATE, type_num WAL_INSERT} \<longrightarrow>
      data_page (disk_manager (demo_pool 3 5)) [] (wr_page r)"
    using d3 by (simp add: demo_record_def)
  obtain rm b' where rm: "recovery_run (recovery_manager_init (Some (wal_append_all demo_wal [demo_record])) (Some (demo_pool 3 5))) = Some (DB_OK, rm)"
    "rm_bpm rm = Some b'"
    "\<And>q d. data_page (disk_manager (demo_pool 3 5)) [] q \<and> pool_view (demo_pool 3 5) q = Some d \<Longrightarrow>
       (\<exists>d'. pool_view b' q = Some d' \<and> (\<forall>x. x < 4 \<or> 12 \<le> x \<longrightarrow> d' x = d x) \<and>
          (\<forall>r \<in> set (wal_read_all (wal_append_all demo_wal [demo_record])). wr_type r \<in> {type_num WAL_UPDATE, type_num WAL_INSERT} \<and> wr_page r = q \<and>
             after_size r > 0 \<and> after_image r \<noteq> None \<longrightarrow> wr_lsn r \<le> page_header_get_lsn d'))"
    using recovery_redo_only_stamps_lsn [OF h ok fl _ pg] by auto
  obtain d' where d': "pool_view b' 3 = Some d'" "\<forall>x. x < 4 \<or> 12 \<le> x \<longrightarrow> d' x = d x"
    "\<forall>r \<in> set (wal_read_all (wal_append_all demo_wal [demo_record])). wr_type r \<in> {type_num WAL_UPDATE, type_num WAL_INSERT} \<and> wr_page r = 3 \<and>
             after_size r > 0 \<and> after_image r \<noteq> None \<longrightarrow> wr_lsn r \<le> page_header_get_lsn d'"
    using rm(3) [of 3 d] d3 d by blast
  have "1 \<le> page_header_get_lsn d'" using d'(3) wal_read_all_log [OF h] by (simp add: logged_def demo_record_def zero_record_def)
  then show ?thesis using rm(1,2) d d' by blast
qed

end
