(* ===== verification/Deadlock.thy ===== *)
theory Deadlock
  imports Int_Keys
begin

text \<open>
  The deadlock detector of \<open>src/transaction/deadlock_detector.c\<close>: a table that maps a waiting
  transaction to the one transaction it waits for, and the walk along these edges from every entry.
  The walk is a loop whose end is not evident, so it is a partial function, and that it ends is part
  of what is proved. Transaction ids are 32-bit ints.
\<close>

section \<open>The detector\<close>

record deadlock_detector =
  waits_for :: "(uintptr, int) hashmap"

definition deadlock_detector_init :: deadlock_detector where
  "deadlock_detector_init = \<lparr>waits_for = hashmap_init 16 int_hash_fn int_equal_fn\<rparr>"

definition deadlock_detector_destroy :: "deadlock_detector \<Rightarrow> deadlock_detector" where
  "deadlock_detector_destroy dd = dd\<lparr>waits_for := hashmap_destroy (waits_for dd)\<rparr>"

text \<open>An entry that exists is overwritten through its pointer, which is what putting it again does.\<close>

definition deadlock_add_edge :: "deadlock_detector \<Rightarrow> int \<Rightarrow> int \<Rightarrow> deadlock_detector" where
  "deadlock_add_edge dd txn_a txn_b = dd\<lparr>waits_for := hashmap_put (waits_for dd) (int_key txn_a) txn_b\<rparr>"

definition deadlock_remove_edges :: "deadlock_detector \<Rightarrow> int \<Rightarrow> deadlock_detector" where
  "deadlock_remove_edges dd txn = dd\<lparr>waits_for := snd (hashmap_remove (waits_for dd) (int_key txn))\<rparr>"

text \<open>The inner loop: the victim, or \<open>INVALID_TXN_ID\<close> when the walk falls off the graph.\<close>

partial_function (option) walk :: "(uintptr, int) hashmap \<Rightarrow> int list \<Rightarrow> int \<Rightarrow> int option" where
  "walk m stack current =
     (if current = INVALID_TXN_ID then Some INVALID_TXN_ID
      else if current \<in> set stack then Some current
      else walk m (stack @ [current])
             (case hashmap_get m (int_key current) of Some next \<Rightarrow> next | None \<Rightarrow> INVALID_TXN_ID))"

fun detect_from :: "(uintptr, int) hashmap \<Rightarrow> int list \<Rightarrow> int option" where
  "detect_from m [] = Some INVALID_TXN_ID"
| "detect_from m (start # starts) =
     (case walk m [] start of
        None \<Rightarrow> None
      | Some victim \<Rightarrow> if victim \<noteq> INVALID_TXN_ID then Some victim else detect_from m starts)"

definition deadlock_detect :: "deadlock_detector \<Rightarrow> int option" where
  "deadlock_detect dd = detect_from (waits_for dd) (hashmap_keys (waits_for dd))"

section \<open>The wait-for graph\<close>

definition wait_edges :: "(int \<rightharpoonup> int) \<Rightarrow> (int \<times> int) set" where
  "wait_edges g = {(a, b). g a = Some b \<and> a \<noteq> INVALID_TXN_ID \<and> b \<noteq> INVALID_TXN_ID}"

lemma cycle_next:
  assumes c: "(a, a) \<in> (wait_edges g)\<^sup>+"
  shows "\<exists>b. g a = Some b \<and> b \<noteq> INVALID_TXN_ID \<and> (b, b) \<in> (wait_edges g)\<^sup>+"
proof -
  obtain b where b: "(a, b) \<in> wait_edges g" "(b, a) \<in> (wait_edges g)\<^sup>*" using c by (meson tranclD)
  then have "(b, b) \<in> (wait_edges g)\<^sup>+" by (meson rtrancl_into_trancl1)
  then show ?thesis using b(1) by (auto simp: wait_edges_def)
qed

lemma walk_spec:
  assumes "finite nodes" "set stack \<subseteq> nodes" "distinct stack"
    and "current = INVALID_TXN_ID \<or> current \<in> nodes"
    and closed: "\<And>a b. a \<in> nodes \<Longrightarrow> hashmap_get m (int_key a) = Some b \<Longrightarrow> b = INVALID_TXN_ID \<or> b \<in> nodes"
    and g: "\<And>a. a \<in> nodes \<Longrightarrow> g a = hashmap_get m (int_key a)"
    and "current \<noteq> INVALID_TXN_ID \<Longrightarrow> \<forall>x \<in> set stack. (x, current) \<in> (wait_edges g)\<^sup>+"
  shows "\<exists>v. walk m stack current = Some v \<and> (v \<noteq> INVALID_TXN_ID \<longrightarrow> (v, v) \<in> (wait_edges g)\<^sup>+) \<and>
    (v = INVALID_TXN_ID \<longrightarrow> current \<noteq> INVALID_TXN_ID \<longrightarrow> (current, current) \<notin> (wait_edges g)\<^sup>+)"
  using assms(2-4,7)
proof (induction "card nodes - length stack" arbitrary: stack current rule: less_induct)
  case less
  let ?next = "case hashmap_get m (int_key current) of Some next \<Rightarrow> next | None \<Rightarrow> INVALID_TXN_ID"
  consider "current = INVALID_TXN_ID" | "current \<noteq> INVALID_TXN_ID" "current \<in> set stack"
    | "current \<noteq> INVALID_TXN_ID" "current \<notin> set stack" by blast
  then show ?case
  proof cases
    case 3
    then have node: "current \<in> nodes" using less.prems(3) by simp
    have sub: "set (stack @ [current]) \<subseteq> nodes" and d: "distinct (stack @ [current])"
      using less.prems(1,2) node 3 by simp_all
    have "length (stack @ [current]) \<le> card nodes"
      using card_mono [OF assms(1) sub] distinct_card [OF d] by simp
    then have smaller: "card nodes - length (stack @ [current]) < card nodes - length stack" by simp
    have next_node: "?next = INVALID_TXN_ID \<or> ?next \<in> nodes"
      using closed [OF node] by (auto split: option.split)
    have edge: "(current, ?next) \<in> wait_edges g" if "?next \<noteq> INVALID_TXN_ID"
      using that 3(1) g [OF node] by (auto simp: wait_edges_def split: option.splits)
    have path: "\<forall>x \<in> set (stack @ [current]). (x, ?next) \<in> (wait_edges g)\<^sup>+" if n: "?next \<noteq> INVALID_TXN_ID"
    proof
      fix x assume "x \<in> set (stack @ [current])"
      then have "x = current \<or> (x, current) \<in> (wait_edges g)\<^sup>+" using less.prems(4) 3(1) by auto
      then show "(x, ?next) \<in> (wait_edges g)\<^sup>+" using edge [OF n] by (meson r_into_trancl' trancl_into_trancl)
    qed
    obtain v where v: "walk m (stack @ [current]) ?next = Some v" "v \<noteq> INVALID_TXN_ID \<longrightarrow> (v, v) \<in> (wait_edges g)\<^sup>+"
      "v = INVALID_TXN_ID \<longrightarrow> ?next \<noteq> INVALID_TXN_ID \<longrightarrow> (?next, ?next) \<notin> (wait_edges g)\<^sup>+"
      using less.hyps [OF smaller sub d next_node path] by blast
    have "walk m stack current = Some v" using 3 v(1) by (subst walk.simps) simp
    moreover have "(current, current) \<notin> (wait_edges g)\<^sup>+" if "v = INVALID_TXN_ID"
    proof
      assume "(current, current) \<in> (wait_edges g)\<^sup>+"
      then obtain b where "g current = Some b" "b \<noteq> INVALID_TXN_ID" "(b, b) \<in> (wait_edges g)\<^sup>+" using cycle_next by blast
      then show False using v(3) that g [OF node] by simp
    qed
    ultimately show ?thesis using v(2) by blast
  qed (use less.prems in \<open>simp_all add: walk.simps\<close>)
qed

definition dd_ok :: "deadlock_detector \<Rightarrow> bool" where
  "dd_ok dd \<longleftrightarrow> int_table (waits_for dd) \<and> (\<forall>a b. int_get (waits_for dd) a = Some b \<longrightarrow> in_range 32 b)"

definition wait_graph :: "deadlock_detector \<Rightarrow> int \<Rightarrow> int option" where
  "wait_graph dd a = (if in_range 32 a then int_get (waits_for dd) a else None)"

lemma dd_ok_init: "dd_ok deadlock_detector_init"
  by (simp add: dd_ok_def deadlock_detector_init_def int_table_init [unfolded int_equal_fn_eq] int_get_init [unfolded int_equal_fn_eq])

lemma wait_graph_init: "wait_graph deadlock_detector_init a = None"
  by (simp add: wait_graph_def deadlock_detector_init_def int_get_init [unfolded int_equal_fn_eq])

lemma dd_ok_add: "dd_ok dd \<Longrightarrow> in_range 32 a \<Longrightarrow> in_range 32 b \<Longrightarrow> dd_ok (deadlock_add_edge dd a b)"
  using hm.get_put [of "waits_for dd" "int_key a" b] int_table_put [of "waits_for dd" a b]
  by (auto simp: dd_ok_def deadlock_add_edge_def int_get_def int_table_def split: if_splits)

lemma dd_ok_remove: "dd_ok dd \<Longrightarrow> dd_ok (deadlock_remove_edges dd a)"
  using hm.get_rem [of "waits_for dd" "int_key a"] int_table_remove [of "waits_for dd" "int_key a"]
  by (auto simp: dd_ok_def deadlock_remove_edges_def int_get_def int_table_def split: if_splits)

lemma wait_graph_add:
  "dd_ok dd \<Longrightarrow> in_range 32 a \<Longrightarrow> wait_graph (deadlock_add_edge dd a b) = (wait_graph dd)(a \<mapsto> b)"
  by (rule ext) (simp add: wait_graph_def deadlock_add_edge_def dd_ok_def int_get_put)

lemma wait_graph_remove:
  "dd_ok dd \<Longrightarrow> in_range 32 a \<Longrightarrow> wait_graph (deadlock_remove_edges dd a) = (wait_graph dd)(a := None)"
  by (rule ext) (simp add: wait_graph_def deadlock_remove_edges_def dd_ok_def int_get_remove)

text \<open>A run of the detector's updates, and what it means on the graph.\<close>

datatype edge_op = Add_Edge int int | Remove_Edges int

fun edge_op_ok :: "edge_op \<Rightarrow> bool" where
  "edge_op_ok (Add_Edge a b) \<longleftrightarrow> in_range 32 a \<and> in_range 32 b"
| "edge_op_ok (Remove_Edges a) \<longleftrightarrow> in_range 32 a"

fun dd_step :: "deadlock_detector \<Rightarrow> edge_op \<Rightarrow> deadlock_detector" where
  "dd_step dd (Add_Edge a b) = deadlock_add_edge dd a b"
| "dd_step dd (Remove_Edges a) = deadlock_remove_edges dd a"

fun graph_step :: "(int \<rightharpoonup> int) \<Rightarrow> edge_op \<Rightarrow> int \<Rightarrow> int option" where
  "graph_step g (Add_Edge a b) = g(a \<mapsto> b)"
| "graph_step g (Remove_Edges a) = g(a := None)"

lemma dd_step_refines:
  "dd_ok dd \<Longrightarrow> edge_op_ok x \<Longrightarrow> dd_ok (dd_step dd x) \<and> wait_graph (dd_step dd x) = graph_step (wait_graph dd) x"
  by (cases x) (simp_all add: dd_ok_add dd_ok_remove wait_graph_add wait_graph_remove)

lemma dd_run_refines:
  "dd_ok dd \<Longrightarrow> list_all edge_op_ok ops \<Longrightarrow>
   dd_ok (foldl dd_step dd ops) \<and> wait_graph (foldl dd_step dd ops) = foldl graph_step (wait_graph dd) ops"
  by (induction ops arbitrary: dd) (simp_all add: dd_step_refines)

lemma detect_from_spec:
  assumes starts: "\<forall>s \<in> set starts. \<exists>v. walk m [] s = Some v \<and> (v \<noteq> INVALID_TXN_ID \<longrightarrow> (v, v) \<in> E) \<and>
    (v = INVALID_TXN_ID \<longrightarrow> s \<noteq> INVALID_TXN_ID \<longrightarrow> (s, s) \<notin> E)"
  shows "\<exists>v. detect_from m starts = Some v \<and> (v \<noteq> INVALID_TXN_ID \<longrightarrow> (v, v) \<in> E) \<and>
    (v = INVALID_TXN_ID \<longrightarrow> (\<forall>s \<in> set starts. s \<noteq> INVALID_TXN_ID \<longrightarrow> (s, s) \<notin> E))"
  using starts
proof (induction starts)
  case (Cons s starts)
  then obtain v where "walk m [] s = Some v" "v \<noteq> INVALID_TXN_ID \<longrightarrow> (v, v) \<in> E"
    "v = INVALID_TXN_ID \<longrightarrow> s \<noteq> INVALID_TXN_ID \<longrightarrow> (s, s) \<notin> E" by auto
  with Cons show ?case by (cases "v = INVALID_TXN_ID") auto
qed simp

lemma deadlock_detect_graph:
  assumes ok: "dd_ok dd"
  shows "\<exists>v. deadlock_detect dd = Some v \<and> (v \<noteq> INVALID_TXN_ID \<longrightarrow> (v, v) \<in> (wait_edges (wait_graph dd))\<^sup>+) \<and>
    (v = INVALID_TXN_ID \<longrightarrow> acyclic (wait_edges (wait_graph dd)))"
proof -
  let ?g = "wait_graph dd" and ?m = "waits_for dd"
  let ?nodes = "dom ?g \<union> ran ?g"
  have t: "int_table ?m" and r: "\<And>a b. int_get ?m a = Some b \<Longrightarrow> in_range 32 b" using ok by (auto simp: dd_ok_def)
  have keys: "set (hashmap_keys ?m) = dom ?g" using hashmap_keys_set [OF t] by (auto simp: wait_graph_def split: if_splits)
  have fin: "finite ?nodes" using keys by (metis List.finite_set finite_UnI finite_ran)
  have range: "in_range 32 a" if "a \<in> ?nodes" for a
    using that r by (auto simp: wait_graph_def ran_def split: if_splits)
  have g: "?g a = hashmap_get ?m (int_key a)" if "a \<in> ?nodes" for a
    using range [OF that] by (simp add: wait_graph_def int_get_def)
  have closed: "b = INVALID_TXN_ID \<or> b \<in> ?nodes" if "a \<in> ?nodes" "hashmap_get ?m (int_key a) = Some b" for a b
    using that g [OF that(1)] by (auto simp: ran_def)
  have "\<exists>v. walk ?m [] s = Some v \<and> (v \<noteq> INVALID_TXN_ID \<longrightarrow> (v, v) \<in> (wait_edges ?g)\<^sup>+) \<and>
      (v = INVALID_TXN_ID \<longrightarrow> s \<noteq> INVALID_TXN_ID \<longrightarrow> (s, s) \<notin> (wait_edges ?g)\<^sup>+)" if "s \<in> set (hashmap_keys ?m)" for s
    using that keys by (intro walk_spec [OF fin _ _ _ closed g]) auto
  then obtain v where v: "deadlock_detect dd = Some v" "v \<noteq> INVALID_TXN_ID \<longrightarrow> (v, v) \<in> (wait_edges ?g)\<^sup>+"
    "v = INVALID_TXN_ID \<longrightarrow> (\<forall>s \<in> dom ?g. s \<noteq> INVALID_TXN_ID \<longrightarrow> (s, s) \<notin> (wait_edges ?g)\<^sup>+)"
    using detect_from_spec [of "hashmap_keys ?m" ?m "(wait_edges ?g)\<^sup>+"] unfolding deadlock_detect_def keys by blast
  have "acyclic (wait_edges ?g)" if none: "v = INVALID_TXN_ID"
    unfolding acyclic_def
  proof (intro allI notI)
    fix x assume c: "(x, x) \<in> (wait_edges ?g)\<^sup>+"
    then obtain y where "(x, y) \<in> wait_edges ?g" by (meson tranclD)
    then have "x \<in> dom ?g" "x \<noteq> INVALID_TXN_ID" by (auto simp: wait_edges_def)
    then show False using v(3) none c by blast
  qed
  then show ?thesis using v by blast
qed

text \<open>C40. After any run of edge insertions and removals the detector's search ends. It returns
  \<open>INVALID_TXN_ID\<close> exactly when the recorded wait-for graph (each transaction's last recorded edge) has
  no cycle, and otherwise a transaction that lies on a cycle.\<close>

theorem deadlock_detect_spec:
  assumes "list_all edge_op_ok ops"
  shows "\<exists>victim. deadlock_detect (foldl dd_step deadlock_detector_init ops) = Some victim \<and>
    (if acyclic (wait_edges (foldl graph_step Map.empty ops)) then victim = INVALID_TXN_ID
     else victim \<noteq> INVALID_TXN_ID \<and> (victim, victim) \<in> (wait_edges (foldl graph_step Map.empty ops))\<^sup>+)"
proof -
  have "wait_graph deadlock_detector_init = Map.empty" by (simp add: fun_eq_iff wait_graph_init)
  then have run: "dd_ok (foldl dd_step deadlock_detector_init ops)"
    "wait_graph (foldl dd_step deadlock_detector_init ops) = foldl graph_step Map.empty ops"
    using dd_run_refines [OF dd_ok_init assms] by simp_all
  show ?thesis using deadlock_detect_graph [OF run(1)] unfolding run(2) acyclic_def by auto
qed

lemma two_cycle:
  assumes "g a = Some b" "g b = Some a" "a \<noteq> INVALID_TXN_ID" "b \<noteq> INVALID_TXN_ID"
  shows "\<not> acyclic (wait_edges g)"
proof -
  have "(a, b) \<in> wait_edges g" "(b, a) \<in> wait_edges g" using assms by (simp_all add: wait_edges_def)
  then have "(a, a) \<in> (wait_edges g)\<^sup>+" by auto
  then show ?thesis by (auto simp: acyclic_def)
qed

theorem deadlock_detect_spec_witness:
  "\<exists>victim. deadlock_detect (foldl dd_step deadlock_detector_init [Add_Edge 1 2, Add_Edge 2 1]) = Some victim \<and>
     victim \<noteq> INVALID_TXN_ID"
proof -
  let ?ops = "[Add_Edge 1 2, Add_Edge 2 1]"
  have "\<not> acyclic (wait_edges (foldl graph_step Map.empty ?ops))" by (rule two_cycle [of _ 1 2]) simp_all
  then show ?thesis using deadlock_detect_spec [of ?ops] by (auto simp: in_range_def)
qed

text \<open>The detector keeps one edge for each waiting transaction. A transaction that waits for two
  holders of a lock loses the first edge when the second is recorded, and a deadlock through the first
  holder goes undetected: none of the three transactions is reported.\<close>

theorem deadlock_second_wait_forgotten:
  assumes r: "in_range 32 a" "in_range 32 b" "in_range 32 c" and d: "a \<noteq> b" "a \<noteq> c" "b \<noteq> c"
  shows "deadlock_detect (deadlock_add_edge (deadlock_add_edge (deadlock_add_edge deadlock_detector_init b a) a b) a c) =
    Some INVALID_TXN_ID"
proof -
  let ?ops = "[Add_Edge b a, Add_Edge a b, Add_Edge a c]"
  let ?dd = "foldl dd_step deadlock_detector_init ?ops" and ?g = "[b \<mapsto> a, a \<mapsto> c]"
  have "wait_graph deadlock_detector_init = Map.empty" by (simp add: fun_eq_iff wait_graph_init)
  then have run: "dd_ok ?dd" "wait_graph ?dd = ?g"
    using dd_run_refines [OF dd_ok_init, of ?ops] r d by (simp_all add: fun_upd_twist)
  have leaf: "(c, y) \<notin> wait_edges ?g" for y using d by (simp add: wait_edges_def)
  have "(x, x) \<notin> (wait_edges ?g)\<^sup>+" for x
  proof
    assume c: "(x, x) \<in> (wait_edges ?g)\<^sup>+"
    then obtain y where y: "?g x = Some y" "(y, y) \<in> (wait_edges ?g)\<^sup>+" using cycle_next by blast
    then obtain z where z: "?g y = Some z" "(z, z) \<in> (wait_edges ?g)\<^sup>+" using cycle_next by blast
    then obtain w where "?g z = Some w" using cycle_next by blast
    then show False using y(1) z(1) d by (auto split: if_splits)
  qed
  then have "acyclic (wait_edges (wait_graph ?dd))" unfolding run(2) acyclic_def by blast
  then show ?thesis using deadlock_detect_graph [OF run(1)] unfolding acyclic_def by auto
qed

theorem deadlock_second_wait_forgotten_witness:
  "deadlock_detect (deadlock_add_edge (deadlock_add_edge (deadlock_add_edge deadlock_detector_init 2 1) 1 2) 1 3) =
    Some INVALID_TXN_ID"
  by (rule deadlock_second_wait_forgotten) (simp_all add: in_range_def)

end
