(* ===== verification/Double.thy ===== *)
theory Double
  imports Prelude_Db
begin

text \<open>
  The C type \<open>double\<close> as far as the program uses it: IEEE 754 binary64 by its bit pattern, with the
  comparisons, the conversions from and to \<open>int64_t\<close>, and the four operations rounded to nearest,
  ties to even. A conversion to \<open>int64_t\<close> that C leaves undefined is None. The bits of a NaN that an
  operation produces are those of the default quiet NaN.
\<close>

section \<open>The format\<close>

type_synonym double = "64 word"

definition dbl_neg :: "double \<Rightarrow> bool" where "dbl_neg d \<longleftrightarrow> 2 ^ 63 \<le> unat d"
definition dbl_mag :: "double \<Rightarrow> nat" where "dbl_mag d = unat d mod 2 ^ 63"
definition dbl_expo :: "double \<Rightarrow> nat" where "dbl_expo d = dbl_mag d div 2 ^ 52"

definition dbl_mant :: "double \<Rightarrow> nat" where
  "dbl_mant d = (if dbl_expo d = 0 then dbl_mag d mod 2 ^ 52 else dbl_mag d mod 2 ^ 52 + 2 ^ 52)"

definition dbl_exp :: "double \<Rightarrow> int" where
  "dbl_exp d = (if dbl_expo d = 0 then -1074 else int (dbl_expo d) - 1075)"

definition dbl_inf_mag :: nat where "dbl_inf_mag = 2047 * 2 ^ 52"

definition is_nan :: "double \<Rightarrow> bool" where "is_nan d \<longleftrightarrow> dbl_inf_mag < dbl_mag d"
definition is_inf :: "double \<Rightarrow> bool" where "is_inf d \<longleftrightarrow> dbl_mag d = dbl_inf_mag"

definition dbl_make :: "bool \<Rightarrow> nat \<Rightarrow> double" where
  "dbl_make neg mag = of_nat (if neg then 2 ^ 63 + mag else mag)"

definition dbl_nan :: double where "dbl_nan = dbl_make False (dbl_inf_mag + 2 ^ 51)"

text \<open>Comparison: apart from NaNs, the order of the magnitudes with their sign.\<close>

definition dbl_key :: "double \<Rightarrow> int" where
  "dbl_key d = (if dbl_neg d then - int (dbl_mag d) else int (dbl_mag d))"

definition dbl_lt :: "double \<Rightarrow> double \<Rightarrow> bool" where
  "dbl_lt a b \<longleftrightarrow> \<not> is_nan a \<and> \<not> is_nan b \<and> dbl_key a < dbl_key b"

definition dbl_eq :: "double \<Rightarrow> double \<Rightarrow> bool" where
  "dbl_eq a b \<longleftrightarrow> \<not> is_nan a \<and> \<not> is_nan b \<and> dbl_key a = dbl_key b"

section \<open>Rounding\<close>

text \<open>The double nearest to \<open>num / den * 2 ^ e\<close>: the quotient is scaled into [2^52, 2^53), or to the
  least exponent, and rounded half to even; a magnitude past the largest double is infinity.\<close>

function scale_down :: "nat \<Rightarrow> nat \<Rightarrow> int \<Rightarrow> nat \<times> int" where
  "scale_down num den e =
     (if 0 < den \<and> (2 ^ 53 * den \<le> num \<or> e < -1074) then scale_down num (2 * den) (e + 1) else (den, e))"
  by pat_completeness auto
termination
  by (relation "measure (\<lambda>(num, den, e). (num - den) + nat (-1074 - e))") auto

function scale_up :: "nat \<Rightarrow> nat \<Rightarrow> int \<Rightarrow> nat \<times> int" where
  "scale_up num den e = (if num < 2 ^ 52 * den \<and> -1074 < e then scale_up (2 * num) den (e - 1) else (num, e))"
  by pat_completeness auto
termination
  by (relation "measure (\<lambda>(num, den, e). nat (e + 1074))") auto

declare scale_down.simps [simp del] scale_up.simps [simp del]

definition half_even :: "nat \<Rightarrow> nat \<Rightarrow> nat" where
  "half_even num den =
     (let q = num div den; r = num mod den
      in if den < 2 * r \<or> 2 * r = den \<and> odd q then q + 1 else q)"

definition dbl_round :: "bool \<Rightarrow> nat \<Rightarrow> nat \<Rightarrow> int \<Rightarrow> double" where
  "dbl_round neg num den e =
     (if num = 0 then dbl_make neg 0
      else
        let (den, e) = scale_down num den e;
            (num, e) = scale_up num den e
        in dbl_make neg (min (nat (e + 1074) * 2 ^ 52 + half_even num den) dbl_inf_mag))"

section \<open>The operations\<close>

definition dbl_of_int :: "int \<Rightarrow> double" where
  "dbl_of_int i = dbl_round (i < 0) (nat \<bar>i\<bar>) 1 0"

definition dbl_to_int64 :: "double \<Rightarrow> int option" where
  "dbl_to_int64 d =
     (if is_nan d \<or> is_inf d then None
      else
        let e = dbl_exp d;
            m = (if 0 \<le> e then dbl_mant d * 2 ^ nat e else dbl_mant d div 2 ^ nat (- e));
            t = (if dbl_neg d then - int m else int m)
        in if in_range 64 t then Some t else None)"

definition dbl_signed :: "double \<Rightarrow> int" where
  "dbl_signed d = (if dbl_neg d then - int (dbl_mant d) else int (dbl_mant d))"

definition dbl_minus :: "double \<Rightarrow> double" where
  "dbl_minus d = dbl_make (\<not> dbl_neg d) (dbl_mag d)"

definition dbl_add :: "double \<Rightarrow> double \<Rightarrow> double" where
  "dbl_add a b =
     (if is_nan a \<or> is_nan b then dbl_nan
      else if is_inf a then (if is_inf b \<and> dbl_neg a \<noteq> dbl_neg b then dbl_nan else a)
      else if is_inf b then b
      else
        let e = min (dbl_exp a) (dbl_exp b);
            x = dbl_signed a * 2 ^ nat (dbl_exp a - e) + dbl_signed b * 2 ^ nat (dbl_exp b - e)
        in if x = 0 then dbl_make (dbl_neg a \<and> dbl_neg b) 0 else dbl_round (x < 0) (nat \<bar>x\<bar>) 1 e)"

definition dbl_sub :: "double \<Rightarrow> double \<Rightarrow> double" where
  "dbl_sub a b = (if is_nan b then dbl_nan else dbl_add a (dbl_minus b))"

definition dbl_mul :: "double \<Rightarrow> double \<Rightarrow> double" where
  "dbl_mul a b =
     (let neg = (dbl_neg a \<noteq> dbl_neg b) in
      if is_nan a \<or> is_nan b then dbl_nan
      else if is_inf a \<or> is_inf b then (if dbl_mag a = 0 \<or> dbl_mag b = 0 then dbl_nan else dbl_make neg dbl_inf_mag)
      else dbl_round neg (dbl_mant a * dbl_mant b) 1 (dbl_exp a + dbl_exp b))"

definition dbl_div :: "double \<Rightarrow> double \<Rightarrow> double" where
  "dbl_div a b =
     (let neg = (dbl_neg a \<noteq> dbl_neg b) in
      if is_nan a \<or> is_nan b \<or> is_inf a \<and> is_inf b then dbl_nan
      else if is_inf a then dbl_make neg dbl_inf_mag
      else if is_inf b then dbl_make neg 0
      else if dbl_mag b = 0 then (if dbl_mag a = 0 then dbl_nan else dbl_make neg dbl_inf_mag)
      else dbl_round neg (dbl_mant a) (dbl_mant b) (dbl_exp a - dbl_exp b))"

definition dbl_zero :: double where "dbl_zero = 0"
definition dbl_one :: double where "dbl_one = dbl_of_int 1"

section \<open>Integers as doubles\<close>

lemma dbl_make_fields:
  assumes "mag < 2 ^ 63"
  shows "dbl_neg (dbl_make neg mag) \<longleftrightarrow> neg" and "dbl_mag (dbl_make neg mag) = mag"
proof -
  have "(if neg then 2 ^ 63 + mag else mag) < 2 ^ 64" using assms by simp
  then have u: "unat (dbl_make neg mag) = (if neg then 2 ^ 63 + mag else mag)"
    unfolding dbl_make_def by (subst unat_of_nat) (simp add: take_bit_nat_eq_self)
  show "dbl_neg (dbl_make neg mag) \<longleftrightarrow> neg" "dbl_mag (dbl_make neg mag) = mag"
    using assms by (simp_all add: dbl_neg_def dbl_mag_def u)
qed

text \<open>A normalised mantissa and its exponent are read back.\<close>

lemma dbl_normal:
  fixes neg :: bool
  assumes m: "2 ^ 52 \<le> m" "m < 2 ^ 53" and k: "0 < k" "k < 2046"
  defines "d \<equiv> dbl_make neg (k * 2 ^ 52 + m)"
  shows "dbl_neg d \<longleftrightarrow> neg" and "dbl_mag d = k * 2 ^ 52 + m" and "dbl_mant d = m" and "dbl_exp d = int k - 1074"
    and "\<not> is_nan d" and "\<not> is_inf d"
proof -
  have "k * 2 ^ 52 \<le> 2045 * 2 ^ 52" using k by simp
  then have b: "k * 2 ^ 52 + m < 2 ^ 63" "k * 2 ^ 52 + m < dbl_inf_mag" using m by (simp_all add: dbl_inf_mag_def)
  show n: "dbl_neg d \<longleftrightarrow> neg" and mag: "dbl_mag d = k * 2 ^ 52 + m" unfolding d_def by (rule dbl_make_fields [OF b(1)])+
  have e: "dbl_expo d = k + 1" unfolding dbl_expo_def mag
  proof (rule div_nat_eqI)
    show "2 ^ 52 * (k + 1) \<le> k * 2 ^ 52 + m" using m by simp
    show "k * 2 ^ 52 + m < 2 ^ 52 * Suc (k + 1)" using m by simp
  qed
  have "(k * 2 ^ 52 + m) mod 2 ^ 52 = m - 2 ^ 52"
  proof -
    have "k * 2 ^ 52 + m = (m - 2 ^ 52) + 2 ^ 52 * (k + 1)" using m by simp
    then have "(k * 2 ^ 52 + m) mod 2 ^ 52 = (m - 2 ^ 52) mod 2 ^ 52" by (metis mod_mult_self2)
    then show ?thesis using m by simp
  qed
  then show "dbl_mant d = m" using m by (simp add: dbl_mant_def e mag)
  show "dbl_exp d = int k - 1074" by (simp add: dbl_exp_def e)
  show "\<not> is_nan d" "\<not> is_inf d" using b(2) by (simp_all add: is_nan_def is_inf_def mag)
qed

lemma scale_up_spec:
  assumes "0 < num" "num < 2 ^ 53" "int j = e + 1074" "2 ^ 52 \<le> num * 2 ^ j"
  shows "\<exists>k \<le> j. scale_up num 1 e = (num * 2 ^ k, e - int k) \<and> 2 ^ 52 \<le> num * 2 ^ k \<and> num * 2 ^ k < 2 ^ 53"
  using assms
proof (induction j arbitrary: num e)
  case 0
  then show ?case by (subst scale_up.simps) simp
next
  case (Suc j)
  show ?case
  proof (cases "num < 2 ^ 52")
    case True
    then have "scale_up num 1 e = scale_up (2 * num) 1 (e - 1)" using Suc.prems by (subst scale_up.simps) simp
    moreover obtain k where "k \<le> j" "scale_up (2 * num) 1 (e - 1) = (2 * num * 2 ^ k, e - 1 - int k)"
      "2 ^ 52 \<le> 2 * num * 2 ^ k" "2 * num * 2 ^ k < 2 ^ 53"
      using Suc.IH [of "2 * num" "e - 1"] Suc.prems True by auto
    ultimately show ?thesis by (intro exI [of _ "Suc k"]) (simp add: mult.assoc mult.left_commute)
  next
    case False
    then show ?thesis using Suc.prems by (subst scale_up.simps) (auto intro!: exI [of _ 0])
  qed
qed

lemma half_even_1 [simp]: "half_even n (Suc 0) = n"
  by (simp add: half_even_def)

text \<open>Up to 2^53 an integer is exactly a double: k is the number of bits it is shifted by.\<close>

lemma dbl_of_nat_small:
  assumes n: "0 < n" "n < 2 ^ 53"
  obtains k where "k \<le> 52" "2 ^ 52 \<le> n * 2 ^ k" "n * 2 ^ k < 2 ^ 53"
    "\<And>neg. dbl_round neg n 1 0 = dbl_make neg ((1074 - k) * 2 ^ 52 + n * 2 ^ k)"
proof -
  have "(2::nat) ^ 52 \<le> 2 ^ 1074" by (rule power_increasing) simp_all
  then have "2 ^ 52 \<le> n * 2 ^ 1074" using n by (metis One_nat_def Suc_leI le_trans mult_le_mono1 nat_mult_1)
  then obtain k where k: "scale_up n 1 0 = (n * 2 ^ k, - int k)" "2 ^ 52 \<le> n * 2 ^ k" "n * 2 ^ k < 2 ^ 53" "k \<le> 1074"
    using scale_up_spec [of n 1074 0] n by auto
  have "(2::nat) ^ k \<le> n * 2 ^ k" using n by simp
  then have "(2::nat) ^ k < 2 ^ 53" using k(3) by linarith
  then have k52: "k \<le> 52" using power_less_imp_less_exp [of "2::nat" k 53] by simp
  have down: "scale_down n 1 0 = (1, 0)" using n by (subst scale_down.simps) simp
  have nat: "nat (1074 - int k) = 1074 - k" by simp
  have "(1074 - k) * 2 ^ 52 + n * 2 ^ k \<le> dbl_inf_mag"
  proof -
    have "(1074 - k) * 2 ^ 52 \<le> 1074 * 2 ^ 52" by simp
    then show ?thesis using k(3) by (simp add: dbl_inf_mag_def)
  qed
  then have "dbl_round neg n 1 0 = dbl_make neg ((1074 - k) * 2 ^ 52 + n * 2 ^ k)" for neg
    using n by (simp add: dbl_round_def down [simplified] k(1) [simplified] nat min_absorb1)
  then show ?thesis using that [OF k52 k(2,3)] by blast
qed

lemma dbl_round_2_53: "dbl_round neg (2 ^ 53) 1 0 = dbl_make neg (1075 * 2 ^ 52 + 2 ^ 52)"
proof -
  have "scale_down (2 ^ 53) 1 0 = (2, 1)" by (simp add: scale_down.simps)
  moreover have "scale_up (2 ^ 53) 2 1 = (2 ^ 53, 1)" by (subst scale_up.simps) simp
  ultimately show ?thesis by (simp add: dbl_round_def half_even_def dbl_inf_mag_def)
qed

text \<open>What the double of an integer of at most 2^53 in magnitude is.\<close>

lemma dbl_of_int_exact:
  assumes i: "\<bar>i\<bar> \<le> 2 ^ 53"
  shows "dbl_to_int64 (dbl_of_int i) = Some i" and "\<not> is_nan (dbl_of_int i)"
    and "dbl_neg (dbl_of_int i) \<longleftrightarrow> i < 0"
proof (atomize (full), cases "i = 0 \<or> \<bar>i\<bar> = 2 ^ 53")
  case False
  then have n: "0 < nat \<bar>i\<bar>" "nat \<bar>i\<bar> < 2 ^ 53" using i by (simp_all add: nat_less_iff)
  obtain k where k: "k \<le> 52" "2 ^ 52 \<le> nat \<bar>i\<bar> * 2 ^ k" "nat \<bar>i\<bar> * 2 ^ k < 2 ^ 53"
    "\<And>neg. dbl_round neg (nat \<bar>i\<bar>) 1 0 = dbl_make neg ((1074 - k) * 2 ^ 52 + nat \<bar>i\<bar> * 2 ^ k)"
    using dbl_of_nat_small [OF n] by blast
  define d where "d = dbl_make (i < 0) ((1074 - k) * 2 ^ 52 + nat \<bar>i\<bar> * 2 ^ k)"
  have d: "dbl_of_int i = d" using k(4) unfolding dbl_of_int_def d_def by blast
  have "0 < 1074 - k" "1074 - k < 2046" using k(1) by simp_all
  note f = dbl_normal [OF k(2,3) this, of "i < 0", folded d_def]
  have e: "dbl_exp d = - int k" using f(4) k(1) by simp
  have m: "(if 0 \<le> dbl_exp d then dbl_mant d * 2 ^ nat (dbl_exp d) else dbl_mant d div 2 ^ nat (- dbl_exp d)) = nat \<bar>i\<bar>"
    unfolding e f(3) by (cases "k = 0") simp_all
  have "in_range 64 i" using i by (auto simp: in_range_def)
  then have "dbl_to_int64 d = Some i" unfolding dbl_to_int64_def Let_def m f(1) using f(5,6) by simp
  then show "dbl_to_int64 (dbl_of_int i) = Some i \<and> \<not> is_nan (dbl_of_int i) \<and> (dbl_neg (dbl_of_int i) \<longleftrightarrow> i < 0)"
    unfolding d using f(1,5) by blast
next
  case True
  then show "dbl_to_int64 (dbl_of_int i) = Some i \<and> \<not> is_nan (dbl_of_int i) \<and> (dbl_neg (dbl_of_int i) \<longleftrightarrow> i < 0)"
  proof
    assume "i = 0"
    then show ?thesis
      by (simp add: dbl_of_int_def dbl_round_def dbl_make_def dbl_to_int64_def is_nan_def is_inf_def dbl_mag_def
          dbl_inf_mag_def dbl_mant_def dbl_expo_def dbl_neg_def in_range_def Let_def dbl_exp_def)
  next
    assume b: "\<bar>i\<bar> = 2 ^ 53"
    then have d: "dbl_of_int i = dbl_make (i < 0) (1075 * 2 ^ 52 + 2 ^ 52)" using dbl_round_2_53 by (simp add: dbl_of_int_def)
    have m: "(2::nat) ^ 52 \<le> 2 ^ 52" "(2::nat) ^ 52 < 2 ^ 53" "0 < (1075::nat)" "(1075::nat) < 2046" by simp_all
    note f = dbl_normal [OF m, of "i < 0"]
    have "in_range 64 i" using b by (auto simp: in_range_def)
    then show ?thesis using f b unfolding d dbl_to_int64_def by (auto simp: Let_def in_range_def)
  qed
qed

text \<open>The magnitude bits of a natural number up to 2^53; they are strictly increasing.\<close>

definition nat_mag :: "nat \<Rightarrow> nat" where
  "nat_mag n = dbl_mag (dbl_round False n 1 0)"

lemma nat_mag_small:
  assumes "0 < n" "n < 2 ^ 53"
  obtains k where "k \<le> 52" "2 ^ 52 \<le> n * 2 ^ k" "n * 2 ^ k < 2 ^ 53" "nat_mag n = (1074 - k) * 2 ^ 52 + n * 2 ^ k"
    "\<And>neg. dbl_round neg n 1 0 = dbl_make neg (nat_mag n)" "nat_mag n < 1076 * 2 ^ 52"
proof -
  obtain k where k: "k \<le> 52" "2 ^ 52 \<le> n * 2 ^ k" "n * 2 ^ k < 2 ^ 53"
    "\<And>neg. dbl_round neg n 1 0 = dbl_make neg ((1074 - k) * 2 ^ 52 + n * 2 ^ k)"
    using dbl_of_nat_small [OF assms] by blast
  have b: "0 < 1074 - k" "1074 - k < 2046" using k(1) by simp_all
  have m: "nat_mag n = (1074 - k) * 2 ^ 52 + n * 2 ^ k"
    using dbl_normal(2) [OF k(2,3) b, of False] k(4) by (simp add: nat_mag_def)
  have "(1074 - k) * 2 ^ 52 \<le> 1074 * 2 ^ 52" by simp
  then have "nat_mag n < 1076 * 2 ^ 52" unfolding m using k(3) by simp
  then show ?thesis using that [OF k(1-3) m] k(4) m by simp
qed

lemma nat_mag_ends: "nat_mag 0 = 0" "nat_mag (2 ^ 53) = 1076 * 2 ^ 52" "dbl_round neg 0 1 0 = dbl_make neg (nat_mag 0)"
  "dbl_round neg (2 ^ 53) 1 0 = dbl_make neg (nat_mag (2 ^ 53))"
proof -
  show z: "nat_mag 0 = 0" by (simp add: nat_mag_def dbl_round_def dbl_make_def dbl_mag_def)
  have m: "(2::nat) ^ 52 \<le> 2 ^ 52" "(2::nat) ^ 52 < 2 ^ 53" "0 < (1075::nat)" "(1075::nat) < 2046" by simp_all
  show b: "nat_mag (2 ^ 53) = 1076 * 2 ^ 52"
    unfolding nat_mag_def dbl_round_2_53 dbl_normal(2) [OF m] by simp
  show "dbl_round neg 0 1 0 = dbl_make neg (nat_mag 0)" by (simp only: z) (simp add: dbl_round_def)
  show "dbl_round neg (2 ^ 53) 1 0 = dbl_make neg (nat_mag (2 ^ 53))" unfolding b dbl_round_2_53 by simp
qed

lemma nat_mag_less:
  assumes "m < n" "n \<le> 2 ^ 53"
  shows "nat_mag m < nat_mag n"
proof (cases "n = 2 ^ 53")
  case True
  show ?thesis
  proof (cases "m = 0")
    case False
    then have "0 < m" "m < 2 ^ 53" using assms True by simp_all
    then have "nat_mag m < 1076 * 2 ^ 52" using nat_mag_small [of m] by blast
    then show ?thesis using True nat_mag_ends(2) by simp
  qed (use True nat_mag_ends in simp)
next
  case False
  have n: "0 < n" "n < 2 ^ 53" using assms False by simp_all
  obtain k where k: "k \<le> 52" "2 ^ 52 \<le> n * 2 ^ k" "n * 2 ^ k < 2 ^ 53" "nat_mag n = (1074 - k) * 2 ^ 52 + n * 2 ^ k"
    using nat_mag_small [of n] n by blast
  show ?thesis
  proof (cases "m = 0")
    case True
    then show ?thesis using k(2,4) n(1) nat_mag_ends(1) by simp
  next
    case m0: False
    have m: "0 < m" "m < 2 ^ 53" using assms m0 by simp_all
    obtain j where j: "j \<le> 52" "2 ^ 52 \<le> m * 2 ^ j" "m * 2 ^ j < 2 ^ 53" "nat_mag m = (1074 - j) * 2 ^ 52 + m * 2 ^ j"
      using nat_mag_small [of m] m by blast
    have two: "(2::nat) ^ 53 = 2 * 2 ^ 52" by simp
    consider "j = k" | "j < k" | "k < j" by linarith
    then show ?thesis
    proof cases
      case 1
      then show ?thesis using j(4) k(4) assms(1) by simp
    next
      case 2
      then have "m * 2 ^ j * 2 \<le> m * 2 ^ k" using power_increasing [of "Suc j" k "2::nat"] by simp
      also have "\<dots> < n * 2 ^ k" using assms(1) by simp
      finally have "m * 2 ^ j * 2 < n * 2 ^ k" .
      then have False using j(2) k(3) two by linarith
      then show ?thesis ..
    next
      case 3
      then have "Suc (1074 - j) \<le> 1074 - k" using j(1) by simp
      then have "(1074 - j) * 2 ^ 52 + 2 ^ 52 \<le> (1074 - k) * 2 ^ 52" by (metis Suc_eq_plus1 add_mult_distrib mult_1 mult_le_mono1)
      then show ?thesis unfolding j(4) k(4) using j(3) k(2) two by linarith
    qed
  qed
qed

lemma num_ends: "(1076::nat) * 2 ^ 52 < 2 ^ 63"
  by simp

lemma dbl_key_of_int:
  assumes "\<bar>i\<bar> \<le> 2 ^ 53"
  shows "dbl_key (dbl_of_int i) = (if i < 0 then - int (nat_mag (nat \<bar>i\<bar>)) else int (nat_mag (nat \<bar>i\<bar>)))"
proof -
  let ?n = "nat \<bar>i\<bar>"
  have "?n = 0 \<or> ?n = 2 ^ 53 \<or> 0 < ?n \<and> ?n < 2 ^ 53" using assms by (auto simp: nat_less_iff)
  then have r: "dbl_round neg ?n 1 0 = dbl_make neg (nat_mag ?n) \<and> nat_mag ?n < 2 ^ 63" for neg
  proof (elim disjE conjE)
    assume n: "?n = 0" show ?thesis unfolding n using nat_mag_ends by simp
  next
    assume n: "?n = 2 ^ 53" show ?thesis unfolding n using nat_mag_ends(2) nat_mag_ends(4) [of neg] by simp
  next
    assume n: "0 < ?n" "?n < 2 ^ 53"
    obtain k where "\<And>neg. dbl_round neg ?n 1 0 = dbl_make neg (nat_mag ?n)" "nat_mag ?n < 1076 * 2 ^ 52"
      by (rule nat_mag_small [OF n]) blast
    then show ?thesis by (metis (no_types) less_trans num_ends)
  qed
  have "dbl_of_int i = dbl_make (i < 0) (nat_mag ?n)" using r by (simp only: dbl_of_int_def)
  then show ?thesis using dbl_make_fields [of "nat_mag ?n" "i < 0"] r by (simp only: dbl_key_def)
qed

lemma dbl_of_int_lt:
  assumes "\<bar>i\<bar> \<le> 2 ^ 53" "\<bar>j\<bar> \<le> 2 ^ 53"
  shows "dbl_lt (dbl_of_int i) (dbl_of_int j) \<longleftrightarrow> i < j"
proof -
  have pos: "0 < nat_mag n" if "0 < n" "n \<le> 2 ^ 53" for n using nat_mag_less [of 0 n] that nat_mag_ends(1) by simp
  have mono: "nat_mag (nat \<bar>a\<bar>) < nat_mag (nat \<bar>b\<bar>) \<longleftrightarrow> \<bar>a\<bar> < \<bar>b\<bar>" if "\<bar>a\<bar> \<le> 2 ^ 53" "\<bar>b\<bar> \<le> 2 ^ 53" for a b :: int
  proof
    assume "\<bar>a\<bar> < \<bar>b\<bar>"
    then show "nat_mag (nat \<bar>a\<bar>) < nat_mag (nat \<bar>b\<bar>)" using nat_mag_less [of "nat \<bar>a\<bar>" "nat \<bar>b\<bar>"] that by simp
  next
    assume l: "nat_mag (nat \<bar>a\<bar>) < nat_mag (nat \<bar>b\<bar>)"
    show "\<bar>a\<bar> < \<bar>b\<bar>"
    proof (rule ccontr)
      assume "\<not> \<bar>a\<bar> < \<bar>b\<bar>"
      then have "\<bar>b\<bar> = \<bar>a\<bar> \<or> nat \<bar>b\<bar> < nat \<bar>a\<bar>" by linarith
      then show False using l nat_mag_less [of "nat \<bar>b\<bar>" "nat \<bar>a\<bar>"] that by fastforce
    qed
  qed
  define a where "a = int (nat_mag (nat \<bar>i\<bar>))"
  define b where "b = int (nat_mag (nat \<bar>j\<bar>))"
  have nonzero: "0 < nat_mag (nat \<bar>x\<bar>) \<longleftrightarrow> x \<noteq> 0" if "\<bar>x\<bar> \<le> 2 ^ 53" for x :: int
  proof (cases "x = 0")
    case True
    then show ?thesis using nat_mag_ends(1) by simp
  next
    case False
    then show ?thesis using pos [of "nat \<bar>x\<bar>"] that by simp
  qed
  have z: "0 \<le> a" "0 \<le> b" "0 < a \<longleftrightarrow> i \<noteq> 0" "0 < b \<longleftrightarrow> j \<noteq> 0" and m: "a < b \<longleftrightarrow> \<bar>i\<bar> < \<bar>j\<bar>" "b < a \<longleftrightarrow> \<bar>j\<bar> < \<bar>i\<bar>"
    using nonzero [OF assms(1)] nonzero [OF assms(2)] mono [OF assms] mono [OF assms(2,1)] by (simp_all add: a_def b_def)
  have key: "dbl_key (dbl_of_int i) = (if i < 0 then - a else a)" "dbl_key (dbl_of_int j) = (if j < 0 then - b else b)"
    using dbl_key_of_int [OF assms(1)] dbl_key_of_int [OF assms(2)] by (simp_all only: a_def b_def)
  have "(if i < 0 then - a else a) < (if j < 0 then - b else b) \<longleftrightarrow> i < j"
    using z m by (auto simp: abs_if split: if_splits)
  then show ?thesis
    using dbl_of_int_exact(2) [OF assms(1)] dbl_of_int_exact(2) [OF assms(2)] by (simp add: dbl_lt_def key)
qed

end
