(* ===== verification/Value.thy ===== *)
theory Value
  imports Double
begin

text \<open>
  Values (\<open>src/storage/value.c\<close>): the tagged union, comparison, arithmetic and casts. A string is the
  list of its bytes up to the NUL, or None for a NULL pointer. Where C leaves the behaviour undefined
  (a double that does not fit an \<open>int64_t\<close>, signed overflow), an operation is None. \<open>strcmp\<close> is a parameter of the
  comparison, which returns the number it gives; \<open>strtod\<close> and the \<open>%g\<close> format of \<open>snprintf\<close> are parameters of the
  cast; \<open>strtoll\<close> and \<open>%lld\<close> are written out.
\<close>

section \<open>Values\<close>

datatype type_id = TYPE_INTEGER | TYPE_FLOAT | TYPE_VARCHAR | TYPE_BOOLEAN | TYPE_NULL

type_synonym cstring = "byte list"

datatype val = V_Int int | V_Float double | V_Varchar "cstring option" | V_Bool bool | V_Null

fun val_type :: "val \<Rightarrow> type_id" where
  "val_type (V_Int i) = TYPE_INTEGER"
| "val_type (V_Float d) = TYPE_FLOAT"
| "val_type (V_Varchar s) = TYPE_VARCHAR"
| "val_type (V_Bool b) = TYPE_BOOLEAN"
| "val_type V_Null = TYPE_NULL"

definition cstr :: "string \<Rightarrow> cstring" where
  "cstr s = map of_char s"

definition value_make_integer :: "int \<Rightarrow> val" where "value_make_integer v = V_Int v"
definition value_make_float :: "double \<Rightarrow> val" where "value_make_float v = V_Float v"
definition value_make_varchar :: "cstring option \<Rightarrow> val" where "value_make_varchar s = V_Varchar s"
definition value_make_boolean :: "bool \<Rightarrow> val" where "value_make_boolean v = V_Bool v"
definition value_make_null :: val where "value_make_null = V_Null"

definition value_copy :: "val option \<Rightarrow> val" where
  "value_copy v = (case v of None \<Rightarrow> value_make_null | Some (V_Varchar s) \<Rightarrow> value_make_varchar s | Some v \<Rightarrow> v)"

definition value_destroy :: "val \<Rightarrow> val" where
  "value_destroy v = (case v of V_Varchar (Some s) \<Rightarrow> V_Varchar None | _ \<Rightarrow> v)"

fun type_id_name :: "type_id \<Rightarrow> string" where
  "type_id_name TYPE_INTEGER = ''INTEGER''"
| "type_id_name TYPE_FLOAT = ''FLOAT''"
| "type_id_name TYPE_VARCHAR = ''VARCHAR''"
| "type_id_name TYPE_BOOLEAN = ''BOOLEAN''"
| "type_id_name TYPE_NULL = ''NULL''"

section \<open>Comparison\<close>

text \<open>C specifies the sign of what \<open>strcmp\<close> returns and no more: the first two bytes that differ, as unsigned char,
  with the NUL below every other byte. The function \<open>strcmp\<close> here returns that sign; it stands for the
  library's where only the sign or equality matters, and \<open>libc_strcmp\<close> is the contract of any other.\<close>

fun strcmp :: "cstring \<Rightarrow> cstring \<Rightarrow> int" where
  "strcmp [] [] = 0"
| "strcmp [] (_ # _) = -1"
| "strcmp (_ # _) [] = 1"
| "strcmp (x # xs) (y # ys) = (if x < y then -1 else if y < x then 1 else strcmp xs ys)"

definition dbl_compare :: "double \<Rightarrow> double \<Rightarrow> int" where
  "dbl_compare a b = (if dbl_lt a b then -1 else if dbl_lt b a then 1 else 0)"

definition as_double :: "val \<Rightarrow> double" where
  "as_double v = (case v of V_Int i \<Rightarrow> dbl_of_int i | V_Float d \<Rightarrow> d | _ \<Rightarrow> dbl_zero)"

type_synonym strcmp_fn = "cstring \<Rightarrow> cstring \<Rightarrow> int"

fun value_compare :: "strcmp_fn \<Rightarrow> val \<Rightarrow> val \<Rightarrow> int" where
  "value_compare scmp V_Null V_Null = 0"
| "value_compare scmp V_Null _ = -1"
| "value_compare scmp _ V_Null = 1"
| "value_compare scmp (V_Int a) (V_Int b) = (if a < b then -1 else if a > b then 1 else 0)"
| "value_compare scmp (V_Float a) (V_Float b) = dbl_compare a b"
| "value_compare scmp (V_Varchar a) (V_Varchar b) =
     (case (a, b) of
        (None, None) \<Rightarrow> 0
      | (None, Some _) \<Rightarrow> -1
      | (Some _, None) \<Rightarrow> 1
      | (Some s, Some t) \<Rightarrow> scmp s t)"
| "value_compare scmp (V_Bool a) (V_Bool b) = (if a = b then 0 else if a then 1 else -1)"
| "value_compare scmp (V_Int a) (V_Float b) = dbl_compare (dbl_of_int a) b"
| "value_compare scmp (V_Float a) (V_Int b) = dbl_compare a (dbl_of_int b)"
| "value_compare scmp _ _ = code_of DB_TYPE_MISMATCH"

text \<open>The order of values, by the bytes of strings.\<close>

abbreviation value_order :: "val \<Rightarrow> val \<Rightarrow> int" where
  "value_order \<equiv> value_compare strcmp"

section \<open>Arithmetic\<close>

text \<open>Both operands become doubles; with two integers the result is computed on their conversions back
  to \<open>int64_t\<close>.\<close>

definition coerce_arithmetic :: "val \<Rightarrow> val \<Rightarrow> error_code + (double \<times> double \<times> type_id)" where
  "coerce_arithmetic a b =
     (if val_type a = TYPE_NULL \<or> val_type b = TYPE_NULL then Inl DB_TYPE_MISMATCH
      else if val_type a \<noteq> TYPE_INTEGER \<and> val_type a \<noteq> TYPE_FLOAT then Inl DB_TYPE_MISMATCH
      else if val_type b \<noteq> TYPE_INTEGER \<and> val_type b \<noteq> TYPE_FLOAT then Inl DB_TYPE_MISMATCH
      else Inr (as_double a, as_double b, if val_type a = TYPE_FLOAT \<or> val_type b = TYPE_FLOAT then TYPE_FLOAT else TYPE_INTEGER))"

definition int64_result :: "int \<Rightarrow> val option" where
  "int64_result i = (if in_range 64 i then Some (value_make_integer i) else None)"

text \<open>The common shape of \<open>value_add\<close>, \<open>value_sub\<close> and \<open>value_mul\<close>.\<close>

definition value_arith :: "(int \<Rightarrow> int \<Rightarrow> int) \<Rightarrow> (double \<Rightarrow> double \<Rightarrow> double) \<Rightarrow> val \<Rightarrow> val \<Rightarrow> (error_code + val) option" where
  "value_arith iop dop a b =
     (case coerce_arithmetic a b of
        Inl rc \<Rightarrow> Some (Inl rc)
      | Inr (da, db, rt) \<Rightarrow>
          if rt = TYPE_INTEGER then
            (case (dbl_to_int64 da, dbl_to_int64 db) of
               (Some x, Some y) \<Rightarrow> map_option Inr (int64_result (iop x y))
             | _ \<Rightarrow> None)
          else Some (Inr (value_make_float (dop da db))))"

definition value_add :: "val \<Rightarrow> val \<Rightarrow> (error_code + val) option" where "value_add = value_arith (+) dbl_add"
definition value_sub :: "val \<Rightarrow> val \<Rightarrow> (error_code + val) option" where "value_sub = value_arith (-) dbl_sub"
definition value_mul :: "val \<Rightarrow> val \<Rightarrow> (error_code + val) option" where "value_mul = value_arith (*) dbl_mul"

text \<open>C division truncates towards zero.\<close>

definition c_div :: "int \<Rightarrow> int \<Rightarrow> int" where
  "c_div x y = (if (x < 0) = (y < 0) then \<bar>x\<bar> div \<bar>y\<bar> else - (\<bar>x\<bar> div \<bar>y\<bar>))"

definition value_div :: "val \<Rightarrow> val \<Rightarrow> (error_code + val) option" where
  "value_div a b =
     (case coerce_arithmetic a b of
        Inl rc \<Rightarrow> Some (Inl rc)
      | Inr (da, db, rt) \<Rightarrow>
          if rt = TYPE_INTEGER then
            (case dbl_to_int64 db of
               None \<Rightarrow> None
             | Some y \<Rightarrow>
                 if y = 0 then Some (Inl DB_INVALID_ARGUMENT)
                 else
                   case dbl_to_int64 da of
                     None \<Rightarrow> None
                   | Some x \<Rightarrow> map_option Inr (int64_result (c_div x y)))
          else if dbl_eq db dbl_zero then Some (Inl DB_INVALID_ARGUMENT)
          else Some (Inr (value_make_float (dbl_div da db))))"

section \<open>Casts\<close>

definition is_space :: "byte \<Rightarrow> bool" where
  "is_space c \<longleftrightarrow> c = 32 \<or> 9 \<le> c \<and> c \<le> 13"

definition is_digit :: "byte \<Rightarrow> bool" where
  "is_digit c \<longleftrightarrow> 48 \<le> c \<and> c \<le> 57"

definition digits_val :: "byte list \<Rightarrow> int" where
  "digits_val ds = foldl (\<lambda>v c. 10 * v + (uint c - 48)) 0 ds"

text \<open>\<open>strtoll(s, &end, 10)\<close>: the value, clamped to \<open>int64_t\<close>, and the rest of the string at \<open>end\<close>.\<close>

definition strtoll :: "cstring \<Rightarrow> int \<times> cstring" where
  "strtoll s =
     (let t = dropWhile is_space s;
          (neg, t) = (case t of c # r \<Rightarrow> if c = 45 then (True, r) else if c = 43 then (False, r) else (False, t) | [] \<Rightarrow> (False, t));
          ds = takeWhile is_digit t
      in if ds = [] then (0, s)
         else
           let v = (if neg then - digits_val ds else digits_val ds)
           in (max (- (2 ^ 63)) (min v (2 ^ 63 - 1)), dropWhile is_digit t))"

fun nat_digits :: "nat \<Rightarrow> byte list" where
  "nat_digits n = (if n < 10 then [of_nat (n + 48)] else nat_digits (n div 10) @ [of_nat (n mod 10 + 48)])"

declare nat_digits.simps [simp del]

definition fmt_lld :: "int \<Rightarrow> cstring" where
  "fmt_lld i = (if i < 0 then 45 # nat_digits (nat (- i)) else nat_digits (nat i))"

definition value_cast_to ::
    "(cstring \<Rightarrow> double \<times> cstring) \<Rightarrow> (double \<Rightarrow> cstring) \<Rightarrow> val \<Rightarrow> type_id \<Rightarrow> (error_code + val) option" where
  "value_cast_to strtod fmt_g v target =
     (if val_type v = target then Some (Inr (value_copy (Some v)))
      else if v = V_Null then Some (Inr value_make_null)
      else
        case target of
          TYPE_INTEGER \<Rightarrow>
            (case v of
               V_Float d \<Rightarrow> map_option (Inr \<circ> value_make_integer) (dbl_to_int64 d)
             | V_Bool b \<Rightarrow> Some (Inr (value_make_integer (if b then 1 else 0)))
             | V_Varchar None \<Rightarrow> Some (Inl DB_TYPE_MISMATCH)
             | V_Varchar (Some s) \<Rightarrow>
                 let (iv, rest) = strtoll s
                 in if rest \<noteq> [] \<and> hd rest \<noteq> 46 then Some (Inl DB_TYPE_MISMATCH) else Some (Inr (value_make_integer iv))
             | _ \<Rightarrow> Some (Inl DB_TYPE_MISMATCH))
        | TYPE_FLOAT \<Rightarrow>
            (case v of
               V_Int i \<Rightarrow> Some (Inr (value_make_float (dbl_of_int i)))
             | V_Bool b \<Rightarrow> Some (Inr (value_make_float (if b then dbl_one else dbl_zero)))
             | V_Varchar None \<Rightarrow> Some (Inl DB_TYPE_MISMATCH)
             | V_Varchar (Some s) \<Rightarrow>
                 let (dv, rest) = strtod s
                 in if rest \<noteq> [] then Some (Inl DB_TYPE_MISMATCH) else Some (Inr (value_make_float dv))
             | _ \<Rightarrow> Some (Inl DB_TYPE_MISMATCH))
        | TYPE_BOOLEAN \<Rightarrow>
            (case v of
               V_Int i \<Rightarrow> Some (Inr (value_make_boolean (i \<noteq> 0)))
             | V_Float d \<Rightarrow> Some (Inr (value_make_boolean (\<not> dbl_eq d dbl_zero)))
             | _ \<Rightarrow> Some (Inl DB_TYPE_MISMATCH))
        | TYPE_VARCHAR \<Rightarrow>
            (case v of
               V_Int i \<Rightarrow> Some (Inr (value_make_varchar (Some (fmt_lld i))))
             | V_Float d \<Rightarrow> Some (Inr (value_make_varchar (Some (take 63 (fmt_g d)))))
             | V_Bool b \<Rightarrow> Some (Inr (value_make_varchar (Some (cstr (if b then ''true'' else ''false'')))))
             | _ \<Rightarrow> Some (Inl DB_TYPE_MISMATCH))
        | TYPE_NULL \<Rightarrow> Some (Inr value_make_null))"

section \<open>The order of values\<close>

lemma strcmp_range: "strcmp s t \<in> {-1, 0, 1}"
  by (induction s t rule: strcmp.induct) auto

lemma strcmp_swap: "strcmp t s = - strcmp s t"
  by (induction s t rule: strcmp.induct) (auto simp: not_less)

lemma strcmp_eq: "strcmp s t = 0 \<longleftrightarrow> s = t"
  by (induction s t rule: strcmp.induct) (auto simp: not_less)

lemma strcmp_trans: "strcmp s t \<le> 0 \<Longrightarrow> strcmp t u \<le> 0 \<Longrightarrow> strcmp s u \<le> 0"
proof (induction s arbitrary: t u)
  case Nil
  then show ?case by (cases u) auto
next
  case (Cons x s)
  from Cons.prems(1) obtain y t' where t: "t = y # t'" by (cases t) auto
  from Cons.prems(2) t obtain z u' where u: "u = z # u'" by (cases u) auto
  show ?case using Cons.prems Cons.IH [of t' u'] t u by (auto split: if_splits)
qed

lemma dbl_compare_key:
  "\<not> is_nan a \<Longrightarrow> \<not> is_nan b \<Longrightarrow> dbl_compare a b = (if dbl_key a < dbl_key b then -1 else if dbl_key b < dbl_key a then 1 else 0)"
  by (simp add: dbl_compare_def dbl_lt_def)

definition is_number :: "val \<Rightarrow> bool" where
  "is_number v \<longleftrightarrow> val_type v = TYPE_INTEGER \<or> val_type v = TYPE_FLOAT"

definition not_nan :: "val \<Rightarrow> bool" where
  "not_nan v \<longleftrightarrow> (case v of V_Float d \<Rightarrow> \<not> is_nan d | _ \<Rightarrow> True)"

definition comparable :: "val \<Rightarrow> val \<Rightarrow> bool" where
  "comparable a b \<longleftrightarrow> a = V_Null \<or> b = V_Null \<or> val_type a = val_type b \<or> is_number a \<and> is_number b"

lemma dbl_compare_range: "dbl_compare a b \<in> {-1, 0, 1}" and dbl_compare_swap: "dbl_compare b a = - dbl_compare a b"
  by (auto simp: dbl_compare_def dbl_lt_def)

fun varchar_compare :: "cstring option \<Rightarrow> cstring option \<Rightarrow> int" where
  "varchar_compare None None = 0"
| "varchar_compare None (Some _) = -1"
| "varchar_compare (Some _) None = 1"
| "varchar_compare (Some s) (Some t) = strcmp s t"

lemma value_compare_varchar: "value_order (V_Varchar a) (V_Varchar b) = varchar_compare a b"
  by (cases a; cases b) simp_all

lemma varchar_compare_range: "varchar_compare a b \<in> {-1, 0, 1}"
  by (cases a; cases b) (use strcmp_range in simp_all)

lemma varchar_compare_swap: "varchar_compare b a = - varchar_compare a b"
proof (cases a; cases b)
  fix s t assume "a = Some s" "b = Some t"
  then show ?thesis using strcmp_swap [of t s] by simp
qed simp_all

lemma value_compare_range:
  assumes "comparable a b"
  shows "value_order a b \<in> {-1, 0, 1}"
  using assms dbl_compare_range varchar_compare_range
  by (cases a; cases b)
     (simp_all add: comparable_def is_number_def value_compare_varchar del: value_compare.simps(12))

lemma value_compare_swap:
  assumes "comparable a b"
  shows "value_order b a = - value_order a b"
proof (cases a; cases b)
  fix s t assume "a = V_Varchar s" "b = V_Varchar t"
  then show ?thesis using varchar_compare_swap [of t s] by (simp only: value_compare_varchar)
next
  fix x y assume "a = V_Float x" "b = V_Float y"
  then show ?thesis using dbl_compare_swap [of y x] by simp
next
  fix x y assume "a = V_Int x" "b = V_Float y"
  then show ?thesis using dbl_compare_swap [of y "dbl_of_int x"] by simp
next
  fix x y assume "a = V_Float x" "b = V_Int y"
  then show ?thesis using dbl_compare_swap [of "dbl_of_int y" x] by simp
qed (use assms in \<open>simp_all add: comparable_def is_number_def\<close>)

text \<open>Values of one type, with NULLs: the comparison is transitive.\<close>

definition of_type :: "type_id \<Rightarrow> val \<Rightarrow> bool" where
  "of_type t v \<longleftrightarrow> v = V_Null \<or> val_type v = t \<and> not_nan v"

lemma value_compare_trans:
  assumes "of_type t a" "of_type t b" "of_type t c" "value_order a b \<le> 0" "value_order b c \<le> 0"
  shows "value_order a c \<le> 0"
proof (cases "a = V_Null \<or> b = V_Null \<or> c = V_Null")
  case True
  then show ?thesis using assms(4,5) by (cases a; cases b; cases c; simp)
next
  case False
  then have ty: "val_type a = t" "val_type b = t" "val_type c = t" and n: "not_nan a" "not_nan b" "not_nan c"
    using assms(1-3) by (auto simp: of_type_def)
  show ?thesis
  proof (cases a)
    case (V_Float x)
    then obtain y z where "b = V_Float y" "c = V_Float z" using ty by (cases b; cases c) auto
    then show ?thesis using assms(4,5) n V_Float by (auto simp: not_nan_def dbl_compare_key split: if_splits)
  next
    case (V_Varchar x)
    then obtain y z where "b = V_Varchar y" "c = V_Varchar z" using ty by (cases b; cases c) auto
    then show ?thesis using assms(4,5) V_Varchar strcmp_trans by (auto split: option.splits)
  qed (use ty assms(4,5) in \<open>cases b; cases c; auto split: if_splits\<close>)+
qed

locale libc_strcmp =
  fixes scmp :: strcmp_fn
  assumes sign: "sgn (scmp s t) = strcmp s t"
begin

lemma compare_sign: "sgn (value_compare scmp a b) = sgn (value_order a b)"
proof (cases "\<exists>s t. a = V_Varchar (Some s) \<and> b = V_Varchar (Some t)")
  case True
  then show ?thesis by (auto simp: sign [symmetric])
next
  case False
  then have "value_compare scmp a b = value_order a b" by (cases a; cases b) (auto split: option.split)
  then show ?thesis by simp
qed

lemma compare_le: "value_compare scmp a b \<le> 0 \<longleftrightarrow> value_order a b \<le> 0"
proof -
  have "value_compare scmp a b \<le> 0 \<longleftrightarrow> sgn (value_compare scmp a b) \<le> 0" by (simp add: sgn_if)
  then show ?thesis unfolding compare_sign by (simp add: sgn_if)
qed

lemma compare_swap:
  assumes "comparable a b"
  shows "sgn (value_compare scmp b a) = - sgn (value_compare scmp a b)"
  unfolding compare_sign value_compare_swap [OF assms] by (rule sgn_minus)

lemma compare_trans:
  assumes "of_type t a" "of_type t b" "of_type t c" "value_compare scmp a b \<le> 0" "value_compare scmp b c \<le> 0"
  shows "value_compare scmp a c \<le> 0"
  using value_compare_trans [OF assms(1-3)] assms(4,5) by (simp add: compare_le)

end

interpretation std: libc_strcmp strcmp
  by unfold_locales (use strcmp_range in \<open>force simp: sgn_if\<close>)


text \<open>A \<open>strcmp\<close> that returns the difference of the first bytes that differ.\<close>

fun diff_strcmp :: strcmp_fn where
  "diff_strcmp [] [] = 0"
| "diff_strcmp [] (y # _) = - 1 - uint y"
| "diff_strcmp (x # _) [] = 1 + uint x"
| "diff_strcmp (x # xs) (y # ys) = (if x = y then diff_strcmp xs ys else uint x - uint y)"

interpretation diff: libc_strcmp diff_strcmp
proof unfold_locales
  have u: "0 \<le> uint w" for w :: byte by simp
  show "sgn (diff_strcmp s t) = strcmp s t" for s t
  proof (induction s t rule: diff_strcmp.induct)
    case (2 y ys)
    have "sgn (- 1 - uint y) = -1" using u [of y] by (intro sgn_neg) linarith
    then show ?case by simp
  next
    case (3 x xs)
    have "sgn (1 + uint x) = 1" using u [of x] by (intro sgn_pos) linarith
    then show ?case by simp
  qed (auto simp: sgn_if word_less_def word_uint_eq_iff)
qed


section \<open>Exactness of arithmetic\<close>

lemma in_range_64_small: "\<bar>i\<bar> \<le> 2 ^ 54 \<Longrightarrow> in_range 64 i"
  unfolding in_range_def by simp arith

lemma value_arith_small:
  assumes "\<bar>a\<bar> \<le> 2 ^ 53" "\<bar>b\<bar> \<le> 2 ^ 53"
  shows "value_arith iop dop (V_Int a) (V_Int b) = map_option Inr (int64_result (iop a b))"
  using dbl_of_int_exact(1) [OF assms(1)] dbl_of_int_exact(1) [OF assms(2)]
  by (simp add: value_arith_def coerce_arithmetic_def as_double_def)

lemma c_div_le: "b \<noteq> 0 \<Longrightarrow> \<bar>c_div a b\<bar> \<le> \<bar>a\<bar>"
proof -
  assume "b \<noteq> 0"
  then have "\<bar>a\<bar> div \<bar>b\<bar> \<le> \<bar>a\<bar> div 1" by (intro zdiv_mono2) auto
  moreover have "0 \<le> \<bar>a\<bar> div \<bar>b\<bar>" using \<open>b \<noteq> 0\<close> by (simp add: pos_imp_zdiv_nonneg_iff)
  ultimately show ?thesis by (simp add: c_div_def)
qed

lemma c_div_spec:
  assumes "b \<noteq> 0"
  shows "\<bar>a - b * c_div a b\<bar> < \<bar>b\<bar>" and "\<bar>b * c_div a b\<bar> \<le> \<bar>a\<bar>"
proof -
  define q r where "q = \<bar>a\<bar> div \<bar>b\<bar>" and "r = \<bar>a\<bar> mod \<bar>b\<bar>"
  have qr: "\<bar>a\<bar> = \<bar>b\<bar> * q + r" "0 \<le> r" "r < \<bar>b\<bar>" "0 \<le> q"
    using assms by (simp_all add: q_def r_def pos_imp_zdiv_nonneg_iff)
  have bq: "0 \<le> \<bar>b\<bar> * q" using qr(4) by simp
  have "b * c_div a b = (if a < 0 then - (\<bar>b\<bar> * q) else \<bar>b\<bar> * q)"
    unfolding c_div_def q_def [symmetric] by (auto simp: abs_if)
  then show "\<bar>a - b * c_div a b\<bar> < \<bar>b\<bar>" "\<bar>b * c_div a b\<bar> \<le> \<bar>a\<bar>"
    using qr(1-3) bq by (auto split: if_splits)
qed

text \<open>Integer arithmetic goes through doubles, and is exact for operands of at most 2^53: sum and
  difference are always the integer ones, the product is when it fits, division truncates towards zero
  and reports a zero divisor with DB_INVALID_ARGUMENT, a code that the contract in \<open>value.h\<close> (DB_OK or DB_TYPE_MISMATCH) does
  not have. An operand that is not a number gives DB_TYPE_MISMATCH.\<close>

theorem value_arith_exact:
  "(\<bar>a\<bar> \<le> 2 ^ 53 \<and> \<bar>b\<bar> \<le> 2 ^ 53 \<longrightarrow>
      value_add (V_Int a) (V_Int b) = Some (Inr (V_Int (a + b))) \<and>
      value_sub (V_Int a) (V_Int b) = Some (Inr (V_Int (a - b))) \<and>
      (in_range 64 (a * b) \<longrightarrow> value_mul (V_Int a) (V_Int b) = Some (Inr (V_Int (a * b)))) \<and>
      (b = 0 \<longrightarrow> value_div (V_Int a) (V_Int b) = Some (Inl DB_INVALID_ARGUMENT)) \<and>
      (b \<noteq> 0 \<longrightarrow> (\<exists>q. value_div (V_Int a) (V_Int b) = Some (Inr (V_Int q)) \<and> \<bar>a - b * q\<bar> < \<bar>b\<bar> \<and> \<bar>b * q\<bar> \<le> \<bar>a\<bar>))) \<and>
   (\<not> is_number v \<or> \<not> is_number w \<longrightarrow>
      value_add v w = Some (Inl DB_TYPE_MISMATCH) \<and> value_sub v w = Some (Inl DB_TYPE_MISMATCH) \<and>
      value_mul v w = Some (Inl DB_TYPE_MISMATCH) \<and> value_div v w = Some (Inl DB_TYPE_MISMATCH))"
proof (intro conjI impI)
  assume ab: "\<bar>a\<bar> \<le> 2 ^ 53 \<and> \<bar>b\<bar> \<le> 2 ^ 53"
  then have r: "in_range 64 (a + b)" "in_range 64 (a - b)"
    by (auto intro!: in_range_64_small)
  show "value_add (V_Int a) (V_Int b) = Some (Inr (V_Int (a + b)))"
    "value_sub (V_Int a) (V_Int b) = Some (Inr (V_Int (a - b)))"
    using ab r by (simp_all add: value_add_def value_sub_def value_arith_small int64_result_def value_make_integer_def)
  show "value_mul (V_Int a) (V_Int b) = Some (Inr (V_Int (a * b)))" if "in_range 64 (a * b)"
    using ab that by (simp add: value_mul_def value_arith_small int64_result_def value_make_integer_def)
  have div: "value_div (V_Int a) (V_Int b) =
      (if b = 0 then Some (Inl DB_INVALID_ARGUMENT) else map_option Inr (int64_result (c_div a b)))"
    using dbl_of_int_exact(1) [of a] dbl_of_int_exact(1) [of b] ab
    by (simp add: value_div_def coerce_arithmetic_def as_double_def)
  show "value_div (V_Int a) (V_Int b) = Some (Inl DB_INVALID_ARGUMENT)" if "b = 0" using div that by simp
  show "\<exists>q. value_div (V_Int a) (V_Int b) = Some (Inr (V_Int q)) \<and> \<bar>a - b * q\<bar> < \<bar>b\<bar> \<and> \<bar>b * q\<bar> \<le> \<bar>a\<bar>" if "b \<noteq> 0"
  proof (intro exI [of _ "c_div a b"] conjI)
    have "in_range 64 (c_div a b)" using c_div_le [OF that, of a] ab by (intro in_range_64_small) auto
    then show "value_div (V_Int a) (V_Int b) = Some (Inr (V_Int (c_div a b)))"
      using div that by (simp add: int64_result_def value_make_integer_def)
  qed (rule c_div_spec [OF that])+
qed (auto simp: value_add_def value_sub_def value_mul_def value_div_def value_arith_def coerce_arithmetic_def is_number_def)

theorem value_arith_exact_witness:
  "value_add (V_Int (2 ^ 53)) (V_Int 1) = Some (Inr (V_Int (2 ^ 53 + 1))) \<and>
   value_div (V_Int 7) (V_Int 0) = Some (Inl DB_INVALID_ARGUMENT) \<and>
   value_add V_Null (V_Int 1) = Some (Inl DB_TYPE_MISMATCH)"
  using value_arith_exact [of "2 ^ 53" 1 V_Null "V_Int 1"] value_arith_exact [of 7 0 V_Null V_Null]
  by (simp add: is_number_def)

text \<open>Past 2^53 the detour through doubles loses bits: adding 0 changes the number, and an integer can
  equal a float that equals another integer.\<close>

lemma dbl_of_int_2_53_1: "dbl_of_int (2 ^ 53 + 1) = dbl_of_int (2 ^ 53)"
proof -
  have "scale_down (2 ^ 53 + 1) 1 0 = (2, 1)" by (simp add: scale_down.simps)
  moreover have "scale_up (2 ^ 53 + 1) 2 1 = (2 ^ 53 + 1, 1)" by (subst scale_up.simps) simp
  ultimately have "dbl_round False (2 ^ 53 + 1) 1 0 = dbl_make False (1075 * 2 ^ 52 + 2 ^ 52)"
    by (simp add: dbl_round_def half_even_def dbl_inf_mag_def)
  moreover have "dbl_of_int (2 ^ 53) = dbl_make False (1075 * 2 ^ 52 + 2 ^ 52)"
    using dbl_round_2_53 [of False] by (simp add: dbl_of_int_def)
  ultimately show ?thesis by (simp add: dbl_of_int_def nat_add_distrib)
qed

theorem value_add_loses_precision:
  "value_add (V_Int (2 ^ 53 + 1)) (V_Int 0) = Some (Inr (V_Int (2 ^ 53)))"
proof -
  have "dbl_to_int64 (dbl_of_int (2 ^ 53 + 1)) = Some (2 ^ 53)" "dbl_to_int64 (dbl_of_int 0) = Some 0"
    unfolding dbl_of_int_2_53_1 by (rule dbl_of_int_exact(1); simp)+
  then show ?thesis
    by (simp add: value_add_def value_arith_def coerce_arithmetic_def as_double_def int64_result_def in_range_def
        value_make_integer_def)
qed

theorem value_compare_mixed_not_transitive:
  "value_compare scmp (V_Int (2 ^ 53 + 1)) (V_Float (dbl_of_int (2 ^ 53))) = 0 \<and>
   value_compare scmp (V_Float (dbl_of_int (2 ^ 53))) (V_Int (2 ^ 53)) = 0 \<and>
   value_compare scmp (V_Int (2 ^ 53 + 1)) (V_Int (2 ^ 53)) = 1"
proof (intro conjI)
  have irr: "dbl_compare d d = 0" for d by (simp add: dbl_compare_def dbl_lt_def)
  show "value_compare scmp (V_Int (2 ^ 53 + 1)) (V_Float (dbl_of_int (2 ^ 53))) = 0"
    unfolding value_compare.simps dbl_of_int_2_53_1 by (rule irr)
  show "value_compare scmp (V_Float (dbl_of_int (2 ^ 53))) (V_Int (2 ^ 53)) = 0"
    unfolding value_compare.simps by (rule irr)
qed simp

end
