(* ===== verification/Schema_Tuple.thy ===== *)
theory Schema_Tuple
  imports Value
begin

text \<open>
  Schemas and tuples (\<open>src/storage/schema.c\<close>, \<open>src/storage/tuple.c\<close>): the layout a schema computes, and
  the byte format of a tuple, which is the NULL bitmap, then the fixed-length fields, then the strings
  with a 4-byte length each. Main theorem: what \<open>tuple_serialize\<close> writes, \<open>tuple_deserialize\<close> reads back.

  Arguments are non-NULL and \<open>db_malloc\<close> succeeds. An array of C is a list; a freed array is the empty
  list. \<open>tuple_serialize\<close> reads the union member its column type names: where that member is not what
  the value holds, it is the bytes of the member the value does hold, or None where those are a pointer
  or not initialised.
\<close>

section \<open>Schemas\<close>

record column_def =
  col_name :: cstring
  col_type :: type_id
  col_nullable :: bool
  col_max_length :: nat
  col_fixed_offset :: nat
  col_var_index :: int

record schema =
  columns :: "column_def list"
  num_columns :: int
  fixed_size :: nat
  var_cols :: nat
  null_bitmap_size :: nat

fun schema_column_fixed_size :: "type_id \<Rightarrow> nat" where
  "schema_column_fixed_size TYPE_INTEGER = 8"
| "schema_column_fixed_size TYPE_FLOAT = 8"
| "schema_column_fixed_size TYPE_BOOLEAN = 1"
| "schema_column_fixed_size TYPE_NULL = 0"
| "schema_column_fixed_size TYPE_VARCHAR = 0"

text \<open>The loop of \<open>schema_build\<close>: the columns laid out from \<open>fixed_offset\<close> and \<open>var_count\<close> on, with the
  final values of the two counters.\<close>

fun build_cols :: "column_def list \<Rightarrow> nat \<Rightarrow> int \<Rightarrow> column_def list \<times> nat \<times> int" where
  "build_cols [] off vc = ([], off, vc)"
| "build_cols (c # cs) off vc =
     (if col_type c = TYPE_VARCHAR then
        (let (cs', off', vc') = build_cols cs off (vc + 1)
         in (c\<lparr>col_fixed_offset := 0, col_var_index := vc\<rparr> # cs', off', vc'))
      else
        (let (cs', off', vc') = build_cols cs (u32 (off + schema_column_fixed_size (col_type c))) vc
         in (c\<lparr>col_fixed_offset := off, col_var_index := -1\<rparr> # cs', off', vc')))"

definition schema_cols :: "schema \<Rightarrow> column_def list" where
  "schema_cols s = take (nat (num_columns s)) (columns s)"

definition schema_build :: "schema \<Rightarrow> error_code \<times> schema" where
  "schema_build s =
     (if columns s = [] \<or> num_columns s \<le> 0 then (DB_INVALID_ARGUMENT, s)
      else
        let (cs, off, vc) = build_cols (schema_cols s) 0 0
        in (DB_OK, s\<lparr>columns := cs @ drop (nat (num_columns s)) (columns s), fixed_size := off, var_cols := nat vc,
                     null_bitmap_size := nat ((num_columns s + 7) div 8)\<rparr>))"

definition schema_create :: "schema \<Rightarrow> column_def list \<Rightarrow> int \<Rightarrow> error_code \<times> schema" where
  "schema_create s cols n =
     (if n \<le> 0 then (DB_INVALID_ARGUMENT, s)
      else schema_build (s\<lparr>columns := take (nat n) cols, num_columns := n\<rparr>))"

definition schema_destroy :: "schema \<Rightarrow> schema" where
  "schema_destroy s = s\<lparr>columns := [], num_columns := 0\<rparr>"

definition schema_column_max_serialized_size :: "column_def \<Rightarrow> nat" where
  "schema_column_max_serialized_size c =
     (if col_type c = TYPE_VARCHAR then u32 (col_max_length c + 4) else schema_column_fixed_size (col_type c))"

fun max_size_loop :: "column_def list \<Rightarrow> nat \<Rightarrow> nat" where
  "max_size_loop [] sz = sz"
| "max_size_loop (c # cs) sz =
     max_size_loop cs (if col_type c = TYPE_VARCHAR then u32 (sz + u32 (col_max_length c + 4)) else sz)"

definition schema_max_tuple_size :: "schema \<Rightarrow> nat" where
  "schema_max_tuple_size s = max_size_loop (schema_cols s) (u32 (null_bitmap_size s + fixed_size s))"

fun find_column_loop :: "column_def list \<Rightarrow> int \<Rightarrow> cstring \<Rightarrow> int" where
  "find_column_loop [] i name = -1"
| "find_column_loop (c # cs) i name = (if strcmp (col_name c) name = 0 then i else find_column_loop cs (i + 1) name)"

definition schema_find_column :: "schema \<Rightarrow> cstring \<Rightarrow> int" where
  "schema_find_column s name = find_column_loop (schema_cols s) 0 name"

section \<open>Tuples\<close>

record tuple =
  tup_values :: "val list"
  num_values :: int
  tup_rid :: rid

definition INVALID_RID :: rid where
  "INVALID_RID = \<lparr>rid_page = INVALID_PAGE_ID, rid_slot = INVALID_SLOT_ID\<rparr>"

definition col_idx_valid :: "tuple \<Rightarrow> int \<Rightarrow> bool" where
  "col_idx_valid t i \<longleftrightarrow> 0 \<le> i \<and> i < num_values t"

definition is_column_null :: "tuple \<Rightarrow> int \<Rightarrow> bool" where
  "is_column_null t i \<longleftrightarrow> \<not> col_idx_valid t i \<or> val_type (tup_values t ! nat i) = TYPE_NULL"

definition tuple_create :: "tuple \<Rightarrow> int \<Rightarrow> error_code \<times> tuple" where
  "tuple_create t n =
     (if n \<le> 0 then (DB_INVALID_ARGUMENT, t)
      else (DB_OK, t\<lparr>tup_values := replicate (nat n) value_make_null, num_values := n, tup_rid := INVALID_RID\<rparr>))"

definition tuple_destroy :: "tuple \<Rightarrow> tuple" where
  "tuple_destroy t = t\<lparr>tup_values := [], num_values := 0, tup_rid := INVALID_RID\<rparr>"

definition tuple_set_value :: "tuple \<Rightarrow> int \<Rightarrow> val \<Rightarrow> error_code \<times> tuple" where
  "tuple_set_value t i v =
     (if i < 0 \<or> num_values t \<le> i then (DB_INVALID_ARGUMENT, t)
      else (DB_OK, t\<lparr>tup_values := (tup_values t)[nat i := value_copy (Some v)]\<rparr>))"

definition tuple_get_value :: "tuple \<Rightarrow> int \<Rightarrow> val option" where
  "tuple_get_value t i = (if i < 0 \<or> num_values t \<le> i then None else Some (tup_values t ! nat i))"

definition str_bytes :: "val \<Rightarrow> cstring" where
  "str_bytes v = (case v of V_Varchar (Some s) \<Rightarrow> s | _ \<Rightarrow> [])"

text \<open>The loop of \<open>tuple_serialized_size\<close> over the columns from index i on.\<close>

fun size_loop :: "tuple \<Rightarrow> column_def list \<Rightarrow> nat \<Rightarrow> nat \<Rightarrow> nat" where
  "size_loop t [] i sz = sz"
| "size_loop t (c # cs) i sz =
     size_loop t cs (Suc i)
       (if col_type c = TYPE_VARCHAR then
          if col_idx_valid t (int i) \<and> \<not> is_column_null t (int i) then
            u32 (sz + 4 + u32 (length (str_bytes (tup_values t ! i))))
          else u32 (sz + 4)
        else sz)"

definition tuple_serialized_size :: "tuple \<Rightarrow> schema \<Rightarrow> nat" where
  "tuple_serialized_size t s = size_loop t (schema_cols s) 0 (u32 (null_bitmap_size s + fixed_size s))"

section \<open>Serialisation\<close>

text \<open>The bytes of the union members \<open>int_val\<close>, \<open>float_val\<close> (8 bytes) and \<open>bool_val\<close> (1 byte).\<close>

fun union_bytes :: "nat \<Rightarrow> val \<Rightarrow> byte list option" where
  "union_bytes n (V_Int i) = Some (take n (le_bytes 8 (pattern 64 i)))"
| "union_bytes n (V_Float d) = Some (take n (le_bytes 8 (unat d)))"
| "union_bytes n (V_Bool b) = (if n = 1 then Some [if b then 1 else 0] else None)"
| "union_bytes n (V_Varchar s) = None"
| "union_bytes n V_Null = None"

fun bitmap_loop :: "tuple \<Rightarrow> nat list \<Rightarrow> buffer \<Rightarrow> buffer" where
  "bitmap_loop t [] m = m"
| "bitmap_loop t (i # is) m =
     bitmap_loop t is (if is_column_null t (int i) then m(i div 8 := or (m (i div 8)) (push_bit (i mod 8) 1)) else m)"

fun fixed_loop :: "tuple \<Rightarrow> nat \<Rightarrow> column_def list \<Rightarrow> nat \<Rightarrow> buffer \<Rightarrow> buffer option" where
  "fixed_loop t off [] i m = Some m"
| "fixed_loop t off (c # cs) i m =
     (if col_type c = TYPE_VARCHAR \<or> is_column_null t (int i) \<or> col_type c = TYPE_NULL then fixed_loop t off cs (Suc i) m
      else
        case union_bytes (schema_column_fixed_size (col_type c)) (tup_values t ! i) of
          None \<Rightarrow> None
        | Some bs \<Rightarrow> fixed_loop t off cs (Suc i) (mem_write m (off + col_fixed_offset c) bs))"

fun var_loop :: "tuple \<Rightarrow> column_def list \<Rightarrow> nat \<Rightarrow> nat \<Rightarrow> buffer \<Rightarrow> buffer \<times> nat" where
  "var_loop t [] i off m = (m, off)"
| "var_loop t (c # cs) i off m =
     (if col_type c \<noteq> TYPE_VARCHAR then var_loop t cs (Suc i) off m
      else if is_column_null t (int i) then var_loop t cs (Suc i) (u32 (off + 4)) (put_u 4 m off 0)
      else
        let s = str_bytes (tup_values t ! i); n = u32 (length s); m = put_u 4 m off n; off = u32 (off + 4)
        in if 0 < n then var_loop t cs (Suc i) (u32 (off + n)) (mem_write m off (take n s))
           else var_loop t cs (Suc i) off m)"

definition tuple_serialize :: "tuple \<Rightarrow> schema \<Rightarrow> buffer \<Rightarrow> (buffer \<times> nat) option" where
  "tuple_serialize t s m =
     (let bsize = null_bitmap_size s;
          m = bitmap_loop t [0..<nat (num_columns s)] (mem_write m 0 (replicate bsize 0))
      in map_option (var_loop t (schema_cols s) 0 (u32 (bsize + fixed_size s))) (fixed_loop t bsize (schema_cols s) 0 m))"

section \<open>Deserialisation\<close>

definition null_bit :: "buffer \<Rightarrow> nat \<Rightarrow> bool" where
  "null_bit m i \<longleftrightarrow> and (m (i div 8)) (push_bit (i mod 8) 1) \<noteq> 0"

text \<open>The value of a fixed column; None for a byte that is not a \<open>bool\<close>.\<close>

fun read_fixed :: "buffer \<Rightarrow> nat \<Rightarrow> type_id \<Rightarrow> val option" where
  "read_fixed m off TYPE_INTEGER = Some (value_make_integer (get_s 8 m off))"
| "read_fixed m off TYPE_FLOAT = Some (value_make_float (of_nat (get_u 8 m off)))"
| "read_fixed m off TYPE_BOOLEAN =
     (if m off = 0 then Some (value_make_boolean False) else if m off = 1 then Some (value_make_boolean True) else None)"
| "read_fixed m off TYPE_VARCHAR = None"
| "read_fixed m off TYPE_NULL = None"

fun defixed_loop :: "buffer \<Rightarrow> nat \<Rightarrow> column_def list \<Rightarrow> nat \<Rightarrow> val list \<Rightarrow> val list option" where
  "defixed_loop m off [] i vs = Some vs"
| "defixed_loop m off (c # cs) i vs =
     (if col_type c = TYPE_VARCHAR then defixed_loop m off cs (Suc i) vs
      else if null_bit m i then defixed_loop m off cs (Suc i) (vs[i := value_make_null])
      else if col_type c = TYPE_NULL then defixed_loop m off cs (Suc i) vs
      else
        case read_fixed m (off + col_fixed_offset c) (col_type c) of
          None \<Rightarrow> None
        | Some v \<Rightarrow> defixed_loop m off cs (Suc i) (vs[i := v]))"

text \<open>The sum \<open>offset + sizeof(uint32_t)\<close> has type \<open>size_t\<close> and does not wrap; \<open>offset + str_len\<close> does.\<close>

fun devar_loop :: "buffer \<Rightarrow> nat \<Rightarrow> column_def list \<Rightarrow> nat \<Rightarrow> nat \<Rightarrow> val list \<Rightarrow> error_code \<times> val list" where
  "devar_loop m sz [] i off vs = (DB_OK, vs)"
| "devar_loop m sz (c # cs) i off vs =
     (if col_type c \<noteq> TYPE_VARCHAR then devar_loop m sz cs (Suc i) off vs
      else if null_bit m i then
        let vs = vs[i := value_make_null]
        in if sz < off + 4 then (DB_IO_ERROR, vs)
           else devar_loop m sz cs (Suc i) (u32 (u32 (off + 4) + get_u 4 m off)) vs
      else if sz < off + 4 then (DB_IO_ERROR, vs)
      else
        let n = get_u 4 m off; off = u32 (off + 4)
        in if 0 < n then
             if sz < u32 (off + n) then (DB_IO_ERROR, vs)
             else devar_loop m sz cs (Suc i) (u32 (off + n))
                    (vs[i := value_make_varchar (Some (takeWhile (\<lambda>b. b \<noteq> 0) (mem_read m off n)))])
           else devar_loop m sz cs (Suc i) off (vs[i := value_make_varchar (Some [])]))"

definition tuple_deserialize :: "tuple \<Rightarrow> schema \<Rightarrow> buffer \<Rightarrow> nat \<Rightarrow> (error_code \<times> tuple) option" where
  "tuple_deserialize t s m sz =
     (let (rc, t) = tuple_create t (num_columns s)
      in if rc \<noteq> DB_OK then Some (rc, t)
         else
           case defixed_loop m (null_bitmap_size s) (schema_cols s) 0 (tup_values t) of
             None \<Rightarrow> None
           | Some vs \<Rightarrow>
               let (rc, vs) = devar_loop m sz (schema_cols s) 0 (u32 (null_bitmap_size s + fixed_size s)) vs
               in Some (rc, t\<lparr>tup_values := vs\<rparr>))"

section \<open>The layout of a schema\<close>

fun fixed_sum :: "column_def list \<Rightarrow> nat" where
  "fixed_sum [] = 0"
| "fixed_sum (c # cs) = schema_column_fixed_size (col_type c) + fixed_sum cs"

fun laid :: "nat \<Rightarrow> column_def list \<Rightarrow> bool" where
  "laid off [] = True"
| "laid off (c # cs) =
     ((col_type c \<noteq> TYPE_VARCHAR \<longrightarrow> col_fixed_offset c = off) \<and> laid (off + schema_column_fixed_size (col_type c)) cs)"

definition schema_ok :: "schema \<Rightarrow> bool" where
  "schema_ok s \<longleftrightarrow> 0 < num_columns s \<and> num_columns s = int (length (columns s)) \<and> laid 0 (columns s) \<and>
     fixed_size s = fixed_sum (columns s) \<and> null_bitmap_size s = (length (columns s) + 7) div 8"

lemma build_cols_laid:
  assumes "off + fixed_sum cs < 2 ^ 32" "build_cols cs off vc = (cs', off', vc')"
  shows "laid off cs' \<and> off' = off + fixed_sum cs \<and> fixed_sum cs' = fixed_sum cs \<and>
    map col_type cs' = map col_type cs \<and> map col_name cs' = map col_name cs \<and>
    map col_max_length cs' = map col_max_length cs \<and> map col_nullable cs' = map col_nullable cs"
  using assms
proof (induction cs arbitrary: off vc cs' off' vc')
  case (Cons c cs)
  let ?o = "if col_type c = TYPE_VARCHAR then off else u32 (off + schema_column_fixed_size (col_type c))"
  obtain ds o1 v1 where b: "build_cols cs ?o (if col_type c = TYPE_VARCHAR then vc + 1 else vc) = (ds, o1, v1)"
    by (metis prod_cases3)
  have o: "?o = off + schema_column_fixed_size (col_type c)" using Cons.prems(1) by (auto simp: u32_id)
  then have "?o + fixed_sum cs < 2 ^ 32" using Cons.prems(1) by simp
  from Cons.IH [OF this b] show ?case using Cons.prems(2) b o by (auto split: if_splits)
qed simp

lemma schema_create_ok:
  assumes n: "n = int (length cols)" "cols \<noteq> []" and sz: "fixed_sum cols < 2 ^ 32"
    and c: "schema_create s0 cols n = (rc, s)"
  shows "rc = DB_OK \<and> schema_ok s \<and> map col_type (columns s) = map col_type cols \<and>
    map col_name (columns s) = map col_name cols \<and> map col_max_length (columns s) = map col_max_length cols"
proof -
  obtain cs off vc where b: "build_cols cols 0 0 = (cs, off, vc)" by (metis prod_cases3)
  have l: "laid 0 cs \<and> off = fixed_sum cols \<and> fixed_sum cs = fixed_sum cols \<and> map col_type cs = map col_type cols \<and>
    map col_name cs = map col_name cols \<and> map col_max_length cs = map col_max_length cols"
    using build_cols_laid [of 0 cols 0 cs off vc] sz b by simp
  then have "length cs = length cols" by (metis length_map)
  moreover have "nat ((int (length cols) + 7) div 8) = (length cols + 7) div 8"
    by (metis nat_int of_nat_add of_nat_numeral zdiv_int)
  ultimately show ?thesis using c n b l
    by (auto simp: schema_create_def schema_build_def schema_cols_def schema_ok_def Let_def)
qed

section \<open>The bytes of a tuple\<close>

definition value_fits :: "column_def \<Rightarrow> val \<Rightarrow> bool" where
  "value_fits c v \<longleftrightarrow>
     (case v of
        V_Null \<Rightarrow> True
      | V_Int i \<Rightarrow> col_type c = TYPE_INTEGER \<and> in_range 64 i
      | V_Float d \<Rightarrow> col_type c = TYPE_FLOAT
      | V_Bool b \<Rightarrow> col_type c = TYPE_BOOLEAN
      | V_Varchar s \<Rightarrow> col_type c = TYPE_VARCHAR \<and> 0 \<notin> set (str_bytes v))"

fun fits :: "tuple \<Rightarrow> column_def list \<Rightarrow> nat \<Rightarrow> bool" where
  "fits t [] i = True"
| "fits t (c # cs) i = (value_fits c (tup_values t ! i) \<and> fits t cs (Suc i))"

definition tuple_ok :: "tuple \<Rightarrow> schema \<Rightarrow> bool" where
  "tuple_ok t s \<longleftrightarrow> num_values t = num_columns s \<and> length (tup_values t) = length (columns s) \<and> fits t (columns s) 0"

text \<open>A NULL string pointer is stored as the empty string.\<close>

definition stored :: "val \<Rightarrow> val" where
  "stored v = (if v = V_Varchar None then V_Varchar (Some []) else v)"

fun var_sum :: "tuple \<Rightarrow> column_def list \<Rightarrow> nat \<Rightarrow> nat" where
  "var_sum t [] i = 0"
| "var_sum t (c # cs) i =
     (if col_type c = TYPE_VARCHAR then 4 + length (str_bytes (tup_values t ! i)) else 0) + var_sum t cs (Suc i)"

definition tuple_bytes :: "tuple \<Rightarrow> schema \<Rightarrow> nat" where
  "tuple_bytes t s = null_bitmap_size s + fixed_size s + var_sum t (columns s) 0"

subsection \<open>The NULL bitmap\<close>

lemma null_bit_iff: "null_bit m i \<longleftrightarrow> bit (m (i div 8)) (i mod 8)"
  by (simp add: null_bit_def bit_iff_and_push_bit_not_eq_0)

lemma null_bit_set: "null_bit (m(i div 8 := or (m (i div 8)) (push_bit (i mod 8) 1))) j \<longleftrightarrow> null_bit m j \<or> i = j"
proof (cases "i div 8 = j div 8")
  case True
  have "i mod 8 < 8" "j mod 8 < 8" by simp_all
  moreover have "i = j \<longleftrightarrow> i mod 8 = j mod 8" using True by (metis div_mult_mod_eq)
  ultimately show ?thesis using True
    by (auto simp: null_bit_iff bit_or_iff bit_exp_iff)
next
  case False
  then show ?thesis by (auto simp: null_bit_iff)
qed

lemma bitmap_loop_bit: "null_bit (bitmap_loop t is m) j \<longleftrightarrow> null_bit m j \<or> j \<in> set is \<and> is_column_null t (int j)"
proof (induction "is" arbitrary: m)
  case (Cons i "is")
  show ?case by (cases "is_column_null t (int i)") (auto simp only: bitmap_loop.simps if_True if_False Cons.IH null_bit_set list.set)
qed simp

lemma bitmap_loop_outside: "\<forall>i \<in> set is. i div 8 < b \<Longrightarrow> b \<le> x \<Longrightarrow> bitmap_loop t is m x = m x"
proof (induction "is" arbitrary: m)
  case (Cons i "is")
  then show ?case by (cases "is_column_null t (int i)") auto
qed simp

subsection \<open>The fixed fields\<close>

fun fixed_holds :: "tuple \<Rightarrow> nat \<Rightarrow> column_def list \<Rightarrow> nat \<Rightarrow> buffer \<Rightarrow> bool" where
  "fixed_holds t b [] i m = True"
| "fixed_holds t b (c # cs) i m =
     ((col_type c \<noteq> TYPE_VARCHAR \<and> \<not> is_column_null t (int i) \<longrightarrow>
         union_bytes (schema_column_fixed_size (col_type c)) (tup_values t ! i) =
         Some (mem_read m (b + col_fixed_offset c) (schema_column_fixed_size (col_type c)))) \<and>
      fixed_holds t b cs (Suc i) m)"

lemma fixed_holds_cong:
  assumes "laid o1 cs" "\<And>x. b + o1 \<le> x \<Longrightarrow> x < b + o1 + fixed_sum cs \<Longrightarrow> m x = m' x" "fixed_holds t b cs i m"
  shows "fixed_holds t b cs i m'"
  using assms
proof (induction cs arbitrary: o1 i)
  case (Cons c cs)
  let ?n = "schema_column_fixed_size (col_type c)"
  have "mem_read m (b + o1) ?n = mem_read m' (b + o1) ?n"
    by (rule mem_read_cong) (use Cons.prems(2) in simp)
  moreover have "fixed_holds t b cs (Suc i) m'"
    by (rule Cons.IH [of "o1 + ?n"]) (use Cons.prems in auto)
  ultimately show ?case using Cons.prems(1,3) by auto
qed simp

lemma union_bytes_fits:
  assumes "value_fits c v" "v \<noteq> V_Null" "col_type c \<noteq> TYPE_VARCHAR"
  obtains bs where "union_bytes (schema_column_fixed_size (col_type c)) v = Some bs"
    "length bs = schema_column_fixed_size (col_type c)"
  using assms by (cases v) (auto simp: value_fits_def)

lemma fixed_loop_holds:
  assumes "laid o1 cs" "fits t cs i"
  shows "\<exists>m'. fixed_loop t b cs i m = Some m' \<and> fixed_holds t b cs i m' \<and>
    (\<forall>x. x < b + o1 \<or> b + o1 + fixed_sum cs \<le> x \<longrightarrow> m' x = m x)"
  using assms
proof (induction cs arbitrary: o1 i m)
  case (Cons c cs)
  let ?n = "schema_column_fixed_size (col_type c)"
  have rest: "laid (o1 + ?n) cs" "fits t cs (Suc i)" using Cons.prems by auto
  show ?case
  proof (cases "col_type c = TYPE_VARCHAR \<or> is_column_null t (int i)")
    case True
    obtain m' where "fixed_loop t b cs (Suc i) m = Some m'" "fixed_holds t b cs (Suc i) m'"
      "\<forall>x. x < b + (o1 + ?n) \<or> b + (o1 + ?n) + fixed_sum cs \<le> x \<longrightarrow> m' x = m x"
      using Cons.IH [OF rest] by blast
    then show ?thesis using True by (intro exI [of _ m']) auto
  next
    case False
    then have v: "tup_values t ! i \<noteq> V_Null" by (auto simp: is_column_null_def)
    then obtain bs where bs: "union_bytes ?n (tup_values t ! i) = Some bs" "length bs = ?n"
      using union_bytes_fits False Cons.prems(2) by (metis fits.simps(2))
    have nn: "col_type c \<noteq> TYPE_NULL"
      using v Cons.prems(2) by (cases "tup_values t ! i") (auto simp: value_fits_def)
    define m1 where "m1 = mem_write m (b + o1) bs"
    obtain m' where m': "fixed_loop t b cs (Suc i) m1 = Some m'" "fixed_holds t b cs (Suc i) m'"
      "\<forall>x. x < b + (o1 + ?n) \<or> b + (o1 + ?n) + fixed_sum cs \<le> x \<longrightarrow> m' x = m1 x"
      using Cons.IH [OF rest] by blast
    have "mem_read m' (b + o1) ?n = mem_read m1 (b + o1) ?n"
      by (rule mem_read_cong) (use m'(3) in simp)
    then have "mem_read m' (b + o1) ?n = bs" by (simp add: m1_def mem_simps bs(2))
    then show ?thesis using False nn m' bs Cons.prems(1)
      by (intro exI [of _ m']) (auto simp: m1_def mem_simps)
  qed
qed simp

definition cell :: "tuple \<Rightarrow> nat \<Rightarrow> val" where
  "cell t j = (if is_column_null t (int j) then V_Null else stored (tup_values t ! j))"

lemma cell_null [simp]: "is_column_null t (int j) \<Longrightarrow> cell t j = V_Null"
  by (simp add: cell_def)

lemma pattern_64: "pattern 64 i < 256 ^ 8"
  using pattern_less [of 64 i] by simp

lemma read_fixed_holds:
  assumes "value_fits c v" "v \<noteq> V_Null" "col_type c \<noteq> TYPE_VARCHAR"
    "union_bytes (schema_column_fixed_size (col_type c)) v = Some (mem_read m off (schema_column_fixed_size (col_type c)))"
  shows "read_fixed m off (col_type c) = Some (stored v)"
proof (cases v)
  case (V_Int i)
  then have c: "col_type c = TYPE_INTEGER" "in_range 64 i" using assms(1) by (simp_all add: value_fits_def)
  have "mem_read m off 8 = le_bytes 8 (pattern 64 i)" using assms(4) c V_Int by simp
  then have "get_u 8 m off = pattern 64 i mod 256 ^ 8" by (simp only: get_u_def le_nat_le_bytes)
  then have "get_u 8 m off = pattern 64 i" using pattern_64 [of i] by (simp only: mod_less)
  then show ?thesis using c V_Int by (simp add: get_s_def signed_pattern stored_def value_make_integer_def)
next
  case (V_Float d)
  then have c: "col_type c = TYPE_FLOAT" using assms(1) by (simp add: value_fits_def)
  have "unat d < 2 ^ 64" using unsigned_less [of d, where ?'a = nat] by simp
  moreover have "mem_read m off 8 = le_bytes 8 (unat d)" using assms(4) c V_Float by simp
  ultimately have "get_u 8 m off = unat d" by (simp add: get_u_def le_nat_le_bytes del: le_bytes.simps)
  then show ?thesis using c V_Float by (simp add: stored_def value_make_float_def)
next
  case (V_Bool b)
  then have c: "col_type c = TYPE_BOOLEAN" using assms(1) by (simp add: value_fits_def)
  have "mem_read m off 1 = [if b then 1 else 0]" using assms(4) c V_Bool by simp
  then have "m off = (if b then 1 else 0)" by (simp add: mem_read_def)
  then show ?thesis using c V_Bool by (simp add: stored_def value_make_boolean_def)
qed (use assms in \<open>simp_all add: value_fits_def\<close>)

lemma defixed_loop_holds:
  assumes "fixed_holds t b cs i m" "fits t cs i" "i + length cs \<le> length vs"
    "\<And>j. i \<le> j \<Longrightarrow> j < i + length cs \<Longrightarrow> null_bit m j = is_column_null t (int j)"
  shows "\<exists>vs'. defixed_loop m b cs i vs = Some vs' \<and> length vs' = length vs \<and>
    (\<forall>j < length vs. vs' ! j = (if i \<le> j \<and> j < i + length cs \<and> col_type (cs ! (j - i)) \<noteq> TYPE_VARCHAR then cell t j else vs ! j))"
  using assms
proof (induction cs arbitrary: i vs)
  case (Cons c cs)
  have nb: "null_bit m i = is_column_null t (int i)" using Cons.prems(4) [of i] by simp
  define vs1 where "vs1 = (if col_type c = TYPE_VARCHAR then vs else vs[i := cell t i])"
  have step: "defixed_loop m b (c # cs) i vs = defixed_loop m b cs (Suc i) vs1"
  proof (cases "col_type c = TYPE_VARCHAR \<or> is_column_null t (int i)")
    case True
    then show ?thesis using nb by (auto simp: vs1_def value_make_null_def)
  next
    case False
    then have v: "tup_values t ! i \<noteq> V_Null" by (auto simp: is_column_null_def)
    have f: "value_fits c (tup_values t ! i)" using Cons.prems(2) by simp
    have nn: "col_type c \<noteq> TYPE_NULL" using v f by (cases "tup_values t ! i") (auto simp: value_fits_def)
    have "read_fixed m (b + col_fixed_offset c) (col_type c) = Some (cell t i)"
      using read_fixed_holds [OF f v] Cons.prems(1) False by (simp add: cell_def)
    then show ?thesis using False nb nn by (simp add: vs1_def)
  qed
  have len: "length vs1 = length vs" by (simp add: vs1_def)
  then have l1: "Suc i + length cs \<le> length vs1" using Cons.prems(3) by simp
  have f1: "fixed_holds t b cs (Suc i) m" "fits t cs (Suc i)" using Cons.prems(1,2) by simp_all
  have n1: "null_bit m j = is_column_null t (int j)" if "Suc i \<le> j" "j < Suc i + length cs" for j
    using Cons.prems(4) [of j] that by simp
  obtain vs' where "defixed_loop m b cs (Suc i) vs1 = Some vs'" "length vs' = length vs1"
    "\<forall>j < length vs1. vs' ! j =
      (if Suc i \<le> j \<and> j < Suc i + length cs \<and> col_type (cs ! (j - Suc i)) \<noteq> TYPE_VARCHAR then cell t j else vs1 ! j)"
    using Cons.IH [OF f1 l1 n1] by blast
  moreover note len
  moreover have "(c # cs) ! (j - i) = cs ! (j - Suc i)" if "Suc i \<le> j" for j using that by (simp add: nth_Cons')
  moreover have "vs1 ! j = (if j = i \<and> col_type c \<noteq> TYPE_VARCHAR then cell t j else vs ! j)" if "j < length vs" for j
    using that by (auto simp: vs1_def nth_list_update)
  ultimately show ?case unfolding step
    by (intro exI [of _ vs']) (auto simp: nth_Cons' dest: le_neq_implies_less)
qed auto

subsection \<open>The strings\<close>

fun var_holds :: "tuple \<Rightarrow> column_def list \<Rightarrow> nat \<Rightarrow> nat \<Rightarrow> buffer \<Rightarrow> bool" where
  "var_holds t [] i off m = True"
| "var_holds t (c # cs) i off m =
     (if col_type c = TYPE_VARCHAR then
        let s = str_bytes (cell t i)
        in get_u 4 m off = length s \<and> mem_read m (off + 4) (length s) = s \<and> var_holds t cs (Suc i) (off + 4 + length s) m
      else var_holds t cs (Suc i) off m)"

fun cell_sum :: "tuple \<Rightarrow> column_def list \<Rightarrow> nat \<Rightarrow> nat" where
  "cell_sum t [] i = 0"
| "cell_sum t (c # cs) i =
     (if col_type c = TYPE_VARCHAR then 4 + length (str_bytes (cell t i)) else 0) + cell_sum t cs (Suc i)"

lemma var_loop_holds:
  assumes "off + cell_sum t cs i < 2 ^ 32"
  shows "\<exists>m'. var_loop t cs i off m = (m', off + cell_sum t cs i) \<and> var_holds t cs i off m' \<and>
    (\<forall>x. x < off \<or> off + cell_sum t cs i \<le> x \<longrightarrow> m' x = m x)"
  using assms
proof (induction cs arbitrary: i off m)
  case (Cons c cs)
  show ?case
  proof (cases "col_type c = TYPE_VARCHAR")
    case False
    then show ?thesis using Cons by auto
  next
    case True
    define s where "s = str_bytes (cell t i)"
    define m1 where "m1 = mem_write (put_u 4 m off (length s)) (off + 4) s"
    have lt: "off + 4 + length s + cell_sum t cs (Suc i) < 2 ^ 32" using Cons.prems True by (simp add: s_def)
    have step: "var_loop t (c # cs) i off m = var_loop t cs (Suc i) (off + 4 + length s) m1"
    proof (cases "is_column_null t (int i)")
      case True
      then show ?thesis using \<open>col_type c = TYPE_VARCHAR\<close> lt by (simp add: m1_def s_def str_bytes_def u32_id)
    next
      case False
      then have "str_bytes (tup_values t ! i) = s" by (simp add: s_def cell_def stored_def str_bytes_def)
      then show ?thesis using False \<open>col_type c = TYPE_VARCHAR\<close> lt by (auto simp: m1_def u32_id Let_def)
    qed
    obtain m' where m': "var_loop t cs (Suc i) (off + 4 + length s) m1 = (m', off + 4 + length s + cell_sum t cs (Suc i))"
      "var_holds t cs (Suc i) (off + 4 + length s) m'"
      "\<forall>x. x < off + 4 + length s \<or> off + 4 + length s + cell_sum t cs (Suc i) \<le> x \<longrightarrow> m' x = m1 x"
      using Cons.IH [OF lt] by blast
    have "mem_read m' off 4 = mem_read m1 off 4" by (rule mem_read_cong) (use m'(3) in simp)
    then have "get_u 4 m' off = length s"
      using lt by (simp add: get_u_def m1_def mem_simps put_u_def le_nat_le_bytes)
    moreover have "mem_read m' (off + 4) (length s) = mem_read m1 (off + 4) (length s)"
      by (rule mem_read_cong) (use m'(3) in simp)
    ultimately show ?thesis using m' step True
      by (intro exI [of _ m']) (auto simp: m1_def mem_simps s_def)
  qed
qed simp

lemma cell_varchar:
  assumes "col_type c = TYPE_VARCHAR" "value_fits c (tup_values t ! i)" "\<not> is_column_null t (int i)"
  shows "cell t i = V_Varchar (Some (str_bytes (cell t i)))" "0 \<notin> set (str_bytes (cell t i))"
proof -
  have "tup_values t ! i \<noteq> V_Null" using assms(3) by (auto simp: is_column_null_def)
  then obtain s where v: "tup_values t ! i = V_Varchar s" "0 \<notin> set (str_bytes (V_Varchar s))"
    using assms(1,2) by (cases "tup_values t ! i") (auto simp: value_fits_def)
  then show "cell t i = V_Varchar (Some (str_bytes (cell t i)))" "0 \<notin> set (str_bytes (cell t i))"
    using assms(3) by (cases s; simp add: cell_def stored_def str_bytes_def)+
qed

lemma takeWhile_nonzero: "(0::byte) \<notin> set s \<Longrightarrow> takeWhile (\<lambda>b. b \<noteq> 0) s = s"
  by (metis (mono_tags, lifting) takeWhile_eq_all_conv)

lemma devar_loop_holds:
  assumes "var_holds t cs i off m" "fits t cs i" "i + length cs \<le> length vs" "off + cell_sum t cs i \<le> sz" "sz < 2 ^ 32"
    "\<And>j. i \<le> j \<Longrightarrow> j < i + length cs \<Longrightarrow> null_bit m j = is_column_null t (int j)"
  shows "\<exists>vs'. devar_loop m sz cs i off vs = (DB_OK, vs') \<and> length vs' = length vs \<and>
    (\<forall>j < length vs. vs' ! j = (if i \<le> j \<and> j < i + length cs \<and> col_type (cs ! (j - i)) = TYPE_VARCHAR then cell t j else vs ! j))"
  using assms
proof (induction cs arbitrary: i off vs)
  case (Cons c cs)
  have nb: "null_bit m i = is_column_null t (int i)" using Cons.prems(6) [of i] by simp
  define n where "n = (if col_type c = TYPE_VARCHAR then 4 + length (str_bytes (cell t i)) else 0)"
  define vs1 where "vs1 = (if col_type c = TYPE_VARCHAR then vs[i := cell t i] else vs)"
  have step: "devar_loop m sz (c # cs) i off vs = devar_loop m sz cs (Suc i) (off + n) vs1"
  proof (cases "col_type c = TYPE_VARCHAR")
    case False
    then show ?thesis by (simp add: vs1_def n_def)
  next
    case True
    define s where "s = str_bytes (cell t i)"
    have h: "get_u 4 m off = length s" "mem_read m (off + 4) (length s) = s"
      using Cons.prems(1) True by (simp_all add: s_def Let_def)
    have b: "off + 4 + length s \<le> sz" using Cons.prems(4) True by (simp add: s_def)
    show ?thesis
    proof (cases "is_column_null t (int i)")
      case True
      then have "s = []" by (simp add: s_def str_bytes_def)
      then show ?thesis using True \<open>col_type c = TYPE_VARCHAR\<close> nb h b Cons.prems(5)
        by (simp add: vs1_def n_def str_bytes_def u32_id value_make_null_def)
    next
      case False
      have c: "cell t i = V_Varchar (Some s)" "0 \<notin> set s"
        using cell_varchar [OF True _ False] Cons.prems(2) by (simp_all add: s_def)
      have "vs1 = vs[i := V_Varchar (Some s)]" "n = 4 + length s"
        using True c(1) by (simp_all add: vs1_def n_def str_bytes_def)
      then show ?thesis using False True nb h b Cons.prems(5) c(2)
        by (simp add: u32_id Let_def takeWhile_nonzero value_make_varchar_def add.assoc)
    qed
  qed
  have rest: "var_holds t cs (Suc i) (off + n) m" "off + n + cell_sum t cs (Suc i) \<le> sz"
    using Cons.prems(1,4) by (auto simp: n_def Let_def add.assoc split: if_splits)
  have len: "length vs1 = length vs" by (simp add: vs1_def)
  then have l1: "Suc i + length cs \<le> length vs1" using Cons.prems(3) by simp
  have f1: "fits t cs (Suc i)" using Cons.prems(2) by simp
  have n1: "null_bit m j = is_column_null t (int j)" if "Suc i \<le> j" "j < Suc i + length cs" for j
    using Cons.prems(6) [of j] that by simp
  obtain vs' where "devar_loop m sz cs (Suc i) (off + n) vs1 = (DB_OK, vs')" "length vs' = length vs1"
    "\<forall>j < length vs1. vs' ! j =
      (if Suc i \<le> j \<and> j < Suc i + length cs \<and> col_type (cs ! (j - Suc i)) = TYPE_VARCHAR then cell t j else vs1 ! j)"
    using Cons.IH [OF rest(1) f1 l1 rest(2) Cons.prems(5) n1] by blast
  moreover note len
  moreover have "vs1 ! j = (if j = i \<and> col_type c = TYPE_VARCHAR then cell t j else vs ! j)" if "j < length vs" for j
    using that by (auto simp: vs1_def nth_list_update)
  ultimately show ?case unfolding step
    by (intro exI [of _ vs']) (auto simp: nth_Cons' dest: le_neq_implies_less)
qed auto

section \<open>Round trip\<close>

lemma cell_sum_var_sum: "fits t cs i \<Longrightarrow> int i + int (length cs) \<le> num_values t \<Longrightarrow> cell_sum t cs i = var_sum t cs i"
proof (induction cs arbitrary: i)
  case (Cons c cs)
  have "str_bytes (cell t i) = str_bytes (tup_values t ! i)"
    using Cons.prems(2)
    by (cases "tup_values t ! i") (auto simp: cell_def is_column_null_def col_idx_valid_def stored_def str_bytes_def)
  then show ?case using Cons by simp
qed simp

lemma size_loop_sum:
  assumes "int i + int (length cs) \<le> num_values t" "sz + var_sum t cs i < 2 ^ 32"
  shows "size_loop t cs i sz = sz + var_sum t cs i"
  using assms
proof (induction cs arbitrary: i sz)
  case (Cons c cs)
  have v: "col_idx_valid t (int i)" using Cons.prems(1) by (simp add: col_idx_valid_def)
  let ?n = "if col_type c = TYPE_VARCHAR then 4 + length (str_bytes (tup_values t ! i)) else 0"
  have "is_column_null t (int i) \<Longrightarrow> str_bytes (tup_values t ! i) = []"
    using v by (cases "tup_values t ! i") (auto simp: is_column_null_def str_bytes_def)
  then have "size_loop t (c # cs) i sz = size_loop t cs (Suc i) (sz + ?n)"
    using v Cons.prems(2) by (auto simp: u32_id add.assoc)
  also have "\<dots> = sz + ?n + var_sum t cs (Suc i)"
    using Cons.prems by (intro Cons.IH) (auto simp: add.assoc)
  finally show ?case by simp
qed simp

lemma schema_cols_ok: "schema_ok s \<Longrightarrow> schema_cols s = columns s"
  by (simp add: schema_ok_def schema_cols_def)

text \<open>What a buffer holds after a tuple was written to it.\<close>

definition tuple_holds :: "tuple \<Rightarrow> schema \<Rightarrow> buffer \<Rightarrow> bool" where
  "tuple_holds t s m \<longleftrightarrow>
     (\<forall>j < length (columns s). null_bit m j \<longleftrightarrow> is_column_null t (int j)) \<and>
     fixed_holds t (null_bitmap_size s) (columns s) 0 m \<and>
     var_holds t (columns s) 0 (null_bitmap_size s + fixed_size s) m"

lemma byte_of_bit: "(j::nat) < n \<Longrightarrow> j div 8 < (n + 7) div 8"
  using div_le_mono [of "j + 8" "n + 7" 8] by simp

lemma bitmap_phase:
  assumes "j < n" "b = (n + 7) div 8"
  shows "null_bit (bitmap_loop t [0..<n] (mem_write m 0 (replicate b 0))) j \<longleftrightarrow> is_column_null t (int j)"
proof -
  have "j div 8 < b" using byte_of_bit [OF assms(1)] assms(2) by simp
  then have "\<not> null_bit (mem_write m 0 (replicate b 0)) j" by (simp add: null_bit_def mem_write_def)
  then show ?thesis using assms(1) by (simp only: bitmap_loop_bit set_upt atLeastLessThan_iff) simp
qed

lemma bitmap_phase_outside:
  assumes "b = (n + 7) div 8" "b \<le> x"
  shows "bitmap_loop t [0..<n] (mem_write m 0 (replicate b 0)) x = m x"
proof -
  have "\<forall>i \<in> set [0..<n]. i div 8 < b" using assms(1) byte_of_bit by simp
  then have "bitmap_loop t [0..<n] (mem_write m 0 (replicate b 0)) x = mem_write m 0 (replicate b 0) x"
    using assms(2) by (rule bitmap_loop_outside)
  then show ?thesis using assms(2) by (simp add: mem_simps)
qed

lemma schema_okD:
  assumes "schema_ok s"
  shows "num_columns s = int (length (columns s))" "0 < length (columns s)" "laid 0 (columns s)"
    "fixed_size s = fixed_sum (columns s)" "null_bitmap_size s = (length (columns s) + 7) div 8" "schema_cols s = columns s"
  using assms by (auto simp: schema_ok_def schema_cols_def)

lemma tuple_okD:
  assumes "tuple_ok t s" "schema_ok s"
  shows "num_values t = int (length (columns s))" "length (tup_values t) = length (columns s)" "fits t (columns s) 0"
    "cell_sum t (columns s) 0 = var_sum t (columns s) 0"
  using assms cell_sum_var_sum [of t "columns s" 0] by (simp_all add: tuple_ok_def schema_okD)

lemma tuple_serialize_holds:
  assumes ok: "schema_ok s" and t: "tuple_ok t s" and sz: "tuple_bytes t s < 2 ^ 32"
  shows "\<exists>m'. tuple_serialize t s m = Some (m', tuple_bytes t s) \<and> tuple_holds t s m' \<and> (\<forall>x \<ge> tuple_bytes t s. m' x = m x)"
proof -
  note s = schema_okD [OF ok] and t' = tuple_okD [OF t ok]
  define cs n b f where "cs = columns s" and "n = length cs" and "b = null_bitmap_size s" and "f = b + fixed_size s"
  have tot: "tuple_bytes t s = f + cell_sum t cs 0" by (simp add: tuple_bytes_def f_def b_def cs_def t'(4))
  have b: "b = (n + 7) div 8" by (simp add: b_def n_def cs_def s(5))
  define m1 where "m1 = bitmap_loop t [0..<n] (mem_write m 0 (replicate b 0))"
  obtain m2 where m2: "fixed_loop t b cs 0 m1 = Some m2" "fixed_holds t b cs 0 m2" "\<forall>x. x < b \<or> f \<le> x \<longrightarrow> m2 x = m1 x"
    using fixed_loop_holds [OF s(3) t'(3), of b m1] by (auto simp: f_def cs_def s(4))
  obtain m3 where m3: "var_loop t cs 0 f m2 = (m3, f + cell_sum t cs 0)" "var_holds t cs 0 f m3"
    "\<forall>x. x < f \<or> f + cell_sum t cs 0 \<le> x \<longrightarrow> m3 x = m2 x"
    using var_loop_holds [of f t cs 0 m2] sz unfolding tot by blast
  have "u32 f = f" using sz tot by (intro u32_id) simp
  then have "tuple_serialize t s m = Some (m3, tuple_bytes t s)"
    using m2(1) m3(1) by (simp add: tuple_serialize_def s(1,6) cs_def f_def b_def n_def m1_def tot [unfolded cs_def f_def b_def])
  moreover have "tuple_holds t s m3"
    unfolding tuple_holds_def cs_def [symmetric] b_def [symmetric] f_def [symmetric] n_def [symmetric]
  proof (intro conjI allI impI)
    fix j assume j: "j < n"
    then have "j div 8 < b" unfolding b by (rule byte_of_bit)
    then have "m3 (j div 8) = m1 (j div 8)" using m2(3) m3(3) by (simp add: f_def)
    then show "null_bit m3 j = is_column_null t (int j)"
      using bitmap_phase [OF j b] by (simp add: m1_def null_bit_def)
  next
    show "fixed_holds t b cs 0 m3"
      using fixed_holds_cong [of 0 cs b m2 m3 t 0] s(3,4) m2(2) m3(3) by (simp add: cs_def f_def)
  qed (rule m3(2))
  moreover have "m3 x = m x" if "tuple_bytes t s \<le> x" for x
    using that m2(3) m3(3) bitmap_phase_outside [OF b, of x t m] tot by (simp add: m1_def f_def)
  ultimately show ?thesis by blast
qed

lemma tuple_deserialize_holds:
  assumes ok: "schema_ok s" and t: "tuple_ok t s" and sz: "tuple_bytes t s < 2 ^ 32" and h: "tuple_holds t s m"
  shows "\<exists>t'. tuple_deserialize t0 s m (tuple_bytes t s) = Some (DB_OK, t') \<and> tup_values t' = map stored (tup_values t)"
proof -
  note s = schema_okD [OF ok] and t' = tuple_okD [OF t ok]
  define cs n b f where "cs = columns s" and "n = length cs" and "b = null_bitmap_size s" and "f = b + fixed_size s"
  have tot: "tuple_bytes t s = f + cell_sum t cs 0" by (simp add: tuple_bytes_def f_def b_def cs_def t'(4))
  have h': "\<And>j. 0 \<le> j \<Longrightarrow> j < 0 + length cs \<Longrightarrow> null_bit m j = is_column_null t (int j)"
    "fixed_holds t b cs 0 m" "var_holds t cs 0 f m" and fit: "fits t cs 0"
    using h t'(3) by (simp_all add: tuple_holds_def cs_def b_def f_def)
  define vs0 where "vs0 = replicate n V_Null"
  have l0: "0 + length cs \<le> length vs0" by (simp add: vs0_def n_def)
  obtain vs1 where vs1: "defixed_loop m b cs 0 vs0 = Some vs1" "length vs1 = n"
    "\<forall>j < n. vs1 ! j = (if col_type (cs ! j) \<noteq> TYPE_VARCHAR then cell t j else vs0 ! j)"
    using defixed_loop_holds [OF h'(2) fit l0 h'(1)] by (auto simp: vs0_def n_def)
  have l1: "0 + length cs \<le> length vs1" by (simp add: vs1(2) n_def)
  obtain vs2 where vs2: "devar_loop m (tuple_bytes t s) cs 0 f vs1 = (DB_OK, vs2)" "length vs2 = n"
    "\<forall>j < n. vs2 ! j = (if col_type (cs ! j) = TYPE_VARCHAR then cell t j else vs1 ! j)"
    using devar_loop_holds [OF h'(3) fit l1 _ sz h'(1)] tot vs1(2) by (auto simp: n_def)
  have "vs2 = map stored (tup_values t)"
  proof (rule nth_equalityI)
    show "length vs2 = length (map stored (tup_values t))" by (simp add: vs2(2) n_def cs_def t'(2))
    fix j assume "j < length vs2"
    then have j: "j < n" by (simp add: vs2(2))
    then have "vs2 ! j = cell t j" using vs1(3) vs2(3) by simp
    also have "\<dots> = stored (tup_values t ! j)"
      using j t'(1) by (cases "tup_values t ! j") (auto simp: cell_def is_column_null_def col_idx_valid_def stored_def n_def cs_def)
    finally show "vs2 ! j = map stored (tup_values t) ! j" using j t'(2) by (simp add: n_def cs_def)
  qed
  moreover have "u32 f = f" using sz tot by (intro u32_id) simp
  then have "tuple_deserialize t0 s m (tuple_bytes t s) =
      Some (DB_OK, t0\<lparr>tup_values := vs2, num_values := int n, tup_rid := INVALID_RID\<rparr>)"
    using vs1(1) vs2(1) s(2)
    by (simp add: tuple_deserialize_def tuple_create_def s(1,6) b_def f_def vs0_def value_make_null_def n_def cs_def)
  ultimately show ?thesis by simp
qed

lemma tuple_serialized_size_sum:
  assumes "schema_ok s" "tuple_ok t s" "tuple_bytes t s < 2 ^ 32"
  shows "tuple_serialized_size t s = tuple_bytes t s"
  using size_loop_sum [of 0 "columns s" t "null_bitmap_size s + fixed_size s"] assms(3)
  by (simp add: tuple_serialized_size_def schema_okD [OF assms(1)] tuple_okD [OF assms(2,1)] tuple_bytes_def u32_id)

text \<open>C14. What \<open>tuple_serialize\<close> writes, \<open>tuple_deserialize\<close> reads back, for a schema that
  \<open>schema_create\<close> built and a tuple whose values have the types of their columns (or are NULL): the
  size is the one \<open>tuple_serialized_size\<close> announces, no byte at or past it changes, and the values that
  come back are those of the tuple, except that a NULL string pointer has become the empty string.\<close>

theorem tuple_round_trip:
  assumes sch: "schema_create s0 cols (int (length cols)) = (rc, s)" and ne: "cols \<noteq> []"
    and t: "tuple_ok t s" and sz: "fixed_sum cols < 2 ^ 32" "tuple_bytes t s < 2 ^ 32"
  shows "\<exists>m' t'. tuple_serialize t s m = Some (m', tuple_bytes t s) \<and> tuple_serialized_size t s = tuple_bytes t s \<and>
    (\<forall>x \<ge> tuple_bytes t s. m' x = m x) \<and>
    tuple_deserialize t0 s m' (tuple_bytes t s) = Some (DB_OK, t') \<and> tup_values t' = map stored (tup_values t)"
proof -
  have ok: "schema_ok s" using schema_create_ok [OF refl ne sz(1) sch] by blast
  obtain m' where "tuple_serialize t s m = Some (m', tuple_bytes t s)" "tuple_holds t s m'" "\<forall>x \<ge> tuple_bytes t s. m' x = m x"
    using tuple_serialize_holds [OF ok t sz(2)] by blast
  then show ?thesis
    using tuple_deserialize_holds [OF ok t sz(2), of m'] tuple_serialized_size_sum [OF ok t sz(2)] by blast
qed

text \<open>A row of a table (id INTEGER, name VARCHAR, ok BOOLEAN).\<close>

definition demo_column :: "string \<Rightarrow> type_id \<Rightarrow> nat \<Rightarrow> column_def" where
  "demo_column name ty len =
     \<lparr>col_name = cstr name, col_type = ty, col_nullable = True, col_max_length = len, col_fixed_offset = 0, col_var_index = 0\<rparr>"

definition demo_columns :: "column_def list" where
  "demo_columns = [demo_column ''id'' TYPE_INTEGER 0, demo_column ''name'' TYPE_VARCHAR 32, demo_column ''ok'' TYPE_BOOLEAN 0]"

definition demo_schema :: schema where
  "demo_schema =
     snd (schema_create \<lparr>columns = [], num_columns = 0, fixed_size = 0, var_cols = 0, null_bitmap_size = 0\<rparr> demo_columns 3)"

definition demo_tuple :: tuple where
  "demo_tuple = \<lparr>tup_values = [V_Int (-7), V_Varchar (Some (cstr ''ann'')), V_Null], num_values = 3, tup_rid = INVALID_RID\<rparr>"

lemmas demo_row_defs = demo_schema_def demo_columns_def demo_column_def schema_create_def schema_build_def schema_cols_def

lemma demo_schema_create:
  "schema_create \<lparr>columns = [], num_columns = 0, fixed_size = 0, var_cols = 0, null_bitmap_size = 0\<rparr> demo_columns 3 =
   (DB_OK, demo_schema)"
  by (simp add: demo_row_defs)

lemma demo_tuple_ok: "tuple_ok demo_tuple demo_schema" "tuple_bytes demo_tuple demo_schema = 17" "fixed_sum demo_columns = 9"
  by (simp_all add: demo_row_defs tuple_ok_def demo_tuple_def value_fits_def str_bytes_def in_range_def cstr_def tuple_bytes_def u32_def)

theorem tuple_round_trip_witness:
  "\<exists>m' t'. tuple_serialize demo_tuple demo_schema zero_page = Some (m', 17) \<and>
     tuple_deserialize demo_tuple demo_schema m' 17 = Some (DB_OK, t') \<and> tup_values t' = tup_values demo_tuple"
proof -
  have "schema_create \<lparr>columns = [], num_columns = 0, fixed_size = 0, var_cols = 0, null_bitmap_size = 0\<rparr> demo_columns
      (int (length demo_columns)) = (DB_OK, demo_schema)"
    using demo_schema_create by (simp add: demo_columns_def)
  moreover have "demo_columns \<noteq> []" by (simp add: demo_columns_def)
  moreover have "fixed_sum demo_columns < 2 ^ 32" "tuple_bytes demo_tuple demo_schema < 2 ^ 32"
    by (simp_all add: demo_tuple_ok)
  moreover have "map stored (tup_values demo_tuple) = tup_values demo_tuple" by (simp add: demo_tuple_def stored_def)
  ultimately show ?thesis
    using tuple_round_trip [of _ demo_columns DB_OK demo_schema demo_tuple zero_page demo_tuple] demo_tuple_ok by metis
qed

section \<open>Schema bounds\<close>

lemma max_size_loop_sum:
  "sz + (\<Sum>c\<leftarrow>cs. if col_type c = TYPE_VARCHAR then col_max_length c + 4 else 0) < 2 ^ 32 \<Longrightarrow>
   max_size_loop cs sz = sz + (\<Sum>c\<leftarrow>cs. if col_type c = TYPE_VARCHAR then col_max_length c + 4 else 0)"
  by (induction cs arbitrary: sz) (auto simp: u32_id add.assoc)

lemma var_sum_le:
  "\<forall>k < length cs. length (str_bytes (tup_values t ! (i + k))) \<le> col_max_length (cs ! k) \<Longrightarrow>
   var_sum t cs i \<le> (\<Sum>c\<leftarrow>cs. if col_type c = TYPE_VARCHAR then col_max_length c + 4 else 0)"
proof (induction cs arbitrary: i)
  case (Cons c cs)
  have "length (str_bytes (tup_values t ! i)) \<le> col_max_length c" using Cons.prems by auto
  moreover have "var_sum t cs (Suc i) \<le> (\<Sum>c\<leftarrow>cs. if col_type c = TYPE_VARCHAR then col_max_length c + 4 else 0)"
    using Cons.prems by (intro Cons.IH) fastforce
  ultimately show ?case by auto
qed simp

lemma find_column_loop_spec:
  "find_column_loop cs i name =
     (case List.find (\<lambda>k. col_name (cs ! k) = name) [0..<length cs] of None \<Rightarrow> -1 | Some k \<Rightarrow> i + int k)"
proof (induction cs arbitrary: i)
  case (Cons c cs)
  have "List.find (\<lambda>k. col_name ((c # cs) ! k) = name) (map Suc ks) =
      map_option Suc (List.find (\<lambda>k. col_name (cs ! k) = name) ks)" for ks
    by (induction ks) auto
  then show ?case
    by (auto simp: strcmp_eq Cons.IH upt_conv_Cons map_Suc_upt [symmetric] simp del: upt_Suc split: option.splits)
qed simp

text \<open>C15. \<open>schema_create\<close> lays the columns out one after another without overlap, keeps their names, types and
  lengths, and the largest tuple it announces bounds every tuple whose strings respect the lengths.
  \<open>schema_find_column\<close> finds a column by its name: the first one that has it, or -1 when none has.\<close>

theorem schema_create_spec:
  assumes "schema_create s0 cols (int (length cols)) = (rc, s)" "cols \<noteq> []" "fixed_sum cols < 2 ^ 32"
  shows "rc = DB_OK \<and> laid 0 (columns s) \<and> map col_name (columns s) = map col_name cols \<and>
    map col_type (columns s) = map col_type cols \<and>
    (\<forall>name. schema_find_column s name =
       (case List.find (\<lambda>k. col_name (cols ! k) = name) [0..<length cols] of None \<Rightarrow> -1 | Some k \<Rightarrow> int k)) \<and>
    (\<forall>t. tuple_ok t s \<and> (\<forall>k < length cols. length (str_bytes (tup_values t ! k)) \<le> col_max_length (cols ! k)) \<and>
       null_bitmap_size s + fixed_size s + (\<Sum>c\<leftarrow>cols. if col_type c = TYPE_VARCHAR then col_max_length c + 4 else 0) < 2 ^ 32 \<longrightarrow>
       tuple_serialized_size t s \<le> schema_max_tuple_size s)"
proof -
  have m: "rc = DB_OK" "schema_ok s" "map col_type (columns s) = map col_type cols" "map col_name (columns s) = map col_name cols"
    "map col_max_length (columns s) = map col_max_length cols"
    using schema_create_ok [OF refl assms(2,3,1)] by blast+
  have len: "length (columns s) = length cols" using m(3) by (metis length_map)
  have nth: "col_name (columns s ! k) = col_name (cols ! k)" "col_max_length (columns s ! k) = col_max_length (cols ! k)"
    if "k < length cols" for k using m(4,5) that len by (metis nth_map)+
  have find: "schema_find_column s name =
      (case List.find (\<lambda>k. col_name (cols ! k) = name) [0..<length cols] of None \<Rightarrow> -1 | Some k \<Rightarrow> int k)" for name
  proof -
    have "List.find (\<lambda>k. col_name (columns s ! k) = name) [0..<length cols] =
        List.find (\<lambda>k. col_name (cols ! k) = name) [0..<length cols]"
      by (rule find_cong) (use nth in auto)
    then show ?thesis by (simp add: schema_find_column_def schema_okD(6) [OF m(2)] find_column_loop_spec len cong: option.case_cong)
  qed
  let ?sum = "\<lambda>cs. \<Sum>c\<leftarrow>cs. if col_type c = TYPE_VARCHAR then col_max_length c + 4 else 0"
  have "list_all2 (\<lambda>c d. col_type c = col_type d \<and> col_max_length c = col_max_length d) (columns s) cols"
    using m(3,5) len by (auto simp: list_all2_conv_all_nth list_eq_iff_nth_eq)
  then have sum: "?sum (columns s) = ?sum cols" by (induction rule: list_all2_induct) auto
  have "tuple_serialized_size t s \<le> schema_max_tuple_size s"
    if t: "tuple_ok t s" "\<forall>k < length cols. length (str_bytes (tup_values t ! k)) \<le> col_max_length (cols ! k)"
      and b: "null_bitmap_size s + fixed_size s + ?sum cols < 2 ^ 32" for t
  proof -
    have v: "var_sum t (columns s) 0 \<le> ?sum cols"
      using var_sum_le [of "columns s" t 0] t(2) nth(2) len by (simp add: sum)
    then have "tuple_bytes t s < 2 ^ 32" using b by (simp add: tuple_bytes_def)
    then have "tuple_serialized_size t s = null_bitmap_size s + fixed_size s + var_sum t (columns s) 0"
      using tuple_serialized_size_sum [OF m(2) t(1)] by (simp add: tuple_bytes_def)
    also have "\<dots> \<le> null_bitmap_size s + fixed_size s + ?sum (columns s)" using v sum by simp
    also have "\<dots> = schema_max_tuple_size s"
      using max_size_loop_sum [of "null_bitmap_size s + fixed_size s" "columns s"] b sum
      by (simp add: schema_max_tuple_size_def schema_okD(6) [OF m(2)] u32_id)
    finally show ?thesis .
  qed
  then show ?thesis using m(1,3,4) schema_okD(3) [OF m(2)] find by blast
qed

theorem schema_create_spec_witness:
  "schema_find_column demo_schema (cstr ''ok'') = 2 \<and> schema_find_column demo_schema (cstr ''x'') = -1 \<and> laid 0 (columns demo_schema)"
  using schema_create_spec [of _ demo_columns DB_OK demo_schema] demo_schema_create demo_tuple_ok(3)
  by (simp add: demo_columns_def demo_column_def cstr_def)

section \<open>A short record\<close>

text \<open>\<open>tuple_deserialize\<close> checks its bounds only for strings: from a buffer of no bytes a fixed column is
  read all the same, past the end; and the check of a string length wraps around, so that a length of
  nearly 2^32 passes it.\<close>

theorem tuple_deserialize_short:
  assumes "get_u 1 m 0 = 0"
  shows "tuple_deserialize t (snd (schema_create s [demo_column ''id'' TYPE_INTEGER 0] 1)) m 0 =
    Some (DB_OK, t\<lparr>tup_values := [V_Int (get_s 8 m 1)], num_values := 1, tup_rid := INVALID_RID\<rparr>)"
proof -
  have "m 0 = 0" using assms by (simp add: get_u_def mem_read_def unsigned_eq_0_iff)
  then show ?thesis
    by (simp add: tuple_deserialize_def tuple_create_def demo_row_defs u32_def null_bit_def value_make_null_def value_make_integer_def)
qed

theorem tuple_deserialize_length_wraps:
  assumes "m 0 = 0" "get_u 4 m 1 = 4294967295"
  shows "\<exists>t'. tuple_deserialize t (snd (schema_create s [demo_column ''name'' TYPE_VARCHAR 8] 1)) m 5 = Some (DB_OK, t')"
  using assms
  by (simp add: tuple_deserialize_def tuple_create_def demo_row_defs u32_def null_bit_def value_make_null_def Let_def)

end
