(* ===== verification/Token.thy ===== *)
theory Token
  imports Main
begin

text \<open>
  Tokens (\<open>src/parser/token.h\<close>, \<open>src/parser/token.c\<close>): the token types, a token with its lexeme and
  position, and the names of the token types in error messages.
\<close>

datatype (plugins only: size) token_type =
    TK_SELECT | TK_FROM | TK_WHERE | TK_INSERT | TK_INTO | TK_VALUES
  | TK_UPDATE | TK_SET | TK_DELETE | TK_CREATE | TK_TABLE | TK_DROP
  | TK_INDEX | TK_ON | TK_AND | TK_OR | TK_NOT | TK_NULL | TK_PRIMARY
  | TK_KEY | TK_UNIQUE | TK_INTEGER | TK_FLOAT | TK_VARCHAR | TK_BOOLEAN
  | TK_BEGIN | TK_COMMIT | TK_ROLLBACK | TK_TRANSACTION | TK_ISOLATION
  | TK_LEVEL | TK_READ | TK_COMMITTED | TK_UNCOMMITTED | TK_REPEATABLE
  | TK_EXPLAIN | TK_ORDER | TK_BY | TK_ASC | TK_DESC | TK_GROUP
  | TK_HAVING | TK_LIMIT | TK_JOIN | TK_INNER | TK_LEFT | TK_RIGHT
  | TK_AS | TK_COUNT | TK_SUM | TK_AVG | TK_MIN | TK_MAX
  | TK_BETWEEN | TK_IN | TK_IS | TK_LIKE | TK_TRUE | TK_FALSE
  | TK_IF | TK_EXISTS | TK_ALTER | TK_ADD | TK_COLUMN | TK_CONSTRAINT
  | TK_DEFAULT | TK_CHECK | TK_FOREIGN | TK_REFERENCES | TK_CASCADE
  | TK_OUTER | TK_CROSS | TK_FULL | TK_UNION | TK_ALL | TK_DISTINCT
  | TK_OFFSET | TK_ONLY | TK_SERIALIZABLE
  | TK_IDENTIFIER | TK_INT_LITERAL | TK_FLOAT_LITERAL | TK_STRING_LITERAL
  | TK_EQUAL | TK_NOT_EQUAL | TK_LESS | TK_LESS_EQUAL | TK_GREATER
  | TK_GREATER_EQUAL | TK_PLUS | TK_MINUS | TK_STAR | TK_SLASH
  | TK_LEFT_PAREN | TK_RIGHT_PAREN | TK_COMMA | TK_SEMICOLON | TK_DOT
  | TK_EOF | TK_ERROR

record token =
  tok_type :: token_type
  lexeme :: string
  tok_line :: int
  tok_column :: int

definition token_name_table :: "(token_type \<times> string) list" where
  "token_name_table =
    [(TK_SELECT, ''SELECT''), (TK_FROM, ''FROM''), (TK_WHERE, ''WHERE''), (TK_INSERT, ''INSERT''),
     (TK_INTO, ''INTO''), (TK_VALUES, ''VALUES''), (TK_UPDATE, ''UPDATE''), (TK_SET, ''SET''),
     (TK_DELETE, ''DELETE''), (TK_CREATE, ''CREATE''), (TK_TABLE, ''TABLE''), (TK_DROP, ''DROP''),
     (TK_INDEX, ''INDEX''), (TK_ON, ''ON''), (TK_AND, ''AND''), (TK_OR, ''OR''), (TK_NOT, ''NOT''),
     (TK_NULL, ''NULL''), (TK_PRIMARY, ''PRIMARY''), (TK_KEY, ''KEY''), (TK_UNIQUE, ''UNIQUE''),
     (TK_INTEGER, ''INTEGER''), (TK_FLOAT, ''FLOAT''), (TK_VARCHAR, ''VARCHAR''), (TK_BOOLEAN, ''BOOLEAN''),
     (TK_BEGIN, ''BEGIN''), (TK_COMMIT, ''COMMIT''), (TK_ROLLBACK, ''ROLLBACK''), (TK_TRANSACTION, ''TRANSACTION''),
     (TK_ISOLATION, ''ISOLATION''), (TK_LEVEL, ''LEVEL''), (TK_READ, ''READ''), (TK_COMMITTED, ''COMMITTED''),
     (TK_UNCOMMITTED, ''UNCOMMITTED''), (TK_REPEATABLE, ''REPEATABLE''), (TK_EXPLAIN, ''EXPLAIN''),
     (TK_ORDER, ''ORDER''), (TK_BY, ''BY''), (TK_ASC, ''ASC''), (TK_DESC, ''DESC''), (TK_GROUP, ''GROUP''),
     (TK_HAVING, ''HAVING''), (TK_LIMIT, ''LIMIT''), (TK_JOIN, ''JOIN''), (TK_INNER, ''INNER''), (TK_LEFT, ''LEFT''),
     (TK_RIGHT, ''RIGHT''), (TK_AS, ''AS''), (TK_COUNT, ''COUNT''), (TK_SUM, ''SUM''), (TK_AVG, ''AVG''),
     (TK_MIN, ''MIN''), (TK_MAX, ''MAX''), (TK_BETWEEN, ''BETWEEN''), (TK_IN, ''IN''), (TK_IS, ''IS''),
     (TK_LIKE, ''LIKE''), (TK_TRUE, ''TRUE''), (TK_FALSE, ''FALSE''), (TK_IF, ''IF''), (TK_EXISTS, ''EXISTS''),
     (TK_ALTER, ''ALTER''), (TK_ADD, ''ADD''), (TK_COLUMN, ''COLUMN''), (TK_CONSTRAINT, ''CONSTRAINT''),
     (TK_DEFAULT, ''DEFAULT''), (TK_CHECK, ''CHECK''), (TK_FOREIGN, ''FOREIGN''), (TK_REFERENCES, ''REFERENCES''),
     (TK_CASCADE, ''CASCADE''), (TK_OUTER, ''OUTER''), (TK_CROSS, ''CROSS''), (TK_FULL, ''FULL''),
     (TK_UNION, ''UNION''), (TK_ALL, ''ALL''), (TK_DISTINCT, ''DISTINCT''), (TK_OFFSET, ''OFFSET''),
     (TK_ONLY, ''ONLY''), (TK_SERIALIZABLE, ''SERIALIZABLE''), (TK_IDENTIFIER, ''IDENTIFIER''),
     (TK_INT_LITERAL, ''INT_LITERAL''), (TK_FLOAT_LITERAL, ''FLOAT_LITERAL''),
     (TK_STRING_LITERAL, ''STRING_LITERAL''), (TK_EQUAL, ''=''), (TK_NOT_EQUAL, ''<>''), (TK_LESS, ''<''),
     (TK_LESS_EQUAL, ''<=''), (TK_GREATER, ''>''), (TK_GREATER_EQUAL, ''>=''), (TK_PLUS, ''+''), (TK_MINUS, ''-''),
     (TK_STAR, ''*''), (TK_SLASH, ''/''), (TK_LEFT_PAREN, ''(''), (TK_RIGHT_PAREN, '')''), (TK_COMMA, '',''),
     (TK_SEMICOLON, '';''), (TK_DOT, ''.''), (TK_EOF, ''EOF''), (TK_ERROR, ''ERROR'')]"

fun token_name :: "(token_type \<times> string) list \<Rightarrow> token_type \<Rightarrow> string" where
  "token_name [] ty = ''UNKNOWN''"
| "token_name ((t, name) # rest) ty = (if t = ty then name else token_name rest ty)"

definition token_type_to_string :: "token_type \<Rightarrow> string" where
  "token_type_to_string ty = token_name token_name_table ty"

end
