(* ===== verification/Lexer.thy ===== *)
theory Lexer
  imports Token "HOL-Library.Char_ord"
begin

text \<open>
  The lexer (\<open>src/parser/lexer.h\<close>, \<open>src/parser/lexer.c\<close>). The source text and the position in it are
  kept as the part of the text from the position on, so that \<open>lex->source + start\<close> is that part when
  the token began and \<open>lex->pos < lex->length\<close> says it is not empty. Allocation succeeds, so the growing
  array of tokens is a list. The character classes are those of the C locale. Main theorem: lexing the
  rendering of a list of tokens gives the tokens back.
\<close>

section \<open>Keywords\<close>

definition KEYWORDS :: "(string \<times> token_type) list" where
  "KEYWORDS =
    [(''ADD'', TK_ADD), (''ALL'', TK_ALL), (''ALTER'', TK_ALTER), (''AND'', TK_AND), (''ASC'', TK_ASC),
     (''AVG'', TK_AVG), (''BEGIN'', TK_BEGIN), (''BETWEEN'', TK_BETWEEN), (''BOOLEAN'', TK_BOOLEAN), (''BY'', TK_BY),
     (''CASCADE'', TK_CASCADE), (''CHECK'', TK_CHECK), (''COLUMN'', TK_COLUMN), (''COMMIT'', TK_COMMIT),
     (''COMMITTED'', TK_COMMITTED), (''COUNT'', TK_COUNT), (''CREATE'', TK_CREATE), (''CROSS'', TK_CROSS),
     (''DEFAULT'', TK_DEFAULT), (''DELETE'', TK_DELETE), (''DESC'', TK_DESC), (''DISTINCT'', TK_DISTINCT),
     (''DROP'', TK_DROP), (''EXISTS'', TK_EXISTS), (''EXPLAIN'', TK_EXPLAIN), (''FLOAT'', TK_FLOAT),
     (''FOREIGN'', TK_FOREIGN), (''FROM'', TK_FROM), (''FULL'', TK_FULL), (''GROUP'', TK_GROUP),
     (''HAVING'', TK_HAVING), (''IF'', TK_IF), (''IN'', TK_IN), (''INDEX'', TK_INDEX), (''INNER'', TK_INNER),
     (''INSERT'', TK_INSERT), (''INTO'', TK_INTO), (''IS'', TK_IS), (''ISOLATION'', TK_ISOLATION),
     (''JOIN'', TK_JOIN), (''KEY'', TK_KEY), (''LEFT'', TK_LEFT), (''LEVEL'', TK_LEVEL), (''LIKE'', TK_LIKE),
     (''LIMIT'', TK_LIMIT), (''MAX'', TK_MAX), (''MIN'', TK_MIN), (''NOT'', TK_NOT), (''NULL'', TK_NULL),
     (''OFFSET'', TK_OFFSET), (''ON'', TK_ON), (''ONLY'', TK_ONLY), (''OR'', TK_OR), (''ORDER'', TK_ORDER),
     (''OUTER'', TK_OUTER), (''PRIMARY'', TK_PRIMARY), (''READ'', TK_READ), (''REFERENCES'', TK_REFERENCES),
     (''REPEATABLE'', TK_REPEATABLE), (''RIGHT'', TK_RIGHT), (''ROLLBACK'', TK_ROLLBACK), (''SELECT'', TK_SELECT),
     (''SERIALIZABLE'', TK_SERIALIZABLE), (''SET'', TK_SET), (''SUM'', TK_SUM), (''TABLE'', TK_TABLE),
     (''TRANSACTION'', TK_TRANSACTION), (''TRUE'', TK_TRUE), (''FALSE'', TK_FALSE), (''UNION'', TK_UNION),
     (''UNIQUE'', TK_UNIQUE), (''UNCOMMITTED'', TK_UNCOMMITTED), (''UPDATE'', TK_UPDATE), (''VALUES'', TK_VALUES),
     (''VARCHAR'', TK_VARCHAR), (''WHERE'', TK_WHERE), (''INTEGER'', TK_INTEGER)]"

definition toupper :: "char \<Rightarrow> char" where
  "toupper c = (let n = of_char c :: nat in if 97 \<le> n \<and> n \<le> 122 then char_of (n - 32) else c)"

fun find_keyword :: "(string \<times> token_type) list \<Rightarrow> string \<Rightarrow> token_type" where
  "find_keyword [] word = TK_IDENTIFIER"
| "find_keyword ((kw, ty) # rest) word =
     (if length kw = length word \<and> list_all2 (\<lambda>c k. toupper c = k) word kw then ty else find_keyword rest word)"

definition lookup_keyword :: "string \<Rightarrow> token_type" where
  "lookup_keyword word = find_keyword KEYWORDS word"

lemma find_keyword_range: "find_keyword kws w \<in> insert TK_IDENTIFIER (snd ` set kws)"
  by (induction kws w rule: find_keyword.induct) auto

lemma lookup_keyword_range: "lookup_keyword w \<in> insert TK_IDENTIFIER (snd ` set KEYWORDS)"
  by (simp only: lookup_keyword_def find_keyword_range)

lemma lookup_keyword_neq:
  "lookup_keyword w \<noteq> TK_STRING_LITERAL" "lookup_keyword w \<noteq> TK_AS" "lookup_keyword w \<noteq> TK_CONSTRAINT" "lookup_keyword w \<noteq> TK_EOF"
  using lookup_keyword_range [of w] by (auto simp: KEYWORDS_def)

section \<open>The lexer\<close>

record lexer =
  lex_rest :: string
  lex_line :: int
  lex_column :: int

definition lexer_init :: "string \<Rightarrow> lexer" where
  "lexer_init source = \<lparr>lex_rest = source, lex_line = 1, lex_column = 1\<rparr>"

definition lexer_destroy :: "lexer \<Rightarrow> lexer" where
  "lexer_destroy l = l"

definition NUL :: char where "NUL = CHR 0x00"
definition NEWLINE :: char where "NEWLINE = CHR 0x0A"

definition isalpha :: "char \<Rightarrow> bool" where
  "isalpha c \<longleftrightarrow> (let n = of_char c :: nat in 65 \<le> n \<and> n \<le> 90 \<or> 97 \<le> n \<and> n \<le> 122)"

definition isdigit :: "char \<Rightarrow> bool" where
  "isdigit c \<longleftrightarrow> (let n = of_char c :: nat in 48 \<le> n \<and> n \<le> 57)"

definition isalnum :: "char \<Rightarrow> bool" where
  "isalnum c \<longleftrightarrow> isalpha c \<or> isdigit c"

definition peek :: "lexer \<Rightarrow> char" where
  "peek l = (case lex_rest l of [] \<Rightarrow> NUL | c # _ \<Rightarrow> c)"

definition peek_next :: "lexer \<Rightarrow> char" where
  "peek_next l = (case lex_rest l of _ # c # _ \<Rightarrow> c | _ \<Rightarrow> NUL)"

text \<open>\<open>advance\<close> is only called inside the text.\<close>

definition advance :: "lexer \<Rightarrow> lexer" where
  "advance l =
     (case lex_rest l of
        [] \<Rightarrow> l
      | c # rest \<Rightarrow>
          if c = NEWLINE then \<lparr>lex_rest = rest, lex_line = lex_line l + 1, lex_column = 1\<rparr>
          else \<lparr>lex_rest = rest, lex_line = lex_line l, lex_column = lex_column l + 1\<rparr>)"

lemma length_advance: "lex_rest l \<noteq> [] \<Longrightarrow> length (lex_rest (advance l)) < length (lex_rest l)"
  by (auto simp: advance_def split: list.split)

text \<open>The loops \<open>while (pos < length && P(peek(lex))) advance(lex)\<close>.\<close>

function advance_while :: "(char \<Rightarrow> bool) \<Rightarrow> lexer \<Rightarrow> lexer" where
  "advance_while P l = (if lex_rest l \<noteq> [] \<and> P (peek l) then advance_while P (advance l) else l)"
  by pat_completeness auto
termination
  by (relation "measure (\<lambda>(P, l). length (lex_rest l))") (auto simp: length_advance)

declare advance_while.simps [simp del]

definition is_blank :: "char \<Rightarrow> bool" where
  "is_blank c \<longleftrightarrow> c = CHR '' '' \<or> c = CHR 0x09 \<or> c = CHR 0x0D \<or> c = NEWLINE"

definition skip_whitespace :: "lexer \<Rightarrow> lexer" where
  "skip_whitespace l = advance_while is_blank l"

definition skip_line_comment :: "lexer \<Rightarrow> lexer" where
  "skip_line_comment l = advance_while (\<lambda>c. c \<noteq> NEWLINE) l"

function skip_block_comment :: "lexer \<Rightarrow> lexer" where
  "skip_block_comment l =
     (if lex_rest l = [] then l
      else if peek l = CHR ''*'' \<and> peek_next l = CHR ''/'' then advance (advance l)
      else skip_block_comment (advance l))"
  by pat_completeness auto
termination
  by (relation "measure (\<lambda>l. length (lex_rest l))") (auto simp: length_advance)

definition make_token :: "token_type \<Rightarrow> string \<Rightarrow> nat \<Rightarrow> int \<Rightarrow> int \<Rightarrow> token" where
  "make_token ty start len line col = \<lparr>tok_type = ty, lexeme = take (min len 255) start, tok_line = line, tok_column = col\<rparr>"

definition lex_word :: "lexer \<Rightarrow> token \<times> lexer" where
  "lex_word l =
     (let l' = advance_while (\<lambda>c. isalnum c \<or> c = CHR ''_'') l;
          len = length (lex_rest l) - length (lex_rest l')
      in (make_token (lookup_keyword (take len (lex_rest l))) (lex_rest l) len (lex_line l) (lex_column l), l'))"

text \<open>The fraction and the exponent of a number, after its first digits.\<close>

definition lex_fraction :: "lexer \<Rightarrow> token_type \<times> lexer" where
  "lex_fraction l =
     (if lex_rest l \<noteq> [] \<and> peek l = CHR ''.'' then (TK_FLOAT_LITERAL, advance_while isdigit (advance l))
      else (TK_INT_LITERAL, l))"

definition lex_exponent :: "token_type \<times> lexer \<Rightarrow> token_type \<times> lexer" where
  "lex_exponent tyl =
     (let (ty, l) = tyl
      in if lex_rest l \<noteq> [] \<and> (peek l = CHR ''e'' \<or> peek l = CHR ''E'') then
           let l = advance l;
               l = (if lex_rest l \<noteq> [] \<and> (peek l = CHR ''+'' \<or> peek l = CHR ''-'') then advance l else l)
           in (TK_FLOAT_LITERAL, advance_while isdigit l)
         else (ty, l))"

definition lex_number :: "lexer \<Rightarrow> token \<times> lexer" where
  "lex_number l =
     (let (ty, l') = lex_exponent (lex_fraction (advance_while isdigit l));
          len = length (lex_rest l) - length (lex_rest l')
      in (make_token ty (lex_rest l) len (lex_line l) (lex_column l), l'))"

definition QUOTE :: char where "QUOTE = CHR 0x27"
definition BACKSLASH :: char where "BACKSLASH = CHR 0x5C"

function string_body :: "lexer \<Rightarrow> lexer" where
  "string_body l =
     (if lex_rest l = [] \<or> peek l = QUOTE then l
      else if peek l = BACKSLASH \<and> peek_next l = QUOTE then string_body (advance (advance l))
      else string_body (advance l))"
  by pat_completeness auto
termination
proof (relation "measure (\<lambda>l. length (lex_rest l))")
  have "length (lex_rest (advance l)) \<le> length (lex_rest l)" for l
    by (cases "lex_rest l = []") (auto simp: advance_def less_imp_le [OF length_advance] split: list.split)
  then show "\<not> (lex_rest l = [] \<or> peek l = QUOTE) \<Longrightarrow> peek l = BACKSLASH \<and> peek_next l = QUOTE \<Longrightarrow>
      (advance (advance l), l) \<in> measure (\<lambda>l. length (lex_rest l))" for l
    using length_advance [of l] by (auto intro: le_less_trans)
qed (auto simp: length_advance)

declare skip_block_comment.simps [simp del] string_body.simps [simp del]

definition lex_string :: "lexer \<Rightarrow> token \<times> lexer" where
  "lex_string l =
     (let l1 = advance l;
          l2 = string_body l1;
          len = length (lex_rest l1) - length (lex_rest l2);
          l3 = (if lex_rest l2 \<noteq> [] then advance l2 else l2)
      in (make_token TK_STRING_LITERAL (lex_rest l1) len (lex_line l) (lex_column l), l3))"

definition two_char_type :: "char \<Rightarrow> char \<Rightarrow> token_type" where
  "two_char_type c d =
     (if [c, d] = ''<>'' then TK_NOT_EQUAL
      else if [c, d] = ''<='' then TK_LESS_EQUAL
      else if [c, d] = ''>='' then TK_GREATER_EQUAL
      else if [c, d] = ''!='' then TK_NOT_EQUAL
      else TK_ERROR)"

definition one_char_type :: "char \<Rightarrow> token_type" where
  "one_char_type c =
     (if c = CHR ''='' then TK_EQUAL
      else if c = CHR ''<'' then TK_LESS
      else if c = CHR ''>'' then TK_GREATER
      else if c = CHR ''+'' then TK_PLUS
      else if c = CHR ''-'' then TK_MINUS
      else if c = CHR ''*'' then TK_STAR
      else if c = CHR ''/'' then TK_SLASH
      else if c = CHR ''('' then TK_LEFT_PAREN
      else if c = CHR '')'' then TK_RIGHT_PAREN
      else if c = CHR '','' then TK_COMMA
      else if c = CHR '';'' then TK_SEMICOLON
      else if c = CHR ''.'' then TK_DOT
      else TK_ERROR)"

definition lex_operator :: "lexer \<Rightarrow> token \<times> lexer" where
  "lex_operator l =
     (let c = peek l
      in if 1 < length (lex_rest l) \<and> two_char_type c (peek_next l) \<noteq> TK_ERROR then
           (make_token (two_char_type c (peek_next l)) (lex_rest l) 2 (lex_line l) (lex_column l), advance (advance l))
         else (make_token (one_char_type c) [c] 1 (lex_line l) (lex_column l), advance l))"

text \<open>One turn of the main loop, after the white space: the token found, or None for a comment.\<close>

definition lex_step :: "lexer \<Rightarrow> token option \<times> lexer" where
  "lex_step l =
     (let c = peek l
      in if c = CHR ''-'' \<and> peek_next l = CHR ''-'' then (None, skip_line_comment l)
         else if c = CHR ''/'' \<and> peek_next l = CHR ''*'' then (None, skip_block_comment (advance (advance l)))
         else
           let (t, l) =
             (if isalpha c \<or> c = CHR ''_'' then lex_word l
              else if isdigit c then lex_number l
              else if c = QUOTE then lex_string l
              else lex_operator l)
           in (Some t, l))"

section \<open>The main loop\<close>

lemma advance_Cons: "lex_rest l = c # rest \<Longrightarrow> lex_rest (advance l) = rest"
  by (simp add: advance_def)

lemma lex_rest_advance: "lex_rest (advance l) = tl (lex_rest l)"
  by (cases "lex_rest l") (simp_all add: advance_def)

lemma peek_hd: "lex_rest l \<noteq> [] \<Longrightarrow> peek l = hd (lex_rest l)"
  by (cases "lex_rest l") (simp_all add: peek_def)

lemma lex_rest_advance_while: "lex_rest (advance_while P l) = dropWhile P (lex_rest l)"
proof (induction P l rule: advance_while.induct)
  case (1 P l)
  show ?case
  proof (cases "lex_rest l")
    case Nil
    then show ?thesis by (simp add: advance_while.simps [of P l])
  next
    case (Cons c rest)
    then have "peek l = c" by (simp add: peek_def)
    then show ?thesis using 1 Cons by (subst advance_while.simps) (auto simp: lex_rest_advance)
  qed
qed

lemma length_skip_block_comment: "length (lex_rest (skip_block_comment l)) \<le> length (lex_rest l)"
proof (induction l rule: skip_block_comment.induct)
  case (1 l)
  then show ?case by (subst skip_block_comment.simps) (auto simp: lex_rest_advance)
qed

lemma length_string_body: "length (lex_rest (string_body l)) \<le> length (lex_rest l)"
proof (induction l rule: string_body.induct)
  case (1 l)
  then show ?case by (subst string_body.simps) (auto simp: lex_rest_advance)
qed

lemma length_dropWhile: "length (dropWhile P xs) \<le> length xs"
  by (induction xs) auto

lemma length_dropWhile_less: "xs \<noteq> [] \<Longrightarrow> P (hd xs) \<Longrightarrow> length (dropWhile P xs) < length xs"
  by (cases xs) (auto simp: le_imp_less_Suc length_dropWhile)

lemma length_advance_while: "length (lex_rest (advance_while P l)) \<le> length (lex_rest l)"
  by (simp add: lex_rest_advance_while length_dropWhile)

lemma length_advance_le: "length (lex_rest (advance l)) \<le> length (lex_rest l)"
  by (simp add: lex_rest_advance)

lemma length_lex_fraction: "length (lex_rest (snd (lex_fraction l))) \<le> length (lex_rest l)"
  using length_advance_while [of isdigit "advance l"] length_advance_le [of l] by (simp add: lex_fraction_def)

lemma length_lex_exponent: "length (lex_rest (snd (lex_exponent (ty, l)))) \<le> length (lex_rest l)"
  using length_advance_while [of isdigit "advance l"] length_advance_while [of isdigit "advance (advance l)"]
    length_advance_le [of l] length_advance_le [of "advance l"]
  by (simp add: lex_exponent_def Let_def)

lemma length_lex_number:
  assumes "lex_rest l \<noteq> []" "isdigit (peek l)"
  shows "length (lex_rest (snd (lex_number l))) < length (lex_rest l)"
proof -
  have "length (lex_rest (advance_while isdigit l)) < length (lex_rest l)"
    using assms length_dropWhile_less [of "lex_rest l" isdigit] by (simp add: lex_rest_advance_while peek_hd)
  then show ?thesis
    using length_lex_fraction [of "advance_while isdigit l"]
      length_lex_exponent [of "fst (lex_fraction (advance_while isdigit l))" "snd (lex_fraction (advance_while isdigit l))"]
    by (simp add: lex_number_def Let_def split_beta)
qed

lemma length_lex_step:
  assumes ne: "lex_rest l \<noteq> []"
  shows "length (lex_rest (snd (lex_step l))) < length (lex_rest l)"
proof -
  have word: "length (lex_rest (snd (lex_word l))) < length (lex_rest l)" if "isalpha (peek l) \<or> peek l = CHR ''_''"
    using that ne length_dropWhile_less [of "lex_rest l" "\<lambda>c. isalnum c \<or> c = CHR ''_''"]
    by (auto simp: lex_word_def Let_def lex_rest_advance_while peek_hd isalnum_def)
  have str: "length (lex_rest (snd (lex_string l))) < length (lex_rest l)"
    using length_string_body [of "advance l"] length_advance [OF ne]
    by (auto simp: lex_string_def Let_def lex_rest_advance)
  have op: "length (lex_rest (snd (lex_operator l))) < length (lex_rest l)"
    using ne by (auto simp: lex_operator_def Let_def lex_rest_advance)
  have line: "length (lex_rest (skip_line_comment l)) < length (lex_rest l)" if "peek l = CHR ''-''"
    using that ne length_dropWhile_less [of "lex_rest l" "\<lambda>c. c \<noteq> NEWLINE"]
    by (auto simp: skip_line_comment_def lex_rest_advance_while peek_hd NEWLINE_def)
  have block: "length (lex_rest (skip_block_comment (advance (advance l)))) < length (lex_rest l)"
    using length_skip_block_comment [of "advance (advance l)"] length_advance [OF ne] length_advance_le [of "advance l"]
    by linarith
  show ?thesis
    unfolding lex_step_def Let_def using word str op line block length_lex_number [OF ne]
    by (auto split: prod.split)
qed

lemma lex_turn_less:
  assumes "lex_rest (skip_whitespace l) \<noteq> []"
  shows "length (lex_rest (snd (lex_step (skip_whitespace l)))) < length (lex_rest l)"
  using length_lex_step [OF assms] length_advance_while [of is_blank l] by (simp add: skip_whitespace_def)

text \<open>The tokens before the end of file, and the lexer there.\<close>

function lex_loop :: "lexer \<Rightarrow> token list \<times> lexer" where
  "lex_loop l =
     (if lex_rest l = [] then ([], l)
      else
        let l = skip_whitespace l
        in if lex_rest l = [] then ([], l)
           else
             let (t, l) = lex_step l;
                 (ts, l) = lex_loop l
             in (case t of None \<Rightarrow> ts | Some t \<Rightarrow> t # ts, l))"
  by pat_completeness auto
termination
  by (relation "measure (\<lambda>l. length (lex_rest l))") (simp_all, metis lex_turn_less snd_conv)

declare lex_loop.simps [simp del]

text \<open>\<open>lexer_tokenize\<close> on a fresh lexer.\<close>

definition lexer_tokenize :: "lexer \<Rightarrow> token list \<times> lexer" where
  "lexer_tokenize l =
     (let (ts, l) = lex_loop l
      in (ts @ [\<lparr>tok_type = TK_EOF, lexeme = [], tok_line = lex_line l, tok_column = lex_column l\<rparr>], l))"

section \<open>Rendering tokens\<close>

type_synonym piece = "token_type \<times> string"

definition operators :: "piece list" where
  "operators =
    [(TK_EQUAL, ''=''), (TK_NOT_EQUAL, ''<>''), (TK_NOT_EQUAL, ''!=''), (TK_LESS, ''<''), (TK_LESS_EQUAL, ''<=''),
     (TK_GREATER, ''>''), (TK_GREATER_EQUAL, ''>=''), (TK_PLUS, ''+''), (TK_MINUS, ''-''), (TK_STAR, ''*''),
     (TK_SLASH, ''/''), (TK_LEFT_PAREN, ''(''), (TK_RIGHT_PAREN, '')''), (TK_COMMA, '',''), (TK_SEMICOLON, '';''),
     (TK_DOT, ''.'')]"

definition is_word :: "string \<Rightarrow> bool" where
  "is_word w \<longleftrightarrow> w \<noteq> [] \<and> (isalpha (hd w) \<or> hd w = CHR ''_'') \<and> list_all (\<lambda>c. isalnum c \<or> c = CHR ''_'') w"

definition is_number_text :: "string \<Rightarrow> bool" where
  "is_number_text w \<longleftrightarrow> w \<noteq> [] \<and> list_all isdigit w"

definition is_string_text :: "string \<Rightarrow> bool" where
  "is_string_text w \<longleftrightarrow> QUOTE \<notin> set w \<and> BACKSLASH \<notin> set w"

definition printable :: "piece \<Rightarrow> bool" where
  "printable t \<longleftrightarrow>
     (let (ty, w) = t
      in length w \<le> 255 \<and>
         (is_word w \<and> ty = lookup_keyword w \<or> is_number_text w \<and> ty = TK_INT_LITERAL \<or>
          is_string_text w \<and> ty = TK_STRING_LITERAL \<or> t \<in> set operators))"

definition render :: "piece \<Rightarrow> string" where
  "render t = (if fst t = TK_STRING_LITERAL then QUOTE # snd t @ [QUOTE] else snd t)"

fun render_all :: "piece list \<Rightarrow> string" where
  "render_all [] = []"
| "render_all (t # ts) = render t @ CHR '' '' # render_all ts"

definition piece_of :: "token \<Rightarrow> piece" where
  "piece_of t = (tok_type t, lexeme t)"

lemma char_facts:
  "\<not> isalnum (CHR '' '')" "\<not> isdigit (CHR '' '')" "is_blank (CHR '' '')" "\<not> isalpha QUOTE" "\<not> isdigit QUOTE" "QUOTE \<noteq> CHR ''_''"
  "CHR '' '' \<noteq> QUOTE" "QUOTE \<noteq> CHR ''-''" "QUOTE \<noteq> CHR ''/''" "\<not> is_blank QUOTE"
  by (simp_all add: isalnum_def isalpha_def isdigit_def is_blank_def QUOTE_def NEWLINE_def)

lemma isalpha_not: "isalpha c \<or> c = CHR ''_'' \<Longrightarrow> c \<noteq> CHR ''-'' \<and> c \<noteq> CHR ''/'' \<and> \<not> is_blank c"
  by (auto simp: isalpha_def is_blank_def NEWLINE_def Let_def)

lemma isdigit_not: "isdigit c \<Longrightarrow> c \<noteq> CHR ''-'' \<and> c \<noteq> CHR ''/'' \<and> c \<noteq> CHR ''_'' \<and> \<not> isalpha c \<and> \<not> is_blank c"
  by (auto simp: isalpha_def isdigit_def is_blank_def NEWLINE_def Let_def)

lemma dropWhile_word: "list_all P w \<Longrightarrow> \<not> P c \<Longrightarrow> dropWhile P (w @ c # rest) = c # rest"
  by (induction w) auto

lemma lex_word_render:
  assumes l: "lex_rest l = w @ CHR '' '' # rest" and w: "is_word w" "length w \<le> 255"
  shows "\<exists>l'. lex_step l = (Some \<lparr>tok_type = lookup_keyword w, lexeme = w, tok_line = lex_line l, tok_column = lex_column l\<rparr>, l') \<and>
    lex_rest l' = CHR '' '' # rest"
proof -
  have p: "peek l = hd w" using l w by (cases w) (auto simp: is_word_def peek_def)
  have d: "lex_rest (advance_while (\<lambda>c. isalnum c \<or> c = CHR ''_'') l) = CHR '' '' # rest"
    using w char_facts by (simp add: lex_rest_advance_while l dropWhile_word is_word_def)
  have "lex_step l = (let (t, l') = lex_word l in (Some t, l'))"
    using w isalpha_not [of "hd w"] by (auto simp: lex_step_def Let_def p is_word_def)
  then show ?thesis using d w(2) by (simp add: lex_word_def Let_def l make_token_def)
qed

lemma lex_number_render:
  assumes l: "lex_rest l = w @ CHR '' '' # rest" and w: "is_number_text w" "length w \<le> 255"
  shows "\<exists>l'. lex_step l = (Some \<lparr>tok_type = TK_INT_LITERAL, lexeme = w, tok_line = lex_line l, tok_column = lex_column l\<rparr>, l') \<and>
    lex_rest l' = CHR '' '' # rest"
proof -
  have p: "peek l = hd w" using l w by (cases w) (auto simp: is_number_text_def peek_def)
  have hd: "isdigit (hd w)" using w by (cases w) (auto simp: is_number_text_def)
  define l' where "l' = advance_while isdigit l"
  have d: "lex_rest l' = CHR '' '' # rest"
    using w char_facts by (simp add: l'_def lex_rest_advance_while l dropWhile_word is_number_text_def)
  then have "peek l' = CHR '' ''" by (simp add: peek_def)
  then have "lex_exponent (lex_fraction l') = (TK_INT_LITERAL, l')" by (simp add: lex_exponent_def lex_fraction_def)
  moreover have "lex_step l = (let (t, l') = lex_number l in (Some t, l'))"
    using hd isdigit_not [OF hd] by (simp add: lex_step_def Let_def p)
  ultimately show ?thesis using d w(2) by (simp add: lex_number_def l'_def Let_def l make_token_def)
qed

lemma string_body_rest:
  "is_string_text w \<Longrightarrow> lex_rest l = w @ QUOTE # rest \<Longrightarrow> lex_rest (string_body l) = QUOTE # rest"
proof (induction w arbitrary: l)
  case Nil
  then show ?case by (subst string_body.simps) (simp add: peek_def)
next
  case (Cons c w)
  have "peek l = c" "lex_rest (advance l) = w @ QUOTE # rest" "is_string_text w"
    using Cons.prems by (simp_all add: peek_def lex_rest_advance is_string_text_def)
  then show ?case using Cons.IH [of "advance l"] Cons.prems
    by (subst string_body.simps) (auto simp: is_string_text_def)
qed

lemma lex_string_render:
  assumes l: "lex_rest l = QUOTE # w @ QUOTE # rest" and w: "is_string_text w" "length w \<le> 255"
  shows "\<exists>l'. lex_step l = (Some \<lparr>tok_type = TK_STRING_LITERAL, lexeme = w, tok_line = lex_line l, tok_column = lex_column l\<rparr>, l') \<and>
    lex_rest l' = rest"
proof -
  have p: "peek l = QUOTE" using l by (simp add: peek_def)
  have a: "lex_rest (advance l) = w @ QUOTE # rest" by (simp add: lex_rest_advance l)
  have b: "lex_rest (string_body (advance l)) = QUOTE # rest" using w(1) a by (rule string_body_rest)
  have "lex_step l = (let (t, l') = lex_string l in (Some t, l'))"
    using char_facts by (simp add: lex_step_def Let_def p)
  then show ?thesis using a b w(2) by (simp add: lex_string_def Let_def make_token_def lex_rest_advance l)
qed

lemma one_char_facts:
  "one_char_type c \<noteq> TK_ERROR \<Longrightarrow> \<not> isalpha c \<and> \<not> isdigit c \<and> c \<noteq> CHR ''_'' \<and> c \<noteq> QUOTE \<and> \<not> is_blank c"
  unfolding one_char_type_def
  by (auto simp: isalpha_def isdigit_def QUOTE_def is_blank_def NEWLINE_def Let_def split: if_split_asm)

lemma two_char_facts:
  "two_char_type c d \<noteq> TK_ERROR \<Longrightarrow> (c = CHR ''<'' \<or> c = CHR ''>'' \<or> c = CHR ''!'') \<and> d \<noteq> CHR '' ''"
  by (auto simp: two_char_type_def split: if_split_asm)

lemma lex_one_char:
  assumes l: "lex_rest l = c # CHR '' '' # rest" and c: "one_char_type c \<noteq> TK_ERROR"
  shows "lex_step l = (Some \<lparr>tok_type = one_char_type c, lexeme = [c], tok_line = lex_line l, tok_column = lex_column l\<rparr>, advance l)"
proof -
  have p: "peek l = c" "peek_next l = CHR '' ''" by (simp_all add: l peek_def peek_next_def)
  have "two_char_type c (CHR '' '') = TK_ERROR" using two_char_facts by blast
  then show ?thesis using one_char_facts [OF c] by (simp add: lex_step_def p lex_operator_def make_token_def)
qed

lemma lex_two_char:
  assumes l: "lex_rest l = c # d # CHR '' '' # rest" and c: "two_char_type c d \<noteq> TK_ERROR"
  shows "lex_step l =
    (Some \<lparr>tok_type = two_char_type c d, lexeme = [c, d], tok_line = lex_line l, tok_column = lex_column l\<rparr>, advance (advance l))"
proof -
  have p: "peek l = c" "peek_next l = d" by (simp_all add: l peek_def peek_next_def)
  have "c \<noteq> CHR ''-'' \<and> c \<noteq> CHR ''/'' \<and> \<not> isalpha c \<and> c \<noteq> CHR ''_'' \<and> \<not> isdigit c \<and> c \<noteq> QUOTE"
    using two_char_facts [OF c] by (auto simp: isalpha_def isdigit_def QUOTE_def)
  then show ?thesis using c by (simp add: lex_step_def p lex_operator_def make_token_def l)
qed

lemma operators_cases:
  assumes "(ty, w) \<in> set operators"
  shows "(\<exists>c. w = [c] \<and> one_char_type c = ty \<and> ty \<noteq> TK_ERROR) \<or> (\<exists>c d. w = [c, d] \<and> two_char_type c d = ty \<and> ty \<noteq> TK_ERROR)"
  using assms unfolding operators_def set_simps insert_iff prod.inject
  by (elim disjE) (simp_all add: one_char_type_def two_char_type_def)

lemma lex_operator_render:
  assumes l: "lex_rest l = w @ CHR '' '' # rest" and w: "(ty, w) \<in> set operators"
  shows "\<exists>l'. lex_step l = (Some \<lparr>tok_type = ty, lexeme = w, tok_line = lex_line l, tok_column = lex_column l\<rparr>, l') \<and>
    lex_rest l' = CHR '' '' # rest"
  using operators_cases [OF w]
proof (elim disjE exE conjE)
  fix c assume "w = [c]" "one_char_type c = ty" "ty \<noteq> TK_ERROR"
  then show ?thesis using lex_one_char [of l c rest] l by (simp add: lex_rest_advance)
next
  fix c d assume "w = [c, d]" "two_char_type c d = ty" "ty \<noteq> TK_ERROR"
  then show ?thesis using lex_two_char [of l c d rest] l by (simp add: lex_rest_advance)
qed

lemma lex_step_render:
  assumes "printable t" "lex_rest l = render t @ CHR '' '' # rest"
  shows "\<exists>l' tok. lex_step l = (Some tok, l') \<and> piece_of tok = t \<and> lex_rest l' = CHR '' '' # rest"
proof -
  obtain ty w where t: "t = (ty, w)" by (cases t)
  have nostr: "ty \<noteq> TK_STRING_LITERAL" if "is_word w \<and> ty = lookup_keyword w"
    using that lookup_keyword_neq(1) by simp
  have op: "ty \<noteq> TK_STRING_LITERAL" if "t \<in> set operators" using that t by (auto simp: operators_def)
  have len: "length w \<le> 255" using assms(1) t by (simp add: printable_def)
  consider "is_word w" "ty = lookup_keyword w" | "is_number_text w" "ty = TK_INT_LITERAL"
    | "is_string_text w" "ty = TK_STRING_LITERAL" | "(ty, w) \<in> set operators"
    using assms(1) t by (auto simp: printable_def)
  then show ?thesis
  proof cases
    case 1
    then show ?thesis using lex_word_render [of l w rest] len assms(2) nostr t by (force simp: render_def piece_of_def)
  next
    case 2
    then show ?thesis using lex_number_render [of l w rest] len assms(2) t by (force simp: render_def piece_of_def)
  next
    case 3
    then show ?thesis using lex_string_render [of l w "CHR '' '' # rest"] len assms(2) t by (force simp: render_def piece_of_def)
  next
    case 4
    then show ?thesis using lex_operator_render [of l w rest ty] assms(2) op t by (force simp: render_def piece_of_def)
  qed
qed

lemma render_nonblank:
  assumes "printable t"
  shows "\<exists>c r. render t = c # r \<and> \<not> is_blank c"
proof -
  obtain ty w where t: "t = (ty, w)" by (cases t)
  consider "is_word w" | "is_number_text w" | "ty = TK_STRING_LITERAL" | "(ty, w) \<in> set operators"
    using assms t by (auto simp: printable_def)
  then show ?thesis
  proof cases
    case 1
    then show ?thesis using t char_facts isalpha_not [of "hd w"] by (cases w) (auto simp: is_word_def render_def)
  next
    case 2
    then show ?thesis using t char_facts isdigit_not [of "hd w"] by (cases w) (auto simp: is_number_text_def render_def)
  next
    case 3
    then show ?thesis using t char_facts by (simp add: render_def)
  next
    case 4
    then show ?thesis using operators_cases [OF 4] t char_facts one_char_facts two_char_facts
      by (fastforce simp: render_def is_blank_def NEWLINE_def)
  qed
qed

lemma skip_whitespace_blank: "lex_rest l = CHR '' '' # rest \<Longrightarrow> lex_rest (skip_whitespace l) = dropWhile is_blank rest"
  by (simp add: skip_whitespace_def lex_rest_advance_while char_facts)

lemma lex_loop_render:
  "list_all printable ts \<Longrightarrow> lex_rest l = render_all ts \<or> lex_rest l = CHR '' '' # render_all ts \<Longrightarrow>
   map piece_of (fst (lex_loop l)) = ts"
proof (induction ts arbitrary: l)
  case Nil
  then show ?case by (subst lex_loop.simps) (auto simp: skip_whitespace_blank)
next
  case (Cons t ts)
  obtain c r where c: "render t = c # r" "\<not> is_blank c" using render_nonblank [of t] Cons.prems(1) unfolding list.pred_inject(2) by blast
  define l1 where "l1 = skip_whitespace l"
  have l1: "lex_rest l1 = render t @ CHR '' '' # render_all ts"
    using Cons.prems(2) c by (auto simp: l1_def skip_whitespace_def lex_rest_advance_while char_facts)
  obtain tok l2 where s: "lex_step l1 = (Some tok, l2)" "piece_of tok = t" "lex_rest l2 = CHR '' '' # render_all ts"
    using lex_step_render [OF _ l1] Cons.prems(1) by auto
  have "map piece_of (fst (lex_loop l2)) = ts" using Cons.IH [of l2] Cons.prems(1) s(3) by simp
  moreover have "lex_rest l \<noteq> []" "lex_rest l1 \<noteq> []" using Cons.prems(2) l1 c by auto
  ultimately show ?case
    by (subst lex_loop.simps) (simp add: Let_def l1_def [symmetric] s split_beta)
qed

text \<open>Lexing undoes rendering: for any sequence of keywords, identifiers, integers, strings and
  operators written out with a space after each, \<open>lexer_tokenize\<close> returns exactly their types and
  lexemes, in order, and then the end-of-file token.\<close>

theorem lexer_round_trip:
  assumes "list_all printable ts"
  shows "map piece_of (fst (lexer_tokenize (lexer_init (render_all ts)))) = ts @ [(TK_EOF, [])]"
proof -
  have "map piece_of (fst (lex_loop (lexer_init (render_all ts)))) = ts"
    using assms by (intro lex_loop_render) (auto simp: lexer_init_def)
  then show ?thesis by (simp add: lexer_tokenize_def split_beta piece_of_def)
qed

theorem lexer_round_trip_witness:
  "map piece_of (fst (lexer_tokenize (lexer_init (render_all [(TK_SELECT, ''select''), (TK_IDENTIFIER, ''a''),
      (TK_LESS, ''<''), (TK_STRING_LITERAL, ''x y'')])))) =
   [(TK_SELECT, ''select''), (TK_IDENTIFIER, ''a''), (TK_LESS, ''<''), (TK_STRING_LITERAL, ''x y''), (TK_EOF, [])]"
proof -
  have "list_all printable [(TK_SELECT, ''select''), (TK_IDENTIFIER, ''a''), (TK_LESS, ''<''), (TK_STRING_LITERAL, ''x y'')]"
    by (simp add: printable_def is_word_def isalnum_def isalpha_def isdigit_def lookup_keyword_def KEYWORDS_def toupper_def
        operators_def is_string_text_def QUOTE_def BACKSLASH_def char_of_def bit_Suc_0_iff)
  from lexer_round_trip [OF this] show ?thesis by simp
qed

section \<open>Positions\<close>

definition line_at :: "string \<Rightarrow> nat \<Rightarrow> int" where
  "line_at src k = 1 + int (count_list (take k src) NEWLINE)"

definition column_at :: "string \<Rightarrow> nat \<Rightarrow> int" where
  "column_at src k = 1 + int (length (takeWhile (\<lambda>c. c \<noteq> NEWLINE) (rev (take k src))))"

text \<open>The lexer stands at offset k of the text.\<close>

definition stands :: "string \<Rightarrow> nat \<Rightarrow> lexer \<Rightarrow> bool" where
  "stands src k l \<longleftrightarrow> k \<le> length src \<and> lex_rest l = drop k src \<and> lex_line l = line_at src k \<and> lex_column l = column_at src k"

lemma stands_advance:
  assumes "stands src k l" "lex_rest l \<noteq> []"
  shows "stands src (Suc k) (advance l)"
proof -
  have k: "k < length src" using assms by (auto simp: stands_def)
  then have r: "lex_rest l = src ! k # drop (Suc k) src" using assms(1) by (simp add: stands_def Cons_nth_drop_Suc)
  have a: "advance l = (if src ! k = NEWLINE then \<lparr>lex_rest = drop (Suc k) src, lex_line = lex_line l + 1, lex_column = 1\<rparr>
      else \<lparr>lex_rest = drop (Suc k) src, lex_line = lex_line l, lex_column = lex_column l + 1\<rparr>)"
    by (simp add: advance_def r)
  show ?thesis using assms(1) k unfolding a
    by (simp add: stands_def line_at_def column_at_def take_Suc_conv_app_nth)
qed

text \<open>Every part of the lexer moves forward in the text.\<close>

definition moves :: "lexer \<Rightarrow> lexer \<Rightarrow> bool" where
  "moves l l' \<longleftrightarrow> (\<forall>src k. stands src k l \<longrightarrow> (\<exists>k' \<ge> k. stands src k' l'))"

lemma moves_refl [simp, intro]: "moves l l"
  by (auto simp: moves_def)

lemma moves_trans: "moves l l' \<Longrightarrow> moves l' l'' \<Longrightarrow> moves l l''"
  unfolding moves_def by (meson order_trans)

lemma moves_advance [intro]: "moves l (advance l)"
proof (cases "lex_rest l = []")
  case False
  then show ?thesis unfolding moves_def using stands_advance by (meson le_SucI order_refl)
qed (simp add: advance_def)

lemma moves_after_advance: "moves (advance l) l' \<Longrightarrow> moves l l'"
  and moves_then_advance: "moves l l' \<Longrightarrow> moves l (advance l')"
  using moves_trans [OF moves_advance] moves_trans [OF _ moves_advance] by blast+

lemma moves_advance_while: "moves l (advance_while P l)"
proof (induction P l rule: advance_while.induct)
  case (1 P l)
  then show ?case by (subst advance_while.simps) (auto intro: moves_after_advance)
qed

lemma moves_then_while: "moves l l' \<Longrightarrow> moves l (advance_while P l')"
  using moves_trans [OF _ moves_advance_while] by blast

lemma moves_skip_block_comment: "moves l (skip_block_comment l)"
proof (induction l rule: skip_block_comment.induct)
  case (1 l)
  then show ?case by (subst skip_block_comment.simps) (auto intro: moves_after_advance moves_then_advance)
qed

lemma moves_string_body: "moves l (string_body l)"
proof (induction l rule: string_body.induct)
  case (1 l)
  then show ?case by (subst string_body.simps) (auto intro: moves_after_advance)
qed

lemma moves_lex_number: "moves l (snd (lex_number l))"
proof -
  have f: "moves l (snd (lex_fraction l))" for l
    by (auto simp: lex_fraction_def intro: moves_then_while moves_then_advance)
  have e: "moves l (snd (lex_exponent (ty, l)))" for ty l
    by (auto simp: lex_exponent_def Let_def intro: moves_then_while moves_then_advance)
  show ?thesis
    using e [of "snd (lex_fraction (advance_while isdigit l))" "fst (lex_fraction (advance_while isdigit l))"]
      f [of "advance_while isdigit l"] moves_advance_while [of l isdigit]
    by (simp add: lex_number_def Let_def split_beta) (blast intro: moves_trans)
qed

lemma lex_step_alt:
  "lex_step l =
     (if peek l = CHR ''-'' \<and> peek_next l = CHR ''-'' then (None, skip_line_comment l)
      else if peek l = CHR ''/'' \<and> peek_next l = CHR ''*'' then (None, skip_block_comment (advance (advance l)))
      else if isalpha (peek l) \<or> peek l = CHR ''_'' then (Some (fst (lex_word l)), snd (lex_word l))
      else if isdigit (peek l) then (Some (fst (lex_number l)), snd (lex_number l))
      else if peek l = QUOTE then (Some (fst (lex_string l)), snd (lex_string l))
      else (Some (fst (lex_operator l)), snd (lex_operator l)))"
  unfolding lex_step_def Let_def split_beta by (simp only: if_distrib [of fst] if_distrib [of snd] cong: if_cong split: if_split) simp

lemma lex_step_cases:
  obtains "lex_step l = (None, skip_line_comment l)"
    | "lex_step l = (None, skip_block_comment (advance (advance l)))"
    | "lex_step l = (Some (fst (lex_word l)), snd (lex_word l))"
    | "isdigit (peek l)" "lex_step l = (Some (fst (lex_number l)), snd (lex_number l))"
    | "lex_step l = (Some (fst (lex_string l)), snd (lex_string l))"
    | "lex_step l = (Some (fst (lex_operator l)), snd (lex_operator l))"
  using lex_step_alt [of l] by argo

lemma moves_lex_step: "moves l (snd (lex_step l))"
proof (cases rule: lex_step_cases [of l])
  case 1
  then show ?thesis by (simp add: skip_line_comment_def moves_advance_while)
next
  case 2
  then show ?thesis by (simp add: moves_after_advance moves_skip_block_comment)
next
  case 3
  then show ?thesis by (simp add: lex_word_def Let_def moves_advance_while)
next
  case 4
  then show ?thesis by (simp add: moves_lex_number)
next
  case 5
  have "moves l (string_body (advance l))" by (rule moves_after_advance [OF moves_string_body])
  then show ?thesis using 5 by (simp add: lex_string_def Let_def moves_then_advance)
next
  case 6
  then show ?thesis by (simp add: lex_operator_def Let_def moves_advance moves_then_advance)
qed

text \<open>A token says where it begins, and its lexeme is what the text has there (after the quote of a string).\<close>

definition located :: "string \<Rightarrow> nat \<Rightarrow> token \<Rightarrow> bool" where
  "located src k t \<longleftrightarrow> k \<le> length src \<and> tok_line t = line_at src k \<and> tok_column t = column_at src k \<and>
     lexeme t = take (length (lexeme t)) (drop (if tok_type t = TK_STRING_LITERAL then Suc k else k) src)"

lemma take_take_length: "take n xs = take (length (take n xs)) xs"
  by (metis length_take min_def nle_le take_all)

lemma lex_step_located:
  assumes "stands src k l" "lex_step l = (Some t, l')" "lex_rest l \<noteq> []"
  shows "located src k t"
proof -
  have nos: "lookup_keyword w \<noteq> TK_STRING_LITERAL" for w by (rule lookup_keyword_neq)
  have num: "fst (lex_exponent (lex_fraction l)) \<noteq> TK_STRING_LITERAL" for l
    by (auto simp: lex_exponent_def lex_fraction_def Let_def)
  have op: "two_char_type c d \<noteq> TK_STRING_LITERAL" "one_char_type c \<noteq> TK_STRING_LITERAL" for c d
    by (auto simp: two_char_type_def one_char_type_def)
  have tok: "located src k (make_token ty (lex_rest l) n (lex_line l) (lex_column l))" if "ty \<noteq> TK_STRING_LITERAL" for ty n
    using that assms(1) take_take_length [of "min n 255" "lex_rest l"] by (simp add: located_def make_token_def stands_def)
  have "located src k (fst (lex_word l))" using tok nos by (simp add: lex_word_def Let_def)
  moreover have "located src k (fst (lex_number l))" using tok num by (simp add: lex_number_def Let_def split_beta)
  moreover have "located src k (fst (lex_operator l))"
  proof -
    have "[peek l] = take 1 (lex_rest l)" using assms(3) by (cases "lex_rest l") (simp_all add: peek_def)
    then have "located src k (make_token (one_char_type (peek l)) [peek l] 1 (lex_line l) (lex_column l))"
      using tok [of "one_char_type (peek l)" 1] op by (simp add: make_token_def)
    then show ?thesis using tok op by (simp add: lex_operator_def Let_def)
  qed
  moreover have "located src k (fst (lex_string l))"
  proof -
    have "lex_rest (advance l) = drop (Suc k) src" using assms(1) by (simp add: lex_rest_advance stands_def drop_Suc tl_drop)
    then show ?thesis
      using assms(1) take_take_length by (simp add: located_def lex_string_def Let_def make_token_def stands_def)
  qed
  ultimately show ?thesis using assms(2) by (cases rule: lex_step_cases [of l]) simp_all
qed

lemma stands_rest_less: "stands src k l \<Longrightarrow> stands src k' l' \<Longrightarrow> length (lex_rest l') < length (lex_rest l) \<Longrightarrow> k < k'"
  by (auto simp: stands_def)

lemma lex_loop_located:
  assumes "stands src k l" "lex_loop l = (ts, l')"
  shows "\<exists>ks k'. stands src k' l' \<and> k \<le> k' \<and> length ks = length ts \<and>
    (\<forall>i < length ts. located src (ks ! i) (ts ! i)) \<and> sorted_wrt (<) ks \<and> (\<forall>j \<in> set ks. k \<le> j \<and> j < k')"
  using assms
proof (induction l arbitrary: k ts l' rule: lex_loop.induct)
  case (1 l)
  define l1 where "l1 = skip_whitespace l"
  obtain k1 where k1: "k \<le> k1" "stands src k1 l1"
    using 1(2) moves_advance_while [of l is_blank] by (auto simp: moves_def l1_def skip_whitespace_def)
  show ?case
  proof (cases "lex_rest l = [] \<or> lex_rest l1 = []")
    case True
    then have "ts = [] \<and> (l' = l \<or> l' = l1)" using 1(3) by (subst (asm) lex_loop.simps) (auto simp: l1_def Let_def split: if_split_asm)
    then show ?thesis using 1(2) k1 by auto
  next
    case False
    obtain t l2 where s: "lex_step l1 = (t, l2)" by fastforce
    obtain ts2 where r: "lex_loop l2 = (ts2, l')" "ts = (case t of None \<Rightarrow> ts2 | Some t \<Rightarrow> t # ts2)"
      using 1(3) False s by (subst (asm) lex_loop.simps) (auto simp: l1_def Let_def split: prod.splits)
    obtain k2 where k2: "stands src k2 l2" using moves_lex_step [of l1] k1(2) s by (auto simp: moves_def)
    have lt: "k1 < k2" using stands_rest_less [OF k1(2) k2] length_lex_step [of l1] False s by simp
    obtain ks k' where ks: "stands src k' l'" "k2 \<le> k'" "length ks = length ts2" "\<forall>i < length ts2. located src (ks ! i) (ts2 ! i)"
      "sorted_wrt (<) ks" "\<forall>j \<in> set ks. k2 \<le> j \<and> j < k'"
      using 1(1) [of l1 "(t, l2)" t l2 k2 ts2 l'] False s r(1) k2 by (auto simp: l1_def)
    show ?thesis
    proof (cases t)
      case None
      then show ?thesis using ks r(2) k1(1) lt by (intro exI [of _ ks] exI [of _ k']) auto
    next
      case (Some tok)
      have "located src k1 tok" using lex_step_located [OF k1(2)] s Some False by simp
      then show ?thesis using ks r(2) k1(1) lt Some
        by (intro exI [of _ "k1 # ks"] exI [of _ k']) (auto simp: nth_Cons' less_Suc_eq_0_disj)
    qed
  qed
qed

lemma lex_loop_end: "lex_rest (snd (lex_loop l)) = []"
proof (induction l rule: lex_loop.induct)
  case (1 l)
  show ?case
  proof (cases "lex_rest l = [] \<or> lex_rest (skip_whitespace l) = []")
    case True
    then show ?thesis by (subst lex_loop.simps) (auto simp: Let_def)
  next
    case False
    obtain t l2 where "lex_step (skip_whitespace l) = (t, l2)" by fastforce
    then show ?thesis using 1 [OF _ refl _ _ refl, of t] False by (subst lex_loop.simps) (auto simp: Let_def split_beta)
  qed
qed

text \<open>C13. Every token, the end of file included, carries the line and column of the place where it begins,
  its lexeme is the text found there (after the opening quote for a string), and the tokens come in the
  order of the text, the end of file at its end.\<close>

theorem lexer_positions:
  "\<exists>ks. length ks = length (fst (lexer_tokenize (lexer_init src))) \<and> sorted_wrt (<) ks \<and> last ks = length src \<and>
     (\<forall>(k, t) \<in> set (zip ks (fst (lexer_tokenize (lexer_init src)))). located src k t) \<and>
     tok_type (last (fst (lexer_tokenize (lexer_init src)))) = TK_EOF"
proof -
  obtain ts l' where r: "lex_loop (lexer_init src) = (ts, l')" by fastforce
  have "stands src 0 (lexer_init src)" by (simp add: stands_def lexer_init_def line_at_def column_at_def)
  then obtain ks k' where k: "stands src k' l'" "length ks = length ts" "\<forall>i < length ts. located src (ks ! i) (ts ! i)"
    "sorted_wrt (<) ks" "\<forall>j \<in> set ks. j < k'"
    using lex_loop_located [OF _ r] by blast
  have "lex_rest l' = []" using lex_loop_end [of "lexer_init src"] r by simp
  then have k': "k' = length src" using k(1) by (simp add: stands_def)
  define eof where "eof = \<lparr>tok_type = TK_EOF, lexeme = [], tok_line = lex_line l', tok_column = lex_column l'\<rparr>"
  have "located src k' eof" using k(1) by (simp add: located_def eof_def stands_def)
  then have "\<forall>(k, t) \<in> set (zip (ks @ [k']) (ts @ [eof])). located src k t"
    using k(2,3) by (auto simp: set_zip)
  moreover have "sorted_wrt (<) (ks @ [k'])" using k(4,5) by (simp add: sorted_wrt_append)
  moreover have "fst (lexer_tokenize (lexer_init src)) = ts @ [eof]" by (simp add: lexer_tokenize_def r eof_def)
  ultimately show ?thesis using k(2) k' by (intro exI [of _ "ks @ [k']"]) (simp add: eof_def)
qed

theorem lexer_positions_witness:
  "\<exists>ks. length ks = length (fst (lexer_tokenize (lexer_init ''a b''))) \<and> last ks = 3 \<and>
     (\<forall>(k, t) \<in> set (zip ks (fst (lexer_tokenize (lexer_init ''a b'')))). located ''a b'' k t)"
  using lexer_positions [of "''a b''"] by auto

section \<open>Keywords the parser waits for\<close>

text \<open>The keyword table has no AS and no CONSTRAINT, so the lexer never produces the tokens TK_AS and
  TK_CONSTRAINT that the parser looks for.\<close>

theorem lookup_keyword_never_as:
  "lookup_keyword w \<noteq> TK_AS \<and> lookup_keyword w \<noteq> TK_CONSTRAINT"
  by (simp add: lookup_keyword_neq)

end
