(* ===== verification/Ast.thy ===== *)
theory Ast
  imports Lexer Value
begin

text \<open>
  The syntax trees of \<open>src/parser/ast.h\<close>. A pointer to an expression is the expression, NULL where the
  code allows it is None; an array with its count is a list; a name buffer is a string, already cut to
  what the buffer holds. The parser never makes a sub-query, so that constructor has no argument.
\<close>

section \<open>Expressions\<close>

datatype ast_value = VALUE_NULL | VALUE_BOOL bool | VALUE_INT int | VALUE_FLOAT double | VALUE_STRING string

datatype expr =
    EXPR_LITERAL ast_value
  | EXPR_COLUMN_REF string string
  | EXPR_BINARY expr token_type expr
  | EXPR_UNARY token_type expr
  | EXPR_FUNCTION_CALL string "expr list" bool
  | EXPR_SUBQUERY
  | EXPR_IS_NULL expr bool
  | EXPR_IN_EXPR expr "expr list" bool
  | EXPR_BETWEEN expr expr expr bool
  | EXPR_LIKE expr string bool

section \<open>Statements\<close>

datatype col_data_type = COL_TYPE_INTEGER | COL_TYPE_FLOAT | COL_TYPE_VARCHAR | COL_TYPE_BOOLEAN

record ast_column_def =
  acol_name :: string
  acol_type :: col_data_type
  acol_varchar_len :: int
  acol_primary_key :: bool
  acol_not_null :: bool
  acol_unique :: bool
  acol_has_default :: bool
  acol_default :: ast_value

record table_ref =
  tref_name :: string
  tref_alias :: string

record join_clause =
  join_type :: token_type
  join_table :: table_ref
  join_condition :: "expr option"

record assignment =
  asg_column :: string
  asg_value :: expr

record order_by_item =
  ord_expr :: expr
  ord_ascending :: bool

record create_table_stmt =
  ct_table :: string
  ct_columns :: "ast_column_def list"
  ct_if_not_exists :: bool

record drop_table_stmt =
  dt_table :: string
  dt_if_exists :: bool

record create_index_stmt =
  ci_table :: string
  ci_index :: string
  ci_columns :: "string list"
  ci_unique :: bool

record drop_index_stmt =
  di_index :: string
  di_table :: string

record insert_stmt =
  ins_table :: string
  ins_columns :: "string list"
  ins_values :: "expr list list"

record update_stmt =
  upd_table :: string
  upd_assignments :: "assignment list"
  upd_where :: "expr option"

record delete_stmt =
  del_table :: string
  del_where :: "expr option"

record select_stmt =
  sel_list :: "expr list"
  sel_distinct :: bool
  sel_from :: "table_ref list"
  sel_joins :: "join_clause list"
  sel_where :: "expr option"
  sel_group :: "expr list"
  sel_having :: "expr option"
  sel_order :: "order_by_item list"
  sel_limit :: int
  sel_offset :: int

datatype stmt =
    STMT_CREATE_TABLE create_table_stmt
  | STMT_DROP_TABLE drop_table_stmt
  | STMT_CREATE_INDEX create_index_stmt
  | STMT_DROP_INDEX drop_index_stmt
  | STMT_INSERT insert_stmt
  | STMT_UPDATE update_stmt
  | STMT_DELETE delete_stmt
  | STMT_SELECT select_stmt
  | STMT_BEGIN string
  | STMT_COMMIT
  | STMT_ROLLBACK
  | STMT_SET_ISOLATION string
  | STMT_EXPLAIN stmt

end
