(* ===== verification/Parser_Expr.thy ===== *)
theory Parser_Expr
  imports Ast "HOL-Library.Sublist"
begin

text \<open>
  The expression parser of \<open>src/parser/parser.c\<close>: precedence climbing over the token array. The array
  and the position in it are kept as the tokens from the position on. The parser functions are mutually
  recursive and each consumes tokens between one call and the next, which is how they are shown to end.

  A result is None where the code leaves defined behaviour: a LIKE whose pattern is not a string literal
  keeps a pointer to an expression it has just freed. Otherwise it is the expression, or None for NULL,
  with the state of the parser. \<open>strtod\<close> on the lexeme of a float literal is a parameter.
\<close>

section \<open>The parser state\<close>

record parser =
  toks :: "token list"
  error_msg :: string
  error_line :: int
  error_column :: int
  has_error :: bool

definition parser_init :: "token list \<Rightarrow> parser" where
  "parser_init ts = \<lparr>toks = ts, error_msg = [], error_line = 0, error_column = 0, has_error = False\<rparr>"

definition parser_destroy :: "parser \<Rightarrow> parser" where
  "parser_destroy p = p"

text \<open>The array ends with TK_EOF, which the parser never consumes; past it the model sees TK_EOF again.\<close>

definition eof_token :: token where
  "eof_token = \<lparr>tok_type = TK_EOF, lexeme = [], tok_line = 0, tok_column = 0\<rparr>"

definition p_peek :: "parser \<Rightarrow> token" where
  "p_peek p = (case toks p of [] \<Rightarrow> eof_token | t # _ \<Rightarrow> t)"

definition peek_type :: "parser \<Rightarrow> token_type" where
  "peek_type p = tok_type (p_peek p)"

definition peek_next_type :: "parser \<Rightarrow> token_type" where
  "peek_next_type p = (case toks p of _ # t # _ \<Rightarrow> tok_type t | _ \<Rightarrow> TK_EOF)"

definition p_advance :: "parser \<Rightarrow> parser" where
  "p_advance p = p\<lparr>toks := tl (toks p)\<rparr>"

definition is_at_end :: "parser \<Rightarrow> bool" where
  "is_at_end p \<longleftrightarrow> toks p = [] \<or> peek_type p = TK_EOF"

definition parser_error :: "parser \<Rightarrow> string \<Rightarrow> parser" where
  "parser_error p msg =
     p\<lparr>error_msg := take 511 msg, error_line := tok_line (p_peek p), error_column := tok_column (p_peek p), has_error := True\<rparr>"

definition p_match :: "parser \<Rightarrow> token_type \<Rightarrow> bool \<times> parser" where
  "p_match p ty = (if peek_type p = ty then (True, p_advance p) else (False, p))"

definition dec :: "int \<Rightarrow> string" where
  "dec i = map (\<lambda>b. char_of (unat b)) (fmt_lld i)"

definition p_expect :: "parser \<Rightarrow> token_type \<Rightarrow> bool \<times> parser" where
  "p_expect p ty =
     (if peek_type p = ty then (True, p_advance p)
      else
        (False,
         parser_error p
           (''Syntax error at line '' @ dec (tok_line (p_peek p)) @ '', column '' @ dec (tok_column (p_peek p)) @
            '': expected '' @ token_type_to_string ty @ '' but found '' @ token_type_to_string (peek_type p))))"

text \<open>\<open>expect\<close> where its result is not looked at.\<close>

definition p_skip :: "parser \<Rightarrow> token_type \<Rightarrow> parser" where
  "p_skip p ty = snd (p_expect p ty)"

section \<open>Leaves\<close>

definition get_precedence :: "token_type \<Rightarrow> nat" where
  "get_precedence op =
     (if op = TK_OR then 1
      else if op = TK_AND then 2
      else if op = TK_NOT then 3
      else if op \<in> {TK_EQUAL, TK_NOT_EQUAL, TK_LESS, TK_LESS_EQUAL, TK_GREATER, TK_GREATER_EQUAL, TK_IS, TK_IN, TK_BETWEEN, TK_LIKE} then 4
      else if op \<in> {TK_PLUS, TK_MINUS} then 5
      else if op \<in> {TK_STAR, TK_SLASH} then 6
      else 0)"

definition is_right_associative :: "token_type \<Rightarrow> bool" where
  "is_right_associative op = False"

definition literal_types :: "token_type list" where
  "literal_types = [TK_INT_LITERAL, TK_FLOAT_LITERAL, TK_STRING_LITERAL, TK_NULL, TK_TRUE, TK_FALSE]"

definition parse_literal_expr :: "(string \<Rightarrow> double) \<Rightarrow> parser \<Rightarrow> expr option \<times> parser" where
  "parse_literal_expr strtod p =
     (let tok = p_peek p; ty = tok_type tok
      in if ty = TK_INT_LITERAL then (Some (EXPR_LITERAL (VALUE_INT (fst (strtoll (cstr (lexeme tok)))))), p_advance p)
         else if ty = TK_FLOAT_LITERAL then (Some (EXPR_LITERAL (VALUE_FLOAT (strtod (lexeme tok)))), p_advance p)
         else if ty = TK_STRING_LITERAL then (Some (EXPR_LITERAL (VALUE_STRING (take 255 (lexeme tok)))), p_advance p)
         else if ty = TK_TRUE then (Some (EXPR_LITERAL (VALUE_BOOL True)), p_advance p)
         else if ty = TK_FALSE then (Some (EXPR_LITERAL (VALUE_BOOL False)), p_advance p)
         else if ty = TK_NULL then (Some (EXPR_LITERAL VALUE_NULL), p_advance p)
         else (None, parser_error p (''Expected literal but found '' @ token_type_to_string ty)))"

definition parse_column_ref_or_identifier :: "parser \<Rightarrow> expr option \<times> parser" where
  "parse_column_ref_or_identifier p =
     (let tok = p_peek p
      in if tok_type tok \<noteq> TK_IDENTIFIER then
           (None, parser_error p (''Expected identifier but found '' @ token_type_to_string (tok_type tok)))
         else
           let name = take 63 (lexeme tok); p = p_advance p
           in if peek_type p = TK_DOT then
                let p = p_advance p; col = p_peek p
                in if tok_type col = TK_IDENTIFIER \<or> tok_type col = TK_STAR then
                     (Some (EXPR_COLUMN_REF name (take 63 (lexeme col))), p_advance p)
                   else (None, parser_error p (''Expected column name after '' @ [QUOTE, CHR ''.'', QUOTE]))
              else (Some (EXPR_COLUMN_REF [] name), p))"

section \<open>Expressions\<close>

type_synonym 'a presult = "('a option \<times> parser) option"

text \<open>The caller that returns NULL at once when a part is NULL.\<close>

definition pbind :: "'a presult \<Rightarrow> ('a \<Rightarrow> parser \<Rightarrow> 'b presult) \<Rightarrow> 'b presult" where
  "pbind m f = (case m of None \<Rightarrow> None | Some (None, p) \<Rightarrow> Some (None, p) | Some (Some x, p) \<Rightarrow> f x p)"

lemma pbind_cong [fundef_cong]:
  "m = m' \<Longrightarrow> (\<And>x p. m' = Some (Some x, p) \<Longrightarrow> f x p = f' x p) \<Longrightarrow> pbind m f = pbind m' f'"
  by (auto simp: pbind_def split: option.split prod.split)

lemma pbind_simps [simp]:
  "pbind None f = None" "pbind (Some (None, p)) f = Some (None, p)" "pbind (Some (Some x, p)) f = f x p"
  by (simp_all add: pbind_def)

definition agg_types :: "token_type list" where
  "agg_types = [TK_COUNT, TK_SUM, TK_AVG, TK_MIN, TK_MAX]"

function (sequential)
  parse_expression_prec :: "(string \<Rightarrow> double) \<Rightarrow> nat \<Rightarrow> parser \<Rightarrow> expr presult" and
  infix_loop :: "(string \<Rightarrow> double) \<Rightarrow> nat \<Rightarrow> expr \<Rightarrow> parser \<Rightarrow> expr presult" and
  parse_primary :: "(string \<Rightarrow> double) \<Rightarrow> parser \<Rightarrow> expr presult" and
  parse_function_call :: "(string \<Rightarrow> double) \<Rightarrow> string \<Rightarrow> parser \<Rightarrow> expr presult" and
  parse_list :: "(string \<Rightarrow> double) \<Rightarrow> parser \<Rightarrow> expr list presult"
where
  "parse_expression_prec sd min_prec p = pbind (parse_primary sd p) (\<lambda>left p. infix_loop sd min_prec left p)"
| "infix_loop sd min_prec left p =
     (if get_precedence (peek_type p) = 0 \<or> get_precedence (peek_type p) < min_prec then Some (Some left, p)
      else if peek_type p = TK_IS then
        let prec = get_precedence (peek_type p);
            is_not = fst (p_match (p_advance p) TK_NOT);
            p = snd (p_match (p_advance p) TK_NOT)
        in if peek_type p = TK_NULL then infix_loop sd min_prec (EXPR_IS_NULL left is_not) (p_advance p)
           else
             pbind (parse_expression_prec sd (prec + 1) p) (\<lambda>right p.
               infix_loop sd min_prec (EXPR_BINARY left (if is_not then TK_NOT_EQUAL else TK_EQUAL) right) p)
      else if peek_type p = TK_NOT \<and> peek_next_type p \<notin> {TK_IN, TK_BETWEEN, TK_LIKE} then Some (Some left, p)
      else
        let prec = get_precedence (peek_type p);
            is_not = fst (p_match p TK_NOT);
            p = snd (p_match p TK_NOT);
            op = peek_type p
        in if op = TK_IN then
             pbind (parse_list sd (p_skip (p_advance p) TK_LEFT_PAREN)) (\<lambda>items p.
               infix_loop sd min_prec (EXPR_IN_EXPR left items is_not) (p_skip p TK_RIGHT_PAREN))
           else if op = TK_BETWEEN then
             pbind (parse_expression_prec sd (prec + 1) (p_advance p)) (\<lambda>low p.
               pbind (parse_expression_prec sd (prec + 1) (p_skip p TK_AND)) (\<lambda>high p.
                 infix_loop sd min_prec (EXPR_BETWEEN left low high is_not) p))
           else if op = TK_LIKE then
             pbind (parse_primary sd (p_advance p)) (\<lambda>pat p.
               case pat of
                 EXPR_LITERAL (VALUE_STRING s) \<Rightarrow> infix_loop sd min_prec (EXPR_LIKE left (take 255 s) is_not) p
               | _ \<Rightarrow> None)
           else
             pbind (parse_expression_prec sd (if is_right_associative op then prec else prec + 1) (p_advance p)) (\<lambda>right p.
               infix_loop sd min_prec (EXPR_BINARY left op right) p))"
| "parse_primary sd p =
     (let tt = peek_type p
      in if has_error p then Some (None, p)
         else if tt \<in> set literal_types then Some (parse_literal_expr sd p)
         else if tt = TK_LEFT_PAREN then
           (case parse_expression_prec sd 1 (p_advance p) of
              None \<Rightarrow> None
            | Some (e, p) \<Rightarrow> Some (e, p_skip p TK_RIGHT_PAREN))
         else if tt = TK_MINUS then
           pbind (parse_primary sd (p_advance p)) (\<lambda>operand p. Some (Some (EXPR_UNARY TK_MINUS operand), p))
         else if tt = TK_NOT then
           pbind (parse_expression_prec sd 3 (p_advance p)) (\<lambda>operand p. Some (Some (EXPR_UNARY TK_NOT operand), p))
         else if tt \<in> set agg_types then parse_function_call sd (take 63 (lexeme (p_peek p))) (p_advance p)
         else if tt = TK_IDENTIFIER then
           if peek_next_type p = TK_LEFT_PAREN then parse_function_call sd (take 63 (lexeme (p_peek p))) (p_advance p)
           else Some (parse_column_ref_or_identifier p)
         else if tt = TK_STAR then Some (Some (EXPR_COLUMN_REF [] ''*''), p_advance p)
         else
           Some (None, parser_error p
             (''Unexpected token: '' @ token_type_to_string tt @ '' ('' @ [QUOTE] @ lexeme (p_peek p) @ [QUOTE] @ '')'')))"
| "parse_function_call sd name p =
     (let p = p_skip p TK_LEFT_PAREN
      in if peek_type p = TK_STAR then Some (Some (EXPR_FUNCTION_CALL name [] True), p_skip (p_advance p) TK_RIGHT_PAREN)
         else if peek_type p \<noteq> TK_RIGHT_PAREN then
           pbind (parse_list sd p) (\<lambda>args p. Some (Some (EXPR_FUNCTION_CALL name args False), p_skip p TK_RIGHT_PAREN))
         else Some (Some (EXPR_FUNCTION_CALL name [] False), p_skip p TK_RIGHT_PAREN))"
| "parse_list sd p =
     pbind (parse_expression_prec sd 1 p) (\<lambda>e p.
       if fst (p_match p TK_COMMA) then
         pbind (parse_list sd (snd (p_match p TK_COMMA))) (\<lambda>es p. Some (Some (e # es), p))
       else Some (Some [e], snd (p_match p TK_COMMA)))"
  by pat_completeness auto

lemma peek_nonempty: "peek_type p \<noteq> TK_EOF \<Longrightarrow> toks p \<noteq> []"
  by (auto simp: peek_type_def p_peek_def eof_token_def)

lemma toks_parser_error [simp]: "toks (parser_error p msg) = toks p"
  by (simp add: parser_error_def)

abbreviation (input) left_of :: "parser \<Rightarrow> nat" where "left_of p \<equiv> length (toks p)"

lemma left_advance: "left_of (p_advance p) \<le> left_of p"
  by (simp add: p_advance_def)

lemma left_advance_less: "peek_type p \<noteq> TK_EOF \<Longrightarrow> left_of (p_advance p) < left_of p"
  using peek_nonempty [of p] by (simp add: p_advance_def)

lemma left_match: "left_of (snd (p_match p ty)) \<le> left_of p"
  by (simp add: p_match_def left_advance)

lemma left_match_less: "fst (p_match p ty) \<Longrightarrow> ty \<noteq> TK_EOF \<Longrightarrow> left_of (snd (p_match p ty)) < left_of p"
  using left_advance_less [of p] by (auto simp: p_match_def split: if_split_asm)

lemma left_skip: "left_of (p_skip p ty) \<le> left_of p"
  by (simp add: p_skip_def p_expect_def left_advance)

lemma left_literal: "left_of (snd (parse_literal_expr sd p)) \<le> left_of p"
  by (simp add: parse_literal_expr_def Let_def left_advance)

lemma left_column_ref: "left_of (snd (parse_column_ref_or_identifier p)) \<le> left_of p"
  using left_advance [of p] left_advance [of "p_advance p"] left_advance [of "p_advance (p_advance p)"]
  by (simp add: parse_column_ref_or_identifier_def Let_def)

lemma get_precedence_pos: "get_precedence ty \<noteq> 0 \<Longrightarrow> ty \<noteq> TK_EOF"
  by (auto simp: get_precedence_def)

lemma left_advance_le: "left_of p \<le> n \<Longrightarrow> left_of (p_advance p) \<le> n"
  and left_match_le: "left_of p \<le> n \<Longrightarrow> left_of (snd (p_match p ty)) \<le> n"
  and left_skip_le: "left_of p \<le> n \<Longrightarrow> left_of (p_skip p ty) \<le> n"
  using left_advance [of p] left_match [of p ty] left_skip [of p ty] by simp_all

lemmas left_le = left_advance_le left_match_le left_skip_le

text \<open>A result that leaves at most n tokens.\<close>

definition within :: "nat \<Rightarrow> 'a presult \<Rightarrow> bool" where
  "within n r \<longleftrightarrow> (\<forall>x p'. r = Some (x, p') \<longrightarrow> left_of p' \<le> n)"

lemma within_None [intro]: "within n None"
  and within_Some [intro]: "left_of p \<le> n \<Longrightarrow> within n (Some (x, p))"
  by (simp_all add: within_def)

lemma withinD: "r = Some (x, p') \<Longrightarrow> within n r \<Longrightarrow> left_of p' \<le> n"
  by (simp add: within_def)

lemma within_mono: "within m r \<Longrightarrow> m \<le> n \<Longrightarrow> within n r"
  by (auto simp: within_def)

lemma within_pbind:
  "within n m \<Longrightarrow> (\<And>x p. m = Some (Some x, p) \<Longrightarrow> left_of p \<le> n \<Longrightarrow> within n (f x p)) \<Longrightarrow> within n (pbind m f)"
  by (cases m) (auto simp: within_def pbind_def split: option.split prod.split)

lemma within_if: "(c \<Longrightarrow> within n a) \<Longrightarrow> (\<not> c \<Longrightarrow> within n b) \<Longrightarrow> within n (if c then a else b)"
  by simp

lemma within_pair: "left_of (snd r) \<le> n \<Longrightarrow> within n (Some r)"
  by (cases r) (simp add: within_def)

lemma within_like:
  "(\<And>s. pat = EXPR_LITERAL (VALUE_STRING s) \<Longrightarrow> within n (f s)) \<Longrightarrow>
   within n (case pat of EXPR_LITERAL (VALUE_STRING s) \<Rightarrow> f s | _ \<Rightarrow> None)"
  by (auto split: expr.split ast_value.split)

lemma within_paren:
  "within n m \<Longrightarrow> within n (case m of None \<Rightarrow> None | Some (e, p) \<Rightarrow> Some (e, p_skip p ty))"
  using left_skip_le by (auto simp: within_def split: option.splits prod.splits)

lemma parse_within:
  "parse_expression_prec_infix_loop_parse_primary_parse_function_call_parse_list_dom (Inl (Inl (sd, n, p))) \<Longrightarrow>
     within (left_of p) (parse_expression_prec sd n p)"
  "parse_expression_prec_infix_loop_parse_primary_parse_function_call_parse_list_dom (Inl (Inr (sd, n, e, p))) \<Longrightarrow>
     within (left_of p) (infix_loop sd n e p)"
  "parse_expression_prec_infix_loop_parse_primary_parse_function_call_parse_list_dom (Inr (Inl (sd, p))) \<Longrightarrow>
     within (left_of p) (parse_primary sd p)"
  "parse_expression_prec_infix_loop_parse_primary_parse_function_call_parse_list_dom (Inr (Inr (Inl (sd, s, p)))) \<Longrightarrow>
     within (left_of p) (parse_function_call sd s p)"
  "parse_expression_prec_infix_loop_parse_primary_parse_function_call_parse_list_dom (Inr (Inr (Inr (sd, p)))) \<Longrightarrow>
     within (left_of p) (parse_list sd p)"
proof (induction rule: parse_expression_prec_infix_loop_parse_primary_parse_function_call_parse_list.pinduct)
  case (1 sd min_prec p)
  then show ?case unfolding parse_expression_prec.psimps [OF 1(1)]
    by (blast intro: within_pbind within_mono)
next
  case (2 sd min_prec left p)
  show ?case unfolding infix_loop.psimps [OF 2(1)] Let_def
    by (rule within_if within_like within_pbind within_None within_Some order_refl | (intro left_le; fail)
       | (rule within_mono, (rule 2(2-); (assumption | rule refl)), (assumption | (intro left_le order_refl; assumption)))
       | assumption)+
next
  case (3 sd p)
  show ?case unfolding parse_primary.psimps [OF 3(1)] Let_def
    by (rule within_if within_pbind within_None within_Some order_refl within_paren within_pair left_literal left_column_ref
         left_advance toks_parser_error [THEN arg_cong, THEN eq_imp_le]
       | (rule within_mono, (rule 3(2-); (assumption | rule refl)), (assumption | (intro left_le order_refl; assumption)))
       | assumption)+
next
  case (4 sd name p)
  show ?case unfolding parse_function_call.psimps [OF 4(1)] Let_def
    using 4(2) by (auto intro!: within_pbind left_le within_Some intro: within_mono)
next
  case (5 sd p)
  show ?case unfolding parse_list.psimps [OF 5(1)]
    by (rule within_if within_pbind within_Some
       | (rule within_mono, (rule 5(2-); assumption), (assumption | rule order_refl | (intro left_le order_refl; assumption)))
       | (intro left_le; assumption) | assumption)+
qed

lemmas parse_le = parse_within [THEN withinD [rotated]]
lemmas parse_chain = parse_le [THEN le_less_trans]

lemma parse_less:
  "left_of p < n \<Longrightarrow> left_of (p_advance p) < n"
  "left_of p < n \<Longrightarrow> left_of (snd (p_match p ty)) < n"
  "left_of p < n \<Longrightarrow> left_of (p_skip p ty) < n"
  using left_advance [of p] left_match [of p ty] left_skip [of p ty] by simp_all

lemma operator_less:
  assumes "get_precedence (peek_type p) \<noteq> 0"
  shows "left_of (p_advance (snd (p_match p TK_NOT))) < left_of p"
proof (cases "peek_type p = TK_NOT")
  case True
  then show ?thesis using left_advance_less [of p] left_advance [of "p_advance p"] by (simp add: p_match_def)
next
  case False
  then show ?thesis using left_advance_less [of p] get_precedence_pos [OF assms] by (simp add: p_match_def)
qed

lemma comma_less: "fst (p_match p TK_COMMA) \<Longrightarrow> left_of (snd (p_match p TK_COMMA)) < left_of p"
  by (rule left_match_less) simp_all

termination parse_expression_prec
  apply (relation "measures
    [\<lambda>x. case x of Inl (Inl (_, _, p)) \<Rightarrow> left_of p | Inl (Inr (_, _, _, p)) \<Rightarrow> left_of p | Inr (Inl (_, p)) \<Rightarrow> left_of p
       | Inr (Inr (Inl (_, _, p))) \<Rightarrow> left_of p | Inr (Inr (Inr (_, p))) \<Rightarrow> left_of p,
     \<lambda>x. case x of Inl (Inl _) \<Rightarrow> 1 | Inl (Inr _) \<Rightarrow> 0 | Inr (Inl _) \<Rightarrow> 0 | Inr (Inr (Inl _)) \<Rightarrow> 3 | Inr (Inr (Inr _)) \<Rightarrow> 2]")
  subgoal by simp
  apply (simp_all only: in_measures sum.case prod.case)
  apply (simp_all add: le_less [symmetric] is_right_associative_def)
  by (assumption | (rule operator_less left_advance_less comma_less; force simp: agg_types_def)
     | (rule comma_less [THEN less_le_trans], assumption) | rule left_skip | erule (1) parse_chain | erule (1) parse_le
     | rule parse_less)+

declare parse_expression_prec.simps [simp del] infix_loop.simps [simp del] parse_primary.simps [simp del]
  parse_function_call.simps [simp del] parse_list.simps [simp del]

definition parse_expression :: "(string \<Rightarrow> double) \<Rightarrow> parser \<Rightarrow> expr presult" where
  "parse_expression sd p = parse_expression_prec sd 1 p"

section \<open>Staying inside the token array\<close>

definition ends :: "parser \<Rightarrow> bool" where
  "ends p \<longleftrightarrow> toks p \<noteq> [] \<and> tok_type (last (toks p)) = TK_EOF"

text \<open>From p to p' the parser has moved forward, and not past an end-of-file token at the end.\<close>

definition keeps :: "parser \<Rightarrow> parser \<Rightarrow> bool" where
  "keeps p p' \<longleftrightarrow> suffix (toks p') (toks p) \<and> (ends p \<longrightarrow> ends p')"

lemma keeps_refl [simp, intro]: "keeps p p"
  by (simp add: keeps_def)

lemma keeps_trans: "keeps p q \<Longrightarrow> keeps q r \<Longrightarrow> keeps p r"
  by (auto simp: keeps_def intro: suffix_order.trans)

lemma keeps_cong: "toks p' = toks p \<Longrightarrow> keeps p p'"
  by (simp add: keeps_def ends_def)

lemma keeps_error: "keeps p (parser_error p msg)"
  by (simp add: keeps_cong)

lemma keeps_advance: "peek_type p \<noteq> TK_EOF \<Longrightarrow> keeps p (p_advance p)"
  by (cases "toks p") (auto simp: keeps_def p_advance_def peek_type_def p_peek_def ends_def suffix_def split: if_split_asm)

lemma keeps_match: "ty \<noteq> TK_EOF \<Longrightarrow> keeps p (snd (p_match p ty))"
  by (auto simp: p_match_def intro: keeps_advance)

lemma keeps_skip: "ty \<noteq> TK_EOF \<Longrightarrow> keeps p (p_skip p ty)"
  by (auto simp: p_skip_def p_expect_def intro: keeps_advance keeps_error)

lemma keeps_then:
  "keeps p q \<Longrightarrow> peek_type q \<noteq> TK_EOF \<Longrightarrow> keeps p (p_advance q)"
  "keeps p q \<Longrightarrow> ty \<noteq> TK_EOF \<Longrightarrow> keeps p (snd (p_match q ty))"
  "keeps p q \<Longrightarrow> ty \<noteq> TK_EOF \<Longrightarrow> keeps p (p_skip q ty)"
  "keeps p q \<Longrightarrow> keeps p (parser_error q msg)"
  using keeps_trans [of p q] keeps_advance [of q] keeps_match [of ty q] keeps_skip [of ty q] keeps_error [of q msg] by blast+

lemma keeps_literal: "keeps p (snd (parse_literal_expr sd p))"
  by (auto simp: parse_literal_expr_def Let_def peek_type_def intro: keeps_advance keeps_error)

lemma keeps_column_ref: "keeps p (snd (parse_column_ref_or_identifier p))"
proof -
  have "keeps p (p_advance p)" if "tok_type (p_peek p) = TK_IDENTIFIER"
    using that by (intro keeps_advance) (simp add: peek_type_def)
  then show ?thesis
    by (auto simp: parse_column_ref_or_identifier_def Let_def peek_type_def intro!: keeps_then intro: keeps_error)
qed

text \<open>The operator of a turn of the loop, after an optional NOT, is not the end of file.\<close>

lemma operator_not_eof:
  assumes "get_precedence (peek_type p) \<noteq> 0" "\<not> (peek_type p = TK_NOT \<and> peek_next_type p \<notin> {TK_IN, TK_BETWEEN, TK_LIKE})"
  shows "peek_type (snd (p_match p TK_NOT)) \<noteq> TK_EOF"
proof (cases "peek_type p = TK_NOT")
  case True
  then obtain t u ts where "toks p = t # u # ts" "tok_type u \<in> {TK_IN, TK_BETWEEN, TK_LIKE}"
    using assms(2) by (auto simp: peek_next_type_def split: list.splits)
  then show ?thesis using True by (auto simp: p_match_def p_advance_def peek_type_def p_peek_def)
next
  case False
  then show ?thesis using get_precedence_pos [OF assms(1)] by (simp add: p_match_def)
qed

text \<open>A LIKE among the tokens may lead the parser out of defined behaviour, and so may an UPDATE statement (h, see
  \<open>Parser_Stmt\<close>). Otherwise a parser function returns; it never moves past the end of the array; and NULL
  comes with an error.\<close>

definition hazard :: "bool \<Rightarrow> parser \<Rightarrow> bool" where
  "hazard h p \<longleftrightarrow> h \<or> TK_LIKE \<in> tok_type ` set (toks p)"

lemma hazard_keeps: "keeps p q \<Longrightarrow> hazard h q \<Longrightarrow> hazard h p"
  by (auto simp: keeps_def hazard_def dest: set_mono_suffix)

lemma hazard_peek: "peek_type p = TK_LIKE \<Longrightarrow> hazard h p"
  by (cases "toks p") (auto simp: hazard_def peek_type_def p_peek_def eof_token_def)

lemma hazard_like: "peek_type (snd (p_match p TK_NOT)) = TK_LIKE \<Longrightarrow> hazard h p"
  by (rule hazard_keeps [OF keeps_match [of TK_NOT p] hazard_peek]) simp_all

definition inside :: "bool \<Rightarrow> parser \<Rightarrow> 'a presult \<Rightarrow> bool" where
  "inside h p r \<longleftrightarrow> (r = None \<longrightarrow> hazard h p) \<and> (\<forall>x p'. r = Some (x, p') \<longrightarrow> keeps p p' \<and> (x = None \<longrightarrow> has_error p'))"

lemma inside_None: "hazard h p \<Longrightarrow> inside h p None"
  and inside_Some: "keeps p p' \<Longrightarrow> inside h p (Some (Some x, p'))"
  and inside_error: "keeps p p' \<Longrightarrow> has_error p' \<Longrightarrow> inside h p (Some (None, p'))"
  and inside_if: "(c \<Longrightarrow> inside h p r) \<Longrightarrow> (\<not> c \<Longrightarrow> inside h p s) \<Longrightarrow> inside h p (if c then r else s)"
  by (simp_all add: inside_def)

lemma inside_like:
  "(\<And>s. pat = EXPR_LITERAL (VALUE_STRING s) \<Longrightarrow> inside h p (f s)) \<Longrightarrow> hazard h p \<Longrightarrow>
   inside h p (case pat of EXPR_LITERAL (VALUE_STRING s) \<Rightarrow> f s | _ \<Rightarrow> None)"
  using inside_None [of h p] by (auto split: expr.split ast_value.split)

lemma inside_pbind: "inside h p m \<Longrightarrow> (\<And>x q. m = Some (Some x, q) \<Longrightarrow> keeps p q \<Longrightarrow> inside h p (f x q)) \<Longrightarrow> inside h p (pbind m f)"
proof (cases m)
  case (Some r)
  assume a: "inside h p m" "\<And>x q. m = Some (Some x, q) \<Longrightarrow> keeps p q \<Longrightarrow> inside h p (f x q)"
  obtain y q where r: "r = (y, q)" by fastforce
  then have q: "keeps p q" "y = None \<longrightarrow> has_error q" using a(1) Some by (simp_all add: inside_def)
  then show ?thesis using Some r a(2) by (cases y) (simp_all add: inside_error)
qed (simp add: inside_def)

lemma has_error_step [simp]:
  "has_error (parser_error p msg)" "has_error (p_advance p) = has_error p" "has_error (snd (p_match p ty)) = has_error p"
  "has_error p \<Longrightarrow> has_error (p_skip p ty)"
  by (simp_all add: parser_error_def p_advance_def p_match_def p_skip_def p_expect_def)

lemma inside_paren:
  "inside h p m \<Longrightarrow> inside h p (case m of None \<Rightarrow> None | Some (e, q) \<Rightarrow> Some (e, p_skip q TK_RIGHT_PAREN))"
  by (auto simp: inside_def split: option.splits prod.splits intro: keeps_then)

lemma inside_from: "inside h q r \<Longrightarrow> keeps p q \<Longrightarrow> inside h p r"
  by (auto simp: inside_def intro: keeps_trans hazard_keeps)

lemma inside_literal: "inside h p (Some (parse_literal_expr sd p))"
  using keeps_literal [of p sd] by (auto simp: parse_literal_expr_def Let_def inside_def split: if_splits)

lemma inside_column_ref: "inside h p (Some (parse_column_ref_or_identifier p))"
  using keeps_column_ref [of p] by (auto simp: parse_column_ref_or_identifier_def Let_def inside_def split: if_splits)

lemmas inside_rules = inside_if inside_like inside_pbind inside_Some inside_error keeps_refl has_error_step(1)

lemma parse_inside:
  "inside h p (parse_expression_prec sd n p)" "inside h p (infix_loop sd n e p)" "inside h p (parse_primary sd p)"
  "inside h p (parse_function_call sd s p)" "inside h p (parse_list sd p)"
proof (induction sd n p and sd n e p and sd p and sd s p and sd p
    rule: parse_expression_prec_infix_loop_parse_primary_parse_function_call_parse_list.induct)
  case (1 sd min_prec p)
  show ?case unfolding parse_expression_prec.simps
    by (rule inside_pbind, rule 1(1), rule inside_from, rule 1(2))
next
  case (2 sd min_prec left p)
  show ?case unfolding infix_loop.simps [of sd min_prec left p] Let_def
    by (rule inside_rules | (rule hazard_like, assumption)
       | (rule inside_from, (rule 2; (assumption | rule refl)),
          (assumption | rule keeps_refl | (rule keeps_then)+; (assumption | rule keeps_refl | (simp; fail) | (rule operator_not_eof; (assumption | simp)))))
       | assumption)+
next
  case (3 sd p)
  show ?case unfolding parse_primary.simps [of sd p] Let_def
    by (rule inside_rules inside_paren inside_literal inside_column_ref keeps_error
       | (rule inside_from, (rule 3; (assumption | rule refl)), rule keeps_advance; force simp: agg_types_def)
       | (rule keeps_advance; simp; fail) | assumption)+
next
  case (4 sd name p)
  show ?case unfolding parse_function_call.simps [of sd name p] Let_def
    by (rule inside_rules | (rule inside_from, (rule 4; (assumption | rule refl)), rule keeps_skip; simp; fail)
       | (rule keeps_then)+; (rule keeps_refl | simp; fail) | assumption)+
next
  case (5 sd p)
  show ?case unfolding parse_list.simps [of sd p]
    by (rule inside_rules
       | (rule inside_from, (rule 5; assumption), (assumption | rule keeps_refl | (rule keeps_then; (assumption | simp; fail))))
       | (rule keeps_then; (assumption | simp; fail)) | assumption)+
qed

end
