(* ===== verification/Parser_Print.thy ===== *)
theory Parser_Print
  imports Parser_Expr
begin

text \<open>
  The expression parser against a printer: an expression is written with the parentheses that the
  precedences ask for and no others, and parsing what was written gives the expression back.
\<close>

section \<open>Printing\<close>

fun op_text :: "token_type \<Rightarrow> string" where
  "op_text ty = (if ty = TK_AND then ''AND'' else if ty = TK_OR then ''OR'' else
     (case List.find (\<lambda>p. fst p = ty) operators of Some (_, w) \<Rightarrow> w | None \<Rightarrow> []))"

fun literal_piece :: "ast_value \<Rightarrow> piece" where
  "literal_piece VALUE_NULL = (TK_NULL, ''NULL'')"
| "literal_piece (VALUE_BOOL b) = (if b then (TK_TRUE, ''TRUE'') else (TK_FALSE, ''FALSE''))"
| "literal_piece (VALUE_INT i) = (TK_INT_LITERAL, dec i)"
| "literal_piece (VALUE_FLOAT d) = (TK_FLOAT_LITERAL, [])"
| "literal_piece (VALUE_STRING s) = (TK_STRING_LITERAL, s)"

definition column_piece :: "string \<Rightarrow> piece" where
  "column_piece c = (if c = ''*'' then (TK_STAR, c) else (TK_IDENTIFIER, c))"

definition call_piece :: "string \<Rightarrow> piece" where
  "call_piece f = (if lookup_keyword f \<in> set agg_types then lookup_keyword f else TK_IDENTIFIER, f)"

abbreviation (input) "LPAREN \<equiv> (TK_LEFT_PAREN, ''('')"
abbreviation (input) "RPAREN \<equiv> (TK_RIGHT_PAREN, '')'')"
abbreviation (input) "COMMA \<equiv> (TK_COMMA, '','')"
abbreviation (input) "AND_WORD \<equiv> (TK_AND, ''AND'')"

definition not_pieces :: "bool \<Rightarrow> piece list" where
  "not_pieces n = (if n then [(TK_NOT, ''NOT'')] else [])"

text \<open>The precedence at which an expression is parsed: a negated IN, BETWEEN or LIKE begins with NOT, which
  binds less than the plain form.\<close>

fun expr_level :: "expr \<Rightarrow> nat" where
  "expr_level (EXPR_BINARY l op r) = get_precedence op"
| "expr_level (EXPR_UNARY op e) = (if op = TK_NOT then 3 else 7)"
| "expr_level (EXPR_IS_NULL e n) = 4"
| "expr_level (EXPR_IN_EXPR e es n) = (if n then 3 else 4)"
| "expr_level (EXPR_BETWEEN e lo hi n) = (if n then 3 else 4)"
| "expr_level (EXPR_LIKE e pat n) = (if n then 3 else 4)"
| "expr_level _ = 7"

text \<open>\<open>expr_pieces k\<close> prints for a place that takes expressions of level k and above.\<close>

fun expr_body :: "expr \<Rightarrow> piece list" and list_pieces :: "expr list \<Rightarrow> piece list" and
  expr_pieces :: "nat \<Rightarrow> expr \<Rightarrow> piece list" where
  "expr_body (EXPR_LITERAL v) = [literal_piece v]"
| "expr_body (EXPR_COLUMN_REF t c) = (if t = [] then [column_piece c] else [(TK_IDENTIFIER, t), (TK_DOT, ''.''), column_piece c])"
| "expr_body (EXPR_BINARY l op r) =
     expr_pieces (get_precedence op) l @ (op, op_text op) # expr_pieces (Suc (get_precedence op)) r"
| "expr_body (EXPR_UNARY op e) =
     (if op = TK_NOT then (TK_NOT, ''NOT'') # expr_pieces 3 e else (TK_MINUS, ''-'') # expr_pieces 7 e)"
| "expr_body (EXPR_FUNCTION_CALL f args star) =
     call_piece f # LPAREN # (if star then [(TK_STAR, ''*'')] else list_pieces args) @ [RPAREN]"
| "expr_body EXPR_SUBQUERY = []"
| "expr_body (EXPR_IS_NULL e n) = expr_pieces 4 e @ (TK_IS, ''IS'') # not_pieces n @ [(TK_NULL, ''NULL'')]"
| "expr_body (EXPR_IN_EXPR e es n) = expr_pieces 4 e @ not_pieces n @ (TK_IN, ''IN'') # LPAREN # list_pieces es @ [RPAREN]"
| "expr_body (EXPR_BETWEEN e lo hi n) =
     expr_pieces 4 e @ not_pieces n @ (TK_BETWEEN, ''BETWEEN'') # expr_pieces 5 lo @ AND_WORD # expr_pieces 5 hi"
| "expr_body (EXPR_LIKE e pat n) = expr_pieces 4 e @ not_pieces n @ [(TK_LIKE, ''LIKE''), (TK_STRING_LITERAL, pat)]"
| "list_pieces [] = []"
| "list_pieces (e # es) = expr_pieces 1 e @ (if es = [] then [] else COMMA # list_pieces es)"
| "expr_pieces k e = (if expr_level e < k then LPAREN # expr_body e @ [RPAREN] else expr_body e)"

declare expr_pieces.simps [simp del]

definition binary_ops :: "token_type list" where
  "binary_ops =
    [TK_OR, TK_AND, TK_EQUAL, TK_NOT_EQUAL, TK_LESS, TK_LESS_EQUAL, TK_GREATER, TK_GREATER_EQUAL, TK_PLUS, TK_MINUS,
     TK_STAR, TK_SLASH]"

fun literal_ok :: "ast_value \<Rightarrow> bool" where
  "literal_ok (VALUE_INT i) = (0 \<le> i \<and> i < 2 ^ 63)"
| "literal_ok (VALUE_FLOAT d) = False"
| "literal_ok (VALUE_STRING s) = (length s \<le> 255)"
| "literal_ok _ = True"

text \<open>The expressions the parser can return, float literals and the lone star of SELECT * apart.\<close>

fun expr_ok :: "expr \<Rightarrow> bool" where
  "expr_ok (EXPR_LITERAL v) = literal_ok v"
| "expr_ok (EXPR_COLUMN_REF t c) = (length t \<le> 63 \<and> length c \<le> 63 \<and> (t = [] \<longrightarrow> c \<noteq> ''*''))"
| "expr_ok (EXPR_BINARY l op r) = (op \<in> set binary_ops \<and> expr_ok l \<and> expr_ok r)"
| "expr_ok (EXPR_UNARY op e) = ((op = TK_NOT \<or> op = TK_MINUS) \<and> expr_ok e)"
| "expr_ok (EXPR_FUNCTION_CALL f args star) = (length f \<le> 63 \<and> (star \<longrightarrow> args = []) \<and> list_all expr_ok args)"
| "expr_ok EXPR_SUBQUERY = False"
| "expr_ok (EXPR_IS_NULL e n) = expr_ok e"
| "expr_ok (EXPR_IN_EXPR e es n) = (expr_ok e \<and> es \<noteq> [] \<and> list_all expr_ok es)"
| "expr_ok (EXPR_BETWEEN e lo hi n) = (expr_ok e \<and> expr_ok lo \<and> expr_ok hi)"
| "expr_ok (EXPR_LIKE e pat n) = (expr_ok e \<and> length pat \<le> 255)"

section \<open>Reading\<close>

text \<open>The parser has these tokens before it and no error behind it.\<close>

definition reads :: "parser \<Rightarrow> piece list \<Rightarrow> bool" where
  "reads p ts \<longleftrightarrow> \<not> has_error p \<and> map piece_of (toks p) = ts"

lemma reads_no_error [simp]: "reads p ts \<Longrightarrow> \<not> has_error p"
  by (simp add: reads_def)

lemma reads_peek:
  assumes "reads p ((ty, w) # ts)"
  shows "peek_type p = ty" "lexeme (p_peek p) = w" "tok_type (p_peek p) = ty" "reads (p_advance p) ts"
  using assms by (auto simp: reads_def peek_type_def p_peek_def p_advance_def piece_of_def)

lemma reads_peek_next: "reads p (t # (ty, w) # ts) \<Longrightarrow> peek_next_type p = ty"
  by (auto simp: reads_def peek_next_type_def piece_of_def)

lemma reads_peek_next_Nil: "reads p [t] \<Longrightarrow> peek_next_type p = TK_EOF"
  by (auto simp: reads_def peek_next_type_def)

lemma reads_skip: "reads p ((ty, w) # ts) \<Longrightarrow> reads (p_skip p ty) ts"
  using reads_peek [of p ty w ts] by (simp add: p_skip_def p_expect_def)

lemma reads_match: "reads p ((ty, w) # ts) \<Longrightarrow> fst (p_match p ty) \<and> reads (snd (p_match p ty)) ts"
  using reads_peek [of p ty w ts] by (simp add: p_match_def)

lemma reads_no_match: "reads p ts \<Longrightarrow> peek_type p \<noteq> ty \<Longrightarrow> \<not> fst (p_match p ty) \<and> snd (p_match p ty) = p"
  by (simp add: p_match_def)

definition first_type :: "piece list \<Rightarrow> token_type" where
  "first_type ts = (case ts of [] \<Rightarrow> TK_EOF | t # _ \<Rightarrow> fst t)"

lemma reads_first: "reads p ts \<Longrightarrow> peek_type p = first_type ts"
  by (cases ts) (auto simp: first_type_def reads_def peek_type_def p_peek_def eof_token_def piece_of_def)

lemma reads_second: "reads p (t # ts) \<Longrightarrow> peek_next_type p = first_type ts"
  by (auto simp: reads_def peek_next_type_def first_type_def piece_of_def split: list.splits)

text \<open>What may follow an expression of level k.\<close>

definition follows :: "nat \<Rightarrow> piece list \<Rightarrow> bool" where
  "follows k ts \<longleftrightarrow>
     (let prec = get_precedence (first_type ts)
      in prec \<le> k \<and> (prec = 3 \<longrightarrow> 4 \<le> k)) \<and> first_type ts \<noteq> TK_LEFT_PAREN \<and> first_type ts \<noteq> TK_DOT"

lemma follows_mono: "follows k ts \<Longrightarrow> k \<le> k' \<Longrightarrow> follows k' ts"
  by (auto simp: follows_def Let_def)

lemma follows_low: "get_precedence (first_type ts) = 0 \<Longrightarrow> first_type ts \<noteq> TK_LEFT_PAREN \<Longrightarrow> first_type ts \<noteq> TK_DOT \<Longrightarrow> follows k ts"
  by (simp add: follows_def)

lemma prec_simps [simp]:
  "get_precedence TK_OR = 1" "get_precedence TK_AND = 2" "get_precedence TK_NOT = 3" "get_precedence TK_IS = 4"
  "get_precedence TK_IN = 4" "get_precedence TK_BETWEEN = 4" "get_precedence TK_LIKE = 4" "get_precedence TK_RIGHT_PAREN = 0"
  "get_precedence TK_COMMA = 0"
  by (simp_all add: get_precedence_def)

lemma first_type_Cons [simp]: "first_type (t # ts) = fst t"
  by (simp add: first_type_def)

lemma infix_loop_stop: "reads p ts \<Longrightarrow> get_precedence (first_type ts) < min_prec \<Longrightarrow> infix_loop sd min_prec e p = Some (Some e, p)"
  by (subst infix_loop.simps) (simp add: reads_first)

text \<open>What parsing the body of an expression amounts to.\<close>

definition body_reads :: "(string \<Rightarrow> double) \<Rightarrow> expr \<Rightarrow> bool" where
  "body_reads sd e \<longleftrightarrow>
     (\<forall>p rest min_prec. reads p (expr_body e @ rest) \<and> follows (expr_level e) rest \<and> min_prec \<le> expr_level e \<longrightarrow>
        (\<exists>p'. reads p' rest \<and> parse_expression_prec sd min_prec p = infix_loop sd min_prec e p'))"

text \<open>The printed form at any level, of an expression whose body is read right.\<close>

lemma primary_prec:
  "parse_primary sd p = Some (Some e, p') \<Longrightarrow> parse_expression_prec sd min_prec p = infix_loop sd min_prec e p'"
  by (simp add: parse_expression_prec.simps)

lemma paren_reads:
  assumes b: "body_reads sd e" and l: "1 \<le> expr_level e" and p: "reads p (LPAREN # expr_body e @ RPAREN # rest)"
  shows "\<exists>p'. reads p' rest \<and> parse_primary sd p = Some (Some e, p')"
proof -
  have "follows (expr_level e) (RPAREN # rest)" by (rule follows_low) simp_all
  then obtain p1 where p1: "reads p1 (RPAREN # rest)" "parse_expression_prec sd 1 (p_advance p) = infix_loop sd 1 e p1"
    using b l reads_peek(4) [OF p] unfolding body_reads_def by blast
  have "infix_loop sd 1 e p1 = Some (Some e, p1)" by (rule infix_loop_stop [OF p1(1)]) simp
  then have "parse_primary sd p = Some (Some e, p_skip p1 TK_RIGHT_PAREN)"
    using p1(2) reads_peek(1) [OF p] reads_no_error [OF p]
    by (subst parse_primary.simps) (simp add: literal_types_def)
  then show ?thesis using reads_skip [OF p1(1)] by blast
qed

lemma pieces_read:
  assumes b: "body_reads sd e" and l: "1 \<le> expr_level e"
    and p: "reads p (expr_pieces k e @ rest)" and f: "follows k rest" and m: "min_prec \<le> k"
  shows "\<exists>p'. reads p' rest \<and> parse_expression_prec sd min_prec p = infix_loop sd min_prec e p'"
proof (cases "expr_level e < k")
  case True
  then show ?thesis using paren_reads [OF b l, of p rest] p primary_prec by (fastforce simp: expr_pieces.simps)
next
  case False
  then show ?thesis using b p m follows_mono [OF f, of "expr_level e"] unfolding body_reads_def
    by (auto simp: expr_pieces.simps)
qed

text \<open>An operand, parsed at the level it was printed for, up to something that binds less.\<close>

lemma operand_read:
  assumes "body_reads sd e" "1 \<le> expr_level e" "reads p (expr_pieces k e @ rest)" "follows k rest" "min_prec \<le> k"
    "get_precedence (first_type rest) < min_prec"
  shows "\<exists>p'. reads p' rest \<and> parse_expression_prec sd min_prec p = Some (Some e, p')"
  using pieces_read [OF assms(1-5)] infix_loop_stop [of _ rest min_prec sd e] assms(6) by fastforce

lemma primary_read:
  assumes b: "body_reads sd e" and l: "1 \<le> expr_level e" and p: "reads p (expr_pieces 7 e @ rest)" and f: "follows 7 rest"
    and prim: "\<And>p rest. expr_level e = 7 \<Longrightarrow> reads p (expr_body e @ rest) \<Longrightarrow> follows 7 rest \<Longrightarrow>
      \<exists>p'. reads p' rest \<and> parse_primary sd p = Some (Some e, p')"
    and le: "expr_level e \<le> 7"
  shows "\<exists>p'. reads p' rest \<and> parse_primary sd p = Some (Some e, p')"
proof (cases "expr_level e < 7")
  case True
  then show ?thesis using paren_reads [OF b l, of p rest] p by (simp add: expr_pieces.simps)
next
  case False
  then show ?thesis using prim [of p rest] p f le by (simp add: expr_pieces.simps)
qed

lemma list_read:
  assumes "\<And>e. e \<in> set es \<Longrightarrow> body_reads sd e \<and> 1 \<le> expr_level e" "es \<noteq> []" "reads p (list_pieces es @ RPAREN # rest)"
  shows "\<exists>p'. reads p' (RPAREN # rest) \<and> parse_list sd p = Some (Some es, p')"
  using assms
proof (induction es arbitrary: p)
  case (Cons e es)
  have e: "body_reads sd e" "1 \<le> expr_level e" using Cons.prems(1) by auto
  let ?rest = "if es = [] then RPAREN # rest else COMMA # list_pieces es @ RPAREN # rest"
  have "reads p (expr_pieces 1 e @ ?rest)" using Cons.prems(3) by (auto split: if_splits)
  moreover have "get_precedence (first_type ?rest) = 0" "first_type ?rest \<noteq> TK_LEFT_PAREN" "first_type ?rest \<noteq> TK_DOT"
    by simp_all
  ultimately obtain p1 where p1: "reads p1 ?rest" "parse_expression_prec sd 1 p = Some (Some e, p1)"
    using operand_read [OF e, of p 1 ?rest 1] follows_low [of ?rest 1] by (metis le_refl zero_less_one)
  show ?case
  proof (cases "es = []")
    case True
    then have "\<not> fst (p_match p1 TK_COMMA) \<and> snd (p_match p1 TK_COMMA) = p1"
      using p1(1) reads_first [OF p1(1)] by (intro reads_no_match) auto
    then show ?thesis using p1 True by (subst parse_list.simps) simp
  next
    case False
    then have m: "fst (p_match p1 TK_COMMA)" "reads (snd (p_match p1 TK_COMMA)) (list_pieces es @ RPAREN # rest)"
      using reads_match [of p1 TK_COMMA] p1(1) by auto
    then obtain p2 where "reads p2 (RPAREN # rest)" "parse_list sd (snd (p_match p1 TK_COMMA)) = Some (Some es, p2)"
      using Cons.IH [OF _ False] Cons.prems(1) by auto
    then show ?thesis using p1(2) m(1) by (subst parse_list.simps) simp
  qed
qed simp

section \<open>Leaves\<close>

lemma digit_byte: "d < 10 \<Longrightarrow> is_digit (of_nat (d + 48)) \<and> uint (of_nat (d + 48) :: byte) - 48 = int d"
proof -
  assume d: "d < 10"
  then have u: "unat (of_nat (d + 48) :: byte) = d + 48" by (simp only: unat_of_nat) simp
  then have "uint (of_nat (d + 48) :: byte) = int (d + 48)" by (simp only: uint_nat)
  moreover have "is_digit (of_nat (d + 48))" unfolding is_digit_def word_le_nat_alt u using d by simp
  ultimately show ?thesis by simp
qed

lemma nat_digits_digits: "list_all is_digit (nat_digits n) \<and> nat_digits n \<noteq> [] \<and> digits_val (nat_digits n) = int n"
proof (induction n rule: less_induct)
  case (less n)
  show ?case
  proof (cases "n < 10")
    case True
    then show ?thesis using digit_byte [of n] by (subst (1 2 3) nat_digits.simps) (simp add: digits_val_def)
  next
    case False
    then have "n div 10 < n" by simp
    from less.IH [OF this] show ?thesis using False digit_byte [of "n mod 10"]
        div_mult_mod_eq [of "int n" 10]
      by (subst (1 2 3) nat_digits.simps) (auto simp: digits_val_def zdiv_int zmod_int)
  qed
qed

lemma takeWhile_all: "list_all P xs \<Longrightarrow> takeWhile P xs = xs"
  by (induction xs) auto

lemma strtoll_digits:
  assumes "list_all is_digit s" "s \<noteq> []" "digits_val s < 2 ^ 63"
  shows "strtoll s = (max (- (2 ^ 63)) (digits_val s), [])"
proof -
  obtain c r where s: "s = c # r" using assms(2) by (cases s) auto
  have c: "is_digit c" using assms(1) s by simp
  then have "\<not> is_space c" "c \<noteq> 45" "c \<noteq> 43"
    by (auto simp: is_digit_def is_space_def word_le_nat_alt)
  then have "dropWhile is_space s = s" "takeWhile is_digit s = s" "dropWhile is_digit s = []"
    using s assms(1) takeWhile_all [OF assms(1)] by (auto simp: list_all_iff)
  then show ?thesis using assms(2,3) s \<open>c \<noteq> 45\<close> \<open>c \<noteq> 43\<close> by (simp add: strtoll_def Let_def)
qed

lemma cstr_dec: "cstr (dec i) = fmt_lld i"
proof -
  have "of_char (char_of (unat b) :: char) = b" for b :: byte
  proof -
    have "unat b < 256" using unsigned_less [of b, where ?'a = nat] by simp
    then have "(of_char (char_of (unat b)) :: nat) = unat b" by simp
    then have "(of_nat (of_char (char_of (unat b) :: char)) :: byte) = of_nat (unat b)" by (rule arg_cong)
    moreover have "of_nat (unat b) = b" by simp
    moreover have "(of_nat (of_char (char_of (unat b) :: char)) :: byte) = of_char (char_of (unat b) :: char)"
      by (rule of_nat_of_char)
    ultimately show ?thesis by metis
  qed
  then show ?thesis by (simp add: cstr_def dec_def comp_def)
qed

lemma strtoll_dec: "0 \<le> i \<Longrightarrow> i < 2 ^ 63 \<Longrightarrow> strtoll (cstr (dec i)) = (i, [])"
  using nat_digits_digits [of "nat i"] by (simp add: cstr_dec fmt_lld_def strtoll_digits)

definition prim_reads :: "(string \<Rightarrow> double) \<Rightarrow> expr \<Rightarrow> bool" where
  "prim_reads sd e \<longleftrightarrow>
     (\<forall>p rest. reads p (expr_body e @ rest) \<and> follows 7 rest \<longrightarrow> (\<exists>p'. reads p' rest \<and> parse_primary sd p = Some (Some e, p')))"

lemma literal_reads:
  assumes "literal_ok v"
  shows "prim_reads sd (EXPR_LITERAL v)"
  unfolding prim_reads_def
proof (intro allI impI)
  fix p rest assume a: "reads p (expr_body (EXPR_LITERAL v) @ rest) \<and> follows 7 rest"
  obtain ty w where t: "literal_piece v = (ty, w)" by fastforce
  then have r: "reads p ((ty, w) # rest)" using a by simp
  note pk = reads_peek(1-3) [OF r] reads_no_error [OF r]
  have "parse_primary sd p = Some (Some (EXPR_LITERAL v), p_advance p)"
  proof (cases v)
    case (VALUE_INT i)
    then have "ty = TK_INT_LITERAL" "w = dec i" "strtoll (cstr (dec i)) = (i, [])"
      using t assms strtoll_dec by auto
    then show ?thesis using pk VALUE_INT
      by (subst parse_primary.simps) (simp add: literal_types_def parse_literal_expr_def Let_def)
  qed (use assms t pk in \<open>subst parse_primary.simps; auto simp: literal_types_def parse_literal_expr_def Let_def split: if_splits\<close>)+
  then show "\<exists>p'. reads p' rest \<and> parse_primary sd p = Some (Some (EXPR_LITERAL v), p')"
    using reads_peek(4) [OF r] by blast
qed

lemma column_reads:
  assumes "length t \<le> 63" "length c \<le> 63"
  shows "prim_reads sd (EXPR_COLUMN_REF t c)"
  unfolding prim_reads_def
proof (intro allI impI, elim conjE)
  fix p rest assume r: "reads p (expr_body (EXPR_COLUMN_REF t c) @ rest)" and f: "follows 7 rest"
  show "\<exists>p'. reads p' rest \<and> parse_primary sd p = Some (Some (EXPR_COLUMN_REF t c), p')"
  proof (cases "t = []")
    case True
    then have r1: "reads p (column_piece c # rest)" using r by simp
    have r2: "reads (p_advance p) rest" using r1 reads_peek(4) by (cases "column_piece c") auto
    have "parse_primary sd p = Some (Some (EXPR_COLUMN_REF t c), p_advance p)"
    proof (cases "c = ''*''")
      case star: True
      then show ?thesis using reads_peek(1) [of p TK_STAR] r1 True
        by (subst parse_primary.simps) (simp add: column_piece_def literal_types_def agg_types_def)
    next
      case False
      then have r1: "reads p ((TK_IDENTIFIER, c) # rest)" using r1 by (simp add: column_piece_def)
      have "peek_next_type p \<noteq> TK_LEFT_PAREN" "peek_type (p_advance p) \<noteq> TK_DOT"
        using reads_second [OF r1] reads_first [OF r2] f by (simp_all add: follows_def)
      then show ?thesis using reads_peek(1-3) [OF r1] True assms(2) reads_no_error [OF r1]
        by (subst parse_primary.simps) (simp add: literal_types_def agg_types_def parse_column_ref_or_identifier_def Let_def)
    qed
    then show ?thesis using r2 by blast
  next
    case False
    then have r1: "reads p ((TK_IDENTIFIER, t) # (TK_DOT, ''.'') # column_piece c # rest)" using r by simp
    note r2 = reads_peek(4) [OF r1]
    note r3 = reads_peek(4) [OF r2]
    obtain ty where ty: "column_piece c = (ty, c)" "ty = TK_IDENTIFIER \<or> ty = TK_STAR"
      by (cases "c = ''*''") (auto simp: column_piece_def)
    have r4: "reads (p_advance (p_advance (p_advance p))) rest" using reads_peek(4) r3 ty(1) by simp
    have "parse_primary sd p = Some (Some (EXPR_COLUMN_REF t c), p_advance (p_advance (p_advance p)))"
      using reads_peek(1-3) [OF r1] reads_peek(1-3) [OF r2] reads_peek(1-3) [OF r3 [unfolded ty(1)]] ty(2) assms
        reads_peek_next [OF r1] reads_no_error [OF r1]
      by (subst parse_primary.simps) (simp add: literal_types_def agg_types_def parse_column_ref_or_identifier_def Let_def)
    then show ?thesis using r4 by blast
  qed
qed

lemma call_reads:
  assumes f: "length f \<le> 63" "star \<longrightarrow> args = []" and args: "\<And>e. e \<in> set args \<Longrightarrow> body_reads sd e \<and> 1 \<le> expr_level e"
    and first: "\<And>p rest. args \<noteq> [] \<Longrightarrow> reads p (list_pieces args @ RPAREN # rest) \<Longrightarrow> peek_type p \<noteq> TK_STAR \<and> peek_type p \<noteq> TK_RIGHT_PAREN"
  shows "prim_reads sd (EXPR_FUNCTION_CALL f args star)"
  unfolding prim_reads_def
proof (intro allI impI, elim conjE)
  fix p rest assume "reads p (expr_body (EXPR_FUNCTION_CALL f args star) @ rest)"
  then have r: "reads p (call_piece f # LPAREN # (if star then [(TK_STAR, ''*'')] else list_pieces args) @ RPAREN # rest)" by simp
  obtain ty where ty: "call_piece f = (ty, f)" "ty \<in> set agg_types \<or> ty = TK_IDENTIFIER" by (simp add: call_piece_def)
  note r1 = reads_peek(4) [OF r [unfolded ty(1)]]
  note r2 = reads_skip [OF r1]
  have prim: "parse_primary sd p = parse_function_call sd f (p_advance p)"
    using reads_peek(1-3) [OF r [unfolded ty(1)]] reads_no_error [OF r] ty(2) reads_second [OF r] f(1)
    by (subst parse_primary.simps) (auto simp: literal_types_def agg_types_def)
  show "\<exists>p'. reads p' rest \<and> parse_primary sd p = Some (Some (EXPR_FUNCTION_CALL f args star), p')"
  proof (cases "star \<or> args = []")
    case True
    show ?thesis
    proof (cases star)
      case star: True
      then have r3: "reads (p_skip (p_advance p) TK_LEFT_PAREN) ((TK_STAR, ''*'') # RPAREN # rest)" using r2 by simp
      show ?thesis unfolding prim using reads_peek(1) [OF r3] reads_skip [OF reads_peek(4) [OF r3]] star f(2)
        by (subst parse_function_call.simps) (simp add: Let_def)
    next
      case False
      then have r3: "reads (p_skip (p_advance p) TK_LEFT_PAREN) (RPAREN # rest)" using r2 True by simp
      show ?thesis unfolding prim using reads_peek(1) [OF r3] reads_skip [OF r3] False True
        by (subst parse_function_call.simps) (simp add: Let_def)
    qed
  next
    case False
    then have r3: "reads (p_skip (p_advance p) TK_LEFT_PAREN) (list_pieces args @ RPAREN # rest)" using r2 by simp
    obtain p1 where "reads p1 (RPAREN # rest)" "parse_list sd (p_skip (p_advance p) TK_LEFT_PAREN) = Some (Some args, p1)"
      using list_read [OF args _ r3] False by blast
    then show ?thesis unfolding prim using first [OF _ r3] reads_skip [of p1] False
      by (subst parse_function_call.simps) (auto simp: Let_def)
  qed
qed

section \<open>Operators\<close>

lemma step_binary:
  assumes r: "reads p ((op, w) # ts)" and op: "op \<in> set binary_ops" "min_prec \<le> get_precedence op"
    and right: "parse_expression_prec sd (Suc (get_precedence op)) (p_advance p) = Some (Some e, p')"
  shows "infix_loop sd min_prec l p = infix_loop sd min_prec (EXPR_BINARY l op e) p'"
proof -
  have "get_precedence op \<noteq> 0" "op \<noteq> TK_IS" "op \<noteq> TK_NOT" "op \<noteq> TK_IN" "op \<noteq> TK_BETWEEN" "op \<noteq> TK_LIKE"
    using op(1) by (auto simp: binary_ops_def get_precedence_def)
  then show ?thesis using reads_peek(1) [OF r] op(2) right
    by (subst infix_loop.simps) (simp add: p_match_def is_right_associative_def Let_def)
qed

lemma step_is_null:
  assumes r: "reads p ((TK_IS, w) # not_pieces n @ (TK_NULL, v) # ts)" and m: "min_prec \<le> 4"
  shows "\<exists>p'. reads p' ts \<and> infix_loop sd min_prec l p = infix_loop sd min_prec (EXPR_IS_NULL l n) p'"
proof -
  note a = reads_peek(4) [OF r]
  have b: "fst (p_match (p_advance p) TK_NOT) = n" "reads (snd (p_match (p_advance p) TK_NOT)) ((TK_NULL, v) # ts)"
    using a reads_match [of "p_advance p" TK_NOT] reads_no_match [OF a, of TK_NOT] reads_first [OF a]
    by (auto simp: not_pieces_def split: if_splits)
  then show ?thesis using reads_peek(1) [OF r] reads_peek(1,4) [OF b(2)] m
    by (subst infix_loop.simps) (auto simp: Let_def)
qed

text \<open>After an optional NOT, one of IN, BETWEEN and LIKE.\<close>

lemma step_not:
  assumes r: "reads p (not_pieces n @ (op, w) # ts)" and op: "op \<in> {TK_IN, TK_BETWEEN, TK_LIKE}"
    and m: "min_prec \<le> (if n then 3 else 4)"
  obtains q where "q = snd (p_match p TK_NOT)" "fst (p_match p TK_NOT) = n" "reads q ((op, w) # ts)"
    "get_precedence (peek_type p) = (if n then 3 else 4)" "\<not> get_precedence (peek_type p) < min_prec" "peek_type p \<noteq> TK_IS"
    "\<not> (peek_type p = TK_NOT \<and> peek_next_type p \<notin> {TK_IN, TK_BETWEEN, TK_LIKE})" "peek_type q = op"
proof (cases n)
  case True
  then have r1: "reads p ((TK_NOT, ''NOT'') # (op, w) # ts)" using r by (simp add: not_pieces_def)
  show ?thesis
    by (rule that [OF refl])
       (use True reads_match [OF r1] reads_peek(1) [OF r1] reads_peek_next [OF r1] op m reads_peek(1) in auto)
next
  case False
  then have r1: "reads p ((op, w) # ts)" using r by (simp add: not_pieces_def)
  have "op \<noteq> TK_NOT" "op \<noteq> TK_IS" using op by auto
  then show ?thesis
    by (intro that [OF refl])
       (use False r1 reads_no_match [OF r1, of TK_NOT] reads_peek(1) [OF r1] op m in auto)
qed

lemma step_in:
  assumes r: "reads p (not_pieces n @ (TK_IN, w) # LPAREN # list_pieces es @ RPAREN # ts)" and m: "min_prec \<le> (if n then 3 else 4)"
    and es: "\<And>e. e \<in> set es \<Longrightarrow> body_reads sd e \<and> 1 \<le> expr_level e" "es \<noteq> []"
  shows "\<exists>p'. reads p' ts \<and> infix_loop sd min_prec l p = infix_loop sd min_prec (EXPR_IN_EXPR l es n) p'"
proof -
  have "TK_IN \<in> {TK_IN, TK_BETWEEN, TK_LIKE}" by simp
  from step_not [OF r this m] obtain q where q: "q = snd (p_match p TK_NOT)" "fst (p_match p TK_NOT) = n"
    "reads q ((TK_IN, w) # LPAREN # list_pieces es @ RPAREN # ts)" "get_precedence (peek_type p) = (if n then 3 else 4)"
    "\<not> get_precedence (peek_type p) < min_prec" "peek_type p \<noteq> TK_IS"
    "\<not> (peek_type p = TK_NOT \<and> peek_next_type p \<notin> {TK_IN, TK_BETWEEN, TK_LIKE})" "peek_type q = TK_IN" .
  obtain p1 where p1: "reads p1 (RPAREN # ts)" "parse_list sd (p_skip (p_advance q) TK_LEFT_PAREN) = Some (Some es, p1)"
    using list_read [OF es reads_skip [OF reads_peek(4) [OF q(3)]]] by blast
  have "infix_loop sd min_prec l p = infix_loop sd min_prec (EXPR_IN_EXPR l es n) (p_skip p1 TK_RIGHT_PAREN)"
    using q p1(2) by (subst infix_loop.simps) (auto simp: Let_def)
  then show ?thesis using reads_skip [OF p1(1)] by blast
qed

lemma step_between:
  assumes r: "reads p (not_pieces n @ (TK_BETWEEN, w) # expr_pieces 5 lo @ AND_WORD # expr_pieces 5 hi @ ts)"
    and m: "min_prec \<le> (if n then 3 else 4)" and f: "follows (if n then 3 else 4) ts"
    and lo: "body_reads sd lo" "1 \<le> expr_level lo" and hi: "body_reads sd hi" "1 \<le> expr_level hi"
  shows "\<exists>p'. reads p' ts \<and> infix_loop sd min_prec l p = infix_loop sd min_prec (EXPR_BETWEEN l lo hi n) p'"
proof -
  have "TK_BETWEEN \<in> {TK_IN, TK_BETWEEN, TK_LIKE}" by simp
  from step_not [OF r this m] obtain q where q: "q = snd (p_match p TK_NOT)" "fst (p_match p TK_NOT) = n"
    "reads q ((TK_BETWEEN, w) # expr_pieces 5 lo @ AND_WORD # expr_pieces 5 hi @ ts)"
    "get_precedence (peek_type p) = (if n then 3 else 4)" "\<not> get_precedence (peek_type p) < min_prec" "peek_type p \<noteq> TK_IS"
    "\<not> (peek_type p = TK_NOT \<and> peek_next_type p \<notin> {TK_IN, TK_BETWEEN, TK_LIKE})" "peek_type q = TK_BETWEEN" .
  define k where "k = (if n then 4 else 5 :: nat)"
  have k: "Suc (get_precedence (peek_type p)) = k" "k \<le> 5" "2 < k" using q(4) by (auto simp: k_def)
  have f5: "follows 5 ts" "get_precedence (first_type ts) < k"
    using f follows_mono [OF f, of 5] by (auto simp: k_def follows_def Let_def split: if_splits)
  have fa: "follows 5 (AND_WORD # expr_pieces 5 hi @ ts)" by (simp add: follows_def)
  obtain p1 where p1: "reads p1 (AND_WORD # expr_pieces 5 hi @ ts)" "parse_expression_prec sd k (p_advance q) = Some (Some lo, p1)"
    using operand_read [OF lo reads_peek(4) [OF q(3)] fa k(2)] k(3) by auto
  obtain p2 where p2: "reads p2 ts" "parse_expression_prec sd k (p_skip p1 TK_AND) = Some (Some hi, p2)"
    using operand_read [OF hi reads_skip [OF p1(1)] f5(1) k(2) f5(2)] by blast
  have "infix_loop sd min_prec l p = infix_loop sd min_prec (EXPR_BETWEEN l lo hi n) p2"
    using q p1(2) p2(2) k(1) by (subst infix_loop.simps) (auto simp: Let_def)
  then show ?thesis using p2(1) by blast
qed

lemma step_like:
  assumes r: "reads p (not_pieces n @ (TK_LIKE, w) # (TK_STRING_LITERAL, pat) # ts)" and m: "min_prec \<le> (if n then 3 else 4)"
    and pat: "length pat \<le> 255" and f: "follows 7 ts"
  shows "\<exists>p'. reads p' ts \<and> infix_loop sd min_prec l p = infix_loop sd min_prec (EXPR_LIKE l pat n) p'"
proof -
  have "TK_LIKE \<in> {TK_IN, TK_BETWEEN, TK_LIKE}" by simp
  from step_not [OF r this m] obtain q where q: "q = snd (p_match p TK_NOT)" "fst (p_match p TK_NOT) = n"
    "reads q ((TK_LIKE, w) # (TK_STRING_LITERAL, pat) # ts)"
    "get_precedence (peek_type p) = (if n then 3 else 4)" "\<not> get_precedence (peek_type p) < min_prec" "peek_type p \<noteq> TK_IS"
    "\<not> (peek_type p = TK_NOT \<and> peek_next_type p \<notin> {TK_IN, TK_BETWEEN, TK_LIKE})" "peek_type q = TK_LIKE" .
  have "reads (p_advance q) (expr_body (EXPR_LITERAL (VALUE_STRING pat)) @ ts)" using reads_peek(4) [OF q(3)] by simp
  then obtain p1 where p1: "reads p1 ts" "parse_primary sd (p_advance q) = Some (Some (EXPR_LITERAL (VALUE_STRING pat)), p1)"
    using literal_reads [of "VALUE_STRING pat" sd] pat f unfolding prim_reads_def by auto
  have "infix_loop sd min_prec l p = infix_loop sd min_prec (EXPR_LIKE l pat n) p1"
    using q p1(2) pat by (subst infix_loop.simps) (auto simp: Let_def)
  then show ?thesis using p1(1) by blast
qed

section \<open>Round trip\<close>

definition starters :: "token_type list" where
  "starters = literal_types @ agg_types @ [TK_IDENTIFIER, TK_LEFT_PAREN, TK_MINUS, TK_NOT]"

lemma first_type_append: "first_type (xs @ ys) = (if xs = [] then first_type ys else first_type xs)"
  by (cases xs) (auto simp: first_type_def)

lemma expr_first: "expr_ok e \<Longrightarrow> expr_body e \<noteq> [] \<and> first_type (expr_body e) \<in> set starters"
proof (induction e)
  case (EXPR_LITERAL v)
  then show ?case by (cases v) (auto simp: starters_def literal_types_def)
next
  case (EXPR_FUNCTION_CALL f args star)
  then show ?case by (auto simp: starters_def call_piece_def)
qed (auto simp: first_type_append expr_pieces.simps starters_def column_piece_def)

lemma expr_level_range: "expr_ok e \<Longrightarrow> 1 \<le> expr_level e \<and> expr_level e \<le> 7"
  by (cases e) (auto simp: binary_ops_def get_precedence_def)

lemma body_of_prim: "expr_level e = 7 \<Longrightarrow> prim_reads sd e \<Longrightarrow> body_reads sd e"
  unfolding body_reads_def prim_reads_def using primary_prec by metis

lemma binary_reads:
  assumes l: "body_reads sd l" "1 \<le> expr_level l" and r: "body_reads sd r" "1 \<le> expr_level r" and op: "op \<in> set binary_ops"
  shows "body_reads sd (EXPR_BINARY l op r)"
  unfolding body_reads_def
proof (intro allI impI, elim conjE)
  fix p rest m
  define q where "q = get_precedence op"
  assume "reads p (expr_body (EXPR_BINARY l op r) @ rest)" "follows (expr_level (EXPR_BINARY l op r)) rest"
    "m \<le> expr_level (EXPR_BINARY l op r)"
  then have p: "reads p (expr_pieces q l @ (op, op_text op) # expr_pieces (Suc q) r @ rest)" and f: "follows q rest" and m: "m \<le> q"
    by (simp_all add: q_def)
  have "follows q ((op, op_text op) # expr_pieces (Suc q) r @ rest)"
    using op by (auto simp: follows_def q_def binary_ops_def get_precedence_def)
  then obtain p1 where p1: "reads p1 ((op, op_text op) # expr_pieces (Suc q) r @ rest)"
    "parse_expression_prec sd m p = infix_loop sd m l p1"
    using pieces_read [OF l p _ m] by blast
  have "follows (Suc q) rest" "get_precedence (first_type rest) < Suc q"
    using f follows_mono [OF f, of "Suc q"] by (auto simp: follows_def Let_def)
  then obtain p2 where "reads p2 rest" "parse_expression_prec sd (Suc q) (p_advance p1) = Some (Some r, p2)"
    using operand_read [OF r reads_peek(4) [OF p1(1)]] by blast
  then show "\<exists>p'. reads p' rest \<and> parse_expression_prec sd m p = infix_loop sd m (EXPR_BINARY l op r) p'"
    using step_binary [OF p1(1) op, of m sd r p2 l] m p1(2) by (auto simp: q_def)
qed

text \<open>The forms that begin with an operand of level 4, given what the rest does.\<close>

lemma postfix_reads:
  assumes l: "body_reads sd l" "1 \<le> expr_level l" and body: "expr_body e = expr_pieces 4 l @ ts"
    and ts: "\<And>rest. follows 4 (ts @ rest)"
    and lev: "expr_level e \<le> 4"
    and step: "\<And>p rest m. reads p (ts @ rest) \<Longrightarrow> follows (expr_level e) rest \<Longrightarrow> m \<le> expr_level e \<Longrightarrow>
      \<exists>p'. reads p' rest \<and> infix_loop sd m l p = infix_loop sd m e p'"
  shows "body_reads sd e"
  unfolding body_reads_def
proof (intro allI impI, elim conjE)
  fix p rest m
  assume p: "reads p (expr_body e @ rest)" and f: "follows (expr_level e) rest" and m: "m \<le> expr_level e"
  have "reads p (expr_pieces 4 l @ ts @ rest)" using p body by simp
  then obtain p1 where "reads p1 (ts @ rest)" "parse_expression_prec sd m p = infix_loop sd m l p1"
    using pieces_read [OF l _ ts, of p rest m] m lev by auto
  then show "\<exists>p'. reads p' rest \<and> parse_expression_prec sd m p = infix_loop sd m e p'"
    using step [of p1 rest m] f m by auto
qed

lemma follows_not_pieces: "op \<in> {TK_IN, TK_BETWEEN, TK_LIKE} \<Longrightarrow> follows 4 (not_pieces n @ (op, w) # ts)"
  by (auto simp: follows_def not_pieces_def)

lemma not_reads:
  assumes e: "body_reads sd e" "1 \<le> expr_level e"
  shows "body_reads sd (EXPR_UNARY TK_NOT e)"
  unfolding body_reads_def
proof (intro allI impI, elim conjE)
  fix p rest m
  assume "reads p (expr_body (EXPR_UNARY TK_NOT e) @ rest)" and f: "follows (expr_level (EXPR_UNARY TK_NOT e)) rest"
  then have r: "reads p ((TK_NOT, ''NOT'') # expr_pieces 3 e @ rest)" by simp
  have "follows 3 rest" "get_precedence (first_type rest) < 3" using f by (auto simp: follows_def Let_def)
  then obtain p1 where p1: "reads p1 rest" "parse_expression_prec sd 3 (p_advance p) = Some (Some e, p1)"
    using operand_read [OF e reads_peek(4) [OF r]] by blast
  have "parse_primary sd p = Some (Some (EXPR_UNARY TK_NOT e), p1)"
    using reads_peek(1) [OF r] reads_no_error [OF r] p1(2)
    by (subst parse_primary.simps) (simp add: literal_types_def)
  then show "\<exists>p'. reads p' rest \<and> parse_expression_prec sd m p = infix_loop sd m (EXPR_UNARY TK_NOT e) p'"
    using p1(1) primary_prec by blast
qed

lemma minus_reads:
  assumes e: "body_reads sd e" "1 \<le> expr_level e" "expr_level e \<le> 7" "expr_level e = 7 \<longrightarrow> prim_reads sd e"
  shows "prim_reads sd (EXPR_UNARY TK_MINUS e)"
  unfolding prim_reads_def
proof (intro allI impI, elim conjE)
  fix p rest
  assume "reads p (expr_body (EXPR_UNARY TK_MINUS e) @ rest)" and f: "follows 7 rest"
  then have r: "reads p ((TK_MINUS, ''-'') # expr_pieces 7 e @ rest)" by simp
  obtain p1 where "reads p1 rest" "parse_primary sd (p_advance p) = Some (Some e, p1)"
    using primary_read [OF e(1,2) reads_peek(4) [OF r] f _ e(3)] e(4) unfolding prim_reads_def by blast
  then show "\<exists>p'. reads p' rest \<and> parse_primary sd p = Some (Some (EXPR_UNARY TK_MINUS e), p')"
    using reads_peek(1) [OF r] reads_no_error [OF r]
    by (subst parse_primary.simps) (simp add: literal_types_def)
qed

definition well_read :: "(string \<Rightarrow> double) \<Rightarrow> expr \<Rightarrow> bool" where
  "well_read sd e \<longleftrightarrow> body_reads sd e \<and> 1 \<le> expr_level e \<and> expr_level e \<le> 7 \<and> (expr_level e = 7 \<longrightarrow> prim_reads sd e)"

lemma well_read_prim: "expr_level e = 7 \<Longrightarrow> prim_reads sd e \<Longrightarrow> well_read sd e"
  by (simp add: well_read_def body_of_prim)

lemma well_read_body: "body_reads sd e \<Longrightarrow> 1 \<le> expr_level e \<Longrightarrow> expr_level e < 7 \<Longrightarrow> well_read sd e"
  by (simp add: well_read_def)

lemma well_readD: "well_read sd e \<Longrightarrow> body_reads sd e \<and> 1 \<le> expr_level e"
  by (simp add: well_read_def)

lemma list_first:
  assumes "args \<noteq> []" "list_all expr_ok args" "reads p (list_pieces args @ RPAREN # rest)"
  shows "peek_type p \<noteq> TK_STAR \<and> peek_type p \<noteq> TK_RIGHT_PAREN"
proof -
  obtain a as where a: "args = a # as" using assms(1) by (cases args) auto
  then have ok: "expr_ok a" using assms(2) by simp
  have "first_type (list_pieces args @ RPAREN # rest) \<in> set starters"
    using expr_first [OF ok] a by (auto simp: first_type_append expr_pieces.simps starters_def)
  then show ?thesis using reads_first [OF assms(3)] by (auto simp: starters_def literal_types_def agg_types_def)
qed

lemma is_null_reads:
  assumes "well_read sd e"
  shows "body_reads sd (EXPR_IS_NULL e n)"
proof (rule postfix_reads [of sd e _ "(TK_IS, ''IS'') # not_pieces n @ [(TK_NULL, ''NULL'')]"])
  fix p rest m assume "reads p (((TK_IS, ''IS'') # not_pieces n @ [(TK_NULL, ''NULL'')]) @ rest)" "m \<le> expr_level (EXPR_IS_NULL e n)"
  then show "\<exists>p'. reads p' rest \<and> infix_loop sd m e p = infix_loop sd m (EXPR_IS_NULL e n) p'"
    using step_is_null [of p "''IS''" n "''NULL''" rest m sd e] by simp
qed (use well_readD [OF assms] in \<open>simp_all add: follows_def\<close>)

lemma in_reads:
  assumes "well_read sd e" "\<And>x. x \<in> set es \<Longrightarrow> well_read sd x" "es \<noteq> []"
  shows "body_reads sd (EXPR_IN_EXPR e es n)"
proof (rule postfix_reads [of sd e _ "not_pieces n @ (TK_IN, ''IN'') # LPAREN # list_pieces es @ [RPAREN]"])
  fix p rest m assume "reads p ((not_pieces n @ (TK_IN, ''IN'') # LPAREN # list_pieces es @ [RPAREN]) @ rest)"
    "m \<le> expr_level (EXPR_IN_EXPR e es n)"
  then show "\<exists>p'. reads p' rest \<and> infix_loop sd m e p = infix_loop sd m (EXPR_IN_EXPR e es n) p'"
    using step_in [OF _ _ well_readD [OF assms(2)] assms(3), of p n "''IN''" rest m e] by simp
qed (use well_readD [OF assms(1)] in \<open>simp_all add: follows_not_pieces\<close>)

lemma between_reads:
  assumes "well_read sd e" "well_read sd lo" "well_read sd hi"
  shows "body_reads sd (EXPR_BETWEEN e lo hi n)"
proof (rule postfix_reads [of sd e _ "not_pieces n @ (TK_BETWEEN, ''BETWEEN'') # expr_pieces 5 lo @ AND_WORD # expr_pieces 5 hi"])
  fix p rest m assume "reads p ((not_pieces n @ (TK_BETWEEN, ''BETWEEN'') # expr_pieces 5 lo @ AND_WORD # expr_pieces 5 hi) @ rest)"
    "m \<le> expr_level (EXPR_BETWEEN e lo hi n)" "follows (expr_level (EXPR_BETWEEN e lo hi n)) rest"
  then show "\<exists>p'. reads p' rest \<and> infix_loop sd m e p = infix_loop sd m (EXPR_BETWEEN e lo hi n) p'"
    using step_between [of p n "''BETWEEN''" lo hi rest m sd e] assms(2,3) [THEN well_readD] by simp
qed (use well_readD [OF assms(1)] in \<open>simp_all add: follows_not_pieces\<close>)

lemma like_reads:
  assumes "well_read sd e" "length pat \<le> 255"
  shows "body_reads sd (EXPR_LIKE e pat n)"
proof (rule postfix_reads [of sd e _ "not_pieces n @ [(TK_LIKE, ''LIKE''), (TK_STRING_LITERAL, pat)]"])
  fix p rest m assume "reads p ((not_pieces n @ [(TK_LIKE, ''LIKE''), (TK_STRING_LITERAL, pat)]) @ rest)"
    "m \<le> expr_level (EXPR_LIKE e pat n)" and f: "follows (expr_level (EXPR_LIKE e pat n)) rest"
  moreover have "follows 7 rest" by (rule follows_mono [OF f]) simp
  ultimately show "\<exists>p'. reads p' rest \<and> infix_loop sd m e p = infix_loop sd m (EXPR_LIKE e pat n) p'"
    using step_like [of p n "''LIKE''" pat rest m sd e] assms(2) by simp
qed (use well_readD [OF assms(1)] in \<open>simp_all add: follows_not_pieces\<close>)

lemma binary_ops_level: "op \<in> set binary_ops \<Longrightarrow> 1 \<le> get_precedence op \<and> get_precedence op < 7"
  by (auto simp: binary_ops_def get_precedence_def)

lemma expr_well_read: "expr_ok e \<Longrightarrow> well_read sd e"
proof (induction e)
  case (EXPR_LITERAL v)
  then show ?case using literal_reads by (intro well_read_prim) simp_all
next
  case (EXPR_COLUMN_REF t c)
  then show ?case using column_reads by (intro well_read_prim) simp_all
next
  case (EXPR_BINARY l op r)
  then have w: "well_read sd l" "well_read sd r" "op \<in> set binary_ops" by simp_all
  then show ?case using binary_ops_level [OF w(3)] w(1,2) [THEN well_readD]
    by (intro well_read_body) (simp_all add: binary_reads)
next
  case (EXPR_UNARY op e)
  then have e: "well_read sd e" "op = TK_NOT \<or> op = TK_MINUS" by simp_all
  from e(2) show ?case
  proof
    assume "op = TK_NOT"
    then show ?thesis using not_reads well_readD [OF e(1)] by (intro well_read_body) simp_all
  next
    assume "op = TK_MINUS"
    then show ?thesis using minus_reads e(1) unfolding well_read_def by (intro conjI) (simp_all add: body_of_prim)
  qed
next
  case (EXPR_FUNCTION_CALL f args star)
  then have a: "length f \<le> 63" "star \<longrightarrow> args = []" "list_all expr_ok args" "\<And>x. x \<in> set args \<Longrightarrow> well_read sd x"
    by (simp_all add: list_all_iff)
  have "prim_reads sd (EXPR_FUNCTION_CALL f args star)"
    by (rule call_reads [OF a(1,2)]) (use a(4) well_readD list_first [OF _ a(3)] in blast)+
  then show ?case by (intro well_read_prim) simp_all
next
  case (EXPR_IS_NULL e n)
  then have "body_reads sd (EXPR_IS_NULL e n)" by (intro is_null_reads) simp_all
  then show ?case by (intro well_read_body) simp_all
next
  case (EXPR_IN_EXPR e es n)
  then have "body_reads sd (EXPR_IN_EXPR e es n)" by (intro in_reads) (simp_all add: list_all_iff)
  then show ?case by (intro well_read_body) simp_all
next
  case (EXPR_BETWEEN e lo hi n)
  then have "body_reads sd (EXPR_BETWEEN e lo hi n)" by (intro between_reads) simp_all
  then show ?case by (intro well_read_body) simp_all
next
  case (EXPR_LIKE e pat n)
  then have "body_reads sd (EXPR_LIKE e pat n)" by (intro like_reads) simp_all
  then show ?case by (intro well_read_body) simp_all
qed simp

text \<open>What may stand after an expression.\<close>

definition stops :: "piece list \<Rightarrow> bool" where
  "stops ts \<longleftrightarrow> get_precedence (first_type ts) = 0 \<and> first_type ts \<noteq> TK_LEFT_PAREN \<and> first_type ts \<noteq> TK_DOT"

lemma expression_read:
  assumes "expr_ok e" "reads p (expr_pieces 1 e @ rest)" "stops rest"
  shows "\<exists>p'. reads p' rest \<and> parse_expression sd p = Some (Some e, p')"
proof -
  have "follows 1 rest" using assms(3) by (auto simp: stops_def intro: follows_low)
  then show ?thesis
    using operand_read [of sd e p 1 rest 1] expr_well_read [OF assms(1)] assms(2,3)
    by (auto simp: parse_expression_def well_read_def stops_def)
qed

text \<open>C12. The expression parser undoes the printer: an expression written with only the parentheses that the
  precedences of OR, AND, NOT, the comparisons, + and - and * and / ask for (operators of one level
  grouping to the left), is parsed back to the same expression, the tokens after it are left, and no error
  is reported. The expressions are all those the parser builds, except float literals.\<close>

theorem parse_print_expression:
  assumes "expr_ok e" "map piece_of (toks p) = expr_pieces 1 e @ rest" "\<not> has_error p"
    "get_precedence (first_type rest) = 0" "first_type rest \<noteq> TK_LEFT_PAREN" "first_type rest \<noteq> TK_DOT"
  shows "\<exists>p'. parse_expression sd p = Some (Some e, p') \<and> map piece_of (toks p') = rest \<and> \<not> has_error p'"
  using expression_read [OF assms(1), of p rest sd] assms(2-6) by (auto simp: reads_def stops_def)

text \<open>The tokens of a list of pieces, and NOT a = 1 AND b NOT IN (2, 3), of which the printed form needs no
  parentheses but those of the list.\<close>

definition tokens_of :: "piece list \<Rightarrow> token list" where
  "tokens_of ts = map (\<lambda>(ty, w). \<lparr>tok_type = ty, lexeme = w, tok_line = 1, tok_column = 1\<rparr>) (ts @ [(TK_EOF, [])])"

lemma map_piece_tokens [simp]: "map piece_of (tokens_of ts) = ts @ [(TK_EOF, [])]"
  by (induction ts) (auto simp: tokens_of_def piece_of_def)

definition demo_expr :: expr where
  "demo_expr =
     EXPR_BINARY (EXPR_UNARY TK_NOT (EXPR_BINARY (EXPR_COLUMN_REF [] ''a'') TK_EQUAL (EXPR_LITERAL (VALUE_INT 1)))) TK_AND
       (EXPR_IN_EXPR (EXPR_COLUMN_REF [] ''b'') [EXPR_LITERAL (VALUE_INT 2), EXPR_LITERAL (VALUE_INT 3)] True)"

theorem parse_print_expression_witness:
  "map fst (expr_pieces 1 demo_expr) =
     [TK_NOT, TK_IDENTIFIER, TK_EQUAL, TK_INT_LITERAL, TK_AND, TK_IDENTIFIER, TK_NOT, TK_IN, TK_LEFT_PAREN, TK_INT_LITERAL,
      TK_COMMA, TK_INT_LITERAL, TK_RIGHT_PAREN] \<and>
   (\<exists>p'. parse_expression (\<lambda>_. dbl_of_int 0) (parser_init (tokens_of (expr_pieces 1 demo_expr))) = Some (Some demo_expr, p'))"
proof
  show "map fst (expr_pieces 1 demo_expr) =
     [TK_NOT, TK_IDENTIFIER, TK_EQUAL, TK_INT_LITERAL, TK_AND, TK_IDENTIFIER, TK_NOT, TK_IN, TK_LEFT_PAREN, TK_INT_LITERAL,
      TK_COMMA, TK_INT_LITERAL, TK_RIGHT_PAREN]"
    by (simp add: demo_expr_def expr_pieces.simps get_precedence_def column_piece_def not_pieces_def)
  have "expr_ok demo_expr" by (simp add: demo_expr_def binary_ops_def)
  moreover have "get_precedence (first_type [(TK_EOF, [])]) = 0" by (simp add: get_precedence_def)
  ultimately show "\<exists>p'. parse_expression (\<lambda>_. dbl_of_int 0) (parser_init (tokens_of (expr_pieces 1 demo_expr))) = Some (Some demo_expr, p')"
    using parse_print_expression [of demo_expr "parser_init (tokens_of (expr_pieces 1 demo_expr))" "[(TK_EOF, [])]" "\<lambda>_. dbl_of_int 0"]
    by (auto simp: parser_init_def)
qed

end
