(* ===== verification/Parser_Stmt.thy ===== *)
theory Parser_Stmt
  imports Parser_Expr
begin

text \<open>
  The statement parser of \<open>src/parser/parser.c\<close>. Each clause of a statement is a definition of its own, in
  the order in which the C functions read them. A result is None where the code leaves defined behaviour
  (see \<open>Parser_Expr\<close> and \<open>parse_assignment\<close>), Some (None, p) where it returns NULL.

  A name longer than its buffer is cut. The code does not write the last byte of a cut name; it is zero
  where the statement was allocated with calloc, and is taken for zero in the one buffer that was not
  (the column of an assignment).
\<close>

section \<open>Loops over commas\<close>

lemma pbind_mono [partial_function_mono]:
  assumes "mono_option m" "\<And>x p. mono_option (\<lambda>f. g f x p)"
  shows "mono_option (\<lambda>f. pbind (m f) (g f))"
  unfolding monotone_def
proof (intro allI impI)
  fix x y :: "'a \<Rightarrow> 'b option" assume le: "fun_ord option_ord x y"
  have m: "option_ord (m x) (m y)" and g: "option_ord (g x a q) (g y a q)" for a q
    using assms le by (auto simp: monotone_def)
  show "option_ord (pbind (m x) (g x)) (pbind (m y) (g y))"
    using m g by (cases "m x"; cases "m y") (auto simp: pbind_def flat_ord_def split: option.splits prod.splits)
qed

text \<open>An item, and more of them as long as a comma follows. Not returning would be None; it does not happen
  when the item does not go back in the tokens (\<open>comma_list_induct\<close>).\<close>

partial_function (option) comma_list :: "(parser \<Rightarrow> 'a presult) \<Rightarrow> parser \<Rightarrow> 'a list presult" where
  "comma_list item p =
     pbind (item p) (\<lambda>x p.
       if fst (p_match p TK_COMMA) then pbind (comma_list item (snd (p_match p TK_COMMA))) (\<lambda>xs p. Some (Some (x # xs), p))
       else Some (Some [x], snd (p_match p TK_COMMA)))"


lemma inside_left: "inside h p r \<Longrightarrow> r = Some (x, p') \<Longrightarrow> left_of p' \<le> left_of p"
  by (auto simp: inside_def keeps_def dest: suffix_length_le)

lemma comma_list_inside:
  assumes "\<And>q. inside h q (item q)"
  shows "inside h p (comma_list item p)"
proof (induction p rule: measure_induct_rule [of "\<lambda>p. left_of p"])
  case (less p)
  have "left_of (snd (p_match q TK_COMMA)) < left_of p"
    if "item p = Some (Some x, q)" "fst (p_match q TK_COMMA)" for x q
    using comma_less [OF that(2)] inside_left [OF assms that(1)] by linarith
  then show ?case unfolding comma_list.simps [of item p]
    by (intro inside_rules assms) (auto intro!: inside_from [OF less] keeps_then)
qed

text \<open>The other loop ends as soon as an item is not there; \<open>expect\<close> and \<open>match\<close> with their results used.\<close>

abbreviation (input) p_matched :: "parser \<Rightarrow> token_type \<Rightarrow> bool" where "p_matched p ty \<equiv> fst (p_match p ty)"
abbreviation (input) p_matching :: "parser \<Rightarrow> token_type \<Rightarrow> parser" where "p_matching p ty \<equiv> snd (p_match p ty)"

text \<open>An identifier copied into a buffer of n + 1 bytes, and the integer of a literal after \<open>(int)strtol\<close>.\<close>

definition p_name :: "nat \<Rightarrow> string \<Rightarrow> parser \<Rightarrow> string presult" where
  "p_name n msg p =
     (if peek_type p \<noteq> TK_IDENTIFIER then Some (None, parser_error p msg)
      else Some (Some (take n (lexeme (p_peek p))), p_advance p))"

lemma parse_expression_inside: "inside h p (parse_expression sd p)"
  unfolding parse_expression_def by (rule parse_inside)

lemma p_name_inside: "inside h p (p_name n msg p)"
  by (auto simp: p_name_def intro!: inside_rules keeps_error keeps_advance)

text \<open>How a clause is shown to stay inside the token array: by its own shape, and by the clauses it calls.\<close>

named_theorems calls

lemma has_error_expect: "\<not> fst (p_expect p ty) \<Longrightarrow> has_error (p_skip p ty)"
  by (simp add: p_expect_def p_skip_def split: if_splits)

lemma keeps_if: "(c \<Longrightarrow> keeps r p) \<Longrightarrow> (\<not> c \<Longrightarrow> keeps r q) \<Longrightarrow> keeps r (if c then p else q)"
  by simp

lemmas steps = inside_if inside_pbind inside_None inside_Some inside_error has_error_step(1) has_error_expect keeps_refl keeps_if keeps_then

lemmas [calls] = inside_from [OF parse_expression_inside] inside_from [OF p_name_inside] inside_from [OF comma_list_inside]

definition to_int32 :: "int \<Rightarrow> int" where
  "to_int32 i = signed_take_bit 31 i"

definition lexeme_int :: "parser \<Rightarrow> int" where
  "lexeme_int p = to_int32 (fst (strtoll (cstr (lexeme (p_peek p)))))"

section \<open>SELECT\<close>

text \<open>The alias of a selected expression is read over; what looks like one is given back when neither a comma
  nor FROM follows.\<close>

definition skip_alias :: "parser \<Rightarrow> parser" where
  "skip_alias p =
     (let p = (if peek_type p = TK_AS then p_advance p else p)
      in if peek_type p = TK_IDENTIFIER \<and> peek_next_type p \<noteq> TK_LEFT_PAREN then
           if peek_type (p_advance p) = TK_COMMA \<or> peek_type (p_advance p) = TK_FROM then p_advance p else p
         else p)"

lemma keeps_skip_alias [calls]: "keeps r p \<Longrightarrow> keeps r (skip_alias p)"
  unfolding skip_alias_def Let_def by (auto intro!: keeps_then)

definition parse_select_item :: "(string \<Rightarrow> double) \<Rightarrow> parser \<Rightarrow> expr presult" where
  "parse_select_item sd p = pbind (parse_expression sd p) (\<lambda>e p. Some (Some e, skip_alias p))"

lemma parse_select_item_inside [calls]: "keeps r p \<Longrightarrow> inside h r (parse_select_item sd p)"
  unfolding parse_select_item_def Let_def case_prod_beta
  by (assumption | rule steps calls | (simp; fail))+

definition parse_from_alias :: "parser \<Rightarrow> string \<times> parser" where
  "parse_from_alias p =
     (if p_matched p TK_AS then
        let p = p_matching p TK_AS
        in if peek_type p = TK_IDENTIFIER then (take 63 (lexeme (p_peek p)), p_advance p) else ([], p)
      else if peek_type p = TK_IDENTIFIER then (take 63 (lexeme (p_peek p)), p_advance p)
      else ([], p))"

lemma keeps_parse_from_alias [calls]: "keeps r p \<Longrightarrow> keeps r (snd (parse_from_alias p))"
  unfolding parse_from_alias_def Let_def by (auto intro!: keeps_then)

definition parse_from_table :: "parser \<Rightarrow> table_ref presult" where
  "parse_from_table p =
     pbind (p_name 63 ''Expected table name after FROM'' p) (\<lambda>name p.
       let (alias, p) = parse_from_alias p in Some (Some \<lparr>tref_name = name, tref_alias = alias\<rparr>, p))"

lemma parse_from_table_inside [calls]: "keeps r p \<Longrightarrow> inside h r (parse_from_table p)"
  unfolding parse_from_table_def Let_def case_prod_beta
  by (assumption | rule steps calls | (simp; fail))+

definition join_kind :: "parser \<Rightarrow> token_type option \<times> parser" where
  "join_kind p =
     (if p_matched p TK_INNER then (Some TK_INNER, p_matching p TK_INNER)
      else if p_matched p TK_LEFT then (Some TK_LEFT, p_matching (p_matching p TK_LEFT) TK_OUTER)
      else if p_matched p TK_RIGHT then (Some TK_RIGHT, p_matching (p_matching p TK_RIGHT) TK_OUTER)
      else if p_matched p TK_CROSS then (Some TK_CROSS, p_matching p TK_CROSS)
      else if p_matched p TK_FULL then (Some TK_FULL, p_matching (p_matching p TK_FULL) TK_OUTER)
      else (None, p))"

definition parse_join_alias :: "parser \<Rightarrow> string \<times> parser" where
  "parse_join_alias p =
     (let as = p_matched p TK_AS; p = p_matching p TK_AS
      in if as \<and> peek_type p = TK_IDENTIFIER then (take 63 (lexeme (p_peek p)), p_advance p) else ([], p))"

text \<open>The condition of a join; its being NULL is not looked at.\<close>

definition parse_on :: "(string \<Rightarrow> double) \<Rightarrow> parser \<Rightarrow> (expr option \<times> parser) option" where
  "parse_on sd p = (if p_matched p TK_ON then parse_expression sd (p_matching p TK_ON) else Some (None, p))"

definition parse_join :: "(string \<Rightarrow> double) \<Rightarrow> token_type \<Rightarrow> parser \<Rightarrow> join_clause presult" where
  "parse_join sd jt p =
     (if \<not> fst (p_expect p TK_JOIN) then Some (None, p_skip p TK_JOIN)
      else
        pbind (p_name 63 ''Expected table name after JOIN'' (p_skip p TK_JOIN)) (\<lambda>name p.
          let (alias, p) = parse_join_alias p
          in case parse_on sd p of
               None \<Rightarrow> None
             | Some (c, p) \<Rightarrow>
                 Some (Some \<lparr>join_type = jt, join_table = \<lparr>tref_name = name, tref_alias = alias\<rparr>, join_condition = c\<rparr>, p)))"

lemma keeps_join_kind: "keeps p (snd (join_kind p))"
  by (auto simp: join_kind_def intro: keeps_then)

lemma join_kind_less: "Some jt = fst (join_kind p) \<Longrightarrow> left_of (snd (join_kind p)) < left_of p"
  using left_match_less [of p] left_match [of "snd (p_match p _)" TK_OUTER, THEN le_less_trans]
  by (simp add: join_kind_def split: if_split_asm)

lemma parse_join_inside: "inside h p (parse_join sd jt p)"
proof -
  have al: "keeps q (snd (parse_join_alias q))" for q
    by (auto simp: parse_join_alias_def Let_def intro!: keeps_then intro: keeps_match)
  have on: "(parse_on sd q = None \<longrightarrow> hazard h q) \<and> (\<forall>c q'. parse_on sd q = Some (c, q') \<longrightarrow> keeps q q')" for q
    using parse_expression_inside [of h "p_matching q TK_ON" sd] keeps_match [of TK_ON q]
    by (auto simp: parse_on_def inside_def intro: keeps_trans hazard_keeps)
  have on_rest: "inside h r (case parse_on sd q of None \<Rightarrow> None | Some (c, p) \<Rightarrow> Some (Some (f c), p))"
    if "keeps r q" for r q and f :: "expr option \<Rightarrow> join_clause"
    using on [of q] that by (auto simp: inside_def split: option.splits prod.splits intro: keeps_trans hazard_keeps)
  show ?thesis unfolding parse_join_def Let_def case_prod_beta [of _ "parse_join_alias q" for q]
    by (intro inside_rules keeps_skip inside_from [OF p_name_inside] on_rest) (auto intro: keeps_trans al has_error_expect)
qed

function parse_joins :: "(string \<Rightarrow> double) \<Rightarrow> parser \<Rightarrow> join_clause list presult" where
  "parse_joins sd p =
     (case join_kind p of
        (None, p) \<Rightarrow> Some (Some [], p)
      | (Some jt, p) \<Rightarrow> pbind (parse_join sd jt p) (\<lambda>j p. pbind (parse_joins sd p) (\<lambda>js p. Some (Some (j # js), p))))"
  by pat_completeness auto

termination
  by (relation "measure (\<lambda>(sd, p). left_of p)")
    (auto simp: prod_eq_iff dest!: inside_left [OF parse_join_inside] dest: join_kind_less)

declare parse_joins.simps [simp del]

lemma parse_joins_inside [calls]: "keeps r p \<Longrightarrow> inside h r (parse_joins sd p)"
proof (induction sd p arbitrary: r rule: parse_joins.induct)
  case (1 sd p)
  obtain jt q where q: "join_kind p = (jt, q)" by fastforce
  then have "keeps r q" using keeps_join_kind [of p] keeps_trans [OF 1(2)] by simp
  then show ?case using q 1(1) [OF q [symmetric]]
    by (subst parse_joins.simps) (auto split: option.split intro!: inside_rules inside_from [OF parse_join_inside])
qed

definition parse_from :: "(string \<Rightarrow> double) \<Rightarrow> parser \<Rightarrow> (table_ref list \<times> join_clause list) presult" where
  "parse_from sd p =
     (if p_matched p TK_FROM then
        pbind (comma_list parse_from_table (p_matching p TK_FROM)) (\<lambda>ts p.
          pbind (parse_joins sd p) (\<lambda>js p. Some (Some (ts, js), p)))
      else Some (Some ([], []), p))"

lemma parse_from_inside [calls]: "keeps r p \<Longrightarrow> inside h r (parse_from sd p)"
  unfolding parse_from_def Let_def case_prod_beta
  by (assumption | rule steps calls | (simp; fail))+

text \<open>WHERE and HAVING.\<close>

definition parse_optional :: "(string \<Rightarrow> double) \<Rightarrow> token_type \<Rightarrow> parser \<Rightarrow> expr option presult" where
  "parse_optional sd ty p =
     (if p_matched p ty then pbind (parse_expression sd (p_matching p ty)) (\<lambda>e p. Some (Some (Some e), p))
      else Some (Some None, p))"

lemma parse_optional_inside [calls]: "ty \<noteq> TK_EOF \<Longrightarrow> keeps r p \<Longrightarrow> inside h r (parse_optional sd ty p)"
  unfolding parse_optional_def Let_def case_prod_beta
  by (assumption | rule steps calls | (simp; fail))+

definition parse_group_by :: "(string \<Rightarrow> double) \<Rightarrow> parser \<Rightarrow> expr list presult" where
  "parse_group_by sd p =
     (if p_matched p TK_GROUP then comma_list (parse_expression sd) (p_skip (p_matching p TK_GROUP) TK_BY)
      else Some (Some [], p))"

lemma parse_group_by_inside [calls]: "keeps r p \<Longrightarrow> inside h r (parse_group_by sd p)"
  unfolding parse_group_by_def Let_def case_prod_beta
  by (assumption | rule steps calls | (simp; fail))+

definition parse_order_item :: "(string \<Rightarrow> double) \<Rightarrow> parser \<Rightarrow> order_by_item presult" where
  "parse_order_item sd p =
     pbind (parse_expression sd p) (\<lambda>e p.
       if p_matched p TK_ASC then Some (Some \<lparr>ord_expr = e, ord_ascending = True\<rparr>, p_matching p TK_ASC)
       else if p_matched p TK_DESC then Some (Some \<lparr>ord_expr = e, ord_ascending = False\<rparr>, p_matching p TK_DESC)
       else Some (Some \<lparr>ord_expr = e, ord_ascending = True\<rparr>, p))"

lemma parse_order_item_inside [calls]: "keeps r p \<Longrightarrow> inside h r (parse_order_item sd p)"
  unfolding parse_order_item_def Let_def case_prod_beta
  by (assumption | rule steps calls | (simp; fail))+

definition parse_order_by :: "(string \<Rightarrow> double) \<Rightarrow> parser \<Rightarrow> order_by_item list presult" where
  "parse_order_by sd p =
     (if p_matched p TK_ORDER then comma_list (parse_order_item sd) (p_skip (p_matching p TK_ORDER) TK_BY)
      else Some (Some [], p))"

lemma parse_order_by_inside [calls]: "keeps r p \<Longrightarrow> inside h r (parse_order_by sd p)"
  unfolding parse_order_by_def Let_def case_prod_beta
  by (assumption | rule steps calls | (simp; fail))+

definition parse_limit :: "parser \<Rightarrow> (int \<times> int) presult" where
  "parse_limit p =
     (if p_matched p TK_LIMIT then
        let p = p_matching p TK_LIMIT
        in if peek_type p = TK_INT_LITERAL then
             let limit = lexeme_int p; p = p_advance p
             in if p_matched p TK_OFFSET then
                  let p = p_matching p TK_OFFSET
                  in if peek_type p = TK_INT_LITERAL then Some (Some (limit, lexeme_int p), p_advance p)
                     else Some (Some (limit, -1), p)
                else Some (Some (limit, -1), p)
           else Some (None, parser_error p ''Expected integer after LIMIT'')
      else Some (Some (-1, -1), p))"

lemma parse_limit_inside [calls]: "keeps r p \<Longrightarrow> inside h r (parse_limit p)"
  unfolding parse_limit_def Let_def case_prod_beta
  by (assumption | rule steps calls | (simp; fail))+

definition parse_select :: "(string \<Rightarrow> double) \<Rightarrow> parser \<Rightarrow> stmt presult" where
  "parse_select sd p =
     (let p = p_advance p; distinct = p_matched p TK_DISTINCT; p = p_matching p TK_DISTINCT
      in pbind (comma_list (parse_select_item sd) p) (\<lambda>items p.
         pbind (parse_from sd p) (\<lambda>(ts, js) p.
         pbind (parse_optional sd TK_WHERE p) (\<lambda>wh p.
         pbind (parse_group_by sd p) (\<lambda>gs p.
         pbind (parse_optional sd TK_HAVING p) (\<lambda>hv p.
         pbind (parse_order_by sd p) (\<lambda>os p.
         pbind (parse_limit p) (\<lambda>(limit, offset) p.
           Some (Some (STMT_SELECT
             \<lparr>sel_list = items, sel_distinct = distinct, sel_from = ts, sel_joins = js, sel_where = wh, sel_group = gs,
              sel_having = hv, sel_order = os, sel_limit = limit, sel_offset = offset\<rparr>), p)))))))))"

lemma parse_select_inside [calls]: "keeps r (p_advance p) \<Longrightarrow> inside h r (parse_select sd p)"
  unfolding parse_select_def Let_def case_prod_beta
  by (assumption | rule steps calls | (simp; fail))+


section \<open>CREATE TABLE\<close>

definition parse_column_type :: "parser \<Rightarrow> (col_data_type \<times> int) presult" where
  "parse_column_type p =
     (let ty = peek_type p
      in if ty = TK_INTEGER then Some (Some (COL_TYPE_INTEGER, 0), p_advance p)
         else if ty = TK_FLOAT then Some (Some (COL_TYPE_FLOAT, 0), p_advance p)
         else if ty = TK_VARCHAR then
           let p = p_advance p
           in if p_matched p TK_LEFT_PAREN then
                let p = p_matching p TK_LEFT_PAREN
                in if peek_type p = TK_INT_LITERAL then
                     Some (Some (COL_TYPE_VARCHAR, lexeme_int p), p_skip (p_advance p) TK_RIGHT_PAREN)
                   else Some (Some (COL_TYPE_VARCHAR, 0), p_skip p TK_RIGHT_PAREN)
              else Some (Some (COL_TYPE_VARCHAR, 0), p)
         else if ty = TK_BOOLEAN then Some (Some (COL_TYPE_BOOLEAN, 0), p_advance p)
         else Some (None, parser_error p (''Expected data type but found '' @ token_type_to_string ty)))"

lemma parse_column_type_inside [calls]: "keeps r p \<Longrightarrow> inside h r (parse_column_type p)"
  unfolding parse_column_type_def Let_def case_prod_beta
  by (assumption | rule steps calls | (simp; fail))+

text \<open>A default that is not a literal, or not an expression, leaves the stored value as it was.\<close>

function parse_constraints :: "(string \<Rightarrow> double) \<Rightarrow> ast_column_def \<Rightarrow> parser \<Rightarrow> (ast_column_def \<times> parser) option" where
  "parse_constraints sd col p =
     (if p_matched p TK_PRIMARY then
        parse_constraints sd (col\<lparr>acol_primary_key := True, acol_not_null := True\<rparr>) (p_skip (p_matching p TK_PRIMARY) TK_KEY)
      else if p_matched p TK_NOT then
        parse_constraints sd (col\<lparr>acol_not_null := True\<rparr>) (p_skip (p_matching p TK_NOT) TK_NULL)
      else if p_matched p TK_UNIQUE then
        parse_constraints sd (col\<lparr>acol_unique := True\<rparr>) (p_matching p TK_UNIQUE)
      else if p_matched p TK_DEFAULT then
        (case parse_expression sd (p_matching p TK_DEFAULT) of
           None \<Rightarrow> None
         | Some (e, p) \<Rightarrow>
             parse_constraints sd
               (col\<lparr>acol_has_default := True,
                    acol_default := (case e of Some (EXPR_LITERAL v) \<Rightarrow> v | _ \<Rightarrow> acol_default col)\<rparr>) p)
      else Some (col, p))"
  by pat_completeness auto

termination
  by (relation "measure (\<lambda>(sd, col, p). left_of p)")
    (auto intro: left_skip [THEN le_less_trans] left_match_less
      dest!: inside_left [OF parse_expression_inside] elim!: le_less_trans)

declare parse_constraints.simps [simp del]

definition reaches :: "bool \<Rightarrow> parser \<Rightarrow> ('a \<times> parser) option \<Rightarrow> bool" where
  "reaches h p m \<longleftrightarrow> (case m of None \<Rightarrow> hazard h p | Some (x, q) \<Rightarrow> keeps p q)"

lemma reaches_if: "(c \<Longrightarrow> reaches h p a) \<Longrightarrow> (\<not> c \<Longrightarrow> reaches h p b) \<Longrightarrow> reaches h p (if c then a else b)"
  by simp

lemma inside_reaches: "reaches h r m \<Longrightarrow> inside h r (case m of None \<Rightarrow> None | Some x \<Rightarrow> Some (Some (fst x), snd x))"
  by (auto simp: reaches_def inside_def split: option.splits prod.splits)

lemma keeps_parse_constraints: "keeps r p \<Longrightarrow> reaches h r (parse_constraints sd col p)"
proof (induction sd col p arbitrary: r rule: parse_constraints.induct)
  case (1 sd col p)
  have e: "reaches h r (parse_expression sd (p_matching p TK_DEFAULT))"
    using inside_from [OF parse_expression_inside keeps_then(2) [OF 1(5)], of TK_DEFAULT h sd]
    by (auto simp: inside_def reaches_def split: option.split)
  have "reaches h r (case parse_expression sd (p_matching p TK_DEFAULT) of None \<Rightarrow> None
      | Some (e, p) \<Rightarrow> parse_constraints sd (f e) p)"
    if "\<And>e q. parse_expression sd (p_matching p TK_DEFAULT) = Some (e, q) \<Longrightarrow> keeps r q \<Longrightarrow> reaches h r (parse_constraints sd (f e) q)"
    for f
    using e that by (auto simp: reaches_def split: option.splits prod.splits)
  note default = this
  show ?case unfolding parse_constraints.simps [of sd col p]
    by (rule reaches_if default | (rule 1(1-3), assumption+, (rule keeps_then 1(5) | simp; fail)+)
      | (rule 1(4), assumption+, rule refl) | (simp add: reaches_def 1(5); fail) | assumption)+
qed

definition parse_column_def :: "(string \<Rightarrow> double) \<Rightarrow> parser \<Rightarrow> ast_column_def presult" where
  "parse_column_def sd p =
     pbind (p_name 63 ''Expected column name'' p) (\<lambda>name p.
       pbind (parse_column_type p) (\<lambda>(ty, len) p.
         case parse_constraints sd
             \<lparr>acol_name = name, acol_type = ty, acol_varchar_len = len, acol_primary_key = False, acol_not_null = False,
              acol_unique = False, acol_has_default = False, acol_default = VALUE_NULL\<rparr> p of
           None \<Rightarrow> None
         | Some (col, p) \<Rightarrow> Some (Some col, p)))"

lemma parse_column_def_inside [calls]: "keeps r p \<Longrightarrow> inside h r (parse_column_def sd p)"
  unfolding parse_column_def_def Let_def case_prod_beta
  by (assumption | rule steps calls inside_reaches keeps_parse_constraints | (simp; fail))+

definition parse_create_table :: "(string \<Rightarrow> double) \<Rightarrow> parser \<Rightarrow> stmt presult" where
  "parse_create_table sd p =
     (let p = p_skip (p_advance p) TK_TABLE;
          if_not_exists = p_matched p TK_IF;
          p = (if if_not_exists then p_skip (p_skip (p_matching p TK_IF) TK_NOT) TK_EXISTS else p)
      in pbind (p_name 63 ''Expected table name'' p) (\<lambda>name p.
           pbind (comma_list (parse_column_def sd) (p_skip p TK_LEFT_PAREN)) (\<lambda>cols p.
             Some (Some (STMT_CREATE_TABLE \<lparr>ct_table = name, ct_columns = cols, ct_if_not_exists = if_not_exists\<rparr>),
                   p_skip p TK_RIGHT_PAREN))))"

lemma parse_create_table_inside [calls]: "keeps r (p_advance p) \<Longrightarrow> inside h r (parse_create_table sd p)"
  unfolding parse_create_table_def Let_def case_prod_beta
  by (assumption | rule steps calls | (simp; fail))+

section \<open>CREATE INDEX and the DROP statements\<close>

function index_columns :: "nat \<Rightarrow> parser \<Rightarrow> string list presult" where
  "index_columns n p =
     (if n \<ge> 8 then Some (None, parser_error p ''Too many columns in index'')
      else
        pbind (p_name 63 ''Expected column name in index'' p) (\<lambda>c p.
          if p_matched p TK_COMMA then pbind (index_columns (n + 1) (p_matching p TK_COMMA)) (\<lambda>cs p. Some (Some (c # cs), p))
          else Some (Some [c], p)))"
  by pat_completeness auto

termination by (relation "measure (\<lambda>(n, p). 8 - n)") auto

declare index_columns.simps [simp del]

lemma index_columns_inside [calls]: "keeps r p \<Longrightarrow> inside h r (index_columns n p)"
proof (induction n p arbitrary: r rule: index_columns.induct)
  case (1 n p)
  show ?case using 1(2) by (subst index_columns.simps) (rule steps calls 1(1) | assumption | (simp; fail))+
qed

text \<open>\<open>is_unique\<close> is never set: CREATE UNIQUE comes here too, and fails at the word UNIQUE.\<close>

definition parse_create_index :: "parser \<Rightarrow> stmt presult" where
  "parse_create_index p =
     pbind (p_name 63 ''Expected index name'' (p_skip (p_advance p) TK_INDEX)) (\<lambda>index p.
       pbind (p_name 63 ''Expected table name after ON'' (p_skip p TK_ON)) (\<lambda>table p.
         pbind (index_columns 0 (p_skip p TK_LEFT_PAREN)) (\<lambda>cols p.
           Some (Some (STMT_CREATE_INDEX \<lparr>ci_table = table, ci_index = index, ci_columns = cols, ci_unique = False\<rparr>),
                 p_skip p TK_RIGHT_PAREN))))"

lemma parse_create_index_inside [calls]: "keeps r (p_advance p) \<Longrightarrow> inside h r (parse_create_index p)"
  unfolding parse_create_index_def Let_def case_prod_beta
  by (assumption | rule steps calls | (simp; fail))+

definition parse_drop_table :: "parser \<Rightarrow> stmt presult" where
  "parse_drop_table p =
     (let p = p_skip (p_advance p) TK_TABLE;
          if_exists = p_matched p TK_IF;
          p = (if if_exists then p_skip (p_matching p TK_IF) TK_EXISTS else p)
      in pbind (p_name 63 ''Expected table name after DROP TABLE'' p) (\<lambda>name p.
           Some (Some (STMT_DROP_TABLE \<lparr>dt_table = name, dt_if_exists = if_exists\<rparr>), p)))"

lemma parse_drop_table_inside [calls]: "keeps r (p_advance p) \<Longrightarrow> inside h r (parse_drop_table p)"
  unfolding parse_drop_table_def Let_def case_prod_beta
  by (assumption | rule steps calls | (simp; fail))+

definition parse_drop_index :: "parser \<Rightarrow> stmt presult" where
  "parse_drop_index p =
     pbind (p_name 63 ''Expected index name after DROP INDEX'' (p_skip (p_advance p) TK_INDEX)) (\<lambda>index p.
       if p_matched p TK_ON then
         let p = p_matching p TK_ON
         in if peek_type p = TK_IDENTIFIER then
              Some (Some (STMT_DROP_INDEX \<lparr>di_index = index, di_table = take 63 (lexeme (p_peek p))\<rparr>), p_advance p)
            else Some (Some (STMT_DROP_INDEX \<lparr>di_index = index, di_table = []\<rparr>), p)
       else Some (Some (STMT_DROP_INDEX \<lparr>di_index = index, di_table = []\<rparr>), p))"

lemma parse_drop_index_inside [calls]: "keeps r (p_advance p) \<Longrightarrow> inside h r (parse_drop_index p)"
  unfolding parse_drop_index_def Let_def case_prod_beta
  by (assumption | rule steps calls | (simp; fail))+

section \<open>INSERT, UPDATE, DELETE\<close>

function insert_columns :: "parser \<Rightarrow> string list \<times> parser" where
  "insert_columns p =
     (if peek_type p = TK_IDENTIFIER then
        let c = take 63 (lexeme (p_peek p)); p = p_advance p
        in if p_matched p TK_COMMA then
             let (cs, p) = insert_columns (p_matching p TK_COMMA) in (c # cs, p)
           else ([c], p)
      else ([], p))"
  by pat_completeness auto

termination
  by (relation "measure (\<lambda>p. length (toks p))") (auto intro!: left_match [THEN le_less_trans] left_advance_less)

declare insert_columns.simps [simp del]

lemma keeps_insert_columns [calls]: "keeps r p \<Longrightarrow> keeps r (snd (insert_columns p))"
proof (induction p arbitrary: r rule: insert_columns.induct)
  case (1 p)
  then have "keeps r (p_advance p)" if "peek_type p = TK_IDENTIFIER" using that by (simp add: keeps_then)
  then show ?case using 1 by (subst insert_columns.simps) (auto simp: Let_def case_prod_beta intro: keeps_then)
qed

definition parse_insert_columns :: "parser \<Rightarrow> string list \<times> parser" where
  "parse_insert_columns p =
     (if peek_type p = TK_LEFT_PAREN \<and> peek_next_type p = TK_IDENTIFIER then
        let (cs, p) = insert_columns (p_advance p) in (cs, p_skip p TK_RIGHT_PAREN)
      else ([], p))"

lemma keeps_parse_insert_columns [calls]: "keeps r p \<Longrightarrow> keeps r (snd (parse_insert_columns p))"
  unfolding parse_insert_columns_def Let_def case_prod_beta by (auto intro!: keeps_then calls)

definition parse_row :: "(string \<Rightarrow> double) \<Rightarrow> parser \<Rightarrow> expr list presult" where
  "parse_row sd p =
     pbind (comma_list (parse_expression sd) (p_skip p TK_LEFT_PAREN)) (\<lambda>es p. Some (Some es, p_skip p TK_RIGHT_PAREN))"

lemma parse_row_inside [calls]: "keeps r p \<Longrightarrow> inside h r (parse_row sd p)"
  unfolding parse_row_def Let_def case_prod_beta
  by (assumption | rule steps calls | (simp; fail))+

definition parse_insert :: "(string \<Rightarrow> double) \<Rightarrow> parser \<Rightarrow> stmt presult" where
  "parse_insert sd p =
     pbind (p_name 63 ''Expected table name after INSERT INTO'' (p_skip (p_advance p) TK_INTO)) (\<lambda>name p.
       let (cols, p) = parse_insert_columns p
       in pbind (comma_list (parse_row sd) (p_skip p TK_VALUES)) (\<lambda>rows p.
            Some (Some (STMT_INSERT \<lparr>ins_table = name, ins_columns = cols, ins_values = rows\<rparr>), p)))"

lemma parse_insert_inside [calls]: "keeps r (p_advance p) \<Longrightarrow> inside h r (parse_insert sd p)"
  unfolding parse_insert_def Let_def case_prod_beta
  by (assumption | rule steps calls | (simp; fail))+

text \<open>The entries come from \<open>malloc\<close>. One is counted before its value is set: when the column name is missing the statement is freed
  with the pointer of that entry not initialised. And \<open>strncpy\<close> copies at most 63 bytes of the name into the array of
  64 without a terminator behind them (the other copies go to zeroed memory or store it): a name of 63 bytes or more leaves a string
  without an end, which is outside the model at once.\<close>

definition parse_assignment :: "(string \<Rightarrow> double) \<Rightarrow> parser \<Rightarrow> assignment presult" where
  "parse_assignment sd p =
     (if peek_type p \<noteq> TK_IDENTIFIER \<or> length (lexeme (p_peek p)) \<ge> 63 then None
      else
        let c = lexeme (p_peek p)
        in pbind (parse_expression sd (p_skip (p_advance p) TK_EQUAL)) (\<lambda>e p.
             Some (Some \<lparr>asg_column = c, asg_value = e\<rparr>, p)))"

lemma parse_assignment_inside: "keeps r p \<Longrightarrow> inside True r (parse_assignment sd p)"
  unfolding parse_assignment_def Let_def case_prod_beta
  by (assumption | rule steps calls inside_None | (simp add: hazard_def; fail))+

definition parse_update :: "(string \<Rightarrow> double) \<Rightarrow> parser \<Rightarrow> stmt presult" where
  "parse_update sd p =
     pbind (p_name 63 ''Expected table name after UPDATE'' (p_advance p)) (\<lambda>name p.
       pbind (comma_list (parse_assignment sd) (p_skip p TK_SET)) (\<lambda>as p.
         pbind (parse_optional sd TK_WHERE p) (\<lambda>wh p.
           Some (Some (STMT_UPDATE \<lparr>upd_table = name, upd_assignments = as, upd_where = wh\<rparr>), p))))"

lemma parse_update_inside [calls]: "keeps r (p_advance p) \<Longrightarrow> inside True r (parse_update sd p)"
  unfolding parse_update_def Let_def case_prod_beta
  by (assumption | rule steps calls inside_from [OF comma_list_inside] parse_assignment_inside | (simp; fail))+

definition parse_delete :: "(string \<Rightarrow> double) \<Rightarrow> parser \<Rightarrow> stmt presult" where
  "parse_delete sd p =
     pbind (p_name 63 ''Expected table name after DELETE FROM'' (p_skip (p_advance p) TK_FROM)) (\<lambda>name p.
       pbind (parse_optional sd TK_WHERE p) (\<lambda>wh p. Some (Some (STMT_DELETE \<lparr>del_table = name, del_where = wh\<rparr>), p)))"

lemma parse_delete_inside [calls]: "keeps r (p_advance p) \<Longrightarrow> inside h r (parse_delete sd p)"
  unfolding parse_delete_def Let_def case_prod_beta
  by (assumption | rule steps calls | (simp; fail))+


section \<open>BEGIN\<close>

definition parse_isolation :: "parser \<Rightarrow> string \<times> parser" where
  "parse_isolation p =
     (let p = p_matching p TK_LEVEL
      in if p_matched p TK_READ then
           let p = p_matching p TK_READ
           in if p_matched p TK_UNCOMMITTED then (''READ UNCOMMITTED'', p_matching p TK_UNCOMMITTED)
              else if p_matched p TK_COMMITTED then (''READ COMMITTED'', p_matching p TK_COMMITTED)
              else ([], p)
         else if p_matched p TK_REPEATABLE then (''REPEATABLE READ'', p_skip (p_matching p TK_REPEATABLE) TK_READ)
         else if p_matched p TK_SERIALIZABLE then (''SERIALIZABLE'', p_matching p TK_SERIALIZABLE)
         else ([], p))"

lemma keeps_parse_isolation [calls]: "keeps r p \<Longrightarrow> keeps r (snd (parse_isolation p))"
  unfolding parse_isolation_def Let_def case_prod_beta by (auto intro!: keeps_then calls)

definition parse_begin :: "parser \<Rightarrow> stmt presult" where
  "parse_begin p =
     (let p = p_matching (p_advance p) TK_TRANSACTION
      in if p_matched p TK_ISOLATION then
           let (level, p) = parse_isolation (p_matching p TK_ISOLATION) in Some (Some (STMT_BEGIN level), p)
         else Some (Some (STMT_BEGIN []), p))"

lemma parse_begin_inside [calls]: "keeps r (p_advance p) \<Longrightarrow> inside h r (parse_begin p)"
  unfolding parse_begin_def Let_def case_prod_beta
  by (assumption | rule steps calls | (simp; fail))+

section \<open>Statements\<close>

definition unexpected :: "parser \<Rightarrow> parser" where
  "unexpected p =
     parser_error p
       (''Unexpected token: '' @ token_type_to_string (peek_type p) @ '' ('' @ [QUOTE] @ lexeme (p_peek p) @ [QUOTE] @
        '') at line '' @ dec (tok_line (p_peek p)) @ '', column '' @ dec (tok_column (p_peek p)))"

function (sequential) parse_statement :: "(string \<Rightarrow> double) \<Rightarrow> parser \<Rightarrow> stmt presult" and
  parse_explain :: "(string \<Rightarrow> double) \<Rightarrow> parser \<Rightarrow> stmt presult" where
  "parse_statement sd p =
     (if has_error p then Some (None, p)
      else if is_at_end p then Some (None, p)
      else
        let ty = peek_type p
        in if ty = TK_SELECT then parse_select sd p
           else if ty = TK_CREATE then
             if peek_next_type p = TK_INDEX \<or> peek_next_type p = TK_UNIQUE then parse_create_index p
             else parse_create_table sd p
           else if ty = TK_DROP then
             if peek_next_type p = TK_INDEX then parse_drop_index p else parse_drop_table p
           else if ty = TK_INSERT then parse_insert sd p
           else if ty = TK_UPDATE then parse_update sd p
           else if ty = TK_DELETE then parse_delete sd p
           else if ty = TK_BEGIN then parse_begin p
           else if ty = TK_COMMIT then Some (Some STMT_COMMIT, p_advance p)
           else if ty = TK_ROLLBACK then Some (Some STMT_ROLLBACK, p_advance p)
           else if ty = TK_EXPLAIN then parse_explain sd p
           else Some (None, unexpected p))"
| "parse_explain sd p =
     pbind (parse_statement sd (p_advance p)) (\<lambda>s p. Some (Some (STMT_EXPLAIN s), p))"
  by pat_completeness auto


termination parse_statement
  by (relation "measure (\<lambda>x. case x of Inl (_, p) \<Rightarrow> 2 * length (toks p)
       | Inr (_, p) \<Rightarrow> if toks p = [] then 1 else 2 * length (toks p) - 1)")
    (auto simp: is_at_end_def p_advance_def neq_Nil_conv)

declare parse_statement.simps [simp del] parse_explain.simps [simp del]

definition parser_parse :: "(string \<Rightarrow> double) \<Rightarrow> parser \<Rightarrow> stmt presult" where
  "parser_parse sd p =
     (case parse_statement sd p of
        None \<Rightarrow> None
      | Some (s, p) \<Rightarrow> Some (s, if s \<noteq> None \<and> \<not> has_error p then p_matching p TK_SEMICOLON else p))"

lemma at_end_less: "\<not> is_at_end p \<Longrightarrow> left_of (p_advance p) < left_of p"
  by (cases "toks p") (simp_all add: is_at_end_def p_advance_def)

lemma keeps_forward: "\<not> is_at_end p \<Longrightarrow> keeps p (p_advance p)"
  by (rule keeps_advance) (simp add: is_at_end_def)

text \<open>The parser stays inside the array, and a statement that is returned has used up tokens.\<close>

definition updates :: "parser \<Rightarrow> bool" where
  "updates p \<longleftrightarrow> TK_UPDATE \<in> tok_type ` set (toks p)"

text \<open>NULL without an error is the end of the input.\<close>

definition forward :: "parser \<Rightarrow> 'a presult \<Rightarrow> bool" where
  "forward p r \<longleftrightarrow>
     (r = None \<longrightarrow> hazard (updates p) p) \<and>
     (\<forall>x p'. r = Some (x, p') \<longrightarrow> keeps p p' \<and> (x = None \<longrightarrow> has_error p' \<or> is_at_end p'))"

definition progress :: "parser \<Rightarrow> 'a presult \<Rightarrow> bool" where
  "progress p r \<longleftrightarrow> forward p r \<and> (\<forall>x p'. r = Some (Some x, p') \<longrightarrow> left_of p' < left_of p)"

lemma progress_if: "(c \<Longrightarrow> progress p r) \<Longrightarrow> (\<not> c \<Longrightarrow> progress p s) \<Longrightarrow> progress p (if c then r else s)"
  by simp

lemma progress_null: "keeps p p' \<Longrightarrow> has_error p' \<or> is_at_end p' \<Longrightarrow> progress p (Some (None, p'))"
  by (simp add: progress_def forward_def)

lemma updates_peek: "peek_type p = TK_UPDATE \<Longrightarrow> updates p"
  by (cases "toks p") (auto simp: updates_def peek_type_def p_peek_def eof_token_def)

lemma updates_keeps: "keeps p q \<Longrightarrow> updates q \<Longrightarrow> updates p"
  by (auto simp: keeps_def updates_def dest: set_mono_suffix)

lemma progress_forward:
  assumes "\<not> is_at_end p" "forward (p_advance p) r"
  shows "progress p r"
proof -
  note k = keeps_forward [OF assms(1)]
  have "keeps p p' \<and> left_of p' < left_of p" if "keeps (p_advance p) p'" for p'
    using that keeps_trans [OF k that] at_end_less [OF assms(1)] by (auto simp: keeps_def dest: suffix_length_le)
  then show ?thesis using assms(2) hazard_keeps [OF k] updates_keeps [OF k]
    by (auto simp: progress_def forward_def hazard_def)
qed

lemma progress_from: "\<not> is_at_end p \<Longrightarrow> inside False (p_advance p) r \<Longrightarrow> progress p r"
  by (rule progress_forward) (auto simp: forward_def inside_def hazard_def)

lemma progress_update:
  assumes "peek_type p = TK_UPDATE" "\<not> is_at_end p" "inside True (p_advance p) r"
  shows "progress p r"
proof (cases r)
  case None
  then show ?thesis using updates_peek [OF assms(1)] by (simp add: progress_def forward_def hazard_def)
next
  case (Some x)
  then have "progress p r" using assms(3) by (intro progress_from [OF assms(2)]) (simp add: inside_def)
  then show ?thesis .
qed

lemma parse_statement_progress:
  "progress p (parse_statement sd p)"
  "forward (p_advance p) (parse_explain sd p)"
proof (induction sd p and sd p rule: parse_statement_parse_explain.induct)
  case (1 sd p)
  show ?case
    unfolding parse_statement.simps [of sd p] Let_def
    by (rule progress_if | (rule progress_null; simp; fail) | (rule progress_null; simp add: unexpected_def keeps_error; fail)
      | (rule progress_update, assumption, assumption, rule calls keeps_refl, rule keeps_refl)
      | (rule progress_from, assumption, (rule calls keeps_refl inside_Some)+; fail)
      | (rule progress_forward, assumption, (rule 1; (assumption | rule refl))))+
next
  case (2 sd p)
  then show ?case unfolding parse_explain.simps [of sd p]
    by (cases "parse_statement sd (p_advance p)") (auto simp: progress_def forward_def pbind_def split: option.splits)
qed

lemma parse_statement_less: "parse_statement sd p = Some (Some s, q) \<Longrightarrow> left_of q < left_of p"
  using parse_statement_progress(1) [of p sd] by (auto simp: progress_def)

function parser_parse_all :: "(string \<Rightarrow> double) \<Rightarrow> parser \<Rightarrow> (stmt list \<times> parser) option" where
  "parser_parse_all sd p =
     (if is_at_end p \<or> has_error p then Some ([], p)
      else if peek_type p = TK_SEMICOLON then parser_parse_all sd (p_advance p)
      else
        case parse_statement sd p of
          None \<Rightarrow> None
        | Some (None, p) \<Rightarrow> Some ([], p)
        | Some (Some s, p) \<Rightarrow> map_option (\<lambda>(ss, p). (s # ss, p)) (parser_parse_all sd (p_matching p TK_SEMICOLON)))"
  by pat_completeness auto

termination
  by (relation "measure (\<lambda>(sd, p). left_of p)")
    (auto intro: at_end_less le_less_trans [OF left_match] dest: parse_statement_less)

declare parser_parse_all.simps [simp del]

lemma parse_all_forward:
  "(parser_parse_all sd p = None \<longrightarrow> hazard (updates p) p) \<and>
   (\<forall>ss q. parser_parse_all sd p = Some (ss, q) \<longrightarrow> keeps p q \<and> (has_error q \<or> is_at_end q))"
proof (induction sd p rule: parser_parse_all.induct)
  case (1 sd p)
  have st: "progress p (parse_statement sd p)" by (rule parse_statement_progress)
  show ?case
  proof (cases "is_at_end p \<or> has_error p")
    case True
    then show ?thesis by (subst (1 2) parser_parse_all.simps) auto
  next
    case False
    then have k: "keeps p (p_advance p)" by (simp add: keeps_forward)
    have bk: "hazard (updates q) q \<Longrightarrow> hazard (updates p) p" if "keeps p q" for q
      using hazard_keeps [OF that] updates_keeps [OF that] by (auto simp: hazard_def)
    show ?thesis
    proof (cases "peek_type p = TK_SEMICOLON")
      case True
      then have "parser_parse_all sd p = parser_parse_all sd (p_advance p)" using False by (subst parser_parse_all.simps) simp
      then show ?thesis using 1(1) [OF False True] bk [OF k] keeps_trans [OF k] by auto
    next
      case semi: False
      show ?thesis
      proof (cases "parse_statement sd p")
        case None
        then show ?thesis using st False semi by (subst (1 2) parser_parse_all.simps) (simp add: progress_def forward_def)
      next
        case (Some r)
        obtain s q where r: "r = (s, q)" by fastforce
        then have q: "keeps p q" "s = None \<longrightarrow> has_error q \<or> is_at_end q" using st Some by (auto simp: progress_def forward_def)
        then have m: "keeps p (p_matching q TK_SEMICOLON)" by (intro keeps_then) simp_all
        show ?thesis
        proof (cases s)
          case None
          then show ?thesis using Some r q False semi by (subst (1 2) parser_parse_all.simps) simp
        next
          case s: (Some x)
          have "parser_parse_all sd p = map_option (\<lambda>(ss, p). (x # ss, p)) (parser_parse_all sd (p_matching q TK_SEMICOLON))"
            using Some r s False semi by (subst parser_parse_all.simps) simp
          then show ?thesis using 1(2) [OF False semi Some r [symmetric] s] bk [OF m] keeps_trans [OF m] by auto
        qed
      qed
    qed
  qed
qed

lemma parse_one_forward:
  assumes "parser_parse sd p = Some (s, q)"
  shows "keeps p q \<and> (s = None \<longrightarrow> has_error q \<or> is_at_end q)"
proof -
  obtain q' where q': "parse_statement sd p = Some (s, q')" "q = (if s \<noteq> None \<and> \<not> has_error q' then p_matching q' TK_SEMICOLON else q')"
    using assms by (auto simp: parser_parse_def split: option.splits)
  then have "keeps p q'" "s = None \<longrightarrow> has_error q' \<or> is_at_end q'"
    using parse_statement_progress(1) [of p sd] by (auto simp: progress_def forward_def)
  then show ?thesis using q'(2) keeps_then(2) [of p q' TK_SEMICOLON] by auto
qed

text \<open>C11. The statement parser is safe on every token array: it ends; without LIKE and UPDATE among the tokens it
  never leaves defined behaviour; it moves forward only and, when the array closes with the end-of-file
  token, never past that token; \<open>parser_parse\<close> returns NULL only with an error reported or at the end of the
  input, and \<open>parser_parse_all\<close> stops only there.\<close>

theorem parser_safe:
  "(TK_LIKE \<notin> tok_type ` set (toks p) \<and> TK_UPDATE \<notin> tok_type ` set (toks p) \<longrightarrow>
      parser_parse sd p \<noteq> None \<and> parser_parse_all sd p \<noteq> None) \<and>
   (\<forall>s q. parser_parse sd p = Some (s, q) \<longrightarrow>
      suffix (toks q) (toks p) \<and> (ends p \<longrightarrow> ends q) \<and> (s = None \<longrightarrow> has_error q \<or> is_at_end q)) \<and>
   (\<forall>ss q. parser_parse_all sd p = Some (ss, q) \<longrightarrow>
      suffix (toks q) (toks p) \<and> (ends p \<longrightarrow> ends q) \<and> (has_error q \<or> is_at_end q))"
  using parse_statement_progress(1) [of p sd] parse_all_forward [of sd p] parse_one_forward [of sd p]
  by (auto simp: parser_parse_def progress_def forward_def hazard_def updates_def keeps_def split: option.split)

definition demo_toks :: "token list" where
  "demo_toks = map (\<lambda>ty. \<lparr>tok_type = ty, lexeme = ''x'', tok_line = 1, tok_column = 1\<rparr>) [TK_SELECT, TK_WHERE, TK_EOF]"

theorem parser_safe_witness:
  "ends (parser_init demo_toks) \<and> (\<exists>q. parser_parse (\<lambda>_. 0) (parser_init demo_toks) = Some (None, q) \<and> has_error q \<and> ends q) \<and>
   (\<exists>ss q. parser_parse_all (\<lambda>_. 0) (parser_init demo_toks) = Some (ss, q) \<and> ends q)"
proof -
  let ?p = "parser_init demo_toks"
  have e: "ends ?p" by (simp add: ends_def parser_init_def demo_toks_def)
  have "TK_LIKE \<notin> tok_type ` set (toks ?p)" "TK_UPDATE \<notin> tok_type ` set (toks ?p)" by (simp_all add: parser_init_def demo_toks_def)
  then obtain s q ss q'
    where r: "parser_parse (\<lambda>_. 0) ?p = Some (s, q)" "parser_parse_all (\<lambda>_. 0) ?p = Some (ss, q')"
    using parser_safe [of ?p "\<lambda>_. 0"] by fastforce
  have "parse_primary (\<lambda>_. 0) (p_matching (p_advance ?p) TK_DISTINCT) =
      Some (None, parser_error (p_advance ?p) (''Unexpected token: '' @ ''WHERE'' @ '' ('' @ [QUOTE] @ ''x'' @ [QUOTE] @ '')''))"
    by (subst parse_primary.simps) (simp add: p_match_def p_advance_def peek_type_def p_peek_def parser_init_def demo_toks_def
        literal_types_def agg_types_def token_type_to_string_def token_name_table_def)
  then have "comma_list (parse_select_item (\<lambda>_. 0)) (p_matching (p_advance ?p) TK_DISTINCT) =
      Some (None, parser_error (p_advance ?p) (''Unexpected token: '' @ ''WHERE'' @ '' ('' @ [QUOTE] @ ''x'' @ [QUOTE] @ '')''))"
    by (subst comma_list.simps) (simp add: parse_select_item_def parse_expression_def parse_expression_prec.simps)
  then have "parse_statement (\<lambda>_. 0) ?p =
      Some (None, parser_error (p_advance ?p) (''Unexpected token: '' @ ''WHERE'' @ '' ('' @ [QUOTE] @ ''x'' @ [QUOTE] @ '')''))"
    by (subst parse_statement.simps)
      (simp add: is_at_end_def peek_type_def p_peek_def parser_init_def demo_toks_def parse_select_def Let_def)
  then have "s = None" "has_error q" using r(1) by (auto simp: parser_parse_def)
  then show ?thesis using e r parser_safe [of ?p "\<lambda>_. 0"] by blast
qed

end
