(* ===== verification/Stmt_Print.thy ===== *)
theory Stmt_Print
  imports Parser_Print Parser_Stmt
begin

text \<open>
  The statement parser against a printer of statements: parsing a printed script gives its statements back,
  from the tokens and from the text.
\<close>

section \<open>Printing\<close>

fun commas :: "piece list list \<Rightarrow> piece list" where
  "commas [] = []"
| "commas (x # xs) = x @ (if xs = [] then [] else COMMA # commas xs)"

abbreviation (input) ident :: "string \<Rightarrow> piece" where "ident n \<equiv> (TK_IDENTIFIER, n)"

abbreviation (input) number :: "int \<Rightarrow> piece" where "number i \<equiv> (TK_INT_LITERAL, dec i)"

definition clause :: "piece \<Rightarrow> bool \<Rightarrow> piece list \<Rightarrow> piece list" where
  "clause k present body = (if present then k # body else [])"

definition condition_pieces :: "piece \<Rightarrow> expr option \<Rightarrow> piece list" where
  "condition_pieces k e = clause k (e \<noteq> None) (expr_pieces 1 (the e))"

definition table_pieces :: "table_ref \<Rightarrow> piece list" where
  "table_pieces t = ident (tref_name t) # (if tref_alias t = [] then [] else [ident (tref_alias t)])"

definition join_word :: "token_type \<Rightarrow> string" where
  "join_word jt =
     (if jt = TK_INNER then ''INNER'' else if jt = TK_LEFT then ''LEFT'' else if jt = TK_RIGHT then ''RIGHT''
      else if jt = TK_CROSS then ''CROSS'' else ''FULL'')"

definition join_pieces :: "join_clause \<Rightarrow> piece list" where
  "join_pieces j =
     (join_type j, join_word (join_type j)) # (TK_JOIN, ''JOIN'') # ident (tref_name (join_table j)) #
     clause (TK_AS, ''AS'') (tref_alias (join_table j) \<noteq> []) [ident (tref_alias (join_table j))] @
     condition_pieces (TK_ON, ''ON'') (join_condition j)"

definition order_pieces :: "order_by_item \<Rightarrow> piece list" where
  "order_pieces i = expr_pieces 1 (ord_expr i) @ (if ord_ascending i then [] else [(TK_DESC, ''DESC'')])"

definition limit_pieces :: "int \<Rightarrow> int \<Rightarrow> piece list" where
  "limit_pieces limit offset =
     clause (TK_LIMIT, ''LIMIT'') (limit \<noteq> -1) (number limit # clause (TK_OFFSET, ''OFFSET'') (offset \<noteq> -1) [number offset])"

definition select_pieces :: "select_stmt \<Rightarrow> piece list" where
  "select_pieces s =
     (TK_SELECT, ''SELECT'') # clause (TK_DISTINCT, ''DISTINCT'') (sel_distinct s) [] @
     commas (map (expr_pieces 1) (sel_list s)) @
     clause (TK_FROM, ''FROM'') (sel_from s \<noteq> []) (commas (map table_pieces (sel_from s)) @ concat (map join_pieces (sel_joins s))) @
     condition_pieces (TK_WHERE, ''WHERE'') (sel_where s) @
     clause (TK_GROUP, ''GROUP'') (sel_group s \<noteq> []) ((TK_BY, ''BY'') # commas (map (expr_pieces 1) (sel_group s))) @
     condition_pieces (TK_HAVING, ''HAVING'') (sel_having s) @
     clause (TK_ORDER, ''ORDER'') (sel_order s \<noteq> []) ((TK_BY, ''BY'') # commas (map order_pieces (sel_order s))) @
     limit_pieces (sel_limit s) (sel_offset s)"

fun type_pieces :: "col_data_type \<Rightarrow> int \<Rightarrow> piece list" where
  "type_pieces COL_TYPE_INTEGER n = [(TK_INTEGER, ''INTEGER'')]"
| "type_pieces COL_TYPE_FLOAT n = [(TK_FLOAT, ''FLOAT'')]"
| "type_pieces COL_TYPE_VARCHAR n = (TK_VARCHAR, ''VARCHAR'') # clause LPAREN (n \<noteq> 0) [number n, RPAREN]"
| "type_pieces COL_TYPE_BOOLEAN n = [(TK_BOOLEAN, ''BOOLEAN'')]"

definition column_pieces :: "ast_column_def \<Rightarrow> piece list" where
  "column_pieces c =
     ident (acol_name c) # type_pieces (acol_type c) (acol_varchar_len c) @
     (if acol_primary_key c then [(TK_PRIMARY, ''PRIMARY''), (TK_KEY, ''KEY'')]
      else if acol_not_null c then [(TK_NOT, ''NOT''), (TK_NULL, ''NULL'')] else []) @
     clause (TK_UNIQUE, ''UNIQUE'') (acol_unique c) [] @
     clause (TK_DEFAULT, ''DEFAULT'') (acol_has_default c) [literal_piece (acol_default c)]"

definition level_pieces :: "string \<Rightarrow> piece list" where
  "level_pieces l =
     (if l = ''READ UNCOMMITTED'' then [(TK_READ, ''READ''), (TK_UNCOMMITTED, ''UNCOMMITTED'')]
      else if l = ''READ COMMITTED'' then [(TK_READ, ''READ''), (TK_COMMITTED, ''COMMITTED'')]
      else if l = ''REPEATABLE READ'' then [(TK_REPEATABLE, ''REPEATABLE''), (TK_READ, ''READ'')]
      else [(TK_SERIALIZABLE, ''SERIALIZABLE'')])"

fun stmt_pieces :: "stmt \<Rightarrow> piece list" where
  "stmt_pieces (STMT_CREATE_TABLE c) =
     (TK_CREATE, ''CREATE'') # (TK_TABLE, ''TABLE'') #
     clause (TK_IF, ''IF'') (ct_if_not_exists c) [(TK_NOT, ''NOT''), (TK_EXISTS, ''EXISTS'')] @
     ident (ct_table c) # LPAREN # commas (map column_pieces (ct_columns c)) @ [RPAREN]"
| "stmt_pieces (STMT_DROP_TABLE d) =
     (TK_DROP, ''DROP'') # (TK_TABLE, ''TABLE'') # clause (TK_IF, ''IF'') (dt_if_exists d) [(TK_EXISTS, ''EXISTS'')] @ [ident (dt_table d)]"
| "stmt_pieces (STMT_CREATE_INDEX c) =
     (TK_CREATE, ''CREATE'') # (TK_INDEX, ''INDEX'') # ident (ci_index c) # (TK_ON, ''ON'') # ident (ci_table c) # LPAREN #
     commas (map (\<lambda>c. [ident c]) (ci_columns c)) @ [RPAREN]"
| "stmt_pieces (STMT_DROP_INDEX d) =
     (TK_DROP, ''DROP'') # (TK_INDEX, ''INDEX'') # ident (di_index d) # clause (TK_ON, ''ON'') (di_table d \<noteq> []) [ident (di_table d)]"
| "stmt_pieces (STMT_INSERT i) =
     (TK_INSERT, ''INSERT'') # (TK_INTO, ''INTO'') # ident (ins_table i) #
     clause LPAREN (ins_columns i \<noteq> []) (commas (map (\<lambda>c. [ident c]) (ins_columns i)) @ [RPAREN]) @ (TK_VALUES, ''VALUES'') #
     commas (map (\<lambda>r. LPAREN # commas (map (expr_pieces 1) r) @ [RPAREN]) (ins_values i))"
| "stmt_pieces (STMT_UPDATE u) =
     (TK_UPDATE, ''UPDATE'') # ident (upd_table u) # (TK_SET, ''SET'') #
     commas (map (\<lambda>a. ident (asg_column a) # (TK_EQUAL, ''='') # expr_pieces 1 (asg_value a)) (upd_assignments u)) @
     condition_pieces (TK_WHERE, ''WHERE'') (upd_where u)"
| "stmt_pieces (STMT_DELETE d) =
     (TK_DELETE, ''DELETE'') # (TK_FROM, ''FROM'') # ident (del_table d) # condition_pieces (TK_WHERE, ''WHERE'') (del_where d)"
| "stmt_pieces (STMT_SELECT s) = select_pieces s"
| "stmt_pieces (STMT_BEGIN l) =
     (TK_BEGIN, ''BEGIN'') # clause (TK_ISOLATION, ''ISOLATION'') (l \<noteq> []) ((TK_LEVEL, ''LEVEL'') # level_pieces l)"
| "stmt_pieces STMT_COMMIT = [(TK_COMMIT, ''COMMIT'')]"
| "stmt_pieces STMT_ROLLBACK = [(TK_ROLLBACK, ''ROLLBACK'')]"
| "stmt_pieces (STMT_SET_ISOLATION l) = []"
| "stmt_pieces (STMT_EXPLAIN s) = (TK_EXPLAIN, ''EXPLAIN'') # stmt_pieces s"

definition script_pieces :: "stmt list \<Rightarrow> piece list" where
  "script_pieces ss = concat (map (\<lambda>s. stmt_pieces s @ [(TK_SEMICOLON, '';'')]) ss)"

section \<open>The statements that can be written\<close>

abbreviation (input) "STAR \<equiv> EXPR_COLUMN_REF [] ''*''"

definition name_ok :: "string \<Rightarrow> bool" where
  "name_ok n \<longleftrightarrow> length n \<le> 63"

definition table_ok :: "table_ref \<Rightarrow> bool" where
  "table_ok t \<longleftrightarrow> name_ok (tref_name t) \<and> name_ok (tref_alias t)"

definition join_ok :: "join_clause \<Rightarrow> bool" where
  "join_ok j \<longleftrightarrow>
     join_type j \<in> set [TK_INNER, TK_LEFT, TK_RIGHT, TK_CROSS, TK_FULL] \<and> table_ok (join_table j) \<and>
     pred_option expr_ok (join_condition j)"

definition count_ok :: "int \<Rightarrow> bool" where
  "count_ok i \<longleftrightarrow> i = -1 \<or> 0 \<le> i \<and> i < 2 ^ 31"

definition select_ok :: "select_stmt \<Rightarrow> bool" where
  "select_ok s \<longleftrightarrow>
     sel_list s \<noteq> [] \<and> list_all (\<lambda>e. e = STAR \<or> expr_ok e) (sel_list s) \<and>
     list_all table_ok (sel_from s) \<and> list_all join_ok (sel_joins s) \<and> (sel_from s = [] \<longrightarrow> sel_joins s = []) \<and>
     pred_option expr_ok (sel_where s) \<and> list_all expr_ok (sel_group s) \<and> pred_option expr_ok (sel_having s) \<and>
     list_all (\<lambda>i. expr_ok (ord_expr i)) (sel_order s) \<and> count_ok (sel_limit s) \<and> count_ok (sel_offset s) \<and>
     (sel_limit s = -1 \<longrightarrow> sel_offset s = -1)"

definition column_ok :: "ast_column_def \<Rightarrow> bool" where
  "column_ok c \<longleftrightarrow>
     name_ok (acol_name c) \<and> 0 \<le> acol_varchar_len c \<and> acol_varchar_len c < 2 ^ 31 \<and>
     (acol_type c \<noteq> COL_TYPE_VARCHAR \<longrightarrow> acol_varchar_len c = 0) \<and> (acol_primary_key c \<longrightarrow> acol_not_null c) \<and>
     (if acol_has_default c then literal_ok (acol_default c) else acol_default c = VALUE_NULL)"

fun stmt_ok :: "stmt \<Rightarrow> bool" where
  "stmt_ok (STMT_CREATE_TABLE c) = (name_ok (ct_table c) \<and> ct_columns c \<noteq> [] \<and> list_all column_ok (ct_columns c))"
| "stmt_ok (STMT_DROP_TABLE d) = name_ok (dt_table d)"
| "stmt_ok (STMT_CREATE_INDEX c) =
     (name_ok (ci_index c) \<and> name_ok (ci_table c) \<and> ci_columns c \<noteq> [] \<and> length (ci_columns c) \<le> 8 \<and>
      list_all name_ok (ci_columns c) \<and> \<not> ci_unique c)"
| "stmt_ok (STMT_DROP_INDEX d) = (name_ok (di_index d) \<and> name_ok (di_table d))"
| "stmt_ok (STMT_INSERT i) =
     (name_ok (ins_table i) \<and> list_all name_ok (ins_columns i) \<and> ins_values i \<noteq> [] \<and>
      list_all (\<lambda>r. r \<noteq> [] \<and> list_all expr_ok r) (ins_values i))"
| "stmt_ok (STMT_UPDATE u) =
     (name_ok (upd_table u) \<and> upd_assignments u \<noteq> [] \<and>
      list_all (\<lambda>a. length (asg_column a) < 63 \<and> expr_ok (asg_value a)) (upd_assignments u) \<and> pred_option expr_ok (upd_where u))"
| "stmt_ok (STMT_DELETE d) = (name_ok (del_table d) \<and> pred_option expr_ok (del_where d))"
| "stmt_ok (STMT_SELECT s) = select_ok s"
| "stmt_ok (STMT_BEGIN l) = (l \<in> set [[], ''READ UNCOMMITTED'', ''READ COMMITTED'', ''REPEATABLE READ'', ''SERIALIZABLE''])"
| "stmt_ok STMT_COMMIT = True"
| "stmt_ok STMT_ROLLBACK = True"
| "stmt_ok (STMT_SET_ISOLATION l) = False"
| "stmt_ok (STMT_EXPLAIN s) = stmt_ok s"

section \<open>Reading\<close>

text \<open>A parser step that returns x and leaves these tokens.\<close>

definition yields :: "'a presult \<Rightarrow> 'a \<Rightarrow> piece list \<Rightarrow> bool" where
  "yields m x ts \<longleftrightarrow> (\<exists>p. reads p ts \<and> m = Some (Some x, p))"

lemma yields_Some: "reads p ts \<Longrightarrow> yields (Some (Some x, p)) x ts"
  by (simp add: yields_def)

lemma yields_eq: "reads p ts \<Longrightarrow> x = y \<Longrightarrow> yields (Some (Some x, p)) y ts"
  by (simp add: yields_def)

lemma yields_pbind: "yields m x ts \<Longrightarrow> (\<And>p. reads p ts \<Longrightarrow> yields (f x p) y ts') \<Longrightarrow> yields (pbind m f) y ts'"
  by (auto simp: yields_def)

lemma yields_if: "(c \<Longrightarrow> yields a x ts) \<Longrightarrow> (\<not> c \<Longrightarrow> yields b x ts) \<Longrightarrow> yields (if c then a else b) x ts"
  by simp

lemma token_read:
  assumes "reads p ((ty, w) # ts)"
  shows "p_match p ty = (True, p_advance p)" "p_skip p ty = p_advance p" "peek_type p = ty" "reads (p_advance p) ts"
    "fst (p_expect p ty)" "lexeme (p_peek p) = w"
  using reads_peek [OF assms] by (simp_all add: p_match_def p_skip_def p_expect_def)

lemma token_other: "reads p ts \<Longrightarrow> first_type ts \<noteq> ty \<Longrightarrow> p_match p ty = (False, p)"
  using reads_first by (simp add: p_match_def)

lemma clause_read:
  assumes "reads p (clause (ty, w) c body @ rest)" "first_type rest \<noteq> ty"
  shows "fst (p_match p ty) = c" "c \<Longrightarrow> reads (snd (p_match p ty)) (body @ rest)" "\<not> c \<Longrightarrow> snd (p_match p ty) = p \<and> reads p rest"
  using assms token_read(1,4) [of p ty w "body @ rest"] token_other [of p rest ty] by (cases c; simp add: clause_def)+

lemma expr_yields: "expr_ok e \<Longrightarrow> reads p (expr_pieces 1 e @ rest) \<Longrightarrow> stops rest \<Longrightarrow> yields (parse_expression sd p) e rest"
  using expression_read [of e p rest sd] by (auto simp: yields_def)

lemma name_yields: "reads p (ident n # rest) \<Longrightarrow> length n \<le> k \<Longrightarrow> yields (p_name k msg p) n rest"
  using token_read [of p TK_IDENTIFIER n rest] by (simp add: p_name_def yields_Some)

lemma comma_list_yields:
  assumes item: "\<And>x p ts. x \<in> set xs \<Longrightarrow> reads p (pr x @ ts) \<Longrightarrow> first_type ts = TK_COMMA \<or> ts = rest \<Longrightarrow> yields (item p) x ts"
    and "first_type rest \<noteq> TK_COMMA" "xs \<noteq> []" "reads p (commas (map pr xs) @ rest)"
  shows "yields (comma_list item p) xs rest"
  using assms
proof (induction xs arbitrary: p)
  case (Cons x xs)
  show ?case
  proof (cases "xs = []")
    case True
    then have "yields (item p) x rest" using Cons.prems(1,4) by simp
    then show ?thesis using True token_other [OF _ Cons.prems(2)]
      by (subst comma_list.simps) (auto intro!: yields_pbind intro: yields_Some)
  next
    case False
    then have it: "yields (item p) x (COMMA # commas (map pr xs) @ rest)" using Cons.prems(1,4) by simp
    have more: "yields (comma_list item q) xs rest" if "reads q (commas (map pr xs) @ rest)" for q
      using Cons.IH [OF Cons.prems(1) Cons.prems(2) False that] by simp
    show ?thesis
      by (subst comma_list.simps, rule yields_pbind [OF it])
        (auto simp: token_read intro!: yields_pbind [OF more] yields_Some)
  qed
qed simp

section \<open>Clauses\<close>

lemma first_clause [simp]:
  "first_type (clause k c body @ ts) = (if c then fst k else first_type ts)"
  "first_type (condition_pieces k e @ ts) = (if e = None then first_type ts else fst k)"
  "first_type (limit_pieces l off @ ts) = (if l = -1 then first_type ts else TK_LIMIT)"
  by (simp_all add: clause_def condition_pieces_def limit_pieces_def)

lemma optional_yields:
  assumes "reads p (condition_pieces (ty, w) e @ rest)" "pred_option expr_ok e" "stops rest" "first_type rest \<noteq> ty"
  shows "yields (parse_optional sd ty p) e rest"
proof (cases e)
  case None
  then show ?thesis using assms(1,4) token_other by (auto simp: parse_optional_def condition_pieces_def clause_def intro: yields_Some)
next
  case (Some x)
  then have "reads p ((ty, w) # expr_pieces 1 x @ rest)" using assms(1) by (simp add: condition_pieces_def clause_def)
  note t = token_read [OF this]
  have "yields (parse_expression sd (p_advance p)) x rest" using assms(2,3) Some t(4) by (intro expr_yields) simp_all
  then show ?thesis using t(1) Some by (auto simp: parse_optional_def intro!: yields_pbind yields_Some elim!: yields_pbind)
qed

lemma star_yields:
  assumes "reads p ((TK_STAR, ''*'') # rest)" "stops rest"
  shows "yields (parse_expression sd p) STAR rest"
proof -
  have "parse_primary sd p = Some (Some STAR, p_advance p)"
    using token_read(3) [OF assms(1)] reads_no_error [OF assms(1)]
    by (subst parse_primary.simps) (simp add: literal_types_def agg_types_def)
  moreover have "infix_loop sd 1 STAR (p_advance p) = Some (Some STAR, p_advance p)"
    using assms(2) by (intro infix_loop_stop [OF token_read(4) [OF assms(1)]]) (simp add: stops_def)
  ultimately show ?thesis using token_read(4) [OF assms(1)]
    by (simp add: parse_expression_def parse_expression_prec.simps yields_def)
qed

lemma select_item_yields:
  assumes "e = STAR \<or> expr_ok e" "reads p (expr_pieces 1 e @ rest)" "stops rest" "first_type rest \<noteq> TK_IDENTIFIER" "first_type rest \<noteq> TK_AS"
  shows "yields (parse_select_item sd p) e rest"
proof -
  have e: "yields (parse_expression sd p) e rest"
  proof (cases "e = STAR")
    case True
    then have "expr_pieces 1 e = [(TK_STAR, ''*'')]" by (simp add: expr_pieces.simps column_piece_def)
    then show ?thesis using star_yields [of p rest sd] assms(2,3) True by simp
  next
    case False
    then show ?thesis using assms(1-3) by (intro expr_yields) auto
  qed
  show ?thesis unfolding parse_select_item_def
    by (rule yields_pbind [OF e]) (use assms(4,5) reads_first in \<open>auto simp: skip_alias_def intro: yields_Some\<close>)
qed

lemma from_table_yields:
  assumes "table_ok t" "reads p (table_pieces t @ rest)" "first_type rest \<noteq> TK_IDENTIFIER" "first_type rest \<noteq> TK_AS"
  shows "yields (parse_from_table p) t rest"
proof -
  let ?als = "if tref_alias t = [] then [] else [ident (tref_alias t)]"
  have n: "yields (p_name 63 msg p) (tref_name t) (?als @ rest)" for msg
    using assms(1,2) by (intro name_yields) (simp_all add: table_ok_def name_ok_def table_pieces_def)
  have a: "fst (parse_from_alias q) = tref_alias t \<and> reads (snd (parse_from_alias q)) rest" if q: "reads q (?als @ rest)" for q
  proof (cases "tref_alias t = []")
    case True
    then show ?thesis using q assms(3,4) token_other [of q rest TK_AS] reads_first [of q rest] by (simp add: parse_from_alias_def)
  next
    case False
    then have "reads q (ident (tref_alias t) # rest)" using q by simp
    then show ?thesis using token_read [of q TK_IDENTIFIER "tref_alias t" rest] token_other [of q "ident (tref_alias t) # rest" TK_AS] assms(1)
      by (simp add: parse_from_alias_def table_ok_def name_ok_def)
  qed
  show ?thesis unfolding parse_from_table_def
    by (rule yields_pbind [OF n]) (use a in \<open>auto simp: Let_def case_prod_beta intro!: yields_eq\<close>)
qed


lemma join_kind_read:
  assumes "reads p ((jt, w) # (TK_JOIN, w') # ts)" "jt \<in> set [TK_INNER, TK_LEFT, TK_RIGHT, TK_CROSS, TK_FULL]"
  shows "join_kind p = (Some jt, p_advance p)"
proof -
  have o: "p_match p ty = (ty = jt, if ty = jt then p_advance p else p)" for ty
    using token_read [OF assms(1)] token_other [OF assms(1), of ty] by auto
  have "p_match (p_advance p) TK_OUTER = (False, p_advance p)"
    using token_other [OF token_read(4) [OF assms(1)], of TK_OUTER] by simp
  then show ?thesis using assms(2) by (auto simp: join_kind_def o)
qed

lemma join_kind_none:
  "reads p ts \<Longrightarrow> first_type ts \<notin> {TK_INNER, TK_LEFT, TK_RIGHT, TK_CROSS, TK_FULL} \<Longrightarrow> join_kind p = (None, p)"
  using token_other [of p ts] by (auto simp: join_kind_def)

lemma join_yields:
  assumes ok: "join_ok j" and p: "reads p ((TK_JOIN, w) # ident (tref_name (join_table j)) #
      clause (TK_AS, w') (tref_alias (join_table j) \<noteq> []) [ident (tref_alias (join_table j))] @
      condition_pieces (TK_ON, w'') (join_condition j) @ rest)"
    and rest: "stops rest" "first_type rest \<notin> {TK_ON, TK_AS}"
  shows "yields (parse_join sd (join_type j) p) j rest"
proof -
  let ?on = "condition_pieces (TK_ON, w'') (join_condition j) @ rest"
  let ?als = "clause (TK_AS, w') (tref_alias (join_table j) \<noteq> []) [ident (tref_alias (join_table j))]"
  note t = token_read [OF p]
  have n: "yields (p_name 63 msg (p_advance p)) (tref_name (join_table j)) (?als @ ?on)" for msg
    using t(4) ok by (intro name_yields) (simp_all add: join_ok_def table_ok_def name_ok_def)
  have a: "fst (parse_join_alias q) = tref_alias (join_table j) \<and> reads (snd (parse_join_alias q)) ?on" if q: "reads q (?als @ ?on)" for q
    using clause_read [OF q] rest(2) ok token_read [of "snd (p_match q TK_AS)" TK_IDENTIFIER "tref_alias (join_table j)" ?on]
    by (cases "tref_alias (join_table j) = []") (auto simp: parse_join_alias_def Let_def join_ok_def table_ok_def name_ok_def)
  have on: "\<exists>q'. parse_on sd q = Some (join_condition j, q') \<and> reads q' rest" if q: "reads q ?on" for q
  proof (cases "join_condition j")
    case None
    then show ?thesis using q rest(2) token_other [of q rest TK_ON] by (simp add: parse_on_def condition_pieces_def clause_def)
  next
    case (Some c)
    then have "reads q ((TK_ON, w'') # expr_pieces 1 c @ rest)" using q by (simp add: condition_pieces_def clause_def)
    note u = token_read [OF this]
    have "yields (parse_expression sd (p_advance q)) c rest" using ok Some u(4) rest(1) by (intro expr_yields) (simp_all add: join_ok_def)
    then show ?thesis using u(1) Some by (auto simp: parse_on_def yields_def)
  qed
  have "yields (let (alias, p) = parse_join_alias q
          in case parse_on sd p of
               None \<Rightarrow> None
             | Some (c, p) \<Rightarrow>
                 Some (Some \<lparr>join_type = join_type j, join_table = \<lparr>tref_name = tref_name (join_table j), tref_alias = alias\<rparr>,
                   join_condition = c\<rparr>, p)) j rest" if "reads q (?als @ ?on)" for q
    using a [OF that] on [of "snd (parse_join_alias q)"] by (auto simp: case_prod_beta intro!: yields_eq)
  then show ?thesis unfolding parse_join_def using t(2,5) n by (auto intro!: yields_pbind)
qed

lemma joins_stop:
  assumes "list_all join_ok js" "stops rest" "first_type rest \<notin> {TK_ON, TK_AS}"
  shows "stops (concat (map join_pieces js) @ rest) \<and> first_type (concat (map join_pieces js) @ rest) \<notin> {TK_ON, TK_AS}"
proof (cases js)
  case (Cons j js')
  have "join_type j \<in> set [TK_INNER, TK_LEFT, TK_RIGHT, TK_CROSS, TK_FULL]" using Cons assms(1) by (simp add: join_ok_def)
  then have "get_precedence (join_type j) = 0 \<and> join_type j \<notin> {TK_LEFT_PAREN, TK_DOT, TK_ON, TK_AS}"
    unfolding list.set by (elim insertE emptyE) (simp_all add: get_precedence_def)
  then show ?thesis using Cons by (simp add: stops_def join_pieces_def [of j])
qed (use assms in simp)

lemma joins_yields:
  assumes "list_all join_ok js" "reads p (concat (map join_pieces js) @ rest)" "stops rest"
    "first_type rest \<notin> {TK_INNER, TK_LEFT, TK_RIGHT, TK_CROSS, TK_FULL, TK_ON, TK_AS}"
  shows "yields (parse_joins sd p) js rest"
  using assms
proof (induction js arbitrary: p)
  case Nil
  then show ?case using join_kind_none [of p rest] by (subst parse_joins.simps) (auto intro: yields_Some)
next
  case (Cons j js)
  have j: "join_ok j" "join_type j \<in> set [TK_INNER, TK_LEFT, TK_RIGHT, TK_CROSS, TK_FULL]"
    using Cons.prems(1) by (simp_all add: join_ok_def)
  let ?rest = "concat (map join_pieces js) @ rest"
  have p: "reads p ((join_type j, join_word (join_type j)) # tl (join_pieces j) @ ?rest)"
    using Cons.prems(2) by (simp add: join_pieces_def [of j])
  have st: "stops ?rest" "first_type ?rest \<notin> {TK_ON, TK_AS}"
    using joins_stop [OF _ Cons.prems(3)] Cons.prems(1,4) by simp_all
  have k: "join_kind p = (Some (join_type j), p_advance p)"
    using p j(2) by (intro join_kind_read) (simp_all add: join_pieces_def [of j])
  have y: "yields (parse_join sd (join_type j) (p_advance p)) j ?rest"
    using token_read(4) [OF p] by (intro join_yields [OF j(1) _ st]) (simp add: join_pieces_def [of j])
  have "yields (parse_joins sd q) js rest" if "reads q ?rest" for q
    using Cons.IH [OF _ that Cons.prems(3,4)] Cons.prems(1) by simp
  then show ?case by (subst parse_joins.simps) (simp add: k, blast intro: yields_pbind [OF y] yields_pbind yields_Some)
qed


lemma from_yields:
  assumes "reads p (clause (TK_FROM, w) (ts \<noteq> []) (commas (map table_pieces ts) @ concat (map join_pieces js)) @ rest)"
    and "list_all table_ok ts" "list_all join_ok js" "ts = [] \<longrightarrow> js = []" "stops rest"
    and "first_type rest \<notin> {TK_FROM, TK_COMMA, TK_INNER, TK_LEFT, TK_RIGHT, TK_CROSS, TK_FULL, TK_ON, TK_AS, TK_IDENTIFIER}"
  shows "yields (parse_from sd p) (ts, js) rest"
proof (cases "ts = []")
  case True
  then show ?thesis using assms(1,4,6) token_other [of p rest TK_FROM] by (auto simp: parse_from_def clause_def intro: yields_Some)
next
  case False
  let ?rest = "concat (map join_pieces js) @ rest"
  have p: "reads p ((TK_FROM, w) # commas (map table_pieces ts) @ ?rest)" using assms(1) False by (simp add: clause_def)
  note t = token_read [OF p]
  have ft: "first_type ?rest \<notin> {TK_COMMA, TK_AS, TK_IDENTIFIER}"
    using assms(3,6) by (cases js) (auto simp: join_pieces_def join_ok_def)
  have "yields (comma_list parse_from_table (p_advance p)) ts ?rest"
    using ft assms(2) False t(4) by (intro comma_list_yields [where pr = table_pieces] from_table_yields) (auto simp: list_all_iff)
  moreover have "yields (parse_joins sd q) js rest" if "reads q ?rest" for q
    using assms(3,5,6) that by (intro joins_yields) simp_all
  ultimately show ?thesis using t(1) by (auto simp: parse_from_def intro!: yields_pbind yields_Some elim!: yields_pbind)
qed

lemma stops_comma [simp]: "stops ((TK_COMMA, w) # ts)"
  and stops_right_paren [simp]: "stops ((TK_RIGHT_PAREN, w) # ts)"
  by (simp_all add: stops_def)

lemma comma_stops: "first_type ts = TK_COMMA \<or> ts = rest \<Longrightarrow> stops rest \<Longrightarrow> stops ts"
  by (auto simp: stops_def)

lemma expr_list_yields:
  assumes "reads p (commas (map (expr_pieces 1) es) @ rest)" "list_all expr_ok es" "es \<noteq> []" "stops rest" "first_type rest \<noteq> TK_COMMA"
  shows "yields (comma_list (parse_expression sd) p) es rest"
  using assms comma_stops [OF _ assms(4)]
  by (intro comma_list_yields [where pr = "expr_pieces 1"] expr_yields) (auto simp: list_all_iff)

lemma group_by_yields:
  assumes "reads p (clause (TK_GROUP, w) (es \<noteq> []) ((TK_BY, w') # commas (map (expr_pieces 1) es)) @ rest)" "list_all expr_ok es"
    "stops rest" "first_type rest \<notin> {TK_GROUP, TK_COMMA}"
  shows "yields (parse_group_by sd p) es rest"
  using assms clause_read [OF assms(1)] token_read(2,4) [of "p_matching p TK_GROUP" TK_BY w' "commas (map (expr_pieces 1) es) @ rest"]
  by (cases "es = []") (auto simp: parse_group_by_def intro!: yields_Some expr_list_yields)

lemma order_item_yields:
  assumes "expr_ok (ord_expr i)" "reads p (order_pieces i @ rest)" "stops rest" "first_type rest \<notin> {TK_ASC, TK_DESC}"
  shows "yields (parse_order_item sd p) i rest"
proof -
  let ?dir = "if ord_ascending i then [] else [(TK_DESC, ''DESC'')]"
  have "get_precedence TK_DESC = 0" by (simp add: get_precedence_def)
  then have "stops (?dir @ rest)" using assms(3) by (simp add: stops_def)
  then have e: "yields (parse_expression sd p) (ord_expr i) (?dir @ rest)"
    using assms(1,2) by (intro expr_yields) (simp_all add: order_pieces_def)
  show ?thesis unfolding parse_order_item_def
  proof (rule yields_pbind [OF e])
    fix q assume q: "reads q (?dir @ rest)"
    show "yields (if p_matched q TK_ASC then Some (Some \<lparr>ord_expr = ord_expr i, ord_ascending = True\<rparr>, p_matching q TK_ASC)
       else if p_matched q TK_DESC then Some (Some \<lparr>ord_expr = ord_expr i, ord_ascending = False\<rparr>, p_matching q TK_DESC)
       else Some (Some \<lparr>ord_expr = ord_expr i, ord_ascending = True\<rparr>, q)) i rest"
      using q assms(4) token_other [OF q, of TK_ASC] token_other [OF q, of TK_DESC] token_read(1,4) [of q TK_DESC "''DESC''" rest]
      by (cases "ord_ascending i"; cases i) (auto intro!: yields_eq)
  qed
qed

lemma order_by_yields:
  assumes "reads p (clause (TK_ORDER, w) (os \<noteq> []) ((TK_BY, w') # commas (map order_pieces os)) @ rest)"
    "list_all (\<lambda>i. expr_ok (ord_expr i)) os" "stops rest" "first_type rest \<notin> {TK_ORDER, TK_COMMA, TK_ASC, TK_DESC}"
  shows "yields (parse_order_by sd p) os rest"
proof (cases "os = []")
  case True
  then show ?thesis using assms(1,4) token_other [of p rest TK_ORDER] by (auto simp: parse_order_by_def clause_def intro: yields_Some)
next
  case False
  then have p: "reads (p_matching p TK_ORDER) ((TK_BY, w') # commas (map order_pieces os) @ rest)" "p_matched p TK_ORDER"
    using clause_read [OF assms(1)] assms(4) by simp_all
  have "yields (comma_list (parse_order_item sd) (p_advance (p_matching p TK_ORDER))) os rest"
    using assms(2,4) False token_read(4) [OF p(1)] comma_stops [OF _ assms(3)]
    by (intro comma_list_yields [where pr = order_pieces] order_item_yields) (auto simp: list_all_iff)
  then show ?thesis using p(2) token_read(2) [OF p(1)] by (simp add: parse_order_by_def)
qed

lemma lexeme_int_dec: "lexeme (p_peek p) = dec i \<Longrightarrow> 0 \<le> i \<Longrightarrow> i < 2 ^ 31 \<Longrightarrow> lexeme_int p = i"
  using strtoll_dec [of i] by (simp add: lexeme_int_def to_int32_def signed_take_bit_int_eq_self)

lemma limit_yields:
  assumes "reads p (limit_pieces l off @ rest)" "count_ok l" "count_ok off" "l = -1 \<longrightarrow> off = -1" "first_type rest \<notin> {TK_LIMIT, TK_OFFSET}"
  shows "yields (parse_limit p) (l, off) rest"
proof (cases "l = -1")
  case True
  then show ?thesis using assms(1,4,5) token_other [of p rest TK_LIMIT]
    by (auto simp: parse_limit_def limit_pieces_def clause_def intro: yields_Some)
next
  case False
  let ?off = "clause (TK_OFFSET, ''OFFSET'') (off \<noteq> -1) [number off]"
  have p: "reads p ((TK_LIMIT, ''LIMIT'') # number l # ?off @ rest)" using assms(1) False by (simp add: limit_pieces_def clause_def)
  note t = token_read [OF p]
  note n = token_read [OF t(4)]
  have l: "lexeme_int (p_advance p) = l" using n(6) assms(2) False by (intro lexeme_int_dec) (auto simp: count_ok_def)
  show ?thesis
  proof (cases "off = -1")
    case True
    then show ?thesis using t n l assms(5) token_other [of "p_advance (p_advance p)" rest TK_OFFSET]
      by (auto simp: parse_limit_def Let_def clause_def intro!: yields_Some)
  next
    case False
    then have "reads (p_advance (p_advance p)) ((TK_OFFSET, ''OFFSET'') # number off # rest)" using n(4) by (simp add: clause_def)
    note o = token_read [OF this]
    note m = token_read [OF o(4)]
    have "lexeme_int (p_advance (p_advance (p_advance p))) = off"
      using m(6) assms(3) False by (intro lexeme_int_dec) (auto simp: count_ok_def)
    then show ?thesis using t n o m l by (auto simp: parse_limit_def Let_def intro!: yields_Some)
  qed
qed


section \<open>Statements\<close>

definition ending :: "piece list \<Rightarrow> bool" where
  "ending ts \<longleftrightarrow> first_type ts \<in> {TK_SEMICOLON, TK_EOF}"

lemma stops_types:
  "first_type ts \<in> {TK_FROM, TK_WHERE, TK_GROUP, TK_HAVING, TK_ORDER, TK_LIMIT, TK_SEMICOLON, TK_EOF} \<Longrightarrow> stops ts"
  unfolding stops_def by (elim insertE emptyE) (simp_all add: get_precedence_def)

lemma select_yields:
  assumes ok: "select_ok s" and p: "reads p (select_pieces s @ rest)" and rest: "ending rest"
  shows "yields (parse_select sd p) (STMT_SELECT s) rest"
proof -
  define t7 where "t7 = limit_pieces (sel_limit s) (sel_offset s) @ rest"
  define t6 where "t6 = clause (TK_ORDER, ''ORDER'') (sel_order s \<noteq> []) ((TK_BY, ''BY'') # commas (map order_pieces (sel_order s))) @ t7"
  define t5 where "t5 = condition_pieces (TK_HAVING, ''HAVING'') (sel_having s) @ t6"
  define t4 where "t4 = clause (TK_GROUP, ''GROUP'') (sel_group s \<noteq> []) ((TK_BY, ''BY'') # commas (map (expr_pieces 1) (sel_group s))) @ t5"
  define t3 where "t3 = condition_pieces (TK_WHERE, ''WHERE'') (sel_where s) @ t4"
  define t2 where "t2 = clause (TK_FROM, ''FROM'') (sel_from s \<noteq> [])
    (commas (map table_pieces (sel_from s)) @ concat (map join_pieces (sel_joins s))) @ t3"
  define t1 where "t1 = commas (map (expr_pieces 1) (sel_list s)) @ t2"
  have r: "first_type rest \<in> {TK_SEMICOLON, TK_EOF}" using rest by (simp add: ending_def)
  then have f7: "first_type t7 \<in> {TK_LIMIT, TK_SEMICOLON, TK_EOF}" by (simp add: t7_def)
  then have f6: "first_type t6 \<in> {TK_ORDER, TK_LIMIT, TK_SEMICOLON, TK_EOF}" by (simp add: t6_def)
  then have f5: "first_type t5 \<in> {TK_HAVING, TK_ORDER, TK_LIMIT, TK_SEMICOLON, TK_EOF}" by (simp add: t5_def)
  then have f4: "first_type t4 \<in> {TK_GROUP, TK_HAVING, TK_ORDER, TK_LIMIT, TK_SEMICOLON, TK_EOF}" by (simp add: t4_def)
  then have f3: "first_type t3 \<in> {TK_WHERE, TK_GROUP, TK_HAVING, TK_ORDER, TK_LIMIT, TK_SEMICOLON, TK_EOF}" by (simp add: t3_def)
  then have f2: "first_type t2 \<in> {TK_FROM, TK_WHERE, TK_GROUP, TK_HAVING, TK_ORDER, TK_LIMIT, TK_SEMICOLON, TK_EOF}" by (simp add: t2_def)
  have st: "stops t7" "stops t6" "stops t5" "stops t4" "stops t3" "stops t2"
    by (rule stops_types, use f7 in blast, rule stops_types, use f6 in blast, rule stops_types, use f5 in blast,
        rule stops_types, use f4 in blast, rule stops_types, use f3 in blast, rule stops_types, use f2 in blast)
  have n7: "first_type t7 \<notin> {TK_ORDER, TK_COMMA, TK_ASC, TK_DESC}" using f7 by (elim insertE emptyE) simp_all
  have n6: "first_type t6 \<noteq> TK_HAVING" using f6 by (elim insertE emptyE) simp_all
  have n5: "first_type t5 \<notin> {TK_GROUP, TK_COMMA}" using f5 by (elim insertE emptyE) simp_all
  have n4: "first_type t4 \<noteq> TK_WHERE" using f4 by (elim insertE emptyE) simp_all
  have n3: "first_type t3 \<notin> {TK_FROM, TK_COMMA, TK_INNER, TK_LEFT, TK_RIGHT, TK_CROSS, TK_FULL, TK_ON, TK_AS, TK_IDENTIFIER}"
    using f3 by (elim insertE emptyE) simp_all
  have n2: "first_type t2 \<notin> {TK_COMMA, TK_IDENTIFIER, TK_AS}" using f2 by (elim insertE emptyE) simp_all
  have n1: "first_type rest \<notin> {TK_LIMIT, TK_OFFSET}" using r by (elim insertE emptyE) simp_all
  have "reads p ((TK_SELECT, ''SELECT'') # clause (TK_DISTINCT, ''DISTINCT'') (sel_distinct s) [] @ t1)"
    using p by (simp add: select_pieces_def t1_def t2_def t3_def t4_def t5_def t6_def t7_def)
  note q = token_read(4) [OF this]
  have f1: "first_type t1 \<noteq> TK_DISTINCT"
  proof -
    obtain e es where "sel_list s = e # es" "e = STAR \<or> expr_ok e" using ok by (cases "sel_list s") (auto simp: select_ok_def)
    then show ?thesis using expr_first [of e]
      by (auto simp: t1_def first_type_append expr_pieces.simps starters_def literal_types_def agg_types_def column_piece_def split: if_splits)
  qed
  have d: "p_matched (p_advance p) TK_DISTINCT = sel_distinct s" "reads (p_matching (p_advance p) TK_DISTINCT) t1"
    using clause_read [OF q f1] q by (cases "sel_distinct s"; simp add: clause_def)+
  have ok': "sel_list s \<noteq> []" "\<And>e. e \<in> set (sel_list s) \<Longrightarrow> e = STAR \<or> expr_ok e" "list_all table_ok (sel_from s)"
    "list_all join_ok (sel_joins s)" "sel_from s = [] \<longrightarrow> sel_joins s = []" "pred_option expr_ok (sel_where s)"
    "list_all expr_ok (sel_group s)" "pred_option expr_ok (sel_having s)" "list_all (\<lambda>i. expr_ok (ord_expr i)) (sel_order s)"
    "count_ok (sel_limit s)" "count_ok (sel_offset s)" "sel_limit s = -1 \<longrightarrow> sel_offset s = -1"
    using ok by (auto simp: select_ok_def list_all_iff)
  have y1: "yields (comma_list (parse_select_item sd) x) (sel_list s) t2" if "reads x t1" for x
  proof (rule comma_list_yields [where pr = "expr_pieces 1"])
    fix e q ts assume "e \<in> set (sel_list s)" and q: "reads q (expr_pieces 1 e @ ts)" and ts: "first_type ts = TK_COMMA \<or> ts = t2"
    then show "yields (parse_select_item sd q) e ts"
      using n2 comma_stops [OF ts st(6)] by (intro select_item_yields [OF ok'(2) q]) auto
  qed (use that n2 ok'(1) in \<open>simp_all add: t1_def\<close>)
  have y2: "yields (parse_from sd x) (sel_from s, sel_joins s) t3" if "reads x t2" for x
    by (rule from_yields [OF _ ok'(3-5) st(5) n3]) (use that in \<open>simp add: t2_def\<close>)
  have y3: "yields (parse_optional sd TK_WHERE x) (sel_where s) t4" if "reads x t3" for x
    by (rule optional_yields [OF _ ok'(6) st(4) n4]) (use that in \<open>simp add: t3_def\<close>)
  have y4: "yields (parse_group_by sd x) (sel_group s) t5" if "reads x t4" for x
    by (rule group_by_yields [OF _ ok'(7) st(3) n5]) (use that in \<open>simp add: t4_def\<close>)
  have y5: "yields (parse_optional sd TK_HAVING x) (sel_having s) t6" if "reads x t5" for x
    by (rule optional_yields [OF _ ok'(8) st(2) n6]) (use that in \<open>simp add: t5_def\<close>)
  have y6: "yields (parse_order_by sd x) (sel_order s) t7" if "reads x t6" for x
    by (rule order_by_yields [OF _ ok'(9) st(1) n7]) (use that in \<open>simp add: t6_def\<close>)
  have y7: "yields (parse_limit x) (sel_limit s, sel_offset s) rest" if "reads x t7" for x
    by (rule limit_yields [OF _ ok'(10-12) n1]) (use that in \<open>simp add: t7_def\<close>)
  show ?thesis unfolding parse_select_def Let_def d(1)
    by (rule yields_pbind [OF y1 [OF d(2)]], rule yields_pbind [OF y2], assumption, unfold prod.case,
        rule yields_pbind [OF y3], assumption, rule yields_pbind [OF y4], assumption, rule yields_pbind [OF y5], assumption,
        rule yields_pbind [OF y6], assumption, rule yields_pbind [OF y7], assumption, unfold prod.case, erule yields_eq) simp
qed


lemma column_type_yields:
  assumes "reads p (type_pieces ty n @ rest)" "0 \<le> n" "n < 2 ^ 31" "ty \<noteq> COL_TYPE_VARCHAR \<longrightarrow> n = 0" "first_type rest \<noteq> TK_LEFT_PAREN"
  shows "yields (parse_column_type p) (ty, n) rest"
proof (cases ty)
  case COL_TYPE_VARCHAR
  then have p: "reads p ((TK_VARCHAR, ''VARCHAR'') # clause LPAREN (n \<noteq> 0) [number n, RPAREN] @ rest)" using assms(1) by simp
  note t = token_read [OF p]
  show ?thesis
  proof (cases "n = 0")
    case True
    then have "reads (p_advance p) rest" using t(4) by (simp add: clause_def)
    then show ?thesis using True COL_TYPE_VARCHAR t(3) token_other [OF _ assms(5)]
      by (auto simp: parse_column_type_def Let_def intro!: yields_Some)
  next
    case False
    then have "reads (p_advance p) (LPAREN # number n # RPAREN # rest)" using t(4) by (simp add: clause_def)
    note l = token_read [OF this]
    note m = token_read [OF l(4)]
    note r = token_read [OF m(4)]
    have "lexeme_int (p_advance (p_advance p)) = n" using m(6) assms(2,3) by (rule lexeme_int_dec)
    then show ?thesis using COL_TYPE_VARCHAR t(3) l m r by (auto simp: parse_column_type_def Let_def intro!: yields_Some)
  qed
qed (use assms in \<open>auto simp: parse_column_type_def Let_def dest: token_read intro!: yields_Some\<close>)

lemma literal_yields:
  assumes "literal_ok v" "reads p (literal_piece v # rest)" "stops rest"
  shows "yields (parse_expression sd p) (EXPR_LITERAL v) rest"
  using assms by (intro expr_yields) (simp_all add: expr_pieces.simps)

lemma constraints_read:
  assumes ok: "column_ok c" and rest: "stops rest" "first_type rest \<notin> {TK_PRIMARY, TK_NOT, TK_UNIQUE, TK_DEFAULT}"
    and p: "reads p ((if acol_primary_key c then [(TK_PRIMARY, ''PRIMARY''), (TK_KEY, ''KEY'')]
      else if acol_not_null c then [(TK_NOT, ''NOT''), (TK_NULL, ''NULL'')] else []) @
     clause (TK_UNIQUE, ''UNIQUE'') (acol_unique c) [] @
     clause (TK_DEFAULT, ''DEFAULT'') (acol_has_default c) [literal_piece (acol_default c)] @ rest)"
  shows "\<exists>p'. reads p' rest \<and>
    parse_constraints sd
      \<lparr>acol_name = acol_name c, acol_type = acol_type c, acol_varchar_len = acol_varchar_len c, acol_primary_key = False,
       acol_not_null = False, acol_unique = False, acol_has_default = False, acol_default = VALUE_NULL\<rparr> p = Some (c, p')"
proof -
  let ?d = "clause (TK_DEFAULT, ''DEFAULT'') (acol_has_default c) [literal_piece (acol_default c)] @ rest"
  let ?u = "clause (TK_UNIQUE, ''UNIQUE'') (acol_unique c) [] @ ?d"
  have stop: "parse_constraints sd col q = Some (col, q)" if "reads q rest" for col q
    using token_other [OF that] rest(2) by (subst parse_constraints.simps) simp
  have default: "\<exists>p'. reads p' rest \<and> parse_constraints sd col q =
      Some (col\<lparr>acol_has_default := acol_has_default c, acol_default := acol_default c\<rparr>, p')"
    if q: "reads q ?d" "acol_has_default col = False" "acol_default col = VALUE_NULL" for col q
  proof (cases "acol_has_default c")
    case True
    then have r: "reads q ((TK_DEFAULT, ''DEFAULT'') # literal_piece (acol_default c) # rest)" using q by (simp add: clause_def)
    have v: "literal_ok (acol_default c)" using ok True by (simp add: column_ok_def)
    obtain q' where q': "reads q' rest" "parse_expression sd (p_advance q) = Some (Some (EXPR_LITERAL (acol_default c)), q')"
      using literal_yields [OF v token_read(4) [OF r] rest(1), of sd] by (auto simp: yields_def)
    have o: "p_match q ty = (False, q)" if "ty \<in> {TK_PRIMARY, TK_NOT, TK_UNIQUE}" for ty
      using token_other [OF r, of ty] that by auto
    have "parse_constraints sd col q = parse_constraints sd (col\<lparr>acol_has_default := True, acol_default := acol_default c\<rparr>) q'"
      by (subst parse_constraints.simps) (simp add: o token_read(1) [OF r] q'(2))
    then show ?thesis using stop [OF q'(1)] q'(1) True by auto
  next
    case False
    then have "reads q rest" "acol_default c = VALUE_NULL" using q ok by (simp_all add: clause_def column_ok_def)
    moreover have "col\<lparr>acol_has_default := False, acol_default := VALUE_NULL\<rparr> = col" using q(2,3) by (cases col) simp
    ultimately show ?thesis using stop False by auto
  qed
  have unique: "\<exists>p'. reads p' rest \<and> parse_constraints sd col q =
      Some (col\<lparr>acol_unique := acol_unique c, acol_has_default := acol_has_default c, acol_default := acol_default c\<rparr>, p')"
    if q: "reads q ?u" "acol_unique col = False" "acol_has_default col = False" "acol_default col = VALUE_NULL" for col q
  proof (cases "acol_unique c")
    case True
    then have r: "reads q ((TK_UNIQUE, ''UNIQUE'') # ?d)" using q by (simp add: clause_def)
    have "p_match q ty = (False, q)" if "ty \<in> {TK_PRIMARY, TK_NOT}" for ty using token_other [OF r, of ty] that by auto
    then have "parse_constraints sd col q = parse_constraints sd (col\<lparr>acol_unique := True\<rparr>) (p_advance q)"
      by (subst parse_constraints.simps) (simp add: token_read(1) [OF r])
    then show ?thesis using default [OF token_read(4) [OF r], of "col\<lparr>acol_unique := True\<rparr>"] q(3,4) True by simp
  next
    case False
    have "col\<lparr>acol_unique := acol_unique c, acol_has_default := x, acol_default := y\<rparr> = col\<lparr>acol_has_default := x, acol_default := y\<rparr>" for x y
      using q(2) False by (cases col) simp
    then show ?thesis using default [of q col] q False by (simp only: clause_def if_False append_Nil)
  qed
  let ?c = "\<lparr>acol_name = acol_name c, acol_type = acol_type c, acol_varchar_len = acol_varchar_len c, acol_primary_key = False,
       acol_not_null = False, acol_unique = False, acol_has_default = False, acol_default = VALUE_NULL\<rparr> :: ast_column_def"
  consider (key) "acol_primary_key c" "acol_not_null c" | (null) "\<not> acol_primary_key c" "acol_not_null c"
    | (none) "\<not> acol_primary_key c" "\<not> acol_not_null c"
    using ok by (auto simp: column_ok_def)
  then show ?thesis
  proof cases
    case key
    then have r: "reads p ((TK_PRIMARY, ''PRIMARY'') # (TK_KEY, ''KEY'') # ?u)" using p by simp
    note k = token_read [OF token_read(4) [OF r]]
    have "parse_constraints sd ?c p = parse_constraints sd (?c\<lparr>acol_primary_key := True, acol_not_null := True\<rparr>) (p_advance (p_advance p))"
      by (subst parse_constraints.simps) (simp add: token_read(1) [OF r] k(2))
    then show ?thesis using unique [OF k(4), of "?c\<lparr>acol_primary_key := True, acol_not_null := True\<rparr>"] key by (cases c) simp
  next
    case null
    then have r: "reads p ((TK_NOT, ''NOT'') # (TK_NULL, ''NULL'') # ?u)" using p by simp
    note k = token_read [OF token_read(4) [OF r]]
    have "parse_constraints sd ?c p = parse_constraints sd (?c\<lparr>acol_not_null := True\<rparr>) (p_advance (p_advance p))"
      using token_other [OF r, of TK_PRIMARY] by (subst parse_constraints.simps) (simp add: token_read(1) [OF r] k(2))
    then show ?thesis using unique [OF k(4), of "?c\<lparr>acol_not_null := True\<rparr>"] null by (cases c) simp
  next
    case none
    then show ?thesis using unique [of p ?c] p none by (cases c) simp
  qed
qed

lemma column_yields:
  assumes ok: "column_ok c" and rest: "stops rest" "first_type rest \<notin> {TK_PRIMARY, TK_NOT, TK_UNIQUE, TK_DEFAULT}"
    and p: "reads p (column_pieces c @ rest)"
  shows "yields (parse_column_def sd p) c rest"
proof -
  let ?con = "(if acol_primary_key c then [(TK_PRIMARY, ''PRIMARY''), (TK_KEY, ''KEY'')]
      else if acol_not_null c then [(TK_NOT, ''NOT''), (TK_NULL, ''NULL'')] else []) @
     clause (TK_UNIQUE, ''UNIQUE'') (acol_unique c) [] @
     clause (TK_DEFAULT, ''DEFAULT'') (acol_has_default c) [literal_piece (acol_default c)] @ rest"
  have n: "yields (p_name 63 msg p) (acol_name c) (type_pieces (acol_type c) (acol_varchar_len c) @ ?con)" for msg
    using ok p by (intro name_yields) (simp_all add: column_pieces_def column_ok_def name_ok_def)
  have ty: "yields (parse_column_type q) (acol_type c, acol_varchar_len c) ?con"
    if "reads q (type_pieces (acol_type c) (acol_varchar_len c) @ ?con)" for q
    using that ok rest(1) by (intro column_type_yields) (auto simp: column_ok_def stops_def first_type_append clause_def)
  have con: "yields (case parse_constraints sd
      \<lparr>acol_name = acol_name c, acol_type = acol_type c, acol_varchar_len = acol_varchar_len c, acol_primary_key = False,
       acol_not_null = False, acol_unique = False, acol_has_default = False, acol_default = VALUE_NULL\<rparr> q of
        None \<Rightarrow> None | Some (col, p) \<Rightarrow> Some (Some col, p)) c rest" if "reads q ?con" for q
    using constraints_read [OF ok rest that, of sd] by (auto simp: yields_def)
  show ?thesis unfolding parse_column_def_def
    by (rule yields_pbind [OF n], rule yields_pbind [OF ty], assumption, unfold prod.case, erule con)
qed


lemma create_table_yields:
  assumes "stmt_ok (STMT_CREATE_TABLE c)" "reads p (stmt_pieces (STMT_CREATE_TABLE c) @ rest)"
  shows "yields (parse_create_table sd p) (STMT_CREATE_TABLE c) rest"
proof -
  let ?cols = "commas (map column_pieces (ct_columns c)) @ RPAREN # rest"
  let ?name = "ident (ct_table c) # LPAREN # ?cols"
  have p: "reads p ((TK_CREATE, ''CREATE'') # (TK_TABLE, ''TABLE'') #
      clause (TK_IF, ''IF'') (ct_if_not_exists c) [(TK_NOT, ''NOT''), (TK_EXISTS, ''EXISTS'')] @ ?name)"
    using assms(2) by simp
  note t = token_read [OF token_read(4) [OF p]]
  have i: "p_matched (p_advance (p_advance p)) TK_IF = ct_if_not_exists c"
    "reads (if ct_if_not_exists c then p_skip (p_skip (p_matching (p_advance (p_advance p)) TK_IF) TK_NOT) TK_EXISTS
       else p_advance (p_advance p)) ?name"
    using clause_read [OF t(4)] by (auto intro!: reads_skip)
  have n: "yields (p_name 63 msg q) (ct_table c) (LPAREN # ?cols)" if "reads q ?name" for q msg
    using assms(1) that by (intro name_yields) (simp_all add: name_ok_def)
  have cols: "yields (comma_list (parse_column_def sd) (p_skip q TK_LEFT_PAREN)) (ct_columns c) (RPAREN # rest)"
    if "reads q (LPAREN # ?cols)" for q
    using assms(1) token_read(2,4) [OF that]
    by (intro comma_list_yields [where pr = column_pieces] column_yields) (auto simp: list_all_iff comma_stops stops_def)
  show ?thesis unfolding parse_create_table_def Let_def t(2) i(1)
    by (rule yields_pbind [OF n [OF i(2)]], rule yields_pbind [OF cols], assumption)
      (auto intro!: yields_eq reads_skip)
qed

lemma drop_table_yields:
  assumes "stmt_ok (STMT_DROP_TABLE d)" "reads p (stmt_pieces (STMT_DROP_TABLE d) @ rest)"
  shows "yields (parse_drop_table p) (STMT_DROP_TABLE d) rest"
proof -
  let ?name = "ident (dt_table d) # rest"
  have p: "reads p ((TK_DROP, ''DROP'') # (TK_TABLE, ''TABLE'') # clause (TK_IF, ''IF'') (dt_if_exists d) [(TK_EXISTS, ''EXISTS'')] @ ?name)"
    using assms(2) by simp
  note t = token_read [OF token_read(4) [OF p]]
  have i: "p_matched (p_advance (p_advance p)) TK_IF = dt_if_exists d"
    "reads (if dt_if_exists d then p_skip (p_matching (p_advance (p_advance p)) TK_IF) TK_EXISTS else p_advance (p_advance p)) ?name"
    using clause_read [OF t(4)] by (auto intro!: reads_skip)
  have n: "yields (p_name 63 msg q) (dt_table d) rest" if "reads q ?name" for q msg
    using assms(1) that by (intro name_yields) (simp_all add: name_ok_def)
  show ?thesis unfolding parse_drop_table_def Let_def t(2) i(1)
    by (rule yields_pbind [OF n [OF i(2)]]) (auto intro!: yields_eq)
qed

lemma index_columns_yields:
  assumes "cs \<noteq> []" "n + length cs \<le> 8" "list_all name_ok cs" "reads p (commas (map (\<lambda>c. [ident c]) cs) @ RPAREN # rest)"
  shows "yields (index_columns n p) cs (RPAREN # rest)"
  using assms
proof (induction cs arbitrary: n p)
  case (Cons c cs)
  let ?more = "if cs = [] then RPAREN # rest else COMMA # commas (map (\<lambda>c. [ident c]) cs) @ RPAREN # rest"
  have n: "yields (p_name 63 msg p) c ?more" for msg
    using Cons.prems(3,4) by (intro name_yields) (auto simp: name_ok_def)
  have "yields (if p_matched q TK_COMMA
      then pbind (index_columns (n + 1) (p_matching q TK_COMMA)) (\<lambda>cs p. Some (Some (c # cs), p)) else Some (Some [c], q)) (c # cs) (RPAREN # rest)"
    if q: "reads q ?more" for q
  proof (cases "cs = []")
    case True
    then show ?thesis using q token_other [of q "RPAREN # rest" TK_COMMA] by (auto intro: yields_Some)
  next
    case False
    then have r: "reads q (COMMA # commas (map (\<lambda>c. [ident c]) cs) @ RPAREN # rest)" using q by simp
    have "yields (index_columns (n + 1) (p_advance q)) cs (RPAREN # rest)"
      using Cons.IH [OF False, of "n + 1" "p_advance q"] Cons.prems(2,3) token_read(4) [OF r] by simp
    then show ?thesis using token_read(1) [OF r] by (auto intro!: yields_pbind [where y = "c # cs"] yields_Some)
  qed
  then show ?case using Cons.prems(2) by (subst index_columns.simps) (auto intro!: yields_pbind [OF n])
qed simp

lemma create_index_yields:
  assumes "stmt_ok (STMT_CREATE_INDEX c)" "reads p (stmt_pieces (STMT_CREATE_INDEX c) @ rest)"
  shows "yields (parse_create_index p) (STMT_CREATE_INDEX c) rest"
proof -
  let ?cols = "commas (map (\<lambda>c. [ident c]) (ci_columns c)) @ RPAREN # rest"
  have p: "reads p ((TK_CREATE, ''CREATE'') # (TK_INDEX, ''INDEX'') # ident (ci_index c) # (TK_ON, ''ON'') # ident (ci_table c) # LPAREN # ?cols)"
    using assms(2) by simp
  note t = token_read [OF token_read(4) [OF p]]
  have n: "yields (p_name 63 msg (p_skip (p_advance p) TK_INDEX)) (ci_index c) ((TK_ON, ''ON'') # ident (ci_table c) # LPAREN # ?cols)" for msg
    using assms(1) t(2,4) by (intro name_yields) (simp_all add: name_ok_def)
  have n': "yields (p_name 63 msg (p_skip q TK_ON)) (ci_table c) (LPAREN # ?cols)" if "reads q ((TK_ON, ''ON'') # ident (ci_table c) # LPAREN # ?cols)" for q msg
    using assms(1) token_read(2,4) [OF that] by (intro name_yields) (simp_all add: name_ok_def)
  have cols: "yields (index_columns 0 (p_skip q TK_LEFT_PAREN)) (ci_columns c) (RPAREN # rest)" if "reads q (LPAREN # ?cols)" for q
    using assms(1) token_read(2,4) [OF that] by (intro index_columns_yields) simp_all
  show ?thesis unfolding parse_create_index_def
    by (rule yields_pbind [OF n], rule yields_pbind [OF n'], assumption, rule yields_pbind [OF cols], assumption)
      (use assms(1) in \<open>auto intro!: yields_eq reads_skip\<close>)
qed

lemma drop_index_yields:
  assumes "stmt_ok (STMT_DROP_INDEX d)" "reads p (stmt_pieces (STMT_DROP_INDEX d) @ rest)" "ending rest"
  shows "yields (parse_drop_index p) (STMT_DROP_INDEX d) rest"
proof -
  let ?on = "clause (TK_ON, ''ON'') (di_table d \<noteq> []) [ident (di_table d)] @ rest"
  have p: "reads p ((TK_DROP, ''DROP'') # (TK_INDEX, ''INDEX'') # ident (di_index d) # ?on)" using assms(2) by simp
  note t = token_read [OF token_read(4) [OF p]]
  have n: "yields (p_name 63 msg (p_skip (p_advance p) TK_INDEX)) (di_index d) ?on" for msg
    using assms(1) t(2,4) by (intro name_yields) (simp_all add: name_ok_def)
  have e: "first_type rest \<noteq> TK_ON" using assms(3) by (auto simp: ending_def)
  have len: "length (di_table d) \<le> 63" using assms(1) by (simp add: name_ok_def)
  have "yields (if p_matched q TK_ON then
         let p = p_matching q TK_ON
         in if peek_type p = TK_IDENTIFIER then
              Some (Some (STMT_DROP_INDEX \<lparr>di_index = di_index d, di_table = take 63 (lexeme (p_peek p))\<rparr>), p_advance p)
            else Some (Some (STMT_DROP_INDEX \<lparr>di_index = di_index d, di_table = []\<rparr>), p)
       else Some (Some (STMT_DROP_INDEX \<lparr>di_index = di_index d, di_table = []\<rparr>), q)) (STMT_DROP_INDEX d) rest"
    if q: "reads q ?on" for q
  proof (cases "di_table d = []")
    case True
    then show ?thesis using q token_other [OF _ e, of q] by (auto simp: clause_def intro!: yields_eq)
  next
    case False
    then have r: "reads q ((TK_ON, ''ON'') # ident (di_table d) # rest)" using q by (simp add: clause_def)
    show ?thesis using token_read [OF r] token_read [OF token_read(4) [OF r]] len by (auto intro!: yields_eq)
  qed
  then show ?thesis unfolding parse_drop_index_def by (intro yields_pbind [OF n]) 
qed


lemma insert_columns_read:
  assumes "cs \<noteq> []" "list_all name_ok cs" "reads p (commas (map (\<lambda>c. [ident c]) cs) @ RPAREN # rest)"
  shows "fst (insert_columns p) = cs \<and> reads (snd (insert_columns p)) (RPAREN # rest)"
  using assms
proof (induction cs arbitrary: p)
  case (Cons c cs)
  show ?case
  proof (cases "cs = []")
    case True
    then have r: "reads p (ident c # RPAREN # rest)" using Cons.prems(3) by simp
    show ?thesis using token_read [OF r] token_other [OF token_read(4) [OF r], of TK_COMMA] Cons.prems(2) True
      by (subst (1 2) insert_columns.simps) (simp add: Let_def name_ok_def)
  next
    case False
    then have r: "reads p (ident c # COMMA # commas (map (\<lambda>c. [ident c]) cs) @ RPAREN # rest)" using Cons.prems(3) by simp
    note t = token_read [OF token_read(4) [OF r]]
    show ?thesis using Cons.IH [OF False _ t(4)] Cons.prems(2) token_read [OF r] t(1)
      by (subst (1 2) insert_columns.simps) (simp add: Let_def case_prod_beta name_ok_def)
  qed
qed simp

lemma row_yields:
  assumes "r \<noteq> []" "list_all expr_ok r" "reads p (LPAREN # commas (map (expr_pieces 1) r) @ RPAREN # rest)"
  shows "yields (parse_row sd p) r rest"
proof -
  have "yields (comma_list (parse_expression sd) (p_skip p TK_LEFT_PAREN)) r (RPAREN # rest)"
    using assms(1,2) reads_skip [OF assms(3)] by (intro expr_list_yields) simp_all
  then show ?thesis unfolding parse_row_def by (rule yields_pbind) (auto intro!: yields_eq reads_skip)
qed

lemma insert_yields:
  assumes ok: "stmt_ok (STMT_INSERT i)" and p: "reads p (stmt_pieces (STMT_INSERT i) @ rest)" and rest: "ending rest"
  shows "yields (parse_insert sd p) (STMT_INSERT i) rest"
proof -
  let ?row = "\<lambda>r. LPAREN # commas (map (expr_pieces 1) r) @ [RPAREN]"
  let ?vals = "(TK_VALUES, ''VALUES'') # commas (map ?row (ins_values i)) @ rest"
  let ?cols = "clause LPAREN (ins_columns i \<noteq> []) (commas (map (\<lambda>c. [ident c]) (ins_columns i)) @ [RPAREN]) @ ?vals"
  have "reads p ((TK_INSERT, ''INSERT'') # (TK_INTO, ''INTO'') # ident (ins_table i) # ?cols)" using p by simp
  note t = token_read [OF token_read(4) [OF this]]
  have n: "yields (p_name 63 msg (p_skip (p_advance p) TK_INTO)) (ins_table i) ?cols" for msg
    using ok t(2,4) by (intro name_yields) (simp_all add: name_ok_def)
  have c: "fst (parse_insert_columns q) = ins_columns i \<and> reads (snd (parse_insert_columns q)) ?vals" if q: "reads q ?cols" for q
  proof (cases "ins_columns i")
    case Nil
    then have "reads q ?vals" using q by (simp add: clause_def)
    then show ?thesis using token_read(3) Nil by (auto simp: parse_insert_columns_def)
  next
    case (Cons a as)
    then have r: "reads q (LPAREN # commas (map (\<lambda>c. [ident c]) (ins_columns i)) @ RPAREN # ?vals)" using q by (simp add: clause_def)
    have "peek_next_type q = TK_IDENTIFIER" using reads_second [OF r] Cons by simp
    then show ?thesis using insert_columns_read [OF _ _ token_read(4) [OF r]] ok Cons token_read(3) [OF r]
      by (auto simp: parse_insert_columns_def case_prod_beta intro: reads_skip)
  qed
  have v: "yields (comma_list (parse_row sd) (p_skip q TK_VALUES)) (ins_values i) rest" if "reads q ?vals" for q
    using ok reads_skip [OF that] rest by (intro comma_list_yields [where pr = ?row] row_yields) (auto simp: list_all_iff ending_def)
  show ?thesis unfolding parse_insert_def
    by (rule yields_pbind [OF n]) (use c v in \<open>auto simp: case_prod_beta intro!: yields_pbind [OF v] yields_eq\<close>)
qed

lemma ending_stops: "ending ts \<Longrightarrow> stops ts"
  by (rule stops_types) (auto simp: ending_def)

lemma assignment_yields:
  assumes "length (asg_column a) < 63" "expr_ok (asg_value a)"
    "reads p (ident (asg_column a) # (TK_EQUAL, ''='') # expr_pieces 1 (asg_value a) @ rest)" "stops rest"
  shows "yields (parse_assignment sd p) a rest"
proof -
  note t = token_read [OF assms(3)]
  have "yields (parse_expression sd (p_skip (p_advance p) TK_EQUAL)) (asg_value a) rest"
    using assms(2,4) reads_skip [OF t(4)] by (intro expr_yields)
  then show ?thesis using t(3,6) assms(1) unfolding parse_assignment_def Let_def
    by (auto intro!: yields_eq elim!: yields_pbind)
qed

lemma update_yields:
  assumes ok: "stmt_ok (STMT_UPDATE u)" and p: "reads p (stmt_pieces (STMT_UPDATE u) @ rest)" and rest: "ending rest"
  shows "yields (parse_update sd p) (STMT_UPDATE u) rest"
proof -
  let ?asg = "\<lambda>a. ident (asg_column a) # (TK_EQUAL, ''='') # expr_pieces 1 (asg_value a)"
  let ?where = "condition_pieces (TK_WHERE, ''WHERE'') (upd_where u) @ rest"
  let ?set = "(TK_SET, ''SET'') # commas (map ?asg (upd_assignments u)) @ ?where"
  have "reads p ((TK_UPDATE, ''UPDATE'') # ident (upd_table u) # ?set)" using p by simp
  note t = token_read(4) [OF this]
  have n: "yields (p_name 63 msg (p_advance p)) (upd_table u) ?set" for msg
    using ok t by (intro name_yields) (simp_all add: name_ok_def)
  have w: "first_type ?where \<in> {TK_WHERE, TK_SEMICOLON, TK_EOF}" using rest by (simp add: ending_def)
  then have "stops ?where" by (intro stops_types) blast
  then have a: "yields (comma_list (parse_assignment sd) (p_skip q TK_SET)) (upd_assignments u) ?where" if "reads q ?set" for q
    using ok reads_skip [OF that] w
    by (intro comma_list_yields [where pr = ?asg] assignment_yields) (auto simp: list_all_iff comma_stops)
  have c: "yields (parse_optional sd TK_WHERE q) (upd_where u) rest" if "reads q ?where" for q
    using ok that ending_stops [OF rest] rest by (intro optional_yields) (auto simp: ending_def)
  show ?thesis unfolding parse_update_def
    by (rule yields_pbind [OF n], rule yields_pbind [OF a], assumption, rule yields_pbind [OF c], assumption) (auto intro!: yields_eq)
qed

lemma delete_yields:
  assumes ok: "stmt_ok (STMT_DELETE d)" and p: "reads p (stmt_pieces (STMT_DELETE d) @ rest)" and rest: "ending rest"
  shows "yields (parse_delete sd p) (STMT_DELETE d) rest"
proof -
  let ?where = "condition_pieces (TK_WHERE, ''WHERE'') (del_where d) @ rest"
  have "reads p ((TK_DELETE, ''DELETE'') # (TK_FROM, ''FROM'') # ident (del_table d) # ?where)" using p by simp
  note t = reads_skip [OF token_read(4) [OF this]]
  have n: "yields (p_name 63 msg (p_skip (p_advance p) TK_FROM)) (del_table d) ?where" for msg
    using ok t by (intro name_yields) (simp_all add: name_ok_def)
  have c: "yields (parse_optional sd TK_WHERE q) (del_where d) rest" if "reads q ?where" for q
    using ok that ending_stops [OF rest] rest by (intro optional_yields) (auto simp: ending_def)
  show ?thesis unfolding parse_delete_def
    by (rule yields_pbind [OF n], rule yields_pbind [OF c], assumption) (auto intro!: yields_eq)
qed


lemma level_read:
  assumes "l \<in> set [''READ UNCOMMITTED'', ''READ COMMITTED'', ''REPEATABLE READ'', ''SERIALIZABLE'']"
    "reads p ((TK_LEVEL, w) # level_pieces l @ rest)"
  shows "fst (parse_isolation p) = l \<and> reads (snd (parse_isolation p)) rest"
proof -
  note t = token_read [OF assms(2)]
  have o: "reads q ((ty, w) # ts) \<Longrightarrow> ty \<noteq> ty' \<Longrightarrow> p_match q ty' = (False, q)" for q ty ty' w ts
    using token_other [of q "(ty, w) # ts" ty'] by simp
  consider "l = ''READ UNCOMMITTED''" | "l = ''READ COMMITTED''" | "l = ''REPEATABLE READ''" | "l = ''SERIALIZABLE''"
    using assms(1) by auto
  then show ?thesis
  proof cases
    case 1
    then have r: "reads (p_advance p) ((TK_READ, ''READ'') # (TK_UNCOMMITTED, ''UNCOMMITTED'') # rest)" using t(4) by (simp add: level_pieces_def)
    show ?thesis using 1 t(1) token_read [OF r] token_read [OF token_read(4) [OF r]] by (simp add: parse_isolation_def Let_def)
  next
    case 2
    then have r: "reads (p_advance p) ((TK_READ, ''READ'') # (TK_COMMITTED, ''COMMITTED'') # rest)" using t(4) by (simp add: level_pieces_def)
    show ?thesis using 2 t(1) token_read [OF r] token_read [OF token_read(4) [OF r]] o [OF token_read(4) [OF r], of TK_UNCOMMITTED]
      by (simp add: parse_isolation_def Let_def)
  next
    case 3
    then have r: "reads (p_advance p) ((TK_REPEATABLE, ''REPEATABLE'') # (TK_READ, ''READ'') # rest)" using t(4) by (simp add: level_pieces_def)
    show ?thesis using 3 t(1) token_read [OF r] token_read [OF token_read(4) [OF r]] o [OF r, of TK_READ]
      by (simp add: parse_isolation_def Let_def)
  next
    case 4
    then have r: "reads (p_advance p) ((TK_SERIALIZABLE, ''SERIALIZABLE'') # rest)" using t(4) by (simp add: level_pieces_def)
    show ?thesis using 4 t(1) token_read [OF r] o [OF r, of TK_READ] o [OF r, of TK_REPEATABLE]
      by (simp add: parse_isolation_def Let_def)
  qed
qed

lemma begin_yields:
  assumes ok: "stmt_ok (STMT_BEGIN l)" and p: "reads p (stmt_pieces (STMT_BEGIN l) @ rest)" and rest: "ending rest"
  shows "yields (parse_begin p) (STMT_BEGIN l) rest"
proof -
  let ?level = "clause (TK_ISOLATION, ''ISOLATION'') (l \<noteq> []) ((TK_LEVEL, ''LEVEL'') # level_pieces l) @ rest"
  have "reads p ((TK_BEGIN, ''BEGIN'') # ?level)" using p by simp
  note t = token_read(4) [OF this]
  have e: "first_type rest \<noteq> TK_TRANSACTION" "first_type rest \<noteq> TK_ISOLATION" using rest by (auto simp: ending_def)
  have m: "p_matching (p_advance p) TK_TRANSACTION = p_advance p" using token_other [OF t, of TK_TRANSACTION] e by simp
  show ?thesis
  proof (cases "l = []")
    case True
    then show ?thesis using t token_other [OF _ e(2), of "p_advance p"] m
      by (auto simp: parse_begin_def Let_def clause_def intro!: yields_Some)
  next
    case False
    then have r: "reads (p_advance p) ((TK_ISOLATION, ''ISOLATION'') # (TK_LEVEL, ''LEVEL'') # level_pieces l @ rest)"
      using t by (simp add: clause_def)
    show ?thesis using level_read [OF _ token_read(4) [OF r]] ok False token_read(1) [OF r] m
      by (auto simp: parse_begin_def Let_def case_prod_beta intro!: yields_eq)
  qed
qed

lemma statement_dispatch:
  assumes "reads p ((ty, w) # ts)" "ty \<noteq> TK_EOF"
  shows "parse_statement sd p =
    (if ty = TK_SELECT then parse_select sd p
     else if ty = TK_CREATE then
       if first_type ts = TK_INDEX \<or> first_type ts = TK_UNIQUE then parse_create_index p else parse_create_table sd p
     else if ty = TK_DROP then if first_type ts = TK_INDEX then parse_drop_index p else parse_drop_table p
     else if ty = TK_INSERT then parse_insert sd p
     else if ty = TK_UPDATE then parse_update sd p
     else if ty = TK_DELETE then parse_delete sd p
     else if ty = TK_BEGIN then parse_begin p
     else if ty = TK_COMMIT then Some (Some STMT_COMMIT, p_advance p)
     else if ty = TK_ROLLBACK then Some (Some STMT_ROLLBACK, p_advance p)
     else if ty = TK_EXPLAIN then parse_explain sd p
     else Some (None, unexpected p))"
  using token_read(3) [OF assms(1)] reads_no_error [OF assms(1)] reads_second [OF assms(1)] assms(2) peek_nonempty [of p]
  unfolding parse_statement.simps [of sd p] Let_def is_at_end_def by (simp only: if_False simp_thms)

lemma statement_yields:
  assumes "stmt_ok s" "reads p (stmt_pieces s @ rest)" "ending rest"
  shows "yields (parse_statement sd p) s rest"
  using assms
proof (induction s arbitrary: p)
  case (STMT_EXPLAIN s)
  then have r: "reads p ((TK_EXPLAIN, ''EXPLAIN'') # stmt_pieces s @ rest)" by simp
  have "yields (parse_statement sd (p_advance p)) s rest" using STMT_EXPLAIN token_read(4) [OF r] by simp
  then have "yields (parse_explain sd p) (STMT_EXPLAIN s) rest" unfolding parse_explain.simps by (rule yields_pbind) (rule yields_Some)
  then show ?case by (simp add: statement_dispatch [OF r])
next
  case (STMT_CREATE_TABLE c)
  have r: "reads p ((TK_CREATE, ''CREATE'') # tl (stmt_pieces (STMT_CREATE_TABLE c)) @ rest)" using STMT_CREATE_TABLE(2) by simp
  show ?case using create_table_yields [OF STMT_CREATE_TABLE(1,2)] by (simp add: statement_dispatch [OF r])
next
  case (STMT_DROP_TABLE d)
  have r: "reads p ((TK_DROP, ''DROP'') # tl (stmt_pieces (STMT_DROP_TABLE d)) @ rest)" using STMT_DROP_TABLE(2) by simp
  show ?case using drop_table_yields [OF STMT_DROP_TABLE(1,2)] by (simp add: statement_dispatch [OF r])
next
  case (STMT_CREATE_INDEX c)
  have r: "reads p ((TK_CREATE, ''CREATE'') # tl (stmt_pieces (STMT_CREATE_INDEX c)) @ rest)" using STMT_CREATE_INDEX(2) by simp
  show ?case using create_index_yields [OF STMT_CREATE_INDEX(1,2)] by (simp add: statement_dispatch [OF r])
next
  case (STMT_DROP_INDEX d)
  have r: "reads p ((TK_DROP, ''DROP'') # tl (stmt_pieces (STMT_DROP_INDEX d)) @ rest)" using STMT_DROP_INDEX(2) by simp
  show ?case using drop_index_yields [OF STMT_DROP_INDEX] by (simp add: statement_dispatch [OF r])
next
  case (STMT_INSERT i)
  have r: "reads p ((TK_INSERT, ''INSERT'') # tl (stmt_pieces (STMT_INSERT i)) @ rest)" using STMT_INSERT(2) by simp
  show ?case using insert_yields [OF STMT_INSERT] by (simp add: statement_dispatch [OF r])
next
  case (STMT_UPDATE u)
  have r: "reads p ((TK_UPDATE, ''UPDATE'') # tl (stmt_pieces (STMT_UPDATE u)) @ rest)" using STMT_UPDATE(2) by simp
  show ?case using update_yields [OF STMT_UPDATE] by (simp add: statement_dispatch [OF r])
next
  case (STMT_DELETE d)
  have r: "reads p ((TK_DELETE, ''DELETE'') # tl (stmt_pieces (STMT_DELETE d)) @ rest)" using STMT_DELETE(2) by simp
  show ?case using delete_yields [OF STMT_DELETE] by (simp add: statement_dispatch [OF r])
next
  case (STMT_SELECT s)
  have r: "reads p ((TK_SELECT, ''SELECT'') # tl (select_pieces s) @ rest)" using STMT_SELECT(2) by (simp add: select_pieces_def)
  show ?case using select_yields [of s p rest sd] STMT_SELECT by (simp add: statement_dispatch [OF r])
next
  case (STMT_BEGIN l)
  have r: "reads p ((TK_BEGIN, ''BEGIN'') # tl (stmt_pieces (STMT_BEGIN l)) @ rest)" using STMT_BEGIN(2) by simp
  show ?case using begin_yields [OF STMT_BEGIN] by (simp add: statement_dispatch [OF r])
next
  case STMT_COMMIT
  then have r: "reads p ((TK_COMMIT, ''COMMIT'') # rest)" by simp
  show ?case using token_read(4) [OF r] by (simp add: statement_dispatch [OF r] yields_Some)
next
  case STMT_ROLLBACK
  then have r: "reads p ((TK_ROLLBACK, ''ROLLBACK'') # rest)" by simp
  show ?case using token_read(4) [OF r] by (simp add: statement_dispatch [OF r] yields_Some)
qed simp

lemma statement_starts: "stmt_ok s \<Longrightarrow> first_type (stmt_pieces s @ ts) \<notin> {TK_SEMICOLON, TK_EOF}"
  by (cases s) (simp_all add: select_pieces_def)

text \<open>C10. A script of statements, printed with a semicolon after each, is parsed back to exactly those statements,
  from its text: the lexer and the parser together undo the printer, report no error and stop at the end.
  The statements are those of every kind the parser can build, with names of at most 63 bytes, 62 for a column after SET, which the
  parser does not terminate; the text is that of words and literals the lexer can produce, which excludes the keyword AS.\<close>

theorem script_round_trip:
  assumes "list_all stmt_ok ss" "list_all printable (script_pieces ss)"
  shows "\<exists>p'. parser_parse_all sd (parser_init (fst (lexer_tokenize (lexer_init (render_all (script_pieces ss)))))) = Some (ss, p') \<and>
    is_at_end p' \<and> \<not> has_error p'"
proof -
  have "\<exists>p'. parser_parse_all sd p = Some (ss, p') \<and> is_at_end p' \<and> \<not> has_error p'"
    if "reads p (script_pieces ss @ [(TK_EOF, [])])" for p
    using assms(1) that
  proof (induction ss arbitrary: p)
    case Nil
    then have "is_at_end p" "\<not> has_error p" using reads_first [of p] by (auto simp: script_pieces_def is_at_end_def)
    then show ?case by (subst parser_parse_all.simps) simp
  next
    case (Cons s ss)
    let ?rest = "(TK_SEMICOLON, '';'') # script_pieces ss @ [(TK_EOF, [])]"
    have p: "reads p (stmt_pieces s @ ?rest)" and ok: "stmt_ok s" using Cons.prems by (simp_all add: script_pieces_def)
    obtain q where q: "reads q ?rest" "parse_statement sd p = Some (Some s, q)"
      using statement_yields [OF ok p, of sd] by (auto simp: yields_def ending_def)
    note t = token_read [OF q(1)]
    have "peek_type p \<noteq> TK_SEMICOLON" "peek_type p \<noteq> TK_EOF" using statement_starts [OF ok, of ?rest] reads_first [OF p] by auto
    then have "parser_parse_all sd p = map_option (\<lambda>(ss, p). (s # ss, p)) (parser_parse_all sd (p_advance q))"
      using q(2) t(1) reads_no_error [OF p] peek_nonempty [of p] by (subst parser_parse_all.simps) (simp add: is_at_end_def)
    then show ?case using Cons.IH [OF _ t(4)] Cons.prems(1) by auto
  qed
  moreover have "map piece_of (fst (lexer_tokenize (lexer_init (render_all (script_pieces ss))))) = script_pieces ss @ [(TK_EOF, [])]"
    by (rule lexer_round_trip [OF assms(2)])
  ultimately show ?thesis by (simp add: reads_def parser_init_def)
qed

definition demo_script :: "stmt list" where
  "demo_script =
    [STMT_CREATE_TABLE \<lparr>ct_table = ''t'', ct_columns =
       [\<lparr>acol_name = ''a'', acol_type = COL_TYPE_VARCHAR, acol_varchar_len = 8, acol_primary_key = True, acol_not_null = True,
         acol_unique = False, acol_has_default = False, acol_default = VALUE_NULL\<rparr>], ct_if_not_exists = False\<rparr>,
     STMT_SELECT \<lparr>sel_list = [STAR], sel_distinct = False, sel_from = [\<lparr>tref_name = ''t'', tref_alias = []\<rparr>], sel_joins = [],
       sel_where = Some (EXPR_BINARY (EXPR_COLUMN_REF [] ''a'') TK_LESS (EXPR_LITERAL (VALUE_INT 3))), sel_group = [],
       sel_having = None, sel_order = [\<lparr>ord_expr = EXPR_COLUMN_REF [] ''a'', ord_ascending = False\<rparr>], sel_limit = 5, sel_offset = -1\<rparr>]"

lemma demo_script_pieces:
  "script_pieces demo_script =
    [(TK_CREATE, ''CREATE''), (TK_TABLE, ''TABLE''), (TK_IDENTIFIER, ''t''), (TK_LEFT_PAREN, ''(''), (TK_IDENTIFIER, ''a''),
     (TK_VARCHAR, ''VARCHAR''), (TK_LEFT_PAREN, ''(''), (TK_INT_LITERAL, ''8''), (TK_RIGHT_PAREN, '')''), (TK_PRIMARY, ''PRIMARY''),
     (TK_KEY, ''KEY''), (TK_RIGHT_PAREN, '')''), (TK_SEMICOLON, '';''), (TK_SELECT, ''SELECT''), (TK_STAR, ''*''), (TK_FROM, ''FROM''),
     (TK_IDENTIFIER, ''t''), (TK_WHERE, ''WHERE''), (TK_IDENTIFIER, ''a''), (TK_LESS, ''<''), (TK_INT_LITERAL, ''3''),
     (TK_ORDER, ''ORDER''), (TK_BY, ''BY''), (TK_IDENTIFIER, ''a''), (TK_DESC, ''DESC''), (TK_LIMIT, ''LIMIT''), (TK_INT_LITERAL, ''5''),
     (TK_SEMICOLON, '';'')]"
  by (simp add: script_pieces_def demo_script_def column_pieces_def clause_def select_pieces_def condition_pieces_def table_pieces_def
      order_pieces_def limit_pieces_def expr_pieces.simps column_piece_def get_precedence_def operators_def dec_def fmt_lld_def
      nat_digits.simps char_of_def bit_Suc_0_iff)

theorem script_round_trip_witness:
  "render_all (script_pieces demo_script) =
     ''CREATE TABLE t ( a VARCHAR ( 8 ) PRIMARY KEY ) ; SELECT * FROM t WHERE a < 3 ORDER BY a DESC LIMIT 5 ; '' \<and>
   (\<exists>p'. parser_parse_all (\<lambda>_. 0) (parser_init (fst (lexer_tokenize (lexer_init
     ''CREATE TABLE t ( a VARCHAR ( 8 ) PRIMARY KEY ) ; SELECT * FROM t WHERE a < 3 ORDER BY a DESC LIMIT 5 ; '')))) =
       Some (demo_script, p') \<and> is_at_end p' \<and> \<not> has_error p')"
proof -
  have src: "render_all (script_pieces demo_script) =
     ''CREATE TABLE t ( a VARCHAR ( 8 ) PRIMARY KEY ) ; SELECT * FROM t WHERE a < 3 ORDER BY a DESC LIMIT 5 ; ''"
    by (simp add: demo_script_pieces render_def)
  have "list_all stmt_ok demo_script"
    by (simp add: demo_script_def name_ok_def column_ok_def select_ok_def table_ok_def binary_ops_def count_ok_def)
  moreover have "list_all printable (script_pieces demo_script)"
    by (simp add: demo_script_pieces printable_def is_word_def isalnum_def isalpha_def isdigit_def lookup_keyword_def KEYWORDS_def toupper_def
        operators_def is_number_text_def char_of_def bit_Suc_0_iff)
  ultimately show ?thesis using script_round_trip [of demo_script "\<lambda>_. 0"] unfolding src by simp
qed


section \<open>What is dropped without an error\<close>

text \<open>A word between the table and WHERE ends the statement: DELETE FROM t x WHERE a = 1 is the DELETE of all
  rows, and \<open>parser_parse\<close> does not look at the tokens it leaves.\<close>

lemma delete_where_dropped:
  assumes "reads p ((TK_DELETE, ''DELETE'') # (TK_FROM, ''FROM'') # ident ''t'' # ident ''x'' # (TK_WHERE, ''WHERE'') # rest)"
  shows "\<exists>q. parser_parse sd p = Some (Some (STMT_DELETE \<lparr>del_table = ''t'', del_where = None\<rparr>), q) \<and> \<not> has_error q"
proof -
  note t = reads_skip [OF token_read(4) [OF assms]]
  have "parse_delete sd p = Some (Some (STMT_DELETE \<lparr>del_table = ''t'', del_where = None\<rparr>), p_advance (p_skip (p_advance p) TK_FROM))"
    using token_read(3,6) [OF t] token_other [OF token_read(4) [OF t], of TK_WHERE]
    by (simp add: parse_delete_def p_name_def parse_optional_def)
  moreover have "\<not> has_error (p_advance (p_skip (p_advance p) TK_FROM))" using token_read(4) [OF t] by (rule reads_no_error)
  moreover have "parse_statement sd p = parse_delete sd p" by (simp add: statement_dispatch [OF assms])
  ultimately show ?thesis
    using token_other [OF token_read(4) [OF t], of TK_SEMICOLON] by (simp add: parser_parse_def)
qed

text \<open>A limit is cut to 32 bits: 4294967295 reads as -1, which stands for no limit.\<close>

lemma limit_wraps: "lexeme (p_peek p) = dec (2 ^ 32 - 1) \<Longrightarrow> lexeme_int p = -1"
  using strtoll_dec [of "2 ^ 32 - 1"] by (simp add: lexeme_int_def to_int32_def signed_take_bit_eq_take_bit_shift take_bit_eq_mod)

end
