(* ===== verification/Expr_Eval.thy ===== *)
theory Expr_Eval
  imports Ast Schema_Tuple
begin

text \<open>
  The expression evaluator (\<open>src/executor/expr_evaluator.c\<close>) with the conversions from syntax trees to
  stored values and schemas (\<open>src/planner/value_bridge.c\<close>). A result is None where the code leaves defined
  behaviour, an error code, or a value.

  C promises only the sign of what \<open>strcmp\<close> returns, and the evaluator looks at more than the sign, so
  the \<open>strcmp\<close> of the C library is a parameter here.
\<close>

section \<open>From syntax to storage\<close>

text \<open>A string as C reads it: its bytes up to the first NUL.\<close>

definition c_text :: "string \<Rightarrow> cstring" where
  "c_text s = takeWhile (\<lambda>b. b \<noteq> 0) (cstr s)"

fun ast_value_to_storage :: "ast_value \<Rightarrow> val" where
  "ast_value_to_storage VALUE_NULL = value_make_null"
| "ast_value_to_storage (VALUE_BOOL b) = value_make_boolean b"
| "ast_value_to_storage (VALUE_INT i) = value_make_integer i"
| "ast_value_to_storage (VALUE_FLOAT d) = value_make_float d"
| "ast_value_to_storage (VALUE_STRING s) = value_make_varchar (Some (c_text s))"

fun ast_col_type_to_storage :: "col_data_type \<Rightarrow> type_id" where
  "ast_col_type_to_storage COL_TYPE_INTEGER = TYPE_INTEGER"
| "ast_col_type_to_storage COL_TYPE_FLOAT = TYPE_FLOAT"
| "ast_col_type_to_storage COL_TYPE_VARCHAR = TYPE_VARCHAR"
| "ast_col_type_to_storage COL_TYPE_BOOLEAN = TYPE_BOOLEAN"

definition ast_column_to_storage :: "ast_column_def \<Rightarrow> column_def" where
  "ast_column_to_storage c =
     \<lparr>col_name = take 63 (c_text (acol_name c)), col_type = ast_col_type_to_storage (acol_type c), col_nullable = \<not> acol_not_null c,
      col_max_length = (if acol_type c = COL_TYPE_VARCHAR then pattern 32 (acol_varchar_len c) else 0),
      col_fixed_offset = 0, col_var_index = 0\<rparr>"

definition ast_columns_to_storage :: "ast_column_def list \<Rightarrow> column_def list" where
  "ast_columns_to_storage cs = map ast_column_to_storage cs"

definition ast_build_schema :: "ast_column_def list \<Rightarrow> schema \<Rightarrow> error_code \<times> schema" where
  "ast_build_schema cs s =
     (if cs = [] then (DB_INVALID_ARGUMENT, s)
      else schema_create s (ast_columns_to_storage cs) (int (length cs)))"

section \<open>Evaluation\<close>

type_synonym 'a eresult = "(error_code + 'a) option"

definition ebind :: "'a eresult \<Rightarrow> ('a \<Rightarrow> 'b eresult) \<Rightarrow> 'b eresult" where
  "ebind m f = (case m of None \<Rightarrow> None | Some (Inl rc) \<Rightarrow> Some (Inl rc) | Some (Inr v) \<Rightarrow> f v)"

abbreviation (input) ok :: "'a \<Rightarrow> 'a eresult" where "ok v \<equiv> Some (Inr v)"

lemma ebind_cong [fundef_cong]: "m = m' \<Longrightarrow> (\<And>v. m' = ok v \<Longrightarrow> f v = f' v) \<Longrightarrow> ebind m f = ebind m' f'"
  by (auto simp: ebind_def split: option.split sum.split)

lemma ebind_simps [simp]: "ebind None f = None" "ebind (Some (Inl rc)) f = Some (Inl rc)" "ebind (ok v) f = f v"
  by (simp_all add: ebind_def)

fun is_truthy :: "val \<Rightarrow> bool" where
  "is_truthy V_Null = False"
| "is_truthy (V_Int i) = (i \<noteq> 0)"
| "is_truthy (V_Float d) = (\<not> dbl_eq d dbl_zero)"
| "is_truthy (V_Bool b) = b"
| "is_truthy (V_Varchar s) = (case s of None \<Rightarrow> False | Some s \<Rightarrow> s \<noteq> [])"

definition comparison_ops :: "token_type list" where
  "comparison_ops = [TK_LESS, TK_LESS_EQUAL, TK_GREATER, TK_GREATER_EQUAL, TK_EQUAL, TK_NOT_EQUAL]"

definition compare_result :: "token_type \<Rightarrow> int \<Rightarrow> bool" where
  "compare_result op cmp =
     (if op = TK_LESS then cmp < 0 else if op = TK_LESS_EQUAL then cmp \<le> 0 else if op = TK_GREATER then cmp > 0
      else if op = TK_GREATER_EQUAL then cmp \<ge> 0 else if op = TK_EQUAL then cmp = 0 else if op = TK_NOT_EQUAL then cmp \<noteq> 0
      else False)"

text \<open>With a NULL operand.\<close>

definition binary_null :: "token_type \<Rightarrow> val \<Rightarrow> val \<Rightarrow> val" where
  "binary_null op left right =
     (if op = TK_AND then
        if left = V_Bool False then value_make_boolean False
        else if right = V_Bool False then value_make_boolean False
        else value_make_null
      else if op = TK_OR then
        if left = V_Bool True \<or> right = V_Bool True then value_make_boolean True else value_make_null
      else value_make_null)"

definition binary_value :: "strcmp_fn \<Rightarrow> token_type \<Rightarrow> val \<Rightarrow> val \<Rightarrow> val eresult" where
  "binary_value scmp op left right =
     (if val_type left = TYPE_NULL \<or> val_type right = TYPE_NULL then ok (binary_null op left right)
      else if op = TK_PLUS then value_add left right
      else if op = TK_MINUS then value_sub left right
      else if op = TK_STAR then value_mul left right
      else if op = TK_SLASH then value_div left right
      else if op \<in> set comparison_ops then
        let cmp = value_compare scmp left right
        in if cmp < -1 then ok value_make_null else ok (value_make_boolean (compare_result op cmp))
      else if op = TK_AND then ok (value_make_boolean (is_truthy left \<and> is_truthy right))
      else if op = TK_OR then ok (value_make_boolean (is_truthy left \<or> is_truthy right))
      else ok value_make_null)"

text \<open>The negation of the least integer overflows.\<close>

definition unary_value :: "token_type \<Rightarrow> val \<Rightarrow> val eresult" where
  "unary_value op v =
     (if op = TK_MINUS then
        case v of
          V_Int i \<Rightarrow> map_option Inr (int64_result (- i))
        | V_Float d \<Rightarrow> ok (value_make_float (dbl_minus d))
        | _ \<Rightarrow> ok value_make_null
      else if op = TK_NOT then
        if val_type v = TYPE_NULL then ok value_make_null else ok (value_make_boolean (\<not> is_truthy v))
      else ok value_make_null)"

fun strstr :: "cstring \<Rightarrow> cstring \<Rightarrow> bool" where
  "strstr [] t = (t = [])"
| "strstr (c # s) t = (take (length t) (c # s) = t \<or> strstr s t)"

definition PERCENT :: byte where "PERCENT = 37"

text \<open>A pattern of one percent sign makes the length of the inner part wrap around.\<close>

definition like_value :: "strcmp_fn \<Rightarrow> val \<Rightarrow> string \<Rightarrow> bool \<Rightarrow> val eresult" where
  "like_value scmp v ptn is_not =
     (if val_type v = TYPE_NULL then ok value_make_null
      else
        case (case v of V_Varchar s \<Rightarrow> s | _ \<Rightarrow> Some []) of
          None \<Rightarrow> None
        | Some str \<Rightarrow>
            let pat = c_text ptn
            in if pat \<noteq> [] \<and> hd pat = PERCENT \<and> last pat = PERCENT then
                 if length pat = 1 then None
                 else ok (value_make_boolean (strstr str (butlast (tl pat)) \<noteq> is_not))
               else ok (value_make_boolean ((scmp pat str = 0) \<noteq> is_not)))"

definition column_value :: "string \<Rightarrow> tuple option \<Rightarrow> schema option \<Rightarrow> val eresult" where
  "column_value name t s =
     (case (t, s) of
        (Some t, Some s) \<Rightarrow>
          let i = schema_find_column s (c_text name)
          in if i < 0 then Some (Inl DB_UNKNOWN_COLUMN)
             else (case tuple_get_value t i of None \<Rightarrow> Some (Inl DB_UNKNOWN_COLUMN) | Some v \<Rightarrow> ok (value_copy (Some v)))
      | _ \<Rightarrow> Some (Inl DB_INVALID_ARGUMENT))"

definition between_value :: "strcmp_fn \<Rightarrow> val \<Rightarrow> val \<Rightarrow> val \<Rightarrow> bool \<Rightarrow> val" where
  "between_value scmp v low high is_not =
     (if val_type v = TYPE_NULL \<or> val_type low = TYPE_NULL \<or> val_type high = TYPE_NULL then value_make_null
      else value_make_boolean ((value_compare scmp v low \<ge> 0 \<and> value_compare scmp v high \<le> 0) \<noteq> is_not))"

fun expr_evaluate :: "strcmp_fn \<Rightarrow> expr \<Rightarrow> tuple option \<Rightarrow> schema option \<Rightarrow> val eresult" and
  in_loop :: "strcmp_fn \<Rightarrow> val \<Rightarrow> expr list \<Rightarrow> tuple option \<Rightarrow> schema option \<Rightarrow> bool eresult" where
  "expr_evaluate scmp (EXPR_LITERAL v) t s = ok (ast_value_to_storage v)"
| "expr_evaluate scmp (EXPR_COLUMN_REF table column) t s = column_value column t s"
| "expr_evaluate scmp (EXPR_BINARY l op r) t s =
     ebind (expr_evaluate scmp l t s) (\<lambda>left. ebind (expr_evaluate scmp r t s) (\<lambda>right. binary_value scmp op left right))"
| "expr_evaluate scmp (EXPR_UNARY op e) t s = ebind (expr_evaluate scmp e t s) (unary_value op)"
| "expr_evaluate scmp (EXPR_IS_NULL e is_not) t s =
     ebind (expr_evaluate scmp e t s) (\<lambda>v. ok (value_make_boolean ((val_type v = TYPE_NULL) \<noteq> is_not)))"
| "expr_evaluate scmp (EXPR_IN_EXPR e items is_not) t s =
     ebind (expr_evaluate scmp e t s) (\<lambda>left.
       if val_type left = TYPE_NULL then ok value_make_null
       else ebind (in_loop scmp left items t s) (\<lambda>found. ok (value_make_boolean (found \<noteq> is_not))))"
| "expr_evaluate scmp (EXPR_BETWEEN e lo hi is_not) t s =
     ebind (expr_evaluate scmp e t s) (\<lambda>v. ebind (expr_evaluate scmp lo t s) (\<lambda>low. ebind (expr_evaluate scmp hi t s) (\<lambda>high.
       ok (between_value scmp v low high is_not))))"
| "expr_evaluate scmp (EXPR_LIKE e pat is_not) t s = ebind (expr_evaluate scmp e t s) (\<lambda>v. like_value scmp v pat is_not)"
| "expr_evaluate scmp (EXPR_FUNCTION_CALL f args star) t s = ok value_make_null"
| "expr_evaluate scmp EXPR_SUBQUERY t s = ok value_make_null"
| "in_loop scmp left [] t s = ok False"
| "in_loop scmp left (e # es) t s =
     ebind (expr_evaluate scmp e t s) (\<lambda>item.
       if val_type item \<noteq> TYPE_NULL \<and> value_compare scmp left item = 0 then ok True
       else in_loop scmp left es t s)"


section \<open>The string comparison of the C library\<close>

context libc_strcmp
begin

text \<open>What a comparison operator gives: the truth by the order of values, or NULL where \<open>strcmp\<close> returns
  less than -1.\<close>

lemma comparison_value:
  assumes "op \<in> set comparison_ops" "val_type a \<noteq> TYPE_NULL" "val_type b \<noteq> TYPE_NULL"
  shows "binary_value scmp op a b =
    ok (if value_compare scmp a b < -1 then V_Null else V_Bool (compare_result op (value_order a b)))"
proof -
  have "compare_result op (value_compare scmp a b) = compare_result op (value_order a b)"
    using compare_sign [of a b] by (auto simp: compare_result_def sgn_if split: if_splits)
  moreover have "op \<notin> {TK_PLUS, TK_MINUS, TK_STAR, TK_SLASH}" using assms(1) by (auto simp: comparison_ops_def)
  ultimately show ?thesis using assms
    by (simp add: binary_value_def Let_def value_make_null_def value_make_boolean_def)
qed

end

section \<open>Types\<close>

definition numeric :: "type_id \<Rightarrow> bool" where
  "numeric ty \<longleftrightarrow> ty = TYPE_INTEGER \<or> ty = TYPE_FLOAT"

text \<open>The static type of an expression over the columns of a schema; TYPE_NULL is the type of NULL alone.\<close>

definition binary_type :: "token_type \<Rightarrow> type_id \<Rightarrow> type_id \<Rightarrow> type_id option" where
  "binary_type op l r =
     (if op \<in> set [TK_PLUS, TK_MINUS, TK_STAR, TK_SLASH] then
        if l = TYPE_NULL \<or> r = TYPE_NULL then Some TYPE_NULL
        else if numeric l \<and> numeric r then Some (if l = TYPE_FLOAT \<or> r = TYPE_FLOAT then TYPE_FLOAT else TYPE_INTEGER)
        else None
      else if op \<in> set comparison_ops \<or> op = TK_AND \<or> op = TK_OR then Some TYPE_BOOLEAN
      else Some TYPE_NULL)"

fun expr_type :: "schema option \<Rightarrow> expr \<Rightarrow> type_id option" where
  "expr_type s (EXPR_LITERAL v) = Some (val_type (ast_value_to_storage v))"
| "expr_type s (EXPR_COLUMN_REF table column) =
     (case s of
        None \<Rightarrow> None
      | Some s \<Rightarrow>
          let i = schema_find_column s (c_text column)
          in if i < 0 then None else Some (col_type (columns s ! nat i)))"
| "expr_type s (EXPR_BINARY l op r) =
     (case (expr_type s l, expr_type s r) of (Some a, Some b) \<Rightarrow> binary_type op a b | _ \<Rightarrow> None)"
| "expr_type s (EXPR_UNARY op e) =
     map_option (\<lambda>a. if op = TK_MINUS then if numeric a then a else TYPE_NULL else if op = TK_NOT then TYPE_BOOLEAN else TYPE_NULL) (expr_type s e)"
| "expr_type s (EXPR_IS_NULL e is_not) = map_option (\<lambda>_. TYPE_BOOLEAN) (expr_type s e)"
| "expr_type s (EXPR_IN_EXPR e items is_not) =
     (if expr_type s e = None \<or> list_ex (\<lambda>e. expr_type s e = None) items then None else Some TYPE_BOOLEAN)"
| "expr_type s (EXPR_BETWEEN e lo hi is_not) =
     (if expr_type s e = None \<or> expr_type s lo = None \<or> expr_type s hi = None then None else Some TYPE_BOOLEAN)"
| "expr_type s (EXPR_LIKE e pat is_not) = map_option (\<lambda>_. TYPE_BOOLEAN) (expr_type s e)"
| "expr_type s (EXPR_FUNCTION_CALL f args star) = Some TYPE_NULL"
| "expr_type s EXPR_SUBQUERY = Some TYPE_NULL"

text \<open>A row of a schema: a value of its type, or NULL, in every column.\<close>

definition row_ok :: "tuple option \<Rightarrow> schema option \<Rightarrow> bool" where
  "row_ok t s \<longleftrightarrow>
     (case (t, s) of
        (Some t, Some s) \<Rightarrow>
          num_values t = num_columns s \<and> num_columns s = int (length (columns s)) \<and>
          list_all2 (\<lambda>v c. val_type v = col_type c \<or> v = V_Null) (tup_values t) (columns s)
      | (None, Some _) \<Rightarrow> False
      | _ \<Rightarrow> True)"

definition has_type :: "type_id \<Rightarrow> val \<Rightarrow> bool" where
  "has_type ty v \<longleftrightarrow> val_type v = ty \<or> v = V_Null"

text \<open>A result of a well-typed expression: undefined, a division by zero, or a value of the type.\<close>

definition well_typed :: "type_id \<Rightarrow> val eresult \<Rightarrow> bool" where
  "well_typed ty r \<longleftrightarrow> (\<forall>rc. r = Some (Inl rc) \<longrightarrow> rc = DB_INVALID_ARGUMENT) \<and> (\<forall>v. r = ok v \<longrightarrow> has_type ty v)"

lemma well_typed_ok: "has_type ty v \<Longrightarrow> well_typed ty (ok v)"
  and well_typed_None: "well_typed ty None"
  by (simp_all add: well_typed_def)

lemma well_typed_ebind:
  "well_typed ty m \<Longrightarrow> (\<And>v. m = ok v \<Longrightarrow> has_type ty v \<Longrightarrow> well_typed ty' (f v)) \<Longrightarrow> well_typed ty' (ebind m f)"
  by (cases m) (auto simp: well_typed_def ebind_def split: sum.splits)

lemma val_type_null [simp]: "val_type v = TYPE_NULL \<longleftrightarrow> v = V_Null"
  by (cases v) simp_all

lemma arith_typed:
  assumes "has_type l a" "has_type r b" "a \<noteq> V_Null" "b \<noteq> V_Null" "numeric l" "numeric r"
  shows "well_typed (if l = TYPE_FLOAT \<or> r = TYPE_FLOAT then TYPE_FLOAT else TYPE_INTEGER) (value_arith iop dop a b)"
    and "well_typed (if l = TYPE_FLOAT \<or> r = TYPE_FLOAT then TYPE_FLOAT else TYPE_INTEGER) (value_div a b)"
proof -
  have c: "coerce_arithmetic a b = Inr (as_double a, as_double b, if l = TYPE_FLOAT \<or> r = TYPE_FLOAT then TYPE_FLOAT else TYPE_INTEGER)"
    using assms by (auto simp: coerce_arithmetic_def has_type_def numeric_def)
  show "well_typed (if l = TYPE_FLOAT \<or> r = TYPE_FLOAT then TYPE_FLOAT else TYPE_INTEGER) (value_arith iop dop a b)"
    by (auto simp: value_arith_def c well_typed_def has_type_def int64_result_def value_make_integer_def value_make_float_def
        split: option.splits if_splits)
  show "well_typed (if l = TYPE_FLOAT \<or> r = TYPE_FLOAT then TYPE_FLOAT else TYPE_INTEGER) (value_div a b)"
    by (auto simp: value_div_def c well_typed_def has_type_def int64_result_def value_make_integer_def value_make_float_def
        split: option.splits if_splits)
qed

lemma binary_typed:
  assumes "binary_type op l r = Some ty" "has_type l a" "has_type r b"
  shows "well_typed ty (binary_value scmp op a b)"
proof (cases "a = V_Null \<or> b = V_Null")
  case True
  have "has_type ty (binary_null op a b)"
    using assms(1) by (auto simp: binary_null_def binary_type_def has_type_def comparison_ops_def value_make_boolean_def value_make_null_def split: if_splits)
  then show ?thesis using True by (auto simp: binary_value_def well_typed_def)
next
  case False
  then have n: "l \<noteq> TYPE_NULL" "r \<noteq> TYPE_NULL" using assms(2,3) by (auto simp: has_type_def)
  have bool: "well_typed TYPE_BOOLEAN (ok (value_make_boolean x))" "well_typed t' (ok value_make_null)" for x t'
    by (simp_all add: well_typed_def has_type_def value_make_boolean_def value_make_null_def)
  show ?thesis
  proof (cases "op \<in> set [TK_PLUS, TK_MINUS, TK_STAR, TK_SLASH]")
    case True
    then have "numeric l" "numeric r" "ty = (if l = TYPE_FLOAT \<or> r = TYPE_FLOAT then TYPE_FLOAT else TYPE_INTEGER)"
      using assms(1) n by (auto simp: binary_type_def split: if_splits)
    then show ?thesis using arith_typed [OF assms(2,3)] False True
      by (auto simp: binary_value_def value_add_def value_sub_def value_mul_def)
  next
    case other: False
    then have "ty = TYPE_BOOLEAN \<or> \<not> (op \<in> set comparison_ops \<or> op = TK_AND \<or> op = TK_OR)"
      using assms(1) by (auto simp: binary_type_def split: if_splits)
    then show ?thesis using False other bool by (auto simp: binary_value_def Let_def)
  qed
qed

lemma row_column:
  assumes "row_ok t (Some s)" "\<not> schema_find_column s name < 0"
  shows "\<exists>tp v. t = Some tp \<and> tuple_get_value tp (schema_find_column s name) = Some v \<and>
    has_type (col_type (columns s ! nat (schema_find_column s name))) v"
proof -
  obtain tp where t: "t = Some tp" using assms(1) by (cases t) (simp_all add: row_ok_def)
  have n: "num_values tp = num_columns s" "num_columns s = int (length (columns s))"
    "list_all2 (\<lambda>v c. val_type v = col_type c \<or> v = V_Null) (tup_values tp) (columns s)"
    using assms(1) t by (simp_all add: row_ok_def)
  have "schema_cols s = columns s" by (simp add: schema_cols_def n(2))
  then have "schema_find_column s name < int (length (columns s))"
    using assms(2) by (auto simp: schema_find_column_def find_column_loop_spec find_Some_iff split: option.splits)
  then show ?thesis using t n assms(2)
    by (auto simp: tuple_get_value_def has_type_def list_all2_conv_all_nth)
qed

lemma boolean_typed: "has_type TYPE_BOOLEAN (value_make_boolean b)" "has_type ty value_make_null"
  by (simp_all add: has_type_def value_make_boolean_def value_make_null_def)

lemma like_typed: "well_typed TYPE_BOOLEAN (like_value scmp v pat is_not)"
  by (auto simp: like_value_def Let_def boolean_typed intro!: well_typed_ok well_typed_None split: option.split)

lemma unary_typed:
  assumes "has_type a v"
  shows "well_typed (if op = TK_MINUS then if numeric a then a else TYPE_NULL else if op = TK_NOT then TYPE_BOOLEAN else TYPE_NULL)
    (unary_value op v)"
  using assms
  by (cases v) (auto simp: unary_value_def well_typed_def has_type_def numeric_def int64_result_def value_make_boolean_def
      value_make_null_def value_make_integer_def value_make_float_def split: if_splits)

lemma eval_typed:
  "row_ok t s \<Longrightarrow> expr_type s e = Some ty \<Longrightarrow> well_typed ty (expr_evaluate scmp e t s)"
  "row_ok t s \<Longrightarrow> list_all (\<lambda>e. expr_type s e \<noteq> None) es \<Longrightarrow> (\<forall>rc. in_loop scmp left es t s = Some (Inl rc) \<longrightarrow> rc = DB_INVALID_ARGUMENT)"
proof (induction scmp e t s and scmp left es t s arbitrary: ty rule: expr_evaluate_in_loop.induct)
  case (1 scmp v t s)
  then show ?case by (auto intro: well_typed_ok simp: has_type_def)
next
  case (2 scmp table column t s)
  then obtain sc where s: "s = Some sc" "\<not> schema_find_column sc (c_text column) < 0"
      "ty = col_type (columns sc ! nat (schema_find_column sc (c_text column)))"
    by (auto simp: Let_def split: option.splits if_splits)
  then obtain tp v where "t = Some tp" "tuple_get_value tp (schema_find_column sc (c_text column)) = Some v" "has_type ty v"
    using row_column 2(1) by blast
  moreover have "value_copy (Some v) = v" for v by (simp add: value_copy_def value_make_varchar_def split: val.split)
  ultimately show ?case using s(1,2) by (simp add: column_value_def well_typed_def)
next
  case (3 scmp l op r t s)
  then obtain a b where ab: "expr_type s l = Some a" "expr_type s r = Some b" "binary_type op a b = Some ty"
    by (auto split: option.splits)
  have "well_typed a (expr_evaluate scmp l t s)" "\<And>v. expr_evaluate scmp l t s = ok v \<Longrightarrow> well_typed b (expr_evaluate scmp r t s)"
    using 3(1) [OF 3(3) ab(1)] 3(2) [OF _ 3(3) ab(2)] by auto
  then show ?case unfolding expr_evaluate.simps by (blast intro: well_typed_ebind binary_typed [OF ab(3)])
next
  case (4 scmp op e t s)
  then obtain a where a: "expr_type s e = Some a"
      "ty = (if op = TK_MINUS then if numeric a then a else TYPE_NULL else if op = TK_NOT then TYPE_BOOLEAN else TYPE_NULL)"
    by auto
  show ?case unfolding expr_evaluate.simps a(2) by (rule well_typed_ebind [OF 4(1) [OF 4(2) a(1)]]) (rule unary_typed)
next
  case (5 scmp e is_not t s)
  then obtain a where a: "expr_type s e = Some a" "ty = TYPE_BOOLEAN" by auto
  show ?case unfolding expr_evaluate.simps a(2)
    by (rule well_typed_ebind [OF 5(1) [OF 5(2) a(1)]]) (rule well_typed_ok [OF boolean_typed(1)])
next
  case (6 scmp e items is_not t s)
  then obtain a where a: "expr_type s e = Some a" "ty = TYPE_BOOLEAN" "list_all (\<lambda>e. expr_type s e \<noteq> None) items"
    by (auto simp: list_all_iff list_ex_iff split: if_splits)
  show ?case unfolding expr_evaluate.simps a(2)
  proof (rule well_typed_ebind [OF 6(1) [OF 6(3) a(1)]])
    fix v assume v: "expr_evaluate scmp e t s = ok v"
    show "well_typed TYPE_BOOLEAN (if val_type v = TYPE_NULL then ok value_make_null
        else ebind (in_loop scmp v items t s) (\<lambda>found. ok (value_make_boolean (found \<noteq> is_not))))"
      using 6(2) [OF v _ 6(3) a(3)] boolean_typed by (auto simp: well_typed_def ebind_def split: option.splits sum.splits)
  qed
next
  case (7 scmp e lo hi is_not t s)
  then obtain a b c where a: "expr_type s e = Some a" "expr_type s lo = Some b" "expr_type s hi = Some c" "ty = TYPE_BOOLEAN"
    by (auto split: if_splits)
  have "has_type TYPE_BOOLEAN (between_value scmp x y z is_not)" for x y z by (simp add: between_value_def boolean_typed)
  then show ?case unfolding expr_evaluate.simps a(4)
    using 7(1) [OF 7(4) a(1)] 7(2) [OF _ 7(4) a(2)] 7(3) [OF _ _ 7(4) a(3)]
    by (intro well_typed_ebind well_typed_ok) blast+
next
  case (8 scmp e pat is_not t s)
  then obtain a where a: "expr_type s e = Some a" "ty = TYPE_BOOLEAN" by auto
  show ?case unfolding expr_evaluate.simps a(2) by (rule well_typed_ebind [OF 8(1) [OF 8(2) a(1)]]) (rule like_typed)
next
  case (12 scmp left e es t s)
  then obtain a where a: "expr_type s e = Some a" "list_all (\<lambda>e. expr_type s e \<noteq> None) es" by auto
  show ?case using 12(1) [OF 12(3) a(1)] 12(2) [OF _ _ 12(3) a(2)]
    by (auto simp: ebind_def well_typed_def split: option.splits sum.splits if_splits)
qed (auto simp: well_typed_def boolean_typed)

section \<open>Properties\<close>

text \<open>C8. Expressions are type sound: over a row of its schema, an expression to which the static types give a type
  evaluates to a value of that type or NULL, unless the behaviour is undefined; the only error is that of a
  division by zero, never an unknown column or a type mismatch.\<close>

theorem expr_type_sound:
  assumes "expr_type s e = Some ty" "row_ok t s"
  shows "(\<forall>v. expr_evaluate scmp e t s = Some (Inr v) \<longrightarrow> val_type v = ty \<or> v = V_Null) \<and>
    (\<forall>rc. expr_evaluate scmp e t s = Some (Inl rc) \<longrightarrow> rc = DB_INVALID_ARGUMENT)"
  using eval_typed(1) [OF assms(2,1), of scmp] by (auto simp: well_typed_def has_type_def)

definition demo_cond :: expr where
  "demo_cond =
     EXPR_BINARY (EXPR_BINARY (EXPR_BINARY (EXPR_COLUMN_REF [] ''id'') TK_PLUS (EXPR_LITERAL (VALUE_INT 1))) TK_LESS (EXPR_LITERAL (VALUE_INT 0)))
       TK_AND (EXPR_IS_NULL (EXPR_COLUMN_REF [] ''ok'') False)"

definition demo_cols :: schema where
  "demo_cols =
    \<lparr>columns = [\<lparr>col_name = c_text ''id'', col_type = TYPE_INTEGER, col_nullable = True, col_max_length = 0, col_fixed_offset = 0, col_var_index = -1\<rparr>,
                \<lparr>col_name = c_text ''ok'', col_type = TYPE_BOOLEAN, col_nullable = True, col_max_length = 0, col_fixed_offset = 8, col_var_index = -1\<rparr>],
     num_columns = 2, fixed_size = 9, var_cols = 0, null_bitmap_size = 1\<rparr>"

definition demo_values :: tuple where
  "demo_values = \<lparr>tup_values = [V_Int (-7), V_Null], num_values = 2, tup_rid = INVALID_RID\<rparr>"

lemma demo_find: "schema_find_column demo_cols (c_text ''id'') = 0" "schema_find_column demo_cols (c_text ''ok'') = 1"
  by (simp_all add: schema_find_column_def schema_cols_def demo_cols_def c_text_def cstr_def)

lemma demo_row_ok: "row_ok (Some demo_values) (Some demo_cols)"
  by (simp add: row_ok_def demo_values_def demo_cols_def)

lemma demo_cond_true: "expr_evaluate strcmp demo_cond (Some demo_values) (Some demo_cols) = Some (Inr (V_Bool True))"
  using dbl_of_int_exact(1) [of "-7"] dbl_of_int_exact(1) [of 1]
  by (simp add: demo_cond_def column_value_def demo_find tuple_get_value_def demo_values_def value_copy_def binary_value_def
      as_double_def value_add_def value_arith_def coerce_arithmetic_def int64_result_def in_range_def comparison_ops_def compare_result_def
      value_make_integer_def value_make_boolean_def)

theorem expr_type_sound_witness:
  "expr_type (Some demo_cols) demo_cond = Some TYPE_BOOLEAN \<and>
   (\<exists>v. expr_evaluate strcmp demo_cond (Some demo_values) (Some demo_cols) = Some (Inr v) \<and> (val_type v = TYPE_BOOLEAN \<or> v = V_Null))"
proof -
  have "expr_type (Some demo_cols) demo_cond = Some TYPE_BOOLEAN"
    by (simp add: demo_cond_def demo_find binary_type_def comparison_ops_def numeric_def value_make_integer_def)
      (simp add: demo_cols_def)
  then show ?thesis using expr_type_sound [OF _ demo_row_ok, of demo_cond TYPE_BOOLEAN strcmp] demo_cond_true by blast
qed

text \<open>What a filter does with a condition.\<close>

definition accepts :: "strcmp_fn \<Rightarrow> expr \<Rightarrow> tuple option \<Rightarrow> schema option \<Rightarrow> bool" where
  "accepts scmp e t s = (case expr_evaluate scmp e t s of Some (Inr v) \<Rightarrow> is_truthy v | _ \<Rightarrow> False)"

text \<open>BETWEEN compares without the test for a result below -1, which only two strings can have.\<close>

lemma compare_least:
  assumes "\<And>s t. a = V_Varchar (Some s) \<Longrightarrow> b = V_Varchar (Some t) \<Longrightarrow> -1 \<le> scmp s t"
  shows "-1 \<le> value_compare scmp a b"
  using assms by (cases a; cases b) (auto simp: dbl_compare_def split: option.split)

lemma between_accepts:
  fixes e lo hi t s scmp
  defines "one \<equiv> accepts scmp (EXPR_BETWEEN e lo hi False) t s"
    and "two \<equiv> accepts scmp (EXPR_BINARY (EXPR_BINARY e TK_GREATER_EQUAL lo) TK_AND (EXPR_BINARY e TK_LESS_EQUAL hi)) t s"
  shows "two \<Longrightarrow> one"
    and "\<forall>v h. expr_evaluate scmp e t s = ok (V_Varchar (Some v)) \<and> expr_evaluate scmp hi t s = ok (V_Varchar (Some h)) \<longrightarrow> -1 \<le> scmp v h \<Longrightarrow>
      one = two"
proof -
  let ?e = "expr_evaluate scmp e t s" and ?l = "expr_evaluate scmp lo t s" and ?h = "expr_evaluate scmp hi t s"
  have "(two \<longrightarrow> one) \<and> ((\<forall>v b. ?e = ok v \<and> ?h = ok b \<longrightarrow> -1 \<le> value_compare scmp v b) \<longrightarrow> one = two)"
  proof (cases "\<exists>v a b. ?e = ok v \<and> ?l = ok a \<and> ?h = ok b")
    case True
    then obtain v a b where r: "?e = ok v" "?l = ok a" "?h = ok b" by blast
    have "one \<longleftrightarrow> v \<noteq> V_Null \<and> a \<noteq> V_Null \<and> b \<noteq> V_Null \<and> 0 \<le> value_compare scmp v a \<and> value_compare scmp v b \<le> 0"
      by (simp add: one_def accepts_def r between_value_def value_make_boolean_def value_make_null_def)
    moreover have "two \<longleftrightarrow> v \<noteq> V_Null \<and> a \<noteq> V_Null \<and> b \<noteq> V_Null \<and>
        0 \<le> value_compare scmp v a \<and> value_compare scmp v b \<le> 0 \<and> -1 \<le> value_compare scmp v b"
      by (cases "v = V_Null"; cases "a = V_Null"; cases "b = V_Null")
        (simp_all add: two_def accepts_def r binary_value_def binary_null_def comparison_ops_def compare_result_def Let_def
          value_make_boolean_def value_make_null_def)
    ultimately show ?thesis using r(1,3) by blast
  next
    case False
    then have "\<not> one" by (auto simp: one_def accepts_def ebind_def split: option.splits sum.splits)
    moreover have "\<not> two" using False by (auto simp: two_def accepts_def ebind_def split: option.splits sum.splits)
    ultimately show ?thesis by simp
  qed
  moreover have "\<forall>v b. ?e = ok v \<and> ?h = ok b \<longrightarrow> -1 \<le> value_compare scmp v b"
    if "\<forall>v h. ?e = ok (V_Varchar (Some v)) \<and> ?h = ok (V_Varchar (Some h)) \<longrightarrow> -1 \<le> scmp v h"
    by (intro allI impI, rule compare_least) (use that in simp)
  ultimately show "two \<Longrightarrow> one" "\<forall>v h. ?e = ok (V_Varchar (Some v)) \<and> ?h = ok (V_Varchar (Some h)) \<longrightarrow> -1 \<le> scmp v h \<Longrightarrow> one = two"
    by blast+
qed

lemma logic_values:
  assumes "has_type TYPE_BOOLEAN a" "has_type TYPE_BOOLEAN b"
  shows "ebind (binary_value scmp TK_AND a b) (unary_value TK_NOT) =
      ebind (unary_value TK_NOT a) (\<lambda>a. ebind (unary_value TK_NOT b) (binary_value scmp TK_OR a))"
    and "ebind (binary_value scmp TK_OR a b) (unary_value TK_NOT) =
      ebind (unary_value TK_NOT a) (\<lambda>a. ebind (unary_value TK_NOT b) (binary_value scmp TK_AND a))"
  using assms
  by (cases a; cases b; simp add: has_type_def binary_value_def binary_null_def unary_value_def comparison_ops_def
      value_make_boolean_def value_make_null_def)+

lemma ebind_assoc: "ebind (ebind m f) g = ebind m (\<lambda>x. ebind (f x) g)"
  by (cases m) (auto simp: ebind_def split: sum.split)

lemma de_morgan:
  assumes "expr_type s a = Some TYPE_BOOLEAN" "expr_type s b = Some TYPE_BOOLEAN" "row_ok t s"
  shows "expr_evaluate scmp (EXPR_UNARY TK_NOT (EXPR_BINARY a TK_AND b)) t s =
      expr_evaluate scmp (EXPR_BINARY (EXPR_UNARY TK_NOT a) TK_OR (EXPR_UNARY TK_NOT b)) t s"
    and "expr_evaluate scmp (EXPR_UNARY TK_NOT (EXPR_BINARY a TK_OR b)) t s =
      expr_evaluate scmp (EXPR_BINARY (EXPR_UNARY TK_NOT a) TK_AND (EXPR_UNARY TK_NOT b)) t s"
proof -
  have ty: "has_type TYPE_BOOLEAN v" if "expr_evaluate scmp e t s = ok v" "e = a \<or> e = b" for e v
    using that eval_typed(1) [OF assms(3)] assms(1,2) by (auto simp: well_typed_def)
  let ?a = "expr_evaluate scmp a t s" and ?b = "expr_evaluate scmp b t s"
  have "(\<exists>v. ?a = ok v) \<or> ?a = None \<or> (\<exists>rc. ?a = Some (Inl rc))" "(\<exists>v. ?b = ok v) \<or> ?b = None \<or> (\<exists>rc. ?b = Some (Inl rc))"
    by (metis option.exhaust sum.exhaust)+
  moreover have "\<exists>w. unary_value TK_NOT v = ok w" for v by (simp add: unary_value_def)
  ultimately show "expr_evaluate scmp (EXPR_UNARY TK_NOT (EXPR_BINARY a TK_AND b)) t s =
      expr_evaluate scmp (EXPR_BINARY (EXPR_UNARY TK_NOT a) TK_OR (EXPR_UNARY TK_NOT b)) t s"
    "expr_evaluate scmp (EXPR_UNARY TK_NOT (EXPR_BINARY a TK_OR b)) t s =
      expr_evaluate scmp (EXPR_BINARY (EXPR_UNARY TK_NOT a) TK_AND (EXPR_UNARY TK_NOT b)) t s"
    using logic_values ty by (auto simp: ebind_assoc) (metis ebind_simps)+
qed


lemma not_boolean: "unary_value TK_NOT (value_make_boolean x) = ok (value_make_boolean (\<not> x))"
  and not_null: "unary_value TK_NOT value_make_null = ok value_make_null"
  by (simp_all add: unary_value_def value_make_boolean_def value_make_null_def)

lemma negated_between:
  "expr_evaluate scmp (EXPR_BETWEEN e lo hi True) t s = expr_evaluate scmp (EXPR_UNARY TK_NOT (EXPR_BETWEEN e lo hi False)) t s"
proof -
  have "unary_value TK_NOT (between_value scmp v l h False) = ok (between_value scmp v l h True)" for v l h
    by (simp add: between_value_def not_boolean not_null)
  then show ?thesis by (simp add: ebind_assoc)
qed

lemma negated_in:
  "expr_evaluate scmp (EXPR_IN_EXPR e items True) t s = expr_evaluate scmp (EXPR_UNARY TK_NOT (EXPR_IN_EXPR e items False)) t s"
  by (auto simp: ebind_def not_boolean not_null split: option.split sum.split)

lemma negated_like:
  "expr_evaluate scmp (EXPR_LIKE e pat True) t s = expr_evaluate scmp (EXPR_UNARY TK_NOT (EXPR_LIKE e pat False)) t s"
proof -
  have "ebind (like_value scmp v pat False) (unary_value TK_NOT) = like_value scmp v pat True" for v
    by (auto simp: like_value_def Let_def not_boolean not_null split: option.split)
  then show ?thesis by (simp add: ebind_assoc)
qed

lemma negated_is_null:
  "expr_evaluate scmp (EXPR_IS_NULL e True) t s = expr_evaluate scmp (EXPR_UNARY TK_NOT (EXPR_IS_NULL e False)) t s"
  by (simp add: ebind_assoc not_boolean)

text \<open>C9. The evaluator respects the equivalences of SQL. NOT BETWEEN, NOT IN, NOT LIKE and IS NOT NULL are the
  negations of the plain forms, errors and undefined behaviour included. A row that the two comparisons accept is accepted by
  BETWEEN, and the other way round unless the value and the upper bound are both strings and \<open>strcmp\<close> returns less
  than -1 on them, which C allows: the comparison operator takes that for NULL, BETWEEN for less. On
  conditions of boolean type AND, OR and NOT obey De Morgan's laws, NULL included.\<close>

theorem sql_equivalences:
  "expr_evaluate scmp (EXPR_BETWEEN e lo hi True) t s = expr_evaluate scmp (EXPR_UNARY TK_NOT (EXPR_BETWEEN e lo hi False)) t s \<and>
   expr_evaluate scmp (EXPR_IN_EXPR e items True) t s = expr_evaluate scmp (EXPR_UNARY TK_NOT (EXPR_IN_EXPR e items False)) t s \<and>
   expr_evaluate scmp (EXPR_LIKE e pat True) t s = expr_evaluate scmp (EXPR_UNARY TK_NOT (EXPR_LIKE e pat False)) t s \<and>
   expr_evaluate scmp (EXPR_IS_NULL e True) t s = expr_evaluate scmp (EXPR_UNARY TK_NOT (EXPR_IS_NULL e False)) t s \<and>
   (accepts scmp (EXPR_BINARY (EXPR_BINARY e TK_GREATER_EQUAL lo) TK_AND (EXPR_BINARY e TK_LESS_EQUAL hi)) t s \<longrightarrow>
      accepts scmp (EXPR_BETWEEN e lo hi False) t s) \<and>
   ((\<forall>v h. expr_evaluate scmp e t s = ok (V_Varchar (Some v)) \<and> expr_evaluate scmp hi t s = ok (V_Varchar (Some h)) \<longrightarrow> -1 \<le> scmp v h) \<longrightarrow>
      accepts scmp (EXPR_BETWEEN e lo hi False) t s =
      accepts scmp (EXPR_BINARY (EXPR_BINARY e TK_GREATER_EQUAL lo) TK_AND (EXPR_BINARY e TK_LESS_EQUAL hi)) t s) \<and>
   (expr_type s a = Some TYPE_BOOLEAN \<and> expr_type s b = Some TYPE_BOOLEAN \<and> row_ok t s \<longrightarrow>
      expr_evaluate scmp (EXPR_UNARY TK_NOT (EXPR_BINARY a TK_AND b)) t s =
        expr_evaluate scmp (EXPR_BINARY (EXPR_UNARY TK_NOT a) TK_OR (EXPR_UNARY TK_NOT b)) t s \<and>
      expr_evaluate scmp (EXPR_UNARY TK_NOT (EXPR_BINARY a TK_OR b)) t s =
        expr_evaluate scmp (EXPR_BINARY (EXPR_UNARY TK_NOT a) TK_AND (EXPR_UNARY TK_NOT b)) t s)"
  by (intro conjI impI;
      (rule negated_between negated_in negated_like negated_is_null | (erule between_accepts) | (elim conjE, rule de_morgan; assumption)))

theorem sql_equivalences_witness:
  "accepts strcmp (EXPR_BETWEEN (EXPR_COLUMN_REF [] ''id'') (EXPR_LITERAL (VALUE_INT (-9))) (EXPR_LITERAL (VALUE_INT 0)) False) (Some demo_values) (Some demo_cols) \<and>
   accepts strcmp (EXPR_BINARY (EXPR_BINARY (EXPR_COLUMN_REF [] ''id'') TK_GREATER_EQUAL (EXPR_LITERAL (VALUE_INT (-9)))) TK_AND
     (EXPR_BINARY (EXPR_COLUMN_REF [] ''id'') TK_LESS_EQUAL (EXPR_LITERAL (VALUE_INT 0)))) (Some demo_values) (Some demo_cols) \<and>
   expr_evaluate strcmp (EXPR_UNARY TK_NOT (EXPR_BINARY demo_cond TK_AND demo_cond)) (Some demo_values) (Some demo_cols) =
   expr_evaluate strcmp (EXPR_BINARY (EXPR_UNARY TK_NOT demo_cond) TK_OR (EXPR_UNARY TK_NOT demo_cond)) (Some demo_values) (Some demo_cols)"
proof -
  have "expr_type (Some demo_cols) demo_cond = Some TYPE_BOOLEAN"
    by (simp add: demo_cond_def demo_find binary_type_def comparison_ops_def numeric_def value_make_integer_def)
      (simp add: demo_cols_def)
  moreover have "accepts strcmp (EXPR_BETWEEN (EXPR_COLUMN_REF [] ''id'') (EXPR_LITERAL (VALUE_INT (-9))) (EXPR_LITERAL (VALUE_INT 0)) False)
      (Some demo_values) (Some demo_cols)"
    by (simp add: accepts_def column_value_def demo_find tuple_get_value_def demo_values_def between_value_def value_copy_def
        value_make_integer_def value_make_boolean_def)
  moreover have "\<forall>v h. expr_evaluate strcmp (EXPR_COLUMN_REF [] ''id'') (Some demo_values) (Some demo_cols) = ok (V_Varchar (Some v)) \<and>
      expr_evaluate strcmp (EXPR_LITERAL (VALUE_INT 0)) (Some demo_values) (Some demo_cols) = ok (V_Varchar (Some h)) \<longrightarrow> -1 \<le> strcmp v h"
    by (simp add: value_make_integer_def)
  ultimately show ?thesis
    using sql_equivalences [of strcmp "EXPR_COLUMN_REF [] ''id''" "EXPR_LITERAL (VALUE_INT (-9))" "EXPR_LITERAL (VALUE_INT 0)"
        "Some demo_values" "Some demo_cols" "[]" "[]" demo_cond demo_cond] demo_row_ok by blast
qed

section \<open>Where the evaluator departs from SQL\<close>

text \<open>A \<open>strcmp\<close> that returns the difference of two bytes makes the comparison of strings NULL.\<close>

lemma string_comparison_null:
  assumes "scmp (c_text a) (c_text b) < -1"
  shows "expr_evaluate scmp (EXPR_BINARY (EXPR_LITERAL (VALUE_STRING a)) TK_LESS (EXPR_LITERAL (VALUE_STRING b))) t s = ok V_Null"
  using assms by (simp add: binary_value_def comparison_ops_def value_make_varchar_def value_make_null_def)

text \<open>A number and a string are each greater than the other.\<close>

lemma mismatched_both_greater:
  "expr_evaluate scmp (EXPR_BINARY (EXPR_LITERAL (VALUE_INT 1)) TK_GREATER (EXPR_LITERAL (VALUE_STRING a))) t s = ok (V_Bool True)"
  "expr_evaluate scmp (EXPR_BINARY (EXPR_LITERAL (VALUE_STRING a)) TK_GREATER (EXPR_LITERAL (VALUE_INT 1))) t s = ok (V_Bool True)"
  by (simp_all add: binary_value_def comparison_ops_def compare_result_def value_make_varchar_def
      value_make_integer_def value_make_boolean_def)

text \<open>The pattern of a lone percent sign computes a length of -1.\<close>

lemma like_percent_undefined: "expr_evaluate scmp (EXPR_LIKE (EXPR_LITERAL (VALUE_STRING a)) ''%'' is_not) t s = None"
  by (simp add: like_value_def value_make_varchar_def c_text_def cstr_def PERCENT_def)

text \<open>With a NULL on the other side only the BOOLEAN false counts as false.\<close>

lemma null_and_zero:
  "expr_evaluate scmp (EXPR_BINARY (EXPR_LITERAL VALUE_NULL) TK_AND (EXPR_LITERAL (VALUE_INT 0))) t s = ok V_Null"
  "expr_evaluate scmp (EXPR_BINARY (EXPR_LITERAL VALUE_NULL) TK_AND (EXPR_LITERAL (VALUE_BOOL False))) t s = ok (V_Bool False)"
  by (simp_all add: binary_value_def binary_null_def value_make_integer_def value_make_boolean_def value_make_null_def)

end
