(* ===== verification/Bpm_Heap.thy ===== *)
theory Bpm_Heap
  imports Buffer_Pool Heap_File
begin

text \<open>
  The heap file on the buffer pool, \<open>src/executor/bpm_heap.c\<close>, which the executors use: the same list of
  slotted pages as the heap file of the storage layer, its pages fetched from the pool and unpinned. The
  schema and the table id of the handle are only stored. A result is None where the code would
  dereference NULL or not return; \<open>Inl rc\<close> is a return value other than DB_OK. NULL arguments are not
  modelled. A pointer into a page is its frame and an offset.

  The abstract view of the pool is a map V from page ids to contents (\<open>pool_has\<close>); the order \<open>pool_le\<close>
  relates two states of the pool with one view, where the later one keeps the pages of the view in memory.
\<close>

section \<open>Operations\<close>

record bpm_heap =
  bh_first :: int

definition bpm_heap_init :: "int \<Rightarrow> bpm_heap" where
  "bpm_heap_init first = \<lparr>bh_first = first\<rparr>"

text \<open>A page pointer is a frame; what it points to, and a write through it.\<close>

definition frame_data :: "bpm \<Rightarrow> nat \<Rightarrow> buffer" where
  "frame_data b f = page_data (pages b ! f)"

definition frame_write :: "nat \<Rightarrow> buffer \<Rightarrow> bpm \<Rightarrow> bpm" where
  "frame_write f d b = set_page f ((pages b ! f)\<lparr>page_data := d\<rparr>) b"

definition unpin :: "int \<Rightarrow> bool \<Rightarrow> bpm \<Rightarrow> bpm option" where
  "unpin pid dirty b = map_option snd (bpm_unpin_page pid dirty b)"

definition ptr_buffer :: "bpm \<Rightarrow> nat \<times> nat \<Rightarrow> buffer" where
  "ptr_buffer b p = (\<lambda>x. frame_data b (fst p) (snd p + x))"

type_synonym 'a heap_run = "((int + 'a) \<times> bpm) option"

definition bpm_ensure_first_page :: "bpm_heap \<Rightarrow> bpm \<Rightarrow> ((int + unit) \<times> bpm_heap \<times> bpm) option" where
  "bpm_ensure_first_page hf b =
     (if bh_first hf \<noteq> INVALID_PAGE_ID then Some (Inr (), hf, b)
      else
        case bpm_new_page b of
          None \<Rightarrow> None
        | Some (None, b) \<Rightarrow> Some (Inl (code_of DB_OUT_OF_MEMORY), hf, b)
        | Some (Some (new_pid, f), b) \<Rightarrow>
            map_option (\<lambda>b. (Inr (), hf\<lparr>bh_first := new_pid\<rparr>, b))
              (unpin new_pid True (frame_write f (slotted_page_init (frame_data b f) new_pid) b)))"

partial_function (option) bpm_scan_pages :: "nat \<Rightarrow> int \<Rightarrow> bpm \<Rightarrow> (int \<times> nat) option heap_run" where
  "bpm_scan_pages tuple_size current b =
     (if current = INVALID_PAGE_ID then Some (Inr None, b)
      else
        case bpm_fetch_page current b of
          None \<Rightarrow> None
        | Some (None, b) \<Rightarrow> Some (Inl (code_of DB_PAGE_NOT_FOUND), b)
        | Some (Some f, b) \<Rightarrow>
            if slotted_page_free_space (frame_data b f) \<ge> tuple_size + SLOT_SIZE then Some (Inr (Some (current, f)), b)
            else
              let next = page_header_get_next_page (frame_data b f)
              in (case unpin current False b of None \<Rightarrow> None | Some b \<Rightarrow> bpm_scan_pages tuple_size next b))"

partial_function (option) bpm_link_last :: "int \<Rightarrow> int \<Rightarrow> bpm \<Rightarrow> unit heap_run" where
  "bpm_link_last new_pid cur b =
     (case bpm_fetch_page cur b of
        None \<Rightarrow> None
      | Some (None, b) \<Rightarrow> map_option (Pair (Inl (code_of DB_PAGE_NOT_FOUND))) (unpin new_pid True b)
      | Some (Some f, b) \<Rightarrow>
          let next = page_header_get_next_page (frame_data b f)
          in if next = INVALID_PAGE_ID then
               map_option (Pair (Inr ())) (unpin cur True (frame_write f (page_header_set_next_page (frame_data b f) new_pid) b))
             else
               case unpin cur False b of None \<Rightarrow> None | Some b \<Rightarrow> bpm_link_last new_pid next b)"

definition bpm_find_page_with_space ::
    "nat \<Rightarrow> bpm_heap \<Rightarrow> bpm \<Rightarrow> ((int + int \<times> nat) \<times> bpm_heap \<times> bpm) option" where
  "bpm_find_page_with_space tuple_size hf b =
     (case bpm_ensure_first_page hf b of
        None \<Rightarrow> None
      | Some (Inl e, hf, b) \<Rightarrow> Some (Inl e, hf, b)
      | Some (Inr _, hf, b) \<Rightarrow>
          (case bpm_scan_pages tuple_size (bh_first hf) b of
             None \<Rightarrow> None
           | Some (Inl e, b) \<Rightarrow> Some (Inl e, hf, b)
           | Some (Inr (Some r), b) \<Rightarrow> Some (Inr r, hf, b)
           | Some (Inr None, b) \<Rightarrow>
               (case bpm_new_page b of
                  None \<Rightarrow> None
                | Some (None, b) \<Rightarrow> Some (Inl (code_of DB_OUT_OF_MEMORY), hf, b)
                | Some (Some (new_pid, f), b) \<Rightarrow>
                    (case bpm_link_last new_pid (bh_first hf) (frame_write f (slotted_page_init (frame_data b f) new_pid) b) of
                       None \<Rightarrow> None
                     | Some (Inl e, b) \<Rightarrow> Some (Inl e, hf, b)
                     | Some (Inr _, b) \<Rightarrow> Some (Inr (new_pid, f), hf, b)))))"

definition bpm_heap_insert :: "byte list \<Rightarrow> bpm_heap \<Rightarrow> bpm \<Rightarrow> ((int + rid) \<times> bpm_heap \<times> bpm) option" where
  "bpm_heap_insert data hf b =
     (if length data = 0 then Some (Inl (code_of DB_INVALID_ARGUMENT), hf, b)
      else
        case bpm_find_page_with_space (length data) hf b of
          None \<Rightarrow> None
        | Some (Inl e, hf, b) \<Rightarrow> Some (Inl e, hf, b)
        | Some (Inr (pid, f), hf, b) \<Rightarrow>
            let (slot_id, d) = slotted_page_insert (frame_data b f) data; b = frame_write f d b
            in if slot_id < 0 then map_option (\<lambda>b. (Inl slot_id, hf, b)) (unpin pid False b)
               else map_option (\<lambda>b. (Inr \<lparr>rid_page = pid, rid_slot = slot_id\<rparr>, hf, b)) (unpin pid True b))"

text \<open>\<open>bpm_heap_delete\<close> and \<open>bpm_heap_update\<close> after their checks of the arguments: fetch the page, let the slotted page
  do the work, unpin it, dirty when it succeeded.\<close>

definition bpm_heap_change :: "rid \<Rightarrow> (buffer \<Rightarrow> int \<Rightarrow> error_code \<times> buffer) \<Rightarrow> bpm \<Rightarrow> unit heap_run" where
  "bpm_heap_change r g b =
     (if rid_invalid r then Some (Inl (code_of DB_INVALID_ARGUMENT), b)
      else
        case bpm_fetch_page (rid_page r) b of
          None \<Rightarrow> None
        | Some (None, b) \<Rightarrow> Some (Inl (code_of DB_PAGE_NOT_FOUND), b)
        | Some (Some f, b) \<Rightarrow>
            let (rc, d) = g (frame_data b f) (rid_slot r)
            in map_option (Pair (if rc = DB_OK then Inr () else Inl (code_of rc)))
                 (unpin (rid_page r) (rc = DB_OK) (frame_write f d b)))"

definition bpm_heap_delete :: "rid \<Rightarrow> bpm \<Rightarrow> unit heap_run" where
  "bpm_heap_delete r b = bpm_heap_change r slotted_page_delete b"

definition bpm_heap_update :: "rid \<Rightarrow> byte list \<Rightarrow> bpm \<Rightarrow> unit heap_run" where
  "bpm_heap_update r new_data b =
     (if length new_data = 0 then Some (Inl (code_of DB_INVALID_ARGUMENT), b)
      else bpm_heap_change r (\<lambda>d s. slotted_page_update d s new_data) b)"

text \<open>The pointer to the tuple, its size and the page pointer that the caller has to release.\<close>

definition bpm_heap_get :: "rid \<Rightarrow> bpm \<Rightarrow> ((nat \<times> nat) \<times> nat \<times> nat) heap_run" where
  "bpm_heap_get r b =
     (if rid_invalid r then Some (Inl (code_of DB_INVALID_ARGUMENT), b)
      else
        case bpm_fetch_page (rid_page r) b of
          None \<Rightarrow> None
        | Some (None, b) \<Rightarrow> Some (Inl (code_of DB_PAGE_NOT_FOUND), b)
        | Some (Some f, b) \<Rightarrow>
            (case slotted_page_get (frame_data b f) (rid_slot r) of
               Inl e \<Rightarrow> map_option (Pair (Inl (code_of e))) (unpin (rid_page r) False b)
             | Inr (off, sz) \<Rightarrow> Some (Inr ((f, off), sz, f), b)))"

definition bpm_heap_release_get :: "nat option \<Rightarrow> bpm \<Rightarrow> bpm option" where
  "bpm_heap_release_get p b = (case p of None \<Rightarrow> Some b | Some f \<Rightarrow> unpin (page_pid (pages b ! f)) False b)"

section \<open>The iterator\<close>

record bpm_heap_iter =
  bi_page :: int
  bi_slot :: nat
  bi_frame :: "nat option"

definition bpm_heap_iter_init :: "bpm_heap \<Rightarrow> bpm_heap_iter" where
  "bpm_heap_iter_init hf = \<lparr>bi_page = bh_first hf, bi_slot = 0, bi_frame = None\<rparr>"

text \<open>The page of the iterator, fetched when there is none.\<close>

definition bpm_heap_iter_pin :: "bpm_heap_iter \<Rightarrow> bpm \<Rightarrow> ((nat \<times> nat) option \<times> bpm) option" where
  "bpm_heap_iter_pin it b =
     (case bi_frame it of
        Some f \<Rightarrow> Some (Some (f, bi_slot it), b)
      | None \<Rightarrow> map_option (\<lambda>(r, b). (map_option (\<lambda>f. (f, 0)) r, b)) (bpm_fetch_page (bi_page it) b))"

partial_function (option) bpm_heap_iter_next ::
    "bpm_heap_iter \<Rightarrow> bpm \<Rightarrow> ((int + rid \<times> (nat \<times> nat) \<times> nat) \<times> bpm_heap_iter \<times> bpm) option" where
  "bpm_heap_iter_next it b =
     (if bi_page it = INVALID_PAGE_ID then Some (Inl (code_of DB_PAGE_NOT_FOUND), it, b)
      else
        case bpm_heap_iter_pin it b of
          None \<Rightarrow> None
        | Some (None, b) \<Rightarrow> Some (Inl (code_of DB_PAGE_NOT_FOUND), it, b)
        | Some (Some (f, slot), b) \<Rightarrow>
            let d = frame_data b f; num_slots = page_header_get_num_tuples d; slot = next_live d num_slots slot
            in if slot < num_slots then
                 Some (Inr (\<lparr>rid_page = bi_page it, rid_slot = int slot\<rparr>,
                            (f, slot_get_offset d slot), slot_get_size d slot),
                       it\<lparr>bi_slot := slot + 1, bi_frame := Some f\<rparr>, b)
               else
                 case unpin (bi_page it) False b of
                   None \<Rightarrow> None
                 | Some b \<Rightarrow>
                     bpm_heap_iter_next
                       (it\<lparr>bi_page := page_header_get_next_page d, bi_slot := slot, bi_frame := None\<rparr>) b)"

definition bpm_heap_iter_destroy :: "bpm_heap_iter \<Rightarrow> bpm \<Rightarrow> (bpm_heap_iter \<times> bpm) option" where
  "bpm_heap_iter_destroy it b =
     (case bi_frame it of
        None \<Rightarrow> Some (it, b)
      | Some f \<Rightarrow> map_option (Pair (it\<lparr>bi_frame := None\<rparr>)) (unpin (bi_page it) False b))"

section \<open>What the pool holds\<close>

text \<open>The pool holds the contents V, and has a free frame for every page of V that is not in memory: no fetch has to
  evict (what an eviction does to the pool is \<open>bpm_evicted_frame_shared\<close>).\<close>

definition absent :: "(int \<Rightarrow> buffer option) \<Rightarrow> bpm \<Rightarrow> int set" where
  "absent V b = {p \<in> dom V. table_lookup b p = None}"

definition pool_in :: "(int \<Rightarrow> buffer option) \<Rightarrow> nat list \<Rightarrow> int list \<Rightarrow> bpm \<Rightarrow> bool" where
  "pool_in V fr dfl b \<longleftrightarrow>
     bpm_ok b fr dfl \<and> all_flagged b fr \<and> finite (dom V) \<and> card (absent V b) \<le> length fr \<and>
     (\<forall>p d. V p = Some d \<longrightarrow> data_page (disk_manager b) dfl p \<and> pool_view b p = Some d)"

definition pool_has :: "(int \<Rightarrow> buffer option) \<Rightarrow> bpm \<Rightarrow> bool" where
  "pool_has V b \<longleftrightarrow> (\<exists>fr dfl. pool_in V fr dfl b)"

definition pool_le :: "(int \<Rightarrow> buffer option) \<Rightarrow> bpm \<Rightarrow> bpm \<Rightarrow> bool" where
  "pool_le V b b' \<longleftrightarrow> pool_has V b \<and> pool_has V b' \<and> (\<forall>p f. V p \<noteq> None \<longrightarrow> table_lookup b p = Some f \<longrightarrow> table_lookup b' p = Some f)"

lemma pool_le_has: "pool_le V b b' \<Longrightarrow> pool_has V b \<and> pool_has V b'"
  and pool_le_lookup: "pool_le V b b' \<Longrightarrow> V p \<noteq> None \<Longrightarrow> table_lookup b p = Some f \<Longrightarrow> table_lookup b' p = Some f"
  and pool_le_refl: "pool_has V b \<Longrightarrow> pool_le V b b"
  and pool_le_trans: "pool_le V b b' \<Longrightarrow> pool_le V b' b'' \<Longrightarrow> pool_le V b b''"
  by (auto simp: pool_le_def)

lemma pool_in_view:
  assumes "pool_in V fr dfl b" "V p = Some d"
  shows "data_page (disk_manager b) dfl p" "pool_view b p = Some d" "in_range 32 p"
proof -
  show d: "data_page (disk_manager b) dfl p" "pool_view b p = Some d" using assms by (auto simp: pool_in_def)
  obtain ps where "disk_ok (disk_manager b) ps dfl" by (rule bpm_disk [of b fr dfl]) (use assms in \<open>simp add: pool_in_def\<close>)
  then show "in_range 32 p" using data_page_in_range d(1) by blast
qed

lemma pool_frame:
  assumes "pool_has V b" "V p = Some d" "table_lookup b p = Some f"
  shows "frame_data b f = d"
  using assms pool_in_view(2) [of V _ _ b p d] by (auto simp: pool_has_def pool_view_def frame_data_def)

lemma all_flagged_same_data:
  assumes fl: "all_flagged b fr" and len: "length (pages b) = pool_size b" and f: "f < pool_size b"
    and p: "pages b' = (pages b)[f := p]" "pool_size b' = pool_size b" "disk_manager b' = disk_manager b" "set fr' \<subseteq> set fr"
      "set fr \<subseteq> insert f (set fr')"
    and new: "is_dirty p \<or> page_at (disk_manager b) (page_pid p) = Some (page_data p)"
  shows "all_flagged b' fr'"
  unfolding all_flagged_def
proof (intro allI impI)
  fix g assume g: "g < pool_size b'" "g \<notin> set fr'" "\<not> is_dirty (pages b' ! g)"
  show "page_at (disk_manager b') (page_pid (pages b' ! g)) = Some (page_data (pages b' ! g))"
    using g p new fl len f by (cases "g = f") (auto simp: all_flagged_def)
qed

text \<open>Fetching a page of the view.\<close>

lemma pool_fetch:
  assumes h: "pool_has V b" and p: "V p = Some d"
  obtains f b' where "bpm_fetch_page p b = Some (Some f, b')" "pool_le V b b'" "table_lookup b' p = Some f" "frame_data b' f = d"
    "0 < pin_count (pages b' ! f)"
proof -
  obtain fr dfl where i: "pool_in V fr dfl b" using h by (auto simp: pool_has_def)
  then have ok: "bpm_ok b fr dfl" and fl: "all_flagged b fr" and fin: "finite (dom V)" and c: "card (absent V b) \<le> length fr"
    by (simp_all add: pool_in_def)
  note v = pool_in_view [OF i p]
  have len: "length (pages b) = pool_size b" using bpm_len [OF ok] by simp
  note result = that
  have fetched: ?thesis if "bpm_fetch_page p b = Some (Some f, b')" "table_lookup b' p = Some f" "pool_in V fr' dfl b'"
    "\<And>q g. q \<noteq> p \<Longrightarrow> V q \<noteq> None \<Longrightarrow> table_lookup b q = Some g \<Longrightarrow> table_lookup b' q = Some g"
    "table_lookup b p \<in> {None, Some f}" "0 < pin_count (pages b' ! f)" for f b' fr'
  proof (rule result [OF that(1) _ that(2)])
    have h': "pool_has V b'" using that(3) by (auto simp: pool_has_def)
    show "pool_le V b b'" unfolding pool_le_def
    proof (intro conjI allI impI)
      fix q g assume "V q \<noteq> None" "table_lookup b q = Some g"
      then show "table_lookup b' q = Some g" using that(2,4,5) by (cases "q = p") auto
    qed (rule h h')+
    show "frame_data b' f = d" by (rule pool_frame [OF h' p that(2)])
  qed (rule that(6))
  show ?thesis
  proof (cases "table_lookup b p")
    case (Some f)
    obtain b' where b': "bpm_fetch_page p b = Some (Some f, b')" "bpm_ok b' fr dfl" "disk_manager b' = disk_manager b"
      "\<And>q. in_range 32 q \<Longrightarrow> pool_view b' q = pool_view b q" "table_lookup b' = table_lookup b"
      "pages b' = (pages b)[f := (pages b ! f)\<lparr>pin_count := pin_count (pages b ! f) + 1\<rparr>]"
      using fetch_hit [OF ok v(3) Some] by blast
    have f: "f < pool_size b" "f \<notin> set fr" using bpm_lookup [OF ok v(3)] Some by auto
    have ps: "pool_size b' = pool_size b" using bpm_len [OF b'(2)] len by (simp add: b'(6))
    have "all_flagged b' fr"
      by (rule all_flagged_same_data [OF fl len f(1) b'(6) ps b'(3)]) (use fl f in \<open>auto simp: all_flagged_def\<close>)
    then have "pool_in V fr dfl b'"
      using b'(2,3,4) c fin pool_in_view [OF i] by (simp add: pool_in_def absent_def b'(5))
    moreover have "0 < pin_count (pages b' ! f)" using resident_facts(1) [OF ok f] f len by (simp add: b'(6))
    ultimately show ?thesis using fetched [OF b'(1)] Some b'(5) by simp
  next
    case None
    then have "p \<in> absent V b" using p by (auto simp: absent_def)
    moreover have fin': "finite (absent V b)" using fin by (simp add: absent_def)
    ultimately have "0 < card (absent V b)" by (auto simp: card_gt_0_iff)
    then obtain f fr' where fr: "fr = f # fr'" using c by (cases fr) auto
    obtain b' data where b': "bpm_fetch_page p b = Some (Some f, b')" "bpm_ok b' fr' dfl" "disk_manager b' = disk_manager b"
      "page_at (disk_manager b) p = Some data"
      "\<And>q. data_page (disk_manager b) dfl q \<Longrightarrow> pool_view b' q = pool_view b q" "table_lookup b' p = Some f"
      "pages b' ! f = \<lparr>page_data = data, page_pid = p, pin_count = 1, is_dirty = False\<rparr>" "pool_size b' = pool_size b"
      "pages b' = (pages b)[f := \<lparr>page_data = data, page_pid = p, pin_count = 1, is_dirty = False\<rparr>]"
      using fetch_free [OF ok [unfolded fr] None v(1)] by blast
    have f: "f < pool_size b" "f \<notin> set fr'" using bpm_frames [OF ok] unfolding fr by (auto simp: frames_ok_def list_ok_def)
    have "all_flagged b' fr'"
      by (rule all_flagged_same_data [OF fl len f(1) b'(9,8,3)]) (use b'(4) f in \<open>auto simp: fr\<close>)
    moreover have look: "table_lookup b' q = (if q = p then Some f else table_lookup b q)" if "V q \<noteq> None" for q
    proof (cases "q = p")
      case False
      from that obtain d' where d': "V q = Some d'" by blast
      note r = pool_in_view(3) [OF i d']
      have "table_lookup b' q = Some g \<longleftrightarrow> table_lookup b q = Some g" for g
        using bpm_lookup [OF ok r, of g] bpm_lookup [OF b'(2) r, of g] f False len
        by (cases "g = f") (auto simp: fr b'(8,9))
      then show ?thesis using False by (metis option.exhaust)
    qed (simp add: b'(6))
    have "absent V b' = absent V b - {p}" using look by (auto simp: absent_def split: if_splits)
    then have "card (absent V b') \<le> length fr'" using c fr \<open>p \<in> absent V b\<close> fin' by simp
    ultimately have "pool_in V fr' dfl b'"
      using b'(2,3) fin pool_in_view [OF i] b'(5) by (simp add: pool_in_def)
    then show ?thesis using fetched [OF b'(1,6)] look b'(7) None by simp
  qed
qed

text \<open>Unpinning it unchanged.\<close>

lemma unpin_table:
  assumes "bpm_unpin_page p dirty b = Some (rc, b')"
  shows "table_lookup b' = table_lookup b"
proof (rule table_lookup_cong)
  show "page_table b' = page_table b"
    using assms unfolding bpm_unpin_page_def Let_def by (auto split: option.splits if_splits)
qed

lemma pool_unpin:
  assumes h: "pool_has V b" and p: "V p = Some d"
  obtains b' where "unpin p False b = Some b'" "pool_le V b b'" "table_lookup b' = table_lookup b"
proof (cases "\<exists>f. table_lookup b p = Some f \<and> 0 < pin_count (pages b ! f)")
  case False
  then have "bpm_unpin_page p False b = Some (-1, b)"
    unfolding bpm_unpin_page_def by (cases "table_lookup b p") (simp_all add: Let_def not_less)
  then have "unpin p False b = Some b" by (simp add: unpin_def)
  from that [OF this pool_le_refl [OF h]] show ?thesis by simp
next
  case True
  then obtain f where f: "table_lookup b p = Some f" "0 < pin_count (pages b ! f)" by blast
  obtain fr dfl where i: "pool_in V fr dfl b" using h by (auto simp: pool_has_def)
  then have ok: "bpm_ok b fr dfl" and fl: "all_flagged b fr" and fin: "finite (dom V)" and c: "card (absent V b) \<le> length fr"
    by (simp_all add: pool_in_def)
  note r = pool_in_view(3) [OF i p]
  have f': "f < pool_size b" "f \<notin> set fr" "page_pid (pages b ! f) = p" using bpm_lookup [OF ok r] f(1) by auto
  have len: "length (pages b) = pool_size b" using bpm_len [OF ok] by simp
  have mark: "False \<or> is_dirty (pages b ! f) \<or> page_at (disk_manager b) p = Some (page_data (pages b ! f))"
    using fl f' unfolding all_flagged_def by blast
  obtain b' where b': "bpm_unpin_page p False b = Some (0, b')" "bpm_ok b' fr dfl" "disk_manager b' = disk_manager b"
    "\<And>q. in_range 32 q \<Longrightarrow> pool_view b' q = pool_view b q"
    "pages b' = (pages b)[f := (pages b ! f)\<lparr>pin_count := pin_count (pages b ! f) - 1, is_dirty := is_dirty (pages b ! f) \<or> False\<rparr>]"
    using unpin_resident [OF ok r f mark] by blast
  have ps: "pool_size b' = pool_size b" using bpm_len [OF b'(2)] len by (simp add: b'(5))
  have look: "table_lookup b' = table_lookup b" by (rule unpin_table [OF b'(1)])
  have "all_flagged b' fr"
    by (rule all_flagged_same_data [OF fl len f'(1) b'(5) ps b'(3)]) (use mark f'(3) in \<open>auto\<close>)
  then have "pool_in V fr dfl b'"
    using b'(2-4) c fin pool_in_view [OF i] by (simp add: pool_in_def absent_def look)
  then have "pool_le V b b'" using h look by (auto simp: pool_le_def pool_has_def)
  moreover have "unpin p False b = Some b'" using b'(1) by (simp add: unpin_def)
  ultimately show ?thesis using that look by blast
qed

text \<open>Writing through the pointer of a pinned page of the view, and unpinning it dirty.\<close>

lemma frame_write_same: "f < length (pages b) \<Longrightarrow> frame_write f (frame_data b f) b = b"
  by (simp add: frame_write_def frame_data_def set_page_def)

lemma frame_write_data: "f < length (pages b) \<Longrightarrow> frame_data (frame_write f d b) f = d"
  by (simp add: frame_write_def frame_data_def)

lemma pool_write:
  assumes h: "pool_has V b" and p: "V p = Some d0" and f: "table_lookup b p = Some f" "0 < pin_count (pages b ! f)"
  obtains b' where "unpin p True (frame_write f d b) = Some b'" "pool_has (V(p \<mapsto> d)) b'" "table_lookup b' = table_lookup b"
proof -
  obtain fr dfl where i: "pool_in V fr dfl b" using h by (auto simp: pool_has_def)
  then have ok: "bpm_ok b fr dfl" and fl: "all_flagged b fr" and fin: "finite (dom V)" and c: "card (absent V b) \<le> length fr"
    by (simp_all add: pool_in_def)
  note r = pool_in_view(3) [OF i p]
  have f': "f < pool_size b" "f \<notin> set fr" "page_pid (pages b ! f) = p" using bpm_lookup [OF ok r] f(1) by auto
  have len: "length (pages b) = pool_size b" using bpm_len [OF ok] by simp
  let ?p = "(pages b ! f)\<lparr>page_data := d\<rparr>"
  let ?b = "frame_write f d b"
  have pp: "page_pid ?p = page_pid (pages b ! f)" "0 \<le> pin_count ?p" "pin_count ?p \<noteq> 0" using f(2) by simp_all
  have "f \<notin> lru_frames (replacer_of b)" using bpm_lru(2) [OF ok, of f] f(2) by simp
  then have lf: "lru_frames (replacer_of b) = (if pin_count ?p = 0 then insert f (lru_frames (replacer_of b)) else lru_frames (replacer_of b) - {f})"
    using pp(3) by simp
  have cl: "pin_count ?p = 0 \<and> \<not> is_dirty ?p \<longrightarrow> page_at (disk_manager b) (page_pid ?p) = Some (page_data ?p)" using pp(3) by blast
  have fw: "(set_page f ?p b)\<lparr>replacer_of := replacer_of b\<rparr> = ?b" by (simp add: frame_write_def set_page_def)
  note u = frame_update [OF ok f'(1,2) pp(1,2) bpm_lru(1) [OF ok] lf cl, unfolded fw]
  have look1: "table_lookup ?b = table_lookup b" by (rule table_lookup_cong) (simp add: frame_write_def)
  have pages1: "pages ?b ! f = ?p" using f'(1) len by (simp add: frame_write_def)
  have pin1: "0 < pin_count (pages ?b ! f)" using f(2) pages1 by simp
  obtain b' where b': "bpm_unpin_page p True ?b = Some (0, b')" "bpm_ok b' fr dfl" "disk_manager b' = disk_manager ?b"
    "\<And>q. in_range 32 q \<Longrightarrow> pool_view b' q = pool_view ?b q"
    "pages b' = (pages ?b)[f := (pages ?b ! f)\<lparr>pin_count := pin_count (pages ?b ! f) - 1, is_dirty := is_dirty (pages ?b ! f) \<or> True\<rparr>]"
    using unpin_resident [OF u(1) r _ pin1, of True] f(1) unfolding look1 by blast
  have dm: "disk_manager b' = disk_manager b" by (simp add: b'(3) frame_write_def)
  have ps: "pool_size b' = pool_size b" using bpm_len [OF b'(2)] len by (simp add: b'(5) frame_write_def)
  have look: "table_lookup b' = table_lookup b" using unpin_table [OF b'(1)] look1 by simp
  have "all_flagged b' fr"
    by (rule all_flagged_same_data [OF fl len f'(1) _ ps dm]) (auto simp: b'(5) frame_write_def)
  moreover have "dom (V(p \<mapsto> d)) = dom V" using p by auto
  moreover have "pool_view b' q = Some e" if "(V(p \<mapsto> d)) q = Some e" for q e
  proof -
    have q: "in_range 32 q" using that pool_in_view(3) [OF i] r by (auto split: if_splits)
    show ?thesis using that u(2) [OF q] b'(4) [OF q] f'(3) pool_in_view(2) [OF i] by (auto split: if_splits)
  qed
  moreover have "data_page (disk_manager b) dfl q" if "(V(p \<mapsto> d)) q = Some e" for q e
    using that pool_in_view(1) [OF i] p by (auto split: if_splits)
  ultimately have "pool_in (V(p \<mapsto> d)) fr dfl b'"
    using b'(2) c fin by (auto simp: pool_in_def absent_def look dm)
  then show ?thesis using that [of b'] b'(1) look by (auto simp: unpin_def pool_has_def)
qed

text \<open>Any contents of a page.\<close>

lemma pool_replace:
  assumes h: "pool_has V b" and p: "V p = Some d0"
  obtains b' where "pool_has (V(p \<mapsto> d)) b'"
proof -
  obtain f b1 where b1: "pool_le V b b1" "table_lookup b1 p = Some f" "0 < pin_count (pages b1 ! f)"
    by (rule pool_fetch [OF h p])
  have "pool_has V b1" using pool_le_has [OF b1(1)] by (rule conjunct2)
  then show ?thesis by (rule pool_write [where d = d]) (rule p b1(2,3) that, assumption?)+
qed

end
