(* ===== verification/Row_Source.thy ===== *)
theory Row_Source
  imports Prelude_Db
begin

text \<open>
  The interface between the executors, the function pointers \<open>init\<close>, \<open>next\<close> and \<open>close\<close> of
  \<open>executor_t\<close> (\<open>src/executor/executor.h\<close>), and the contract that an executor relies on in its children.
  The executors of a tree share a world (the buffer pool) and each has a state of its own.

  \<open>source\<close> says which rows an executor has still to deliver. It holds in every later world, whatever the other
  executors of the tree do in between, where \<open>le\<close> relates a world to its later ones; the executor can be
  closed at any time, and its state keeps the property J.
\<close>

type_synonym ('w, 'c, 'r) next_fn = "'w \<Rightarrow> 'c \<Rightarrow> ('w \<times> 'c \<times> (int + 'r)) option"
type_synonym ('w, 'c) init_fn = "'w \<Rightarrow> 'c \<Rightarrow> ('w \<times> 'c \<times> int) option"
type_synonym ('w, 'c) close_fn = "'w \<Rightarrow> 'c \<Rightarrow> ('w \<times> 'c) option"

definition closable :: "('w \<Rightarrow> 'w \<Rightarrow> bool) \<Rightarrow> ('c \<Rightarrow> bool) \<Rightarrow> ('w, 'c) close_fn \<Rightarrow> 'w \<Rightarrow> 'c \<Rightarrow> bool" where
  "closable le J cls w c \<longleftrightarrow> J c \<and> (\<forall>w'. le w w' \<longrightarrow> (\<exists>w'' c'. cls w' c = Some (w'', c') \<and> le w' w'' \<and> J c'))"

primrec source :: "('w \<Rightarrow> 'w \<Rightarrow> bool) \<Rightarrow> ('c \<Rightarrow> bool) \<Rightarrow> ('w, 'c, 'r) next_fn \<Rightarrow> ('w, 'c) close_fn \<Rightarrow> 'w \<Rightarrow> 'c \<Rightarrow> 'r list \<Rightarrow> bool" where
  "source le J nxt cls w c [] \<longleftrightarrow>
     closable le J cls w c \<and>
     (\<forall>w'. le w w' \<longrightarrow> (\<exists>w'' c' rc. nxt w' c = Some (w'', c', Inl rc) \<and> le w' w'' \<and> closable le J cls w'' c'))"
| "source le J nxt cls w c (r # rs) \<longleftrightarrow>
     closable le J cls w c \<and>
     (\<forall>w'. le w w' \<longrightarrow> (\<exists>w'' c'. nxt w' c = Some (w'', c', Inr r) \<and> le w' w'' \<and> source le J nxt cls w'' c' rs))"

text \<open>An executor that delivers the rows after every \<open>init\<close>.\<close>

definition restarts :: "('w \<Rightarrow> 'w \<Rightarrow> bool) \<Rightarrow> ('c \<Rightarrow> bool) \<Rightarrow> ('w, 'c) init_fn \<Rightarrow> ('w, 'c, 'r) next_fn \<Rightarrow> ('w, 'c) close_fn \<Rightarrow> 'r list \<Rightarrow> bool" where
  "restarts le J ini nxt cls rs \<longleftrightarrow>
     (\<forall>w c. le w w \<longrightarrow> J c \<longrightarrow> (\<exists>w' c'. ini w c = Some (w', c', code_of DB_OK) \<and> le w w' \<and> source le J nxt cls w' c' rs))"

locale worlds =
  fixes le :: "'w \<Rightarrow> 'w \<Rightarrow> bool"
  assumes le_trans: "le w w' \<Longrightarrow> le w' w'' \<Longrightarrow> le w w''"
    and le_refl: "le w w' \<Longrightarrow> le w' w'"
begin

lemma closable_later: "closable le J cls w c \<Longrightarrow> le w w' \<Longrightarrow> closable le J cls w' c"
  unfolding closable_def using le_trans by blast

lemma source_later: "source le J nxt cls w c rs \<Longrightarrow> le w w' \<Longrightarrow> source le J nxt cls w' c rs"
  by (cases rs; simp only: source.simps; metis closable_later le_trans)

lemma source_closable: "source le J nxt cls w c rs \<Longrightarrow> closable le J cls w c"
  by (cases rs) simp_all

lemma closableE:
  assumes "closable le J cls w c" "le w w'"
  obtains w'' c' where "cls w' c = Some (w'', c')" "le w' w''" "J c'"
  using assms unfolding closable_def by blast

lemma source_Nil:
  assumes "source le J nxt cls w c []" "le w w'"
  obtains w'' c' rc where "nxt w' c = Some (w'', c', Inl rc)" "le w' w''" "closable le J cls w'' c'"
  using assms by auto

lemma source_Cons:
  assumes "source le J nxt cls w c (r # rs)" "le w w'"
  obtains w'' c' where "nxt w' c = Some (w'', c', Inr r)" "le w' w''" "source le J nxt cls w'' c' rs"
  using assms by auto

lemma restartsE:
  assumes "restarts le J ini nxt cls rs" "le w w" "J c"
  obtains w' c' where "ini w c = Some (w', c', code_of DB_OK)" "le w w'" "source le J nxt cls w' c' rs"
  using assms unfolding restarts_def by blast

end

end
