(* ===== verification/Executors.thy ===== *)
theory Executors
  imports Expr_Eval Bpm_Heap Row_Source
begin

text \<open>
  The executors of \<open>src/executor/*_executor.c\<close>. An executor is its \<open>next\<close> (and \<open>init\<close>, \<open>close\<close>) function, over
  the state that \<open>executor_t\<close> keeps behind its \<open>void*\<close> and the \<open>next\<close> function of its children; a loop over a
  child is a recursive call. A result is None where the code leaves defined behaviour or does not return,
  \<open>Inl rc\<close> for a return value other than DB_OK, \<open>Inr t\<close> for a row.

  Rows are values here. Memory shows where it is shared: a SORT hands out copies of its structures, whose values
  its \<open>close\<close> frees, so that an executor which destroys such a row (\<open>tuple_destroy\<close>) makes that
  \<open>close\<close> free it twice. For that, \<open>next\<close> functions that destroy rows of a child have a parameter ds,
  what the state of the child becomes when one of its rows is destroyed. Nothing else about the memory of a row is modelled, nor a
  failing allocation. The functions of the C library that the executors use are the parameter L.
\<close>

section \<open>The C library\<close>

record libc =
  c_strcmp :: strcmp_fn
  c_strtod :: "cstring \<Rightarrow> double \<times> cstring"
  c_fmt_g :: "double \<Rightarrow> cstring"
  c_qsort :: "(tuple \<Rightarrow> tuple \<Rightarrow> int) \<Rightarrow> tuple list \<Rightarrow> tuple list"

section \<open>Rows\<close>

definition blank_tuple :: tuple where
  "blank_tuple = \<lparr>tup_values = [], num_values = 0, tup_rid = INVALID_RID\<rparr>"

text \<open>\<open>tuple_create\<close> of a local tuple; with no column it fails and the tuple stays uninitialised.\<close>

definition new_tuple :: "int \<Rightarrow> tuple option" where
  "new_tuple n = (case tuple_create blank_tuple n of (rc, t) \<Rightarrow> if rc = DB_OK then Some t else None)"

text \<open>\<open>tuple_set_value(out, i, \<dots>)\<close> for consecutive columns from i on.\<close>

fun set_values :: "tuple \<Rightarrow> nat \<Rightarrow> val list \<Rightarrow> tuple" where
  "set_values t i [] = t"
| "set_values t i (v # vs) = set_values (snd (tuple_set_value t (int i) v)) (i + 1) vs"

definition row_values :: "tuple \<Rightarrow> val list" where
  "row_values t = map (\<lambda>i. tup_values t ! i) [0..<nat (num_values t)]"

text \<open>A predicate lets a row pass when it evaluates to the BOOLEAN true; \<open>eval_or_null\<close> is an evaluation whose error
  is ignored, which leaves the value NULL.\<close>

definition passes :: "libc \<Rightarrow> expr \<Rightarrow> tuple \<Rightarrow> schema option \<Rightarrow> bool option" where
  "passes L e t s =
     (case expr_evaluate (c_strcmp L) e (Some t) s of
        None \<Rightarrow> None
      | Some (Inl rc) \<Rightarrow> Some False
      | Some (Inr v) \<Rightarrow> Some (v = V_Bool True))"

definition eval_or_null :: "libc \<Rightarrow> expr \<Rightarrow> tuple \<Rightarrow> schema option \<Rightarrow> val option" where
  "eval_or_null L e t s =
     (case expr_evaluate (c_strcmp L) e (Some t) s of
        None \<Rightarrow> None
      | Some (Inl rc) \<Rightarrow> Some value_make_null
      | Some (Inr v) \<Rightarrow> Some v)"

abbreviation (input) end_of_stream :: "int + 'a" where
  "end_of_stream \<equiv> Inl (code_of DB_PAGE_NOT_FOUND)"

section \<open>Sequential scan\<close>

definition scan_passes :: "libc \<Rightarrow> expr option \<Rightarrow> tuple \<Rightarrow> schema \<Rightarrow> bool option" where
  "scan_passes L pred t s = (case pred of None \<Rightarrow> Some True | Some e \<Rightarrow> passes L e t (Some s))"

partial_function (option) seq_scan_next :: "libc \<Rightarrow> schema \<Rightarrow> expr option \<Rightarrow> (bpm, bpm_heap_iter, tuple) next_fn" where
  "seq_scan_next L s pred b it =
     (case bpm_heap_iter_next it b of
        None \<Rightarrow> None
      | Some (Inl rc, it, b) \<Rightarrow> Some (b, it, end_of_stream)
      | Some (Inr (rid, data, sz), it, b) \<Rightarrow>
          (case tuple_deserialize blank_tuple s (ptr_buffer b data) sz of
             None \<Rightarrow> None
           | Some (rc, t) \<Rightarrow>
               if rc \<noteq> DB_OK then seq_scan_next L s pred b it
               else
                 let t = t\<lparr>tup_rid := rid\<rparr> in
                 case scan_passes L pred t s of
                   None \<Rightarrow> None
                 | Some pass \<Rightarrow> if pass then Some (b, it, Inr t) else seq_scan_next L s pred b it))"

section \<open>Filter, projection, limit\<close>

partial_function (option) filter_next ::
    "libc \<Rightarrow> expr \<Rightarrow> schema option \<Rightarrow> ('w, 'c, tuple) next_fn \<Rightarrow> ('c \<Rightarrow> 'c) \<Rightarrow> ('w, 'c, tuple) next_fn" where
  "filter_next L pred s nx ds w c =
     (case nx w c of
        None \<Rightarrow> None
      | Some (w, c, Inl rc) \<Rightarrow> Some (w, c, end_of_stream)
      | Some (w, c, Inr t) \<Rightarrow>
          (case passes L pred t s of
             None \<Rightarrow> None
           | Some pass \<Rightarrow> if pass then Some (w, c, Inr t) else filter_next L pred s nx ds w (ds c)))"

definition project_row :: "libc \<Rightarrow> expr list \<Rightarrow> schema option \<Rightarrow> tuple \<Rightarrow> tuple option" where
  "project_row L es s t =
     (case new_tuple (int (length es)) of
        None \<Rightarrow> None
      | Some out \<Rightarrow> map_option (set_values out 0) (those (map (\<lambda>e. eval_or_null L e t s) es)))"

definition project_next ::
    "libc \<Rightarrow> expr list \<Rightarrow> schema option \<Rightarrow> ('w, 'c, tuple) next_fn \<Rightarrow> ('c \<Rightarrow> 'c) \<Rightarrow> ('w, 'c, tuple) next_fn" where
  "project_next L es child_schema nx ds w c =
     (case nx w c of
        None \<Rightarrow> None
      | Some (w, c, Inl rc) \<Rightarrow> Some (w, c, end_of_stream)
      | Some (w, c, Inr t) \<Rightarrow> map_option (\<lambda>out. (w, ds c, Inr out)) (project_row L es child_schema t))"

record limit_state =
  emitted :: int
  skipped :: int

partial_function (option) limit_next ::
    "int \<Rightarrow> int \<Rightarrow> ('w, 'c, tuple) next_fn \<Rightarrow> ('c \<Rightarrow> 'c) \<Rightarrow> ('w, limit_state \<times> 'c, tuple) next_fn" where
  "limit_next limit offset nx ds w sc =
     (case sc of (s, c) \<Rightarrow>
        if limit \<ge> 0 \<and> emitted s \<ge> limit then Some (w, (s, c), end_of_stream)
        else
          case nx w c of
            None \<Rightarrow> None
          | Some (w, c, Inl rc) \<Rightarrow> Some (w, (s, c), end_of_stream)
          | Some (w, c, Inr t) \<Rightarrow>
              if skipped s < offset then limit_next limit offset nx ds w (s\<lparr>skipped := skipped s + 1\<rparr>, ds c)
              else Some (w, (s\<lparr>emitted := emitted s + 1\<rparr>, c), Inr t))"

text \<open>The loop \<open>while (child->next(child, &tuple) == DB_OK)\<close> that collects the rows of a child.\<close>

partial_function (option) drain :: "('w, 'c, 'r) next_fn \<Rightarrow> 'w \<Rightarrow> 'c \<Rightarrow> ('w \<times> 'c \<times> 'r list) option" where
  "drain nx w c =
     (case nx w c of
        None \<Rightarrow> None
      | Some (w, c, Inl rc) \<Rightarrow> Some (w, c, [])
      | Some (w, c, Inr t) \<Rightarrow> 
          Option.bind (drain nx w c) (\<lambda>(w, c, ts). Some (w, c, t # ts)))"

section \<open>Sort\<close>

definition key_compare :: "libc \<Rightarrow> val \<Rightarrow> val \<Rightarrow> int" where
  "key_compare L va vb =
     (if va = V_Null \<and> vb = V_Null then 0
      else if va = V_Null then 1
      else if vb = V_Null then -1
      else value_compare (c_strcmp L) va vb)"

text \<open>None also where \<open>-cmp\<close> would overflow.\<close>

fun sort_compare :: "libc \<Rightarrow> order_by_item list \<Rightarrow> schema option \<Rightarrow> tuple \<Rightarrow> tuple \<Rightarrow> int option" where
  "sort_compare L [] s ta tb = Some 0"
| "sort_compare L (item # items) s ta tb =
     (case (eval_or_null L (ord_expr item) ta s, eval_or_null L (ord_expr item) tb s) of
        (Some va, Some vb) \<Rightarrow>
          let cmp = key_compare L va vb
          in if cmp \<noteq> 0 then
               if ord_ascending item then Some cmp else if cmp = - (2 ^ 31) then None else Some (- cmp)
             else sort_compare L items s ta tb
      | _ \<Rightarrow> None)"

text \<open>The comparison function may be called on any two rows.\<close>

definition sort_tuples :: "libc \<Rightarrow> order_by_item list \<Rightarrow> schema option \<Rightarrow> tuple list \<Rightarrow> tuple list option" where
  "sort_tuples L items s ts =
     (if list_all (\<lambda>a. list_all (\<lambda>b. sort_compare L items s a b \<noteq> None) ts) ts
      then Some (c_qsort L (\<lambda>a b. the (sort_compare L items s a b)) ts)
      else None)"

text \<open>\<open>lost\<close> says that a row handed out since the last \<open>init\<close> has been destroyed.\<close>

record sort_state =
  materialized :: bool
  tuples :: "tuple list"
  emit_index :: nat
  lost :: bool

text \<open>The child is closed before the rows are compared; lent says that its \<open>close\<close> frees the rows.\<close>

definition sort_materialize ::
    "libc \<Rightarrow> order_by_item list \<Rightarrow> schema option \<Rightarrow> bool \<Rightarrow> ('w, 'c, tuple) next_fn \<Rightarrow> ('w, 'c) close_fn \<Rightarrow>
     'w \<Rightarrow> sort_state \<Rightarrow> 'c \<Rightarrow> ('w \<times> sort_state \<times> 'c) option" where
  "sort_materialize L items schema lent nx cl w s c =
     (case drain nx w c of
        None \<Rightarrow> None
      | Some (w, c, ts) \<Rightarrow>
          (case cl w c of
             None \<Rightarrow> None
           | Some (w, c) \<Rightarrow>
               map_option (\<lambda>ts. (w, s\<lparr>materialized := True, tuples := ts, emit_index := 0\<rparr>, c))
                 (if ts = [] then Some [] else if lent then None else sort_tuples L items schema ts)))"

definition sort_next ::
    "libc \<Rightarrow> order_by_item list \<Rightarrow> schema option \<Rightarrow> bool \<Rightarrow> ('w, 'c, tuple) next_fn \<Rightarrow> ('w, 'c) close_fn \<Rightarrow>
     ('w, sort_state \<times> 'c, tuple) next_fn" where
  "sort_next L items schema lent nx cl w sc =
     (case sc of (s, c) \<Rightarrow>
        case (if materialized s then Some (w, s, c) else sort_materialize L items schema lent nx cl w s c) of
          None \<Rightarrow> None
        | Some (w, s, c) \<Rightarrow>
            if emit_index s \<ge> length (tuples s) then Some (w, (s, c), end_of_stream)
            else Some (w, (s\<lparr>emit_index := emit_index s + 1\<rparr>, c), Inr (tuples s ! emit_index s)))"

text \<open>It destroys every row it has handed out; None where one of them has been destroyed before.\<close>

definition sort_close :: "sort_state \<Rightarrow> sort_state option" where
  "sort_close s =
     (if materialized s then if lost s then None else Some (s\<lparr>tuples := [], materialized := False\<rparr>) else Some s)"

section \<open>Nested-loop join\<close>

definition combine_tuples :: "tuple \<Rightarrow> tuple \<Rightarrow> tuple option" where
  "combine_tuples outer inner =
     map_option (\<lambda>out. set_values (set_values out 0 (row_values outer)) (nat (num_values outer)) (row_values inner))
       (new_tuple (num_values outer + num_values inner))"

definition join_passes :: "libc \<Rightarrow> expr option \<Rightarrow> tuple \<Rightarrow> schema option \<Rightarrow> bool option" where
  "join_passes L cond t s = (case cond of None \<Rightarrow> Some True | Some e \<Rightarrow> passes L e t s)"

text \<open>The state is the current outer row, there when \<open>has_outer\<close> is set, and the states of the children. The type of the
  join is never looked at. A child is its \<open>next\<close> function with what the destruction of one of its rows does.\<close>

partial_function (option) nl_join_next ::
    "libc \<Rightarrow> expr option \<Rightarrow> schema option \<Rightarrow> ('w, 'c, tuple) next_fn \<times> ('c \<Rightarrow> 'c) \<Rightarrow>
     ('w, 'd) init_fn \<Rightarrow> ('w, 'd, tuple) next_fn \<times> ('d \<Rightarrow> 'd) \<Rightarrow> ('w, 'd) close_fn \<Rightarrow> ('w, tuple option \<times> 'c \<times> 'd, tuple) next_fn" where
  "nl_join_next L cond s outer inner_init inner inner_close w st =
     (case st of
        (None, c, d) \<Rightarrow>
          (case fst outer w c of
             None \<Rightarrow> None
           | Some (w, c, Inl rc) \<Rightarrow> Some (w, (None, c, d), end_of_stream)
           | Some (w, c, Inr t) \<Rightarrow>
               (case inner_close w d of
                  None \<Rightarrow> None
                | Some (w, d) \<Rightarrow>
                    (case inner_init w d of
                       None \<Rightarrow> None
                     | Some (w, d, rc) \<Rightarrow>
                         nl_join_next L cond s outer inner_init inner inner_close w (Some t, c, d))))
      | (Some t, c, d) \<Rightarrow>
          (case fst inner w d of
             None \<Rightarrow> None
           | Some (w, d, Inl rc) \<Rightarrow>
               nl_join_next L cond s outer inner_init inner inner_close w (None, snd outer c, d)
           | Some (w, d, Inr u) \<Rightarrow>
               (case combine_tuples t u of
                  None \<Rightarrow> None
                | Some combined \<Rightarrow>
                    (case join_passes L cond combined s of
                       None \<Rightarrow> None
                     | Some pass \<Rightarrow>
                         if pass then Some (w, (Some t, c, snd inner d), Inr combined)
                         else nl_join_next L cond s outer inner_init inner inner_close w
                                (Some t, c, snd inner d)))))"

section \<open>Aggregation\<close>

datatype agg_kind = AGG_COUNT | AGG_SUM | AGG_AVG | AGG_MIN | AGG_MAX

record agg_state =
  agg_n :: int
  agg_sum :: val
  agg_min :: val
  agg_max :: val
  has_value :: bool

record agg_group =
  group_key :: "val list"
  agg_states :: "agg_state list"

definition get_agg_kind :: "expr \<Rightarrow> agg_kind" where
  "get_agg_kind e =
     (case e of
        EXPR_FUNCTION_CALL name args star \<Rightarrow>
          if c_text name = cstr ''COUNT'' then AGG_COUNT
          else if c_text name = cstr ''SUM'' then AGG_SUM
          else if c_text name = cstr ''AVG'' then AGG_AVG
          else if c_text name = cstr ''MIN'' then AGG_MIN
          else if c_text name = cstr ''MAX'' then AGG_MAX
          else AGG_COUNT
      | _ \<Rightarrow> AGG_COUNT)"

text \<open>\<open>strcmp\<close> on a missing string is undefined.\<close>

fun key_value_equal :: "libc \<Rightarrow> val \<Rightarrow> val \<Rightarrow> bool option" where
  "key_value_equal L (V_Int a) (V_Int b) = Some (a = b)"
| "key_value_equal L (V_Float a) (V_Float b) = Some (dbl_eq a b)"
| "key_value_equal L (V_Bool a) (V_Bool b) = Some (a = b)"
| "key_value_equal L (V_Varchar a) (V_Varchar b) =
     (case (a, b) of (Some x, Some y) \<Rightarrow> Some (c_strcmp L x y = 0) | _ \<Rightarrow> None)"
| "key_value_equal L V_Null V_Null = Some True"
| "key_value_equal L _ _ = Some False"

fun group_key_equal :: "libc \<Rightarrow> val list \<Rightarrow> val list \<Rightarrow> bool option" where
  "group_key_equal L [] [] = Some True"
| "group_key_equal L (a # as) (b # bs) =
     (case key_value_equal L a b of
        None \<Rightarrow> None
      | Some eq \<Rightarrow> if eq then group_key_equal L as bs else Some False)"
| "group_key_equal L _ _ = Some False"

text \<open>The index of the first group with the key, or the number of groups.\<close>

fun find_group :: "libc \<Rightarrow> agg_group list \<Rightarrow> val list \<Rightarrow> nat option" where
  "find_group L [] key = Some 0"
| "find_group L (g # gs) key =
     (case group_key_equal L (group_key g) key of
        None \<Rightarrow> None
      | Some eq \<Rightarrow> if eq then Some 0 else map_option Suc (find_group L gs key))"

definition new_agg :: agg_state where
  "new_agg = \<lparr>agg_n = 0, agg_sum = V_Null, agg_min = V_Null, agg_max = V_Null, has_value = False\<rparr>"

text \<open>The sum of values that cannot be added is NULL.\<close>

definition add_or_null :: "val \<Rightarrow> val \<Rightarrow> val option" where
  "add_or_null a b =
     (case value_add a b of None \<Rightarrow> None | Some (Inl rc) \<Rightarrow> Some value_make_null | Some (Inr v) \<Rightarrow> Some v)"

definition update_agg :: "libc \<Rightarrow> agg_state \<Rightarrow> val \<Rightarrow> agg_kind \<Rightarrow> agg_state option" where
  "update_agg L agg v kind =
     (let agg = agg\<lparr>agg_n := agg_n agg + 1\<rparr> in
      if v = V_Null then Some agg
      else if \<not> has_value agg then Some (agg\<lparr>agg_min := v, agg_max := v, agg_sum := v, has_value := True\<rparr>)
      else
        let agg = (if kind \<in> {AGG_MIN, AGG_MAX, AGG_AVG, AGG_SUM} then
                     let agg = (if value_compare (c_strcmp L) v (agg_min agg) < 0 then agg\<lparr>agg_min := v\<rparr> else agg)
                     in if value_compare (c_strcmp L) v (agg_max agg) > 0 then agg\<lparr>agg_max := v\<rparr> else agg
                   else agg)
        in if kind \<in> {AGG_SUM, AGG_AVG}
           then map_option (\<lambda>sum. agg\<lparr>agg_sum := sum\<rparr>) (add_or_null (agg_sum agg) v)
           else Some agg)"

text \<open>The value that a row contributes to an aggregate.\<close>

definition agg_input :: "libc \<Rightarrow> expr \<Rightarrow> tuple \<Rightarrow> schema option \<Rightarrow> val option" where
  "agg_input L e t s =
     (case e of
        EXPR_FUNCTION_CALL name args star \<Rightarrow>
          if get_agg_kind e = AGG_COUNT \<and> star then Some (value_make_integer 1)
          else (case args of [] \<Rightarrow> Some value_make_null | arg # _ \<Rightarrow> eval_or_null L arg t s)
      | _ \<Rightarrow> Some value_make_null)"

definition update_aggs :: "libc \<Rightarrow> expr list \<Rightarrow> schema option \<Rightarrow> tuple \<Rightarrow> agg_state list \<Rightarrow> agg_state list option" where
  "update_aggs L aggs s t states =
     those (map2 (\<lambda>e agg. Option.bind (agg_input L e t s) (\<lambda>v. update_agg L agg v (get_agg_kind e))) aggs states)"

text \<open>The body of the loop of \<open>materialize\<close>. With no grouping the key is one NULL.\<close>

definition agg_row :: "libc \<Rightarrow> expr list \<Rightarrow> expr list \<Rightarrow> schema option \<Rightarrow> tuple \<Rightarrow> agg_group list \<Rightarrow> agg_group list option" where
  "agg_row L group_by aggs s t groups =
     (case (if group_by = [] then Some [V_Null] else those (map (\<lambda>e. eval_or_null L e t s) group_by)) of
        None \<Rightarrow> None
      | Some key \<Rightarrow>
          (case find_group L groups key of
             None \<Rightarrow> None
           | Some i \<Rightarrow>
               let groups = (if i < length groups then groups
                             else groups @ [\<lparr>group_key = key, agg_states = replicate (length aggs) new_agg\<rparr>])
               in map_option (\<lambda>states. groups[i := (groups ! i)\<lparr>agg_states := states\<rparr>])
                    (update_aggs L aggs s t (agg_states (groups ! i)))))"

fun agg_rows :: "libc \<Rightarrow> expr list \<Rightarrow> expr list \<Rightarrow> schema option \<Rightarrow> tuple list \<Rightarrow> agg_group list \<Rightarrow> agg_group list option" where
  "agg_rows L group_by aggs s [] groups = Some groups"
| "agg_rows L group_by aggs s (t # ts) groups = Option.bind (agg_row L group_by aggs s t groups) (agg_rows L group_by aggs s ts)"

definition agg_result :: "expr \<Rightarrow> agg_state \<Rightarrow> val" where
  "agg_result e agg =
     (case get_agg_kind e of
        AGG_COUNT \<Rightarrow> value_make_integer (agg_n agg)
      | AGG_SUM \<Rightarrow> if has_value agg then agg_sum agg else value_make_null
      | AGG_AVG \<Rightarrow>
          if has_value agg \<and> agg_n agg > 0 then
            case agg_sum agg of
              V_Int i \<Rightarrow> value_make_float (dbl_div (dbl_of_int i) (dbl_of_int (agg_n agg)))
            | V_Float d \<Rightarrow> value_make_float (dbl_div d (dbl_of_int (agg_n agg)))
            | _ \<Rightarrow> value_make_null
          else value_make_null
      | AGG_MIN \<Rightarrow> if has_value agg then agg_min agg else value_make_null
      | AGG_MAX \<Rightarrow> if has_value agg then agg_max agg else value_make_null)"

definition agg_output :: "expr list \<Rightarrow> expr list \<Rightarrow> agg_group \<Rightarrow> tuple option" where
  "agg_output group_by aggs g =
     map_option (\<lambda>out. set_values (set_values out 0 (take (length group_by) (group_key g))) (length group_by)
                         (map2 agg_result aggs (agg_states g)))
       (new_tuple (int (length group_by + length aggs)))"

record agg_exec_state =
  agg_done :: bool
  agg_groups :: "agg_group list"
  agg_index :: nat

text \<open>Every row is destroyed when it has been counted; the state of the child does not depend on how many are.\<close>

definition agg_materialize ::
    "libc \<Rightarrow> expr list \<Rightarrow> expr list \<Rightarrow> schema option \<Rightarrow> ('w, 'c, tuple) next_fn \<Rightarrow> ('c \<Rightarrow> 'c) \<Rightarrow> ('w, 'c) close_fn \<Rightarrow>
     'w \<Rightarrow> agg_exec_state \<Rightarrow> 'c \<Rightarrow> ('w \<times> agg_exec_state \<times> 'c) option" where
  "agg_materialize L group_by aggs child_schema nx ds cl w s c =
     (case drain nx w c of
        None \<Rightarrow> None
      | Some (w, c, ts) \<Rightarrow>
          (case agg_rows L group_by aggs child_schema ts [] of
             None \<Rightarrow> None
           | Some groups \<Rightarrow> map_option (\<lambda>(w, c). (w, s\<lparr>agg_done := True, agg_groups := groups\<rparr>, c)) (cl w (if ts = [] then c else ds c))))"

definition hash_agg_next ::
    "libc \<Rightarrow> expr list \<Rightarrow> expr list \<Rightarrow> schema option \<Rightarrow> ('w, 'c, tuple) next_fn \<Rightarrow> ('c \<Rightarrow> 'c) \<Rightarrow> ('w, 'c) close_fn \<Rightarrow>
     ('w, agg_exec_state \<times> 'c, tuple) next_fn" where
  "hash_agg_next L group_by aggs child_schema nx ds cl w sc =
     (case sc of (s, c) \<Rightarrow>
        case (if agg_done s then Some (w, s, c) else agg_materialize L group_by aggs child_schema nx ds cl w s c) of
          None \<Rightarrow> None
        | Some (w, s, c) \<Rightarrow>
            if agg_index s \<ge> length (agg_groups s) then Some (w, (s, c), end_of_stream)
            else
              map_option (\<lambda>out. (w, (s\<lparr>agg_index := agg_index s + 1\<rparr>, c), Inr out))
                (agg_output group_by aggs (agg_groups s ! agg_index s)))"

definition hash_agg_close :: "agg_exec_state \<Rightarrow> agg_exec_state" where
  "hash_agg_close s = (if agg_done s then s\<lparr>agg_groups := [], agg_done := False\<rparr> else s)"

section \<open>Insert, update, delete\<close>

text \<open>The row in its stored form: the bytes of a fresh buffer of \<open>schema_max_tuple_size\<close> bytes, whose contents are
  not initialised; a longer row overflows the buffer.\<close>

definition stored_row :: "buffer \<Rightarrow> tuple \<Rightarrow> schema \<Rightarrow> byte list option" where
  "stored_row fresh t s =
     (case tuple_serialize t s fresh of
        None \<Rightarrow> None
      | Some (m, actual_size) \<Rightarrow>
          if actual_size > schema_max_tuple_size s then None else Some (mem_read m 0 (u16 actual_size)))"

text \<open>The value of one column of a row to insert, cast to the type of the column.\<close>

definition insert_value :: "libc \<Rightarrow> schema \<Rightarrow> nat \<Rightarrow> expr \<Rightarrow> (error_code + val) option" where
  "insert_value L s i e =
     (case expr_evaluate (c_strcmp L) e None None of
        None \<Rightarrow> None
      | Some (Inl rc) \<Rightarrow> Some (Inl rc)
      | Some (Inr v) \<Rightarrow>
          if i \<ge> length (columns s) then None
          else if val_type v \<noteq> col_type (columns s ! i) \<and> v \<noteq> V_Null
          then value_cast_to (c_strtod L) (c_fmt_g L) v (col_type (columns s ! i))
          else Some (Inr v))"

fun insert_values :: "libc \<Rightarrow> schema \<Rightarrow> nat \<Rightarrow> expr list \<Rightarrow> tuple \<Rightarrow> (error_code + tuple) option" where
  "insert_values L s i [] t = Some (Inr t)"
| "insert_values L s i (e # es) t =
     (case insert_value L s i e of
        None \<Rightarrow> None
      | Some (Inl rc) \<Rightarrow> Some (Inl rc)
      | Some (Inr v) \<Rightarrow> insert_values L s (i + 1) es (snd (tuple_set_value t (int i) v)))"

record insert_state =
  current_row :: nat
  inserted_count :: nat
  ins_heap :: bpm_heap

definition insert_next :: "libc \<Rightarrow> buffer \<Rightarrow> schema \<Rightarrow> expr list list \<Rightarrow> (bpm, insert_state, tuple) next_fn" where
  "insert_next L fresh s rows b st =
     (if current_row st \<ge> length rows then Some (b, st, end_of_stream)
      else
        let es = rows ! current_row st; st = st\<lparr>current_row := current_row st + 1\<rparr> in
        case new_tuple (int (length es)) of
          None \<Rightarrow> None
        | Some t \<Rightarrow>
            (case insert_values L s 0 es t of
               None \<Rightarrow> None
             | Some (Inl rc) \<Rightarrow> Some (b, st, Inl (code_of rc))
             | Some (Inr t) \<Rightarrow>
                 (case stored_row fresh t s of
                    None \<Rightarrow> None
                  | Some data \<Rightarrow>
                      (case bpm_heap_insert data (ins_heap st) b of
                         None \<Rightarrow> None
                       | Some (Inl rc, hf, b) \<Rightarrow> Some (b, st\<lparr>ins_heap := hf\<rparr>, Inl rc)
                       | Some (Inr r, hf, b) \<Rightarrow>
                           Some (b, st\<lparr>ins_heap := hf, inserted_count := inserted_count st + 1\<rparr>, Inr (t\<lparr>tup_rid := r\<rparr>))))))"

text \<open>The assignments of an UPDATE, each evaluated on the old row; the value is stored as it is.\<close>

fun assign_values :: "libc \<Rightarrow> schema \<Rightarrow> assignment list \<Rightarrow> tuple \<Rightarrow> tuple \<Rightarrow> (error_code + tuple) option" where
  "assign_values L s [] old t = Some (Inr t)"
| "assign_values L s (a # as) old t =
     (let i = schema_find_column s (c_text (asg_column a)) in
      if i < 0 then Some (Inl DB_UNKNOWN_COLUMN)
      else
        case expr_evaluate (c_strcmp L) (asg_value a) (Some old) (Some s) of
          None \<Rightarrow> None
        | Some (Inl rc) \<Rightarrow> Some (Inl rc)
        | Some (Inr v) \<Rightarrow> assign_values L s as old (snd (tuple_set_value t i v)))"

fun copy_columns :: "tuple \<Rightarrow> nat list \<Rightarrow> tuple \<Rightarrow> tuple" where
  "copy_columns old [] t = t"
| "copy_columns old (i # is) t =
     copy_columns old is (case tuple_get_value old (int i) of None \<Rightarrow> t | Some v \<Rightarrow> snd (tuple_set_value t (int i) v))"

definition updated_row :: "libc \<Rightarrow> schema \<Rightarrow> assignment list \<Rightarrow> tuple \<Rightarrow> (error_code + tuple) option" where
  "updated_row L s assignments old =
     (case new_tuple (num_columns s) of
        None \<Rightarrow> None
      | Some t \<Rightarrow> assign_values L s assignments old (copy_columns old [0..<nat (num_columns s)] t))"

text \<open>The state of an UPDATE or a DELETE is the flag \<open>done\<close>, with the state of the child.\<close>

partial_function (option) update_next ::
    "libc \<Rightarrow> buffer \<Rightarrow> schema \<Rightarrow> assignment list \<Rightarrow> (bpm, 'c, tuple) next_fn \<Rightarrow> ('c \<Rightarrow> 'c) \<Rightarrow> (bpm, bool \<times> 'c, tuple) next_fn" where
  "update_next L fresh s assignments nx ds b st =
     (case st of (finished, c) \<Rightarrow>
        if finished then Some (b, (finished, c), end_of_stream)
        else
          case nx b c of
            None \<Rightarrow> None
          | Some (b, c, Inl rc) \<Rightarrow> Some (b, (True, c), end_of_stream)
          | Some (b, c, Inr old) \<Rightarrow>
              (case updated_row L s assignments old of
                 None \<Rightarrow> None
               | Some (Inl rc) \<Rightarrow> Some (b, (finished, ds c), Inl (code_of rc))
               | Some (Inr t) \<Rightarrow>
                   (case stored_row fresh t s of
                      None \<Rightarrow> None
                    | Some data \<Rightarrow>
                        (case bpm_heap_update (tup_rid old) data b of
                           None \<Rightarrow> None
                         | Some (Inr _, b) \<Rightarrow> Some (b, (finished, c), Inr old)
                         | Some (Inl rc, b) \<Rightarrow> update_next L fresh s assignments nx ds b (finished, ds c)))))"

partial_function (option) delete_next :: "(bpm, 'c, tuple) next_fn \<Rightarrow> ('c \<Rightarrow> 'c) \<Rightarrow> (bpm, bool \<times> 'c, tuple) next_fn" where
  "delete_next nx ds b st =
     (case st of (finished, c) \<Rightarrow>
        if finished then Some (b, (finished, c), end_of_stream)
        else
          case nx b c of
            None \<Rightarrow> None
          | Some (b, c, Inl rc) \<Rightarrow> Some (b, (True, c), end_of_stream)
          | Some (b, c, Inr t) \<Rightarrow>
              (case bpm_heap_delete (tup_rid t) b of
                 None \<Rightarrow> None
               | Some (Inr _, b) \<Rightarrow> Some (b, (finished, c), Inr t)
               | Some (Inl rc, b) \<Rightarrow> delete_next nx ds b (finished, ds c)))"

section \<open>Trees of executors\<close>

text \<open>What \<open>executor_t\<close> keeps apart from its running state: the parameters, the output schema, the children. An UPDATE or
  DELETE may have been built without a child.\<close>

datatype exec =
    SEQ_SCAN bpm_heap schema "expr option" "schema option"
  | FILTER expr "schema option" exec
  | PROJECT "expr list" "schema option" exec
  | LIMIT int int "schema option" exec
  | SORT "order_by_item list" "schema option" exec
  | NL_JOIN "expr option" "schema option" exec exec
  | HASH_AGG "expr list" "expr list" "schema option" exec
  | INSERT bpm_heap schema "expr list list"
  | UPDATE bpm_heap schema "assignment list" "exec option"
  | DELETE bpm_heap schema "exec option"

fun output_schema :: "exec \<Rightarrow> schema option" where
  "output_schema (SEQ_SCAN hf s pred out) = out"
| "output_schema (FILTER e out q) = out"
| "output_schema (PROJECT es out q) = out"
| "output_schema (LIMIT n k out q) = out"
| "output_schema (SORT items out q) = out"
| "output_schema (NL_JOIN cond out p q) = out"
| "output_schema (HASH_AGG gs as out q) = out"
| "output_schema (INSERT hf s rows) = None"
| "output_schema (UPDATE hf s as q) = None"
| "output_schema (DELETE hf s q) = None"

datatype estate =
    S_SCAN bpm_heap_iter
  | S_PLAIN estate
  | S_LIMIT limit_state estate
  | S_SORT sort_state estate
  | S_JOIN "tuple option" estate estate
  | S_AGG agg_exec_state estate
  | S_INSERT insert_state
  | S_CHANGE bool estate
  | S_FRESH

text \<open>The state after \<open>*_executor_create\<close>.\<close>

fun create_state :: "exec \<Rightarrow> estate" where
  "create_state (SEQ_SCAN hf s pred out) = S_SCAN \<lparr>bi_page = 0, bi_slot = 0, bi_frame = None\<rparr>"
| "create_state (FILTER e out q) = S_PLAIN (create_state q)"
| "create_state (PROJECT es out q) = S_PLAIN (create_state q)"
| "create_state (LIMIT n k out q) = S_LIMIT \<lparr>emitted = 0, skipped = 0\<rparr> (create_state q)"
| "create_state (SORT items out q) = S_SORT \<lparr>materialized = False, tuples = [], emit_index = 0, lost = False\<rparr> (create_state q)"
| "create_state (NL_JOIN cond out p q) = S_JOIN None (create_state p) (create_state q)"
| "create_state (HASH_AGG gs as out q) = S_AGG \<lparr>agg_done = False, agg_groups = [], agg_index = 0\<rparr> (create_state q)"
| "create_state (INSERT hf s rows) = S_INSERT \<lparr>current_row = 0, inserted_count = 0, ins_heap = hf\<rparr>"
| "create_state (UPDATE hf s as None) = S_CHANGE False S_FRESH"
| "create_state (UPDATE hf s as (Some q)) = S_CHANGE False (create_state q)"
| "create_state (DELETE hf s None) = S_CHANGE False S_FRESH"
| "create_state (DELETE hf s (Some q)) = S_CHANGE False (create_state q)"

text \<open>A tree whose rows are copies of the structures of a SORT, which its \<open>close\<close> frees: FILTER, LIMIT, UPDATE and
  DELETE hand on the rows of their child, the others make new ones.\<close>

fun rows_freed :: "exec \<Rightarrow> bool" where
  "rows_freed (SORT items out q) = True"
| "rows_freed (FILTER e out q) = rows_freed q"
| "rows_freed (LIMIT n k out q) = rows_freed q"
| "rows_freed (UPDATE hf s as (Some q)) = rows_freed q"
| "rows_freed (DELETE hf s (Some q)) = rows_freed q"
| "rows_freed _ = False"

text \<open>What the state becomes when a row that the tree has handed out is destroyed.\<close>

fun exec_drop :: "exec \<Rightarrow> estate \<Rightarrow> estate" where
  "exec_drop (SORT items out q) st = (case st of S_SORT s c \<Rightarrow> S_SORT (s\<lparr>lost := True\<rparr>) c | _ \<Rightarrow> st)"
| "exec_drop (FILTER e out q) st = (case st of S_PLAIN c \<Rightarrow> S_PLAIN (exec_drop q c) | _ \<Rightarrow> st)"
| "exec_drop (LIMIT n k out q) st = (case st of S_LIMIT s c \<Rightarrow> S_LIMIT s (exec_drop q c) | _ \<Rightarrow> st)"
| "exec_drop (UPDATE hf s as (Some q)) st = (case st of S_CHANGE d c \<Rightarrow> S_CHANGE d (exec_drop q c) | _ \<Rightarrow> st)"
| "exec_drop (DELETE hf s (Some q)) st = (case st of S_CHANGE d c \<Rightarrow> S_CHANGE d (exec_drop q c) | _ \<Rightarrow> st)"
| "exec_drop _ st = st"

text \<open>A function of one kind of executor on the states of all, where f makes a state and g takes it apart.\<close>

definition on_next :: "('x \<Rightarrow> estate) \<Rightarrow> (estate \<Rightarrow> 'x option) \<Rightarrow> ('w, 'x, 'r) next_fn \<Rightarrow> ('w, estate, 'r) next_fn" where
  "on_next f g nx w st = Option.bind (g st) (\<lambda>x. map_option (\<lambda>(w, x, r). (w, f x, r)) (nx w x))"

definition on_init :: "('x \<Rightarrow> estate) \<Rightarrow> (estate \<Rightarrow> 'x option) \<Rightarrow> ('w, 'x) init_fn \<Rightarrow> ('w, estate) init_fn" where
  "on_init f g ini w st = Option.bind (g st) (\<lambda>x. map_option (\<lambda>(w, x, rc). (w, f x, rc)) (ini w x))"

definition on_close :: "('x \<Rightarrow> estate) \<Rightarrow> (estate \<Rightarrow> 'x option) \<Rightarrow> ('w, 'x) close_fn \<Rightarrow> ('w, estate) close_fn" where
  "on_close f g cl w st = Option.bind (g st) (\<lambda>x. map_option (\<lambda>(w, x). (w, f x)) (cl w x))"

definition get_scan :: "estate \<Rightarrow> bpm_heap_iter option" where
  "get_scan st = (case st of S_SCAN it \<Rightarrow> Some it | _ \<Rightarrow> None)"

definition get_plain :: "estate \<Rightarrow> estate option" where
  "get_plain st = (case st of S_PLAIN c \<Rightarrow> Some c | _ \<Rightarrow> None)"

definition get_limit :: "estate \<Rightarrow> (limit_state \<times> estate) option" where
  "get_limit st = (case st of S_LIMIT s c \<Rightarrow> Some (s, c) | _ \<Rightarrow> None)"

definition get_sort :: "estate \<Rightarrow> (sort_state \<times> estate) option" where
  "get_sort st = (case st of S_SORT s c \<Rightarrow> Some (s, c) | _ \<Rightarrow> None)"

definition get_join :: "estate \<Rightarrow> (tuple option \<times> estate \<times> estate) option" where
  "get_join st = (case st of S_JOIN t c d \<Rightarrow> Some (t, c, d) | _ \<Rightarrow> None)"

definition get_agg :: "estate \<Rightarrow> (agg_exec_state \<times> estate) option" where
  "get_agg st = (case st of S_AGG s c \<Rightarrow> Some (s, c) | _ \<Rightarrow> None)"

definition get_insert :: "estate \<Rightarrow> insert_state option" where
  "get_insert st = (case st of S_INSERT s \<Rightarrow> Some s | _ \<Rightarrow> None)"

definition get_change :: "estate \<Rightarrow> (bool \<times> estate) option" where
  "get_change st = (case st of S_CHANGE d c \<Rightarrow> Some (d, c) | _ \<Rightarrow> None)"

lemmas get_defs = get_scan_def get_plain_def get_limit_def get_sort_def get_join_def get_agg_def get_insert_def get_change_def

section \<open>\<open>close\<close>, \<open>init\<close> and \<open>next\<close>\<close>

definition seq_scan_close :: "(bpm, bpm_heap_iter) close_fn" where
  "seq_scan_close b it = map_option (\<lambda>(it, b). (b, it)) (bpm_heap_iter_destroy it b)"

text \<open>Filter, projection, limit, update and delete close their child; sort and aggregation do not, they closed it when they
  had collected its rows.\<close>

definition pair_close :: "('w, 'c) close_fn \<Rightarrow> ('w, 's \<times> 'c) close_fn" where
  "pair_close cl w sc = map_option (\<lambda>(w, c). (w, fst sc, c)) (cl w (snd sc))"

definition own_close :: "('s \<Rightarrow> 's option) \<Rightarrow> ('w, 's \<times> 'c) close_fn" where
  "own_close f w sc = map_option (\<lambda>s. (w, s, snd sc)) (f (fst sc))"

definition nl_join_close :: "('c \<Rightarrow> 'c) \<Rightarrow> ('w, 'c) close_fn \<Rightarrow> ('w, 'd) close_fn \<Rightarrow> ('w, tuple option \<times> 'c \<times> 'd) close_fn" where
  "nl_join_close ds cl1 cl2 w st =
     (case st of (t, c, d) \<Rightarrow>
        Option.bind (cl1 w (if t = None then c else ds c)) (\<lambda>(w, c). map_option (\<lambda>(w, d). (w, None, c, d)) (cl2 w d)))"

fun exec_close :: "exec \<Rightarrow> (bpm, estate) close_fn" where
  "exec_close (SEQ_SCAN hf s pred out) = on_close S_SCAN get_scan seq_scan_close"
| "exec_close (FILTER e out q) = on_close S_PLAIN get_plain (exec_close q)"
| "exec_close (PROJECT es out q) = on_close S_PLAIN get_plain (exec_close q)"
| "exec_close (LIMIT n k out q) = on_close (case_prod S_LIMIT) get_limit (pair_close (exec_close q))"
| "exec_close (SORT items out q) = on_close (case_prod S_SORT) get_sort (own_close sort_close)"
| "exec_close (NL_JOIN cond out p q) =
     on_close (\<lambda>(t, c, d). S_JOIN t c d) get_join (nl_join_close (exec_drop p) (exec_close p) (exec_close q))"
| "exec_close (HASH_AGG gs as out q) = on_close (case_prod S_AGG) get_agg (own_close (Some \<circ> hash_agg_close))"
| "exec_close (INSERT hf s rows) = (\<lambda>b st. Some (b, st))"
| "exec_close (UPDATE hf s as None) = (\<lambda>b st. Some (b, st))"
| "exec_close (UPDATE hf s as (Some q)) = on_close (case_prod S_CHANGE) get_change (pair_close (exec_close q))"
| "exec_close (DELETE hf s None) = (\<lambda>b st. Some (b, st))"
| "exec_close (DELETE hf s (Some q)) = on_close (case_prod S_CHANGE) get_change (pair_close (exec_close q))"

definition seq_scan_init :: "bpm_heap \<Rightarrow> (bpm, bpm_heap_iter) init_fn" where
  "seq_scan_init hf b it = Some (b, bpm_heap_iter_init hf, code_of DB_OK)"

text \<open>The executors with one child set their own fields and initialise the child.\<close>

definition pair_init :: "('s \<Rightarrow> 's) \<Rightarrow> ('w, 'c) init_fn \<Rightarrow> ('w, 's \<times> 'c) init_fn" where
  "pair_init f ini w sc = map_option (\<lambda>(w, c, rc). (w, (f (fst sc), c), rc)) (ini w (snd sc))"

definition limit_init :: "limit_state \<Rightarrow> limit_state" where
  "limit_init s = s\<lparr>emitted := 0, skipped := 0\<rparr>"

definition sort_init :: "sort_state \<Rightarrow> sort_state" where
  "sort_init s = s\<lparr>materialized := False, emit_index := 0, tuples := [], lost := False\<rparr>"

definition hash_agg_init :: "agg_exec_state \<Rightarrow> agg_exec_state" where
  "hash_agg_init s = s\<lparr>agg_done := False, agg_index := 0\<rparr>"

definition nl_join_init :: "('w, 'c) init_fn \<Rightarrow> ('w, 'd) init_fn \<Rightarrow> ('w, tuple option \<times> 'c \<times> 'd) init_fn" where
  "nl_join_init ini1 ini2 w st =
     (case st of (t, c, d) \<Rightarrow>
        Option.bind (ini1 w c) (\<lambda>(w, c, rc).
          if rc \<noteq> code_of DB_OK then Some (w, (None, c, d), rc)
          else map_option (\<lambda>(w, d, rc). (w, (None, c, d), rc)) (ini2 w d)))"

definition insert_init :: "(bpm, insert_state) init_fn" where
  "insert_init b st = Some (b, st\<lparr>current_row := 0, inserted_count := 0\<rparr>, code_of DB_OK)"

definition childless_init :: "(bpm, bool \<times> estate) init_fn" where
  "childless_init b st = Some (b, (False, snd st), code_of DB_OK)"

fun exec_init :: "exec \<Rightarrow> (bpm, estate) init_fn" where
  "exec_init (SEQ_SCAN hf s pred out) = on_init S_SCAN get_scan (seq_scan_init hf)"
| "exec_init (FILTER e out q) = on_init S_PLAIN get_plain (exec_init q)"
| "exec_init (PROJECT es out q) = on_init S_PLAIN get_plain (exec_init q)"
| "exec_init (LIMIT n k out q) = on_init (case_prod S_LIMIT) get_limit (pair_init limit_init (exec_init q))"
| "exec_init (SORT items out q) = on_init (case_prod S_SORT) get_sort (pair_init sort_init (exec_init q))"
| "exec_init (NL_JOIN cond out p q) =
     on_init (\<lambda>(t, c, d). S_JOIN t c d) get_join (nl_join_init (exec_init p) (exec_init q))"
| "exec_init (HASH_AGG gs as out q) = on_init (case_prod S_AGG) get_agg (pair_init hash_agg_init (exec_init q))"
| "exec_init (INSERT hf s rows) = on_init S_INSERT get_insert insert_init"
| "exec_init (UPDATE hf s as None) = on_init (case_prod S_CHANGE) get_change childless_init"
| "exec_init (UPDATE hf s as (Some q)) = on_init (case_prod S_CHANGE) get_change (pair_init (\<lambda>_. False) (exec_init q))"
| "exec_init (DELETE hf s None) = on_init (case_prod S_CHANGE) get_change childless_init"
| "exec_init (DELETE hf s (Some q)) = on_init (case_prod S_CHANGE) get_change (pair_init (\<lambda>_. False) (exec_init q))"

text \<open>Without a child, the next row of an UPDATE or DELETE is a call through a NULL pointer.\<close>

definition childless_next :: "(bpm, bool \<times> estate, tuple) next_fn" where
  "childless_next b st = (if fst st then Some (b, st, end_of_stream) else None)"

fun exec_next :: "libc \<Rightarrow> buffer \<Rightarrow> exec \<Rightarrow> (bpm, estate, tuple) next_fn" where
  "exec_next L m (SEQ_SCAN hf s pred out) = on_next S_SCAN get_scan (seq_scan_next L s pred)"
| "exec_next L m (FILTER e out q) = on_next S_PLAIN get_plain (filter_next L e out (exec_next L m q) (exec_drop q))"
| "exec_next L m (PROJECT es out q) =
     on_next S_PLAIN get_plain (project_next L es (output_schema q) (exec_next L m q) (exec_drop q))"
| "exec_next L m (LIMIT n k out q) = on_next (case_prod S_LIMIT) get_limit (limit_next n k (exec_next L m q) (exec_drop q))"
| "exec_next L m (SORT items out q) =
     on_next (case_prod S_SORT) get_sort (sort_next L items out (rows_freed q) (exec_next L m q) (exec_close q))"
| "exec_next L m (NL_JOIN cond out p q) =
     on_next (\<lambda>(t, c, d). S_JOIN t c d) get_join
       (nl_join_next L cond out (exec_next L m p, exec_drop p) (exec_init q) (exec_next L m q, exec_drop q) (exec_close q))"
| "exec_next L m (HASH_AGG gs as out q) =
     on_next (case_prod S_AGG) get_agg (hash_agg_next L gs as (output_schema q) (exec_next L m q) (exec_drop q) (exec_close q))"
| "exec_next L m (INSERT hf s rows) = on_next S_INSERT get_insert (insert_next L m s rows)"
| "exec_next L m (UPDATE hf s as None) = on_next (case_prod S_CHANGE) get_change childless_next"
| "exec_next L m (UPDATE hf s as (Some q)) =
     on_next (case_prod S_CHANGE) get_change (update_next L m s as (exec_next L m q) (exec_drop q))"
| "exec_next L m (DELETE hf s None) = on_next (case_prod S_CHANGE) get_change childless_next"
| "exec_next L m (DELETE hf s (Some q)) =
     on_next (case_prod S_CHANGE) get_change (delete_next (exec_next L m q) (exec_drop q))"

text \<open>What the execution engine does with a tree: \<open>init\<close>, whose result it ignores, \<open>next\<close> to the end, \<open>close\<close>. The
  rows are as they were delivered; after \<open>close\<close> the values of those of a \<open>rows_freed\<close> tree are gone.\<close>

definition exec_run :: "libc \<Rightarrow> buffer \<Rightarrow> exec \<Rightarrow> bpm \<Rightarrow> (tuple list \<times> bpm \<times> estate) option" where
  "exec_run L m e b =
     (case exec_init e b (create_state e) of
        None \<Rightarrow> None
      | Some (b, st, rc) \<Rightarrow>
          (case drain (exec_next L m e) b st of
             None \<Rightarrow> None
           | Some (b, st, ts) \<Rightarrow> map_option (\<lambda>(b, st). (ts, b, st)) (exec_close e b st)))"

end
