(* ===== verification/Exec_Spec.thy ===== *)
theory Exec_Spec
  imports Executors
begin

text \<open>
  What the executors deliver: the rows that a tree of read-only executors returns are those of the relational
  operators over the stored tuples, however its executors interleave, for every tree that does not hand the rows of a
  SORT to an executor that destroys them. The operators are proved one by one against the contract \<open>source\<close>
  of their children.
\<close>

section \<open>The operators on lists\<close>

text \<open>None when some row is undefined.\<close>

definition filter_rows :: "('a \<Rightarrow> bool option) \<Rightarrow> 'a list \<Rightarrow> 'a list option" where
  "filter_rows p ts = (if list_all (\<lambda>t. p t \<noteq> None) ts then Some (filter (\<lambda>t. p t = Some True) ts) else None)"

definition map_rows :: "('a \<Rightarrow> 'b option) \<Rightarrow> 'a list \<Rightarrow> 'b list option" where
  "map_rows f ts = those (map f ts)"

lemma filter_rows_simps [simp]:
  "filter_rows p [] = Some []"
  "filter_rows p (t # ts) = (case p t of None \<Rightarrow> None | Some b \<Rightarrow> map_option (if b then (#) t else id) (filter_rows p ts))"
  by (auto simp: filter_rows_def split: option.split)

lemma map_rows_simps [simp]:
  "map_rows f [] = Some []"
  "map_rows f (t # ts) = (case f t of None \<Rightarrow> None | Some x \<Rightarrow> map_option ((#) x) (map_rows f ts))"
  by (simp_all add: map_rows_def split: option.split)

lemma map_rows_append:
  "map_rows f (xs @ ys) = Option.bind (map_rows f xs) (\<lambda>as. map_option ((@) as) (map_rows f ys))"
  by (induction xs; cases "map_rows f ys") (auto split: option.split bind_split)

lemma filter_rows_append:
  "filter_rows p (xs @ ys) = Option.bind (filter_rows p xs) (\<lambda>as. map_option ((@) as) (filter_rows p ys))"
  by (auto simp: filter_rows_def)

definition limit_rows :: "int \<Rightarrow> int \<Rightarrow> 'a list \<Rightarrow> 'a list" where
  "limit_rows limit offset ts = (let ts = drop (nat offset) ts in if limit < 0 then ts else take (nat limit) ts)"

definition sort_rows :: "libc \<Rightarrow> order_by_item list \<Rightarrow> schema option \<Rightarrow> tuple list \<Rightarrow> tuple list option" where
  "sort_rows L items s ts = (if ts = [] then Some [] else sort_tuples L items s ts)"

text \<open>The pairs of a nested loop, the outer row changing slowest.\<close>

definition join_pairs :: "'a list \<Rightarrow> 'b list \<Rightarrow> ('a \<times> 'b) list" where
  "join_pairs ts us = concat (map (\<lambda>t. map (Pair t) us) ts)"

definition join_rows :: "libc \<Rightarrow> expr option \<Rightarrow> schema option \<Rightarrow> (tuple \<times> tuple) list \<Rightarrow> tuple list option" where
  "join_rows L cond s pairs =
     Option.bind (map_rows (\<lambda>(t, u). combine_tuples t u) pairs) (filter_rows (\<lambda>t. join_passes L cond t s))"

definition group_rows :: "libc \<Rightarrow> expr list \<Rightarrow> expr list \<Rightarrow> schema option \<Rightarrow> tuple list \<Rightarrow> tuple list option" where
  "group_rows L group_by aggs s ts =
     Option.bind (agg_rows L group_by aggs s ts []) (map_rows (agg_output group_by aggs))"

lemma join_rows_Nil [simp]: "join_rows L cond s [] = Some []"
  by (simp add: join_rows_def)

lemma join_rows_Cons:
  assumes "join_rows L cond s ((t, u) # ps) = Some rs"
  obtains x pass rs' where "combine_tuples t u = Some x" "join_passes L cond x s = Some pass" "join_rows L cond s ps = Some rs'"
    "rs = (if pass then x # rs' else rs')"
  using assms by (auto simp: join_rows_def bind_eq_Some_conv split: option.splits if_splits)

section \<open>The contract, operator by operator\<close>

text \<open>The state of a SORT none of whose rows has been destroyed.\<close>

abbreviation kept :: "(sort_state \<times> 'c) \<Rightarrow> ('c \<Rightarrow> bool) \<Rightarrow> bool" where
  "kept sc J \<equiv> (case sc of (s, c) \<Rightarrow> \<not> lost s \<and> J c)"

context worlds
begin

lemma source_endI:
  assumes "closable le J cl w c"
    and "\<And>w'. le w w' \<Longrightarrow> \<exists>w'' c' rc. nx w' c = Some (w'', c', Inl rc) \<and> le w' w'' \<and> closable le J cl w'' c'"
  shows "source le J nx cl w c []"
  using assms by simp

lemma source_rowI:
  assumes "closable le J cl w c"
    and "\<And>w'. le w w' \<Longrightarrow> \<exists>w'' c'. nx w' c = Some (w'', c', Inr r) \<and> le w' w'' \<and> source le J nx cl w'' c' rs"
  shows "source le J nx cl w c (r # rs)"
  using assms by simp

text \<open>A call that goes on like a call in a later state.\<close>

lemma source_skipI:
  assumes c: "closable le J cl w c"
    and step: "\<And>w'. le w w' \<Longrightarrow> \<exists>w1 c1. nx w' c = nx w1 c1 \<and> le w' w1 \<and> source le J nx cl w1 c1 rs"
  shows "source le J nx cl w c rs"
proof (cases rs)
  case Nil
  show ?thesis unfolding Nil
  proof (rule source_endI [OF c])
    fix w' assume "le w w'"
    then obtain w1 c1 where s: "nx w' c = nx w1 c1" "le w' w1" "source le J nx cl w1 c1 []" using step unfolding Nil by blast
    obtain w'' c' rc where "nx w1 c1 = Some (w'', c', Inl rc)" "le w1 w''" "closable le J cl w'' c'"
      by (rule source_Nil [OF s(3) le_refl [OF s(2)]])
    then show "\<exists>w'' c' rc. nx w' c = Some (w'', c', Inl rc) \<and> le w' w'' \<and> closable le J cl w'' c'"
      using s le_trans by metis
  qed
next
  case (Cons r rs')
  show ?thesis unfolding Cons
  proof (rule source_rowI [OF c])
    fix w' assume "le w w'"
    then obtain w1 c1 where s: "nx w' c = nx w1 c1" "le w' w1" "source le J nx cl w1 c1 (r # rs')" using step unfolding Cons by blast
    obtain w'' c' where "nx w1 c1 = Some (w'', c', Inr r)" "le w1 w''" "source le J nx cl w'' c' rs'"
      by (rule source_Cons [OF s(3) le_refl [OF s(2)]])
    then show "\<exists>w'' c'. nx w' c = Some (w'', c', Inr r) \<and> le w' w'' \<and> source le J nx cl w'' c' rs'"
      using s le_trans by metis
  qed
qed

lemma drain_source:
  "source le J nx cl w c ts \<Longrightarrow> le w w' \<Longrightarrow>
   \<exists>w'' c'. drain nx w' c = Some (w'', c', ts) \<and> le w' w'' \<and> closable le J cl w'' c'"
proof (induction ts arbitrary: w c w')
  case Nil
  from source_Nil [OF this] show ?case by (subst drain.simps) fastforce
next
  case (Cons t ts)
  obtain w1 c1 where s: "nx w' c = Some (w1, c1, Inr t)" "le w' w1" "source le J nx cl w1 c1 ts"
    by (rule source_Cons [OF Cons.prems])
  obtain w2 c2 where "drain nx w1 c1 = Some (w2, c2, ts)" "le w1 w2" "closable le J cl w2 c2"
    using Cons.IH [OF s(3) le_refl [OF s(2)]] by blast
  then show ?case using s le_trans by (subst drain.simps) fastforce
qed

text \<open>Filter.\<close>

lemma filter_source:
  "source le J nx cl w c ts \<Longrightarrow> filter_rows (\<lambda>t. passes L e t s) ts = Some rs \<Longrightarrow>
   source le J (filter_next L e s nx id) cl w c rs"
proof (induction ts arbitrary: w c rs)
  case Nil
  then have rs: "rs = []" by simp
  show ?case unfolding rs
  proof (rule source_endI [OF source_closable [OF Nil(1)]])
    fix w' assume "le w w'"
    from source_Nil [OF Nil(1) this]
    show "\<exists>w'' c' rc. filter_next L e s nx id w' c = Some (w'', c', Inl rc) \<and> le w' w'' \<and> closable le J cl w'' c'"
      by (subst filter_next.simps) fastforce
  qed
next
  case (Cons t ts)
  obtain b rs' where b: "passes L e t s = Some b" "filter_rows (\<lambda>t. passes L e t s) ts = Some rs'" "rs = (if b then t # rs' else rs')"
    using Cons.prems(2) by (auto split: option.splits if_splits)
  note c = source_closable [OF Cons.prems(1)]
  have step: "\<exists>w1 c1. le w' w1 \<and> source le J (filter_next L e s nx id) cl w1 c1 rs' \<and>
      filter_next L e s nx id w' c = (if b then Some (w1, c1, Inr t) else filter_next L e s nx id w1 c1)" if w': "le w w'" for w'
  proof -
    obtain w1 c1 where s: "nx w' c = Some (w1, c1, Inr t)" "le w' w1" "source le J nx cl w1 c1 ts"
      by (rule source_Cons [OF Cons.prems(1) w'])
    then show ?thesis using Cons.IH [OF s(3) b(2)] b(1)
      by (intro exI [of _ w1] exI [of _ c1]) (subst filter_next.simps, simp add: id_def)
  qed
  show ?case
  proof (cases b)
    case True
    then show ?thesis using b(3) step by (simp only: if_True) (rule source_rowI [OF c], metis)
  next
    case False
    then show ?thesis using b(3) step by (simp only: if_False) (rule source_skipI [OF c], metis)
  qed
qed

text \<open>Projection.\<close>

lemma project_source:
  "source le J nx cl w c ts \<Longrightarrow> map_rows (project_row L es s) ts = Some rs \<Longrightarrow>
   source le J (project_next L es s nx id) cl w c rs"
proof (induction ts arbitrary: w c rs)
  case Nil
  then have rs: "rs = []" by simp
  show ?case unfolding rs
  proof (rule source_endI [OF source_closable [OF Nil(1)]])
    fix w' assume "le w w'"
    from source_Nil [OF Nil(1) this]
    show "\<exists>w'' c' rc. project_next L es s nx id w' c = Some (w'', c', Inl rc) \<and> le w' w'' \<and> closable le J cl w'' c'"
      unfolding project_next_def by fastforce
  qed
next
  case (Cons t ts)
  obtain x rs' where b: "project_row L es s t = Some x" "map_rows (project_row L es s) ts = Some rs'" "rs = x # rs'"
    using Cons.prems(2) by (auto split: option.splits)
  show ?case unfolding b(3)
  proof (rule source_rowI [OF source_closable [OF Cons.prems(1)]])
    fix w' assume w': "le w w'"
    obtain w1 c1 where s: "nx w' c = Some (w1, c1, Inr t)" "le w' w1" "source le J nx cl w1 c1 ts"
      by (rule source_Cons [OF Cons.prems(1) w'])
    then show "\<exists>w'' c'. project_next L es s nx id w' c = Some (w'', c', Inr x) \<and> le w' w'' \<and>
        source le J (project_next L es s nx id) cl w'' c' rs'"
      using Cons.IH [OF s(3) b(2)] b(1) by (intro exI [of _ w1] exI [of _ c1]) (subst project_next_def, simp add: id_def)
  qed
qed

text \<open>Limit.\<close>

lemma closable_pair: "closable le J cl w c \<Longrightarrow> closable le (\<lambda>sc. J (snd sc)) (pair_close cl) w (s, c)"
  unfolding closable_def pair_close_def by fastforce

lemma limit_source:
  "source le J nx cl w c ts \<Longrightarrow> ds = id \<or> k \<le> skipped s \<Longrightarrow>
   source le (\<lambda>sc. J (snd sc)) (limit_next n k nx ds) (pair_close cl) w (s, c)
     (let us = drop (nat (k - skipped s)) ts in if n < 0 then us else take (nat (n - emitted s)) us)"
proof (induction ts arbitrary: w c s)
  case Nil
  have z: "(let us = drop (nat (k - skipped s)) [] in if n < 0 then us else take (nat (n - emitted s)) us) = []" by simp
  show ?case unfolding z
  proof (rule source_endI [OF closable_pair [OF source_closable [OF Nil(1)]]])
    fix w' assume w': "le w w'"
    obtain w1 c1 rc where "nx w' c = Some (w1, c1, Inl rc)" "le w' w1" "closable le J cl w1 c1" by (rule source_Nil [OF Nil(1) w'])
    then show "\<exists>w'' c' rc. limit_next n k nx ds w' (s, c) = Some (w'', c', Inl rc) \<and> le w' w'' \<and>
        closable le (\<lambda>sc. J (snd sc)) (pair_close cl) w'' c'"
      using closable_pair closable_later [OF closable_pair [OF source_closable [OF Nil(1)]] w'] le_refl [OF w']
      by (subst limit_next.simps) auto
  qed
next
  case (Cons t ts)
  note c = closable_pair [OF source_closable [OF Cons.prems(1)]]
  show ?case
  proof (cases "0 \<le> n \<and> n \<le> emitted s")
    case True
    then have z: "(let us = drop (nat (k - skipped s)) (t # ts) in if n < 0 then us else take (nat (n - emitted s)) us) = []" by simp
    show ?thesis unfolding z
      by (rule source_endI [OF c], subst limit_next.simps) (use True closable_later [OF c] le_refl in fastforce)
  next
    case False
    have step: "\<exists>w1 c1. le w' w1 \<and> source le J nx cl w1 c1 ts \<and>
        limit_next n k nx ds w' (s, c) = (if skipped s < k then limit_next n k nx ds w1 (s\<lparr>skipped := skipped s + 1\<rparr>, ds c1)
          else Some (w1, (s\<lparr>emitted := emitted s + 1\<rparr>, c1), Inr t))" if w': "le w w'" for w'
    proof -
      obtain w1 c1 where "nx w' c = Some (w1, c1, Inr t)" "le w' w1" "source le J nx cl w1 c1 ts"
        by (rule source_Cons [OF Cons.prems(1) w'])
      then show ?thesis using False by (intro exI [of _ w1] exI [of _ c1]) (subst limit_next.simps, auto)
    qed
    let ?out = "\<lambda>s ts. let us = drop (nat (k - skipped s)) ts in if n < 0 then us else take (nat (n - emitted s)) us"
    show ?thesis
    proof (cases "skipped s < k")
      case True
      let ?s = "s\<lparr>skipped := skipped s + 1\<rparr>"
      have ds: "ds = id" using Cons.prems(2) True by (simp add: id_def)
      have "nat (k - skipped s) = Suc (nat (k - skipped ?s))" using True by simp
      then have e: "?out s (t # ts) = ?out ?s ts" by (simp add: Let_def)
      show ?thesis unfolding e
      proof (rule source_skipI [OF c])
        fix w' assume w': "le w w'"
        obtain w1 c1 where "le w' w1" "source le J nx cl w1 c1 ts" "limit_next n k nx ds w' (s, c) = limit_next n k nx ds w1 (?s, c1)"
          using step [OF w'] unfolding if_P [OF True] by (auto simp: ds)
        then show "\<exists>w1 c1. limit_next n k nx ds w' (s, c) = limit_next n k nx ds w1 c1 \<and> le w' w1 \<and>
            source le (\<lambda>sc. J (snd sc)) (limit_next n k nx ds) (pair_close cl) w1 c1 (?out ?s ts)"
          using Cons.IH [of w1 c1 ?s] ds by blast
      qed
    next
      case no_skip: False
      let ?s = "s\<lparr>emitted := emitted s + 1\<rparr>"
      have "nat (n - emitted s) = Suc (nat (n - emitted ?s))" if "\<not> n < 0" using that False by simp
      then have e: "?out s (t # ts) = t # ?out ?s ts" using no_skip by (simp add: Let_def)
      show ?thesis unfolding e
      proof (rule source_rowI [OF c])
        fix w' assume w': "le w w'"
        obtain w1 c1 where "le w' w1" "source le J nx cl w1 c1 ts" "limit_next n k nx ds w' (s, c) = Some (w1, (?s, c1), Inr t)"
          using step [OF w'] unfolding if_not_P [OF no_skip] by blast
        then show "\<exists>w'' c'. limit_next n k nx ds w' (s, c) = Some (w'', c', Inr t) \<and> le w' w'' \<and>
            source le (\<lambda>sc. J (snd sc)) (limit_next n k nx ds) (pair_close cl) w'' c' (?out ?s ts)"
          using Cons.IH [of w1 c1 ?s] Cons.prems(2) by simp
      qed
    qed
  qed
qed

text \<open>Delivering a collected list.\<close>

lemma closable_own:
  assumes "\<And>s. K s \<Longrightarrow> \<exists>s'. f s = Some s' \<and> K s'" "K s" "J c"
  shows "closable le (\<lambda>(s, c). K s \<and> J c) (own_close f) w (s, c)"
  using assms(1) [OF assms(2)] assms(2,3) le_refl unfolding closable_def own_close_def by fastforce

lemma closable_sort: "\<not> lost s \<Longrightarrow> J c \<Longrightarrow> closable le (\<lambda>sc. kept sc J) (own_close sort_close) w (s, c)"
  by (rule closable_own) (simp_all add: sort_close_def)

lemma closable_agg: "J c \<Longrightarrow> closable le (\<lambda>sc. J (snd sc)) (own_close (Some \<circ> hash_agg_close)) w (s, c)"
  unfolding closable_def own_close_def using le_refl by fastforce

lemma source_emit:
  assumes row: "\<And>k w. k < length rs \<Longrightarrow> nx w (f k) = Some (w, f (k + 1), Inr (rs ! k))"
    and stop: "\<And>w. nx w (f (length rs)) = Some (w, f (length rs), Inl rc)"
    and close: "\<And>k w. closable le J cl w (f k)"
  shows "k \<le> length rs \<Longrightarrow> source le J nx cl w (f k) (drop k rs)"
proof (induction "length rs - k" arbitrary: k w)
  case 0
  then have k: "k = length rs" by simp
  have e: "drop (length rs) rs = []" by simp
  show ?case unfolding k e by (rule source_endI [OF close]) (use stop close le_refl in blast)
next
  case (Suc d)
  then have "k < length rs" by simp
  then have e: "drop k rs = rs ! k # drop (k + 1) rs" by (simp add: Cons_nth_drop_Suc)
  have "source le J nx cl w (f (k + 1)) (drop (k + 1) rs)" for w by (rule Suc.hyps(1)) (use Suc.hyps(2) \<open>k < length rs\<close> in simp_all)
  then show ?case unfolding e by (rule_tac source_rowI [OF close]) (use row [OF \<open>k < length rs\<close>] le_refl in blast)
qed

text \<open>Sort.\<close>

lemma sort_emit:
  assumes "materialized s" "emit_index s = 0" "\<not> lost s" "J c"
  shows "source le (\<lambda>sc. kept sc J) (sort_next L items sch False nx cl) (own_close sort_close) w (s, c) (tuples s)"
proof -
  have s: "s\<lparr>emit_index := 0\<rparr> = s" using assms(2) by simp
  have "source le (\<lambda>sc. kept sc J) (sort_next L items sch False nx cl) (own_close sort_close) w (s\<lparr>emit_index := 0\<rparr>, c) (drop 0 (tuples s))"
    by (rule source_emit [where f = "\<lambda>k. (s\<lparr>emit_index := k\<rparr>, c)" and rc = "code_of DB_PAGE_NOT_FOUND"])
      (use assms in \<open>simp_all add: sort_next_def closable_sort\<close>)
  then show ?thesis unfolding s by simp
qed

lemma sort_source:
  assumes c: "source le J nx cl w c ts" and rs: "sort_rows L items sch ts = Some rs" and s: "\<not> materialized s" "\<not> lost s"
  shows "source le (\<lambda>sc. kept sc J) (sort_next L items sch False nx cl) (own_close sort_close) w (s, c) rs"
proof (rule source_skipI [OF closable_sort [OF s(2)]])
  show "J c" using source_closable [OF c] by (simp add: closable_def)
  fix w' assume w': "le w w'"
  obtain w1 c1 where d: "drain nx w' c = Some (w1, c1, ts)" "le w' w1" "closable le J cl w1 c1"
    using drain_source [OF c w'] by blast
  obtain w2 c2 where e: "cl w1 c1 = Some (w2, c2)" "le w1 w2" "J c2" by (rule closableE [OF d(3) le_refl [OF d(2)]])
  let ?s = "s\<lparr>materialized := True, tuples := rs, emit_index := 0\<rparr>"
  have m: "sort_materialize L items sch False nx cl w' s c = Some (w2, ?s, c2)"
    using d(1) e(1) rs by (auto simp: sort_materialize_def sort_rows_def split: if_splits)
  have "sort_next L items sch False nx cl w' (s, c) = sort_next L items sch False nx cl w2 (?s, c2)"
    using s by (simp add: sort_next_def m)
  moreover have "source le (\<lambda>sc. kept sc J) (sort_next L items sch False nx cl) (own_close sort_close) w2 (?s, c2) rs"
    using sort_emit [of ?s J c2 L items sch nx cl w2] e(3) s(2) by simp
  ultimately show "\<exists>w1 c1. sort_next L items sch False nx cl w' (s, c) = sort_next L items sch False nx cl w1 c1 \<and> le w' w1 \<and>
      source le (\<lambda>sc. kept sc J) (sort_next L items sch False nx cl) (own_close sort_close) w1 c1 rs"
    using le_trans [OF d(2) e(2)] by blast
qed

text \<open>Aggregation.\<close>

lemma map_rows_nth: "map_rows f xs = Some ys \<Longrightarrow> length ys = length xs \<and> (\<forall>i < length xs. f (xs ! i) = Some (ys ! i))"
proof (induction xs arbitrary: ys)
  case (Cons x xs)
  then obtain y ys' where "f x = Some y" "map_rows f xs = Some ys'" "ys = y # ys'" by (auto split: option.splits)
  then show ?case using Cons.IH [of ys'] by (auto simp: nth_Cons split: nat.split)
qed simp

lemma agg_emit:
  assumes s: "agg_done s" "agg_index s = 0" "J c" and rs: "map_rows (agg_output gs as) (agg_groups s) = Some rs"
  shows "source le (\<lambda>sc. J (snd sc)) (hash_agg_next L gs as sch nx id cl) (own_close (Some \<circ> hash_agg_close)) w (s, c) rs"
proof -
  have s0: "s\<lparr>agg_index := 0\<rparr> = s" using s(2) by simp
  have "source le (\<lambda>sc. J (snd sc)) (hash_agg_next L gs as sch nx id cl) (own_close (Some \<circ> hash_agg_close)) w (s\<lparr>agg_index := 0\<rparr>, c) (drop 0 rs)"
    by (rule source_emit [where f = "\<lambda>k. (s\<lparr>agg_index := k\<rparr>, c)" and rc = "code_of DB_PAGE_NOT_FOUND"])
      (use s map_rows_nth [OF rs] in \<open>simp_all add: hash_agg_next_def closable_agg\<close>)
  then show ?thesis unfolding s0 by simp
qed

lemma agg_source:
  assumes c: "source le J nx cl w c ts" and rs: "group_rows L gs as sch ts = Some rs" and s: "\<not> agg_done s" "agg_index s = 0"
  shows "source le (\<lambda>sc. J (snd sc)) (hash_agg_next L gs as sch nx id cl) (own_close (Some \<circ> hash_agg_close)) w (s, c) rs"
proof (rule source_skipI [OF closable_agg])
  show "J c" using source_closable [OF c] by (simp add: closable_def)
  fix w' assume w': "le w w'"
  obtain groups where g: "agg_rows L gs as sch ts [] = Some groups" "map_rows (agg_output gs as) groups = Some rs"
    using rs by (auto simp: group_rows_def bind_eq_Some_conv)
  obtain w1 c1 where d: "drain nx w' c = Some (w1, c1, ts)" "le w' w1" "closable le J cl w1 c1"
    using drain_source [OF c w'] by blast
  obtain w2 c2 where e: "cl w1 c1 = Some (w2, c2)" "le w1 w2" "J c2" by (rule closableE [OF d(3) le_refl [OF d(2)]])
  let ?s = "s\<lparr>agg_done := True, agg_groups := groups\<rparr>"
  have m: "agg_materialize L gs as sch nx id cl w' s c = Some (w2, ?s, c2)"
    using d(1) e(1) g(1) by (simp add: agg_materialize_def)
  have "hash_agg_next L gs as sch nx id cl w' (s, c) = hash_agg_next L gs as sch nx id cl w2 (?s, c2)"
    using s by (simp add: hash_agg_next_def m)
  moreover have "source le (\<lambda>sc. J (snd sc)) (hash_agg_next L gs as sch nx id cl) (own_close (Some \<circ> hash_agg_close)) w2 (?s, c2) rs"
    by (rule agg_emit) (use s e(3) g(2) in simp_all)
  ultimately show "\<exists>w1 c1. hash_agg_next L gs as sch nx id cl w' (s, c) = hash_agg_next L gs as sch nx id cl w1 c1 \<and> le w' w1 \<and>
      source le (\<lambda>sc. J (snd sc)) (hash_agg_next L gs as sch nx id cl) (own_close (Some \<circ> hash_agg_close)) w1 c1 rs"
    using le_trans [OF d(2) e(2)] by blast
qed

text \<open>Nested-loop join.\<close>

lemma closable_join:
  assumes c: "closable le J1 cl1 w c" and d: "closable le J2 cl2 w d"
  shows "closable le (\<lambda>(t, c, d). J1 c \<and> J2 d) (nl_join_close id cl1 cl2) w (t, c, d)"
  unfolding closable_def
proof (intro conjI allI impI)
  show "case (t, c, d) of (t, c, d) \<Rightarrow> J1 c \<and> J2 d" using c d by (simp add: closable_def)
  fix w' assume w': "le w w'"
  obtain w1 c1 where 1: "cl1 w' c = Some (w1, c1)" "le w' w1" "J1 c1" by (rule closableE [OF c w'])
  obtain w2 d2 where 2: "cl2 w1 d = Some (w2, d2)" "le w1 w2" "J2 d2" by (rule closableE [OF d le_trans [OF w' 1(2)]])
  show "\<exists>w'' c'. nl_join_close id cl1 cl2 w' (t, c, d) = Some (w'', c') \<and> le w' w'' \<and> (case c' of (t, c, d) \<Rightarrow> J1 c \<and> J2 d)"
    using 1 2 le_trans [OF 1(2) 2(2)] by (simp add: nl_join_close_def)
qed

lemma join_inner:
  assumes outer: "\<And>w c d rs. source le J1 nx1 cl1 w c ts \<Longrightarrow> closable le J2 cl2 w d \<Longrightarrow>
      join_rows L cond s (join_pairs ts us) = Some rs \<Longrightarrow>
      source le (\<lambda>(t, c, d). J1 c \<and> J2 d) (nl_join_next L cond s (nx1, id) ini2 (nx2, id) cl2) (nl_join_close id cl1 cl2) w (None, c, d) rs"
  shows "source le J2 nx2 cl2 w d vs \<Longrightarrow> source le J1 nx1 cl1 w c ts \<Longrightarrow>
    join_rows L cond s (map (Pair t) vs @ join_pairs ts us) = Some rs \<Longrightarrow>
    source le (\<lambda>(t, c, d). J1 c \<and> J2 d) (nl_join_next L cond s (nx1, id) ini2 (nx2, id) cl2) (nl_join_close id cl1 cl2) w (Some t, c, d) rs"
proof (induction vs arbitrary: w d rs)
  case Nil
  show ?case
  proof (rule source_skipI [OF closable_join [OF source_closable [OF Nil(2)] source_closable [OF Nil(1)]]])
    fix w' assume w': "le w w'"
    obtain w1 d1 rc where n: "nx2 w' d = Some (w1, d1, Inl rc)" "le w' w1" "closable le J2 cl2 w1 d1"
      by (rule source_Nil [OF Nil(1) w'])
    have "nl_join_next L cond s (nx1, id) ini2 (nx2, id) cl2 w' (Some t, c, d) = nl_join_next L cond s (nx1, id) ini2 (nx2, id) cl2 w1 (None, c, d1)"
      by (subst nl_join_next.simps) (simp add: n(1))
    moreover note outer [OF source_later [OF Nil(2) le_trans [OF w' n(2)]] n(3), of rs]
    ultimately show "\<exists>w1 c1. nl_join_next L cond s (nx1, id) ini2 (nx2, id) cl2 w' (Some t, c, d) = nl_join_next L cond s (nx1, id) ini2 (nx2, id) cl2 w1 c1 \<and>
        le w' w1 \<and> source le (\<lambda>(t, c, d). J1 c \<and> J2 d) (nl_join_next L cond s (nx1, id) ini2 (nx2, id) cl2) (nl_join_close id cl1 cl2) w1 c1 rs"
      using n(2) Nil(3) by (intro exI [of _ w1] exI [of _ "(None, c, d1)"]) simp
  qed
next
  case (Cons v vs)
  have "join_rows L cond s ((t, v) # map (Pair t) vs @ join_pairs ts us) = Some rs" using Cons.prems(3) by simp
  then obtain x pass rs' where x: "combine_tuples t v = Some x" "join_passes L cond x s = Some pass"
    "join_rows L cond s (map (Pair t) vs @ join_pairs ts us) = Some rs'" "rs = (if pass then x # rs' else rs')"
    by (rule join_rows_Cons)
  note c = closable_join [OF source_closable [OF Cons.prems(2)] source_closable [OF Cons.prems(1)]]
  have step: "\<exists>w1 d1. le w' w1 \<and>
      source le (\<lambda>(t, c, d). J1 c \<and> J2 d) (nl_join_next L cond s (nx1, id) ini2 (nx2, id) cl2) (nl_join_close id cl1 cl2) w1 (Some t, c, d1) rs' \<and>
      nl_join_next L cond s (nx1, id) ini2 (nx2, id) cl2 w' (Some t, c, d) =
        (if pass then Some (w1, (Some t, c, d1), Inr x) else nl_join_next L cond s (nx1, id) ini2 (nx2, id) cl2 w1 (Some t, c, d1))"
    if w': "le w w'" for w'
  proof -
    obtain w1 d1 where n: "nx2 w' d = Some (w1, d1, Inr v)" "le w' w1" "source le J2 nx2 cl2 w1 d1 vs"
      by (rule source_Cons [OF Cons.prems(1) w'])
    have "nl_join_next L cond s (nx1, id) ini2 (nx2, id) cl2 w' (Some t, c, d) =
        (if pass then Some (w1, (Some t, c, d1), Inr x) else nl_join_next L cond s (nx1, id) ini2 (nx2, id) cl2 w1 (Some t, c, d1))"
      by (subst nl_join_next.simps) (simp add: n(1) x(1,2))
    then show ?thesis using Cons.IH [OF n(3) source_later [OF Cons.prems(2) le_trans [OF w' n(2)]] x(3)] n(2) by blast
  qed
  show ?case
  proof (cases pass)
    case True
    then show ?thesis using x(4) step by (simp only: if_True) (rule source_rowI [OF c], metis)
  next
    case False
    then show ?thesis using x(4) step by (simp only: if_False) (rule source_skipI [OF c], metis)
  qed
qed

lemma join_source:
  assumes inner: "restarts le J2 ini2 nx2 cl2 us"
  shows "source le J1 nx1 cl1 w c ts \<Longrightarrow> closable le J2 cl2 w d \<Longrightarrow> join_rows L cond s (join_pairs ts us) = Some rs \<Longrightarrow>
    source le (\<lambda>(t, c, d). J1 c \<and> J2 d) (nl_join_next L cond s (nx1, id) ini2 (nx2, id) cl2) (nl_join_close id cl1 cl2) w (None, c, d) rs"
proof (induction ts arbitrary: w c d rs)
  case Nil
  then have rs: "rs = []" by (simp add: join_pairs_def)
  show ?case unfolding rs
  proof (rule source_endI [OF closable_join [OF source_closable [OF Nil(1)] Nil(2)]])
    fix w' assume w': "le w w'"
    obtain w1 c1 rc where n: "nx1 w' c = Some (w1, c1, Inl rc)" "le w' w1" "closable le J1 cl1 w1 c1"
      by (rule source_Nil [OF Nil(1) w'])
    show "\<exists>w'' c' rc. nl_join_next L cond s (nx1, id) ini2 (nx2, id) cl2 w' (None, c, d) = Some (w'', c', Inl rc) \<and> le w' w'' \<and>
        closable le (\<lambda>(t, c, d). J1 c \<and> J2 d) (nl_join_close id cl1 cl2) w'' c'"
      using closable_join [OF n(3) closable_later [OF Nil(2) le_trans [OF w' n(2)]]] n(2)
      by (subst nl_join_next.simps) (auto simp: n(1))
  qed
next
  case (Cons t ts)
  show ?case
  proof (rule source_skipI [OF closable_join [OF source_closable [OF Cons.prems(1)] Cons.prems(2)]])
    fix w' assume w': "le w w'"
    obtain w1 c1 where 1: "nx1 w' c = Some (w1, c1, Inr t)" "le w' w1" "source le J1 nx1 cl1 w1 c1 ts"
      by (rule source_Cons [OF Cons.prems(1) w'])
    obtain w2 d2 where 2: "cl2 w1 d = Some (w2, d2)" "le w1 w2" "J2 d2"
      by (rule closableE [OF Cons.prems(2) le_trans [OF w' 1(2)]])
    obtain w3 d3 where 3: "ini2 w2 d2 = Some (w3, d3, code_of DB_OK)" "le w2 w3" "source le J2 nx2 cl2 w3 d3 us"
      by (rule restartsE [OF inner le_refl [OF 2(2)] 2(3)])
    note l = le_trans [OF 2(2) 3(2)]
    have "nl_join_next L cond s (nx1, id) ini2 (nx2, id) cl2 w' (None, c, d) = nl_join_next L cond s (nx1, id) ini2 (nx2, id) cl2 w3 (Some t, c1, d3)"
      by (subst nl_join_next.simps) (simp add: 1(1) 2(1) 3(1))
    moreover have "source le (\<lambda>(t, c, d). J1 c \<and> J2 d) (nl_join_next L cond s (nx1, id) ini2 (nx2, id) cl2) (nl_join_close id cl1 cl2) w3 (Some t, c1, d3) rs"
      using join_inner [OF Cons.IH 3(3) source_later [OF 1(3) l]] Cons.prems(3) by (simp add: join_pairs_def)
    ultimately show "\<exists>w1 c1. nl_join_next L cond s (nx1, id) ini2 (nx2, id) cl2 w' (None, c, d) = nl_join_next L cond s (nx1, id) ini2 (nx2, id) cl2 w1 c1 \<and>
        le w' w1 \<and> source le (\<lambda>(t, c, d). J1 c \<and> J2 d) (nl_join_next L cond s (nx1, id) ini2 (nx2, id) cl2) (nl_join_close id cl1 cl2) w1 c1 rs"
      using le_trans [OF 1(2) l] by blast
  qed
qed

subsection \<open>Initialisation\<close>

text \<open>An operator that keeps a state s beside that of its child: what \<open>init\<close> makes of s, and the rows from there.\<close>

lemma restarts_pair:
  fixes f :: "'s \<Rightarrow> 's" and ini :: "('w, 'c) init_fn"
  assumes child: "restarts le J ini nx cl ts" and K: "\<And>sc. K sc \<Longrightarrow> J (snd sc)"
    and src: "\<And>w c s. source le J nx cl w c ts \<Longrightarrow> source le K nx' cl' w (f s, c) rs"
  shows "restarts le K (pair_init f ini) nx' cl' rs"
  unfolding restarts_def
proof (intro allI impI)
  fix w and sc :: "'s \<times> 'c" assume w: "le w w" "K sc"
  obtain w1 c1 where "ini w (snd sc) = Some (w1, c1, code_of DB_OK)" "le w w1" "source le J nx cl w1 c1 ts"
    by (rule restartsE [OF child w(1) K [OF w(2)]])
  then show "\<exists>w' c'. pair_init f ini w sc = Some (w', c', code_of DB_OK) \<and> le w w' \<and> source le K nx' cl' w' c' rs"
    using src [of w1 c1 "fst sc"] by (simp add: pair_init_def)
qed

lemma restarts_plain:
  assumes child: "restarts le J ini nx cl ts"
    and src: "\<And>w c. source le J nx cl w c ts \<Longrightarrow> source le J nx' cl w c rs"
  shows "restarts le J ini nx' cl rs"
  using child src unfolding restarts_def by blast

lemma restarts_join:
  fixes ini1 :: "('w, 'c) init_fn" and ini2 :: "('w, 'd) init_fn"
  assumes 1: "restarts le J1 ini1 nx1 cl1 ts" and 2: "restarts le J2 ini2 nx2 cl2 us"
    and rs: "join_rows L cond s (join_pairs ts us) = Some rs"
  shows "restarts le (\<lambda>(t, c, d). J1 c \<and> J2 d) (nl_join_init ini1 ini2) (nl_join_next L cond s (nx1, id) ini2 (nx2, id) cl2)
    (nl_join_close id cl1 cl2) rs"
  unfolding restarts_def
proof (intro allI impI)
  fix w and st :: "tuple option \<times> 'c \<times> 'd" assume w: "le w w" and st: "case st of (t, c, d) \<Rightarrow> J1 c \<and> J2 d"
  obtain t c d where s: "st = (t, c, d)" by (cases st)
  then have J: "J1 c" "J2 d" using st by simp_all
  obtain w1 c1 where i: "ini1 w c = Some (w1, c1, code_of DB_OK)" "le w w1" "source le J1 nx1 cl1 w1 c1 ts"
    by (rule restartsE [OF 1 w J(1)])
  obtain w2 d2 where k: "ini2 w1 d = Some (w2, d2, code_of DB_OK)" "le w1 w2" "source le J2 nx2 cl2 w2 d2 us"
    by (rule restartsE [OF 2 le_refl [OF i(2)] J(2)])
  show "\<exists>w' c'. nl_join_init ini1 ini2 w st = Some (w', c', code_of DB_OK) \<and> le w w' \<and>
      source le (\<lambda>(t, c, d). J1 c \<and> J2 d) (nl_join_next L cond s (nx1, id) ini2 (nx2, id) cl2) (nl_join_close id cl1 cl2) w' c' rs"
    using i(1) k(1) le_trans [OF i(2) k(2)] join_source [OF 2 source_later [OF i(3) k(2)] source_closable [OF k(3)] rs]
    by (simp add: nl_join_init_def s)
qed

text \<open>From the states of one kind of executor to the states of all.\<close>

lemma source_lift:
  assumes gf: "\<And>x. g (f x) = Some x"
  shows "source le J nx cl w x rs \<Longrightarrow>
    source le (\<lambda>st. \<exists>x. st = f x \<and> J x) (on_next f g nx) (on_close f g cl) w (f x) rs"
proof (induction rs arbitrary: w x)
  case Nil
  have c: "closable le (\<lambda>st. \<exists>x. st = f x \<and> J x) (on_close f g cl) w (f x)" if "closable le J cl w x" for w x
    using that gf unfolding closable_def on_close_def by fastforce
  show ?case
  proof (rule source_endI [OF c [OF source_closable [OF Nil]]])
    fix w' assume "le w w'"
    then obtain w1 x1 rc where "nx w' x = Some (w1, x1, Inl rc)" "le w' w1" "closable le J cl w1 x1" by (rule source_Nil [OF Nil])
    then show "\<exists>w'' c' rc. on_next f g nx w' (f x) = Some (w'', c', Inl rc) \<and> le w' w'' \<and>
        closable le (\<lambda>st. \<exists>x. st = f x \<and> J x) (on_close f g cl) w'' c'"
      using c by (simp add: on_next_def gf)
  qed
next
  case (Cons r rs)
  have c: "closable le (\<lambda>st. \<exists>x. st = f x \<and> J x) (on_close f g cl) w (f x)"
    using source_closable [OF Cons.prems] gf unfolding closable_def on_close_def by fastforce
  show ?case
  proof (rule source_rowI [OF c])
    fix w' assume "le w w'"
    then obtain w1 x1 where "nx w' x = Some (w1, x1, Inr r)" "le w' w1" "source le J nx cl w1 x1 rs" by (rule source_Cons [OF Cons.prems])
    then show "\<exists>w'' c'. on_next f g nx w' (f x) = Some (w'', c', Inr r) \<and> le w' w'' \<and>
        source le (\<lambda>st. \<exists>x. st = f x \<and> J x) (on_next f g nx) (on_close f g cl) w'' c' rs"
      using Cons.IH by (intro exI [of _ w1] exI [of _ "f x1"]) (subst on_next_def, simp add: gf)
  qed
qed

lemma restarts_lift:
  assumes gf: "\<And>x. g (f x) = Some x" and r: "restarts le J ini nx cl rs"
  shows "restarts le (\<lambda>st. \<exists>x. st = f x \<and> J x) (on_init f g ini) (on_next f g nx) (on_close f g cl) rs"
  unfolding restarts_def
proof (intro allI impI)
  fix w st assume w: "le w w" and st: "\<exists>x. st = f x \<and> J x"
  then obtain x where x: "st = f x" "J x" by blast
  obtain w1 x1 where "ini w x = Some (w1, x1, code_of DB_OK)" "le w w1" "source le J nx cl w1 x1 rs"
    by (rule restartsE [OF r w x(2)])
  then show "\<exists>w' c'. on_init f g ini w st = Some (w', c', code_of DB_OK) \<and> le w w' \<and>
      source le (\<lambda>st. \<exists>x. st = f x \<and> J x) (on_next f g nx) (on_close f g cl) w' c' rs"
    using source_lift [OF gf] by (simp add: on_init_def gf x)
qed

end

interpretation pool: worlds "pool_le V" for V
  by unfold_locales (use pool_le_trans pool_le_refl pool_le_has in \<open>blast+\<close>)

section \<open>The sequential scan\<close>

text \<open>The tuples of a page from slot k on: record id, the memory at the tuple, size.\<close>

definition stored_from :: "int \<Rightarrow> buffer \<Rightarrow> nat \<Rightarrow> (rid \<times> buffer \<times> nat) list" where
  "stored_from p d k =
     List.map_filter (\<lambda>i. if slot_get_size d i > 0
        then Some (\<lparr>rid_page = p, rid_slot = int i\<rparr>, (\<lambda>x. d (slot_get_offset d i + x)), slot_get_size d i) else None) [k..<nslots d]"

definition heap_stored :: "(int \<Rightarrow> buffer option) \<Rightarrow> int list \<Rightarrow> (rid \<times> buffer \<times> nat) list" where
  "heap_stored V ps = concat (map (\<lambda>p. case V p of None \<Rightarrow> [] | Some d \<Rightarrow> stored_from p d 0) ps)"

lemma stored_from_next:
  "stored_from p d k =
     (let j = next_live d (nslots d) k in
      if j < nslots d
      then (\<lparr>rid_page = p, rid_slot = int j\<rparr>, (\<lambda>x. d (slot_get_offset d j + x)), slot_get_size d j) # stored_from p d (j + 1)
      else [])"
proof (induction d "nslots d" k rule: next_live.induct)
  case (1 d k)
  show ?case
  proof (cases "k < nslots d \<and> slot_get_size d k = 0")
    case True
    then have "stored_from p d k = stored_from p d (k + 1)"
      by (simp add: stored_from_def upt_conv_Cons map_filter_simps)
    moreover have "next_live d (nslots d) k = next_live d (nslots d) (k + 1)"
      using True by (subst next_live.simps) simp
    ultimately show ?thesis using 1 True by simp
  next
    case False
    then have "next_live d (nslots d) k = k" by (subst next_live.simps) auto
    then show ?thesis using False
      by (auto simp: stored_from_def upt_conv_Cons map_filter_simps)
  qed
qed

text \<open>They are the tuples of the heap file.\<close>

lemma heap_stored_tuples: "map (\<lambda>(r, m, sz). (r, mem_read m 0 sz)) (heap_stored V ps) = heap_tuples V ps"
proof -
  have "map (\<lambda>(r, m, sz). (r, mem_read m 0 sz)) (stored_from p d k) = tuples_from p d k" for p d k
    by (auto simp: stored_from_def tuples_from_def map_filter_def slot_data_def mem_read_def filter_map comp_def
        intro!: map_cong filter_cong)
  then show ?thesis
    by (auto simp: heap_stored_def heap_tuples_def page_tuples_def map_concat comp_def intro!: arg_cong [of _ _ concat] split: option.split)
qed

definition iter_state :: "(int \<Rightarrow> buffer option) \<Rightarrow> bpm \<Rightarrow> bpm_heap_iter \<Rightarrow> (rid \<times> buffer \<times> nat) list \<Rightarrow> bool" where
  "iter_state V b it xs \<longleftrightarrow>
     (\<exists>ps. case bi_frame it of
        None \<Rightarrow> chain V (bi_page it) ps \<and> xs = heap_stored V ps
      | Some f \<Rightarrow>
          (\<exists>d. bi_page it \<noteq> INVALID_PAGE_ID \<and> table_lookup b (bi_page it) = Some f \<and> V (bi_page it) = Some d \<and>
             chain V (page_header_get_next_page d) ps \<and> xs = stored_from (bi_page it) d (bi_slot it) @ heap_stored V ps))"

definition iter_step :: "(int \<Rightarrow> buffer option) \<Rightarrow> bpm \<Rightarrow> (rid \<times> buffer \<times> nat) list \<Rightarrow>
    ((int + rid \<times> (nat \<times> nat) \<times> nat) \<times> bpm_heap_iter \<times> bpm) option \<Rightarrow> bool" where
  "iter_step V b xs r \<longleftrightarrow>
     (case xs of
        [] \<Rightarrow> (\<exists>it' b'. r = Some (end_of_stream, it', b') \<and> pool_le V b b' \<and> bi_frame it' = None)
      | (rid, m, sz) # xs' \<Rightarrow>
          (\<exists>q it' b'. r = Some (Inr (rid, q, sz), it', b') \<and> ptr_buffer b' q = m \<and> pool_le V b b' \<and> iter_state V b' it' xs'))"

lemma iter_step_later: "iter_step V b' xs r \<Longrightarrow> pool_le V b b' \<Longrightarrow> iter_step V b xs r"
  unfolding iter_step_def using pool_le_trans by (fastforce split: list.splits)

lemma iter_state_later: "iter_state V b it xs \<Longrightarrow> pool_le V b b' \<Longrightarrow> iter_state V b' it xs"
  unfolding iter_state_def using pool_le_lookup by (fastforce split: option.splits)

lemma iter_step_loaded:
  assumes next_pages: "\<And>it b. pool_has V b \<Longrightarrow> bi_frame it = None \<Longrightarrow> chain V (bi_page it) ps \<Longrightarrow>
      iter_step V b (heap_stored V ps) (bpm_heap_iter_next it b)"
    and h: "pool_le V b0 b" and it: "bi_page it \<noteq> INVALID_PAGE_ID" "V (bi_page it) = Some d" "chain V (page_header_get_next_page d) ps"
    and f: "table_lookup b (bi_page it) = Some f" and pin: "bpm_heap_iter_pin it b0 = Some (Some (f, k), b)"
  shows "iter_step V b0 (stored_from (bi_page it) d k @ heap_stored V ps) (bpm_heap_iter_next it b0)"
proof -
  have hb: "pool_has V b" using pool_le_has [OF h] by simp
  have fd: "frame_data b f = d" by (rule pool_frame [OF hb it(2) f])
  show ?thesis
  proof (cases "next_live d (nslots d) k < nslots d")
    case True
    let ?j = "next_live d (nslots d) k"
    have "bpm_heap_iter_next it b0 = Some (Inr (\<lparr>rid_page = bi_page it, rid_slot = int ?j\<rparr>, (f, slot_get_offset d ?j), slot_get_size d ?j),
        it\<lparr>bi_slot := ?j + 1, bi_frame := Some f\<rparr>, b)"
      using it(1) True by (subst bpm_heap_iter_next.simps) (simp add: pin fd Let_def)
    moreover have "iter_state V b (it\<lparr>bi_slot := ?j + 1, bi_frame := Some f\<rparr>) (stored_from (bi_page it) d (?j + 1) @ heap_stored V ps)"
      using it f by (auto simp: iter_state_def)
    moreover have "ptr_buffer b (f, slot_get_offset d ?j) = (\<lambda>x. d (slot_get_offset d ?j + x))"
      by (simp add: ptr_buffer_def fd)
    ultimately show ?thesis using True h by (subst stored_from_next) (simp add: iter_step_def Let_def)
  next
    case False
    obtain b1 where u: "unpin (bi_page it) False b = Some b1" "pool_le V b b1" by (rule pool_unpin [OF hb it(2)])
    let ?it = "it\<lparr>bi_page := page_header_get_next_page d, bi_slot := next_live d (nslots d) k, bi_frame := None\<rparr>"
    have "bpm_heap_iter_next it b0 = bpm_heap_iter_next ?it b1"
      using it(1) False by (subst bpm_heap_iter_next.simps) (simp add: pin fd u(1) Let_def)
    moreover have "iter_step V b1 (heap_stored V ps) (bpm_heap_iter_next ?it b1)"
      by (rule next_pages) (use pool_le_has [OF u(2)] it(3) in simp_all)
    moreover have "stored_from (bi_page it) d k = []" using False by (subst stored_from_next) (simp add: Let_def)
    ultimately show ?thesis using iter_step_later pool_le_trans [OF h u(2)] by simp
  qed
qed

lemma iter_step_unloaded:
  "pool_has V b \<Longrightarrow> bi_frame it = None \<Longrightarrow> chain V (bi_page it) ps \<Longrightarrow> iter_step V b (heap_stored V ps) (bpm_heap_iter_next it b)"
proof (induction ps arbitrary: it b)
  case Nil
  then show ?case by (subst bpm_heap_iter_next.simps) (simp add: iter_step_def heap_stored_def pool_le_refl)
next
  case (Cons p ps)
  then obtain d where d: "bi_page it = p" "p \<noteq> -1" "V p = Some d" "chain V (page_header_get_next_page d) ps" by auto
  obtain f b' where b': "bpm_fetch_page p b = Some (Some f, b')" "pool_le V b b'" "table_lookup b' p = Some f"
    by (rule pool_fetch [OF Cons.prems(1) d(3)])
  have "iter_step V b (stored_from (bi_page it) d 0 @ heap_stored V ps) (bpm_heap_iter_next it b)"
    by (rule iter_step_loaded [OF Cons.IH b'(2)])
      (use d b' Cons.prems(2) in \<open>simp_all add: bpm_heap_iter_pin_def\<close>)
  then show ?case using d by (simp add: heap_stored_def)
qed

lemma iter_next_step:
  assumes h: "pool_has V b" and it: "iter_state V b it xs"
  shows "iter_step V b xs (bpm_heap_iter_next it b)"
proof (cases "bi_frame it")
  case None
  then show ?thesis using it iter_step_unloaded [OF h None] by (auto simp: iter_state_def)
next
  case (Some f)
  then obtain ps d where d: "bi_page it \<noteq> INVALID_PAGE_ID" "table_lookup b (bi_page it) = Some f" "V (bi_page it) = Some d"
    "chain V (page_header_get_next_page d) ps" "xs = stored_from (bi_page it) d (bi_slot it) @ heap_stored V ps"
    using it by (auto simp: iter_state_def)
  show ?thesis unfolding d(5)
    by (rule iter_step_loaded [OF iter_step_unloaded pool_le_refl [OF h] d(1,3,4,2)]) (simp_all add: bpm_heap_iter_pin_def Some)
qed

lemma iter_closable:
  assumes "bi_frame it = None \<or> iter_state V b it xs"
  shows "closable (pool_le V) (\<lambda>_. True) seq_scan_close b it"
  unfolding closable_def
proof (intro conjI TrueI allI impI)
  fix b' assume le: "pool_le V b b'"
  then have h: "pool_has V b'" using pool_le_has by blast
  show "\<exists>b'' it'. seq_scan_close b' it = Some (b'', it') \<and> pool_le V b' b'' \<and> True"
  proof (cases "bi_frame it")
    case None
    then show ?thesis using pool_le_refl [OF h] by (simp add: seq_scan_close_def bpm_heap_iter_destroy_def)
  next
    case (Some f)
    then obtain d where "V (bi_page it) = Some d" using assms by (auto simp: iter_state_def)
    then obtain b1 where "unpin (bi_page it) False b' = Some b1" "pool_le V b' b1" by (rule pool_unpin [OF h])
    then show ?thesis by (simp add: seq_scan_close_def bpm_heap_iter_destroy_def Some)
  qed
qed

text \<open>What the scan makes of a stored tuple: undefined, left out, or a row.\<close>

definition scan_row :: "libc \<Rightarrow> schema \<Rightarrow> expr option \<Rightarrow> rid \<times> buffer \<times> nat \<Rightarrow> tuple option option" where
  "scan_row L s pred x =
     (case x of (r, m, sz) \<Rightarrow>
        (case tuple_deserialize blank_tuple s m sz of
           None \<Rightarrow> None
         | Some (rc, t) \<Rightarrow>
             if rc \<noteq> DB_OK then Some None
             else map_option (\<lambda>pass. if pass then Some (t\<lparr>tup_rid := r\<rparr>) else None) (scan_passes L pred (t\<lparr>tup_rid := r\<rparr>) s)))"

definition scan_rows :: "libc \<Rightarrow> schema \<Rightarrow> expr option \<Rightarrow> (rid \<times> buffer \<times> nat) list \<Rightarrow> tuple list option" where
  "scan_rows L s pred xs = map_option (List.map_filter id) (map_rows (scan_row L s pred) xs)"

lemma seq_scan_source:
  "pool_has V b \<Longrightarrow> iter_state V b it xs \<Longrightarrow> scan_rows L s pred xs = Some rs \<Longrightarrow>
   source (pool_le V) (\<lambda>_. True) (seq_scan_next L s pred) seq_scan_close b it rs"
proof (induction xs arbitrary: b it rs)
  case Nil
  then have rs: "rs = []" by (simp add: scan_rows_def map_filter_simps)
  show ?case unfolding rs
  proof (rule pool.source_endI [OF iter_closable])
    show "bi_frame it = None \<or> iter_state V b it []" using Nil(2) by simp
    fix b' assume le: "pool_le V b b'"
    have "iter_step V b' [] (bpm_heap_iter_next it b')"
      by (rule iter_next_step [OF _ iter_state_later [OF Nil(2) le]]) (use pool_le_has [OF le] in simp)
    then show "\<exists>b'' it' rc. seq_scan_next L s pred b' it = Some (b'', it', Inl rc) \<and> pool_le V b' b'' \<and>
        closable (pool_le V) (\<lambda>_. True) seq_scan_close b'' it'"
      using iter_closable by (subst seq_scan_next.simps) (fastforce simp: iter_step_def)
  qed
next
  case (Cons x xs)
  obtain r m sz where x: "x = (r, m, sz)" by (cases x)
  obtain res rs' where o: "scan_row L s pred x = Some res" "scan_rows L s pred xs = Some rs'" "rs = (case res of None \<Rightarrow> rs' | Some t \<Rightarrow> t # rs')"
    using Cons.prems(3) by (auto simp: scan_rows_def map_filter_simps split: option.splits)
  have c: "closable (pool_le V) (\<lambda>_. True) seq_scan_close b it" by (rule iter_closable [where xs = "x # xs"]) (use Cons.prems(2) in simp)
  have step: "\<exists>b1 it1. pool_le V b' b1 \<and> source (pool_le V) (\<lambda>_. True) (seq_scan_next L s pred) seq_scan_close b1 it1 rs' \<and>
      seq_scan_next L s pred b' it = (case res of None \<Rightarrow> seq_scan_next L s pred b1 it1 | Some t \<Rightarrow> Some (b1, it1, Inr t))"
    if le: "pool_le V b b'" for b'
  proof -
    have "iter_step V b' (x # xs) (bpm_heap_iter_next it b')"
      by (rule iter_next_step [OF _ iter_state_later [OF Cons.prems(2) le]]) (use pool_le_has [OF le] in simp)
    then obtain q it1 b1 where n: "bpm_heap_iter_next it b' = Some (Inr (r, q, sz), it1, b1)" "ptr_buffer b1 q = m" "pool_le V b' b1"
      "iter_state V b1 it1 xs"
      by (auto simp: iter_step_def x)
    have "seq_scan_next L s pred b' it = (case res of None \<Rightarrow> seq_scan_next L s pred b1 it1 | Some t \<Rightarrow> Some (b1, it1, Inr t))"
      using o(1) by (subst seq_scan_next.simps) (auto simp: n(1,2) x scan_row_def Let_def split: option.splits prod.splits if_splits)
    then show ?thesis using Cons.IH [OF _ n(4) o(2)] pool_le_has [OF n(3)] n(3) by blast
  qed
  show ?case
  proof (cases res)
    case None
    then show ?thesis using o(3) step by (simp only: option.case) (rule pool.source_skipI [OF c], metis)
  next
    case (Some t)
    then show ?thesis using o(3) step by (simp only: option.case) (rule pool.source_rowI [OF c], metis)
  qed
qed

lemma seq_scan_restarts:
  assumes "chain V (bh_first hf) ps" "scan_rows L s pred (heap_stored V ps) = Some rs"
  shows "restarts (pool_le V) (\<lambda>_. True) (seq_scan_init hf) (seq_scan_next L s pred) seq_scan_close rs"
  unfolding restarts_def
proof (intro allI impI)
  fix b and it :: bpm_heap_iter assume "pool_le V b b"
  moreover have "iter_state V b (bpm_heap_iter_init hf) (heap_stored V ps)"
    using assms(1) by (auto simp: iter_state_def bpm_heap_iter_init_def)
  ultimately show "\<exists>b' it'. seq_scan_init hf b it = Some (b', it', code_of DB_OK) \<and> pool_le V b b' \<and>
      source (pool_le V) (\<lambda>_. True) (seq_scan_next L s pred) seq_scan_close b' it' rs"
    using seq_scan_source [OF _ _ assms(2)] pool_le_has by (simp add: seq_scan_init_def)
qed

section \<open>Trees of read-only executors\<close>

text \<open>The rows of a tree over the pages V, as relational operators on lists. The rows have to be defined for the whole of
  every table that is read, even where a LIMIT would stop early. The rows of a SORT cannot be handed to an executor that destroys
  or keeps them, only to one that hands them on: a LIMIT that skips none.\<close>

lemma exec_drop_id: "\<not> rows_freed q \<Longrightarrow> exec_drop q = id"
proof (induction q)
  case (UPDATE hf s as q)
  then show ?case by (cases q) (auto simp: fun_eq_iff split: estate.split)
next
  case (DELETE hf s q)
  then show ?case by (cases q) (auto simp: fun_eq_iff split: estate.split)
qed (auto simp: fun_eq_iff split: estate.split)

inductive query :: "libc \<Rightarrow> (int \<Rightarrow> buffer option) \<Rightarrow> exec \<Rightarrow> tuple list \<Rightarrow> bool" for L V where
  scan: "chain V (bh_first hf) ps \<Longrightarrow> scan_rows L s pred (heap_stored V ps) = Some rs \<Longrightarrow> query L V (SEQ_SCAN hf s pred out) rs"
| filter: "query L V q ts \<Longrightarrow> \<not> rows_freed q \<Longrightarrow> filter_rows (\<lambda>t. passes L e t out) ts = Some rs \<Longrightarrow> query L V (FILTER e out q) rs"
| project: "query L V q ts \<Longrightarrow> \<not> rows_freed q \<Longrightarrow> map_rows (project_row L es (output_schema q)) ts = Some rs \<Longrightarrow> query L V (PROJECT es out q) rs"
| limit: "query L V q ts \<Longrightarrow> \<not> rows_freed q \<or> k \<le> 0 \<Longrightarrow> query L V (LIMIT n k out q) (limit_rows n k ts)"
| sort: "query L V q ts \<Longrightarrow> \<not> rows_freed q \<Longrightarrow> sort_rows L items out ts = Some rs \<Longrightarrow> query L V (SORT items out q) rs"
| join: "query L V p ts \<Longrightarrow> query L V q us \<Longrightarrow> \<not> rows_freed p \<Longrightarrow> \<not> rows_freed q \<Longrightarrow>
    join_rows L cond out (join_pairs ts us) = Some rs \<Longrightarrow> query L V (NL_JOIN cond out p q) rs"
| agg: "query L V q ts \<Longrightarrow> \<not> rows_freed q \<Longrightarrow> group_rows L gs as (output_schema q) ts = Some rs \<Longrightarrow> query L V (HASH_AGG gs as out q) rs"

lemma get_simps [simp]:
  "get_scan (S_SCAN it) = Some it" "get_plain (S_PLAIN c) = Some c" "get_limit (case_prod S_LIMIT lc) = Some lc"
  "get_sort (case_prod S_SORT sc) = Some sc" "get_join (case tcd of (t, c, d) \<Rightarrow> S_JOIN t c d) = Some tcd"
  "get_agg (case_prod S_AGG ac) = Some ac"
  by (simp_all add: get_defs split: prod.split)

lemmas lift_scan = pool.restarts_lift [where f = S_SCAN and g = get_scan, OF get_simps(1)]
lemmas lift_plain = pool.restarts_lift [where f = S_PLAIN and g = get_plain, OF get_simps(2)]
lemmas lift_limit = pool.restarts_lift [where f = "case_prod S_LIMIT" and g = get_limit, OF get_simps(3)]
lemmas lift_sort = pool.restarts_lift [where f = "case_prod S_SORT" and g = get_sort, OF get_simps(4)]
lemmas lift_join = pool.restarts_lift [where f = "\<lambda>(t, c, d). S_JOIN t c d" and g = get_join, OF get_simps(5)]
lemmas lift_agg = pool.restarts_lift [where f = "case_prod S_AGG" and g = get_agg, OF get_simps(6)]

text \<open>Every tree delivers the rows of its query whenever it is initialised.\<close>

lemma query_restarts:
  "query L V e rs \<Longrightarrow>
   \<exists>J. J (create_state e) \<and> restarts (pool_le V) J (exec_init e) (exec_next L m e) (exec_close e) rs"
proof (induction rule: query.induct)
  case (scan hf ps s pred rs out)
  show ?case
    using lift_scan [OF seq_scan_restarts [OF scan]] by (intro exI conjI) (auto simp: fun_eq_iff)
next
  case (filter q ts e out rs)
  then obtain J where J: "J (create_state q)" "restarts (pool_le V) J (exec_init q) (exec_next L m q) (exec_close q) ts" by blast
  have "restarts (pool_le V) J (exec_init q) (filter_next L e out (exec_next L m q) id) (exec_close q) rs"
    by (rule pool.restarts_plain [OF J(2)]) (rule pool.filter_source [OF _ filter(3)])
  from lift_plain [OF this] show ?case using J(1) filter(2) by (intro exI conjI) (auto simp: exec_drop_id)
next
  case (project q ts es rs out)
  then obtain J where J: "J (create_state q)" "restarts (pool_le V) J (exec_init q) (exec_next L m q) (exec_close q) ts" by blast
  have "restarts (pool_le V) J (exec_init q) (project_next L es (output_schema q) (exec_next L m q) id) (exec_close q) rs"
    by (rule pool.restarts_plain [OF J(2)]) (rule pool.project_source [OF _ project(3)])
  from lift_plain [OF this] show ?case using J(1) project(2) by (intro exI conjI) (auto simp: exec_drop_id)
next
  case (limit q ts k n out)
  then obtain J where J: "J (create_state q)" "restarts (pool_le V) J (exec_init q) (exec_next L m q) (exec_close q) ts" by blast
  have "restarts (pool_le V) (\<lambda>sc. J (snd sc)) (pair_init limit_init (exec_init q)) (limit_next n k (exec_next L m q) (exec_drop q))
      (pair_close (exec_close q)) (limit_rows n k ts)"
  proof (rule pool.restarts_pair [OF J(2)])
    show "J (snd sc)" if "J (snd sc)" for sc using that .
    fix b c s assume "source (pool_le V) J (exec_next L m q) (exec_close q) b c ts"
    have "exec_drop q = id \<or> k \<le> skipped (limit_init s)" using limit(2) exec_drop_id by (auto simp: limit_init_def)
    from pool.limit_source [OF \<open>source _ _ _ _ _ _ _\<close> this, of n]
    show "source (pool_le V) (\<lambda>sc. J (snd sc)) (limit_next n k (exec_next L m q) (exec_drop q)) (pair_close (exec_close q)) b (limit_init s, c)
        (limit_rows n k ts)" by (cases "n < 0") (simp_all add: limit_init_def limit_rows_def Let_def)
  qed
  from lift_limit [OF this] show ?case using J(1) by (intro exI conjI) auto
next
  case (sort q ts items out rs)
  then obtain J where J: "J (create_state q)" "restarts (pool_le V) J (exec_init q) (exec_next L m q) (exec_close q) ts" by blast
  have "restarts (pool_le V) (\<lambda>sc. kept sc J) (pair_init sort_init (exec_init q))
      (sort_next L items out False (exec_next L m q) (exec_close q)) (own_close sort_close) rs"
    by (rule pool.restarts_pair [OF J(2)]) (auto intro: pool.sort_source [OF _ sort(3)] simp: sort_init_def)
  from lift_sort [OF this] show ?case using J(1) sort(2) by (intro exI conjI) auto
next
  case (join p ts q us cond out rs)
  then obtain J1 J2 where J: "J1 (create_state p)" "restarts (pool_le V) J1 (exec_init p) (exec_next L m p) (exec_close p) ts"
    "J2 (create_state q)" "restarts (pool_le V) J2 (exec_init q) (exec_next L m q) (exec_close q) us" by blast
  from lift_join [OF pool.restarts_join [OF J(2,4) join(5)]]
  show ?case using J(1,3) join(3,4) by (intro exI conjI) (auto simp: exec_drop_id)
next
  case (agg q ts gs as rs out)
  then obtain J where J: "J (create_state q)" "restarts (pool_le V) J (exec_init q) (exec_next L m q) (exec_close q) ts" by blast
  have "restarts (pool_le V) (\<lambda>sc. J (snd sc)) (pair_init hash_agg_init (exec_init q))
      (hash_agg_next L gs as (output_schema q) (exec_next L m q) id (exec_close q)) (own_close (Some \<circ> hash_agg_close)) rs"
    by (rule pool.restarts_pair [OF J(2)]) (auto intro: pool.agg_source [OF _ agg(3)] simp: hash_agg_init_def)
  from lift_agg [OF this] show ?case using J(1) agg(2) by (intro exI conjI) (auto simp: exec_drop_id)
qed

lemma exec_run_query:
  assumes h: "pool_has V b" and q: "query L V e rs"
  obtains b' st where "exec_run L m e b = Some (rs, b', st)" "pool_has V b'"
proof -
  obtain J where J: "J (create_state e)" "restarts (pool_le V) J (exec_init e) (exec_next L m e) (exec_close e) rs"
    using query_restarts [OF q] by blast
  obtain b1 c1 where 1: "exec_init e b (create_state e) = Some (b1, c1, code_of DB_OK)" "pool_le V b b1"
    "source (pool_le V) J (exec_next L m e) (exec_close e) b1 c1 rs"
    by (rule pool.restartsE [OF J(2) pool_le_refl [OF h] J(1)])
  obtain b2 c2 where 2: "drain (exec_next L m e) b1 c1 = Some (b2, c2, rs)" "pool_le V b1 b2" "closable (pool_le V) J (exec_close e) b2 c2"
    using pool.drain_source [OF 1(3) pool.le_refl [OF 1(2)]] by blast
  obtain b3 c3 where 3: "exec_close e b2 c2 = Some (b3, c3)" "pool_le V b2 b3" by (rule pool.closableE [OF 2(3) pool.le_refl [OF 2(2)]])
  show ?thesis by (rule that [of b3 c3]) (use 1(1) 2(1) 3(1) pool_le_has [OF 3(2)] in \<open>simp_all add: exec_run_def\<close>)
qed

end
