(* ===== verification/Query_Spec.thy ===== *)
theory Query_Spec
  imports Exec_Spec "HOL-Library.Multiset"
begin

text \<open>
  What the rows of a tree mean: the contract of the C library's \<open>strcmp\<close> and \<open>qsort\<close> and what follows for ORDER BY,
  a filter merged into a scan, what aggregates count; then a table in a pool, and queries on it.
\<close>

section \<open>The contract of the C library\<close>

text \<open>\<open>qsort\<close> permutes and sorts when the comparison function is consistent on the elements; otherwise nothing is promised.\<close>

definition consistent :: "('a \<Rightarrow> 'a \<Rightarrow> int) \<Rightarrow> 'a set \<Rightarrow> bool" where
  "consistent cmp A \<longleftrightarrow>
     (\<forall>a \<in> A. \<forall>b \<in> A. cmp a b \<le> 0 \<or> cmp b a \<le> 0) \<and>
     (\<forall>a \<in> A. \<forall>b \<in> A. \<forall>c \<in> A. cmp a b \<le> 0 \<longrightarrow> cmp b c \<le> 0 \<longrightarrow> cmp a c \<le> 0)"

lemma consistent_subset: "consistent cmp A \<Longrightarrow> B \<subseteq> A \<Longrightarrow> consistent cmp B"
  unfolding consistent_def by blast

locale libc_contract = libc_strcmp "c_strcmp L" for L :: libc +
  assumes qsort_perm: "consistent cmp (set ts) \<Longrightarrow> mset (c_qsort L cmp ts) = mset ts"
    and qsort_sorted: "consistent cmp (set ts) \<Longrightarrow> sorted_wrt (\<lambda>a b. cmp a b \<le> 0) (c_qsort L cmp ts)"

text \<open>The byte-wise \<open>strcmp\<close> and an insertion sort meet it.\<close>

fun insert_by :: "('a \<Rightarrow> 'a \<Rightarrow> int) \<Rightarrow> 'a \<Rightarrow> 'a list \<Rightarrow> 'a list" where
  "insert_by cmp x [] = [x]"
| "insert_by cmp x (y # ys) = (if cmp x y \<le> 0 then x # y # ys else y # insert_by cmp x ys)"

definition insertion_sort :: "('a \<Rightarrow> 'a \<Rightarrow> int) \<Rightarrow> 'a list \<Rightarrow> 'a list" where
  "insertion_sort cmp xs = foldr (insert_by cmp) xs []"

lemma insert_by_mset [simp]: "mset (insert_by cmp x ys) = add_mset x (mset ys)"
  by (induction ys) auto

lemma set_insert_by: "set (insert_by cmp x ys) = insert x (set ys)"
  by (induction ys) auto

lemma insertion_sort_mset [simp]: "mset (insertion_sort cmp xs) = mset xs"
  unfolding insertion_sort_def by (induction xs) auto

lemma insert_by_sorted:
  assumes "consistent cmp A" "insert x (set ys) \<subseteq> A" "sorted_wrt (\<lambda>a b. cmp a b \<le> 0) ys"
  shows "sorted_wrt (\<lambda>a b. cmp a b \<le> 0) (insert_by cmp x ys)"
  using assms(2,3)
proof (induction ys)
  case (Cons y ys)
  have s: "set (insert_by cmp x ys) = insert x (set ys)"
    by (rule set_insert_by)
  have A: "x \<in> A" "y \<in> A" "set ys \<subseteq> A" using Cons.prems(1) by auto
  have tr: "cmp x z \<le> 0" if z: "cmp x y \<le> 0" "z \<in> set ys" for z
  proof -
    have "cmp y z \<le> 0" using Cons.prems(2) z(2) by simp
    then show ?thesis using assms(1) A z unfolding consistent_def by blast
  qed
  have tot: "cmp y x \<le> 0" if "\<not> cmp x y \<le> 0" using that assms(1) A(1,2) unfolding consistent_def by blast
  show ?case using Cons tr tot by (auto simp: s)
qed simp

lemma insertion_sort_sorted: "consistent cmp (set xs) \<Longrightarrow> sorted_wrt (\<lambda>a b. cmp a b \<le> 0) (insertion_sort cmp xs)"
proof (induction xs)
  case (Cons x xs)
  have c: "consistent cmp (set xs)" by (rule consistent_subset [OF Cons.prems]) auto
  have s: "set (insertion_sort cmp xs) = set xs" by (rule mset_eq_setD) simp
  have "sorted_wrt (\<lambda>a b. cmp a b \<le> 0) (insert_by cmp x (insertion_sort cmp xs))"
    by (rule insert_by_sorted [OF Cons.prems _ Cons.IH [OF c]]) (simp add: s)
  then show ?case by (simp add: insertion_sort_def)
qed (simp add: insertion_sort_def)

definition std_libc :: libc where
  "std_libc = \<lparr>c_strcmp = strcmp, c_strtod = (\<lambda>s. (dbl_zero, s)), c_fmt_g = (\<lambda>_. []), c_qsort = insertion_sort\<rparr>"

section \<open>Sorting\<close>

text \<open>A comparison function on a set: swapping the arguments swaps the sign, and it is transitive.\<close>

definition comparison :: "('a \<Rightarrow> 'a \<Rightarrow> int) \<Rightarrow> 'a set \<Rightarrow> bool" where
  "comparison d A \<longleftrightarrow>
     (\<forall>a \<in> A. \<forall>b \<in> A. sgn (d b a) = - sgn (d a b)) \<and>
     (\<forall>a \<in> A. \<forall>b \<in> A. \<forall>c \<in> A. d a b \<le> 0 \<longrightarrow> d b c \<le> 0 \<longrightarrow> d a c \<le> 0)"

lemma comparison_sgn:
  assumes "comparison d A" "a \<in> A" "b \<in> A"
  shows "sgn (d b a) = - sgn (d a b)"
  by (rule bspec [OF bspec [OF conjunct1 [OF assms(1) [unfolded comparison_def]] assms(2)] assms(3)])

lemma comparison_trans:
  assumes "comparison d A" "a \<in> A" "b \<in> A" "c \<in> A" "d a b \<le> 0" "d b c \<le> 0"
  shows "d a c \<le> 0"
  using assms(1) [unfolded comparison_def, THEN conjunct2] assms(2-) by blast

lemma sgn_swap:
  assumes "sgn (x::int) = - sgn y"
  shows "x \<le> 0 \<longleftrightarrow> 0 \<le> y" and "x = 0 \<longleftrightarrow> y = 0"
  using assms by (simp_all add: sgn_if split: if_splits)

lemma comparisonI:
  assumes "\<And>a b. a \<in> A \<Longrightarrow> b \<in> A \<Longrightarrow> sgn (d b a) = - sgn (d a b)"
    and "\<And>a b c. a \<in> A \<Longrightarrow> b \<in> A \<Longrightarrow> c \<in> A \<Longrightarrow> d a b \<le> 0 \<Longrightarrow> d b c \<le> 0 \<Longrightarrow> d a c \<le> 0"
  shows "comparison d A"
  unfolding comparison_def using assms by blast

lemma comparison_consistent: "comparison d A \<Longrightarrow> consistent d A"
  unfolding consistent_def
proof (intro conjI ballI impI)
  fix a b assume "comparison d A" "a \<in> A" "b \<in> A"
  then show "d a b \<le> 0 \<or> d b a \<le> 0" using sgn_swap(1) [OF comparison_sgn, of d A a b] by linarith
qed (rule comparison_trans)

lemma comparison_eq:
  assumes d: "comparison d A" and e: "\<And>a b. a \<in> A \<Longrightarrow> b \<in> A \<Longrightarrow> e a b = d a b"
  shows "comparison e A"
proof (rule comparisonI)
  fix a b assume A: "a \<in> A" "b \<in> A"
  show "sgn (e b a) = - sgn (e a b)" unfolding e [OF A] e [OF A(2,1)] by (rule comparison_sgn [OF d A])
next
  fix a b c assume A: "a \<in> A" "b \<in> A" "c \<in> A" and le: "e a b \<le> 0" "e b c \<le> 0"
  show "e a c \<le> 0" unfolding e [OF A(1,3)]
    by (rule comparison_trans [OF d A le(1) [unfolded e [OF A(1,2)]] le(2) [unfolded e [OF A(2,3)]]])
qed

lemma comparison_minus:
  assumes d: "comparison d A"
  shows "comparison (\<lambda>a b. - d a b) A"
proof (rule comparisonI)
  fix a b assume A: "a \<in> A" "b \<in> A"
  show "sgn (- d b a) = - sgn (- d a b)" using comparison_sgn [OF d A] by (simp add: sgn_minus)
next
  fix a b c assume A: "a \<in> A" "b \<in> A" "c \<in> A" and le: "- d a b \<le> 0" "- d b c \<le> 0"
  have "d b a \<le> 0" using sgn_swap(1) [OF comparison_sgn [OF d A(1,2)]] le(1) by simp
  moreover have "d c b \<le> 0" using sgn_swap(1) [OF comparison_sgn [OF d A(2,3)]] le(2) by simp
  ultimately have "d c a \<le> 0" using comparison_trans [OF d A(3,2,1)] by blast
  then show "- d a c \<le> 0" using sgn_swap(1) [OF comparison_sgn [OF d A(1,3)]] by simp
qed

lemma comparison_lex:
  assumes d: "comparison d A" and e: "comparison e A"
  shows "comparison (\<lambda>a b. if d a b \<noteq> 0 then d a b else e a b) A"
proof (rule comparisonI)
  fix a b assume A: "a \<in> A" "b \<in> A"
  show "sgn (if d b a \<noteq> 0 then d b a else e b a) = - sgn (if d a b \<noteq> 0 then d a b else e a b)"
    using comparison_sgn [OF d A] comparison_sgn [OF e A] sgn_swap(2) [OF comparison_sgn [OF d A]] by simp
next
  fix a b c assume A: "a \<in> A" "b \<in> A" "c \<in> A"
    and ab: "(if d a b \<noteq> 0 then d a b else e a b) \<le> 0" and bc: "(if d b c \<noteq> 0 then d b c else e b c) \<le> 0"
  have le: "d a b \<le> 0" "d b c \<le> 0" using ab bc by (cases "d a b = 0"; cases "d b c = 0"; simp)+
  have ac: "d a c \<le> 0" by (rule comparison_trans [OF d A le])
  show "(if d a c \<noteq> 0 then d a c else e a c) \<le> 0"
  proof (cases "d a c = 0")
    case True
    then have ca: "d c a \<le> 0" using sgn_swap(1) [OF comparison_sgn [OF d A(1,3)]] by simp
    have "d b a \<le> 0" by (rule comparison_trans [OF d A(2,3,1) le(2) ca])
    then have "d a b = 0" using le(1) sgn_swap(1) [OF comparison_sgn [OF d A(1,2)]] by simp
    moreover have "d c b \<le> 0" by (rule comparison_trans [OF d A(3,1,2) ca le(1)])
    then have "d b c = 0" using le(2) sgn_swap(1) [OF comparison_sgn [OF d A(2,3)]] by simp
    ultimately have "e a b \<le> 0" "e b c \<le> 0" using ab bc by simp_all
    then show ?thesis using comparison_trans [OF e A] True by simp
  qed (use ac in simp)
qed

text \<open>The rows can be compared by the sort keys: every key is of one type or NULL on all rows.\<close>

definition keys_typed :: "libc \<Rightarrow> order_by_item list \<Rightarrow> schema option \<Rightarrow> tuple set \<Rightarrow> bool" where
  "keys_typed L items s A \<longleftrightarrow>
     (\<forall>item \<in> set items. \<exists>ty. \<forall>t \<in> A. \<exists>v. eval_or_null L (ord_expr item) t s = Some v \<and> of_type ty v)"

text \<open>The order in which the rows come out: by the first key, NULLs last, or first when descending, then by the next one.\<close>

definition item_compare :: "libc \<Rightarrow> order_by_item \<Rightarrow> schema option \<Rightarrow> tuple \<Rightarrow> tuple \<Rightarrow> int" where
  "item_compare L item s t u =
     (let d = key_compare L (the (eval_or_null L (ord_expr item) t s)) (the (eval_or_null L (ord_expr item) u s))
      in if ord_ascending item then d else - d)"

fun row_compare :: "libc \<Rightarrow> order_by_item list \<Rightarrow> schema option \<Rightarrow> tuple \<Rightarrow> tuple \<Rightarrow> int" where
  "row_compare L [] s t u = 0"
| "row_compare L (item # items) s t u =
     (if item_compare L item s t u \<noteq> 0 then item_compare L item s t u else row_compare L items s t u)"

lemma sort_compare_value: "sort_compare L items s t u = Some c \<Longrightarrow> row_compare L items s t u = c"
proof (induction items arbitrary: c)
  case (Cons item items)
  obtain va vb where v: "eval_or_null L (ord_expr item) t s = Some va" "eval_or_null L (ord_expr item) u s = Some vb"
    using Cons.prems by (auto split: option.splits)
  show ?case
    using Cons v by (cases "key_compare L va vb = 0"; cases "ord_ascending item") (auto simp: item_compare_def Let_def split: if_splits)
qed simp

context libc_contract
begin

lemma typed_comparable: "of_type ty a \<Longrightarrow> of_type ty b \<Longrightarrow> comparable a b"
  by (auto simp: of_type_def comparable_def)

lemma key_compare_sgn: "sgn (key_compare L a b) =
    (if a = V_Null \<and> b = V_Null then 0 else if a = V_Null then 1 else if b = V_Null then -1 else sgn (value_order a b))"
  by (simp add: key_compare_def compare_sign)

lemma key_compare_le: "key_compare L a b \<le> 0 \<longleftrightarrow> b = V_Null \<or> a \<noteq> V_Null \<and> value_order a b \<le> 0"
proof -
  have "key_compare L a b \<le> 0 \<longleftrightarrow> sgn (key_compare L a b) \<le> 0" by (simp add: sgn_if)
  then show ?thesis unfolding key_compare_sgn by (auto simp: sgn_if)
qed

lemma key_comparison:
  assumes ty: "\<And>t. t \<in> A \<Longrightarrow> of_type ty (k t)"
  shows "comparison (\<lambda>t u. key_compare L (k t) (k u)) A"
proof (rule comparisonI)
  fix t u assume "t \<in> A" "u \<in> A"
  then have "value_order (k u) (k t) = - value_order (k t) (k u)" by (intro value_compare_swap typed_comparable) (rule ty, assumption)+
  then show "sgn (key_compare L (k u) (k t)) = - sgn (key_compare L (k t) (k u))" by (simp add: key_compare_sgn sgn_minus)
next
  fix t u v assume A: "t \<in> A" "u \<in> A" "v \<in> A"
    and le: "key_compare L (k t) (k u) \<le> 0" "key_compare L (k u) (k v) \<le> 0"
  have "value_order (k t) (k u) \<le> 0 \<Longrightarrow> value_order (k u) (k v) \<le> 0 \<Longrightarrow> value_order (k t) (k v) \<le> 0"
    by (rule value_compare_trans [OF ty [OF A(1)] ty [OF A(2)] ty [OF A(3)]])
  then show "key_compare L (k t) (k v) \<le> 0" using le unfolding key_compare_le by blast
qed

lemma row_compare_comparison: "keys_typed L items s A \<Longrightarrow> comparison (row_compare L items s) A"
proof (induction items)
  case Nil
  then show ?case by (intro comparisonI) simp_all
next
  case (Cons item items)
  obtain ty where ty: "\<forall>t \<in> A. \<exists>v. eval_or_null L (ord_expr item) t s = Some v \<and> of_type ty v"
    using Cons.prems by (auto simp: keys_typed_def)
  have kc: "comparison (\<lambda>t u. key_compare L (the (eval_or_null L (ord_expr item) t s)) (the (eval_or_null L (ord_expr item) u s))) A"
    by (rule key_comparison) (use ty in force)
  have "comparison (item_compare L item s) A"
    using kc comparison_minus [OF kc] by (cases "ord_ascending item") (simp_all add: item_compare_def [abs_def] Let_def)
  moreover have "comparison (row_compare L items s) A" by (rule Cons.IH) (use Cons.prems in \<open>simp add: keys_typed_def\<close>)
  ultimately have "comparison (\<lambda>t u. if item_compare L item s t u \<noteq> 0 then item_compare L item s t u else row_compare L items s t u) A"
    by (rule comparison_lex)
  then show ?case by (simp add: row_compare.simps(2) [abs_def])
qed

lemma sort_rows_ok:
  assumes rs: "sort_rows L items s ts = Some rs" and ty: "keys_typed L items s (set ts)"
  shows "mset rs = mset ts \<and> sorted_wrt (\<lambda>a b. row_compare L items s a b \<le> 0) rs"
proof (cases "ts = []")
  case False
  let ?c = "\<lambda>a b. the (sort_compare L items s a b)"
  have d: "sort_compare L items s a b \<noteq> None" if "a \<in> set ts" "b \<in> set ts" for a b
    using rs False that by (auto simp: sort_rows_def sort_tuples_def list_all_iff split: if_splits)
  have q: "rs = c_qsort L ?c ts" using rs False by (auto simp: sort_rows_def sort_tuples_def split: if_splits)
  have c: "the (sort_compare L items s a b) = row_compare L items s a b" if "a \<in> set ts" "b \<in> set ts" for a b
    by (rule sort_compare_value [symmetric]) (use d [OF that] in simp)
  have "comparison ?c (set ts)" by (rule comparison_eq [OF row_compare_comparison [OF ty]]) (rule c)
  then have k: "consistent ?c (set ts)" by (rule comparison_consistent)
  have m: "mset rs = mset ts" unfolding q by (rule qsort_perm [OF k])
  have "sorted_wrt (\<lambda>a b. ?c a b \<le> 0) rs" unfolding q by (rule qsort_sorted [OF k])
  then have "sorted_wrt (\<lambda>a b. row_compare L items s a b \<le> 0) rs"
  proof (rule sorted_wrt_mono_rel [rotated])
    fix a b assume "a \<in> set rs" "b \<in> set rs" "?c a b \<le> 0"
    then show "row_compare L items s a b \<le> 0" unfolding mset_eq_setD [OF m] by (simp only: c)
  qed
  then show "mset rs = mset ts \<and> sorted_wrt (\<lambda>a b. row_compare L items s a b \<le> 0) rs" using m by blast
qed (use rs in \<open>simp add: sort_rows_def\<close>)

end

interpretation std_lib: libc_contract std_libc
proof unfold_locales
  show "sgn (c_strcmp std_libc s t) = strcmp s t" for s t unfolding std_libc_def libc.simps by (rule std.sign)
  show "mset (c_qsort std_libc cmp ts) = mset ts" if "consistent cmp (set ts)" for cmp ts
    unfolding std_libc_def libc.simps by (rule insertion_sort_mset)
  show "sorted_wrt (\<lambda>a b. cmp a b \<le> 0) (c_qsort std_libc cmp ts)" if "consistent cmp (set ts)" for cmp ts
    unfolding std_libc_def libc.simps by (rule insertion_sort_sorted [OF that])
qed


section \<open>Two tables in a pool\<close>

text \<open>Tables of one INTEGER column and one row, stored in one page.\<close>

definition one_column :: "string \<Rightarrow> schema" where
  "one_column name =
     snd (schema_create \<lparr>columns = [], num_columns = 0, fixed_size = 0, var_cols = 0, null_bitmap_size = 0\<rparr>
       [demo_column name TYPE_INTEGER 0] 1)"

definition int_row :: "rid \<Rightarrow> int \<Rightarrow> tuple" where
  "int_row r i = \<lparr>tup_values = [V_Int i], num_values = 1, tup_rid = r\<rparr>"

definition row_bytes :: "byte \<Rightarrow> byte list" where
  "row_bytes x = [0, x, 0, 0, 0, 0, 0, 0, 0]"

lemma row_bytes_deserialize:
  assumes "mem_read m 0 9 = row_bytes x" "unat x < 128"
  shows "tuple_deserialize blank_tuple (one_column name) m 9 = Some (DB_OK, int_row INVALID_RID (int (unat x)))"
proof -
  have m: "m 0 = 0" "mem_read m 1 8 = [x, 0, 0, 0, 0, 0, 0, 0]"
    using assms by (simp_all add: mem_read_def row_bytes_def upt_rec numeral_eq_Suc)
  have "get_s 8 m 1 = int (unat x)" using assms(2) 
    by (simp add: get_s_def get_u_def m(2) [simplified] to_signed_def)
  then show ?thesis using m(1)
    by (simp add: one_column_def tuple_deserialize_def tuple_create_def demo_row_defs u32_def null_bit_def value_make_null_def
        value_make_integer_def int_row_def)
qed

text \<open>A page that holds the row and leads to the page n, and a pool that holds such pages.\<close>

definition one_row_page :: "int \<Rightarrow> byte \<Rightarrow> int \<Rightarrow> buffer" where
  "one_row_page p x n = page_header_set_next_page (snd (slotted_page_insert (slotted_page_init zero_page p) (row_bytes x))) n"

lemma one_row_page:
  assumes p: "in_range 32 p" and n: "in_range 32 n"
  shows "wf_page (one_row_page p x n) \<and> page_slots (one_row_page p x n) = [Some (row_bytes x)] \<and>
    page_header_get_next_page (one_row_page p x n) = n"
proof -
  let ?p = "slotted_page_init zero_page p"
  note i = init_refines(1-3) [OF p, of zero_page]
  have l: "nslots ?p = 0" using length_page_slots [of ?p] i(2) by simp
  then have "slotted_page_free_space ?p = 4072" by (simp add: free_space_eq [OF i(1)] free_space_upper_def)
  then have room: "28 + 4 * nslots ?p + length (row_bytes x) \<le> free_space_upper ?p"
    using free_space_eq [OF i(1)] l by (simp add: row_bytes_def)
  have "0 < length (row_bytes x)" by (simp add: row_bytes_def)
  then show ?thesis
    by (rule insert_refines [OF i(1) _ room]) (use i l n set_next_wf in \<open>simp add: one_row_page_def\<close>)
qed

lemma stored_one_row:
  assumes p: "in_range 32 p" "in_range 32 n" and x: "unat x < 128"
  obtains m where "stored_from p (one_row_page p x n) 0 = [(\<lparr>rid_page = p, rid_slot = 0\<rparr>, m, 9)]"
    "tuple_deserialize blank_tuple (one_column name) m 9 = Some (DB_OK, int_row INVALID_RID (int (unat x)))"
proof -
  let ?p = "one_row_page p x n"
  have s: "page_slots ?p = [Some (row_bytes x)]" using one_row_page [OF p] by blast
  have l: "nslots ?p = 1" using length_page_slots [of ?p] s by simp
  then have d: "slot_data ?p 0 = Some (row_bytes x)" using page_slots_nth [of 0 ?p] s by simp
  then have m: "slot_get_size ?p 0 \<noteq> 0" "mem_read ?p (slot_get_offset ?p 0) (slot_get_size ?p 0) = row_bytes x"
    by (auto simp: slot_data_def split: if_splits)
  then have sz: "slot_get_size ?p 0 = 9" using arg_cong [OF m(2), of length] unfolding length_mem_read by (simp add: row_bytes_def)
  have "mem_read (\<lambda>y. ?p (slot_get_offset ?p 0 + y)) 0 9 = row_bytes x" using m(2) sz by (simp add: mem_read_def)
  from row_bytes_deserialize [OF this x] show ?thesis
    by (rule that [rotated]) (simp add: stored_from_def l sz map_filter_simps)
qed

definition two_tables :: "int \<Rightarrow> buffer option" where
  "two_tables = [1 \<mapsto> one_row_page 1 42 2, 2 \<mapsto> one_row_page 2 7 (-1)]"

lemma two_tables_pool: obtains b where "pool_has two_tables b"
proof -
  have k: "(5::nat) < 1000" "(3::nat) < 1000" by simp_all
  let ?b = "demo_pool 3 5"
  note b = demo_pool_ok [OF k]
  have dp: "data_page (disk_manager ?b) [] 1" "data_page (disk_manager ?b) [] 2"
    using b disk_with_ok(2) [OF k(1)] by simp_all
  obtain ps where ok: "disk_ok (disk_manager ?b) ps []" by (rule bpm_disk [of ?b "[0..<3]" "[]"]) (use b in blast)
  obtain d1 d2 where d: "page_at (disk_manager ?b) 1 = Some d1" "page_at (disk_manager ?b) 2 = Some d2"
    using page_at_ok [OF ok, of 1] page_at_ok [OF ok, of 2] dp by (auto simp: data_page_def)
  have v: "pool_view ?b p = page_at (disk_manager ?b) p" for p using b by (simp add: pool_view_def)
  have "card (absent [1 \<mapsto> d1, 2 \<mapsto> d2] ?b) \<le> card {1 :: int, 2}" by (rule card_mono) (auto simp: absent_def split: if_splits)
  then have "pool_in [1 \<mapsto> d1, 2 \<mapsto> d2] [0..<3] [] ?b"
    using b dp d v by (auto simp: pool_in_def all_flagged_def split: if_splits)
  then have h: "pool_has [1 \<mapsto> d1, 2 \<mapsto> d2] ?b" by (auto simp: pool_has_def)
  let ?V1 = "[1 \<mapsto> d1, 2 \<mapsto> d2](1 \<mapsto> one_row_page 1 42 2)"
  have v1: "[1 \<mapsto> d1, 2 \<mapsto> d2] (1 :: int) = Some d1" and v2: "?V1 (2 :: int) = Some d2" by simp_all
  obtain b1 where h1: "pool_has ?V1 b1" by (rule pool_replace [OF h v1])
  obtain b2 where "pool_has (?V1(2 \<mapsto> one_row_page 2 7 (-1))) b2" by (rule pool_replace [OF h1 v2])
  then show ?thesis by (intro that) (simp add: two_tables_def fun_upd_twist)
qed

definition heap_at :: "int \<Rightarrow> bpm_heap" where
  "heap_at p = \<lparr>bh_first = p\<rparr>"

text \<open>The table from page 1 has the rows 42, 7, the table from page 2 the row 7.\<close>

definition row_at :: "int \<Rightarrow> int \<Rightarrow> tuple" where
  "row_at p i = int_row \<lparr>rid_page = p, rid_slot = 0\<rparr> i"

lemma scan_tables:
  shows "query L two_tables (SEQ_SCAN (heap_at 1) (one_column c) None out) [row_at 1 42, row_at 2 7]"
    and "query L two_tables (SEQ_SCAN (heap_at 2) (one_column c) None out) [row_at 2 7]"
proof -
  have r: "in_range 32 1" "in_range 32 2" "in_range 32 (-1)" by (simp_all add: in_range_def)
  obtain m1 where m1: "stored_from 1 (one_row_page 1 42 2) 0 = [(\<lparr>rid_page = 1, rid_slot = 0\<rparr>, m1, 9)]"
    "tuple_deserialize blank_tuple (one_column c) m1 9 = Some (DB_OK, int_row INVALID_RID 42)"
    by (rule stored_one_row [OF r(1,2), where x = 42 and name = c]) simp_all
  obtain m2 where m2: "stored_from 2 (one_row_page 2 7 (-1)) 0 = [(\<lparr>rid_page = 2, rid_slot = 0\<rparr>, m2, 9)]"
    "tuple_deserialize blank_tuple (one_column c) m2 9 = Some (DB_OK, int_row INVALID_RID 7)"
    by (rule stored_one_row [OF r(2,3), where x = 7 and name = c]) simp_all
  note p = one_row_page [OF r(1,2), of 42] one_row_page [OF r(2,3), of 7]
  have V: "two_tables 1 = Some (one_row_page 1 42 2)" "two_tables 2 = Some (one_row_page 2 7 (-1))"
    by (simp_all add: two_tables_def)
  have c: "chain two_tables 1 [1, 2]" "chain two_tables 2 [2]" using p V by simp_all
  note row_defs = heap_stored_def V m1 m2 scan_rows_def scan_row_def scan_passes_def map_filter_simps int_row_def row_at_def
  show "query L two_tables (SEQ_SCAN (heap_at 1) (one_column c) None out) [row_at 1 42, row_at 2 7]"
    by (rule query.scan [where ps = "[1, 2]"]) (use c in \<open>simp_all add: heap_at_def row_defs\<close>)
  show "query L two_tables (SEQ_SCAN (heap_at 2) (one_column c) None out) [row_at 2 7]"
    by (rule query.scan [where ps = "[2]"]) (use c in \<open>simp_all add: heap_at_def row_defs\<close>)
qed

section \<open>A filter above a scan\<close>

lemma scan_rows_filter:
  "scan_rows L s (Some e) xs = Option.bind (scan_rows L s None xs) (filter_rows (\<lambda>t. passes L e t (Some s)))"
proof (induction xs)
  case (Cons x xs)
  obtain r m sz where x: "x = (r, m, sz)" by (cases x)
  consider (undefined) "tuple_deserialize blank_tuple s m sz = None"
    | (skip) rc t where "tuple_deserialize blank_tuple s m sz = Some (rc, t)" "rc \<noteq> DB_OK"
    | (row) t where "tuple_deserialize blank_tuple s m sz = Some (DB_OK, t)"
    by (cases "tuple_deserialize blank_tuple s m sz") auto
  then show ?case
  proof cases
    case undefined
    then show ?thesis by (simp add: x scan_rows_def scan_row_def)
  next
    case skip
    then have "scan_row L s q x = Some None" for q by (simp add: x scan_row_def)
    then have "scan_rows L s q (x # xs) = scan_rows L s q xs" for q
      by (cases "map_rows (scan_row L s q) xs") (simp_all add: scan_rows_def map_filter_simps)
    then show ?thesis using Cons by simp
  next
    case row
    let ?t = "t\<lparr>tup_rid := r\<rparr>"
    have n: "scan_row L s None x = Some (Some ?t)" by (simp add: x scan_row_def row scan_passes_def)
    have e: "scan_row L s (Some e) x = map_option (\<lambda>p. if p then Some ?t else None) (passes L e ?t (Some s))"
      by (simp add: x scan_row_def row scan_passes_def)
    show ?thesis
      using Cons.IH [symmetric]
      by (cases "passes L e ?t (Some s)"; cases "map_rows (scan_row L s None) xs"; cases "map_rows (scan_row L s (Some e)) xs")
        (auto simp: scan_rows_def n e map_filter_simps option.map_id split: bind_splits)
  qed
qed (simp add: scan_rows_def map_filter_simps)

section \<open>Grouping\<close>

text \<open>The key of a row, and keys on which equality is equality: no FLOAT, no missing string.\<close>

definition row_key :: "libc \<Rightarrow> expr list \<Rightarrow> schema option \<Rightarrow> tuple \<Rightarrow> val list option" where
  "row_key L group_by s t = (if group_by = [] then Some [V_Null] else those (map (\<lambda>e. eval_or_null L e t s) group_by))"

fun plain_key :: "val \<Rightarrow> bool" where
  "plain_key (V_Float d) = False"
| "plain_key (V_Varchar s) = (s \<noteq> None)"
| "plain_key _ = True"

text \<open>The distinct elements in the order in which they first appear.\<close>

definition first_occurrences :: "'a list \<Rightarrow> 'a list" where
  "first_occurrences xs = rev (remdups (rev xs))"

lemma first_occurrences_snoc:
  "first_occurrences (xs @ [x]) = (if x \<in> set xs then first_occurrences xs else first_occurrences xs @ [x])"
  by (simp add: first_occurrences_def)

lemma first_occurrences_simps [simp]:
  "set (first_occurrences xs) = set xs" "distinct (first_occurrences xs)" "first_occurrences [] = []"
  by (simp_all add: first_occurrences_def)

definition agg_step :: "libc \<Rightarrow> expr list \<Rightarrow> schema option \<Rightarrow> agg_state list \<Rightarrow> tuple \<Rightarrow> agg_state list" where
  "agg_step L aggs s states t = the (update_aggs L aggs s t states)"

definition rows_with :: "libc \<Rightarrow> expr list \<Rightarrow> schema option \<Rightarrow> val list \<Rightarrow> tuple list \<Rightarrow> tuple list" where
  "rows_with L group_by s k ts = filter (\<lambda>t. row_key L group_by s t = Some k) ts"

text \<open>The groups as a function of the rows: for every key, its rows folded into its states.\<close>

definition states_of :: "libc \<Rightarrow> expr list \<Rightarrow> expr list \<Rightarrow> schema option \<Rightarrow> val list \<Rightarrow> tuple list \<Rightarrow> agg_state list" where
  "states_of L group_by aggs s k ts = foldl (agg_step L aggs s) (replicate (length aggs) new_agg) (rows_with L group_by s k ts)"

definition groups_of :: "libc \<Rightarrow> expr list \<Rightarrow> expr list \<Rightarrow> schema option \<Rightarrow> tuple list \<Rightarrow> agg_group list" where
  "groups_of L group_by aggs s ts =
     map (\<lambda>k. \<lparr>group_key = k,
               agg_states = states_of L group_by aggs s k ts\<rparr>)
       (first_occurrences (map (\<lambda>t. the (row_key L group_by s t)) ts))"

lemma agg_rows_snoc:
  "agg_rows L gs as s (ts @ [t]) g = Option.bind (agg_rows L gs as s ts g) (agg_row L gs as s t)"
  by (induction ts arbitrary: g; cases "agg_row L gs as s t g") (auto split: bind_splits)

lemma find_first:
  assumes "\<And>g. g \<in> set groups \<Longrightarrow> group_key_equal L (group_key g) key = Some (group_key g = key)"
    "distinct (map group_key groups)"
  shows "find_group L groups key = Some i \<Longrightarrow>
    (i < length groups \<and> group_key (groups ! i) = key) \<or> (i = length groups \<and> key \<notin> set (map group_key groups))"
  using assms
proof (induction groups arbitrary: i)
  case (Cons g groups)
  show ?case
  proof (cases "group_key g = key")
    case True
    then show ?thesis using Cons.prems(1,2) by auto
  next
    case False
    then obtain j where j: "find_group L groups key = Some j" "i = Suc j" using Cons.prems(1,2) by auto
    have "(j < length groups \<and> group_key (groups ! j) = key) \<or> (j = length groups \<and> key \<notin> set (map group_key groups))"
      by (rule Cons.IH [OF j(1)]) (use Cons.prems(2,3) in auto)
    then show ?thesis using j(2) False by auto
  qed
qed simp

context libc_contract
begin

lemma plain_key_equal:
  assumes "plain_key a" "plain_key b"
  shows "key_value_equal L a b = Some (a = b)"
proof -
  have "c_strcmp L x y = 0 \<longleftrightarrow> x = y" for x y
    using sign [of x y] strcmp_eq [of x y] by (simp add: sgn_if split: if_splits)
  then show ?thesis using assms by (cases a; cases b) auto
qed

lemma plain_keys_equal: "list_all plain_key as \<Longrightarrow> list_all plain_key bs \<Longrightarrow> group_key_equal L as bs = Some (as = bs)"
proof (induction as arbitrary: bs)
  case Nil
  then show ?case by (cases bs) simp_all
next
  case (Cons a as)
  then show ?case by (cases bs) (simp_all add: plain_key_equal)
qed

text \<open>One more row.\<close>

lemma agg_row_groups:
  assumes row: "agg_row L gb aggs s t (groups_of L gb aggs s ts) = Some groups"
    and def: "\<And>u. u \<in> set ts \<Longrightarrow> row_key L gb s u \<noteq> None"
    and plain: "\<And>u k. u \<in> set (ts @ [t]) \<Longrightarrow> row_key L gb s u = Some k \<Longrightarrow> list_all plain_key k"
  shows "\<exists>k. row_key L gb s t = Some k \<and> groups = groups_of L gb aggs s (ts @ [t]) \<and>
    update_aggs L aggs s t (states_of L gb aggs s k ts) \<noteq> None"
proof -
  let ?key = "\<lambda>u. the (row_key L gb s u)"
  let ?init = "replicate (length aggs) new_agg"
  let ?f = "\<lambda>ts k. \<lparr>group_key = k, agg_states = states_of L gb aggs s k ts\<rparr>"
  let ?ks = "first_occurrences (map ?key ts)"
  have G: "groups_of L gb aggs s us = map (?f us) (first_occurrences (map ?key us))" for us by (simp add: groups_of_def)
  obtain k i where k: "row_key L gb s t = Some k" and i: "find_group L (groups_of L gb aggs s ts) k = Some i"
    using row unfolding agg_row_def by (fold row_key_def) (auto split: option.splits)
  have keys: "map group_key (groups_of L gb aggs s ts) = ?ks" unfolding G by (simp add: comp_def)
  have pk: "list_all plain_key k" using plain [of t k] k by simp
  have pg: "list_all plain_key (group_key g)" if "g \<in> set (groups_of L gb aggs s ts)" for g
  proof -
    have "group_key g \<in> set ?ks" using that keys by (metis image_eqI list.set_map)
    then obtain u where u: "u \<in> set ts" "group_key g = ?key u" by auto
    then show ?thesis using def [OF u(1)] plain [of u] by auto
  qed
  note found = find_first [OF _ _ i, OF plain_keys_equal [OF pg pk], unfolded keys]
  have new: "row_key L gb s u = Some k \<longleftrightarrow> ?key u = k" if "u \<in> set ts" for u using def [OF that] by auto
  have f_other: "?f (ts @ [t]) k' = ?f ts k'" if "k' \<noteq> k" for k' using that k by (simp add: states_of_def rows_with_def)
  have f_same: "?f (ts @ [t]) k = (?f ts k)\<lparr>agg_states := agg_step L aggs s (agg_states (?f ts k)) t\<rparr>"
    using k by (simp add: states_of_def rows_with_def)
  have "groups = groups_of L gb aggs s (ts @ [t]) \<and> update_aggs L aggs s t (states_of L gb aggs s k ts) \<noteq> None"
  proof (cases "i < length ?ks")
    case True
    then have ki: "?ks ! i = k" using found by (auto simp: G)
    have u: "update_aggs L aggs s t (agg_states (?f ts k)) = Some (agg_step L aggs s (agg_states (?f ts k)) t)"
      using row k i True ki unfolding agg_row_def by (fold row_key_def) (auto simp: G Let_def agg_step_def)
    then have g: "groups = (map (?f ts) ?ks)[i := ?f (ts @ [t]) k]"
      using row k i True ki unfolding agg_row_def by (fold row_key_def) (auto simp: G Let_def f_same)
    have "k \<in> set (map ?key ts)" using ki True by (metis first_occurrences_simps(1) nth_mem)
    then have ks: "first_occurrences (map ?key (ts @ [t])) = ?ks" using k by (simp add: first_occurrences_snoc)
    have "(map (?f ts) ?ks)[i := ?f (ts @ [t]) k] = map (?f (ts @ [t])) ?ks"
    proof (rule nth_equalityI)
      fix j assume j: "j < length ((map (?f ts) ?ks)[i := ?f (ts @ [t]) k])"
      have "?ks ! j \<noteq> k" if "j \<noteq> i" using that j True ki nth_eq_iff_index_eq [of ?ks i j] by auto
      then show "(map (?f ts) ?ks)[i := ?f (ts @ [t]) k] ! j = map (?f (ts @ [t])) ?ks ! j"
        using j ki f_other by (cases "j = i") auto
    qed simp
    then have "groups = groups_of L gb aggs s (ts @ [t])" by (simp only: g G ks)
    moreover have "update_aggs L aggs s t (states_of L gb aggs s k ts) \<noteq> None" using u by simp
    ultimately show ?thesis by (rule conjI)
  next
    case False
    then have ki: "i = length ?ks" "k \<notin> set (map ?key ts)" using found by (auto simp: G)
    have "rows_with L gb s k ts = []" using ki(2) new by (auto simp: rows_with_def filter_empty_conv)
    then have init: "states_of L gb aggs s k ts = ?init" by (simp add: states_of_def)
    have u: "update_aggs L aggs s t ?init = Some (agg_step L aggs s ?init t)"
      using row k i ki(1) unfolding agg_row_def by (fold row_key_def) (auto simp: G Let_def agg_step_def nth_append)
    then have "groups = map (?f ts) ?ks @ [?f (ts @ [t]) k]"
      using row k i ki(1) unfolding agg_row_def f_same unfolding init by (fold row_key_def) (auto simp: G Let_def nth_append list_update_append)
    moreover have "map (?f ts) ?ks = map (?f (ts @ [t])) ?ks"
    proof (rule map_cong [OF refl])
      fix k' assume "k' \<in> set ?ks"
      then have "k' \<noteq> k" using ki(2) by auto
      then show "?f ts k' = ?f (ts @ [t]) k'" by (rule f_other [symmetric])
    qed
    moreover have "first_occurrences (map ?key (ts @ [t])) = ?ks @ [k]" using ki(2) k by (simp add: first_occurrences_snoc)
    ultimately have "groups = groups_of L gb aggs s (ts @ [t])" by (simp only: G map_append list.map)
    moreover have "update_aggs L aggs s t (states_of L gb aggs s k ts) \<noteq> None" using u by (simp only: init) simp
    ultimately show ?thesis by (rule conjI)
  qed
  then show ?thesis using k by blast
qed

lemma update_agg_count: "update_agg L agg v kind = Some agg' \<Longrightarrow> agg_n agg' = agg_n agg + 1"
  by (auto simp: update_agg_def Let_def split: if_splits)

lemma update_aggs_count:
  "update_aggs L aggs s t states = Some states' \<Longrightarrow> map agg_n states = replicate (length aggs) n \<Longrightarrow>
   map agg_n states' = replicate (length aggs) (n + 1)"
proof (induction aggs arbitrary: states states')
  case (Cons e aggs)
  then obtain st sts where "states = st # sts" by (cases states) auto
  then show ?case using Cons
    by (auto simp: update_aggs_def bind_eq_Some_conv update_agg_count split: option.splits)
qed (simp add: update_aggs_def)

lemma agg_rows_groups:
  assumes "agg_rows L gb aggs s ts [] = Some groups"
    and "\<And>t k. t \<in> set ts \<Longrightarrow> row_key L gb s t = Some k \<Longrightarrow> list_all plain_key k"
  shows "groups = groups_of L gb aggs s ts \<and> (\<forall>t \<in> set ts. row_key L gb s t \<noteq> None) \<and>
    (\<forall>k. map agg_n (states_of L gb aggs s k ts) = replicate (length aggs) (int (length (rows_with L gb s k ts))))"
  using assms
proof (induction ts arbitrary: groups rule: rev_induct)
  case Nil
  then show ?case by (simp add: groups_of_def states_of_def rows_with_def new_agg_def)
next
  case (snoc t ts)
  obtain g where g: "agg_rows L gb aggs s ts [] = Some g" "agg_row L gb aggs s t g = Some groups"
    using snoc.prems(1) by (auto simp: agg_rows_snoc bind_eq_Some_conv)
  have ih: "g = groups_of L gb aggs s ts" "\<forall>u \<in> set ts. row_key L gb s u \<noteq> None"
    "map agg_n (states_of L gb aggs s k ts) = replicate (length aggs) (int (length (rows_with L gb s k ts)))" for k
    using snoc.IH [OF g(1)] snoc.prems(2) by auto
  obtain k states where k: "row_key L gb s t = Some k" "groups = groups_of L gb aggs s (ts @ [t])"
    "update_aggs L aggs s t (states_of L gb aggs s k ts) = Some states"
    using agg_row_groups [OF g(2) [unfolded ih(1)]] ih(2) snoc.prems(2) by blast
  have "map agg_n (states_of L gb aggs s k' (ts @ [t])) = replicate (length aggs) (int (length (rows_with L gb s k' (ts @ [t]))))" for k'
  proof (cases "k' = k")
    case True
    have "map agg_n states = replicate (length aggs) (int (length (rows_with L gb s k ts)) + 1)"
      by (rule update_aggs_count [OF k(3) ih(3)])
    moreover have "states_of L gb aggs s k (ts @ [t]) = states"
      using k(1,3) by (simp add: states_of_def rows_with_def agg_step_def)
    moreover have "int (length (rows_with L gb s k (ts @ [t]))) = int (length (rows_with L gb s k ts)) + 1"
      using k(1) by (simp add: rows_with_def)
    ultimately show ?thesis unfolding True by argo
  next
    case False
    then have "rows_with L gb s k' (ts @ [t]) = rows_with L gb s k' ts" using k(1) by (simp add: rows_with_def)
    then show ?thesis using ih(3) [of k'] by (simp add: states_of_def)
  qed
  then show ?case using k(1,2) ih(2) by simp
qed

end

section \<open>The properties\<close>

text \<open>Expressions over the tables.\<close>

definition col_expr :: "string \<Rightarrow> expr" where
  "col_expr c = EXPR_COLUMN_REF [] c"

definition lit :: "int \<Rightarrow> expr" where
  "lit i = EXPR_LITERAL (VALUE_INT i)"

abbreviation "ids \<equiv> one_column ''id''"

definition scan_ids :: "int \<Rightarrow> exec" where
  "scan_ids p = SEQ_SCAN (heap_at p) ids None (Some ids)"

lemma scan_ids_rows: "query L two_tables (scan_ids 1) [row_at 1 42, row_at 2 7]"
  unfolding scan_ids_def by (rule scan_tables(1))

lemma ids_find: "schema_find_column ids (c_text ''id'') = 0"
  by (simp add: schema_find_column_def one_column_def demo_row_defs c_text_def cstr_def)

lemma ids_value: "expr_evaluate scmp (col_expr ''id'') (Some (row_at p i)) (Some ids) = ok (V_Int i)"
  by (simp add: col_expr_def column_value_def ids_find tuple_get_value_def row_at_def int_row_def value_copy_def)

lemma ids_less:
  "passes L (EXPR_BINARY (col_expr ''id'') TK_LESS (lit j)) (row_at p i) (Some ids) = Some (i < j)"
  by (simp add: passes_def ids_value lit_def binary_value_def comparison_ops_def compare_result_def
      value_make_integer_def value_make_boolean_def)

text \<open>C5. Running a tree of read-only executors (scans, filters, projections, LIMIT/OFFSET, ORDER BY, nested-loop joins,
  aggregation) over a pool that holds the pages V returns exactly the rows of the relational
  operators applied to the tuples stored in V, and ends; and the pool still holds V afterwards. The executors nest in any
  way with one exception, a condition of \<open>query\<close>: above a SORT there is nothing but LIMITs without OFFSET. For a SORT hands out
  rows that its \<open>close\<close> frees, and any other executor above it destroys or keeps them, which frees them twice
  (\<open>sort_rows_freed_twice\<close>). The rows are as \<open>next\<close> delivered them; those of a SORT are freed by the \<open>close\<close> that ends
  the run.\<close>

theorem exec_run_rows:
  assumes "pool_has V b" "query L V e rs"
  shows "\<exists>b' st. exec_run L m e b = Some (rs, b', st) \<and> pool_has V b'"
proof -
  obtain b' st where "exec_run L m e b = Some (rs, b', st)" "pool_has V b'" by (rule exec_run_query [OF assms])
  then show ?thesis by blast
qed

theorem exec_run_rows_witness:
  "\<exists>b b' st. exec_run std_libc zero_page
       (LIMIT 1 1 None (NL_JOIN None None (scan_ids 1) (FILTER (EXPR_BINARY (col_expr ''id'') TK_LESS (lit 10)) (Some ids) (scan_ids 1)))) b =
     Some ([\<lparr>tup_values = [V_Int 7, V_Int 7], num_values = 2, tup_rid = INVALID_RID\<rparr>], b', st)"
proof -
  let ?row = "\<lambda>i j. \<lparr>tup_values = [V_Int i, V_Int j], num_values = 2, tup_rid = INVALID_RID\<rparr>"
  let ?p = "scan_ids 1" and ?q = "FILTER (EXPR_BINARY (col_expr ''id'') TK_LESS (lit 10)) (Some ids) (scan_ids 1)"
  obtain b where b: "pool_has two_tables b" by (rule two_tables_pool)
  have q: "query std_libc two_tables ?q [row_at 2 7]"
    by (rule query.filter [OF scan_ids_rows]) (simp_all add: ids_less scan_ids_def)
  have "join_rows std_libc None None (join_pairs [row_at 1 42, row_at 2 7] [row_at 2 7]) = Some [?row 42 7, ?row 7 7]"
    by (simp add: join_rows_def join_pairs_def combine_tuples_def new_tuple_def tuple_create_def row_at_def int_row_def blank_tuple_def
        row_values_def join_passes_def tuple_set_value_def col_idx_valid_def value_make_null_def value_copy_def upt_rec numeral_eq_Suc)
  then have "query std_libc two_tables (NL_JOIN None None ?p ?q) [?row 42 7, ?row 7 7]"
    by (intro query.join [OF scan_ids_rows q]) (simp_all add: scan_ids_def)
  then have "query std_libc two_tables (LIMIT 1 1 None (NL_JOIN None None ?p ?q)) (limit_rows 1 1 [?row 42 7, ?row 7 7])"
    by (rule query.limit) simp
  from exec_run_rows [OF b this, of zero_page] show ?thesis by (auto simp: limit_rows_def)
qed

text \<open>A filter over a sequential scan delivers what the scan delivers with the condition as its own predicate, which is
  how the plan for WHERE on one table is built.\<close>

theorem filter_scan_merge:
  "query L V (FILTER e (Some s) (SEQ_SCAN hf s None out)) rs \<longleftrightarrow> query L V (SEQ_SCAN hf s (Some e) out') rs"
proof
  assume "query L V (FILTER e (Some s) (SEQ_SCAN hf s None out)) rs"
  then obtain ts ps where "chain V (bh_first hf) ps" "scan_rows L s None (heap_stored V ps) = Some ts"
    "filter_rows (\<lambda>t. passes L e t (Some s)) ts = Some rs"
    by (auto elim!: query.cases)
  then show "query L V (SEQ_SCAN hf s (Some e) out') rs" by (intro query.scan) (auto simp: scan_rows_filter)
next
  assume "query L V (SEQ_SCAN hf s (Some e) out') rs"
  then obtain ps where "chain V (bh_first hf) ps" "scan_rows L s (Some e) (heap_stored V ps) = Some rs"
    by (auto elim!: query.cases)
  then show "query L V (FILTER e (Some s) (SEQ_SCAN hf s None out)) rs"
    by (auto simp: scan_rows_filter bind_eq_Some_conv intro: query.filter query.scan)
qed

text \<open>C6. ORDER BY, over a tree whose rows are its own, when every sort key is of one type or NULL on all rows: the rows are those of the child,
  rearranged so that each is not above its successor, by the first key, ascending or descending, NULL above every
  value, then by the next key.\<close>

theorem sort_executor_spec:
  assumes "libc_contract L" "pool_has V b" "query L V q ts" "sort_rows L items out ts = Some rs" "keys_typed L items out (set ts)"
    and "\<not> rows_freed q"
  shows "(\<exists>b' st. exec_run L m (SORT items out q) b = Some (rs, b', st)) \<and>
    mset rs = mset ts \<and> sorted_wrt (\<lambda>t u. row_compare L items out t u \<le> 0) rs"
proof -
  have "\<exists>b' st. exec_run L m (SORT items out q) b = Some (rs, b', st)"
    using exec_run_query [OF assms(2) query.sort [OF assms(3,6,4)]] by metis
  then show ?thesis using libc_contract.sort_rows_ok [OF assms(1,4,5)] by blast
qed

theorem sort_executor_spec_witness:
  "\<exists>b b' st rs. exec_run std_libc zero_page (SORT [\<lparr>ord_expr = col_expr ''id'', ord_ascending = True\<rparr>] (Some ids) (scan_ids 1)) b =
       Some (rs, b', st) \<and> mset rs = mset [row_at 1 42, row_at 2 7] \<and>
     sorted_wrt (\<lambda>t u. row_compare std_libc [\<lparr>ord_expr = col_expr ''id'', ord_ascending = True\<rparr>] (Some ids) t u \<le> 0) rs"
proof -
  let ?items = "[\<lparr>ord_expr = col_expr ''id'', ord_ascending = True\<rparr>]"
  let ?ts = "[row_at 1 42, row_at 2 7]"
  obtain b where b: "pool_has two_tables b" by (rule two_tables_pool)
  have v: "eval_or_null std_libc (col_expr ''id'') (row_at p i) (Some ids) = Some (V_Int i)" for p i
    by (simp add: eval_or_null_def ids_value)
  have "keys_typed std_libc ?items (Some ids) (set ?ts)"
    by (auto simp: keys_typed_def v of_type_def not_nan_def intro!: exI [of _ TYPE_INTEGER])
  moreover have "sort_rows std_libc ?items (Some ids) ?ts \<noteq> None"
    by (simp add: sort_rows_def sort_tuples_def v key_compare_def)
  then obtain rs where "sort_rows std_libc ?items (Some ids) ?ts = Some rs" by blast
  moreover have "\<not> rows_freed (scan_ids 1)" by (simp add: scan_ids_def)
  ultimately show ?thesis
    using sort_executor_spec [OF std_lib.libc_contract_axioms b scan_ids_rows,
        of ?items "Some ids" rs zero_page] by blast
qed

text \<open>C7. GROUP BY on keys without FLOAT, over a tree whose rows are its own: one row per distinct key, NULL being a key like any other, in the order in
  which the keys first appear, whose states are the fold of the rows with the key; and the count
  that every aggregate of the row keeps, which is what COUNT returns, is the number of those rows, whether or not
  the argument is NULL.\<close>

theorem hash_agg_spec:
  assumes "libc_contract L" "pool_has V b" "query L V q ts" "group_rows L gs as (output_schema q) ts = Some rs"
    and "\<And>t k. t \<in> set ts \<Longrightarrow> row_key L gs (output_schema q) t = Some k \<Longrightarrow> list_all plain_key k" and "\<not> rows_freed q"
  shows "(\<exists>b' st. exec_run L m (HASH_AGG gs as out q) b = Some (rs, b', st)) \<and>
    map_rows (agg_output gs as) (groups_of L gs as (output_schema q) ts) = Some rs \<and>
    (\<forall>k. map agg_n (states_of L gs as (output_schema q) k ts) =
         replicate (length as) (int (length (rows_with L gs (output_schema q) k ts))))"
proof -
  have "\<exists>b' st. exec_run L m (HASH_AGG gs as out q) b = Some (rs, b', st)"
    using exec_run_query [OF assms(2) query.agg [OF assms(3,6,4)]] by metis
  moreover obtain groups where g: "agg_rows L gs as (output_schema q) ts [] = Some groups" "map_rows (agg_output gs as) groups = Some rs"
    using assms(4) by (auto simp: group_rows_def bind_eq_Some_conv)
  moreover have "groups = groups_of L gs as (output_schema q) ts \<and> (\<forall>t \<in> set ts. row_key L gs (output_schema q) t \<noteq> None) \<and>
    (\<forall>k. map agg_n (states_of L gs as (output_schema q) k ts) =
       replicate (length as) (int (length (rows_with L gs (output_schema q) k ts))))"
    by (rule libc_contract.agg_rows_groups [OF assms(1) g(1)]) (rule assms(5))
  ultimately show ?thesis by blast
qed

theorem hash_agg_spec_witness:
  "\<exists>b b' st. exec_run std_libc zero_page (HASH_AGG [] [EXPR_FUNCTION_CALL ''COUNT'' [] True] None (scan_ids 1)) b =
     Some ([\<lparr>tup_values = [V_Int 2], num_values = 1, tup_rid = INVALID_RID\<rparr>], b', st)"
proof -
  let ?count = "EXPR_FUNCTION_CALL ''COUNT'' [] True"
  obtain b where b: "pool_has two_tables b" by (rule two_tables_pool)
  have k: "get_agg_kind ?count = AGG_COUNT" by (simp add: get_agg_kind_def c_text_def cstr_def)
  have rows: "group_rows std_libc [] [?count] (output_schema (scan_ids 1)) [row_at 1 42, row_at 2 7] =
      Some [\<lparr>tup_values = [V_Int 2], num_values = 1, tup_rid = INVALID_RID\<rparr>]"
    by (simp add: group_rows_def agg_row_def update_aggs_def agg_input_def k update_agg_def new_agg_def agg_output_def agg_result_def
        new_tuple_def tuple_create_def blank_tuple_def tuple_set_value_def col_idx_valid_def value_make_integer_def value_copy_def Let_def)
  have "list_all plain_key k" if "row_key std_libc [] (output_schema (scan_ids 1)) t = Some k" for t k
    using that by (auto simp: row_key_def)
  moreover have "\<not> rows_freed (scan_ids 1)" by (simp add: scan_ids_def)
  ultimately show ?thesis using hash_agg_spec [OF std_lib.libc_contract_axioms b scan_ids_rows rows, of zero_page None] by blast
qed

section \<open>A SORT below another executor\<close>

text \<open>A projection, an aggregation, a filter that rejects a row, a LIMIT with an OFFSET destroy rows; a SORT that has handed one of them out
  destroys it again when it is closed.\<close>

lemma sort_next_lost:
  "sort_next L items s lent nx cl w (st, c) = Some (w', (st', c'), r) \<Longrightarrow> materialized st' \<and> (materialized st \<and> lost st \<longrightarrow> lost st')"
  by (auto simp: sort_next_def sort_materialize_def split: option.splits if_splits)

lemma drain_invariant:
  assumes step: "\<And>w c w' c' r. P c \<Longrightarrow> nx w c = Some (w', c', r) \<Longrightarrow> P c'"
  shows "drain nx w c = Some (w', c', ts) \<Longrightarrow> P c \<Longrightarrow> P c'"
proof (induction ts arbitrary: w c)
  case Nil
  then show ?case using step by (subst (asm) drain.simps) (auto simp: bind_eq_Some_conv split: option.splits sum.splits)
next
  case (Cons t ts)
  obtain w1 c1 where "nx w c = Some (w1, c1, Inr t)" "drain nx w1 c1 = Some (w', c', ts)"
    using Cons.prems(1) by (subst (asm) drain.simps) (auto simp: bind_eq_Some_conv split: option.splits sum.splits)
  then show ?case using Cons.IH step Cons.prems(2) by blast
qed

text \<open>A SORT that has run and one of whose rows has been destroyed.\<close>

definition broken :: "estate \<Rightarrow> bool" where
  "broken st \<longleftrightarrow> (\<exists>s c. st = S_SORT s c \<and> materialized s \<and> lost s)"

lemma sort_next_broken:
  assumes "exec_next L m (SORT items out q) w st = Some (w', st', r)"
  shows "broken (exec_drop (SORT items out q) st')" and "broken st \<Longrightarrow> broken st'"
  using assms sort_next_lost
  by (auto simp: on_next_def get_sort_def broken_def bind_eq_Some_conv split: estate.splits dest!: sort_next_lost)

lemma broken_close: "broken st \<Longrightarrow> exec_close (SORT items out q) w st = None"
  by (auto simp: broken_def on_close_def get_sort_def own_close_def sort_close_def)

lemma sort_first_row:
  assumes h: "pool_has V b" and q: "query L V (SORT items out q) (r # rs)"
  obtains b1 c1 b2 c2 where "exec_init (SORT items out q) b (create_state (SORT items out q)) = Some (b1, c1, code_of DB_OK)"
    "exec_next L m (SORT items out q) b1 c1 = Some (b2, c2, Inr r)"
    "\<exists>b3 c3. drain (exec_next L m (SORT items out q)) b1 c1 = Some (b3, c3, r # rs) \<and> broken (exec_drop (SORT items out q) c3)"
proof -
  let ?q = "SORT items out q"
  obtain J where J: "J (create_state ?q)" "restarts (pool_le V) J (exec_init ?q) (exec_next L m ?q) (exec_close ?q) (r # rs)"
    using query_restarts [OF q] by blast
  obtain b1 c1 where 1: "exec_init ?q b (create_state ?q) = Some (b1, c1, code_of DB_OK)" "pool_le V b b1"
    "source (pool_le V) J (exec_next L m ?q) (exec_close ?q) b1 c1 (r # rs)"
    by (rule pool.restartsE [OF J(2) pool_le_refl [OF h] J(1)])
  obtain b2 c2 where 2: "exec_next L m ?q b1 c1 = Some (b2, c2, Inr r)"
    by (rule pool.source_Cons [OF 1(3) pool.le_refl [OF 1(2)]])
  obtain b3 c3 where 3: "drain (exec_next L m ?q) b1 c1 = Some (b3, c3, r # rs)"
    using pool.drain_source [OF 1(3) pool.le_refl [OF 1(2)]] by blast
  then have d: "drain (exec_next L m ?q) b2 c2 = Some (b3, c3, rs)"
    by (subst (asm) drain.simps) (simp add: 2 bind_eq_Some_conv del: exec_next.simps(5))
  have "broken (exec_drop ?q c3)"
    by (rule drain_invariant [OF _ d, where P = "\<lambda>c. broken (exec_drop ?q c)"]) (use sort_next_broken(1) 2 in blast)+
  then show ?thesis using that 1(1) 2 3 by blast
qed

lemma project_next_child:
  assumes "exec_next L m (PROJECT es out' q) w (S_PLAIN c) = Some (w', st', x)"
  obtains w1 c1 r where "exec_next L m q w c = Some (w1, c1, r)" "st' = S_PLAIN c1 \<or> st' = S_PLAIN (exec_drop q c1)"
proof (cases "exec_next L m q w c")
  case (Some wcr)
  then show ?thesis using assms that by (cases wcr) (auto simp: on_next_def project_next_def split: sum.splits)
qed (use assms in \<open>simp add: on_next_def project_next_def\<close>)

text \<open>A SORT with a row below a projection or an aggregation: its rows are destroyed as they are used and again at the end.\<close>

theorem sort_rows_freed_twice:
  assumes "pool_has V b" "query L V (SORT items out q) rs" "rs \<noteq> []"
  shows "exec_run L m (PROJECT es out' (SORT items out q)) b = None \<and>
    exec_run L m (HASH_AGG gs as out' (SORT items out q)) b = None"
proof -
  let ?q = "SORT items out q"
  obtain r rs' where rs: "rs = r # rs'" using assms(3) by (cases rs) auto
  obtain b1 c1 b2 c2 b3 c3 where i: "exec_init ?q b (create_state ?q) = Some (b1, c1, code_of DB_OK)"
    "exec_next L m ?q b1 c1 = Some (b2, c2, Inr r)" "drain (exec_next L m ?q) b1 c1 = Some (b3, c3, r # rs')" "broken (exec_drop ?q c3)"
    by (rule sort_first_row [OF assms(1) assms(2) [unfolded rs], where m = m]) blast
  have p: "exec_run L m (PROJECT es out' ?q) b = None"
  proof -
    let ?nx = "exec_next L m (PROJECT es out' ?q)" and ?P = "\<lambda>st. \<exists>c. st = S_PLAIN c \<and> broken c"
    have step: "?P st'" if "?P st" "?nx w st = Some (w', st', x)" for st w w' st' x
      using that project_next_child [where q = ?q] sort_next_broken [where items = items and out = out and q = q] by metis
    have "?P st'" if d: "drain ?nx b1 (S_PLAIN c1) = Some (w', st', ts)" for w' st' ts
    proof -
      obtain ts' where x: "drain ?nx b2 (S_PLAIN (exec_drop ?q c2)) = Some (w', st', ts')"
        using d i(2) by (subst (asm) drain.simps)
          (auto simp del: exec_next.simps(5) exec_drop.simps simp add: on_next_def project_next_def bind_eq_Some_conv split: option.splits)
      have "broken (exec_drop ?q c2)" by (rule sort_next_broken(1) [OF i(2)])
      then have c: "?P (S_PLAIN (exec_drop ?q c2))" by blast
      show ?thesis by (rule drain_invariant [where P = ?P, OF step x c])
    qed
    moreover have "exec_close (PROJECT es out' ?q) w (S_PLAIN c) = None" if "broken c" for w c
      using broken_close [OF that, of items out q] by (simp del: exec_close.simps(5) add: on_close_def)
    moreover have "exec_init (PROJECT es out' ?q) b (create_state (PROJECT es out' ?q)) = Some (b1, S_PLAIN c1, code_of DB_OK)"
      using i(1) by (simp del: exec_init.simps(5) create_state.simps(5) add: on_init_def)
    ultimately show ?thesis unfolding exec_run_def by (simp only: option.case prod.case) (fastforce split: option.split)
  qed
  have "exec_run L m (HASH_AGG gs as out' ?q) b = None"
  proof -
    let ?a = "\<lparr>agg_done = False, agg_groups = [], agg_index = 0\<rparr>"
    have "exec_next L m (HASH_AGG gs as out' ?q) b1 (S_AGG (hash_agg_init ?a) c1) = None"
      using i(3) broken_close [OF i(4)]
      by (simp del: exec_next.simps(5) exec_drop.simps exec_close.simps(5) add: on_next_def get_agg_def hash_agg_next_def hash_agg_init_def
          agg_materialize_def split: option.split)
    then have "drain (exec_next L m (HASH_AGG gs as out' ?q)) b1 (S_AGG (hash_agg_init ?a) c1) = None" by (subst drain.simps) simp
    moreover have "exec_init (HASH_AGG gs as out' ?q) b (create_state (HASH_AGG gs as out' ?q)) =
        Some (b1, S_AGG (hash_agg_init ?a) c1, code_of DB_OK)"
      using i(1) by (simp del: exec_init.simps(5) create_state.simps(5) add: on_init_def get_agg_def pair_init_def)
    ultimately show ?thesis by (simp only: exec_run_def option.case prod.case)
  qed
  with p show ?thesis by blast
qed

theorem sort_rows_freed_twice_witness:
  "\<exists>b. exec_run std_libc zero_page (PROJECT [col_expr ''id''] None (SORT [] (Some ids) (scan_ids 1))) b = None"
proof -
  obtain b where b: "pool_has two_tables b" by (rule two_tables_pool)
  have "query std_libc two_tables (SORT [] (Some ids) (scan_ids 1)) (insertion_sort (\<lambda>_ _. 0) [row_at 1 42, row_at 2 7])"
    by (rule query.sort [OF scan_ids_rows]) (simp_all add: scan_ids_def sort_rows_def sort_tuples_def std_libc_def)
  moreover have "insertion_sort (\<lambda>_ _. 0) [row_at 1 42, row_at 2 7] \<noteq> []" by (simp add: insertion_sort_def)
  ultimately show ?thesis using sort_rows_freed_twice [OF b] by blast
qed

end
