(* ===== verification/Catalog.thy ===== *)
theory Catalog
  imports Int_Keys Schema_Tuple
begin

text \<open>
  The system catalog of \<open>src/catalog/catalog.c\<close> and \<open>id_generator.c\<close>: tables, their schemas and indexes, in four hash
  maps. A result is None where an id counter overflows, or where the schema to copy has no column, so that the
  copy in the cache stays uninitialised. The buffer pool pointer, which no operation reads, is left out.

  The specification is a catalog of two finite maps, from table names and from index names; every operation
  refines the operation on it, for index names that fit their field.
\<close>

unbundle bit_operations_syntax

section \<open>Ids\<close>

record id_generator =
  next_table_id :: int
  next_column_id :: int
  next_index_id :: int

definition id_generator_init :: id_generator where
  "id_generator_init = \<lparr>next_table_id = 3, next_column_id = 1, next_index_id = 1\<rparr>"

text \<open>\<open>x++\<close> on an \<open>int32_t\<close>.\<close>

definition incr32 :: "int \<Rightarrow> int option" where
  "incr32 x = (if x < 2 ^ 31 - 1 then Some (x + 1) else None)"

definition id_generator_next_table :: "id_generator \<Rightarrow> (int \<times> id_generator) option" where
  "id_generator_next_table g = map_option (\<lambda>n. (next_table_id g, g\<lparr>next_table_id := n\<rparr>)) (incr32 (next_table_id g))"

definition id_generator_next_column :: "id_generator \<Rightarrow> (int \<times> id_generator) option" where
  "id_generator_next_column g = map_option (\<lambda>n. (next_column_id g, g\<lparr>next_column_id := n\<rparr>)) (incr32 (next_column_id g))"

definition id_generator_next_index :: "id_generator \<Rightarrow> (int \<times> id_generator) option" where
  "id_generator_next_index g = map_option (\<lambda>n. (next_index_id g, g\<lparr>next_index_id := n\<rparr>)) (incr32 (next_index_id g))"

section \<open>Keys\<close>

definition cat_int_hash_fn :: "uintptr \<Rightarrow> nat" where
  "cat_int_hash_fn key =
     (let k = (drop_bit 16 key XOR key) * 0x45d9f3b;
          k = (drop_bit 16 k XOR k) * 0x45d9f3b;
          k = drop_bit 16 k XOR k
      in unat k)"

definition cat_int_equal_fn :: "uintptr \<Rightarrow> uintptr \<Rightarrow> bool" where
  "cat_int_equal_fn a b \<longleftrightarrow> a = b"

definition str_hash_fn :: "cstring \<Rightarrow> nat" where
  "str_hash_fn s = unat (foldl (\<lambda>h c. (push_bit 5 h + h) + ucast c) (5381 :: 64 word) s)"

definition str_equal_fn :: "cstring \<Rightarrow> cstring \<Rightarrow> bool" where
  "str_equal_fn a b \<longleftrightarrow> strcmp a b = 0"

section \<open>The catalog\<close>

record table_meta =
  tm_id :: int
  tm_name :: cstring
  tm_root :: int
  tm_type :: cstring

record index_meta =
  im_id :: int
  im_name :: cstring
  im_table :: int
  im_column :: int
  im_root :: int
  im_unique :: bool

record catalog =
  id_gen :: id_generator
  table_cache :: "(uintptr, table_meta) hashmap"
  name_to_id :: "(cstring, int) hashmap"
  schema_cache :: "(uintptr, schema) hashmap"
  index_cache :: "(uintptr, index_meta) hashmap"
  tables_page_id :: int
  columns_page_id :: int
  indexes_page_id :: int

text \<open>\<open>strncpy\<close> into a field of n bytes, then a NUL in the last one.\<close>

definition field :: "nat \<Rightarrow> cstring \<Rightarrow> cstring" where
  "field n s = take (n - 1) s"

definition new_table_meta :: "int \<Rightarrow> cstring \<Rightarrow> cstring \<Rightarrow> table_meta" where
  "new_table_meta tid name ty = \<lparr>tm_id = tid, tm_name = field 64 name, tm_root = INVALID_PAGE_ID, tm_type = field 16 ty\<rparr>"

definition register_system_table :: "catalog \<Rightarrow> cstring \<Rightarrow> int \<Rightarrow> catalog" where
  "register_system_table cat name tid =
     cat\<lparr>table_cache := hashmap_put (table_cache cat) (int_key tid) (new_table_meta tid name (cstr ''system'')),
         name_to_id := hashmap_put (name_to_id cat) name tid\<rparr>"

definition catalog_init :: catalog where
  "catalog_init =
     (let cat = \<lparr>id_gen = id_generator_init,
                 table_cache = hashmap_init 64 cat_int_hash_fn cat_int_equal_fn,
                 name_to_id = hashmap_init 64 str_hash_fn str_equal_fn,
                 schema_cache = hashmap_init 64 cat_int_hash_fn cat_int_equal_fn,
                 index_cache = hashmap_init 64 cat_int_hash_fn cat_int_equal_fn,
                 tables_page_id = INVALID_PAGE_ID, columns_page_id = INVALID_PAGE_ID, indexes_page_id = INVALID_PAGE_ID\<rparr>;
          cat = register_system_table cat (cstr ''__tables'') 0;
          cat = register_system_table cat (cstr ''__columns'') 1
      in register_system_table cat (cstr ''__indexes'') 2)"

definition catalog_destroy :: "catalog \<Rightarrow> catalog" where
  "catalog_destroy cat =
     cat\<lparr>table_cache := hashmap_destroy (table_cache cat), name_to_id := hashmap_destroy (name_to_id cat),
         schema_cache := hashmap_destroy (schema_cache cat), index_cache := hashmap_destroy (index_cache cat)\<rparr>"

text \<open>A schema in fresh memory, filled by \<open>schema_create\<close>.\<close>

definition blank_schema :: schema where
  "blank_schema = \<lparr>columns = [], num_columns = 0, fixed_size = 0, var_cols = 0, null_bitmap_size = 0\<rparr>"

definition copy_schema :: "schema \<Rightarrow> schema option" where
  "copy_schema s = (case schema_create blank_schema (columns s) (num_columns s) of (rc, s') \<Rightarrow> if rc = DB_OK then Some s' else None)"

definition catalog_create_table :: "catalog \<Rightarrow> cstring \<Rightarrow> schema \<Rightarrow> (int \<times> catalog) option" where
  "catalog_create_table cat name s =
     (if hashmap_get (name_to_id cat) name \<noteq> None then Some (-1, cat)
      else
        case id_generator_next_table (id_gen cat) of
          None \<Rightarrow> None
        | Some (tid, g) \<Rightarrow>
            (case copy_schema s of
               None \<Rightarrow> None
             | Some s' \<Rightarrow>
                 Some (tid, cat\<lparr>id_gen := g,
                   table_cache := hashmap_put (table_cache cat) (int_key tid) (new_table_meta tid name (cstr ''user'')),
                   name_to_id := hashmap_put (name_to_id cat) name tid,
                   schema_cache := hashmap_put (schema_cache cat) (int_key tid) s'\<rparr>)))"

definition catalog_get_table :: "catalog \<Rightarrow> cstring \<Rightarrow> error_code + table_meta" where
  "catalog_get_table cat name =
     (case hashmap_get (name_to_id cat) name of
        None \<Rightarrow> Inl DB_UNKNOWN_TABLE
      | Some tid \<Rightarrow>
          (case hashmap_get (table_cache cat) (int_key tid) of
             None \<Rightarrow> Inl DB_UNKNOWN_TABLE
           | Some meta \<Rightarrow> Inr meta))"

text \<open>The values that a loop over a table visits.\<close>

definition hashmap_vals :: "('k, 'v) hashmap \<Rightarrow> 'v list" where
  "hashmap_vals m = (case iter_all (hashmap_size m + 1) m hashmap_iter_init of None \<Rightarrow> [] | Some es \<Rightarrow> map snd es)"

definition drop_index_id :: "(uintptr, index_meta) hashmap \<Rightarrow> int \<Rightarrow> (uintptr, index_meta) hashmap" where
  "drop_index_id m iid = (if hashmap_get m (int_key iid) \<noteq> None then snd (hashmap_remove m (int_key iid)) else m)"

definition catalog_drop_table :: "catalog \<Rightarrow> cstring \<Rightarrow> error_code \<times> catalog" where
  "catalog_drop_table cat name =
     (case hashmap_get (name_to_id cat) name of
        None \<Rightarrow> (DB_UNKNOWN_TABLE, cat)
      | Some tid \<Rightarrow>
          let to_drop = map im_id (filter (\<lambda>m. im_table m = tid) (hashmap_vals (index_cache cat)))
          in (DB_OK, cat\<lparr>index_cache := foldl drop_index_id (index_cache cat) to_drop,
                         table_cache := snd (hashmap_remove (table_cache cat) (int_key tid)),
                         name_to_id := snd (hashmap_remove (name_to_id cat) name),
                         schema_cache := snd (hashmap_remove (schema_cache cat) (int_key tid))\<rparr>))"

definition catalog_update_root_page :: "catalog \<Rightarrow> int \<Rightarrow> int \<Rightarrow> error_code \<times> catalog" where
  "catalog_update_root_page cat tid root =
     (case hashmap_get (table_cache cat) (int_key tid) of
        None \<Rightarrow> (DB_UNKNOWN_TABLE, cat)
      | Some meta \<Rightarrow> (DB_OK, cat\<lparr>table_cache := hashmap_put (table_cache cat) (int_key tid) (meta\<lparr>tm_root := root\<rparr>)\<rparr>))"

definition catalog_get_schema :: "catalog \<Rightarrow> int \<Rightarrow> schema \<Rightarrow> error_code \<times> schema" where
  "catalog_get_schema cat tid out =
     (case hashmap_get (schema_cache cat) (int_key tid) of
        None \<Rightarrow> (DB_UNKNOWN_TABLE, out)
      | Some cached \<Rightarrow> schema_create out (columns cached) (num_columns cached))"

definition catalog_list_tables :: "catalog \<Rightarrow> cstring list" where
  "catalog_list_tables cat = map tm_name (filter (\<lambda>m. strcmp (tm_type m) (cstr ''user'') = 0) (hashmap_vals (table_cache cat)))"

text \<open>The first index with the name, in the order of the iterator.\<close>

definition find_index :: "catalog \<Rightarrow> cstring \<Rightarrow> index_meta option" where
  "find_index cat name = find (\<lambda>m. strcmp (im_name m) name = 0) (hashmap_vals (index_cache cat))"

definition catalog_create_index :: "catalog \<Rightarrow> cstring \<Rightarrow> int \<Rightarrow> int \<Rightarrow> int \<Rightarrow> bool \<Rightarrow> (int \<times> catalog) option" where
  "catalog_create_index cat name tid col root unique =
     (if find_index cat name \<noteq> None then Some (-1, cat)
      else
        case id_generator_next_index (id_gen cat) of
          None \<Rightarrow> None
        | Some (iid, g) \<Rightarrow>
            Some (iid, cat\<lparr>id_gen := g,
              index_cache := hashmap_put (index_cache cat) (int_key iid)
                \<lparr>im_id = iid, im_name = field 64 name, im_table = tid, im_column = col, im_root = root, im_unique = unique\<rparr>\<rparr>))"

definition catalog_get_index :: "catalog \<Rightarrow> cstring \<Rightarrow> error_code + index_meta" where
  "catalog_get_index cat name = (case find_index cat name of None \<Rightarrow> Inl DB_UNKNOWN_TABLE | Some m \<Rightarrow> Inr m)"

definition catalog_get_table_indexes :: "catalog \<Rightarrow> int \<Rightarrow> index_meta list" where
  "catalog_get_table_indexes cat tid = filter (\<lambda>m. im_table m = tid) (hashmap_vals (index_cache cat))"

definition catalog_drop_index :: "catalog \<Rightarrow> cstring \<Rightarrow> error_code \<times> catalog" where
  "catalog_drop_index cat name =
     (case find_index cat name of
        None \<Rightarrow> (DB_UNKNOWN_TABLE, cat)
      | Some m \<Rightarrow> (DB_OK, cat\<lparr>index_cache := snd (hashmap_remove (index_cache cat) (int_key (im_id m)))\<rparr>))"


section \<open>The specification\<close>

text \<open>A table is known by its name, an index by its name; ids count up. (The specification need not be executable.)\<close>

record table_entry =
  te_id :: int
  te_root :: int
  te_type :: cstring
  te_schema :: "schema option"

record names =
  a_tables :: "cstring \<Rightarrow> table_entry option"
  a_indexes :: "cstring \<Rightarrow> index_meta option"
  a_next_table :: int
  a_next_index :: int

datatype cat_op =
    C_Create cstring schema
  | C_Drop cstring
  | C_Root int int
  | C_Index cstring int int int bool
  | C_Drop_Index cstring

fun cat_step :: "cat_op \<Rightarrow> catalog \<Rightarrow> (int \<times> catalog) option" where
  "cat_step (C_Create n s) cat = catalog_create_table cat n s"
| "cat_step (C_Drop n) cat = Some (apfst code_of (catalog_drop_table cat n))"
| "cat_step (C_Root tid p) cat = Some (apfst code_of (catalog_update_root_page cat tid p))"
| "cat_step (C_Index n tid col p u) cat = catalog_create_index cat n tid col p u"
| "cat_step (C_Drop_Index n) cat = Some (apfst code_of (catalog_drop_index cat n))"

fun names_step :: "cat_op \<Rightarrow> names \<Rightarrow> (int \<times> names) option" where
  "names_step (C_Create n s) a =
     (if a_tables a n \<noteq> None then Some (-1, a)
      else if a_next_table a < 2 ^ 31 - 1 then
        map_option (\<lambda>s'. (a_next_table a,
          a\<lparr>a_tables := (a_tables a)(n \<mapsto> \<lparr>te_id = a_next_table a, te_root = -1, te_type = cstr ''user'', te_schema = Some s'\<rparr>),
            a_next_table := a_next_table a + 1\<rparr>)) (copy_schema s)
      else None)"
| "names_step (C_Drop n) a =
     (case a_tables a n of
        None \<Rightarrow> Some (3002, a)
      | Some e \<Rightarrow> Some (0, a\<lparr>a_tables := (a_tables a)(n := None),
          a_indexes := (\<lambda>i. case a_indexes a i of Some m \<Rightarrow> if im_table m = te_id e then None else Some m | None \<Rightarrow> None)\<rparr>))"
| "names_step (C_Root tid p) a =
     (if \<exists>n e. a_tables a n = Some e \<and> te_id e = tid
      then Some (0, a\<lparr>a_tables := (\<lambda>n. map_option (\<lambda>e. if te_id e = tid then e\<lparr>te_root := p\<rparr> else e) (a_tables a n))\<rparr>)
      else Some (3002, a))"
| "names_step (C_Index n tid col p u) a =
     (if a_indexes a n \<noteq> None then Some (-1, a)
      else if a_next_index a < 2 ^ 31 - 1 then
        Some (a_next_index a, a\<lparr>a_indexes := (a_indexes a)(n \<mapsto>
            \<lparr>im_id = a_next_index a, im_name = n, im_table = tid, im_column = col, im_root = p, im_unique = u\<rparr>),
          a_next_index := a_next_index a + 1\<rparr>)
      else None)"
| "names_step (C_Drop_Index n) a =
     (if a_indexes a n = None then Some (3002, a) else Some (0, a\<lparr>a_indexes := (a_indexes a)(n := None)\<rparr>))"

text \<open>An index name fits its field; ids are those of the program.\<close>

fun op_ok :: "cat_op \<Rightarrow> bool" where
  "op_ok (C_Index n tid col p u) \<longleftrightarrow> length n \<le> 63"
| "op_ok (C_Root tid p) \<longleftrightarrow> in_range 32 tid"
| "op_ok _ \<longleftrightarrow> True"

definition meta_of :: "cstring \<Rightarrow> table_entry \<Rightarrow> table_meta" where
  "meta_of n e = \<lparr>tm_id = te_id e, tm_name = take 63 n, tm_root = te_root e, tm_type = te_type e\<rparr>"

definition tables_rel :: "(uintptr, table_meta) hashmap \<Rightarrow> (cstring, int) hashmap \<Rightarrow> (uintptr, schema) hashmap \<Rightarrow>
    (cstring \<Rightarrow> table_entry option) \<Rightarrow> int \<Rightarrow> bool" where
  "tables_rel tc ni sc T nt \<longleftrightarrow>
     int_table tc \<and> hm_ok ni \<and> int_table sc \<and> 0 \<le> nt \<and> nt < 2 ^ 31 \<and>
     (\<forall>n. hashmap_get ni n = map_option te_id (T n)) \<and>
     (\<forall>n e. T n = Some e \<longrightarrow> 0 \<le> te_id e \<and> te_id e < nt \<and>
        int_get tc (te_id e) = Some (meta_of n e) \<and> int_get sc (te_id e) = te_schema e \<and>
        (\<forall>s. te_schema e = Some s \<longrightarrow> copy_schema s = Some s)) \<and>
     (\<forall>n n' e e'. T n = Some e \<longrightarrow> T n' = Some e' \<longrightarrow> te_id e = te_id e' \<longrightarrow> n = n') \<and>
     (\<forall>i. in_range 32 i \<longrightarrow> int_get tc i \<noteq> None \<or> int_get sc i \<noteq> None \<longrightarrow> (\<exists>n e. T n = Some e \<and> te_id e = i))"

definition indexes_rel :: "(uintptr, index_meta) hashmap \<Rightarrow> (cstring \<Rightarrow> index_meta option) \<Rightarrow> int \<Rightarrow> bool" where
  "indexes_rel ic I ix \<longleftrightarrow>
     int_table ic \<and> 0 \<le> ix \<and> ix < 2 ^ 31 \<and>
     (\<forall>n m. I n = Some m \<longrightarrow> im_name m = n \<and> 0 \<le> im_id m \<and> im_id m < ix) \<and>
     (\<forall>i m. in_range 32 i \<longrightarrow> (int_get ic i = Some m \<longleftrightarrow> im_id m = i \<and> I (im_name m) = Some m))"

definition catalog_rel :: "catalog \<Rightarrow> names \<Rightarrow> bool" where
  "catalog_rel cat a \<longleftrightarrow>
     tables_rel (table_cache cat) (name_to_id cat) (schema_cache cat) (a_tables a) (a_next_table a) \<and>
     indexes_rel (index_cache cat) (a_indexes a) (a_next_index a) \<and>
     next_table_id (id_gen cat) = a_next_table a \<and> next_index_id (id_gen cat) = a_next_index a"

section \<open>Indexes\<close>

lemma str_equal_fn_eq [simp]: "str_equal_fn = (=)" "cat_int_equal_fn = (=)"
  by (simp_all add: str_equal_fn_def cat_int_equal_fn_def fun_eq_iff strcmp_eq)

lemma hashmap_vals_set: "hm_ok m \<Longrightarrow> set (hashmap_vals m) = ran (hashmap_get m)"
proof -
  assume ok: "hm_ok m"
  have "hashmap_vals m = map snd (hm_entries m)"
    using iter_all_entries [OF ok, of "hashmap_size m + 1"] by (simp add: hashmap_vals_def hashmap_size_def del: iter_all.simps)
  then show ?thesis using hm.set_entries [OF ok] by (force simp: ran_def)
qed

lemma indexes_set:
  assumes r: "indexes_rel ic I ix"
  shows "set (hashmap_vals ic) = ran I"
proof -
  have ok: "hm_ok ic" using r by (simp add: indexes_rel_def int_table_def)
  have "m \<in> ran (hashmap_get ic) \<longleftrightarrow> m \<in> ran I" for m
  proof
    assume "m \<in> ran (hashmap_get ic)"
    then obtain k where k: "hashmap_get ic k = Some m" by (auto simp: ran_def)
    then obtain i where i: "in_range 32 i" "k = int_key i" using r by (auto simp: indexes_rel_def int_table_def)
    then have "int_get ic i = Some m" using k by (simp add: int_get_def)
    then have "I (im_name m) = Some m" using r i(1) by (auto simp: indexes_rel_def)
    then show "m \<in> ran I" by (rule ranI)
  next
    assume "m \<in> ran I"
    then obtain n where n: "I n = Some m" by (auto simp: ran_def)
    then have m: "im_name m = n" "0 \<le> im_id m" "im_id m < ix" "ix < 2 ^ 31" using r unfolding indexes_rel_def by blast+
    then have "in_range 32 (im_id m)" by (simp add: in_range_def)
    then have "int_get ic (im_id m) = Some m" using r n m(1) unfolding indexes_rel_def by blast
    then show "m \<in> ran (hashmap_get ic)" unfolding int_get_def by (rule ranI)
  qed
  then show ?thesis using hashmap_vals_set [OF ok] by blast
qed

lemma find_index_rel:
  assumes r: "indexes_rel (index_cache cat) I ix"
  shows "find_index cat n = I n"
proof -
  let ?xs = "hashmap_vals (index_cache cat)"
  have s: "set ?xs = ran I" by (rule indexes_set [OF r])
  have name: "I (im_name m) = Some m" if "m \<in> set ?xs" for m
  proof -
    obtain k where "I k = Some m" using \<open>m \<in> set ?xs\<close> s by (auto simp: ran_def)
    then show ?thesis using r unfolding indexes_rel_def by blast
  qed
  have f: "find (\<lambda>m. strcmp (im_name m) n = 0) ?xs = find (\<lambda>m. im_name m = n) ?xs" by (simp add: strcmp_eq)
  show ?thesis
  proof (cases "find (\<lambda>m. im_name m = n) ?xs")
    case None
    then have "\<forall>m \<in> set ?xs. im_name m \<noteq> n" by (simp add: find_None_iff)
    moreover have "im_name m = n \<and> m \<in> set ?xs" if "I n = Some m" for m
      using that r s unfolding indexes_rel_def by (auto intro: ranI)
    ultimately have "I n = None" by (metis not_None_eq)
    then show ?thesis using None f by (simp add: find_index_def)
  next
    case (Some m)
    then have "m \<in> set ?xs" "im_name m = n" by (auto simp: find_Some_iff)
    then show ?thesis using name [of m] Some f by (simp add: find_index_def)
  qed
qed

lemma indexes_put:
  assumes r: "indexes_rel ic I ix" and n: "I n = None" "ix < 2 ^ 31 - 1" and m: "im_id m = ix" "im_name m = n"
  shows "indexes_rel (hashmap_put ic (int_key ix) m) (I(n \<mapsto> m)) (ix + 1)"
proof -
  have t: "int_table ic" and x: "0 \<le> ix" "in_range 32 ix" using r n(2) by (simp_all add: indexes_rel_def in_range_def)
  have I: "im_name e = k \<and> 0 \<le> im_id e \<and> im_id e < ix" if "I k = Some e" for k e
    using r that unfolding indexes_rel_def by blast
  have g: "int_get ic i = Some e \<longleftrightarrow> im_id e = i \<and> I (im_name e) = Some e" if "in_range 32 i" for i e
    using r that unfolding indexes_rel_def by blast
  have new: "int_get (hashmap_put ic (int_key ix) m) i = Some e \<longleftrightarrow> im_id e = i \<and> (I(n \<mapsto> m)) (im_name e) = Some e"
    if i: "in_range 32 i" for i e
  proof (cases "i = ix")
    case True
    then show ?thesis using int_get_put [OF t x(2) i, of m] m I [of "im_name e" e] by auto
  next
    case False
    have "im_id e = i \<and> I (im_name e) = Some e \<longleftrightarrow> im_id e = i \<and> (I(n \<mapsto> m)) (im_name e) = Some e"
      using False m n(1) by (cases "im_name e = n") auto
    then show ?thesis using int_get_put [OF t x(2) i, of m] g [OF i, of e] False by simp
  qed
  have bounds: "im_name e = k \<and> 0 \<le> im_id e \<and> im_id e < ix + 1" if "(I(n \<mapsto> m)) k = Some e" for k e
    using that I [of k e] m x(1) by (cases "k = n") auto
  show ?thesis
    unfolding indexes_rel_def using int_table_put [OF t x(2), of m] x(1) n(2) new bounds by simp
qed

text \<open>What is left when the indexes with P are dropped.\<close>

definition without :: "('v \<Rightarrow> bool) \<Rightarrow> ('k \<Rightarrow> 'v option) \<Rightarrow> 'k \<Rightarrow> 'v option" where
  "without P f k = (case f k of Some v \<Rightarrow> if P v then None else Some v | None \<Rightarrow> None)"

lemma without_Some: "without P f k = Some v \<longleftrightarrow> f k = Some v \<and> \<not> P v"
  by (auto simp: without_def split: option.splits)

lemma indexes_remove:
  assumes r: "indexes_rel ic I ix" and i: "in_range 32 i"
  shows "indexes_rel (snd (hashmap_remove ic (int_key i))) (without (\<lambda>m. im_id m = i) I) ix"
proof -
  have t: "int_table ic" using r by (simp add: indexes_rel_def)
  have "int_get (snd (hashmap_remove ic (int_key i))) j = Some e \<longleftrightarrow> im_id e = j \<and> without (\<lambda>m. im_id m = i) I (im_name e) = Some e"
    if j: "in_range 32 j" for j e
  proof -
    have "int_get ic j = Some e \<longleftrightarrow> im_id e = j \<and> I (im_name e) = Some e" using r j unfolding indexes_rel_def by blast
    then show ?thesis using int_get_remove [OF t i j] by (auto simp: without_Some)
  qed
  then show ?thesis using r int_table_remove [OF t, of "int_key i"] unfolding indexes_rel_def without_Some by blast
qed

lemma drop_index_id_rel:
  assumes r: "indexes_rel ic I ix" and i: "in_range 32 i"
  shows "indexes_rel (drop_index_id ic i) (without (\<lambda>m. im_id m = i) I) ix"
proof (cases "hashmap_get ic (int_key i)")
  case (Some m)
  then show ?thesis using indexes_remove [OF r i] by (simp add: drop_index_id_def)
next
  case None
  have "im_id m \<noteq> i" if "I n = Some m" for n m
  proof
    assume "im_id m = i"
    then have "int_get ic i = Some m" using r that i unfolding indexes_rel_def by blast
    then show False using None by (simp add: int_get_def)
  qed
  then have "without (\<lambda>m. im_id m = i) I = I" by (auto simp: without_def fun_eq_iff split: option.split)
  then show ?thesis using r None by (simp add: drop_index_id_def)
qed

lemma drop_index_ids_rel:
  "indexes_rel ic I ix \<Longrightarrow> \<forall>i \<in> set ids. in_range 32 i \<Longrightarrow>
   indexes_rel (foldl drop_index_id ic ids) (without (\<lambda>m. im_id m \<in> set ids) I) ix"
proof (induction ids arbitrary: ic I)
  case Nil
  have "without (\<lambda>m. im_id m \<in> set []) I = I" by (auto simp: without_def fun_eq_iff split: option.split)
  then show ?case using Nil by simp
next
  case (Cons i ids)
  have "indexes_rel (foldl drop_index_id (drop_index_id ic i) ids) (without (\<lambda>m. im_id m \<in> set ids) (without (\<lambda>m. im_id m = i) I)) ix"
    by (rule Cons.IH [OF drop_index_id_rel [OF Cons.prems(1)]]) (use Cons.prems(2) in simp_all)
  moreover have "without (\<lambda>m. im_id m \<in> set ids) (without (\<lambda>m. im_id m = i) I) = without (\<lambda>m. im_id m \<in> set (i # ids)) I"
    by (auto simp: without_def fun_eq_iff split: option.split)
  ultimately show ?case by simp
qed

lemma indexes_ids:
  assumes r: "indexes_rel ic I ix" and m: "m \<in> set (hashmap_vals ic)"
  shows "in_range 32 (im_id m)" and "I (im_name m) = Some m"
proof -
  obtain n where "I n = Some m" using m indexes_set [OF r] by (auto simp: ran_def)
  then have b: "im_name m = n" "I n = Some m" "0 \<le> im_id m" "im_id m < ix" "ix < 2 ^ 31" using r unfolding indexes_rel_def by blast+
  then show "in_range 32 (im_id m)" "I (im_name m) = Some m" by (simp_all add: in_range_def)
qed

lemma drop_table_indexes:
  assumes r: "indexes_rel ic I ix"
  shows "indexes_rel (foldl drop_index_id ic (map im_id (filter (\<lambda>m. im_table m = tid) (hashmap_vals ic)))) (without (\<lambda>m. im_table m = tid) I) ix"
proof -
  let ?ids = "map im_id (filter (\<lambda>m. im_table m = tid) (hashmap_vals ic))"
  have "without (\<lambda>m. im_id m \<in> set ?ids) I = without (\<lambda>m. im_table m = tid) I"
  proof
    fix n
    have "im_id m \<in> set ?ids \<longleftrightarrow> im_table m = tid" if n: "I n = Some m" for m
    proof
      assume "im_id m \<in> set ?ids"
      then obtain e where e: "e \<in> set (hashmap_vals ic)" "im_table e = tid" "im_id e = im_id m" by auto
      have "int_get ic (im_id m) = Some e" "int_get ic (im_id m) = Some m"
        using r indexes_ids [OF r e(1)] e(3) n unfolding indexes_rel_def by metis+
      then show "im_table m = tid" using e(2) by simp
    next
      assume "im_table m = tid"
      moreover have "m \<in> set (hashmap_vals ic)" using n indexes_set [OF r] by (auto intro: ranI)
      ultimately show "im_id m \<in> set ?ids" by auto
    qed
    then show "without (\<lambda>m. im_id m \<in> set ?ids) I n = without (\<lambda>m. im_table m = tid) I n"
      by (auto simp: without_def split: option.split)
  qed
  then show ?thesis using drop_index_ids_rel [OF r, of ?ids] indexes_ids(1) [OF r] by auto
qed


section \<open>Tables\<close>

lemma build_cols_again:
  "build_cols cs off vc = (cs', off', vc') \<Longrightarrow> build_cols cs' off vc = (cs', off', vc') \<and> length cs' = length cs"
proof (induction cs arbitrary: off vc cs' off' vc')
  case (Cons c cs)
  let ?o = "if col_type c = TYPE_VARCHAR then off else u32 (off + schema_column_fixed_size (col_type c))"
  let ?v = "if col_type c = TYPE_VARCHAR then vc + 1 else vc"
  obtain ds o1 v1 where b: "build_cols cs ?o ?v = (ds, o1, v1)" by (metis prod_cases3)
  then have "build_cols ds ?o ?v = (ds, o1, v1) \<and> length ds = length cs" by (rule Cons.IH)
  then show ?case using Cons.prems b by (cases "col_type c = TYPE_VARCHAR") auto
qed simp

text \<open>Creating a schema from the columns of a created one gives that one.\<close>

lemma schema_create_again:
  assumes "schema_create s cols n = (DB_OK, s')"
  shows "schema_create t (columns s') (num_columns s') = (DB_OK, s')"
proof -
  obtain cs off vc where b: "build_cols (take (nat n) cols) 0 0 = (cs, off, vc)" by (metis prod_cases3)
  have s: "0 < n" "take (nat n) cols \<noteq> []"
    "s' = \<lparr>columns = cs, num_columns = n, fixed_size = off, var_cols = nat vc, null_bitmap_size = nat ((n + 7) div 8)\<rparr>"
    using assms b by (auto simp: schema_create_def schema_build_def schema_cols_def split: if_splits)
  have l: "length cs = length (take (nat n) cols)" using build_cols_again [OF b] by simp
  then have "length cs \<le> nat n" by simp
  then have "take (nat n) cs = cs" "cs \<noteq> []" using s(2) l by (simp, metis length_0_conv)
  then show ?thesis using s build_cols_again [OF b] by (simp add: schema_create_def schema_build_def schema_cols_def)
qed

lemma copy_schema_again: "copy_schema s = Some s' \<Longrightarrow> copy_schema s' = Some s'"
  using schema_create_again [of blank_schema "columns s" "num_columns s" s' blank_schema]
  by (auto simp: copy_schema_def split: prod.splits if_splits)

lemma tables_relD:
  assumes "tables_rel tc ni sc T nt"
  shows "int_table tc" "hm_ok ni" "int_table sc" "0 \<le> nt" "nt < 2 ^ 31" "hashmap_get ni n = map_option te_id (T n)"
    and "T n = Some e \<Longrightarrow> 0 \<le> te_id e \<and> te_id e < nt \<and> in_range 32 (te_id e)"
    and "T n = Some e \<Longrightarrow> int_get tc (te_id e) = Some (meta_of n e) \<and> int_get sc (te_id e) = te_schema e"
    and "T n = Some e \<Longrightarrow> te_schema e = Some s \<Longrightarrow> copy_schema s = Some s"
    and "T n = Some e \<Longrightarrow> T n' = Some e' \<Longrightarrow> te_id e = te_id e' \<Longrightarrow> n = n'"
    and "in_range 32 i \<Longrightarrow> int_get tc i \<noteq> None \<or> int_get sc i \<noteq> None \<Longrightarrow> \<exists>n e. T n = Some e \<and> te_id e = i"
proof -
  show "T n = Some e \<Longrightarrow> 0 \<le> te_id e \<and> te_id e < nt \<and> in_range 32 (te_id e)"
    using assms unfolding tables_rel_def in_range_def by fastforce
qed (use assms in \<open>unfold tables_rel_def, blast+\<close>)

lemma tables_relI:
  assumes "int_table tc" "hm_ok ni" "int_table sc" "0 \<le> nt" "nt < 2 ^ 31" "\<And>n. hashmap_get ni n = map_option te_id (T n)"
    and "\<And>n e. T n = Some e \<Longrightarrow> 0 \<le> te_id e \<and> te_id e < nt"
    and "\<And>n e. T n = Some e \<Longrightarrow> int_get tc (te_id e) = Some (meta_of n e) \<and> int_get sc (te_id e) = te_schema e"
    and "\<And>n e s. T n = Some e \<Longrightarrow> te_schema e = Some s \<Longrightarrow> copy_schema s = Some s"
    and "\<And>n e n' e'. T n = Some e \<Longrightarrow> T n' = Some e' \<Longrightarrow> te_id e = te_id e' \<Longrightarrow> n = n'"
    and "\<And>i. in_range 32 i \<Longrightarrow> int_get tc i \<noteq> None \<or> int_get sc i \<noteq> None \<Longrightarrow> \<exists>n e. T n = Some e \<and> te_id e = i"
  shows "tables_rel tc ni sc T nt"
proof -
  have a: "\<forall>n. hashmap_get ni n = map_option te_id (T n)" using assms(6) by blast
  have b: "\<forall>n e. T n = Some e \<longrightarrow> 0 \<le> te_id e \<and> te_id e < nt \<and> int_get tc (te_id e) = Some (meta_of n e) \<and>
      int_get sc (te_id e) = te_schema e \<and> (\<forall>s. te_schema e = Some s \<longrightarrow> copy_schema s = Some s)"
  proof (intro allI impI)
    fix n e assume T: "T n = Some e"
    note a7 = assms(7) [OF T] and a8 = assms(8) [OF T]
    have "\<forall>s. te_schema e = Some s \<longrightarrow> copy_schema s = Some s" using assms(9) [OF T] by (rule allI [OF impI])
    then show "0 \<le> te_id e \<and> te_id e < nt \<and> int_get tc (te_id e) = Some (meta_of n e) \<and>
      int_get sc (te_id e) = te_schema e \<and> (\<forall>s. te_schema e = Some s \<longrightarrow> copy_schema s = Some s)"
      by (intro conjI a7 [THEN conjunct1] a7 [THEN conjunct2] a8 [THEN conjunct1] a8 [THEN conjunct2])
  qed
  have c: "\<forall>n n' e e'. T n = Some e \<longrightarrow> T n' = Some e' \<longrightarrow> te_id e = te_id e' \<longrightarrow> n = n'" using assms(10) by blast
  have d: "\<forall>i. in_range 32 i \<longrightarrow> int_get tc i \<noteq> None \<or> int_get sc i \<noteq> None \<longrightarrow> (\<exists>n e. T n = Some e \<and> te_id e = i)"
    using assms(11) by blast
  show ?thesis unfolding tables_rel_def using assms(1-5) a b c d by (intro conjI)
qed

lemma upd_cases: "(T(n \<mapsto> e)) k = Some f \<Longrightarrow> k = n \<and> f = e \<or> k \<noteq> n \<and> T k = Some f"
  by (auto split: if_splits)

lemma tables_add:
  assumes r: "tables_rel tc ni sc T nt" and n: "T n = None" and e: "0 \<le> te_id e" "te_id e < nt'" "nt \<le> nt'" "nt' < 2 ^ 31"
    and fresh: "\<And>k f. T k = Some f \<Longrightarrow> te_id f \<noteq> te_id e"
    and sc: "int_table sc'" "\<And>j. in_range 32 j \<Longrightarrow> int_get sc' j = (if j = te_id e then te_schema e else int_get sc j)"
    and s: "\<And>s. te_schema e = Some s \<Longrightarrow> copy_schema s = Some s"
  shows "tables_rel (hashmap_put tc (int_key (te_id e)) (meta_of n e)) (hashmap_put ni n (te_id e)) sc' (T(n \<mapsto> e)) nt'"
proof -
  note D = tables_relD [OF r]
  have i: "in_range 32 (te_id e)" using e by (simp add: in_range_def)
  note g = int_get_put [OF D(1) i]
  show ?thesis
  proof (rule tables_relI)
    show "int_table (hashmap_put tc (int_key (te_id e)) (meta_of n e))" by (rule int_table_put [OF D(1) i])
    show "hm_ok (hashmap_put ni n (te_id e))" using hm.ok_put [OF D(2)] by simp
    show "hashmap_get (hashmap_put ni n (te_id e)) k = map_option te_id ((T(n \<mapsto> e)) k)" for k
      using hm.get_put [OF D(2)] D(6) by simp
    fix k f assume k: "(T(n \<mapsto> e)) k = Some f"
    show "0 \<le> te_id f \<and> te_id f < nt'" using k D(7) [of k f] e by (auto split: if_splits)
    show "int_get (hashmap_put tc (int_key (te_id e)) (meta_of n e)) (te_id f) = Some (meta_of k f) \<and> int_get sc' (te_id f) = te_schema f"
    proof (cases "k = n")
      case True
      then show ?thesis using k g [OF i] sc(2) [OF i] by simp
    next
      case False
      then have T: "T k = Some f" using k by simp
      then have "in_range 32 (te_id f)" "te_id f \<noteq> te_id e" using D(7) fresh by blast+
      then show ?thesis using g sc(2) D(8) [OF T] by simp
    qed
    show "copy_schema s = Some s" if "te_schema f = Some s" for s
      using s [of s] that D(9) [of k f s] k by (cases "k = n") simp_all
    show "k = k'" if "(T(n \<mapsto> e)) k' = Some f'" "te_id f = te_id f'" for k' f'
    proof -
      have a: "T k' = Some f' \<Longrightarrow> te_id e \<noteq> te_id f'" "T k = Some f \<Longrightarrow> te_id f \<noteq> te_id e"
        using fresh [of k' f'] fresh [of k f] by simp_all
      show ?thesis using upd_cases [OF k] upd_cases [OF that(1)] that(2) a D(10) [of k f k' f'] by (elim disjE conjE) simp_all
    qed
  next
    fix i assume i': "in_range 32 i"
      and get: "int_get (hashmap_put tc (int_key (te_id e)) (meta_of n e)) i \<noteq> None \<or> int_get sc' i \<noteq> None"
    show "\<exists>k f. (T(n \<mapsto> e)) k = Some f \<and> te_id f = i"
    proof (cases "i = te_id e")
      case True
      then show ?thesis by (intro exI [of _ n] exI [of _ e]) simp
    next
      case False
      then have "int_get tc i \<noteq> None \<or> int_get sc i \<noteq> None" using get g [OF i'] sc(2) [OF i'] by auto
      then obtain k f where "T k = Some f" "te_id f = i" using D(11) [OF i'] by blast
      then show ?thesis using n by (intro exI [of _ k] exI [of _ f]) auto
    qed
  qed (use D e sc in auto)
qed

lemma tables_remove:
  assumes r: "tables_rel tc ni sc T nt" and n: "T n = Some e"
  shows "tables_rel (snd (hashmap_remove tc (int_key (te_id e)))) (snd (hashmap_remove ni n)) (snd (hashmap_remove sc (int_key (te_id e))))
    (T(n := None)) nt"
proof -
  note D = tables_relD [OF r]
  have i: "in_range 32 (te_id e)" using D(7) [OF n] by blast
  note g = int_get_remove [OF D(1) i] int_get_remove [OF D(3) i]
  have other: "T k = Some f \<and> te_id f \<noteq> te_id e" if "(T(n := None)) k = Some f" for k f
    using that D(10) [OF n, of k f] by (auto split: if_splits)
  show ?thesis
  proof (rule tables_relI)
    show "int_table (snd (hashmap_remove tc (int_key (te_id e))))" "int_table (snd (hashmap_remove sc (int_key (te_id e))))"
      by (rule int_table_remove [OF D(1)] int_table_remove [OF D(3)])+
    show "hm_ok (snd (hashmap_remove ni n))" by (rule hm.ok_rem [OF D(2)])
    show "hashmap_get (snd (hashmap_remove ni n)) k = map_option te_id ((T(n := None)) k)" for k
      using hm.get_rem [OF D(2), of n] D(6) by simp
    fix k f assume k: "(T(n := None)) k = Some f"
    note o = other [OF k]
    show "0 \<le> te_id f \<and> te_id f < nt" using D(7) o by blast
    show "int_get (snd (hashmap_remove tc (int_key (te_id e)))) (te_id f) = Some (meta_of k f) \<and>
        int_get (snd (hashmap_remove sc (int_key (te_id e)))) (te_id f) = te_schema f"
      using g D(7,8) [of k f] o by simp
    show "copy_schema s = Some s" if "te_schema f = Some s" for s using that D(9) o by blast
    show "k = k'" if "(T(n := None)) k' = Some f'" "te_id f = te_id f'" for k' f'
      using D(10) o other [OF that(1)] that(2) by blast
  next
    fix j assume j: "in_range 32 j" and get: "int_get (snd (hashmap_remove tc (int_key (te_id e)))) j \<noteq> None \<or>
      int_get (snd (hashmap_remove sc (int_key (te_id e)))) j \<noteq> None"
    then have "j \<noteq> te_id e" "int_get tc j \<noteq> None \<or> int_get sc j \<noteq> None" using g [OF j] by (auto split: if_splits)
    then obtain k f where "T k = Some f" "te_id f = j" using D(11) [OF j] by blast
    then show "\<exists>k f. (T(n := None)) k = Some f \<and> te_id f = j"
      using \<open>j \<noteq> te_id e\<close> n by (intro exI [of _ k] exI [of _ f]) auto
  qed (use D in auto)
qed

lemma tables_root:
  assumes r: "tables_rel tc ni sc T nt" and n: "T n = Some e"
  shows "tables_rel (hashmap_put tc (int_key (te_id e)) (meta_of n e\<lparr>tm_root := p\<rparr>)) ni sc (T(n \<mapsto> e\<lparr>te_root := p\<rparr>)) nt"
proof -
  note D = tables_relD [OF r]
  have i: "in_range 32 (te_id e)" using D(7) [OF n] by blast
  note g = int_get_put [OF D(1) i, of _ "meta_of n e\<lparr>tm_root := p\<rparr>"]
  let ?T = "T(n \<mapsto> e\<lparr>te_root := p\<rparr>)"
  have same: "\<exists>f'. T k = Some f' \<and> te_id f = te_id f' \<and> te_schema f = te_schema f' \<and>
      meta_of k f = (if k = n then meta_of n e\<lparr>tm_root := p\<rparr> else meta_of k f')" if "?T k = Some f" for k f
    using that n by (auto simp: meta_of_def split: if_splits)
  show ?thesis
  proof (rule tables_relI)
    show "int_table (hashmap_put tc (int_key (te_id e)) (meta_of n e\<lparr>tm_root := p\<rparr>))" by (rule int_table_put [OF D(1) i])
    show "hashmap_get ni k = map_option te_id (?T k)" for k using D(6) [of k] n by simp
    fix k f assume k: "?T k = Some f"
    obtain f' where f': "T k = Some f'" "te_id f = te_id f'" "te_schema f = te_schema f'"
      "meta_of k f = (if k = n then meta_of n e\<lparr>tm_root := p\<rparr> else meta_of k f')" using same [OF k] by blast
    show "0 \<le> te_id f \<and> te_id f < nt" using D(7) [OF f'(1)] f'(2) by simp
    have "k = n \<longleftrightarrow> te_id f' = te_id e" using f'(1) n D(10) [OF f'(1) n] by auto
    then show "int_get (hashmap_put tc (int_key (te_id e)) (meta_of n e\<lparr>tm_root := p\<rparr>)) (te_id f) = Some (meta_of k f) \<and>
        int_get sc (te_id f) = te_schema f"
      using g [of "te_id f'"] D(7,8) [OF f'(1)] f'(2-4) by simp
    show "copy_schema s = Some s" if "te_schema f = Some s" for s using D(9) [OF f'(1)] that f'(3) by simp
    show "k = k'" if k': "?T k' = Some g" "te_id f = te_id g" for k' g
    proof -
      obtain g' where "T k' = Some g'" "te_id g = te_id g'" using same [OF k'(1)] by blast
      then show ?thesis using D(10) [OF f'(1)] f'(2) k'(2) by simp
    qed
  next
    fix j assume j: "in_range 32 j" and get: "int_get (hashmap_put tc (int_key (te_id e)) (meta_of n e\<lparr>tm_root := p\<rparr>)) j \<noteq> None \<or> int_get sc j \<noteq> None"
    have "int_get tc j \<noteq> None \<or> int_get sc j \<noteq> None" using get g [OF j] D(8) [OF n] by (auto split: if_splits)
    then obtain k f where k: "T k = Some f" "te_id f = j" using D(11) [OF j] by blast
    then show "\<exists>k f. ?T k = Some f \<and> te_id f = j"
      using n by (intro exI [of _ k] exI [of _ "if k = n then e\<lparr>te_root := p\<rparr> else f"]) auto
  qed (use D in auto)
qed


section \<open>Every operation refines the one on names\<close>

definition no_names :: names where
  "no_names = \<lparr>a_tables = (\<lambda>_. None), a_indexes = (\<lambda>_. None), a_next_table = 3, a_next_index = 1\<rparr>"

definition system_entry :: "int \<Rightarrow> table_entry" where
  "system_entry i = \<lparr>te_id = i, te_root = -1, te_type = cstr ''system'', te_schema = None\<rparr>"

definition system_names :: names where
  "system_names = no_names\<lparr>a_tables :=
     [cstr ''__tables'' \<mapsto> system_entry 0, cstr ''__columns'' \<mapsto> system_entry 1, cstr ''__indexes'' \<mapsto> system_entry 2]\<rparr>"

lemma new_table_meta_of:
  "new_table_meta i n (cstr ''system'') = meta_of n (system_entry i)"
  "new_table_meta i n (cstr ''user'') = meta_of n \<lparr>te_id = i, te_root = -1, te_type = cstr ''user'', te_schema = s\<rparr>"
  by (simp_all add: new_table_meta_def meta_of_def system_entry_def field_def cstr_def)

lemma int_table_cat_init: "int_table (hashmap_init 64 cat_int_hash_fn (=))"
  and int_get_cat_init: "int_get (hashmap_init 64 cat_int_hash_fn (=)) i = None"
  by (simp_all add: int_table_def int_get_def hm_ok_init hashmap_get_init)

lemma register_rel:
  assumes r: "catalog_rel cat a" and n: "a_tables a n = None" and i: "0 \<le> i" "i < 3" "a_next_table a = 3"
    and fresh: "\<And>k f. a_tables a k = Some f \<Longrightarrow> te_id f \<noteq> i"
  shows "catalog_rel (register_system_table cat n i) (a\<lparr>a_tables := (a_tables a)(n \<mapsto> system_entry i)\<rparr>)"
proof -
  let ?T = "a_tables a"
  have t: "tables_rel (table_cache cat) (name_to_id cat) (schema_cache cat) ?T 3" using r i by (simp add: catalog_rel_def)
  have "in_range 32 i" using i by (simp add: in_range_def)
  then have none: "int_get (schema_cache cat) i = None" using tables_relD(11) [OF t, of i] fresh by blast
  have "tables_rel (hashmap_put (table_cache cat) (int_key (te_id (system_entry i))) (meta_of n (system_entry i)))
      (hashmap_put (name_to_id cat) n (te_id (system_entry i))) (schema_cache cat) (?T(n \<mapsto> system_entry i)) 3"
    by (rule tables_add [OF t n]) (use i fresh none tables_relD(3) [OF t] in \<open>simp_all add: system_entry_def\<close>)
  then show ?thesis using r i by (simp add: catalog_rel_def register_system_table_def new_table_meta_of) (simp add: system_entry_def)
qed

lemma catalog_init_rel: "catalog_rel catalog_init system_names"
proof -
  let ?c = "\<lparr>id_gen = id_generator_init,
      table_cache = hashmap_init 64 cat_int_hash_fn cat_int_equal_fn, name_to_id = hashmap_init 64 str_hash_fn str_equal_fn,
      schema_cache = hashmap_init 64 cat_int_hash_fn cat_int_equal_fn, index_cache = hashmap_init 64 cat_int_hash_fn cat_int_equal_fn,
      tables_page_id = INVALID_PAGE_ID, columns_page_id = INVALID_PAGE_ID, indexes_page_id = INVALID_PAGE_ID\<rparr>"
  have 0: "catalog_rel ?c no_names"
    by (simp add: int_table_cat_init int_get_cat_init catalog_rel_def tables_rel_def indexes_rel_def no_names_def id_generator_init_def hm_ok_init hashmap_get_init)
  have n: "cstr ''__tables'' \<noteq> cstr ''__columns''" "cstr ''__tables'' \<noteq> cstr ''__indexes''" "cstr ''__columns'' \<noteq> cstr ''__indexes''"
    by (simp_all add: cstr_def)
  let ?a1 = "no_names\<lparr>a_tables := (a_tables no_names)(cstr ''__tables'' \<mapsto> system_entry 0)\<rparr>"
  have 1: "catalog_rel (register_system_table ?c (cstr ''__tables'') 0) ?a1"
    by (rule register_rel [OF 0]) (simp_all add: no_names_def)
  let ?a2 = "?a1\<lparr>a_tables := (a_tables ?a1)(cstr ''__columns'' \<mapsto> system_entry 1)\<rparr>"
  have 2: "catalog_rel (register_system_table (register_system_table ?c (cstr ''__tables'') 0) (cstr ''__columns'') 1) ?a2"
    by (rule register_rel [OF 1]) (use n in \<open>auto simp: no_names_def system_entry_def split: if_splits\<close>)
  have "catalog_rel (register_system_table (register_system_table (register_system_table ?c (cstr ''__tables'') 0) (cstr ''__columns'') 1)
      (cstr ''__indexes'') 2) (?a2\<lparr>a_tables := (a_tables ?a2)(cstr ''__indexes'' \<mapsto> system_entry 2)\<rparr>)"
    by (rule register_rel [OF 2]) (use n in \<open>auto simp: no_names_def system_entry_def split: if_splits\<close>)
  then show ?thesis by (simp add: catalog_init_def Let_def system_names_def no_names_def)
qed

abbreviation "same_step \<equiv> rel_option (\<lambda>(r, cat) (r', a). r = r' \<and> catalog_rel cat a)"

lemma create_table_rel:
  assumes r: "catalog_rel cat a"
  shows "same_step (cat_step (C_Create n s) cat) (names_step (C_Create n s) a)"
proof (cases "a_tables a n")
  case (Some e)
  then show ?thesis using r tables_relD(6) [of "table_cache cat" "name_to_id cat" "schema_cache cat" "a_tables a" "a_next_table a" n]
    by (simp add: catalog_create_table_def catalog_rel_def)
next
  case None
  have t: "tables_rel (table_cache cat) (name_to_id cat) (schema_cache cat) (a_tables a) (a_next_table a)"
    and nt: "next_table_id (id_gen cat) = a_next_table a"
    using r by (simp_all add: catalog_rel_def)
  have get: "hashmap_get (name_to_id cat) n = None" using tables_relD(6) [OF t, of n] None by simp
  show ?thesis
  proof (cases "a_next_table a < 2 ^ 31 - 1 \<and> copy_schema s \<noteq> None")
    case False
    then show ?thesis using None get nt
      by (auto simp: catalog_create_table_def id_generator_next_table_def incr32_def split: option.splits)
  next
    case True
    then obtain s' where s: "copy_schema s = Some s'" and lt: "a_next_table a < 2 ^ 31 - 1" by blast
    let ?e = "\<lparr>te_id = a_next_table a, te_root = -1, te_type = cstr ''user'', te_schema = Some s'\<rparr>"
    have i: "in_range 32 (a_next_table a)" using tables_relD(4,5) [OF t] by (simp add: in_range_def)
    have "tables_rel (hashmap_put (table_cache cat) (int_key (te_id ?e)) (meta_of n ?e)) (hashmap_put (name_to_id cat) n (te_id ?e))
        (hashmap_put (schema_cache cat) (int_key (a_next_table a)) s') ((a_tables a)(n \<mapsto> ?e)) (a_next_table a + 1)"
    proof (rule tables_add [OF t None])
      show "te_id f \<noteq> te_id ?e" if "a_tables a k = Some f" for k f using tables_relD(7) [OF t that] by simp
      show "int_table (hashmap_put (schema_cache cat) (int_key (a_next_table a)) s')" by (rule int_table_put [OF tables_relD(3) [OF t] i])
      show "int_get (hashmap_put (schema_cache cat) (int_key (a_next_table a)) s') j = (if j = te_id ?e then te_schema ?e else int_get (schema_cache cat) j)"
        if "in_range 32 j" for j using int_get_put [OF tables_relD(3) [OF t] i that] by simp
    qed (use tables_relD(4,5) [OF t] lt copy_schema_again [OF s] in simp_all)
    then show ?thesis using r None get nt lt s
      by (simp add: catalog_create_table_def id_generator_next_table_def incr32_def catalog_rel_def new_table_meta_of(2) [where s = "Some s'"])
  qed
qed

lemma drop_table_rel:
  assumes r: "catalog_rel cat a"
  shows "same_step (cat_step (C_Drop n) cat) (names_step (C_Drop n) a)"
proof -
  have t: "tables_rel (table_cache cat) (name_to_id cat) (schema_cache cat) (a_tables a) (a_next_table a)"
    and x: "indexes_rel (index_cache cat) (a_indexes a) (a_next_index a)"
    using r by (simp_all add: catalog_rel_def)
  show ?thesis
  proof (cases "a_tables a n")
    case None
    then show ?thesis using r tables_relD(6) [OF t, of n] by (simp add: catalog_drop_table_def)
  next
    case (Some e)
    show ?thesis
      using r Some tables_relD(6) [OF t, of n] tables_remove [OF t Some] drop_table_indexes [OF x, of "te_id e"]
      by (simp add: catalog_drop_table_def catalog_rel_def Let_def without_def [abs_def])
  qed
qed

lemma update_root_rel:
  assumes r: "catalog_rel cat a" and tid: "in_range 32 tid"
  shows "same_step (cat_step (C_Root tid p) cat) (names_step (C_Root tid p) a)"
proof -
  have t: "tables_rel (table_cache cat) (name_to_id cat) (schema_cache cat) (a_tables a) (a_next_table a)"
    using r by (simp add: catalog_rel_def)
  note D = tables_relD [OF t]
  show ?thesis
  proof (cases "\<exists>n e. a_tables a n = Some e \<and> te_id e = tid")
    case False
    then have "int_get (table_cache cat) tid = None" using D(11) [OF tid] by blast
    then show ?thesis using False r by (simp add: catalog_update_root_page_def int_get_def)
  next
    case True
    then obtain n e where e: "a_tables a n = Some e" "te_id e = tid" by blast
    have get: "hashmap_get (table_cache cat) (int_key tid) = Some (meta_of n e)"
      using D(8) [OF e(1)] e(2) by (simp add: int_get_def)
    have "(\<lambda>k. map_option (\<lambda>e. if te_id e = tid then e\<lparr>te_root := p\<rparr> else e) (a_tables a k)) = (a_tables a)(n \<mapsto> e\<lparr>te_root := p\<rparr>)"
    proof
      fix k
      show "map_option (\<lambda>e. if te_id e = tid then e\<lparr>te_root := p\<rparr> else e) (a_tables a k) = ((a_tables a)(n \<mapsto> e\<lparr>te_root := p\<rparr>)) k"
      proof (cases "k = n")
        case False
        have "te_id f \<noteq> tid" if "a_tables a k = Some f" for f using D(10) [OF that e(1)] e(2) False by auto
        then show ?thesis using False by (cases "a_tables a k") simp_all
      qed (use e in simp)
    qed
    then show ?thesis using True get r tables_root [OF t e(1), of p] e(2)
      by (simp add: catalog_update_root_page_def catalog_rel_def)
  qed
qed

lemma create_index_rel:
  assumes r: "catalog_rel cat a" and n: "length n \<le> 63"
  shows "same_step (cat_step (C_Index n tid col p u) cat) (names_step (C_Index n tid col p u) a)"
proof -
  have x: "indexes_rel (index_cache cat) (a_indexes a) (a_next_index a)" and ix: "next_index_id (id_gen cat) = a_next_index a"
    using r by (simp_all add: catalog_rel_def)
  have f: "find_index cat n = a_indexes a n" by (rule find_index_rel [OF x])
  show ?thesis
  proof (cases "a_indexes a n = None \<and> a_next_index a < 2 ^ 31 - 1")
    case True
    let ?m = "\<lparr>im_id = a_next_index a, im_name = n, im_table = tid, im_column = col, im_root = p, im_unique = u\<rparr>"
    have "indexes_rel (hashmap_put (index_cache cat) (int_key (a_next_index a)) ?m) ((a_indexes a)(n \<mapsto> ?m)) (a_next_index a + 1)"
      by (rule indexes_put [OF x]) (use True in simp_all)
    then show ?thesis using True r f ix n
      by (simp add: catalog_create_index_def id_generator_next_index_def incr32_def catalog_rel_def field_def)
  next
    case False
    then show ?thesis using r f ix by (auto simp: catalog_create_index_def id_generator_next_index_def incr32_def)
  qed
qed

lemma drop_index_rel:
  assumes r: "catalog_rel cat a"
  shows "same_step (cat_step (C_Drop_Index n) cat) (names_step (C_Drop_Index n) a)"
proof -
  have x: "indexes_rel (index_cache cat) (a_indexes a) (a_next_index a)" using r by (simp add: catalog_rel_def)
  have f: "find_index cat n = a_indexes a n" by (rule find_index_rel [OF x])
  show ?thesis
  proof (cases "a_indexes a n")
    case None
    then show ?thesis using r f by (simp add: catalog_drop_index_def)
  next
    case (Some m)
    have m: "im_name m = n" "0 \<le> im_id m" "im_id m < a_next_index a" "a_next_index a < 2 ^ 31"
      using x Some unfolding indexes_rel_def by blast+
    then have i: "in_range 32 (im_id m)" by (simp add: in_range_def)
    have "im_id e = im_id m \<longleftrightarrow> k = n" if e: "a_indexes a k = Some e" for k e
    proof
      assume "im_id e = im_id m"
      moreover have "im_name e = k" using x e unfolding indexes_rel_def by blast
      ultimately have "int_get (index_cache cat) (im_id m) = Some e" "int_get (index_cache cat) (im_id m) = Some m"
        using x i e Some m(1) unfolding indexes_rel_def by blast+
      then show "k = n" using \<open>im_name e = k\<close> m(1) by simp
    qed (use e Some in simp)
    then have "without (\<lambda>e. im_id e = im_id m) (a_indexes a) = (a_indexes a)(n := None)"
      by (auto simp: without_def fun_eq_iff split: option.split)
    then show ?thesis using Some r f indexes_remove [OF x i] by (simp add: catalog_drop_index_def catalog_rel_def)
  qed
qed

lemma cat_step_rel:
  assumes "catalog_rel cat a" "op_ok op"
  shows "same_step (cat_step op cat) (names_step op a)"
proof (cases op)
  case (C_Root tid p)
  then show ?thesis using update_root_rel assms by simp
next
  case (C_Index n tid col p u)
  then show ?thesis using create_index_rel assms by simp
qed (use create_table_rel drop_table_rel drop_index_rel assms in simp_all)

text \<open>A run, and its results.\<close>

fun run :: "('o \<Rightarrow> 's \<Rightarrow> (int \<times> 's) option) \<Rightarrow> 'o list \<Rightarrow> 's \<Rightarrow> (int list \<times> 's) option" where
  "run f [] s = Some ([], s)"
| "run f (op # ops) s = Option.bind (f op s) (\<lambda>(r, s). map_option (apfst ((#) r)) (run f ops s))"

lemma run_rel:
  "catalog_rel cat a \<Longrightarrow> list_all op_ok ops \<Longrightarrow>
   rel_option (\<lambda>(rs, cat) (rs', a). rs = rs' \<and> catalog_rel cat a) (run cat_step ops cat) (run names_step ops a)"
proof (induction ops arbitrary: cat a)
  case (Cons op ops)
  have "same_step (cat_step op cat) (names_step op a)" by (rule cat_step_rel) (use Cons.prems in simp_all)
  then show ?case
  proof (cases rule: option.rel_cases)
    case (Some x y)
    obtain r cat1 a1 where s: "x = (r, cat1)" "y = (r, a1)" "catalog_rel cat1 a1" using Some(3) by auto
    have "rel_option (\<lambda>(rs, cat) (rs', a). rs = rs' \<and> catalog_rel cat a) (run cat_step ops cat1) (run names_step ops a1)"
      by (rule Cons.IH [OF s(3)]) (use Cons.prems in simp)
    then show ?thesis using Some(1,2) s(1,2)
      by (cases "run cat_step ops cat1"; cases "run names_step ops a1") auto
  qed simp
qed simp


section \<open>The queries\<close>

lemma tables_set:
  assumes t: "tables_rel tc ni sc T nt"
  shows "set (hashmap_vals tc) = {meta_of n e | n e. T n = Some e}"
proof -
  note D = tables_relD [OF t]
  have ok: "hm_ok tc" using D(1) by (simp add: int_table_def)
  have "m \<in> ran (hashmap_get tc) \<longleftrightarrow> (\<exists>n e. m = meta_of n e \<and> T n = Some e)" for m
  proof
    assume "m \<in> ran (hashmap_get tc)"
    then obtain k where k: "hashmap_get tc k = Some m" by (auto simp: ran_def)
    then obtain i where i: "in_range 32 i" "k = int_key i" using D(1) by (auto simp: int_table_def)
    then have g: "int_get tc i = Some m" using k by (simp add: int_get_def)
    then obtain n e where e: "T n = Some e" "te_id e = i" using D(11) [OF i(1)] by auto
    then show "\<exists>n e. m = meta_of n e \<and> T n = Some e" using D(8) [OF e(1)] g by auto
  next
    assume "\<exists>n e. m = meta_of n e \<and> T n = Some e"
    then obtain n e where e: "m = meta_of n e" "T n = Some e" by blast
    then have "int_get tc (te_id e) = Some m" using D(8) [OF e(2)] by simp
    then show "m \<in> ran (hashmap_get tc)" unfolding int_get_def by (rule ranI)
  qed
  then show ?thesis using hashmap_vals_set [OF ok] by blast
qed

lemma queries_rel:
  assumes r: "catalog_rel cat a"
  shows "catalog_get_table cat n = (case a_tables a n of None \<Rightarrow> Inl DB_UNKNOWN_TABLE | Some e \<Rightarrow> Inr (meta_of n e))"
    and "a_tables a n = Some e \<Longrightarrow>
      catalog_get_schema cat (te_id e) out = (case te_schema e of None \<Rightarrow> (DB_UNKNOWN_TABLE, out) | Some s \<Rightarrow> (DB_OK, s))"
    and "set (catalog_list_tables cat) = {take 63 n | n e. a_tables a n = Some e \<and> te_type e = cstr ''user''}"
    and "catalog_get_index cat n = (case a_indexes a n of None \<Rightarrow> Inl DB_UNKNOWN_TABLE | Some m \<Rightarrow> Inr m)"
    and "set (catalog_get_table_indexes cat tid) = {m \<in> ran (a_indexes a). im_table m = tid}"
proof -
  have t: "tables_rel (table_cache cat) (name_to_id cat) (schema_cache cat) (a_tables a) (a_next_table a)"
    and x: "indexes_rel (index_cache cat) (a_indexes a) (a_next_index a)"
    using r by (simp_all add: catalog_rel_def)
  note D = tables_relD [OF t]
  show "catalog_get_table cat n = (case a_tables a n of None \<Rightarrow> Inl DB_UNKNOWN_TABLE | Some e \<Rightarrow> Inr (meta_of n e))"
  proof (cases "a_tables a n")
    case (Some e)
    then show ?thesis using D(6) [of n] D(8) [OF Some] by (simp add: catalog_get_table_def int_get_def)
  qed (use D(6) [of n] in \<open>simp add: catalog_get_table_def\<close>)
  show "catalog_get_schema cat (te_id e) out = (case te_schema e of None \<Rightarrow> (DB_UNKNOWN_TABLE, out) | Some s \<Rightarrow> (DB_OK, s))"
    if e: "a_tables a n = Some e"
  proof (cases "te_schema e")
    case (Some s)
    then have "copy_schema s = Some s" by (rule D(9) [OF e])
    then have "schema_create blank_schema (columns s) (num_columns s) = (DB_OK, s)"
      by (auto simp: copy_schema_def split: prod.splits if_splits)
    from schema_create_again [OF this, of out] show ?thesis using D(8) [OF e] Some by (simp add: catalog_get_schema_def int_get_def)
  qed (use D(8) [OF e] in \<open>simp add: catalog_get_schema_def int_get_def\<close>)
  show "set (catalog_list_tables cat) = {take 63 n | n e. a_tables a n = Some e \<and> te_type e = cstr ''user''}"
  proof -
    have "set (catalog_list_tables cat) = tm_name ` {m \<in> set (hashmap_vals (table_cache cat)). tm_type m = cstr ''user''}"
      by (simp add: catalog_list_tables_def strcmp_eq)
    also have "\<dots> = {take 63 n | n e. a_tables a n = Some e \<and> te_type e = cstr ''user''}"
      unfolding tables_set [OF t] image_def mem_Collect_eq by (rule Collect_cong) (fastforce simp: meta_of_def)
    finally show ?thesis .
  qed
  show "catalog_get_index cat n = (case a_indexes a n of None \<Rightarrow> Inl DB_UNKNOWN_TABLE | Some m \<Rightarrow> Inr m)"
    by (simp add: catalog_get_index_def find_index_rel [OF x])
  show "set (catalog_get_table_indexes cat tid) = {m \<in> ran (a_indexes a). im_table m = tid}"
    using indexes_set [OF x] by (simp add: catalog_get_table_indexes_def)
qed

section \<open>Properties\<close>

text \<open>C18. The catalog is the pair of finite maps from names: every run of creating and dropping tables and
  indexes and moving table roots from a new catalog returns what the run on the maps returns, ids
  included; and after it the queries answer from the maps: a table by name, its schema by its id, the user tables, an
  index by name, the indexes of a table. Dropping a table drops its indexes, an id is never used twice. For names of
  indexes that fit their field (see \<open>long_index_names\<close>).\<close>

theorem catalog_refines_names:
  assumes "list_all op_ok ops"
  shows "case run cat_step ops catalog_init of
      None \<Rightarrow> run names_step ops system_names = None
    | Some (rs, cat) \<Rightarrow> \<exists>a. run names_step ops system_names = Some (rs, a) \<and>
        (\<forall>n. catalog_get_table cat n = (case a_tables a n of None \<Rightarrow> Inl DB_UNKNOWN_TABLE | Some e \<Rightarrow> Inr (meta_of n e))) \<and>
        (\<forall>n e out. a_tables a n = Some e \<longrightarrow>
          catalog_get_schema cat (te_id e) out = (case te_schema e of None \<Rightarrow> (DB_UNKNOWN_TABLE, out) | Some s \<Rightarrow> (DB_OK, s))) \<and>
        set (catalog_list_tables cat) = {take 63 n | n e. a_tables a n = Some e \<and> te_type e = cstr ''user''} \<and>
        (\<forall>n. catalog_get_index cat n = (case a_indexes a n of None \<Rightarrow> Inl DB_UNKNOWN_TABLE | Some m \<Rightarrow> Inr m)) \<and>
        (\<forall>tid. set (catalog_get_table_indexes cat tid) = {m \<in> ran (a_indexes a). im_table m = tid})"
proof -
  note r = run_rel [OF catalog_init_rel assms]
  show ?thesis
  proof (cases "run cat_step ops catalog_init")
    case None
    then show ?thesis using r by simp
  next
    case (Some x)
    obtain rs cat where x: "x = (rs, cat)" by (cases x)
    obtain a where a: "run names_step ops system_names = Some (rs, a)" "catalog_rel cat a"
      using r unfolding Some x by (cases "run names_step ops system_names") auto
    show ?thesis unfolding Some x option.case prod.case
      by (rule exI [of _ a]) (intro conjI a(1) allI impI queries_rel [OF a(2)])
  qed
qed

text \<open>Create a table and an index on it, drop the table, create it again.\<close>

definition demo_ops :: "cat_op list" where
  "demo_ops = [C_Create (cstr ''t'') demo_schema, C_Index (cstr ''i'') 3 0 (-1) False, C_Drop (cstr ''t''), C_Create (cstr ''t'') demo_schema]"

lemma demo_copy: "copy_schema demo_schema = Some demo_schema"
proof -
  have "schema_create blank_schema demo_columns 3 = (DB_OK, demo_schema)" using demo_schema_create by (simp add: blank_schema_def)
  from schema_create_again [OF this, of blank_schema] show ?thesis by (simp add: copy_schema_def)
qed

lemma demo_names:
  obtains a where "run names_step demo_ops system_names = Some ([3, 1, 0, 4], a)" "a_indexes a (cstr ''i'') = None"
    "a_tables a (cstr ''t'') = Some \<lparr>te_id = 4, te_root = -1, te_type = cstr ''user'', te_schema = Some demo_schema\<rparr>"
proof -
  let ?e = "\<lambda>i. \<lparr>te_id = i, te_root = -1, te_type = cstr ''user'', te_schema = Some demo_schema\<rparr>"
  let ?T = "a_tables system_names" and ?t = "cstr ''t''" and ?i = "cstr ''i''"
  let ?m = "\<lparr>im_id = 1, im_name = ?i, im_table = 3, im_column = 0, im_root = -1, im_unique = False\<rparr>"
  let ?a = "\<lambda>T I nt ix. \<lparr>a_tables = T, a_indexes = I, a_next_table = nt, a_next_index = ix\<rparr>"
  have T: "?T ?t = None" "system_names = ?a ?T (\<lambda>_. None) 3 1" by (simp_all add: system_names_def no_names_def cstr_def)
  have 1: "names_step (C_Create ?t demo_schema) system_names = Some (3, ?a (?T(?t \<mapsto> ?e 3)) (\<lambda>_. None) 4 1)"
    by (subst T(2), subst names_step.simps) (simp only: names.select_convs names.update_convs T(1) demo_copy, simp)
  have 2: "names_step (C_Index ?i 3 0 (-1) False) (?a (?T(?t \<mapsto> ?e 3)) (\<lambda>_. None) 4 1) =
      Some (1, ?a (?T(?t \<mapsto> ?e 3)) [?i \<mapsto> ?m] 4 2)" by simp
  have 3: "names_step (C_Drop ?t) (?a (?T(?t \<mapsto> ?e 3)) [?i \<mapsto> ?m] 4 2) = Some (0, ?a ?T (\<lambda>_. None) 4 2)"
    using T(1) by (auto simp: fun_eq_iff)
  have 4: "names_step (C_Create ?t demo_schema) (?a ?T (\<lambda>_. None) 4 2) = Some (4, ?a (?T(?t \<mapsto> ?e 4)) (\<lambda>_. None) 5 2)"
    by (subst names_step.simps) (simp only: names.select_convs names.update_convs T(1) demo_copy, simp)
  have "run names_step demo_ops system_names = Some ([3, 1, 0, 4], ?a (?T(?t \<mapsto> ?e 4)) (\<lambda>_. None) 5 2)"
    unfolding demo_ops_def run.simps 1 2 3 4 bind.simps prod.case by simp
  then show ?thesis by (rule that) simp_all
qed

theorem catalog_refines_names_witness:
  "\<exists>cat. run cat_step demo_ops catalog_init = Some ([3, 1, 0, 4], cat) \<and> catalog_get_index cat (cstr ''i'') = Inl DB_UNKNOWN_TABLE \<and>
     catalog_get_schema cat 4 blank_schema = (DB_OK, demo_schema)"
proof -
  have ok: "list_all op_ok demo_ops" by (simp add: demo_ops_def cstr_def)
  obtain a where a: "run names_step demo_ops system_names = Some ([3, 1, 0, 4], a)" "a_indexes a (cstr ''i'') = None"
    "a_tables a (cstr ''t'') = Some \<lparr>te_id = 4, te_root = -1, te_type = cstr ''user'', te_schema = Some demo_schema\<rparr>"
    by (rule demo_names)
  note r = catalog_refines_names [OF ok]
  then obtain rs cat where cat: "run cat_step demo_ops catalog_init = Some (rs, cat)" using a(1) by (auto split: option.splits)
  obtain a' where a': "run names_step demo_ops system_names = Some (rs, a')"
    "\<forall>n. catalog_get_index cat n = (case a_indexes a' n of None \<Rightarrow> Inl DB_UNKNOWN_TABLE | Some m \<Rightarrow> Inr m)"
    "\<forall>n e out. a_tables a' n = Some e \<longrightarrow>
       catalog_get_schema cat (te_id e) out = (case te_schema e of None \<Rightarrow> (DB_UNKNOWN_TABLE, out) | Some s \<Rightarrow> (DB_OK, s))"
    using r unfolding cat option.case prod.case by blast
  have eq: "rs = [3, 1, 0, 4]" "a' = a" using a(1) a'(1) by simp_all
  have "catalog_get_schema cat 4 blank_schema = (DB_OK, demo_schema)"
    using a'(3) [rule_format, OF a(3) [folded eq(2)], of blank_schema] by simp
  moreover have "catalog_get_index cat (cstr ''i'') = Inl DB_UNKNOWN_TABLE" using a'(2) a(2) eq(2) by simp
  ultimately show ?thesis using cat eq(1) by blast
qed

text \<open>The name of an index is stored cut to 63 bytes, but looked for uncut: an index with a longer name can be
  created twice, and is never found again.\<close>

lemma find_index_none: "hm_ok (index_cache cat) \<Longrightarrow> (\<And>m. m \<in> ran (hashmap_get (index_cache cat)) \<Longrightarrow> im_name m \<noteq> n) \<Longrightarrow> find_index cat n = None"
  by (simp add: find_index_def find_None_iff hashmap_vals_set strcmp_eq)

theorem long_index_names:
  assumes n: "64 \<le> length n"
  shows "\<exists>cat1 cat2. catalog_create_index catalog_init n 3 0 (-1) u = Some (1, cat1) \<and>
    catalog_create_index cat1 n 3 0 (-1) u = Some (2, cat2) \<and> catalog_get_index cat2 n = Inl DB_UNKNOWN_TABLE"
proof -
  let ?ic = "hashmap_init 64 cat_int_hash_fn cat_int_equal_fn :: (uintptr, index_meta) hashmap"
  let ?m = "\<lambda>i. \<lparr>im_id = i, im_name = field 64 n, im_table = 3, im_column = 0, im_root = -1, im_unique = u\<rparr>"
  let ?ic1 = "hashmap_put ?ic (int_key 1) (?m 1)"
  let ?ic2 = "hashmap_put ?ic1 (int_key 2) (?m 2)"
  have init: "index_cache catalog_init = ?ic" "id_gen catalog_init = id_generator_init"
    by (simp_all add: catalog_init_def register_system_table_def Let_def)
  have ok: "hm_ok ?ic" "hm_ok ?ic1" "hm_ok ?ic2" by (simp_all add: hm_ok_init hm.ok_put)
  have g: "hashmap_get ?ic1 = [int_key 1 \<mapsto> ?m 1]" "hashmap_get ?ic2 = [int_key 1 \<mapsto> ?m 1, int_key 2 \<mapsto> ?m 2]"
    using hm.get_put [OF ok(1)] hm.get_put [OF ok(2)] by (simp_all add: fun_eq_iff hashmap_get_init)
  have long: "field 64 n \<noteq> n" using n by (auto simp: field_def dest: arg_cong [where f = length])
  have 0: "find_index catalog_init n = None" by (rule find_index_none) (use ok init in \<open>simp_all add: ran_def hashmap_get_init\<close>)
  let ?c1 = "catalog_init\<lparr>id_gen := id_generator_init\<lparr>next_index_id := 2\<rparr>, index_cache := ?ic1\<rparr>"
  have 1: "catalog_create_index catalog_init n 3 0 (-1) u = Some (1, ?c1)"
    using 0 init by (simp add: catalog_create_index_def id_generator_next_index_def incr32_def id_generator_init_def)
  have names: "im_name m = field 64 n" if "m \<in> ran (hashmap_get ?ic1) \<or> m \<in> ran (hashmap_get ?ic2)" for m
    using that unfolding g by (auto simp: ran_def split: if_splits)
  have f1: "find_index ?c1 n = None" by (rule find_index_none) (use ok names long in simp_all)
  let ?c2 = "catalog_init\<lparr>id_gen := id_generator_init\<lparr>next_index_id := 3\<rparr>, index_cache := ?ic2\<rparr>"
  have 2: "catalog_create_index ?c1 n 3 0 (-1) u = Some (2, ?c2)"
    using f1 by (simp add: catalog_create_index_def id_generator_next_index_def incr32_def id_generator_init_def)
  have "find_index ?c2 n = None" by (rule find_index_none) (use ok names long in simp_all)
  then show ?thesis using 1 2 by (simp add: catalog_get_index_def)
qed

end
