(* ===== verification/Planner.thy ===== *)
theory Planner
  imports Catalog Expr_Eval
begin

text \<open>
  The planner of \<open>src/planner/planner.c\<close>, with the plan nodes of \<open>logical_plan.h\<close> and \<open>physical_plan.h\<close>: from a
  statement to a logical plan, from that to a physical one, and the rule that turns a scan into an index scan. A NULL
  plan is None. A node has the children that the planner gives it; freshly allocated memory for a schema
  is \<open>blank_schema\<close>. What is logged is not modelled.
\<close>

section \<open>Plans\<close>

datatype logical_node =
    LOP_SCAN cstring int "schema option"
  | LOP_INDEX_SCAN cstring int int int int int bool bool "schema option"
  | LOP_FILTER expr "schema option" logical_node
  | LOP_PROJECT "expr list" "schema option" logical_node
  | LOP_JOIN token_type "expr option" "schema option" logical_node logical_node
  | LOP_AGGREGATE "expr list" "expr list" "schema option" logical_node
  | LOP_SORT "order_by_item list" "schema option" logical_node
  | LOP_LIMIT int int "schema option" logical_node
  | LOP_INSERT cstring int "schema option"
  | LOP_UPDATE cstring int "assignment list" "expr option" "schema option" logical_node
  | LOP_DELETE cstring int "expr option" "schema option" logical_node

fun lop_schema :: "logical_node \<Rightarrow> schema option" where
  "lop_schema (LOP_SCAN name tid s) = s"
| "lop_schema (LOP_INDEX_SCAN name tid iid col low high hl hh s) = s"
| "lop_schema (LOP_FILTER e s q) = s"
| "lop_schema (LOP_PROJECT es s q) = s"
| "lop_schema (LOP_JOIN ty cond s p q) = s"
| "lop_schema (LOP_AGGREGATE gs as s q) = s"
| "lop_schema (LOP_SORT items s q) = s"
| "lop_schema (LOP_LIMIT n k s q) = s"
| "lop_schema (LOP_INSERT name tid s) = s"
| "lop_schema (LOP_UPDATE name tid as w s q) = s"
| "lop_schema (LOP_DELETE name tid w s q) = s"

text \<open>\<open>POP_HASH_JOIN\<close> is never built. An index scan has the fields table, table id, index id, column id, low and high key,
  has low, has high.\<close>

datatype physical_node =
    POP_SEQ_SCAN cstring int "expr option" "schema option"
  | POP_INDEX_SCAN cstring int int int int int bool bool "schema option"
  | POP_FILTER expr "schema option" physical_node
  | POP_PROJECT "expr list" "schema option" physical_node
  | POP_NESTED_LOOP_JOIN token_type "expr option" "schema option" physical_node physical_node
  | POP_HASH_AGGREGATE "expr list" "expr list" "schema option" physical_node
  | POP_SORT "order_by_item list" "schema option" physical_node
  | POP_LIMIT int int "schema option" physical_node
  | POP_INSERT cstring int "schema option"
  | POP_UPDATE cstring int "assignment list" "schema option" physical_node
  | POP_DELETE cstring int "schema option" physical_node

section \<open>From statements to logical plans\<close>

definition get_table_schema :: "catalog \<Rightarrow> int \<Rightarrow> schema option" where
  "get_table_schema cat tid =
     (case catalog_get_schema cat tid blank_schema of (rc, s) \<Rightarrow> if rc = DB_OK then Some s else None)"

definition clone_schema :: "schema option \<Rightarrow> schema option" where
  "clone_schema src = map_option (\<lambda>s. snd (schema_create blank_schema (columns s) (num_columns s))) src"

text \<open>The scan of a table that the catalog knows by the name.\<close>

definition plan_scan :: "catalog \<Rightarrow> string \<Rightarrow> logical_node option" where
  "plan_scan cat name =
     (case catalog_get_table cat (c_text name) of
        Inl rc \<Rightarrow> None
      | Inr meta \<Rightarrow> Some (LOP_SCAN (field 64 (c_text name)) (tm_id meta) (get_table_schema cat (tm_id meta))))"

definition combined_schema :: "schema option \<Rightarrow> schema option \<Rightarrow> schema option" where
  "combined_schema l r =
     (case (l, r) of
        (Some l, Some r) \<Rightarrow> Some (snd (schema_create blank_schema (schema_cols l @ schema_cols r) (num_columns l + num_columns r)))
      | _ \<Rightarrow> None)"

definition plan_join :: "catalog \<Rightarrow> token_type \<Rightarrow> expr option \<Rightarrow> string \<Rightarrow> logical_node \<Rightarrow> logical_node option" where
  "plan_join cat ty cond name current =
     map_option (\<lambda>right. LOP_JOIN ty cond (combined_schema (lop_schema current) (lop_schema right)) current right) (plan_scan cat name)"

fun plan_joins :: "catalog \<Rightarrow> join_clause list \<Rightarrow> logical_node \<Rightarrow> logical_node option" where
  "plan_joins cat [] current = Some current"
| "plan_joins cat (j # js) current =
     Option.bind (plan_join cat (join_type j) (join_condition j) (tref_name (join_table j)) current) (plan_joins cat js)"

fun plan_cross :: "catalog \<Rightarrow> table_ref list \<Rightarrow> logical_node \<Rightarrow> logical_node option" where
  "plan_cross cat [] current = Some current"
| "plan_cross cat (t # ts) current = Option.bind (plan_join cat TK_JOIN None (tref_name t) current) (plan_cross cat ts)"

definition plan_from :: "catalog \<Rightarrow> select_stmt \<Rightarrow> logical_node option" where
  "plan_from cat s =
     (case sel_from s of
        [] \<Rightarrow> Some (LOP_SCAN [] (-1) None)
      | t # ts \<Rightarrow> Option.bind (Option.bind (plan_scan cat (tref_name t)) (plan_joins cat (sel_joins s))) (plan_cross cat ts))"

fun is_function_call :: "expr \<Rightarrow> bool" where
  "is_function_call (EXPR_FUNCTION_CALL name args star) = True"
| "is_function_call _ = False"

definition plan_filter :: "expr option \<Rightarrow> logical_node \<Rightarrow> logical_node" where
  "plan_filter cond current = (case cond of None \<Rightarrow> current | Some e \<Rightarrow> LOP_FILTER e (lop_schema current) current)"

definition plan_aggregate :: "select_stmt \<Rightarrow> logical_node \<Rightarrow> logical_node" where
  "plan_aggregate s current =
     (if sel_group s \<noteq> [] \<or> list_ex is_function_call (sel_list s)
      then LOP_AGGREGATE (sel_group s) (filter is_function_call (sel_list s)) (lop_schema current) current
      else current)"

fun is_star :: "expr list \<Rightarrow> bool" where
  "is_star [EXPR_COLUMN_REF t c] \<longleftrightarrow> c_text c = cstr ''*''"
| "is_star _ \<longleftrightarrow> False"

definition plan_project :: "select_stmt \<Rightarrow> logical_node \<Rightarrow> logical_node" where
  "plan_project s current =
     (if sel_list s \<noteq> [] \<and> \<not> is_star (sel_list s) then LOP_PROJECT (sel_list s) (lop_schema current) current else current)"

definition plan_sort :: "select_stmt \<Rightarrow> logical_node \<Rightarrow> logical_node" where
  "plan_sort s current = (if sel_order s \<noteq> [] then LOP_SORT (sel_order s) (lop_schema current) current else current)"

definition plan_limit :: "select_stmt \<Rightarrow> logical_node \<Rightarrow> logical_node" where
  "plan_limit s current = (if sel_limit s \<ge> 0 then LOP_LIMIT (sel_limit s) (sel_offset s) (lop_schema current) current else current)"

definition plan_select :: "catalog \<Rightarrow> select_stmt \<Rightarrow> logical_node option" where
  "plan_select cat s =
     map_option (\<lambda>current.
       plan_limit s (plan_sort s (plan_project s (plan_filter (sel_having s) (plan_aggregate s (plan_filter (sel_where s) current))))))
       (plan_from cat s)"

definition plan_insert :: "catalog \<Rightarrow> insert_stmt \<Rightarrow> logical_node option" where
  "plan_insert cat s =
     (case catalog_get_table cat (c_text (ins_table s)) of
        Inl rc \<Rightarrow> None
      | Inr meta \<Rightarrow> Some (LOP_INSERT (field 64 (c_text (ins_table s))) (tm_id meta) (get_table_schema cat (tm_id meta))))"

definition plan_update :: "catalog \<Rightarrow> update_stmt \<Rightarrow> logical_node option" where
  "plan_update cat s =
     (case catalog_get_table cat (c_text (upd_table s)) of
        Inl rc \<Rightarrow> None
      | Inr meta \<Rightarrow>
          let name = field 64 (c_text (upd_table s)); sch = get_table_schema cat (tm_id meta)
          in Some (LOP_UPDATE name (tm_id meta) (upd_assignments s) (upd_where s) sch
                    (plan_filter (upd_where s) (LOP_SCAN name (tm_id meta) sch))))"

definition plan_delete :: "catalog \<Rightarrow> delete_stmt \<Rightarrow> logical_node option" where
  "plan_delete cat s =
     (case catalog_get_table cat (c_text (del_table s)) of
        Inl rc \<Rightarrow> None
      | Inr meta \<Rightarrow>
          let name = field 64 (c_text (del_table s)); sch = get_table_schema cat (tm_id meta)
          in Some (LOP_DELETE name (tm_id meta) (del_where s) None (plan_filter (del_where s) (LOP_SCAN name (tm_id meta) sch))))"

definition planner_plan_logical :: "catalog \<Rightarrow> stmt \<Rightarrow> logical_node option" where
  "planner_plan_logical cat stmt =
     (case stmt of
        STMT_SELECT s \<Rightarrow> plan_select cat s
      | STMT_INSERT s \<Rightarrow> plan_insert cat s
      | STMT_UPDATE s \<Rightarrow> plan_update cat s
      | STMT_DELETE s \<Rightarrow> plan_delete cat s
      | _ \<Rightarrow> None)"

section \<open>From logical to physical plans\<close>

text \<open>A filter over a scan becomes the predicate of the scan.\<close>

fun convert_logical :: "logical_node \<Rightarrow> physical_node" where
  "convert_logical (LOP_SCAN name tid s) = POP_SEQ_SCAN name tid None (clone_schema s)"
| "convert_logical (LOP_INDEX_SCAN name tid iid col low high hl hh s) = POP_INDEX_SCAN name tid iid col low high hl hh (clone_schema s)"
| "convert_logical (LOP_FILTER e s (LOP_SCAN name tid s')) = POP_SEQ_SCAN name tid (Some e) (clone_schema s')"
| "convert_logical (LOP_FILTER e s q) = POP_FILTER e (clone_schema s) (convert_logical q)"
| "convert_logical (LOP_PROJECT es s q) = POP_PROJECT es (clone_schema s) (convert_logical q)"
| "convert_logical (LOP_JOIN ty cond s p q) = POP_NESTED_LOOP_JOIN ty cond (clone_schema s) (convert_logical p) (convert_logical q)"
| "convert_logical (LOP_AGGREGATE gs as s q) = POP_HASH_AGGREGATE gs as (clone_schema s) (convert_logical q)"
| "convert_logical (LOP_SORT items s q) = POP_SORT items (clone_schema s) (convert_logical q)"
| "convert_logical (LOP_LIMIT n k s q) = POP_LIMIT n k (clone_schema s) (convert_logical q)"
| "convert_logical (LOP_INSERT name tid s) = POP_INSERT name tid (clone_schema s)"
| "convert_logical (LOP_UPDATE name tid as w s q) = POP_UPDATE name tid as (clone_schema s) (convert_logical q)"
| "convert_logical (LOP_DELETE name tid w s q) = POP_DELETE name tid (clone_schema s) (convert_logical q)"

section \<open>The index rule\<close>

text \<open>The column and the literal of an equation between the two.\<close>

fun match_equality :: "expr \<Rightarrow> (string \<times> ast_value) option" where
  "match_equality (EXPR_BINARY (EXPR_COLUMN_REF t c) op (EXPR_LITERAL v)) = (if op = TK_EQUAL then Some (c, v) else None)"
| "match_equality (EXPR_BINARY (EXPR_LITERAL v) op (EXPR_COLUMN_REF t c)) = (if op = TK_EQUAL then Some (c, v) else None)"
| "match_equality _ = None"

text \<open>The first index on the column; the scan changes if the literal is an integer.\<close>

definition match_index :: "catalog \<Rightarrow> cstring \<Rightarrow> int \<Rightarrow> expr \<Rightarrow> schema option \<Rightarrow> physical_node option" where
  "match_index cat name tid pred s =
     (if tid = -1 then None
      else
        case (match_equality pred, s) of
          (Some (c, v), Some sch) \<Rightarrow>
            (case find (\<lambda>idx. 0 \<le> schema_find_column sch (c_text c) \<and> schema_find_column sch (c_text c) = im_column idx)
                    (catalog_get_table_indexes cat tid) of
               None \<Rightarrow> None
             | Some idx \<Rightarrow>
                 (case v of
                    VALUE_INT i \<Rightarrow> Some (POP_INDEX_SCAN name tid (im_id idx) (im_column idx) i i True True s)
                  | _ \<Rightarrow> None))
        | _ \<Rightarrow> None)"

fun optimize_match_index :: "catalog \<Rightarrow> physical_node \<Rightarrow> physical_node" where
  "optimize_match_index cat (POP_SEQ_SCAN name tid (Some pred) s) =
     (case match_index cat name tid pred s of None \<Rightarrow> POP_SEQ_SCAN name tid (Some pred) s | Some node \<Rightarrow> node)"
| "optimize_match_index cat (POP_FILTER e s q) = POP_FILTER e s (optimize_match_index cat q)"
| "optimize_match_index cat (POP_PROJECT es s q) = POP_PROJECT es s (optimize_match_index cat q)"
| "optimize_match_index cat (POP_NESTED_LOOP_JOIN ty cond s p q) =
     POP_NESTED_LOOP_JOIN ty cond s (optimize_match_index cat p) (optimize_match_index cat q)"
| "optimize_match_index cat (POP_HASH_AGGREGATE gs as s q) = POP_HASH_AGGREGATE gs as s (optimize_match_index cat q)"
| "optimize_match_index cat (POP_SORT items s q) = POP_SORT items s (optimize_match_index cat q)"
| "optimize_match_index cat (POP_LIMIT n k s q) = POP_LIMIT n k s (optimize_match_index cat q)"
| "optimize_match_index cat (POP_UPDATE name tid as s q) = POP_UPDATE name tid as s (optimize_match_index cat q)"
| "optimize_match_index cat (POP_DELETE name tid s q) = POP_DELETE name tid s (optimize_match_index cat q)"
| "optimize_match_index cat node = node"

definition planner_plan_physical :: "catalog \<Rightarrow> logical_node \<Rightarrow> physical_node" where
  "planner_plan_physical cat logical = optimize_match_index cat (convert_logical logical)"

definition planner_plan :: "catalog \<Rightarrow> stmt \<Rightarrow> physical_node option" where
  "planner_plan cat stmt = map_option (planner_plan_physical cat) (planner_plan_logical cat stmt)"

end
