(* ===== verification/Engine.thy ===== *)
theory Engine
  imports Planner Query_Spec
begin

text \<open>
  The execution engine of \<open>src/executor/execution_engine.c\<close>: it builds the tree of executors of a physical plan, runs it,
  and handles the statements that change the catalog. None is a result outside defined behaviour or a run that does not
  return; an array that is freed twice is outside. The parameters: the C library L; m, the contents of a fresh buffer for a row; stale, whether a fresh
  \<open>schema_t\<close> happens to hold a non-NULL \<open>columns\<close> (the filter case reads it before it is set).
  EXPLAIN only prints.
\<close>

section \<open>Building the executors\<close>

text \<open>The heap and the schema of a table.\<close>

definition open_table :: "catalog \<Rightarrow> cstring \<Rightarrow> (bpm_heap \<times> schema) option" where
  "open_table cat name =
     (case catalog_get_table cat name of
        Inl rc \<Rightarrow> None
      | Inr meta \<Rightarrow>
          (case catalog_get_schema cat (tm_id meta) blank_schema of
             (rc, s) \<Rightarrow> if rc = DB_OK then Some (bpm_heap_init (tm_root meta), s) else None))"

text \<open>The columns of a projection; a type that is not set takes no room, like TYPE_NULL.\<close>

definition project_column :: "schema option \<Rightarrow> nat \<Rightarrow> expr \<Rightarrow> column_def" where
  "project_column child i e =
     (let blank = \<lparr>col_name = cstr ''col'' @ fmt_lld (int i), col_type = TYPE_NULL, col_nullable = False, col_max_length = 0,
                   col_fixed_offset = 0, col_var_index = 0\<rparr>
      in case (e, child) of
           (EXPR_COLUMN_REF t c, Some s) \<Rightarrow>
             let ci = schema_find_column s (c_text c)
             in (if ci \<ge> 0 then columns s ! nat ci else blank)\<lparr>col_name := take 63 (c_text c)\<rparr>
         | _ \<Rightarrow> blank\<lparr>col_type := TYPE_INTEGER, col_nullable := True\<rparr>)"

definition project_schema :: "schema option \<Rightarrow> expr list \<Rightarrow> schema" where
  "project_schema child es =
     snd (schema_create blank_schema (map2 (project_column child) [0..<length es] es) (int (length es)))"

text \<open>The executors of a plan, \<open>Some None\<close> when the code returns NULL; a missing child is NULL.\<close>

fun build_executor :: "bool \<Rightarrow> catalog \<Rightarrow> physical_node \<Rightarrow> exec option option" where
  "build_executor stale cat (POP_SEQ_SCAN name tid pred s) =
     Some (map_option (\<lambda>(hf, s). SEQ_SCAN hf s pred (Some s)) (open_table cat name))"
| "build_executor stale cat (POP_FILTER e s q) =
     Option.bind (build_executor stale cat q) (\<lambda>child.
       case child of
         None \<Rightarrow> Some None
       | Some c \<Rightarrow> if output_schema c \<noteq> None \<and> stale then None else Some (Some (FILTER e (output_schema c) c)))"
| "build_executor stale cat (POP_PROJECT es s q) =
     Option.bind (build_executor stale cat q) (\<lambda>child.
       Some (map_option (\<lambda>c. PROJECT es (Some (project_schema (output_schema c) es)) c) child))"
| "build_executor stale cat (POP_UPDATE name tid as s q) =
     Option.bind (build_executor stale cat q) (\<lambda>child. Some (map_option (\<lambda>(hf, s). UPDATE hf s as child) (open_table cat name)))"
| "build_executor stale cat (POP_DELETE name tid s q) =
     Option.bind (build_executor stale cat q) (\<lambda>child. Some (map_option (\<lambda>(hf, s). DELETE hf s child) (open_table cat name)))"
| "build_executor stale cat (POP_SORT items s q) =
     Option.bind (build_executor stale cat q) (\<lambda>child.
       case child of
         None \<Rightarrow> Some None
       | Some c \<Rightarrow> if output_schema c = None then None else Some (Some (SORT items (output_schema c) c)))"
| "build_executor stale cat (POP_LIMIT n k s q) =
     Option.bind (build_executor stale cat q) (\<lambda>child.
       case child of
         None \<Rightarrow> Some None
       | Some c \<Rightarrow> if output_schema c = None then None else Some (Some (LIMIT n k (output_schema c) c)))"
| "build_executor stale cat (POP_NESTED_LOOP_JOIN ty cond s p q) =
     Option.bind (build_executor stale cat p) (\<lambda>outer.
       Option.bind (build_executor stale cat q) (\<lambda>inner.
         case (outer, inner) of
           (Some a, Some b) \<Rightarrow>
             map_option (\<lambda>s. Some (NL_JOIN cond (Some s) a b)) (combined_schema (output_schema a) (output_schema b))
         | _ \<Rightarrow> Some None))"
| "build_executor stale cat (POP_HASH_AGGREGATE gs as s q) =
     Option.bind (build_executor stale cat q) (\<lambda>child. Some (map_option (HASH_AGG gs as None) child))"
| "build_executor stale cat (POP_INSERT name tid s) = Some None"
| "build_executor stale cat (POP_INDEX_SCAN name tid iid col low high hl hh s) = Some None"

section \<open>Freeing the executors\<close>

text \<open>FILTER, SORT and LIMIT take the schema of their child by assignment, and so share its array of columns. The array is named
  here by the position in the tree of the executor that made it, the child indices from the root up.\<close>

fun columns_owner :: "nat list \<Rightarrow> exec \<Rightarrow> nat list" where
  "columns_owner p (FILTER e out q) = columns_owner (0 # p) q"
| "columns_owner p (SORT items out q) = columns_owner (0 # p) q"
| "columns_owner p (LIMIT n k out q) = columns_owner (0 # p) q"
| "columns_owner p _ = p"

text \<open>The arrays that \<open>executor_destroy_tree\<close> frees, in order: each executor destroys its schema after its children.
  The root comes without its own, whose \<open>columns\<close> the engine has set to NULL.\<close>

definition own_columns :: "nat list \<Rightarrow> exec \<Rightarrow> nat list list" where
  "own_columns p e = (if output_schema e = None then [] else [columns_owner p e])"

fun executor_destroy_tree :: "nat list \<Rightarrow> exec \<Rightarrow> nat list list" where
  "executor_destroy_tree p (FILTER e out q) = executor_destroy_tree (0 # p) q @ own_columns (0 # p) q"
| "executor_destroy_tree p (PROJECT es out q) = executor_destroy_tree (0 # p) q @ own_columns (0 # p) q"
| "executor_destroy_tree p (LIMIT n k out q) = executor_destroy_tree (0 # p) q @ own_columns (0 # p) q"
| "executor_destroy_tree p (SORT items out q) = executor_destroy_tree (0 # p) q @ own_columns (0 # p) q"
| "executor_destroy_tree p (NL_JOIN cond out a b) =
     (executor_destroy_tree (0 # p) a @ own_columns (0 # p) a) @ (executor_destroy_tree (1 # p) b @ own_columns (1 # p) b)"
| "executor_destroy_tree p (HASH_AGG gs as out q) = executor_destroy_tree (0 # p) q @ own_columns (0 # p) q"
| "executor_destroy_tree p (UPDATE hf s as (Some q)) = executor_destroy_tree (0 # p) q @ own_columns (0 # p) q"
| "executor_destroy_tree p (DELETE hf s (Some q)) = executor_destroy_tree (0 # p) q @ own_columns (0 # p) q"
| "executor_destroy_tree p _ = []"

section \<open>Statements\<close>

record engine =
  eng_catalog :: catalog
  eng_bpm :: bpm

text \<open>What a statement returns: the code, the rows, the schema of the rows, and the number of affected rows where it is set;
  whether the values of the rows and the columns of the schema, as the caller gets them, have been freed.\<close>

record outcome =
  out_code :: error_code
  out_tuples :: "tuple list"
  out_schema :: "schema option"
  out_affected :: "int option"
  out_tuples_freed :: bool
  out_schema_freed :: bool

definition returns :: "error_code \<Rightarrow> outcome" where
  "returns rc = \<lparr>out_code = rc, out_tuples = [], out_schema = None, out_affected = None,
     out_tuples_freed = False, out_schema_freed = False\<rparr>"

definition affects :: "error_code \<Rightarrow> int \<Rightarrow> outcome" where
  "affects rc n = (returns rc)\<lparr>out_affected := Some n\<rparr>"

definition execute_create_index :: "create_index_stmt \<Rightarrow> engine \<Rightarrow> (outcome \<times> engine) option" where
  "execute_create_index s eng =
     (case bpm_new_page (eng_bpm eng) of
        None \<Rightarrow> None
      | Some (None, b) \<Rightarrow> Some (returns DB_OUT_OF_MEMORY, eng\<lparr>eng_bpm := b\<rparr>)
      | Some (Some (root, f), b) \<Rightarrow>
          (case unpin root True b of
             None \<Rightarrow> None
           | Some b \<Rightarrow>
               let eng = eng\<lparr>eng_bpm := b\<rparr>; cat = eng_catalog eng in
               case catalog_get_table cat (c_text (ci_table s)) of
                 Inl rc \<Rightarrow> Some (returns rc, eng)
               | Inr meta \<Rightarrow>
                   (case catalog_get_schema cat (tm_id meta) blank_schema of
                      (rc, sch) \<Rightarrow>
                        if rc \<noteq> DB_OK then Some (returns rc, eng)
                        else if ci_columns s = [] then None
                        else
                          let col = schema_find_column sch (c_text (hd (ci_columns s))) in
                          if col < 0 then Some (returns DB_UNKNOWN_COLUMN, eng)
                          else
                            map_option (\<lambda>(iid, cat).
                              (if iid = -1 then returns DB_DUPLICATE_KEY else affects DB_OK 0, eng\<lparr>eng_catalog := cat\<rparr>))
                              (catalog_create_index cat (c_text (ci_index s)) (tm_id meta) col root (ci_unique s)))))"

definition execute_ddl :: "stmt \<Rightarrow> engine \<Rightarrow> (outcome \<times> engine) option" where
  "execute_ddl stmt eng =
     (case stmt of
        STMT_CREATE_TABLE s \<Rightarrow>
          (case ast_build_schema (ct_columns s) blank_schema of
             (rc, sch) \<Rightarrow>
               if rc \<noteq> DB_OK then Some (returns rc, eng)
               else
                 map_option (\<lambda>(tid, cat).
                   (if tid = -1 then returns DB_DUPLICATE_KEY else affects DB_OK 0, eng\<lparr>eng_catalog := cat\<rparr>))
                   (catalog_create_table (eng_catalog eng) (c_text (ct_table s)) sch))
      | STMT_DROP_TABLE s \<Rightarrow>
          (case catalog_drop_table (eng_catalog eng) (c_text (dt_table s)) of
             (rc, cat) \<Rightarrow> Some (affects rc 0, eng\<lparr>eng_catalog := cat\<rparr>))
      | STMT_CREATE_INDEX s \<Rightarrow> execute_create_index s eng
      | STMT_DROP_INDEX s \<Rightarrow>
          (case catalog_drop_index (eng_catalog eng) (c_text (di_index s)) of
             (rc, cat) \<Rightarrow> Some (affects rc 0, eng\<lparr>eng_catalog := cat\<rparr>))
      | _ \<Rightarrow> Some (returns DB_INVALID_ARGUMENT, eng))"

definition execute_insert :: "libc \<Rightarrow> buffer \<Rightarrow> insert_stmt \<Rightarrow> engine \<Rightarrow> (outcome \<times> engine) option" where
  "execute_insert L m s eng =
     (let cat = eng_catalog eng in
      case catalog_get_table cat (c_text (ins_table s)) of
        Inl rc \<Rightarrow> Some (returns rc, eng)
      | Inr meta \<Rightarrow>
          (case catalog_get_schema cat (tm_id meta) blank_schema of
             (rc, sch) \<Rightarrow>
               if rc \<noteq> DB_OK then Some (returns rc, eng)
               else
                 case exec_run L m (INSERT (bpm_heap_init (tm_root meta)) sch (ins_values s)) (eng_bpm eng) of
                   None \<Rightarrow> None
                 | Some (ts, b, st) \<Rightarrow>
                     (case get_insert st of
                        None \<Rightarrow> None
                      | Some ist \<Rightarrow>
                          let first = bh_first (ins_heap ist);
                              cat = (if first \<noteq> INVALID_PAGE_ID \<and> tm_root meta = INVALID_PAGE_ID
                                     then snd (catalog_update_root_page cat (tm_id meta) first) else cat)
                          in Some (\<lparr>out_code = DB_OK, out_tuples = ts,
                                    out_schema = Some (snd (catalog_get_schema cat (tm_id meta) blank_schema)),
                                    out_affected = Some (int (length ts)), out_tuples_freed = False, out_schema_freed = False\<rparr>,
                                   eng\<lparr>eng_catalog := cat, eng_bpm := b\<rparr>))))"

definition execute_dml :: "libc \<Rightarrow> bool \<Rightarrow> buffer \<Rightarrow> stmt \<Rightarrow> engine \<Rightarrow> (outcome \<times> engine) option" where
  "execute_dml L stale m stmt eng =
     (case planner_plan (eng_catalog eng) stmt of
        None \<Rightarrow> Some (returns DB_INTERNAL_ERROR, eng)
      | Some physical \<Rightarrow>
          (case stmt of
             STMT_INSERT s \<Rightarrow> execute_insert L m s eng
           | _ \<Rightarrow>
               (case build_executor stale (eng_catalog eng) physical of
                  None \<Rightarrow> None
                | Some None \<Rightarrow> Some (returns DB_INTERNAL_ERROR, eng)
                | Some (Some e) \<Rightarrow>
                    (case exec_run L m e (eng_bpm eng) of
                       None \<Rightarrow> None
                     | Some (ts, b, st) \<Rightarrow>
                         let freed = executor_destroy_tree [] e in
                         if distinct freed
                         then Some (\<lparr>out_code = DB_OK, out_tuples = ts, out_schema = output_schema e,
                                     out_affected = Some (int (length ts)), out_tuples_freed = rows_freed e,
                                     out_schema_freed = (output_schema e \<noteq> None \<and> columns_owner [] e \<in> set freed)\<rparr>,
                                    eng\<lparr>eng_bpm := b\<rparr>)
                         else None))))"

definition execution_engine_execute :: "libc \<Rightarrow> bool \<Rightarrow> buffer \<Rightarrow> stmt \<Rightarrow> engine \<Rightarrow> (outcome \<times> engine) option" where
  "execution_engine_execute L stale m stmt eng =
     (case stmt of
        STMT_CREATE_TABLE s \<Rightarrow> execute_ddl stmt eng
      | STMT_DROP_TABLE s \<Rightarrow> execute_ddl stmt eng
      | STMT_CREATE_INDEX s \<Rightarrow> execute_ddl stmt eng
      | STMT_DROP_INDEX s \<Rightarrow> execute_ddl stmt eng
      | STMT_SELECT s \<Rightarrow> execute_dml L stale m stmt eng
      | STMT_INSERT s \<Rightarrow> execute_dml L stale m stmt eng
      | STMT_UPDATE s \<Rightarrow> execute_dml L stale m stmt eng
      | STMT_DELETE s \<Rightarrow> execute_dml L stale m stmt eng
      | STMT_EXPLAIN s \<Rightarrow> Some (returns DB_OK, eng)
      | _ \<Rightarrow> Some (affects DB_OK 0, eng))"

end
