(* ===== verification/Engine_Spec.thy ===== *)
theory Engine_Spec
  imports Engine "HOL-Library.Sublist"
begin

text \<open>
  What the engine returns for a SELECT: the rows of the clauses, one after the other, as relational operators on the
  contents of the tables, whatever the plan; with what an index and an aggregate do to that.
\<close>

section \<open>The clauses of a SELECT\<close>

text \<open>The contents of the tables: name to schema and rows. A table in the course of a query has a schema, or none behind an
  aggregation. DISTINCT is not looked at, nor the type of a join.\<close>

type_synonym contents = "cstring \<Rightarrow> (schema \<times> tuple list) option"
type_synonym rows = "schema option \<times> tuple list"

definition table_rows :: "contents \<Rightarrow> string \<Rightarrow> rows option" where
  "table_rows D name = map_option (\<lambda>(s, ts). (Some s, ts)) (D (c_text name))"

definition with_join :: "libc \<Rightarrow> contents \<Rightarrow> expr option \<Rightarrow> string \<Rightarrow> rows \<Rightarrow> rows option" where
  "with_join L D cond name left =
     Option.bind (table_rows D name) (\<lambda>right.
       Option.bind (combined_schema (fst left) (fst right)) (\<lambda>s.
         map_option (Pair (Some s)) (join_rows L cond (Some s) (join_pairs (snd left) (snd right)))))"

fun with_joins :: "libc \<Rightarrow> contents \<Rightarrow> (expr option \<times> string) list \<Rightarrow> rows \<Rightarrow> rows option" where
  "with_joins L D [] r = Some r"
| "with_joins L D ((cond, name) # js) r = Option.bind (with_join L D cond name r) (with_joins L D js)"

definition from_rows :: "libc \<Rightarrow> contents \<Rightarrow> select_stmt \<Rightarrow> rows option" where
  "from_rows L D s =
     (case sel_from s of
        [] \<Rightarrow> None
      | t # ts \<Rightarrow>
          Option.bind (table_rows D (tref_name t))
            (with_joins L D (map (\<lambda>j. (join_condition j, tref_name (join_table j))) (sel_joins s) @ map (\<lambda>t. (None, tref_name t)) ts)))"

definition where_rows :: "libc \<Rightarrow> expr option \<Rightarrow> rows \<Rightarrow> rows option" where
  "where_rows L cond r =
     (case cond of None \<Rightarrow> Some r | Some e \<Rightarrow> map_option (Pair (fst r)) (filter_rows (\<lambda>t. passes L e t (fst r)) (snd r)))"

definition aggregate_rows :: "libc \<Rightarrow> select_stmt \<Rightarrow> rows \<Rightarrow> rows option" where
  "aggregate_rows L s r =
     (if sel_group s \<noteq> [] \<or> list_ex is_function_call (sel_list s)
      then map_option (Pair None) (group_rows L (sel_group s) (filter is_function_call (sel_list s)) (fst r) (snd r))
      else Some r)"

definition project_rows :: "libc \<Rightarrow> select_stmt \<Rightarrow> rows \<Rightarrow> rows option" where
  "project_rows L s r =
     (if sel_list s \<noteq> [] \<and> \<not> is_star (sel_list s)
      then map_option (Pair (Some (project_schema (fst r) (sel_list s)))) (map_rows (project_row L (sel_list s) (fst r)) (snd r))
      else Some r)"

definition order_rows :: "libc \<Rightarrow> select_stmt \<Rightarrow> rows \<Rightarrow> rows option" where
  "order_rows L s r =
     (if sel_order s = [] then Some r
      else if fst r = None then None
      else map_option (Pair (fst r)) (sort_rows L (sel_order s) (fst r) (snd r)))"

definition slice_rows :: "select_stmt \<Rightarrow> rows \<Rightarrow> rows option" where
  "slice_rows s r =
     (if sel_limit s < 0 then Some r
      else if fst r = None then None
      else Some (fst r, limit_rows (sel_limit s) (sel_offset s) (snd r)))"

definition select_rows :: "libc \<Rightarrow> contents \<Rightarrow> select_stmt \<Rightarrow> rows option" where
  "select_rows L D s =
     Option.bind (from_rows L D s) (\<lambda>r. Option.bind (where_rows L (sel_where s) r) (\<lambda>r. Option.bind (aggregate_rows L s r) (\<lambda>r.
       Option.bind (where_rows L (sel_having s) r) (\<lambda>r. Option.bind (project_rows L s r) (\<lambda>r. Option.bind (order_rows L s r) (slice_rows s))))))"

section \<open>The plan delivers them\<close>

text \<open>The catalog and the pages V hold the contents D.\<close>

definition holds :: "libc \<Rightarrow> (int \<Rightarrow> buffer option) \<Rightarrow> catalog \<Rightarrow> contents \<Rightarrow> bool" where
  "holds L V cat D \<longleftrightarrow>
     (\<forall>n s ts. D n = Some (s, ts) \<longrightarrow> length n \<le> 63 \<and>
        (\<exists>meta ps. catalog_get_table cat n = Inr meta \<and> (\<forall>out. catalog_get_schema cat (tm_id meta) out = (DB_OK, s)) \<and>
           chain V (tm_root meta) ps \<and> scan_rows L s None (heap_stored V ps) = Some ts))"

definition no_indexes :: "catalog \<Rightarrow> bool" where
  "no_indexes cat \<longleftrightarrow> (\<forall>tid. catalog_get_table_indexes cat tid = [])"

text \<open>A tree that owns the columns of its schema, hands out rows that stay, and frees nothing twice, wherever it stands.\<close>

definition tidy :: "exec \<Rightarrow> bool" where
  "tidy e \<longleftrightarrow> \<not> rows_freed e \<and> (\<forall>p. (output_schema e = None \<or> columns_owner p e = p) \<and>
     distinct (p # executor_destroy_tree p e) \<and> (\<forall>q \<in> set (executor_destroy_tree p e). suffix p q))"

text \<open>The plan is built, and its executors return the rows r, which are their own; t says that the tree is tidy, and
  that it is the same whatever fresh memory holds.\<close>

definition delivers :: "bool \<Rightarrow> libc \<Rightarrow> (int \<Rightarrow> buffer option) \<Rightarrow> catalog \<Rightarrow> logical_node \<Rightarrow> rows \<Rightarrow> bool" where
  "delivers t L V cat node r \<longleftrightarrow>
     (\<exists>e. build_executor False cat (planner_plan_physical cat node) = Some (Some e) \<and> output_schema e = fst r \<and> query L V e (snd r) \<and>
        \<not> rows_freed e \<and> (t \<longrightarrow> tidy e \<and> build_executor True cat (planner_plan_physical cat node) = Some (Some e)))"

lemma deliversE:
  assumes "delivers t L V cat node r"
  obtains e where "build_executor False cat (planner_plan_physical cat node) = Some (Some e)" "output_schema e = fst r" "query L V e (snd r)"
    "\<not> rows_freed e" "t \<Longrightarrow> tidy e \<and> build_executor True cat (planner_plan_physical cat node) = Some (Some e)"
  using assms unfolding delivers_def by blast

lemma own_columns_suffix: "tidy e \<Longrightarrow> set (own_columns p e) \<subseteq> {p}"
  by (auto simp: tidy_def own_columns_def)

lemma tidy_below:
  assumes "tidy e"
  shows "distinct (executor_destroy_tree p e @ own_columns p e)" "\<And>q. q \<in> set (executor_destroy_tree p e @ own_columns p e) \<Longrightarrow> suffix p q"
proof -
  have t: "distinct (p # executor_destroy_tree p e)" "\<forall>q \<in> set (executor_destroy_tree p e). suffix p q" using assms unfolding tidy_def by blast+
  moreover have "own_columns p e = [] \<or> own_columns p e = [p]" using assms by (auto simp: tidy_def own_columns_def)
  ultimately show "distinct (executor_destroy_tree p e @ own_columns p e)" "\<And>q. q \<in> set (executor_destroy_tree p e @ own_columns p e) \<Longrightarrow> suffix p q"
    by auto
qed

lemma not_own_suffix: "\<not> suffix (i # p) p"
  by (metis length_Cons not_less_eq_eq order_refl suffix_length_le)

lemma tidy_unary:
  assumes "tidy q" "\<not> rows_freed e" "output_schema e = None \<or> (\<forall>p. columns_owner p e = p)"
    and "\<And>p. executor_destroy_tree p e = executor_destroy_tree (0 # p) q @ own_columns (0 # p) q"
  shows "tidy e"
proof -
  have "distinct (p # executor_destroy_tree p e) \<and> (\<forall>x \<in> set (executor_destroy_tree p e). suffix p x)" for p
    using tidy_below [OF assms(1), where p = "0 # p"] not_own_suffix [of 0 p] unfolding assms(4) distinct.simps by (blast dest: suffix_ConsD)
  then show ?thesis using assms(2,3) unfolding tidy_def by blast
qed

lemma tidy_join:
  assumes "tidy a" "tidy b" shows "tidy (NL_JOIN cond s a b)"
proof -
  have "\<not> (suffix (0 # p) q \<and> suffix (1 # p) q)" for p q :: "nat list"
    by (metis length_Cons list.inject suffix_length_suffix suffix_order.antisym order_refl zero_neq_one)
  then have "distinct (p # executor_destroy_tree p (NL_JOIN cond s a b)) \<and> (\<forall>x \<in> set (executor_destroy_tree p (NL_JOIN cond s a b)). suffix p x)" for p
    using tidy_below [OF assms(1), where p = "0 # p"] tidy_below [OF assms(2), where p = "1 # p"] not_own_suffix [of _ p]
    unfolding executor_destroy_tree.simps distinct.simps distinct_append set_append by (blast dest: suffix_ConsD)
  then show ?thesis by (simp add: tidy_def)
qed

lemma tidy_scan: "tidy (SEQ_SCAN hf s c out)"
  by (simp add: tidy_def)

lemma match_index_none: "no_indexes cat \<Longrightarrow> match_index cat name tid e s = None"
  by (simp add: match_index_def no_indexes_def split: option.split)

fun is_scan :: "logical_node \<Rightarrow> bool" where
  "is_scan (LOP_SCAN name tid s) = True"
| "is_scan _ = False"

lemma table_scan:
  assumes h: "holds L V cat D" and t: "table_rows D name = Some r"
  obtains node where "plan_scan cat name = Some node" "delivers True L V cat node r" "is_scan node"
proof -
  obtain s ts where D: "D (c_text name) = Some (s, ts)" "r = (Some s, ts)" using t by (auto simp: table_rows_def)
  obtain meta ps where m: "length (c_text name) \<le> 63" "catalog_get_table cat (c_text name) = Inr meta"
    "\<And>out. catalog_get_schema cat (tm_id meta) out = (DB_OK, s)" "chain V (tm_root meta) ps"
    "scan_rows L s None (heap_stored V ps) = Some ts" using h D(1) unfolding holds_def by blast
  have f: "field 64 (c_text name) = c_text name" using m(1) by (simp add: field_def)
  have q: "query L V (SEQ_SCAN (bpm_heap_init (tm_root meta)) s None (Some s)) ts"
    by (rule query.scan [OF _ m(5)]) (simp add: bpm_heap_init_def m(4))
  show ?thesis
  proof (rule that)
    show "plan_scan cat name = Some (LOP_SCAN (c_text name) (tm_id meta) (Some s))"
      using m f by (simp add: plan_scan_def get_table_schema_def)
    show "delivers True L V cat (LOP_SCAN (c_text name) (tm_id meta) (Some s)) r"
      using q m by (simp add: delivers_def planner_plan_physical_def clone_schema_def open_table_def D(2) tidy_scan)
  qed simp
qed

lemma deliver_filter:
  assumes d: "delivers t L V cat node r" and n: "no_indexes cat" and f: "filter_rows (\<lambda>t. passes L c t (fst r)) (snd r) = Some rs"
  shows "delivers (t \<and> (is_scan node \<or> fst r = None)) L V cat (LOP_FILTER c s node) (fst r, rs)"
proof (cases "is_scan node")
  case True
  then obtain name tid s' where node: "node = LOP_SCAN name tid s'" by (cases node) auto
  obtain hf sch where o: "open_table cat name = Some (hf, sch)" "fst r = Some sch" "query L V (SEQ_SCAN hf sch None (Some sch)) (snd r)"
    using d unfolding node delivers_def planner_plan_physical_def by auto
  obtain ps where ps: "chain V (bh_first hf) ps" "scan_rows L sch None (heap_stored V ps) = Some (snd r)"
    using o(3) by (auto elim: query.cases)
  have "query L V (SEQ_SCAN hf sch (Some c) (Some sch)) rs"
    by (rule query.scan [OF ps(1)]) (use ps(2) f o(2) in \<open>simp add: scan_rows_filter\<close>)
  then show ?thesis using o n unfolding node by (simp add: delivers_def planner_plan_physical_def match_index_none tidy_scan)
next
  case False
  then have c: "convert_logical (LOP_FILTER c s node) = POP_FILTER c (clone_schema s) (convert_logical node)" by (cases node) auto
  obtain e where e: "build_executor False cat (planner_plan_physical cat node) = Some (Some e)" "output_schema e = fst r" "query L V e (snd r)"
    "\<not> rows_freed e" "t \<Longrightarrow> tidy e \<and> build_executor True cat (planner_plan_physical cat node) = Some (Some e)" by (rule deliversE [OF d]) blast
  have "query L V (FILTER c (fst r) e) rs" by (rule query.filter [OF e(3,4) f])
  moreover have "tidy (FILTER c (fst r) e)" if "tidy e" "fst r = None"
    by (rule tidy_unary [OF that(1)]) (use that in \<open>simp_all add: tidy_def\<close>)
  ultimately show ?thesis using e(1,2,4,5) False by (auto simp: delivers_def planner_plan_physical_def c)
qed

lemma deliver_where:
  assumes d: "delivers t L V cat node r" "no_indexes cat" "where_rows L cond r = Some r'"
  shows "delivers (t \<and> (cond = None \<or> is_scan node \<or> fst r = None)) L V cat (plan_filter cond node) r'"
proof (cases cond)
  case (Some c)
  then obtain rs where "filter_rows (\<lambda>t. passes L c t (fst r)) (snd r) = Some rs" "r' = (fst r, rs)" using d(3) by (auto simp: where_rows_def)
  then show ?thesis using deliver_filter [OF d(1,2)] Some by (simp add: plan_filter_def)
qed (use d in \<open>simp add: where_rows_def plan_filter_def\<close>)

lemma deliver_join:
  assumes h: "holds L V cat D" and d: "delivers t L V cat node r" and j: "with_join L D cond name r = Some r'"
  obtains node' where "plan_join cat ty cond name node = Some node'" "delivers t L V cat node' r'"
proof -
  obtain right s where s: "table_rows D name = Some right" "combined_schema (fst r) (fst right) = Some s"
    "map_option (Pair (Some s)) (join_rows L cond (Some s) (join_pairs (snd r) (snd right))) = Some r'"
    using j by (auto simp: with_join_def bind_eq_Some_conv)
  then obtain rs where rs: "r' = (Some s, rs)" "join_rows L cond (Some s) (join_pairs (snd r) (snd right)) = Some rs" by auto
  obtain scan where sc: "plan_scan cat name = Some scan" "delivers True L V cat scan right" by (rule table_scan [OF h s(1)])
  obtain e1 where e1: "build_executor False cat (planner_plan_physical cat node) = Some (Some e1)" "output_schema e1 = fst r" "query L V e1 (snd r)"
    "\<not> rows_freed e1" "t \<Longrightarrow> tidy e1 \<and> build_executor True cat (planner_plan_physical cat node) = Some (Some e1)"
    by (rule deliversE [OF d]) blast
  obtain e2 where e2: "build_executor False cat (planner_plan_physical cat scan) = Some (Some e2)" "output_schema e2 = fst right" "query L V e2 (snd right)"
    "\<not> rows_freed e2" "tidy e2 \<and> build_executor True cat (planner_plan_physical cat scan) = Some (Some e2)"
    by (rule deliversE [OF sc(2)]) blast
  have "query L V (NL_JOIN cond (Some s) e1 e2) rs" by (rule query.join [OF e1(3) e2(3) e1(4) e2(4) rs(2)])
  then have "delivers t L V cat (LOP_JOIN ty cond (combined_schema (lop_schema node) (lop_schema scan)) node scan) r'"
    using e1(1,2,5) e2(1,2,5) s(2) rs(1) by (simp add: delivers_def planner_plan_physical_def tidy_join)
  then show ?thesis using that sc(1) by (simp add: plan_join_def)
qed

lemma deliver_joins:
  assumes h: "holds L V cat D"
  shows "delivers True L V cat node r \<Longrightarrow> with_joins L D (map (\<lambda>j. (join_condition j, tref_name (join_table j))) js @ rest) r = Some r' \<Longrightarrow>
    \<exists>node' r1. plan_joins cat js node = Some node' \<and> delivers True L V cat node' r1 \<and> with_joins L D rest r1 = Some r'"
proof (induction js arbitrary: node r)
  case (Cons j js)
  obtain r2 where r2: "with_join L D (join_condition j) (tref_name (join_table j)) r = Some r2"
    "with_joins L D (map (\<lambda>j. (join_condition j, tref_name (join_table j))) js @ rest) r2 = Some r'"
    using Cons.prems(2) by (auto simp: bind_eq_Some_conv)
  obtain node2 where n: "plan_join cat (join_type j) (join_condition j) (tref_name (join_table j)) node = Some node2" "delivers True L V cat node2 r2"
    by (rule deliver_join [OF h Cons.prems(1) r2(1)])
  show ?case using Cons.IH [OF n(2) r2(2)] n(1) by simp
qed auto

lemma deliver_cross:
  assumes h: "holds L V cat D"
  shows "delivers True L V cat node r \<Longrightarrow> with_joins L D (map (\<lambda>t. (None, tref_name t)) ts) r = Some r' \<Longrightarrow>
    \<exists>node'. plan_cross cat ts node = Some node' \<and> delivers True L V cat node' r'"
proof (induction ts arbitrary: node r)
  case (Cons t ts)
  obtain r2 where r2: "with_join L D None (tref_name t) r = Some r2" "with_joins L D (map (\<lambda>t. (None, tref_name t)) ts) r2 = Some r'"
    using Cons.prems(2) by (auto simp: bind_eq_Some_conv)
  obtain node2 where n: "plan_join cat TK_JOIN None (tref_name t) node = Some node2" "delivers True L V cat node2 r2"
    by (rule deliver_join [OF h Cons.prems(1) r2(1)])
  show ?case using Cons.IH [OF n(2) r2(2)] n(1) by simp
qed auto

lemma deliver_from:
  assumes h: "holds L V cat D" and f: "from_rows L D s = Some r"
  obtains node where "plan_from cat s = Some node" "delivers True L V cat node r" "sel_joins s = [] \<and> tl (sel_from s) = [] \<Longrightarrow> is_scan node"
proof -
  obtain t ts r0 where t: "sel_from s = t # ts" "table_rows D (tref_name t) = Some r0"
    "with_joins L D (map (\<lambda>j. (join_condition j, tref_name (join_table j))) (sel_joins s) @ map (\<lambda>t. (None, tref_name t)) ts) r0 = Some r"
    using f by (auto simp: from_rows_def bind_eq_Some_conv split: list.splits)
  obtain n0 where n0: "plan_scan cat (tref_name t) = Some n0" "delivers True L V cat n0 r0" "is_scan n0" by (rule table_scan [OF h t(2)])
  obtain n1 r1 where n1: "plan_joins cat (sel_joins s) n0 = Some n1" "delivers True L V cat n1 r1"
    "with_joins L D (map (\<lambda>t. (None, tref_name t)) ts) r1 = Some r" using deliver_joins [OF h n0(2) t(3)] by blast
  obtain n2 where "plan_cross cat ts n1 = Some n2" "delivers True L V cat n2 r" using deliver_cross [OF h n1(2,3)] by blast
  moreover from this have "is_scan n2" if "sel_joins s = [] \<and> tl (sel_from s) = []" using that n0(3) n1(1) t(1) by simp
  ultimately show ?thesis using that n0(1) n1(1) t(1) by (simp add: plan_from_def)
qed

lemma deliver_aggregate:
  assumes d: "delivers t L V cat node r" and a: "aggregate_rows L s r = Some r'"
  shows "delivers t L V cat (plan_aggregate s node) r'"
proof (cases "sel_group s \<noteq> [] \<or> list_ex is_function_call (sel_list s)")
  case True
  then obtain rs where rs: "r' = (None, rs)" "group_rows L (sel_group s) (filter is_function_call (sel_list s)) (fst r) (snd r) = Some rs"
    using a by (auto simp: aggregate_rows_def)
  obtain e where e: "build_executor False cat (planner_plan_physical cat node) = Some (Some e)" "output_schema e = fst r" "query L V e (snd r)"
    "\<not> rows_freed e" "t \<Longrightarrow> tidy e \<and> build_executor True cat (planner_plan_physical cat node) = Some (Some e)"
    by (rule deliversE [OF d]) blast
  have "query L V (HASH_AGG (sel_group s) (filter is_function_call (sel_list s)) None e) rs"
    by (rule query.agg [OF e(3,4)]) (use rs(2) e(2) in simp)
  moreover have "tidy (HASH_AGG gs as None e)" if "tidy e" for gs as by (rule tidy_unary [OF that]) simp_all
  ultimately show ?thesis using True e(1,5) rs(1) by (simp add: plan_aggregate_def delivers_def planner_plan_physical_def)
qed (use d a in \<open>simp add: plan_aggregate_def aggregate_rows_def\<close>)

lemma deliver_project:
  assumes d: "delivers t L V cat node r" and a: "project_rows L s r = Some r'"
  shows "delivers t L V cat (plan_project s node) r'"
proof (cases "sel_list s \<noteq> [] \<and> \<not> is_star (sel_list s)")
  case True
  then obtain rs where rs: "r' = (Some (project_schema (fst r) (sel_list s)), rs)"
    "map_rows (project_row L (sel_list s) (fst r)) (snd r) = Some rs"
    using a by (auto simp: project_rows_def)
  obtain e where e: "build_executor False cat (planner_plan_physical cat node) = Some (Some e)" "output_schema e = fst r" "query L V e (snd r)"
    "\<not> rows_freed e" "t \<Longrightarrow> tidy e \<and> build_executor True cat (planner_plan_physical cat node) = Some (Some e)"
    by (rule deliversE [OF d]) blast
  have "query L V (PROJECT (sel_list s) (Some (project_schema (fst r) (sel_list s))) e) rs"
    by (rule query.project [OF e(3,4)]) (use rs(2) e(2) in simp)
  moreover have "tidy (PROJECT es out e)" if "tidy e" for es out by (rule tidy_unary [OF that]) simp_all
  ultimately show ?thesis using True e(1,2,5) rs(1) by (simp add: plan_project_def delivers_def planner_plan_physical_def)
qed (use d a in \<open>auto simp: plan_project_def project_rows_def\<close>)

text \<open>SORT and LIMIT end up at the root. Together they free the columns of their child twice; one of them leaves the
  caller with freed columns, and SORT with freed rows.\<close>

lemma deliver_tail:
  assumes d: "delivers t L V cat node r" and o: "order_rows L s r = Some r1" and l: "slice_rows s r1 = Some r2"
  obtains e where "build_executor False cat (planner_plan_physical cat (plan_limit s (plan_sort s node))) = Some (Some e)"
    "t \<Longrightarrow> build_executor True cat (planner_plan_physical cat (plan_limit s (plan_sort s node))) = Some (Some e)"
    "output_schema e = fst r2" "sel_order s = [] \<or> sel_limit s < 0 \<Longrightarrow> query L V e (snd r2)"
    "sel_order s \<noteq> [] \<and> sel_limit s \<ge> 0 \<Longrightarrow> \<not> distinct (executor_destroy_tree [] e)"
    "t \<Longrightarrow> sel_order s = [] \<or> sel_limit s < 0 \<Longrightarrow> distinct (executor_destroy_tree [] e)"
    "t \<Longrightarrow> rows_freed e \<longleftrightarrow> sel_order s \<noteq> []"
    "t \<Longrightarrow> output_schema e \<noteq> None \<and> columns_owner [] e \<in> set (executor_destroy_tree [] e) \<longleftrightarrow> sel_order s \<noteq> [] \<or> sel_limit s \<ge> 0"
proof -
  obtain c where c: "build_executor False cat (planner_plan_physical cat node) = Some (Some c)" "output_schema c = fst r" "query L V c (snd r)"
    "\<not> rows_freed c" "t \<Longrightarrow> tidy c \<and> build_executor True cat (planner_plan_physical cat node) = Some (Some c)" by (rule deliversE [OF d]) blast
  let ?e1 = "if sel_order s = [] then c else SORT (sel_order s) (fst r) c"
  let ?e = "if sel_limit s < 0 then ?e1 else LIMIT (sel_limit s) (sel_offset s) (fst r) ?e1"
  have s1: "fst r1 = fst r" "sel_order s \<noteq> [] \<Longrightarrow> fst r \<noteq> None" using o by (auto simp: order_rows_def split: if_splits)
  have s2: "fst r2 = fst r1" "sel_limit s \<ge> 0 \<Longrightarrow> fst r1 \<noteq> None" using l by (auto simp: slice_rows_def split: if_splits)
  have q1: "query L V ?e1 (snd r1)" using o c(3,4) by (auto simp: order_rows_def intro: query.sort split: if_splits)
  have o1: "output_schema ?e1 = fst r" using c(2) by simp
  have b1: "build_executor stale cat (planner_plan_physical cat (plan_sort s node)) = Some (Some ?e1)"
    if "build_executor stale cat (planner_plan_physical cat node) = Some (Some c)" for stale
    using that c(2) s1(2) by (cases "sel_order s = []") (auto simp: plan_sort_def planner_plan_physical_def)
  have b: "build_executor stale cat (planner_plan_physical cat (plan_limit s (plan_sort s node))) = Some (Some ?e)"
    if "build_executor stale cat (planner_plan_physical cat node) = Some (Some c)" for stale
    using b1 [OF that] s1(1) s2(2) unfolding plan_limit_def planner_plan_physical_def
    by (cases "sel_limit s < 0") (simp_all only: if_True if_False not_le [symmetric] convert_logical.simps optimize_match_index.simps build_executor.simps o1, use c(2) in auto)
  have q: "query L V ?e (snd r2)" if "sel_order s = [] \<or> sel_limit s < 0"
    using that l q1 c(4) by (auto simp: slice_rows_def simp del: if_split_asm intro!: query.limit split: if_splits)
  have below: "distinct (p # executor_destroy_tree p c)" "\<And>q. q \<in> set (executor_destroy_tree p c) \<Longrightarrow> suffix p q"
    "fst r \<noteq> None \<Longrightarrow> columns_owner p c = p" if t for p using c(2) c(5) [OF that] unfolding tidy_def by auto
  have own: "own_columns p c = (if fst r = None then [] else [columns_owner p c])" for p using c(2) by (simp add: own_columns_def)
  show ?thesis
  proof (rule that [OF b [OF c(1)] _ _ q])
    show "build_executor True cat (planner_plan_physical cat (plan_limit s (plan_sort s node))) = Some (Some ?e)" if t
      using b c(5) [OF that] by blast
    show "output_schema ?e = fst r2" using c(2) s1(1) s2(1) by simp
    show "\<not> distinct (executor_destroy_tree [] ?e)" if "sel_order s \<noteq> [] \<and> sel_limit s \<ge> 0"
      using that s1(2) own by (cases "fst r") (auto simp: own_columns_def)
    show "distinct (executor_destroy_tree [] ?e)" if t "sel_order s = [] \<or> sel_limit s < 0"
      using below [OF that(1), of "[]"] below [OF that(1), of "[0]"] that(2) own by auto
    show "rows_freed ?e \<longleftrightarrow> sel_order s \<noteq> []" if t using c(4) by auto
    show "output_schema ?e \<noteq> None \<and> columns_owner [] ?e \<in> set (executor_destroy_tree [] ?e) \<longleftrightarrow> sel_order s \<noteq> [] \<or> sel_limit s \<ge> 0" if t
      using below [OF that, of "[]"] own s1 s2(2) c(2) by (auto simp: own_columns_def)
  qed
qed

definition aggregates :: "select_stmt \<Rightarrow> bool" where
  "aggregates s \<longleftrightarrow> sel_group s \<noteq> [] \<or> list_ex is_function_call (sel_list s)"

text \<open>Conditions that take no filter executor with a schema: WHERE on one table, where the scan evaluates it, and HAVING after an aggregation.\<close>

definition plain_conditions :: "select_stmt \<Rightarrow> bool" where
  "plain_conditions s \<longleftrightarrow> (sel_where s = None \<or> sel_joins s = [] \<and> tl (sel_from s) = []) \<and> (sel_having s = None \<or> aggregates s)"

lemma delivers_mono: "delivers t L V cat node r \<Longrightarrow> (k \<longrightarrow> t) \<Longrightarrow> delivers k L V cat node r"
  by (auto simp: delivers_def)

lemma deliver_select:
  assumes h: "holds L V cat D" and n: "no_indexes cat" and r: "select_rows L D s = Some r"
  obtains node r5 r6 where "plan_select cat s = Some (plan_limit s (plan_sort s node))" "delivers (plain_conditions s) L V cat node r5"
    "order_rows L s r5 = Some r6" "slice_rows s r6 = Some r"
proof -
  obtain r1 r2 r3 r4 r5 r6 where r: "from_rows L D s = Some r1" "where_rows L (sel_where s) r1 = Some r2" "aggregate_rows L s r2 = Some r3"
    "where_rows L (sel_having s) r3 = Some r4" "project_rows L s r4 = Some r5" "order_rows L s r5 = Some r6" "slice_rows s r6 = Some r"
    using r by (auto simp: select_rows_def bind_eq_Some_conv)
  obtain node where node: "plan_from cat s = Some node" "delivers True L V cat node r1"
    "sel_joins s = [] \<and> tl (sel_from s) = [] \<Longrightarrow> is_scan node" by (rule deliver_from [OF h r(1)]) blast
  let ?w = "plan_filter (sel_where s) node"
  have "delivers (plain_conditions s) L V cat ?w r2"
    by (rule delivers_mono [OF deliver_where [OF node(2) n r(2)]]) (use node(3) in \<open>auto simp: plain_conditions_def\<close>)
  note a = deliver_aggregate [OF this r(3)]
  have "aggregates s \<Longrightarrow> fst r3 = None" using r(3) by (auto simp: aggregates_def aggregate_rows_def)
  then have "delivers (plain_conditions s) L V cat (plan_filter (sel_having s) (plan_aggregate s ?w)) r4"
    by (intro delivers_mono [OF deliver_where [OF a n r(4)]]) (auto simp: plain_conditions_def)
  then have "delivers (plain_conditions s) L V cat (plan_project s (plan_filter (sel_having s) (plan_aggregate s ?w))) r5"
    by (rule deliver_project [OF _ r(5)])
  with node(1) r(6,7) that show ?thesis by (simp add: plan_select_def)
qed

section \<open>Properties\<close>

lemma select_runs:
  assumes "pool_has V (eng_bpm eng)" "holds L V (eng_catalog eng) D" "no_indexes (eng_catalog eng)" "select_rows L D s = Some (sch, rs)"
    and "plain_conditions s" "sel_order s = [] \<or> sel_limit s < 0"
  obtains b where "pool_has V b" "execution_engine_execute L stale m (STMT_SELECT s) eng =
      Some (\<lparr>out_code = DB_OK, out_tuples = rs, out_schema = sch, out_affected = Some (int (length rs)),
              out_tuples_freed = (sel_order s \<noteq> []), out_schema_freed = (sel_order s \<noteq> [] \<or> sel_limit s \<ge> 0)\<rparr>, eng\<lparr>eng_bpm := b\<rparr>)"
proof -
  obtain node r5 r6 where node: "plan_select (eng_catalog eng) s = Some (plan_limit s (plan_sort s node))"
    "delivers (plain_conditions s) L V (eng_catalog eng) node r5" "order_rows L s r5 = Some r6" "slice_rows s r6 = Some (sch, rs)"
    by (rule deliver_select [OF assms(2-4)])
  obtain e where e: "build_executor stale (eng_catalog eng) (planner_plan_physical (eng_catalog eng) (plan_limit s (plan_sort s node))) = Some (Some e)"
    "output_schema e = sch" "query L V e rs" "distinct (executor_destroy_tree [] e)" "rows_freed e \<longleftrightarrow> sel_order s \<noteq> []"
    "output_schema e \<noteq> None \<and> columns_owner [] e \<in> set (executor_destroy_tree [] e) \<longleftrightarrow> sel_order s \<noteq> [] \<or> sel_limit s \<ge> 0"
    by (rule deliver_tail [OF node(2-4)]) (use assms(5,6) in \<open>cases stale; auto\<close>)
  obtain b st where b: "exec_run L m e (eng_bpm eng) = Some (rs, b, st)" "pool_has V b" by (rule exec_run_query [OF assms(1) e(3)])
  have "execution_engine_execute L stale m (STMT_SELECT s) eng =
      Some (\<lparr>out_code = DB_OK, out_tuples = rs, out_schema = output_schema e, out_affected = Some (int (length rs)), out_tuples_freed = rows_freed e,
        out_schema_freed = (output_schema e \<noteq> None \<and> columns_owner [] e \<in> set (executor_destroy_tree [] e))\<rparr>, eng\<lparr>eng_bpm := b\<rparr>)"
    using node(1) e(1,4) b(1) unfolding planner_plan_physical_def
    by (simp add: planner_plan_physical_def Let_def del: distinct.simps add: execution_engine_execute_def execute_dml_def planner_plan_def planner_plan_logical_def)
  then show ?thesis unfolding e(6) unfolding e(5) unfolding e(2) by (rule that [OF b(2)])
qed

text \<open>The SELECT statements that the engine answers as SQL has it: no DISTINCT, no aggregation, no HAVING, no ORDER BY, OFFSET only
  with LIMIT, joins that are inner or cross joins, WHERE on one table only, the star alone in the select list.\<close>

definition plain_column :: "expr \<Rightarrow> bool" where
  "plain_column e \<longleftrightarrow> (case e of EXPR_COLUMN_REF t c \<Rightarrow> c_text c \<noteq> cstr ''*'' | _ \<Rightarrow> True)"

definition plain_select :: "select_stmt \<Rightarrow> bool" where
  "plain_select s \<longleftrightarrow>
     \<not> sel_distinct s \<and> \<not> aggregates s \<and> sel_having s = None \<and> sel_order s = [] \<and> (sel_offset s \<le> 0 \<or> sel_limit s \<ge> 0) \<and>
     list_all (\<lambda>j. join_type j \<in> {TK_INNER, TK_CROSS}) (sel_joins s) \<and>
     (sel_where s = None \<or> sel_joins s = [] \<and> tl (sel_from s) = []) \<and>
     (is_star (sel_list s) \<or> list_all plain_column (sel_list s))"

text \<open>C1. A \<open>plain_select\<close> over tables that have no index and names of at most 63 bytes returns DB_OK and exactly
  the rows of its clauses: FROM with its inner joins and cross products, WHERE, the select list, OFFSET and LIMIT,
  each a relational operator on the rows of the one before, whatever the planner merges; the rows belong to the
  caller, the catalog stays, and the pool still holds the pages. It does not depend on what fresh memory holds. A condition that fails to
  evaluate counts as false and a value as NULL, and the table part of a column name is not looked at. With a LIMIT the
  columns of the returned schema have been freed. What the engine makes of the clauses that are left out: \<open>select_outcome\<close>,
  \<open>aggregates_lost\<close>, \<open>order_limit_frees_twice\<close>.\<close>

theorem select_returns_rows:
  assumes "pool_has V (eng_bpm eng)" "holds L V (eng_catalog eng) D" "no_indexes (eng_catalog eng)" "select_rows L D s = Some (sch, rs)"
    and "plain_select s"
  shows "\<exists>b. execution_engine_execute L stale m (STMT_SELECT s) eng =
      Some (\<lparr>out_code = DB_OK, out_tuples = rs, out_schema = sch, out_affected = Some (int (length rs)),
              out_tuples_freed = False, out_schema_freed = (sel_limit s \<ge> 0)\<rparr>, eng\<lparr>eng_bpm := b\<rparr>) \<and>
    pool_has V b"
proof -
  have s: "plain_conditions s" "sel_order s = [] \<or> sel_limit s < 0" "sel_order s = []"
    using assms(5) by (auto simp: plain_select_def plain_conditions_def)
  show ?thesis by (rule select_runs [OF assms(1-4) s(1,2), of stale m]) (use s(3) in auto)
qed

text \<open>The same with the clauses that the engine handles in its own way: GROUP BY and the aggregates, HAVING above them, ORDER BY without
  LIMIT. DISTINCT, the type of a join and an OFFSET without LIMIT are not looked at (\<open>select_rows\<close> leaves them out as the code
  does). With ORDER BY the values of the rows have been freed when the statement returns.\<close>

theorem select_outcome:
  assumes "pool_has V (eng_bpm eng)" "holds L V (eng_catalog eng) D" "no_indexes (eng_catalog eng)" "select_rows L D s = Some (sch, rs)"
    and "plain_conditions s" "sel_order s = [] \<or> sel_limit s < 0"
  shows "\<exists>b. execution_engine_execute L stale m (STMT_SELECT s) eng =
      Some (\<lparr>out_code = DB_OK, out_tuples = rs, out_schema = sch, out_affected = Some (int (length rs)),
              out_tuples_freed = (sel_order s \<noteq> []), out_schema_freed = (sel_order s \<noteq> [] \<or> sel_limit s \<ge> 0)\<rparr>, eng\<lparr>eng_bpm := b\<rparr>) \<and>
    pool_has V b"
  by (rule select_runs [OF assms, of stale m]) blast

text \<open>What fresh memory holds can only make the code leave defined behaviour.\<close>

lemma build_stale: "build_executor False cat n = Some r \<Longrightarrow> build_executor True cat n \<in> {None, Some r}"
proof (induction n arbitrary: r)
  case (POP_NESTED_LOOP_JOIN ty cond s p q)
  then obtain a b where c: "build_executor False cat p = Some a" "build_executor False cat q = Some b" by (auto simp: bind_eq_Some_conv)
  show ?case using POP_NESTED_LOOP_JOIN.IH(1) [OF c(1)] POP_NESTED_LOOP_JOIN.IH(2) [OF c(2)] POP_NESTED_LOOP_JOIN.prems c by auto
next
  case (POP_FILTER e s q)
  then obtain child where c: "build_executor False cat q = Some child" by (auto simp: bind_eq_Some_conv)
  show ?case using POP_FILTER.IH [OF c] POP_FILTER.prems c by (cases child) (auto split: if_splits)
next
  case (POP_PROJECT es s q)
  then obtain child where c: "build_executor False cat q = Some child" by (auto simp: bind_eq_Some_conv)
  show ?case using POP_PROJECT.IH [OF c] POP_PROJECT.prems c by (cases child) (auto split: if_splits)
next
  case (POP_UPDATE name tid as s q)
  then obtain child where c: "build_executor False cat q = Some child" by (auto simp: bind_eq_Some_conv)
  show ?case using POP_UPDATE.IH [OF c] POP_UPDATE.prems c by (cases child) (auto split: if_splits)
next
  case (POP_DELETE name tid s q)
  then obtain child where c: "build_executor False cat q = Some child" by (auto simp: bind_eq_Some_conv)
  show ?case using POP_DELETE.IH [OF c] POP_DELETE.prems c by (cases child) (auto split: if_splits)
next
  case (POP_SORT items s q)
  then obtain child where c: "build_executor False cat q = Some child" by (auto simp: bind_eq_Some_conv)
  show ?case using POP_SORT.IH [OF c] POP_SORT.prems c by (cases child) (auto split: if_splits)
next
  case (POP_LIMIT n k s q)
  then obtain child where c: "build_executor False cat q = Some child" by (auto simp: bind_eq_Some_conv)
  show ?case using POP_LIMIT.IH [OF c] POP_LIMIT.prems c by (cases child) (auto split: if_splits)
next
  case (POP_HASH_AGGREGATE gs as s q)
  then obtain child where c: "build_executor False cat q = Some child" by (auto simp: bind_eq_Some_conv)
  show ?case using POP_HASH_AGGREGATE.IH [OF c] POP_HASH_AGGREGATE.prems c by (cases child) (auto split: if_splits)
qed auto

text \<open>C4. ORDER BY with LIMIT leaves defined behaviour on every table: SORT and LIMIT share the columns of their child by assignment,
  and the engine frees them twice.\<close>

theorem order_limit_frees_twice:
  assumes "holds L V (eng_catalog eng) D" "no_indexes (eng_catalog eng)" "select_rows L D s = Some r" "sel_order s \<noteq> []" "sel_limit s \<ge> 0"
  shows "execution_engine_execute L stale m (STMT_SELECT s) eng = None"
proof -
  obtain node r5 r6 where node: "plan_select (eng_catalog eng) s = Some (plan_limit s (plan_sort s node))"
    "delivers (plain_conditions s) L V (eng_catalog eng) node r5" "order_rows L s r5 = Some r6" "slice_rows s r6 = Some r"
    by (rule deliver_select [OF assms(1-3)])
  obtain e where e: "build_executor False (eng_catalog eng) (planner_plan_physical (eng_catalog eng) (plan_limit s (plan_sort s node))) = Some (Some e)"
    "\<not> distinct (executor_destroy_tree [] e)"
    by (rule deliver_tail [OF node(2-4)]) (use assms(4,5) in simp)
  then have "build_executor stale (eng_catalog eng) (planner_plan_physical (eng_catalog eng) (plan_limit s (plan_sort s node))) \<in> {None, Some (Some e)}"
    using build_stale by (cases stale) auto
  then show ?thesis
    using node(1) e(2)
    by (auto simp: execution_engine_execute_def execute_dml_def planner_plan_def planner_plan_logical_def split: option.split)
qed

text \<open>The table t of one column \<open>id\<close>, its rows 42 and 7 in \<open>two_tables\<close>.\<close>

lemma ids_copy: "copy_schema ids = Some ids"
  by (simp add: copy_schema_def one_column_def demo_row_defs blank_schema_def)

lemma demo_catalog:
  obtains cat meta where "catalog_get_table cat (cstr ''t'') = Inr meta" "tm_id meta = 3" "tm_root meta = 1"
    "\<forall>out. catalog_get_schema cat 3 out = (DB_OK, ids)" "no_indexes cat"
proof -
  let ?t = "cstr ''t''"
  let ?e = "\<lambda>p. \<lparr>te_id = 3, te_root = p, te_type = cstr ''user'', te_schema = Some ids\<rparr>"
  have T: "a_tables system_names ?t = None" "a_next_table system_names = 3" "a_indexes system_names = (\<lambda>_. None)"
    by (simp_all add: system_names_def no_names_def cstr_def)
  let ?a1 = "system_names\<lparr>a_tables := (a_tables system_names)(?t \<mapsto> ?e (-1)), a_next_table := 4\<rparr>"
  have 1: "names_step (C_Create ?t ids) system_names = Some (3, ?a1)"
    by (subst names_step.simps) (simp only: T(1,2) ids_copy, simp)
  have r1: "same_step (cat_step (C_Create ?t ids) catalog_init) (Some (3, ?a1))"
    using cat_step_rel [OF catalog_init_rel, of "C_Create ?t ids"] unfolding 1 by simp
  then obtain cat1 where cat1: "catalog_rel cat1 ?a1" by (cases "cat_step (C_Create ?t ids) catalog_init") auto
  let ?a2 = "?a1\<lparr>a_tables := (\<lambda>n. map_option (\<lambda>e. if te_id e = 3 then e\<lparr>te_root := 1\<rparr> else e) (a_tables ?a1 n))\<rparr>"
  have ex: "\<exists>n e. a_tables ?a1 n = Some e \<and> te_id e = 3" by (intro exI [of _ ?t] exI [of _ "?e (-1)"]) simp
  have 2: "names_step (C_Root 3 1) ?a1 = Some (0, ?a2)" by (subst names_step.simps) (simp only: if_P [OF ex])
  have "same_step (cat_step (C_Root 3 1) cat1) (Some (0, ?a2))"
    using cat_step_rel [OF cat1, of "C_Root 3 1"] unfolding 2 by (simp add: in_range_def)
  then obtain cat2 where r: "catalog_rel cat2 ?a2" by (cases "cat_step (C_Root 3 1) cat1") auto
  have e: "a_tables ?a2 ?t = Some (?e 1)" by simp
  have "catalog_get_table cat2 ?t = Inr (meta_of ?t (?e 1))" using queries_rel(1) [OF r, of ?t] e by simp
  moreover have "catalog_get_schema cat2 3 out = (DB_OK, ids)" for out using queries_rel(2) [OF r e, of out] by simp
  moreover have "no_indexes cat2" unfolding no_indexes_def using queries_rel(5) [OF r] T(3) by (simp add: ran_def)
  ultimately show ?thesis using that by (simp add: meta_of_def)
qed

text \<open>SELECT id FROM t WHERE id \<open><\<close> 10 LIMIT 5.\<close>

definition demo_select :: select_stmt where
  "demo_select = \<lparr>sel_list = [col_expr ''id''], sel_distinct = False, sel_from = [\<lparr>tref_name = ''t'', tref_alias = []\<rparr>], sel_joins = [],
     sel_where = Some (EXPR_BINARY (col_expr ''id'') TK_LESS (lit 10)), sel_group = [], sel_having = None, sel_order = [],
     sel_limit = 5, sel_offset = 0\<rparr>"

definition demo_contents :: contents where
  "demo_contents = [cstr ''t'' \<mapsto> (ids, [row_at 1 42, row_at 2 7])]"

lemma demo_select_rows:
  "select_rows std_libc demo_contents demo_select =
     Some (Some (project_schema (Some ids) [col_expr ''id'']), [\<lparr>tup_values = [V_Int 7], num_values = 1, tup_rid = INVALID_RID\<rparr>])"
proof -
  have t: "c_text ''t'' = cstr ''t''" by (simp add: c_text_def cstr_def)
  have p: "project_row std_libc [col_expr ''id''] (Some ids) (row_at 2 7) = Some \<lparr>tup_values = [V_Int 7], num_values = 1, tup_rid = INVALID_RID\<rparr>"
    by (simp add: project_row_def eval_or_null_def ids_value new_tuple_def tuple_create_def blank_tuple_def tuple_set_value_def
        col_idx_valid_def value_copy_def)
  have star: "\<not> is_star [col_expr ''id'']" by (simp add: col_expr_def c_text_def cstr_def)
  have call: "\<not> is_function_call (col_expr ''id'')" by (simp add: col_expr_def)
  show ?thesis
    by (simp add: select_rows_def demo_select_def from_rows_def table_rows_def t demo_contents_def where_rows_def ids_less
        aggregate_rows_def call project_rows_def star p order_rows_def slice_rows_def limit_rows_def)
qed

lemma demo_holds:
  obtains b cat where "pool_has two_tables b" "holds std_libc two_tables cat demo_contents" "no_indexes cat"
proof -
  obtain b where b: "pool_has two_tables b" by (rule two_tables_pool)
  obtain cat meta where cat: "catalog_get_table cat (cstr ''t'') = Inr meta" "tm_id meta = 3" "tm_root meta = 1"
    "\<forall>out. catalog_get_schema cat 3 out = (DB_OK, ids)" "no_indexes cat" by (rule demo_catalog)
  obtain ps where ps: "chain two_tables 1 ps" "scan_rows std_libc ids None (heap_stored two_tables ps) = Some [row_at 1 42, row_at 2 7]"
    using scan_ids_rows [of std_libc] by (auto simp: scan_ids_def heap_at_def elim: query.cases)
  have h: "holds std_libc two_tables cat demo_contents"
    using cat ps by (auto simp: holds_def demo_contents_def cstr_def split: if_splits)
  from that [OF b h cat(5)] show ?thesis .
qed

theorem select_returns_rows_witness:
  "\<exists>eng out eng'. execution_engine_execute std_libc True zero_page (STMT_SELECT demo_select) eng = Some (out, eng') \<and>
     out_code out = DB_OK \<and> out_tuples out = [\<lparr>tup_values = [V_Int 7], num_values = 1, tup_rid = INVALID_RID\<rparr>] \<and> \<not> out_tuples_freed out"
proof -
  obtain b cat where p: "pool_has two_tables b" "holds std_libc two_tables cat demo_contents" "no_indexes cat" by (rule demo_holds)
  let ?eng = "\<lparr>eng_catalog = cat, eng_bpm = b\<rparr>"
  have p: "pool_has two_tables (eng_bpm ?eng)" "holds std_libc two_tables (eng_catalog ?eng) demo_contents" "no_indexes (eng_catalog ?eng)"
    using p by simp_all
  have "plain_select demo_select" by (simp add: plain_select_def aggregates_def plain_column_def demo_select_def col_expr_def c_text_def cstr_def)
  from select_returns_rows [OF p demo_select_rows this, of True zero_page] show ?thesis by fastforce
qed


section \<open>What an index does\<close>

lemma build_none_up:
  assumes "build_executor stale cat (planner_plan_physical cat node) = Some None" "\<And>n tid s. node \<noteq> LOP_SCAN n tid s"
  shows "build_executor stale cat (planner_plan_physical cat (plan_filter cond node)) = Some None \<and> (\<forall>n tid s. plan_filter cond node \<noteq> LOP_SCAN n tid s)"
    and "build_executor stale cat (planner_plan_physical cat (plan_aggregate s node)) = Some None \<and> (\<forall>n tid s'. plan_aggregate s node \<noteq> LOP_SCAN n tid s')"
    and "build_executor stale cat (planner_plan_physical cat (plan_project s node)) = Some None \<and> (\<forall>n tid s'. plan_project s node \<noteq> LOP_SCAN n tid s')"
    and "build_executor stale cat (planner_plan_physical cat (plan_sort s node)) = Some None \<and> (\<forall>n tid s'. plan_sort s node \<noteq> LOP_SCAN n tid s')"
    and "build_executor stale cat (planner_plan_physical cat (plan_limit s node)) = Some None"
proof -
  have c: "convert_logical (LOP_FILTER e s node) = POP_FILTER e (clone_schema s) (convert_logical node)" for e s
    using assms(2) by (cases node) auto
  show "build_executor stale cat (planner_plan_physical cat (plan_filter cond node)) = Some None \<and> (\<forall>n tid s. plan_filter cond node \<noteq> LOP_SCAN n tid s)"
    using assms by (simp add: plan_filter_def planner_plan_physical_def c split: option.split)
qed (use assms in \<open>simp_all add: plan_aggregate_def plan_project_def plan_sort_def plan_limit_def planner_plan_physical_def\<close>)

text \<open>An index that the rule matches, on the table n, for the column c.\<close>

definition indexed :: "catalog \<Rightarrow> string \<Rightarrow> string \<Rightarrow> bool" where
  "indexed cat n c \<longleftrightarrow>
     (\<exists>meta s idx. catalog_get_table cat (c_text n) = Inr meta \<and> tm_id meta \<noteq> -1 \<and>
        catalog_get_schema cat (tm_id meta) blank_schema = (DB_OK, s) \<and> copy_schema s = Some s \<and>
        idx \<in> set (catalog_get_table_indexes cat (tm_id meta)) \<and>
        im_column idx = schema_find_column s (c_text c) \<and> 0 \<le> im_column idx)"

definition column_is :: "string \<Rightarrow> int \<Rightarrow> expr" where
  "column_is c i = EXPR_BINARY (EXPR_COLUMN_REF [] c) TK_EQUAL (EXPR_LITERAL (VALUE_INT i))"

lemma indexed_scan:
  assumes "indexed cat n c"
  obtains meta s where "catalog_get_table cat (c_text n) = Inr meta" "get_table_schema cat (tm_id meta) = Some s"
    "catalog_get_schema cat (tm_id meta) blank_schema = (DB_OK, s)"
    "\<And>name sch. build_executor stale cat (planner_plan_physical cat (LOP_FILTER (column_is c i) sch (LOP_SCAN name (tm_id meta) (Some s)))) = Some None"
proof -
  obtain meta s idx where m: "catalog_get_table cat (c_text n) = Inr meta" "tm_id meta \<noteq> -1"
    "catalog_get_schema cat (tm_id meta) blank_schema = (DB_OK, s)" "copy_schema s = Some s"
    "idx \<in> set (catalog_get_table_indexes cat (tm_id meta))" "im_column idx = schema_find_column s (c_text c)" "0 \<le> im_column idx"
    using assms unfolding indexed_def by blast
  let ?P = "\<lambda>idx. 0 \<le> schema_find_column s (c_text c) \<and> schema_find_column s (c_text c) = im_column idx"
  have "find ?P (catalog_get_table_indexes cat (tm_id meta)) \<noteq> None"
    using m(5-7) by (auto simp: find_None_iff)
  then obtain i' where f: "find ?P (catalog_get_table_indexes cat (tm_id meta)) = Some i'" by blast
  have cl: "clone_schema (Some s) = Some s"
    using m(4) by (auto simp: clone_schema_def copy_schema_def split: prod.splits if_splits)
  show ?thesis
  proof (rule that [OF m(1) _ m(3)])
    show "get_table_schema cat (tm_id meta) = Some s" using m(3) by (simp add: get_table_schema_def)
    show "build_executor stale cat (planner_plan_physical cat (LOP_FILTER (column_is c i) sch (LOP_SCAN name (tm_id meta) (Some s)))) = Some None" for name sch
      using m(2) f by (simp add: planner_plan_physical_def cl match_index_def column_is_def)
  qed
qed

lemma childless_run:
  "exec_run L m (DELETE hf s None) b = None" "exec_run L m (UPDATE hf s as None) b = None"
proof -
  have d: "drain (on_next (case_prod S_CHANGE) get_change childless_next) b (S_CHANGE False S_FRESH) = None"
    by (subst drain.simps) (simp add: on_next_def get_change_def childless_next_def)
  show "exec_run L m (DELETE hf s None) b = None" "exec_run L m (UPDATE hf s as None) b = None"
    by (simp_all add: exec_run_def on_init_def get_change_def childless_init_def d)
qed

text \<open>C2. An index on a column breaks the equations on it: with an index on column c of the table n, a SELECT from n WHERE c =
  an integer returns DB_INTERNAL_ERROR and no row, and a DELETE or UPDATE with that condition leaves defined behaviour,
  calling through the NULL pointer of the child that was not built.\<close>

theorem indexed_equality_fails:
  assumes x: "indexed (eng_catalog eng) n c" and n: "length (c_text n) \<le> 63"
    and s: "sel_from s = [\<lparr>tref_name = n, tref_alias = a\<rparr>]" "sel_joins s = []" "sel_where s = Some (column_is c i)"
  shows "execution_engine_execute L stale m (STMT_SELECT s) eng = Some (returns DB_INTERNAL_ERROR, eng) \<and>
    execution_engine_execute L stale m (STMT_DELETE \<lparr>del_table = n, del_where = Some (column_is c i)\<rparr>) eng = None \<and>
    execution_engine_execute L stale m (STMT_UPDATE \<lparr>upd_table = n, upd_assignments = as, upd_where = Some (column_is c i)\<rparr>) eng = None"
proof -
  let ?cat = "eng_catalog eng"
  obtain meta sch where m: "catalog_get_table ?cat (c_text n) = Inr meta" "get_table_schema ?cat (tm_id meta) = Some sch"
    "catalog_get_schema ?cat (tm_id meta) blank_schema = (DB_OK, sch)" and
    b: "\<And>name s'. build_executor stale ?cat (planner_plan_physical ?cat (LOP_FILTER (column_is c i) s' (LOP_SCAN name (tm_id meta) (Some sch)))) = Some None"
    by (rule indexed_scan [OF x, where stale = stale and i = i]) blast
  have f: "field 64 (c_text n) = c_text n" using n by (simp add: field_def)
  let ?scan = "LOP_SCAN (c_text n) (tm_id meta) (Some sch)"
  have fr: "plan_from ?cat s = Some ?scan" using m f s(1,2) by (simp add: plan_from_def plan_scan_def)
  have w: "plan_filter (Some (column_is c i)) ?scan = LOP_FILTER (column_is c i) (Some sch) ?scan" by (simp add: plan_filter_def)
  let ?n1 = "LOP_FILTER (column_is c i) (Some sch) ?scan"
  have 1: "build_executor stale ?cat (planner_plan_physical ?cat ?n1) = Some None" "\<And>n t s. ?n1 \<noteq> LOP_SCAN n t s" using b by simp_all
  note 2 = build_none_up(2) [OF 1, of s]
  note 3 = build_none_up(1) [OF conjunct1 [OF 2], of "sel_having s"]
  have 3: "build_executor stale ?cat (planner_plan_physical ?cat (plan_filter (sel_having s) (plan_aggregate s ?n1))) = Some None"
    "plan_filter (sel_having s) (plan_aggregate s ?n1) \<noteq> LOP_SCAN k t u" for k t u using 3 2 by blast+
  note 4 = build_none_up(3) [OF 3, of s]
  have 4: "build_executor stale ?cat (planner_plan_physical ?cat (plan_project s (plan_filter (sel_having s) (plan_aggregate s ?n1)))) = Some None"
    "plan_project s (plan_filter (sel_having s) (plan_aggregate s ?n1)) \<noteq> LOP_SCAN k t u" for k t u using 4 by blast+
  note 5 = build_none_up(4) [OF 4, of s]
  have 5: "build_executor stale ?cat (planner_plan_physical ?cat (plan_sort s (plan_project s (plan_filter (sel_having s) (plan_aggregate s ?n1))))) = Some None"
    "plan_sort s (plan_project s (plan_filter (sel_having s) (plan_aggregate s ?n1))) \<noteq> LOP_SCAN k t u" for k t u using 5 by blast+
  note 6 = build_none_up(5) [OF 5, of s]
  have sel: "execution_engine_execute L stale m (STMT_SELECT s) eng = Some (returns DB_INTERNAL_ERROR, eng)"
    using 6 by (simp add: execution_engine_execute_def execute_dml_def planner_plan_def planner_plan_logical_def plan_select_def fr s(3) w)
  have o: "open_table ?cat (c_text n) = Some (bpm_heap_init (tm_root meta), sch)" using m by (simp add: open_table_def)
  have opt: "build_executor stale ?cat (optimize_match_index ?cat (convert_logical ?n1)) = Some None" using 1(1) by (simp add: planner_plan_physical_def)
  have del: "execution_engine_execute L stale m (STMT_DELETE \<lparr>del_table = n, del_where = Some (column_is c i)\<rparr>) eng = None"
    using opt m(1,2) f o by (simp add: execution_engine_execute_def execute_dml_def planner_plan_def planner_plan_logical_def plan_delete_def w
      planner_plan_physical_def Let_def childless_run del: convert_logical.simps(3))
  have upd: "execution_engine_execute L stale m (STMT_UPDATE \<lparr>upd_table = n, upd_assignments = as, upd_where = Some (column_is c i)\<rparr>) eng = None"
    using opt m(1,2) f o by (simp add: execution_engine_execute_def execute_dml_def planner_plan_def planner_plan_logical_def plan_update_def w
      planner_plan_physical_def Let_def childless_run del: convert_logical.simps(3))
  show ?thesis using sel del upd by blast
qed

lemma demo_indexed:
  obtains cat where "indexed cat ''t'' ''id''"
proof -
  let ?t = "cstr ''t''" and ?i = "cstr ''i''"
  let ?e = "\<lparr>te_id = 3, te_root = -1, te_type = cstr ''user'', te_schema = Some ids\<rparr>"
  let ?m = "\<lparr>im_id = 1, im_name = ?i, im_table = 3, im_column = 0, im_root = -1, im_unique = False\<rparr>"
  have T: "a_tables system_names ?t = None" "a_next_table system_names = 3" "a_indexes system_names = (\<lambda>_. None)" "a_next_index system_names = 1"
    by (simp_all add: system_names_def no_names_def cstr_def)
  let ?a1 = "system_names\<lparr>a_tables := (a_tables system_names)(?t \<mapsto> ?e), a_next_table := 4\<rparr>"
  have 1: "names_step (C_Create ?t ids) system_names = Some (3, ?a1)"
    by (subst names_step.simps) (simp only: T(1,2) ids_copy, simp)
  have "same_step (cat_step (C_Create ?t ids) catalog_init) (Some (3, ?a1))"
    using cat_step_rel [OF catalog_init_rel, of "C_Create ?t ids"] unfolding 1 by simp
  then obtain cat1 where cat1: "catalog_rel cat1 ?a1" by (cases "cat_step (C_Create ?t ids) catalog_init") auto
  let ?a2 = "?a1\<lparr>a_indexes := [?i \<mapsto> ?m], a_next_index := 2\<rparr>"
  have 2: "names_step (C_Index ?i 3 0 (-1) False) ?a1 = Some (1, ?a2)" using T(3,4) by simp
  have "same_step (cat_step (C_Index ?i 3 0 (-1) False) cat1) (Some (1, ?a2))"
    using cat_step_rel [OF cat1, of "C_Index ?i 3 0 (-1) False"] unfolding 2 by (simp add: cstr_def)
  then obtain cat2 where r: "catalog_rel cat2 ?a2" by (cases "cat_step (C_Index ?i 3 0 (-1) False) cat1") auto
  have e: "a_tables ?a2 ?t = Some ?e" by simp
  have "catalog_get_table cat2 ?t = Inr (meta_of ?t ?e)" using queries_rel(1) [OF r, of ?t] e by simp
  moreover have "catalog_get_schema cat2 3 blank_schema = (DB_OK, ids)" using queries_rel(2) [OF r e, of blank_schema] by simp
  moreover have "?m \<in> set (catalog_get_table_indexes cat2 3)" using queries_rel(5) [OF r, of 3] by simp
  moreover have "c_text ''t'' = ?t" by (simp add: c_text_def cstr_def)
  ultimately have "indexed cat2 ''t'' ''id''" using ids_copy ids_find
    unfolding indexed_def by (intro exI [of _ "meta_of ?t ?e"] exI [of _ ids] exI [of _ ?m]) (simp add: meta_of_def)
  then show ?thesis by (rule that)
qed

theorem indexed_equality_fails_witness:
  "\<exists>eng. execution_engine_execute std_libc False zero_page
       (STMT_SELECT (demo_select\<lparr>sel_where := Some (column_is ''id'' 7)\<rparr>)) eng = Some (returns DB_INTERNAL_ERROR, eng)"
proof -
  obtain cat where cat: "indexed cat ''t'' ''id''" by (rule demo_indexed)
  let ?eng = "\<lparr>eng_catalog = cat, eng_bpm = demo_pool 3 5\<rparr>"
  have "indexed (eng_catalog ?eng) ''t'' ''id''" using cat by simp
  from indexed_equality_fails [OF this, of "demo_select\<lparr>sel_where := Some (column_is ''id'' 7)\<rparr>" "[]" 7 std_libc False zero_page]
  show ?thesis by (intro exI [of _ ?eng]) (simp add: demo_select_def c_text_def cstr_def)
qed

section \<open>What becomes of aggregates\<close>

definition all_null :: "tuple \<Rightarrow> bool" where
  "all_null t \<longleftrightarrow> length (tup_values t) = nat (num_values t) \<and> set (tup_values t) \<subseteq> {V_Null}"

lemma set_values_null:
  "all_null t \<Longrightarrow> set vs \<subseteq> {V_Null} \<Longrightarrow> all_null (set_values t i vs)"
proof (induction vs arbitrary: t i)
  case (Cons v vs)
  have "set ((tup_values t)[i := V_Null]) \<subseteq> {V_Null}"
    using set_update_subset_insert [of "tup_values t" i V_Null] Cons.prems(1) by (auto simp: all_null_def)
  then have "all_null (snd (tuple_set_value t (int i) v))"
    using Cons.prems by (auto simp: all_null_def tuple_set_value_def value_copy_def)
  then show ?case using Cons by simp
qed simp

lemma new_tuple_null: "new_tuple n = Some t \<Longrightarrow> all_null t"
  by (auto simp: new_tuple_def tuple_create_def all_null_def blank_tuple_def value_make_null_def split: if_splits)

fun is_column :: "expr \<Rightarrow> bool" where
  "is_column (EXPR_COLUMN_REF t c) = True"
| "is_column _ = False"

lemma no_schema_null: "is_function_call e \<or> is_column e \<Longrightarrow> eval_or_null L e t None = Some V_Null"
  by (cases e) (auto simp: eval_or_null_def column_value_def value_make_null_def)

lemma project_null:
  assumes es: "\<forall>e \<in> set es. is_function_call e \<or> is_column e" and p: "project_row L es None t = Some u"
  shows "all_null u"
proof -
  have "those (map (\<lambda>e. eval_or_null L e t None) es) = Some (replicate (length es) V_Null)"
    using es no_schema_null by (induction es) auto
  then obtain out where "new_tuple (int (length es)) = Some out" "u = set_values out 0 (replicate (length es) V_Null)"
    using p by (auto simp: project_row_def split: option.splits)
  moreover have "set (replicate (length es) V_Null) \<subseteq> {V_Null}" by (simp add: set_replicate_conv_if)
  ultimately show ?thesis using set_values_null [OF new_tuple_null] by blast
qed

lemma map_rows_all: "map_rows f ts = Some rs \<Longrightarrow> u \<in> set rs \<Longrightarrow> \<exists>t \<in> set ts. f t = Some u"
  by (induction ts arbitrary: rs) (auto simp: bind_eq_Some_conv split: option.splits)

lemma lost_rows:
  assumes r: "select_rows L D s = Some (sch, rs)" and c: "list_ex is_function_call (sel_list s)"
    and l: "\<forall>e \<in> set (sel_list s). is_function_call e \<or> is_column e" and o: "sel_order s = []" and t: "t \<in> set rs"
  shows "set (tup_values t) \<subseteq> {V_Null}"
proof -
  obtain r3 r4 r5 where r: "fst r3 = None" "where_rows L (sel_having s) r3 = Some r4" "project_rows L s r4 = Some r5"
    "slice_rows s r5 = Some (sch, rs)"
    using r c o by (auto simp: select_rows_def order_rows_def aggregate_rows_def bind_eq_Some_conv split: if_splits)
  have n: "sel_list s \<noteq> [] \<and> \<not> is_star (sel_list s)" using c by (cases "sel_list s" rule: is_star.cases) auto
  have "fst r4 = None" using r(1,2) by (auto simp: where_rows_def split: option.splits)
  then obtain ts where ts: "map_rows (project_row L (sel_list s) None) (snd r4) = Some ts" "snd r5 = ts"
    using r(3) n by (auto simp: project_rows_def)
  have "t \<in> set ts"
    using r(4) t ts(2) by (auto simp: slice_rows_def limit_rows_def Let_def split: if_splits dest!: in_set_takeD in_set_dropD)
  then obtain u where "project_row L (sel_list s) None u = Some t" using map_rows_all [OF ts(1)] by blast
  from project_null [OF l this] show ?thesis by (simp add: all_null_def)
qed

text \<open>C3. Aggregates are computed and lost: a SELECT list of function calls and columns, one of them a call, without ORDER BY
  is answered with DB_OK and one row a group, every value of which is NULL, for the projection looks up the columns in a schema
  that the aggregation does not have.\<close>

theorem aggregates_lost:
  assumes "pool_has V (eng_bpm eng)" "holds L V (eng_catalog eng) D" "no_indexes (eng_catalog eng)" "select_rows L D s = Some r"
    and "plain_conditions s" "list_ex is_function_call (sel_list s)" "\<forall>e \<in> set (sel_list s). is_function_call e \<or> is_column e" "sel_order s = []"
  shows "\<exists>out eng'. execution_engine_execute L stale m (STMT_SELECT s) eng = Some (out, eng') \<and>
    out_code out = DB_OK \<and> out_tuples out = snd r \<and> (\<forall>t \<in> set (out_tuples out). set (tup_values t) \<subseteq> {V_Null})"
proof -
  obtain sch rs where rs: "r = (sch, rs)" by (cases r)
  then have r: "select_rows L D s = Some (sch, rs)" using assms(4) by simp
  obtain b where "execution_engine_execute L stale m (STMT_SELECT s) eng =
      Some (\<lparr>out_code = DB_OK, out_tuples = rs, out_schema = sch, out_affected = Some (int (length rs)),
              out_tuples_freed = (sel_order s \<noteq> []), out_schema_freed = (sel_order s \<noteq> [] \<or> sel_limit s \<ge> 0)\<rparr>, eng\<lparr>eng_bpm := b\<rparr>)"
    by (rule select_runs [OF assms(1-3) r assms(5), of stale m]) (use assms(8) in simp)
  then show ?thesis using lost_rows [OF r assms(6-8)] rs by simp
qed

text \<open>SELECT COUNT( * ) FROM t.\<close>

definition count_select :: select_stmt where
  "count_select = demo_select\<lparr>sel_list := [EXPR_FUNCTION_CALL ''COUNT'' [] True], sel_where := None, sel_limit := -1\<rparr>"

lemma count_rows:
  "\<exists>sch t. select_rows std_libc demo_contents count_select = Some (sch, [t])"
proof -
  let ?count = "EXPR_FUNCTION_CALL ''COUNT'' [] True"
  have t: "c_text ''t'' = cstr ''t''" by (simp add: c_text_def cstr_def)
  have k: "get_agg_kind ?count = AGG_COUNT" by (simp add: get_agg_kind_def c_text_def cstr_def)
  have rows: "group_rows std_libc [] [?count] (Some ids) [row_at 1 42, row_at 2 7] =
      Some [\<lparr>tup_values = [V_Int 2], num_values = 1, tup_rid = INVALID_RID\<rparr>]"
    by (simp add: group_rows_def agg_row_def update_aggs_def agg_input_def k update_agg_def new_agg_def agg_output_def agg_result_def
        new_tuple_def tuple_create_def blank_tuple_def tuple_set_value_def col_idx_valid_def value_make_integer_def value_copy_def Let_def)
  have p: "project_row std_libc [?count] None u \<noteq> None" for u
    by (simp add: project_row_def no_schema_null new_tuple_def tuple_create_def)
  show ?thesis using p
    by (simp add: select_rows_def count_select_def demo_select_def from_rows_def table_rows_def t demo_contents_def where_rows_def
        aggregate_rows_def rows project_rows_def order_rows_def slice_rows_def split: option.split)
qed

theorem aggregates_lost_witness:
  "\<exists>eng out eng'. execution_engine_execute std_libc False zero_page (STMT_SELECT count_select) eng = Some (out, eng') \<and>
     out_code out = DB_OK \<and> (\<exists>t. out_tuples out = [t] \<and> set (tup_values t) \<subseteq> {V_Null})"
proof -
  obtain b cat where p: "pool_has two_tables b" "holds std_libc two_tables cat demo_contents" "no_indexes cat" by (rule demo_holds)
  let ?eng = "\<lparr>eng_catalog = cat, eng_bpm = b\<rparr>"
  have p: "pool_has two_tables (eng_bpm ?eng)" "holds std_libc two_tables (eng_catalog ?eng) demo_contents" "no_indexes (eng_catalog ?eng)"
    using p by simp_all
  obtain sch t where r: "select_rows std_libc demo_contents count_select = Some (sch, [t])" using count_rows by blast
  have l: "plain_conditions count_select" "list_ex is_function_call (sel_list count_select)" "\<forall>e \<in> set (sel_list count_select). is_function_call e \<or> is_column e"
    "sel_order count_select = []" by (simp_all add: plain_conditions_def count_select_def demo_select_def)
  from aggregates_lost [OF p r l, of False zero_page] show ?thesis by force
qed

text \<open>SELECT * FROM t WHERE id \<open><\<close> 10 ORDER BY id LIMIT 5.\<close>

definition order_select :: select_stmt where
  "order_select = demo_select\<lparr>sel_list := [EXPR_COLUMN_REF [] ''*''], sel_order := [\<lparr>ord_expr = col_expr ''id'', ord_ascending = True\<rparr>]\<rparr>"

lemma order_select_rows: "\<exists>r. select_rows std_libc demo_contents order_select = Some r"
proof -
  have t: "c_text ''t'' = cstr ''t''" by (simp add: c_text_def cstr_def)
  have v: "eval_or_null std_libc (col_expr ''id'') (row_at p i) (Some ids) = Some (V_Int i)" for p i
    by (simp add: eval_or_null_def ids_value)
  have "sort_rows std_libc [\<lparr>ord_expr = col_expr ''id'', ord_ascending = True\<rparr>] (Some ids) [row_at 2 7] \<noteq> None"
    by (simp add: sort_rows_def sort_tuples_def v key_compare_def)
  then show ?thesis
    by (auto simp: select_rows_def order_select_def demo_select_def from_rows_def table_rows_def t demo_contents_def where_rows_def ids_less
        aggregate_rows_def project_rows_def order_rows_def slice_rows_def c_text_def cstr_def)
qed

theorem order_limit_frees_twice_witness:
  "\<exists>eng. execution_engine_execute std_libc False zero_page (STMT_SELECT order_select) eng = None"
proof -
  obtain b cat where p: "pool_has two_tables b" "holds std_libc two_tables cat demo_contents" "no_indexes cat" by (rule demo_holds)
  let ?eng = "\<lparr>eng_catalog = cat, eng_bpm = b\<rparr>"
  have p: "holds std_libc two_tables (eng_catalog ?eng) demo_contents" "no_indexes (eng_catalog ?eng)" using p by simp_all
  obtain r where r: "select_rows std_libc demo_contents order_select = Some r" using order_select_rows by blast
  have "sel_order order_select \<noteq> []" "sel_limit order_select \<ge> 0" by (simp_all add: order_select_def demo_select_def)
  from order_limit_frees_twice [OF p r this, of False zero_page] show ?thesis by blast
qed

end
