(* ===== verification/Bpt_Node.thy ===== *)
theory Bpt_Node
  imports Prelude_Db
begin

text \<open>
  The nodes of the B+ tree, \<open>src/index/b_plus_tree_node.h\<close> and \<open>b_plus_tree_node.c\<close>, on the bytes of a page: behind the page
  header the type (1 byte) and the size (4 bytes); in a leaf then the next leaf (4 bytes) and entries of a key and a rid (16 bytes),
  in an internal node the first child (4 bytes) and pairs of a key and a child (12 bytes). The abstract view is the list of the
  entries, and the keys with the children behind them; every operation is the list operation on it. Indices are \<open>nat\<close>.
\<close>

section \<open>Accessors\<close>

abbreviation (input) BP_NODE_TYPE_INTERNAL :: nat where "BP_NODE_TYPE_INTERNAL \<equiv> 1"
abbreviation (input) BP_NODE_TYPE_LEAF :: nat where "BP_NODE_TYPE_LEAF \<equiv> 2"

definition bp_node_get_type :: "buffer \<Rightarrow> nat" where
  "bp_node_get_type p = get_u 1 p 24"

definition bp_node_set_type :: "buffer \<Rightarrow> nat \<Rightarrow> buffer" where
  "bp_node_set_type p v = put_u 1 p 24 v"

definition bp_node_get_size :: "buffer \<Rightarrow> int" where
  "bp_node_get_size p = get_s 4 p 25"

definition bp_node_set_size :: "buffer \<Rightarrow> int \<Rightarrow> buffer" where
  "bp_node_set_size p v = put_s 4 p 25 v"

definition internal_child_offset :: "nat \<Rightarrow> nat" where
  "internal_child_offset i = (if i = 0 then 29 else 29 + 4 + (i - 1) * 12 + 8)"

definition internal_key_offset :: "nat \<Rightarrow> nat" where
  "internal_key_offset i = 29 + 4 + i * 12"

definition internal_get_key :: "buffer \<Rightarrow> nat \<Rightarrow> int" where
  "internal_get_key p i = get_s 8 p (internal_key_offset i)"

definition internal_set_key :: "buffer \<Rightarrow> nat \<Rightarrow> int \<Rightarrow> buffer" where
  "internal_set_key p i k = put_s 8 p (internal_key_offset i) k"

definition internal_get_child :: "buffer \<Rightarrow> nat \<Rightarrow> int" where
  "internal_get_child p i = get_s 4 p (internal_child_offset i)"

definition internal_set_child :: "buffer \<Rightarrow> nat \<Rightarrow> int \<Rightarrow> buffer" where
  "internal_set_child p i c = put_s 4 p (internal_child_offset i) c"

definition internal_max_keys :: int where
  "internal_max_keys = (int PAGE_SIZE - 29 - 4) div 12"

definition leaf_key_offset :: "nat \<Rightarrow> nat" where
  "leaf_key_offset i = 33 + i * 16"

definition leaf_rid_offset :: "nat \<Rightarrow> nat" where
  "leaf_rid_offset i = 33 + i * 16 + 8"

definition leaf_get_key :: "buffer \<Rightarrow> nat \<Rightarrow> int" where
  "leaf_get_key p i = get_s 8 p (leaf_key_offset i)"

definition leaf_set_key :: "buffer \<Rightarrow> nat \<Rightarrow> int \<Rightarrow> buffer" where
  "leaf_set_key p i k = put_s 8 p (leaf_key_offset i) k"

definition leaf_get_rid :: "buffer \<Rightarrow> nat \<Rightarrow> rid" where
  "leaf_get_rid p i = \<lparr>rid_page = get_s 4 p (leaf_rid_offset i), rid_slot = get_s 4 p (leaf_rid_offset i + 4)\<rparr>"

definition leaf_set_rid :: "buffer \<Rightarrow> nat \<Rightarrow> rid \<Rightarrow> buffer" where
  "leaf_set_rid p i r = put_s 4 (put_s 4 p (leaf_rid_offset i) (rid_page r)) (leaf_rid_offset i + 4) (rid_slot r)"

definition leaf_get_next_page :: "buffer \<Rightarrow> int" where
  "leaf_get_next_page p = get_s 4 p 29"

definition leaf_set_next_page :: "buffer \<Rightarrow> int \<Rightarrow> buffer" where
  "leaf_set_next_page p v = put_s 4 p 29 v"

definition leaf_max_keys :: int where
  "leaf_max_keys = (int PAGE_SIZE - 33) div 16"

lemma max_keys [simp]: "leaf_max_keys = 253" "internal_max_keys = 338"
  by (simp_all add: leaf_max_keys_def internal_max_keys_def)

section \<open>Operations\<close>

text \<open>The binary searches, between lo and hi.\<close>

function internal_search :: "buffer \<Rightarrow> int \<Rightarrow> nat \<Rightarrow> nat \<Rightarrow> nat" where
  "internal_search p key lo hi =
     (if lo < hi then
        let mid = lo + (hi - lo) div 2 in
        if internal_get_key p mid \<le> key then internal_search p key (mid + 1) hi else internal_search p key lo mid
      else lo)"
  by pat_completeness auto
termination by (relation "measure (\<lambda>(p, key, lo, hi). hi - lo)") auto

definition internal_find_position :: "buffer \<Rightarrow> int \<Rightarrow> nat" where
  "internal_find_position p key = internal_search p key 0 (nat (bp_node_get_size p))"

function leaf_search :: "buffer \<Rightarrow> int \<Rightarrow> nat \<Rightarrow> nat \<Rightarrow> nat" where
  "leaf_search p key lo hi =
     (if lo < hi then
        let mid = lo + (hi - lo) div 2 in
        if leaf_get_key p mid < key then leaf_search p key (mid + 1) hi else leaf_search p key lo mid
      else lo)"
  by pat_completeness auto
termination by (relation "measure (\<lambda>(p, key, lo, hi). hi - lo)") auto

definition leaf_find_position :: "buffer \<Rightarrow> int \<Rightarrow> nat" where
  "leaf_find_position p key = leaf_search p key 0 (nat (bp_node_get_size p))"

declare internal_search.simps [simp del] leaf_search.simps [simp del]

text \<open>The entries from pos on one place to the right, and the new one at pos; the size is the caller's.\<close>

definition internal_put :: "buffer \<Rightarrow> nat \<Rightarrow> int \<Rightarrow> int \<Rightarrow> buffer" where
  "internal_put p pos key child =
     (let size = nat (bp_node_get_size p);
          src_off = internal_key_offset pos; dst_off = internal_key_offset (pos + 1); end_off = internal_child_offset size + 4;
          p = mem_move p dst_off src_off (end_off - src_off);
          p = internal_set_key p pos key
      in internal_set_child p (pos + 1) child)"

definition internal_insert :: "buffer \<Rightarrow> nat \<Rightarrow> int \<Rightarrow> int \<Rightarrow> int \<times> buffer" where
  "internal_insert p pos key child =
     (let size = bp_node_get_size p in
      if size \<ge> internal_max_keys then (-1, p) else (0, bp_node_set_size (internal_put p pos key child) (size + 1)))"

definition leaf_put :: "buffer \<Rightarrow> nat \<Rightarrow> int \<Rightarrow> rid \<Rightarrow> buffer" where
  "leaf_put p pos key r =
     (let size = nat (bp_node_get_size p);
          p = (if pos < size then mem_move p (leaf_key_offset (pos + 1)) (leaf_key_offset pos) ((size - pos) * 16) else p);
          p = leaf_set_key p pos key
      in leaf_set_rid p pos r)"

definition leaf_insert :: "buffer \<Rightarrow> nat \<Rightarrow> int \<Rightarrow> rid \<Rightarrow> int \<times> buffer" where
  "leaf_insert p pos key r =
     (let size = bp_node_get_size p in
      if size \<ge> leaf_max_keys then (-1, p) else (0, bp_node_set_size (leaf_put p pos key r) (size + 1)))"

definition leaf_remove :: "buffer \<Rightarrow> nat \<Rightarrow> int \<times> buffer" where
  "leaf_remove p pos =
     (let size = bp_node_get_size p in
      if int pos \<ge> size then (-1, p)
      else
        let p = (if int pos < size - 1
                 then mem_move p (leaf_key_offset pos) (leaf_key_offset (pos + 1)) (nat (size - int pos - 1) * 16) else p)
        in (0, bp_node_set_size p (size - 1)))"

section \<open>Arrays of cells\<close>

text \<open>Both kinds of node have an array at offset 33, of cells of w = 16 or 12 bytes.\<close>

definition cell :: "nat \<Rightarrow> buffer \<Rightarrow> nat \<Rightarrow> byte list" where
  "cell w p i = mem_read p (33 + i * w) w"

lemma mem_read_take: "k \<le> n \<Longrightarrow> take k (mem_read m off n) = mem_read m off k"
  by (rule nth_equalityI) auto

lemma mem_read_drop: "drop k (mem_read m off n) = mem_read m (off + k) (n - k)"
  by (rule nth_equalityI) (auto simp: add.assoc)

lemma cell_apart: "i \<noteq> j \<Longrightarrow> 33 + i * w + w \<le> 33 + j * w \<or> 33 + j * w + w \<le> (33 + i * w :: nat)"
proof -
  assume "i \<noteq> j"
  then have "Suc i \<le> j \<or> Suc j \<le> i" by auto
  then have "Suc i * w \<le> j * w \<or> Suc j * w \<le> i * w" using mult_le_mono1 by blast
  then show ?thesis by auto
qed

lemma cell_move:
  "cell w (mem_move p (33 + dst * w) (33 + src * w) (n * w)) i = (if dst \<le> i \<and> i < dst + n then cell w p (i - dst + src) else cell w p i)"
proof (cases "dst \<le> i \<and> i < dst + n")
  case True
  then obtain j where j: "i = dst + j" "j < n" by (metis le_Suc_ex nat_add_left_cancel_less)
  have jw: "j * w + w \<le> n * w" using j(2) mult_le_mono1 [of "Suc j" n w] by simp
  have "33 + i * w = 33 + dst * w + j * w" by (simp add: j algebra_simps)
  then have "cell w (mem_move p (33 + dst * w) (33 + src * w) (n * w)) i = take w (drop (j * w) (mem_read p (33 + src * w) (n * w)))"
    using jw unfolding cell_def mem_move_def by (subst mem_read_write_part) auto
  also have "\<dots> = mem_read p (33 + (j + src) * w) w"
    using jw by (simp add: mem_read_drop mem_read_take algebra_simps)
  finally show ?thesis using True j by (simp add: cell_def)
next
  case False
  then have "Suc i \<le> dst \<or> dst + n \<le> i" by auto
  then have "Suc i * w \<le> dst * w \<or> (dst + n) * w \<le> i * w" using mult_le_mono1 by blast
  then have "33 + i * w + w \<le> 33 + dst * w \<or> 33 + dst * w + n * w \<le> 33 + i * w" by (auto simp: algebra_simps)
  then show ?thesis using False unfolding cell_def mem_move_def by (subst mem_read_write_other) auto
qed

section \<open>The view of a leaf\<close>

type_synonym entry = "int \<times> rid"

definition leaf_entry :: "buffer \<Rightarrow> nat \<Rightarrow> entry" where
  "leaf_entry p i = (leaf_get_key p i, leaf_get_rid p i)"

definition leaf_entries :: "buffer \<Rightarrow> entry list" where
  "leaf_entries p = map (leaf_entry p) [0..<nat (bp_node_get_size p)]"

definition is_leaf_page :: "buffer \<Rightarrow> bool" where
  "is_leaf_page p \<longleftrightarrow> bp_node_get_type p = BP_NODE_TYPE_LEAF \<and> 0 \<le> bp_node_get_size p \<and> bp_node_get_size p \<le> 254"

definition entry_of :: "byte list \<Rightarrow> entry" where
  "entry_of bs = (to_signed 64 (le_nat (take 8 bs)),
     \<lparr>rid_page = to_signed 32 (le_nat (take 4 (drop 8 bs))), rid_slot = to_signed 32 (le_nat (take 4 (drop 12 bs)))\<rparr>)"

lemma leaf_entry_bytes: "leaf_entry p i = entry_of (cell 16 p i)"
  by (simp add: leaf_entry_def entry_of_def cell_def leaf_get_key_def leaf_get_rid_def get_s_def get_u_def
      mem_read_take mem_read_drop leaf_key_offset_def leaf_rid_offset_def add.assoc)

lemma leaf_entry_move:
  "leaf_entry (mem_move p (leaf_key_offset dst) (leaf_key_offset src) (n * 16)) i =
     (if dst \<le> i \<and> i < dst + n then leaf_entry p (i - dst + src) else leaf_entry p i)"
  unfolding leaf_key_offset_def by (simp add: leaf_entry_bytes cell_move)

definition entry_ok :: "entry \<Rightarrow> bool" where
  "entry_ok e \<longleftrightarrow> in_range 64 (fst e) \<and> in_range 32 (rid_page (snd e)) \<and> in_range 32 (rid_slot (snd e))"

lemmas leaf_fields = leaf_get_key_def leaf_set_key_def leaf_get_rid_def leaf_set_rid_def leaf_key_offset_def leaf_rid_offset_def
  leaf_get_next_page_def leaf_set_next_page_def bp_node_get_type_def bp_node_set_type_def bp_node_get_size_def bp_node_set_size_def

lemma leaf_entry_set:
  assumes "entry_ok (k, r)"
  shows "leaf_entry (leaf_set_rid (leaf_set_key p pos k) pos r) i = (if i = pos then (k, r) else leaf_entry p i)"
proof (cases "i = pos")
  case True
  then show ?thesis using assms by (simp add: leaf_entry_def leaf_fields entry_ok_def mem_simps)
next
  case False
  then have "33 + i * 16 + 16 \<le> 33 + pos * 16 \<or> 33 + pos * 16 + 16 \<le> 33 + i * 16" by arith
  then show ?thesis using False by (auto simp: leaf_entry_def leaf_fields mem_simps)
qed

text \<open>What the entries leave alone: the bytes before them.\<close>

definition same_below :: "nat \<Rightarrow> buffer \<Rightarrow> buffer \<Rightarrow> bool" where
  "same_below n p q \<longleftrightarrow> (\<forall>i < n. p i = q i)"

lemma same_below_get: "same_below m p q \<Longrightarrow> off + n \<le> m \<Longrightarrow> get_u n p off = get_u n q off"
  "same_below m p q \<Longrightarrow> off + n \<le> m \<Longrightarrow> get_s n p off = get_s n q off"
  by (auto simp: same_below_def get_s_def get_u_def intro!: arg_cong [of _ _ le_nat] arg_cong [of _ _ "to_signed _"] mem_read_cong)

lemma same_below_leaf_put: "same_below 33 (leaf_put p pos k r) p"
  by (auto simp: same_below_def leaf_put_def Let_def leaf_fields mem_move_def mem_simps)

lemma same_below_leaf_move: "same_below 33 (mem_move p (leaf_key_offset i) src n) p"
  by (auto simp: same_below_def leaf_fields mem_move_def mem_simps)

lemma leaf_header_same:
  assumes "same_below 33 p q"
  shows "bp_node_get_type p = bp_node_get_type q" "bp_node_get_size p = bp_node_get_size q" "leaf_get_next_page p = leaf_get_next_page q"
  using same_below_get [OF assms] by (simp_all add: leaf_fields)

lemma leaf_entry_set_size [simp]: "leaf_entry (bp_node_set_size p n) i = leaf_entry p i"
  by (simp add: leaf_entry_def leaf_fields mem_simps)

lemma leaf_header_set_size [simp]:
  "bp_node_get_type (bp_node_set_size p n) = bp_node_get_type p" "leaf_get_next_page (bp_node_set_size p n) = leaf_get_next_page p"
  "in_range 32 n \<Longrightarrow> bp_node_get_size (bp_node_set_size p n) = n"
  by (simp_all add: leaf_fields mem_simps)

lemma length_leaf_entries [simp]: "length (leaf_entries p) = nat (bp_node_get_size p)"
  by (simp add: leaf_entries_def)

lemma leaf_entries_nth: "i < length (leaf_entries p) \<Longrightarrow> leaf_entries p ! i = leaf_entry p i"
  by (simp add: leaf_entries_def)

text \<open>Putting an entry among those of a leaf, and counting it.\<close>

lemma leaf_put_entries:
  assumes pos: "pos \<le> nat (bp_node_get_size p)" and n: "0 \<le> bp_node_get_size p" "bp_node_get_size p < 1000" and e: "entry_ok (k, r)"
  shows "leaf_entries (bp_node_set_size (leaf_put p pos k r) (bp_node_get_size p + 1)) = take pos (leaf_entries p) @ (k, r) # drop pos (leaf_entries p)"
proof (rule nth_equalityI)
  let ?n = "bp_node_get_size p"
  let ?q = "bp_node_set_size (leaf_put p pos k r) (?n + 1)"
  have r: "in_range 32 (?n + 1)" using n by (simp add: in_range_def)
  then have len: "length (leaf_entries ?q) = nat ?n + 1" using n(1) by simp
  then show "length (leaf_entries ?q) = length (take pos (leaf_entries p) @ (k, r) # drop pos (leaf_entries p))" using pos by simp
  fix i assume "i < length (leaf_entries ?q)"
  then have i: "i < nat ?n + 1" "leaf_entries ?q ! i = leaf_entry (leaf_put p pos k r) i" using len leaf_entries_nth [of i ?q] by simp_all
  have "leaf_entry (leaf_put p pos k r) i = (if i < pos then leaf_entry p i else if i = pos then (k, r) else leaf_entry p (i - 1))"
    using i(1) pos by (auto simp: leaf_put_def Let_def leaf_entry_set [OF e] leaf_entry_move)
  then show "leaf_entries ?q ! i = (take pos (leaf_entries p) @ (k, r) # drop pos (leaf_entries p)) ! i"
    using i pos by (auto simp: nth_append leaf_entries_nth nth_Cons')
qed

lemma leaf_remove_entries:
  assumes pos: "int pos < bp_node_get_size p" and n: "bp_node_get_size p < 1000" and q: "leaf_remove p pos = (rc, q)"
  shows "rc = 0" "leaf_entries q = take pos (leaf_entries p) @ drop (pos + 1) (leaf_entries p)" "same_below 25 q p"
    "bp_node_get_size q = bp_node_get_size p - 1" "leaf_get_next_page q = leaf_get_next_page p"
proof -
  let ?n = "bp_node_get_size p"
  let ?m = "if int pos < ?n - 1 then mem_move p (leaf_key_offset pos) (leaf_key_offset (pos + 1)) (nat (?n - int pos - 1) * 16) else p"
  have q': "q = bp_node_set_size ?m (?n - 1)" "rc = 0" using q pos by (simp_all add: leaf_remove_def Let_def)
  have r: "in_range 32 (?n - 1)" using n pos by (simp add: in_range_def)
  have sb: "same_below 33 ?m p" using same_below_leaf_move by (auto simp: same_below_def)
  show "rc = 0" by fact
  show size: "bp_node_get_size q = ?n - 1" using r by (simp add: q'(1))
  show "leaf_get_next_page q = leaf_get_next_page p" unfolding q'(1) leaf_header_set_size by (rule leaf_header_same [OF sb])
  show "same_below 25 q p" using sb by (auto simp: q'(1) same_below_def bp_node_set_size_def mem_simps)
  show "leaf_entries q = take pos (leaf_entries p) @ drop (pos + 1) (leaf_entries p)"
  proof (rule nth_equalityI)
    show "length (leaf_entries q) = length (take pos (leaf_entries p) @ drop (pos + 1) (leaf_entries p))" using pos by (simp add: size)
    fix i assume "i < length (leaf_entries q)"
    then have i: "i < nat ?n - 1" "leaf_entries q ! i = leaf_entry ?m i" using pos leaf_entries_nth [of i q] by (simp_all add: size) (simp add: q'(1))
    have "leaf_entry ?m i = (if i < pos then leaf_entry p i else leaf_entry p (i + 1))"
      using i(1) by (auto simp: leaf_entry_move)
    then show "leaf_entries q ! i = (take pos (leaf_entries p) @ drop (pos + 1) (leaf_entries p)) ! i"
      using i pos by (auto simp: nth_append leaf_entries_nth)
  qed
qed

section \<open>The binary searches\<close>

text \<open>On a sorted array both return the number of keys before the key.\<close>

lemma mid_less: "lo < (hi::nat) \<Longrightarrow> lo \<le> lo + (hi - lo) div 2 \<and> lo + (hi - lo) div 2 < hi"
  by auto

lemma leaf_search_count:
  assumes s: "\<And>i j. i < j \<Longrightarrow> j < n \<Longrightarrow> leaf_get_key p i < leaf_get_key p j"
  shows "lo \<le> hi \<Longrightarrow> hi \<le> n \<Longrightarrow> \<forall>i < lo. leaf_get_key p i < key \<Longrightarrow> \<forall>i < n. hi \<le> i \<longrightarrow> key \<le> leaf_get_key p i \<Longrightarrow>
    leaf_search p key lo hi \<le> n \<and> (\<forall>i < n. leaf_get_key p i < key \<longleftrightarrow> i < leaf_search p key lo hi)"
  using s
proof (induction p key lo hi rule: leaf_search.induct)
  case (1 p key lo hi)
  let ?m = "lo + (hi - lo) div 2"
  show ?case
  proof (cases "lo < hi")
    case True
    note m = mid_less [OF True]
    show ?thesis
    proof (cases "leaf_get_key p ?m < key")
      case l: True
      have "leaf_get_key p i < key" if "i < ?m + 1" for i
        using l 1(7) [of i ?m] m 1(4) that by (cases "i = ?m") auto
      then have "\<forall>i < ?m + 1. leaf_get_key p i < key" by blast
      then show ?thesis using 1(1) [OF True refl l] 1(4,6,7) m True l by (simp add: leaf_search.simps [of p key lo hi] Let_def)
    next
      case g: False
      have "key \<le> leaf_get_key p i" if "i < n" "?m \<le> i" for i using g 1(7) [of ?m i] that by (cases "i = ?m") auto
      then have "\<forall>i < n. ?m \<le> i \<longrightarrow> key \<le> leaf_get_key p i" by blast
      then show ?thesis using 1(2) [OF True refl g] 1(4,5,7) m True g by (simp add: leaf_search.simps [of p key lo hi] Let_def)
    qed
  next
    case False
    then have "lo = hi" using 1(3) by simp
    have "leaf_get_key p i < key \<longleftrightarrow> i < lo" if "i < n" for i
    proof (cases "i < lo")
      case True
      then show ?thesis using 1(5) by blast
    next
      case F: False
      then have "\<not> leaf_get_key p i < key" using 1(6) that \<open>lo = hi\<close> unfolding not_less by (simp only: not_less)
      then show ?thesis using F by blast
    qed
    moreover have "leaf_search p key lo hi = lo" using False by (simp add: leaf_search.simps [of p key lo hi])
    ultimately show ?thesis using 1(3,4) by simp
  qed
qed

lemma internal_search_count:
  assumes s: "\<And>i j. i < j \<Longrightarrow> j < n \<Longrightarrow> internal_get_key p i < internal_get_key p j"
  shows "lo \<le> hi \<Longrightarrow> hi \<le> n \<Longrightarrow> \<forall>i < lo. internal_get_key p i \<le> key \<Longrightarrow> \<forall>i < n. hi \<le> i \<longrightarrow> key < internal_get_key p i \<Longrightarrow>
    internal_search p key lo hi \<le> n \<and> (\<forall>i < n. internal_get_key p i \<le> key \<longleftrightarrow> i < internal_search p key lo hi)"
  using s
proof (induction p key lo hi rule: internal_search.induct)
  case (1 p key lo hi)
  let ?m = "lo + (hi - lo) div 2"
  show ?case
  proof (cases "lo < hi")
    case True
    note m = mid_less [OF True]
    show ?thesis
    proof (cases "internal_get_key p ?m \<le> key")
      case l: True
      have "internal_get_key p i \<le> key" if "i < ?m + 1" for i
        using l 1(7) [of i ?m] m 1(4) that by (cases "i = ?m") auto
      then have "\<forall>i < ?m + 1. internal_get_key p i \<le> key" by blast
      then show ?thesis using 1(1) [OF True refl l] 1(4,6,7) m True l by (simp add: internal_search.simps [of p key lo hi] Let_def)
    next
      case g: False
      have "key < internal_get_key p i" if "i < n" "?m \<le> i" for i using g 1(7) [of ?m i] that by (cases "i = ?m") auto
      then have "\<forall>i < n. ?m \<le> i \<longrightarrow> key < internal_get_key p i" by blast
      then show ?thesis using 1(2) [OF True refl g] 1(4,5,7) m True g by (simp add: internal_search.simps [of p key lo hi] Let_def)
    qed
  next
    case False
    then have "lo = hi" using 1(3) by simp
    have "internal_get_key p i \<le> key \<longleftrightarrow> i < lo" if "i < n" for i
    proof (cases "i < lo")
      case True
      then show ?thesis using 1(5) by blast
    next
      case F: False
      then have "\<not> internal_get_key p i \<le> key" using 1(6) that \<open>lo = hi\<close> unfolding not_le by (simp only: not_less)
      then show ?thesis using F by blast
    qed
    moreover have "internal_search p key lo hi = lo" using False by (simp add: internal_search.simps [of p key lo hi])
    ultimately show ?thesis using 1(3,4) by simp
  qed
qed

lemma search_unique:
  assumes "r \<le> length xs" "\<forall>i < length xs. P (xs ! i) \<longleftrightarrow> i < r"
  shows "r = length (filter P xs)" "take r xs = filter P xs" "drop r xs = filter (\<lambda>x. \<not> P x) xs"
proof -
  have t: "\<forall>x \<in> set (take r xs). P x" and d: "\<forall>x \<in> set (drop r xs). \<not> P x" using assms by (auto simp: in_set_conv_nth)
  then have "filter P (take r xs @ drop r xs) = take r xs" "filter (\<lambda>x. \<not> P x) (take r xs @ drop r xs) = drop r xs"
    by (simp_all only: filter_append) (simp_all add: filter_id_conv filter_empty_conv)
  then show "take r xs = filter P xs" "drop r xs = filter (\<lambda>x. \<not> P x) xs" by simp_all
  then show "r = length (filter P xs)" using assms(1) by (metis length_take min.absorb2)
qed

lemma leaf_find_position_split:
  assumes s: "sorted_wrt (<) (map fst (leaf_entries p))"
  shows "take (leaf_find_position p key) (leaf_entries p) = filter (\<lambda>e. fst e < key) (leaf_entries p)"
    "drop (leaf_find_position p key) (leaf_entries p) = filter (\<lambda>e. \<not> fst e < key) (leaf_entries p)"
    "leaf_find_position p key \<le> nat (bp_node_get_size p)"
proof -
  let ?n = "nat (bp_node_get_size p)"
  have "\<And>i j. i < j \<Longrightarrow> j < ?n \<Longrightarrow> leaf_get_key p i < leaf_get_key p j"
    using s by (auto simp: sorted_wrt_iff_nth_less leaf_entries_def leaf_entry_def)
  from leaf_search_count [OF this, where lo = 0 and hi = ?n and key = key]
  have c: "leaf_find_position p key \<le> ?n" "\<forall>i < ?n. leaf_get_key p i < key \<longleftrightarrow> i < leaf_find_position p key"
    by (auto simp: leaf_find_position_def)
  then have "\<forall>i < length (leaf_entries p). fst (leaf_entries p ! i) < key \<longleftrightarrow> i < leaf_find_position p key"
    by (simp add: leaf_entries_def leaf_entry_def)
  note u = search_unique [OF _ this]
  show "take (leaf_find_position p key) (leaf_entries p) = filter (\<lambda>e. fst e < key) (leaf_entries p)"
    "drop (leaf_find_position p key) (leaf_entries p) = filter (\<lambda>e. \<not> fst e < key) (leaf_entries p)" using u(2,3) c(1) by simp_all
  show "leaf_find_position p key \<le> ?n" by (rule c)
qed

section \<open>The view of an internal node\<close>

text \<open>The first child, and each key with the child behind it.\<close>

definition internal_pair :: "buffer \<Rightarrow> nat \<Rightarrow> int \<times> int" where
  "internal_pair p i = (internal_get_key p i, internal_get_child p (i + 1))"

definition internal_pairs :: "buffer \<Rightarrow> (int \<times> int) list" where
  "internal_pairs p = map (internal_pair p) [0..<nat (bp_node_get_size p)]"

lemma length_internal_pairs [simp]: "length (internal_pairs p) = nat (bp_node_get_size p)"
  by (simp add: internal_pairs_def)

lemma internal_find_position_count:
  assumes s: "sorted_wrt (<) (map fst (internal_pairs p))"
  shows "internal_find_position p key = length (filter (\<lambda>e. fst e \<le> key) (internal_pairs p))"
    "take (internal_find_position p key) (internal_pairs p) = filter (\<lambda>e. fst e \<le> key) (internal_pairs p)"
    "internal_find_position p key \<le> nat (bp_node_get_size p)"
proof -
  let ?n = "nat (bp_node_get_size p)"
  have "\<And>i j. i < j \<Longrightarrow> j < ?n \<Longrightarrow> internal_get_key p i < internal_get_key p j"
    using s by (auto simp: sorted_wrt_iff_nth_less internal_pairs_def internal_pair_def)
  from internal_search_count [OF this, where lo = 0 and hi = ?n and key = key]
  have c: "internal_find_position p key \<le> ?n" "\<forall>i < ?n. internal_get_key p i \<le> key \<longleftrightarrow> i < internal_find_position p key"
    by (auto simp: internal_find_position_def)
  then have "\<forall>i < length (internal_pairs p). fst (internal_pairs p ! i) \<le> key \<longleftrightarrow> i < internal_find_position p key"
    by (simp add: internal_pairs_def internal_pair_def)
  note u = search_unique [OF _ this]
  show "internal_find_position p key = length (filter (\<lambda>e. fst e \<le> key) (internal_pairs p))"
    "take (internal_find_position p key) (internal_pairs p) = filter (\<lambda>e. fst e \<le> key) (internal_pairs p)" using u c(1) by simp_all
  show "internal_find_position p key \<le> ?n" by (rule c)
qed

definition pair_of :: "byte list \<Rightarrow> int \<times> int" where
  "pair_of bs = (to_signed 64 (le_nat (take 8 bs)), to_signed 32 (le_nat (take 4 (drop 8 bs))))"

lemma internal_pair_bytes: "internal_pair p i = pair_of (cell 12 p i)"
  by (simp add: internal_pair_def pair_of_def cell_def internal_get_key_def internal_get_child_def get_s_def get_u_def
      mem_read_take mem_read_drop internal_key_offset_def internal_child_offset_def add.assoc)

lemmas internal_fields = internal_get_key_def internal_set_key_def internal_get_child_def internal_set_child_def
  internal_key_offset_def internal_child_offset_def bp_node_get_type_def bp_node_set_type_def bp_node_get_size_def bp_node_set_size_def

lemma internal_pair_set:
  assumes "in_range 64 k" "in_range 32 c"
  shows "internal_pair (internal_set_child (internal_set_key p pos k) (pos + 1) c) i = (if i = pos then (k, c) else internal_pair p i)"
proof (cases "i = pos")
  case True
  then show ?thesis using assms by (simp add: internal_pair_def internal_fields mem_simps)
next
  case False
  then show ?thesis using cell_apart [of i pos 12] by (auto simp: internal_pair_def internal_fields mem_simps)
qed

lemma internal_pair_set_size [simp]: "internal_pair (bp_node_set_size p n) i = internal_pair p i"
  by (simp add: internal_pair_def internal_fields mem_simps)

lemma internal_put_pairs:
  assumes pos: "pos \<le> nat (bp_node_get_size p)" and n: "0 \<le> bp_node_get_size p" "bp_node_get_size p < 1000"
    and e: "in_range 64 k" "in_range 32 c"
  shows "internal_pairs (bp_node_set_size (internal_put p pos k c) (bp_node_get_size p + 1)) = take pos (internal_pairs p) @ (k, c) # drop pos (internal_pairs p)"
    "same_below 25 (bp_node_set_size (internal_put p pos k c) (bp_node_get_size p + 1)) p"
    "internal_get_child (bp_node_set_size (internal_put p pos k c) (bp_node_get_size p + 1)) 0 = internal_get_child p 0"
    "bp_node_get_size (bp_node_set_size (internal_put p pos k c) (bp_node_get_size p + 1)) = bp_node_get_size p + 1"
proof -
  let ?n = "bp_node_get_size p"
  let ?q = "bp_node_set_size (internal_put p pos k c) (?n + 1)"
  have r: "in_range 32 (?n + 1)" using n by (simp add: in_range_def)
  have move: "internal_child_offset (nat ?n) + 4 - internal_key_offset pos = (nat ?n - pos) * 12"
    using pos by (simp add: internal_fields algebra_simps)
  let ?m = "mem_move p (33 + (pos + 1) * 12) (33 + pos * 12) ((nat ?n - pos) * 12)"
  have put: "internal_put p pos k c = internal_set_child (internal_set_key ?m pos k) (pos + 1) c"
    unfolding internal_put_def Let_def move by (simp add: internal_key_offset_def add.assoc [symmetric])
  have sb: "same_below 33 (internal_put p pos k c) p"
    unfolding put by (auto simp: same_below_def internal_fields mem_move_def mem_simps)
  show "same_below 25 ?q p" using sb by (auto simp: same_below_def bp_node_set_size_def mem_simps)
  show "internal_get_child ?q 0 = internal_get_child p 0"
    using same_below_get(2) [OF sb, of 29 4] by (simp add: internal_fields mem_simps)
  show len: "bp_node_get_size ?q = ?n + 1" using r by simp
  show "internal_pairs ?q = take pos (internal_pairs p) @ (k, c) # drop pos (internal_pairs p)"
  proof (rule nth_equalityI)
    show "length (internal_pairs ?q) = length (take pos (internal_pairs p) @ (k, c) # drop pos (internal_pairs p))" using len pos n by simp
    fix i assume "i < length (internal_pairs ?q)"
    then have i: "i < nat ?n + 1" "internal_pairs ?q ! i = internal_pair (internal_put p pos k c) i"
      using len n by (simp_all add: nat_add_distrib internal_pairs_def del: length_internal_pairs upt_Suc)
    have m: "internal_pair ?m i = (if pos + 1 \<le> i \<and> i < pos + 1 + (nat ?n - pos) then internal_pair p (i - (pos + 1) + pos) else internal_pair p i)"
      unfolding internal_pair_bytes cell_move by (rule if_distrib)
    have "internal_pair (internal_put p pos k c) i = (if i < pos then internal_pair p i else if i = pos then (k, c) else internal_pair p (i - 1))"
      unfolding put internal_pair_set [OF e] m using i(1) pos by auto
    then show "internal_pairs ?q ! i = (take pos (internal_pairs p) @ (k, c) # drop pos (internal_pairs p)) ! i"
      using i pos by (auto simp: nth_append internal_pairs_def nth_Cons')
  qed
qed

end
