(* ===== verification/Bpt.thy ===== *)
theory Bpt
  imports Bpt_Node Bpm_Heap
begin

text \<open>
  The B+ tree on the buffer pool, \<open>src/index/b_plus_tree.c\<close> and \<open>index_iterator.c\<close>. None is a result outside defined behaviour
  or a run that does not return: a NULL page dereferenced, the path array of 64 entries or the data of a page written past its end.
  Pages are pinned and unpinned as in the code, which leaves the leaf that \<open>find_leaf\<close> returns pinned. The path is kept with the
  parent of the leaf first.

  The record has the fields of \<open>b_plus_tree_t\<close> but the pointer to the pool, which is passed along. \<open>bpt_destroy\<close> does nothing.
\<close>

section \<open>Finding a leaf\<close>

record b_plus_tree =
  bt_index :: int
  bt_root :: int
  bt_unique :: bool

type_synonym path = "(int \<times> nat) list"

text \<open>A change of the page that a pointer points into.\<close>

definition on_frame :: "nat \<Rightarrow> (buffer \<Rightarrow> buffer) \<Rightarrow> bpm \<Rightarrow> bpm" where
  "on_frame f g b = frame_write f (g (frame_data b f)) b"

definition init_leaf_page :: "buffer \<Rightarrow> buffer" where
  "init_leaf_page d =
     leaf_set_next_page (bp_node_set_size (bp_node_set_type (mem_write d 0 (replicate PAGE_SIZE 0)) BP_NODE_TYPE_LEAF) 0) INVALID_PAGE_ID"

definition init_internal_page :: "buffer \<Rightarrow> buffer" where
  "init_internal_page d = bp_node_set_size (bp_node_set_type (mem_write d 0 (replicate PAGE_SIZE 0)) BP_NODE_TYPE_INTERNAL) 0"

partial_function (option) find_leaf :: "int \<Rightarrow> int \<Rightarrow> path \<Rightarrow> bpm \<Rightarrow> (int \<times> path \<times> bpm) option" where
  "find_leaf current key path b =
     (case bpm_fetch_page current b of
        None \<Rightarrow> None
      | Some (None, b) \<Rightarrow> Some (INVALID_PAGE_ID, path, b)
      | Some (Some f, b) \<Rightarrow>
          let d = frame_data b f in
          if bp_node_get_type d = BP_NODE_TYPE_LEAF then Some (current, path, b)
          else
            let child_idx = internal_find_position d key; child = internal_get_child d child_idx in
            if length path \<ge> 64 then None
            else
              case unpin current False b of
                None \<Rightarrow> None
              | Some b \<Rightarrow> find_leaf child key ((current, child_idx) # path) b)"

definition bpt_init :: "int \<Rightarrow> int \<Rightarrow> bool \<Rightarrow> bpm \<Rightarrow> ((error_code + b_plus_tree) \<times> bpm) option" where
  "bpt_init iid root unique b =
     (if root = INVALID_PAGE_ID then
        case bpm_new_page b of
          None \<Rightarrow> None
        | Some (None, b) \<Rightarrow> Some (Inl DB_OUT_OF_MEMORY, b)
        | Some (Some (new_pid, f), b) \<Rightarrow>
            map_option (Pair (Inr \<lparr>bt_index = iid, bt_root = new_pid, bt_unique = unique\<rparr>))
              (unpin new_pid True (on_frame f init_leaf_page b))
      else Some (Inr \<lparr>bt_index = iid, bt_root = root, bt_unique = unique\<rparr>, b))"

text \<open>The search for the leaf, and the leaf fetched again: its id, its frame and the path, None for a page that is not found.\<close>

definition fetch_leaf :: "b_plus_tree \<Rightarrow> int \<Rightarrow> bpm \<Rightarrow> ((int \<times> nat \<times> path) option \<times> bpm) option" where
  "fetch_leaf tree key b =
     (case find_leaf (bt_root tree) key [] b of
        None \<Rightarrow> None
      | Some (leaf_pid, path, b) \<Rightarrow>
          if leaf_pid = INVALID_PAGE_ID then Some (None, b)
          else map_option (\<lambda>(f, b). (map_option (\<lambda>f. (leaf_pid, f, path)) f, b)) (bpm_fetch_page leaf_pid b))"

definition bpt_find :: "b_plus_tree \<Rightarrow> int \<Rightarrow> bpm \<Rightarrow> ((error_code + rid) \<times> bpm) option" where
  "bpt_find tree key b =
     (case fetch_leaf tree key b of
        None \<Rightarrow> None
      | Some (None, b) \<Rightarrow> Some (Inl DB_PAGE_NOT_FOUND, b)
      | Some (Some (leaf_pid, f, path), b) \<Rightarrow>
          let d = frame_data b f; pos = leaf_find_position d key in
          map_option (Pair (if int pos < bp_node_get_size d \<and> leaf_get_key d pos = key then Inr (leaf_get_rid d pos)
                            else Inl DB_PAGE_NOT_FOUND))
            (unpin leaf_pid False b))"

section \<open>Splitting\<close>

text \<open>The loops that copy the entries, and the pairs with their first child, from mid on.\<close>

definition copy_leaf :: "nat \<Rightarrow> nat \<Rightarrow> nat \<Rightarrow> nat \<Rightarrow> bpm \<Rightarrow> bpm" where
  "copy_leaf f g mid n b =
     foldl (\<lambda>b i. let d = frame_data b f in
              on_frame g (\<lambda>p. leaf_set_rid (leaf_set_key p i (leaf_get_key d (mid + i))) i (leaf_get_rid d (mid + i))) b) b [0..<n]"

definition copy_internal :: "nat \<Rightarrow> nat \<Rightarrow> nat \<Rightarrow> nat \<Rightarrow> bpm \<Rightarrow> bpm" where
  "copy_internal f g mid n b =
     foldl (\<lambda>b i. let d = frame_data b f in
              on_frame g (\<lambda>p. internal_set_child (internal_set_key p i (internal_get_key d (mid + 1 + i))) (i + 1)
                                (internal_get_child d (mid + 1 + i + 1))) b)
       (on_frame g (\<lambda>p. internal_set_child p 0 (internal_get_child (frame_data b f) (mid + 1))) b) [0..<n]"

text \<open>The promoted key and the new sibling; sizes are not negative.\<close>

definition split_leaf :: "int \<Rightarrow> bpm \<Rightarrow> ((int \<times> int) \<times> bpm) option" where
  "split_leaf leaf_pid b =
     (case bpm_fetch_page leaf_pid b of
        Some (Some f, b) \<Rightarrow>
          let size = bp_node_get_size (frame_data b f); mid = size div 2 in
          (case bpm_new_page b of
             Some (Some (new_pid, g), b) \<Rightarrow>
               let b = on_frame g init_leaf_page b;
                   right_count = size - mid;
                   b = copy_leaf f g (nat mid) (nat right_count) b;
                   b = on_frame g (\<lambda>d. bp_node_set_size d right_count) b;
                   promoted_key = leaf_get_key (frame_data b g) 0;
                   b = on_frame f (\<lambda>d. bp_node_set_size d mid) b;
                   b = on_frame g (\<lambda>d. leaf_set_next_page d (leaf_get_next_page (frame_data b f))) b;
                   b = on_frame f (\<lambda>d. leaf_set_next_page d new_pid) b
               in map_option (Pair (promoted_key, new_pid)) (Option.bind (unpin leaf_pid True b) (unpin new_pid True))
           | _ \<Rightarrow> None)
      | _ \<Rightarrow> None)"

text \<open>The second half of a split of an internal node with n keys in frame f; early says that the promoted key is read before the
  sibling gets its page.\<close>

definition split_internal_at :: "bool \<Rightarrow> int \<Rightarrow> nat \<Rightarrow> int \<Rightarrow> bpm \<Rightarrow> ((int \<times> int) \<times> bpm) option" where
  "split_internal_at early pid f n b =
     (let mid = n div 2; early_key = internal_get_key (frame_data b f) (nat mid) in
      case bpm_new_page b of
        Some (Some (new_pid, g), b) \<Rightarrow>
          let b = on_frame g init_internal_page b;
              promoted_key = (if early then early_key else internal_get_key (frame_data b f) (nat mid));
              right_count = n - mid - 1;
              b = copy_internal f g (nat mid) (nat right_count) b;
              b = on_frame g (\<lambda>d. bp_node_set_size d right_count) b;
              b = on_frame f (\<lambda>d. bp_node_set_size d mid) b
          in map_option (Pair (promoted_key, new_pid)) (Option.bind (unpin pid True b) (unpin new_pid True))
      | _ \<Rightarrow> None)"

definition split_internal :: "int \<Rightarrow> bpm \<Rightarrow> ((int \<times> int) \<times> bpm) option" where
  "split_internal pid b =
     (case bpm_fetch_page pid b of
        Some (Some f, b) \<Rightarrow> split_internal_at False pid f (bp_node_get_size (frame_data b f)) b
      | _ \<Rightarrow> None)"

fun insert_into_parent :: "b_plus_tree \<Rightarrow> path \<Rightarrow> int \<Rightarrow> int \<Rightarrow> int \<Rightarrow> bpm \<Rightarrow> (error_code \<times> b_plus_tree \<times> bpm) option" where
  "insert_into_parent tree [] left_pid key right_pid b =
     (case bpm_new_page b of
        None \<Rightarrow> None
      | Some (None, b) \<Rightarrow> Some (DB_OUT_OF_MEMORY, tree, b)
      | Some (Some (new_root_pid, f), b) \<Rightarrow>
          let b = on_frame f (\<lambda>d. bp_node_set_size (internal_set_child (internal_set_key (internal_set_child
                      (init_internal_page d) 0 left_pid) 0 key) 1 right_pid) 1) b
          in map_option (\<lambda>b. (DB_OK, tree\<lparr>bt_root := new_root_pid\<rparr>, b)) (unpin new_root_pid True b))"
| "insert_into_parent tree ((parent_pid, insert_pos) # path) left_pid key right_pid b =
     (case bpm_fetch_page parent_pid b of
        Some (Some f, b) \<Rightarrow>
          let size = bp_node_get_size (frame_data b f) in
          if size < internal_max_keys then
            map_option (\<lambda>b. (DB_OK, tree, b))
              (unpin parent_pid True (on_frame f (\<lambda>d. snd (internal_insert d insert_pos key right_pid)) b))
          else if internal_key_offset (nat size + 1) > PAGE_SIZE then None
          else
            (case split_internal_at True parent_pid f (size + 1)
                    (on_frame f (\<lambda>d. bp_node_set_size (internal_put d insert_pos key right_pid) (size + 1)) b) of
               None \<Rightarrow> None
             | Some ((promoted_key, new_pid), b) \<Rightarrow> insert_into_parent tree path parent_pid promoted_key new_pid b)
      | _ \<Rightarrow> None)"

section \<open>Inserting and removing\<close>

definition bpt_insert :: "b_plus_tree \<Rightarrow> int \<Rightarrow> rid \<Rightarrow> bpm \<Rightarrow> (error_code \<times> b_plus_tree \<times> bpm) option" where
  "bpt_insert tree key r b =
     (case fetch_leaf tree key b of
        None \<Rightarrow> None
      | Some (None, b) \<Rightarrow> Some (DB_INTERNAL_ERROR, tree, b)
      | Some (Some (leaf_pid, f, path), b) \<Rightarrow>
          let d = frame_data b f; size = bp_node_get_size d; pos = leaf_find_position d key in
          if int pos < size \<and> leaf_get_key d pos = key then
            (case unpin leaf_pid False b of
               None \<Rightarrow> None
             | Some b \<Rightarrow>
                 if bt_unique tree then Some (DB_DUPLICATE_KEY, tree, b)
                 else map_option (\<lambda>b. (DB_OK, tree, b)) (unpin leaf_pid True (on_frame f (\<lambda>d. leaf_set_rid d pos r) b)))
          else if size < leaf_max_keys then
            map_option (\<lambda>b. (DB_OK, tree, b)) (unpin leaf_pid True (on_frame f (\<lambda>d. snd (leaf_insert d pos key r)) b))
          else if leaf_key_offset (nat size + 1) > PAGE_SIZE then None
          else
            (case unpin leaf_pid True (on_frame f (\<lambda>d. bp_node_set_size (leaf_put d pos key r) (size + 1)) b) of
               None \<Rightarrow> None
             | Some b \<Rightarrow>
                 (case split_leaf leaf_pid b of
                    None \<Rightarrow> None
                  | Some ((promoted_key, sibling_pid), b) \<Rightarrow> insert_into_parent tree path leaf_pid promoted_key sibling_pid b)))"

definition bpt_remove :: "b_plus_tree \<Rightarrow> int \<Rightarrow> bpm \<Rightarrow> (error_code \<times> bpm) option" where
  "bpt_remove tree key b =
     (case fetch_leaf tree key b of
        None \<Rightarrow> None
      | Some (None, b) \<Rightarrow> Some (DB_PAGE_NOT_FOUND, b)
      | Some (Some (leaf_pid, f, path), b) \<Rightarrow>
          let d = frame_data b f; pos = leaf_find_position d key in
          if int pos \<ge> bp_node_get_size d \<or> leaf_get_key d pos \<noteq> key then map_option (Pair DB_PAGE_NOT_FOUND) (unpin leaf_pid False b)
          else map_option (Pair DB_OK) (unpin leaf_pid True (on_frame f (\<lambda>d. snd (leaf_remove d pos)) b)))"

section \<open>Ranges\<close>

text \<open>The walk along the leaves; the results are collected in rs.\<close>

partial_function (option) range_walk :: "int \<Rightarrow> int \<Rightarrow> int \<Rightarrow> int \<Rightarrow> rid list \<Rightarrow> bpm \<Rightarrow> (rid list \<times> bpm) option" where
  "range_walk leaf_pid low high current rs b =
     (if current = INVALID_PAGE_ID then Some (rs, b)
      else
        case bpm_fetch_page current b of
          None \<Rightarrow> None
        | Some (None, b) \<Rightarrow> Some (rs, b)
        | Some (Some f, b) \<Rightarrow>
            let d = frame_data b f; next_pid = leaf_get_next_page d;
                start_pos = (if current = leaf_pid then leaf_find_position d low else 0);
                es = drop start_pos (leaf_entries d);
                inside = takeWhile (\<lambda>e. fst e \<le> high) es
            in case unpin current False b of
                 None \<Rightarrow> None
               | Some b \<Rightarrow>
                   if length inside < length es then Some (rs @ map snd inside, b)
                   else range_walk leaf_pid low high next_pid (rs @ map snd inside) b)"

definition bpt_find_range :: "b_plus_tree \<Rightarrow> int \<Rightarrow> int \<Rightarrow> rid list \<Rightarrow> bpm \<Rightarrow> (rid list \<times> bpm) option" where
  "bpt_find_range tree low high results b =
     (case find_leaf (bt_root tree) low [] b of
        None \<Rightarrow> None
      | Some (leaf_pid, path, b) \<Rightarrow> range_walk leaf_pid low high leaf_pid results b)"

section \<open>The iterator\<close>

record index_iterator =
  it_page :: int
  it_index :: nat
  it_high :: int
  it_exhausted :: bool

partial_function (option) find_leaf_page :: "int \<Rightarrow> int \<Rightarrow> bpm \<Rightarrow> (int \<times> bpm) option" where
  "find_leaf_page current key b =
     (case bpm_fetch_page current b of
        None \<Rightarrow> None
      | Some (None, b) \<Rightarrow> Some (INVALID_PAGE_ID, b)
      | Some (Some f, b) \<Rightarrow>
          let d = frame_data b f in
          if bp_node_get_type d = BP_NODE_TYPE_LEAF then Some (current, b)
          else
            case unpin current False b of
              None \<Rightarrow> None
            | Some b \<Rightarrow> find_leaf_page (internal_get_child d (internal_find_position d key)) key b)"

definition index_iterator_init :: "int \<Rightarrow> int \<Rightarrow> int \<Rightarrow> bpm \<Rightarrow> (index_iterator \<times> bpm) option" where
  "index_iterator_init root start_key high_key b =
     (case find_leaf_page root start_key b of
        None \<Rightarrow> None
      | Some (pid, b) \<Rightarrow>
          let it = \<lparr>it_page = pid, it_index = 0, it_high = high_key, it_exhausted = False\<rparr> in
          if pid = INVALID_PAGE_ID then Some (it\<lparr>it_exhausted := True\<rparr>, b)
          else
            case bpm_fetch_page pid b of
              None \<Rightarrow> None
            | Some (None, b) \<Rightarrow> Some (it\<lparr>it_exhausted := True\<rparr>, b)
            | Some (Some f, b) \<Rightarrow>
                let d = frame_data b f; idx = leaf_find_position d start_key; nxt = leaf_get_next_page d in
                map_option (\<lambda>b.
                  (if int idx \<ge> bp_node_get_size d then
                     if nxt = INVALID_PAGE_ID then it\<lparr>it_index := idx, it_exhausted := True, it_page := INVALID_PAGE_ID\<rparr>
                     else it\<lparr>it_page := nxt, it_index := 0\<rparr>
                   else it\<lparr>it_index := idx\<rparr>, b))
                  (unpin pid False b))"

text \<open>The entry at the index, or the end; the page is unpinned either way.\<close>

definition iterator_entry :: "index_iterator \<Rightarrow> nat \<Rightarrow> bpm \<Rightarrow> (entry option \<times> index_iterator \<times> bpm) option" where
  "iterator_entry it f b =
     (let d = frame_data b f; i = it_index it in
      map_option
        (\<lambda>b. if int i \<ge> bp_node_get_size d \<or> leaf_get_key d i > it_high it then (None, it\<lparr>it_exhausted := True\<rparr>, b)
             else (Some (leaf_get_key d i, leaf_get_rid d i), it\<lparr>it_index := i + 1\<rparr>, b))
        (unpin (it_page it) False b))"

definition index_iterator_next :: "index_iterator \<Rightarrow> bpm \<Rightarrow> (entry option \<times> index_iterator \<times> bpm) option" where
  "index_iterator_next it b =
     (if it_exhausted it then Some (None, it, b)
      else
        case bpm_fetch_page (it_page it) b of
          None \<Rightarrow> None
        | Some (None, b) \<Rightarrow> Some (None, it\<lparr>it_exhausted := True\<rparr>, b)
        | Some (Some f, b) \<Rightarrow>
            let d = frame_data b f in
            if int (it_index it) \<ge> bp_node_get_size d then
              let nxt = leaf_get_next_page d in
              (case unpin (it_page it) False b of
                 None \<Rightarrow> None
               | Some b \<Rightarrow>
                   if nxt = INVALID_PAGE_ID then Some (None, it\<lparr>it_exhausted := True, it_page := INVALID_PAGE_ID\<rparr>, b)
                   else
                     let it = it\<lparr>it_page := nxt, it_index := 0\<rparr> in
                     case bpm_fetch_page nxt b of
                       None \<Rightarrow> None
                     | Some (None, b) \<Rightarrow> Some (None, it\<lparr>it_exhausted := True\<rparr>, b)
                     | Some (Some f, b) \<Rightarrow> iterator_entry it f b)
            else iterator_entry it f b)"

text \<open>\<open>index_iterator_destroy\<close>; the pointer to the pool is not a field here.\<close>

definition index_iterator_destroy :: "index_iterator \<Rightarrow> index_iterator" where
  "index_iterator_destroy it = it\<lparr>it_exhausted := True, it_page := INVALID_PAGE_ID\<rparr>"

end
