(* ===== verification/Bpt_Spec.thy ===== *)
theory Bpt_Spec
  imports Bpt
begin

text \<open>
  What the B+ tree promises: on the pages of a well-formed tree, of any height up to the 64 that the path array holds, a lookup, a
  range query, an insertion into a leaf with room and a removal are the operations on a finite map. A leaf that is full is written
  past the end of its page.
\<close>

section \<open>Trees of entries\<close>

text \<open>An internal node is its page, its first child, and its keys with the children behind them.\<close>

datatype bptree = Leaf int "entry list" | Inner int bptree forest
  and forest = Nobody | More int bptree forest

fun page_of :: "bptree \<Rightarrow> int" where
  "page_of (Leaf p es) = p"
| "page_of (Inner p t f) = p"

fun pairs_of :: "forest \<Rightarrow> (int \<times> int) list" where
  "pairs_of Nobody = []"
| "pairs_of (More k t f) = (k, page_of t) # pairs_of f"

primrec leaves :: "bptree \<Rightarrow> (int \<times> entry list) list" and leaves_f :: "forest \<Rightarrow> (int \<times> entry list) list" where
  "leaves (Leaf p es) = [(p, es)]"
| "leaves (Inner p t f) = leaves t @ leaves_f f"
| "leaves_f Nobody = []"
| "leaves_f (More k t f) = leaves t @ leaves_f f"

primrec pages_of :: "bptree \<Rightarrow> int list" and pages_of_f :: "forest \<Rightarrow> int list" where
  "pages_of (Leaf p es) = [p]"
| "pages_of (Inner p t f) = p # pages_of t @ pages_of_f f"
| "pages_of_f Nobody = []"
| "pages_of_f (More k t f) = pages_of t @ pages_of_f f"

primrec height :: "bptree \<Rightarrow> nat" and height_f :: "forest \<Rightarrow> nat" where
  "height (Leaf p es) = 0"
| "height (Inner p t f) = Suc (max (height t) (height_f f))"
| "height_f Nobody = 0"
| "height_f (More k t f) = max (height t) (height_f f)"

definition entries_in :: "(int \<times> entry list) list \<Rightarrow> entry list" where
  "entries_in ls = concat (map snd ls)"

lemma entries_in_simps [simp]:
  "entries_in [] = []" "entries_in (l # ls) = snd l @ entries_in ls" "entries_in (as @ bs) = entries_in as @ entries_in bs"
  by (simp_all add: entries_in_def)

definition tree_entries :: "bptree \<Rightarrow> entry list" where
  "tree_entries t = entries_in (leaves t)"

text \<open>The first key of a forest, or the bound above it; keys between the bounds, those of a leaf increasing.\<close>

fun first_key :: "forest \<Rightarrow> int \<Rightarrow> int" where
  "first_key Nobody hi = hi"
| "first_key (More k t f) hi = k"

definition leaf_between :: "int \<Rightarrow> int \<Rightarrow> entry list \<Rightarrow> bool" where
  "leaf_between lo hi es \<longleftrightarrow> sorted_wrt (<) (map fst es) \<and> (\<forall>e \<in> set es. lo \<le> fst e \<and> fst e < hi)"

primrec ordered :: "bptree \<Rightarrow> int \<Rightarrow> int \<Rightarrow> bool" and ordered_f :: "forest \<Rightarrow> int \<Rightarrow> bool" where
  "ordered (Leaf p es) lo hi \<longleftrightarrow> leaf_between lo hi es"
| "ordered (Inner p t f) lo hi \<longleftrightarrow> lo < first_key f hi \<and> ordered t lo (first_key f hi) \<and> ordered_f f hi"
| "ordered_f Nobody hi \<longleftrightarrow> True"
| "ordered_f (More k t f) hi \<longleftrightarrow> k < first_key f hi \<and> ordered t k (first_key f hi) \<and> ordered_f f hi"

text \<open>The leaf for a key, and a tree with that leaf changed.\<close>

fun goes :: "int \<Rightarrow> forest \<Rightarrow> bool" where
  "goes key Nobody \<longleftrightarrow> False"
| "goes key (More k t f) \<longleftrightarrow> k \<le> key"

primrec leaf_for :: "bptree \<Rightarrow> int \<Rightarrow> int \<times> entry list" and leaf_for_f :: "forest \<Rightarrow> int \<Rightarrow> int \<times> entry list" where
  "leaf_for (Leaf p es) key = (p, es)"
| "leaf_for (Inner p t f) key = (if goes key f then leaf_for_f f key else leaf_for t key)"
| "leaf_for_f Nobody key = (INVALID_PAGE_ID, [])"
| "leaf_for_f (More k t f) key = (if goes key f then leaf_for_f f key else leaf_for t key)"

primrec change :: "bptree \<Rightarrow> int \<Rightarrow> (entry list \<Rightarrow> entry list) \<Rightarrow> bptree"
  and change_f :: "forest \<Rightarrow> int \<Rightarrow> (entry list \<Rightarrow> entry list) \<Rightarrow> forest" where
  "change (Leaf p es) key g = Leaf p (g es)"
| "change (Inner p t f) key g = (if goes key f then Inner p t (change_f f key g) else Inner p (change t key g) f)"
| "change_f Nobody key g = Nobody"
| "change_f (More k t f) key g = (if goes key f then More k t (change_f f key g) else More k (change t key g) f)"

section \<open>Trees in the pool\<close>

definition leaf_at :: "(int \<Rightarrow> buffer option) \<Rightarrow> int \<Rightarrow> entry list \<Rightarrow> bool" where
  "leaf_at V p es \<longleftrightarrow> p \<noteq> INVALID_PAGE_ID \<and> (\<exists>d. V p = Some d \<and> bp_node_get_type d = BP_NODE_TYPE_LEAF \<and>
     0 \<le> bp_node_get_size d \<and> bp_node_get_size d \<le> leaf_max_keys \<and> leaf_entries d = es)"

definition inner_at :: "(int \<Rightarrow> buffer option) \<Rightarrow> int \<Rightarrow> int \<Rightarrow> (int \<times> int) list \<Rightarrow> bool" where
  "inner_at V p c kcs \<longleftrightarrow> (\<exists>d. V p = Some d \<and> bp_node_get_type d = BP_NODE_TYPE_INTERNAL \<and>
     internal_get_child d 0 = c \<and> internal_pairs d = kcs)"

primrec stored :: "bptree \<Rightarrow> (int \<Rightarrow> buffer option) \<Rightarrow> bool" and stored_f :: "forest \<Rightarrow> (int \<Rightarrow> buffer option) \<Rightarrow> bool" where
  "stored (Leaf p es) V \<longleftrightarrow> leaf_at V p es"
| "stored (Inner p t f) V \<longleftrightarrow> inner_at V p (page_of t) (pairs_of f) \<and> stored t V \<and> stored_f f V"
| "stored_f Nobody V \<longleftrightarrow> True"
| "stored_f (More k t f) V \<longleftrightarrow> stored t V \<and> stored_f f V"

text \<open>Each leaf names the next.\<close>

fun linked :: "(int \<Rightarrow> buffer option) \<Rightarrow> int list \<Rightarrow> bool" where
  "linked V [] \<longleftrightarrow> True"
| "linked V (p # ps) \<longleftrightarrow> map_option leaf_get_next_page (V p) = Some (if ps = [] then INVALID_PAGE_ID else hd ps) \<and> linked V ps"

abbreviation KEY_MIN :: int where "KEY_MIN \<equiv> - (2 ^ 63)"
abbreviation KEY_END :: int where "KEY_END \<equiv> 2 ^ 63"

definition tree_ok :: "(int \<Rightarrow> buffer option) \<Rightarrow> bptree \<Rightarrow> bool" where
  "tree_ok V t \<longleftrightarrow> stored t V \<and> ordered t KEY_MIN KEY_END \<and> distinct (pages_of t) \<and> linked V (map fst (leaves t)) \<and> height t \<le> 64"

text \<open>From outside: the finite map from keys to rids.\<close>

abbreviation tree_map :: "bptree \<Rightarrow> int \<rightharpoonup> rid" where
  "tree_map t \<equiv> map_of (tree_entries t)"

section \<open>Order\<close>

lemma ordered_f_first: "ordered_f f hi \<Longrightarrow> first_key f hi \<le> hi"
  by (induction f rule: pairs_of.induct) auto

lemma ordered_bounds:
  "ordered t lo hi \<Longrightarrow> e \<in> set (entries_in (leaves t)) \<Longrightarrow> lo \<le> fst e \<and> fst e < hi"
  "ordered_f f hi \<Longrightarrow> e \<in> set (entries_in (leaves_f f)) \<Longrightarrow> first_key f hi \<le> fst e \<and> fst e < hi"
proof (induction t and f arbitrary: lo hi and hi)
  case (Inner p t f)
  have o: "ordered t lo (first_key f hi)" "ordered_f f hi" "lo < first_key f hi" using Inner.prems(1) by simp_all
  consider "e \<in> set (entries_in (leaves t))" | "e \<in> set (entries_in (leaves_f f))" using Inner.prems(2) by auto
  then show ?case using Inner.IH(1) [OF o(1)] Inner.IH(2) [OF o(2)] o(3) ordered_f_first [OF o(2)] by cases fastforce+
next
  case (More k t f)
  have o: "ordered t k (first_key f hi)" "ordered_f f hi" "k < first_key f hi" using More.prems(1) by simp_all
  consider "e \<in> set (entries_in (leaves t))" | "e \<in> set (entries_in (leaves_f f))" using More.prems(2) by auto
  then show ?case using More.IH(1) [OF o(1)] More.IH(2) [OF o(2)] o(3) ordered_f_first [OF o(2)] by cases fastforce+
qed (auto simp: leaf_between_def)

lemma ordered_sorted:
  "ordered t lo hi \<Longrightarrow> sorted_wrt (<) (map fst (entries_in (leaves t)))"
  "ordered_f f hi \<Longrightarrow> sorted_wrt (<) (map fst (entries_in (leaves_f f)))"
proof (induction t and f arbitrary: lo hi and hi)
  case (Inner p t f)
  have "fst x < fst y" if "x \<in> set (entries_in (leaves t))" "y \<in> set (entries_in (leaves_f f))" for x y
    using ordered_bounds(1) [of t lo "first_key f hi", OF _ that(1)] ordered_bounds(2) [of f hi, OF _ that(2)] Inner.prems by auto
  then have "\<forall>x \<in> set (map fst (entries_in (leaves t))). \<forall>y \<in> set (map fst (entries_in (leaves_f f))). x < y" by auto
  then show ?case using Inner.IH(1) [of lo] Inner.IH(2) Inner.prems by (simp add: sorted_wrt_append) blast
next
  case (More k t f)
  have "fst x < fst y" if "x \<in> set (entries_in (leaves t))" "y \<in> set (entries_in (leaves_f f))" for x y
    using ordered_bounds(1) [of t k "first_key f hi", OF _ that(1)] ordered_bounds(2) [of f hi, OF _ that(2)] More.prems by auto
  then have "\<forall>x \<in> set (map fst (entries_in (leaves t))). \<forall>y \<in> set (map fst (entries_in (leaves_f f))). x < y" by auto
  then show ?case using More.IH(1) [of k] More.IH(2) More.prems by (simp add: sorted_wrt_append) blast
qed (auto simp: leaf_between_def)

text \<open>The leaf for a key, with smaller keys before it and greater ones behind, in the tree and in the changed one.\<close>

definition splits :: "int \<Rightarrow> (entry list \<Rightarrow> entry list) \<Rightarrow> (int \<times> entry list) list \<Rightarrow> (int \<times> entry list) list \<Rightarrow> int \<times> entry list \<Rightarrow> bool" where
  "splits key g ls ls' l \<longleftrightarrow>
     (\<exists>pre post. ls = pre @ l # post \<and> ls' = pre @ (fst l, g (snd l)) # post \<and>
        (\<forall>e \<in> set (entries_in pre). fst e < key) \<and> (\<forall>e \<in> set (entries_in post). key < fst e))"

lemma splits_before: "splits key g ls ls' l \<Longrightarrow> \<forall>e \<in> set (entries_in as). fst e < key \<Longrightarrow> splits key g (as @ ls) (as @ ls') l"
  unfolding splits_def by (elim exE, rename_tac pre post, rule_tac x = "as @ pre" in exI, rule_tac x = post in exI) auto

lemma splits_after: "splits key g ls ls' l \<Longrightarrow> \<forall>e \<in> set (entries_in as). key < fst e \<Longrightarrow> splits key g (ls @ as) (ls' @ as) l"
  unfolding splits_def by (elim exE, rename_tac pre post, rule_tac x = pre in exI, rule_tac x = "post @ as" in exI) auto

lemma leaf_splits:
  "ordered t lo hi \<Longrightarrow> splits key g (leaves t) (leaves (change t key g)) (leaf_for t key)"
  "ordered_f f hi \<Longrightarrow> goes key f \<Longrightarrow> splits key g (leaves_f f) (leaves_f (change_f f key g)) (leaf_for_f f key)"
proof (induction t and f arbitrary: lo hi and hi)
  case (Inner p t f)
  have o: "ordered t lo (first_key f hi)" "ordered_f f hi" using Inner.prems by simp_all
  show ?case
  proof (cases "goes key f")
    case True
    then have "first_key f hi \<le> key" by (cases f) auto
    then have "\<forall>e \<in> set (entries_in (leaves t)). fst e < key" using ordered_bounds(1) [OF o(1)] by fastforce
    from splits_before [OF Inner.IH(2) [OF o(2) True] this] show ?thesis using True by simp
  next
    case False
    have "\<forall>e \<in> set (entries_in (leaves_f f)). key < fst e"
      using False ordered_bounds(2) [OF o(2)] by (cases f) fastforce+
    from splits_after [OF Inner.IH(1) [OF o(1)] this] show ?thesis using False by simp
  qed
next
  case (More k t f)
  have o: "ordered t k (first_key f hi)" "ordered_f f hi" using More.prems by simp_all
  show ?case
  proof (cases "goes key f")
    case True
    then have "first_key f hi \<le> key" by (cases f) auto
    then have "\<forall>e \<in> set (entries_in (leaves t)). fst e < key" using ordered_bounds(1) [OF o(1)] by fastforce
    from splits_before [OF More.IH(2) [OF o(2) True] this] show ?thesis using True by simp
  next
    case False
    have "\<forall>e \<in> set (entries_in (leaves_f f)). key < fst e"
      using False ordered_bounds(2) [OF o(2)] by (cases f) fastforce+
    from splits_after [OF More.IH(1) [OF o(1)] this] show ?thesis using False by simp
  qed
next
  case (Leaf p es)
  show ?case by (auto simp: splits_def intro!: exI [of _ "[]"])
qed simp

text \<open>A change of the leaf that adds at most the key itself keeps the order.\<close>

definition keeps_order :: "int \<Rightarrow> (entry list \<Rightarrow> entry list) \<Rightarrow> bool" where
  "keeps_order key g \<longleftrightarrow> (\<forall>lo hi es. leaf_between lo hi es \<longrightarrow> lo \<le> key \<longrightarrow> key < hi \<longrightarrow> leaf_between lo hi (g es))"

lemma first_key_change [simp]: "first_key (change_f f key g) hi = first_key f hi"
  by (cases f) auto

lemma change_ordered:
  assumes g: "keeps_order key g"
  shows "ordered t lo hi \<Longrightarrow> lo \<le> key \<Longrightarrow> key < hi \<Longrightarrow> ordered (change t key g) lo hi"
    "ordered_f f hi \<Longrightarrow> goes key f \<Longrightarrow> key < hi \<Longrightarrow> ordered_f (change_f f key g) hi"
proof (induction t and f arbitrary: lo hi and hi)
  case (Leaf p es)
  then show ?case using g by (simp add: keeps_order_def)
next
  case (Inner p t f)
  then show ?case by (cases f) auto
next
  case (More k t f)
  then show ?case by (cases f) auto
qed auto

lemma page_of_change [simp]: "page_of (change t key g) = page_of t"
  by (cases t) auto

lemma pairs_of_change [simp]: "pairs_of (change_f f key g) = pairs_of f"
  by (induction f rule: pairs_of.induct) auto

lemma pages_of_change [simp]: "pages_of (change t key g) = pages_of t" "pages_of_f (change_f f key g) = pages_of_f f"
  by (induction t and f) auto

lemma height_change [simp]: "height (change t key g) = height t" "height_f (change_f f key g) = height_f f"
  by (induction t and f) auto

section \<open>Descending\<close>

text \<open>The child that the binary search selects.\<close>

fun child_for :: "bptree \<Rightarrow> forest \<Rightarrow> int \<Rightarrow> bptree" where
  "child_for t Nobody key = t"
| "child_for t (More k u f) key = (if k \<le> key then child_for u f key else t)"

lemma pairs_sorted: "ordered_f f hi \<Longrightarrow> sorted_wrt (<) (map fst (pairs_of f)) \<and> (\<forall>k \<in> fst ` set (pairs_of f). first_key f hi \<le> k)"
proof (induction f rule: pairs_of.induct)
  case (2 k t f)
  then show ?case by (cases f) fastforce+
qed simp

lemma child_at:
  "sorted_wrt (<) (map fst (pairs_of f)) \<Longrightarrow>
   (page_of t # map snd (pairs_of f)) ! length (filter (\<lambda>e. fst e \<le> key) (pairs_of f)) = page_of (child_for t f key)"
proof (induction t f key rule: child_for.induct)
  case (2 t k u f key)
  show ?case
  proof (cases "k \<le> key")
    case False
    then have "filter (\<lambda>e. fst e \<le> key) (pairs_of f) = []" using 2(2) by (auto simp: filter_empty_conv)
    then show ?thesis using False by simp
  qed (use 2 in simp)
qed simp

lemma leaf_for_child:
  "leaf_for (Inner p t f) key = leaf_for (child_for t f key) key"
  if "sorted_wrt (<) (map fst (pairs_of f))"
proof -
  have "(if goes key f then leaf_for_f f key else leaf_for t key) = leaf_for (child_for t f key) key"
    using that
  proof (induction t f key rule: child_for.induct)
    case (2 t k u f key)
    have "\<not> k \<le> key \<Longrightarrow> \<not> goes key f" using 2(2) by (cases f) auto
    then show ?case using 2 by auto
  qed simp
  then show ?thesis by simp
qed

lemma child_facts:
  "stored t V \<Longrightarrow> stored_f f V \<Longrightarrow> ordered t lo (first_key f hi) \<Longrightarrow> ordered_f f hi \<Longrightarrow>
   stored (child_for t f key) V \<and> (\<exists>lo' hi'. ordered (child_for t f key) lo' hi') \<and> height (child_for t f key) \<le> max (height t) (height_f f)"
proof (induction t f key arbitrary: lo rule: child_for.induct)
  case (2 t k u f key)
  show ?case
  proof (cases "k \<le> key")
    case True
    have "stored (child_for u f key) V \<and> (\<exists>lo' hi'. ordered (child_for u f key) lo' hi') \<and> height (child_for u f key) \<le> max (height u) (height_f f)"
      by (rule 2(1) [OF True, of k]) (use 2 in simp_all)
    then show ?thesis using True by (auto simp: le_max_iff_disj)
  qed (use 2 in auto)
qed auto

lemma internal_child:
  assumes "inner_at V p (page_of t) (pairs_of f)" "ordered_f f hi" "V p = Some d"
  shows "bp_node_get_type d = BP_NODE_TYPE_INTERNAL" "internal_get_child d (internal_find_position d key) = page_of (child_for t f key)"
proof -
  have d: "bp_node_get_type d = BP_NODE_TYPE_INTERNAL" "internal_get_child d 0 = page_of t" "internal_pairs d = pairs_of f"
    using assms(1,3) by (auto simp: inner_at_def)
  show "bp_node_get_type d = BP_NODE_TYPE_INTERNAL" by fact
  have s: "sorted_wrt (<) (map fst (internal_pairs d))" using pairs_sorted [OF assms(2)] by (simp add: d(3))
  note pos = internal_find_position_count [OF s, of key]
  have "internal_get_child d i = (internal_get_child d 0 # map snd (internal_pairs d)) ! i" if "i \<le> nat (bp_node_get_size d)" for i
    using that by (cases i) (simp_all add: internal_pairs_def internal_pair_def)
  from this [OF pos(3)] show "internal_get_child d (internal_find_position d key) = page_of (child_for t f key)"
    using child_at [of f t key] s by (simp add: d pos(1))
qed

lemma find_leaf_ok:
  assumes "stored t V" "ordered t lo hi" "pool_has V b" "length path + height t \<le> 64"
  shows "\<exists>path' b' f. find_leaf (page_of t) key path b = Some (fst (leaf_for t key), path', b') \<and> pool_le V b b' \<and>
    table_lookup b' (fst (leaf_for t key)) = Some f \<and> 0 < pin_count (pages b' ! f) \<and> leaf_at V (fst (leaf_for t key)) (snd (leaf_for t key))"
  using assms
proof (induction "height t" arbitrary: t lo hi path b rule: less_induct)
  case less
  show ?case
  proof (cases t)
    case (Leaf p es)
    then obtain d where d: "V p = Some d" "bp_node_get_type d = BP_NODE_TYPE_LEAF" "leaf_at V p es" using less.prems(1) by (auto simp: leaf_at_def)
    obtain f b' where f: "bpm_fetch_page p b = Some (Some f, b')" "pool_le V b b'" "table_lookup b' p = Some f" "frame_data b' f = d"
      "0 < pin_count (pages b' ! f)" by (rule pool_fetch [OF less.prems(3) d(1)])
    then show ?thesis using Leaf d by (simp add: find_leaf.simps [of p])
  next
    case (Inner p u g)
    have s: "inner_at V p (page_of u) (pairs_of g)" "stored u V" "stored_f g V" and o: "ordered u lo (first_key g hi)" "ordered_f g hi"
      using less.prems(1,2) Inner by simp_all
    obtain d where d: "V p = Some d" using s(1) by (auto simp: inner_at_def)
    note c = internal_child(1) [OF s(1) o(2) d] internal_child(2) [OF s(1) o(2) d, of key]
    note cf = child_facts [OF s(2,3) o, of key]
    obtain f b1 where f: "bpm_fetch_page p b = Some (Some f, b1)" "pool_le V b b1" "frame_data b1 f = d"
      by (rule pool_fetch [OF less.prems(3) d]) blast
    obtain b2 where b2: "unpin p False b1 = Some b2" "pool_le V b1 b2"
      by (rule pool_unpin [OF conjunct2 [OF pool_le_has [OF f(2)]] d])
    have h: "height (child_for u g key) < height t" "length ((p, internal_find_position d key) # path) + height (child_for u g key) \<le> 64"
      and l: "\<not> 64 \<le> length path" using cf less.prems(4) by (simp_all add: Inner)
    obtain lo' hi' where o': "ordered (child_for u g key) lo' hi'" using cf by blast
    have "find_leaf (page_of t) key path b = find_leaf (page_of (child_for u g key)) key ((p, internal_find_position d key) # path) b2"
      using c f(1,3) b2(1) l by (simp add: Inner find_leaf.simps [of p] Let_def)
    moreover have "leaf_for t key = leaf_for (child_for u g key) key"
      using leaf_for_child [of g p u key] pairs_sorted [OF o(2)] by (simp add: Inner del: leaf_for.simps)
    ultimately show ?thesis
      using less.hyps [OF h(1) _ o' _ h(2), of b2] cf pool_le_has [OF b2(2)] pool_le_trans [OF pool_le_trans [OF f(2) b2(2)]] by fastforce
  qed
qed

lemma pool_frame_less:
  assumes "pool_has V b" "V p = Some d" "table_lookup b p = Some f"
  shows "f < length (pages b)"
proof -
  obtain fr dfl where i: "pool_in V fr dfl b" using assms(1) by (auto simp: pool_has_def)
  then have ok: "bpm_ok b fr dfl" by (simp add: pool_in_def)
  then show ?thesis using bpm_lookup [OF ok pool_in_view(3) [OF i assms(2)]] assms(3) bpm_len [OF ok] by auto
qed

lemma fetch_pins:
  assumes "bpm_fetch_page p b = Some (r, b')" "table_lookup b p = Some f" "f < length (pages b)"
  shows "pin_count (pages b' ! f) = pin_count (pages b ! f) + 1"
  using assms by (auto simp: bpm_fetch_page_def Let_def)

lemma unpin_pins:
  assumes "unpin p dirty b = Some b'" "table_lookup b p = Some f" "f < length (pages b)" "0 < pin_count (pages b ! f)"
  shows "pin_count (pages b' ! f) = pin_count (pages b ! f) - 1"
  using assms by (auto simp: unpin_def bpm_unpin_page_def Let_def split: if_splits)

lemma fetch_leaf_ok:
  assumes t: "tree_ok V t" and h: "pool_has V b"
  obtains p path b' f d where "fetch_leaf \<lparr>bt_index = iid, bt_root = page_of t, bt_unique = un\<rparr> key b = Some (Some (p, f, path), b')"
    "pool_has V b'" "table_lookup b' p = Some f" "1 < pin_count (pages b' ! f)" "frame_data b' f = d" "V p = Some d"
    "leaf_for t key = (p, leaf_entries d)" "leaf_at V p (leaf_entries d)"
proof -
  obtain p es where l: "leaf_for t key = (p, es)" by (cases "leaf_for t key")
  have s: "stored t V" "ordered t KEY_MIN KEY_END" "length ([] :: path) + height t \<le> 64" using t by (simp_all add: tree_ok_def)
  obtain path b1 f where b1: "find_leaf (page_of t) key [] b = Some (p, path, b1)" "pool_le V b b1" "table_lookup b1 p = Some f"
    "0 < pin_count (pages b1 ! f)" "leaf_at V p es"
    using find_leaf_ok [OF s(1,2) h s(3), of key] l by auto
  obtain d where d: "V p = Some d" "leaf_entries d = es" "p \<noteq> INVALID_PAGE_ID" using b1(5) by (auto simp: leaf_at_def)
  have h1: "pool_has V b1" using pool_le_has [OF b1(2)] by simp
  obtain g b2 where b2: "bpm_fetch_page p b1 = Some (Some g, b2)" "pool_le V b1 b2" "table_lookup b2 p = Some g" "frame_data b2 g = d"
    "0 < pin_count (pages b2 ! g)" by (rule pool_fetch [OF h1 d(1)])
  have g: "g = f" using pool_le_lookup [OF b2(2) _ b1(3)] b2(3) d(1) by simp
  have "pin_count (pages b2 ! f) = pin_count (pages b1 ! f) + 1"
    by (rule fetch_pins [OF b2(1) b1(3) pool_frame_less [OF h1 d(1) b1(3)]])
  then show ?thesis
    using that [of p f path b2 d] b1(1,4,5) b2 d l g pool_le_has [OF b2(2)] by (simp add: fetch_leaf_def)
qed

section \<open>The leaf of a key\<close>

lemma leaf_of_key:
  assumes "ordered t lo hi" "leaf_for t key = (p, es)"
  shows "map_of (tree_entries t) key = map_of es key" "sorted_wrt (<) (map fst es)"
    "\<exists>pre post. tree_entries t = pre @ es @ post \<and> tree_entries (change t key g) = pre @ g es @ post \<and>
      (\<forall>e \<in> set pre. fst e < key) \<and> (\<forall>e \<in> set post. key < fst e)"
    "(p, es) \<in> set (leaves t)"
proof -
  obtain pre post where l: "leaves t = pre @ (p, es) # post" "leaves (change t key g) = pre @ (p, g es) # post"
    "\<forall>e \<in> set (entries_in pre). fst e < key" "\<forall>e \<in> set (entries_in post). key < fst e"
    using leaf_splits(1) [OF assms(1), of key g] assms(2) by (auto simp: splits_def)
  then show ex: "\<exists>pre post. tree_entries t = pre @ es @ post \<and> tree_entries (change t key g) = pre @ g es @ post \<and>
      (\<forall>e \<in> set pre. fst e < key) \<and> (\<forall>e \<in> set post. key < fst e)" by (auto simp: tree_entries_def)
  have "map_of (entries_in pre) key = None" "map_of (entries_in post) key = None" using l(3,4) by (fastforce simp: map_of_eq_None_iff)+
  then show "map_of (tree_entries t) key = map_of es key" by (simp add: tree_entries_def l(1) map_add_def split: option.split)
  show "sorted_wrt (<) (map fst es)" using ordered_sorted(1) [OF assms(1)] by (simp add: l(1) sorted_wrt_append)
  show "(p, es) \<in> set (leaves t)" by (simp add: l(1))
qed

lemma map_of_distinct: "sorted_wrt (<) (map fst es) \<Longrightarrow> distinct (map fst (es :: entry list))"
  by (simp add: strict_sorted_iff)

text \<open>What the search finds.\<close>

lemma leaf_lookup:
  assumes s: "sorted_wrt (<) (map fst (leaf_entries d))" and n: "0 \<le> bp_node_get_size d"
  shows "int (leaf_find_position d key) < bp_node_get_size d \<and> leaf_get_key d (leaf_find_position d key) = key \<longleftrightarrow> map_of (leaf_entries d) key \<noteq> None"
    "int (leaf_find_position d key) < bp_node_get_size d \<Longrightarrow> leaf_get_key d (leaf_find_position d key) = key \<Longrightarrow>
      map_of (leaf_entries d) key = Some (leaf_get_rid d (leaf_find_position d key))"
proof -
  let ?es = "leaf_entries d" and ?i = "leaf_find_position d key"
  note f = leaf_find_position_split [OF s, of key]
  have split: "?es = filter (\<lambda>e. fst e < key) ?es @ drop ?i ?es" using f(1) by (metis append_take_drop_id)
  have nth: "?es ! ?i = (leaf_get_key d ?i, leaf_get_rid d ?i)" if "int ?i < bp_node_get_size d"
    using that leaf_entries_nth [of ?i d] by (simp add: leaf_entry_def)
  show r: "map_of ?es key = Some (leaf_get_rid d ?i)" if "int ?i < bp_node_get_size d" "leaf_get_key d ?i = key"
  proof -
    have "(key, leaf_get_rid d ?i) \<in> set ?es" using nth [OF that(1)] that by (metis length_leaf_entries nat_int nth_mem zless_nat_conj zless_nat_eq_int_zless)
    then show ?thesis by (rule map_of_is_SomeI [OF map_of_distinct [OF s]])
  qed
  show "int ?i < bp_node_get_size d \<and> leaf_get_key d ?i = key \<longleftrightarrow> map_of ?es key \<noteq> None"
  proof
    assume "map_of ?es key \<noteq> None"
    then obtain r where "(key, r) \<in> set ?es" by (auto dest: map_of_SomeD)
    then have "(key, r) \<in> set (drop ?i ?es)" using split by (metis (mono_tags, lifting) Un_iff fst_conv less_irrefl mem_Collect_eq set_append set_filter)
    then have i: "?i < length ?es" by (cases "?i < length ?es") auto
    then have l: "int ?i < bp_node_get_size d" using n by (simp add: zless_nat_eq_int_zless)
    have "drop ?i ?es = ?es ! ?i # drop (Suc ?i) ?es" using i by (rule Cons_nth_drop_Suc [symmetric])
    moreover have "sorted_wrt (<) (map fst (drop ?i ?es))" using s by (simp add: sorted_wrt_drop drop_map [symmetric])
    moreover have "key \<le> fst (?es ! ?i)"
    proof -
      have "?es ! ?i \<in> set (drop ?i ?es)" using i calculation(1) by simp
      then show ?thesis unfolding f(2) by simp
    qed
    moreover have "(key, r) = ?es ! ?i \<or> (key, r) \<in> set (drop (Suc ?i) ?es)"
      using \<open>(key, r) \<in> set (drop ?i ?es)\<close> unfolding calculation(1) by simp
    moreover have "\<forall>e \<in> set (drop (Suc ?i) ?es). fst (?es ! ?i) < fst e" using calculation(2) unfolding calculation(1) by simp
    ultimately have "fst (?es ! ?i) = key" by (metis fst_conv not_le)
    then show "int ?i < bp_node_get_size d \<and> leaf_get_key d ?i = key" using l nth [OF l] by simp
  qed (use r in auto)
qed

section \<open>Changing a leaf\<close>

lemma stored_upd_other:
  "p \<notin> set (pages_of t) \<Longrightarrow> stored t (V(p \<mapsto> d)) \<longleftrightarrow> stored t V"
  "p \<notin> set (pages_of_f f) \<Longrightarrow> stored_f f (V(p \<mapsto> d)) \<longleftrightarrow> stored_f f V"
  by (induction t and f) (auto simp: leaf_at_def inner_at_def)

lemma leaf_for_page:
  "fst (leaf_for t key) \<in> set (pages_of t)" "goes key f \<Longrightarrow> fst (leaf_for_f f key) \<in> set (pages_of_f f)"
  by (induction t and f) auto

lemma inner_upd_other: "p \<noteq> q \<Longrightarrow> inner_at (V(q \<mapsto> d)) p c kcs \<longleftrightarrow> inner_at V p c kcs"
  by (simp add: inner_at_def)

lemma stored_change:
  assumes d: "\<And>W es. W p = Some d \<Longrightarrow> leaf_at W p (g es0)"
  shows "stored t V \<Longrightarrow> distinct (pages_of t) \<Longrightarrow> leaf_for t key = (p, es0) \<Longrightarrow> stored (change t key g) (V(p \<mapsto> d))"
    "stored_f f V \<Longrightarrow> goes key f \<Longrightarrow> distinct (pages_of_f f) \<Longrightarrow> leaf_for_f f key = (p, es0) \<Longrightarrow> stored_f (change_f f key g) (V(p \<mapsto> d))"
proof (induction t and f)
  case (Leaf q es)
  have "leaf_at (V(p \<mapsto> d)) p (g es0)" by (rule d) simp
  then show ?case using Leaf by (simp del: fun_upd_apply)
next
  case (Inner q t f)
  show ?case
  proof (cases "goes key f")
    case True
    then have p: "p \<in> set (pages_of_f f)" using leaf_for_page(2) [OF True] Inner.prems(3) by force
    then have "p \<noteq> q" "p \<notin> set (pages_of t)" using Inner.prems(2) by auto
    then show ?thesis using True Inner by (simp add: inner_upd_other stored_upd_other del: fun_upd_apply)
  next
    case False
    then have p: "p \<in> set (pages_of t)" using leaf_for_page(1) [of t key] Inner.prems(3) by force
    then have "p \<noteq> q" "p \<notin> set (pages_of_f f)" using Inner.prems(2) by auto
    then show ?thesis using False Inner by (simp add: inner_upd_other stored_upd_other del: fun_upd_apply)
  qed
next
  case (More k t f)
  show ?case
  proof (cases "goes key f")
    case True
    then have p: "p \<in> set (pages_of_f f)" using leaf_for_page(2) [OF True] More.prems(4) by force
    then have "p \<notin> set (pages_of t)" using More.prems(3) by auto
    then show ?thesis using True More by (simp add: stored_upd_other del: fun_upd_apply)
  next
    case False
    then have p: "p \<in> set (pages_of t)" using leaf_for_page(1) [of t key] More.prems(4) by force
    then have "p \<notin> set (pages_of_f f)" using More.prems(3) by auto
    then show ?thesis using False More by (simp add: stored_upd_other del: fun_upd_apply)
  qed
qed simp

lemma linked_upd:
  assumes "V p = Some d0" "leaf_get_next_page d = leaf_get_next_page d0"
  shows "linked (V(p \<mapsto> d)) ps \<longleftrightarrow> linked V ps"
  using assms by (induction ps) auto

lemma change_leaves: "ordered t lo hi \<Longrightarrow> map fst (leaves (change t key g)) = map fst (leaves t)"
  using leaf_splits(1) [of t lo hi key g] by (auto simp: splits_def)

text \<open>A leaf written back with the entries \<open>g es\<close>.\<close>

lemma change_ok:
  assumes t: "tree_ok V t" and l: "leaf_for t key = (p, leaf_entries d)" and V: "V p = Some d" and k: "in_range 64 key"
    and g: "keeps_order key g" "leaf_entries d' = g (leaf_entries d)" and n: "0 \<le> bp_node_get_size d'" "bp_node_get_size d' \<le> 253"
    and same: "bp_node_get_type d' = bp_node_get_type d" "leaf_get_next_page d' = leaf_get_next_page d" and la: "leaf_at V p (leaf_entries d)"
  shows "tree_ok (V(p \<mapsto> d')) (change t key g)"
proof -
  have o: "stored t V" "ordered t KEY_MIN KEY_END" "distinct (pages_of t)" "linked V (map fst (leaves t))" "height t \<le> 64"
    using t by (simp_all add: tree_ok_def)
  have "leaf_at W p (g (leaf_entries d))" if "W p = Some d'" for W
    using that la V g(2) n same(1) by (auto simp: leaf_at_def)
  then have "stored (change t key g) (V(p \<mapsto> d'))" using stored_change(1) o(1,3) l by blast
  moreover have "ordered (change t key g) KEY_MIN KEY_END" using change_ordered(1) [OF g(1) o(2)] k by (simp add: in_range_def)
  moreover have "linked (V(p \<mapsto> d')) (map fst (leaves (change t key g)))"
    unfolding change_leaves [OF o(2)] linked_upd [of V p d d', OF V same(2)] by (rule o(4))
  ultimately show ?thesis using o(3,5) by (simp add: tree_ok_def)
qed

text \<open>The three changes: a new rid for the key, the key and its rid, and neither.\<close>

definition put_entry :: "int \<Rightarrow> rid \<Rightarrow> entry list \<Rightarrow> entry list" where
  "put_entry key r es = filter (\<lambda>e. fst e < key) es @ (key, r) # filter (\<lambda>e. key < fst e) es"

definition drop_entry :: "int \<Rightarrow> entry list \<Rightarrow> entry list" where
  "drop_entry key es = filter (\<lambda>e. fst e \<noteq> key) es"

lemma map_fst_filter_sorted: "sorted_wrt (<) (map fst es) \<Longrightarrow> sorted_wrt (<) (map fst (filter P es))"
  by (induction es) auto

lemma keeps_order_put: "keeps_order key (put_entry key r)"
  by (auto simp: keeps_order_def leaf_between_def put_entry_def sorted_wrt_append map_fst_filter_sorted)

lemma keeps_order_drop: "keeps_order key (drop_entry key)"
  by (auto simp: keeps_order_def leaf_between_def drop_entry_def map_fst_filter_sorted)

lemma map_of_filter: "map_of (filter (\<lambda>e. P (fst e)) es) k = (if P k then map_of es k else None)"
  by (induction es) auto

lemma map_of_parts:
  assumes "\<forall>e \<in> set pre. fst e < key" "\<forall>e \<in> set post. key < fst (e :: entry)"
  shows "map_of (pre @ put_entry key r es @ post) = (map_of (pre @ es @ post))(key \<mapsto> r)"
    "map_of (pre @ drop_entry key es @ post) = (map_of (pre @ es @ post))(key := None)"
proof -
  have out: "map_of pre key = None" "map_of post key = None" using assms by (fastforce simp: map_of_eq_None_iff)+
  have p: "map_of (put_entry key r es) k = (if k = key then Some r else map_of es k)" for k
    unfolding put_entry_def map_of_append map_add_def map_of.simps map_of_filter [where P = "\<lambda>x. x < key"] map_of_filter [where P = "\<lambda>x. key < x"]
    by (auto simp: map_of_filter [where P = "\<lambda>x. key < x"] split: option.split)
  have d: "map_of (drop_entry key es) k = (if k = key then None else map_of es k)" for k
    unfolding drop_entry_def map_of_filter [where P = "\<lambda>x. x \<noteq> key"] by simp
  show "map_of (pre @ put_entry key r es @ post) = (map_of (pre @ es @ post))(key \<mapsto> r)"
    "map_of (pre @ drop_entry key es @ post) = (map_of (pre @ es @ post))(key := None)"
    using out by (auto simp: fun_eq_iff map_add_def p d split: option.split)
qed

lemma change_map:
  assumes t: "tree_ok V t" and l: "leaf_for t key = (p, es)"
  shows "map_of (tree_entries (change t key (put_entry key r))) = (map_of (tree_entries t))(key \<mapsto> r)"
    "map_of (tree_entries (change t key (drop_entry key))) = (map_of (tree_entries t))(key := None)"
proof -
  have o: "ordered t KEY_MIN KEY_END" using t by (simp add: tree_ok_def)
  from leaf_of_key(3) [OF o l, of "put_entry key r"] map_of_parts(1)
  show "map_of (tree_entries (change t key (put_entry key r))) = (map_of (tree_entries t))(key \<mapsto> r)" by (elim exE conjE) presburger
  from leaf_of_key(3) [OF o l, of "drop_entry key"] map_of_parts(2)
  show "map_of (tree_entries (change t key (drop_entry key))) = (map_of (tree_entries t))(key := None)" by (elim exE conjE) presburger
qed

section \<open>The operations\<close>

text \<open>The new contents of the leaf.\<close>

lemma put_new_entry:
  assumes s: "sorted_wrt (<) (map fst (leaf_entries d))" and n: "0 \<le> bp_node_get_size d" "bp_node_get_size d < 253"
    and new: "map_of (leaf_entries d) key = None" and e: "entry_ok (key, r)"
  defines "d' \<equiv> snd (leaf_insert d (leaf_find_position d key) key r)"
  shows "leaf_entries d' = put_entry key r (leaf_entries d)" "bp_node_get_size d' = bp_node_get_size d + 1"
    "bp_node_get_type d' = bp_node_get_type d" "leaf_get_next_page d' = leaf_get_next_page d"
proof -
  let ?i = "leaf_find_position d key"
  note f = leaf_find_position_split [OF s, of key]
  have d': "d' = bp_node_set_size (leaf_put d ?i key r) (bp_node_get_size d + 1)" using n by (simp add: d'_def leaf_insert_def Let_def)
  have "filter (\<lambda>e. \<not> fst e < key) (leaf_entries d) = filter (\<lambda>e. key < fst e) (leaf_entries d)"
    using new by (intro filter_cong) (auto simp: map_of_eq_None_iff order_less_le image_iff)
  then show "leaf_entries d' = put_entry key r (leaf_entries d)"
    using leaf_put_entries [OF f(3) n(1) _ e] n f(1,2) by (simp add: d' put_entry_def)
  have r: "in_range 32 (bp_node_get_size d + 1)" using n by (simp add: in_range_def)
  show "bp_node_get_size d' = bp_node_get_size d + 1" using r by (simp add: d')
  show "bp_node_get_type d' = bp_node_get_type d" "leaf_get_next_page d' = leaf_get_next_page d"
    using leaf_header_same [OF same_below_leaf_put] by (simp_all add: d')
qed

lemma same_below_set_rid: "same_below 33 (leaf_set_rid p i r) p"
  by (auto simp: same_below_def leaf_fields mem_simps)

lemma leaf_entry_set_rid:
  assumes "in_range 32 (rid_page r)" "in_range 32 (rid_slot r)"
  shows "leaf_entry (leaf_set_rid p pos r) i = (if i = pos then (leaf_get_key p pos, r) else leaf_entry p i)"
proof (cases "i = pos")
  case True
  then show ?thesis using assms by (simp add: leaf_entry_def leaf_fields mem_simps)
next
  case False
  then show ?thesis using cell_apart [of i pos 16] by (auto simp: leaf_entry_def leaf_fields mem_simps)
qed

lemma put_old_entry:
  assumes s: "sorted_wrt (<) (map fst (leaf_entries d))" and e: "entry_ok (key, r)"
    and i: "int (leaf_find_position d key) < bp_node_get_size d" "leaf_get_key d (leaf_find_position d key) = key"
  defines "d' \<equiv> leaf_set_rid d (leaf_find_position d key) r"
  shows "leaf_entries d' = put_entry key r (leaf_entries d)" "bp_node_get_size d' = bp_node_get_size d"
    "bp_node_get_type d' = bp_node_get_type d" "leaf_get_next_page d' = leaf_get_next_page d"
proof -
  let ?i = "leaf_find_position d key" and ?es = "leaf_entries d"
  note f = leaf_find_position_split [OF s, of key]
  show same: "bp_node_get_size d' = bp_node_get_size d" "bp_node_get_type d' = bp_node_get_type d" "leaf_get_next_page d' = leaf_get_next_page d"
    unfolding d'_def using leaf_header_same [OF same_below_set_rid] by simp_all
  have il: "?i < length ?es" using i(1) by simp
  have nth: "fst (?es ! ?i) = key" using i(2) leaf_entries_nth [OF il] by (simp add: leaf_entry_def)
  have upd: "leaf_entries d' = ?es[?i := (key, r)]"
  proof (rule nth_equalityI)
    fix j assume "j < length (leaf_entries d')"
    then have "j < length ?es" "leaf_entries d' ! j = leaf_entry d' j" using leaf_entries_nth [of j d'] same(1) by simp_all
    then show "leaf_entries d' ! j = ?es[?i := (key, r)] ! j"
      using leaf_entry_set_rid [of r d ?i j] e i(2) il by (cases "j = ?i") (simp_all add: d'_def entry_ok_def leaf_entries_nth)
  qed (simp add: same(1))
  have d: "drop ?i ?es = ?es ! ?i # drop (Suc ?i) ?es" using il by (rule Cons_nth_drop_Suc [symmetric])
  have "sorted_wrt (<) (map fst (drop ?i ?es))" using s by (simp add: sorted_wrt_drop drop_map [symmetric])
  then have gt: "\<forall>e \<in> set (drop (Suc ?i) ?es). key < fst e" using nth unfolding d by simp
  have "?es = take ?i ?es @ ?es ! ?i # drop (Suc ?i) ?es" by (rule id_take_nth_drop [OF il])
  then have "filter (\<lambda>e. key < fst e) ?es = filter (\<lambda>e. key < fst e) (take ?i ?es @ ?es ! ?i # drop (Suc ?i) ?es)" by (rule arg_cong)
  also have "\<dots> = drop (Suc ?i) ?es"
  proof -
    have "filter (\<lambda>e. key < fst e) (take ?i ?es) = []" unfolding f(1) by (auto simp: filter_empty_conv)
    moreover have "filter (\<lambda>e. key < fst e) (drop (Suc ?i) ?es) = drop (Suc ?i) ?es" using gt by (simp add: filter_id_conv)
    ultimately show ?thesis using nth by simp
  qed
  finally show "leaf_entries d' = put_entry key r ?es"
    using f(1) il by (simp add: upd put_entry_def upd_conv_take_nth_drop)
qed

lemma drop_old_entry:
  assumes s: "sorted_wrt (<) (map fst (leaf_entries d))" and n: "bp_node_get_size d \<le> 253"
    and i: "int (leaf_find_position d key) < bp_node_get_size d" "leaf_get_key d (leaf_find_position d key) = key"
  defines "d' \<equiv> snd (leaf_remove d (leaf_find_position d key))"
  shows "leaf_entries d' = drop_entry key (leaf_entries d)" "bp_node_get_size d' = bp_node_get_size d - 1"
    "bp_node_get_type d' = bp_node_get_type d" "leaf_get_next_page d' = leaf_get_next_page d"
proof -
  let ?i = "leaf_find_position d key" and ?es = "leaf_entries d"
  note f = leaf_find_position_split [OF s, of key]
  obtain rc where rc: "leaf_remove d ?i = (rc, d')" by (metis d'_def prod.collapse)
  note r = leaf_remove_entries [OF i(1) _ rc]
  show "bp_node_get_size d' = bp_node_get_size d - 1" "leaf_get_next_page d' = leaf_get_next_page d" using r(4,5) n by simp_all
  show "bp_node_get_type d' = bp_node_get_type d" using same_below_get(1) [OF r(3), of 24 1] n by (simp add: bp_node_get_type_def)
  have il: "?i < length ?es" using i(1) by simp
  have nth: "fst (?es ! ?i) = key" using i(2) leaf_entries_nth [OF il] by (simp add: leaf_entry_def)
  have d: "drop ?i ?es = ?es ! ?i # drop (Suc ?i) ?es" using il by (rule Cons_nth_drop_Suc [symmetric])
  have "sorted_wrt (<) (map fst (drop ?i ?es))" using s by (simp add: sorted_wrt_drop drop_map [symmetric])
  then have gt: "\<forall>e \<in> set (drop (Suc ?i) ?es). key < fst e" using nth unfolding d by simp
  have "?es = take ?i ?es @ ?es ! ?i # drop (Suc ?i) ?es" by (rule id_take_nth_drop [OF il])
  then have "drop_entry key ?es = drop_entry key (take ?i ?es @ ?es ! ?i # drop (Suc ?i) ?es)" by (rule arg_cong)
  also have "\<dots> = take ?i ?es @ drop (Suc ?i) ?es"
  proof -
    have "drop_entry key (take ?i ?es) = take ?i ?es" unfolding f(1) drop_entry_def by (auto intro!: filter_cong)
    moreover have "drop_entry key (drop (Suc ?i) ?es) = drop (Suc ?i) ?es" unfolding drop_entry_def using gt by (auto simp: filter_id_conv)
    ultimately show ?thesis using nth by (simp add: drop_entry_def)
  qed
  finally show "leaf_entries d' = drop_entry key ?es" using r(2) n by simp
qed

lemma bpt_find_ok:
  assumes t: "tree_ok V t" and h: "pool_has V b"
  shows "\<exists>b'. bpt_find \<lparr>bt_index = iid, bt_root = page_of t, bt_unique = un\<rparr> key b =
    Some (case map_of (tree_entries t) key of None \<Rightarrow> Inl DB_PAGE_NOT_FOUND | Some r \<Rightarrow> Inr r, b') \<and> pool_has V b'"
proof -
  obtain p path b1 f d where l: "fetch_leaf \<lparr>bt_index = iid, bt_root = page_of t, bt_unique = un\<rparr> key b = Some (Some (p, f, path), b1)"
    "pool_has V b1" "frame_data b1 f = d" "V p = Some d" "leaf_for t key = (p, leaf_entries d)" "leaf_at V p (leaf_entries d)"
    by (rule fetch_leaf_ok [OF t h]) blast
  have o: "ordered t KEY_MIN KEY_END" using t by (simp add: tree_ok_def)
  have n: "0 \<le> bp_node_get_size d" using l(4,6) by (auto simp: leaf_at_def)
  obtain b2 where b2: "unpin p False b1 = Some b2" "pool_le V b1 b2" by (rule pool_unpin [OF l(2,4)])
  note m = leaf_of_key(1) [OF o l(5)] leaf_lookup [OF leaf_of_key(2) [OF o l(5)] n, of key]
  have "(if int (leaf_find_position d key) < bp_node_get_size d \<and> leaf_get_key d (leaf_find_position d key) = key
      then Inr (leaf_get_rid d (leaf_find_position d key)) else Inl DB_PAGE_NOT_FOUND) =
    (case map_of (tree_entries t) key of None \<Rightarrow> Inl DB_PAGE_NOT_FOUND | Some r \<Rightarrow> Inr r)"
    using m by (cases "map_of (leaf_entries d) key") auto
  moreover have "bpt_find \<lparr>bt_index = iid, bt_root = page_of t, bt_unique = un\<rparr> key b =
    Some (if int (leaf_find_position d key) < bp_node_get_size d \<and> leaf_get_key d (leaf_find_position d key) = key
      then Inr (leaf_get_rid d (leaf_find_position d key)) else Inl DB_PAGE_NOT_FOUND, b2)"
    using l(1,3) b2(1) by (simp add: bpt_find_def Let_def)
  ultimately show ?thesis using pool_le_has [OF b2(2)] by (intro exI [of _ b2]) (simp only:)
qed

lemma bpt_remove_ok:
  assumes t: "tree_ok V t" and h: "pool_has V b" and k: "in_range 64 key"
  shows "\<exists>b' V' t'. bpt_remove \<lparr>bt_index = iid, bt_root = page_of t, bt_unique = un\<rparr> key b =
      Some (if map_of (tree_entries t) key = None then DB_PAGE_NOT_FOUND else DB_OK, b') \<and>
    pool_has V' b' \<and> tree_ok V' t' \<and> page_of t' = page_of t \<and> map_of (tree_entries t') = (map_of (tree_entries t))(key := None) \<and>
    (\<forall>q. q \<notin> set (pages_of t) \<longrightarrow> V' q = V q)"
proof -
  note lp = leaf_for_page(1) [of t key]
  obtain p path b1 f d where l: "fetch_leaf \<lparr>bt_index = iid, bt_root = page_of t, bt_unique = un\<rparr> key b = Some (Some (p, f, path), b1)"
    "pool_has V b1" "table_lookup b1 p = Some f" "1 < pin_count (pages b1 ! f)" "frame_data b1 f = d" "V p = Some d"
    "leaf_for t key = (p, leaf_entries d)" "leaf_at V p (leaf_entries d)"
    by (rule fetch_leaf_ok [OF t h]) blast
  have o: "ordered t KEY_MIN KEY_END" using t by (simp add: tree_ok_def)
  have n: "0 \<le> bp_node_get_size d" "bp_node_get_size d \<le> 253" using l(6,8) by (auto simp: leaf_at_def)
  note s = leaf_of_key(2) [OF o l(7)]
  note m = leaf_of_key(1) [OF o l(7)] leaf_lookup [OF s n(1), of key]
  show ?thesis
  proof (cases "map_of (tree_entries t) key")
    case None
    obtain b2 where b2: "unpin p False b1 = Some b2" "pool_le V b1 b2" by (rule pool_unpin [OF l(2,6)])
    have "int (leaf_find_position d key) \<ge> bp_node_get_size d \<or> leaf_get_key d (leaf_find_position d key) \<noteq> key" using m None by auto
    then have "bpt_remove \<lparr>bt_index = iid, bt_root = page_of t, bt_unique = un\<rparr> key b = Some (DB_PAGE_NOT_FOUND, b2)"
      using l(1,5) b2(1) by (simp add: bpt_remove_def Let_def)
    then show ?thesis using None t pool_le_has [OF b2(2)] by (intro exI [of _ b2] exI [of _ V] exI [of _ t]) auto
  next
    case (Some r)
    then have i: "int (leaf_find_position d key) < bp_node_get_size d" "leaf_get_key d (leaf_find_position d key) = key" using m by auto
    let ?d = "snd (leaf_remove d (leaf_find_position d key))"
    note e = drop_old_entry [OF s n(2) i]
    obtain b2 where b2: "unpin p True (frame_write f ?d b1) = Some b2" "pool_has (V(p \<mapsto> ?d)) b2"
      by (rule pool_write [OF l(2,6,3)]) (use l(4) in auto)
    have "tree_ok (V(p \<mapsto> ?d)) (change t key (drop_entry key))"
      by (rule change_ok [OF t l(7,6) k keeps_order_drop e(1) _ _ e(3,4) l(8)]) (use e(2) n i(1) in simp_all)
    moreover have "bpt_remove \<lparr>bt_index = iid, bt_root = page_of t, bt_unique = un\<rparr> key b = Some (DB_OK, b2)"
      using l(1,5) b2(1) i by (simp add: bpt_remove_def Let_def on_frame_def)
    ultimately show ?thesis using Some b2(2) change_map(2) [OF t l(7)] lp l(7)
      by (intro exI [of _ b2] exI [of _ "V(p \<mapsto> ?d)"] exI [of _ "change t key (drop_entry key)"]) auto
  qed
qed

lemma bpt_insert_ok:
  fixes iid :: int and un :: bool
  assumes t: "tree_ok V t" and h: "pool_has V b" and k: "entry_ok (key, r)"
  defines "tree \<equiv> \<lparr>bt_index = iid, bt_root = page_of t, bt_unique = un\<rparr>"
  shows "map_of (tree_entries t) key \<noteq> None \<Longrightarrow> un \<Longrightarrow> \<exists>b'. bpt_insert tree key r b = Some (DB_DUPLICATE_KEY, tree, b') \<and> pool_has V b'"
    "map_of (tree_entries t) key \<noteq> None \<and> \<not> un \<or> map_of (tree_entries t) key = None \<and> length (snd (leaf_for t key)) < 253 \<Longrightarrow>
      \<exists>b' V' t'. bpt_insert tree key r b = Some (DB_OK, tree, b') \<and> pool_has V' b' \<and> tree_ok V' t' \<and> page_of t' = page_of t \<and>
        map_of (tree_entries t') = (map_of (tree_entries t))(key \<mapsto> r) \<and> (\<forall>q. q \<notin> set (pages_of t) \<longrightarrow> V' q = V q)"
    "map_of (tree_entries t) key = None \<Longrightarrow> length (snd (leaf_for t key)) \<ge> 253 \<Longrightarrow> bpt_insert tree key r b = None"
proof -
  obtain p path b1 f d where l: "fetch_leaf tree key b = Some (Some (p, f, path), b1)"
    "pool_has V b1" "table_lookup b1 p = Some f" "1 < pin_count (pages b1 ! f)" "frame_data b1 f = d" "V p = Some d"
    "leaf_for t key = (p, leaf_entries d)" "leaf_at V p (leaf_entries d)"
    unfolding tree_def by (rule fetch_leaf_ok [OF t h]) blast
  have o: "ordered t KEY_MIN KEY_END" using t by (simp add: tree_ok_def)
  have n: "0 \<le> bp_node_get_size d" "bp_node_get_size d \<le> 253" using l(6,8) by (auto simp: leaf_at_def)
  note s = leaf_of_key(2) [OF o l(7)]
  note m = leaf_of_key(1) [OF o l(7)] leaf_lookup [OF s n(1), of key]
  have un: "bt_unique tree = un" by (simp add: tree_def)
  have kr: "in_range 64 key" using k by (simp add: entry_ok_def)
  let ?i = "leaf_find_position d key"
  have found: "map_of (tree_entries t) key \<noteq> None \<longleftrightarrow> int ?i < bp_node_get_size d \<and> leaf_get_key d ?i = key" using m(1,2) by simp
  note f1 = pool_frame_less [OF l(2,6,3)]
  obtain b2 where b2: "unpin p False b1 = Some b2" "pool_le V b1 b2" "table_lookup b2 = table_lookup b1" by (rule pool_unpin [OF l(2,6)])
  have h2: "pool_has V b2" using pool_le_has [OF b2(2)] by simp
  have change: "pool_has (V(p \<mapsto> d')) b3 \<Longrightarrow> leaf_entries d' = put_entry key r (leaf_entries d) \<Longrightarrow>
      bp_node_get_size d' \<in> {bp_node_get_size d, bp_node_get_size d + 1} \<Longrightarrow> bp_node_get_size d' \<le> 253 \<Longrightarrow> bp_node_get_type d' = bp_node_get_type d \<Longrightarrow>
      leaf_get_next_page d' = leaf_get_next_page d \<Longrightarrow>
      \<exists>V' t'. pool_has V' b3 \<and> tree_ok V' t' \<and> page_of t' = page_of t \<and> map_of (tree_entries t') = (map_of (tree_entries t))(key \<mapsto> r) \<and>
        (\<forall>q. q \<notin> set (pages_of t) \<longrightarrow> V' q = V q)" for d' b3
    using change_ok [OF t l(7,6) kr keeps_order_put [of key r], of d'] l(8) n(1) change_map(1) [OF t l(7)] leaf_for_page(1) [of t key] l(7)
    by (intro exI [of _ "V(p \<mapsto> d')"] exI [of _ "change t key (put_entry key r)"]) auto
  show "\<exists>b'. bpt_insert tree key r b = Some (DB_DUPLICATE_KEY, tree, b') \<and> pool_has V b'" if "map_of (tree_entries t) key \<noteq> None" un
  proof -
    have "bpt_insert tree key r b = Some (DB_DUPLICATE_KEY, tree, b2)"
      using that(1) [unfolded found] that(2) l(1,5) b2(1) un by (simp add: bpt_insert_def Let_def)
    then show ?thesis using h2 by blast
  qed
  show "bpt_insert tree key r b = None" if "map_of (tree_entries t) key = None" "length (snd (leaf_for t key)) \<ge> 253"
  proof -
    have "\<not> (int ?i < bp_node_get_size d \<and> leaf_get_key d ?i = key)" using that(1) found by blast
    moreover have "bp_node_get_size d = 253" using that(2) n by (simp add: l(7))
    ultimately show ?thesis using l(1,5) by (auto simp: bpt_insert_def Let_def leaf_key_offset_def)
  qed
  show "\<exists>b' V' t'. bpt_insert tree key r b = Some (DB_OK, tree, b') \<and> pool_has V' b' \<and> tree_ok V' t' \<and> page_of t' = page_of t \<and>
        map_of (tree_entries t') = (map_of (tree_entries t))(key \<mapsto> r) \<and> (\<forall>q. q \<notin> set (pages_of t) \<longrightarrow> V' q = V q)"
    if c: "map_of (tree_entries t) key \<noteq> None \<and> \<not> un \<or> map_of (tree_entries t) key = None \<and> length (snd (leaf_for t key)) < 253"
  proof (cases "map_of (tree_entries t) key")
    case (Some r0)
    then have i: "int ?i < bp_node_get_size d" "leaf_get_key d ?i = key" and nu: "\<not> un" using found c by auto
    let ?d = "leaf_set_rid d ?i r"
    have pin: "0 < pin_count (pages b2 ! f)" using unpin_pins [OF b2(1) l(3) f1] l(4) by simp
    have fd: "frame_data b2 f = d" by (rule pool_frame [OF h2 l(6)]) (use b2(3) l(3) in simp)
    obtain b3 where b3: "unpin p True (frame_write f ?d b2) = Some b3" "pool_has (V(p \<mapsto> ?d)) b3"
      by (rule pool_write [OF h2 l(6) _ pin]) (use b2(3) l(3) in auto)
    have "bpt_insert tree key r b = Some (DB_OK, tree, b3)"
      using i nu l(1,5) b2(1) b3(1) un fd by (simp add: bpt_insert_def Let_def on_frame_def)
    then show ?thesis using change [OF b3(2)] put_old_entry [OF s k i] n(2) by auto
  next
    case None
    then have nf: "\<not> (int ?i < bp_node_get_size d \<and> leaf_get_key d ?i = key)" using found by blast
    have room: "bp_node_get_size d < 253" using c None n by (simp add: l(7))
    have new: "map_of (leaf_entries d) key = None" using None m(1) by simp
    let ?d = "snd (leaf_insert d ?i key r)"
    obtain b3 where b3: "unpin p True (frame_write f ?d b1) = Some b3" "pool_has (V(p \<mapsto> ?d)) b3"
      by (rule pool_write [OF l(2,6,3)]) (use l(4) in auto)
    have "bpt_insert tree key r b = Some (DB_OK, tree, b3)"
      using nf room l(1,5) b3(1) by (auto simp: bpt_insert_def Let_def on_frame_def)
    then show ?thesis using change [OF b3(2)] put_new_entry [OF s n(1) room new k] room by auto
  qed
qed

section \<open>Ranges\<close>

lemma stored_leaves:
  "stored t V \<Longrightarrow> (p, es) \<in> set (leaves t) \<Longrightarrow> leaf_at V p es"
  "stored_f f V \<Longrightarrow> (p, es) \<in> set (leaves_f f) \<Longrightarrow> leaf_at V p es"
  by (induction t and f) auto

lemma leaf_pages:
  "set (map fst (leaves t)) \<subseteq> set (pages_of t)" "set (map fst (leaves_f f)) \<subseteq> set (pages_of_f f)"
  by (induction t and f) auto

lemma distinct_leaves:
  "distinct (pages_of t) \<Longrightarrow> distinct (map fst (leaves t))" "distinct (pages_of_f f) \<Longrightarrow> distinct (map fst (leaves_f f))"
proof (induction t and f)
  case (Inner p t f)
  then show ?case using leaf_pages(1) [of t] leaf_pages(2) [of f] by auto
next
  case (More k t f)
  then show ?case using leaf_pages(1) [of t] leaf_pages(2) [of f] by auto
qed simp_all

lemma linked_append: "linked V (as @ bs) \<Longrightarrow> linked V bs"
  by (induction as) auto

lemma takeWhile_cut: "\<not> length (takeWhile P xs) < length xs \<longleftrightarrow> takeWhile P xs = xs"
  using length_takeWhile_le [of P xs] by (metis order_less_irrefl takeWhile_eq_take take_all not_less)

lemma takeWhile_go: "takeWhile P xs = xs \<Longrightarrow> takeWhile P (xs @ ys) = xs @ takeWhile P ys"
  by (metis set_takeWhileD takeWhile_append2)

lemma takeWhile_stop: "takeWhile P xs \<noteq> xs \<Longrightarrow> takeWhile P (xs @ ys) = takeWhile P xs"
  by (metis takeWhile_append1 takeWhile_eq_all_conv)

text \<open>One step of the walk, from a leaf with entries es of which the first are left out.\<close>

lemma range_step:
  assumes h: "pool_has V b" and l: "leaf_at V p es" "V p = Some d"
    and c: "drop (if p = leaf_pid then leaf_find_position d low else 0) es = xs"
  obtains b' where "pool_has V b'" "range_walk leaf_pid low high p rs b =
    (if takeWhile (\<lambda>e. fst e \<le> high) xs = xs then range_walk leaf_pid low high (leaf_get_next_page d) (rs @ map snd xs) b'
     else Some (rs @ map snd (takeWhile (\<lambda>e. fst e \<le> high) xs), b'))"
proof -
  have p: "p \<noteq> INVALID_PAGE_ID" "leaf_entries d = es" using l by (auto simp: leaf_at_def)
  obtain f b1 where f: "bpm_fetch_page p b = Some (Some f, b1)" "pool_le V b b1" "frame_data b1 f = d" by (rule pool_fetch [OF h l(2)]) blast
  have h1: "pool_has V b1" using pool_le_has [OF f(2)] by simp
  obtain b2 where b2: "unpin p False b1 = Some b2" "pool_le V b1 b2" by (rule pool_unpin [OF h1 l(2)])
  let ?w = "takeWhile (\<lambda>e. fst e \<le> high) xs"
  have r: "range_walk leaf_pid low high p rs b =
    (if length ?w < length xs then Some (rs @ map snd ?w, b2) else range_walk leaf_pid low high (leaf_get_next_page d) (rs @ map snd ?w) b2)"
    using p f(1,3) b2(1) c
    by (cases "p = leaf_pid") (auto simp: range_walk.simps [of leaf_pid low high p] range_walk.simps [of leaf_pid low high leaf_pid] Let_def)
  show ?thesis
  proof (rule that)
    show "pool_has V b2" using pool_le_has [OF b2(2)] by simp
    show "range_walk leaf_pid low high p rs b =
      (if ?w = xs then range_walk leaf_pid low high (leaf_get_next_page d) (rs @ map snd xs) b2 else Some (rs @ map snd ?w, b2))"
    proof (cases "?w = xs")
      case True
      then show ?thesis unfolding r by (simp only: less_irrefl if_False if_True simp_thms)
    next
      case False
      then have "length ?w < length xs" using takeWhile_cut [of "\<lambda>e. fst e \<le> high" xs] False by blast
      then show ?thesis unfolding r using False by (simp only: if_True if_False)
    qed
  qed
qed

lemma range_rest:
  "pool_has V b \<Longrightarrow> linked V (map fst ls) \<Longrightarrow> \<forall>(p, es) \<in> set ls. leaf_at V p es \<Longrightarrow> leaf_pid \<notin> fst ` set ls \<Longrightarrow>
   \<exists>b'. range_walk leaf_pid low high (if ls = [] then INVALID_PAGE_ID else fst (hd ls)) rs b =
      Some (rs @ map snd (takeWhile (\<lambda>e. fst e \<le> high) (entries_in ls)), b') \<and> pool_has V b'"
proof (induction ls arbitrary: b rs)
  case Nil
  then show ?case by (simp add: range_walk.simps)
next
  case (Cons l ls)
  obtain p es where l: "l = (p, es)" by (cases l)
  then obtain d where d: "V p = Some d" "leaf_at V p es" using Cons.prems(3) by (auto simp: leaf_at_def)
  have c: "drop (if p = leaf_pid then leaf_find_position d low else 0) es = es" using Cons.prems(4) l by auto
  have nx: "leaf_get_next_page d = (if ls = [] then INVALID_PAGE_ID else fst (hd ls))" "linked V (map fst ls)"
    using Cons.prems(2) d(1) by (cases ls; simp add: l)+
  obtain b' where b': "pool_has V b'" "range_walk leaf_pid low high p rs b =
    (if takeWhile (\<lambda>e. fst e \<le> high) es = es then range_walk leaf_pid low high (leaf_get_next_page d) (rs @ map snd es) b'
     else Some (rs @ map snd (takeWhile (\<lambda>e. fst e \<le> high) es), b'))"
    by (rule range_step [OF Cons.prems(1) d(2,1) c])
  show ?case
  proof (cases "takeWhile (\<lambda>e. fst e \<le> high) es = es")
    case True
    then show ?thesis using Cons.IH [OF b'(1) nx(2), of "rs @ map snd es"] Cons.prems(3,4) b'(2) nx(1) takeWhile_go [OF True] by (simp add: l)
  next
    case False
    then have "range_walk leaf_pid low high p rs b = Some (rs @ map snd (takeWhile (\<lambda>e. fst e \<le> high) es), b')"
      using b'(2) by (simp only: if_False)
    then show ?thesis using b'(1) takeWhile_stop [OF False] by (simp add: l)
  qed
qed

lemma takeWhile_sorted:
  "sorted_wrt (<) (map fst es) \<Longrightarrow> takeWhile (\<lambda>e. fst e \<le> high) es = filter (\<lambda>e. fst e \<le> (high :: int)) es"
proof (induction es)
  case (Cons e es)
  have "\<not> fst e \<le> high \<Longrightarrow> filter (\<lambda>e. fst e \<le> high) es = []" using Cons.prems by (fastforce simp: filter_empty_conv)
  then show ?case using Cons by auto
qed simp

lemma bpt_find_range_ok:
  assumes t: "tree_ok V t" and h: "pool_has V b"
  shows "\<exists>b'. bpt_find_range \<lparr>bt_index = iid, bt_root = page_of t, bt_unique = un\<rparr> low high rs b =
    Some (rs @ map snd (filter (\<lambda>e. low \<le> fst e \<and> fst e \<le> high) (tree_entries t)), b') \<and> pool_has V b'"
proof -
  obtain p es where l: "leaf_for t low = (p, es)" by (cases "leaf_for t low")
  have s: "stored t V" "ordered t KEY_MIN KEY_END" "length ([] :: path) + height t \<le> 64" "linked V (map fst (leaves t))" "distinct (pages_of t)"
    using t by (simp_all add: tree_ok_def)
  obtain path b1 where b1: "find_leaf (page_of t) low [] b = Some (p, path, b1)" "pool_le V b b1" "leaf_at V p es"
    using find_leaf_ok [OF s(1,2) h s(3), of low] l by auto
  obtain d where d: "V p = Some d" "leaf_entries d = es" using b1(3) by (auto simp: leaf_at_def)
  obtain pre post where pp: "leaves t = pre @ (p, es) # post" "\<forall>e \<in> set (entries_in pre). fst e < low" "\<forall>e \<in> set (entries_in post). low < fst e"
    using leaf_splits(1) [OF s(2), of low id] l by (auto simp: splits_def)
  have te: "tree_entries t = entries_in pre @ es @ entries_in post" by (simp add: tree_entries_def pp(1))
  have so: "sorted_wrt (<) (map fst es)" "sorted_wrt (<) (map fst (es @ entries_in post))"
    using ordered_sorted(1) [OF s(2)] by (simp_all add: pp(1) sorted_wrt_append)
  let ?xs = "filter (\<lambda>e. \<not> fst e < low) es"
  have c: "drop (if p = p then leaf_find_position d low else 0) es = ?xs"
    using leaf_find_position_split(2) [of d low] so(1) by (simp add: d(2))
  have h1: "pool_has V b1" using pool_le_has [OF b1(2)] by simp
  obtain b2 where b2: "pool_has V b2" "range_walk p low high p rs b1 =
    (if takeWhile (\<lambda>e. fst e \<le> high) ?xs = ?xs then range_walk p low high (leaf_get_next_page d) (rs @ map snd ?xs) b2
     else Some (rs @ map snd (takeWhile (\<lambda>e. fst e \<le> high) ?xs), b2))"
    by (rule range_step [OF h1 b1(3) d(1) c])
  have lk: "linked V (map fst ((p, es) # post))" using s(4) linked_append [of V "map fst pre" "map fst ((p, es) # post)"] by (simp add: pp(1))
  have nx: "leaf_get_next_page d = (if post = [] then INVALID_PAGE_ID else fst (hd post))" "linked V (map fst post)"
    using lk d(1) by (cases post; simp)+
  have la: "\<forall>(p, es) \<in> set post. leaf_at V p es" using stored_leaves(1) [OF s(1)] by (auto simp: pp(1))
  have np: "p \<notin> fst ` set post" using distinct_leaves(1) [OF s(5)] by (simp add: pp(1))
  have "\<exists>b'. range_walk p low high p rs b1 = Some (rs @ map snd (takeWhile (\<lambda>e. fst e \<le> high) (?xs @ entries_in post)), b') \<and> pool_has V b'"
  proof (cases "takeWhile (\<lambda>e. fst e \<le> high) ?xs = ?xs")
    case True
    then show ?thesis using range_rest [OF b2(1) nx(2) la np, of low high "rs @ map snd ?xs"] b2(2) nx(1) takeWhile_go [OF True] by simp
  next
    case False
    then have "range_walk p low high p rs b1 = Some (rs @ map snd (takeWhile (\<lambda>e. fst e \<le> high) ?xs), b2)"
      using b2(2) by (simp only: if_False)
    then show ?thesis using b2(1) takeWhile_stop [OF False] by simp
  qed
  moreover have "takeWhile (\<lambda>e. fst e \<le> high) (?xs @ entries_in post) = filter (\<lambda>e. low \<le> fst e \<and> fst e \<le> high) (tree_entries t)"
  proof -
    have post: "filter (\<lambda>e. \<not> fst e < low) (entries_in post) = entries_in post" "filter (\<lambda>e. \<not> fst e < low) (entries_in pre) = []"
      using pp(2,3) by (auto simp: filter_id_conv filter_empty_conv)
    then have xs: "?xs @ entries_in post = filter (\<lambda>e. \<not> fst e < low) (tree_entries t)" by (simp add: te)
    have "sorted_wrt (<) (map fst (?xs @ entries_in post))"
      unfolding xs by (rule map_fst_filter_sorted) (use ordered_sorted(1) [OF s(2)] in \<open>simp add: tree_entries_def\<close>)
    from takeWhile_sorted [OF this, of high] show ?thesis unfolding xs by (simp add: filter_filter not_less conj_commute)
  qed
  ultimately show ?thesis using b1(1) by (simp add: bpt_find_range_def)
qed

section \<open>The tree as a finite map\<close>

definition tree_at :: "int \<Rightarrow> bool \<Rightarrow> bptree \<Rightarrow> b_plus_tree" where
  "tree_at iid un t = \<lparr>bt_index = iid, bt_root = page_of t, bt_unique = un\<rparr>"

text \<open>C17. On a well-formed tree t of any height up to 64, in a pool with a frame for each of its pages, the operations of the
  B+ tree are those of a finite map, and end. \<open>bpt_find\<close> answers with the rid of the key; \<open>bpt_find_range\<close> with the rids of the keys
  from low to high, in the order of the keys; \<open>bpt_remove\<close> takes the key out of the map; \<open>bpt_insert\<close> refuses a key that a unique
  index has, and otherwise maps it to the rid. Afterwards the pool holds a well-formed tree with the same root, and every page outside
  the tree as before. Where the leaf of a new key is full, with 253 entries, the insertion writes past the end of the page: a leaf is
  never split within defined behaviour.\<close>

theorem bpt_map_spec:
  assumes "tree_ok V t" "pool_has V b" "entry_ok (key, r)"
  shows "(\<exists>b'. bpt_find (tree_at iid un t) key b =
       Some (case tree_map t key of None \<Rightarrow> Inl DB_PAGE_NOT_FOUND | Some r \<Rightarrow> Inr r, b') \<and> pool_has V b') \<and>
    (\<exists>b'. bpt_find_range (tree_at iid un t) low high rs b =
       Some (rs @ map snd (filter (\<lambda>e. low \<le> fst e \<and> fst e \<le> high) (tree_entries t)), b') \<and> pool_has V b') \<and>
    sorted_wrt (<) (map fst (tree_entries t)) \<and>
    (\<exists>b' V' t'. bpt_remove (tree_at iid un t) key b = Some (if tree_map t key = None then DB_PAGE_NOT_FOUND else DB_OK, b') \<and>
       pool_has V' b' \<and> tree_ok V' t' \<and> page_of t' = page_of t \<and> tree_map t' = (tree_map t)(key := None) \<and>
       (\<forall>q. q \<notin> set (pages_of t) \<longrightarrow> V' q = V q)) \<and>
    (if tree_map t key \<noteq> None \<and> un then
       \<exists>b'. bpt_insert (tree_at iid un t) key r b = Some (DB_DUPLICATE_KEY, tree_at iid un t, b') \<and> pool_has V b'
     else if tree_map t key = None \<and> 253 \<le> length (snd (leaf_for t key)) then bpt_insert (tree_at iid un t) key r b = None
     else
       \<exists>b' V' t'. bpt_insert (tree_at iid un t) key r b = Some (DB_OK, tree_at iid un t, b') \<and>
         pool_has V' b' \<and> tree_ok V' t' \<and> page_of t' = page_of t \<and> tree_map t' = (tree_map t)(key \<mapsto> r) \<and>
         (\<forall>q. q \<notin> set (pages_of t) \<longrightarrow> V' q = V q))"
proof -
  have k: "in_range 64 key" using assms(3) by (simp add: entry_ok_def)
  have s: "sorted_wrt (<) (map fst (tree_entries t))"
    using ordered_sorted(1) [of t KEY_MIN KEY_END] assms(1) by (simp add: tree_ok_def tree_entries_def)
  note ins = bpt_insert_ok [OF assms, where un = un and iid = iid]
  show ?thesis unfolding tree_at_def
  proof (intro conjI bpt_find_ok bpt_find_range_ok bpt_remove_ok assms k s)
    let ?tree = "\<lparr>bt_index = iid, bt_root = page_of t, bt_unique = un\<rparr>"
    consider "tree_map t key \<noteq> None" un | "tree_map t key = None" "253 \<le> length (snd (leaf_for t key))"
      | "\<not> (tree_map t key \<noteq> None \<and> un)" "\<not> (tree_map t key = None \<and> 253 \<le> length (snd (leaf_for t key)))" by argo
    then show "if tree_map t key \<noteq> None \<and> un then
       \<exists>b'. bpt_insert ?tree key r b = Some (DB_DUPLICATE_KEY, ?tree, b') \<and> pool_has V b'
     else if tree_map t key = None \<and> 253 \<le> length (snd (leaf_for t key)) then bpt_insert ?tree key r b = None
     else
       \<exists>b' V' t'. bpt_insert ?tree key r b = Some (DB_OK, ?tree, b') \<and>
         pool_has V' b' \<and> tree_ok V' t' \<and> page_of t' = page_of t \<and> tree_map t' = (tree_map t)(key \<mapsto> r) \<and>
         (\<forall>q. q \<notin> set (pages_of t) \<longrightarrow> V' q = V q)"
    proof cases
      case 1
      then show ?thesis unfolding if_P [OF conjI [OF 1]] by (rule ins(1))
    next
      case 2
      then have n: "\<not> (tree_map t key \<noteq> None \<and> un)" by blast
      show ?thesis unfolding if_not_P [OF n] if_P [OF conjI [OF 2]] using 2 by (rule ins(3))
    next
      case 3
      have "tree_map t key \<noteq> None \<and> \<not> un \<or> tree_map t key = None \<and> length (snd (leaf_for t key)) < 253"
        using 3 unfolding not_le [symmetric] by argo
      then show ?thesis unfolding if_not_P [OF 3(1)] if_not_P [OF 3(2)] by (rule ins(2))
    qed
  qed
qed

text \<open>A root with two leaves, in a pool of three frames.\<close>

definition small_leaf :: "int \<Rightarrow> int \<Rightarrow> rid \<Rightarrow> buffer" where
  "small_leaf n k r = (let p = leaf_set_next_page (init_leaf_page zero_page) n in bp_node_set_size (leaf_put p 0 k r) (bp_node_get_size p + 1))"

definition small_root :: "int \<Rightarrow> int \<Rightarrow> int \<Rightarrow> buffer" where
  "small_root c k c' = (let p = internal_set_child (init_internal_page zero_page) 0 c in bp_node_set_size (internal_put p 0 k c') (bp_node_get_size p + 1))"

lemma init_leaf_fields:
  "in_range 32 n \<Longrightarrow> bp_node_get_size (leaf_set_next_page (init_leaf_page d) n) = 0"
  "bp_node_get_type (leaf_set_next_page (init_leaf_page d) n) = 2"
  "in_range 32 n \<Longrightarrow> leaf_get_next_page (leaf_set_next_page (init_leaf_page d) n) = n"
  by (simp_all add: init_leaf_page_def leaf_fields in_range_def mem_simps)

lemma small_leaf:
  assumes "in_range 32 n" "entry_ok (k, r)"
  shows "leaf_entries (small_leaf n k r) = [(k, r)]" "bp_node_get_size (small_leaf n k r) = 1" "bp_node_get_type (small_leaf n k r) = 2"
    "leaf_get_next_page (small_leaf n k r) = n"
proof -
  let ?p = "leaf_set_next_page (init_leaf_page zero_page) n"
  note f = init_leaf_fields [where n = n and d = zero_page] and h = leaf_header_same [OF same_below_leaf_put [of ?p 0 k r]]
  have e: "leaf_entries ?p = []" using f(1) assms(1) by (simp add: leaf_entries_def)
  show "leaf_entries (small_leaf n k r) = [(k, r)]"
    using leaf_put_entries [of 0 ?p k r] assms f e by (simp add: small_leaf_def Let_def)
  show "bp_node_get_size (small_leaf n k r) = 1" "bp_node_get_type (small_leaf n k r) = 2" "leaf_get_next_page (small_leaf n k r) = n"
    using f h assms(1) by (simp_all add: small_leaf_def Let_def in_range_def)
qed

lemma small_root:
  assumes "in_range 32 c" "in_range 64 k" "in_range 32 c'"
  shows "inner_at [1 \<mapsto> small_root c k c'] 1 c [(k, c')]"
proof -
  let ?p = "internal_set_child (init_internal_page zero_page) 0 c"
  have f: "bp_node_get_size ?p = 0" "bp_node_get_type ?p = 1" "internal_get_child ?p 0 = c"
    using assms(1) by (simp_all add: init_internal_page_def internal_fields in_range_def mem_simps)
  note i = internal_put_pairs [of 0 ?p k c']
  have "internal_pairs ?p = []" using f(1) by (simp add: internal_pairs_def)
  then show ?thesis using i assms f same_below_get(1) [OF i(2), of 24 1]
    by (simp add: inner_at_def small_root_def Let_def bp_node_get_type_def)
qed

definition small_pages :: "int \<Rightarrow> buffer option" where
  "small_pages = [1 \<mapsto> small_root 2 10 3, 2 \<mapsto> small_leaf 3 5 \<lparr>rid_page = 7, rid_slot = 0\<rparr>, 3 \<mapsto> small_leaf (-1) 10 \<lparr>rid_page = 8, rid_slot = 1\<rparr>]"

definition small_tree :: bptree where
  "small_tree = Inner 1 (Leaf 2 [(5, \<lparr>rid_page = 7, rid_slot = 0\<rparr>)]) (More 10 (Leaf 3 [(10, \<lparr>rid_page = 8, rid_slot = 1\<rparr>)]) Nobody)"

lemma small_tree_ok: "tree_ok small_pages small_tree"
proof -
  have r: "in_range 32 3" "in_range 32 (-1)" "entry_ok (5, \<lparr>rid_page = 7, rid_slot = 0\<rparr>)" "entry_ok (10, \<lparr>rid_page = 8, rid_slot = 1\<rparr>)"
    by (simp_all add: in_range_def entry_ok_def)
  note l = small_leaf [OF r(1,3)] small_leaf [OF r(2,4)]
  have "inner_at small_pages 1 2 [(10, 3)]" using small_root [of 2 10 3] by (simp add: inner_at_def small_pages_def in_range_def)
  then show ?thesis using l
    by (simp add: tree_ok_def small_tree_def leaf_at_def small_pages_def leaf_between_def)
qed

lemma small_pool: obtains b where "pool_has small_pages b"
proof -
  have k: "(5::nat) < 1000" "(3::nat) < 1000" by simp_all
  let ?b = "demo_pool 3 5"
  note b = demo_pool_ok [OF k]
  have dp: "data_page (disk_manager ?b) [] 1" "data_page (disk_manager ?b) [] 2" "data_page (disk_manager ?b) [] 3"
    using b disk_with_ok(2) [OF k(1)] by simp_all
  obtain ps where ok: "disk_ok (disk_manager ?b) ps []" by (rule bpm_disk [of ?b "[0..<3]" "[]"]) (use b in blast)
  obtain d1 d2 d3 where d: "page_at (disk_manager ?b) 1 = Some d1" "page_at (disk_manager ?b) 2 = Some d2" "page_at (disk_manager ?b) 3 = Some d3"
    using page_at_ok [OF ok, of 1] page_at_ok [OF ok, of 2] page_at_ok [OF ok, of 3] dp by (auto simp: data_page_def)
  have v: "pool_view ?b p = page_at (disk_manager ?b) p" for p using b by (simp add: pool_view_def)
  let ?V = "[1 \<mapsto> d1, 2 \<mapsto> d2, 3 \<mapsto> d3]"
  have "card (absent ?V ?b) \<le> card {1 :: int, 2, 3}" by (rule card_mono) (auto simp: absent_def split: if_splits)
  then have "pool_in ?V [0..<3] [] ?b"
    using b dp d v by (auto simp: pool_in_def all_flagged_def split: if_splits)
  then have h: "pool_has ?V ?b" by (auto simp: pool_has_def)
  let ?p1 = "small_root 2 10 3" and ?p2 = "small_leaf 3 5 \<lparr>rid_page = 7, rid_slot = 0\<rparr>" and ?p3 = "small_leaf (-1) 10 \<lparr>rid_page = 8, rid_slot = 1\<rparr>"
  obtain b1 where h1: "pool_has (?V(1 \<mapsto> ?p1)) b1" by (rule pool_replace [OF h, of 1 d1]) simp
  obtain b2 where h2: "pool_has (?V(1 \<mapsto> ?p1, 2 \<mapsto> ?p2)) b2" by (rule pool_replace [OF h1, of 2 d2]) simp
  obtain b3 where "pool_has (?V(1 \<mapsto> ?p1, 2 \<mapsto> ?p2, 3 \<mapsto> ?p3)) b3" by (rule pool_replace [OF h2, of 3 d3]) simp
  moreover have "?V(1 \<mapsto> ?p1, 2 \<mapsto> ?p2, 3 \<mapsto> ?p3) = small_pages" by (auto simp: small_pages_def fun_eq_iff)
  ultimately show ?thesis using that by simp
qed

theorem bpt_map_spec_witness:
  "\<exists>b b1 b2 b3. let tree = \<lparr>bt_index = 4, bt_root = 1, bt_unique = True\<rparr> in
     bpt_find tree 7 b = Some (Inl DB_PAGE_NOT_FOUND, b1) \<and>
     bpt_find_range tree 5 20 [] b = Some ([\<lparr>rid_page = 7, rid_slot = 0\<rparr>, \<lparr>rid_page = 8, rid_slot = 1\<rparr>], b2) \<and>
     bpt_insert tree 7 \<lparr>rid_page = 9, rid_slot = 3\<rparr> b = Some (DB_OK, tree, b3)"
proof -
  obtain b where b: "pool_has small_pages b" by (rule small_pool)
  have e: "entry_ok (7, \<lparr>rid_page = 9, rid_slot = 3\<rparr>)" by (simp add: entry_ok_def in_range_def)
  have t: "tree_entries small_tree = [(5, \<lparr>rid_page = 7, rid_slot = 0\<rparr>), (10, \<lparr>rid_page = 8, rid_slot = 1\<rparr>)]"
    by (simp add: small_tree_def tree_entries_def entries_in_def)
  have l: "length (snd (leaf_for small_tree 7)) = 1" "page_of small_tree = 1" by (simp_all add: small_tree_def)
  let ?tree = "\<lparr>bt_index = 4, bt_root = 1, bt_unique = True\<rparr>"
  note m = bpt_map_spec [OF small_tree_ok b e, of 4 True 5 20 "[]", unfolded t tree_at_def l]
  obtain b1 where b1: "bpt_find ?tree 7 b = Some (Inl DB_PAGE_NOT_FOUND, b1)" using m by auto
  obtain b2 where b2: "bpt_find_range ?tree 5 20 [] b = Some ([\<lparr>rid_page = 7, rid_slot = 0\<rparr>, \<lparr>rid_page = 8, rid_slot = 1\<rparr>], b2)"
    using m by auto
  obtain b3 where b3: "bpt_insert ?tree 7 \<lparr>rid_page = 9, rid_slot = 3\<rparr> b = Some (DB_OK, ?tree, b3)" using m by auto
  show ?thesis using b1 b2 b3 by (intro exI [of _ b] exI [of _ b1] exI [of _ b2] exI [of _ b3]) (simp add: Let_def)
qed

end
