(* ===== verification/Spec2Isabelle.thy ===== *)
theory Spec2Isabelle
  imports Heap_File Free_Space_Manager Recovery Deadlock Schema_Tuple Stmt_Print Query_Spec Engine_Spec Bpt_Spec
begin

text \<open>
  A model of c_sqlite, a relational database in C (\<open>src/src\<close>), with the theorems that say what its parts do.

  The program. A statement is text; \<open>parser/lexer.c\<close> makes tokens of it and \<open>parser/parser.c\<close> a syntax tree;
  \<open>planner/planner.c\<close> turns the tree into a logical and then a physical plan, with the help of the tables in
  \<open>catalog/catalog.c\<close>; \<open>executor/execution_engine.c\<close> builds a tree of executors (\<open>executor/*_executor.c\<close>) from the plan
  and runs it. The executors evaluate expressions (\<open>expr_evaluator.c\<close>) over tuples (\<open>storage/tuple.c\<close>, \<open>schema.c\<close>, \<open>value.c\<close>), which
  \<open>executor/bpm_heap.c\<close> keeps in slotted pages (\<open>storage/slotted_page.c\<close>) that it fetches from the buffer pool
  (\<open>buffer/\<close>), over the page file (\<open>storage/disk_manager.c\<close>). Beside this path stand the heap file directly on the disk manager
  (\<open>storage/heap_file.c\<close>), the B+ tree (\<open>index/\<close>) and the transactions with their locks, deadlock detector,
  log and recovery (\<open>transaction/\<close>): the program has them and tests them, but the engine does not call them.

  Theories, by part of the program. Definitions carry the names of the C functions; a definition for a piece of a
  function says so where it stands.

    \<^item> Common: \<open>Prelude_Db\<close> (error codes of \<open>common/error.h\<close>, integers in a byte buffer, rids, the named collections
      \<open>mem_simps\<close> and \<open>int_simps\<close>), \<open>Hash_Map\<close> (\<open>common/hashmap.c\<close>), \<open>Linked_List\<close> (\<open>common/list.c\<close>, on a store of nodes),
      \<open>Free_Space_Manager\<close> (with \<open>common/vector.c\<close>), \<open>Int_Keys\<close> (tables keyed by an \<open>int\<close>).
    \<^item> Storage: \<open>Slotted_Page\<close>, \<open>Disk_Manager\<close>, \<open>Heap_File\<close>, \<open>Double\<close> (IEEE bit patterns), \<open>Value\<close>, \<open>Schema_Tuple\<close>.
    \<^item> Buffer: \<open>Lru_Replacer\<close>, \<open>Buffer_Pool\<close> (with \<open>page_guard.c\<close>).
    \<^item> Index: \<open>Bpt_Node\<close> (nodes on the bytes of a page), \<open>Bpt\<close> (tree and iterator on the pool), \<open>Bpt_Spec\<close>.
    \<^item> Transactions: \<open>Lock_Manager\<close>, \<open>Deadlock\<close>, \<open>Wal\<close>, \<open>Txn_Manager\<close>, \<open>Recovery\<close>.
    \<^item> Parser: \<open>Token\<close>, \<open>Lexer\<close>, \<open>Ast\<close>, \<open>Parser_Expr\<close>, \<open>Parser_Stmt\<close>; \<open>Parser_Print\<close> and \<open>Stmt_Print\<close> hold a printer and the
      round trips.
    \<^item> Queries: \<open>Expr_Eval\<close> (with \<open>planner/value_bridge.c\<close>), \<open>Bpm_Heap\<close>, \<open>Row_Source\<close> (the interface between executors), \<open>Executors\<close>,
      \<open>Exec_Spec\<close> and \<open>Query_Spec\<close> (what trees of executors return), \<open>Catalog\<close>, \<open>Planner\<close>, \<open>Engine\<close>, \<open>Engine_Spec\<close>.

  State and errors. A C struct is a record with the struct's fields, passed in and returned. A page is a buffer, a function
  from offsets to bytes; integers in it have the width the code gives them, and wrap. A pointer is an
  address in an explicit store where sharing matters: list nodes, transactions, a frame of the pool. Where ownership
  matters and values are copied, it is written out: rows that a SORT shares with what its \<open>close\<close> frees (\<open>exec_drop\<close>,
  \<open>rows_freed\<close>), the \<open>columns\<close> arrays that executors free (\<open>executor_destroy_tree\<close>). An error code is
  a value of \<open>error_code\<close>. A result None stands for a run outside defined behaviour (a NULL pointer followed, memory freed
  twice, an access past an array) or, in a \<open>partial_function\<close>, for a run that does not return; theorems that give a result
  \<open>Some\<close> so include that the code returns.

  Interfaces are locales, each interpreted on the model: \<open>page_device\<close> (the disk manager under heap file and pool), \<open>keyed_table\<close> and
  \<open>sized_table\<close> (hash map, free space manager), \<open>replacer\<close> (LRU replacer), \<open>libc_strcmp\<close> and \<open>libc_contract\<close> (the C library), \<open>worlds\<close>
  (the pool as the executors see it).

  Parameters, for what is outside the sources: \<open>strcmp\<close>, of which C promises the sign only (\<open>libc_strcmp\<close>; \<open>std_libc\<close> and the
  byte difference are instances), \<open>strtod\<close>, the \<open>%g\<close> format and \<open>qsort\<close> (record L of \<open>libc_contract\<close>); the contents m of a fresh buffer from
  \<open>malloc\<close>; stale, what a fresh \<open>schema_t\<close> on the stack holds; the schedule of faults of the file system in
  \<open>Disk_Manager\<close>.

  Loops. Those that always end are structural recursion or have a \<open>termination\<close> proof by a measure; no
  definition takes fuel. Walks along pages, chains of scans, the wait-for graph and the search for a leaf, which end on well-formed
  data only, are \<open>partial_function (option)\<close>, and the theorems prove the result on such data: along a chain by induction on
  the chain, in a tree on the tree, in the graph on the transactions not yet visited. The theorems on queries ask that the pool has a free
  frame for each page they use that is not in memory (\<open>pool_has\<close>): an eviction leaves the frame on the free list,
  and two pages come to share it (\<open>bpm_evicted_frame_shared\<close>).

  What the lemmas show, by group. Data structures: hash map, linked list, replacer, slotted page, heap file, disk
  manager, catalog and B+ tree are simulated by finite maps, lists and sets, over whole runs where the state is one value, and keep
  their invariants. Front end: the lexer's positions, the round trips of expressions and scripts, the parser's safety.
  Expressions: type soundness, the order on values, equivalences of SQL. Executors: \<open>Exec_Spec\<close> proves one executor at a time against the
  contract \<open>source\<close>, \<open>Query_Spec\<close> composes them to relational operators, \<open>Engine_Spec\<close> takes a SELECT through planner,
  \<open>build_executor\<close> and the run. Transactions: invariants of every reachable state, what commit releases, round trip of the log, the
  tables of recovery.

  What modelling showed. Several theorems state what the code does where this is not what it means to do: equations on an
  indexed column fail (\<open>indexed_equality_fails\<close>), a select list with aggregates gives NULLs (\<open>aggregates_lost\<close>), ORDER BY with LIMIT
  frees memory twice (\<open>order_limit_frees_twice\<close>), an evicted frame is shared, redo applies no image
  (\<open>recovery_redo_only_stamps_lsn\<close>) and a log that is opened again is erased (\<open>recovery_of_running_log\<close>), an ended
  transaction is read after it was freed (\<open>txn_commit_spec\<close>), a full leaf of the B+ tree is written past its page (\<open>bpt_map_spec\<close>).

  Not modelled. Pure input and output (logger, printing of trees and plans, shell and script runner), functions that only
  free memory except where freeing is the point, a failing \<open>malloc\<close> outside \<open>Disk_Manager\<close>, platform macros, the empty latch
  of a page, and the third-party framework of the unit tests. \<open>common/mem.c\<close> and \<open>file_io.c\<close> are there as far as their
  callers see them.
\<close>

end
